(* ===== verification/Prelude.thy ===== *)
theory Prelude
  imports Main "HOL-Library.Word" "HOL-Library.Monad_Syntax"
begin

unbundle bit_operations_syntax

text \<open>
  Shared vocabulary of the development: the machine integers of the 32-bit target, the option
  monad in which kernel operations run (\<open>None\<close> is a failed \<open>RT_ASSERT\<close>, a null or wild pointer
  access, i.e. anything after which the C code does not return), a small Hoare predicate \<open>ok\<close> for
  it, bounded memory copies, and the arithmetic and alignment macros of \<open>include/rtdef.h\<close>.
\<close>

type_synonym u8 = "8 word"
type_synonym u16 = "16 word"
type_synonym u32 = "32 word"

named_theorems ok_simps "rules that compute ok over the constructs of the option monad"
named_theorems arith32 "32-bit arithmetic on naturals, away from wrap-around"

section \<open>Results that must exist\<close>

text \<open>
  \<open>ok m P\<close>: the computation \<open>m\<close> returns, and its result satisfies \<open>P\<close> (total correctness).
\<close>

definition ok :: "'a option \<Rightarrow> ('a \<Rightarrow> bool) \<Rightarrow> bool" where
  "ok m P \<longleftrightarrow> (case m of None \<Rightarrow> False | Some x \<Rightarrow> P x)"

lemma ok_Some [ok_simps, simp]: "ok (Some x) P = P x"
  by (simp add: ok_def)

lemma ok_None [ok_simps, simp]: "ok None P = False"
  by (simp add: ok_def)

lemma ok_bind [ok_simps]: "ok (Option.bind m f) P = ok m (\<lambda>x. ok (f x) P)"
  by (cases m) simp_all

lemma ok_if [ok_simps]: "ok (if b then m else n) P = (if b then ok m P else ok n P)"
  by simp

lemma ok_Let [ok_simps]: "ok (Let x f) P = (let y = x in ok (f y) P)"
  by simp

lemma ok_iff: "ok m P \<longleftrightarrow> (\<exists>x. m = Some x \<and> P x)"
  by (cases m) simp_all

lemma ok_mono: "ok m P \<Longrightarrow> (\<And>x. m = Some x \<Longrightarrow> P x \<Longrightarrow> Q x) \<Longrightarrow> ok m Q"
  by (cases m) simp_all

lemma ok_conj: "ok m (\<lambda>x. P x \<and> Q x) \<longleftrightarrow> ok m P \<and> ok m Q"
  by (cases m) simp_all

lemma okE: "ok m P \<Longrightarrow> (\<And>x. m = Some x \<Longrightarrow> P x \<Longrightarrow> R) \<Longrightarrow> R"
  by (cases m) simp_all

text \<open>\<open>RT_ASSERT\<close>: the assertion handler of the kernel does not return.\<close>

definition rt_assert :: "bool \<Rightarrow> unit option" where
  "rt_assert b = (if b then Some () else None)"

lemma rt_assert_True [simp]: "rt_assert True = Some ()"
  by (simp add: rt_assert_def)

lemma rt_assert_eq_Some [simp]: "rt_assert b = Some u \<longleftrightarrow> b"
  by (simp add: rt_assert_def)

lemma ok_assert [ok_simps]: "ok (rt_assert b) P = (b \<and> P ())"
  by (simp add: rt_assert_def)

lemma bind_assert_eq_Some [simp]:
  "Option.bind (rt_assert b) f = Some x \<longleftrightarrow> b \<and> f () = Some x"
  by (simp add: rt_assert_def)

section \<open>Error codes (\<open>include/rtdef.h\<close>)\<close>

text \<open>\<open>rt_err_t\<close> values; functions return them negated.\<close>

abbreviation (input) RT_EOK :: int where "RT_EOK \<equiv> 0"
abbreviation (input) RT_ERROR :: int where "RT_ERROR \<equiv> 1"
abbreviation (input) RT_ETIMEOUT :: int where "RT_ETIMEOUT \<equiv> 2"
abbreviation (input) RT_EFULL :: int where "RT_EFULL \<equiv> 3"
abbreviation (input) RT_EEMPTY :: int where "RT_EEMPTY \<equiv> 4"
abbreviation (input) RT_ENOMEM :: int where "RT_ENOMEM \<equiv> 5"
abbreviation (input) RT_EBUSY :: int where "RT_EBUSY \<equiv> 7"
abbreviation (input) RT_EINTR :: int where "RT_EINTR \<equiv> 9"
abbreviation (input) RT_EINVAL :: int where "RT_EINVAL \<equiv> 10"

section \<open>Object kinds\<close>

text \<open>
  The \<open>type\<close> field of a kernel object as its own component reads it: not an object of the class
  (never initialised, or detached), a statically initialised one, or one from the heap.
\<close>

datatype obj_kind = Obj_Null | Obj_Static | Obj_Dynamic

section \<open>Memory copies\<close>

text \<open>
  A buffer is the list of its cells. A copy out of, or into, a range that is not inside the buffer
  is an error of the program (\<open>None\<close>), never a truncated copy.
\<close>

definition mem_read :: "'a list \<Rightarrow> nat \<Rightarrow> nat \<Rightarrow> 'a list option" where
  "mem_read buf off n = (if off + n \<le> length buf then Some (take n (drop off buf)) else None)"

definition mem_write :: "'a list \<Rightarrow> nat \<Rightarrow> 'a list \<Rightarrow> 'a list option" where
  "mem_write buf off src =
     (if off + length src \<le> length buf
      then Some (take off buf @ src @ drop (off + length src) buf) else None)"

lemma mem_read_in [simp]: "off + n \<le> length buf \<Longrightarrow> mem_read buf off n = Some (take n (drop off buf))"
  by (simp add: mem_read_def)

lemma mem_write_in:
  "off + length src \<le> length buf \<Longrightarrow>
   mem_write buf off src = Some (take off buf @ src @ drop (off + length src) buf)"
  by (simp add: mem_write_def)

lemma mem_write_Ex: "off + length src \<le> length buf \<Longrightarrow> \<exists>buf'. mem_write buf off src = Some buf'"
  by (simp add: mem_write_def)

lemma mem_write_length: "mem_write buf off src = Some buf' \<Longrightarrow> length buf' = length buf"
  by (auto simp: mem_write_def split: if_splits)

lemma mem_write_nth:
  "mem_write buf off src = Some buf' \<Longrightarrow> i < length buf \<Longrightarrow>
   buf' ! i = (if off \<le> i \<and> i < off + length src then src ! (i - off) else buf ! i)"
  by (auto simp: mem_write_def nth_append split: if_splits)

lemma mem_write_single: "i < length buf \<Longrightarrow> mem_write buf i [x] = Some (buf[i := x])"
  by (simp add: mem_write_def upd_conv_take_nth_drop)

section \<open>Unsigned 32-bit arithmetic on naturals\<close>

text \<open>
  Sizes and offsets (\<open>rt_size_t\<close>, \<open>rt_uint32_t\<close>) are naturals; sums and differences that C
  computes in 32 bits are written with their wrap-around.
\<close>

definition add32 :: "nat \<Rightarrow> nat \<Rightarrow> nat" where
  "add32 a b = (a + b) mod 2 ^ 32"

definition sub32 :: "nat \<Rightarrow> nat \<Rightarrow> nat" where
  "sub32 a b = (a + 2 ^ 32 - b) mod 2 ^ 32"

definition mul32 :: "nat \<Rightarrow> nat \<Rightarrow> nat" where
  "mul32 a b = (a * b) mod 2 ^ 32"

lemma mul32_small [arith32]: "a * b < 2 ^ 32 \<Longrightarrow> mul32 a b = a * b"
  by (simp add: mul32_def)

lemma add32_small [arith32]: "a + b < 2 ^ 32 \<Longrightarrow> add32 a b = a + b"
  by (simp add: add32_def)

lemma sub32_small [arith32]: "b \<le> a \<Longrightarrow> a < 2 ^ 32 \<Longrightarrow> sub32 a b = a - b"
proof -
  assume "b \<le> a" "a < 2 ^ 32"
  then have "sub32 a b = ((a - b) + 2 ^ 32) mod 2 ^ 32" by (simp add: sub32_def)
  also have "\<dots> = (a - b) mod 2 ^ 32" by (rule mod_add_self2)
  also have "\<dots> = a - b" using \<open>a < 2 ^ 32\<close> by (intro mod_less) linarith
  finally show ?thesis .
qed

lemma unat_u32 [simp]: "unat (w :: u32) < 4294967296"
  using unsigned_less [of w] by simp

lemma unat_u16 [simp]: "unat (w :: u16) < 65536"
  using unsigned_less [of w] by simp

section \<open>Alignment: \<open>RT_ALIGN\<close> and \<open>RT_ALIGN_DOWN\<close>\<close>

definition RT_ALIGN_DOWN :: "nat \<Rightarrow> nat \<Rightarrow> nat" where
  "RT_ALIGN_DOWN sz align = unat ((word_of_nat sz :: u32) AND NOT (word_of_nat align - 1))"

definition RT_ALIGN :: "nat \<Rightarrow> nat \<Rightarrow> nat" where
  "RT_ALIGN sz align =
     unat ((word_of_nat sz + word_of_nat align - 1 :: u32) AND NOT (word_of_nat align - 1))"

text \<open>\<open>RT_ALIGN_SIZE\<close> of the configuration modelled.\<close>

definition RT_ALIGN_SIZE :: nat where
  "RT_ALIGN_SIZE = 8"

lemma and_not7: "(w :: u32) AND - 8 = w - take_bit 3 w"
proof -
  have "w AND NOT (mask 3) = push_bit 3 (drop_bit 3 w)"
    by (rule bit_eqI) (auto simp: bit_simps)
  also have "\<dots> = w - take_bit 3 w"
    using bits_ident [of 3 w] by (simp add: eq_diff_eq)
  finally show ?thesis by (simp add: mask_eq_exp_minus_1)
qed

lemma and_not7_unat: "unat ((w :: u32) AND - 8) = unat w - unat w mod 8"
proof -
  have t: "unat (take_bit 3 w) = unat w mod 8"
    by (simp add: take_bit_eq_mod unat_mod)
  then have "take_bit 3 w \<le> w"
    by (simp add: word_le_nat_alt)
  then show ?thesis by (simp add: and_not7 unat_sub t)
qed

lemma RT_ALIGN_DOWN_8:
  "n < 2 ^ 32 \<Longrightarrow> RT_ALIGN_DOWN n RT_ALIGN_SIZE = n - n mod 8"
  by (simp add: RT_ALIGN_DOWN_def RT_ALIGN_SIZE_def and_not7_unat unat_of_nat)

lemma RT_ALIGN_8:
  "n < 2 ^ 32 - 7 \<Longrightarrow> RT_ALIGN n RT_ALIGN_SIZE = (n + 7) - (n + 7) mod 8"
proof -
  assume n: "n < 2 ^ 32 - 7"
  have "word_of_nat n + word_of_nat 8 - 1 = (word_of_nat (n + 7) :: u32)" by simp
  then have "RT_ALIGN n RT_ALIGN_SIZE = unat ((word_of_nat (n + 7) :: u32) AND - 8)"
    unfolding RT_ALIGN_def RT_ALIGN_SIZE_def by (simp add: add.commute)
  also have "\<dots> = (n + 7) - (n + 7) mod 8"
    using n by (simp only: and_not7_unat unat_of_nat) simp
  finally show ?thesis .
qed

lemmas align_simps = RT_ALIGN_8 RT_ALIGN_DOWN_8

section \<open>Single bits of words\<close>

lemma word_test_bit0: "(w :: 'a::len word) AND 1 = 0 \<longleftrightarrow> \<not> bit w 0"
  using and_exp_eq_0_iff_not_bit [of w 0] by simp

lemma word_test_bit1: "(w :: 'a::len word) AND 2 = 0 \<longleftrightarrow> \<not> bit w 1"
  using and_exp_eq_0_iff_not_bit [of w 1] by simp

section \<open>Lists\<close>

lemma removeAll_notin: "x \<notin> set xs \<Longrightarrow> removeAll x xs = xs"
  by (induction xs) auto

lemma set_takeWhile_dropWhile: "set (takeWhile P xs) \<union> set (dropWhile P xs) = set xs"
  by (metis set_append takeWhile_dropWhile_id)

lemma set_insert_split: "set (takeWhile P xs @ t # dropWhile P xs) = insert t (set xs)"
  unfolding set_append list.set using set_takeWhile_dropWhile [of P xs] by blast

lemma take_map_upt: "k \<le> n \<Longrightarrow> take k (map f [0..<n]) = map f [0..<k]"
  by (simp add: take_map take_upt)

lemma drop_map_upt: "drop k (map f [0..<n]) = map (\<lambda>i. f (i + k)) [0..<n - k]"
  by (rule nth_equalityI) (auto simp: add.commute)

lemma map_upt_append:
  "map f [0..<m] @ map g [0..<n] = map (\<lambda>i. if i < m then f i else g (i - m)) [0..<m + n]"
  by (rule nth_equalityI) (auto simp: nth_append)

text \<open>Different positions of a ring of \<open>n\<close> slots, less than a round apart, are different slots.\<close>

lemma ring_slots_differ:
  assumes "k < e" "e < (n :: nat)"
  shows "(a + k) mod n \<noteq> (a + e) mod n"
proof
  assume "(a + k) mod n = (a + e) mod n"
  then have "n dvd (a + e) - (a + k)" using assms by (metis add_le_cancel_left less_imp_le mod_eq_dvd_iff_nat)
  then show False using assms by (auto dest: dvd_imp_le)
qed

text \<open>The \<open>e\<close> elements of a ring of \<open>n\<close> slots from slot \<open>p\<close> on.\<close>

definition ring_list :: "'a list \<Rightarrow> nat \<Rightarrow> nat \<Rightarrow> nat \<Rightarrow> 'a list" where
  "ring_list pool p n e = map (\<lambda>k. pool ! ((p + k) mod n)) [0..<e]"

lemma ring_list_0 [simp]: "ring_list pool p n 0 = []"
  by (simp add: ring_list_def)

lemma ring_list_snoc:
  assumes "e < n" "n \<le> length pool"
  shows "ring_list (pool[(p + e) mod n := v]) p n (Suc e) = ring_list pool p n e @ [v]"
proof -
  have "(p + e) mod n < length pool" using assms mod_less_divisor [of n "p + e"] by linarith
  moreover have "(p + e) mod n \<noteq> (p + k) mod n" if "k < e" for k
    using that assms ring_slots_differ [of k e n p] by metis
  ultimately show ?thesis by (simp add: ring_list_def)
qed

lemma ring_list_Suc:
  assumes "p < n"
  shows "ring_list pool p n (Suc e) = pool ! p # ring_list pool ((p + 1) mod n) n e"
proof -
  have "[0..<Suc e] = 0 # map Suc [0..<e]" by (simp add: map_Suc_upt upt_conv_Cons del: upt_Suc)
  then show ?thesis using assms by (simp add: ring_list_def mod_simps comp_def del: upt_Suc)
qed

text \<open>The distance from slot \<open>p\<close> to the slot \<open>e\<close> steps on.\<close>

lemma ring_distance:
  assumes "p < (n :: nat)" "e < n"
  shows "((p + e) mod n + n - p) mod n = e"
  using assms by (cases "p + e < n") (auto simp: mod_if)

end
