(* ===== verification/Rt_List.thy ===== *)
theory Rt_List
  imports Prelude
begin

text \<open>
  The intrusive doubly linked lists of \<open>include/rtservice.h\<close>, on which every queue of the kernel
  is built (ready lists, suspend lists, timer lists). The operations are translated pointer write
  by pointer write on a heap of \<open>next\<close>/\<open>prev\<close> cells. \<open>list_family\<close> relates such a heap to one
  Isabelle list per list head, and each operation is shown to refine the list operation that the
  other theories use for it: inserting behind a head is \<open>#\<close>, inserting before a head appends,
  removing a node removes it from whichever list it is on and does nothing to a node on no list.
\<close>

record 'n list_heap =
  ln_next :: "'n \<Rightarrow> 'n"
  ln_prev :: "'n \<Rightarrow> 'n"

section \<open>The operations\<close>

definition rt_list_init :: "'n \<Rightarrow> 'n list_heap \<Rightarrow> 'n list_heap" where
  "rt_list_init l h = h\<lparr>ln_prev := (ln_prev h)(l := l), ln_next := (ln_next h)(l := l)\<rparr>"

definition rt_list_insert_after :: "'n \<Rightarrow> 'n \<Rightarrow> 'n list_heap \<Rightarrow> 'n list_heap" where
  "rt_list_insert_after l n h0 =
     (let h1 = h0\<lparr>ln_prev := (ln_prev h0)(ln_next h0 l := n)\<rparr>;
          h2 = h1\<lparr>ln_next := (ln_next h1)(n := ln_next h1 l)\<rparr>;
          h3 = h2\<lparr>ln_next := (ln_next h2)(l := n)\<rparr>
      in h3\<lparr>ln_prev := (ln_prev h3)(n := l)\<rparr>)"

definition rt_list_insert_before :: "'n \<Rightarrow> 'n \<Rightarrow> 'n list_heap \<Rightarrow> 'n list_heap" where
  "rt_list_insert_before l n h0 =
     (let h1 = h0\<lparr>ln_next := (ln_next h0)(ln_prev h0 l := n)\<rparr>;
          h2 = h1\<lparr>ln_prev := (ln_prev h1)(n := ln_prev h1 l)\<rparr>;
          h3 = h2\<lparr>ln_prev := (ln_prev h2)(l := n)\<rparr>
      in h3\<lparr>ln_next := (ln_next h3)(n := l)\<rparr>)"

definition rt_list_remove :: "'n \<Rightarrow> 'n list_heap \<Rightarrow> 'n list_heap" where
  "rt_list_remove n h0 =
     (let h1 = h0\<lparr>ln_prev := (ln_prev h0)(ln_next h0 n := ln_prev h0 n)\<rparr>;
          h2 = h1\<lparr>ln_next := (ln_next h1)(ln_prev h1 n := ln_next h1 n)\<rparr>;
          h3 = h2\<lparr>ln_prev := (ln_prev h2)(n := n)\<rparr>
      in h3\<lparr>ln_next := (ln_next h3)(n := n)\<rparr>)"

definition rt_list_isempty :: "'n \<Rightarrow> 'n list_heap \<Rightarrow> bool" where
  "rt_list_isempty l h \<longleftrightarrow> ln_next h l = l"

text \<open>
  The counting loop of \<open>rt_list_len\<close>: it ends only if the chain comes back to \<open>l\<close>, so the
  result is an option and \<open>None\<close> is a loop that never ends.
\<close>

partial_function (option) list_len_loop :: "'n \<Rightarrow> 'n list_heap \<Rightarrow> 'n \<Rightarrow> u32 \<Rightarrow> u32 option" where
  "list_len_loop l h p len =
     (if ln_next h p \<noteq> l then list_len_loop l h (ln_next h p) (len + 1) else Some len)"

definition rt_list_len :: "'n \<Rightarrow> 'n list_heap \<Rightarrow> u32 option" where
  "rt_list_len l h = list_len_loop l h l 0"

section \<open>Chains and rings\<close>

fun chain :: "'n list_heap \<Rightarrow> 'n \<Rightarrow> 'n list \<Rightarrow> 'n \<Rightarrow> bool" where
  "chain h a [] b \<longleftrightarrow> ln_next h a = b \<and> ln_prev h b = a"
| "chain h a (x # xs) b \<longleftrightarrow> ln_next h a = x \<and> ln_prev h x = a \<and> chain h x xs b"

definition ring :: "'n list_heap \<Rightarrow> 'n \<Rightarrow> 'n list \<Rightarrow> bool" where
  "ring h l xs \<longleftrightarrow> chain h l xs l \<and> distinct (l # xs)"

text \<open>
  \<open>list_family H F L h\<close>: in the heap \<open>h\<close> every head of \<open>H\<close> carries the list \<open>L\<close> gives it, every
  node of \<open>F\<close> is on no list (it points to itself), and no node is on two lists.
\<close>

definition list_family :: "'n set \<Rightarrow> 'n set \<Rightarrow> ('n \<Rightarrow> 'n list) \<Rightarrow> 'n list_heap \<Rightarrow> bool" where
  "list_family H F L h \<longleftrightarrow>
     (\<forall>l \<in> H. ring h l (L l)) \<and> (\<forall>n \<in> F. ring h n []) \<and> H \<inter> F = {} \<and>
     (\<forall>l \<in> H. set (L l) \<inter> (H \<union> F) = {}) \<and>
     (\<forall>l \<in> H. \<forall>l' \<in> H. l \<noteq> l' \<longrightarrow> set (L l) \<inter> set (L l') = {})"

lemma chain_append: "chain h a (xs @ x # ys) b \<longleftrightarrow> chain h a xs x \<and> chain h x ys b"
  by (induction xs arbitrary: a) auto

lemma chain_last: "chain h a xs b \<Longrightarrow> ln_prev h b = (if xs = [] then a else last xs)"
  by (induction xs arbitrary: a) auto

lemma chain_hd: "chain h a xs b \<Longrightarrow> ln_next h a = (if xs = [] then b else hd xs)"
  by (cases xs) auto

lemma chain_cong:
  assumes "chain h a xs b"
    and "\<And>n. n \<in> set (a # xs) \<Longrightarrow> ln_next h' n = ln_next h n"
    and "\<And>n. n \<in> set (b # xs) \<Longrightarrow> ln_prev h' n = ln_prev h n"
  shows "chain h' a xs b"
  using assms by (induction xs arbitrary: a) auto

lemma ring_cong:
  assumes "ring h l xs"
    and "\<And>n. n \<in> set (l # xs) \<Longrightarrow> ln_next h' n = ln_next h n \<and> ln_prev h' n = ln_prev h n"
  shows "ring h' l xs"
  using assms unfolding ring_def by (auto intro: chain_cong)

lemma ring_Nil: "ring h n [] \<longleftrightarrow> ln_next h n = n \<and> ln_prev h n = n"
  by (auto simp: ring_def)

text \<open>The two insertions and the removal as single updates of the two neighbours and the node.\<close>

lemma insert_between_chain:
  assumes c: "chain h a (xs @ ys) b" and d: "distinct (a # xs @ ys)" "b \<notin> set (xs @ ys)"
    and n: "n \<notin> set (a # b # xs @ ys)"
    and p: "p = (if xs = [] then a else last xs)" and q: "q = (if ys = [] then b else hd ys)"
    and nx: "ln_next h' = (ln_next h)(p := n, n := q)"
    and pv: "ln_prev h' = (ln_prev h)(q := n, n := p)"
  shows "chain h' a (xs @ n # ys) b"
  unfolding chain_append
proof
  show "chain h' n ys b"
  proof (cases ys)
    case Nil
    then show ?thesis using q n nx pv by auto
  next
    case (Cons y zs)
    have "chain h y zs b" using c Cons by (simp add: chain_append)
    moreover have "xs \<noteq> [] \<Longrightarrow> last xs \<notin> set (y # zs)" using d Cons last_in_set [of xs] by (auto simp: disjoint_iff)
    ultimately have "chain h' y zs b"
      by - (rule chain_cong, use Cons d n p q nx pv in \<open>auto split: if_splits\<close>)
    with Cons q n nx pv d show ?thesis by auto
  qed
  show "chain h' a xs n"
  proof (cases xs rule: rev_cases)
    case Nil
    then show ?thesis using p n nx pv by auto
  next
    case (snoc zs z)
    have "chain h a zs z" using c snoc by (simp add: chain_append)
    then have "chain h' a zs z"
      by (rule chain_cong) (use snoc d n p q nx pv in \<open>auto split: if_splits dest: hd_in_set\<close>)
    with snoc p n nx pv d show ?thesis by (auto simp: chain_append)
  qed
qed

lemma remove_between_chain:
  assumes c: "chain h a (xs @ n # ys) b" and d: "distinct (a # xs @ n # ys)" "b \<notin> set (xs @ n # ys)"
    and p: "p = (if xs = [] then a else last xs)" and q: "q = (if ys = [] then b else hd ys)"
    and nx: "ln_next h' = (ln_next h)(p := q, n := n)"
    and pv: "ln_prev h' = (ln_prev h)(q := p, n := n)"
  shows "chain h' a (xs @ ys) b"
proof -
  have cx: "chain h a xs n" and cy: "chain h n ys b" using c by (simp_all add: chain_append)
  show ?thesis
  proof (cases ys)
    case Nil
    show ?thesis
    proof (cases xs rule: rev_cases)
      case Nil
      with \<open>ys = []\<close> p q nx pv d show ?thesis by auto
    next
      case (snoc zs z)
      have "chain h a zs z" using cx snoc by (simp add: chain_append)
      then have "chain h' a zs z"
        by (rule chain_cong) (use snoc Nil d p q nx pv in \<open>auto split: if_splits\<close>)
      with snoc Nil p q nx pv d show ?thesis by (auto simp: chain_append)
    qed
  next
    case (Cons y zs)
    have "chain h y zs b" using cy Cons by simp
    moreover have "xs \<noteq> [] \<Longrightarrow> last xs \<notin> set (y # zs)" using d Cons last_in_set [of xs] by (auto simp: disjoint_iff)
    ultimately have yb: "chain h' y zs b"
      by - (rule chain_cong, use Cons d p q nx pv in \<open>auto split: if_splits\<close>)
    have "chain h' a xs y"
    proof (cases xs rule: rev_cases)
      case Nil
      with Cons p q nx pv d show ?thesis by auto
    next
      case (snoc ws z)
      have "chain h a ws z" using cx snoc by (simp add: chain_append)
      then have "chain h' a ws z"
        by (rule chain_cong) (use snoc Cons d p q nx pv in \<open>auto split: if_splits\<close>)
      with snoc Cons p q nx pv d show ?thesis by (auto simp: chain_append)
    qed
    with yb Cons show ?thesis by (simp add: chain_append)
  qed
qed

lemma rt_list_insert_after_links:
  assumes "n \<noteq> l" "ln_next h l = q" "q \<noteq> n"
  shows "ln_next (rt_list_insert_after l n h) = (ln_next h)(l := n, n := q)"
    and "ln_prev (rt_list_insert_after l n h) = (ln_prev h)(q := n, n := l)"
  using assms by (auto simp: rt_list_insert_after_def Let_def fun_eq_iff)

lemma rt_list_insert_before_links:
  assumes "n \<noteq> l" "ln_prev h l = p" "p \<noteq> n"
  shows "ln_next (rt_list_insert_before l n h) = (ln_next h)(p := n, n := l)"
    and "ln_prev (rt_list_insert_before l n h) = (ln_prev h)(l := n, n := p)"
  using assms by (auto simp: rt_list_insert_before_def Let_def fun_eq_iff)

lemma rt_list_remove_links:
  assumes "ln_next h n = q" "ln_prev h n = p" "q \<noteq> n" "p \<noteq> n"
  shows "ln_next (rt_list_remove n h) = (ln_next h)(p := q, n := n)"
    and "ln_prev (rt_list_remove n h) = (ln_prev h)(q := p, n := n)"
  using assms by (auto simp: rt_list_remove_def Let_def fun_eq_iff)

section \<open>Families of lists\<close>

lemma list_familyD:
  assumes "list_family H F L h"
  shows "l \<in> H \<Longrightarrow> ring h l (L l)" "n \<in> F \<Longrightarrow> ring h n []" "H \<inter> F = {}"
    "l \<in> H \<Longrightarrow> x \<in> set (L l) \<Longrightarrow> x \<notin> H \<and> x \<notin> F"
    "l \<in> H \<Longrightarrow> l' \<in> H \<Longrightarrow> x \<in> set (L l) \<Longrightarrow> x \<in> set (L l') \<Longrightarrow> l = l'"
  using assms unfolding list_family_def by blast+

lemma family_insert:
  assumes f: "list_family H F L h" and n: "n \<in> F" and l: "l \<in> H" and L: "L l = xs @ ys"
    and p: "p = (if xs = [] then l else last xs)" and q: "q = (if ys = [] then l else hd ys)"
    and nx: "ln_next h' = (ln_next h)(p := n, n := q)"
    and pv: "ln_prev h' = (ln_prev h)(q := n, n := p)"
  shows "list_family H (F - {n}) (L(l := xs @ n # ys)) h'"
proof -
  note fam = list_familyD [OF f]
  have nl: "n \<noteq> l" "n \<notin> H" "n \<notin> set (L k)" if "k \<in> H" for k
    using fam(3) fam(4) [OF that] n l by auto
  have pq: "p \<in> set (l # xs @ ys)" "q \<in> set (l # xs @ ys)"
    using p q by (auto simp: last_in_set)
  have dist: "distinct (l # xs @ ys)" using fam(1) [OF l] L by (simp add: ring_def)
  have "ring h' l (xs @ n # ys)"
    unfolding ring_def
  proof
    show "chain h' l (xs @ n # ys) l"
      by (rule insert_between_chain [OF _ _ _ _ p q nx pv])
        (use fam(1) [OF l] L dist nl [OF l] in \<open>auto simp: ring_def\<close>)
    show "distinct (l # xs @ n # ys)" using dist nl [OF l] L by auto
  qed
  moreover have "ring h' k (L k)" if k: "k \<in> H" "k \<noteq> l" for k
  proof (rule ring_cong [OF fam(1) [OF k(1)]])
    fix m assume "m \<in> set (k # L k)"
    then have "m \<noteq> p" "m \<noteq> q" "m \<noteq> n"
      using pq nl [OF k(1)] k fam(4) [OF l, unfolded L] fam(4) [OF k(1)] fam(5) [OF k(1) l]
        L l by auto
    then show "ln_next h' m = ln_next h m \<and> ln_prev h' m = ln_prev h m" by (simp add: nx pv)
  qed
  moreover have "ring h' m []" if m: "m \<in> F - {n}" for m
  proof (rule ring_cong [OF fam(2)])
    fix i assume "i \<in> set [m]"
    then have "i \<noteq> p" "i \<noteq> q" "i \<noteq> n" using pq m fam(3) fam(4) [OF l, unfolded L] l by auto
    then show "ln_next h' i = ln_next h i \<and> ln_prev h' i = ln_prev h i" by (simp add: nx pv)
  qed (use m in auto)
  moreover have "set ((L(l := xs @ n # ys)) k) \<inter> (H \<union> (F - {n})) = {}" if "k \<in> H" for k
    using fam(4) [OF that] fam(4) [OF l] nl [OF l] L by auto
  moreover have "set ((L(l := xs @ n # ys)) k) \<inter> set ((L(l := xs @ n # ys)) k') = {}"
    if k: "k \<in> H" "k' \<in> H" "k \<noteq> k'" for k k'
  proof -
    have "set (L k) \<inter> set (L k') = {}" using fam(5) [OF k(1,2)] k(3) by blast
    then show ?thesis using k nl(3) [OF k(1)] nl(3) [OF k(2)] L by auto
  qed
  ultimately show ?thesis
    using fam(3) unfolding list_family_def by (simp add: Int_Diff) blast
qed


theorem family_insert_after:
  assumes f: "list_family H F L h" and n: "n \<in> F" and l: "l \<in> H"
  shows "list_family H (F - {n}) (L(l := n # L l)) (rt_list_insert_after l n h)"
proof -
  note fam = list_familyD [OF f]
  have c: "chain h l (L l) l" using fam(1) [OF l] by (simp add: ring_def)
  have "n \<noteq> l" "n \<notin> set (L l)" using fam(3) fam(4) [OF l] n l by auto
  then have "ln_next h l \<noteq> n" using chain_hd [OF c] by auto
  note links = rt_list_insert_after_links [OF \<open>n \<noteq> l\<close> refl this]
  show ?thesis
    using family_insert [OF f n l, of "[]" "L l", OF _ refl refl] links chain_hd [OF c] by simp
qed

theorem family_insert_before:
  assumes f: "list_family H F L h" and n: "n \<in> F" and l: "l \<in> H"
    and m: "L l = xs @ ys" "m = (if ys = [] then l else hd ys)"
  shows "list_family H (F - {n}) (L(l := xs @ n # ys)) (rt_list_insert_before m n h)"
proof -
  note fam = list_familyD [OF f]
  have c: "chain h l (xs @ ys) l" using fam(1) [OF l] m by (simp add: ring_def)
  have nl: "n \<noteq> l" "n \<notin> set (L l)" using fam(3) fam(4) [OF l] n l by auto
  then have nm: "n \<noteq> m" using m by auto
  have pm: "ln_prev h m = (if xs = [] then l else last xs)"
  proof (cases ys)
    case Nil
    with chain_last [OF c] m show ?thesis by simp
  next
    case (Cons y zs)
    with c m show ?thesis by (auto simp: chain_append dest: chain_last)
  qed
  then have "ln_prev h m \<noteq> n" using nl m by auto
  note links = rt_list_insert_before_links [OF nm refl this]
  show ?thesis
    by (rule family_insert [OF f n l m(1) pm m(2) links])
qed

text \<open>Removing a node: whatever list it is on, or none.\<close>

theorem family_remove_free:
  assumes f: "list_family H F L h" and n: "n \<in> F"
  shows "rt_list_remove n h = h"
  using list_familyD(2) [OF f n]
  by (auto simp: rt_list_remove_def ring_Nil Let_def intro!: list_heap.equality)

theorem family_remove:
  assumes f: "list_family H F L h" and l: "l \<in> H" and L: "L l = xs @ n # ys"
  shows "list_family H (insert n F) (L(l := xs @ ys)) (rt_list_remove n h)"
proof -
  note fam = list_familyD [OF f]
  define p where "p = (if xs = [] then l else last xs)"
  define q where "q = (if ys = [] then l else hd ys)"
  let ?h = "rt_list_remove n h"
  have r: "chain h l (xs @ n # ys) l" "distinct (l # xs @ n # ys)"
    using fam(1) [OF l] L by (simp_all add: ring_def)
  have pq: "p \<in> set (l # xs @ ys)" "q \<in> set (l # xs @ ys)"
    using p_def q_def by (auto simp: last_in_set)
  have "p \<noteq> n" "q \<noteq> n" using pq r(2) by auto
  moreover have "ln_next h n = q" "ln_prev h n = p"
    using r(1) p_def q_def by (auto simp: chain_append dest: chain_hd chain_last)
  ultimately have nx: "ln_next ?h = (ln_next h)(p := q, n := n)"
    and pv: "ln_prev ?h = (ln_prev h)(q := p, n := n)"
    using rt_list_remove_links by metis+
  have nH: "n \<notin> H" "n \<notin> F" using fam(4) [OF l] L by auto
  have nk: "n \<notin> set (L k)" if "k \<in> H" "k \<noteq> l" for k
    using fam(5) [OF that(1) l] that L by auto
  have "ring ?h l (xs @ ys)"
    using remove_between_chain [OF r(1) _ _ p_def q_def nx pv] r(2) by (simp add: ring_def)
  moreover have "ring ?h k (L k)" if k: "k \<in> H" "k \<noteq> l" for k
  proof (rule ring_cong [OF fam(1) [OF k(1)]])
    fix m assume "m \<in> set (k # L k)"
    then have "m \<noteq> p" "m \<noteq> q" "m \<noteq> n"
      using pq nk [OF k] nH k fam(4) [OF l, unfolded L] fam(4) [OF k(1)] fam(5) [OF k(1) l]
        L l by auto
    then show "ln_next ?h m = ln_next h m \<and> ln_prev ?h m = ln_prev h m" by (simp add: nx pv)
  qed
  moreover have "ring ?h m []" if m: "m \<in> insert n F" for m
  proof (cases "m = n")
    case True
    then show ?thesis by (simp add: ring_Nil nx pv)
  next
    case False
    then have "m \<in> F" using m by simp
    moreover from this have "m \<noteq> p" "m \<noteq> q"
      using pq fam(3) fam(4) [OF l, unfolded L] l by auto
    ultimately show ?thesis using fam(2) [of m] False by (simp add: ring_Nil nx pv)
  qed
  moreover have "set ((L(l := xs @ ys)) k) \<inter> (H \<union> insert n F) = {}" if "k \<in> H" for k
    using fam(4) [OF that] fam(4) [OF l] nk [OF that] L r(2) by auto
  moreover have "set ((L(l := xs @ ys)) k) \<inter> set ((L(l := xs @ ys)) k') = {}"
    if k: "k \<in> H" "k' \<in> H" "k \<noteq> k'" for k k'
  proof -
    have "set (L k) \<inter> set (L k') = {}" using fam(5) [OF k(1,2)] k(3) by blast
    then show ?thesis using k L by auto
  qed
  moreover have "H \<inter> insert n F = {}" using fam(3) nH by auto
  ultimately show ?thesis unfolding list_family_def by simp
qed

section \<open>Length\<close>

lemma list_len_loop_chain:
  "chain h p xs l \<Longrightarrow> l \<notin> set xs \<Longrightarrow> list_len_loop l h p len = Some (len + of_nat (length xs))"
proof (induction xs arbitrary: p len)
  case Nil
  then show ?case by (subst list_len_loop.simps) simp
next
  case (Cons x xs)
  then have "list_len_loop l h x (len + 1) = Some (len + 1 + of_nat (length xs))" by simp
  with Cons.prems show ?case by (subst list_len_loop.simps) (auto simp: algebra_simps)
qed

lemma rt_list_len_ring: "ring h l xs \<Longrightarrow> rt_list_len l h = Some (of_nat (length xs))"
  by (auto simp: rt_list_len_def ring_def list_len_loop_chain)

lemma rt_list_isempty_ring: "ring h l xs \<Longrightarrow> rt_list_isempty l h \<longleftrightarrow> xs = []"
  unfolding rt_list_isempty_def ring_def by (cases xs) auto

lemma family_init:
  assumes f: "list_family H F L h" and n: "n \<in> F"
  shows "rt_list_init n h = h"
  using list_familyD(2) [OF f n]
  by (auto simp: rt_list_init_def ring_Nil intro!: list_heap.equality)

section \<open>The refinement\<close>

text \<open>
  The pointer operations of the intrusive lists refine operations on Isabelle lists, for a
  whole family of lists at once: insert_after puts a free node at the front of the head's list,
  insert_before the head appends it, insert_before a member puts it just ahead of that member;
  every other list of the family, and every other free node, is untouched. isempty and len read
  the list off the heap, and the counting loop ends.
\<close>
lemma list_insertion_refines:
  assumes "list_family H F L h" "n \<in> F" "l \<in> H" "L l = xs @ y # ys"
  shows "list_family H (F - {n}) (L(l := n # L l)) (rt_list_insert_after l n h) \<and>
    list_family H (F - {n}) (L(l := L l @ [n])) (rt_list_insert_before l n h) \<and>
    list_family H (F - {n}) (L(l := xs @ n # y # ys)) (rt_list_insert_before y n h) \<and>
    (rt_list_isempty l h \<longleftrightarrow> L l = []) \<and>
    rt_list_len l h = Some (of_nat (length (L l)))"
  using family_insert_after [OF assms(1-3)]
    family_insert_before [OF assms(1-3), of "L l" "[]" l]
    family_insert_before [OF assms(1-4), of y]
    rt_list_isempty_ring [OF list_familyD(1) [OF assms(1,3)]]
    rt_list_len_ring [OF list_familyD(1) [OF assms(1,3)]] by auto

text \<open>
  rt_list_remove takes a node off whichever list of the family it is on, leaves it free
  (pointing at itself) and leaves the order of the others; on a node that is on no list it changes
  nothing, so removing twice is the same as removing once.
\<close>
lemma list_removal_refines:
  assumes "list_family H F L h" "l \<in> H" "n \<in> set (L l)"
  shows "list_family H (insert n F) (L(l := removeAll n (L l))) (rt_list_remove n h) \<and>
    rt_list_remove n (rt_list_remove n h) = rt_list_remove n h"
proof -
  from assms(3) obtain xs ys where L: "L l = xs @ n # ys" by (metis split_list)
  then have d: "n \<notin> set xs" "n \<notin> set ys"
    using list_familyD(1) [OF assms(1,2)] by (auto simp: ring_def)
  then have r: "removeAll n (L l) = xs @ ys" using L by (simp add: removeAll_notin)
  note fr = family_remove [OF assms(1,2) L]
  show ?thesis using r fr family_remove_free [OF fr] by simp
qed

text \<open>A heap with two heads 0 and 1: 0 carries 2 and 3, 1 carries nothing, 4 is free.\<close>

definition sample_heap :: "nat list_heap" where
  "sample_heap =
     rt_list_insert_before 0 3 (rt_list_insert_after 0 2 \<lparr>ln_next = (\<lambda>n. n), ln_prev = (\<lambda>n. n)\<rparr>)"

lemma sample_family: "list_family {0, 1} {4} ((\<lambda>_. [])(0 := [2, 3])) sample_heap"
  by (simp add: list_family_def ring_def sample_heap_def rt_list_insert_before_def
      rt_list_insert_after_def Let_def)

lemma list_insertion_refines_witness:
  "list_family {0, 1} {} ((\<lambda>_. [])(0 := [2, 4, 3])) (rt_list_insert_before 3 4 sample_heap) \<and>
   rt_list_len 0 sample_heap = Some 2"
  using list_insertion_refines [OF sample_family, of 4 0 "[2]" 3 "[]"] by simp

lemma list_removal_refines_witness:
  "list_family {0, 1} {2, 4} ((\<lambda>_. [])(0 := [3])) (rt_list_remove 2 sample_heap)"
  using list_removal_refines [OF sample_family, of 0 2] by simp

end
