(* ===== verification/Fifo.thy ===== *)
theory Fifo
  imports Prelude
begin

text \<open>
  The interface of a bounded first-in-first-out store: what the byte ring buffer
  (components/drivers/ipc/ringbuffer.c) and the mailbox and message queue (src/ipc.c) promise to their clients.
  \<open>valid\<close> are the elements the store takes. The lemma about runs of operations is proved once, in the locale, and each provider interprets
  the locale on its own operations.
\<close>

datatype 'a fifo_op = Enq 'a | Deq

text \<open>
  A run of operations against a store: the elements accepted, the elements delivered, and the
  final store. \<open>None\<close> of \<open>enq\<close> is a rejected element, \<open>None\<close> of \<open>deq\<close> an empty store.
\<close>

fun fifo_run :: "('a \<Rightarrow> 's \<Rightarrow> 's option) \<Rightarrow> ('s \<Rightarrow> ('a \<times> 's) option) \<Rightarrow> 'a fifo_op list \<Rightarrow> 's \<Rightarrow>
    'a list \<times> 'a list \<times> 's" where
  "fifo_run enq deq [] s = ([], [], s)"
| "fifo_run enq deq (Enq x # ops) s =
     (case enq x s of
        None \<Rightarrow> fifo_run enq deq ops s
      | Some s' \<Rightarrow> (let (acc, del, t) = fifo_run enq deq ops s' in (x # acc, del, t)))"
| "fifo_run enq deq (Deq # ops) s =
     (case deq s of
        None \<Rightarrow> fifo_run enq deq ops s
      | Some (x, s') \<Rightarrow> (let (acc, del, t) = fifo_run enq deq ops s' in (acc, x # del, t)))"

locale bounded_fifo =
  fixes valid :: "'a \<Rightarrow> bool"
    and inv :: "'s \<Rightarrow> bool"
    and cap :: "'s \<Rightarrow> nat"
    and contents :: "'s \<Rightarrow> 'a list"
    and enq :: "'a \<Rightarrow> 's \<Rightarrow> 's option"
    and deq :: "'s \<Rightarrow> ('a \<times> 's) option"
  assumes contents_bound: "inv s \<Longrightarrow> length (contents s) \<le> cap s"
    and enq_full: "inv s \<Longrightarrow> valid x \<Longrightarrow> length (contents s) = cap s \<Longrightarrow> enq x s = None"
    and enq_room: "inv s \<Longrightarrow> valid x \<Longrightarrow> length (contents s) < cap s \<Longrightarrow>
      \<exists>s'. enq x s = Some s' \<and> inv s' \<and> cap s' = cap s \<and> contents s' = contents s @ [x]"
    and deq_empty: "inv s \<Longrightarrow> contents s = [] \<Longrightarrow> deq s = None"
    and deq_some: "inv s \<Longrightarrow> contents s = x # xs \<Longrightarrow>
      \<exists>s'. deq s = Some (x, s') \<and> inv s' \<and> cap s' = cap s \<and> contents s' = xs"
begin

lemma enq_SomeD:
  assumes "inv s" "valid x" "enq x s = Some s'"
  shows "inv s' \<and> cap s' = cap s \<and> contents s' = contents s @ [x]"
proof -
  have "length (contents s) \<noteq> cap s"
    using assms enq_full by fastforce
  with contents_bound [OF assms(1)] have "length (contents s) < cap s" by simp
  from enq_room [OF assms(1,2) this] assms(3) show ?thesis by auto
qed

lemma deq_SomeD:
  assumes "inv s" "deq s = Some (x, s')"
  shows "inv s' \<and> cap s' = cap s \<and> contents s = x # contents s'"
proof (cases "contents s")
  case Nil
  with assms deq_empty show ?thesis by fastforce
next
  case (Cons y ys)
  from deq_some [OF assms(1) this] assms(2) Cons show ?thesis by auto
qed

lemma run_fifo:
  "inv s \<Longrightarrow> \<forall>x. Enq x \<in> set ops \<longrightarrow> valid x \<Longrightarrow> fifo_run enq deq ops s = (acc, del, t) \<Longrightarrow>
   inv t \<and> cap t = cap s \<and> contents s @ acc = del @ contents t"
proof (induction ops arbitrary: s acc del)
  case Nil
  then show ?case by simp
next
  case (Cons op ops)
  show ?case
  proof (cases op)
    case (Enq x)
    show ?thesis
    proof (cases "enq x s")
      case None
      with Cons Enq show ?thesis by simp
    next
      case (Some s')
      have "valid x" using Cons.prems(2) Enq by simp
      from enq_SomeD [OF Cons.prems(1) this Some]
      have s': "inv s'" "cap s' = cap s" "contents s' = contents s @ [x]" by auto
      from Cons.prems(3) Enq Some obtain acc' where
        run: "fifo_run enq deq ops s' = (acc', del, t)" and "acc = x # acc'"
        by (auto split: prod.splits)
      with Cons.IH [OF s'(1) _ run] Cons.prems(2) s' show ?thesis by simp
    qed
  next
    case Deq
    show ?thesis
    proof (cases "deq s")
      case None
      with Cons Deq show ?thesis by simp
    next
      case (Some r)
      obtain x s' where r: "r = (x, s')" by (cases r)
      with deq_SomeD [OF Cons.prems(1)] Some
      have s': "inv s'" "cap s' = cap s" "contents s = x # contents s'" by auto
      from Cons.prems(3) Deq Some r obtain del' where
        run: "fifo_run enq deq ops s' = (acc, del', t)" and "del = x # del'"
        by (auto split: prod.splits)
      with Cons.IH [OF s'(1) _ run] Cons.prems(2) s' show ?thesis by simp
    qed
  qed
qed

end

end
