(* ===== verification/Ring_Buffer.thy ===== *)
theory Ring_Buffer
  imports Prelude Fifo
begin

text \<open>
  The byte ring buffer of the device framework: \<open>struct rt_ringbuffer\<close> and its operations in
  components/drivers/ipc/ringbuffer.c. The read and write positions are 31-bit indices with a
  one-bit mirror each: equal indices mean empty in the same mirror and full in opposite ones.
  Operations return \<open>None\<close> where they would read or write outside a buffer.
\<close>

section \<open>Data\<close>

record rt_ringbuffer =
  rb_buffer_ptr :: "u8 list"
  rb_read_mirror :: bool
  rb_read_index :: nat
  rb_write_mirror :: bool
  rb_write_index :: nat
  rb_buffer_size :: nat

datatype rt_ringbuffer_state = RT_RINGBUFFER_EMPTY | RT_RINGBUFFER_FULL | RT_RINGBUFFER_HALFFULL

text \<open>Storing into the 31-bit index fields.\<close>

definition bits31 :: "nat \<Rightarrow> nat" where
  "bits31 n = n mod 2 ^ 31"

section \<open>Operations\<close>

definition rt_ringbuffer_status :: "rt_ringbuffer \<Rightarrow> rt_ringbuffer_state" where
  "rt_ringbuffer_status rb =
     (if rb_read_index rb = rb_write_index rb
      then (if rb_read_mirror rb = rb_write_mirror rb
            then RT_RINGBUFFER_EMPTY else RT_RINGBUFFER_FULL)
      else RT_RINGBUFFER_HALFFULL)"

definition rt_ringbuffer_data_len :: "rt_ringbuffer \<Rightarrow> nat" where
  "rt_ringbuffer_data_len rb =
     (case rt_ringbuffer_status rb of
        RT_RINGBUFFER_EMPTY \<Rightarrow> 0
      | RT_RINGBUFFER_FULL \<Rightarrow> rb_buffer_size rb
      | RT_RINGBUFFER_HALFFULL \<Rightarrow>
          (let wi = rb_write_index rb; ri = rb_read_index rb
           in if wi > ri then sub32 wi ri else sub32 (rb_buffer_size rb) (sub32 ri wi)))"

definition rt_ringbuffer_space_len :: "rt_ringbuffer \<Rightarrow> nat" where
  "rt_ringbuffer_space_len rb = sub32 (rb_buffer_size rb) (rt_ringbuffer_data_len rb)"

definition rt_ringbuffer_get_size :: "rt_ringbuffer \<Rightarrow> nat" where
  "rt_ringbuffer_get_size rb = rb_buffer_size rb"

definition rt_ringbuffer_init :: "u8 list \<Rightarrow> int \<Rightarrow> rt_ringbuffer option" where
  "rt_ringbuffer_init pool sz = do {
     rt_assert (sz > 0);
     Some \<lparr>rb_buffer_ptr = pool, rb_read_mirror = False, rb_read_index = 0,
           rb_write_mirror = False, rb_write_index = 0,
           rb_buffer_size = RT_ALIGN_DOWN (nat sz) RT_ALIGN_SIZE\<rparr>
   }"

definition rt_ringbuffer_reset :: "rt_ringbuffer \<Rightarrow> rt_ringbuffer" where
  "rt_ringbuffer_reset rb =
     rb\<lparr>rb_read_mirror := False, rb_read_index := 0, rb_write_mirror := False, rb_write_index := 0\<rparr>"

definition rt_ringbuffer_put :: "rt_ringbuffer \<Rightarrow> u8 list \<Rightarrow> nat \<Rightarrow> (nat \<times> rt_ringbuffer) option" where
  "rt_ringbuffer_put rb ptr len0 =
     (let space = rt_ringbuffer_space_len rb in
      if space = 0 then Some (0, rb)
      else
        let len = (if space < len0 then space else len0);
            room = sub32 (rb_buffer_size rb) (rb_write_index rb)
        in if room > len then do {
             src \<leftarrow> mem_read ptr 0 len;
             buf \<leftarrow> mem_write (rb_buffer_ptr rb) (rb_write_index rb) src;
             Some (len, rb\<lparr>rb_buffer_ptr := buf, rb_write_index := bits31 (rb_write_index rb + len)\<rparr>)
           }
           else do {
             src1 \<leftarrow> mem_read ptr 0 room;
             buf1 \<leftarrow> mem_write (rb_buffer_ptr rb) (rb_write_index rb) src1;
             src2 \<leftarrow> mem_read ptr room (sub32 len room);
             buf2 \<leftarrow> mem_write buf1 0 src2;
             Some (len, rb\<lparr>rb_buffer_ptr := buf2, rb_write_mirror := \<not> rb_write_mirror rb,
                           rb_write_index := bits31 (sub32 len room)\<rparr>)
           })"

definition rt_ringbuffer_put_force :: "rt_ringbuffer \<Rightarrow> u8 list \<Rightarrow> nat \<Rightarrow> (nat \<times> rt_ringbuffer) option" where
  "rt_ringbuffer_put_force rb ptr0 len0 =
     (let space = rt_ringbuffer_space_len rb;
          skip = (if len0 > rb_buffer_size rb then sub32 len0 (rb_buffer_size rb) else 0);
          len = (if len0 > rb_buffer_size rb then rb_buffer_size rb else len0);
          room = sub32 (rb_buffer_size rb) (rb_write_index rb)
      in if room > len then do {
           src \<leftarrow> mem_read ptr0 skip len;
           buf \<leftarrow> mem_write (rb_buffer_ptr rb) (rb_write_index rb) src;
           let wi = bits31 (rb_write_index rb + len);
           Some (len, rb\<lparr>rb_buffer_ptr := buf, rb_write_index := wi,
                         rb_read_index := (if len > space then wi else rb_read_index rb)\<rparr>)
         }
         else do {
           src1 \<leftarrow> mem_read ptr0 skip room;
           buf1 \<leftarrow> mem_write (rb_buffer_ptr rb) (rb_write_index rb) src1;
           src2 \<leftarrow> mem_read ptr0 (skip + room) (sub32 len room);
           buf2 \<leftarrow> mem_write buf1 0 src2;
           let wi = bits31 (sub32 len room);
           let rb1 = rb\<lparr>rb_buffer_ptr := buf2, rb_write_mirror := \<not> rb_write_mirror rb,
                        rb_write_index := wi\<rparr>;
           Some (len, if len > space
                      then rb1\<lparr>rb_read_mirror := (if wi \<le> rb_read_index rb then \<not> rb_read_mirror rb
                                                  else rb_read_mirror rb),
                               rb_read_index := wi\<rparr>
                      else rb1)
         })"

definition rt_ringbuffer_get :: "rt_ringbuffer \<Rightarrow> nat \<Rightarrow> (nat \<times> u8 list \<times> rt_ringbuffer) option" where
  "rt_ringbuffer_get rb len0 =
     (let avail = rt_ringbuffer_data_len rb in
      if avail = 0 then Some (0, [], rb)
      else
        let len = (if avail < len0 then avail else len0);
            room = sub32 (rb_buffer_size rb) (rb_read_index rb)
        in if room > len then do {
             out \<leftarrow> mem_read (rb_buffer_ptr rb) (rb_read_index rb) len;
             Some (len, out, rb\<lparr>rb_read_index := bits31 (rb_read_index rb + len)\<rparr>)
           }
           else do {
             out1 \<leftarrow> mem_read (rb_buffer_ptr rb) (rb_read_index rb) room;
             out2 \<leftarrow> mem_read (rb_buffer_ptr rb) 0 (sub32 len room);
             Some (len, out1 @ out2, rb\<lparr>rb_read_mirror := \<not> rb_read_mirror rb,
                                        rb_read_index := bits31 (sub32 len room)\<rparr>)
           })"

text \<open>
  \<open>rt_ringbuffer_peek\<close> returns the size of a contiguous block and a pointer into the pool; the
  model returns the offset of the block (\<open>None\<close> for the null pointer).
\<close>

definition rt_ringbuffer_peek :: "rt_ringbuffer \<Rightarrow> nat \<times> nat option \<times> rt_ringbuffer" where
  "rt_ringbuffer_peek rb =
     (let avail = rt_ringbuffer_data_len rb in
      if avail = 0 then (0, None, rb)
      else
        let room = sub32 (rb_buffer_size rb) (rb_read_index rb)
        in if room > avail
           then (avail, Some (rb_read_index rb), rb\<lparr>rb_read_index := bits31 (rb_read_index rb + avail)\<rparr>)
           else (room, Some (rb_read_index rb),
                 rb\<lparr>rb_read_mirror := \<not> rb_read_mirror rb, rb_read_index := 0\<rparr>))"

definition rt_ringbuffer_putchar :: "rt_ringbuffer \<Rightarrow> u8 \<Rightarrow> (nat \<times> rt_ringbuffer) option" where
  "rt_ringbuffer_putchar rb ch =
     (if rt_ringbuffer_space_len rb = 0 then Some (0, rb)
      else do {
        buf \<leftarrow> mem_write (rb_buffer_ptr rb) (rb_write_index rb) [ch];
        let rb1 = rb\<lparr>rb_buffer_ptr := buf\<rparr>;
        Some (1, if int (rb_write_index rb) = int (rb_buffer_size rb) - 1
                 then rb1\<lparr>rb_write_mirror := \<not> rb_write_mirror rb, rb_write_index := 0\<rparr>
                 else rb1\<lparr>rb_write_index := bits31 (rb_write_index rb + 1)\<rparr>)
      })"

definition rt_ringbuffer_putchar_force :: "rt_ringbuffer \<Rightarrow> u8 \<Rightarrow> (nat \<times> rt_ringbuffer) option" where
  "rt_ringbuffer_putchar_force rb ch = do {
     let old_state = rt_ringbuffer_status rb;
     buf \<leftarrow> mem_write (rb_buffer_ptr rb) (rb_write_index rb) [ch];
     let rb1 = rb\<lparr>rb_buffer_ptr := buf\<rparr>;
     Some (1,
       if int (rb_write_index rb) = int (rb_buffer_size rb) - 1
       then (let rb2 = rb1\<lparr>rb_write_mirror := \<not> rb_write_mirror rb, rb_write_index := 0\<rparr>
             in if old_state = RT_RINGBUFFER_FULL
                then rb2\<lparr>rb_read_mirror := \<not> rb_read_mirror rb, rb_read_index := 0\<rparr> else rb2)
       else (let wi = bits31 (rb_write_index rb + 1);
                 rb2 = rb1\<lparr>rb_write_index := wi\<rparr>
             in if old_state = RT_RINGBUFFER_FULL then rb2\<lparr>rb_read_index := wi\<rparr> else rb2))
   }"

definition rt_ringbuffer_getchar :: "rt_ringbuffer \<Rightarrow> (nat \<times> u8 option \<times> rt_ringbuffer) option" where
  "rt_ringbuffer_getchar rb =
     (if rt_ringbuffer_data_len rb = 0 then Some (0, None, rb)
      else do {
        out \<leftarrow> mem_read (rb_buffer_ptr rb) (rb_read_index rb) 1;
        Some (1, Some (hd out),
              if int (rb_read_index rb) = int (rb_buffer_size rb) - 1
              then rb\<lparr>rb_read_mirror := \<not> rb_read_mirror rb, rb_read_index := 0\<rparr>
              else rb\<lparr>rb_read_index := bits31 (rb_read_index rb + 1)\<rparr>)
      })"


section \<open>Well-formed buffers and their contents\<close>

definition rb_ok :: "rt_ringbuffer \<Rightarrow> bool" where
  "rb_ok rb \<longleftrightarrow>
     0 < rb_buffer_size rb \<and> rb_buffer_size rb < 2 ^ 31 \<and>
     rb_buffer_size rb \<le> length (rb_buffer_ptr rb) \<and>
     rb_read_index rb < rb_buffer_size rb \<and> rb_write_index rb < rb_buffer_size rb \<and>
     (if rb_read_mirror rb = rb_write_mirror rb
      then rb_read_index rb \<le> rb_write_index rb else rb_write_index rb \<le> rb_read_index rb)"

text \<open>The bytes waiting in the buffer, oldest first.\<close>

definition rb_data :: "rt_ringbuffer \<Rightarrow> u8 list" where
  "rb_data rb = map (\<lambda>i. rb_buffer_ptr rb ! ((rb_read_index rb + i) mod rb_buffer_size rb))
                    [0..<rt_ringbuffer_data_len rb]"

lemma bits31_small [arith32]: "n < 2 ^ 31 \<Longrightarrow> bits31 n = n"
  by (simp add: bits31_def)

lemma ring_index: "(a :: nat) < m \<Longrightarrow> b \<le> m \<Longrightarrow> (a + b) mod m = (if a + b < m then a + b else a + b - m)"
  by (cases "a + b < m") (simp_all add: le_mod_geq)

lemma data_len_eq:
  "rb_ok rb \<Longrightarrow> rt_ringbuffer_data_len rb =
     (if rb_read_mirror rb = rb_write_mirror rb then rb_write_index rb - rb_read_index rb
      else rb_buffer_size rb - (rb_read_index rb - rb_write_index rb))"
  by (auto simp: rb_ok_def rt_ringbuffer_data_len_def rt_ringbuffer_status_def Let_def arith32
      split: if_splits)

lemma data_len_le: "rb_ok rb \<Longrightarrow> rt_ringbuffer_data_len rb \<le> rb_buffer_size rb"
  by (auto simp: data_len_eq rb_ok_def split: if_splits)

lemma space_len_eq:
  "rb_ok rb \<Longrightarrow> rt_ringbuffer_space_len rb = rb_buffer_size rb - rt_ringbuffer_data_len rb"
  using data_len_le [of rb] by (simp add: rt_ringbuffer_space_len_def arith32 rb_ok_def)

lemma length_rb_data [simp]: "length (rb_data rb) = rt_ringbuffer_data_len rb"
  by (simp add: rb_data_def)

text \<open>
  \<open>ring_written\<close>: \<open>buf'\<close> is \<open>buf\<close> with \<open>src\<close> laid out from slot \<open>wi\<close> on, round the ring of the
  first \<open>n\<close> cells.
\<close>

definition ring_written :: "nat \<Rightarrow> nat \<Rightarrow> u8 list \<Rightarrow> u8 list \<Rightarrow> u8 list \<Rightarrow> bool" where
  "ring_written n wi src buf buf' \<longleftrightarrow> length buf' = length buf \<and>
     (\<forall>k<n. buf' ! ((wi + k) mod n) = (if k < length src then src ! k else buf ! ((wi + k) mod n)))"

lemma ring_written_straight:
  assumes "mem_write buf wi src = Some buf'" "wi + length src \<le> n" "wi < n" "n \<le> length buf"
  shows "ring_written n wi src buf buf'"
  unfolding ring_written_def
proof (intro conjI allI impI)
  show "length buf' = length buf" using assms(1) by (rule mem_write_length)
  fix k assume "k < n"
  with assms show "buf' ! ((wi + k) mod n) = (if k < length src then src ! k else buf ! ((wi + k) mod n))"
    by (auto simp: mem_write_nth [OF assms(1)] ring_index)
qed

lemma ring_written_wrapped:
  assumes w1: "mem_write buf wi src1 = Some buf1" and w2: "mem_write buf1 0 src2 = Some buf'"
    and "length src1 = n - wi" "length src1 + length src2 \<le> n" "wi < n" "n \<le> length buf"
  shows "ring_written n wi (src1 @ src2) buf buf'"
  unfolding ring_written_def
proof (intro conjI allI impI)
  from w1 w2 show len: "length buf' = length buf" by (auto dest!: mem_write_length)
  fix k assume k: "k < n"
  have l1: "length buf1 = length buf" using w1 by (rule mem_write_length)
  let ?i = "(wi + k) mod n"
  have i: "?i = (if wi + k < n then wi + k else wi + k - n)" "?i < length buf"
    using k assms(5,6) by (auto simp: ring_index)
  show "buf' ! ?i = (if k < length (src1 @ src2) then (src1 @ src2) ! k else buf ! ?i)"
    using i k assms l1
    by (auto simp: mem_write_nth [OF w1] mem_write_nth [OF w2] nth_append add.commute)
qed

text \<open>Appending: a write of free slots extends the contents.\<close>

lemma data_append:
  assumes n: "0 < n" "ri < n" and w: "ring_written n ((ri + d) mod n) src buf buf'" and le: "d + length src \<le> n"
  shows "map (\<lambda>i. buf' ! ((ri + i) mod n)) [0..<d + length src] =
         map (\<lambda>i. buf ! ((ri + i) mod n)) [0..<d] @ src"
proof (rule nth_equalityI)
  fix i assume "i < length (map (\<lambda>i. buf' ! ((ri + i) mod n)) [0..<d + length src])"
  then have i: "i < d + length src" by simp
  define k where "k = (if i < d then n - d + i else i - d)"
  have k: "k < n" "((ri + d) mod n + k) mod n = (ri + i) mod n"
  proof -
    show "k < n" using i le n by (auto simp: k_def)
    have "ri + d + k = (if i < d then (ri + i) + n else ri + i)"
      using i le by (auto simp: k_def)
    then have "(ri + d + k) mod n = (ri + i) mod n" by (simp split: if_splits)
    then show "((ri + d) mod n + k) mod n = (ri + i) mod n"
      by (simp add: mod_simps)
  qed
  from w k have "buf' ! ((ri + i) mod n) = (if k < length src then src ! k else buf ! ((ri + i) mod n))"
    by (auto simp: ring_written_def)
  then show "map (\<lambda>i. buf' ! ((ri + i) mod n)) [0..<d + length src] ! i =
      (map (\<lambda>i. buf ! ((ri + i) mod n)) [0..<d] @ src) ! i"
    using i le by (auto simp: k_def nth_append)
qed simp

text \<open>Overwriting: a write that passes the reader leaves the newest \<open>n\<close> bytes.\<close>

lemma data_overwrite:
  assumes n: "0 < n" "ri < n" "d \<le> n" and w: "ring_written n ((ri + d) mod n) src buf buf'"
    and gt: "n \<le> d + length src" and le: "length src \<le> n"
  shows "map (\<lambda>i. buf' ! (((ri + d + length src) mod n + i) mod n)) [0..<n] =
         drop (d + length src - n) (map (\<lambda>i. buf ! ((ri + i) mod n)) [0..<d] @ src)"
proof (rule nth_equalityI)
  show "length (map (\<lambda>i. buf' ! (((ri + d + length src) mod n + i) mod n)) [0..<n]) =
    length (drop (d + length src - n) (map (\<lambda>i. buf ! ((ri + i) mod n)) [0..<d] @ src))"
    using gt by simp
  fix i assume "i < length (map (\<lambda>i. buf' ! (((ri + d + length src) mod n + i) mod n)) [0..<n])"
  then have i: "i < n" by simp
  define k where "k = (if length src + i < n then length src + i else length src + i - n)"
  have k: "k < n" using i le n by (auto simp: k_def)
  have "(ri + d + length src + i) mod n = (ri + d + k) mod n"
    using i by (auto simp: k_def le_mod_geq add.assoc)
  then have kk: "((ri + d + length src) mod n + i) mod n = ((ri + d) mod n + k) mod n"
    by (simp add: mod_simps)
  from w k have "buf' ! (((ri + d) mod n + k) mod n) =
      (if k < length src then src ! k else buf ! (((ri + d) mod n + k) mod n))"
    by (auto simp: ring_written_def)
  moreover have "((ri + d) mod n + k) mod n = (ri + (d + length src - n + i)) mod n" if "length src + i < n"
  proof -
    have "ri + d + k = (ri + (d + length src - n + i)) + n"
      using that gt by (simp add: k_def)
    then have "(ri + d + k) mod n = (ri + (d + length src - n + i)) mod n"
      by (simp only: mod_add_self2)
    then show ?thesis by (simp add: mod_simps)
  qed
  ultimately show "map (\<lambda>i. buf' ! (((ri + d + length src) mod n + i) mod n)) [0..<n] ! i =
      drop (d + length src - n) (map (\<lambda>i. buf ! ((ri + i) mod n)) [0..<d] @ src) ! i"
    using i gt le by (auto simp: kk k_def nth_append, simp add: add.commute)
qed

lemma write_index_pos:
  "rb_ok rb \<Longrightarrow>
   (rb_read_index rb + rt_ringbuffer_data_len rb) mod rb_buffer_size rb = rb_write_index rb"
  by (auto simp: data_len_eq rb_ok_def le_mod_geq)

section \<open>Each operation against the contents\<close>

lemma ring_copy_straight:
  assumes "wi < n" "n \<le> length buf" "len < n - wi" "skip + len \<le> length ptr"
  obtains buf' where "mem_write buf wi (take len (drop skip ptr)) = Some buf'"
    "ring_written n wi (take len (drop skip ptr)) buf buf'"
proof -
  have le: "wi + length (take len (drop skip ptr)) \<le> n" using assms by simp
  with assms(2) obtain buf' where w: "mem_write buf wi (take len (drop skip ptr)) = Some buf'"
    using mem_write_Ex le_trans by blast
  from w le assms(1,2) have "ring_written n wi (take len (drop skip ptr)) buf buf'"
    by (rule ring_written_straight)
  with w that show thesis by blast
qed

lemma ring_copy_wrapped:
  assumes "wi < n" "n \<le> length buf" "n - wi \<le> len" "len \<le> n" "skip + len \<le> length ptr"
  obtains buf1 buf' where "mem_write buf wi (take (n - wi) (drop skip ptr)) = Some buf1"
    "mem_write buf1 0 (take (len - (n - wi)) (drop (skip + (n - wi)) ptr)) = Some buf'"
    "ring_written n wi (take len (drop skip ptr)) buf buf'"
proof -
  let ?s1 = "take (n - wi) (drop skip ptr)" and ?s2 = "take (len - (n - wi)) (drop (skip + (n - wi)) ptr)"
  have l: "length ?s1 = n - wi" "length ?s2 = len - (n - wi)" using assms by auto
  have "wi + length ?s1 \<le> length buf" using l assms(1,2) by linarith
  then obtain buf1 where w1: "mem_write buf wi ?s1 = Some buf1"
    using mem_write_Ex by blast
  then have "0 + length ?s2 \<le> length buf1"
    using l assms(1-4) mem_write_length [OF w1] by linarith
  then obtain buf' where w2: "mem_write buf1 0 ?s2 = Some buf'"
    using mem_write_Ex by blast
  have "?s1 @ ?s2 = take len (drop skip ptr)"
    using assms(3) by (metis add.commute drop_drop le_add_diff_inverse take_add)
  moreover have "ring_written n wi (?s1 @ ?s2) buf buf'"
    by (rule ring_written_wrapped [OF w1 w2]) (use l assms(1-4) in linarith)+
  ultimately show thesis using w1 w2 that by metis
qed

text \<open>The position reached by moving \<open>len\<close> slots, and whether the mirror is crossed.\<close>

definition ring_advance :: "nat \<Rightarrow> bool \<Rightarrow> nat \<Rightarrow> nat \<Rightarrow> bool \<times> nat" where
  "ring_advance n mirror i len = (if i + len < n then (mirror, i + len) else (\<not> mirror, i + len - n))"

lemma after_append:
  assumes okrb: "rb_ok rb" and n: "n = rb_buffer_size rb" and d: "d = rt_ringbuffer_data_len rb"
    and le: "d + length src \<le> n"
    and w: "ring_written n (rb_write_index rb) src (rb_buffer_ptr rb) buf'"
    and adv: "ring_advance n (rb_write_mirror rb) (rb_write_index rb) (length src) = (wm, wi)"
    and rb': "rb' = rb\<lparr>rb_buffer_ptr := buf', rb_write_mirror := wm, rb_write_index := wi\<rparr>"
  shows "rb_ok rb' \<and> rb_buffer_size rb' = n \<and> rb_data rb' = rb_data rb @ src"
proof -
  have okrb': "rb_ok rb'"
    using okrb le w adv unfolding n rb' d data_len_eq [OF okrb]
    by (auto simp: rb_ok_def ring_written_def ring_advance_def split: if_splits)
  have d': "rt_ringbuffer_data_len rb' = d + length src"
    using okrb adv le unfolding n rb' d data_len_eq [OF okrb] data_len_eq [OF okrb' [unfolded rb']]
    by (auto simp: rb_ok_def ring_advance_def split: if_splits)
  have "0 < n" "rb_read_index rb < n" using okrb by (auto simp: rb_ok_def n)
  from data_append [OF this _ le, of "rb_buffer_ptr rb" buf'] w write_index_pos [OF okrb]
  have "rb_data rb' = rb_data rb @ src"
    using d' by (simp add: rb_data_def rb' n d)
  with okrb' show ?thesis by (simp add: rb' n)
qed

lemma put_spec:
  assumes okrb: "rb_ok rb" and len: "len0 \<le> length ptr" "len0 < 2 ^ 32"
  defines "m \<equiv> min len0 (rb_buffer_size rb - rt_ringbuffer_data_len rb)"
  shows "ok (rt_ringbuffer_put rb ptr len0)
    (\<lambda>(r, rb'). r = m \<and> rb_ok rb' \<and> rb_buffer_size rb' = rb_buffer_size rb \<and>
                rb_data rb' = rb_data rb @ take m ptr)"
proof -
  let ?n = "rb_buffer_size rb" and ?wi = "rb_write_index rb" and ?d = "rt_ringbuffer_data_len rb"
  have wi: "?wi < ?n" and n: "?n \<le> length (rb_buffer_ptr rb)" "?n < 2 ^ 31"
    using okrb by (auto simp: rb_ok_def)
  have room: "sub32 ?n ?wi = ?n - ?wi" using wi n by (simp add: arith32)
  have m: "m \<le> length ptr" "m \<le> ?n - ?d" "m \<le> ?n" "?d \<le> ?n" "m < 2 ^ 31"
    using len n data_len_le [OF okrb] by (auto simp: m_def)
  have mm: "(if ?n - ?d < len0 then ?n - ?d else len0) = m" by (simp add: m_def)
  have after: "rb_ok rb' \<and> rb_buffer_size rb' = ?n \<and> rb_data rb' = rb_data rb @ take m ptr"
    if "ring_written ?n ?wi (take m ptr) (rb_buffer_ptr rb) buf'"
       "ring_advance ?n (rb_write_mirror rb) ?wi m = (wm, i)"
       "rb' = rb\<lparr>rb_buffer_ptr := buf', rb_write_mirror := wm, rb_write_index := i\<rparr>" for buf' wm i rb'
    using after_append [OF okrb refl refl _ that(1) _ that(3)] that(2) m by simp
  consider (full) "?n - ?d = 0" | (straight) "0 < ?n - ?d" "?n - ?wi > m" | (wrap) "0 < ?n - ?d" "m \<ge> ?n - ?wi"
    by linarith
  then show ?thesis
  proof cases
    case full
    with okrb m show ?thesis by (simp add: rt_ringbuffer_put_def space_len_eq m_def)
  next
    case straight
    then obtain buf' where w: "mem_write (rb_buffer_ptr rb) ?wi (take m ptr) = Some buf'"
        "ring_written ?n ?wi (take m ptr) (rb_buffer_ptr rb) buf'"
      using ring_copy_straight [of ?wi ?n "rb_buffer_ptr rb" m 0 ptr] wi n m by auto
    let ?rb' = "rb\<lparr>rb_buffer_ptr := buf', rb_write_mirror := rb_write_mirror rb, rb_write_index := ?wi + m\<rparr>"
    have "rt_ringbuffer_put rb ptr len0 = Some (m, ?rb')"
      using straight okrb m w(1) n
      by (simp add: rt_ringbuffer_put_def space_len_eq room mm arith32)
    moreover have "rb_ok ?rb' \<and> rb_buffer_size ?rb' = ?n \<and> rb_data ?rb' = rb_data rb @ take m ptr"
      by (rule after [OF w(2) _ refl]) (use straight in \<open>simp add: ring_advance_def\<close>)
    ultimately show ?thesis by simp
  next
    case wrap
    then obtain buf1 buf' where w: "mem_write (rb_buffer_ptr rb) ?wi (take (?n - ?wi) ptr) = Some buf1"
        "mem_write buf1 0 (take (m - (?n - ?wi)) (drop (?n - ?wi) ptr)) = Some buf'"
        "ring_written ?n ?wi (take m ptr) (rb_buffer_ptr rb) buf'"
      using ring_copy_wrapped [of ?wi ?n "rb_buffer_ptr rb" m 0 ptr] wi n m by auto
    let ?i = "?wi + m - ?n"
    let ?rb' = "rb\<lparr>rb_buffer_ptr := buf', rb_write_mirror := \<not> rb_write_mirror rb, rb_write_index := ?i\<rparr>"
    have i: "m - (?n - ?wi) = ?i" "sub32 m (?n - ?wi) = ?i" "bits31 ?i = ?i"
      using wrap n m wi by (simp_all add: arith32)
    have "rt_ringbuffer_put rb ptr len0 = Some (m, ?rb')"
      using wrap okrb m w(1,2) i wi
      by (simp add: rt_ringbuffer_put_def space_len_eq room mm)
    moreover have "rb_ok ?rb' \<and> rb_buffer_size ?rb' = ?n \<and> rb_data ?rb' = rb_data rb @ take m ptr"
      by (rule after [OF w(3) _ refl]) (use wrap in \<open>simp add: ring_advance_def\<close>)
    ultimately show ?thesis by simp
  qed
qed

lemma after_overwrite:
  assumes okrb: "rb_ok rb" and n: "n = rb_buffer_size rb" and d: "d = rt_ringbuffer_data_len rb"
    and gt: "n < d + length src" and le: "length src \<le> n"
    and w: "ring_written n (rb_write_index rb) src (rb_buffer_ptr rb) buf'"
    and adv: "ring_advance n (rb_write_mirror rb) (rb_write_index rb) (length src) = (wm, wi)"
    and rb': "rb' = rb\<lparr>rb_buffer_ptr := buf', rb_write_mirror := wm, rb_write_index := wi,
                        rb_read_mirror := (\<not> wm), rb_read_index := wi\<rparr>"
  shows "rb_ok rb' \<and> rb_buffer_size rb' = n \<and> rb_data rb' = drop (d + length src - n) (rb_data rb @ src)"
proof -
  have okrb': "rb_ok rb'"
    using okrb le w adv unfolding n rb'
    by (auto simp: rb_ok_def ring_written_def ring_advance_def split: if_splits)
  have d': "rt_ringbuffer_data_len rb' = n"
    by (simp add: n rb' data_len_eq [OF okrb' [unfolded rb']])
  have i: "0 < n" "rb_read_index rb < n" "d \<le> n"
    using okrb data_len_le [OF okrb] by (auto simp: rb_ok_def n d)
  have "wi = (rb_write_index rb + length src) mod n"
    using okrb le adv by (auto simp: rb_ok_def n ring_advance_def ring_index split: if_splits)
  then have wi: "wi = (rb_read_index rb + d + length src) mod n"
    using write_index_pos [OF okrb] by (metis mod_add_left_eq n d)
  from w write_index_pos [OF okrb]
  have "ring_written n ((rb_read_index rb + d) mod n) src (rb_buffer_ptr rb) buf'" by (simp add: n d)
  from data_overwrite [OF i this _ le] gt
  have "rb_data rb' = drop (d + length src - n) (rb_data rb @ src)"
    unfolding rb_data_def d' by (simp add: rb' wi flip: n d)
  with okrb' show ?thesis by (simp add: rb' n)
qed

lemma put_force_spec:
  assumes okrb: "rb_ok rb" and len: "len0 \<le> length ptr" "len0 < 2 ^ 32"
  shows "ok (rt_ringbuffer_put_force rb ptr len0)
    (\<lambda>(r, rb'). r = min len0 (rb_buffer_size rb) \<and> rb_ok rb' \<and> rb_buffer_size rb' = rb_buffer_size rb \<and>
       rb_data rb' = (let bytes = rb_data rb @ take len0 ptr in drop (length bytes - rb_buffer_size rb) bytes))"
proof -
  let ?n = "rb_buffer_size rb" and ?wi = "rb_write_index rb" and ?ri = "rb_read_index rb"
    and ?d = "rt_ringbuffer_data_len rb" and ?wm = "rb_write_mirror rb" and ?rm = "rb_read_mirror rb"
  have wi: "?wi < ?n" and n: "?n \<le> length (rb_buffer_ptr rb)" "?n < 2 ^ 31"
    using okrb by (auto simp: rb_ok_def)
  define m where "m = min len0 ?n"
  define skip where "skip = len0 - m"
  define src where "src = take m (drop skip ptr)"
  have lsrc: "length src = m" "m \<le> ?n" "skip + m \<le> length ptr" and dn: "?d \<le> ?n"
    using len data_len_le [OF okrb] by (auto simp: src_def skip_def m_def)
  have room: "sub32 ?n ?wi = ?n - ?wi" using wi n by (simp add: arith32)
  have ms: "(if len0 > ?n then sub32 len0 ?n else 0) = skip" "(if len0 > ?n then ?n else len0) = m"
    using len n by (auto simp: skip_def m_def arith32)
  have bytes: "(let bytes = rb_data rb @ take len0 ptr in drop (length bytes - ?n) bytes) =
      drop (?d + m - ?n) (rb_data rb @ src)"
    using len dn by (cases "len0 \<le> ?n") (auto simp: m_def src_def skip_def drop_take)
  let ?rb' = "\<lambda>buf' wm i. rb\<lparr>rb_buffer_ptr := buf', rb_write_mirror := wm, rb_write_index := i,
      rb_read_mirror := (if m > ?n - ?d then \<not> wm else ?rm), rb_read_index := (if m > ?n - ?d then i else ?ri)\<rparr>"
  have after: "rb_ok (?rb' buf' wm i) \<and> rb_buffer_size (?rb' buf' wm i) = ?n \<and>
      rb_data (?rb' buf' wm i) = drop (?d + m - ?n) (rb_data rb @ src)"
    if "ring_written ?n ?wi src (rb_buffer_ptr rb) buf'" "ring_advance ?n ?wm ?wi m = (wm, i)" for buf' wm i
  proof (cases "m > ?n - ?d")
    case True
    with after_overwrite [OF okrb refl refl _ _ that(1) _ refl] that(2) lsrc dn show ?thesis by simp
  next
    case False
    have same: "?rb' buf' wm i = rb\<lparr>rb_buffer_ptr := buf', rb_write_mirror := wm, rb_write_index := i\<rparr>"
      using False by simp
    from after_append [OF okrb refl refl _ that(1) _ refl] that(2) lsrc dn False
    show ?thesis unfolding same by simp
  qed
  have mirrors: "m > ?n - ?d \<Longrightarrow> ?wi + m < ?n \<Longrightarrow> ?rm = (\<not> ?wm)"
      "m > ?n - ?d \<Longrightarrow> \<not> ?wi + m < ?n \<Longrightarrow> (if ?wi + m - ?n \<le> ?ri then \<not> ?rm else ?rm) = ?wm"
    using okrb lsrc(2) unfolding data_len_eq [OF okrb] by (auto simp: rb_ok_def split: if_splits)
  show ?thesis
  proof (cases "?n - ?wi > m")
    case True
    then obtain buf' where w: "mem_write (rb_buffer_ptr rb) ?wi src = Some buf'"
        "ring_written ?n ?wi src (rb_buffer_ptr rb) buf'"
      unfolding src_def using ring_copy_straight wi n(1) lsrc(3) by metis
    have "rt_ringbuffer_put_force rb ptr len0 = Some (m, ?rb' buf' ?wm (?wi + m))"
      using True w(1) n mirrors(1) lsrc(3)
      by (simp add: rt_ringbuffer_put_force_def space_len_eq [OF okrb] room ms arith32 src_def)
         (auto simp: Let_def intro!: rt_ringbuffer.equality)
    moreover have "ring_advance ?n ?wm ?wi m = (?wm, ?wi + m)"
      using True by (simp add: ring_advance_def)
    ultimately show ?thesis using after [OF w(2)] unfolding bytes m_def [symmetric] by simp
  next
    case False
    let ?i = "?wi + m - ?n"
    from False obtain buf1 buf' where w:
        "mem_write (rb_buffer_ptr rb) ?wi (take (?n - ?wi) (drop skip ptr)) = Some buf1"
        "mem_write buf1 0 (take (m - (?n - ?wi)) (drop (skip + (?n - ?wi)) ptr)) = Some buf'"
        "ring_written ?n ?wi src (rb_buffer_ptr rb) buf'"
      unfolding src_def using ring_copy_wrapped wi n(1) lsrc(2,3) by (metis not_less)
    have i: "m - (?n - ?wi) = ?i" "sub32 m (?n - ?wi) = ?i" "bits31 ?i = ?i"
      using False n lsrc wi by (simp_all add: arith32)
    have "rt_ringbuffer_put_force rb ptr len0 = Some (m, ?rb' buf' (\<not> ?wm) ?i)"
      using False w(1,2) i wi mirrors(2) lsrc(3)
      by (simp add: rt_ringbuffer_put_force_def space_len_eq [OF okrb] room ms)
         (auto simp: Let_def split: if_splits intro!: rt_ringbuffer.equality)
    moreover have "ring_advance ?n ?wm ?wi m = (\<not> ?wm, ?i)"
      using False by (simp add: ring_advance_def)
    ultimately show ?thesis using after [OF w(3)] unfolding bytes m_def [symmetric] by simp
  qed
qed

subsection \<open>Reading\<close>

lemma after_read:
  assumes okrb: "rb_ok rb" and le: "len \<le> rt_ringbuffer_data_len rb"
    and adv: "ring_advance (rb_buffer_size rb) (rb_read_mirror rb) (rb_read_index rb) len = (rm, ri)"
    and rb': "rb' = rb\<lparr>rb_read_mirror := rm, rb_read_index := ri\<rparr>"
  shows "rb_ok rb' \<and> rb_data rb' = drop len (rb_data rb)"
proof -
  let ?n = "rb_buffer_size rb"
  have okrb': "rb_ok rb'"
    using okrb le adv unfolding rb' data_len_eq [OF okrb]
    by (auto simp: rb_ok_def ring_advance_def split: if_splits)
  have d': "rt_ringbuffer_data_len rb' = rt_ringbuffer_data_len rb - len"
    using okrb adv le unfolding rb' data_len_eq [OF okrb] data_len_eq [OF okrb' [unfolded rb']]
    by (auto simp: rb_ok_def ring_advance_def split: if_splits)
  have ri: "ri = (rb_read_index rb + len) mod ?n"
    using okrb adv le data_len_le [OF okrb]
    by (auto simp: rb_ok_def ring_advance_def ring_index split: if_splits)
  have "(ri + i) mod ?n = (rb_read_index rb + (i + len)) mod ?n" for i
    unfolding ri by (metis add.assoc add.commute mod_add_left_eq)
  then have "rb_data rb' = drop len (rb_data rb)"
    unfolding rb_data_def d' by (simp add: drop_map_upt rb')
  with okrb' show ?thesis by simp
qed

lemma read_block:
  assumes okrb: "rb_ok rb" and "len \<le> rt_ringbuffer_data_len rb" "len \<le> rb_buffer_size rb - rb_read_index rb"
  shows "take len (drop (rb_read_index rb) (rb_buffer_ptr rb)) = take len (rb_data rb)"
  using assms by (intro nth_equalityI) (auto simp: rb_data_def rb_ok_def)

lemma get_spec:
  assumes okrb: "rb_ok rb" and "len0 < 2 ^ 32"
  shows "ok (rt_ringbuffer_get rb len0)
    (\<lambda>(r, out, rb'). r = min len0 (rt_ringbuffer_data_len rb) \<and> out = take len0 (rb_data rb) \<and>
       rb_ok rb' \<and> rb_buffer_size rb' = rb_buffer_size rb \<and> rb_data rb' = drop len0 (rb_data rb))"
proof -
  let ?n = "rb_buffer_size rb" and ?ri = "rb_read_index rb" and ?d = "rt_ringbuffer_data_len rb"
    and ?rm = "rb_read_mirror rb"
  define m where "m = min len0 ?d"
  have n: "?n \<le> length (rb_buffer_ptr rb)" "?n < 2 ^ 31" "?ri < ?n" "0 < ?n"
    using okrb by (auto simp: rb_ok_def)
  have room: "sub32 ?n ?ri = ?n - ?ri" using n by (simp add: arith32)
  have m: "m \<le> ?d" "m \<le> ?n" "(if ?d < len0 then ?d else len0) = m"
    using data_len_le [OF okrb] by (auto simp: m_def)
  have td: "take len0 (rb_data rb) = take m (rb_data rb)" "drop len0 (rb_data rb) = drop m (rb_data rb)"
    by (auto simp: m_def min_def)
  have after: "rb_ok (rb\<lparr>rb_read_mirror := rm, rb_read_index := ri\<rparr>) \<and>
      rb_data (rb\<lparr>rb_read_mirror := rm, rb_read_index := ri\<rparr>) = drop m (rb_data rb)"
    if "ring_advance ?n ?rm ?ri m = (rm, ri)" for rm ri
    using okrb m(1) that refl by (rule after_read)
  consider (empty) "?d = 0" | (straight) "0 < ?d" "?n - ?ri > m" | (wrap) "0 < ?d" "m \<ge> ?n - ?ri"
    by linarith
  then show ?thesis
  proof cases
    case empty
    with okrb show ?thesis by (simp add: rt_ringbuffer_get_def rb_data_def)
  next
    case straight
    have "rt_ringbuffer_get rb len0 =
        Some (m, take m (drop ?ri (rb_buffer_ptr rb)), rb\<lparr>rb_read_mirror := ?rm, rb_read_index := ?ri + m\<rparr>)"
      using straight n m by (simp add: rt_ringbuffer_get_def room arith32)
    moreover have "ring_advance ?n ?rm ?ri m = (?rm, ?ri + m)"
      using straight by (simp add: ring_advance_def)
    ultimately show ?thesis
      using after read_block [OF okrb m(1)] straight by (simp add: td m_def)
  next
    case wrap
    let ?i = "?ri + m - ?n"
    have i: "m - (?n - ?ri) = ?i" "sub32 m (?n - ?ri) = ?i" "bits31 ?i = ?i"
      using wrap n m by (simp_all add: arith32)
    let ?out = "take (?n - ?ri) (drop ?ri (rb_buffer_ptr rb)) @ take ?i (rb_buffer_ptr rb)"
    have "rt_ringbuffer_get rb len0 = Some (m, ?out, rb\<lparr>rb_read_mirror := \<not> ?rm, rb_read_index := ?i\<rparr>)"
      using wrap n m i by (simp add: rt_ringbuffer_get_def room)
    moreover have "ring_advance ?n ?rm ?ri m = (\<not> ?rm, ?i)"
      using wrap by (simp add: ring_advance_def)
    moreover have "?out = take m (rb_data rb)"
    proof (rule nth_equalityI)
      have l: "length (take (?n - ?ri) (drop ?ri (rb_buffer_ptr rb))) = ?n - ?ri"
          "length (take ?i (rb_buffer_ptr rb)) = ?i"
        using wrap n m by auto
      then show "length ?out = length (take m (rb_data rb))"
        using wrap m n by simp
      fix k assume "k < length ?out"
      then have "k < m" using l wrap n by simp
      then show "?out ! k = take m (rb_data rb) ! k"
        using l wrap n m by (auto simp: rb_data_def nth_append ring_index add.commute)
    qed
    ultimately show ?thesis using after by (simp add: td m_def)
  qed
qed

lemma peek_spec:
  assumes okrb: "rb_ok rb" and pk: "rt_ringbuffer_peek rb = (sz, off, rb')"
  shows "rb_ok rb' \<and> rb_data rb' = drop sz (rb_data rb) \<and>
    (case off of None \<Rightarrow> sz = 0 \<and> rb_data rb = []
     | Some pos \<Rightarrow> 0 < sz \<and> pos + sz \<le> length (rb_buffer_ptr rb) \<and>
         take sz (drop pos (rb_buffer_ptr rb)) = take sz (rb_data rb))"
proof -
  let ?n = "rb_buffer_size rb" and ?ri = "rb_read_index rb" and ?d = "rt_ringbuffer_data_len rb"
    and ?rm = "rb_read_mirror rb"
  have n: "?n \<le> length (rb_buffer_ptr rb)" "?n < 2 ^ 31" "?ri < ?n" "?d \<le> ?n"
    using okrb data_len_le by (auto simp: rb_ok_def)
  have room: "sub32 ?n ?ri = ?n - ?ri" using n by (simp add: arith32)
  consider (empty) "?d = 0" | (straight) "0 < ?d" "?n - ?ri > ?d" | (wrap) "0 < ?d" "?d \<ge> ?n - ?ri"
    by linarith
  then show ?thesis
  proof cases
    case empty
    with okrb pk show ?thesis by (auto simp: rt_ringbuffer_peek_def rb_data_def)
  next
    case straight
    with pk n have eq: "sz = ?d" "off = Some ?ri" "rb' = rb\<lparr>rb_read_mirror := ?rm, rb_read_index := ?ri + ?d\<rparr>"
      by (auto simp: rt_ringbuffer_peek_def room arith32 Let_def)
    with after_read [OF okrb order.refl _ eq(3)] straight read_block [OF okrb order.refl] n
    show ?thesis by (simp add: ring_advance_def)
  next
    case wrap
    with pk n have eq: "sz = ?n - ?ri" "off = Some ?ri" "rb' = rb\<lparr>rb_read_mirror := \<not> ?rm, rb_read_index := 0\<rparr>"
      by (auto simp: rt_ringbuffer_peek_def room Let_def)
    with after_read [OF okrb wrap(2) _ eq(3)] read_block [OF okrb wrap(2)] n
    show ?thesis by (simp add: ring_advance_def)
  qed
qed

subsection \<open>The byte operations are the block operations of length one\<close>

lemma putchar_is_put:
  assumes "rb_ok rb"
  shows "rt_ringbuffer_putchar rb ch = rt_ringbuffer_put rb [ch] 1"
proof -
  have n: "rb_buffer_size rb \<le> length (rb_buffer_ptr rb)" "rb_buffer_size rb < 2 ^ 31"
      "rb_write_index rb < rb_buffer_size rb"
    using assms by (auto simp: rb_ok_def)
  then have "rb_write_index rb = rb_buffer_size rb - 1 \<or> rb_buffer_size rb - rb_write_index rb > 1"
    by linarith
  then show ?thesis
    using n by (auto simp: rt_ringbuffer_putchar_def rt_ringbuffer_put_def Let_def arith32 mem_write_def)
qed

lemma putchar_force_is_put_force:
  assumes "rb_ok rb"
  shows "rt_ringbuffer_putchar_force rb ch = rt_ringbuffer_put_force rb [ch] 1"
proof -
  have n: "rb_buffer_size rb \<le> length (rb_buffer_ptr rb)" "rb_buffer_size rb < 2 ^ 31"
      "rb_write_index rb < rb_buffer_size rb"
    using assms by (auto simp: rb_ok_def)
  have full: "1 > rt_ringbuffer_space_len rb \<longleftrightarrow> rt_ringbuffer_status rb = RT_RINGBUFFER_FULL"
    using assms unfolding space_len_eq [OF assms] data_len_eq [OF assms]
    by (auto simp: rb_ok_def rt_ringbuffer_status_def split: if_splits)
  from n have "rb_write_index rb = rb_buffer_size rb - 1 \<or> rb_buffer_size rb - rb_write_index rb > 1"
    by linarith
  then show ?thesis
    using n full
    by (auto simp: rt_ringbuffer_putchar_force_def rt_ringbuffer_put_force_def Let_def arith32 mem_write_def)
qed

lemma getchar_is_get:
  assumes "rb_ok rb"
  shows "rt_ringbuffer_getchar rb =
    map_option (\<lambda>(r, out, rb'). (r, if r = 0 then None else Some (hd out), rb')) (rt_ringbuffer_get rb 1)"
proof -
  have n: "rb_buffer_size rb \<le> length (rb_buffer_ptr rb)" "rb_buffer_size rb < 2 ^ 31"
      "rb_read_index rb < rb_buffer_size rb"
    using assms by (auto simp: rb_ok_def)
  then have "rb_read_index rb = rb_buffer_size rb - 1 \<or> rb_buffer_size rb - rb_read_index rb > 1"
    by linarith
  then show ?thesis
    using n by (auto simp: rt_ringbuffer_getchar_def rt_ringbuffer_get_def Let_def arith32)
qed


section \<open>Initialisation and the FIFO interface\<close>

lemma init_ok:
  assumes "8 \<le> sz" "sz < 2 ^ 31" "nat sz \<le> length pool"
  shows "ok (rt_ringbuffer_init pool sz) (\<lambda>rb. rb_ok rb \<and> rb_data rb = [] \<and>
           rb_buffer_size rb = nat sz - nat sz mod 8)"
proof -
  have "8 * (nat sz div 8) = nat sz - nat sz mod 8" by (simp add: minus_mod_eq_mult_div)
  moreover have "1 \<le> nat sz div 8" using assms(1) by (simp add: nat_le_iff le_nat_iff div_le_mono)
  ultimately have pos: "0 < nat sz - nat sz mod 8" by linarith
  have "nat sz < 2 ^ 32" "nat sz - nat sz mod 8 < 2 ^ 31" "nat sz - nat sz mod 8 \<le> length pool"
    using assms by auto
  with assms pos show ?thesis
    by (simp add: rt_ringbuffer_init_def ok_simps RT_ALIGN_DOWN_8 rb_ok_def rb_data_def
        rt_ringbuffer_data_len_def rt_ringbuffer_status_def)
qed

lemma reset_ok: "rb_ok rb \<Longrightarrow> rb_ok (rt_ringbuffer_reset rb) \<and> rb_data (rt_ringbuffer_reset rb) = []"
  by (simp add: rt_ringbuffer_reset_def rb_ok_def rb_data_def rt_ringbuffer_data_len_def
      rt_ringbuffer_status_def)

text \<open>The byte operations as a client sees them: accepted or not, a byte or nothing.\<close>

definition rb_enq :: "u8 \<Rightarrow> rt_ringbuffer \<Rightarrow> rt_ringbuffer option" where
  "rb_enq ch rb = do { (r, rb') \<leftarrow> rt_ringbuffer_putchar rb ch; if r = 1 then Some rb' else None }"

definition rb_deq :: "rt_ringbuffer \<Rightarrow> (u8 \<times> rt_ringbuffer) option" where
  "rb_deq rb = do { (r, c, rb') \<leftarrow> rt_ringbuffer_getchar rb; x \<leftarrow> c; Some (x, rb') }"

lemma putchar_spec:
  assumes "rb_ok rb"
  shows "ok (rt_ringbuffer_putchar rb ch) (\<lambda>(r, rb'). rb_ok rb' \<and> rb_buffer_size rb' = rb_buffer_size rb \<and>
    (if length (rb_data rb) < rb_buffer_size rb then r = 1 \<and> rb_data rb' = rb_data rb @ [ch]
     else r = 0 \<and> rb_data rb' = rb_data rb))"
  using put_spec [OF assms, of 1 "[ch]"] data_len_le [OF assms]
  by (auto simp: putchar_is_put [OF assms] elim!: ok_mono)

lemma getchar_spec:
  assumes "rb_ok rb"
  shows "ok (rt_ringbuffer_getchar rb) (\<lambda>(r, c, rb'). rb_ok rb' \<and> rb_buffer_size rb' = rb_buffer_size rb \<and>
    (case rb_data rb of [] \<Rightarrow> r = 0 \<and> c = None \<and> rb_data rb' = []
                      | x # xs \<Rightarrow> r = 1 \<and> c = Some x \<and> rb_data rb' = xs))"
proof -
  have l: "length (rb_data rb) = rt_ringbuffer_data_len rb" by simp
  show ?thesis
    using get_spec [OF assms, of 1] l unfolding getchar_is_get [OF assms]
    by (cases "rb_data rb") (auto simp: ok_iff simp del: length_rb_data)
qed

interpretation rbq: bounded_fifo "\<lambda>_. True" rb_ok rb_buffer_size rb_data rb_enq rb_deq
proof
  fix rb assume i: "rb_ok rb"
  show "length (rb_data rb) \<le> rb_buffer_size rb"
    using i by (simp add: data_len_le)
  show "length (rb_data rb) = rb_buffer_size rb \<Longrightarrow> rb_enq x rb = None" for x
    using putchar_spec [OF i, of x] by (auto simp: rb_enq_def ok_iff)
  show "length (rb_data rb) < rb_buffer_size rb \<Longrightarrow>
      \<exists>rb'. rb_enq x rb = Some rb' \<and> rb_ok rb' \<and> rb_buffer_size rb' = rb_buffer_size rb \<and>
            rb_data rb' = rb_data rb @ [x]" for x
    using putchar_spec [OF i, of x] by (auto simp: rb_enq_def ok_iff)
  show "rb_data rb = [] \<Longrightarrow> rb_deq rb = None"
    using getchar_spec [OF i] by (auto simp: rb_deq_def ok_iff)
  show "rb_data rb = x # xs \<Longrightarrow>
      \<exists>rb'. rb_deq rb = Some (x, rb') \<and> rb_ok rb' \<and> rb_buffer_size rb' = rb_buffer_size rb \<and>
            rb_data rb' = xs" for x xs
    using getchar_spec [OF i] by (auto simp: rb_deq_def ok_iff)
qed

section \<open>A pool smaller than the alignment\<close>

text \<open>Forced byte writes in a row, as an interrupt handler does.\<close>

fun putchars_force :: "rt_ringbuffer \<Rightarrow> u8 list \<Rightarrow> rt_ringbuffer option" where
  "putchars_force rb [] = Some rb"
| "putchars_force rb (c # cs) = do { (r, rb') \<leftarrow> rt_ringbuffer_putchar_force rb c; putchars_force rb' cs }"

lemma putchars_force_runs_off:
  assumes "rb_buffer_size rb = 0" "rb_read_index rb = 0" "rb_read_mirror rb = rb_write_mirror rb"
    "length (rb_buffer_ptr rb) < 2 ^ 31" "length (rb_buffer_ptr rb) < rb_write_index rb + length cs"
    "rb_write_index rb \<le> length (rb_buffer_ptr rb)"
  shows "putchars_force rb cs = None"
  using assms
proof (induction cs arbitrary: rb)
  case Nil
  then show ?case by simp
next
  case (Cons c cs)
  show ?case
  proof (cases "rb_write_index rb = length (rb_buffer_ptr rb)")
    case True
    then show ?thesis by (simp add: rt_ringbuffer_putchar_force_def mem_write_def)
  next
    case False
    have nf: "rt_ringbuffer_status rb \<noteq> RT_RINGBUFFER_FULL"
      using Cons.prems(3) by (simp add: rt_ringbuffer_status_def)
    let ?rb' = "rb\<lparr>rb_buffer_ptr := (rb_buffer_ptr rb)[rb_write_index rb := c],
                   rb_write_index := rb_write_index rb + 1\<rparr>"
    have "rt_ringbuffer_putchar_force rb c = Some (1, ?rb')"
      using False Cons.prems nf
      by (simp add: rt_ringbuffer_putchar_force_def mem_write_single arith32)
    moreover have "putchars_force ?rb' cs = None"
      using False Cons.prems by (intro Cons.IH) auto
    ultimately show ?thesis by simp
  qed
qed

section \<open>Properties\<close>

text \<open>
  C20: The byte interface of the ring buffer is a bounded FIFO queue. Over any sequence of
  \<open>rt_ringbuffer_putchar\<close> and \<open>rt_ringbuffer_getchar\<close> calls, what the buffer held followed by the
  bytes accepted is what was delivered followed by what it holds: nothing is lost, duplicated or
  reordered, whatever the mirrors do, and the buffer stays well formed.
\<close>

theorem ringbuffer_fifo_order:
  assumes "rb_ok rb" "fifo_run rb_enq rb_deq ops rb = (accepted, delivered, rb')"
  shows "rb_ok rb' \<and> rb_buffer_size rb' = rb_buffer_size rb \<and>
         rb_data rb @ accepted = delivered @ rb_data rb'"
  using rbq.run_fifo [OF assms(1) _ assms(2)] by simp

text \<open>An eight-byte buffer whose next bytes go across the mirror boundary.\<close>

definition rb_example :: rt_ringbuffer where
  "rb_example = \<lparr>rb_buffer_ptr = [1, 2, 3, 4, 5, 6, 7, 8], rb_read_mirror = False, rb_read_index = 5,
     rb_write_mirror = False, rb_write_index = 7, rb_buffer_size = 8\<rparr>"

lemma rb_example_ok: "rb_ok rb_example" "rb_data rb_example = [6, 7]"
  "rt_ringbuffer_data_len rb_example = 2" "rb_buffer_size rb_example = 8"
  by (simp_all add: rb_example_def rb_ok_def rb_data_def rt_ringbuffer_data_len_def
      rt_ringbuffer_status_def sub32_def upt_conv_Cons)

lemmas rb_eval = rb_enq_def rb_deq_def rt_ringbuffer_putchar_def rt_ringbuffer_getchar_def
  rt_ringbuffer_space_len_def rt_ringbuffer_data_len_def rt_ringbuffer_status_def
  mem_write_def mem_read_def sub32_def bits31_def

theorem ringbuffer_fifo_order_witness:
  "\<exists>rb'. fifo_run rb_enq rb_deq [Enq 10, Deq, Enq 11, Deq, Deq] rb_example = ([10, 11], [6, 7, 10], rb') \<and>
         rb_ok rb' \<and> rb_data rb' = [11]"
proof -
  obtain rb' where run: "fifo_run rb_enq rb_deq [Enq 10, Deq, Enq 11, Deq, Deq] rb_example =
      ([10, 11], [6, 7, 10], rb')"
    by (simp add: rb_example_def rb_eval)
  from ringbuffer_fifo_order [OF rb_example_ok(1) run] show ?thesis
    using run by (simp add: rb_example_ok)
qed

text \<open>
  Block transfers. \<open>rt_ringbuffer_put\<close> appends the longest prefix of the source that fits and
  returns its length; \<open>rt_ringbuffer_get\<close> returns and removes the oldest bytes; both stay inside the
  pool, keep the buffer well formed, and split their copies over the end of the ring correctly.
\<close>

lemma ringbuffer_block_transfers:
  assumes "rb_ok rb" "len \<le> length src" "len < 2 ^ 32"
  shows "ok (rt_ringbuffer_put rb src len) (\<lambda>(r, rb').
           r = min len (rb_buffer_size rb - length (rb_data rb)) \<and> rb_ok rb' \<and>
           rb_data rb' = rb_data rb @ take r src) \<and>
         ok (rt_ringbuffer_get rb len) (\<lambda>(r, out, rb').
           r = min len (length (rb_data rb)) \<and> rb_ok rb' \<and>
           out = take r (rb_data rb) \<and> rb_data rb' = drop r (rb_data rb))"
  using put_spec [OF assms] get_spec [OF assms(1,3)]
  by (auto simp: ok_iff min_def)

lemma ringbuffer_block_transfers_witness:
  "ok (rt_ringbuffer_put rb_example [21, 22, 23] 3) (\<lambda>(r, rb').
     r = 3 \<and> rb_data rb' = [6, 7, 21, 22, 23])"
  using ringbuffer_block_transfers [OF rb_example_ok(1), of 3 "[21, 22, 23]"]
  by (auto simp: rb_example_ok ok_iff)

text \<open>
  \<open>rt_ringbuffer_put_force\<close> never refuses: afterwards the buffer holds the newest
  \<open>buffer_size\<close> bytes of the old contents followed by the source, in order.
\<close>

lemma ringbuffer_put_force_keeps_newest:
  assumes "rb_ok rb" "len \<le> length src" "len < 2 ^ 32"
  shows "ok (rt_ringbuffer_put_force rb src len) (\<lambda>(r, rb').
           r = min len (rb_buffer_size rb) \<and> rb_ok rb' \<and>
           (let bytes = rb_data rb @ take len src
            in rb_data rb' = drop (length bytes - rb_buffer_size rb) bytes))"
  using put_force_spec [OF assms] by (auto simp: ok_iff Let_def)

lemma ringbuffer_put_force_keeps_newest_witness:
  "ok (rt_ringbuffer_put_force rb_example [11, 12, 13, 14, 15, 16, 17] 7) (\<lambda>(r, rb').
     rb_data rb' = [7, 11, 12, 13, 14, 15, 16, 17])"
  using ringbuffer_put_force_keeps_newest [OF rb_example_ok(1), of 7 "[11, 12, 13, 14, 15, 16, 17]"]
  by (auto simp: rb_example_ok ok_iff Let_def)

text \<open>
  The hand-written byte operations are the block operations at length one: same result, same
  new state, on every well-formed buffer.
\<close>

lemma ringbuffer_byte_ops_are_block_ops:
  assumes "rb_ok rb"
  shows "rt_ringbuffer_putchar rb ch = rt_ringbuffer_put rb [ch] 1 \<and>
         rt_ringbuffer_putchar_force rb ch = rt_ringbuffer_put_force rb [ch] 1 \<and>
         rt_ringbuffer_getchar rb = map_option
           (\<lambda>(r, out, rb'). (r, if r = 0 then None else Some (hd out), rb')) (rt_ringbuffer_get rb 1)"
  using putchar_is_put [OF assms] putchar_force_is_put_force [OF assms] getchar_is_get [OF assms]
  by simp

lemma ringbuffer_byte_ops_are_block_ops_witness:
  "rt_ringbuffer_putchar_force rb_example 9 = rt_ringbuffer_put_force rb_example [9] 1"
  using ringbuffer_byte_ops_are_block_ops [OF rb_example_ok(1)] by simp

text \<open>
  \<open>rt_ringbuffer_init\<close> asserts only \<open>size > 0\<close>, but rounds the size down to the alignment: a
  pool of one to seven bytes becomes a buffer of size zero, which refuses every \<open>put\<close> and on which
  \<open>rt_ringbuffer_putchar_force\<close> never wraps: a run of forced writes longer than the pool writes
  outside it.
\<close>

lemma ringbuffer_tiny_pool_overruns:
  assumes "0 < sz" "sz < 8" "length pool = nat sz" "length bytes > nat sz"
  shows "ok (rt_ringbuffer_init pool sz) (\<lambda>rb. rb_buffer_size rb = 0 \<and>
           (\<forall>src len. rt_ringbuffer_put rb src len = Some (0, rb)) \<and> putchars_force rb bytes = None)"
proof -
  have small: "RT_ALIGN_DOWN (nat sz) RT_ALIGN_SIZE = 0"
    using assms(1,2) by (simp add: RT_ALIGN_DOWN_8 mod_less nat_less_iff)
  show ?thesis
    using assms putchars_force_runs_off
    by (simp add: rt_ringbuffer_init_def ok_simps small rt_ringbuffer_put_def
        rt_ringbuffer_space_len_def rt_ringbuffer_data_len_def rt_ringbuffer_status_def sub32_def)
qed

lemma ringbuffer_tiny_pool_overruns_witness:
  "ok (rt_ringbuffer_init [0, 0, 0, 0] 4) (\<lambda>rb. rb_buffer_size rb = 0 \<and>
     putchars_force rb [1, 2, 3, 4, 5] = None)"
  using ringbuffer_tiny_pool_overruns [of 4 "[0, 0, 0, 0]" "[1, 2, 3, 4, 5]"]
  by (auto simp: ok_iff simp del: putchars_force.simps)

end
