(* ===== verification/Min_Queue.thy ===== *)
theory Min_Queue
  imports Prelude
begin

text \<open>
  The interface of a store from which the element of least key is taken first: what the timer list
  (\<open>src/timer.c\<close>, keyed by time to expiry) and the ready table (\<open>src/scheduler_up.c\<close>, keyed by
  priority) promise. The lemma that draining such a store delivers its members in key order, each
  exactly once, is proved here once.
\<close>

fun drain :: "('s \<Rightarrow> 'a option) \<Rightarrow> ('a \<Rightarrow> 's \<Rightarrow> 's) \<Rightarrow> nat \<Rightarrow> 's \<Rightarrow> 'a list \<times> 's" where
  "drain first del 0 s = ([], s)"
| "drain first del (Suc n) s =
     (case first s of
        None \<Rightarrow> ([], s)
      | Some x \<Rightarrow> (let (xs, t) = drain first del n (del x s) in (x # xs, t)))"

locale min_queue =
  fixes inv :: "'s \<Rightarrow> bool"
    and members :: "'s \<Rightarrow> 'a set"
    and key :: "'s \<Rightarrow> 'a \<Rightarrow> nat"
    and first :: "'s \<Rightarrow> 'a option"
    and del :: "'a \<Rightarrow> 's \<Rightarrow> 's"
  assumes members_finite: "inv s \<Longrightarrow> finite (members s)"
    and first_None: "inv s \<Longrightarrow> first s = None \<longleftrightarrow> members s = {}"
    and first_least: "inv s \<Longrightarrow> first s = Some x \<Longrightarrow> x \<in> members s \<and> (\<forall>y \<in> members s. key s x \<le> key s y)"
    and del_inv: "inv s \<Longrightarrow> first s = Some x \<Longrightarrow> inv (del x s)"
    and del_members: "inv s \<Longrightarrow> first s = Some x \<Longrightarrow> members (del x s) = members s - {x}"
    and del_key: "inv s \<Longrightarrow> first s = Some x \<Longrightarrow> y \<in> members s \<Longrightarrow> y \<noteq> x \<Longrightarrow> key (del x s) y = key s y"
begin

lemma drain_spec:
  "inv s \<Longrightarrow> drain first del n s = (xs, t) \<Longrightarrow>
   inv t \<and> distinct xs \<and> set xs \<subseteq> members s \<and> members t = members s - set xs \<and>
   sorted (map (key s) xs) \<and> (\<forall>x \<in> set xs. \<forall>y \<in> members t. key s x \<le> key s y)"
proof (induction n arbitrary: s xs)
  case 0
  then show ?case by simp
next
  case (Suc n)
  show ?case
  proof (cases "first s")
    case None
    with Suc.prems show ?thesis by simp
  next
    case (Some x)
    from Suc.prems(2) Some obtain ys where
      run: "drain first del n (del x s) = (ys, t)" and xs: "xs = x # ys"
      by (auto split: prod.splits)
    note IH = Suc.IH [OF del_inv [OF Suc.prems(1) Some] run]
    note mem = del_members [OF Suc.prems(1) Some]
    note least = first_least [OF Suc.prems(1) Some]
    have keys: "key (del x s) y = key s y" if "y \<in> members s - {x}" for y
      using del_key [OF Suc.prems(1) Some] that by simp
    have ys: "set ys \<subseteq> members s - {x}" "members t = members s - {x} - set ys"
      using IH mem by auto
    have eq: "map (key (del x s)) ys = map (key s) ys" using keys ys by auto
    have "sorted (map (key s) ys)" using IH unfolding eq by blast
    moreover have "key s u \<le> key s v" if "u \<in> set ys" "v \<in> members t" for u v
      using IH that keys ys by (metis (no_types, lifting) Diff_iff subsetD)
    ultimately show ?thesis using xs IH ys least by auto
  qed
qed

lemma drain_all:
  assumes "inv s" "card (members s) \<le> n" "drain first del n s = (xs, t)"
  shows "set xs = members s \<and> members t = {}"
  using assms
proof (induction n arbitrary: s xs)
  case 0
  then show ?case using members_finite by simp
next
  case (Suc n)
  show ?case
  proof (cases "first s")
    case None
    with Suc.prems first_None show ?thesis by simp
  next
    case (Some x)
    from Suc.prems(3) Some obtain ys where
      run: "drain first del n (del x s) = (ys, t)" and xs: "xs = x # ys"
      by (auto split: prod.splits)
    have x: "x \<in> members s" using first_least [OF Suc.prems(1) Some] by simp
    note mem = del_members [OF Suc.prems(1) Some]
    have "card (members (del x s)) \<le> n"
      using Suc.prems(2) x mem members_finite [OF Suc.prems(1)] by simp
    from Suc.IH [OF del_inv [OF Suc.prems(1) Some] this run] mem xs x show ?thesis by auto
  qed
qed

end

end
