(* ===== verification/Timer.thy ===== *)
theory Timer
  imports Prelude Min_Queue
begin

text \<open>
  The timer subsystem (\<open>src/timer.c\<close>) and the tick counter (\<open>src/clock.c\<close>) as one state: the
  current tick, the timer control blocks, the sorted timer list \<open>_timer_list\<close> (one skip-list level,
  \<open>RT_TIMER_SKIP_LIST_LEVEL = 1\<close>) and the local list on which \<open>rt_timer_check\<close> holds the timer whose
  callback it is running. \<open>rt_timer_check\<close> itself calls back into the kernel and is in theory Clock.
\<close>

type_synonym tid = nat

text \<open>Timers: the one built into each thread, and the timers of the application.\<close>

datatype tmid = Thread_Timer tid | User_Timer nat

datatype timeout_func = Thread_timeout_fn | User_fn nat

record rt_timer =
  tm_object :: obj_kind
  tm_flag :: u8
  tm_timeout_func :: timeout_func
  tm_parameter :: nat
  tm_init_tick :: u32
  tm_timeout_tick :: u32

record clk =
  ck_tick :: u32
  ck_timer :: "tmid \<Rightarrow> rt_timer"
  ck_list :: "tmid list"
  ck_fired :: "tmid list"
  ck_random_nr :: u32

definition RT_TICK_MAX :: u32 where "RT_TICK_MAX = 0xffffffff"
definition RT_TIMER_FLAG_ACTIVATED :: u8 where "RT_TIMER_FLAG_ACTIVATED = 0x1"
definition RT_TIMER_FLAG_PERIODIC :: u8 where "RT_TIMER_FLAG_PERIODIC = 0x2"

section \<open>Operations\<close>

definition upd_timer :: "tmid \<Rightarrow> (rt_timer \<Rightarrow> rt_timer) \<Rightarrow> clk \<Rightarrow> clk" where
  "upd_timer t f c = c\<lparr>ck_timer := (ck_timer c)(t := f (ck_timer c t))\<rparr>"

definition tm_activated :: "rt_timer \<Rightarrow> bool" where
  "tm_activated tm \<longleftrightarrow> tm_flag tm AND RT_TIMER_FLAG_ACTIVATED \<noteq> 0"

definition tm_periodic :: "rt_timer \<Rightarrow> bool" where
  "tm_periodic tm \<longleftrightarrow> tm_flag tm AND RT_TIMER_FLAG_PERIODIC \<noteq> 0"

definition set_activated :: "rt_timer \<Rightarrow> rt_timer" where
  "set_activated tm = tm\<lparr>tm_flag := tm_flag tm OR RT_TIMER_FLAG_ACTIVATED\<rparr>"

definition clear_activated :: "rt_timer \<Rightarrow> rt_timer" where
  "clear_activated tm = tm\<lparr>tm_flag := tm_flag tm AND NOT RT_TIMER_FLAG_ACTIVATED\<rparr>"

definition rt_tick_get :: "clk \<Rightarrow> u32" where
  "rt_tick_get c = ck_tick c"

definition rt_tick_set :: "u32 \<Rightarrow> clk \<Rightarrow> clk" where
  "rt_tick_set t c = c\<lparr>ck_tick := t\<rparr>"

definition RT_TICK_PER_SECOND :: int where "RT_TICK_PER_SECOND = 1000"

text \<open>\<open>ms\<close> is a signed 32-bit number; a negative one waits forever (all ones).\<close>

definition rt_tick_from_millisecond :: "int \<Rightarrow> u32" where
  "rt_tick_from_millisecond ms =
     (if ms < 0 then word_of_int (- 1)
      else word_of_int (RT_TICK_PER_SECOND * (ms div 1000)) +
           word_of_int ((RT_TICK_PER_SECOND * (ms mod 1000) + 999) div 1000))"

definition timer_init_block ::
  "tmid \<Rightarrow> timeout_func \<Rightarrow> nat \<Rightarrow> u32 \<Rightarrow> u8 \<Rightarrow> clk \<Rightarrow> clk" where
  "timer_init_block t func parm time flag =
     upd_timer t (\<lambda>tm. tm\<lparr>tm_flag := flag AND NOT RT_TIMER_FLAG_ACTIVATED, tm_timeout_func := func,
       tm_parameter := parm, tm_timeout_tick := 0, tm_init_tick := time\<rparr>)"

text \<open>
  With \<open>RT_DEBUG\<close>, \<open>rt_object_init\<close> asserts that the object is not in the container of its class
  already, i.e. that it was never initialised or has been detached.
\<close>

definition rt_timer_init ::
  "tmid \<Rightarrow> timeout_func \<Rightarrow> nat \<Rightarrow> u32 \<Rightarrow> u8 \<Rightarrow> clk \<Rightarrow> clk option" where
  "rt_timer_init t func parm time flag c = do {
     rt_assert (time < RT_TICK_MAX div 2);
     rt_assert (tm_object (ck_timer c t) = Obj_Null);
     Some (timer_init_block t func parm time flag (upd_timer t (\<lambda>tm. tm\<lparr>tm_object := Obj_Static\<rparr>) c))
   }"

text \<open>\<open>_timer_remove\<close>: \<open>rt_list_remove\<close> takes the timer off the list it is on, or does nothing.\<close>

definition timer_remove :: "tmid \<Rightarrow> clk \<Rightarrow> clk" where
  "timer_remove t c = c\<lparr>ck_list := removeAll t (ck_list c), ck_fired := removeAll t (ck_fired c)\<rparr>"

definition rt_timer_detach :: "tmid \<Rightarrow> clk \<Rightarrow> (int \<times> clk) option" where
  "rt_timer_detach t c = do {
     rt_assert (tm_object (ck_timer c t) \<noteq> Obj_Null);
     rt_assert (tm_object (ck_timer c t) = Obj_Static);
     let c = upd_timer t clear_activated (timer_remove t c);
     Some (RT_EOK, upd_timer t (\<lambda>tm. tm\<lparr>tm_object := Obj_Null\<rparr>) c)
   }"

definition rt_timer_delete :: "tmid \<Rightarrow> clk \<Rightarrow> (int \<times> clk) option" where
  "rt_timer_delete t c = do {
     rt_assert (tm_object (ck_timer c t) \<noteq> Obj_Null);
     rt_assert (tm_object (ck_timer c t) \<noteq> Obj_Static);
     let c = upd_timer t clear_activated (timer_remove t c);
     Some (RT_EOK, upd_timer t (\<lambda>tm. tm\<lparr>tm_object := Obj_Null\<rparr>) c)
   }"

text \<open>
  The walk of \<open>rt_timer_start\<close>: past every timer of the same timeout and past every timer that the
  wrapped difference puts before, to the first one that is later.
\<close>

fun timer_insert :: "(tmid \<Rightarrow> u32) \<Rightarrow> u32 \<Rightarrow> tmid \<Rightarrow> tmid list \<Rightarrow> tmid list" where
  "timer_insert timeout tt n [] = [n]"
| "timer_insert timeout tt n (p # ps) =
     (if timeout p - tt = 0 then p # timer_insert timeout tt n ps
      else if timeout p - tt < RT_TICK_MAX div 2 then n # p # ps
      else p # timer_insert timeout tt n ps)"

definition rt_timer_start :: "tmid \<Rightarrow> clk \<Rightarrow> (int \<times> clk) option" where
  "rt_timer_start t c = do {
     rt_assert (tm_object (ck_timer c t) \<noteq> Obj_Null);
     let c = upd_timer t clear_activated (timer_remove t c);
     let c = upd_timer t (\<lambda>tm. tm\<lparr>tm_timeout_tick := rt_tick_get c + tm_init_tick tm\<rparr>) c;
     let c = c\<lparr>ck_random_nr := ck_random_nr c + 1,
               ck_list := timer_insert (\<lambda>p. tm_timeout_tick (ck_timer c p))
                            (tm_timeout_tick (ck_timer c t)) t (ck_list c)\<rparr>;
     Some (RT_EOK, upd_timer t set_activated c)
   }"

definition rt_timer_stop :: "tmid \<Rightarrow> clk \<Rightarrow> (int \<times> clk) option" where
  "rt_timer_stop t c = do {
     rt_assert (tm_object (ck_timer c t) \<noteq> Obj_Null);
     if \<not> tm_activated (ck_timer c t) then Some (- RT_ERROR, c)
     else Some (RT_EOK, upd_timer t clear_activated (timer_remove t c))
   }"

text \<open>
  \<open>rt_timer_control\<close>: the command, and what \<open>arg\<close> points to (or is); the result holds what the
  call wrote through \<open>arg\<close>.
\<close>

datatype timer_cmd = RT_TIMER_CTRL_SET_TIME | RT_TIMER_CTRL_GET_TIME | RT_TIMER_CTRL_SET_ONESHOT
  | RT_TIMER_CTRL_SET_PERIODIC | RT_TIMER_CTRL_GET_STATE | RT_TIMER_CTRL_GET_REMAIN_TIME
  | RT_TIMER_CTRL_GET_FUNC | RT_TIMER_CTRL_SET_FUNC | RT_TIMER_CTRL_GET_PARM
  | RT_TIMER_CTRL_SET_PARM | Timer_Ctrl_Other

datatype ctrl_arg = Arg_Tick (arg_tick: u32) | Arg_Func (arg_func: timeout_func) | Arg_Ptr (arg_ptr: nat)

definition rt_timer_control ::
  "tmid \<Rightarrow> timer_cmd \<Rightarrow> ctrl_arg \<Rightarrow> clk \<Rightarrow> (int \<times> ctrl_arg \<times> clk) option" where
  "rt_timer_control t cmd arg c = do {
     rt_assert (tm_object (ck_timer c t) \<noteq> Obj_Null);
     let tm = ck_timer c t;
     (case cmd of
        RT_TIMER_CTRL_GET_TIME \<Rightarrow> Some (RT_EOK, Arg_Tick (tm_init_tick tm), c)
      | RT_TIMER_CTRL_SET_TIME \<Rightarrow> do {
          rt_assert (arg_tick arg < RT_TICK_MAX div 2);
          Some (RT_EOK, arg, upd_timer t (\<lambda>tm. tm\<lparr>tm_init_tick := arg_tick arg\<rparr>) c)
        }
      | RT_TIMER_CTRL_SET_ONESHOT \<Rightarrow>
          Some (RT_EOK, arg, upd_timer t (\<lambda>tm. tm\<lparr>tm_flag := tm_flag tm AND NOT RT_TIMER_FLAG_PERIODIC\<rparr>) c)
      | RT_TIMER_CTRL_SET_PERIODIC \<Rightarrow>
          Some (RT_EOK, arg, upd_timer t (\<lambda>tm. tm\<lparr>tm_flag := tm_flag tm OR RT_TIMER_FLAG_PERIODIC\<rparr>) c)
      | RT_TIMER_CTRL_GET_STATE \<Rightarrow>
          Some (RT_EOK, Arg_Tick (if tm_activated tm then 1 else 0), c)
      | RT_TIMER_CTRL_GET_REMAIN_TIME \<Rightarrow> Some (RT_EOK, Arg_Tick (tm_timeout_tick tm), c)
      | RT_TIMER_CTRL_GET_FUNC \<Rightarrow> Some (RT_EOK, Arg_Func (tm_timeout_func tm), c)
      | RT_TIMER_CTRL_SET_FUNC \<Rightarrow>
          Some (RT_EOK, arg, upd_timer t (\<lambda>tm. tm\<lparr>tm_timeout_func := arg_func arg\<rparr>) c)
      | RT_TIMER_CTRL_GET_PARM \<Rightarrow> Some (RT_EOK, Arg_Ptr (tm_parameter tm), c)
      | RT_TIMER_CTRL_SET_PARM \<Rightarrow>
          Some (RT_EOK, arg, upd_timer t (\<lambda>tm. tm\<lparr>tm_parameter := arg_ptr arg\<rparr>) c)
      | Timer_Ctrl_Other \<Rightarrow> Some (RT_EOK, arg, c))
   }"

text \<open>\<open>_timer_list_next_timeout\<close> returns an error code and writes the tick through a pointer.\<close>

definition timer_list_next_timeout :: "clk \<Rightarrow> u32 \<Rightarrow> int \<times> u32" where
  "timer_list_next_timeout c tick =
     (case ck_list c of
        [] \<Rightarrow> (- RT_ERROR, tick)
      | t # _ \<Rightarrow> (RT_EOK, tm_timeout_tick (ck_timer c t)))"

definition rt_timer_next_timeout_tick :: "clk \<Rightarrow> u32" where
  "rt_timer_next_timeout_tick c = snd (timer_list_next_timeout c RT_TICK_MAX)"

definition rt_system_timer_init :: "clk \<Rightarrow> clk" where
  "rt_system_timer_init c = c\<lparr>ck_list := []\<rparr>"

section \<open>Order on timeouts in a window of the tick counter\<close>

text \<open>
  Timeouts are compared by wrapped 32-bit differences, so they are ordered only inside a window of
  less than half the counter: \<open>due b c t\<close> is the distance of \<open>t\<close>'s timeout from a base tick \<open>b\<close>, and
  in the window all distances stay below \<open>RT_TICK_MAX / 2\<close>.
\<close>

definition due :: "u32 \<Rightarrow> clk \<Rightarrow> tmid \<Rightarrow> nat" where
  "due b c t = unat (tm_timeout_tick (ck_timer c t) - b)"

abbreviation HALF :: nat where "HALF \<equiv> 0x7fffffff"

lemma RT_TICK_MAX_half [simp]: "RT_TICK_MAX div 2 = 0x7fffffff"
  by (simp add: RT_TICK_MAX_def)

lemma tick_diff_in_window:
  fixes x y b :: u32
  assumes "unat (x - b) < HALF" "unat (y - b) < HALF"
  shows "x - y = 0 \<longleftrightarrow> unat (x - b) = unat (y - b)"
    and "x - y < 0x7fffffff \<longleftrightarrow> unat (y - b) \<le> unat (x - b)"
proof -
  have d: "x - y = (x - b) - (y - b)" by simp
  show "x - y = 0 \<longleftrightarrow> unat (x - b) = unat (y - b)"
    by (metis d right_minus_eq unsigned_word_eqI)
  show "x - y < 0x7fffffff \<longleftrightarrow> unat (y - b) \<le> unat (x - b)"
  proof (cases "unat (y - b) \<le> unat (x - b)")
    case True
    then have "unat (x - y) = unat (x - b) - unat (y - b)"
      by (subst d, subst unat_sub) (simp_all add: word_le_nat_alt)
    with True assms show ?thesis by (simp add: word_less_nat_alt)
  next
    case False
    then have "unat (x - y) = 2 ^ 32 + unat (x - b) - unat (y - b)"
      by (subst d, subst unat_sub_if') simp
    with False assms show ?thesis by (simp add: word_less_nat_alt)
  qed
qed

text \<open>The invariant of the timer subsystem, relative to a base tick.\<close>

definition timers_ok :: "u32 \<Rightarrow> clk \<Rightarrow> bool" where
  "timers_ok b c \<longleftrightarrow>
     distinct (ck_list c) \<and>
     (\<forall>t. tm_activated (ck_timer c t) \<longleftrightarrow> t \<in> set (ck_list c)) \<and>
     (\<forall>t \<in> set (ck_list c). tm_object (ck_timer c t) \<noteq> Obj_Null) \<and>
     (\<forall>t \<in> set (ck_list c). due b c t < HALF) \<and>
     sorted (map (due b c) (ck_list c))"

lemma upd_timer_simps [simp]:
  "ck_tick (upd_timer t f c) = ck_tick c"
  "ck_list (upd_timer t f c) = ck_list c"
  "ck_fired (upd_timer t f c) = ck_fired c"
  "ck_random_nr (upd_timer t f c) = ck_random_nr c"
  "ck_timer (upd_timer t f c) = (ck_timer c)(t := f (ck_timer c t))"
  by (simp_all add: upd_timer_def)

lemma timer_remove_simps [simp]:
  "ck_tick (timer_remove t c) = ck_tick c"
  "ck_timer (timer_remove t c) = ck_timer c"
  "ck_list (timer_remove t c) = removeAll t (ck_list c)"
  "ck_fired (timer_remove t c) = removeAll t (ck_fired c)"
  by (simp_all add: timer_remove_def)

lemma flag_bits [simp]:
  "tm_activated (set_activated tm)" "\<not> tm_activated (clear_activated tm)"
  "tm_periodic (set_activated tm) = tm_periodic tm"
  "tm_periodic (clear_activated tm) = tm_periodic tm"
  "tm_object (set_activated tm) = tm_object tm" "tm_object (clear_activated tm) = tm_object tm"
  "tm_timeout_tick (set_activated tm) = tm_timeout_tick tm"
  "tm_timeout_tick (clear_activated tm) = tm_timeout_tick tm"
  "tm_init_tick (set_activated tm) = tm_init_tick tm"
  "tm_init_tick (clear_activated tm) = tm_init_tick tm"
  "tm_timeout_func (set_activated tm) = tm_timeout_func tm"
  "tm_timeout_func (clear_activated tm) = tm_timeout_func tm"
  "tm_parameter (set_activated tm) = tm_parameter tm"
  "tm_parameter (clear_activated tm) = tm_parameter tm"
proof -
  have b1: "\<not> bit (1 :: u8) (Suc 0)" "\<not> bit (- 2 :: u8) 0" "bit (- 2 :: u8) (Suc 0)"
    using bit_not_iff [of "1 :: u8" 0] bit_not_iff [of "1 :: u8" 1] by (simp_all add: bit_1_iff)
  show "tm_activated (set_activated tm)" "\<not> tm_activated (clear_activated tm)"
    "tm_periodic (set_activated tm) = tm_periodic tm"
    "tm_periodic (clear_activated tm) = tm_periodic tm"
    by (simp_all add: tm_activated_def tm_periodic_def set_activated_def clear_activated_def
      RT_TIMER_FLAG_ACTIVATED_def RT_TIMER_FLAG_PERIODIC_def word_test_bit0 word_test_bit1
      bit_or_iff bit_and_iff b1)
qed (simp_all add: set_activated_def clear_activated_def)

section \<open>Starting and stopping\<close>

lemma timer_insert_split:
  assumes "\<forall>p \<in> set xs. unat (timeout p - b) < HALF" "unat (tt - b) < HALF"
  shows "timer_insert timeout tt n xs =
    takeWhile (\<lambda>p. unat (timeout p - b) \<le> unat (tt - b)) xs @
    n # dropWhile (\<lambda>p. unat (timeout p - b) \<le> unat (tt - b)) xs"
  using assms
proof (induction xs)
  case Nil
  then show ?case by simp
next
  case (Cons p ps)
  then have "unat (timeout p - b) < HALF" by simp
  note cmp = tick_diff_in_window [OF this Cons.prems(2)]
  show ?case using Cons cmp by auto
qed

lemma timer_insert_set: "set (timer_insert timeout tt n xs) = insert n (set xs)"
  by (induction xs) auto

lemma timer_insert_distinct: "distinct xs \<Longrightarrow> n \<notin> set xs \<Longrightarrow> distinct (timer_insert timeout tt n xs)"
  by (induction xs) (auto simp: timer_insert_set)

lemma sorted_map_insert:
  fixes f :: "'a \<Rightarrow> nat"
  assumes "sorted (map f xs)" "\<And>p. p \<in> set xs \<Longrightarrow> P p \<longleftrightarrow> f p \<le> f n"
  shows "sorted (map f (takeWhile P xs @ n # dropWhile P xs))"
  using assms
proof (induction xs)
  case (Cons x xs)
  show ?case
  proof (cases "f x \<le> f n")
    case True
    with Cons show ?thesis by (auto dest: set_takeWhileD set_dropWhileD)
  next
    case False
    with Cons.prems show ?thesis by auto
  qed
qed simp

lemma sorted_map_dropWhile:
  fixes f :: "'a \<Rightarrow> nat"
  assumes "sorted (map f xs)" "p \<in> set (dropWhile (\<lambda>p. f p \<le> k) xs)"
  shows "\<not> f p \<le> k"
  using assms by (induction xs) (auto split: if_splits)

lemma timer_insert_cong:
  "(\<And>p. p \<in> set xs \<Longrightarrow> f p = g p) \<Longrightarrow> timer_insert f tt n xs = timer_insert g tt n xs"
  by (induction xs) auto

lemma sorted_map_filter: "sorted (map f xs) \<Longrightarrow> sorted (map f (removeAll x xs))"
  by (metis removeAll_filter_not_eq sorted_filter)

lemma due_cong: "ck_timer c t = ck_timer c' t \<Longrightarrow> due b c t = due b c' t"
  by (simp add: due_def)

lemma timers_ok_remove:
  assumes "timers_ok b c"
  shows "timers_ok b (upd_timer t clear_activated (timer_remove t c))"
proof -
  have "due b (upd_timer t clear_activated (timer_remove t c)) p = due b c p" for p
    by (simp add: due_def)
  then have "due b (upd_timer t clear_activated (timer_remove t c)) = due b c" by blast
  with assms show ?thesis
    unfolding timers_ok_def by (auto simp: distinct_removeAll sorted_map_filter)
qed

text \<open>What \<open>rt_timer_start\<close> leaves, for a timer whose deadline stays in the window.\<close>

lemma rt_timer_start_spec:
  assumes c: "timers_ok b c" and o: "tm_object (ck_timer c t) \<noteq> Obj_Null"
    and w: "unat (ck_tick c + tm_init_tick (ck_timer c t) - b) < HALF"
  shows "\<exists>c'. rt_timer_start t c = Some (RT_EOK, c') \<and> timers_ok b c' \<and>
    ck_tick c' = ck_tick c \<and>
    (let older = (\<lambda>p. due b c p \<le> unat (ck_tick c + tm_init_tick (ck_timer c t) - b));
         rest = removeAll t (ck_list c)
     in ck_list c' = takeWhile older rest @ t # dropWhile older rest) \<and>
    ck_fired c' = removeAll t (ck_fired c) \<and>
    ck_timer c' = (ck_timer c)(t := set_activated (clear_activated (ck_timer c t)
      \<lparr>tm_timeout_tick := ck_tick c + tm_init_tick (ck_timer c t)\<rparr>))"
proof -
  let ?tt = "ck_tick c + tm_init_tick (ck_timer c t)"
  let ?c1 = "upd_timer t clear_activated (timer_remove t c)"
  let ?rest = "removeAll t (ck_list c)"
  let ?older = "\<lambda>p. due b c p \<le> unat (?tt - b)"
  obtain c' where run: "rt_timer_start t c = Some (RT_EOK, c')"
    using o by (simp add: rt_timer_start_def Let_def)
  have tm: "ck_timer c' = (ck_timer c)(t := set_activated (clear_activated (ck_timer c t)
      \<lparr>tm_timeout_tick := ?tt\<rparr>))"
    and tick: "ck_tick c' = ck_tick c" and fired: "ck_fired c' = removeAll t (ck_fired c)"
    using run by (auto simp: rt_timer_start_def Let_def rt_tick_get_def clear_activated_def)
  have raw: "ck_list c' = timer_insert (\<lambda>p. tm_timeout_tick (ck_timer c p)) ?tt t ?rest"
    using run
    by (auto simp: rt_timer_start_def Let_def rt_tick_get_def intro!: timer_insert_cong)
  have win: "\<forall>p \<in> set ?rest. unat (tm_timeout_tick (ck_timer c p) - b) < HALF"
    using c by (auto simp: timers_ok_def due_def)
  have lst: "ck_list c' = takeWhile ?older ?rest @ t # dropWhile ?older ?rest"
    unfolding raw timer_insert_split [OF win w] by (simp add: due_def)
  have due: "due b c' p = (if p = t then unat (?tt - b) else due b c p)" for p
    by (simp add: due_def tm)
  have "timers_ok b c'"
    unfolding timers_ok_def
  proof (intro conjI)
    show "distinct (ck_list c')"
      unfolding raw by (rule timer_insert_distinct) (use c in \<open>auto simp: timers_ok_def distinct_removeAll\<close>)
    have set: "set (ck_list c') = insert t (set (ck_list c))"
      unfolding raw timer_insert_set by auto
    show "\<forall>p. tm_activated (ck_timer c' p) \<longleftrightarrow> p \<in> set (ck_list c')"
      using c by (auto simp: tm set timers_ok_def)
    show "\<forall>p \<in> set (ck_list c'). tm_object (ck_timer c' p) \<noteq> Obj_Null"
      using c o by (auto simp: tm set timers_ok_def)
    show "\<forall>p \<in> set (ck_list c'). due b c' p < HALF"
      using c w by (auto simp: due set timers_ok_def)
    have older: "?older p \<longleftrightarrow> due b c' p \<le> due b c' t" if "p \<in> set ?rest" for p
      using that by (auto simp: due)
    have eq: "map (due b c') ?rest = map (due b c) ?rest" by (auto simp: due)
    have "sorted (map (due b c) ?rest)" using c by (simp add: timers_ok_def sorted_map_filter)
    then have "sorted (map (due b c') ?rest)" unfolding eq .
    then show "sorted (map (due b c') (ck_list c'))"
      unfolding lst by (rule sorted_map_insert) (rule older)
  qed
  with run tick lst fired tm show ?thesis by (simp add: Let_def)
qed

text \<open>Moving the base of the window up to a tick that no listed timer precedes.\<close>

lemma timers_ok_rebase:
  assumes "timers_ok b c" "unat (b' - b) < HALF" "\<forall>t \<in> set (ck_list c). unat (b' - b) \<le> due b c t"
  shows "timers_ok b' c"
proof -
  have d: "due b' c t = due b c t - unat (b' - b)" if "t \<in> set (ck_list c)" for t
  proof -
    have "tm_timeout_tick (ck_timer c t) - b' = (tm_timeout_tick (ck_timer c t) - b) - (b' - b)" by simp
    then show ?thesis
      using assms(3) that unfolding due_def by (metis unat_sub word_le_nat_alt)
  qed
  have "sorted (map (due b' c) (ck_list c))"
    using assms(1) d unfolding timers_ok_def sorted_iff_nth_mono by (simp add: diff_le_mono)
  moreover have "\<forall>t \<in> set (ck_list c). due b' c t < HALF"
    using assms(1) d unfolding timers_ok_def by (metis diff_le_self le_less_trans)
  ultimately show ?thesis using assms(1) unfolding timers_ok_def by blast
qed

section \<open>The timer list as a queue of deadlines\<close>

definition timer_first :: "clk \<Rightarrow> tmid option" where
  "timer_first c = (case ck_list c of [] \<Rightarrow> None | t # _ \<Rightarrow> Some t)"

definition active_timers :: "clk \<Rightarrow> tmid set" where
  "active_timers c = {t. tm_activated (ck_timer c t)}"

definition timer_del :: "tmid \<Rightarrow> clk \<Rightarrow> clk" where
  "timer_del t c = (case rt_timer_stop t c of None \<Rightarrow> c | Some (_, c') \<Rightarrow> c')"

lemma timer_del_active:
  "timers_ok b c \<Longrightarrow> t \<in> set (ck_list c) \<Longrightarrow>
   timer_del t c = upd_timer t clear_activated (timer_remove t c)"
  unfolding timers_ok_def by (auto simp: timer_del_def rt_timer_stop_def)

lemma active_timers_list: "timers_ok b c \<Longrightarrow> active_timers c = set (ck_list c)"
  by (auto simp: active_timers_def timers_ok_def)

interpretation timerq: min_queue "timers_ok b" active_timers "due b" timer_first timer_del for b
proof
  fix c x y
  assume c: "timers_ok b c"
  show "finite (active_timers c)" using active_timers_list [OF c] by simp
  show "timer_first c = None \<longleftrightarrow> active_timers c = {}"
    using active_timers_list [OF c] by (auto simp: timer_first_def split: list.splits)
  assume x: "timer_first c = Some x"
  then obtain xs where l: "ck_list c = x # xs" by (auto simp: timer_first_def split: list.splits)
  with c show "x \<in> active_timers c \<and> (\<forall>y \<in> active_timers c. due b c x \<le> due b c y)"
    unfolding active_timers_list [OF c] by (auto simp: timers_ok_def)
  have del: "timer_del x c = upd_timer x clear_activated (timer_remove x c)"
    using timer_del_active [OF c] l by simp
  show ok: "timers_ok b (timer_del x c)" unfolding del by (rule timers_ok_remove [OF c])
  show "active_timers (timer_del x c) = active_timers c - {x}"
    using active_timers_list [OF c] active_timers_list [OF ok] unfolding del by auto
  show "y \<noteq> x \<Longrightarrow> due b (timer_del x c) y = due b c y" by (simp add: del due_def)
qed

section \<open>Properties\<close>

text \<open>
  C12: rt_timer_start keeps the timer list ordered by deadline across wrap-around of the 32-bit
  tick: in a window of half the counter the started timer gets the deadline tick + init_tick, goes
  behind every timer due no later than it (so timers of the same deadline keep the order in which
  they were started) and ahead of every later one, is marked active, and a timer that was already
  listed is moved, never listed twice.
\<close>
theorem timer_start_keeps_deadline_order:
  assumes "timers_ok b c" "tm_object (ck_timer c t) \<noteq> Obj_Null"
    and "unat (ck_tick c + tm_init_tick (ck_timer c t) - b) < HALF"
  shows "\<exists>c'. rt_timer_start t c = Some (RT_EOK, c') \<and> timers_ok b c' \<and>
    (\<exists>before after. ck_list c' = before @ t # after \<and> before @ after = removeAll t (ck_list c) \<and>
       (\<forall>p \<in> set before. due b c' p \<le> due b c' t) \<and> (\<forall>p \<in> set after. due b c' t < due b c' p)) \<and>
    tm_timeout_tick (ck_timer c' t) = ck_tick c + tm_init_tick (ck_timer c t) \<and>
    tm_activated (ck_timer c' t)"
proof -
  let ?older = "\<lambda>p. due b c p \<le> unat (ck_tick c + tm_init_tick (ck_timer c t) - b)"
  let ?rest = "removeAll t (ck_list c)"
  obtain c' where run: "rt_timer_start t c = Some (RT_EOK, c')" and ok: "timers_ok b c'"
    and l: "ck_list c' = takeWhile ?older ?rest @ t # dropWhile ?older ?rest"
    and tm: "ck_timer c' = (ck_timer c)(t := set_activated (clear_activated (ck_timer c t)
      \<lparr>tm_timeout_tick := ck_tick c + tm_init_tick (ck_timer c t)\<rparr>))"
    using rt_timer_start_spec [OF assms] by (auto simp: Let_def)
  have due: "due b c' p = due b c p" if "p \<in> set ?rest" for p using that by (simp add: due_def tm)
  have srt: "sorted (map (due b c) ?rest)"
    using assms(1) by (simp add: timers_ok_def sorted_map_filter)
  have "\<forall>p \<in> set (takeWhile ?older ?rest). due b c' p \<le> due b c' t"
    using due by (auto dest!: set_takeWhileD simp: due_def tm)
  moreover have "\<forall>p \<in> set (dropWhile ?older ?rest). due b c' t < due b c' p"
  proof
    fix p assume p: "p \<in> set (dropWhile ?older ?rest)"
    then have "\<not> ?older p" by (rule sorted_map_dropWhile [OF srt])
    moreover have "due b c' p = due b c p" by (rule due) (use p set_dropWhileD in fastforce)
    ultimately show "due b c' t < due b c' p" by (simp add: due_def tm)
  qed
  ultimately have "\<exists>before after. ck_list c' = before @ t # after \<and> before @ after = ?rest \<and>
       (\<forall>p \<in> set before. due b c' p \<le> due b c' t) \<and> (\<forall>p \<in> set after. due b c' t < due b c' p)"
    using l by (intro exI [of _ "takeWhile ?older ?rest"] exI [of _ "dropWhile ?older ?rest"]) simp
  then show ?thesis using run ok by (intro exI [of _ c']) (simp add: tm)
qed

text \<open>A sample: tick 2 ticks before wrap-around, timers 0, 1, 2 with periods 5, 1, 5.\<close>

definition sample_timer :: "u32 \<Rightarrow> u8 \<Rightarrow> rt_timer" where
  "sample_timer period flag = \<lparr>tm_object = Obj_Static, tm_flag = flag, tm_timeout_func = User_fn 0,
     tm_parameter = 0, tm_init_tick = period, tm_timeout_tick = 0\<rparr>"

definition sample_clk :: clk where
  "sample_clk = \<lparr>ck_tick = 0xfffffffe,
     ck_timer = (\<lambda>t. case t of
         Thread_Timer k \<Rightarrow> (sample_timer 5 0)\<lparr>tm_timeout_func := Thread_timeout_fn, tm_parameter := k\<rparr>
       | User_Timer n \<Rightarrow> sample_timer (if n = 1 then 1 else 5) 0),
     ck_list = [], ck_fired = [], ck_random_nr = 0\<rparr>"

lemma sample_clk_ok: "timers_ok 0xfffffffe sample_clk"
  by (simp add: timers_ok_def sample_clk_def sample_timer_def tm_activated_def
      RT_TIMER_FLAG_ACTIVATED_def split: tmid.splits)

theorem timer_start_keeps_deadline_order_witness:
  "\<exists>c'. rt_timer_start (User_Timer 0) sample_clk = Some (RT_EOK, c') \<and>
     timers_ok 0xfffffffe c' \<and> tm_timeout_tick (ck_timer c' (User_Timer 0)) = 3"
proof -
  have o: "tm_object (ck_timer sample_clk (User_Timer 0)) \<noteq> Obj_Null"
    and w: "unat (ck_tick sample_clk + tm_init_tick (ck_timer sample_clk (User_Timer 0)) - 0xfffffffe) < HALF"
    and e: "ck_tick sample_clk + tm_init_tick (ck_timer sample_clk (User_Timer 0)) = 3"
    by (simp_all add: sample_clk_def sample_timer_def)
  show ?thesis using timer_start_keeps_deadline_order [OF sample_clk_ok o w] unfolding e by auto
qed

text \<open>Runs of operations between two ticks.\<close>

datatype timer_op = T_Start tmid | T_Stop tmid | T_Control tmid timer_cmd ctrl_arg

definition timer_step :: "timer_op \<Rightarrow> clk \<Rightarrow> clk option" where
  "timer_step oper c =
     (case oper of
        T_Start t \<Rightarrow> map_option snd (rt_timer_start t c)
      | T_Stop t \<Rightarrow> map_option snd (rt_timer_stop t c)
      | T_Control t cmd arg \<Rightarrow> map_option (\<lambda>r. snd (snd r)) (rt_timer_control t cmd arg c))"

fun timer_run :: "timer_op list \<Rightarrow> clk \<Rightarrow> clk option" where
  "timer_run [] c = Some c"
| "timer_run (oper # ops) c = Option.bind (timer_step oper c) (timer_run ops)"

text \<open>Every deadline that can be set from here stays in the window.\<close>

definition periods_ok :: "u32 \<Rightarrow> clk \<Rightarrow> bool" where
  "periods_ok b c \<longleftrightarrow>
     (\<forall>t. tm_object (ck_timer c t) \<noteq> Obj_Null \<and>
          unat (ck_tick c - b) + unat (tm_init_tick (ck_timer c t)) < HALF)"

definition timer_op_ok :: "u32 \<Rightarrow> clk \<Rightarrow> timer_op \<Rightarrow> bool" where
  "timer_op_ok b c oper =
     (case oper of
        T_Control t RT_TIMER_CTRL_SET_TIME arg \<Rightarrow> unat (ck_tick c - b) + unat (arg_tick arg) < HALF
      | _ \<Rightarrow> True)"

lemma window_add:
  fixes n i b :: u32
  assumes "unat (n - b) + unat i < HALF"
  shows "unat (n + i - b) < HALF"
proof -
  have "n + i - b = (n - b) + i" by simp
  moreover have "unat ((n - b) + i) = unat (n - b) + unat i"
    using assms by (subst unat_add_lem [THEN iffD1]) simp_all
  ultimately show ?thesis using assms by metis
qed

lemma upd_timer_ok:
  assumes "timers_ok b c"
    and "\<And>tm. tm_activated (f tm) = tm_activated tm \<and> tm_object (f tm) = tm_object tm \<and>
      tm_timeout_tick (f tm) = tm_timeout_tick tm"
  shows "timers_ok b (upd_timer t f c)"
proof -
  have "due b (upd_timer t f c) = due b c" using assms(2) by (auto simp: due_def fun_eq_iff)
  with assms show ?thesis unfolding timers_ok_def by auto
qed

lemma tm_activated_upd [simp]:
  "tm_activated (tm\<lparr>tm_init_tick := v\<rparr>) = tm_activated tm"
  "tm_activated (tm\<lparr>tm_timeout_tick := v\<rparr>) = tm_activated tm"
  "tm_activated (tm\<lparr>tm_timeout_func := g\<rparr>) = tm_activated tm"
  "tm_activated (tm\<lparr>tm_parameter := k\<rparr>) = tm_activated tm"
  "tm_activated (tm\<lparr>tm_object := ob\<rparr>) = tm_activated tm"
  by (simp_all add: tm_activated_def)

lemma flag_periodic_keeps_activated [simp]:
  "tm_activated (tm\<lparr>tm_flag := tm_flag tm AND NOT RT_TIMER_FLAG_PERIODIC\<rparr>) = tm_activated tm"
  "tm_activated (tm\<lparr>tm_flag := tm_flag tm OR RT_TIMER_FLAG_PERIODIC\<rparr>) = tm_activated tm"
proof -
  have "bit (- 3 :: u8) 0" using bit_not_iff [of "2 :: u8" 0] by simp
  then show "tm_activated (tm\<lparr>tm_flag := tm_flag tm AND NOT RT_TIMER_FLAG_PERIODIC\<rparr>) = tm_activated tm"
    "tm_activated (tm\<lparr>tm_flag := tm_flag tm OR RT_TIMER_FLAG_PERIODIC\<rparr>) = tm_activated tm"
    by (simp_all add: tm_activated_def RT_TIMER_FLAG_ACTIVATED_def RT_TIMER_FLAG_PERIODIC_def
        word_test_bit0 bit_or_iff bit_and_iff)
qed

lemma timer_step_ok:
  assumes c: "timers_ok b c" "periods_ok b c" and oper: "timer_op_ok b c oper"
  shows "ok (timer_step oper c) (\<lambda>c'. timers_ok b c' \<and> periods_ok b c' \<and> ck_tick c' = ck_tick c)"
proof (cases oper)
  case (T_Start t)
  have "unat (ck_tick c + tm_init_tick (ck_timer c t) - b) < HALF"
    using c(2) by (intro window_add) (simp add: periods_ok_def)
  from rt_timer_start_spec [OF c(1) _ this] c(2) T_Start show ?thesis
    by (auto simp: timer_step_def periods_ok_def)
next
  case (T_Stop t)
  have "periods_ok b (upd_timer t clear_activated (timer_remove t c))"
    using c(2) by (simp add: periods_ok_def)
  with c timers_ok_remove [OF c(1)] T_Stop show ?thesis
    by (auto simp: timer_step_def rt_timer_stop_def periods_ok_def ok_simps)
next
  case (T_Control t cmd arg)
  have "tm_object (ck_timer c t) \<noteq> Obj_Null" using c(2) by (simp add: periods_ok_def)
  moreover have "periods_ok b (upd_timer t f c)" if "\<And>tm. tm_object (f tm) = tm_object tm"
    "unat (ck_tick c - b) + unat (tm_init_tick (f (ck_timer c t))) < HALF" for f
    using c(2) that by (simp add: periods_ok_def)
  ultimately show ?thesis
    using c oper T_Control
    by (cases cmd) (auto simp: timer_step_def rt_timer_control_def timer_op_ok_def periods_ok_def
        word_less_nat_alt Let_def intro!: upd_timer_ok)
qed

lemma timer_run_ok:
  assumes "timers_ok b c" "periods_ok b c" "\<forall>oper \<in> set ops. timer_op_ok b c oper"
  shows "ok (timer_run ops c) (\<lambda>c'. timers_ok b c' \<and> periods_ok b c' \<and> ck_tick c' = ck_tick c)"
  using assms
proof (induction ops arbitrary: c)
  case Nil
  then show ?case by simp
next
  case (Cons oper ops)
  have "ok (timer_step oper c) (\<lambda>c'. timers_ok b c' \<and> periods_ok b c' \<and> ck_tick c' = ck_tick c)"
    using Cons.prems by (intro timer_step_ok) simp_all
  then obtain c1 where c1: "timer_step oper c = Some c1" "timers_ok b c1" "periods_ok b c1"
    "ck_tick c1 = ck_tick c" by (auto simp: ok_iff)
  have "timer_op_ok b c1 = timer_op_ok b c" by (rule ext) (simp only: timer_op_ok_def c1(4))
  then have "\<forall>oper \<in> set ops. timer_op_ok b c1 oper" using Cons.prems(3) by simp
  from Cons.IH [OF c1(2,3) this] c1 show ?case by simp
qed

text \<open>
  Between two ticks, any sequence of starts, stops and control commands on timers whose
  periods fit the window runs to its end without a failed assertion, and leaves a well-formed
  timer list: no duplicates, exactly the activated timers on it, in deadline order; draining it
  from the front then delivers every activated timer once, earliest deadline first.
\<close>
lemma timer_runs_keep_the_list_well_formed:
  assumes "timers_ok b c" "periods_ok b c" "\<forall>oper \<in> set ops. timer_op_ok b c oper"
  shows "\<exists>c'. timer_run ops c = Some c' \<and> timers_ok b c' \<and>
    (\<forall>ts c''. drain timer_first timer_del (length (ck_list c')) c' = (ts, c'') \<longrightarrow>
       distinct ts \<and> set ts = active_timers c' \<and> sorted (map (due b c') ts) \<and> ck_list c'' = [])"
proof -
  obtain c' where c': "timer_run ops c = Some c'" "timers_ok b c'"
    using timer_run_ok [OF assms] by (auto simp: ok_iff)
  have "distinct ts \<and> set ts = active_timers c' \<and> sorted (map (due b c') ts) \<and> ck_list c'' = []"
    if d: "drain timer_first timer_del (length (ck_list c')) c' = (ts, c'')" for ts c''
  proof -
    have "card (active_timers c') \<le> length (ck_list c')"
      using active_timers_list [OF c'(2)] by (simp add: card_length)
    with timerq.drain_spec [OF c'(2) d] timerq.drain_all [OF c'(2) _ d]
    show ?thesis using active_timers_list [of b c''] by auto
  qed
  with c' show ?thesis by blast
qed

lemma timer_runs_keep_the_list_well_formed_witness:
  "\<exists>c'. timer_run [T_Start (User_Timer 0), T_Start (User_Timer 1),
       T_Control (User_Timer 2) RT_TIMER_CTRL_SET_TIME (Arg_Tick 7), T_Start (User_Timer 2),
       T_Stop (User_Timer 0)] sample_clk = Some c' \<and> timers_ok 0xfffffffe c'"
proof -
  have "periods_ok 0xfffffffe sample_clk"
    by (simp add: periods_ok_def sample_clk_def sample_timer_def split: tmid.splits)
  moreover have "timer_op_ok 0xfffffffe sample_clk
      (T_Control (User_Timer 2) RT_TIMER_CTRL_SET_TIME (Arg_Tick 7))"
    by (simp add: timer_op_ok_def sample_clk_def)
  ultimately show ?thesis
    using timer_runs_keep_the_list_well_formed [OF sample_clk_ok, of
        "[T_Start (User_Timer 0), T_Start (User_Timer 1),
          T_Control (User_Timer 2) RT_TIMER_CTRL_SET_TIME (Arg_Tick 7), T_Start (User_Timer 2),
          T_Stop (User_Timer 0)]"]
    by (fastforce simp: timer_op_ok_def)
qed

text \<open>
  The next timeout reported to the tickless idle code is the earliest deadline of all activated
  timers, and RT_TICK_MAX when no timer is active.
\<close>
lemma next_timeout_is_earliest_deadline:
  assumes "timers_ok b c"
  shows "if active_timers c = {} then rt_timer_next_timeout_tick c = RT_TICK_MAX
    else \<exists>t \<in> active_timers c. rt_timer_next_timeout_tick c = tm_timeout_tick (ck_timer c t) \<and>
      (\<forall>p \<in> active_timers c. due b c t \<le> due b c p)"
  using timerq.first_None [OF assms] timerq.first_least [OF assms]
  by (auto simp: timer_first_def rt_timer_next_timeout_tick_def timer_list_next_timeout_def
      split: list.splits)

lemma next_timeout_is_earliest_deadline_witness:
  "rt_timer_next_timeout_tick sample_clk = RT_TICK_MAX"
proof -
  have "active_timers sample_clk = {}"
    by (simp add: active_timers_def sample_clk_def sample_timer_def tm_activated_def
        RT_TIMER_FLAG_ACTIVATED_def split: tmid.splits)
  with next_timeout_is_earliest_deadline [OF sample_clk_ok] show ?thesis by simp
qed

text \<open>
  The deadline a period can be set to is bounded by an assertion, not by an error code: SET_TIME
  (and rt_timer_init) with a period of RT_TICK_MAX / 2 or more never returns, while every smaller
  period is stored and read back by GET_TIME.
\<close>
lemma timer_period_round_trip_or_assertion:
  assumes "tm_object (ck_timer c t) \<noteq> Obj_Null"
  shows "if unat v < HALF
    then \<exists>c'. rt_timer_control t RT_TIMER_CTRL_SET_TIME (Arg_Tick v) c = Some (RT_EOK, Arg_Tick v, c') \<and>
      rt_timer_control t RT_TIMER_CTRL_GET_TIME a c' = Some (RT_EOK, Arg_Tick v, c')
    else rt_timer_control t RT_TIMER_CTRL_SET_TIME (Arg_Tick v) c = None \<and>
      rt_timer_init t' func parm v flag c = None"
  using assms
  by (auto simp: rt_timer_control_def rt_timer_init_def word_less_nat_alt rt_assert_def Let_def)

lemma timer_period_round_trip_or_assertion_witness:
  "rt_timer_control (User_Timer 0) RT_TIMER_CTRL_SET_TIME (Arg_Tick 0x7fffffff) sample_clk = None"
proof -
  have "tm_object (ck_timer sample_clk (User_Timer 0)) \<noteq> Obj_Null"
    by (simp add: sample_clk_def sample_timer_def)
  from timer_period_round_trip_or_assertion [OF this, of "0x7fffffff"] show ?thesis by simp
qed

end
