(* ===== verification/Kernel_State.thy ===== *)
theory Kernel_State
  imports Timer
begin

text \<open>
  The state shared by the kernel components of \<open>src/\<close>: thread control blocks, the thread queues
  linked through \<open>tlist\<close> (ready lists, suspend lists, defunct list), the scheduler's globals, the
  timer subsystem and the IPC objects. A thread or object is named by a number in place of its
  address; a control block always exists as memory, and its \<open>_object\<close> field says whether it is an
  initialised object of its class (what the \<open>rt_object_get_type\<close> assertions test).
\<close>

section \<open>Threads\<close>

text \<open>What a thread can wait on: the kernel's IPC objects, and those of the device framework.\<close>

datatype ipc_obj = Sem nat | Mutex nat | Event nat | Mailbox nat | Msgqueue nat | Mempool nat
  | Completion nat | Data_Queue nat

text \<open>The list heads a thread can be linked on through its \<open>tlist\<close> node.\<close>

datatype lhead = Ready nat | Suspend ipc_obj | Suspend_Sender ipc_obj | Defunct

record rt_thread =
  th_object :: obj_kind
  th_stat :: u8
  th_error :: int
  th_current_priority :: nat
  th_init_priority :: nat
  th_number_mask :: u32
  th_pending_object :: "ipc_obj option"
  th_event_set :: u32
  th_event_info :: u8
  th_init_tick :: u32
  th_remaining_tick :: u32

definition RT_THREAD_PRIORITY_MAX :: nat where "RT_THREAD_PRIORITY_MAX = 32"

abbreviation (input) RT_THREAD_INIT :: u8 where "RT_THREAD_INIT \<equiv> 0x00"
abbreviation (input) RT_THREAD_CLOSE :: u8 where "RT_THREAD_CLOSE \<equiv> 0x01"
abbreviation (input) RT_THREAD_READY :: u8 where "RT_THREAD_READY \<equiv> 0x02"
abbreviation (input) RT_THREAD_RUNNING :: u8 where "RT_THREAD_RUNNING \<equiv> 0x03"
abbreviation (input) RT_THREAD_SUSPEND_MASK :: u8 where "RT_THREAD_SUSPEND_MASK \<equiv> 0x04"
abbreviation (input) RT_THREAD_SUSPEND_INTERRUPTIBLE :: u8 where "RT_THREAD_SUSPEND_INTERRUPTIBLE \<equiv> 0x04"
abbreviation (input) RT_THREAD_SUSPEND :: u8 where "RT_THREAD_SUSPEND \<equiv> 0x04"
abbreviation (input) RT_THREAD_SUSPEND_KILLABLE :: u8 where "RT_THREAD_SUSPEND_KILLABLE \<equiv> 0x06"
abbreviation (input) RT_THREAD_SUSPEND_UNINTERRUPTIBLE :: u8 where "RT_THREAD_SUSPEND_UNINTERRUPTIBLE \<equiv> 0x07"
abbreviation (input) RT_THREAD_STAT_MASK :: u8 where "RT_THREAD_STAT_MASK \<equiv> 0x07"
abbreviation (input) RT_THREAD_STAT_YIELD :: u8 where "RT_THREAD_STAT_YIELD \<equiv> 0x08"

text \<open>Reading and writing the packed \<open>stat\<close> byte.\<close>

definition th_state :: "rt_thread \<Rightarrow> u8" where
  "th_state th = th_stat th AND RT_THREAD_STAT_MASK"

definition th_suspended :: "rt_thread \<Rightarrow> bool" where
  "th_suspended th \<longleftrightarrow> th_stat th AND RT_THREAD_SUSPEND_MASK = RT_THREAD_SUSPEND_MASK"

definition th_yield :: "rt_thread \<Rightarrow> bool" where
  "th_yield th \<longleftrightarrow> th_stat th AND RT_THREAD_STAT_YIELD \<noteq> 0"

definition set_state :: "u8 \<Rightarrow> rt_thread \<Rightarrow> rt_thread" where
  "set_state st th = th\<lparr>th_stat := st OR (th_stat th AND NOT RT_THREAD_STAT_MASK)\<rparr>"

definition set_yield :: "rt_thread \<Rightarrow> rt_thread" where
  "set_yield th = th\<lparr>th_stat := th_stat th OR RT_THREAD_STAT_YIELD\<rparr>"

definition clear_yield :: "rt_thread \<Rightarrow> rt_thread" where
  "clear_yield th = th\<lparr>th_stat := th_stat th AND NOT RT_THREAD_STAT_YIELD\<rparr>"

section \<open>IPC objects\<close>

text \<open>\<open>RT_IPC_FLAG_FIFO\<close> and \<open>RT_IPC_FLAG_PRIO\<close>; any other flag value fails an assertion.\<close>

datatype ipc_flag = FIFO | PRIO | Bad_Flag

record rt_semaphore =
  sem_object :: obj_kind
  sem_flag :: ipc_flag
  sem_value :: u16

record rt_mutex =
  mx_object :: obj_kind
  mx_flag :: ipc_flag
  mx_ceiling_priority :: nat
  mx_priority :: nat
  mx_hold :: u8
  mx_owner :: "tid option"

record rt_event =
  ev_object :: obj_kind
  ev_flag :: ipc_flag
  ev_set :: u32

record rt_mailbox =
  mb_object :: obj_kind
  mb_flag :: ipc_flag
  mb_msg_pool :: "u32 list"
  mb_size :: u16
  mb_entry :: u16
  mb_in_offset :: u16
  mb_out_offset :: u16

text \<open>
  The nodes of a message queue's pool, by their index: \<open>mq_next\<close> is the link in the header of each
  (\<open>struct rt_mq_message\<close>) and \<open>mq_slot\<close> the bytes behind the header.
\<close>

record rt_messagequeue =
  mq_object :: obj_kind
  mq_flag :: ipc_flag
  mq_next :: "nat \<Rightarrow> nat option"
  mq_slot :: "nat \<Rightarrow> u8 list"
  mq_msg_size :: u16
  mq_max_msgs :: u16
  mq_entry :: u16
  mq_queue_head :: "nat option"
  mq_queue_tail :: "nat option"
  mq_queue_free :: "nat option"

record ipc_state =
  ipc_sem :: "nat \<Rightarrow> rt_semaphore"
  ipc_mutex :: "nat \<Rightarrow> rt_mutex"
  ipc_event :: "nat \<Rightarrow> rt_event"
  ipc_mailbox :: "nat \<Rightarrow> rt_mailbox"
  ipc_mq :: "nat \<Rightarrow> rt_messagequeue"
  ipc_taken :: "tid \<Rightarrow> nat list"

section \<open>The kernel state\<close>

record kstate =
  ks_thread :: "tid \<Rightarrow> rt_thread"
  ks_list :: "lhead \<Rightarrow> tid list"
  ks_group :: u32
  ks_current :: "tid option"
  ks_current_priority :: nat
  ks_lock_nest :: "16 word"
  ks_irq_nest :: nat
  ks_clk :: clk
  ks_ipc :: ipc_state

definition upd_thread :: "tid \<Rightarrow> (rt_thread \<Rightarrow> rt_thread) \<Rightarrow> kstate \<Rightarrow> kstate" where
  "upd_thread t f s = s\<lparr>ks_thread := (ks_thread s)(t := f (ks_thread s t))\<rparr>"

text \<open>\<open>rt_list_remove\<close> on a thread's node: off whichever list it is on (theory Rt_List).\<close>

definition list_remove :: "tid \<Rightarrow> kstate \<Rightarrow> kstate" where
  "list_remove t s = s\<lparr>ks_list := (\<lambda>h. removeAll t (ks_list s h))\<rparr>"

definition list_set :: "lhead \<Rightarrow> tid list \<Rightarrow> kstate \<Rightarrow> kstate" where
  "list_set h ts s = s\<lparr>ks_list := (ks_list s)(h := ts)\<rparr>"

definition upd_clk :: "clk \<Rightarrow> kstate \<Rightarrow> kstate" where
  "upd_clk c s = s\<lparr>ks_clk := c\<rparr>"

definition upd_ipc :: "(ipc_state \<Rightarrow> ipc_state) \<Rightarrow> kstate \<Rightarrow> kstate" where
  "upd_ipc f s = s\<lparr>ks_ipc := f (ks_ipc s)\<rparr>"

text \<open>Running an operation of the timer subsystem on the kernel's clock.\<close>

definition timer_call :: "(clk \<Rightarrow> (int \<times> clk) option) \<Rightarrow> kstate \<Rightarrow> (int \<times> kstate) option" where
  "timer_call f s = map_option (\<lambda>(e, c). (e, upd_clk c s)) (f (ks_clk s))"

text \<open>
  What a call that may block does: it returns a code, or the calling thread is suspended and has
  handed the processor over; then the code after \<open>rt_schedule\<close> runs when it is dispatched again.
\<close>

datatype outcome = Ret int | Blocked

section \<open>Lemmas on the packed status\<close>

text \<open>The six thread states as values of the low three bits.\<close>

lemma th_state_set_state: "st AND 7 = st \<Longrightarrow> th_state (set_state st th) = st"
  by (simp add: th_state_def set_state_def bit.conj_disj_distrib2 and.assoc)

lemma th_yield_set_state: "st AND 8 = 0 \<Longrightarrow> th_yield (set_state st th) = th_yield th"
  by (simp add: th_yield_def set_state_def bit.conj_disj_distrib2 and.assoc)

lemma th_suspended_state: "th_suspended th \<longleftrightarrow> th_state th AND 4 = 4"
  by (simp add: th_suspended_def th_state_def and.assoc)

lemma stat_simps [simp]:
  "th_state (set_state 0 th) = 0" "th_state (set_state 1 th) = 1" "th_state (set_state 2 th) = 2"
  "th_state (set_state 3 th) = 3" "th_state (set_state 4 th) = 4" "th_state (set_state 6 th) = 6"
  "th_state (set_state 7 th) = 7"
  "th_yield (set_state 2 th) = th_yield th" "th_yield (set_state 3 th) = th_yield th"
  "th_yield (set_state 4 th) = th_yield th" "th_yield (set_state 6 th) = th_yield th"
  "th_yield (set_state 7 th) = th_yield th"
  "th_state (set_yield th) = th_state th" "th_yield (set_yield th)"
  "th_state (clear_yield th) = th_state th" "\<not> th_yield (clear_yield th)"
  by (simp_all add: th_state_set_state th_yield_set_state)
    (simp_all add: th_state_def th_yield_def set_yield_def clear_yield_def
      bit.conj_disj_distrib2 and.assoc)

lemma stat_frame [simp]:
  "th_object (set_state st th) = th_object th" "th_error (set_state st th) = th_error th"
  "th_current_priority (set_state st th) = th_current_priority th"
  "th_init_priority (set_state st th) = th_init_priority th"
  "th_number_mask (set_state st th) = th_number_mask th"
  "th_pending_object (set_state st th) = th_pending_object th"
  "th_event_set (set_state st th) = th_event_set th"
  "th_event_info (set_state st th) = th_event_info th"
  "th_init_tick (set_state st th) = th_init_tick th"
  "th_remaining_tick (set_state st th) = th_remaining_tick th"
  "th_object (set_yield th) = th_object th" "th_error (set_yield th) = th_error th"
  "th_current_priority (set_yield th) = th_current_priority th"
  "th_number_mask (set_yield th) = th_number_mask th"
  "th_init_priority (set_yield th) = th_init_priority th"
  "th_pending_object (set_yield th) = th_pending_object th"
  "th_remaining_tick (set_yield th) = th_remaining_tick th"
  "th_object (clear_yield th) = th_object th" "th_error (clear_yield th) = th_error th"
  "th_current_priority (clear_yield th) = th_current_priority th"
  "th_number_mask (clear_yield th) = th_number_mask th"
  by (simp_all add: set_state_def set_yield_def clear_yield_def)

text \<open>Fields other than the status do not change the state read from it.\<close>

lemma th_state_upd [simp]:
  "th_state (th\<lparr>th_error := e\<rparr>) = th_state th"
  "th_state (th\<lparr>th_current_priority := p\<rparr>) = th_state th"
  "th_state (th\<lparr>th_number_mask := m\<rparr>) = th_state th"
  "th_state (th\<lparr>th_pending_object := ob\<rparr>) = th_state th"
  "th_state (th\<lparr>th_event_set := es\<rparr>) = th_state th"
  "th_state (th\<lparr>th_event_info := ei\<rparr>) = th_state th"
  "th_state (th\<lparr>th_remaining_tick := r\<rparr>) = th_state th"
  "th_yield (th\<lparr>th_error := e\<rparr>) = th_yield th"
  "th_yield (th\<lparr>th_current_priority := p\<rparr>) = th_yield th"
  "th_yield (th\<lparr>th_number_mask := m\<rparr>) = th_yield th"
  "th_yield (th\<lparr>th_pending_object := ob\<rparr>) = th_yield th"
  "th_yield (th\<lparr>th_remaining_tick := r\<rparr>) = th_yield th"
  by (simp_all add: th_state_def th_yield_def)

section \<open>Reading the state after an update\<close>

lemma upd_thread_simps [simp]:
  "ks_thread (upd_thread t f s) = (ks_thread s)(t := f (ks_thread s t))"
  "ks_list (upd_thread t f s) = ks_list s"
  "ks_group (upd_thread t f s) = ks_group s"
  "ks_current (upd_thread t f s) = ks_current s"
  "ks_current_priority (upd_thread t f s) = ks_current_priority s"
  "ks_lock_nest (upd_thread t f s) = ks_lock_nest s"
  "ks_irq_nest (upd_thread t f s) = ks_irq_nest s"
  "ks_clk (upd_thread t f s) = ks_clk s"
  "ks_ipc (upd_thread t f s) = ks_ipc s"
  by (simp_all add: upd_thread_def)

lemma list_remove_simps [simp]:
  "ks_thread (list_remove t s) = ks_thread s"
  "ks_list (list_remove t s) = (\<lambda>h. removeAll t (ks_list s h))"
  "ks_group (list_remove t s) = ks_group s"
  "ks_current (list_remove t s) = ks_current s"
  "ks_current_priority (list_remove t s) = ks_current_priority s"
  "ks_lock_nest (list_remove t s) = ks_lock_nest s"
  "ks_irq_nest (list_remove t s) = ks_irq_nest s"
  "ks_clk (list_remove t s) = ks_clk s"
  "ks_ipc (list_remove t s) = ks_ipc s"
  by (simp_all add: list_remove_def)

lemma list_set_simps [simp]:
  "ks_thread (list_set h ts s) = ks_thread s"
  "ks_list (list_set h ts s) = (ks_list s)(h := ts)"
  "ks_group (list_set h ts s) = ks_group s"
  "ks_current (list_set h ts s) = ks_current s"
  "ks_current_priority (list_set h ts s) = ks_current_priority s"
  "ks_lock_nest (list_set h ts s) = ks_lock_nest s"
  "ks_irq_nest (list_set h ts s) = ks_irq_nest s"
  "ks_clk (list_set h ts s) = ks_clk s"
  "ks_ipc (list_set h ts s) = ks_ipc s"
  by (simp_all add: list_set_def)

lemma upd_clk_simps [simp]:
  "ks_thread (upd_clk c s) = ks_thread s"
  "ks_list (upd_clk c s) = ks_list s"
  "ks_group (upd_clk c s) = ks_group s"
  "ks_current (upd_clk c s) = ks_current s"
  "ks_current_priority (upd_clk c s) = ks_current_priority s"
  "ks_lock_nest (upd_clk c s) = ks_lock_nest s"
  "ks_irq_nest (upd_clk c s) = ks_irq_nest s"
  "ks_clk (upd_clk c s) = c"
  "ks_ipc (upd_clk c s) = ks_ipc s"
  by (simp_all add: upd_clk_def)

lemma upd_clk_same [simp]: "upd_clk (ks_clk s) s = s"
  by (simp add: upd_clk_def)

lemma upd_ipc_simps [simp]:
  "ks_thread (upd_ipc f s) = ks_thread s"
  "ks_list (upd_ipc f s) = ks_list s"
  "ks_group (upd_ipc f s) = ks_group s"
  "ks_current (upd_ipc f s) = ks_current s"
  "ks_current_priority (upd_ipc f s) = ks_current_priority s"
  "ks_lock_nest (upd_ipc f s) = ks_lock_nest s"
  "ks_irq_nest (upd_ipc f s) = ks_irq_nest s"
  "ks_clk (upd_ipc f s) = ks_clk s"
  "ks_ipc (upd_ipc f s) = f (ks_ipc s)"
  by (simp_all add: upd_ipc_def)

text \<open>Changes to the clock and the IPC objects commute out of the thread queues' concern.\<close>

lemma timer_call_Some:
  "timer_call f s = Some (e, s') \<longleftrightarrow> (\<exists>c. f (ks_clk s) = Some (e, c) \<and> s' = upd_clk c s)"
  by (auto simp: timer_call_def)

end
