(* ===== verification/Ffs.thy ===== *)
theory Ffs
  imports Prelude
begin

text \<open>
  Find first set, \<open>__rt_ffs\<close> of \<open>src/kservice.c\<close>, by which the scheduler finds the highest ready
  priority: the byte-table version, the 37-entry perfect-hash version (\<open>RT_USING_TINY_FFS\<close>), and
  that both return the position of the lowest set bit.
\<close>

definition lowest_bit_bitmap :: "nat list" where
  "lowest_bit_bitmap =
   [0, 0, 1, 0, 2, 0, 1, 0, 3, 0, 1, 0, 2, 0, 1, 0,
    4, 0, 1, 0, 2, 0, 1, 0, 3, 0, 1, 0, 2, 0, 1, 0,
    5, 0, 1, 0, 2, 0, 1, 0, 3, 0, 1, 0, 2, 0, 1, 0,
    4, 0, 1, 0, 2, 0, 1, 0, 3, 0, 1, 0, 2, 0, 1, 0,
    6, 0, 1, 0, 2, 0, 1, 0, 3, 0, 1, 0, 2, 0, 1, 0,
    4, 0, 1, 0, 2, 0, 1, 0, 3, 0, 1, 0, 2, 0, 1, 0,
    5, 0, 1, 0, 2, 0, 1, 0, 3, 0, 1, 0, 2, 0, 1, 0,
    4, 0, 1, 0, 2, 0, 1, 0, 3, 0, 1, 0, 2, 0, 1, 0,
    7, 0, 1, 0, 2, 0, 1, 0, 3, 0, 1, 0, 2, 0, 1, 0,
    4, 0, 1, 0, 2, 0, 1, 0, 3, 0, 1, 0, 2, 0, 1, 0,
    5, 0, 1, 0, 2, 0, 1, 0, 3, 0, 1, 0, 2, 0, 1, 0,
    4, 0, 1, 0, 2, 0, 1, 0, 3, 0, 1, 0, 2, 0, 1, 0,
    6, 0, 1, 0, 2, 0, 1, 0, 3, 0, 1, 0, 2, 0, 1, 0,
    4, 0, 1, 0, 2, 0, 1, 0, 3, 0, 1, 0, 2, 0, 1, 0,
    5, 0, 1, 0, 2, 0, 1, 0, 3, 0, 1, 0, 2, 0, 1, 0,
    4, 0, 1, 0, 2, 0, 1, 0, 3, 0, 1, 0, 2, 0, 1, 0]"

definition rt_ffs :: "u32 \<Rightarrow> nat" where
  "rt_ffs value =
     (if value = 0 then 0
      else if value AND 0xff \<noteq> 0 then lowest_bit_bitmap ! unat (value AND 0xff) + 1
      else if value AND 0xff00 \<noteq> 0 then lowest_bit_bitmap ! unat (drop_bit 8 (value AND 0xff00)) + 9
      else if value AND 0xff0000 \<noteq> 0 then lowest_bit_bitmap ! unat (drop_bit 16 (value AND 0xff0000)) + 17
      else lowest_bit_bitmap ! unat (drop_bit 24 (value AND 0xff000000)) + 25)"

definition tiny_lowest_bit_bitmap :: "nat list" where
  "tiny_lowest_bit_bitmap =
   [0, 1, 2, 27, 3, 24, 28, 32,
    4, 17, 25, 31, 29, 12, 32, 14,
    5, 8, 18, 32, 26, 23, 32, 16,
    30, 11, 13, 7, 32, 22, 15, 10,
    6, 21, 9, 20, 19]"

definition rt_tiny_ffs :: "u32 \<Rightarrow> nat" where
  "rt_tiny_ffs value =
     tiny_lowest_bit_bitmap ! unat (((value AND (value - 1)) XOR value) mod 37)"

section \<open>The lowest set bit\<close>

definition lowest_bit :: "u32 \<Rightarrow> nat \<Rightarrow> bool" where
  "lowest_bit w k \<longleftrightarrow> bit w k \<and> (\<forall>i < k. \<not> bit w i)"

lemma lowest_bit_unique: "lowest_bit w j \<Longrightarrow> lowest_bit w k \<Longrightarrow> j = k"
  unfolding lowest_bit_def by (metis linorder_neqE_nat)

lemma lowest_bit_less: "lowest_bit w k \<Longrightarrow> k < 32"
  unfolding lowest_bit_def by (auto dest: bit_imp_le_length)

lemma lowest_bit_exists: "w \<noteq> 0 \<Longrightarrow> \<exists>k. lowest_bit w k"
proof -
  assume "w \<noteq> 0"
  then obtain i where "bit w i" using bit_eq_iff [of w 0] by auto
  then have "bit w (LEAST k. bit w k)" by (rule LeastI)
  then show ?thesis unfolding lowest_bit_def using not_less_Least by blast
qed

lemma bitmap_entries:
  "list_all2 (\<lambda>b t. b = 0 \<or> (t < 8 \<and> odd (b div 2 ^ t) \<and> b mod 2 ^ t = 0))
     [0..<256] lowest_bit_bitmap"
  unfolding lowest_bit_bitmap_def by (simp add: upt_conv_Cons)

lemma bitmap_entry:
  "0 < b \<Longrightarrow> b < 256 \<Longrightarrow>
   lowest_bit_bitmap ! b < 8 \<and> odd (b div 2 ^ (lowest_bit_bitmap ! b)) \<and>
   b mod 2 ^ (lowest_bit_bitmap ! b) = 0"
  using list_all2_nthD [OF bitmap_entries, of b] by simp

lemma bit_unat: "bit (w :: u32) i \<longleftrightarrow> odd (unat w div 2 ^ i)"
  by (simp add: bit_iff_odd [symmetric] bit_unsigned_iff)

text \<open>One byte of the word: the lowest set bit of the byte at \<open>k\<close>, when all below it is zero.\<close>

lemma lowest_bit_byte:
  fixes w :: u32
  assumes b: "b = unat (drop_bit k w AND 0xff)" "b \<noteq> 0" and z: "take_bit k w = 0"
  shows "lowest_bit w (lowest_bit_bitmap ! b + k)"
proof -
  let ?t = "lowest_bit_bitmap ! b"
  have m: "drop_bit k w AND 0xff = take_bit 8 (drop_bit k w)"
    by (simp add: take_bit_eq_mask mask_eq_exp_minus_1)
  have "b < 256" unfolding b m by (simp add: take_bit_eq_mod unat_mod)
  with bitmap_entry [of b] b(2) have t: "?t < 8" "odd (b div 2 ^ ?t)" "b mod 2 ^ ?t = 0" by auto
  have bb: "bit b i \<longleftrightarrow> i < 8 \<and> bit w (i + k)" for i
    unfolding b m by (auto simp: bit_unsigned_iff bit_take_bit_iff bit_drop_bit_eq add.commute
        dest: bit_imp_le_length)
  have "bit b ?t" using t(2) by (simp add: bit_iff_odd)
  moreover have "\<not> bit b i" if "i < ?t" for i
  proof -
    have "take_bit ?t b = 0" using t(3) by (simp add: take_bit_eq_mod)
    then show ?thesis using that bit_take_bit_iff [of ?t b i] by simp
  qed
  moreover have "\<not> bit w i" if "i < k" for i
    using z that bit_take_bit_iff [of k w i] by simp
  ultimately show ?thesis
    unfolding lowest_bit_def using bb t(1)
    by (metis add.commute le_add_diff_inverse2 less_diff_conv2 less_trans linorder_not_less)
qed

lemma and_byte_zero:
  fixes w :: u32
  assumes "drop_bit k w AND 0xff = 0" "take_bit k w = 0"
  shows "take_bit (k + 8) w = 0"
proof (rule bit_eqI)
  fix i
  have m: "drop_bit k w AND 0xff = take_bit 8 (drop_bit k w)"
    by (simp add: take_bit_eq_mask mask_eq_exp_minus_1)
  have "bit w i \<Longrightarrow> i < k \<Longrightarrow> False" using assms(2) bit_take_bit_iff [of k w i] by simp
  moreover have "bit w i \<Longrightarrow> k \<le> i \<Longrightarrow> i < k + 8 \<Longrightarrow> False"
    using assms(1) bit_take_bit_iff [of 8 "drop_bit k w" "i - k"] unfolding m
    by (simp add: bit_drop_bit_eq)
  ultimately show "bit (take_bit (k + 8) w) i = bit (0 :: u32) i"
    by (auto simp: bit_take_bit_iff not_less [symmetric])
qed

lemma mask_byte:
  fixes w :: u32
  shows "drop_bit 8 (w AND 0xff00) = drop_bit 8 w AND 0xff"
    "drop_bit 16 (w AND 0xff0000) = drop_bit 16 w AND 0xff"
    "drop_bit 24 (w AND 0xff000000) = drop_bit 24 w AND 0xff"
  by (simp_all add: drop_bit_and)

lemma mask_byte_zero:
  fixes w :: u32
  assumes "take_bit k m = 0"
  shows "w AND m = 0 \<longleftrightarrow> drop_bit k w AND drop_bit k m = 0"
proof
  assume *: "drop_bit k w AND drop_bit k m = 0"
  show "w AND m = 0"
  proof (rule bit_eqI)
    fix i
    have "\<not> bit m i" if "i < k" using that assms bit_take_bit_iff [of k m i] by simp
    moreover have "\<not> (bit w i \<and> bit m i)" if "k \<le> i"
      using that bit_and_iff [of "drop_bit k w" "drop_bit k m" "i - k"] *
      by (simp add: bit_drop_bit_eq)
    ultimately show "bit (w AND m) i = bit (0 :: u32) i"
      by (auto simp: bit_and_iff) (metis linorder_not_less)
  qed
next
  assume "w AND m = 0"
  then show "drop_bit k w AND drop_bit k m = 0" by (simp add: drop_bit_and [symmetric])
qed

lemma rt_ffs_lowest:
  assumes "w \<noteq> 0"
  shows "0 < rt_ffs w \<and> lowest_bit w (rt_ffs w - 1)"
proof -
  have d: "drop_bit 8 0xff00 = (0xff :: u32)" "drop_bit 16 0xff0000 = (0xff :: u32)"
    "drop_bit 24 0xff000000 = (0xff :: u32)"
    "take_bit 8 0xff00 = (0 :: u32)" "take_bit 16 0xff0000 = (0 :: u32)" by simp_all
  have z1: "w AND 0xff00 = 0 \<longleftrightarrow> drop_bit 8 w AND 0xff = 0"
    and z2: "w AND 0xff0000 = 0 \<longleftrightarrow> drop_bit 16 w AND 0xff = 0"
    using mask_byte_zero [OF d(4), of w] mask_byte_zero [OF d(5), of w] d by simp_all
  note byte = lowest_bit_byte [OF refl]
  have bytes: "rt_ffs w =
     (if w = 0 then 0
      else if w AND 0xff \<noteq> 0 then lowest_bit_bitmap ! unat (w AND 0xff) + 1
      else if drop_bit 8 w AND 0xff \<noteq> 0 then lowest_bit_bitmap ! unat (drop_bit 8 w AND 0xff) + 9
      else if drop_bit 16 w AND 0xff \<noteq> 0 then lowest_bit_bitmap ! unat (drop_bit 16 w AND 0xff) + 17
      else lowest_bit_bitmap ! unat (drop_bit 24 w AND 0xff) + 25)"
    unfolding rt_ffs_def mask_byte z1 z2 ..
  show ?thesis
  proof (cases "w AND 0xff = 0")
    case False
    then have "lowest_bit w (lowest_bit_bitmap ! unat (drop_bit 0 w AND 0xff) + 0)"
      by (intro byte) (simp_all add: unat_gt_0)
    with False assms show ?thesis by (simp add: rt_ffs_def)
  next
    case c0: True
    then have t8: "take_bit 8 w = 0" using and_byte_zero [of 0 w] by simp
    show ?thesis
    proof (cases "drop_bit 8 w AND 0xff = 0")
      case False
      then have "lowest_bit w (lowest_bit_bitmap ! unat (drop_bit 8 w AND 0xff) + 8)"
        by (intro byte t8) (simp add: unat_gt_0)
      with False c0 assms show ?thesis by (simp add: bytes add.commute)
    next
      case c1: True
      then have t16: "take_bit 16 w = 0" using and_byte_zero [OF c1 t8] by simp
      show ?thesis
      proof (cases "drop_bit 16 w AND 0xff = 0")
        case False
        then have "lowest_bit w (lowest_bit_bitmap ! unat (drop_bit 16 w AND 0xff) + 16)"
          by (intro byte t16) (simp add: unat_gt_0)
        with False c0 c1 assms show ?thesis by (simp add: bytes add.commute)
      next
        case c2: True
        then have t24: "take_bit 24 w = 0" using and_byte_zero [OF c2 t16] by simp
        have "drop_bit 24 w AND 0xff \<noteq> 0"
        proof
          assume "drop_bit 24 w AND 0xff = 0"
          from and_byte_zero [OF this t24] assms show False by (simp add: take_bit_word_eq_self)
        qed
        then have "lowest_bit w (lowest_bit_bitmap ! unat (drop_bit 24 w AND 0xff) + 24)"
          by (intro byte t24) (simp add: unat_gt_0)
        with c0 c1 c2 assms show ?thesis by (simp add: bytes add.commute)
      qed
    qed
  qed
qed

lemma rt_ffs_bit: "lowest_bit w k \<Longrightarrow> rt_ffs w = Suc k"
proof -
  assume k: "lowest_bit w k"
  then have "w \<noteq> 0" by (auto simp: lowest_bit_def)
  from rt_ffs_lowest [OF this] lowest_bit_unique [OF k] show ?thesis by fastforce
qed

section \<open>The perfect hash\<close>

lemma isolate_lowest_bit:
  assumes "lowest_bit w k"
  shows "(w AND (w - 1)) XOR w = push_bit k 1"
proof -
  define r where "r = w AND NOT (mask (Suc k))"
  have k: "k < 32" by (rule lowest_bit_less [OF assms])
  have w: "w = r OR push_bit k 1"
    by (rule bit_eqI) (use assms k in \<open>auto simp: r_def bit_simps lowest_bit_def less_Suc_eq\<close>)
  have "r + push_bit k 1 = r OR push_bit k 1"
    by (rule disjunctive_add) (auto simp: r_def bit_simps)
  then have "w - 1 = r + (push_bit k 1 - 1)" using w by simp
  also have "push_bit k 1 - 1 = (mask k :: u32)" by (simp add: mask_eq_exp_minus_1 push_bit_eq_mult)
  also have "r + mask k = r OR mask k"
    by (rule disjunctive_add) (auto simp: r_def bit_simps)
  finally have w1: "w - 1 = r OR mask k" .
  have r: "bit r i \<Longrightarrow> k < i" for i by (auto simp: r_def bit_simps)
  show ?thesis
    unfolding w1 by (subst w, subst w, rule bit_eqI) (use r k in \<open>auto simp: bit_simps\<close>)
qed

lemma tiny_entries:
  "k < 32 \<Longrightarrow> tiny_lowest_bit_bitmap ! unat (push_bit k 1 mod 37 :: u32) = Suc k"
proof -
  have "list_all (\<lambda>k. tiny_lowest_bit_bitmap ! unat (push_bit k 1 mod 37 :: u32) = Suc k) [0..<32]"
    by (simp add: tiny_lowest_bit_bitmap_def upt_conv_Cons)
  then show "k < 32 \<Longrightarrow> ?thesis" by (simp add: list_all_iff)
qed

text \<open>
  Both find-first-set routines return 0 for 0 and otherwise one more than the index of the
  least significant set bit, for every 32-bit word: the byte table is right in all 256 entries and
  the 37-entry perfect hash is right for all 32 powers of two.
\<close>
lemma ffs_finds_lowest_set_bit:
  "rt_tiny_ffs w = rt_ffs w \<and>
   (if w = 0 then rt_ffs w = 0
    else bit w (rt_ffs w - 1) \<and> (\<forall>i < rt_ffs w - 1. \<not> bit w i) \<and> 1 \<le> rt_ffs w \<and> rt_ffs w \<le> 32)"
proof (cases "w = 0")
  case True
  then show ?thesis by (simp add: rt_ffs_def rt_tiny_ffs_def tiny_lowest_bit_bitmap_def)
next
  case False
  then obtain k where k: "lowest_bit w k" using lowest_bit_exists by blast
  have "rt_tiny_ffs w = Suc k"
    unfolding rt_tiny_ffs_def isolate_lowest_bit [OF k] by (rule tiny_entries [OF lowest_bit_less [OF k]])
  with False k rt_ffs_bit [OF k] lowest_bit_less [OF k] show ?thesis by (simp add: lowest_bit_def)
qed

lemma ffs_finds_lowest_set_bit_witness:
  "rt_ffs 0x00480000 = 20 \<and> rt_tiny_ffs 0x00480000 = 20"
proof -
  have "rt_ffs 0x00480000 = 20" by (simp add: rt_ffs_def lowest_bit_bitmap_def)
  with ffs_finds_lowest_set_bit [of "0x00480000"] show ?thesis by simp
qed

end
