(* ===== verification/Scheduler.thy ===== *)
theory Scheduler
  imports Kernel_State Ffs
begin

text \<open>
  The uniprocessor scheduler, \<open>src/scheduler_up.c\<close>: the ready table of 32 lists, its bitmap
  \<open>rt_thread_ready_priority_group\<close>, choosing and switching to the highest ready thread, and the
  scheduler lock. A context switch is the change of \<open>ks_current\<close>; the code a thread has left after
  its own call of \<open>rt_schedule\<close> runs when it is chosen again, so the functions that block are split
  there in the theories that use this one.
\<close>

section \<open>Operations\<close>

text \<open>
  An empty bitmap gives index -1, and an empty list a thread pointer computed from the list head:
  both are \<open>None\<close>.
\<close>

definition scheduler_get_highest_priority_thread :: "kstate \<Rightarrow> (tid \<times> nat) option" where
  "scheduler_get_highest_priority_thread s =
     (let number = rt_ffs (ks_group s) in
      if number = 0 then None
      else case ks_list s (Ready (number - 1)) of
             [] \<Rightarrow> None
           | t # _ \<Rightarrow> Some (t, number - 1))"

definition rt_system_scheduler_init :: "kstate \<Rightarrow> kstate" where
  "rt_system_scheduler_init s =
     s\<lparr>ks_lock_nest := 0,
       ks_list := (\<lambda>h. case h of Ready p \<Rightarrow> (if p < RT_THREAD_PRIORITY_MAX then [] else ks_list s h)
                             | _ \<Rightarrow> ks_list s h),
       ks_group := 0\<rparr>"

definition rt_schedule_insert_thread :: "tid \<Rightarrow> kstate \<Rightarrow> kstate" where
  "rt_schedule_insert_thread t s =
     (if Some t = ks_current s then upd_thread t (set_state RT_THREAD_RUNNING) s
      else let s = upd_thread t (set_state RT_THREAD_READY) s;
               th = ks_thread s t;
               h = Ready (th_current_priority th);
               s = (if th_yield th then list_set h (ks_list s h @ [t]) s
                    else list_set h (t # ks_list s h) s)
           in s\<lparr>ks_group := ks_group s OR th_number_mask th\<rparr>)"

definition rt_schedule_remove_thread :: "tid \<Rightarrow> kstate \<Rightarrow> kstate" where
  "rt_schedule_remove_thread t s =
     (let s = list_remove t s;
          th = ks_thread s t
      in if ks_list s (Ready (th_current_priority th)) = []
         then s\<lparr>ks_group := ks_group s AND NOT (th_number_mask th)\<rparr> else s)"

definition rt_system_scheduler_start :: "kstate \<Rightarrow> kstate option" where
  "rt_system_scheduler_start s = do {
     (to_thread, _) \<leftarrow> scheduler_get_highest_priority_thread s;
     let s = s\<lparr>ks_current := Some to_thread\<rparr>;
     let s = rt_schedule_remove_thread to_thread s;
     Some (upd_thread to_thread (\<lambda>th. th\<lparr>th_stat := RT_THREAD_RUNNING\<rparr>) s)
   }"

definition rt_schedule :: "kstate \<Rightarrow> kstate option" where
  "rt_schedule s =
     (if ks_lock_nest s \<noteq> 0 then Some s
      else if ks_group s = 0 then Some s
      else do {
        (highest_thread, highest_ready_priority) \<leftarrow> scheduler_get_highest_priority_thread s;
        cur \<leftarrow> ks_current s;
        let th = ks_thread s cur;
        let (to_thread, need_insert_from_thread, s) =
          (if th_state th = RT_THREAD_RUNNING
           then (if th_current_priority th < highest_ready_priority then (cur, False, upd_thread cur clear_yield s)
                 else if th_current_priority th = highest_ready_priority \<and> \<not> th_yield th
                 then (cur, False, upd_thread cur clear_yield s)
                 else (highest_thread, True, upd_thread cur clear_yield s))
           else (highest_thread, False, s));
        if to_thread \<noteq> cur then do {
          let s = s\<lparr>ks_current_priority := highest_ready_priority, ks_current := Some to_thread\<rparr>;
          let s = (if need_insert_from_thread then rt_schedule_insert_thread cur s else s);
          let s = rt_schedule_remove_thread to_thread s;
          Some (upd_thread to_thread (set_state RT_THREAD_RUNNING) s)
        }
        else Some (upd_thread cur (set_state RT_THREAD_RUNNING) (rt_schedule_remove_thread cur s))
      })"

definition rt_enter_critical :: "kstate \<Rightarrow> kstate" where
  "rt_enter_critical s = s\<lparr>ks_lock_nest := ks_lock_nest s + 1\<rparr>"

definition rt_exit_critical :: "kstate \<Rightarrow> kstate option" where
  "rt_exit_critical s =
     (let nest = ks_lock_nest s - 1 in
      if nest \<le>s 0
      then let s = s\<lparr>ks_lock_nest := 0\<rparr> in
           (if ks_current s \<noteq> None then rt_schedule s else Some s)
      else Some (s\<lparr>ks_lock_nest := nest\<rparr>))"

definition rt_critical_level :: "kstate \<Rightarrow> u16" where
  "rt_critical_level s = ks_lock_nest s"

section \<open>The invariant of the thread queues\<close>

text \<open>What a thread linked on a list head must look like.\<close>

fun fits :: "lhead \<Rightarrow> rt_thread \<Rightarrow> bool" where
  "fits (Ready p) th \<longleftrightarrow> th_object th \<noteq> Obj_Null \<and> th_state th = RT_THREAD_READY \<and> th_current_priority th = p"
| "fits (Suspend _) th \<longleftrightarrow> th_object th \<noteq> Obj_Null \<and> th_suspended th"
| "fits (Suspend_Sender _) th \<longleftrightarrow> th_object th \<noteq> Obj_Null \<and> th_suspended th"
| "fits Defunct th \<longleftrightarrow> th_object th \<noteq> Obj_Null \<and> th_state th = RT_THREAD_CLOSE"

text \<open>A thread that takes part in scheduling: started and not closed.\<close>

definition started :: "rt_thread \<Rightarrow> bool" where
  "started th \<longleftrightarrow> th_object th \<noteq> Obj_Null \<and> th_state th \<noteq> RT_THREAD_INIT \<and> th_state th \<noteq> RT_THREAD_CLOSE"

definition mask_ok :: "rt_thread \<Rightarrow> bool" where
  "mask_ok th \<longleftrightarrow> th_current_priority th < RT_THREAD_PRIORITY_MAX \<and>
     th_number_mask th = push_bit (th_current_priority th) 1"

text \<open>
  \<open>sched_inv X s\<close>: the ready table is exact for every thread but those of \<open>X\<close>, whose control
  blocks an operation is in the middle of changing. The five groups of conjuncts: each node is on
  at most one list; every linked thread fits its list; the bitmap is the set of non-empty ready
  lists; ready threads are linked and only the current thread runs; priorities and masks agree.
\<close>

definition queues_ok :: "kstate \<Rightarrow> bool" where
  "queues_ok s \<longleftrightarrow>
     (\<forall>h. distinct (ks_list s h)) \<and>
     (\<forall>h h' t. t \<in> set (ks_list s h) \<longrightarrow> t \<in> set (ks_list s h') \<longrightarrow> h = h') \<and>
     (\<forall>h. \<forall>t \<in> set (ks_list s h). fits h (ks_thread s t))"

definition bitmap_ok :: "kstate \<Rightarrow> bool" where
  "bitmap_ok s \<longleftrightarrow>
     (\<forall>p < 32. bit (ks_group s) p \<longleftrightarrow> ks_list s (Ready p) \<noteq> []) \<and>
     (\<forall>p \<ge> 32. ks_list s (Ready p) = [])"

definition state_ok :: "kstate \<Rightarrow> tid \<Rightarrow> bool" where
  "state_ok s t \<longleftrightarrow>
     (let th = ks_thread s t in
      if ks_current s = Some t
      then th_object th \<noteq> Obj_Null \<and> th_state th \<noteq> RT_THREAD_READY
      else th_object th \<noteq> Obj_Null \<longrightarrow>
        th_state th \<noteq> RT_THREAD_RUNNING \<and>
        (th_state th = RT_THREAD_READY \<longrightarrow> t \<in> set (ks_list s (Ready (th_current_priority th)))))"

definition states_ok :: "tid set \<Rightarrow> kstate \<Rightarrow> bool" where
  "states_ok X s \<longleftrightarrow> (\<forall>t. t \<notin> X \<longrightarrow> state_ok s t)"

definition masks_ok :: "kstate \<Rightarrow> bool" where
  "masks_ok s \<longleftrightarrow> (\<forall>t. started (ks_thread s t) \<longrightarrow> mask_ok (ks_thread s t))"

definition sched_inv :: "tid set \<Rightarrow> kstate \<Rightarrow> bool" where
  "sched_inv X s \<longleftrightarrow> queues_ok s \<and> bitmap_ok s \<and> states_ok X s \<and> masks_ok s"

abbreviation sched_ok :: "kstate \<Rightarrow> bool" where "sched_ok \<equiv> sched_inv {}"

definition unlinked :: "tid \<Rightarrow> kstate \<Rightarrow> bool" where
  "unlinked t s \<longleftrightarrow> (\<forall>h. t \<notin> set (ks_list s h))"

lemma sched_invD:
  assumes "sched_inv X s"
  shows "distinct (ks_list s h)"
    and "t \<in> set (ks_list s h) \<Longrightarrow> t \<in> set (ks_list s h') \<Longrightarrow> h = h'"
    and "t \<in> set (ks_list s h) \<Longrightarrow> fits h (ks_thread s t)"
    and "p < 32 \<Longrightarrow> bit (ks_group s) p \<longleftrightarrow> ks_list s (Ready p) \<noteq> []"
    and "32 \<le> p \<Longrightarrow> ks_list s (Ready p) = []"
    and "t \<notin> X \<Longrightarrow> th_object (ks_thread s t) \<noteq> Obj_Null \<Longrightarrow> th_state (ks_thread s t) = 2 \<Longrightarrow>
      t \<in> set (ks_list s (Ready (th_current_priority (ks_thread s t)))) \<and> ks_current s \<noteq> Some t"
    and "t \<notin> X \<Longrightarrow> th_object (ks_thread s t) \<noteq> Obj_Null \<Longrightarrow> th_state (ks_thread s t) = 3 \<Longrightarrow>
      ks_current s = Some t"
    and "ks_current s = Some t \<Longrightarrow> t \<notin> X \<Longrightarrow> th_object (ks_thread s t) \<noteq> Obj_Null"
    and "started (ks_thread s t) \<Longrightarrow> mask_ok (ks_thread s t)"
  using assms unfolding sched_inv_def queues_ok_def bitmap_ok_def states_ok_def state_ok_def
    masks_ok_def Let_def
  by metis+

lemma sched_inv_state: "sched_inv X s \<Longrightarrow> t \<notin> X \<Longrightarrow> state_ok s t"
  by (simp add: sched_inv_def states_ok_def)

lemma sched_inv_mono: "sched_inv X s \<Longrightarrow> X \<subseteq> Y \<Longrightarrow> sched_inv Y s"
  unfolding sched_inv_def states_ok_def by blast

text \<open>Running threads are on no list: no list fits them.\<close>

lemma running_unlinked:
  assumes "sched_inv X s" "th_state (ks_thread s t) = 3"
  shows "unlinked t s"
proof -
  have "\<not> fits h (ks_thread s t)" for h
    using assms(2) by (cases h) (auto simp: th_suspended_state)
  with sched_invD(3) [OF assms(1)] show ?thesis unfolding unlinked_def by blast
qed

lemma ready_list_fits:
  assumes "sched_inv X s" "t \<in> set (ks_list s (Ready p))"
  shows "th_object (ks_thread s t) \<noteq> Obj_Null \<and> th_state (ks_thread s t) = 2 \<and>
    th_current_priority (ks_thread s t) = p \<and> p < 32"
  using sched_invD(3) [OF assms] sched_invD(5) [OF assms(1), of p] assms(2)
  by (cases "p < 32") auto

text \<open>The exempted threads' states are free, so changing one keeps the rest.\<close>

lemma sched_inv_upd_thread:
  assumes s: "sched_inv X s" and u: "unlinked t s" and X: "t \<in> X"
    and m: "started (f (ks_thread s t)) \<Longrightarrow> mask_ok (f (ks_thread s t))"
  shows "sched_inv X (upd_thread t f s)"
proof -
  note d = sched_invD [OF s]
  have "queues_ok (upd_thread t f s)"
    using d(1-3) u unfolding queues_ok_def unlinked_def by auto
  moreover have "bitmap_ok (upd_thread t f s)" using d(4,5) unfolding bitmap_ok_def by simp
  moreover have "state_ok (upd_thread t f s) u" if "u \<notin> X" for u
    using sched_inv_state [OF s that] that X by (auto simp: state_ok_def Let_def)
  then have "states_ok X (upd_thread t f s)" by (simp add: states_ok_def)
  moreover have "masks_ok (upd_thread t f s)" using d(9) m unfolding masks_ok_def by auto
  ultimately show ?thesis by (simp add: sched_inv_def)
qed

text \<open>A change of control block that no part of the invariant reads.\<close>

definition same_sched :: "rt_thread \<Rightarrow> rt_thread \<Rightarrow> bool" where
  "same_sched th th' \<longleftrightarrow> th_object th' = th_object th \<and> th_state th' = th_state th \<and>
     th_current_priority th' = th_current_priority th \<and> th_number_mask th' = th_number_mask th"

lemma fits_same: "same_sched th th' \<Longrightarrow> fits h th' = fits h th"
  by (cases h) (auto simp: same_sched_def th_suspended_state)

lemma started_same: "same_sched th th' \<Longrightarrow> started th' = started th"
  by (auto simp: same_sched_def started_def)

lemma mask_ok_same: "same_sched th th' \<Longrightarrow> mask_ok th' = mask_ok th"
  by (auto simp: same_sched_def mask_ok_def)

lemma sched_inv_cong:
  assumes s: "sched_inv X s" and t: "\<And>t. same_sched (ks_thread s t) (ks_thread s' t)"
    and e: "ks_list s' = ks_list s" "ks_group s' = ks_group s" "ks_current s' = ks_current s"
  shows "sched_inv X s'"
proof -
  have "queues_ok s'" using s fits_same [OF t] unfolding sched_inv_def queues_ok_def e by auto
  moreover have "bitmap_ok s'" using s unfolding sched_inv_def bitmap_ok_def e by auto
  moreover have "state_ok s' u" if "u \<notin> X" for u
    using sched_inv_state [OF s that] t [of u] by (auto simp: state_ok_def Let_def e same_sched_def)
  then have "states_ok X s'" by (simp add: states_ok_def)
  moreover have "masks_ok s'"
    using s started_same [OF t] mask_ok_same [OF t] unfolding sched_inv_def masks_ok_def by auto
  ultimately show ?thesis by (simp add: sched_inv_def)
qed

lemma sched_inv_upd_same:
  "sched_inv X s \<Longrightarrow> same_sched (ks_thread s t) (f (ks_thread s t)) \<Longrightarrow> sched_inv X (upd_thread t f s)"
  by (rule sched_inv_cong [of X s]) (auto simp: same_sched_def)

lemma same_sched_simps [simp]:
  "same_sched th th" "same_sched th (set_yield th)" "same_sched th (clear_yield th)"
  "same_sched th (th\<lparr>th_error := e\<rparr>)" "same_sched th (th\<lparr>th_pending_object := ob\<rparr>)"
  "same_sched th (th\<lparr>th_event_set := es\<rparr>)" "same_sched th (th\<lparr>th_remaining_tick := r\<rparr>)"
  by (simp_all add: same_sched_def)

lemma upd_clk_inv [simp]: "sched_inv X (upd_clk c s) = sched_inv X s"
  by (rule iffI; erule sched_inv_cong) simp_all

lemma upd_ipc_inv [simp]: "sched_inv X (upd_ipc f s) = sched_inv X s"
  by (rule iffI; erule sched_inv_cong) simp_all

section \<open>Inserting and removing\<close>

lemma bit_prio: "p < 32 \<Longrightarrow> bit (2 ^ p :: u32) q \<longleftrightarrow> q = p"
  by (auto simp: bit_simps)

lemma bit_or_prio: "a < 32 \<Longrightarrow> b < 32 \<Longrightarrow> bit (2 ^ a OR 2 ^ b :: u32) q \<longleftrightarrow> q = a \<or> q = b"
  by (simp add: bit_or_iff bit_prio)

lemma rt_schedule_remove_thread_simps [simp]:
  "ks_thread (rt_schedule_remove_thread t s) = ks_thread s"
  "ks_list (rt_schedule_remove_thread t s) = (\<lambda>h. removeAll t (ks_list s h))"
  "ks_current (rt_schedule_remove_thread t s) = ks_current s"
  "ks_current_priority (rt_schedule_remove_thread t s) = ks_current_priority s"
  "ks_lock_nest (rt_schedule_remove_thread t s) = ks_lock_nest s"
  "ks_irq_nest (rt_schedule_remove_thread t s) = ks_irq_nest s"
  "ks_clk (rt_schedule_remove_thread t s) = ks_clk s"
  "ks_ipc (rt_schedule_remove_thread t s) = ks_ipc s"
  by (simp_all add: rt_schedule_remove_thread_def Let_def)

lemma unlinked_remove [simp]:
  "unlinked t (rt_schedule_remove_thread t s)" "unlinked t (list_remove t s)"
  by (simp_all add: unlinked_def)

lemma remove_inv:
  assumes s: "sched_inv X s" and m: "mask_ok (ks_thread s t)"
  shows "sched_inv (insert t X) (rt_schedule_remove_thread t s)"
proof -
  let ?s = "rt_schedule_remove_thread t s" and ?th = "ks_thread s t"
  note d = sched_invD [OF s]
  have "queues_ok ?s"
    unfolding queues_ok_def using d(1-3) by (auto simp: distinct_removeAll)
  moreover have "state_ok ?s u" if "u \<notin> insert t X" for u
    using sched_inv_state [OF s, of u] that by (auto simp: state_ok_def Let_def)
  then have "states_ok (insert t X) ?s" by (simp add: states_ok_def)
  moreover have "masks_ok ?s" using d(9) unfolding masks_ok_def by auto
  moreover have "bitmap_ok ?s"
    unfolding bitmap_ok_def
  proof (intro conjI allI impI)
    fix p :: nat assume "32 \<le> p"
    then show "ks_list ?s (Ready p) = []" using d(5) by simp
  next
    fix p :: nat assume p: "p < 32"
    have pm: "th_current_priority ?th < 32" "th_number_mask ?th = push_bit (th_current_priority ?th) 1"
      using m by (simp_all add: mask_ok_def RT_THREAD_PRIORITY_MAX_def)
    show "bit (ks_group ?s) p = (ks_list ?s (Ready p) \<noteq> [])"
    proof (cases "p = th_current_priority ?th")
      case True
      then show ?thesis
        using d(4) [OF p] p pm
        by (auto simp: rt_schedule_remove_thread_def Let_def bit_and_iff bit_not_iff bit_prio)
    next
      case False
      then have "t \<notin> set (ks_list s (Ready p))" using ready_list_fits [OF s, of t p] by auto
      then have "removeAll t (ks_list s (Ready p)) = ks_list s (Ready p)" by (rule removeAll_notin)
      with False show ?thesis
        using d(4) [OF p] p pm
        by (simp add: rt_schedule_remove_thread_def Let_def bit_and_iff bit_not_iff bit_prio)
    qed
  qed
  ultimately show ?thesis by (simp add: sched_inv_def)
qed

lemma list_remove_inv:
  assumes s: "sched_inv X s" and t: "th_state (ks_thread s t) \<noteq> 2"
  shows "sched_inv X (list_remove t s)"
proof -
  note d = sched_invD [OF s]
  have nr: "t \<notin> set (ks_list s (Ready p))" for p using ready_list_fits [OF s, of t p] t by auto
  then have r: "removeAll t (ks_list s (Ready p)) = ks_list s (Ready p)" for p by (rule removeAll_notin)
  have "queues_ok (list_remove t s)"
    unfolding queues_ok_def using d(1-3) by (auto simp: distinct_removeAll)
  moreover have "bitmap_ok (list_remove t s)" using d(4,5) unfolding bitmap_ok_def by (simp add: r)
  moreover have "state_ok (list_remove t s) u" if "u \<notin> X" for u
    using sched_inv_state [OF s that] by (simp only: state_ok_def Let_def list_remove_simps r)
  then have "states_ok X (list_remove t s)" by (simp add: states_ok_def)
  moreover have "masks_ok (list_remove t s)" using d(9) unfolding masks_ok_def by auto
  ultimately show ?thesis by (simp add: sched_inv_def)
qed

lemma sched_inv_discharge:
  assumes "sched_inv (insert t X) s" "state_ok s t"
  shows "sched_inv (X - {t}) s"
proof -
  have "state_ok s v" if "v \<notin> X - {t}" for v
    using that assms(2) sched_inv_state [OF assms(1), of v] by (cases "v = t") auto
  with assms(1) show ?thesis unfolding sched_inv_def states_ok_def by simp
qed

text \<open>Dispatching: an unlinked thread becomes the running current thread.\<close>

lemma run_inv:
  assumes s: "sched_inv X s" and u: "unlinked t s" and t: "started (ks_thread s t)"
    and c: "ks_current s = Some t"
  shows "sched_inv (X - {t}) (upd_thread t (set_state RT_THREAD_RUNNING) s)"
proof -
  let ?s = "upd_thread t (set_state RT_THREAD_RUNNING) s"
  have m: "mask_ok (ks_thread s t)" by (rule sched_invD(9) [OF s t])
  have "sched_inv (insert t X) ?s"
    using m by (intro sched_inv_upd_thread sched_inv_mono [OF s] u) (auto simp: mask_ok_def)
  moreover have "state_ok ?s t" using t c by (simp add: state_ok_def Let_def started_def)
  ultimately show ?thesis by (rule sched_inv_discharge)
qed

lemma rt_schedule_insert_thread_frame [simp]:
  "ks_current (rt_schedule_insert_thread t s) = ks_current s"
  "ks_current_priority (rt_schedule_insert_thread t s) = ks_current_priority s"
  "ks_lock_nest (rt_schedule_insert_thread t s) = ks_lock_nest s"
  "ks_irq_nest (rt_schedule_insert_thread t s) = ks_irq_nest s"
  "ks_clk (rt_schedule_insert_thread t s) = ks_clk s"
  "ks_ipc (rt_schedule_insert_thread t s) = ks_ipc s"
  "ks_thread (rt_schedule_insert_thread t s) = (ks_thread s)(t :=
     set_state (if ks_current s = Some t then RT_THREAD_RUNNING else RT_THREAD_READY) (ks_thread s t))"
  by (auto simp: rt_schedule_insert_thread_def Let_def)

lemma rt_schedule_insert_thread_list:
  "ks_list (rt_schedule_insert_thread t s) =
     (if ks_current s = Some t then ks_list s
      else let h = Ready (th_current_priority (ks_thread s t)) in
        (ks_list s)(h := if th_yield (ks_thread s t) then ks_list s h @ [t] else t # ks_list s h))"
  by (auto simp: rt_schedule_insert_thread_def Let_def)

lemma insert_inv:
  assumes s: "sched_inv X s" and u: "unlinked t s" and t: "started (ks_thread s t)"
  shows "sched_inv (X - {t}) (rt_schedule_insert_thread t s)"
proof (cases "ks_current s = Some t")
  case True
  with run_inv [OF s u t] show ?thesis by (simp add: rt_schedule_insert_thread_def)
next
  case False
  let ?s = "rt_schedule_insert_thread t s" and ?th = "ks_thread s t"
  let ?p = "th_current_priority ?th"
  note d = sched_invD [OF s]
  have m: "?p < 32" "th_number_mask ?th = push_bit ?p 1"
    using d(9) [OF t] by (simp_all add: mask_ok_def RT_THREAD_PRIORITY_MAX_def)
  have o: "th_object ?th \<noteq> Obj_Null" using t by (simp add: started_def)
  have un: "t \<notin> set (ks_list s h)" for h using u by (simp add: unlinked_def)
  have l: "ks_list ?s = (ks_list s)(Ready ?p := if th_yield ?th then ks_list s (Ready ?p) @ [t]
      else t # ks_list s (Ready ?p))"
    using False by (simp add: rt_schedule_insert_thread_list Let_def)
  then have set: "set (ks_list ?s h) = (if h = Ready ?p then insert t (set (ks_list s h)) else set (ks_list s h))"
    for h by auto
  have g: "ks_group ?s = ks_group s OR th_number_mask ?th"
    using False by (auto simp: rt_schedule_insert_thread_def Let_def)
  have "queues_ok ?s"
    unfolding queues_ok_def
  proof (intro conjI allI ballI impI)
    show "distinct (ks_list ?s h)" for h using d(1) [of h] un by (auto simp: l)
    show "h = h'" if "v \<in> set (ks_list ?s h)" "v \<in> set (ks_list ?s h')" for h h' v
      using that un d(2) by (auto simp: set split: if_splits)
    show "fits h (ks_thread ?s v)" if "v \<in> set (ks_list ?s h)" for h v
      using that un d(3) [of v h] o False by (auto simp: set split: if_splits)
  qed
  moreover have "bitmap_ok ?s"
    unfolding bitmap_ok_def
  proof (intro conjI allI impI)
    show "ks_list ?s (Ready p) = []" if "32 \<le> p" for p using d(5) [OF that] that m by (auto simp: l)
    show "bit (ks_group ?s) p = (ks_list ?s (Ready p) \<noteq> [])" if "p < 32" for p
      using d(4) [OF that] that m by (simp add: g l bit_or_iff bit_prio)
  qed
  moreover have "state_ok ?s v" if "v \<notin> X - {t}" for v
  proof (cases "v = t")
    case True
    with o False show ?thesis by (simp add: state_ok_def Let_def set)
  next
    case False
    with that have "v \<notin> X" by simp
    from sched_inv_state [OF s this] False show ?thesis
      by (auto simp: state_ok_def Let_def set split: if_splits)
  qed
  then have "states_ok (X - {t}) ?s" by (simp add: states_ok_def)
  moreover have "masks_ok ?s" using d(9) m False by (auto simp: masks_ok_def mask_ok_def RT_THREAD_PRIORITY_MAX_def)
  ultimately show ?thesis by (simp add: sched_inv_def)
qed

section \<open>The highest ready thread\<close>

lemma group_zero:
  assumes "sched_inv X s"
  shows "ks_group s = 0 \<longleftrightarrow> (\<forall>p. ks_list s (Ready p) = [])"
proof -
  have "ks_group s = 0 \<longleftrightarrow> (\<forall>p < 32. \<not> bit (ks_group s) p)"
    by (auto simp: bit_eq_iff)
  with sched_invD(4,5) [OF assms] show ?thesis by (meson not_le)
qed

lemma highest_spec:
  assumes s: "sched_inv X s" and g: "ks_group s \<noteq> 0"
  shows "\<exists>t ts p. scheduler_get_highest_priority_thread s = Some (t, p) \<and>
    ks_list s (Ready p) = t # ts \<and> p < 32 \<and> (\<forall>q. \<forall>u \<in> set (ks_list s (Ready q)). p \<le> q)"
proof -
  obtain p where p: "lowest_bit (ks_group s) p" using lowest_bit_exists [OF g] by blast
  have p32: "p < 32" by (rule lowest_bit_less [OF p])
  from p sched_invD(4) [OF s p32] obtain t ts where l: "ks_list s (Ready p) = t # ts"
    by (cases "ks_list s (Ready p)") (auto simp: lowest_bit_def)
  have "p \<le> q" if "u \<in> set (ks_list s (Ready q))" for q u
  proof (rule ccontr)
    assume "\<not> p \<le> q"
    with p p32 sched_invD(4) [OF s, of q] that show False by (auto simp: lowest_bit_def)
  qed
  with rt_ffs_bit [OF p] l p32 show ?thesis
    by (auto simp: scheduler_get_highest_priority_thread_def Let_def)
qed

lemma highest_None:
  assumes "sched_inv X s"
  shows "scheduler_get_highest_priority_thread s = None \<longleftrightarrow> ks_group s = 0"
  using highest_spec [OF assms]
  by (cases "ks_group s = 0") (auto simp: scheduler_get_highest_priority_thread_def rt_ffs_def)

section \<open>Scheduling\<close>

text \<open>What \<open>rt_schedule\<close> leaves alone: everything but the ready lists and READY/RUNNING states.\<close>

definition only_stat :: "rt_thread \<Rightarrow> rt_thread \<Rightarrow> bool" where
  "only_stat th th' \<longleftrightarrow> th' = th\<lparr>th_stat := th_stat th'\<rparr>"

lemma only_stat_simps [simp]:
  "only_stat th th"
  "only_stat th (set_state st th') = only_stat th th'"
  "only_stat th (set_yield th') = only_stat th th'"
  "only_stat th (clear_yield th') = only_stat th th'"
  by (cases th; cases th'; simp add: only_stat_def set_state_def set_yield_def clear_yield_def)+

definition sched_frame :: "kstate \<Rightarrow> kstate \<Rightarrow> bool" where
  "sched_frame s s' \<longleftrightarrow>
     ks_clk s' = ks_clk s \<and> ks_ipc s' = ks_ipc s \<and> ks_lock_nest s' = ks_lock_nest s \<and>
     ks_irq_nest s' = ks_irq_nest s \<and>
     (\<forall>h. (\<forall>p. h \<noteq> Ready p) \<longrightarrow> ks_list s' h = ks_list s h) \<and>
     (\<forall>t. only_stat (ks_thread s t) (ks_thread s' t) \<and>
        (th_state (ks_thread s' t) = th_state (ks_thread s t) \<or>
         th_state (ks_thread s t) \<in> {2, 3} \<and> th_state (ks_thread s' t) \<in> {2, 3}))"

lemma sched_frame_refl [simp]: "sched_frame s s"
  by (simp add: sched_frame_def)

lemma sched_frameD:
  assumes "sched_frame s s'"
  shows "ks_clk s' = ks_clk s" "ks_ipc s' = ks_ipc s" "ks_lock_nest s' = ks_lock_nest s"
    "ks_irq_nest s' = ks_irq_nest s" "ks_list s' (Suspend ob) = ks_list s (Suspend ob)"
    "ks_list s' (Suspend_Sender ob) = ks_list s (Suspend_Sender ob)"
    "ks_list s' Defunct = ks_list s Defunct"
    "th_suspended (ks_thread s' t) = th_suspended (ks_thread s t)"
    "th_object (ks_thread s' t) = th_object (ks_thread s t)"
    "th_error (ks_thread s' t) = th_error (ks_thread s t)"
    "th_current_priority (ks_thread s' t) = th_current_priority (ks_thread s t)"
    "th_init_priority (ks_thread s' t) = th_init_priority (ks_thread s t)"
    "th_number_mask (ks_thread s' t) = th_number_mask (ks_thread s t)"
    "th_pending_object (ks_thread s' t) = th_pending_object (ks_thread s t)"
    "th_event_set (ks_thread s' t) = th_event_set (ks_thread s t)"
    "th_event_info (ks_thread s' t) = th_event_info (ks_thread s t)"
    "th_init_tick (ks_thread s' t) = th_init_tick (ks_thread s t)"
    "th_remaining_tick (ks_thread s' t) = th_remaining_tick (ks_thread s t)"
proof -
  have th: "ks_thread s' t = (ks_thread s t)\<lparr>th_stat := th_stat (ks_thread s' t)\<rparr>"
    using assms by (simp add: sched_frame_def only_stat_def)
  show "th_object (ks_thread s' t) = th_object (ks_thread s t)"
    "th_error (ks_thread s' t) = th_error (ks_thread s t)"
    "th_current_priority (ks_thread s' t) = th_current_priority (ks_thread s t)"
    "th_init_priority (ks_thread s' t) = th_init_priority (ks_thread s t)"
    "th_number_mask (ks_thread s' t) = th_number_mask (ks_thread s t)"
    "th_pending_object (ks_thread s' t) = th_pending_object (ks_thread s t)"
    "th_event_set (ks_thread s' t) = th_event_set (ks_thread s t)"
    "th_event_info (ks_thread s' t) = th_event_info (ks_thread s t)"
    "th_init_tick (ks_thread s' t) = th_init_tick (ks_thread s t)"
    "th_remaining_tick (ks_thread s' t) = th_remaining_tick (ks_thread s t)"
    by (subst th, simp)+
  show "th_suspended (ks_thread s' t) = th_suspended (ks_thread s t)"
  proof -
    have "th_state (ks_thread s' t) = th_state (ks_thread s t) \<or>
      th_state (ks_thread s t) \<in> {2, 3} \<and> th_state (ks_thread s' t) \<in> {2, 3}"
      using assms by (simp add: sched_frame_def)
    then show ?thesis by (auto simp: th_suspended_state)
  qed
qed (use assms in \<open>auto simp: sched_frame_def\<close>)

text \<open>The last steps of \<open>rt_schedule\<close>: \<open>t\<close> leaves the ready table and runs.\<close>

definition dispatch :: "tid \<Rightarrow> kstate \<Rightarrow> kstate" where
  "dispatch t s = upd_thread t (set_state RT_THREAD_RUNNING) (rt_schedule_remove_thread t s)"

lemma dispatch_inv:
  assumes s: "sched_inv {t} s" and t: "started (ks_thread s t)" and c: "ks_current s = Some t"
  shows "sched_ok (dispatch t s)"
proof -
  have "sched_inv {t} (rt_schedule_remove_thread t s)"
    using remove_inv [OF s sched_invD(9) [OF s t]] by simp
  from run_inv [OF this] t c show ?thesis by (simp add: dispatch_def)
qed

lemma set_current_inv:
  assumes s: "sched_ok s" and c: "ks_current s = Some c"
  shows "sched_inv {t, c} (s\<lparr>ks_current_priority := p, ks_current := Some t\<rparr>)"
proof -
  let ?s = "s\<lparr>ks_current_priority := p, ks_current := Some t\<rparr>"
  have "state_ok ?s u" if "u \<notin> {t, c}" for u
    using sched_inv_state [OF s, of u] that c by (auto simp: state_ok_def Let_def)
  with s show ?thesis
    by (simp add: sched_inv_def states_ok_def queues_ok_def bitmap_ok_def masks_ok_def)
qed

lemma ready_in_table:
  assumes s: "sched_ok s" and t: "th_object (ks_thread s t) \<noteq> Obj_Null"
    "th_state (ks_thread s t) = RT_THREAD_READY"
  shows "t \<in> set (ks_list s (Ready (th_current_priority (ks_thread s t))))"
  using sched_invD(6) [OF s _ t] by simp

definition switch_to :: "tid \<Rightarrow> nat \<Rightarrow> kstate \<Rightarrow> kstate" where
  "switch_to t p s = s\<lparr>ks_current_priority := p, ks_current := Some t\<rparr>"

lemma switch_to_simps [simp]:
  "ks_thread (switch_to t p s) = ks_thread s" "ks_list (switch_to t p s) = ks_list s"
  "ks_group (switch_to t p s) = ks_group s" "ks_current (switch_to t p s) = Some t"
  "ks_lock_nest (switch_to t p s) = ks_lock_nest s" "ks_irq_nest (switch_to t p s) = ks_irq_nest s"
  "ks_clk (switch_to t p s) = ks_clk s" "ks_ipc (switch_to t p s) = ks_ipc s"
  by (simp_all add: switch_to_def)

lemma dispatch_simps [simp]:
  "ks_thread (dispatch t s) = (ks_thread s)(t := set_state RT_THREAD_RUNNING (ks_thread s t))"
  "ks_list (dispatch t s) = (\<lambda>h. removeAll t (ks_list s h))"
  "ks_current (dispatch t s) = ks_current s" "ks_lock_nest (dispatch t s) = ks_lock_nest s"
  "ks_irq_nest (dispatch t s) = ks_irq_nest s" "ks_clk (dispatch t s) = ks_clk s"
  "ks_ipc (dispatch t s) = ks_ipc s"
  by (simp_all add: dispatch_def)

text \<open>The three ways through an unlocked \<open>rt_schedule\<close> with a ready thread.\<close>

lemma rt_schedule_cases:
  assumes lock: "ks_lock_nest s = 0" and g: "ks_group s \<noteq> 0"
    and hi: "scheduler_get_highest_priority_thread s = Some (t, p)"
    and c: "ks_current s = Some c" and tc: "t \<noteq> c"
  shows "rt_schedule s = Some (
    let th = ks_thread s c; s1 = upd_thread c clear_yield s in
    if th_state th = RT_THREAD_RUNNING then
      if th_current_priority th < p \<or> th_current_priority th = p \<and> \<not> th_yield th
      then dispatch c s1
      else dispatch t (rt_schedule_insert_thread c (switch_to t p s1))
    else dispatch t (switch_to t p s))"
  using assms by (simp add: rt_schedule_def Let_def dispatch_def switch_to_def)

lemma rt_schedule_idle:
  "ks_lock_nest s \<noteq> 0 \<or> ks_group s = 0 \<Longrightarrow> rt_schedule s = Some s"
  by (auto simp: rt_schedule_def)

lemma clear_yield_inv: "sched_inv X s \<Longrightarrow> sched_inv X (upd_thread c clear_yield s)"
  by (simp add: sched_inv_upd_same)

text \<open>One lemma per way: the invariant, who runs, and what is untouched.\<close>

definition runs_highest :: "kstate \<Rightarrow> bool" where
  "runs_highest s \<longleftrightarrow> (\<exists>c. ks_current s = Some c \<and> th_state (ks_thread s c) = RT_THREAD_RUNNING \<and>
     (\<forall>t. th_object (ks_thread s t) \<noteq> Obj_Null \<longrightarrow> th_state (ks_thread s t) = RT_THREAD_READY \<longrightarrow>
       th_current_priority (ks_thread s c) \<le> th_current_priority (ks_thread s t)))"

lemma runs_highestI:
  assumes s: "sched_ok s" and c: "ks_current s = Some c" "th_state (ks_thread s c) = RT_THREAD_RUNNING"
    and l: "\<And>q u. u \<in> set (ks_list s (Ready q)) \<Longrightarrow> th_current_priority (ks_thread s c) \<le> q"
  shows "runs_highest s"
  unfolding runs_highest_def using c l ready_in_table [OF s] by blast

lemma stay_spec:
  assumes s: "sched_ok s" and c: "ks_current s = Some c" "th_state (ks_thread s c) = RT_THREAD_RUNNING"
    and p: "\<forall>q. \<forall>u \<in> set (ks_list s (Ready q)). p \<le> q" "th_current_priority (ks_thread s c) \<le> p"
  defines "s' \<equiv> dispatch c (upd_thread c clear_yield s)"
  shows "sched_ok s' \<and> runs_highest s' \<and> sched_frame s s' \<and> ks_current s' = Some c"
proof -
  have o: "th_object (ks_thread s c) \<noteq> Obj_Null" using sched_invD(8) [OF s c(1)] by simp
  have un: "unlinked c s" by (rule running_unlinked [OF s c(2)])
  have ok: "sched_ok s'"
    unfolding s'_def
    by (intro dispatch_inv sched_inv_mono [OF clear_yield_inv [OF s]]) (use o c in \<open>auto simp: started_def\<close>)
  moreover have "runs_highest s'"
    by (rule runs_highestI [OF ok, of c]) (use c p in \<open>force simp: s'_def\<close>)+
  moreover have "sched_frame s s'"
    using un c(2) by (auto simp: sched_frame_def s'_def unlinked_def removeAll_notin)
  ultimately show ?thesis using c by (simp add: s'_def)
qed

text \<open>A running thread that nobody outranks, and that has not yielded, goes on running.\<close>

lemma schedule_keeps:
  assumes s: "sched_ok s" and c: "ks_current s = Some c" "th_state (ks_thread s c) = RT_THREAD_RUNNING"
    and y: "\<not> th_yield (ks_thread s c)"
    and q: "\<forall>q. \<forall>u \<in> set (ks_list s (Ready q)). th_current_priority (ks_thread s c) \<le> q"
  shows "\<exists>s'. rt_schedule s = Some s' \<and> ks_current s' = Some c \<and> sched_frame s s' \<and>
    th_state (ks_thread s' c) = RT_THREAD_RUNNING"
proof (cases "ks_lock_nest s \<noteq> 0 \<or> ks_group s = 0")
  case True
  from rt_schedule_idle [OF True] c show ?thesis by simp
next
  case False
  then have lock: "ks_lock_nest s = 0" and g: "ks_group s \<noteq> 0" by auto
  from highest_spec [OF s g] obtain t ts p where
    hi: "scheduler_get_highest_priority_thread s = Some (t, p)" and l: "ks_list s (Ready p) = t # ts"
    and p: "\<forall>q. \<forall>u \<in> set (ks_list s (Ready q)). p \<le> q" by blast
  have t: "t \<in> set (ks_list s (Ready p))" using l by simp
  have tc: "t \<noteq> c" using sched_invD(6) [OF s, of t] ready_list_fits [OF s t] c by auto
  have cp: "th_current_priority (ks_thread s c) \<le> p" using q t by blast
  have "rt_schedule s = Some (dispatch c (upd_thread c clear_yield s))"
    using rt_schedule_cases [OF lock g hi c(1) tc] c(2) y cp by (simp add: le_less)
  with stay_spec [OF s c p cp] show ?thesis by simp
qed

lemma leave_spec:
  assumes s: "sched_ok s" and c: "ks_current s = Some c" "th_state (ks_thread s c) \<noteq> RT_THREAD_RUNNING"
    and t: "t \<in> set (ks_list s (Ready p))" and p: "\<forall>q. \<forall>u \<in> set (ks_list s (Ready q)). p \<le> q"
  defines "s' \<equiv> dispatch t (switch_to t p s)"
  shows "sched_ok s' \<and> runs_highest s' \<and> sched_frame s s' \<and> ks_current s' = Some t"
proof -
  note rt = ready_list_fits [OF s t]
  have o: "th_object (ks_thread s c) \<noteq> Obj_Null" using sched_invD(8) [OF s c(1)] by simp
  have c2: "th_state (ks_thread s c) \<noteq> 2" using sched_invD(6) [OF s _ o] c(1) by auto
  with rt have tc: "t \<noteq> c" by auto
  have "sched_inv {t, c} (switch_to t p s)" unfolding switch_to_def by (rule set_current_inv [OF s c(1)])
  moreover have "state_ok (switch_to t p s) c" using tc c c2 by (simp add: state_ok_def Let_def)
  ultimately have "sched_inv {t} (switch_to t p s)"
    using sched_inv_discharge [of c "{t}"] tc by (simp add: insert_commute)
  then have ok: "sched_ok s'"
    unfolding s'_def by (rule dispatch_inv) (use rt in \<open>auto simp: started_def\<close>)
  moreover have "runs_highest s'"
    by (rule runs_highestI [OF ok, of t]) (use rt p in \<open>auto simp: s'_def\<close>)
  moreover have "sched_frame s s'"
  proof -
    have "t \<notin> set (ks_list s h)" if "\<forall>p. h \<noteq> Ready p" for h
      using sched_invD(2) [OF s t, of h] that by blast
    then show ?thesis using rt by (auto simp: sched_frame_def s'_def removeAll_notin)
  qed
  ultimately show ?thesis by (simp add: s'_def)
qed

lemma preempt_spec:
  assumes s: "sched_ok s" and c: "ks_current s = Some c" "th_state (ks_thread s c) = RT_THREAD_RUNNING"
    and t: "t \<in> set (ks_list s (Ready p))" and p: "\<forall>q. \<forall>u \<in> set (ks_list s (Ready q)). p \<le> q"
    and le: "p \<le> th_current_priority (ks_thread s c)"
  defines "s' \<equiv> dispatch t (rt_schedule_insert_thread c (switch_to t p (upd_thread c clear_yield s)))"
  shows "sched_ok s' \<and> runs_highest s' \<and> sched_frame s s' \<and> ks_current s' = Some t \<and>
    ks_list s' = (\<lambda>h. removeAll t (((ks_list s)(Ready (th_current_priority (ks_thread s c)) :=
      c # ks_list s (Ready (th_current_priority (ks_thread s c))))) h))"
proof -
  let ?s1 = "upd_thread c clear_yield s"
  let ?s2 = "switch_to t p ?s1" and ?s3 = "rt_schedule_insert_thread c (switch_to t p ?s1)"
  note rt = ready_list_fits [OF s t]
  have o: "th_object (ks_thread s c) \<noteq> Obj_Null" using sched_invD(8) [OF s c(1)] by simp
  have tc: "t \<noteq> c" using rt c(2) by auto
  have un: "unlinked c s" by (rule running_unlinked [OF s c(2)])
  have lst: "ks_list ?s3 = (ks_list s)(Ready (th_current_priority (ks_thread s c)) :=
      c # ks_list s (Ready (th_current_priority (ks_thread s c))))"
    using tc by (simp add: rt_schedule_insert_thread_list Let_def)
  have "sched_inv {t, c} ?s2"
    unfolding switch_to_def by (rule set_current_inv [OF clear_yield_inv [OF s]]) (use c in simp)
  then have "sched_inv ({t, c} - {c}) ?s3"
    by (rule insert_inv) (use un o c in \<open>auto simp: unlinked_def started_def\<close>)
  then have "sched_inv {t} ?s3" using tc by (simp add: insert_Diff_if)
  then have ok: "sched_ok s'"
    unfolding s'_def by (rule dispatch_inv) (use rt tc in \<open>auto simp: started_def\<close>)
  moreover have "runs_highest s'"
  proof (rule runs_highestI [OF ok, of t])
    fix q u assume u: "u \<in> set (ks_list s' (Ready q))"
    with tc rt p le show "th_current_priority (ks_thread s' t) \<le> q"
      by (auto simp: s'_def lst split: if_splits)
  qed (use rt tc in \<open>auto simp: s'_def\<close>)
  moreover have "sched_frame s s'"
  proof -
    have "t \<notin> set (ks_list s h)" if "\<forall>p. h \<noteq> Ready p" for h
      using sched_invD(2) [OF s t, of h] that by blast
    then show ?thesis using rt tc c by (auto simp: sched_frame_def s'_def removeAll_notin lst)
  qed
  moreover have "ks_list s' = (\<lambda>h. removeAll t (((ks_list s)(Ready (th_current_priority (ks_thread s c)) :=
      c # ks_list s (Ready (th_current_priority (ks_thread s c))))) h))"
    by (simp add: s'_def lst)
  ultimately show ?thesis by (simp add: s'_def)
qed

text \<open>
  The contract of \<open>rt_schedule\<close> that the rest of the kernel uses: with a current thread it always
  returns, keeps the invariant and everything outside the ready table, and, unless it is locked or
  there is nobody to run, leaves the highest ready thread running.
\<close>

lemma rt_schedule_ok:
  assumes s: "sched_ok s" and c: "ks_current s = Some c"
  shows "ok (rt_schedule s) (\<lambda>s'. sched_ok s' \<and> sched_frame s s' \<and> ks_current s' \<noteq> None \<and>
    (ks_lock_nest s = 0 \<longrightarrow>
       th_state (ks_thread s c) = RT_THREAD_RUNNING \<or> ks_group s \<noteq> 0 \<longrightarrow> runs_highest s'))"
proof (cases "ks_lock_nest s \<noteq> 0 \<or> ks_group s = 0")
  case True
  have "runs_highest s" if "ks_lock_nest s = 0" "th_state (ks_thread s c) = RT_THREAD_RUNNING"
    using that True group_zero [OF s] runs_highestI [OF s c] by simp
  with rt_schedule_idle [OF True] s c True show ?thesis by auto
next
  case False
  then have lock: "ks_lock_nest s = 0" and g: "ks_group s \<noteq> 0" by auto
  from highest_spec [OF s g] obtain t ts p where
    hi: "scheduler_get_highest_priority_thread s = Some (t, p)" and l: "ks_list s (Ready p) = t # ts"
    and p: "\<forall>q. \<forall>u \<in> set (ks_list s (Ready q)). p \<le> q" by blast
  have t: "t \<in> set (ks_list s (Ready p))" using l by simp
  have tc: "t \<noteq> c" using sched_invD(6) [OF s, of t] ready_list_fits [OF s t] c by auto
  note cs = rt_schedule_cases [OF lock g hi c tc]
  show ?thesis
  proof (cases "th_state (ks_thread s c) = RT_THREAD_RUNNING")
    case run: True
    show ?thesis
      using cs run stay_spec [OF s c run p] preempt_spec [OF s c run t p]
      by (auto simp: Let_def not_less)
  next
    case False
    with cs leave_spec [OF s c False t p] show ?thesis by (simp add: Let_def)
  qed
qed

section \<open>The ready table as a queue of priorities\<close>

definition ready_threads :: "kstate \<Rightarrow> tid set" where
  "ready_threads s = {t. \<exists>p. t \<in> set (ks_list s (Ready p))}"

lemma ready_threads_alt:
  "sched_inv X s \<Longrightarrow> ready_threads s = (\<Union>p < 32. set (ks_list s (Ready p)))"
  using ready_list_fits by (fastforce simp: ready_threads_def)

lemma ready_threads_empty: "ready_threads s = {} \<longleftrightarrow> (\<forall>p. ks_list s (Ready p) = [])"
proof -
  have "ready_threads s = (\<Union>p. set (ks_list s (Ready p)))" by (auto simp: ready_threads_def)
  then show ?thesis by simp
qed

interpretation ready_table: min_queue "sched_inv UNIV" ready_threads
  "\<lambda>s t. th_current_priority (ks_thread s t)"
  "\<lambda>s. map_option fst (scheduler_get_highest_priority_thread s)" rt_schedule_remove_thread
proof
  fix s x y
  assume s: "sched_inv UNIV s"
  show "finite (ready_threads s)" by (simp add: ready_threads_alt [OF s])
  show "map_option fst (scheduler_get_highest_priority_thread s) = None \<longleftrightarrow> ready_threads s = {}"
    using highest_None [OF s] group_zero [OF s] by (simp add: ready_threads_empty)
  assume x: "map_option fst (scheduler_get_highest_priority_thread s) = Some x"
  then have g: "ks_group s \<noteq> 0" using highest_None [OF s] by auto
  from highest_spec [OF s g] obtain t ts p where
    "scheduler_get_highest_priority_thread s = Some (t, p)" "ks_list s (Ready p) = t # ts"
    and q: "\<forall>q. \<forall>u \<in> set (ks_list s (Ready q)). p \<le> q" by blast
  with x have "x \<in> set (ks_list s (Ready p))" by simp
  note p = this q
  note rx = ready_list_fits [OF s p(1)]
  show "x \<in> ready_threads s \<and> (\<forall>y \<in> ready_threads s.
      th_current_priority (ks_thread s x) \<le> th_current_priority (ks_thread s y))"
  proof
    show "x \<in> ready_threads s" using p(1) by (auto simp: ready_threads_def)
    show "\<forall>y \<in> ready_threads s. th_current_priority (ks_thread s x) \<le> th_current_priority (ks_thread s y)"
    proof
      fix y assume "y \<in> ready_threads s"
      then obtain q where q: "y \<in> set (ks_list s (Ready q))" by (auto simp: ready_threads_def)
      with p(2) have "p \<le> q" by blast
      with rx ready_list_fits [OF s q]
      show "th_current_priority (ks_thread s x) \<le> th_current_priority (ks_thread s y)" by simp
    qed
  qed
  show "sched_inv UNIV (rt_schedule_remove_thread x s)"
    using remove_inv [OF s sched_invD(9) [OF s]] rx by (simp add: started_def)
  show "ready_threads (rt_schedule_remove_thread x s) = ready_threads s - {x}"
    by (auto simp: ready_threads_def)
qed (simp_all)

section \<open>A sample system\<close>

text \<open>Threads 1, 2, 3 of priority 5 (1 is running), the idle thread 0 of priority 31.\<close>

definition sample_thread :: "nat \<Rightarrow> u8 \<Rightarrow> rt_thread" where
  "sample_thread p st = \<lparr>th_object = Obj_Static, th_stat = st, th_error = 0,
     th_current_priority = p, th_init_priority = p, th_number_mask = push_bit p 1,
     th_pending_object = None, th_event_set = 0, th_event_info = 0, th_init_tick = 10,
     th_remaining_tick = 10\<rparr>"

definition no_thread :: rt_thread where
  "no_thread = (sample_thread 0 0)\<lparr>th_object := Obj_Null\<rparr>"

definition sample_ipc :: ipc_state where
  "sample_ipc = \<lparr>
     ipc_sem = (\<lambda>_. \<lparr>sem_object = Obj_Static, sem_flag = PRIO, sem_value = 0\<rparr>),
     ipc_mutex = (\<lambda>_. \<lparr>mx_object = Obj_Static, mx_flag = PRIO, mx_ceiling_priority = 0xff,
       mx_priority = 0xff, mx_hold = 0, mx_owner = None\<rparr>),
     ipc_event = (\<lambda>_. \<lparr>ev_object = Obj_Static, ev_flag = PRIO, ev_set = 0\<rparr>),
     ipc_mailbox = (\<lambda>_. \<lparr>mb_object = Obj_Static, mb_flag = FIFO, mb_msg_pool = [0, 0], mb_size = 2,
       mb_entry = 0, mb_in_offset = 0, mb_out_offset = 0\<rparr>),
     ipc_mq = (\<lambda>_. \<lparr>mq_object = Obj_Static, mq_flag = FIFO, mq_next = (\<lambda>_. None)(1 := Some 0),
       mq_slot = (\<lambda>_. replicate 8 0), mq_msg_size = 4, mq_max_msgs = 2, mq_entry = 0,
       mq_queue_head = None, mq_queue_tail = None, mq_queue_free = Some 1\<rparr>),
     ipc_taken = (\<lambda>_. [])\<rparr>"

definition sample_kernel :: kstate where
  "sample_kernel = \<lparr>
     ks_thread = (\<lambda>t. if t = 0 then sample_thread 31 2 else if t = 1 then sample_thread 5 3
       else if t = 2 \<or> t = 3 then sample_thread 5 2 else no_thread),
     ks_list = (\<lambda>_. [])(Ready 5 := [2, 3], Ready 31 := [0]),
     ks_group = 0x80000020, ks_current = Some 1, ks_current_priority = 5, ks_lock_nest = 0,
     ks_irq_nest = 0, ks_clk = sample_clk, ks_ipc = sample_ipc\<rparr>"

lemma sample_kernel_ok: "sched_ok sample_kernel"
proof -
  have g: "bit (0x80000020 :: u32) p \<longleftrightarrow> p = 5 \<or> p = 31" for p
    using bit_or_prio [of 5 31 p] by simp
  have "queues_ok sample_kernel"
    by (auto simp: queues_ok_def sample_kernel_def sample_thread_def th_state_def split: if_splits)
  moreover have "bitmap_ok sample_kernel"
    unfolding bitmap_ok_def
  proof (intro conjI allI impI)
    show "bit (ks_group sample_kernel) p = (ks_list sample_kernel (Ready p) \<noteq> [])" for p
      using g [of p] by (simp add: sample_kernel_def)
  qed (simp add: sample_kernel_def)
  moreover have "states_ok {} sample_kernel"
    by (auto simp: states_ok_def state_ok_def sample_kernel_def sample_thread_def no_thread_def
        th_state_def Let_def)
  moreover have "masks_ok sample_kernel"
    by (auto simp: masks_ok_def mask_ok_def started_def sample_kernel_def sample_thread_def
        no_thread_def RT_THREAD_PRIORITY_MAX_def)
  ultimately show ?thesis by (simp add: sched_inv_def)
qed

section \<open>Properties\<close>

text \<open>
  C3: An unlocked rt_schedule with a running current thread, or with any ready thread, always
  returns and leaves a running thread that no ready thread outranks; it keeps the ready table
  exact (bitmap, lists and thread states agree), and changes nothing but the READY and RUNNING
  states and the ready lists: no thread is lost, no suspended thread is woken, no timer or IPC
  object is touched.
\<close>
theorem schedule_runs_highest_ready_thread:
  assumes "sched_ok s" "ks_current s = Some c" "ks_lock_nest s = 0"
    and "th_state (ks_thread s c) = RT_THREAD_RUNNING \<or> ks_group s \<noteq> 0"
  shows "\<exists>s'. rt_schedule s = Some s' \<and> sched_ok s' \<and> runs_highest s' \<and> sched_frame s s'"
  using rt_schedule_ok [OF assms(1,2)] assms(3,4) by (auto simp: ok_iff)

theorem schedule_runs_highest_ready_thread_witness:
  "\<exists>s'. rt_schedule (upd_thread 1 set_yield sample_kernel) = Some s' \<and> runs_highest s'"
proof -
  have "sched_ok (upd_thread 1 set_yield sample_kernel)"
    by (rule sched_inv_upd_same [OF sample_kernel_ok]) simp
  from schedule_runs_highest_ready_thread [OF this, of 1] show ?thesis
    by (auto simp: sample_kernel_def)
qed

text \<open>
  C24: The bitmap and the ready table never disagree: removing any thread that takes part in
  scheduling and putting an unlinked one back keeps every node on at most one list, every thread
  on the list its state and priority call for, and bit p of the bitmap set exactly when ready
  list p is non-empty; draining the table from the highest-priority end yields every ready thread
  once, in priority order.
\<close>
theorem ready_table_stays_exact:
  assumes "sched_ok s" "started (ks_thread s t)"
  shows "sched_inv {t} (rt_schedule_remove_thread t s) \<and>
    sched_ok (rt_schedule_insert_thread t (rt_schedule_remove_thread t s)) \<and>
    (\<forall>ts s'. drain (\<lambda>s. map_option fst (scheduler_get_highest_priority_thread s))
        rt_schedule_remove_thread (card (ready_threads s)) s = (ts, s') \<longrightarrow>
      distinct ts \<and> set ts = ready_threads s \<and> ks_group s' = 0 \<and>
      sorted (map (\<lambda>t. th_current_priority (ks_thread s t)) ts))"
proof (intro conjI allI impI)
  have r: "sched_inv {t} (rt_schedule_remove_thread t s)"
    using remove_inv [OF assms(1) sched_invD(9) [OF assms]] .
  show "sched_inv {t} (rt_schedule_remove_thread t s)" by (rule r)
  show "sched_ok (rt_schedule_insert_thread t (rt_schedule_remove_thread t s))"
    using insert_inv [OF r unlinked_remove(1)] assms(2) by simp
next
  fix ts s'
  assume d: "drain (\<lambda>s. map_option fst (scheduler_get_highest_priority_thread s))
        rt_schedule_remove_thread (card (ready_threads s)) s = (ts, s')"
  have u: "sched_inv UNIV s" by (rule sched_inv_mono [OF assms(1)]) simp
  note sp = ready_table.drain_spec [OF u d] and al = ready_table.drain_all [OF u _ d]
  show "distinct ts" "set ts = ready_threads s"
    "sorted (map (\<lambda>t. th_current_priority (ks_thread s t)) ts)" using sp al by auto
  have "ready_threads s' = {}" using al by simp
  moreover have "sched_inv UNIV s'" using sp by blast
  ultimately show "ks_group s' = 0" using group_zero by (simp add: ready_threads_empty)
qed

theorem ready_table_stays_exact_witness:
  "sched_ok (rt_schedule_insert_thread 2 (rt_schedule_remove_thread 2 sample_kernel))"
  using ready_table_stays_exact [OF sample_kernel_ok, of 2]
  by (simp add: started_def sample_kernel_def sample_thread_def th_state_def)

text \<open>
  Scheduler locking nests: while the signed 16-bit counter is not negative, an enter/exit pair
  inside a critical section does nothing, and the outermost exit is exactly one rt_schedule with
  the lock open. The counter holds 32767 levels, not the RT_UINT16_MAX of the comment: two entries
  beyond that, a single exit opens the lock with all the other sections still active.
\<close>
lemma critical_section_nesting:
  assumes "0 \<le>s ks_lock_nest s" "ks_current s = Some c"
  shows "rt_exit_critical (rt_enter_critical s) =
      (if ks_lock_nest s = 0 then rt_schedule s else Some s) \<and>
    (ks_lock_nest s = 0x7fff \<longrightarrow>
       rt_exit_critical (rt_enter_critical (rt_enter_critical s)) = rt_schedule (s\<lparr>ks_lock_nest := 0\<rparr>))"
proof -
  have "ks_lock_nest s \<le>s 0 \<longleftrightarrow> ks_lock_nest s = 0"
    using assms(1) by (metis signed.order.antisym signed.order.refl)
  moreover have "rt_schedule (s\<lparr>ks_lock_nest := 0\<rparr>) = rt_schedule s" if "ks_lock_nest s = 0"
    by (rule arg_cong [of _ _ rt_schedule], rule kstate.equality) (use that in simp_all)
  moreover have "(0x8000 :: 16 word) \<le>s 0" by (simp add: word_sle_eq)
  ultimately show ?thesis
    using assms by (simp add: rt_exit_critical_def rt_enter_critical_def Let_def)
qed

lemma critical_section_nesting_witness:
  "rt_exit_critical (rt_enter_critical (sample_kernel\<lparr>ks_lock_nest := 3\<rparr>)) =
     Some (sample_kernel\<lparr>ks_lock_nest := 3\<rparr>)"
proof -
  have "0 \<le>s ks_lock_nest (sample_kernel\<lparr>ks_lock_nest := 3\<rparr>)" by (simp add: word_sle_eq)
  moreover have "ks_current (sample_kernel\<lparr>ks_lock_nest := 3\<rparr>) = Some 1" by (simp add: sample_kernel_def)
  ultimately show ?thesis using critical_section_nesting [of "sample_kernel\<lparr>ks_lock_nest := 3\<rparr>"] by simp
qed

end
