(* ===== verification/Thread.thy ===== *)
theory Thread
  imports Scheduler
begin

text \<open>
  Thread management, \<open>src/thread.c\<close>: initialisation, startup, suspend and resume, sleeping,
  yielding, priority change, exit, and the timeout function of the thread timer. Calls that block
  are split at their \<open>rt_schedule\<close>: the first part ends in \<open>Blocked\<close>, the \<open>_resume\<close> part is what the
  thread executes when it is dispatched again. Stacks are not part of the model.
\<close>

section \<open>Operations\<close>

definition rt_thread_self :: "kstate \<Rightarrow> tid option" where
  "rt_thread_self s = ks_current s"

text \<open>\<open>RT_DEBUG_SCHEDULER_AVAILABLE\<close> and \<open>RT_DEBUG_IN_THREAD_CONTEXT\<close> (\<open>include/rtdebug.h\<close>).\<close>

definition in_thread_context :: "kstate \<Rightarrow> unit option" where
  "in_thread_context s = do { rt_assert (rt_thread_self s \<noteq> None); rt_assert (ks_irq_nest s = 0) }"

definition scheduler_available :: "kstate \<Rightarrow> unit option" where
  "scheduler_available s = do { rt_assert (rt_critical_level s = 0); in_thread_context s }"

text \<open>
  \<open>_thread_init\<close> after \<open>rt_object_init\<close>. The node is initialised to point at itself: a control
  block that is not yet an object is on no list.
\<close>

definition thread_init_block :: "tid \<Rightarrow> nat \<Rightarrow> u32 \<Rightarrow> kstate \<Rightarrow> kstate option" where
  "thread_init_block t priority tick s = do {
     rt_assert (priority < RT_THREAD_PRIORITY_MAX);
     let s = upd_thread t (\<lambda>th. th\<lparr>th_init_priority := priority, th_current_priority := priority,
       th_number_mask := 0, th_pending_object := None, th_event_set := 0, th_event_info := 0,
       th_init_tick := tick, th_remaining_tick := tick, th_error := RT_EOK,
       th_stat := RT_THREAD_INIT\<rparr>) s;
     let s = upd_ipc (\<lambda>i. i\<lparr>ipc_taken := (ipc_taken i)(t := [])\<rparr>) s;
     c \<leftarrow> rt_timer_init (Thread_Timer t) Thread_timeout_fn t 0 0 (ks_clk s);
     Some (upd_clk c s)
   }"

definition rt_thread_init :: "tid \<Rightarrow> nat \<Rightarrow> u32 \<Rightarrow> kstate \<Rightarrow> (int \<times> kstate) option" where
  "rt_thread_init t priority tick s = do {
     rt_assert (th_object (ks_thread s t) = Obj_Null);
     let s = upd_thread t (\<lambda>th. th\<lparr>th_object := Obj_Static\<rparr>) s;
     s \<leftarrow> thread_init_block t priority tick s;
     Some (RT_EOK, s)
   }"

definition rt_thread_resume :: "tid \<Rightarrow> kstate \<Rightarrow> (int \<times> kstate) option" where
  "rt_thread_resume t s = do {
     rt_assert (th_object (ks_thread s t) \<noteq> Obj_Null);
     if \<not> th_suspended (ks_thread s t) then Some (- RT_ERROR, s)
     else do {
       let s = list_remove t s;
       (_, s) \<leftarrow> timer_call (rt_timer_stop (Thread_Timer t)) s;
       Some (RT_EOK, rt_schedule_insert_thread t s)
     }
   }"

definition rt_thread_startup :: "tid \<Rightarrow> kstate \<Rightarrow> (int \<times> kstate) option" where
  "rt_thread_startup t s = do {
     rt_assert (th_state (ks_thread s t) = RT_THREAD_INIT);
     rt_assert (th_object (ks_thread s t) \<noteq> Obj_Null);
     let s = upd_thread t (\<lambda>th. th\<lparr>th_number_mask := push_bit (th_current_priority th) 1\<rparr>) s;
     let s = upd_thread t (\<lambda>th. th\<lparr>th_stat := RT_THREAD_SUSPEND\<rparr>) s;
     (_, s) \<leftarrow> rt_thread_resume t s;
     s \<leftarrow> (if rt_thread_self s \<noteq> None then rt_schedule s else Some s);
     Some (RT_EOK, s)
   }"

datatype suspend_flag = RT_INTERRUPTIBLE | RT_KILLABLE | RT_UNINTERRUPTIBLE | Bad_Suspend_Flag

definition rt_thread_set_suspend_state :: "tid \<Rightarrow> suspend_flag \<Rightarrow> kstate \<Rightarrow> kstate option" where
  "rt_thread_set_suspend_state t flag s = do {
     rt_assert (flag \<noteq> Bad_Suspend_Flag);
     let stat = (case flag of
         RT_INTERRUPTIBLE \<Rightarrow> RT_THREAD_SUSPEND_INTERRUPTIBLE
       | RT_KILLABLE \<Rightarrow> RT_THREAD_SUSPEND_KILLABLE
       | _ \<Rightarrow> RT_THREAD_SUSPEND_UNINTERRUPTIBLE);
     Some (upd_thread t (set_state stat) s)
   }"

definition rt_thread_suspend_with_flag ::
  "tid \<Rightarrow> suspend_flag \<Rightarrow> kstate \<Rightarrow> (int \<times> kstate) option" where
  "rt_thread_suspend_with_flag t flag s = do {
     rt_assert (th_object (ks_thread s t) \<noteq> Obj_Null);
     rt_assert (rt_thread_self s = Some t);
     let stat = th_state (ks_thread s t);
     if stat \<noteq> RT_THREAD_READY \<and> stat \<noteq> RT_THREAD_RUNNING then Some (- RT_ERROR, s)
     else do {
       let s = rt_schedule_remove_thread t s;
       s \<leftarrow> rt_thread_set_suspend_state t flag s;
       (_, s) \<leftarrow> timer_call (rt_timer_stop (Thread_Timer t)) s;
       Some (RT_EOK, s)
     }
   }"

definition rt_thread_suspend :: "tid \<Rightarrow> kstate \<Rightarrow> (int \<times> kstate) option" where
  "rt_thread_suspend t = rt_thread_suspend_with_flag t RT_UNINTERRUPTIBLE"

text \<open>Setting a thread's timer to a period and starting it, as every timed wait does.\<close>

definition start_thread_timer :: "tid \<Rightarrow> u32 \<Rightarrow> kstate \<Rightarrow> kstate option" where
  "start_thread_timer t tick s = do {
     (_, _, c) \<leftarrow> rt_timer_control (Thread_Timer t) RT_TIMER_CTRL_SET_TIME (Arg_Tick tick) (ks_clk s);
     (_, c) \<leftarrow> rt_timer_start (Thread_Timer t) c;
     Some (upd_clk c s)
   }"

definition thread_timeout :: "tid \<Rightarrow> kstate \<Rightarrow> kstate option" where
  "thread_timeout t s = do {
     rt_assert (th_suspended (ks_thread s t));
     rt_assert (th_object (ks_thread s t) \<noteq> Obj_Null);
     let s = upd_thread t (\<lambda>th. th\<lparr>th_error := - RT_ETIMEOUT\<rparr>) s;
     let s = list_remove t s;
     let s = rt_schedule_insert_thread t s;
     rt_schedule s
   }"

definition rt_thread_sleep :: "u32 \<Rightarrow> kstate \<Rightarrow> (outcome \<times> kstate) option" where
  "rt_thread_sleep tick s =
     (if tick = 0 then Some (Ret (- RT_EINVAL), s)
      else do {
        t \<leftarrow> rt_thread_self s;
        rt_assert (th_object (ks_thread s t) \<noteq> Obj_Null);
        scheduler_available s;
        let s = upd_thread t (\<lambda>th. th\<lparr>th_error := RT_EOK\<rparr>) s;
        (err, s) \<leftarrow> rt_thread_suspend_with_flag t RT_INTERRUPTIBLE s;
        if err = RT_EOK then do {
          s \<leftarrow> start_thread_timer t tick s;
          let s = upd_thread t (\<lambda>th. th\<lparr>th_error := - RT_EINTR\<rparr>) s;
          s \<leftarrow> rt_schedule s;
          Some (Blocked, s)
        }
        else Some (Ret err, s)
      })"

definition rt_thread_sleep_resume :: "tid \<Rightarrow> kstate \<Rightarrow> int \<times> kstate" where
  "rt_thread_sleep_resume t s =
     (RT_EOK, if th_error (ks_thread s t) = - RT_ETIMEOUT
              then upd_thread t (\<lambda>th. th\<lparr>th_error := RT_EOK\<rparr>) s else s)"

definition rt_thread_delay :: "u32 \<Rightarrow> kstate \<Rightarrow> (outcome \<times> kstate) option" where
  "rt_thread_delay = rt_thread_sleep"

definition rt_thread_mdelay :: "int \<Rightarrow> kstate \<Rightarrow> (outcome \<times> kstate) option" where
  "rt_thread_mdelay ms = rt_thread_sleep (rt_tick_from_millisecond ms)"

text \<open>\<open>rt_thread_delay_until\<close>: the result also holds the new \<open>*tick\<close>.\<close>

definition rt_thread_delay_until :: "u32 \<Rightarrow> u32 \<Rightarrow> kstate \<Rightarrow> (outcome \<times> u32 \<times> kstate) option" where
  "rt_thread_delay_until tick inc_tick s = do {
     t \<leftarrow> rt_thread_self s;
     rt_assert (th_object (ks_thread s t) \<noteq> Obj_Null);
     let s = upd_thread t (\<lambda>th. th\<lparr>th_error := RT_EOK\<rparr>) s;
     let cur_tick = rt_tick_get (ks_clk s);
     if cur_tick - tick < inc_tick then do {
       let tick' = tick + inc_tick;
       let left_tick = tick' - cur_tick;
       (_, s) \<leftarrow> rt_thread_suspend_with_flag t RT_UNINTERRUPTIBLE s;
       s \<leftarrow> start_thread_timer t left_tick s;
       s \<leftarrow> rt_schedule s;
       Some (Blocked, tick', s)
     }
     else Some (Ret (th_error (ks_thread s t)), cur_tick, s)
   }"

definition rt_thread_delay_until_resume :: "tid \<Rightarrow> kstate \<Rightarrow> int \<times> kstate" where
  "rt_thread_delay_until_resume t s =
     (let s = (if th_error (ks_thread s t) = - RT_ETIMEOUT
               then upd_thread t (\<lambda>th. th\<lparr>th_error := RT_EOK\<rparr>) s else s)
      in (th_error (ks_thread s t), s))"

definition rt_thread_yield :: "kstate \<Rightarrow> (int \<times> kstate) option" where
  "rt_thread_yield s = do {
     t \<leftarrow> rt_thread_self s;
     let s = upd_thread t (\<lambda>th. th\<lparr>th_remaining_tick := th_init_tick th\<rparr>) s;
     let s = upd_thread t set_yield s;
     s \<leftarrow> rt_schedule s;
     Some (RT_EOK, s)
   }"

text \<open>
  \<open>RT_THREAD_CTRL_CHANGE_PRIORITY\<close> of \<open>rt_thread_control\<close>. The new priority is not checked; shifting
  by 32 or more is undefined in C and is \<open>None\<close> here.
\<close>

definition change_priority :: "tid \<Rightarrow> nat \<Rightarrow> kstate \<Rightarrow> kstate option" where
  "change_priority t priority s = do {
     rt_assert (th_object (ks_thread s t) \<noteq> Obj_Null);
     rt_assert (priority < 32);
     let f = (\<lambda>th. th\<lparr>th_current_priority := priority, th_number_mask := push_bit priority 1\<rparr>);
     Some (if th_state (ks_thread s t) = RT_THREAD_READY
           then rt_schedule_insert_thread t (upd_thread t f (rt_schedule_remove_thread t s))
           else upd_thread t f s)
   }"

definition rt_thread_defunct_enqueue :: "tid \<Rightarrow> kstate \<Rightarrow> kstate" where
  "rt_thread_defunct_enqueue t s = list_set Defunct (t # ks_list s Defunct) s"

definition rt_thread_defunct_dequeue :: "kstate \<Rightarrow> tid option \<times> kstate" where
  "rt_thread_defunct_dequeue s =
     (case ks_list s Defunct of [] \<Rightarrow> (None, s) | t # _ \<Rightarrow> (Some t, list_remove t s))"

definition thread_exit :: "kstate \<Rightarrow> kstate option" where
  "thread_exit s = do {
     t \<leftarrow> rt_thread_self s;
     let s = rt_schedule_remove_thread t s;
     (_, s) \<leftarrow> timer_call (rt_timer_detach (Thread_Timer t)) s;
     let s = upd_thread t (\<lambda>th. th\<lparr>th_stat := RT_THREAD_CLOSE\<rparr>) s;
     let s = rt_thread_defunct_enqueue t s;
     rt_schedule s
   }"

section \<open>The invariant of threads and their timers\<close>

text \<open>
  The timer of a thread that is not closed is the one \<open>_thread_init\<close> made; it is active only while
  its thread is suspended, so that the assertion of \<open>_thread_timeout\<close> cannot fail.
\<close>

definition thread_timer_ok :: "kstate \<Rightarrow> tid \<Rightarrow> bool" where
  "thread_timer_ok s t \<longleftrightarrow>
     (let th = ks_thread s t; tm = ck_timer (ks_clk s) (Thread_Timer t) in
      (th_object th \<noteq> Obj_Null \<and> th_state th \<noteq> RT_THREAD_CLOSE \<longrightarrow>
         tm_object tm = Obj_Static \<and> tm_timeout_func tm = Thread_timeout_fn \<and>
         tm_parameter tm = t \<and> \<not> tm_periodic tm) \<and>
      (tm_activated tm \<longrightarrow> th_object th \<noteq> Obj_Null \<and> th_suspended th))"

text \<open>
  The part of \<open>timers_ok\<close> that does not depend on the clock; a periodic timer whose callback is
  running is active but on the local list of \<open>rt_timer_check\<close>.
\<close>

definition timers_linked :: "clk \<Rightarrow> bool" where
  "timers_linked c \<longleftrightarrow> distinct (ck_list c) \<and> set (ck_list c) \<inter> set (ck_fired c) = {} \<and>
     (\<forall>t \<in> set (ck_list c). tm_activated (ck_timer c t) \<and> tm_object (ck_timer c t) \<noteq> Obj_Null) \<and>
     (\<forall>t. tm_activated (ck_timer c t) \<longrightarrow> t \<in> set (ck_list c) \<union> set (ck_fired c))"

definition kernel_ok :: "kstate \<Rightarrow> bool" where
  "kernel_ok s \<longleftrightarrow> sched_ok s \<and> timers_linked (ks_clk s) \<and> (\<forall>t. thread_timer_ok s t) \<and>
     ks_current s \<noteq> None"

section \<open>Timer operations under the invariant\<close>

text \<open>What an operation on timer \<open>t\<close> leaves: the other timers, the tick, and what \<open>t\<close> is.\<close>

definition timer_frame :: "tmid \<Rightarrow> clk \<Rightarrow> clk \<Rightarrow> bool" where
  "timer_frame t c c' \<longleftrightarrow> ck_tick c' = ck_tick c \<and>
     (\<forall>p. p \<noteq> t \<longrightarrow> ck_timer c' p = ck_timer c p) \<and>
     tm_object (ck_timer c' t) = tm_object (ck_timer c t) \<and>
     tm_timeout_func (ck_timer c' t) = tm_timeout_func (ck_timer c t) \<and>
     tm_parameter (ck_timer c' t) = tm_parameter (ck_timer c t) \<and>
     tm_periodic (ck_timer c' t) = tm_periodic (ck_timer c t)"

lemma tm_periodic_upd [simp]:
  "tm_periodic (tm\<lparr>tm_init_tick := v\<rparr>) = tm_periodic tm"
  "tm_periodic (tm\<lparr>tm_timeout_tick := v\<rparr>) = tm_periodic tm"
  "tm_periodic (tm\<lparr>tm_object := ob\<rparr>) = tm_periodic tm"
  by (simp_all add: tm_periodic_def)

lemma timer_stop_linked:
  assumes "timers_linked c" "tm_object (ck_timer c t) \<noteq> Obj_Null"
  shows "ok (rt_timer_stop t c) (\<lambda>(e, c'). timers_linked c' \<and> timer_frame t c c' \<and>
    \<not> tm_activated (ck_timer c' t))"
proof (cases "tm_activated (ck_timer c t)")
  case False
  with assms show ?thesis by (simp add: rt_timer_stop_def timer_frame_def)
next
  case True
  have "timers_linked (upd_timer t clear_activated (timer_remove t c))"
    using assms unfolding timers_linked_def by (auto simp: distinct_removeAll)
  with True assms show ?thesis by (simp add: rt_timer_stop_def timer_frame_def)
qed

lemma timer_start_linked:
  assumes "timers_linked c" "tm_object (ck_timer c t) \<noteq> Obj_Null"
  shows "ok (rt_timer_start t c) (\<lambda>(e, c'). timers_linked c' \<and> timer_frame t c c' \<and>
    tm_activated (ck_timer c' t) \<and>
    tm_timeout_tick (ck_timer c' t) = ck_tick c + tm_init_tick (ck_timer c t))"
proof -
  obtain c' where run: "rt_timer_start t c = Some (RT_EOK, c')"
    using assms by (simp add: rt_timer_start_def Let_def)
  have tm: "ck_timer c' = (ck_timer c)(t := set_activated (clear_activated (ck_timer c t)
      \<lparr>tm_timeout_tick := ck_tick c + tm_init_tick (ck_timer c t)\<rparr>))"
    and tick: "ck_tick c' = ck_tick c" and fired: "ck_fired c' = removeAll t (ck_fired c)"
    using run by (auto simp: rt_timer_start_def Let_def rt_tick_get_def clear_activated_def)
  obtain f tt where l: "ck_list c' = timer_insert f tt t (removeAll t (ck_list c))"
    using run by (auto simp: rt_timer_start_def Let_def)
  have "set (ck_list c') = insert t (set (ck_list c))" "distinct (ck_list c')"
    using assms(1) unfolding l timers_linked_def
    by (auto simp: timer_insert_set intro!: timer_insert_distinct distinct_removeAll)
  then have "timers_linked c'"
    using assms unfolding timers_linked_def by (auto simp: tm fired)
  then show ?thesis by (simp add: run timer_frame_def tm tick)
qed

lemma timer_set_time_linked:
  assumes "timers_linked c" "tm_object (ck_timer c t) \<noteq> Obj_Null" "unat tick < HALF"
  shows "ok (rt_timer_control t RT_TIMER_CTRL_SET_TIME (Arg_Tick tick) c) (\<lambda>(e, a, c').
    timers_linked c' \<and> timer_frame t c c' \<and> tm_init_tick (ck_timer c' t) = tick \<and>
    tm_activated (ck_timer c' t) = tm_activated (ck_timer c t))"
proof -
  have "timers_linked (upd_timer t (\<lambda>tm. tm\<lparr>tm_init_tick := tick\<rparr>) c)"
    using assms(1) unfolding timers_linked_def by auto
  with assms show ?thesis
    by (simp add: rt_timer_control_def timer_frame_def word_less_nat_alt Let_def)
qed

lemma timer_detach_linked:
  assumes "timers_linked c" "tm_object (ck_timer c t) = Obj_Static"
  shows "ok (rt_timer_detach t c) (\<lambda>(e, c'). timers_linked c' \<and> \<not> tm_activated (ck_timer c' t) \<and>
    ck_tick c' = ck_tick c \<and> (\<forall>p. p \<noteq> t \<longrightarrow> ck_timer c' p = ck_timer c p))"
proof -
  have "timers_linked (upd_timer t (\<lambda>tm. tm\<lparr>tm_object := Obj_Null\<rparr>)
      (upd_timer t clear_activated (timer_remove t c)))"
    using assms(1) unfolding timers_linked_def by (auto simp: distinct_removeAll)
  with assms(2) show ?thesis by (simp add: rt_timer_detach_def Let_def)
qed

section \<open>Thread operations under the invariant\<close>

lemma kernel_okD:
  assumes "kernel_ok s"
  shows "sched_ok s" "timers_linked (ks_clk s)" "thread_timer_ok s t" "ks_current s \<noteq> None"
  using assms by (simp_all add: kernel_ok_def)

lemma thread_timer_ok_cong:
  assumes "thread_timer_ok s t" "ks_clk s' = ks_clk s"
    and "th_object (ks_thread s' t) = th_object (ks_thread s t)"
    and "th_state (ks_thread s' t) = 1 \<longleftrightarrow> th_state (ks_thread s t) = 1"
    and "th_suspended (ks_thread s' t) = th_suspended (ks_thread s t)"
  shows "thread_timer_ok s' t"
  using assms by (simp add: thread_timer_ok_def Let_def)

lemma kernel_ok_sched:
  assumes "kernel_ok s" "sched_ok s'" "sched_frame s s'" "ks_current s' \<noteq> None"
  shows "kernel_ok s'"
proof -
  note fr = sched_frameD [OF assms(3)]
  have "thread_timer_ok s' t" for t
  proof (rule thread_timer_ok_cong [OF kernel_okD(3) [OF assms(1)]])
    show "th_state (ks_thread s' t) = 1 \<longleftrightarrow> th_state (ks_thread s t) = 1"
    proof -
      have "th_state (ks_thread s' t) = th_state (ks_thread s t) \<or>
        th_state (ks_thread s t) \<in> {2, 3} \<and> th_state (ks_thread s' t) \<in> {2, 3}"
        using assms(3) by (simp add: sched_frame_def)
      then show ?thesis by auto
    qed
  qed (use fr in simp_all)
  then show ?thesis using assms kernel_okD(2) [OF assms(1)] fr(1) by (simp add: kernel_ok_def)
qed

lemma schedule_kernel_ok:
  assumes "kernel_ok s"
  shows "ok (rt_schedule s) (\<lambda>s'. kernel_ok s' \<and> sched_frame s s')"
proof -
  obtain c where c: "ks_current s = Some c" using kernel_okD(4) [OF assms] by auto
  show ?thesis
    by (rule ok_mono [OF rt_schedule_ok [OF kernel_okD(1) [OF assms] c]])
      (use kernel_ok_sched [OF assms] in auto)
qed

text \<open>If anybody can run, an unlocked \<open>rt_schedule\<close> leaves the most urgent thread running.\<close>

definition runnable :: "tid \<Rightarrow> kstate \<Rightarrow> bool" where
  "runnable t s \<longleftrightarrow> th_object (ks_thread s t) \<noteq> Obj_Null \<and> th_state (ks_thread s t) \<in> {2, 3}"

lemma schedule_runs:
  assumes k: "kernel_ok s" and r: "runnable u s" and l: "ks_lock_nest s = 0" and s': "rt_schedule s = Some s'"
  shows "runs_highest s'"
proof -
  note d = kernel_okD(1) [OF k]
  obtain c where c: "ks_current s = Some c" using kernel_okD(4) [OF k] by auto
  have "th_state (ks_thread s c) = 3 \<or> ks_group s \<noteq> 0"
  proof (cases "th_state (ks_thread s u) = 3")
    case True
    with r sched_invD(7) [OF d, of u] c show ?thesis by (auto simp: runnable_def)
  next
    case False
    with r sched_invD(6) [OF d, of u] group_zero [OF d] show ?thesis by (auto simp: runnable_def)
  qed
  with rt_schedule_ok [OF d c] l s' show ?thesis by simp
qed

text \<open>Changing fields the invariant does not read.\<close>

lemma kernel_ok_upd_same:
  assumes "kernel_ok s" "same_sched (ks_thread s t) (f (ks_thread s t))"
  shows "kernel_ok (upd_thread t f s)"
proof -
  have "thread_timer_ok (upd_thread t f s) u" for u
    by (rule thread_timer_ok_cong [OF kernel_okD(3) [OF assms(1), of u]])
      (use assms(2) in \<open>auto simp: same_sched_def th_suspended_state\<close>)
  with assms sched_inv_upd_same [of "{}" s t f] show ?thesis by (simp add: kernel_ok_def)
qed

lemma kernel_ok_upd_ipc [simp]: "kernel_ok (upd_ipc f s) = kernel_ok s"
  by (simp add: kernel_ok_def thread_timer_ok_def)

text \<open>An operation that changes one thread, its timer and the queues.\<close>

lemma kernel_ok_one:
  assumes s: "kernel_ok s" and s': "sched_ok s'" "ks_current s' \<noteq> None" "timers_linked (ks_clk s')"
    and others: "\<And>u. u \<noteq> t \<Longrightarrow> ks_thread s' u = ks_thread s u \<and>
      ck_timer (ks_clk s') (Thread_Timer u) = ck_timer (ks_clk s) (Thread_Timer u)"
    and t: "thread_timer_ok s' t"
  shows "kernel_ok s'"
proof -
  have "thread_timer_ok s' u" for u
    using kernel_okD(3) [OF s, of u] others [of u] t
    by (cases "u = t") (simp_all add: thread_timer_ok_def Let_def)
  with s' show ?thesis by (simp add: kernel_ok_def)
qed

text \<open>What resuming a suspended thread does.\<close>

definition resumed :: "tid \<Rightarrow> kstate \<Rightarrow> kstate \<Rightarrow> bool" where
  "resumed t s s' \<longleftrightarrow>
     ks_ipc s' = ks_ipc s \<and> ks_lock_nest s' = ks_lock_nest s \<and> ks_irq_nest s' = ks_irq_nest s \<and>
     ks_current s' = ks_current s \<and>
     (\<forall>h. (\<forall>p. h \<noteq> Ready p) \<longrightarrow> ks_list s' h = removeAll t (ks_list s h)) \<and>
     ks_thread s' = (ks_thread s)(t := set_state
       (if ks_current s = Some t then RT_THREAD_RUNNING else RT_THREAD_READY) (ks_thread s t)) \<and>
     timer_frame (Thread_Timer t) (ks_clk s) (ks_clk s') \<and>
     \<not> tm_activated (ck_timer (ks_clk s') (Thread_Timer t))"

lemma suspended_started:
  "th_object th \<noteq> Obj_Null \<Longrightarrow> th_suspended th \<Longrightarrow> started th \<and> th_state th \<noteq> 1 \<and> th_state th \<noteq> 2 \<and> th_state th \<noteq> 3"
  by (auto simp: started_def th_suspended_state)

lemma resume_spec:
  assumes s: "kernel_ok s" and t: "th_object (ks_thread s t) \<noteq> Obj_Null" "th_suspended (ks_thread s t)"
  shows "\<exists>s'. rt_thread_resume t s = Some (RT_EOK, s') \<and> kernel_ok s' \<and> resumed t s s'"
proof -
  note st = suspended_started [OF t]
  note d = kernel_okD [OF s]
  have tm: "tm_object (ck_timer (ks_clk s) (Thread_Timer t)) \<noteq> Obj_Null"
    using d(3) [of t] t st by (simp add: thread_timer_ok_def Let_def)
  obtain e c where c: "rt_timer_stop (Thread_Timer t) (ks_clk s) = Some (e, c)" "timers_linked c"
    "timer_frame (Thread_Timer t) (ks_clk s) c" "\<not> tm_activated (ck_timer c (Thread_Timer t))"
    using timer_stop_linked [OF d(2) tm] by (auto simp: ok_iff)
  let ?s1 = "upd_clk c (list_remove t s)"
  let ?s2 = "rt_schedule_insert_thread t ?s1"
  have "sched_ok ?s1" using list_remove_inv [OF d(1), of t] st by simp
  then have "sched_inv ({} - {t}) ?s2"
    by (rule insert_inv) (use st in \<open>simp_all add: unlinked_def\<close>)
  then have ok: "sched_ok ?s2" by simp
  have res: "resumed t s ?s2"
    using c by (simp add: resumed_def rt_schedule_insert_thread_list Let_def)
  have "kernel_ok ?s2"
  proof (rule kernel_ok_one [OF s ok])
    show "thread_timer_ok ?s2 t"
      using d(3) [of t] c(3,4) st t by (simp add: thread_timer_ok_def Let_def timer_frame_def)
  qed (use d(4) c in \<open>auto simp: timer_frame_def\<close>)
  moreover have "rt_thread_resume t s = Some (RT_EOK, ?s2)"
    using t c(1) by (simp add: rt_thread_resume_def timer_call_def)
  ultimately show ?thesis using res by blast
qed

text \<open>What suspending the current thread does.\<close>

definition suspended :: "tid \<Rightarrow> kstate \<Rightarrow> kstate \<Rightarrow> bool" where
  "suspended t s s' \<longleftrightarrow>
     ks_ipc s' = ks_ipc s \<and> ks_lock_nest s' = ks_lock_nest s \<and> ks_irq_nest s' = ks_irq_nest s \<and>
     ks_current s' = ks_current s \<and> ks_list s' = ks_list s \<and> unlinked t s' \<and>
     (\<exists>st. st AND 4 = 4 \<and> st AND 7 = st \<and> st AND 8 = 0 \<and>
        ks_thread s' = (ks_thread s)(t := set_state st (ks_thread s t))) \<and>
     timer_frame (Thread_Timer t) (ks_clk s) (ks_clk s') \<and>
     \<not> tm_activated (ck_timer (ks_clk s') (Thread_Timer t))"

lemma suspend_spec:
  assumes s: "kernel_ok s" and t: "ks_current s = Some t" "th_state (ks_thread s t) = RT_THREAD_RUNNING"
    and f: "flag \<noteq> Bad_Suspend_Flag"
  shows "\<exists>s'. rt_thread_suspend_with_flag t flag s = Some (RT_EOK, s') \<and> kernel_ok s' \<and> suspended t s s'"
proof -
  note d = kernel_okD [OF s]
  have o: "th_object (ks_thread s t) \<noteq> Obj_Null" using sched_invD(8) [OF d(1) t(1)] by simp
  have un: "unlinked t s" by (rule running_unlinked [OF d(1) t(2)])
  have st: "started (ks_thread s t)" using o t(2) by (simp add: started_def)
  have tm: "tm_object (ck_timer (ks_clk s) (Thread_Timer t)) \<noteq> Obj_Null"
    using d(3) [of t] o t by (simp add: thread_timer_ok_def Let_def)
  obtain e c where c: "rt_timer_stop (Thread_Timer t) (ks_clk s) = Some (e, c)" "timers_linked c"
    "timer_frame (Thread_Timer t) (ks_clk s) c" "\<not> tm_activated (ck_timer c (Thread_Timer t))"
    using timer_stop_linked [OF d(2) tm] by (auto simp: ok_iff)
  define v :: u8 where "v = (case flag of RT_INTERRUPTIBLE \<Rightarrow> 4 | RT_KILLABLE \<Rightarrow> 6 | _ \<Rightarrow> 7)"
  have v: "v AND 4 = 4" "v AND 7 = v" "v AND 8 = 0" unfolding v_def by (cases flag; simp)+
  have vs: "th_state (set_state v th) = v" for th by (rule th_state_set_state [OF v(2)])
  have vn: "v \<noteq> 0" "v \<noteq> 1" "v \<noteq> 2" "v \<noteq> 3" using v(1) by auto
  let ?s1 = "rt_schedule_remove_thread t s"
  let ?s2 = "upd_thread t (set_state v) ?s1"
  have "sched_inv {t} ?s1" using remove_inv [OF d(1) sched_invD(9) [OF d(1) st]] .
  then have "sched_inv {t} ?s2"
    by (rule sched_inv_upd_thread) (use sched_invD(9) [OF d(1) st] in \<open>auto simp: mask_ok_def\<close>)
  moreover have "state_ok ?s2 t" using o vn t(1) by (simp add: state_ok_def Let_def vs)
  ultimately have ok: "sched_ok (upd_clk c ?s2)" using sched_inv_discharge [of t "{}" ?s2] by simp
  have "kernel_ok (upd_clk c ?s2)"
  proof (rule kernel_ok_one [OF s ok])
    show "thread_timer_ok (upd_clk c ?s2) t"
      using d(3) [of t] c(3,4) o t by (simp add: thread_timer_ok_def Let_def timer_frame_def)
  qed (use d(4) c in \<open>auto simp: timer_frame_def\<close>)
  moreover have "suspended t s (upd_clk c ?s2)"
    unfolding suspended_def using c un v
    by (auto simp: unlinked_def removeAll_notin intro!: exI [of _ v])
  moreover have "rt_thread_suspend_with_flag t flag s = Some (RT_EOK, upd_clk c ?s2)"
    using o t f c(1)
    by (simp add: rt_thread_suspend_with_flag_def rt_thread_self_def rt_thread_set_suspend_state_def
        timer_call_def v_def)
  ultimately show ?thesis by blast
qed

text \<open>Starting the timer of a suspended thread.\<close>

lemma start_thread_timer_spec:
  assumes s: "kernel_ok s" and t: "th_object (ks_thread s t) \<noteq> Obj_Null" "th_suspended (ks_thread s t)"
    and k: "unat tick < HALF"
  shows "\<exists>c. start_thread_timer t tick s = Some (upd_clk c s) \<and> kernel_ok (upd_clk c s) \<and>
    timer_frame (Thread_Timer t) (ks_clk s) c \<and> tm_activated (ck_timer c (Thread_Timer t)) \<and>
    tm_timeout_tick (ck_timer c (Thread_Timer t)) = ck_tick (ks_clk s) + tick"
proof -
  note d = kernel_okD [OF s]
  have tm: "tm_object (ck_timer (ks_clk s) (Thread_Timer t)) \<noteq> Obj_Null"
    using d(3) [of t] t suspended_started [OF t] by (simp add: thread_timer_ok_def Let_def)
  obtain e a c1 where c1: "rt_timer_control (Thread_Timer t) RT_TIMER_CTRL_SET_TIME (Arg_Tick tick) (ks_clk s)
      = Some (e, a, c1)" "timers_linked c1" "timer_frame (Thread_Timer t) (ks_clk s) c1"
    "tm_init_tick (ck_timer c1 (Thread_Timer t)) = tick"
    using timer_set_time_linked [OF d(2) tm k] by (auto simp: ok_iff)
  have "tm_object (ck_timer c1 (Thread_Timer t)) \<noteq> Obj_Null" using tm c1(3) by (simp add: timer_frame_def)
  from timer_start_linked [OF c1(2) this] obtain e' c2 where
    c2: "rt_timer_start (Thread_Timer t) c1 = Some (e', c2)" "timers_linked c2"
    "timer_frame (Thread_Timer t) c1 c2" "tm_activated (ck_timer c2 (Thread_Timer t))"
    "tm_timeout_tick (ck_timer c2 (Thread_Timer t)) = ck_tick c1 + tick"
    using c1(4) by (auto simp: ok_iff)
  have fr: "timer_frame (Thread_Timer t) (ks_clk s) c2"
    using c1(3) c2(3) by (simp add: timer_frame_def)
  have "kernel_ok (upd_clk c2 s)"
  proof (rule kernel_ok_one [OF s])
    show "thread_timer_ok (upd_clk c2 s) t"
      using d(3) [of t] fr t by (simp add: thread_timer_ok_def Let_def timer_frame_def)
  qed (use d c2 fr in \<open>auto simp: timer_frame_def\<close>)
  moreover have "start_thread_timer t tick s = Some (upd_clk c2 s)"
    using c1(1) c2(1) by (simp add: start_thread_timer_def)
  ultimately show ?thesis using c1(3) c2 fr by (auto simp: timer_frame_def)
qed

section \<open>Timeout, startup, sleep, yield, exit\<close>

lemma sched_frame_runnable:
  assumes "sched_frame s s'" "th_state (ks_thread s t) \<in> {2, 3}"
  shows "th_state (ks_thread s' t) \<in> {2, 3}"
proof -
  have "th_state (ks_thread s' t) = th_state (ks_thread s t) \<or> th_state (ks_thread s' t) \<in> {2, 3}"
    using assms(1) by (auto simp: sched_frame_def)
  with assms(2) show ?thesis by metis
qed

lemma sched_frame_list:
  "sched_frame s s' \<Longrightarrow> \<forall>p. h \<noteq> Ready p \<Longrightarrow> ks_list s' h = ks_list s h"
  by (simp add: sched_frame_def)

lemma timeout_insert_ok:
  assumes s: "kernel_ok s" and t: "th_object (ks_thread s t) \<noteq> Obj_Null" "th_suspended (ks_thread s t)"
    and tm: "\<not> tm_activated (ck_timer (ks_clk s) (Thread_Timer t))"
  shows "kernel_ok (rt_schedule_insert_thread t (list_remove t (upd_thread t (\<lambda>th. th\<lparr>th_error := e\<rparr>) s)))"
    (is "kernel_ok ?s2")
proof -
  note st = suspended_started [OF t]
  note d = kernel_okD [OF s]
  have "sched_ok (upd_thread t (\<lambda>th. th\<lparr>th_error := e\<rparr>) s)"
    by (rule sched_inv_upd_same [OF d(1)]) simp
  from list_remove_inv [OF this, of t] st
  have "sched_ok (list_remove t (upd_thread t (\<lambda>th. th\<lparr>th_error := e\<rparr>) s))" by simp
  then have "sched_inv ({} - {t}) ?s2"
    by (rule insert_inv) (use st in \<open>simp_all add: unlinked_def started_def\<close>)
  then have ok: "sched_ok ?s2" by simp
  show ?thesis
  proof (rule kernel_ok_one [OF s ok])
    show "thread_timer_ok ?s2 t"
      using d(3) [of t] tm st t by (simp add: thread_timer_ok_def Let_def)
  qed (use d in auto)
qed

lemma thread_timeout_spec:
  assumes s: "kernel_ok s" and t: "th_object (ks_thread s t) \<noteq> Obj_Null" "th_suspended (ks_thread s t)"
    and tm: "\<not> tm_activated (ck_timer (ks_clk s) (Thread_Timer t))"
  shows "ok (thread_timeout t s) (\<lambda>s'. kernel_ok s' \<and> ks_clk s' = ks_clk s \<and> ks_ipc s' = ks_ipc s \<and>
    th_error (ks_thread s' t) = - RT_ETIMEOUT \<and> th_state (ks_thread s' t) \<in> {2, 3} \<and>
    (\<forall>h. (\<forall>p. h \<noteq> Ready p) \<longrightarrow> ks_list s' h = removeAll t (ks_list s h)) \<and>
    (\<forall>u. u \<noteq> t \<longrightarrow> th_error (ks_thread s' u) = th_error (ks_thread s u) \<and>
       (th_state (ks_thread s u) \<in> {2, 3} \<longrightarrow> th_state (ks_thread s' u) \<in> {2, 3})))"
proof -
  let ?s1 = "list_remove t (upd_thread t (\<lambda>th. th\<lparr>th_error := - RT_ETIMEOUT\<rparr>) s)"
  let ?s2 = "rt_schedule_insert_thread t ?s1"
  note k2 = timeout_insert_ok [OF s t tm]
  have "thread_timeout t s = rt_schedule ?s2" using t by (simp add: thread_timeout_def)
  moreover obtain s' where s': "rt_schedule ?s2 = Some s'" "kernel_ok s'" "sched_frame ?s2 s'"
    using schedule_kernel_ok [OF k2] by (auto simp: ok_iff)
  moreover have "th_state (ks_thread s' t) \<in> {2, 3}"
    by (rule sched_frame_runnable [OF s'(3)]) simp
  moreover have "ks_list s' h = removeAll t (ks_list s h)" if "\<forall>p. h \<noteq> Ready p" for h
    using sched_frame_list [OF s'(3) that] that by (simp add: rt_schedule_insert_thread_list Let_def)
  moreover have "th_error (ks_thread s' u) = th_error (ks_thread s u) \<and>
      (th_state (ks_thread s u) \<in> {2, 3} \<longrightarrow> th_state (ks_thread s' u) \<in> {2, 3})" if "u \<noteq> t" for u
    using sched_frameD(10) [OF s'(3), of u] sched_frame_runnable [OF s'(3), of u] that by simp
  ultimately show ?thesis using sched_frameD(1,2) [OF s'(3)] sched_frameD(10) [OF s'(3), of t] by simp
qed

lemma startup_spec:
  assumes s: "kernel_ok s" and t: "th_object (ks_thread s t) \<noteq> Obj_Null"
    "th_state (ks_thread s t) = RT_THREAD_INIT" "th_current_priority (ks_thread s t) < 32"
  shows "ok (rt_thread_startup t s) (\<lambda>(e, s'). e = RT_EOK \<and> kernel_ok s' \<and>
    started (ks_thread s' t) \<and> th_state (ks_thread s' t) \<in> {2, 3} \<and> ks_ipc s' = ks_ipc s)"
proof -
  let ?f = "\<lambda>th. th\<lparr>th_number_mask := push_bit (th_current_priority th) 1\<rparr>"
  let ?s1 = "upd_thread t (\<lambda>th. th\<lparr>th_stat := RT_THREAD_SUSPEND\<rparr>) (upd_thread t ?f s)"
  note d = kernel_okD [OF s]
  have st4: "th_state (ks_thread ?s1 t) = 4" by (simp add: th_state_def)
  have un: "unlinked t s"
  proof -
    have "\<not> fits h (ks_thread s t)" for h using t(2) by (cases h) (auto simp: th_suspended_state)
    then show ?thesis using sched_invD(3) [OF d(1)] unfolding unlinked_def by blast
  qed
  have "sched_inv {t} (upd_thread t ?f s)"
    by (rule sched_inv_upd_thread [OF sched_inv_mono [OF d(1)] un]) (use t in \<open>auto simp: started_def\<close>)
  then have "sched_inv {t} ?s1"
    by (rule sched_inv_upd_thread)
      (use un t in \<open>auto simp: unlinked_def mask_ok_def RT_THREAD_PRIORITY_MAX_def\<close>)
  moreover have "state_ok ?s1 t" using t st4 by (simp add: state_ok_def Let_def)
  ultimately have ok: "sched_ok ?s1" using sched_inv_discharge [of t "{}" ?s1] by simp
  have k1: "kernel_ok ?s1"
  proof (rule kernel_ok_one [OF s ok])
    show "thread_timer_ok ?s1 t"
      using d(3) [of t] t st4 by (auto simp: thread_timer_ok_def Let_def th_suspended_state)
  qed (use d in auto)
  have "th_object (ks_thread ?s1 t) \<noteq> Obj_Null" "th_suspended (ks_thread ?s1 t)"
    using t st4 by (simp_all add: th_suspended_state)
  from resume_spec [OF k1 this] obtain s2 where
    s2: "rt_thread_resume t ?s1 = Some (RT_EOK, s2)" "kernel_ok s2" "resumed t ?s1 s2" by blast
  have cur: "rt_thread_self s2 \<noteq> None" using kernel_okD(4) [OF s2(2)] by (simp add: rt_thread_self_def)
  from schedule_kernel_ok [OF s2(2)] obtain s3 where
    s3: "rt_schedule s2 = Some s3" "kernel_ok s3" "sched_frame s2 s3" by (auto simp: ok_iff)
  have "th_state (ks_thread s2 t) \<in> {2, 3}" "th_object (ks_thread s2 t) \<noteq> Obj_Null"
    using s2(3) t by (auto simp: resumed_def)
  then have "th_state (ks_thread s3 t) \<in> {2, 3}" "th_object (ks_thread s3 t) \<noteq> Obj_Null"
    using sched_frame_runnable [OF s3(3)] sched_frameD(9) [OF s3(3)] by auto
  moreover have "ks_ipc s3 = ks_ipc s" using s2(3) sched_frameD(2) [OF s3(3)] by (simp add: resumed_def)
  moreover have "rt_thread_startup t s = Some (RT_EOK, s3)"
    using t s2(1) cur s3(1) by (simp add: rt_thread_startup_def)
  ultimately show ?thesis using s3(2) by (auto simp: started_def)
qed

text \<open>What it takes to block: a running thread, the scheduler open, not in an interrupt.\<close>

definition may_block :: "tid \<Rightarrow> kstate \<Rightarrow> bool" where
  "may_block t s \<longleftrightarrow> ks_current s = Some t \<and> th_state (ks_thread s t) = RT_THREAD_RUNNING \<and>
     ks_lock_nest s = 0 \<and> ks_irq_nest s = 0"

lemma may_block_available: "may_block t s \<Longrightarrow> scheduler_available s = Some ()"
  by (simp add: may_block_def scheduler_available_def in_thread_context_def rt_thread_self_def
      rt_critical_level_def)

lemma sleep_spec:
  assumes s: "kernel_ok s" and t: "may_block t s" and k: "0 < tick" "unat tick < HALF"
  shows "ok (rt_thread_sleep tick s) (\<lambda>(r, s'). r = Blocked \<and> kernel_ok s' \<and>
    th_suspended (ks_thread s' t) \<and> th_object (ks_thread s' t) \<noteq> Obj_Null \<and>
    tm_activated (ck_timer (ks_clk s') (Thread_Timer t)) \<and>
    tm_timeout_tick (ck_timer (ks_clk s') (Thread_Timer t)) = ck_tick (ks_clk s) + tick \<and>
    (\<forall>h. (\<forall>p. h \<noteq> Ready p) \<longrightarrow> t \<notin> set (ks_list s' h)) \<and>
    ks_ipc s' = ks_ipc s \<and> th_error (ks_thread s' t) = - RT_EINTR \<and>
    ((\<exists>u. u \<noteq> t \<and> runnable u s) \<longrightarrow> runs_highest s'))"
proof -
  note d = kernel_okD [OF s]
  have c: "ks_current s = Some t" "th_state (ks_thread s t) = 3" using t by (simp_all add: may_block_def)
  have o: "th_object (ks_thread s t) \<noteq> Obj_Null" using sched_invD(8) [OF d(1) c(1)] by simp
  let ?s1 = "upd_thread t (\<lambda>th. th\<lparr>th_error := RT_EOK\<rparr>) s"
  have k1: "kernel_ok ?s1" by (rule kernel_ok_upd_same [OF s]) simp
  from suspend_spec [OF k1, of t RT_INTERRUPTIBLE] c obtain s2 where
    s2: "rt_thread_suspend_with_flag t RT_INTERRUPTIBLE ?s1 = Some (RT_EOK, s2)" "kernel_ok s2"
    "suspended t ?s1 s2" by auto
  have t2: "th_object (ks_thread s2 t) \<noteq> Obj_Null" "th_suspended (ks_thread s2 t)"
    and tick2: "ck_tick (ks_clk s2) = ck_tick (ks_clk s)" and un: "unlinked t s2"
    and ipc2: "ks_ipc s2 = ks_ipc s"
    using s2(3) o by (auto simp: suspended_def th_suspended_state th_state_set_state timer_frame_def)
  from start_thread_timer_spec [OF s2(2) t2 k(2)] obtain c3 where
    c3: "start_thread_timer t tick s2 = Some (upd_clk c3 s2)" "kernel_ok (upd_clk c3 s2)"
    "tm_activated (ck_timer c3 (Thread_Timer t))"
    "tm_timeout_tick (ck_timer c3 (Thread_Timer t)) = ck_tick (ks_clk s2) + tick" by blast
  let ?s4 = "upd_thread t (\<lambda>th. th\<lparr>th_error := - RT_EINTR\<rparr>) (upd_clk c3 s2)"
  have k4: "kernel_ok ?s4" by (rule kernel_ok_upd_same [OF c3(2)]) simp
  from schedule_kernel_ok [OF k4] obtain s5 where
    s5: "rt_schedule ?s4 = Some s5" "kernel_ok s5" "sched_frame ?s4 s5" by (auto simp: ok_iff)
  note fr = sched_frameD [OF s5(3)]
  have "th_suspended (ks_thread s5 t)" using fr(8) t2 by (simp add: th_suspended_state)
  moreover have "t \<notin> set (ks_list s5 h)" if "\<forall>p. h \<noteq> Ready p" for h
    using s5(3) that un by (simp add: sched_frame_def unlinked_def)
  moreover have "rt_thread_sleep tick s = Some (Blocked, s5)"
    using k(1) c o s2(1) c3(1) s5(1) may_block_available [OF t]
    by (simp add: rt_thread_sleep_def rt_thread_self_def)
  moreover have "runs_highest s5" if u: "u \<noteq> t" "runnable u s" for u
  proof (rule schedule_runs [OF k4 _ _ s5(1)])
    show "runnable u ?s4" using u s2(3) by (auto simp: runnable_def suspended_def)
    show "ks_lock_nest ?s4 = 0" using t s2(3) by (simp add: suspended_def may_block_def)
  qed
  ultimately show ?thesis using s5(2) fr(1,2) fr(9,10) [of t] c3 tick2 ipc2 t2 by auto
qed

lemma rt_timer_control_set_time_None:
  "HALF \<le> unat tick \<Longrightarrow> rt_timer_control t RT_TIMER_CTRL_SET_TIME (Arg_Tick tick) c = None"
  by (auto simp: rt_timer_control_def rt_assert_def word_less_nat_alt Let_def)

lemma yield_spec:
  assumes s: "kernel_ok s"
  shows "ok (rt_thread_yield s) (\<lambda>(e, s'). e = RT_EOK \<and> kernel_ok s' \<and> ks_clk s' = ks_clk s \<and>
    ks_ipc s' = ks_ipc s \<and> (ks_lock_nest s = 0 \<longrightarrow> (\<exists>u. runnable u s) \<longrightarrow> runs_highest s'))"
proof -
  obtain t where t: "ks_current s = Some t" using kernel_okD(4) [OF s] by auto
  let ?s1 = "upd_thread t set_yield (upd_thread t (\<lambda>th. th\<lparr>th_remaining_tick := th_init_tick th\<rparr>) s)"
  have "kernel_ok (upd_thread t (\<lambda>th. th\<lparr>th_remaining_tick := th_init_tick th\<rparr>) s)"
    by (rule kernel_ok_upd_same [OF s]) simp
  then have k1: "kernel_ok ?s1" by (rule kernel_ok_upd_same) simp
  obtain s2 where s2: "rt_schedule ?s1 = Some s2" "kernel_ok s2" "sched_frame ?s1 s2"
    using schedule_kernel_ok [OF k1] by (auto simp: ok_iff)
  moreover have "runs_highest s2" if u: "runnable u s" and l: "ks_lock_nest s = 0" for u
    by (rule schedule_runs [OF k1 _ _ s2(1), of u]) (use u l in \<open>auto simp: runnable_def\<close>)
  ultimately show ?thesis
    using t sched_frameD(1,2) [OF s2(3)] by (auto simp: rt_thread_yield_def rt_thread_self_def)
qed

text \<open>One yield with a thread of the same priority at the head of the ready list.\<close>

lemma yield_swaps:
  assumes s: "sched_ok s" and lock: "ks_lock_nest s = 0"
    and a: "ks_current s = Some a" "th_state (ks_thread s a) = RT_THREAD_RUNNING"
    and l: "ks_list s (Ready (th_current_priority (ks_thread s a))) = b # rest"
    and hi: "\<forall>q < th_current_priority (ks_thread s a). ks_list s (Ready q) = []"
  shows "\<exists>s'. rt_thread_yield s = Some (RT_EOK, s') \<and> sched_ok s' \<and> ks_lock_nest s' = 0 \<and>
    ks_current s' = Some b \<and> th_state (ks_thread s' b) = RT_THREAD_RUNNING \<and>
    th_current_priority (ks_thread s' b) = th_current_priority (ks_thread s a) \<and>
    ks_list s' (Ready (th_current_priority (ks_thread s a))) = a # rest \<and>
    (\<forall>q < th_current_priority (ks_thread s a). ks_list s' (Ready q) = [])"
proof -
  let ?p = "th_current_priority (ks_thread s a)"
  let ?s1 = "upd_thread a set_yield (upd_thread a (\<lambda>th. th\<lparr>th_remaining_tick := th_init_tick th\<rparr>) s)"
  have "sched_ok (upd_thread a (\<lambda>th. th\<lparr>th_remaining_tick := th_init_tick th\<rparr>) s)"
    by (rule sched_inv_upd_same [OF s]) simp
  then have ok1: "sched_ok ?s1" by (rule sched_inv_upd_same) simp
  have g: "ks_group ?s1 \<noteq> 0" using group_zero [OF s] l by auto
  obtain t ts p where hp: "scheduler_get_highest_priority_thread ?s1 = Some (t, p)"
    "ks_list ?s1 (Ready p) = t # ts" "\<forall>q. \<forall>u \<in> set (ks_list ?s1 (Ready q)). p \<le> q"
    using highest_spec [OF ok1 g] by blast
  have b: "b \<in> set (ks_list ?s1 (Ready ?p))" using l by simp
  with hp(3) have "p \<le> ?p" by blast
  moreover have "\<not> p < ?p" using hi hp(2) by auto
  ultimately have p: "p = ?p" by simp
  with hp(2) l have tb: "t = b" by simp
  note rb = ready_list_fits [OF ok1 b]
  have ab: "a \<noteq> b" using rb a(2) by auto
  have "b \<notin> set rest" using sched_invD(1) [OF s, of "Ready ?p"] l by simp
  have run: "rt_schedule ?s1 = Some (dispatch b (rt_schedule_insert_thread a
      (switch_to b ?p (upd_thread a clear_yield ?s1))))"
    using rt_schedule_cases [of ?s1 b ?p a] lock g hp(1) a ab by (simp add: tb p)
  define s2 where "s2 = dispatch b (rt_schedule_insert_thread a (switch_to b ?p (upd_thread a clear_yield ?s1)))"
  have post: "sched_ok s2" "sched_frame ?s1 s2" "ks_current s2 = Some b"
    "ks_list s2 = (\<lambda>h. removeAll b (((ks_list ?s1)(Ready ?p := a # ks_list ?s1 (Ready ?p))) h))"
    using preempt_spec [OF ok1 _ _ b, of a] hp(3) a p by (simp_all add: s2_def)
  have "ks_list s2 (Ready ?p) = a # rest" using post(4) l ab \<open>b \<notin> set rest\<close> by (simp add: removeAll_notin)
  moreover have "\<forall>q < ?p. ks_list s2 (Ready q) = []" using post(4) hi by simp
  moreover have "th_state (ks_thread s2 b) = 3" by (simp add: s2_def)
  moreover have "th_current_priority (ks_thread s2 b) = ?p" using sched_frameD(11) [OF post(2)] ab rb by simp
  moreover have "rt_thread_yield s = Some (RT_EOK, s2)"
    using a run by (simp add: rt_thread_yield_def rt_thread_self_def s2_def)
  moreover have "ks_lock_nest s2 = 0" using sched_frameD(3) [OF post(2)] lock by simp
  ultimately show ?thesis using post(1,3) by blast
qed

fun yield_run :: "nat \<Rightarrow> kstate \<Rightarrow> kstate option" where
  "yield_run 0 s = Some s"
| "yield_run (Suc n) s = Option.bind (rt_thread_yield s) (\<lambda>(_, s'). yield_run n s')"

lemma yield_run_swaps:
  assumes "sched_ok s" "ks_lock_nest s = 0" "ks_current s = Some a"
    "th_state (ks_thread s a) = RT_THREAD_RUNNING" "th_current_priority (ks_thread s a) = p"
    "ks_list s (Ready p) = b # rest" "\<forall>q < p. ks_list s (Ready q) = []"
  shows "\<exists>s'. yield_run n s = Some s' \<and> ks_current s' = Some (if even n then a else b) \<and>
    ks_list s' (Ready p) = (if even n then b else a) # rest"
  using assms
proof (induction n arbitrary: s a b)
  case 0
  then show ?case by simp
next
  case (Suc n)
  from yield_swaps [OF Suc.prems(1-4), of b rest] Suc.prems(5-7) obtain s1 where
    s1: "rt_thread_yield s = Some (RT_EOK, s1)" "sched_ok s1" "ks_lock_nest s1 = 0"
    "ks_current s1 = Some b" "th_state (ks_thread s1 b) = 3" "th_current_priority (ks_thread s1 b) = p"
    "ks_list s1 (Ready p) = a # rest" "\<forall>q < p. ks_list s1 (Ready q) = []" by auto
  from Suc.IH [OF s1(2-8)] s1(1) show ?case by auto
qed

section \<open>The sample system\<close>

lemma sample_thread_timers: "thread_timer_ok sample_kernel t"
  by (simp add: thread_timer_ok_def sample_kernel_def sample_clk_def sample_timer_def
      tm_activated_def tm_periodic_def RT_TIMER_FLAG_ACTIVATED_def RT_TIMER_FLAG_PERIODIC_def Let_def)

lemma sample_kernel_kernel_ok: "kernel_ok sample_kernel"
proof -
  have "timers_linked (ks_clk sample_kernel)"
    by (simp add: timers_linked_def sample_kernel_def sample_clk_def sample_timer_def
        tm_activated_def RT_TIMER_FLAG_ACTIVATED_def split: tmid.splits)
  with sample_kernel_ok sample_thread_timers show ?thesis
    by (simp add: kernel_ok_def sample_kernel_def)
qed

lemma sample_may_block: "may_block 1 sample_kernel"
  by (simp add: may_block_def sample_kernel_def sample_thread_def th_state_def)

section \<open>Properties\<close>

text \<open>
  When the timer of a thread expires, _thread_timeout cannot fail its assertion that the thread
  is suspended (an active thread timer belongs to a suspended thread), and it makes the thread
  runnable with error -RT_ETIMEOUT, takes it off whatever suspend list it was on, and
  reschedules, keeping every invariant of queues and timers.
\<close>
lemma thread_timeout_wakes_suspended_thread:
  assumes "kernel_ok s" "tm_activated (ck_timer (ks_clk s) (Thread_Timer t))"
  shows "\<exists>c s'. rt_timer_stop (Thread_Timer t) (ks_clk s) = Some (RT_EOK, c) \<and>
    thread_timeout t (upd_clk c s) = Some s' \<and> kernel_ok s' \<and>
    th_error (ks_thread s' t) = - RT_ETIMEOUT \<and> th_state (ks_thread s' t) \<in> {2, 3} \<and>
    (\<forall>ob. ks_list s' (Suspend ob) = removeAll t (ks_list s (Suspend ob)))"
proof -
  note d = kernel_okD [OF assms(1)]
  have t: "th_object (ks_thread s t) \<noteq> Obj_Null" "th_suspended (ks_thread s t)"
    using d(3) [of t] assms(2) by (simp_all add: thread_timer_ok_def Let_def)
  have tm: "tm_object (ck_timer (ks_clk s) (Thread_Timer t)) \<noteq> Obj_Null"
    using d(3) [of t] t suspended_started [OF t] by (simp add: thread_timer_ok_def Let_def)
  obtain c where c: "rt_timer_stop (Thread_Timer t) (ks_clk s) = Some (RT_EOK, c)"
    using assms(2) tm by (simp add: rt_timer_stop_def)
  with timer_stop_linked [OF d(2) tm] have
    c': "timers_linked c" "timer_frame (Thread_Timer t) (ks_clk s) c"
    "\<not> tm_activated (ck_timer c (Thread_Timer t))" by auto
  have "kernel_ok (upd_clk c s)"
  proof (rule kernel_ok_one [OF assms(1), of _ t])
    show "thread_timer_ok (upd_clk c s) t"
      using d(3) [of t] c'(2,3) t by (simp add: thread_timer_ok_def Let_def timer_frame_def)
  qed (use d c' in \<open>auto simp: timer_frame_def\<close>)
  from thread_timeout_spec [OF this, of t] t c'(3) c show ?thesis by (auto simp: ok_iff)
qed

lemma thread_timeout_wakes_suspended_thread_witness:
  "\<exists>s1 c s2. rt_thread_sleep 7 sample_kernel = Some (Blocked, s1) \<and>
     thread_timeout 1 (upd_clk c s1) = Some s2 \<and> th_state (ks_thread s2 1) \<in> {2, 3}"
proof -
  obtain s1 where s1: "rt_thread_sleep 7 sample_kernel = Some (Blocked, s1)" "kernel_ok s1"
    "tm_activated (ck_timer (ks_clk s1) (Thread_Timer 1))"
    using sleep_spec [OF sample_kernel_kernel_ok sample_may_block, of 7] by (auto simp: ok_iff)
  from thread_timeout_wakes_suspended_thread [OF s1(2,3)] s1(1) show ?thesis by blast
qed

text \<open>
  rt_thread_sleep by the running thread, with the scheduler open and outside interrupts, for a
  period the timer accepts: the call suspends the thread, arms its timer at now + tick and
  hands over; the thread is then on no queue at all, so only its timer can wake it; and once
  _thread_timeout has run, the rest of the call returns RT_EOK with the thread's error cleared.
\<close>
lemma sleep_until_timeout:
  assumes "kernel_ok s" "may_block t s" "0 < tick" "unat tick < HALF"
  shows "\<exists>s1 c s2. rt_thread_sleep tick s = Some (Blocked, s1) \<and> kernel_ok s1 \<and>
    th_suspended (ks_thread s1 t) \<and> (\<forall>ob. t \<notin> set (ks_list s1 (Suspend ob))) \<and>
    tm_timeout_tick (ck_timer (ks_clk s1) (Thread_Timer t)) = ck_tick (ks_clk s) + tick \<and>
    rt_timer_stop (Thread_Timer t) (ks_clk s1) = Some (RT_EOK, c) \<and>
    thread_timeout t (upd_clk c s1) = Some s2 \<and> kernel_ok s2 \<and>
    fst (rt_thread_sleep_resume t s2) = RT_EOK \<and>
    th_error (ks_thread (snd (rt_thread_sleep_resume t s2)) t) = RT_EOK"
proof -
  from sleep_spec [OF assms] obtain s1 where
    s1: "rt_thread_sleep tick s = Some (Blocked, s1)" "kernel_ok s1" "th_suspended (ks_thread s1 t)"
    "tm_activated (ck_timer (ks_clk s1) (Thread_Timer t))" "th_object (ks_thread s1 t) \<noteq> Obj_Null"
    "tm_timeout_tick (ck_timer (ks_clk s1) (Thread_Timer t)) = ck_tick (ks_clk s) + tick"
    "\<forall>h. (\<forall>p. h \<noteq> Ready p) \<longrightarrow> t \<notin> set (ks_list s1 h)" by (auto simp: ok_iff)
  note d = kernel_okD [OF s1(2)]
  have tm: "tm_object (ck_timer (ks_clk s1) (Thread_Timer t)) \<noteq> Obj_Null"
    using d(3) [of t] s1(3,5) suspended_started [OF s1(5,3)] by (simp add: thread_timer_ok_def Let_def)
  obtain c where c: "rt_timer_stop (Thread_Timer t) (ks_clk s1) = Some (RT_EOK, c)"
    using s1(4) tm by (simp add: rt_timer_stop_def)
  with timer_stop_linked [OF d(2) tm] have
    c': "timers_linked c" "timer_frame (Thread_Timer t) (ks_clk s1) c"
    "\<not> tm_activated (ck_timer c (Thread_Timer t))" by auto
  have "kernel_ok (upd_clk c s1)"
  proof (rule kernel_ok_one [OF s1(2), of _ t])
    show "thread_timer_ok (upd_clk c s1) t"
      using d(3) [of t] c'(2,3) s1(3,5) by (simp add: thread_timer_ok_def Let_def timer_frame_def)
  qed (use d c' in \<open>auto simp: timer_frame_def\<close>)
  from thread_timeout_spec [OF this, of t] s1(3,5) c'(3) obtain s2 where
    "thread_timeout t (upd_clk c s1) = Some s2" "kernel_ok s2" "th_error (ks_thread s2 t) = - 2"
    by (auto simp: ok_iff)
  with s1 c show ?thesis by (auto simp: rt_thread_sleep_resume_def)
qed

lemma sleep_until_timeout_witness:
  "\<exists>s1. rt_thread_sleep 7 sample_kernel = Some (Blocked, s1) \<and> kernel_ok s1 \<and>
     tm_timeout_tick (ck_timer (ks_clk s1) (Thread_Timer 1)) = 5"
proof -
  have e: "ck_tick (ks_clk sample_kernel) + 7 = 5" by (simp add: sample_kernel_def sample_clk_def)
  show ?thesis
    using sleep_until_timeout [OF sample_kernel_kernel_ok sample_may_block, of 7] unfolding e by auto
qed

text \<open>
  Round robin breaks at three: with the running thread a and the ready list b # rest of the
  same priority, any number of rt_thread_yield calls only ever alternates a and b; every thread of
  rest stays where it is and never runs, because rt_schedule clears the YIELD flag before it
  re-inserts the yielding thread, which therefore goes to the front of its list.
\<close>
lemma yield_starves_third_thread:
  assumes "sched_ok s" "ks_lock_nest s = 0" "ks_current s = Some a"
    "th_state (ks_thread s a) = RT_THREAD_RUNNING" "th_current_priority (ks_thread s a) = p"
    "ks_list s (Ready p) = b # rest" "\<forall>q < p. ks_list s (Ready q) = []"
  shows "\<exists>s'. yield_run n s = Some s' \<and> ks_current s' \<in> {Some a, Some b} \<and>
    ks_list s' (Ready p) = (if even n then b else a) # rest"
  using yield_run_swaps [OF assms, of n] by auto

lemma yield_starves_third_thread_witness:
  "\<exists>s'. yield_run 1000 sample_kernel = Some s' \<and> ks_list s' (Ready 5) = [2, 3]"
proof -
  have "ks_list sample_kernel (Ready 5) = 2 # [3]" "\<forall>q < 5. ks_list sample_kernel (Ready q) = []"
    "ks_lock_nest sample_kernel = 0" "ks_current sample_kernel = Some 1"
    "th_state (ks_thread sample_kernel 1) = RT_THREAD_RUNNING"
    "th_current_priority (ks_thread sample_kernel 1) = 5"
    by (simp_all add: sample_kernel_def sample_thread_def th_state_def)
  with yield_starves_third_thread [OF sample_kernel_ok, of 1 5 2 "[3]" 1000] show ?thesis by auto
qed

end
