(* ===== verification/Clock.thy ===== *)
theory Clock
  imports Thread
begin

text \<open>
  The system tick: \<open>rt_timer_check\<close> of \<open>src/timer.c\<close>, which runs the callbacks of expired timers, and
  \<open>rt_tick_increase\<close> of \<open>src/clock.c\<close>, the body of the tick interrupt. The timeout functions of
  application timers are a parameter \<open>cb\<close> of the model; that of a thread timer is \<open>_thread_timeout\<close>.
\<close>

type_synonym callbacks = "nat \<Rightarrow> nat \<Rightarrow> kstate \<Rightarrow> kstate option"

section \<open>Operations\<close>

definition run_timeout :: "callbacks \<Rightarrow> tmid \<Rightarrow> kstate \<Rightarrow> kstate option" where
  "run_timeout cb t s =
     (let tm = ck_timer (ks_clk s) t in
      case tm_timeout_func tm of
        Thread_timeout_fn \<Rightarrow> thread_timeout (tm_parameter tm) s
      | User_fn n \<Rightarrow> cb n (tm_parameter tm) s)"

text \<open>The removal of an expired timer before its callback, and what follows the callback.\<close>

definition take_expired :: "tmid \<Rightarrow> clk \<Rightarrow> clk" where
  "take_expired t c =
     (let c = timer_remove t c;
          c = (if \<not> tm_periodic (ck_timer c t) then upd_timer t clear_activated c else c)
      in c\<lparr>ck_fired := t # ck_fired c\<rparr>)"

definition after_callback :: "tmid \<Rightarrow> kstate \<Rightarrow> kstate option" where
  "after_callback t s =
     (if ck_fired (ks_clk s) = [] then Some s
      else let s = upd_clk (timer_remove t (ks_clk s)) s; tm = ck_timer (ks_clk s) t in
           if tm_periodic tm \<and> tm_activated tm
           then map_option snd (timer_call (rt_timer_start t) (upd_clk (upd_timer t clear_activated (ks_clk s)) s))
           else Some s)"

text \<open>
  The loop: \<open>None\<close> stands for a failed assertion of a callback and also for a loop that does not
  end (a periodic timer of period 0 fires for ever).
\<close>

partial_function (option) timer_check_loop :: "callbacks \<Rightarrow> u32 \<Rightarrow> kstate \<Rightarrow> kstate option" where
  "timer_check_loop cb current_tick s =
     (case ck_list (ks_clk s) of
        [] \<Rightarrow> Some s
      | t # _ \<Rightarrow>
          if current_tick - tm_timeout_tick (ck_timer (ks_clk s) t) < RT_TICK_MAX div 2
          then Option.bind (run_timeout cb t (upd_clk (take_expired t (ks_clk s)) s)) (\<lambda>s.
                 let current_tick = rt_tick_get (ks_clk s) in
                 Option.bind (after_callback t s) (\<lambda>s. timer_check_loop cb current_tick s))
          else Some s)"

definition rt_timer_check :: "callbacks \<Rightarrow> kstate \<Rightarrow> kstate option" where
  "rt_timer_check cb s =
     timer_check_loop cb (rt_tick_get (ks_clk s)) (upd_clk ((ks_clk s)\<lparr>ck_fired := []\<rparr>) s)"

definition rt_tick_increase :: "callbacks \<Rightarrow> kstate \<Rightarrow> kstate option" where
  "rt_tick_increase cb s = do {
     let s = upd_clk ((ks_clk s)\<lparr>ck_tick := ck_tick (ks_clk s) + 1\<rparr>) s;
     t \<leftarrow> rt_thread_self s;
     let s = upd_thread t (\<lambda>th. th\<lparr>th_remaining_tick := th_remaining_tick th - 1\<rparr>) s;
     s \<leftarrow> (if th_remaining_tick (ks_thread s t) = 0
          then rt_schedule (upd_thread t set_yield
                 (upd_thread t (\<lambda>th. th\<lparr>th_remaining_tick := th_init_tick th\<rparr>) s))
          else Some s);
     rt_timer_check cb s
   }"

section \<open>The clock during a callback\<close>

lemma take_expired_simps [simp]:
  "ck_tick (take_expired t c) = ck_tick c"
  "ck_list (take_expired t c) = removeAll t (ck_list c)"
  "ck_fired (take_expired t c) = t # removeAll t (ck_fired c)"
  "ck_timer (take_expired t c) = (ck_timer c)(t :=
     if tm_periodic (ck_timer c t) then ck_timer c t else clear_activated (ck_timer c t))"
  by (auto simp: take_expired_def Let_def)

text \<open>
  Callbacks of application timers that return, keep the kernel's invariant, and leave timers and
  thread errors alone.
\<close>

definition quiet_callbacks :: "callbacks \<Rightarrow> bool" where
  "quiet_callbacks cb \<longleftrightarrow> (\<forall>n p s. kernel_ok s \<longrightarrow> (\<exists>s'. cb n p s = Some s' \<and> kernel_ok s' \<and>
     ks_clk s' = ks_clk s \<and> (\<forall>t. th_error (ks_thread s' t) = th_error (ks_thread s t) \<and>
       (th_state (ks_thread s t) \<in> {2, 3} \<longrightarrow> th_state (ks_thread s' t) \<in> {2, 3}))))"

definition user_timers_ok :: "clk \<Rightarrow> bool" where
  "user_timers_ok c \<longleftrightarrow> (\<forall>n. \<exists>k. tm_timeout_func (ck_timer c (User_Timer n)) = User_fn k)"

definition woken :: "tid \<Rightarrow> kstate \<Rightarrow> bool" where
  "woken t s \<longleftrightarrow> th_error (ks_thread s t) = - RT_ETIMEOUT \<and> th_state (ks_thread s t) \<in> {2, 3}"

text \<open>The invariant of the loop, at base tick \<open>b\<close> of the window and current tick \<open>b + e\<close>.\<close>

definition check_inv :: "u32 \<Rightarrow> nat \<Rightarrow> kstate \<Rightarrow> bool" where
  "check_inv b e s \<longleftrightarrow> kernel_ok s \<and> timers_ok b (ks_clk s) \<and> ck_fired (ks_clk s) = [] \<and>
     user_timers_ok (ks_clk s) \<and> unat (ck_tick (ks_clk s) - b) = e \<and> e < HALF \<and>
     (\<forall>t. tm_activated (ck_timer (ks_clk s) t) \<longrightarrow> tm_periodic (ck_timer (ks_clk s) t) \<longrightarrow>
        0 < tm_init_tick (ck_timer (ks_clk s) t) \<and> e + unat (tm_init_tick (ck_timer (ks_clk s) t)) < HALF)"

definition expired :: "u32 \<Rightarrow> nat \<Rightarrow> clk \<Rightarrow> tmid set" where
  "expired b e c = {t \<in> set (ck_list c). due b c t \<le> e}"

text \<open>The same as a list, in the order of the timer list.\<close>

definition expired_list :: "u32 \<Rightarrow> nat \<Rightarrow> clk \<Rightarrow> tmid list" where
  "expired_list b e c = filter (\<lambda>p. due b c p \<le> e) (ck_list c)"

lemma set_expired_list [simp]: "set (expired_list b e c) = expired b e c"
  by (simp add: expired_list_def expired_def)

lemma filter_removeAll: "filter P (removeAll t xs) = removeAll t (filter P xs)"
  by (induction xs) auto

lemma expired_list_cong:
  assumes "\<And>p. p \<in> set (ck_list c') \<Longrightarrow> due b c' p = due b c p" "ck_list c' = removeAll t (ck_list c)"
  shows "expired_list b e c' = removeAll t (expired_list b e c)"
proof -
  have "expired_list b e c' = filter (\<lambda>p. due b c p \<le> e) (removeAll t (ck_list c))"
    unfolding expired_list_def assms(2) using assms by (intro filter_cong) simp_all
  also have "\<dots> = removeAll t (expired_list b e c)" unfolding expired_list_def by (rule filter_removeAll)
  finally show ?thesis .
qed

text \<open>One round of the loop: what it leaves of the timers and of the threads.\<close>

definition round_post :: "u32 \<Rightarrow> nat \<Rightarrow> tmid \<Rightarrow> kstate \<Rightarrow> kstate \<Rightarrow> bool" where
  "round_post b e t s s' \<longleftrightarrow> check_inv b e s' \<and> ck_tick (ks_clk s') = ck_tick (ks_clk s) \<and>
     expired b e (ks_clk s') = expired b e (ks_clk s) - {t} \<and>
     expired_list b e (ks_clk s') = removeAll t (expired_list b e (ks_clk s)) \<and>
     (\<forall>p. p \<noteq> t \<longrightarrow> ck_timer (ks_clk s') p = ck_timer (ks_clk s) p) \<and>
     tm_init_tick (ck_timer (ks_clk s') t) = tm_init_tick (ck_timer (ks_clk s) t) \<and>
     tm_periodic (ck_timer (ks_clk s') t) = tm_periodic (ck_timer (ks_clk s) t) \<and>
     tm_activated (ck_timer (ks_clk s') t) = tm_periodic (ck_timer (ks_clk s) t) \<and>
     (tm_periodic (ck_timer (ks_clk s) t) \<longrightarrow>
        tm_timeout_tick (ck_timer (ks_clk s') t) = ck_tick (ks_clk s) + tm_init_tick (ck_timer (ks_clk s) t)) \<and>
     (\<forall>u. t = Thread_Timer u \<longrightarrow> woken u s') \<and>
     (\<forall>u. woken u s \<longrightarrow> woken u s')"

section \<open>One round of the loop\<close>

lemma timers_ok_linked:
  "timers_ok b c \<Longrightarrow> set (ck_list c) \<inter> set (ck_fired c) = {} \<Longrightarrow> timers_linked c"
  unfolding timers_ok_def timers_linked_def by blast

lemma kernel_ok_clk:
  "kernel_ok s \<Longrightarrow> timers_linked c \<Longrightarrow> (\<And>u. thread_timer_ok (upd_clk c s) u) \<Longrightarrow> kernel_ok (upd_clk c s)"
  by (simp add: kernel_ok_def)

lemma thread_timer_ok_clk:
  assumes "thread_timer_ok s u"
    and "tm_object (ck_timer c (Thread_Timer u)) = tm_object (ck_timer (ks_clk s) (Thread_Timer u))"
    and "tm_timeout_func (ck_timer c (Thread_Timer u)) = tm_timeout_func (ck_timer (ks_clk s) (Thread_Timer u))"
    and "tm_parameter (ck_timer c (Thread_Timer u)) = tm_parameter (ck_timer (ks_clk s) (Thread_Timer u))"
    and "tm_periodic (ck_timer c (Thread_Timer u)) = tm_periodic (ck_timer (ks_clk s) (Thread_Timer u))"
    and "tm_activated (ck_timer c (Thread_Timer u)) \<Longrightarrow> tm_activated (ck_timer (ks_clk s) (Thread_Timer u))"
  shows "thread_timer_ok (upd_clk c s) u"
  using assms unfolding thread_timer_ok_def Let_def upd_clk_simps by presburger

lemma take_expired_ok:
  assumes "check_inv b e s" "t \<in> set (ck_list (ks_clk s))"
  shows "kernel_ok (upd_clk (take_expired t (ks_clk s)) s)"
proof -
  let ?c = "ks_clk s"
  have k: "kernel_ok s" and tm: "timers_ok b ?c" and f: "ck_fired ?c = []"
    using assms(1) by (simp_all add: check_inv_def)
  have "timers_linked (take_expired t ?c)"
    using tm f assms(2) unfolding timers_linked_def timers_ok_def
    by (auto simp: distinct_removeAll)
  moreover have "thread_timer_ok (upd_clk (take_expired t ?c) s) u" for u
    by (rule thread_timer_ok_clk [OF kernel_okD(3) [OF k, of u]]) (auto split: if_splits)
  ultimately show ?thesis by (rule kernel_ok_clk [OF k])
qed

lemma run_timeout_ok:
  assumes i: "check_inv b e s" and t: "t \<in> set (ck_list (ks_clk s))" and q: "quiet_callbacks cb"
  shows "\<exists>s1. run_timeout cb t (upd_clk (take_expired t (ks_clk s)) s) = Some s1 \<and> kernel_ok s1 \<and>
    ks_clk s1 = take_expired t (ks_clk s) \<and> (\<forall>u. t = Thread_Timer u \<longrightarrow> woken u s1) \<and>
    (\<forall>u. woken u s \<longrightarrow> woken u s1)"
proof -
  let ?s0 = "upd_clk (take_expired t (ks_clk s)) s"
  note k0 = take_expired_ok [OF i t]
  have k: "kernel_ok s" and tm: "timers_ok b (ks_clk s)" using i by (simp_all add: check_inv_def)
  have act: "tm_activated (ck_timer (ks_clk s) t)" using tm t by (simp add: timers_ok_def)
  show ?thesis
  proof (cases t)
    case (Thread_Timer u)
    have "thread_timer_ok s u" by (rule kernel_okD(3) [OF k])
    with act Thread_Timer have th: "th_object (ks_thread s u) \<noteq> Obj_Null" "th_suspended (ks_thread s u)"
      by (simp_all add: thread_timer_ok_def Let_def)
    with \<open>thread_timer_ok s u\<close> suspended_started [OF th] Thread_Timer
    have tf: "tm_timeout_func (ck_timer (ks_clk s) t) = Thread_timeout_fn"
      "tm_parameter (ck_timer (ks_clk s) t) = u" "\<not> tm_periodic (ck_timer (ks_clk s) t)"
      by (simp_all add: thread_timer_ok_def Let_def)
    have "run_timeout cb t ?s0 = thread_timeout u ?s0" using tf by (simp add: run_timeout_def Let_def)
    moreover have "ok (thread_timeout u ?s0) (\<lambda>s'. kernel_ok s' \<and> ks_clk s' = ks_clk ?s0 \<and>
      th_error (ks_thread s' u) = - 2 \<and> th_state (ks_thread s' u) \<in> {2, 3} \<and>
      (\<forall>v. v \<noteq> u \<longrightarrow> th_error (ks_thread s' v) = th_error (ks_thread ?s0 v) \<and>
        (th_state (ks_thread ?s0 v) \<in> {2, 3} \<longrightarrow> th_state (ks_thread s' v) \<in> {2, 3})))"
      by (rule ok_mono [OF thread_timeout_spec [OF k0]]) (use th tf Thread_Timer in auto)
    then obtain s' where s': "thread_timeout u ?s0 = Some s'" "kernel_ok s'" "ks_clk s' = ks_clk ?s0"
      "th_error (ks_thread s' u) = - 2" "th_state (ks_thread s' u) \<in> {2, 3}"
      "\<forall>v. v \<noteq> u \<longrightarrow> th_error (ks_thread s' v) = th_error (ks_thread ?s0 v) \<and>
        (th_state (ks_thread ?s0 v) \<in> {2, 3} \<longrightarrow> th_state (ks_thread s' v) \<in> {2, 3})"
      unfolding ok_iff by blast
    moreover have "woken v s'" if "woken v s" for v
      using that s'(4-6) by (cases "v = u") (auto simp: woken_def)
    ultimately show ?thesis using Thread_Timer by (simp add: woken_def)
  next
    case (User_Timer n)
    obtain m where "tm_timeout_func (ck_timer (ks_clk s) t) = User_fn m"
      using i User_Timer by (auto simp: check_inv_def user_timers_ok_def)
    then have "run_timeout cb t ?s0 = cb m (tm_parameter (ck_timer (ks_clk s) t)) ?s0"
      by (simp add: run_timeout_def Let_def)
    moreover obtain s' where s': "cb m (tm_parameter (ck_timer (ks_clk s) t)) ?s0 = Some s'" "kernel_ok s'"
      "ks_clk s' = ks_clk ?s0" "\<forall>v. th_error (ks_thread s' v) = th_error (ks_thread ?s0 v) \<and>
        (th_state (ks_thread ?s0 v) \<in> {2, 3} \<longrightarrow> th_state (ks_thread s' v) \<in> {2, 3})"
      using q k0 unfolding quiet_callbacks_def by blast
    ultimately show ?thesis using User_Timer by (auto simp: woken_def)
  qed
qed

lemma after_callback_ok:
  assumes i: "check_inv b e s" and t: "t \<in> set (ck_list (ks_clk s))" "due b (ks_clk s) t \<le> e"
    and s1: "kernel_ok s1" "ks_clk s1 = take_expired t (ks_clk s)"
    "\<forall>u. t = Thread_Timer u \<longrightarrow> woken u s1" "\<forall>u. woken u s \<longrightarrow> woken u s1"
  shows "\<exists>s2. after_callback t s1 = Some s2 \<and> round_post b e t s s2"
proof -
  let ?c = "ks_clk s" and ?c1 = "timer_remove t (take_expired t (ks_clk s))"
  let ?c2 = "upd_timer t clear_activated ?c1"
  have tm: "timers_ok b ?c" and f: "ck_fired ?c = []" and us: "user_timers_ok ?c"
    and e: "unat (ck_tick ?c - b) = e" "e < HALF"
    and per: "\<forall>p. tm_activated (ck_timer ?c p) \<longrightarrow> tm_periodic (ck_timer ?c p) \<longrightarrow>
        0 < tm_init_tick (ck_timer ?c p) \<and> e + unat (tm_init_tick (ck_timer ?c p)) < HALF"
    using i by (simp_all add: check_inv_def)
  have act: "tm_activated (ck_timer ?c t)" "tm_object (ck_timer ?c t) \<noteq> Obj_Null"
    using tm t by (simp_all add: timers_ok_def)
  have tmr: "ck_timer ?c2 = (ck_timer ?c)(t := clear_activated (ck_timer ?c t))"
  proof -
    have "clear_activated (clear_activated tm) = clear_activated tm" for tm
      by (simp add: clear_activated_def and.assoc)
    then show ?thesis by auto
  qed
  have fired2: "ck_fired ?c2 = []" using f by simp
  have ok2: "timers_ok b ?c2"
  proof -
    have "timers_ok b (upd_timer t clear_activated (timer_remove t ?c))" by (rule timers_ok_remove [OF tm])
    moreover have "due b ?c2 = due b (upd_timer t clear_activated (timer_remove t ?c))"
      unfolding due_def tmr by simp
    ultimately show ?thesis unfolding timers_ok_def tmr by simp
  qed
  show ?thesis
  proof (cases "tm_periodic (ck_timer ?c t)")
    case False
    let ?s2 = "upd_clk ?c1 s1"
    have c12: "ck_timer ?c1 = ck_timer ?c2" using False tmr by (auto simp: fun_eq_iff)
    have due1: "due b ?c1 p = due b ?c p" for p using False by (simp add: due_def)
    have ok1: "timers_ok b ?c1"
    proof -
      have "due b ?c1 = due b ?c2" unfolding due_def c12 ..
      with ok2 show ?thesis unfolding timers_ok_def c12 by simp
    qed
    have "kernel_ok ?s2"
      by (rule kernel_ok_clk [OF s1(1) timers_ok_linked [OF ok1]], simp add: f,
          rule thread_timer_ok_clk [OF kernel_okD(3) [OF s1(1)]]) (simp_all add: s1(2))
    then have inv: "check_inv b e ?s2"
      using ok1 f us e per False by (auto simp: check_inv_def user_timers_ok_def)
    have "after_callback t s1 = Some ?s2" using False by (simp add: after_callback_def s1(2) Let_def)
    moreover have "expired b e ?c1 = expired b e ?c - {t}"
      unfolding expired_def due1 by auto
    moreover have "expired_list b e ?c1 = removeAll t (expired_list b e ?c)"
      by (rule expired_list_cong) (use due1 in simp_all)
    ultimately show ?thesis using inv s1(3,4) False by (auto simp: round_post_def woken_def)
  next
    case True
    have nt: "\<forall>u. t \<noteq> Thread_Timer u"
    proof (intro allI notI)
      fix u assume "t = Thread_Timer u"
      moreover have "thread_timer_ok s u" using i by (simp add: check_inv_def kernel_ok_def)
      ultimately show False
        using act True suspended_started [of "ks_thread s u"] by (auto simp: thread_timer_ok_def Let_def)
    qed
    have init: "0 < tm_init_tick (ck_timer ?c t)" "e + unat (tm_init_tick (ck_timer ?c t)) < HALF"
      using per act True by auto
    have win: "unat (ck_tick ?c2 + tm_init_tick (ck_timer ?c2 t) - b) < HALF"
      using init e by (intro window_add) (simp add: tmr)
    have "tm_object (ck_timer ?c2 t) \<noteq> Obj_Null" using act by (simp add: tmr)
    from rt_timer_start_spec [OF ok2 this win] obtain c3 P where
      c3: "rt_timer_start t ?c2 = Some (RT_EOK, c3)" "timers_ok b c3" "ck_tick c3 = ck_tick ?c2"
      "ck_fired c3 = removeAll t (ck_fired ?c2)"
      "ck_list c3 = takeWhile P (removeAll t (ck_list ?c2)) @ t # dropWhile P (removeAll t (ck_list ?c2))"
      and tm3: "ck_timer c3 = (ck_timer ?c2)(t := set_activated (clear_activated (ck_timer ?c2 t)
        \<lparr>tm_timeout_tick := ck_tick ?c2 + tm_init_tick (ck_timer ?c2 t)\<rparr>))"
      unfolding Let_def by blast
    have set3: "set (ck_list c3) = set (ck_list ?c)"
    proof -
      have "set (ck_list c3) = insert t (set (removeAll t (ck_list ?c2)))"
        unfolding c3(5) by (rule set_insert_split)
      then show ?thesis using t(1) by auto
    qed
    have fired3: "ck_fired c3 = []" using c3(4) f by simp
    let ?s2 = "upd_clk c3 s1"
    have due3: "due b c3 p = (if p = t then e + unat (tm_init_tick (ck_timer ?c t)) else due b ?c p)" for p
    proof (cases "p = t")
      case True
      have "ck_tick ?c + tm_init_tick (ck_timer ?c t) - b = (ck_tick ?c - b) + tm_init_tick (ck_timer ?c t)"
        by simp
      moreover have "unat ((ck_tick ?c - b) + tm_init_tick (ck_timer ?c t)) =
          e + unat (tm_init_tick (ck_timer ?c t))"
        using init(2) e by (subst unat_add_lem [THEN iffD1]) simp_all
      ultimately have "unat (ck_tick ?c + tm_init_tick (ck_timer ?c t) - b) =
          e + unat (tm_init_tick (ck_timer ?c t))" by metis
      then show ?thesis using True by (simp add: due_def tm3 tmr)
    next
      case False
      then show ?thesis by (simp add: due_def tm3 tmr)
    qed
    have "kernel_ok ?s2"
    proof (rule kernel_ok_clk [OF s1(1) timers_ok_linked [OF c3(2)]])
      show "thread_timer_ok ?s2 u" for u
        by (rule thread_timer_ok_clk [OF kernel_okD(3) [OF s1(1)]])
          (use nt in \<open>auto simp: s1(2) tm3 tmr split: if_splits\<close>)
    qed (simp add: fired3)
    moreover have "user_timers_ok c3" using us by (auto simp: user_timers_ok_def tm3 tmr)
    moreover have "\<forall>p. tm_activated (ck_timer c3 p) \<longrightarrow> tm_periodic (ck_timer c3 p) \<longrightarrow>
        0 < tm_init_tick (ck_timer c3 p) \<and> e + unat (tm_init_tick (ck_timer c3 p)) < HALF"
      using per init by (simp add: tm3 tmr)
    ultimately have inv: "check_inv b e ?s2"
      using c3(2,3) fired3 e by (simp add: check_inv_def)
    have "tm_periodic (ck_timer ?c1 t) \<and> tm_activated (ck_timer ?c1 t)" using True act by simp
    then have "after_callback t s1 = Some ?s2"
      using c3(1) by (simp add: after_callback_def s1(2) Let_def timer_call_def del: timer_remove_simps)
    moreover have "expired b e c3 = expired b e ?c - {t}"
      using init(1) unfolding expired_def set3 due3 by (auto simp: word_less_nat_alt)
    moreover have "expired_list b e c3 = removeAll t (expired_list b e ?c)"
    proof -
      let ?ys = "removeAll t (ck_list ?c2)"
      have "\<not> due b c3 t \<le> e" using init(1) by (simp add: due3 word_less_nat_alt)
      then have "expired_list b e c3 = filter (\<lambda>p. due b c3 p \<le> e) (takeWhile P ?ys @ dropWhile P ?ys)"
        by (simp add: expired_list_def c3(5) del: takeWhile_dropWhile_id)
      also have "\<dots> = filter (\<lambda>p. due b c3 p \<le> e) (removeAll t (ck_list ?c))" by simp
      also have "\<dots> = filter (\<lambda>p. due b ?c p \<le> e) (removeAll t (ck_list ?c))"
        by (rule filter_cong) (auto simp: due3)
      finally show ?thesis by (simp only: expired_list_def filter_removeAll)
    qed
    ultimately show ?thesis using inv s1(3,4) True c3(3)
      by (auto simp: round_post_def woken_def tm3 tmr)
  qed
qed

section \<open>The whole check\<close>

text \<open>
  The run of the timeouts of \<open>ts\<close>, each once and in this order: the function a timer has in the clock \<open>c0\<close> runs with its
  parameter on the state the one before left, and nothing but the clock changes in between.
\<close>

definition timeout_call :: "callbacks \<Rightarrow> rt_timer \<Rightarrow> kstate \<Rightarrow> kstate option" where
  "timeout_call cb tm s =
     (case tm_timeout_func tm of Thread_timeout_fn \<Rightarrow> thread_timeout (tm_parameter tm) s | User_fn n \<Rightarrow> cb n (tm_parameter tm) s)"

fun fired :: "callbacks \<Rightarrow> clk \<Rightarrow> tmid list \<Rightarrow> kstate \<Rightarrow> kstate \<Rightarrow> bool" where
  "fired cb c0 [] s s' \<longleftrightarrow> s' = s"
| "fired cb c0 (t # ts) s s' \<longleftrightarrow>
     (\<exists>c s1 c'. timeout_call cb (ck_timer c0 t) (upd_clk c s) = Some s1 \<and> fired cb c0 ts (upd_clk c' s1) s')"

lemma fired_cong: "\<forall>p \<in> set ts. ck_timer c0 p = ck_timer c1 p \<Longrightarrow> fired cb c0 ts s s' = fired cb c1 ts s s'"
  by (induction ts arbitrary: s) auto

lemma run_timeout_call:
  "run_timeout cb t (upd_clk (take_expired t (ks_clk s)) s) = timeout_call cb (ck_timer (ks_clk s) t) (upd_clk (take_expired t (ks_clk s)) s)"
  by (simp add: run_timeout_def timeout_call_def Let_def split: timeout_func.split)

text \<open>A round as a step: a timer leaves the list, its callback runs, and the clock is put right after it.\<close>

definition timer_round :: "u32 \<Rightarrow> nat \<Rightarrow> callbacks \<Rightarrow> kstate \<Rightarrow> kstate \<Rightarrow> bool" where
  "timer_round b e cb s s' \<longleftrightarrow> check_inv b e s \<and> (\<exists>t ts s1 c. ck_list (ks_clk s) = t # ts \<and>
     run_timeout cb t (upd_clk (take_expired t (ks_clk s)) s) = Some s1 \<and> s' = upd_clk c s1)"

lemma after_callback_clk: "after_callback t s = Some s' \<Longrightarrow> \<exists>c. s' = upd_clk c s"
  unfolding after_callback_def Let_def
  by (auto simp: timer_call_def upd_clk_def split: if_splits)
    (metis upd_clk_def upd_clk_same)+

lemma timer_check_round:
  assumes i: "check_inv b e s" and t: "ck_list (ks_clk s) = t # ts" "due b (ks_clk s) t \<le> e"
    and q: "quiet_callbacks cb"
  shows "\<exists>s2. timer_check_loop cb (ck_tick (ks_clk s)) s = timer_check_loop cb (ck_tick (ks_clk s2)) s2 \<and>
    round_post b e t s s2 \<and> timer_round b e cb s s2 \<and>
    (\<exists>s1 c. run_timeout cb t (upd_clk (take_expired t (ks_clk s)) s) = Some s1 \<and> s2 = upd_clk c s1)"
proof -
  have tin: "t \<in> set (ck_list (ks_clk s))" using t by simp
  obtain s1 where s1: "run_timeout cb t (upd_clk (take_expired t (ks_clk s)) s) = Some s1" "kernel_ok s1"
    "ks_clk s1 = take_expired t (ks_clk s)" "\<forall>u. t = Thread_Timer u \<longrightarrow> woken u s1"
    "\<forall>u. woken u s \<longrightarrow> woken u s1"
    using run_timeout_ok [OF i tin q] by blast
  obtain s2 where s2: "after_callback t s1 = Some s2" "round_post b e t s s2"
    using after_callback_ok [OF i tin t(2) s1(2-5)] by blast
  have b: "unat (ck_tick (ks_clk s) - b) = e" "e < HALF" "due b (ks_clk s) t < HALF"
    using i tin by (auto simp: check_inv_def timers_ok_def)
  have "ck_tick (ks_clk s) - tm_timeout_tick (ck_timer (ks_clk s) t) < 0x7fffffff"
    using tick_diff_in_window(2) [of "ck_tick (ks_clk s)" b "tm_timeout_tick (ck_timer (ks_clk s) t)"]
      b t(2) by (simp add: due_def)
  then have "timer_check_loop cb (ck_tick (ks_clk s)) s = timer_check_loop cb (ck_tick (ks_clk s2)) s2"
    using t(1) s1(1,3) s2
    by (subst timer_check_loop.simps) (simp add: rt_tick_get_def round_post_def)
  moreover have "timer_round b e cb s s2"
    using i t(1) s1(1) after_callback_clk [OF s2(1)] unfolding timer_round_def by blast
  ultimately show ?thesis using s1(1) s2(2) after_callback_clk [OF s2(1)] by blast
qed

definition check_post :: "u32 \<Rightarrow> nat \<Rightarrow> kstate \<Rightarrow> kstate \<Rightarrow> bool" where
  "check_post b e s s' \<longleftrightarrow> check_inv b e s' \<and> ck_tick (ks_clk s') = ck_tick (ks_clk s) \<and>
     (\<forall>p. tm_activated (ck_timer (ks_clk s') p) \<longrightarrow> e < due b (ks_clk s') p) \<and>
     (\<forall>p. p \<notin> expired b e (ks_clk s) \<longrightarrow> ck_timer (ks_clk s') p = ck_timer (ks_clk s) p) \<and>
     (\<forall>p \<in> expired b e (ks_clk s).
        tm_init_tick (ck_timer (ks_clk s') p) = tm_init_tick (ck_timer (ks_clk s) p) \<and>
        tm_periodic (ck_timer (ks_clk s') p) = tm_periodic (ck_timer (ks_clk s) p) \<and>
        tm_activated (ck_timer (ks_clk s') p) = tm_periodic (ck_timer (ks_clk s) p) \<and>
        (tm_periodic (ck_timer (ks_clk s) p) \<longrightarrow>
           tm_timeout_tick (ck_timer (ks_clk s') p) = ck_tick (ks_clk s) + tm_init_tick (ck_timer (ks_clk s) p)) \<and>
        (\<forall>u. p = Thread_Timer u \<longrightarrow> woken u s')) \<and>
     (\<forall>u. woken u s \<longrightarrow> woken u s')"

lemma check_post_step:
  assumes r: "round_post b e t s s2" and t: "t \<in> expired b e (ks_clk s)" and c: "check_post b e s2 s'"
  shows "check_post b e s s'"
proof -
  have ex: "expired b e (ks_clk s2) = expired b e (ks_clk s) - {t}"
    and tick: "ck_tick (ks_clk s2) = ck_tick (ks_clk s)"
    and oth: "\<And>p. p \<noteq> t \<Longrightarrow> ck_timer (ks_clk s2) p = ck_timer (ks_clk s) p"
    using r by (simp_all add: round_post_def)
  have t2: "ck_timer (ks_clk s') t = ck_timer (ks_clk s2) t" using c ex by (simp add: check_post_def)
  show ?thesis
    unfolding check_post_def
  proof (intro conjI ballI allI impI)
    fix p assume p: "p \<in> expired b e (ks_clk s)"
    show "tm_init_tick (ck_timer (ks_clk s') p) = tm_init_tick (ck_timer (ks_clk s) p)"
      "tm_periodic (ck_timer (ks_clk s') p) = tm_periodic (ck_timer (ks_clk s) p)"
      "tm_activated (ck_timer (ks_clk s') p) = tm_periodic (ck_timer (ks_clk s) p)"
      "tm_periodic (ck_timer (ks_clk s) p) \<Longrightarrow>
        tm_timeout_tick (ck_timer (ks_clk s') p) = ck_tick (ks_clk s) + tm_init_tick (ck_timer (ks_clk s) p)"
      using p c r t2 ex tick oth [of p] by (cases "p = t"; simp add: check_post_def round_post_def)+
    show "woken u s'" if "p = Thread_Timer u" for u
      using p that c r ex by (cases "p = t") (simp_all add: check_post_def round_post_def)
  next
    fix p assume "p \<notin> expired b e (ks_clk s)"
    then show "ck_timer (ks_clk s') p = ck_timer (ks_clk s) p"
      using c ex t oth [of p] by (cases "p = t") (simp_all add: check_post_def)
  qed (use c r tick in \<open>simp_all add: check_post_def round_post_def\<close>)
qed

lemma timer_check_loop_ok:
  assumes "check_inv b e s" "quiet_callbacks cb" "card (expired b e (ks_clk s)) = n"
  shows "\<exists>s'. timer_check_loop cb (ck_tick (ks_clk s)) s = Some s' \<and> check_post b e s s' \<and>
    (timer_round b e cb)\<^sup>*\<^sup>* s s' \<and> fired cb (ks_clk s) (expired_list b e (ks_clk s)) s s'"
  using assms
proof (induction n arbitrary: s rule: less_induct)
  case (less n)
  have fin: "finite (expired b e (ks_clk s))" by (simp add: expired_def)
  have tm: "timers_ok b (ks_clk s)" using less.prems(1) by (simp add: check_inv_def)
  consider (fire) t ts where "ck_list (ks_clk s) = t # ts" "due b (ks_clk s) t \<le> e"
    | (stop) "ck_list (ks_clk s) = [] \<or> (\<exists>t ts. ck_list (ks_clk s) = t # ts \<and> e < due b (ks_clk s) t)"
    by (cases "ck_list (ks_clk s)") force+
  then show ?case
  proof cases
    case fire
    obtain s2 where s2: "timer_check_loop cb (ck_tick (ks_clk s)) s = timer_check_loop cb (ck_tick (ks_clk s2)) s2"
      "round_post b e t s s2" "timer_round b e cb s s2"
      "\<exists>s1 c. run_timeout cb t (upd_clk (take_expired t (ks_clk s)) s) = Some s1 \<and> s2 = upd_clk c s1"
      using timer_check_round [OF less.prems(1) fire less.prems(2)] by blast
    have ex: "t \<in> expired b e (ks_clk s)" using fire by (simp add: expired_def)
    moreover have "expired b e (ks_clk s2) = expired b e (ks_clk s) - {t}"
      using s2(2) by (simp add: round_post_def)
    ultimately have "card (expired b e (ks_clk s2)) < n"
      using less.prems(3) card_Diff1_less [OF fin] by simp
    moreover have "check_inv b e s2" using s2(2) by (simp add: round_post_def)
    ultimately obtain s' where s': "timer_check_loop cb (ck_tick (ks_clk s2)) s2 = Some s'" "check_post b e s2 s'"
      "(timer_round b e cb)\<^sup>*\<^sup>* s2 s'" "fired cb (ks_clk s2) (expired_list b e (ks_clk s2)) s2 s'"
      using less.IH less.prems(2) by blast
    have "t \<notin> set ts" using tm fire(1) by (simp add: timers_ok_def)
    then have "t \<notin> set (filter (\<lambda>p. due b (ks_clk s) p \<le> e) ts)" by simp
    moreover have "expired_list b e (ks_clk s2) = removeAll t (expired_list b e (ks_clk s))"
      using s2(2) by (simp add: round_post_def)
    ultimately have "expired_list b e (ks_clk s) = t # expired_list b e (ks_clk s2)"
      using fire by (simp add: expired_list_def)
    moreover have "fired cb (ks_clk s) (expired_list b e (ks_clk s2)) s2 s'"
    proof -
      have "\<forall>p \<in> set (expired_list b e (ks_clk s2)). ck_timer (ks_clk s) p = ck_timer (ks_clk s2) p"
        using s2(2) by (auto simp: round_post_def)
      with s'(4) show ?thesis using fired_cong by blast
    qed
    ultimately have "fired cb (ks_clk s) (expired_list b e (ks_clk s)) s s'" using s2(4) unfolding run_timeout_call by auto
    moreover have "check_post b e s s'" by (rule check_post_step [OF s2(2) ex s'(2)])
    ultimately show ?thesis using s2(1) s'(1) converse_rtranclp_into_rtranclp [OF s2(3) s'(3)] by auto
  next
    case stop
    have none: "expired b e (ks_clk s) = {}"
      using stop tm by (fastforce simp: expired_def timers_ok_def)
    have "timer_check_loop cb (ck_tick (ks_clk s)) s = Some s"
    proof (cases "ck_list (ks_clk s)")
      case Nil
      then show ?thesis by (subst timer_check_loop.simps) simp
    next
      case (Cons t ts)
      with stop have lt: "e < due b (ks_clk s) t" by auto
      have "unat (ck_tick (ks_clk s) - b) = e" "e < HALF" "due b (ks_clk s) t < HALF"
        using less.prems(1) Cons by (auto simp: check_inv_def timers_ok_def)
      with lt have "\<not> ck_tick (ks_clk s) - tm_timeout_tick (ck_timer (ks_clk s) t) < 0x7fffffff"
        using tick_diff_in_window(2) [of "ck_tick (ks_clk s)" b "tm_timeout_tick (ck_timer (ks_clk s) t)"]
        by (simp add: due_def)
      with Cons show ?thesis by (subst timer_check_loop.simps) simp
    qed
    moreover have "check_post b e s s"
      using less.prems(1) none tm by (auto simp: check_post_def expired_def timers_ok_def not_le)
    moreover have "expired_list b e (ks_clk s) = []" using none set_expired_list by (metis set_empty)
    ultimately show ?thesis by (intro exI [of _ s]) simp
  qed
qed

lemma rt_timer_check_ok:
  assumes "check_inv b e s" "quiet_callbacks cb"
  shows "\<exists>s'. rt_timer_check cb s = Some s' \<and> check_post b e s s' \<and> (timer_round b e cb)\<^sup>*\<^sup>* s s' \<and>
    fired cb (ks_clk s) (expired_list b e (ks_clk s)) s s'"
proof -
  have "ck_fired (ks_clk s) = []" using assms(1) by (simp add: check_inv_def)
  then have "(ks_clk s)\<lparr>ck_fired := []\<rparr> = ks_clk s" by simp
  then have "upd_clk ((ks_clk s)\<lparr>ck_fired := []\<rparr>) s = s" by (simp add: upd_clk_def)
  then show ?thesis
    using timer_check_loop_ok [OF assms refl] by (simp add: rt_timer_check_def rt_tick_get_def)
qed

section \<open>Ticks\<close>

text \<open>The state between two ticks: no active timer is overdue, and periods leave room for one tick.\<close>

definition tick_inv :: "kstate \<Rightarrow> bool" where
  "tick_inv s \<longleftrightarrow> check_inv (ck_tick (ks_clk s)) 0 s \<and>
     (\<forall>t. tm_activated (ck_timer (ks_clk s) t) \<longrightarrow>
        0 < due (ck_tick (ks_clk s)) (ks_clk s) t \<and>
        (tm_periodic (ck_timer (ks_clk s) t) \<longrightarrow> unat (tm_init_tick (ck_timer (ks_clk s) t)) + 1 < HALF))"

lemma upd_tick_inv:
  assumes s: "tick_inv s"
  defines "n \<equiv> ck_tick (ks_clk s)"
  shows "check_inv n 1 (upd_clk ((ks_clk s)\<lparr>ck_tick := n + 1\<rparr>) s)"
proof -
  let ?c = "(ks_clk s)\<lparr>ck_tick := n + 1\<rparr>"
  have i: "check_inv n 0 s" using s by (simp add: tick_inv_def n_def)
  then have k: "kernel_ok s" and tm: "timers_ok n (ks_clk s)" by (simp_all add: check_inv_def)
  have "due n ?c = due n (ks_clk s)" by (simp add: due_def fun_eq_iff)
  with tm have "timers_ok n ?c" unfolding timers_ok_def by simp
  moreover have "kernel_ok (upd_clk ?c s)"
    by (rule kernel_ok_clk [OF k]) (use kernel_okD(2,3) [OF k] in
        \<open>auto simp: timers_linked_def intro!: thread_timer_ok_clk\<close>)
  moreover have "unat (n + 1 - n) = 1" by simp
  ultimately show ?thesis
    using i s by (auto simp: check_inv_def user_timers_ok_def tick_inv_def)
qed

lemma check_inv_thread:
  assumes "check_inv b e s" "kernel_ok s'" "ks_clk s' = ks_clk s"
  shows "check_inv b e s'"
  using assms by (simp add: check_inv_def)

text \<open>
  The interrupt up to \<open>rt_timer_check\<close>: the tick counts up, and a thread at the end of its time slice
  yields.
\<close>

definition after_slice :: "kstate \<Rightarrow> kstate \<Rightarrow> bool" where
  "after_slice s s' \<longleftrightarrow> (\<exists>t. let s1 = upd_thread t (\<lambda>th. th\<lparr>th_remaining_tick := th_remaining_tick th - 1\<rparr>)
       (upd_clk ((ks_clk s)\<lparr>ck_tick := ck_tick (ks_clk s) + 1\<rparr>) s);
     s2 = upd_thread t set_yield (upd_thread t (\<lambda>th. th\<lparr>th_remaining_tick := th_init_tick th\<rparr>) s1) in
     s' = s1 \<or> kernel_ok s2 \<and> rt_schedule s2 = Some s')"

lemma rt_tick_increase_split:
  assumes s: "tick_inv s"
  defines "n \<equiv> ck_tick (ks_clk s)"
  shows "\<exists>s4. rt_tick_increase cb s = rt_timer_check cb s4 \<and> check_inv n 1 s4 \<and>
    ks_clk s4 = (ks_clk s)\<lparr>ck_tick := n + 1\<rparr> \<and> after_slice s s4"
proof -
  let ?s1 = "upd_clk ((ks_clk s)\<lparr>ck_tick := n + 1\<rparr>) s"
  have i1: "check_inv n 1 ?s1" unfolding n_def by (rule upd_tick_inv [OF s])
  then have k1: "kernel_ok ?s1" by (simp add: check_inv_def)
  obtain t where t: "ks_current ?s1 = Some t" using kernel_okD(4) [OF k1] by auto
  let ?s2 = "upd_thread t (\<lambda>th. th\<lparr>th_remaining_tick := th_remaining_tick th - 1\<rparr>) ?s1"
  let ?s3 = "upd_thread t set_yield (upd_thread t (\<lambda>th. th\<lparr>th_remaining_tick := th_init_tick th\<rparr>) ?s2)"
  have k2: "kernel_ok ?s2" by (rule kernel_ok_upd_same [OF k1]) simp
  then have "kernel_ok (upd_thread t (\<lambda>th. th\<lparr>th_remaining_tick := th_init_tick th\<rparr>) ?s2)"
    by (rule kernel_ok_upd_same) (simp add: same_sched_def)
  then have k3: "kernel_ok ?s3" by (rule kernel_ok_upd_same) simp
  obtain s4 where s4: "(if th_remaining_tick (ks_thread ?s2 t) = 0 then rt_schedule ?s3 else Some ?s2) = Some s4"
    "kernel_ok s4" "ks_clk s4 = ks_clk ?s1" "s4 = ?s2 \<or> kernel_ok ?s3 \<and> rt_schedule ?s3 = Some s4"
  proof (cases "th_remaining_tick (ks_thread ?s2 t) = 0")
    case True
    from schedule_kernel_ok [OF k3] obtain s4 where
      "rt_schedule ?s3 = Some s4" "kernel_ok s4" "sched_frame ?s3 s4" by (auto simp: ok_iff)
    with that [of s4] True k3 sched_frameD(1) [of ?s3 s4] show ?thesis by simp
  next
    case False
    with that [of ?s2] k2 show ?thesis by simp
  qed
  have i4: "check_inv n 1 s4" by (rule check_inv_thread [OF i1 s4(2,3)])
  moreover have "rt_tick_increase cb s = rt_timer_check cb s4"
    using t s4(1) unfolding n_def by (simp add: rt_tick_increase_def rt_thread_self_def Let_def)
  moreover have "after_slice s s4" using s4(4) unfolding after_slice_def Let_def n_def by blast
  ultimately show ?thesis using s4(3) by auto
qed

lemma rt_tick_increase_ok:
  assumes s: "tick_inv s" and q: "quiet_callbacks cb"
  defines "n \<equiv> ck_tick (ks_clk s)"
  shows "\<exists>s'. rt_tick_increase cb s = Some s' \<and> tick_inv s' \<and> ck_tick (ks_clk s') = n + 1 \<and>
    (\<forall>u. tm_activated (ck_timer (ks_clk s) (Thread_Timer u)) \<longrightarrow>
       (if due n (ks_clk s) (Thread_Timer u) = 1 then woken u s'
        else ck_timer (ks_clk s') (Thread_Timer u) = ck_timer (ks_clk s) (Thread_Timer u)))"
proof -
  obtain s4 where run: "rt_tick_increase cb s = rt_timer_check cb s4" and i4: "check_inv n 1 s4"
    and s4: "ks_clk s4 = (ks_clk s)\<lparr>ck_tick := n + 1\<rparr>"
    using rt_tick_increase_split [OF s] unfolding n_def by blast
  obtain s' where s': "rt_timer_check cb s4 = Some s'" "check_post n 1 s4 s'"
    using rt_timer_check_ok [OF i4 q] by blast
  have due4: "due n (ks_clk s4) p = due n (ks_clk s) p" for p by (simp add: due_def s4)
  have ex4: "p \<in> expired n 1 (ks_clk s4) \<longleftrightarrow> tm_activated (ck_timer (ks_clk s) p) \<and> due n (ks_clk s) p = 1" for p
  proof -
    have "p \<in> set (ck_list (ks_clk s)) \<longleftrightarrow> tm_activated (ck_timer (ks_clk s) p)"
      using s by (simp add: tick_inv_def check_inv_def timers_ok_def)
    moreover have "tm_activated (ck_timer (ks_clk s) p) \<Longrightarrow> 0 < due n (ks_clk s) p"
      using s by (simp add: tick_inv_def n_def)
    ultimately show ?thesis unfolding expired_def due4 by (auto simp: s4)
  qed
  have tick: "ck_tick (ks_clk s') = n + 1" using s'(2) s4 by (simp add: check_post_def)
  have inv': "check_inv n 1 s'" and later: "\<And>p. tm_activated (ck_timer (ks_clk s') p) \<Longrightarrow> 1 < due n (ks_clk s') p"
    using s'(2) by (simp_all add: check_post_def)
  have due': "due (n + 1) (ks_clk s') p = due n (ks_clk s') p - 1"
    if "tm_activated (ck_timer (ks_clk s') p)" for p
  proof -
    have "tm_timeout_tick (ck_timer (ks_clk s') p) - (n + 1) = (tm_timeout_tick (ck_timer (ks_clk s') p) - n) - 1"
      by simp
    moreover have "1 \<le> tm_timeout_tick (ck_timer (ks_clk s') p) - n"
      using later [OF that] by (simp add: due_def word_le_nat_alt)
    ultimately show ?thesis unfolding due_def by (metis unat_1 unat_sub)
  qed
  have "timers_ok (n + 1) (ks_clk s')"
  proof (rule timers_ok_rebase)
    show "timers_ok n (ks_clk s')" using inv' by (simp add: check_inv_def)
    show "unat (n + 1 - n) < HALF" by simp
    show "\<forall>t \<in> set (ck_list (ks_clk s')). unat (n + 1 - n) \<le> due n (ks_clk s') t"
      using later inv' by (auto simp: check_inv_def timers_ok_def less_imp_le)
  qed
  then have "check_inv (n + 1) 0 s'"
    using inv' tick by (auto simp: check_inv_def)
  moreover have "unat (tm_init_tick (ck_timer (ks_clk s') p)) + 1 < HALF"
    if "tm_activated (ck_timer (ks_clk s') p)" "tm_periodic (ck_timer (ks_clk s') p)" for p
    using that inv' by (auto simp: check_inv_def)
  ultimately have "tick_inv s'"
    using later due' by (auto simp: tick_inv_def tick)
  moreover have "rt_tick_increase cb s = Some s'"
    using run s'(1) by simp
  moreover have "if due n (ks_clk s) (Thread_Timer u) = 1 then woken u s'
      else ck_timer (ks_clk s') (Thread_Timer u) = ck_timer (ks_clk s) (Thread_Timer u)"
    if "tm_activated (ck_timer (ks_clk s) (Thread_Timer u))" for u
    using s'(2) ex4 [of "Thread_Timer u"] that s4 by (auto simp: check_post_def)
  ultimately show ?thesis using tick by blast
qed

fun ticks :: "callbacks \<Rightarrow> nat \<Rightarrow> kstate \<Rightarrow> kstate option" where
  "ticks cb 0 s = Some s"
| "ticks cb (Suc k) s = Option.bind (rt_tick_increase cb s) (ticks cb k)"

lemma ticks_ok:
  assumes "tick_inv s" "quiet_callbacks cb"
  shows "\<exists>s'. ticks cb k s = Some s' \<and> tick_inv s' \<and> ck_tick (ks_clk s') = ck_tick (ks_clk s) + of_nat k"
  using assms
proof (induction k arbitrary: s)
  case 0
  then show ?case by simp
next
  case (Suc k)
  obtain s1 where s1: "rt_tick_increase cb s = Some s1" "tick_inv s1"
    "ck_tick (ks_clk s1) = ck_tick (ks_clk s) + 1"
    using rt_tick_increase_ok [OF Suc.prems] by blast
  from Suc.IH [OF s1(2) Suc.prems(2)] s1 show ?case by (auto simp: algebra_simps)
qed

lemma ticks_Suc: "ticks cb (Suc k) s = Option.bind (ticks cb k s) (rt_tick_increase cb)"
proof (induction k arbitrary: s)
  case 0
  show ?case by (cases "rt_tick_increase cb s") simp_all
next
  case (Suc k)
  show ?case
  proof (cases "rt_tick_increase cb s")
    case None
    then show ?thesis by simp
  next
    case (Some s1)
    have "ticks cb (Suc (Suc k)) s = ticks cb (Suc k) s1" using Some by (simp only: ticks.simps bind.simps)
    also have "\<dots> = Option.bind (ticks cb k s1) (rt_tick_increase cb)" by (rule Suc)
    also have "ticks cb k s1 = ticks cb (Suc k) s" using Some by simp
    finally show ?thesis .
  qed
qed

lemma due_advance:
  assumes "ck_tick c' = ck_tick c + of_nat k" "ck_timer c' t = ck_timer c t" "k \<le> due (ck_tick c) c t"
  shows "due (ck_tick c') c' t = due (ck_tick c) c t - k"
proof -
  have k: "k < 2 ^ 32"
    using le_less_trans [OF assms(3) [unfolded due_def] unat_u32] by simp
  then have uk: "unat (of_nat k :: u32) = k" by (simp add: unat_of_nat)
  have "tm_timeout_tick (ck_timer c t) - (ck_tick c + of_nat k) =
      (tm_timeout_tick (ck_timer c t) - ck_tick c) - of_nat k" by simp
  moreover have "of_nat k \<le> tm_timeout_tick (ck_timer c t) - ck_tick c"
    using assms(3) uk by (simp add: due_def word_le_nat_alt)
  ultimately show ?thesis unfolding due_def assms(1,2) by (metis uk unat_sub)
qed

lemma ticks_wait:
  assumes s: "tick_inv s" "quiet_callbacks cb" and a: "tm_activated (ck_timer (ks_clk s) (Thread_Timer u))"
    and k: "k < due (ck_tick (ks_clk s)) (ks_clk s) (Thread_Timer u)"
  shows "\<exists>s'. ticks cb k s = Some s' \<and> tick_inv s' \<and> ck_tick (ks_clk s') = ck_tick (ks_clk s) + of_nat k \<and>
    ck_timer (ks_clk s') (Thread_Timer u) = ck_timer (ks_clk s) (Thread_Timer u)"
  using k
proof (induction k)
  case 0
  with s show ?case by simp
next
  case (Suc k)
  let ?d = "due (ck_tick (ks_clk s)) (ks_clk s) (Thread_Timer u)"
  from Suc obtain s1 where s1: "ticks cb k s = Some s1" "tick_inv s1"
    "ck_tick (ks_clk s1) = ck_tick (ks_clk s) + of_nat k"
    "ck_timer (ks_clk s1) (Thread_Timer u) = ck_timer (ks_clk s) (Thread_Timer u)" by auto
  have d1: "due (ck_tick (ks_clk s1)) (ks_clk s1) (Thread_Timer u) = ?d - k"
    by (rule due_advance) (use s1(3,4) Suc.prems in simp_all)
  from rt_tick_increase_ok [OF s1(2) s(2)] obtain s2 where s2: "rt_tick_increase cb s1 = Some s2"
    "tick_inv s2" "ck_tick (ks_clk s2) = ck_tick (ks_clk s1) + 1"
    "ck_timer (ks_clk s2) (Thread_Timer u) = ck_timer (ks_clk s1) (Thread_Timer u)"
    using a s1(4) d1 Suc.prems by auto
  have "ticks cb (Suc k) s = Some s2" unfolding ticks_Suc using s1(1) s2(1) by simp
  then show ?case using s1(3,4) s2(2-4) by (intro exI [of _ s2]) (simp add: algebra_simps)
qed

section \<open>Properties\<close>

text \<open>
  C17: The check of the timer list in the tick interrupt ends, and handles exactly the expired
  timers: the timeout function of every active timer whose deadline is not past the current tick runs, each once and in the
  order of the list, and nothing else changes the kernel; a one-shot
  timer that fired is inactive and off the list, a periodic one is active and on the list again for now + period; threads whose
  timers fired are runnable with -RT_ETIMEOUT; every other timer is untouched; and nothing that is
  still active is overdue. Application callbacks are assumed to return and to leave timers and
  thread errors alone, and periods to be positive and within the window.
\<close>
theorem timer_check_fires_exactly_the_expired:
  assumes "check_inv b e s" "quiet_callbacks cb"
  shows "\<exists>s'. rt_timer_check cb s = Some s' \<and> kernel_ok s' \<and> timers_ok b (ks_clk s') \<and>
    fired cb (ks_clk s) (expired_list b e (ks_clk s)) s s' \<and>
    (\<forall>p. tm_activated (ck_timer (ks_clk s') p) \<longrightarrow> e < due b (ks_clk s') p) \<and>
    (\<forall>p. p \<notin> expired b e (ks_clk s) \<longrightarrow> ck_timer (ks_clk s') p = ck_timer (ks_clk s) p) \<and>
    (\<forall>p \<in> expired b e (ks_clk s).
       (if tm_periodic (ck_timer (ks_clk s) p)
        then tm_activated (ck_timer (ks_clk s') p) \<and> p \<in> set (ck_list (ks_clk s')) \<and>
          tm_timeout_tick (ck_timer (ks_clk s') p) = ck_tick (ks_clk s) + tm_init_tick (ck_timer (ks_clk s) p)
        else \<not> tm_activated (ck_timer (ks_clk s') p) \<and> p \<notin> set (ck_list (ks_clk s'))) \<and>
       (\<forall>u. p = Thread_Timer u \<longrightarrow> woken u s'))"
  using rt_timer_check_ok [OF assms] by (auto simp: check_post_def check_inv_def timers_ok_def)

text \<open>
  C5: A thread that has armed its timer k ticks ahead, and that nobody else resumes, stays
  suspended through the next k - 1 tick interrupts and is runnable with -RT_ETIMEOUT right after
  the k-th, whatever other timers fire in between and wherever the 32-bit tick wraps; and the tick
  interrupt always returns.
\<close>
theorem timed_wait_ends_at_its_tick:
  assumes "tick_inv s" "quiet_callbacks cb" "tm_activated (ck_timer (ks_clk s) (Thread_Timer u))"
    and "due (ck_tick (ks_clk s)) (ks_clk s) (Thread_Timer u) = Suc k"
  shows "(\<forall>j \<le> k. \<exists>s'. ticks cb j s = Some s' \<and> th_suspended (ks_thread s' u)) \<and>
    (\<exists>s'. ticks cb (Suc k) s = Some s' \<and> woken u s' \<and> tick_inv s')"
proof (intro conjI allI impI)
  fix j assume "j \<le> k"
  then obtain s' where s': "ticks cb j s = Some s'" "tick_inv s'"
    "ck_timer (ks_clk s') (Thread_Timer u) = ck_timer (ks_clk s) (Thread_Timer u)"
    using ticks_wait [OF assms(1-3), of j] assms(4) by auto
  have "thread_timer_ok s' u" using s'(2) by (simp add: tick_inv_def check_inv_def kernel_ok_def)
  with s' assms(3) show "\<exists>s'. ticks cb j s = Some s' \<and> th_suspended (ks_thread s' u)"
    by (auto simp: thread_timer_ok_def Let_def)
next
  obtain s1 where s1: "ticks cb k s = Some s1" "tick_inv s1"
    "ck_tick (ks_clk s1) = ck_tick (ks_clk s) + of_nat k"
    "ck_timer (ks_clk s1) (Thread_Timer u) = ck_timer (ks_clk s) (Thread_Timer u)"
    using ticks_wait [OF assms(1-3), of k] assms(4) by auto
  have "due (ck_tick (ks_clk s1)) (ks_clk s1) (Thread_Timer u) =
      due (ck_tick (ks_clk s)) (ks_clk s) (Thread_Timer u) - k"
    by (rule due_advance [OF s1(3,4)]) (simp add: assms(4))
  then have "due (ck_tick (ks_clk s1)) (ks_clk s1) (Thread_Timer u) = 1" using assms(4) by simp
  then obtain s2 where "rt_tick_increase cb s1 = Some s2" "tick_inv s2" "woken u s2"
    using rt_tick_increase_ok [OF s1(2) assms(2)] assms(3) s1(4) by auto
  then show "\<exists>s'. ticks cb (Suc k) s = Some s' \<and> woken u s' \<and> tick_inv s'"
    unfolding ticks_Suc using s1(1) by simp
qed

text \<open>A clock on which a due periodic timer of period 0 is alone on the list.\<close>

definition zero_period :: "clk \<Rightarrow> bool" where
  "zero_period c \<longleftrightarrow> (let tm = ck_timer c (User_Timer 0) in
     ck_list c = [User_Timer 0] \<and> ck_fired c = [] \<and> tm_object tm \<noteq> Obj_Null \<and>
     tm_timeout_func tm = User_fn 0 \<and> tm_periodic tm \<and> tm_activated tm \<and>
     tm_init_tick tm = 0 \<and> tm_timeout_tick tm = ck_tick c)"

lemma rt_timer_start_alone:
  assumes "tm_object (ck_timer c t) \<noteq> Obj_Null" "removeAll t (ck_list c) = []"
  shows "\<exists>c'. rt_timer_start t c = Some (RT_EOK, c') \<and> ck_list c' = [t] \<and>
    ck_fired c' = removeAll t (ck_fired c) \<and> ck_tick c' = ck_tick c \<and>
    ck_timer c' t = set_activated (clear_activated (ck_timer c t)
      \<lparr>tm_timeout_tick := ck_tick c + tm_init_tick (ck_timer c t)\<rparr>)"
  using assms by (simp add: rt_timer_start_def Let_def rt_tick_get_def clear_activated_def)

lemma zero_period_round:
  assumes "zero_period (ks_clk s)"
  shows "\<exists>s2. after_callback (User_Timer 0) (upd_clk (take_expired (User_Timer 0) (ks_clk s)) s) = Some s2 \<and>
    zero_period (ks_clk s2) \<and> ck_tick (ks_clk s2) = ck_tick (ks_clk s)"
proof -
  let ?t = "User_Timer 0" and ?c = "ks_clk s"
  let ?c1 = "timer_remove ?t (take_expired ?t ?c)"
  let ?c2 = "upd_timer ?t clear_activated ?c1"
  have z: "ck_list ?c = [?t]" "ck_fired ?c = []" "tm_object (ck_timer ?c ?t) \<noteq> Obj_Null"
    "tm_timeout_func (ck_timer ?c ?t) = User_fn 0" "tm_periodic (ck_timer ?c ?t)"
    "tm_activated (ck_timer ?c ?t)" "tm_init_tick (ck_timer ?c ?t) = 0"
    using assms by (simp_all add: zero_period_def Let_def)
  have t1: "ck_timer ?c1 ?t = ck_timer ?c ?t" using z(5) by simp
  have t2: "ck_timer ?c2 ?t = clear_activated (ck_timer ?c ?t)" using z(5) by simp
  have "tm_object (ck_timer ?c2 ?t) \<noteq> Obj_Null" "removeAll ?t (ck_list ?c2) = []"
    unfolding t2 using z(1,3) by simp_all
  from rt_timer_start_alone [OF this] obtain c3 where
    c3: "rt_timer_start ?t ?c2 = Some (RT_EOK, c3)" "ck_list c3 = [?t]" "ck_fired c3 = removeAll ?t (ck_fired ?c2)"
    "ck_tick c3 = ck_tick ?c2" "ck_timer c3 ?t = set_activated (clear_activated (ck_timer ?c2 ?t)
      \<lparr>tm_timeout_tick := ck_tick ?c2 + tm_init_tick (ck_timer ?c2 ?t)\<rparr>)" by blast
  have "zero_period c3"
    using c3(2-4) z(2-5,7) by (simp add: zero_period_def Let_def c3(5) t2)
  moreover have "after_callback ?t (upd_clk (take_expired ?t ?c) s) = Some (upd_clk c3 (upd_clk (take_expired ?t ?c) s))"
    using c3(1) t1 z(5,6) by (simp add: after_callback_def Let_def timer_call_def upd_clk_def del: timer_remove_simps)
  ultimately show ?thesis using c3(4) by simp
qed

lemma zero_period_loops:
  "timer_check_loop cb cur s = Some y \<Longrightarrow> cb = (\<lambda>_ _ s. Some s) \<Longrightarrow> cur = ck_tick (ks_clk s) \<Longrightarrow>
   zero_period (ks_clk s) \<Longrightarrow> False"
proof (induction cb cur s y rule: timer_check_loop.raw_induct [rotated 1, consumes 1, case_names step])
  case (step loop cb cur s y)
  obtain s2 where s2: "after_callback (User_Timer 0) (upd_clk (take_expired (User_Timer 0) (ks_clk s)) s) = Some s2"
    "zero_period (ks_clk s2)" "ck_tick (ks_clk s2) = ck_tick (ks_clk s)"
    using zero_period_round [OF step.prems(3)] by blast
  have "loop cb (ck_tick (ks_clk s2)) s2 = Some y"
    using step.hyps step.prems s2
    by (simp add: zero_period_def Let_def run_timeout_def rt_tick_get_def)
  from step.IH [OF this] step.prems s2 show ?case by simp
qed

text \<open>
  A periodic timer of period 0 hangs the tick interrupt: once it is due and at the head of the
  timer list, rt_timer_check fires and restarts it for ever, even though its callback returns.
\<close>
lemma zero_period_timer_hangs_check:
  assumes "zero_period (ks_clk s)"
  shows "rt_timer_check (\<lambda>_ _ s. Some s) s = None"
proof -
  let ?s = "upd_clk ((ks_clk s)\<lparr>ck_fired := []\<rparr>) s"
  have "zero_period (ks_clk ?s)" using assms by (simp add: zero_period_def Let_def)
  note z = this
  show ?thesis
  proof (cases "timer_check_loop (\<lambda>_ _ s. Some s) (ck_tick (ks_clk s)) ?s")
    case None
    then show ?thesis by (simp only: rt_timer_check_def rt_tick_get_def)
  next
    case (Some y)
    have False by (rule zero_period_loops [OF Some refl _ z]) simp
    then show ?thesis ..
  qed
qed

section \<open>Witnesses\<close>

definition zero_period_clk :: clk where
  "zero_period_clk = sample_clk\<lparr>ck_list := [User_Timer 0],
     ck_timer := (ck_timer sample_clk)(User_Timer 0 := (sample_timer 0 3)\<lparr>tm_timeout_tick := 0xfffffffe\<rparr>)\<rparr>"

lemma zero_period_timer_hangs_check_witness:
  "rt_timer_check (\<lambda>_ _ s. Some s) (upd_clk zero_period_clk sample_kernel) = None"
proof -
  have "zero_period (ks_clk (upd_clk zero_period_clk sample_kernel))"
    by (simp add: zero_period_def zero_period_clk_def sample_clk_def sample_timer_def Let_def
        tm_periodic_def tm_activated_def RT_TIMER_FLAG_ACTIVATED_def RT_TIMER_FLAG_PERIODIC_def)
  then show ?thesis by (rule zero_period_timer_hangs_check)
qed

lemma sample_check_inv: "check_inv 0xfffffffe 0 sample_kernel"
  using sample_clk_ok sample_kernel_kernel_ok
  by (auto simp: check_inv_def user_timers_ok_def sample_kernel_def sample_clk_def sample_timer_def
      tm_periodic_def RT_TIMER_FLAG_PERIODIC_def split: tmid.splits)

lemma sample_quiet: "quiet_callbacks (\<lambda>_ _ s. Some s)"
  by (simp add: quiet_callbacks_def)

text \<open>Thread 1 asleep for 3 ticks, across the wrap of the tick counter; the idle thread runs.\<close>

definition sleeping_kernel :: kstate where
  "sleeping_kernel = sample_kernel\<lparr>
     ks_thread := (ks_thread sample_kernel)(0 := sample_thread 31 3, 1 := sample_thread 5 4),
     ks_list := (\<lambda>_. [])(Ready 5 := [2, 3]), ks_group := 0x20, ks_current := Some 0,
     ks_clk := sample_clk\<lparr>ck_list := [Thread_Timer 1],
       ck_timer := (ck_timer sample_clk)(Thread_Timer 1 := (sample_timer 3 1)\<lparr>
         tm_timeout_func := Thread_timeout_fn, tm_parameter := 1, tm_timeout_tick := 1\<rparr>)\<rparr>\<rparr>"

lemma sleeping_sched_ok: "sched_ok sleeping_kernel"
proof -
  have "queues_ok sleeping_kernel"
    by (auto simp: queues_ok_def sleeping_kernel_def sample_kernel_def sample_thread_def th_state_def
        split: if_splits)
  moreover have "bitmap_ok sleeping_kernel"
    unfolding bitmap_ok_def
  proof (intro conjI allI impI)
    show "bit (ks_group sleeping_kernel) p = (ks_list sleeping_kernel (Ready p) \<noteq> [])" for p
      using bit_prio [of 5 p] by (simp add: sleeping_kernel_def)
  qed (simp add: sleeping_kernel_def)
  moreover have "states_ok {} sleeping_kernel"
    by (auto simp: states_ok_def state_ok_def sleeping_kernel_def sample_kernel_def sample_thread_def
        no_thread_def th_state_def Let_def)
  moreover have "masks_ok sleeping_kernel"
    by (auto simp: masks_ok_def mask_ok_def started_def sleeping_kernel_def sample_kernel_def
        sample_thread_def no_thread_def RT_THREAD_PRIORITY_MAX_def)
  ultimately show ?thesis by (simp add: sched_inv_def)
qed

lemma sleeping_tick_inv: "tick_inv sleeping_kernel"
proof -
  have act: "tm_activated (ck_timer (ks_clk sleeping_kernel) t) \<longleftrightarrow> t = Thread_Timer 1" for t
    by (cases t) (auto simp: sleeping_kernel_def sample_clk_def sample_timer_def tm_activated_def
        RT_TIMER_FLAG_ACTIVATED_def)
  have per: "\<not> tm_periodic (ck_timer (ks_clk sleeping_kernel) t)" for t
    by (cases t) (auto simp: sleeping_kernel_def sample_clk_def sample_timer_def tm_periodic_def
        RT_TIMER_FLAG_PERIODIC_def)
  have obj: "tm_object (ck_timer (ks_clk sleeping_kernel) t) = Obj_Static" for t
    by (cases t) (auto simp: sleeping_kernel_def sample_clk_def sample_timer_def)
  have tmr: "timers_ok 0xfffffffe (ks_clk sleeping_kernel)"
    unfolding timers_ok_def act obj by (auto simp: sleeping_kernel_def due_def)
  have lnk: "timers_linked (ks_clk sleeping_kernel)"
    by (rule timers_ok_linked [OF tmr]) (simp add: sleeping_kernel_def sample_clk_def)
  have "thread_timer_ok sleeping_kernel t" for t
    unfolding thread_timer_ok_def Let_def act using per [of "Thread_Timer t"] obj [of "Thread_Timer t"]
    by (auto simp: sleeping_kernel_def sample_kernel_def sample_clk_def sample_timer_def
        sample_thread_def th_suspended_def)
  then have "kernel_ok sleeping_kernel"
    using sleeping_sched_ok lnk by (simp add: kernel_ok_def sleeping_kernel_def)
  moreover have "user_timers_ok (ks_clk sleeping_kernel)"
    by (auto simp: user_timers_ok_def sleeping_kernel_def sample_clk_def sample_timer_def)
  moreover have "ck_tick (ks_clk sleeping_kernel) = 0xfffffffe" "ck_fired (ks_clk sleeping_kernel) = []"
    by (simp_all add: sleeping_kernel_def sample_clk_def)
  moreover have "due 0xfffffffe (ks_clk sleeping_kernel) (Thread_Timer 1) = 3"
    by (simp add: due_def sleeping_kernel_def)
  ultimately show ?thesis using tmr by (simp add: tick_inv_def check_inv_def act per)
qed

theorem timed_wait_ends_at_its_tick_witness:
  "\<exists>s'. ticks (\<lambda>_ _ s. Some s) 3 sleeping_kernel = Some s' \<and> woken 1 s'"
proof -
  have a: "tm_activated (ck_timer (ks_clk sleeping_kernel) (Thread_Timer 1))"
    by (simp add: sleeping_kernel_def sample_timer_def tm_activated_def RT_TIMER_FLAG_ACTIVATED_def)
  have d: "due (ck_tick (ks_clk sleeping_kernel)) (ks_clk sleeping_kernel) (Thread_Timer 1) = Suc 2"
    by (simp add: due_def sleeping_kernel_def sample_clk_def)
  show ?thesis
    using timed_wait_ends_at_its_tick [OF sleeping_tick_inv sample_quiet a d]
    by (simp only: numeral_3_eq_3 numeral_2_eq_2) blast
qed

text \<open>
  Thread 1 asleep until tick 1 and, before it on the timer list, a periodic application timer whose function counts in
  semaphore 7; a third timer is not due. The tick is 1, past the wrap.
\<close>

definition count_call :: callbacks where
  "count_call n p s =
     Some (upd_ipc (\<lambda>x. x\<lparr>ipc_sem := (ipc_sem x)(p := (ipc_sem x p)\<lparr>sem_value := sem_value (ipc_sem x p) + 1\<rparr>)\<rparr>) s)"

definition two_expired :: kstate where
  "two_expired = upd_clk ((ks_clk sleeping_kernel)\<lparr>ck_tick := 1, ck_list := [User_Timer 0, Thread_Timer 1, User_Timer 2],
     ck_timer := (ck_timer (ks_clk sleeping_kernel))(
       User_Timer 0 := (sample_timer 5 3)\<lparr>tm_timeout_func := User_fn 0, tm_parameter := 7, tm_timeout_tick := 0\<rparr>,
       User_Timer 2 := (sample_timer 5 1)\<lparr>tm_timeout_tick := 4\<rparr>)\<rparr>) sleeping_kernel"

lemma two_expired_inv: "check_inv 0xfffffffe 3 two_expired"
proof -
  have bits: "tm_activated (sample_timer d 0) = False" "tm_activated (sample_timer d 1)" "tm_activated (sample_timer d 3)"
    "\<not> tm_periodic (sample_timer d 0)" "\<not> tm_periodic (sample_timer d 1)" "tm_periodic (sample_timer d 3)"
    "tm_object (sample_timer d f) = Obj_Static" "tm_init_tick (sample_timer d f) = d" for d f
    by (simp_all add: sample_timer_def tm_activated_def tm_periodic_def RT_TIMER_FLAG_ACTIVATED_def RT_TIMER_FLAG_PERIODIC_def)
  have upd: "tm_activated (tm\<lparr>tm_timeout_func := g, tm_parameter := q, tm_timeout_tick := w\<rparr>) = tm_activated tm"
    "tm_activated (tm\<lparr>tm_timeout_func := g, tm_parameter := q\<rparr>) = tm_activated tm" "tm_activated (tm\<lparr>tm_timeout_tick := w\<rparr>) = tm_activated tm"
    "tm_periodic (tm\<lparr>tm_timeout_func := g, tm_parameter := q, tm_timeout_tick := w\<rparr>) = tm_periodic tm"
    "tm_periodic (tm\<lparr>tm_timeout_func := g, tm_parameter := q\<rparr>) = tm_periodic tm" for tm g q w
    by (simp_all add: tm_activated_def tm_periodic_def)
  have act: "tm_activated (ck_timer (ks_clk two_expired) t) \<longleftrightarrow> t \<in> {User_Timer 0, Thread_Timer 1, User_Timer 2}" for t
    by (cases t) (auto simp: two_expired_def sleeping_kernel_def sample_clk_def bits upd)
  have per: "tm_periodic (ck_timer (ks_clk two_expired) t) \<longleftrightarrow> t = User_Timer 0" for t
    by (cases t) (auto simp: two_expired_def sleeping_kernel_def sample_clk_def bits upd)
  have obj: "tm_object (ck_timer (ks_clk two_expired) t) = Obj_Static" for t
    by (cases t) (auto simp: two_expired_def sleeping_kernel_def sample_clk_def bits)
  have lst: "ck_list (ks_clk two_expired) = [User_Timer 0, Thread_Timer 1, User_Timer 2]" "ck_fired (ks_clk two_expired) = []"
    "ck_tick (ks_clk two_expired) = 1" by (simp_all add: two_expired_def sleeping_kernel_def sample_clk_def)
  have d: "due 0xfffffffe (ks_clk two_expired) (User_Timer 0) = 2" "due 0xfffffffe (ks_clk two_expired) (Thread_Timer 1) = 3"
    "due 0xfffffffe (ks_clk two_expired) (User_Timer 2) = 6" by (simp_all add: due_def two_expired_def sleeping_kernel_def)
  have tmr: "timers_ok 0xfffffffe (ks_clk two_expired)"
    unfolding timers_ok_def act obj lst using d by auto
  have lnk: "timers_linked (ks_clk two_expired)" by (rule timers_ok_linked [OF tmr]) (simp add: lst)
  have "kernel_ok sleeping_kernel" using sleeping_tick_inv by (simp add: tick_inv_def check_inv_def)
  then have "kernel_ok two_expired"
    unfolding two_expired_def
  proof (rule kernel_ok_clk)
    show "timers_linked ((ks_clk sleeping_kernel)\<lparr>ck_tick := 1, ck_list := [User_Timer 0, Thread_Timer 1, User_Timer 2],
      ck_timer := (ck_timer (ks_clk sleeping_kernel))(
        User_Timer 0 := (sample_timer 5 3)\<lparr>tm_timeout_func := User_fn 0, tm_parameter := 7, tm_timeout_tick := 0\<rparr>,
        User_Timer 2 := (sample_timer 5 1)\<lparr>tm_timeout_tick := 4\<rparr>)\<rparr>)" using lnk by (simp add: two_expired_def)
    show "thread_timer_ok (upd_clk ((ks_clk sleeping_kernel)\<lparr>ck_tick := 1, ck_list := [User_Timer 0, Thread_Timer 1, User_Timer 2],
      ck_timer := (ck_timer (ks_clk sleeping_kernel))(
        User_Timer 0 := (sample_timer 5 3)\<lparr>tm_timeout_func := User_fn 0, tm_parameter := 7, tm_timeout_tick := 0\<rparr>,
        User_Timer 2 := (sample_timer 5 1)\<lparr>tm_timeout_tick := 4\<rparr>)\<rparr>) sleeping_kernel) u" for u
      by (rule thread_timer_ok_clk [OF kernel_okD(3) [OF \<open>kernel_ok sleeping_kernel\<close>, of u]]) simp_all
  qed
  moreover have "user_timers_ok (ks_clk two_expired)"
    by (auto simp: user_timers_ok_def two_expired_def sleeping_kernel_def sample_clk_def sample_timer_def)
  moreover have "tm_init_tick (ck_timer (ks_clk two_expired) (User_Timer 0)) = 5"
    by (simp add: two_expired_def bits)
  ultimately show ?thesis using tmr by (simp add: check_inv_def act per lst)
qed

lemma count_quiet: "quiet_callbacks count_call"
  by (simp add: quiet_callbacks_def count_call_def)

lemma thread_timeout_ipc:
  assumes "thread_timeout t s = Some s'"
  shows "ks_ipc s' = ks_ipc s"
proof -
  have "ks_ipc s2 = ks_ipc s1" if "rt_schedule s1 = Some s2" for s1 s2
    using that by (auto simp: rt_schedule_def bind_eq_Some_conv Let_def split: if_splits prod.splits)
  then show ?thesis using assms by (fastforce simp: thread_timeout_def bind_eq_Some_conv Let_def)
qed

theorem timer_check_fires_exactly_the_expired_witness:
  "\<exists>s'. rt_timer_check count_call two_expired = Some s' \<and> woken 1 s' \<and> sem_value (ipc_sem (ks_ipc s') 7) = 1 \<and>
     tm_activated (ck_timer (ks_clk s') (User_Timer 0)) \<and> tm_timeout_tick (ck_timer (ks_clk s') (User_Timer 0)) = 6 \<and>
     \<not> tm_activated (ck_timer (ks_clk s') (Thread_Timer 1)) \<and>
     ck_timer (ks_clk s') (User_Timer 2) = ck_timer (ks_clk two_expired) (User_Timer 2)"
proof -
  let ?c = "ks_clk two_expired"
  have l: "ck_list ?c = [User_Timer 0, Thread_Timer 1, User_Timer 2]" "ck_tick ?c = 1"
    by (simp_all add: two_expired_def sleeping_kernel_def sample_clk_def)
  have "due 0xfffffffe ?c (User_Timer 0) = 2" "due 0xfffffffe ?c (Thread_Timer 1) = 3" "due 0xfffffffe ?c (User_Timer 2) = 6"
    by (simp_all add: due_def two_expired_def sleeping_kernel_def)
  then have e: "expired_list 0xfffffffe 3 ?c = [User_Timer 0, Thread_Timer 1]" "expired 0xfffffffe 3 ?c = {User_Timer 0, Thread_Timer 1}"
    by (auto simp: expired_list_def expired_def l)
  have t: "tm_periodic (ck_timer ?c (User_Timer 0))" "\<not> tm_periodic (ck_timer ?c (Thread_Timer 1))"
    "tm_init_tick (ck_timer ?c (User_Timer 0)) = 5" "tm_timeout_func (ck_timer ?c (User_Timer 0)) = User_fn 0"
    "tm_parameter (ck_timer ?c (User_Timer 0)) = 7" "tm_timeout_func (ck_timer ?c (Thread_Timer 1)) = Thread_timeout_fn"
    "tm_parameter (ck_timer ?c (Thread_Timer 1)) = 1"
    by (simp_all add: two_expired_def sleeping_kernel_def sample_timer_def tm_periodic_def RT_TIMER_FLAG_PERIODIC_def)
  obtain s' where s': "rt_timer_check count_call two_expired = Some s'" "fired count_call ?c [User_Timer 0, Thread_Timer 1] two_expired s'"
    "woken 1 s'" "tm_activated (ck_timer (ks_clk s') (User_Timer 0))" "tm_timeout_tick (ck_timer (ks_clk s') (User_Timer 0)) = 6"
    "\<not> tm_activated (ck_timer (ks_clk s') (Thread_Timer 1))" "ck_timer (ks_clk s') (User_Timer 2) = ck_timer ?c (User_Timer 2)"
    using timer_check_fires_exactly_the_expired [OF two_expired_inv count_quiet] t l unfolding e by (auto simp del: fired.simps)
  have "ipc_sem (ks_ipc two_expired) 7 = ipc_sem (ks_ipc sample_kernel) 7" by (simp add: two_expired_def sleeping_kernel_def)
  moreover have "sem_value (ipc_sem (ks_ipc sample_kernel) 7) = 0" by (simp add: sample_kernel_def sample_ipc_def)
  moreover have "timeout_call count_call (ck_timer ?c (User_Timer 0)) s = count_call 0 7 s"
    "timeout_call count_call (ck_timer ?c (Thread_Timer 1)) s = thread_timeout 1 s" for s
    by (simp_all only: timeout_call_def t timeout_func.case)
  ultimately have "sem_value (ipc_sem (ks_ipc s') 7) = 1"
    using s'(2) by (auto simp: count_call_def simp del: One_nat_def dest!: thread_timeout_ipc)
  with s' show ?thesis by auto
qed

end
