(* ===== verification/Ipc_Base.thy ===== *)
theory Ipc_Base
  imports Thread
begin

text \<open>
  The part of \<open>src/ipc.c\<close> that all IPC objects share: suspending the calling thread on an object's
  list in FIFO or priority order, resuming the first or all of the waiters, and the blocking
  sequence (suspend, arm the timer, hand over) of the take/receive/send calls.
\<close>

section \<open>Operations\<close>

text \<open>The walk of the \<open>RT_IPC_FLAG_PRIO\<close> case: before the first waiter of lower urgency.\<close>

fun prio_insert :: "(tid \<Rightarrow> nat) \<Rightarrow> tid \<Rightarrow> tid list \<Rightarrow> tid list" where
  "prio_insert prio t [] = [t]"
| "prio_insert prio t (n # ns) = (if prio t < prio n then t # n # ns else n # prio_insert prio t ns)"

definition ipc_list_suspend ::
  "lhead \<Rightarrow> tid \<Rightarrow> ipc_flag \<Rightarrow> suspend_flag \<Rightarrow> kstate \<Rightarrow> (int \<times> kstate) option" where
  "ipc_list_suspend h t flag sflag s = do {
     (ret, s) \<leftarrow> (if \<not> th_suspended (ks_thread s t) then rt_thread_suspend_with_flag t sflag s
                 else Some (RT_EOK, s));
     if ret \<noteq> RT_EOK then Some (ret, s)
     else case flag of
         FIFO \<Rightarrow> Some (RT_EOK, list_set h (ks_list s h @ [t]) s)
       | PRIO \<Rightarrow> Some (RT_EOK, list_set h
           (prio_insert (\<lambda>u. th_current_priority (ks_thread s u)) t (ks_list s h)) s)
       | Bad_Flag \<Rightarrow> None
   }"

text \<open>On an empty list the thread pointer would be computed from the list head: \<open>None\<close>.\<close>

definition ipc_list_resume :: "lhead \<Rightarrow> kstate \<Rightarrow> (int \<times> kstate) option" where
  "ipc_list_resume h s =
     (case ks_list s h of
        [] \<Rightarrow> None
      | t # _ \<Rightarrow> do {
          (_, s) \<leftarrow> rt_thread_resume t (upd_thread t (\<lambda>th. th\<lparr>th_error := RT_EOK\<rparr>) s);
          Some (RT_EOK, s)
        })"

partial_function (option) ipc_list_resume_all :: "lhead \<Rightarrow> kstate \<Rightarrow> kstate option" where
  "ipc_list_resume_all h s =
     (case ks_list s h of
        [] \<Rightarrow> Some s
      | t # _ \<Rightarrow>
          Option.bind (rt_thread_resume t (upd_thread t (\<lambda>th. th\<lparr>th_error := - RT_ERROR\<rparr>) s))
            (\<lambda>r. ipc_list_resume_all h (snd r)))"

text \<open>
  The common end of a blocking call: suspend on \<open>h\<close>, arm the thread timer when \<open>timeout\<close> (a signed
  32-bit number, negative for ever) is positive, and reschedule.
\<close>

definition arm_timeout :: "tid \<Rightarrow> int \<Rightarrow> kstate \<Rightarrow> kstate option" where
  "arm_timeout t timeout s =
     (if 0 < timeout then start_thread_timer t (word_of_int timeout) s else Some s)"

definition block_on ::
  "lhead \<Rightarrow> tid \<Rightarrow> ipc_flag \<Rightarrow> suspend_flag \<Rightarrow> int \<Rightarrow> kstate \<Rightarrow> (outcome \<times> kstate) option" where
  "block_on h t flag sflag timeout s = do {
     (ret, s) \<leftarrow> ipc_list_suspend h t flag sflag s;
     if ret \<noteq> RT_EOK then Some (Ret ret, s)
     else do {
       s \<leftarrow> arm_timeout t timeout s;
       s \<leftarrow> rt_schedule s;
       Some (Blocked, s)
     }
   }"

text \<open>
  The end of a send or receive that went through: the first waiter of the other side, if any, is
  resumed, and the processor handed over.
\<close>

definition ipc_wake_one :: "lhead \<Rightarrow> kstate \<Rightarrow> (int \<times> kstate) option" where
  "ipc_wake_one h s =
     (if ks_list s h \<noteq> [] then do {
        (_, s) \<leftarrow> ipc_list_resume h s;
        s \<leftarrow> rt_schedule s;
        Some (RT_EOK, s)
      }
      else Some (RT_EOK, s))"

text \<open>
  What is left of a signed 32-bit \<open>timeout\<close> that started at tick \<open>start\<close>: the loops of the mailbox and
  message queue calls compute it in unsigned arithmetic each time they are woken.
\<close>

definition remaining_time :: "int \<Rightarrow> u32 \<Rightarrow> u32 \<Rightarrow> int" where
  "remaining_time timeout start now =
     (if 0 < timeout
      then let timeout = sint (word_of_int timeout - (now - start)) in if timeout < 0 then 0 else timeout
      else timeout)"

section \<open>Suspend lists\<close>

text \<open>Heads of suspend lists, as opposed to ready lists and the defunct list.\<close>

fun wait_head :: "lhead \<Rightarrow> bool" where
  "wait_head (Suspend _) = True"
| "wait_head (Suspend_Sender _) = True"
| "wait_head _ = False"

lemma wait_head_not_ready: "wait_head h \<Longrightarrow> \<forall>p. h \<noteq> Ready p"
  by (cases h) auto

lemma fits_wait: "wait_head h \<Longrightarrow> fits h th \<longleftrightarrow> th_object th \<noteq> Obj_Null \<and> th_suspended th"
  by (cases h) auto

text \<open>Linking an unlinked suspended thread on a suspend list.\<close>

lemma link_wait_sched:
  assumes s: "sched_inv X s" and u: "unlinked t s" and h: "wait_head h"
    and t: "th_object (ks_thread s t) \<noteq> Obj_Null" "th_suspended (ks_thread s t)"
    and l: "ks_list s h = xs @ ys"
  shows "sched_inv X (list_set h (xs @ t # ys) s)"
proof -
  let ?s = "list_set h (xs @ t # ys) s"
  note d = sched_invD [OF s]
  have un: "t \<notin> set (ks_list s k)" for k using u by (simp add: unlinked_def)
  have set: "set (ks_list ?s k) = (if k = h then insert t (set (ks_list s k)) else set (ks_list s k))" for k
    using l by auto
  have nr: "h \<noteq> Ready p" "Ready p \<noteq> h" for p using h by auto
  have "queues_ok ?s"
    unfolding queues_ok_def
  proof (intro conjI allI ballI impI)
    show "distinct (ks_list ?s k)" for k using d(1) [of k] un [of h] l by auto
    show "k = k'" if "v \<in> set (ks_list ?s k)" "v \<in> set (ks_list ?s k')" for k k' v
      using that un d(2) unfolding set by (auto split: if_splits)
    show "fits k (ks_thread ?s v)" if "v \<in> set (ks_list ?s k)" for k v
      using that d(3) [of v k] t h unfolding set by (auto simp: fits_wait split: if_splits)
  qed
  moreover have "bitmap_ok ?s" using d(4,5) nr unfolding bitmap_ok_def by simp
  moreover have "state_ok ?s v" if "v \<notin> X" for v
    using sched_inv_state [OF s that] nr by (simp add: state_ok_def Let_def)
  then have "states_ok X ?s" by (simp add: states_ok_def)
  moreover have "masks_ok ?s" using d(9) unfolding masks_ok_def by simp
  ultimately show ?thesis by (simp add: sched_inv_def)
qed

lemma link_wait_ok:
  assumes s: "kernel_ok s" and u: "unlinked t s" and h: "wait_head h"
    and t: "th_object (ks_thread s t) \<noteq> Obj_Null" "th_suspended (ks_thread s t)"
    and l: "ks_list s h = xs @ ys"
  shows "kernel_ok (list_set h (xs @ t # ys) s)"
proof -
  have "thread_timer_ok (list_set h (xs @ t # ys) s) v" for v
    by (rule thread_timer_ok_cong [OF kernel_okD(3) [OF s]]) simp_all
  then show ?thesis
    using link_wait_sched [OF kernel_okD(1) [OF s] u h t l] kernel_okD(2,4) [OF s]
    by (simp add: kernel_ok_def)
qed

lemma prio_insert_split:
  "prio_insert prio t ns = takeWhile (\<lambda>n. prio n \<le> prio t) ns @ t # dropWhile (\<lambda>n. prio n \<le> prio t) ns"
  by (induction ns) (auto simp: not_less)

text \<open>The queue discipline: where a new waiter goes.\<close>

definition enqueued :: "ipc_flag \<Rightarrow> (tid \<Rightarrow> nat) \<Rightarrow> tid \<Rightarrow> tid list \<Rightarrow> tid list" where
  "enqueued flag prio t ws = (if flag = PRIO then prio_insert prio t ws else ws @ [t])"

lemma enqueued_split: "\<exists>xs ys. ws = xs @ ys \<and> enqueued flag prio t ws = xs @ t # ys"
proof (cases "flag = PRIO")
  case True
  then show ?thesis
    unfolding enqueued_def prio_insert_split
    by (intro exI [of _ "takeWhile (\<lambda>n. prio n \<le> prio t) ws"] exI [of _ "dropWhile (\<lambda>n. prio n \<le> prio t) ws"]) simp
next
  case False
  then show ?thesis by (intro exI [of _ ws] exI [of _ "[]"]) (simp add: enqueued_def)
qed

lemma set_enqueued [simp]: "set (enqueued flag prio t ws) = insert t (set ws)"
  using enqueued_split [of ws flag prio t] by auto

lemma enqueued_sorted:
  "sorted (map prio ws) \<Longrightarrow> sorted (map prio (enqueued PRIO prio t ws))"
  unfolding enqueued_def prio_insert_split
  using sorted_map_insert [of prio ws "\<lambda>n. prio n \<le> prio t" t] by simp

section \<open>Blocking\<close>

text \<open>What a call that blocked the current thread \<open>t\<close> on \<open>h\<close> left behind.\<close>

definition blocked_in :: "lhead \<Rightarrow> tid \<Rightarrow> tid list \<Rightarrow> int \<Rightarrow> kstate \<Rightarrow> kstate \<Rightarrow> bool" where
  "blocked_in h t ws timeout s s' \<longleftrightarrow>
     ks_ipc s' = ks_ipc s \<and> ks_lock_nest s' = ks_lock_nest s \<and> ks_irq_nest s' = ks_irq_nest s \<and>
     ks_list s' h = ws \<and>
     (\<forall>k. wait_head k \<longrightarrow> k \<noteq> h \<longrightarrow> ks_list s' k = ks_list s k) \<and>
     th_suspended (ks_thread s' t) \<and>
     (\<forall>u. th_error (ks_thread s' u) = th_error (ks_thread s u) \<and>
        th_object (ks_thread s' u) = th_object (ks_thread s u) \<and>
        th_current_priority (ks_thread s' u) = th_current_priority (ks_thread s u) \<and>
        th_event_set (ks_thread s' u) = th_event_set (ks_thread s u) \<and>
        th_event_info (ks_thread s' u) = th_event_info (ks_thread s u) \<and>
        (u \<noteq> t \<longrightarrow> th_suspended (ks_thread s' u) = th_suspended (ks_thread s u))) \<and>
     ck_tick (ks_clk s') = ck_tick (ks_clk s) \<and>
     tm_activated (ck_timer (ks_clk s') (Thread_Timer t)) = (0 < timeout) \<and>
     (0 < timeout \<longrightarrow>
        tm_timeout_tick (ck_timer (ks_clk s') (Thread_Timer t)) = ck_tick (ks_clk s) + word_of_int timeout)"

definition blocked_on :: "lhead \<Rightarrow> tid \<Rightarrow> ipc_flag \<Rightarrow> int \<Rightarrow> kstate \<Rightarrow> kstate \<Rightarrow> bool" where
  "blocked_on h t flag timeout s =
     blocked_in h t (enqueued flag (\<lambda>u. th_current_priority (ks_thread s u)) t (ks_list s h)) timeout s"

lemmas blocked_on_def' = blocked_on_def blocked_in_def

lemma ipc_list_suspend_spec:
  assumes s: "kernel_ok s" and t: "ks_current s = Some t" "th_state (ks_thread s t) = RT_THREAD_RUNNING"
    and f: "flag \<noteq> Bad_Flag" "sflag \<noteq> Bad_Suspend_Flag" and h: "wait_head h"
  shows "\<exists>s1. ipc_list_suspend h t flag sflag s = Some (RT_EOK, list_set h
      (enqueued flag (\<lambda>u. th_current_priority (ks_thread s u)) t (ks_list s h)) s1) \<and>
    kernel_ok (list_set h (enqueued flag (\<lambda>u. th_current_priority (ks_thread s u)) t (ks_list s h)) s1) \<and>
    suspended t s s1"
proof -
  obtain s1 where s1: "rt_thread_suspend_with_flag t sflag s = Some (RT_EOK, s1)" "kernel_ok s1"
    "suspended t s s1"
    using suspend_spec [OF s t f(2)] by blast
  have o: "th_object (ks_thread s t) \<noteq> Obj_Null" using sched_invD(8) [OF kernel_okD(1) [OF s] t(1)] by simp
  have t1: "th_object (ks_thread s1 t) \<noteq> Obj_Null" "th_suspended (ks_thread s1 t)" "unlinked t s1"
    and l1: "ks_list s1 = ks_list s"
    using s1(3) o by (auto simp: suspended_def th_suspended_state th_state_set_state)
  have pr: "(\<lambda>u. th_current_priority (ks_thread s1 u)) = (\<lambda>u. th_current_priority (ks_thread s u))"
    using s1(3) by (auto simp: suspended_def)
  let ?ws = "enqueued flag (\<lambda>u. th_current_priority (ks_thread s u)) t (ks_list s h)"
  obtain xs ys where xy: "ks_list s h = xs @ ys" "?ws = xs @ t # ys" using enqueued_split by blast
  have "kernel_ok (list_set h ?ws s1)"
    unfolding xy(2) by (rule link_wait_ok [OF s1(2) t1(3) h t1(1,2)]) (simp add: l1 xy(1))
  moreover have "ipc_list_suspend h t flag sflag s = Some (RT_EOK, list_set h ?ws s1)"
  proof -
    have "\<not> th_suspended (ks_thread s t)" using t(2) by (simp add: th_suspended_state)
    then show ?thesis
      using s1(1) f(1) by (cases flag) (simp_all add: ipc_list_suspend_def enqueued_def l1 pr)
  qed
  ultimately show ?thesis using s1(3) by blast
qed

text \<open>A timeout the thread timer accepts.\<close>

definition timeout_ok :: "int \<Rightarrow> bool" where
  "timeout_ok timeout \<longleftrightarrow> timeout < 0x7fffffff"

lemma arm_timeout_spec:
  assumes s: "kernel_ok s" and t: "th_object (ks_thread s t) \<noteq> Obj_Null" "th_suspended (ks_thread s t)"
    and k: "timeout_ok timeout" and off: "\<not> tm_activated (ck_timer (ks_clk s) (Thread_Timer t))"
  shows "\<exists>c. arm_timeout t timeout s = Some (upd_clk c s) \<and> kernel_ok (upd_clk c s) \<and>
    timer_frame (Thread_Timer t) (ks_clk s) c \<and>
    tm_activated (ck_timer c (Thread_Timer t)) = (0 < timeout) \<and>
    (0 < timeout \<longrightarrow> tm_timeout_tick (ck_timer c (Thread_Timer t)) = ck_tick (ks_clk s) + word_of_int timeout)"
proof (cases "0 < timeout")
  case True
  have "unat (word_of_int timeout :: u32) = nat timeout"
    using k True by (simp add: timeout_ok_def unsigned_of_int take_bit_int_eq_self)
  with k True have "unat (word_of_int timeout :: u32) < HALF" by (simp add: timeout_ok_def)
  from start_thread_timer_spec [OF s t this] True show ?thesis by (auto simp: arm_timeout_def)
next
  case False
  with s off show ?thesis
    by (intro exI [of _ "ks_clk s"]) (simp add: arm_timeout_def timer_frame_def)
qed

text \<open>The end of every blocking call, once the caller is suspended: link it, arm its timer, reschedule.\<close>

lemma block_end_spec:
  assumes s: "kernel_ok s" "ks_current s = Some t" and h: "wait_head h" and k: "timeout_ok timeout"
    and s1: "suspended t s s1" "kernel_ok (list_set h (xs @ t # ys) s1)"
  shows "\<exists>s2 s3. arm_timeout t timeout (list_set h (xs @ t # ys) s1) = Some s2 \<and> rt_schedule s2 = Some s3 \<and>
    kernel_ok s3 \<and> blocked_in h t (xs @ t # ys) timeout s s3 \<and>
    (ks_lock_nest s = 0 \<longrightarrow> (\<exists>u. u \<noteq> t \<and> runnable u s) \<longrightarrow> runs_highest s3)"
proof -
  let ?s1 = "list_set h (xs @ t # ys) s1"
  have o: "th_object (ks_thread s t) \<noteq> Obj_Null" using sched_invD(8) [OF kernel_okD(1) [OF s(1)] s(2)] by simp
  obtain st where st: "st AND 4 = 4" "st AND 7 = st" "ks_thread s1 = (ks_thread s)(t := set_state st (ks_thread s t))"
    using s1(1) by (auto simp: suspended_def)
  have t1: "th_object (ks_thread ?s1 t) \<noteq> Obj_Null" "th_suspended (ks_thread ?s1 t)"
    using st o by (simp_all add: th_suspended_state th_state_set_state)
  have off: "\<not> tm_activated (ck_timer (ks_clk ?s1) (Thread_Timer t))"
    and tk: "ck_tick (ks_clk s1) = ck_tick (ks_clk s)"
    using s1(1) by (simp_all add: suspended_def timer_frame_def)
  obtain c2 where c2: "arm_timeout t timeout ?s1 = Some (upd_clk c2 ?s1)" "kernel_ok (upd_clk c2 ?s1)"
    "timer_frame (Thread_Timer t) (ks_clk ?s1) c2"
    "tm_activated (ck_timer c2 (Thread_Timer t)) = (0 < timeout)"
    "0 < timeout \<longrightarrow> tm_timeout_tick (ck_timer c2 (Thread_Timer t)) = ck_tick (ks_clk ?s1) + word_of_int timeout"
    using arm_timeout_spec [OF s1(2) t1 k off] by blast
  obtain s3 where s3: "rt_schedule (upd_clk c2 ?s1) = Some s3" "kernel_ok s3" "sched_frame (upd_clk c2 ?s1) s3"
    using schedule_kernel_ok [OF c2(2)] by (auto simp: ok_iff)
  note fr = sched_frameD [OF s3(3)]
  have li: "ks_list s3 k = (if k = h then xs @ t # ys else ks_list s k)" if "wait_head k" for k
    using sched_frame_list [OF s3(3) wait_head_not_ready [OF that]] s1(1) by (simp add: suspended_def)
  have "blocked_in h t (xs @ t # ys) timeout s s3"
    unfolding blocked_in_def
  proof (intro conjI allI impI)
    show "ks_ipc s3 = ks_ipc s" "ks_lock_nest s3 = ks_lock_nest s" "ks_irq_nest s3 = ks_irq_nest s"
      using fr(2-4) s1(1) by (simp_all add: suspended_def)
    show "ks_list s3 h = xs @ t # ys" using li [OF h] by simp
    show "ks_list s3 k = ks_list s k" if "wait_head k" "k \<noteq> h" for k using li that by simp
    show "th_suspended (ks_thread s3 t)" using fr(8) t1 by simp
    show "ck_tick (ks_clk s3) = ck_tick (ks_clk s)" using fr(1) c2(3) tk by (simp add: timer_frame_def)
    show "tm_activated (ck_timer (ks_clk s3) (Thread_Timer t)) = (0 < timeout)" using fr(1) c2(4) by simp
    show "0 < timeout \<Longrightarrow> tm_timeout_tick (ck_timer (ks_clk s3) (Thread_Timer t)) =
        ck_tick (ks_clk s) + word_of_int timeout" using fr(1) c2(5) tk by simp
    fix u
    show "th_error (ks_thread s3 u) = th_error (ks_thread s u)"
      "th_object (ks_thread s3 u) = th_object (ks_thread s u)"
      "th_current_priority (ks_thread s3 u) = th_current_priority (ks_thread s u)"
      "th_event_set (ks_thread s3 u) = th_event_set (ks_thread s u)"
      "th_event_info (ks_thread s3 u) = th_event_info (ks_thread s u)"
      using fr(9-11,15,16) [of u] st(3) by simp_all
    show "th_suspended (ks_thread s3 u) = th_suspended (ks_thread s u)" if "u \<noteq> t"
      using fr(8) [of u] st(3) that by simp
  qed
  moreover have "runs_highest s3" if u: "u \<noteq> t" "runnable u s" and l: "ks_lock_nest s = 0" for u
  proof (rule schedule_runs [OF c2(2) _ _ s3(1)])
    show "runnable u (upd_clk c2 ?s1)" using u st(3) by (simp add: runnable_def)
    show "ks_lock_nest (upd_clk c2 ?s1) = 0" using l s1(1) by (simp add: suspended_def)
  qed
  ultimately show ?thesis using c2(1) s3(1,2) by blast
qed

lemma block_on_spec:
  assumes s: "kernel_ok s" and t: "may_block t s"
    and f: "flag \<noteq> Bad_Flag" "sflag \<noteq> Bad_Suspend_Flag" and h: "wait_head h" and k: "timeout_ok timeout"
  shows "\<exists>s'. block_on h t flag sflag timeout s = Some (Blocked, s') \<and> kernel_ok s' \<and>
    blocked_on h t flag timeout s s' \<and>
    (ks_lock_nest s = 0 \<longrightarrow> (\<exists>u. u \<noteq> t \<and> runnable u s) \<longrightarrow> runs_highest s')"
proof -
  have c: "ks_current s = Some t" "th_state (ks_thread s t) = 3" using t by (simp_all add: may_block_def)
  let ?ws = "enqueued flag (\<lambda>u. th_current_priority (ks_thread s u)) t (ks_list s h)"
  obtain s1 where s1: "ipc_list_suspend h t flag sflag s = Some (RT_EOK, list_set h ?ws s1)"
    "kernel_ok (list_set h ?ws s1)" "suspended t s s1"
    using ipc_list_suspend_spec [OF s c f h] by blast
  obtain xs ys where xy: "?ws = xs @ t # ys" using enqueued_split by blast
  obtain s2 s3 where s3: "arm_timeout t timeout (list_set h ?ws s1) = Some s2" "rt_schedule s2 = Some s3"
    "kernel_ok s3" "blocked_in h t ?ws timeout s s3"
    "ks_lock_nest s = 0 \<longrightarrow> (\<exists>u. u \<noteq> t \<and> runnable u s) \<longrightarrow> runs_highest s3"
    using block_end_spec [OF s c(1) h k s1(3)] s1(2) unfolding xy by blast
  then show ?thesis using s1(1) by (simp add: block_on_def blocked_on_def)
qed

section \<open>Waking\<close>

text \<open>A waiter on the list of an object is suspended and on no other list.\<close>

lemma waiter_facts:
  assumes "kernel_ok s" "t \<in> set (ks_list s h)" "wait_head h"
  shows "th_object (ks_thread s t) \<noteq> Obj_Null" "th_suspended (ks_thread s t)"
    "\<And>k. k \<noteq> h \<Longrightarrow> t \<notin> set (ks_list s k)" "ks_list s h = t # ws \<Longrightarrow> removeAll t (ks_list s h) = ws"
proof -
  note d = sched_invD [OF kernel_okD(1) [OF assms(1)]]
  show "th_object (ks_thread s t) \<noteq> Obj_Null" "th_suspended (ks_thread s t)"
    using d(3) [OF assms(2)] assms(3) by (simp_all add: fits_wait)
  show "\<And>k. k \<noteq> h \<Longrightarrow> t \<notin> set (ks_list s k)" using d(2) [OF assms(2)] by blast
  show "ks_list s h = t # ws \<Longrightarrow> removeAll t (ks_list s h) = ws"
    using d(1) [of h] by (simp add: removeAll_notin)
qed

text \<open>What waking the first waiter of \<open>h\<close> with error code \<open>e\<close> leaves behind.\<close>

definition woke_first :: "lhead \<Rightarrow> int \<Rightarrow> kstate \<Rightarrow> kstate \<Rightarrow> bool" where
  "woke_first h e s s' \<longleftrightarrow> (\<exists>t ws. ks_list s h = t # ws \<and> ks_list s' h = ws \<and>
     (\<forall>k. wait_head k \<longrightarrow> k \<noteq> h \<longrightarrow> ks_list s' k = ks_list s k) \<and>
     ks_ipc s' = ks_ipc s \<and> ks_lock_nest s' = ks_lock_nest s \<and> ks_irq_nest s' = ks_irq_nest s \<and>
     ks_current s' = ks_current s \<and>
     (\<forall>u. u \<noteq> t \<longrightarrow> ks_thread s' u = ks_thread s u) \<and>
     th_error (ks_thread s' t) = e \<and> th_state (ks_thread s' t) \<in> {2, 3} \<and>
     th_object (ks_thread s' t) = th_object (ks_thread s t) \<and>
     th_current_priority (ks_thread s' t) = th_current_priority (ks_thread s t) \<and>
     ck_tick (ks_clk s') = ck_tick (ks_clk s) \<and>
     (\<forall>p. p \<noteq> Thread_Timer t \<longrightarrow> ck_timer (ks_clk s') p = ck_timer (ks_clk s) p) \<and>
     \<not> tm_activated (ck_timer (ks_clk s') (Thread_Timer t)))"

lemma wake_waiter:
  assumes s: "kernel_ok s" and l: "ks_list s h = t # ws" and h: "wait_head h"
  shows "\<exists>s'. rt_thread_resume t (upd_thread t (\<lambda>th. th\<lparr>th_error := e\<rparr>) s) = Some (RT_EOK, s') \<and>
    kernel_ok s' \<and> woke_first h e s s'"
proof -
  let ?s1 = "upd_thread t (\<lambda>th. th\<lparr>th_error := e\<rparr>) s"
  have "t \<in> set (ks_list s h)" using l by simp
  note w = waiter_facts [OF s this h]
  have k1: "kernel_ok ?s1" by (rule kernel_ok_upd_same [OF s]) simp
  have "th_suspended (ks_thread ?s1 t)" using w(2) by (simp add: th_suspended_state)
  with resume_spec [OF k1, of t] w(1) obtain s' where
    s': "rt_thread_resume t ?s1 = Some (RT_EOK, s')" "kernel_ok s'" "resumed t ?s1 s'" by auto
  have li: "ks_list s' k = removeAll t (ks_list s k)" if "wait_head k" for k
    using s'(3) wait_head_not_ready [OF that] by (simp add: resumed_def)
  have "ks_list s' h = ws" using li [OF h] w(4) [OF l] by simp
  moreover have "ks_list s' k = ks_list s k" if "wait_head k" "k \<noteq> h" for k
    using li that w(3) [of k] by (simp add: removeAll_notin)
  ultimately have "woke_first h e s s'"
    using s'(3) l unfolding woke_first_def resumed_def timer_frame_def
    by (intro exI [of _ t] exI [of _ ws]) simp
  with s'(1,2) show ?thesis by blast
qed

lemma ipc_list_resume_spec:
  assumes "kernel_ok s" "ks_list s h \<noteq> []" "wait_head h"
  shows "\<exists>s'. ipc_list_resume h s = Some (RT_EOK, s') \<and> kernel_ok s' \<and> woke_first h RT_EOK s s'"
proof -
  obtain t ws where l: "ks_list s h = t # ws" using assms(2) by (cases "ks_list s h") auto
  from wake_waiter [OF assms(1) l assms(3), of RT_EOK] l show ?thesis
    by (auto simp: ipc_list_resume_def)
qed

text \<open>The loop that wakes all waiters ends, with the list empty and every waiter's error set.\<close>

lemma ipc_list_resume_all_spec:
  assumes "kernel_ok s" "wait_head h"
  shows "\<exists>s'. ipc_list_resume_all h s = Some s' \<and> kernel_ok s' \<and> ks_list s' h = [] \<and>
    (\<forall>k. wait_head k \<longrightarrow> k \<noteq> h \<longrightarrow> ks_list s' k = ks_list s k) \<and> ks_ipc s' = ks_ipc s \<and>
    ks_current s' = ks_current s \<and> ks_lock_nest s' = ks_lock_nest s \<and>
    (\<forall>t \<in> set (ks_list s h). th_error (ks_thread s' t) = - RT_ERROR \<and> th_state (ks_thread s' t) \<in> {2, 3}) \<and>
    (\<forall>t. t \<notin> set (ks_list s h) \<longrightarrow> ks_thread s' t = ks_thread s t)"
  using assms
proof (induction "ks_list s h" arbitrary: s)
  case Nil
  then show ?case by (subst ipc_list_resume_all.simps) simp
next
  case (Cons t ws)
  from wake_waiter [OF Cons.prems(1) Cons.hyps(2) [symmetric] Cons.prems(2), of "- RT_ERROR"] obtain s1 where
    s1: "rt_thread_resume t (upd_thread t (\<lambda>th. th\<lparr>th_error := - RT_ERROR\<rparr>) s) = Some (RT_EOK, s1)"
    "kernel_ok s1" "woke_first h (- RT_ERROR) s s1" by blast
  have w1: "ks_list s1 h = ws" "\<forall>k. wait_head k \<longrightarrow> k \<noteq> h \<longrightarrow> ks_list s1 k = ks_list s k"
    "ks_ipc s1 = ks_ipc s" "ks_current s1 = ks_current s" "ks_lock_nest s1 = ks_lock_nest s"
    "\<forall>u. u \<noteq> t \<longrightarrow> ks_thread s1 u = ks_thread s u"
    "th_error (ks_thread s1 t) = - RT_ERROR" "th_state (ks_thread s1 t) \<in> {2, 3}"
    using s1(3) Cons.hyps(2) [symmetric] by (auto simp: woke_first_def)
  have "t \<notin> set ws"
    using sched_invD(1) [OF kernel_okD(1) [OF Cons.prems(1)], of h] Cons.hyps(2) [symmetric] by simp
  moreover from Cons.hyps(1) [OF w1(1) [symmetric] s1(2) Cons.prems(2)] obtain s' where
    s': "ipc_list_resume_all h s1 = Some s'" "kernel_ok s'" "ks_list s' h = []"
    "\<forall>k. wait_head k \<longrightarrow> k \<noteq> h \<longrightarrow> ks_list s' k = ks_list s1 k" "ks_ipc s' = ks_ipc s1"
    "ks_current s' = ks_current s1" "ks_lock_nest s' = ks_lock_nest s1"
    "\<forall>t \<in> set ws. th_error (ks_thread s' t) = - RT_ERROR \<and> th_state (ks_thread s' t) \<in> {2, 3}"
    "\<forall>t. t \<notin> set ws \<longrightarrow> ks_thread s' t = ks_thread s1 t"
    unfolding w1(1) by blast
  moreover have "ipc_list_resume_all h s = Some s'"
    using s1(1) s'(1) Cons.hyps(2) [symmetric] by (subst ipc_list_resume_all.simps) simp
  ultimately show ?case using w1 Cons.hyps(2) [symmetric] by (intro exI [of _ s']) auto
qed

text \<open>Resetting the error field of the caller does not affect its right to block.\<close>

lemma may_block_upd_error [simp]: "may_block t (upd_thread u (\<lambda>th. th\<lparr>th_error := e\<rparr>) s) = may_block t s"
  by (simp add: may_block_def)

lemma upd_error_ok: "kernel_ok s \<Longrightarrow> kernel_ok (upd_thread t (\<lambda>th. th\<lparr>th_error := e\<rparr>) s)"
  by (rule kernel_ok_upd_same) simp_all

lemma upd_error_prio [simp]:
  "(\<lambda>u. th_current_priority (ks_thread (upd_thread t (\<lambda>th. th\<lparr>th_error := e\<rparr>) s) u)) =
   (\<lambda>u. th_current_priority (ks_thread s u))"
  by auto

text \<open>Waking the other side: its queue loses its head, who becomes runnable with error RT_EOK.\<close>

lemma ipc_wake_one_spec:
  assumes s: "kernel_ok s" and h: "wait_head h"
  shows "\<exists>s'. ipc_wake_one h s = Some (RT_EOK, s') \<and> kernel_ok s' \<and> ks_ipc s' = ks_ipc s \<and>
    ks_list s' h = tl (ks_list s h) \<and> (\<forall>k. wait_head k \<longrightarrow> k \<noteq> h \<longrightarrow> ks_list s' k = ks_list s k) \<and>
    ks_lock_nest s' = ks_lock_nest s \<and> ks_irq_nest s' = ks_irq_nest s \<and>
    (\<forall>w ws. ks_list s h = w # ws \<longrightarrow> th_error (ks_thread s' w) = RT_EOK \<and> th_state (ks_thread s' w) \<in> {2, 3}) \<and>
    (ks_lock_nest s = 0 \<longrightarrow> runs_highest s \<longrightarrow> runs_highest s')"
proof (cases "ks_list s h")
  case Nil
  with s show ?thesis by (simp add: ipc_wake_one_def)
next
  case (Cons w ws)
  obtain s1 where s1: "ipc_list_resume h s = Some (RT_EOK, s1)" "kernel_ok s1" "woke_first h RT_EOK s s1"
    using ipc_list_resume_spec [OF s _ h] Cons by auto
  have w: "ks_list s1 h = ws" "ks_ipc s1 = ks_ipc s" "th_error (ks_thread s1 w) = 0"
    "th_state (ks_thread s1 w) \<in> {2, 3}" "ks_lock_nest s1 = ks_lock_nest s" "ks_irq_nest s1 = ks_irq_nest s"
    "th_object (ks_thread s1 w) = th_object (ks_thread s w)"
    "\<forall>k. wait_head k \<longrightarrow> k \<noteq> h \<longrightarrow> ks_list s1 k = ks_list s k"
    using s1(3) Cons by (auto simp: woke_first_def)
  obtain s2 where s2: "rt_schedule s1 = Some s2" "kernel_ok s2" "sched_frame s1 s2"
    using schedule_kernel_ok [OF s1(2)] by (auto simp: ok_iff)
  have li: "ks_list s2 k = ks_list s1 k" if "wait_head k" for k
    by (rule sched_frame_list [OF s2(3) wait_head_not_ready [OF that]])
  have "ipc_wake_one h s = Some (RT_EOK, s2)" using Cons s1(1) s2(1) by (simp add: ipc_wake_one_def)
  moreover have "runs_highest s2" if l: "ks_lock_nest s = 0"
  proof (rule schedule_runs [OF s1(2) _ _ s2(1)])
    have "w \<in> set (ks_list s h)" using Cons by simp
    then show "runnable w s1" using w(4,7) waiter_facts(1) [OF s _ h] by (simp add: runnable_def)
    show "ks_lock_nest s1 = 0" using l w(5) by simp
  qed
  moreover have "th_state (ks_thread s2 w) \<in> {2, 3}" "th_error (ks_thread s2 w) = 0"
    using sched_frame_runnable [OF s2(3) w(4)] sched_frameD(10) [OF s2(3), of w] w(3) by simp_all
  ultimately show ?thesis
    using s2(2) sched_frameD(2-4) [OF s2(3)] w li h Cons by (intro exI [of _ s2]) simp
qed

text \<open>The remaining time keeps the deadline: start + timeout, or now when that has passed.\<close>

lemma remaining_time_pos:
  assumes "0 < timeout" "timeout < 2 ^ 31" "unat (now - start) < 2 ^ 31"
  shows "remaining_time timeout start now = max 0 (timeout - int (unat (now - start)))"
proof -
  let ?d = "unat (now - start)"
  have d: "now - start = word_of_int (int ?d)" by simp
  have "sint (word_of_int timeout - (now - start) :: u32) = timeout - int ?d"
  proof -
    have "(word_of_int timeout - (now - start) :: u32) = word_of_int (timeout - int ?d)"
      by (subst d) (simp add: wi_hom_syms)
    also have "sint (word_of_int (timeout - int ?d) :: u32) = timeout - int ?d"
    proof -
      have "0 \<le> int ?d" "int ?d < 2 ^ 31"
        using assms(3) by (simp_all del: of_nat_unat)
      with assms(1,2) have "- (2 ^ 31) \<le> timeout - int ?d" "timeout - int ?d < 2 ^ 31"
        by (simp_all del: of_nat_unat)
      then have "signed_take_bit 31 (timeout - int ?d) = timeout - int ?d" by (rule signed_take_bit_int_eq_self)
      then show ?thesis unfolding signed_of_int by simp
    qed
    finally show ?thesis .
  qed
  with assms(1) show ?thesis by (simp add: remaining_time_def Let_def)
qed

lemma remaining_time_deadline:
  assumes "0 < timeout" "timeout < 2 ^ 31" "unat (now - start) < 2 ^ 31" "0 < remaining_time timeout start now"
  shows "now + word_of_int (remaining_time timeout start now) = start + word_of_int timeout"
    "remaining_time timeout start now \<le> timeout"
proof -
  have r: "remaining_time timeout start now = timeout - int (unat (now - start))"
    using remaining_time_pos [OF assms(1-3)] assms(4) by simp
  show "now + word_of_int (remaining_time timeout start now) = start + word_of_int timeout"
    unfolding r by simp
  show "remaining_time timeout start now \<le> timeout" unfolding r by simp
qed

lemma remaining_time_ok:
  assumes "timeout_ok timeout" "unat (now - start) < 2 ^ 31"
  shows "timeout_ok (remaining_time timeout start now)"
proof (cases "0 < timeout")
  case True
  have b: "timeout < 2 ^ 31" using assms(1) by (simp add: timeout_ok_def)
  show ?thesis using assms(1)
    unfolding remaining_time_pos [OF True b assms(2)] timeout_ok_def by (simp del: of_nat_unat)
qed (use assms in \<open>simp add: remaining_time_def\<close>)

text \<open>The wait of the calls that first reset the error field of the caller to -RT_EINTR.\<close>

lemma block_on_reset:
  assumes s: "kernel_ok s" and t: "may_block t s" and f: "flag \<noteq> Bad_Flag" "sflag \<noteq> Bad_Suspend_Flag"
    and h: "wait_head h" and k: "timeout_ok timeout"
  shows "\<exists>s'. block_on h t flag sflag timeout (upd_thread t (\<lambda>th. th\<lparr>th_error := - RT_EINTR\<rparr>) s) = Some (Blocked, s') \<and>
    kernel_ok s' \<and> ks_ipc s' = ks_ipc s \<and>
    ks_list s' h = enqueued flag (\<lambda>u. th_current_priority (ks_thread s u)) t (ks_list s h) \<and>
    (\<forall>k. wait_head k \<longrightarrow> k \<noteq> h \<longrightarrow> ks_list s' k = ks_list s k) \<and>
    th_suspended (ks_thread s' t) \<and> th_error (ks_thread s' t) = - RT_EINTR \<and>
    tm_activated (ck_timer (ks_clk s') (Thread_Timer t)) = (0 < timeout) \<and>
    (0 < timeout \<longrightarrow> tm_timeout_tick (ck_timer (ks_clk s') (Thread_Timer t)) =
       ck_tick (ks_clk s) + word_of_int timeout) \<and>
    (ks_lock_nest s = 0 \<longrightarrow> (\<exists>u. u \<noteq> t \<and> runnable u s) \<longrightarrow> runs_highest s')"
proof -
  let ?s1 = "upd_thread t (\<lambda>th. th\<lparr>th_error := - RT_EINTR\<rparr>) s"
  have "may_block t ?s1" using t by simp
  from block_on_spec [OF upd_error_ok [OF s] this f h k] obtain s' where
    s': "block_on h t flag sflag timeout ?s1 = Some (Blocked, s')" "kernel_ok s'" "blocked_on h t flag timeout ?s1 s'"
    "ks_lock_nest ?s1 = 0 \<longrightarrow> (\<exists>u. u \<noteq> t \<and> runnable u ?s1) \<longrightarrow> runs_highest s'" by blast
  moreover have "runnable u ?s1 = runnable u s" for u by (simp add: runnable_def)
  ultimately show ?thesis unfolding blocked_on_def' upd_error_prio by (intro exI [of _ s']) simp
qed

end
