(* ===== verification/Semaphore.thy ===== *)
theory Semaphore
  imports Ipc_Base
begin

text \<open>
  Counting semaphores, the \<open>RT_USING_SEMAPHORE\<close> part of \<open>src/ipc.c\<close>, and their refinement of an
  abstract counting semaphore: a count and a queue of waiters, one of which is always empty.
\<close>

section \<open>Operations\<close>

definition RT_SEM_VALUE_MAX :: u16 where "RT_SEM_VALUE_MAX = 0xffff"

abbreviation sem_head :: "nat \<Rightarrow> lhead" where "sem_head i \<equiv> Suspend (Sem i)"

definition the_sem :: "nat \<Rightarrow> kstate \<Rightarrow> rt_semaphore" where
  "the_sem i s = ipc_sem (ks_ipc s) i"

definition upd_sem :: "nat \<Rightarrow> (rt_semaphore \<Rightarrow> rt_semaphore) \<Rightarrow> kstate \<Rightarrow> kstate" where
  "upd_sem i f = upd_ipc (\<lambda>x. x\<lparr>ipc_sem := (ipc_sem x)(i := f (ipc_sem x i))\<rparr>)"

text \<open>\<open>_ipc_object_init\<close> makes the suspend list of the object empty.\<close>

definition rt_sem_init :: "nat \<Rightarrow> nat \<Rightarrow> ipc_flag \<Rightarrow> kstate \<Rightarrow> (int \<times> kstate) option" where
  "rt_sem_init i value flag s = do {
     rt_assert (value < 0x10000);
     rt_assert (flag \<noteq> Bad_Flag);
     rt_assert (sem_object (the_sem i s) = Obj_Null);
     let s = upd_sem i (\<lambda>x. x\<lparr>sem_object := Obj_Static\<rparr>) s;
     let s = list_set (sem_head i) [] s;
     let s = upd_sem i (\<lambda>x. x\<lparr>sem_value := word_of_nat value\<rparr>) s;
     Some (RT_EOK, upd_sem i (\<lambda>x. x\<lparr>sem_flag := flag\<rparr>) s)
   }"

definition rt_sem_detach :: "nat \<Rightarrow> kstate \<Rightarrow> (int \<times> kstate) option" where
  "rt_sem_detach i s = do {
     rt_assert (sem_object (the_sem i s) \<noteq> Obj_Null);
     rt_assert (sem_object (the_sem i s) = Obj_Static);
     s \<leftarrow> ipc_list_resume_all (sem_head i) s;
     Some (RT_EOK, upd_sem i (\<lambda>x. x\<lparr>sem_object := Obj_Null\<rparr>) s)
   }"

definition rt_sem_delete :: "nat \<Rightarrow> kstate \<Rightarrow> (int \<times> kstate) option" where
  "rt_sem_delete i s = do {
     rt_assert (sem_object (the_sem i s) \<noteq> Obj_Null);
     rt_assert (sem_object (the_sem i s) \<noteq> Obj_Static);
     rt_assert (ks_irq_nest s = 0);
     s \<leftarrow> ipc_list_resume_all (sem_head i) s;
     Some (RT_EOK, upd_sem i (\<lambda>x. x\<lparr>sem_object := Obj_Null\<rparr>) s)
   }"

definition sem_take :: "nat \<Rightarrow> int \<Rightarrow> suspend_flag \<Rightarrow> kstate \<Rightarrow> (outcome \<times> kstate) option" where
  "sem_take i timeout sflag s = do {
     rt_assert (sem_object (the_sem i s) \<noteq> Obj_Null);
     if 0 < sem_value (the_sem i s)
     then Some (Ret RT_EOK, upd_sem i (\<lambda>x. x\<lparr>sem_value := sem_value x - 1\<rparr>) s)
     else if timeout = 0 then Some (Ret (- RT_ETIMEOUT), s)
     else do {
       scheduler_available s;
       t \<leftarrow> rt_thread_self s;
       block_on (sem_head i) t (sem_flag (the_sem i s)) sflag timeout
         (upd_thread t (\<lambda>th. th\<lparr>th_error := - RT_EINTR\<rparr>) s)
     }
   }"

definition sem_take_resume :: "tid \<Rightarrow> kstate \<Rightarrow> int" where
  "sem_take_resume t s = (if th_error (ks_thread s t) \<noteq> RT_EOK then th_error (ks_thread s t) else RT_EOK)"

definition rt_sem_take :: "nat \<Rightarrow> int \<Rightarrow> kstate \<Rightarrow> (outcome \<times> kstate) option" where
  "rt_sem_take i time = sem_take i time RT_UNINTERRUPTIBLE"

definition rt_sem_take_interruptible :: "nat \<Rightarrow> int \<Rightarrow> kstate \<Rightarrow> (outcome \<times> kstate) option" where
  "rt_sem_take_interruptible i time = sem_take i time RT_INTERRUPTIBLE"

definition rt_sem_take_killable :: "nat \<Rightarrow> int \<Rightarrow> kstate \<Rightarrow> (outcome \<times> kstate) option" where
  "rt_sem_take_killable i time = sem_take i time RT_KILLABLE"

definition rt_sem_trytake :: "nat \<Rightarrow> kstate \<Rightarrow> (outcome \<times> kstate) option" where
  "rt_sem_trytake i = rt_sem_take i 0"

definition rt_sem_release :: "nat \<Rightarrow> kstate \<Rightarrow> (int \<times> kstate) option" where
  "rt_sem_release i s = do {
     rt_assert (sem_object (the_sem i s) \<noteq> Obj_Null);
     if ks_list s (sem_head i) \<noteq> [] then do {
       (_, s) \<leftarrow> ipc_list_resume (sem_head i) s;
       s \<leftarrow> rt_schedule s;
       Some (RT_EOK, s)
     }
     else if sem_value (the_sem i s) < RT_SEM_VALUE_MAX
     then Some (RT_EOK, upd_sem i (\<lambda>x. x\<lparr>sem_value := sem_value x + 1\<rparr>) s)
     else Some (- RT_EFULL, s)
   }"

text \<open>\<open>rt_sem_control\<close>: \<open>Some value\<close> is \<open>RT_IPC_CMD_RESET\<close>, \<open>None\<close> any other command.\<close>

definition rt_sem_control :: "nat \<Rightarrow> u32 option \<Rightarrow> kstate \<Rightarrow> (int \<times> kstate) option" where
  "rt_sem_control i cmd s = do {
     rt_assert (sem_object (the_sem i s) \<noteq> Obj_Null);
     (case cmd of
        None \<Rightarrow> Some (- RT_ERROR, s)
      | Some value \<Rightarrow> do {
          s \<leftarrow> ipc_list_resume_all (sem_head i) s;
          let s = upd_sem i (\<lambda>x. x\<lparr>sem_value := ucast value\<rparr>) s;
          s \<leftarrow> rt_schedule s;
          Some (RT_EOK, s)
        })
   }"

section \<open>The abstract semaphore\<close>

text \<open>What a semaphore is to its clients: a count of tokens and a queue of waiting threads.\<close>

definition sem_abs :: "nat \<Rightarrow> kstate \<Rightarrow> nat \<times> tid list" where
  "sem_abs i s = (unat (sem_value (the_sem i s)), ks_list s (sem_head i))"

datatype abs_outcome = Taken | No_Token | Must_Wait

fun abs_take :: "(tid list \<Rightarrow> tid list) \<Rightarrow> bool \<Rightarrow> nat \<times> tid list \<Rightarrow> abs_outcome \<times> nat \<times> tid list" where
  "abs_take enq wait (v, ws) =
     (if 0 < v then (Taken, v - 1, ws) else if wait then (Must_Wait, 0, enq ws) else (No_Token, 0, ws))"

fun abs_release :: "nat \<times> tid list \<Rightarrow> (tid option \<times> nat \<times> tid list) option" where
  "abs_release (v, w # ws) = Some (Some w, v, ws)"
| "abs_release (v, []) = (if v < 65535 then Some (None, v + 1, []) else None)"

definition sem_inv :: "nat \<Rightarrow> kstate \<Rightarrow> bool" where
  "sem_inv i s \<longleftrightarrow> kernel_ok s \<and> sem_object (the_sem i s) \<noteq> Obj_Null \<and> sem_flag (the_sem i s) \<noteq> Bad_Flag \<and>
     (sem_value (the_sem i s) = 0 \<or> ks_list s (sem_head i) = [])"

lemma the_sem_simps [simp]:
  "the_sem i (upd_sem i f s) = f (the_sem i s)" "j \<noteq> i \<Longrightarrow> the_sem j (upd_sem i f s) = the_sem j s"
  "ks_list (upd_sem i f s) = ks_list s" "ks_thread (upd_sem i f s) = ks_thread s"
  "ks_current (upd_sem i f s) = ks_current s" "ks_clk (upd_sem i f s) = ks_clk s"
  "kernel_ok (upd_sem i f s) = kernel_ok s"
  "the_sem i (upd_thread t g s) = the_sem i s" "the_sem i (list_set h ws s) = the_sem i s"
  by (simp_all add: the_sem_def upd_sem_def)

lemma the_sem_cong: "ks_ipc s' = ks_ipc s \<Longrightarrow> the_sem i s' = the_sem i s"
  by (simp add: the_sem_def)

lemma sem_take_spec:
  assumes s: "sem_inv i s" and t: "may_block t s" and f: "sflag \<noteq> Bad_Suspend_Flag" and k: "timeout_ok timeout"
  shows "\<exists>r s'. sem_take i timeout sflag s = Some (r, s') \<and> sem_inv i s' \<and>
    sem_object (the_sem i s') = sem_object (the_sem i s) \<and>
    (case abs_take (enqueued (sem_flag (the_sem i s)) (\<lambda>u. th_current_priority (ks_thread s u)) t)
         (timeout \<noteq> 0) (sem_abs i s) of
       (Taken, a) \<Rightarrow> r = Ret RT_EOK \<and> sem_abs i s' = a
     | (No_Token, a) \<Rightarrow> r = Ret (- RT_ETIMEOUT) \<and> sem_abs i s' = a
     | (Must_Wait, a) \<Rightarrow> r = Blocked \<and> sem_abs i s' = a \<and> th_suspended (ks_thread s' t) \<and>
         th_error (ks_thread s' t) = - RT_EINTR \<and>
         tm_activated (ck_timer (ks_clk s') (Thread_Timer t)) = (0 < timeout))"
proof -
  have k0: "kernel_ok s" "sem_object (the_sem i s) \<noteq> Obj_Null" "sem_flag (the_sem i s) \<noteq> Bad_Flag"
    using s by (simp_all add: sem_inv_def)
  consider (token) "0 < sem_value (the_sem i s)" | (poll) "sem_value (the_sem i s) = 0" "timeout = 0"
    | (wait) "sem_value (the_sem i s) = 0" "timeout \<noteq> 0"
    by (metis word_neq_0_conv)
  then show ?thesis
  proof cases
    case token
    let ?s = "upd_sem i (\<lambda>x. x\<lparr>sem_value := sem_value x - 1\<rparr>) s"
    have "ks_list s (sem_head i) = []" using s token by (auto simp: sem_inv_def)
    moreover have "unat (sem_value (the_sem i s) - 1) = unat (sem_value (the_sem i s)) - 1"
      using token by (intro unat_minus_one) auto
    moreover have "0 < unat (sem_value (the_sem i s))" using token by (simp add: unat_gt_0 word_neq_0_conv)
    ultimately show ?thesis
      using token k0 by (intro exI [of _ "Ret RT_EOK"] exI [of _ ?s]) (simp add: sem_take_def sem_inv_def sem_abs_def)
  next
    case poll
    with k0 s show ?thesis by (simp add: sem_take_def sem_abs_def)
  next
    case wait
    let ?s1 = "upd_thread t (\<lambda>th. th\<lparr>th_error := - RT_EINTR\<rparr>) s"
    from block_on_spec [of ?s1 t "sem_flag (the_sem i s)" sflag "sem_head i" timeout] obtain s' where
      s': "block_on (sem_head i) t (sem_flag (the_sem i s)) sflag timeout ?s1 = Some (Blocked, s')"
      "kernel_ok s'" "blocked_on (sem_head i) t (sem_flag (the_sem i s)) timeout ?s1 s'"
      using upd_error_ok [OF k0(1)] t f k k0(3) by auto
    have c: "ks_current s = Some t" using t by (simp add: may_block_def)
    have "sem_take i timeout sflag s = Some (Blocked, s')"
      using wait k0 c s'(1) may_block_available [OF t] by (simp add: sem_take_def rt_thread_self_def)
    moreover have "the_sem i s' = the_sem i s"
      using s'(3) by (intro the_sem_cong) (simp add: blocked_on_def')
    moreover have "ks_list s' (sem_head i) = enqueued (sem_flag (the_sem i s))
        (\<lambda>u. th_current_priority (ks_thread s u)) t (ks_list s (sem_head i))"
      using s'(3) unfolding blocked_on_def' upd_error_prio by simp
    ultimately show ?thesis
      using s'(2,3) wait k0
      by (intro exI [of _ Blocked] exI [of _ s']) (simp add: sem_inv_def sem_abs_def blocked_on_def')
  qed
qed

lemma sched_frame_sem:
  assumes "sched_frame s s'"
  shows "the_sem i s' = the_sem i s" "ks_list s' (sem_head i) = ks_list s (sem_head i)"
  using sched_frameD [OF assms] by (simp_all add: the_sem_def)

lemma sem_release_spec:
  assumes s: "sem_inv i s"
  shows "\<exists>e s'. rt_sem_release i s = Some (e, s') \<and> sem_inv i s' \<and>
    (case abs_release (sem_abs i s) of
       None \<Rightarrow> e = - RT_EFULL \<and> s' = s
     | Some (None, a) \<Rightarrow> e = RT_EOK \<and> sem_abs i s' = a
     | Some (Some w, a) \<Rightarrow> e = RT_EOK \<and> sem_abs i s' = a \<and>
         th_state (ks_thread s' w) \<in> {2, 3} \<and> sem_take_resume w s' = RT_EOK)"
proof (cases "ks_list s (sem_head i)")
  case Nil
  have k0: "kernel_ok s" "sem_object (the_sem i s) \<noteq> Obj_Null" "sem_flag (the_sem i s) \<noteq> Bad_Flag"
    using s by (simp_all add: sem_inv_def)
  have max: "sem_value (the_sem i s) < 0xffff \<longleftrightarrow> unat (sem_value (the_sem i s)) < 65535"
    by (simp add: word_less_nat_alt)
  show ?thesis
  proof (cases "sem_value (the_sem i s) < 0xffff")
    case True
    then have "unat (sem_value (the_sem i s) + 1) = unat (sem_value (the_sem i s)) + 1"
      using max by (simp add: unat_word_ariths)
    with True max Nil k0 show ?thesis
      by (simp add: rt_sem_release_def RT_SEM_VALUE_MAX_def sem_inv_def sem_abs_def)
  next
    case False
    with max Nil k0 s show ?thesis
      by (simp add: rt_sem_release_def RT_SEM_VALUE_MAX_def sem_abs_def)
  qed
next
  case (Cons w ws)
  have k0: "kernel_ok s" "sem_object (the_sem i s) \<noteq> Obj_Null" "sem_flag (the_sem i s) \<noteq> Bad_Flag"
    "sem_value (the_sem i s) = 0" using s Cons by (simp_all add: sem_inv_def)
  obtain s1 where s1: "ipc_list_resume (sem_head i) s = Some (RT_EOK, s1)" "kernel_ok s1"
    "woke_first (sem_head i) RT_EOK s s1"
    using ipc_list_resume_spec [OF k0(1), of "sem_head i"] Cons by auto
  have w: "ks_list s1 (sem_head i) = ws" "the_sem i s1 = the_sem i s" "th_error (ks_thread s1 w) = 0"
    "th_state (ks_thread s1 w) \<in> {2, 3}"
    using s1(3) Cons by (auto simp: woke_first_def the_sem_def)
  obtain s2 where s2: "rt_schedule s1 = Some s2" "kernel_ok s2" "sched_frame s1 s2"
    using schedule_kernel_ok [OF s1(2)] by (auto simp: ok_iff)
  have "rt_sem_release i s = Some (RT_EOK, s2)"
    using k0 Cons s1(1) s2(1) by (simp add: rt_sem_release_def)
  moreover have "th_state (ks_thread s2 w) \<in> {2, 3}" "th_error (ks_thread s2 w) = 0"
    using sched_frame_runnable [OF s2(3) w(4)] sched_frameD(10) [OF s2(3), of w] w(3) by simp_all
  ultimately show ?thesis
    using s2(2) sched_frame_sem [OF s2(3)] w k0 Cons
    by (simp add: sem_inv_def sem_abs_def sem_take_resume_def)
qed

section \<open>Properties\<close>

text \<open>
  C14: Taking a semaphore refines the abstract counting semaphore: with a token available it takes
  one and returns RT_EOK at once; without one it returns -RT_ETIMEOUT when told not to wait, and
  otherwise suspends the caller at the place in the queue its FIFO or priority discipline gives
  it, its timer armed exactly when the timeout is positive. There are never tokens and waiters
  at once.
\<close>
theorem sem_take_refines_counting_semaphore:
  assumes "sem_inv i s" "may_block t s" "sflag \<noteq> Bad_Suspend_Flag" "timeout_ok timeout"
  shows "\<exists>r s'. sem_take i timeout sflag s = Some (r, s') \<and> sem_inv i s' \<and>
    (case abs_take (enqueued (sem_flag (the_sem i s)) (\<lambda>u. th_current_priority (ks_thread s u)) t)
         (timeout \<noteq> 0) (sem_abs i s) of
       (Taken, a) \<Rightarrow> r = Ret RT_EOK \<and> sem_abs i s' = a
     | (No_Token, a) \<Rightarrow> r = Ret (- RT_ETIMEOUT) \<and> sem_abs i s' = a
     | (Must_Wait, a) \<Rightarrow> r = Blocked \<and> sem_abs i s' = a \<and> th_suspended (ks_thread s' t) \<and>
         th_error (ks_thread s' t) = - RT_EINTR \<and>
         tm_activated (ck_timer (ks_clk s') (Thread_Timer t)) = (0 < timeout))"
  using sem_take_spec [OF assms] by (elim exE conjE) (intro exI conjI)

text \<open>
  C13: Releasing a semaphore refines the abstract one: with waiters, the first of the queue becomes
  runnable, its pending rt_sem_take returns RT_EOK, and the count stays 0; without waiters the
  count grows by one, except that at 65535 the call returns -RT_EFULL and changes nothing.
\<close>
theorem sem_release_refines_counting_semaphore:
  assumes "sem_inv i s"
  shows "\<exists>e s'. rt_sem_release i s = Some (e, s') \<and> sem_inv i s' \<and>
    (case abs_release (sem_abs i s) of
       None \<Rightarrow> e = - RT_EFULL \<and> s' = s
     | Some (None, a) \<Rightarrow> e = RT_EOK \<and> sem_abs i s' = a
     | Some (Some w, a) \<Rightarrow> e = RT_EOK \<and> sem_abs i s' = a \<and>
         th_state (ks_thread s' w) \<in> {2, 3} \<and> sem_take_resume w s' = RT_EOK)"
  by (rule sem_release_spec [OF assms])

text \<open>
  A wait on a semaphore also ends without a token, and leaves no trace: when the waiter's timer
  expires, or the semaphore is detached, the waiter is runnable, its pending rt_sem_take returns
  -RT_ETIMEOUT or -RT_ERROR respectively, it is in the queue no more, and the count is unchanged;
  detaching empties the queue and wakes every waiter.
\<close>
lemma sem_wait_ends_without_token:
  assumes "sem_inv i s" "w \<in> set (snd (sem_abs i s))"
  shows "(\<not> tm_activated (ck_timer (ks_clk s) (Thread_Timer w)) \<longrightarrow>
      (\<exists>s'. thread_timeout w s = Some s' \<and> sem_inv i s' \<and> sem_take_resume w s' = - RT_ETIMEOUT \<and>
         sem_abs i s' = (fst (sem_abs i s), removeAll w (snd (sem_abs i s))))) \<and>
    (sem_object (the_sem i s) = Obj_Static \<longrightarrow>
      (\<exists>s'. rt_sem_detach i s = Some (RT_EOK, s') \<and> kernel_ok s' \<and> sem_take_resume w s' = - RT_ERROR \<and>
         sem_abs i s' = (fst (sem_abs i s), [])))"
proof (intro conjI impI)
  have k: "kernel_ok s" and w: "w \<in> set (ks_list s (sem_head i))"
    using assms by (simp_all add: sem_inv_def sem_abs_def)
  note wf = waiter_facts(1,2) [OF k w]
  {
    assume "\<not> tm_activated (ck_timer (ks_clk s) (Thread_Timer w))"
    then obtain s' where s': "thread_timeout w s = Some s'" "kernel_ok s'" "ks_ipc s' = ks_ipc s"
      "th_error (ks_thread s' w) = - RT_ETIMEOUT"
      "ks_list s' (sem_head i) = removeAll w (ks_list s (sem_head i))"
      using thread_timeout_spec [OF k wf] by (auto simp: ok_iff)
    have "the_sem i s' = the_sem i s" using s'(3) by (rule the_sem_cong)
    then show "\<exists>s'. thread_timeout w s = Some s' \<and> sem_inv i s' \<and> sem_take_resume w s' = - RT_ETIMEOUT \<and>
         sem_abs i s' = (fst (sem_abs i s), removeAll w (snd (sem_abs i s)))"
      using s' assms(1) by (intro exI [of _ s']) (auto simp: sem_inv_def sem_abs_def sem_take_resume_def)
  }
  assume o: "sem_object (the_sem i s) = Obj_Static"
  obtain s' where s': "ipc_list_resume_all (sem_head i) s = Some s'" "kernel_ok s'" "ks_list s' (sem_head i) = []"
    "ks_ipc s' = ks_ipc s" "th_error (ks_thread s' w) = - RT_ERROR"
    using ipc_list_resume_all_spec [OF k, of "sem_head i"] w by auto
  have "the_sem i s' = the_sem i s" using s'(4) by (rule the_sem_cong)
  then show "\<exists>s'. rt_sem_detach i s = Some (RT_EOK, s') \<and> kernel_ok s' \<and> sem_take_resume w s' = - RT_ERROR \<and>
         sem_abs i s' = (fst (sem_abs i s), [])"
    using s' o by (intro exI [of _ "upd_sem i (\<lambda>x. x\<lparr>sem_object := Obj_Null\<rparr>) s'"])
      (simp add: rt_sem_detach_def sem_abs_def sem_take_resume_def)
qed

text \<open>The sample system, with semaphore 7 of value 0.\<close>

lemma sample_sem_inv: "sem_inv 7 sample_kernel"
  using sample_kernel_kernel_ok by (simp add: sem_inv_def the_sem_def sample_kernel_def sample_ipc_def)

lemma sem_flag_sample: "sem_flag (the_sem 7 sample_kernel) = PRIO"
  by (simp add: the_sem_def sample_kernel_def sample_ipc_def)

lemma sample_timeout: "timeout_ok 10"
  by (simp add: timeout_ok_def)

theorem sem_take_refines_counting_semaphore_witness:
  "\<exists>s'. sem_take 7 10 RT_UNINTERRUPTIBLE sample_kernel = Some (Blocked, s') \<and> sem_abs 7 s' = (0, [1])"
proof -
  have a: "sem_abs 7 sample_kernel = (0, [])"
    by (simp add: sem_abs_def the_sem_def sample_kernel_def sample_ipc_def)
  show ?thesis
    using sem_take_refines_counting_semaphore [OF sample_sem_inv sample_may_block _ sample_timeout, of RT_UNINTERRUPTIBLE]
    unfolding a by (auto simp: enqueued_def)
qed

theorem sem_release_refines_counting_semaphore_witness:
  "\<exists>s'. rt_sem_release 7 sample_kernel = Some (RT_EOK, s') \<and> sem_abs 7 s' = (1, [])"
proof -
  have a: "sem_abs 7 sample_kernel = (0, [])"
    by (simp add: sem_abs_def the_sem_def sample_kernel_def sample_ipc_def)
  show ?thesis using sem_release_refines_counting_semaphore [OF sample_sem_inv] unfolding a by auto
qed

lemma sem_wait_ends_without_token_witness:
  "\<exists>s s'. rt_sem_take 7 (- 1) sample_kernel = Some (Blocked, s) \<and> rt_sem_detach 7 s = Some (RT_EOK, s') \<and>
     sem_take_resume 1 s' = - RT_ERROR"
proof -
  have a: "sem_abs 7 sample_kernel = (0, [])" "sem_object (the_sem 7 sample_kernel) = Obj_Static"
    by (simp_all add: sem_abs_def the_sem_def sample_kernel_def sample_ipc_def)
  obtain s where s: "rt_sem_take 7 (- 1) sample_kernel = Some (Blocked, s)" "sem_inv 7 s" "sem_abs 7 s = (0, [1])"
    "sem_object (the_sem 7 s) = Obj_Static"
    using sem_take_spec [OF sample_sem_inv sample_may_block, of RT_UNINTERRUPTIBLE "- 1"]
    unfolding a by (auto simp: enqueued_def rt_sem_take_def timeout_ok_def sem_flag_sample)
  from s(3) have "1 \<in> set (snd (sem_abs 7 s))" by simp
  from sem_wait_ends_without_token [OF s(2) this] s(1,4) show ?thesis by blast
qed

end
