(* ===== verification/Mutex.thy ===== *)
theory Mutex
  imports Ipc_Base
begin

text \<open>
  Mutexes, the \<open>RT_USING_MUTEX\<close> part of \<open>src/ipc.c\<close>: recursive ownership, priority inheritance along
  chains of blocked owners, the priority ceiling, and hand-over on release. The theorems show that
  taking and releasing keep the effective priority of every thread at the minimum of its initial
  priority and of the priorities of all threads waiting for a mutex it holds, and exhibit the
  behaviours of the timeout and ceiling paths that do not.
\<close>

section \<open>Operations\<close>

abbreviation mx_head :: "nat \<Rightarrow> lhead" where "mx_head m \<equiv> Suspend (Mutex m)"

definition RT_MUTEX_HOLD_MAX :: u8 where "RT_MUTEX_HOLD_MAX = 0xff"

definition the_mutex :: "nat \<Rightarrow> kstate \<Rightarrow> rt_mutex" where
  "the_mutex m s = ipc_mutex (ks_ipc s) m"

definition upd_mutex :: "nat \<Rightarrow> (rt_mutex \<Rightarrow> rt_mutex) \<Rightarrow> kstate \<Rightarrow> kstate" where
  "upd_mutex m f = upd_ipc (\<lambda>x. x\<lparr>ipc_mutex := (ipc_mutex x)(m := f (ipc_mutex x m))\<rparr>)"

text \<open>The \<open>taken_list\<close> node of a mutex on and off the \<open>taken_object_list\<close> of a thread.\<close>

definition taken :: "tid \<Rightarrow> kstate \<Rightarrow> nat list" where
  "taken t s = ipc_taken (ks_ipc s) t"

definition taken_remove :: "nat \<Rightarrow> kstate \<Rightarrow> kstate" where
  "taken_remove m = upd_ipc (\<lambda>x. x\<lparr>ipc_taken := (\<lambda>t. removeAll m (ipc_taken x t))\<rparr>)"

definition taken_insert :: "tid \<Rightarrow> nat \<Rightarrow> kstate \<Rightarrow> kstate" where
  "taken_insert t m = upd_ipc (\<lambda>x. x\<lparr>ipc_taken := (ipc_taken x)(t := m # ipc_taken x t)\<rparr>)"

definition mutex_update_priority :: "nat \<Rightarrow> kstate \<Rightarrow> kstate" where
  "mutex_update_priority m s = upd_mutex m (\<lambda>x. x\<lparr>mx_priority :=
     (case ks_list s (mx_head m) of [] \<Rightarrow> 0xff | t # _ \<Rightarrow> th_current_priority (ks_thread s t))\<rparr>) s"

definition thread_get_mutex_priority :: "tid \<Rightarrow> kstate \<Rightarrow> nat" where
  "thread_get_mutex_priority t s = foldl (\<lambda>priority m.
     let mutex_prio = mx_priority (the_mutex m s);
         ceiling = mx_ceiling_priority (the_mutex m s);
         mutex_prio = (if mutex_prio < ceiling then mutex_prio else ceiling)
     in if mutex_prio < priority then mutex_prio else priority)
     (th_init_priority (ks_thread s t)) (taken t s)"

text \<open>
  The priority change and its propagation; a mutex with waiters and no owner is dereferenced as a
  null pointer (\<open>None\<close>).
\<close>

partial_function (option) thread_update_priority ::
  "tid \<Rightarrow> nat \<Rightarrow> suspend_flag \<Rightarrow> kstate \<Rightarrow> kstate option" where
  "thread_update_priority t priority sflag s =
     Option.bind (change_priority t priority s) (\<lambda>s.
       if \<not> th_suspended (ks_thread s t) then Some s
       else case th_pending_object (ks_thread s t) of
         Some (Mutex m) \<Rightarrow>
           (if mx_object (the_mutex m s) = Obj_Null then Some s
            else Option.bind (ipc_list_suspend (mx_head m) t (mx_flag (the_mutex m s)) sflag (list_remove t s))
              (\<lambda>r. if fst r \<noteq> RT_EOK then Some (snd r)
                else let s = mutex_update_priority m (snd r) in
                  case mx_owner (the_mutex m s) of
                    None \<Rightarrow> None
                  | Some own \<Rightarrow>
                      (let mutex_priority = thread_get_mutex_priority own s in
                       if mutex_priority \<noteq> th_current_priority (ks_thread s own)
                       then thread_update_priority own mutex_priority sflag s else Some s)))
       | _ \<Rightarrow> Some s)"

definition rt_mutex_init :: "nat \<Rightarrow> kstate \<Rightarrow> (int \<times> kstate) option" where
  "rt_mutex_init m s = do {
     rt_assert (mx_object (the_mutex m s) = Obj_Null);
     let s = upd_mutex m (\<lambda>x. x\<lparr>mx_object := Obj_Static\<rparr>) s;
     let s = list_set (mx_head m) [] s;
     let s = upd_mutex m (\<lambda>x. x\<lparr>mx_owner := None, mx_priority := 0xff, mx_hold := 0,
       mx_ceiling_priority := 0xff\<rparr>) s;
     Some (RT_EOK, upd_mutex m (\<lambda>x. x\<lparr>mx_flag := PRIO\<rparr>) s)
   }"

definition rt_mutex_detach :: "nat \<Rightarrow> kstate \<Rightarrow> (int \<times> kstate) option" where
  "rt_mutex_detach m s = do {
     rt_assert (mx_object (the_mutex m s) \<noteq> Obj_Null);
     rt_assert (mx_object (the_mutex m s) = Obj_Static);
     s \<leftarrow> ipc_list_resume_all (mx_head m) s;
     let s = taken_remove m s;
     Some (RT_EOK, upd_mutex m (\<lambda>x. x\<lparr>mx_object := Obj_Null\<rparr>) s)
   }"

definition rt_mutex_delete :: "nat \<Rightarrow> kstate \<Rightarrow> (int \<times> kstate) option" where
  "rt_mutex_delete m s = do {
     rt_assert (mx_object (the_mutex m s) \<noteq> Obj_Null);
     rt_assert (mx_object (the_mutex m s) \<noteq> Obj_Static);
     rt_assert (ks_irq_nest s = 0);
     s \<leftarrow> ipc_list_resume_all (mx_head m) s;
     let s = taken_remove m s;
     Some (RT_EOK, upd_mutex m (\<lambda>x. x\<lparr>mx_object := Obj_Null\<rparr>) s)
   }"

text \<open>
  The common part of \<open>rt_mutex_drop_thread\<close> and of a take that ends in an error: thread \<open>t\<close> waits for
  \<open>m\<close> no more. A mutex that has lost its owner is a null pointer here too.
\<close>

definition mutex_lost_waiter :: "nat \<Rightarrow> tid \<Rightarrow> kstate \<Rightarrow> kstate option" where
  "mutex_lost_waiter m t s = do {
     own \<leftarrow> mx_owner (the_mutex m s);
     let need_update = (th_current_priority (ks_thread s own) = th_current_priority (ks_thread s t));
     let s = mutex_update_priority m s;
     if need_update then
       let priority = thread_get_mutex_priority own s in
       if priority \<noteq> th_current_priority (ks_thread s own)
       then thread_update_priority own priority RT_UNINTERRUPTIBLE s else Some s
     else Some s
   }"

definition rt_mutex_drop_thread :: "nat \<Rightarrow> tid \<Rightarrow> kstate \<Rightarrow> kstate option" where
  "rt_mutex_drop_thread m t s = mutex_lost_waiter m t (list_remove t s)"

definition rt_set_errno :: "int \<Rightarrow> kstate \<Rightarrow> kstate" where
  "rt_set_errno e s =
     (if ks_irq_nest s \<noteq> 0 then s
      else case rt_thread_self s of None \<Rightarrow> s | Some t \<Rightarrow> upd_thread t (\<lambda>th. th\<lparr>th_error := e\<rparr>) s)"

definition rt_mutex_setprioceiling :: "nat \<Rightarrow> nat \<Rightarrow> kstate \<Rightarrow> (nat \<times> kstate) option" where
  "rt_mutex_setprioceiling m priority s =
     (if priority < RT_THREAD_PRIORITY_MAX then do {
        let ret_priority = mx_ceiling_priority (the_mutex m s);
        let s = upd_mutex m (\<lambda>x. x\<lparr>mx_ceiling_priority := priority\<rparr>) s;
        s \<leftarrow> (case mx_owner (the_mutex m s) of
               None \<Rightarrow> Some s
             | Some own \<Rightarrow>
                 let p = thread_get_mutex_priority own s in
                 if p \<noteq> th_current_priority (ks_thread s own)
                 then thread_update_priority own p RT_UNINTERRUPTIBLE s else Some s);
        Some (ret_priority, s)
      }
      else Some (0xff, rt_set_errno (- RT_EINVAL) s))"

definition rt_mutex_getprioceiling :: "nat \<Rightarrow> kstate \<Rightarrow> nat" where
  "rt_mutex_getprioceiling m s = mx_ceiling_priority (the_mutex m s)"

definition mutex_take :: "nat \<Rightarrow> int \<Rightarrow> suspend_flag \<Rightarrow> kstate \<Rightarrow> (outcome \<times> kstate) option" where
  "mutex_take m timeout sflag s = do {
     scheduler_available s;
     rt_assert (mx_object (the_mutex m s) \<noteq> Obj_Null);
     t \<leftarrow> rt_thread_self s;
     let s = upd_thread t (\<lambda>th. th\<lparr>th_error := RT_EOK\<rparr>) s;
     if mx_owner (the_mutex m s) = Some t then
       (if mx_hold (the_mutex m s) < RT_MUTEX_HOLD_MAX
        then Some (Ret RT_EOK, upd_mutex m (\<lambda>x. x\<lparr>mx_hold := mx_hold x + 1\<rparr>) s)
        else Some (Ret (- RT_EFULL), s))
     else if mx_owner (the_mutex m s) = None then do {
       let s = upd_mutex m (\<lambda>x. x\<lparr>mx_owner := Some t, mx_priority := 0xff, mx_hold := 1\<rparr>) s;
       let ceiling = mx_ceiling_priority (the_mutex m s);
       s \<leftarrow> (if ceiling \<noteq> 0xff \<and> ceiling < th_current_priority (ks_thread s t)
            then thread_update_priority t ceiling sflag s else Some s);
       Some (Ret RT_EOK, taken_insert t m s)
     }
     else if timeout = 0 then
       Some (Ret (- RT_ETIMEOUT), upd_thread t (\<lambda>th. th\<lparr>th_error := - RT_ETIMEOUT\<rparr>) s)
     else do {
       let priority = th_current_priority (ks_thread s t);
       (ret, s) \<leftarrow> ipc_list_suspend (mx_head m) t (mx_flag (the_mutex m s)) sflag s;
       if ret \<noteq> RT_EOK then Some (Ret ret, s)
       else do {
         let s = upd_thread t (\<lambda>th. th\<lparr>th_pending_object := Some (Mutex m)\<rparr>) s;
         s \<leftarrow> (if priority < mx_priority (the_mutex m s) then do {
                let s = upd_mutex m (\<lambda>x. x\<lparr>mx_priority := priority\<rparr>) s;
                own \<leftarrow> mx_owner (the_mutex m s);
                if priority < th_current_priority (ks_thread s own)
                then thread_update_priority own priority RT_UNINTERRUPTIBLE s else Some s
              }
              else Some s);
         s \<leftarrow> arm_timeout t timeout s;
         s \<leftarrow> rt_schedule s;
         Some (Blocked, s)
       }
     }
   }"

text \<open>What a blocked take does when its thread runs again.\<close>

definition mutex_take_resume :: "nat \<Rightarrow> tid \<Rightarrow> kstate \<Rightarrow> (int \<times> kstate) option" where
  "mutex_take_resume m t s =
     (if th_error (ks_thread s t) = RT_EOK then Some (RT_EOK, s)
      else do {
        s \<leftarrow> mutex_lost_waiter m t s;
        Some (th_error (ks_thread s t), s)
      })"

definition rt_mutex_take :: "nat \<Rightarrow> int \<Rightarrow> kstate \<Rightarrow> (outcome \<times> kstate) option" where
  "rt_mutex_take m time = mutex_take m time RT_UNINTERRUPTIBLE"

definition rt_mutex_take_interruptible :: "nat \<Rightarrow> int \<Rightarrow> kstate \<Rightarrow> (outcome \<times> kstate) option" where
  "rt_mutex_take_interruptible m time = mutex_take m time RT_INTERRUPTIBLE"

definition rt_mutex_take_killable :: "nat \<Rightarrow> int \<Rightarrow> kstate \<Rightarrow> (outcome \<times> kstate) option" where
  "rt_mutex_take_killable m time = mutex_take m time RT_KILLABLE"

definition rt_mutex_trytake :: "nat \<Rightarrow> kstate \<Rightarrow> (outcome \<times> kstate) option" where
  "rt_mutex_trytake m = rt_mutex_take m 0"

text \<open>Handing a mutex over to its first waiter.\<close>

definition mutex_hand_over :: "nat \<Rightarrow> tid \<Rightarrow> kstate \<Rightarrow> kstate option" where
  "mutex_hand_over m next_thread s = do {
     let s = list_remove next_thread s;
     let s = upd_mutex m (\<lambda>x. x\<lparr>mx_owner := Some next_thread, mx_hold := 1\<rparr>) s;
     let s = taken_insert next_thread m s;
     let s = upd_thread next_thread (\<lambda>th. th\<lparr>th_pending_object := None\<rparr>) s;
     (_, s) \<leftarrow> rt_thread_resume next_thread s;
     Some (mutex_update_priority m s)
   }"

definition rt_mutex_release :: "nat \<Rightarrow> kstate \<Rightarrow> (int \<times> kstate) option" where
  "rt_mutex_release m s = do {
     rt_assert (mx_object (the_mutex m s) \<noteq> Obj_Null);
     in_thread_context s;
     t \<leftarrow> rt_thread_self s;
     if mx_owner (the_mutex m s) \<noteq> Some t
     then Some (- RT_ERROR, upd_thread t (\<lambda>th. th\<lparr>th_error := - RT_ERROR\<rparr>) s)
     else do {
       let s = upd_mutex m (\<lambda>x. x\<lparr>mx_hold := mx_hold x - 1\<rparr>) s;
       if mx_hold (the_mutex m s) \<noteq> 0 then Some (RT_EOK, s)
       else do {
         let s = taken_remove m s;
         let change = (mx_ceiling_priority (the_mutex m s) \<noteq> 0xff \<or>
           th_current_priority (ks_thread s t) = mx_priority (the_mutex m s));
         s \<leftarrow> (if change then change_priority t (thread_get_mutex_priority t s) s else Some s);
         (need_schedule, s) \<leftarrow> (case ks_list s (mx_head m) of
             next_thread # _ \<Rightarrow> do { s \<leftarrow> mutex_hand_over m next_thread s; Some (True, s) }
           | [] \<Rightarrow> Some (change, upd_mutex m (\<lambda>x. x\<lparr>mx_owner := None, mx_priority := 0xff\<rparr>) s));
         s \<leftarrow> (if need_schedule then rt_schedule s else Some s);
         Some (RT_EOK, s)
       }
     }
   }"

definition rt_mutex_control :: "nat \<Rightarrow> kstate \<Rightarrow> (int \<times> kstate) option" where
  "rt_mutex_control m s = do { rt_assert (mx_object (the_mutex m s) \<noteq> Obj_Null); Some (- RT_ERROR, s) }"

section \<open>Reading the state\<close>

lemma the_mutex_simps [simp]:
  "the_mutex n (upd_mutex m f s) = (if n = m then f (the_mutex m s) else the_mutex n s)"
  "taken t (upd_mutex m f s) = taken t s"
  "ks_list (upd_mutex m f s) = ks_list s" "ks_thread (upd_mutex m f s) = ks_thread s"
  "ks_current (upd_mutex m f s) = ks_current s" "ks_clk (upd_mutex m f s) = ks_clk s"
  "ks_lock_nest (upd_mutex m f s) = ks_lock_nest s" "ks_irq_nest (upd_mutex m f s) = ks_irq_nest s"
  "kernel_ok (upd_mutex m f s) = kernel_ok s"
  by (simp_all add: the_mutex_def upd_mutex_def taken_def)

lemma taken_simps [simp]:
  "taken u (taken_remove m s) = removeAll m (taken u s)"
  "taken u (taken_insert t m s) = (if u = t then m # taken t s else taken u s)"
  "the_mutex n (taken_remove m s) = the_mutex n s" "the_mutex n (taken_insert t m s) = the_mutex n s"
  "ks_list (taken_remove m s) = ks_list s" "ks_list (taken_insert t m s) = ks_list s"
  "ks_thread (taken_remove m s) = ks_thread s" "ks_thread (taken_insert t m s) = ks_thread s"
  "ks_current (taken_remove m s) = ks_current s" "ks_current (taken_insert t m s) = ks_current s"
  "ks_clk (taken_remove m s) = ks_clk s" "ks_clk (taken_insert t m s) = ks_clk s"
  "kernel_ok (taken_remove m s) = kernel_ok s" "kernel_ok (taken_insert t m s) = kernel_ok s"
  by (simp_all add: the_mutex_def taken_remove_def taken_insert_def taken_def)

lemma the_mutex_frame [simp]:
  "the_mutex n (upd_thread t f s) = the_mutex n s" "taken u (upd_thread t f s) = taken u s"
  "the_mutex n (list_remove t s) = the_mutex n s" "taken u (list_remove t s) = taken u s"
  "the_mutex n (list_set h ws s) = the_mutex n s" "taken u (list_set h ws s) = taken u s"
  "the_mutex n (upd_clk c s) = the_mutex n s" "taken u (upd_clk c s) = taken u s"
  by (simp_all add: the_mutex_def taken_def)

lemma the_mutex_cong:
  "ks_ipc s' = ks_ipc s \<Longrightarrow> the_mutex n s' = the_mutex n s"
  "ks_ipc s' = ks_ipc s \<Longrightarrow> taken u s' = taken u s"
  by (simp_all add: the_mutex_def taken_def)

section \<open>Changing a priority\<close>

lemma set_state_same: "set_state (th_state th) th = th"
proof -
  have "th_state th OR (th_stat th AND NOT 7) = th_stat th"
    by (simp add: th_state_def bit_eq_iff bit_simps) blast
  then show ?thesis by (simp add: set_state_def)
qed

definition set_prio :: "nat \<Rightarrow> rt_thread \<Rightarrow> rt_thread" where
  "set_prio p th = th\<lparr>th_current_priority := p, th_number_mask := push_bit p 1\<rparr>"

lemma set_prio_simps [simp]:
  "th_object (set_prio p th) = th_object th" "th_state (set_prio p th) = th_state th"
  "th_error (set_prio p th) = th_error th" "th_current_priority (set_prio p th) = p"
  "th_init_priority (set_prio p th) = th_init_priority th"
  "th_pending_object (set_prio p th) = th_pending_object th"
  "th_number_mask (set_prio p th) = push_bit p 1" "th_stat (set_prio p th) = th_stat th"
  "th_yield (set_prio p th) = th_yield th" "th_suspended (set_prio p th) = th_suspended th"
  by (simp_all add: set_prio_def th_state_def th_yield_def th_suspended_def)

lemma sched_inv_set_prio:
  assumes s: "sched_inv X s" and t: "th_state (ks_thread s t) \<noteq> 2" and p: "p < 32"
  shows "sched_inv X (upd_thread t (set_prio p) s)"
proof -
  let ?s = "upd_thread t (set_prio p) s"
  note d = sched_invD [OF s]
  have nr: "t \<notin> set (ks_list s (Ready q))" for q using ready_list_fits [OF s, of t q] t by auto
  have f: "fits h (ks_thread ?s v)" if "v \<in> set (ks_list s h)" for h v
    using d(3) [OF that] that nr by (cases h) auto
  have "queues_ok ?s" using d(1,2) f unfolding queues_ok_def by auto
  moreover have "bitmap_ok ?s" using d(4,5) unfolding bitmap_ok_def by simp
  moreover have "state_ok ?s v" if "v \<notin> X" for v
    using sched_inv_state [OF s that] t by (auto simp: state_ok_def Let_def)
  then have "states_ok X ?s" by (simp add: states_ok_def)
  moreover have "masks_ok ?s"
    using d(9) p unfolding masks_ok_def by (auto simp: mask_ok_def RT_THREAD_PRIORITY_MAX_def started_def)
  ultimately show ?thesis by (simp add: sched_inv_def)
qed

text \<open>
  Changing the priority of a thread keeps the kernel's invariant, and all it changes is that thread's
  priority and its place in the ready table.
\<close>

lemma change_priority_spec:
  assumes s: "kernel_ok s" and t: "th_object (ks_thread s t) \<noteq> Obj_Null" and p: "p < 32"
  shows "\<exists>s'. change_priority t p s = Some s' \<and> kernel_ok s' \<and>
    ks_thread s' = (ks_thread s)(t := set_prio p (ks_thread s t)) \<and> ks_ipc s' = ks_ipc s \<and>
    ks_clk s' = ks_clk s \<and> ks_current s' = ks_current s \<and> ks_lock_nest s' = ks_lock_nest s \<and>
    ks_irq_nest s' = ks_irq_nest s \<and> (\<forall>k. wait_head k \<longrightarrow> ks_list s' k = ks_list s k)"
proof -
  note d = kernel_okD [OF s]
  have fn: "(\<lambda>th. th\<lparr>th_current_priority := p, th_number_mask := push_bit p 1\<rparr>) = set_prio p"
    by (simp add: fun_eq_iff set_prio_def)
  have cp: "change_priority t p s = Some (if th_state (ks_thread s t) = 2
      then rt_schedule_insert_thread t (upd_thread t (set_prio p) (rt_schedule_remove_thread t s))
      else upd_thread t (set_prio p) s)"
    using t p unfolding change_priority_def Let_def fn by simp
  have tm: "kernel_ok s'" if "sched_ok s'" "ks_clk s' = ks_clk s" "ks_current s' = ks_current s"
    "ks_thread s' = (ks_thread s)(t := set_prio p (ks_thread s t))" for s'
  proof -
    have "thread_timer_ok s' v" for v
      by (rule thread_timer_ok_cong [OF d(3)]) (use that in auto)
    with that d show ?thesis by (simp add: kernel_ok_def)
  qed
  show ?thesis
  proof (cases "th_state (ks_thread s t) = 2")
    case False
    let ?s = "upd_thread t (set_prio p) s"
    have "kernel_ok ?s" by (rule tm [OF sched_inv_set_prio [OF d(1) False p]]) simp_all
    with False show ?thesis by (intro exI [of _ ?s]) (simp add: cp)
  next
    case True
    let ?s1 = "upd_thread t (set_prio p) (rt_schedule_remove_thread t s)"
    let ?s2 = "rt_schedule_insert_thread t ?s1"
    have st: "started (ks_thread s t)" using t True by (simp add: started_def)
    have nc: "ks_current s \<noteq> Some t" using sched_invD(6) [OF d(1) _ t True] by simp
    have "sched_inv {t} (rt_schedule_remove_thread t s)"
      using remove_inv [OF d(1) sched_invD(9) [OF d(1) st]] .
    then have "sched_inv {t} ?s1"
      by (rule sched_inv_upd_thread) (use p in \<open>simp_all add: mask_ok_def RT_THREAD_PRIORITY_MAX_def\<close>)
    then have "sched_inv ({t} - {t}) ?s2"
      by (rule insert_inv) (use st in \<open>simp_all add: unlinked_def started_def\<close>)
    then have ok: "sched_ok ?s2" by simp
    have th: "ks_thread ?s2 = (ks_thread s)(t := set_prio p (ks_thread s t))"
      using nc set_state_same [of "set_prio p (ks_thread s t)"] True by (simp add: fun_eq_iff)
    have nw: "removeAll t (ks_list s k) = ks_list s k" if "wait_head k" for k
      using sched_invD(3) [OF d(1), of t k] that True
      by (intro removeAll_notin) (auto simp: fits_wait th_suspended_state)
    have "ks_list ?s2 k = ks_list s k" if "wait_head k" for k
      using that nw [OF that] nc by (cases k) (simp_all add: rt_schedule_insert_thread_list Let_def)
    moreover have "change_priority t p s = Some ?s2" using True by (simp add: cp)
    ultimately show ?thesis using tm [OF ok _ _ th] th by (intro exI [of _ ?s2]) simp
  qed
qed

section \<open>The invariant of mutexes and priorities\<close>

abbreviation prio :: "kstate \<Rightarrow> tid \<Rightarrow> nat" where "prio s t \<equiv> th_current_priority (ks_thread s t)"

abbreviation live :: "kstate \<Rightarrow> tid \<Rightarrow> bool" where "live s t \<equiv> th_object (ks_thread s t) \<noteq> Obj_Null"

text \<open>
  A mutex without a ceiling: owner, hold count and taken lists agree; there are waiters only while
  there is an owner, in priority order; the recorded priority is that of the first waiter.
\<close>

definition mutex_wf :: "kstate \<Rightarrow> nat \<Rightarrow> bool" where
  "mutex_wf s m \<longleftrightarrow> (let x = the_mutex m s; ws = ks_list s (mx_head m) in
     mx_flag x = PRIO \<and> mx_ceiling_priority x = 0xff \<and> (mx_hold x = 0 \<longleftrightarrow> mx_owner x = None) \<and>
     (ws \<noteq> [] \<longrightarrow> mx_owner x \<noteq> None \<and> mx_object x \<noteq> Obj_Null) \<and>
     (\<forall>t. m \<in> set (taken t s) \<longleftrightarrow> mx_owner x = Some t) \<and>
     (\<forall>t. mx_owner x = Some t \<longrightarrow> live s t \<and> t \<notin> set ws) \<and>
     sorted (map (prio s) ws) \<and>
     mx_priority x = (case ws of [] \<Rightarrow> 0xff | t # _ \<Rightarrow> prio s t))"

text \<open>The pending object of a suspended thread is a mutex exactly while it is on that mutex's list.\<close>

definition waiter_wf :: "kstate \<Rightarrow> tid \<Rightarrow> bool" where
  "waiter_wf s t \<longleftrightarrow> (live s t \<longrightarrow> th_init_priority (ks_thread s t) < 32) \<and>
     (\<forall>m. live s t \<and> th_suspended (ks_thread s t) \<and> th_pending_object (ks_thread s t) = Some (Mutex m)
        \<longleftrightarrow> t \<in> set (ks_list s (mx_head m)))"

definition pi_ok :: "kstate \<Rightarrow> tid \<Rightarrow> bool" where
  "pi_ok s t \<longleftrightarrow> (live s t \<longrightarrow> prio s t = thread_get_mutex_priority t s)"

text \<open>\<open>mutex_inv X s\<close>: priorities are inherited as they should be by all threads but those of \<open>X\<close>.\<close>

definition mutex_inv :: "tid set \<Rightarrow> kstate \<Rightarrow> bool" where
  "mutex_inv X s \<longleftrightarrow> finite {t. live s t} \<and> (\<forall>m. mutex_wf s m) \<and> (\<forall>t. waiter_wf s t) \<and>
     (\<forall>t. t \<notin> X \<longrightarrow> pi_ok s t)"

lemma mutex_invD:
  assumes "mutex_inv X s"
  shows "finite {t. live s t}" "mx_flag (the_mutex m s) = PRIO" "mx_ceiling_priority (the_mutex m s) = 0xff"
    "mx_hold (the_mutex m s) = 0 \<longleftrightarrow> mx_owner (the_mutex m s) = None"
    "ks_list s (mx_head m) \<noteq> [] \<Longrightarrow> mx_owner (the_mutex m s) \<noteq> None \<and> mx_object (the_mutex m s) \<noteq> Obj_Null"
    "m \<in> set (taken t s) \<longleftrightarrow> mx_owner (the_mutex m s) = Some t"
    "mx_owner (the_mutex m s) = Some t \<Longrightarrow> live s t \<and> t \<notin> set (ks_list s (mx_head m))"
    "sorted (map (prio s) (ks_list s (mx_head m)))"
    "mx_priority (the_mutex m s) = (case ks_list s (mx_head m) of [] \<Rightarrow> 0xff | t # _ \<Rightarrow> prio s t)"
    "live s t \<Longrightarrow> th_init_priority (ks_thread s t) < 32"
    "live s t \<and> th_suspended (ks_thread s t) \<and> th_pending_object (ks_thread s t) = Some (Mutex m)
        \<longleftrightarrow> t \<in> set (ks_list s (mx_head m))"
    "t \<notin> X \<Longrightarrow> live s t \<Longrightarrow> prio s t = thread_get_mutex_priority t s"
  using assms by (auto simp: mutex_inv_def mutex_wf_def waiter_wf_def pi_ok_def Let_def)

lemma mutex_inv_discharge: "mutex_inv {t} s \<Longrightarrow> pi_ok s t \<Longrightarrow> mutex_inv {} s"
  by (auto simp: mutex_inv_def)

text \<open>The computed priority as a greatest lower bound.\<close>

lemma le_get_priority:
  "q \<le> thread_get_mutex_priority t s \<longleftrightarrow> q \<le> th_init_priority (ks_thread s t) \<and>
     (\<forall>m \<in> set (taken t s). q \<le> mx_priority (the_mutex m s) \<and> q \<le> mx_ceiling_priority (the_mutex m s))"
proof -
  let ?f = "\<lambda>priority m. let mutex_prio = mx_priority (the_mutex m s);
         ceiling = mx_ceiling_priority (the_mutex m s);
         mutex_prio = (if mutex_prio < ceiling then mutex_prio else ceiling)
     in if mutex_prio < priority then mutex_prio else priority"
  have "q \<le> foldl ?f i ms \<longleftrightarrow> q \<le> i \<and>
    (\<forall>m \<in> set ms. q \<le> mx_priority (the_mutex m s) \<and> q \<le> mx_ceiling_priority (the_mutex m s))" for i ms
    by (induction ms arbitrary: i) (auto simp: Let_def)
  then show ?thesis by (simp add: thread_get_mutex_priority_def)
qed

lemma nat_eq_by_le: "(\<And>q. q \<le> a \<longleftrightarrow> q \<le> b) \<Longrightarrow> a = (b :: nat)"
  by (metis order_refl order_antisym)

lemma get_priority_le_init: "thread_get_mutex_priority t s \<le> th_init_priority (ks_thread s t)"
  using le_get_priority [of "thread_get_mutex_priority t s" t s] by simp

text \<open>Under the invariant: the initial priority and the priorities of all waiters of held mutexes.\<close>

lemma le_head_prio:
  "sorted (map f ws) \<Longrightarrow> q \<le> (case ws of [] \<Rightarrow> 255 | t # _ \<Rightarrow> f t) \<longleftrightarrow>
     (ws = [] \<longrightarrow> q \<le> (255 :: nat)) \<and> (\<forall>w \<in> set ws. q \<le> f w)"
  by (cases ws) auto

lemma le_effective:
  assumes s: "mutex_inv X s" and t: "live s t"
  shows "q \<le> thread_get_mutex_priority t s \<longleftrightarrow> q \<le> th_init_priority (ks_thread s t) \<and>
     (\<forall>m \<in> set (taken t s). \<forall>w \<in> set (ks_list s (mx_head m)). q \<le> prio s w)"
proof -
  note d = mutex_invD [OF s]
  have "q \<le> mx_priority (the_mutex m s) \<and> q \<le> mx_ceiling_priority (the_mutex m s) \<longleftrightarrow>
    (\<forall>w \<in> set (ks_list s (mx_head m)). q \<le> prio s w)" if "q \<le> th_init_priority (ks_thread s t)" for m
    using le_head_prio [OF d(8) [of m], of q] d(9) [of m] d(3) [of m] d(10) [OF t] that by auto
  then show ?thesis unfolding le_get_priority by auto
qed

text \<open>The invariant reads only part of the state.\<close>

lemma mutex_wf_cong:
  assumes s: "mutex_wf s m" and x: "the_mutex m s' = the_mutex m s"
    and "\<And>t. m \<in> set (taken t s') \<longleftrightarrow> m \<in> set (taken t s)"
    and l: "ks_list s' (mx_head m) = ks_list s (mx_head m)" and "\<And>t. live s' t = live s t"
    and w: "\<And>w. w \<in> set (ks_list s (mx_head m)) \<Longrightarrow> prio s' w = prio s w"
  shows "mutex_wf s' m"
proof -
  have "map (prio s') (ks_list s (mx_head m)) = map (prio s) (ks_list s (mx_head m))"
    using w by simp
  then have "sorted (map (prio s') (ks_list s (mx_head m))) = sorted (map (prio s) (ks_list s (mx_head m)))"
    by (rule arg_cong)
  moreover have "(case ks_list s (mx_head m) of [] \<Rightarrow> 255 | t # _ \<Rightarrow> prio s' t) =
      (case ks_list s (mx_head m) of [] \<Rightarrow> 255 | t # _ \<Rightarrow> prio s t)"
    using w by (auto split: list.split)
  ultimately show ?thesis using s unfolding mutex_wf_def Let_def assms(2-5) by simp
qed

lemma waiter_wf_cong:
  assumes "waiter_wf s t" "live s' t = live s t"
    "th_init_priority (ks_thread s' t) = th_init_priority (ks_thread s t)"
    "th_pending_object (ks_thread s' t) = th_pending_object (ks_thread s t)"
    "th_suspended (ks_thread s' t) = th_suspended (ks_thread s t)"
    "\<And>m. t \<in> set (ks_list s' (mx_head m)) \<longleftrightarrow> t \<in> set (ks_list s (mx_head m))"
  shows "waiter_wf s' t"
  using assms by (simp add: waiter_wf_def)

lemma get_priority_cong:
  assumes "th_init_priority (ks_thread s' t) = th_init_priority (ks_thread s t)" "set (taken t s') = set (taken t s)"
    "\<And>m. m \<in> set (taken t s) \<Longrightarrow> mx_priority (the_mutex m s') = mx_priority (the_mutex m s) \<and>
       mx_ceiling_priority (the_mutex m s') = mx_ceiling_priority (the_mutex m s)"
  shows "thread_get_mutex_priority t s' = thread_get_mutex_priority t s"
  by (rule nat_eq_by_le) (auto simp: le_get_priority assms)

lemma mutex_inv_cong:
  assumes s: "mutex_inv X s"
    and m: "\<And>m. the_mutex m s' = the_mutex m s" "\<And>t. taken t s' = taken t s"
    and l: "\<And>m. ks_list s' (mx_head m) = ks_list s (mx_head m)"
    and t: "\<And>t. live s' t = live s t \<and> prio s' t = prio s t \<and>
      th_init_priority (ks_thread s' t) = th_init_priority (ks_thread s t) \<and>
      th_pending_object (ks_thread s' t) = th_pending_object (ks_thread s t) \<and>
      th_suspended (ks_thread s' t) = th_suspended (ks_thread s t)"
  shows "mutex_inv X s'"
  unfolding mutex_inv_def
proof (intro conjI allI impI)
  show "finite {t. live s' t}" using s t by (simp add: mutex_inv_def)
  show "mutex_wf s' m" for m
    by (rule mutex_wf_cong [of s]) (use s m l t in \<open>auto simp: mutex_inv_def\<close>)
  show "waiter_wf s' v" for v
    by (rule waiter_wf_cong [of s]) (use s l t in \<open>auto simp: mutex_inv_def\<close>)
  show "pi_ok s' v" if "v \<notin> X" for v
    using s that t get_priority_cong [of s' v s] m by (simp add: mutex_inv_def pi_ok_def)
qed

section \<open>Boosting along a chain\<close>

text \<open>What raising priorities along a chain of owners leaves alone.\<close>

definition boost_frame :: "kstate \<Rightarrow> kstate \<Rightarrow> bool" where
  "boost_frame s s' \<longleftrightarrow> ks_clk s' = ks_clk s \<and> ks_current s' = ks_current s \<and>
     ks_lock_nest s' = ks_lock_nest s \<and> ks_irq_nest s' = ks_irq_nest s \<and>
     (\<forall>k. wait_head k \<longrightarrow> set (ks_list s' k) = set (ks_list s k) \<and>
        ((\<forall>m. k \<noteq> mx_head m) \<longrightarrow> ks_list s' k = ks_list s k)) \<and>
     ks_ipc s' = (ks_ipc s)\<lparr>ipc_mutex := ipc_mutex (ks_ipc s')\<rparr> \<and>
     (\<forall>m. the_mutex m s' = (the_mutex m s)\<lparr>mx_priority := mx_priority (the_mutex m s')\<rparr>) \<and>
     (\<forall>t. ks_thread s' t = ks_thread s t \<or>
        (\<exists>p < prio s t. ks_thread s' t = set_prio p (ks_thread s t)))"

lemma set_prio_set_prio [simp]: "set_prio p (set_prio q th) = set_prio p th"
  by (simp add: set_prio_def)

lemma boost_frame_refl [simp]: "boost_frame s s"
  by (simp add: boost_frame_def)

lemma boost_frameD:
  assumes "boost_frame s s'"
  shows "ks_clk s' = ks_clk s" "ks_current s' = ks_current s" "ks_lock_nest s' = ks_lock_nest s"
    "ks_irq_nest s' = ks_irq_nest s" "wait_head k \<Longrightarrow> set (ks_list s' k) = set (ks_list s k)"
    "taken t s' = taken t s" "mx_owner (the_mutex m s') = mx_owner (the_mutex m s)"
    "mx_hold (the_mutex m s') = mx_hold (the_mutex m s)"
    "mx_object (the_mutex m s') = mx_object (the_mutex m s)"
    "live s' t = live s t" "prio s' t \<le> prio s t" "th_state (ks_thread s' t) = th_state (ks_thread s t)"
    "th_suspended (ks_thread s' t) = th_suspended (ks_thread s t)"
    "th_error (ks_thread s' t) = th_error (ks_thread s t)"
proof -
  have ipc: "ks_ipc s' = (ks_ipc s)\<lparr>ipc_mutex := ipc_mutex (ks_ipc s')\<rparr>"
    using assms unfolding boost_frame_def by blast
  then show "taken t s' = taken t s" unfolding taken_def by (metis ipc_state.ext_inject ipc_state.surjective ipc_state.update_convs(2))
  have x: "the_mutex m s' = (the_mutex m s)\<lparr>mx_priority := mx_priority (the_mutex m s')\<rparr>"
    using assms unfolding boost_frame_def by blast
  show "mx_owner (the_mutex m s') = mx_owner (the_mutex m s)" by (subst x) simp
  show "mx_hold (the_mutex m s') = mx_hold (the_mutex m s)" by (subst x) simp
  show "mx_object (the_mutex m s') = mx_object (the_mutex m s)" by (subst x) simp
  have th: "ks_thread s' t = ks_thread s t \<or> (\<exists>p < prio s t. ks_thread s' t = set_prio p (ks_thread s t))"
    using assms unfolding boost_frame_def by blast
  show "live s' t = live s t" "prio s' t \<le> prio s t"
    "th_state (ks_thread s' t) = th_state (ks_thread s t)"
    "th_suspended (ks_thread s' t) = th_suspended (ks_thread s t)"
    "th_error (ks_thread s' t) = th_error (ks_thread s t)" using th by auto
qed (use assms in \<open>auto simp: boost_frame_def\<close>)

lemma boost_frame_trans:
  assumes "boost_frame s s1" "boost_frame s1 s2"
  shows "boost_frame s s2"
proof -
  have "ks_thread s2 t = ks_thread s t \<or> (\<exists>p < prio s t. ks_thread s2 t = set_prio p (ks_thread s t))" for t
  proof -
    have "ks_thread s1 t = ks_thread s t \<or> (\<exists>p < prio s t. ks_thread s1 t = set_prio p (ks_thread s t))"
      "ks_thread s2 t = ks_thread s1 t \<or> (\<exists>p < prio s1 t. ks_thread s2 t = set_prio p (ks_thread s1 t))"
      using assms by (simp_all add: boost_frame_def)
    then show ?thesis by (metis order.strict_trans set_prio_set_prio set_prio_simps(4))
  qed
  moreover have "the_mutex m s2 = (the_mutex m s)\<lparr>mx_priority := mx_priority (the_mutex m s2)\<rparr>" for m
  proof -
    have a: "the_mutex m s1 = (the_mutex m s)\<lparr>mx_priority := mx_priority (the_mutex m s1)\<rparr>"
      "the_mutex m s2 = (the_mutex m s1)\<lparr>mx_priority := mx_priority (the_mutex m s2)\<rparr>"
      using assms unfolding boost_frame_def by blast+
    show ?thesis by (subst a(2), subst a(1)) simp
  qed
  moreover have "ks_ipc s2 = (ks_ipc s)\<lparr>ipc_mutex := ipc_mutex (ks_ipc s2)\<rparr>"
  proof -
    have a: "ks_ipc s1 = (ks_ipc s)\<lparr>ipc_mutex := ipc_mutex (ks_ipc s1)\<rparr>"
      "ks_ipc s2 = (ks_ipc s1)\<lparr>ipc_mutex := ipc_mutex (ks_ipc s2)\<rparr>"
      using assms unfolding boost_frame_def by blast+
    show ?thesis by (subst a(2), subst a(1)) simp
  qed
  ultimately show ?thesis using assms unfolding boost_frame_def by simp
qed

lemma kernel_ok_list_remove:
  assumes s: "kernel_ok s" and t: "th_state (ks_thread s t) \<noteq> 2"
  shows "kernel_ok (list_remove t s)"
proof -
  have "thread_timer_ok (list_remove t s) v" for v
    by (rule thread_timer_ok_cong [OF kernel_okD(3) [OF s]]) simp_all
  then show ?thesis
    using list_remove_inv [OF kernel_okD(1) [OF s] t] kernel_okD(2,4) [OF s] by (simp add: kernel_ok_def)
qed

text \<open>Moving a waiter to the place its new priority gives it.\<close>

definition requeue :: "nat \<Rightarrow> tid \<Rightarrow> kstate \<Rightarrow> kstate" where
  "requeue m t s = mutex_update_priority m
     (list_set (mx_head m) (prio_insert (prio s) t (removeAll t (ks_list s (mx_head m)))) (list_remove t s))"

lemma requeue_spec:
  assumes s: "kernel_ok s" and t: "live s t" "th_suspended (ks_thread s t)"
    and f: "mx_flag (the_mutex m s) = PRIO"
  shows "kernel_ok (requeue m t s)"
    and "Option.bind (ipc_list_suspend (mx_head m) t (mx_flag (the_mutex m s)) sflag (list_remove t s)) g =
      g (RT_EOK, list_set (mx_head m) (prio_insert (prio s) t (removeAll t (ks_list s (mx_head m))))
        (list_remove t s))"
proof -
  let ?ws = "removeAll t (ks_list s (mx_head m))"
  have n2: "th_state (ks_thread s t) \<noteq> 2" using t by (auto simp: th_suspended_state)
  note k1 = kernel_ok_list_remove [OF s n2]
  have "kernel_ok (list_set (mx_head m) (takeWhile (\<lambda>n. prio s n \<le> prio s t) ?ws @ t #
      dropWhile (\<lambda>n. prio s n \<le> prio s t) ?ws) (list_remove t s))"
    by (rule link_wait_ok [OF k1]) (use t in simp_all)
  then show "kernel_ok (requeue m t s)"
    by (simp add: requeue_def mutex_update_priority_def prio_insert_split)
  show "Option.bind (ipc_list_suspend (mx_head m) t (mx_flag (the_mutex m s)) sflag (list_remove t s)) g =
      g (RT_EOK, list_set (mx_head m) (prio_insert (prio s) t ?ws) (list_remove t s))"
    using t f by (simp add: ipc_list_suspend_def)
qed

lemma requeue_simps [simp]:
  "ks_thread (requeue m t s) = ks_thread s" "ks_clk (requeue m t s) = ks_clk s"
  "ks_current (requeue m t s) = ks_current s" "ks_lock_nest (requeue m t s) = ks_lock_nest s"
  "ks_irq_nest (requeue m t s) = ks_irq_nest s" "taken u (requeue m t s) = taken u s"
  "n \<noteq> m \<Longrightarrow> the_mutex n (requeue m t s) = the_mutex n s"
  "the_mutex m (requeue m t s) = (the_mutex m s)\<lparr>mx_priority :=
     (case ks_list (requeue m t s) (mx_head m) of [] \<Rightarrow> 0xff | t # _ \<Rightarrow> prio s t)\<rparr>"
  "ks_list (requeue m t s) = (\<lambda>h. removeAll t (ks_list s h))
     (mx_head m := prio_insert (prio s) t (removeAll t (ks_list s (mx_head m))))"
  "ks_ipc (requeue m t s) = (ks_ipc s)\<lparr>ipc_mutex := ipc_mutex (ks_ipc (requeue m t s))\<rparr>"
  by (simp_all add: requeue_def mutex_update_priority_def cong: list.case_cong)
    (simp add: upd_mutex_def)

lemma set_prio_insert [simp]: "set (prio_insert f t ws) = insert t (set ws)"
  by (induction ws) auto

lemma sorted_prio_insert: "sorted (map f ws) \<Longrightarrow> sorted (map f (prio_insert f t ws))"
  unfolding prio_insert_split using sorted_map_insert [of f ws "\<lambda>n. f n \<le> f t" t] by simp

lemma sorted_map_removeAll: "sorted (map f ws) \<Longrightarrow> sorted (map f (removeAll t ws))"
  unfolding removeAll_filter_not_eq by (rule sorted_filter)

text \<open>Moving a waiter of a mutex up leaves at most the mutex's owner to be adjusted.\<close>

lemma requeue_inv:
  assumes s: "mutex_inv {t} s" and k: "kernel_ok s" and t: "live s t" "th_suspended (ks_thread s t)"
    "th_pending_object (ks_thread s t) = Some (Mutex m)"
    and p: "thread_get_mutex_priority t s = p" "p < prio s t"
    and s1: "ks_thread s1 = (ks_thread s)(t := set_prio p (ks_thread s t))" "ks_ipc s1 = ks_ipc s"
      "\<forall>k. wait_head k \<longrightarrow> ks_list s1 k = ks_list s k"
    and own: "mx_owner (the_mutex m s) = Some own"
  shows "mutex_inv {own} (requeue m t s1)"
    and "thread_get_mutex_priority own (requeue m t s1) = min (prio s own) p" and "own \<noteq> t"
    and "set (ks_list (requeue m t s1) (mx_head m)) = set (ks_list s (mx_head m))"
    and "wait_head h \<Longrightarrow> h \<noteq> mx_head m \<Longrightarrow> ks_list (requeue m t s1) h = ks_list s h"
proof -
  let ?s2 = "requeue m t s1"
  note d = mutex_invD [OF s]
  have x1: "the_mutex n s1 = the_mutex n s" "taken v s1 = taken v s" for n v
    using the_mutex_cong [OF s1(2)] by simp_all
  have tm: "t \<in> set (ks_list s (mx_head m))" using d(11) [of t m] t by simp
  then show ot: "own \<noteq> t" using d(7) [OF own] by auto
  have uq: "t \<notin> set (ks_list s h)" if "h \<noteq> mx_head m" for h
    using sched_invD(2) [OF kernel_okD(1) [OF k] tm] that by blast
  show sm: "set (ks_list ?s2 (mx_head m)) = set (ks_list s (mx_head m))" using tm s1(3) by auto
  show lo: "ks_list ?s2 h = ks_list s h" if "wait_head h" "h \<noteq> mx_head m" for h
    using that s1(3) uq [OF that(2)] by (simp add: removeAll_notin)
  have ln: "ks_list ?s2 (mx_head n) = ks_list s (mx_head n)" if "n \<noteq> m" for n using lo that by simp
  have sn: "set (ks_list ?s2 (mx_head n)) = set (ks_list s (mx_head n))" for n
    using sm ln by (cases "n = m") simp_all
  have pr: "prio ?s2 v = (if v = t then p else prio s v)" for v using s1(1) by simp
  have wfm: "mutex_wf ?s2 m"
  proof -
    have "map (prio s1) (removeAll t (ks_list s (mx_head m))) = map (prio s) (removeAll t (ks_list s (mx_head m)))"
      using s1(1) by simp
    then have "sorted (map (prio s1) (removeAll t (ks_list s (mx_head m))))"
      using sorted_map_removeAll [OF d(8) [of m]] by (simp only:)
    then have "sorted (map (prio s1) (ks_list ?s2 (mx_head m)))"
      using s1(3) sorted_prio_insert by simp
    moreover have "ks_list s (mx_head m) \<noteq> []" using tm by auto
    moreover have "mx_priority (the_mutex m ?s2) =
        (case ks_list ?s2 (mx_head m) of [] \<Rightarrow> 255 | w # _ \<Rightarrow> prio ?s2 w)"
      by (simp del: requeue_simps(9) cong: list.case_cong)
    ultimately show ?thesis
      using d(2-7) [of m] own tm unfolding mutex_wf_def Let_def sm
      by (simp add: x1 s1(1) del: requeue_simps(9)) auto
  qed
  have wf: "mutex_wf ?s2 n" for n
  proof (cases "n = m")
    case False
    show ?thesis
      by (rule mutex_wf_cong [of s])
        (use s False ln uq [of "mx_head n"] s1(1) in \<open>auto simp: mutex_inv_def x1\<close>)
  qed (use wfm in simp)
  have ww: "waiter_wf ?s2 v" for v
    by (rule waiter_wf_cong [of s]) (use s sn s1(1) in \<open>auto simp: mutex_inv_def simp del: requeue_simps(9)\<close>)
  have get: "thread_get_mutex_priority v ?s2 = thread_get_mutex_priority v s" if "v \<noteq> own" for v
  proof (rule get_priority_cong)
    fix n assume "n \<in> set (taken v s)"
    then have "n \<noteq> m" using d(6) [of n v] own that by auto
    then show "mx_priority (the_mutex n ?s2) = mx_priority (the_mutex n s) \<and>
        mx_ceiling_priority (the_mutex n ?s2) = mx_ceiling_priority (the_mutex n s)" by (simp add: x1)
  qed (use s1(1) x1 in auto)
  have pi: "pi_ok ?s2 v" if "v \<noteq> own" for v
    using get [OF that] d(12) [of v] p(1) pr [of v] s1(1) by (auto simp: pi_ok_def)
  show inv: "mutex_inv {own} ?s2"
  proof -
    have "{v. live ?s2 v} = {v. live s v}" using s1(1) by auto
    with d(1) wf ww pi show ?thesis by (simp add: mutex_inv_def)
  qed
  have lo: "live s own" using d(7) [OF own] by simp
  have mo: "m \<in> set (taken own s)" using d(6) own by simp
  show "thread_get_mutex_priority own ?s2 = min (prio s own) p"
  proof (rule nat_eq_by_le)
    fix q
    have "live ?s2 own" using lo s1(1) ot by simp
    from le_effective [OF inv this] have "q \<le> thread_get_mutex_priority own ?s2 \<longleftrightarrow>
        q \<le> th_init_priority (ks_thread s own) \<and>
        (\<forall>n \<in> set (taken own s). \<forall>w \<in> set (ks_list s (mx_head n)). q \<le> prio ?s2 w)"
      using s1(1) by (simp add: sn x1 ot del: requeue_simps(9))
    also have "\<dots> \<longleftrightarrow> q \<le> thread_get_mutex_priority own s \<and> q \<le> p" (is "?i \<and> ?new \<longleftrightarrow> _")
    proof -
      let ?old = "\<forall>n \<in> set (taken own s). \<forall>w \<in> set (ks_list s (mx_head n)). q \<le> prio s w"
      have pq: "q \<le> p" if ?new using bspec [OF bspec [OF that mo] tm] unfolding pr by simp
      have "?old" if ?new
      proof (intro ballI)
        fix n w assume "n \<in> set (taken own s)" "w \<in> set (ks_list s (mx_head n))"
        with bspec [OF bspec [OF that]] have "q \<le> prio ?s2 w" by blast
        with pq [OF that] p(2) show "q \<le> prio s w" unfolding pr by (simp split: if_splits)
      qed
      moreover have "?new" if ?old "q \<le> p" using that unfolding pr by simp
      ultimately show ?thesis using pq le_effective [OF s lo, of q] by blast
    qed
    also have "thread_get_mutex_priority own s = prio s own" using d(12) [of own] ot lo by simp
    finally show "q \<le> thread_get_mutex_priority own ?s2 \<longleftrightarrow> q \<le> min (prio s own) p" by simp
  qed
qed

text \<open>The propagation step, when the thread whose priority has changed waits for a mutex.\<close>

lemma update_priority_waiter:
  assumes ch: "change_priority t p s = Some s1" and k: "kernel_ok s1"
    and t: "live s1 t" "th_suspended (ks_thread s1 t)" "th_pending_object (ks_thread s1 t) = Some (Mutex m)"
    and m: "mx_object (the_mutex m s1) \<noteq> Obj_Null" "mx_flag (the_mutex m s1) = PRIO"
  shows "thread_update_priority t p sflag s =
    (case mx_owner (the_mutex m s1) of
       None \<Rightarrow> None
     | Some own \<Rightarrow> let p' = thread_get_mutex_priority own (requeue m t s1) in
         if p' \<noteq> prio s1 own then thread_update_priority own p' sflag (requeue m t s1) else Some (requeue m t s1))"
  by (subst thread_update_priority.simps)
    (simp add: ch t(2,3) m(1) requeue_spec(2) [OF k t(1,2) m(2)] requeue_def [symmetric] Let_def
      del: requeue_simps(9) cong: option.case_cong)

lemma set_prio_inv:
  assumes s: "mutex_inv {t} s" and p: "thread_get_mutex_priority t s = p"
    and s1: "ks_thread s1 = (ks_thread s)(t := set_prio p (ks_thread s t))" "ks_ipc s1 = ks_ipc s"
      "\<forall>k. wait_head k \<longrightarrow> ks_list s1 k = ks_list s k"
    and nw: "\<And>m. t \<notin> set (ks_list s (mx_head m))"
  shows "mutex_inv {} s1"
proof -
  have x1: "the_mutex n s1 = the_mutex n s" "taken v s1 = taken v s" for n v
    using the_mutex_cong [OF s1(2)] by simp_all
  have l1: "ks_list s1 (mx_head m) = ks_list s (mx_head m)" for m using s1(3) by simp
  have "mutex_wf s1 m" for m
    by (rule mutex_wf_cong [of s]) (use s nw l1 s1(1) in \<open>auto simp: mutex_inv_def x1\<close>)
  moreover have "waiter_wf s1 v" for v
    by (rule waiter_wf_cong [of s]) (use s l1 s1(1) in \<open>auto simp: mutex_inv_def\<close>)
  moreover have "thread_get_mutex_priority v s1 = thread_get_mutex_priority v s" for v
    by (rule get_priority_cong) (use s1(1) in \<open>auto simp: x1\<close>)
  then have "pi_ok s1 v" for v
    using s p s1(1) by (auto simp: mutex_inv_def pi_ok_def)
  moreover have "{v. live s1 v} = {v. live s v}" using s1(1) by auto
  ultimately show ?thesis using s by (simp add: mutex_inv_def)
qed

text \<open>
  Raising the priority of a thread to what it inherits restores the invariant along the whole chain
  of owners, and ends: each round raises one more thread to the same priority.
\<close>

lemma boost_spec:
  assumes "kernel_ok s" "mutex_inv {t} s" "live s t" "thread_get_mutex_priority t s = p" "p < prio s t"
  shows "\<exists>s'. thread_update_priority t p sflag s = Some s' \<and> kernel_ok s' \<and> mutex_inv {} s' \<and> boost_frame s s'"
  using assms
proof (induction "card {u. live s u \<and> p < prio s u}" arbitrary: s t rule: less_induct)
  case less
  note k = less.prems(1) and s = less.prems(2) and lt = less.prems(3) and p = less.prems(4,5)
  note d = mutex_invD [OF s]
  have p32: "p < 32" using get_priority_le_init [of t s] d(10) [OF lt] p(1) by simp
  obtain s1 where s1: "change_priority t p s = Some s1" "kernel_ok s1"
    "ks_thread s1 = (ks_thread s)(t := set_prio p (ks_thread s t))" "ks_ipc s1 = ks_ipc s"
    "ks_clk s1 = ks_clk s" "ks_current s1 = ks_current s" "ks_lock_nest s1 = ks_lock_nest s"
    "ks_irq_nest s1 = ks_irq_nest s" "\<forall>k. wait_head k \<longrightarrow> ks_list s1 k = ks_list s k"
    using change_priority_spec [OF k lt p32] by blast
  have x1: "the_mutex n s1 = the_mutex n s" "taken v s1 = taken v s" for n v
    using the_mutex_cong [OF s1(4)] by simp_all
  have thr: "ks_thread s1 v = ks_thread s v \<or> (\<exists>q < prio s v. ks_thread s1 v = set_prio q (ks_thread s v))" for v
    using s1(3) p(2) by auto
  show ?case
  proof (cases "th_suspended (ks_thread s t) \<and> (\<exists>m. th_pending_object (ks_thread s t) = Some (Mutex m))")
    case False
    have nw: "t \<notin> set (ks_list s (mx_head m))" for m using d(11) [of t m] False by auto
    have "thread_update_priority t p sflag s = Some s1"
      using False s1(1,3) by (subst thread_update_priority.simps) (auto split: option.split ipc_obj.split)
    moreover have "mutex_inv {} s1" by (rule set_prio_inv [OF s p(1) s1(3,4,9) nw])
    moreover have "boost_frame s s1"
      using s1 thr unfolding boost_frame_def by (simp add: x1)
    ultimately show ?thesis using s1(2) by blast
  next
    case True
    then obtain m where susp: "th_suspended (ks_thread s t)"
      and m: "th_pending_object (ks_thread s t) = Some (Mutex m)" by auto
    have tm: "t \<in> set (ks_list s (mx_head m))" using d(11) [of t m] lt susp m by simp
    then obtain own where own: "mx_owner (the_mutex m s) = Some own" and mo: "mx_object (the_mutex m s) \<noteq> Obj_Null"
      using d(5) [of m] by force
    let ?s2 = "requeue m t s1"
    note r = requeue_inv [OF s k lt susp m p s1(3,4,9) own]
    have q: "kernel_ok ?s2" by (rule requeue_spec) (use s1 lt susp d(2) in \<open>simp_all add: x1\<close>)
    have frame: "boost_frame s ?s2"
      unfolding boost_frame_def
    proof (intro conjI allI impI)
      show "set (ks_list ?s2 h) = set (ks_list s h)" if "wait_head h" for h
        using r(4) r(5) [OF that] by (cases "h = mx_head m") simp_all
      show "ks_list ?s2 h = ks_list s h" if "wait_head h" "\<forall>n. h \<noteq> mx_head n" for h
        using r(5) that by blast
      show "ks_ipc ?s2 = (ks_ipc s)\<lparr>ipc_mutex := ipc_mutex (ks_ipc ?s2)\<rparr>"
        using requeue_simps(10) [of m t s1] unfolding s1(4) .
      show "the_mutex n ?s2 = (the_mutex n s)\<lparr>mx_priority := mx_priority (the_mutex n ?s2)\<rparr>" for n
        by (cases "n = m") (simp_all add: x1)
    qed (use s1 thr in simp_all)
    have step: "thread_update_priority t p sflag s =
        (if thread_get_mutex_priority own ?s2 \<noteq> prio ?s2 own
         then thread_update_priority own (thread_get_mutex_priority own ?s2) sflag ?s2 else Some ?s2)"
      using update_priority_waiter [OF s1(1,2), of m sflag] s1(3) lt susp d(2) m mo own
      by (simp add: x1 Let_def del: requeue_simps(9))
    have po: "prio ?s2 own = prio s own" using s1(3) r(3) by simp
    show ?thesis
    proof (cases "thread_get_mutex_priority own ?s2 = prio ?s2 own")
      case True
      then have "mutex_inv {} ?s2" by (intro mutex_inv_discharge [OF r(1)]) (simp add: pi_ok_def)
      with True step q frame show ?thesis by auto
    next
      case False
      with r(2) po have g: "thread_get_mutex_priority own ?s2 = p" "p < prio ?s2 own" by auto
      have "{u. live ?s2 u \<and> p < prio ?s2 u} \<subset> {u. live s u \<and> p < prio s u}"
        using s1(3) lt p(2) by auto
      then have "card {u. live ?s2 u \<and> p < prio ?s2 u} < card {u. live s u \<and> p < prio s u}"
        using d(1) by (intro psubset_card_mono) auto
      from less.hyps [OF this q r(1) _ g] obtain s' where
        "thread_update_priority own p sflag ?s2 = Some s'" "kernel_ok s'" "mutex_inv {} s'" "boost_frame ?s2 s'"
        using d(7) [OF own] s1(3) r(3) by auto
      with step False g boost_frame_trans [OF frame] show ?thesis by auto
    qed
  qed
qed

section \<open>Taking\<close>

lemma upd_error_mutex_inv: "mutex_inv X s \<Longrightarrow> mutex_inv X (upd_thread t (\<lambda>th. th\<lparr>th_error := e\<rparr>) s)"
  by (rule mutex_inv_cong [of X s]) (simp_all add: th_suspended_def)

lemma sched_frame_mutex_inv:
  assumes f: "sched_frame s s'" and s: "mutex_inv X s"
  shows "mutex_inv X s'"
proof -
  note fr = sched_frameD [OF f]
  show ?thesis by (rule mutex_inv_cong [OF s]) (simp_all add: fr the_mutex_cong [OF fr(2)])
qed

text \<open>A mutex with its owner, hold count or taken list changed, and no waiters affected.\<close>

lemma mutex_inv_change:
  assumes s: "mutex_inv X s" and th: "ks_thread s' = ks_thread s"
    and l: "\<And>n. ks_list s' (mx_head n) = ks_list s (mx_head n)"
    and x: "\<And>n. n \<noteq> m \<Longrightarrow> the_mutex n s' = the_mutex n s"
    and tk: "\<And>n u. n \<noteq> m \<Longrightarrow> n \<in> set (taken u s') \<longleftrightarrow> n \<in> set (taken u s)"
    and wf: "mutex_wf s' m"
    and pi: "\<And>u. live s u \<Longrightarrow> u \<notin> X \<Longrightarrow> thread_get_mutex_priority u s' = thread_get_mutex_priority u s"
  shows "mutex_inv X s'"
  unfolding mutex_inv_def
proof (intro conjI allI impI)
  show "finite {t. live s' t}" using s th by (simp add: mutex_inv_def)
  show "mutex_wf s' n" for n
    using wf mutex_wf_cong [of s n s'] s x tk l th by (cases "n = m") (simp_all add: mutex_inv_def)
  show "waiter_wf s' v" for v
    by (rule waiter_wf_cong [of s]) (use s l th in \<open>auto simp: mutex_inv_def\<close>)
  show "pi_ok s' v" if "v \<notin> X" for v
    using s that pi [of v] th by (auto simp: mutex_inv_def pi_ok_def)
qed

lemma take_free:
  assumes s: "mutex_inv {} s" and o: "mx_owner (the_mutex m s) = None" and t: "live s t"
  shows "mutex_inv {} (taken_insert t m
    (upd_mutex m (\<lambda>x. x\<lparr>mx_owner := Some t, mx_priority := 0xff, mx_hold := 1\<rparr>) s))" (is "mutex_inv {} ?s")
proof (rule mutex_inv_change [OF s])
  note d = mutex_invD [OF s]
  have e: "ks_list s (mx_head m) = []" using d(5) [of m] o by auto
  have nt: "m \<notin> set (taken u s)" for u using d(6) [of m u] o by simp
  show "mutex_wf ?s m" using d(2,3) [of m] nt t e by (auto simp: mutex_wf_def Let_def)
  show "thread_get_mutex_priority u ?s = thread_get_mutex_priority u s" if u: "live s u" for u
  proof (rule nat_eq_by_le)
    have "mx_priority (the_mutex n ?s) = mx_priority (the_mutex n s) \<and>
        mx_ceiling_priority (the_mutex n ?s) = mx_ceiling_priority (the_mutex n s)" if "n \<in> set (taken u s)" for n
      using nt that by auto
    then show "q \<le> thread_get_mutex_priority u ?s \<longleftrightarrow> q \<le> thread_get_mutex_priority u s" for q
      using d(10) [OF u] d(3) [of m] by (auto simp: le_get_priority)
  qed
qed auto

lemma take_nested:
  assumes s: "mutex_inv {} s" and "mx_owner (the_mutex m s) = Some t" "h \<noteq> 0"
  shows "mutex_inv {} (upd_mutex m (\<lambda>x. x\<lparr>mx_hold := h\<rparr>) s)" (is "mutex_inv {} ?s")
proof (rule mutex_inv_change [OF s])
  note d = mutex_invD [OF s]
  show "mutex_wf ?s m"
    using d(2,3,5-9) [of m] assms(2,3) by (simp add: mutex_wf_def Let_def cong: list.case_cong)
  show "thread_get_mutex_priority u ?s = thread_get_mutex_priority u s" for u
    by (rule get_priority_cong) auto
qed auto

text \<open>Adding a waiter leaves at most the mutex's owner to be adjusted.\<close>

lemma enqueue_inv:
  assumes s: "mutex_inv {} s" and t: "live s t" "\<And>n. t \<notin> set (ks_list s (mx_head n))"
    and own: "mx_owner (the_mutex m s) = Some own" "own \<noteq> t" and ob: "mx_object (the_mutex m s) \<noteq> Obj_Null"
    and th: "ks_thread s' = (ks_thread s)(t := th)" "th_object th \<noteq> Obj_Null" "th_suspended th"
      "th_current_priority th = prio s t" "th_init_priority th = th_init_priority (ks_thread s t)"
      "th_pending_object th = Some (Mutex m)"
    and l: "\<And>n. ks_list s' (mx_head n) = (if n = m then prio_insert (prio s) t (ks_list s (mx_head m))
      else ks_list s (mx_head n))"
    and x: "\<And>n. the_mutex n s' = (if n = m then (the_mutex m s)\<lparr>mx_priority :=
      (case prio_insert (prio s) t (ks_list s (mx_head m)) of [] \<Rightarrow> 0xff | w # _ \<Rightarrow> prio s w)\<rparr>
      else the_mutex n s)"
    and tk: "\<And>u. taken u s' = taken u s"
  shows "mutex_inv {own} s'" "thread_get_mutex_priority own s' = min (prio s own) (prio s t)"
proof -
  note d = mutex_invD [OF s]
  have pr: "prio s' = prio s" using th by (auto simp: fun_eq_iff)
  have pr': "prio s' v = prio s v" for v using th by simp
  have wfm: "mutex_wf s' m"
    using d(2-8) [of m] own ob sorted_prio_insert [OF d(8) [of m], of t] t th(1,2)
    unfolding mutex_wf_def Let_def l x tk pr pr' by auto
  have live: "live s' v = live s v" for v using th t by simp
  have wf: "mutex_wf s' n" for n
  proof (cases "n = m")
    case False
    have "mutex_wf s n" using s by (simp add: mutex_inv_def)
    then show ?thesis by (rule mutex_wf_cong) (simp_all add: x l tk pr' live False)
  qed (use wfm in simp)
  have ww: "waiter_wf s' v" for v
  proof (cases "v = t")
    case True
    then show ?thesis using d(10) [of t] t th l by (auto simp: waiter_wf_def)
  next
    case False
    have "waiter_wf s v" using s by (simp add: mutex_inv_def)
    then show ?thesis by (rule waiter_wf_cong) (simp_all add: th l False)
  qed
  have get: "thread_get_mutex_priority v s' = thread_get_mutex_priority v s" if "v \<noteq> own" for v
  proof (rule get_priority_cong)
    fix n assume "n \<in> set (taken v s)"
    then have "n \<noteq> m" using d(6) [of n v] own that by auto
    then show "mx_priority (the_mutex n s') = mx_priority (the_mutex n s) \<and>
        mx_ceiling_priority (the_mutex n s') = mx_ceiling_priority (the_mutex n s)" by (simp add: x)
  qed (use th tk in auto)
  have "pi_ok s' v" if "v \<noteq> own" for v
    using get [OF that] d(12) [of v] pr live by (auto simp: pi_ok_def fun_eq_iff)
  then show inv: "mutex_inv {own} s'"
    using d(1) wf ww live by (simp add: mutex_inv_def)
  have lo: "live s own" using d(7) [OF own(1)] by simp
  have mo: "m \<in> set (taken own s)" using d(6) own by simp
  show "thread_get_mutex_priority own s' = min (prio s own) (prio s t)"
  proof (rule nat_eq_by_le)
    fix q
    have "live s' own" using lo live by simp
    have i: "th_init_priority (ks_thread s' own) = th_init_priority (ks_thread s own)" using th own by simp
    from le_effective [OF inv \<open>live s' own\<close>, of q] have "q \<le> thread_get_mutex_priority own s' \<longleftrightarrow>
        q \<le> th_init_priority (ks_thread s own) \<and>
        (\<forall>n \<in> set (taken own s). \<forall>w \<in> set (ks_list s' (mx_head n)). q \<le> prio s w)"
      unfolding i tk pr' .
    also have "\<dots> \<longleftrightarrow> q \<le> thread_get_mutex_priority own s \<and> q \<le> prio s t"
      unfolding le_effective [OF s lo, of q] l using mo by auto
    also have "thread_get_mutex_priority own s = prio s own" using d(12) [of own] lo by simp
    finally show "q \<le> thread_get_mutex_priority own s' \<longleftrightarrow> q \<le> min (prio s own) (prio s t)" by simp
  qed
qed

lemma suspended_thread:
  assumes "suspended t s s1"
  obtains st where "st AND 4 = 4" "st AND 7 = st" "ks_thread s1 = (ks_thread s)(t := set_state st (ks_thread s t))"
    "ks_list s1 = ks_list s" "ks_ipc s1 = ks_ipc s" "unlinked t s1" "ks_current s1 = ks_current s"
    "\<not> tm_activated (ck_timer (ks_clk s1) (Thread_Timer t))"
  using assms by (auto simp: suspended_def)

text \<open>Blocking on an owned mutex, up to the propagation of the priority.\<close>

lemma take_blocks:
  assumes k: "kernel_ok s" and s: "mutex_inv {} s" and t: "may_block t s" and f: "sflag \<noteq> Bad_Suspend_Flag"
    and own: "mx_owner (the_mutex m s) = Some own" "own \<noteq> t" and ob: "mx_object (the_mutex m s) \<noteq> Obj_Null"
  shows "\<exists>s1 s2. ipc_list_suspend (mx_head m) t (mx_flag (the_mutex m s)) sflag s = Some (RT_EOK, s1) \<and>
    (let sp = upd_thread t (\<lambda>th. th\<lparr>th_pending_object := Some (Mutex m)\<rparr>) s1 in
     if prio s t < mx_priority (the_mutex m sp)
     then let s' = upd_mutex m (\<lambda>x. x\<lparr>mx_priority := prio s t\<rparr>) sp in
       (if prio s t < prio s' own then thread_update_priority own (prio s t) RT_UNINTERRUPTIBLE s' = Some s2
        else s2 = s')
     else s2 = sp) \<and> mx_owner (the_mutex m s1) = Some own \<and>
    kernel_ok s2 \<and> mutex_inv {} s2 \<and> t \<in> set (ks_list s2 (mx_head m)) \<and> mx_owner (the_mutex m s2) = Some own \<and>
    prio s2 t \<le> prio s t \<and> \<not> tm_activated (ck_timer (ks_clk s2) (Thread_Timer t)) \<and>
    th_error (ks_thread s2 t) = th_error (ks_thread s t)"
proof -
  note d = mutex_invD [OF s]
  have c: "ks_current s = Some t" "th_state (ks_thread s t) = 3" using t by (simp_all add: may_block_def)
  have lt: "live s t" using sched_invD(8) [OF kernel_okD(1) [OF k] c(1)] by simp
  let ?h = "mx_head m"
  have pri: "enqueued PRIO (prio s) t (ks_list s ?h) = prio_insert (prio s) t (ks_list s ?h)"
    by (simp add: enqueued_def)
  obtain sa where sa: "ipc_list_suspend ?h t PRIO sflag s =
      Some (RT_EOK, list_set ?h (prio_insert (prio s) t (ks_list s ?h)) sa)"
    "kernel_ok (list_set ?h (prio_insert (prio s) t (ks_list s ?h)) sa)" "suspended t s sa"
    using ipc_list_suspend_spec [OF k c _ f, of PRIO ?h] unfolding pri by auto
  obtain st where st: "st AND 4 = 4" "st AND 7 = st" "ks_thread sa = (ks_thread s)(t := set_state st (ks_thread s t))"
    "ks_list sa = ks_list s" "ks_ipc sa = ks_ipc s" "\<not> tm_activated (ck_timer (ks_clk sa) (Thread_Timer t))"
    using suspended_thread [OF sa(3)] by metis
  have xa: "the_mutex n sa = the_mutex n s" "taken v sa = taken v s" for n v
    using the_mutex_cong [OF st(5)] by simp_all
  define s1 where "s1 = list_set ?h (prio_insert (prio s) t (ks_list s ?h)) sa"
  define sp where "sp = upd_thread t (\<lambda>th. th\<lparr>th_pending_object := Some (Mutex m)\<rparr>) s1"
  define sq where "sq = (if prio s t < mx_priority (the_mutex m sp)
    then upd_mutex m (\<lambda>x. x\<lparr>mx_priority := prio s t\<rparr>) sp else sp)"
  have kp: "kernel_ok sp" unfolding sp_def by (rule kernel_ok_upd_same) (use sa(2) in \<open>simp_all add: s1_def\<close>)
  have kq: "kernel_ok sq" using kp by (simp add: sq_def)
  have mp: "mx_priority (the_mutex m sp) = (case ks_list s ?h of [] \<Rightarrow> 0xff | w # _ \<Rightarrow> prio s w)"
    using d(9) [of m] by (simp add: sp_def s1_def xa)
  have nt: "t \<notin> set (ks_list s (mx_head n))" for n
    using sa(3) st(4) by (simp add: suspended_def unlinked_def)
  have p32: "prio s t < 255"
    using d(12) [of t] lt get_priority_le_init [of t s] d(10) [OF lt] by simp
  let ?th = "(set_state st (ks_thread s t))\<lparr>th_pending_object := Some (Mutex m)\<rparr>"
  have xq: "the_mutex n sq = (if n = m then (the_mutex m s)\<lparr>mx_priority :=
      (case prio_insert (prio s) t (ks_list s ?h) of [] \<Rightarrow> 0xff | w # _ \<Rightarrow> prio s w)\<rparr> else the_mutex n s)" for n
    using mp p32 d(9) [of m] by (cases "ks_list s ?h") (auto simp: sq_def sp_def s1_def xa)
  have q: "mutex_inv {own} sq" "thread_get_mutex_priority own sq = min (prio s own) (prio s t)"
  proof -
    have "ks_thread sq = (ks_thread s)(t := ?th)"
      by (simp add: sq_def sp_def s1_def st(3))
    moreover have "th_suspended ?th" using st(1,2) by (simp add: th_suspended_state th_state_set_state)
    moreover have "ks_list sq (mx_head n) = (if n = m then prio_insert (prio s) t (ks_list s ?h)
        else ks_list s (mx_head n))" for n by (simp add: sq_def sp_def s1_def st(4))
    moreover have "taken u sq = taken u s" for u by (simp add: sq_def sp_def s1_def xa)
    ultimately show "mutex_inv {own} sq" "thread_get_mutex_priority own sq = min (prio s own) (prio s t)"
      using enqueue_inv [OF s lt nt own ob, of sq ?th] xq lt by simp_all
  qed
  have ps: "ks_thread sq = ks_thread sp" by (simp add: sq_def)
  have po: "prio sq own = prio s own" using own by (simp add: sq_def sp_def s1_def st(3))
  have pt: "prio sq t = prio s t" by (simp add: sq_def sp_def s1_def st(3))
  have eq: "th_error (ks_thread sq t) = th_error (ks_thread s t)" by (simp add: sq_def sp_def s1_def st(3))
  have lo: "live sq own" using d(7) [OF own(1)] own by (simp add: sq_def sp_def s1_def st(3))
  have tq: "t \<in> set (ks_list sq ?h)" by (simp add: sq_def sp_def s1_def)
  have oq: "mx_owner (the_mutex m sq) = Some own" using own by (simp add: xq)
  have ck: "ks_clk sq = ks_clk sa" by (simp add: sq_def sp_def s1_def)
  have o1: "mx_owner (the_mutex m s1) = Some own" using own by (simp add: s1_def xa)
  have run: "ipc_list_suspend ?h t (mx_flag (the_mutex m s)) sflag s = Some (RT_EOK, s1)"
    using sa(1) d(2) [of m] by (simp add: s1_def)
  show ?thesis
  proof (cases "prio s t < mx_priority (the_mutex m sp) \<and> prio s t < prio sq own")
    case True
    then have g: "thread_get_mutex_priority own sq = prio s t" "prio s t < prio sq own"
      using q(2) po by simp_all
    obtain s2 where s2: "thread_update_priority own (prio s t) RT_UNINTERRUPTIBLE sq = Some s2"
      "kernel_ok s2" "mutex_inv {} s2" "boost_frame sq s2"
      using boost_spec [OF kq q(1) lo g] by blast
    note fr = boost_frameD [OF s2(4)]
    have "t \<in> set (ks_list s2 ?h)" using fr(5) [of ?h] tq by simp
    moreover have "mx_owner (the_mutex m s2) = Some own" using fr(7) oq by simp
    moreover have "prio s2 t \<le> prio s t" using fr(11) [of t] pt by simp
    moreover have "\<not> tm_activated (ck_timer (ks_clk s2) (Thread_Timer t))" using fr(1) ck st(6) by simp
    moreover have "th_error (ks_thread s2 t) = th_error (ks_thread s t)" using fr(14) [of t] eq by simp
    moreover have "prio s t < mx_priority (the_mutex m sp)" "prio s t < prio sp own"
      using True by (simp_all add: ps)
    ultimately show ?thesis
      using s2 run o1 by - (rule exI [of _ s1], rule exI [of _ s2], simp add: sp_def [symmetric] sq_def Let_def)
  next
    case False
    have "thread_get_mutex_priority own sq = prio sq own"
    proof (cases "prio s t < prio s own")
      case True
      with False po have "mx_priority (the_mutex m s) \<le> prio s t"
        using d(9) [of m] mp by (simp add: not_less)
      moreover have "thread_get_mutex_priority own s \<le> mx_priority (the_mutex m s)"
        using le_get_priority [of "thread_get_mutex_priority own s" own s] d(6) [of m own] own by simp
      ultimately show ?thesis using True d(12) [of own] d(7) [OF own(1)] by simp
    next
      case False
      then show ?thesis using q(2) po by simp
    qed
    then have "mutex_inv {} sq" by (intro mutex_inv_discharge [OF q(1)]) (simp add: pi_ok_def)
    moreover from False have "\<not> (prio s t < mx_priority (the_mutex m sp) \<and> prio s t < prio sp own)"
      by (simp add: ps)
    ultimately show ?thesis using kq tq oq pt ck st(6) run o1 eq
      by - (rule exI [of _ s1], rule exI [of _ sq], simp add: sp_def [symmetric] sq_def Let_def)
  qed
qed

lemma may_block_upd_error' [simp]: "may_block t (upd_thread u (\<lambda>th. th\<lparr>th_error := e\<rparr>) s) = may_block t s"
  by (simp add: may_block_def)

lemma u8_below_max: "(h :: u8) < 0xff \<longleftrightarrow> h \<noteq> 0xff"
proof -
  have "unat h < 256" using unsigned_less [of h] by simp
  then show ?thesis by (auto simp: word_less_nat_alt word_unat_eq_iff)
qed

lemma u8_succ_zero: "(h :: u8) + 1 = 0 \<longleftrightarrow> h = 0xff"
proof -
  have e: "(0xff :: u8) = - 1" by simp
  show ?thesis unfolding e by (simp only: eq_neg_iff_add_eq_0 [symmetric])
qed

lemma mutex_take_spec:
  assumes k: "kernel_ok s" and s: "mutex_inv {} s" and t: "may_block t s" and f: "sflag \<noteq> Bad_Suspend_Flag"
    and tm: "timeout_ok timeout" and ob: "mx_object (the_mutex m s) \<noteq> Obj_Null"
  shows "\<exists>r s'. mutex_take m timeout sflag s = Some (r, s') \<and> kernel_ok s' \<and> mutex_inv {} s' \<and>
    (case mx_owner (the_mutex m s) of
       None \<Rightarrow> r = Ret RT_EOK \<and> mx_owner (the_mutex m s') = Some t \<and> mx_hold (the_mutex m s') = 1
     | Some own \<Rightarrow>
         if own = t then
           (if mx_hold (the_mutex m s) = 255 then r = Ret (- RT_EFULL) \<and> the_mutex m s' = the_mutex m s
            else r = Ret RT_EOK \<and> mx_owner (the_mutex m s') = Some t \<and>
              mx_hold (the_mutex m s') = mx_hold (the_mutex m s) + 1)
         else if timeout = 0 then r = Ret (- RT_ETIMEOUT) \<and> the_mutex m s' = the_mutex m s
         else r = Blocked \<and> mx_owner (the_mutex m s') = Some own \<and> t \<in> set (ks_list s' (mx_head m)) \<and>
           prio s' own \<le> prio s t \<and> th_error (ks_thread s' t) = RT_EOK)"
proof -
  let ?s = "upd_thread t (\<lambda>th. th\<lparr>th_error := RT_EOK\<rparr>) s"
  have c: "ks_current s = Some t" using t by (simp add: may_block_def)
  have lt: "live ?s t" using sched_invD(8) [OF kernel_okD(1) [OF k] c] by simp
  have k0: "kernel_ok ?s" by (rule kernel_ok_upd_same [OF k]) simp
  have s0: "mutex_inv {} ?s" by (rule upd_error_mutex_inv [OF s])
  note av = may_block_available [OF t]
  have hf: "mx_hold (the_mutex m s) < 0xff \<longleftrightarrow> mx_hold (the_mutex m s) \<noteq> 0xff"
    by (rule u8_below_max)
  consider (free) "mx_owner (the_mutex m s) = None" | (mine) "mx_owner (the_mutex m s) = Some t"
    | (poll) own where "mx_owner (the_mutex m s) = Some own" "own \<noteq> t" "timeout = 0"
    | (wait) own where "mx_owner (the_mutex m s) = Some own" "own \<noteq> t" "timeout \<noteq> 0" by fastforce
  then show ?thesis
  proof cases
    case free
    let ?s' = "taken_insert t m (upd_mutex m (\<lambda>x. x\<lparr>mx_owner := Some t, mx_priority := 0xff, mx_hold := 1\<rparr>) ?s)"
    have "mutex_take m timeout sflag s = Some (Ret RT_EOK, ?s')"
      using free av ob c mutex_invD(3) [OF s, of m] by (simp add: mutex_take_def rt_thread_self_def)
    with take_free [OF s0 _ lt, of m] free k0 show ?thesis by simp
  next
    case mine
    show ?thesis
    proof (cases "mx_hold (the_mutex m s) = 0xff")
      case True
      with mine av ob c k0 s0 show ?thesis
        by (simp add: mutex_take_def rt_thread_self_def RT_MUTEX_HOLD_MAX_def)
    next
      case False
      let ?h = "mx_hold (the_mutex m s) + 1"
      have "?h \<noteq> 0" using False u8_succ_zero by blast
      then have "mutex_inv {} (upd_mutex m (\<lambda>x. x\<lparr>mx_hold := ?h\<rparr>) ?s)"
        using take_nested [OF s0, of m t ?h] mine by simp
      moreover have "upd_mutex m (\<lambda>x. x\<lparr>mx_hold := mx_hold x + 1\<rparr>) ?s = upd_mutex m (\<lambda>x. x\<lparr>mx_hold := ?h\<rparr>) ?s"
        by (simp add: upd_mutex_def upd_ipc_def the_mutex_def)
      moreover have "mutex_take m timeout sflag s = Some (Ret RT_EOK, upd_mutex m (\<lambda>x. x\<lparr>mx_hold := mx_hold x + 1\<rparr>) ?s)"
        using mine av ob c False hf by (simp add: mutex_take_def rt_thread_self_def RT_MUTEX_HOLD_MAX_def)
      ultimately show ?thesis using mine False k0 by simp
    qed
  next
    case poll
    have "mutex_take m timeout sflag s =
        Some (Ret (- RT_ETIMEOUT), upd_thread t (\<lambda>th. th\<lparr>th_error := - RT_ETIMEOUT\<rparr>) ?s)"
      using poll av ob c by (simp add: mutex_take_def rt_thread_self_def)
    moreover have "kernel_ok (upd_thread t (\<lambda>th. th\<lparr>th_error := - RT_ETIMEOUT\<rparr>) ?s)"
      by (rule kernel_ok_upd_same [OF k0]) (simp add: same_sched_def)
    ultimately show ?thesis using poll upd_error_mutex_inv [OF s0] by simp
  next
    case wait
    have w: "may_block t ?s" "mx_owner (the_mutex m ?s) = Some own" "mx_object (the_mutex m ?s) \<noteq> Obj_Null"
      and pe: "prio ?s t = prio s t" using wait t ob by simp_all
    from take_blocks [OF k0 s0 w(1) f w(2) wait(2) w(3)] obtain s1 s2 where
      s1: "ipc_list_suspend (mx_head m) t (mx_flag (the_mutex m s)) sflag ?s = Some (RT_EOK, s1)"
      "let sp = upd_thread t (\<lambda>th. th\<lparr>th_pending_object := Some (Mutex m)\<rparr>) s1 in
       if prio s t < mx_priority (the_mutex m sp)
       then let s' = upd_mutex m (\<lambda>x. x\<lparr>mx_priority := prio s t\<rparr>) sp in
         (if prio s t < prio s' own then thread_update_priority own (prio s t) RT_UNINTERRUPTIBLE s' = Some s2
          else s2 = s')
       else s2 = sp" "mx_owner (the_mutex m s1) = Some own"
      "kernel_ok s2" "mutex_inv {} s2" "t \<in> set (ks_list s2 (mx_head m))"
      "mx_owner (the_mutex m s2) = Some own" "prio s2 t \<le> prio s t"
      "\<not> tm_activated (ck_timer (ks_clk s2) (Thread_Timer t))"
      "th_error (ks_thread s2 t) = th_error (ks_thread ?s t)"
      unfolding pe the_mutex_frame by blast
    note w = waiter_facts [OF s1(4,6)]
    obtain c3 where c3: "arm_timeout t timeout s2 = Some (upd_clk c3 s2)" "kernel_ok (upd_clk c3 s2)"
      using arm_timeout_spec [OF s1(4) w(1,2) tm s1(9)] by auto
    obtain s4 where s4: "rt_schedule (upd_clk c3 s2) = Some s4" "kernel_ok s4" "sched_frame (upd_clk c3 s2) s4"
      using schedule_kernel_ok [OF c3(2)] by (auto simp: ok_iff)
    have "mutex_inv {} (upd_clk c3 s2)" by (rule mutex_inv_cong [OF s1(5)]) simp_all
    with sched_frame_mutex_inv [OF s4(3)] have i4: "mutex_inv {} s4" by blast
    note fr = sched_frameD [OF s4(3)]
    have l4: "t \<in> set (ks_list s4 (mx_head m))" "mx_owner (the_mutex m s4) = Some own"
      using fr(5) s1(6,7) the_mutex_cong(1) [OF fr(2)] by simp_all
    have "prio s4 own \<le> prio s4 t"
    proof -
      have lo: "live s4 own" using mutex_invD(7) [OF i4 l4(2)] by simp
      have "m \<in> set (taken own s4)" using mutex_invD(6) [OF i4] l4(2) by simp
      with le_effective [OF i4 lo, of "prio s4 own"] l4(1) mutex_invD(12) [OF i4 _ lo]
      show ?thesis by auto
    qed
    then have "prio s4 own \<le> prio s t" using fr(11) [of t] s1(8) by simp
    moreover have "th_error (ks_thread s4 t) = RT_EOK" using fr(10) [of t] s1(10) by simp
    moreover have "mutex_take m timeout sflag s = Some (Blocked, s4)"
      using wait av ob c s1(1-3) c3(1) s4(1)
      by (simp add: mutex_take_def rt_thread_self_def Let_def split: if_splits)
    ultimately show ?thesis using wait s4(2) i4 l4 by simp
  qed
qed

section \<open>Releasing\<close>

text \<open>The last release by thread \<open>t\<close>: its priority without the mutex, in the cases the code distinguishes.\<close>

lemma release_priority:
  assumes s: "mutex_inv {} s" and own: "mx_owner (the_mutex m s) = Some t"
    and s2: "ks_thread s2 = ks_thread s" "\<And>n. n \<noteq> m \<Longrightarrow> the_mutex n s2 = the_mutex n s"
      "taken t s2 = removeAll m (taken t s)"
  shows "q \<le> thread_get_mutex_priority t s2 \<longleftrightarrow> q \<le> th_init_priority (ks_thread s t) \<and>
      (\<forall>n \<in> set (taken t s) - {m}. q \<le> mx_priority (the_mutex n s) \<and> q \<le> mx_ceiling_priority (the_mutex n s))"
    and "prio s t \<noteq> mx_priority (the_mutex m s) \<Longrightarrow> thread_get_mutex_priority t s2 = prio s t"
    and "thread_get_mutex_priority t s2 < 32"
proof -
  note d = mutex_invD [OF s]
  have lt: "live s t" using d(7) [OF own] by simp
  have mt: "m \<in> set (taken t s)" using d(6) own by simp
  show le: "q \<le> thread_get_mutex_priority t s2 \<longleftrightarrow> q \<le> th_init_priority (ks_thread s t) \<and>
      (\<forall>n \<in> set (taken t s) - {m}. q \<le> mx_priority (the_mutex n s) \<and> q \<le> mx_ceiling_priority (the_mutex n s))"
    for q by (auto simp: le_get_priority s2)
  show p32: "thread_get_mutex_priority t s2 < 32"
    using get_priority_le_init [of t s2] d(10) [OF lt] s2(1) by simp
  have pt: "prio s t = thread_get_mutex_priority t s" using d(12) lt by simp
  have all: "q \<le> prio s t \<longleftrightarrow> q \<le> thread_get_mutex_priority t s2 \<and> q \<le> mx_priority (the_mutex m s)" for q
    unfolding pt le le_get_priority [of q t s] using mt d(3) [of m] d(10) [OF lt] by auto
  show "thread_get_mutex_priority t s2 = prio s t" if "prio s t \<noteq> mx_priority (the_mutex m s)"
    using all [of "prio s t"] all [of "min (thread_get_mutex_priority t s2) (mx_priority (the_mutex m s))"] that
    by (auto simp: min_def split: if_splits)
qed

text \<open>What the final states of a release keep of the threads.\<close>

definition released :: "tid \<Rightarrow> nat \<Rightarrow> kstate \<Rightarrow> kstate \<Rightarrow> bool" where
  "released t p s s' \<longleftrightarrow> (\<forall>v. live s' v = live s v \<and> prio s' v = (if v = t then p else prio s v) \<and>
     th_init_priority (ks_thread s' v) = th_init_priority (ks_thread s v))"

lemma release_inv:
  assumes s: "mutex_inv {} s" and own: "mx_owner (the_mutex m s) = Some t"
    and nt: "\<And>n. t \<notin> set (ks_list s (mx_head n))"
    and r: "released t p s s'" and x: "\<And>n. n \<noteq> m \<Longrightarrow> the_mutex n s' = the_mutex n s"
    and l: "\<And>n. n \<noteq> m \<Longrightarrow> ks_list s' (mx_head n) = ks_list s (mx_head n)"
    and tk: "\<And>u n. n \<noteq> m \<Longrightarrow> n \<in> set (taken u s') \<longleftrightarrow> n \<in> set (taken u s)"
    and mt: "m \<notin> set (taken t s')"
    and p: "\<And>q. q \<le> p \<longleftrightarrow> q \<le> th_init_priority (ks_thread s t) \<and> (\<forall>n \<in> set (taken t s) - {m}.
        q \<le> mx_priority (the_mutex n s) \<and> q \<le> mx_ceiling_priority (the_mutex n s))"
    and wfm: "mutex_wf s' m" and ww: "\<And>v. waiter_wf s' v"
    and pn: "\<And>u. m \<in> set (taken u s') \<Longrightarrow> pi_ok s' u"
  shows "mutex_inv {} s'"
proof -
  note d = mutex_invD [OF s]
  have rd: "live s' v = live s v" "prio s' v = (if v = t then p else prio s v)"
    "th_init_priority (ks_thread s' v) = th_init_priority (ks_thread s v)" for v
    using r by (simp_all add: released_def)
  have wf: "mutex_wf s' n" for n
  proof (cases "n = m")
    case False
    have w: "prio s' v = prio s v" if "v \<in> set (ks_list s (mx_head n))" for v
      using that nt rd(2) [of v] by (cases "v = t") auto
    have "mutex_wf s n" using s by (simp add: mutex_inv_def)
    then show ?thesis by (rule mutex_wf_cong) (simp_all add: x l tk rd(1) w False)
  qed (use wfm in simp)
  have "pi_ok s' u" for u
  proof (cases "u = t")
    case True
    have "thread_get_mutex_priority t s' = p"
    proof (rule nat_eq_by_le)
      fix q
      have "(\<forall>n \<in> set (taken t s'). q \<le> mx_priority (the_mutex n s') \<and> q \<le> mx_ceiling_priority (the_mutex n s')) \<longleftrightarrow>
        (\<forall>n \<in> set (taken t s) - {m}. q \<le> mx_priority (the_mutex n s) \<and> q \<le> mx_ceiling_priority (the_mutex n s))"
        using tk [of _ t] mt x by (metis Diff_iff singletonD singletonI)
      then show "q \<le> thread_get_mutex_priority t s' \<longleftrightarrow> q \<le> p" unfolding le_get_priority p rd by blast
    qed
    then show ?thesis using True rd by (simp add: pi_ok_def)
  next
    case False
    show ?thesis
    proof (cases "m \<in> set (taken u s')")
      case True
      then show ?thesis by (rule pn)
    next
      case nm: False
      have nm': "m \<notin> set (taken u s)" using d(6) [of m u] own False by auto
      have st: "set (taken u s') = set (taken u s)" by (rule set_eqI) (metis tk nm nm')
      have "thread_get_mutex_priority u s' = thread_get_mutex_priority u s"
      proof (rule get_priority_cong [OF rd(3) st])
        fix n assume "n \<in> set (taken u s)"
        with nm' have "n \<noteq> m" by auto
        then show "mx_priority (the_mutex n s') = mx_priority (the_mutex n s) \<and>
          mx_ceiling_priority (the_mutex n s') = mx_ceiling_priority (the_mutex n s)" by (simp add: x)
      qed
      then show ?thesis using d(12) [of u] rd(1,2) [of u] False by (simp add: pi_ok_def)
    qed
  qed
  then show ?thesis using wf ww d(1) rd(1) by (simp add: mutex_inv_def)
qed

text \<open>Handing over: the new owner is the first waiter, and the rest of the queue waits for it.\<close>

lemma hand_over_wf:
  assumes s: "mutex_inv {} s" and l0: "ks_list s (mx_head m) = nx # ws" and own: "mx_owner (the_mutex m s) = Some t"
    and nt: "\<And>n. t \<notin> set (ks_list s (mx_head n))" and dist: "distinct (nx # ws)"
    and uq: "\<And>n. n \<noteq> m \<Longrightarrow> nx \<notin> set (ks_list s (mx_head n))"
    and r: "released t p s s'" and l: "\<And>n. ks_list s' (mx_head n) = (if n = m then ws else ks_list s (mx_head n))"
    and x: "the_mutex m s' = (the_mutex m s)\<lparr>mx_owner := Some nx, mx_hold := 1, mx_priority :=
      (case ws of [] \<Rightarrow> 0xff | w # _ \<Rightarrow> prio s w)\<rparr>" "\<And>n. n \<noteq> m \<Longrightarrow> the_mutex n s' = the_mutex n s"
    and tk: "\<And>u. taken u s' = (if u = nx then m # removeAll m (taken u s) else removeAll m (taken u s))"
    and pend: "\<And>v. v \<noteq> nx \<Longrightarrow> th_pending_object (ks_thread s' v) = th_pending_object (ks_thread s v) \<and>
      th_suspended (ks_thread s' v) = th_suspended (ks_thread s v)"
      "th_pending_object (ks_thread s' nx) = None"
  shows "mutex_wf s' m" "waiter_wf s' v" "m \<in> set (taken u s') \<Longrightarrow> pi_ok s' u"
proof -
  note d = mutex_invD [OF s]
  have rd: "live s' v = live s v" "prio s' v = (if v = t then p else prio s v)"
    "th_init_priority (ks_thread s' v) = th_init_priority (ks_thread s v)" for v
    using r by (simp_all add: released_def)
  have w: "prio s' v = prio s v" if "v \<in> set (nx # ws)" for v
    using that nt [of m] rd(2) [of v] l0 by (cases "v = t") auto
  have so: "sorted (map (prio s) (nx # ws))" using d(8) [of m] l0 by simp
  have "map (prio s') ws = map (prio s) ws" using w by simp
  then have so': "sorted (map (prio s') ws)" using so by (simp only: list.map sorted_simps)
  have hd: "(case ws of [] \<Rightarrow> 0xff | w # _ \<Rightarrow> prio s' w) = (case ws of [] \<Rightarrow> 0xff | w # _ \<Rightarrow> prio s w)"
    using w by (cases ws) simp_all
  have nl: "live s nx" using d(11) [of nx m] l0 by simp
  have ob: "mx_object (the_mutex m s) \<noteq> Obj_Null" using d(5) [of m] l0 by simp
  have nd: "nx \<notin> set ws" using dist by simp
  show "mutex_wf s' m"
    using d(2,3) [of m] nl ob nd so' hd unfolding mutex_wf_def Let_def l x(1) tk
    by (simp add: rd(1))
  show "waiter_wf s' v"
  proof (cases "v = nx")
    case True
    have "nx \<notin> set (ks_list s' (mx_head n))" for n using nd uq [of n] l [of n] by (cases "n = m") simp_all
    with True show ?thesis using d(10) [OF nl] rd(3) pend(2) by (simp add: waiter_wf_def)
  next
    case False
    have "waiter_wf s v" using s by (simp add: mutex_inv_def)
    then show ?thesis
      by (rule waiter_wf_cong) (use False pend(1) [OF False] l l0 rd in \<open>simp_all\<close>)
  qed
  assume "m \<in> set (taken u s')"
  then have u: "u = nx" using tk [of u] by (auto split: if_splits)
  have ut: "nx \<noteq> t" using nt [of m] l0 by auto
  have nm: "m \<notin> set (taken nx s)" using d(6) [of m nx] own ut by simp
  have "thread_get_mutex_priority nx s' = thread_get_mutex_priority nx s"
  proof (rule nat_eq_by_le)
    fix q
    have hd_le: "q \<le> (case ws of [] \<Rightarrow> 0xff | w # _ \<Rightarrow> prio s w)" if "q \<le> thread_get_mutex_priority nx s"
      using that d(12) [of nx] nl so get_priority_le_init [of nx s] d(10) [OF nl] by (cases ws) simp_all
    have "(\<forall>n \<in> set (taken nx s'). q \<le> mx_priority (the_mutex n s') \<and> q \<le> mx_ceiling_priority (the_mutex n s')) \<longleftrightarrow>
        (q \<le> (case ws of [] \<Rightarrow> 0xff | w # _ \<Rightarrow> prio s w) \<and> q \<le> 255) \<and>
        (\<forall>n \<in> set (taken nx s). q \<le> mx_priority (the_mutex n s) \<and> q \<le> mx_ceiling_priority (the_mutex n s))"
    proof -
      have "set (taken nx s') = insert m (set (taken nx s))" using tk [of nx] nm by auto
      moreover have "the_mutex n s' = the_mutex n s" if "n \<in> set (taken nx s)" for n
        using x(2) [of n] that nm by auto
      ultimately show ?thesis using d(3) [of m] by (simp add: x(1))
    qed
    then show "q \<le> thread_get_mutex_priority nx s' \<longleftrightarrow> q \<le> thread_get_mutex_priority nx s"
      using hd_le d(10) [OF nl] get_priority_le_init [of nx s] rd(3) [of nx]
      unfolding le_get_priority [of q nx s'] le_get_priority [of q nx s] by auto
  qed
  then show "pi_ok s' u" using d(12) [of nx] rd(1,2) [of nx] u ut by (simp add: pi_ok_def)
qed

text \<open>The releasing thread's own priority change.\<close>

lemma release_drop_priority:
  assumes k: "kernel_ok s" and s: "mutex_inv {} s" and own: "mx_owner (the_mutex m s) = Some t"
    and s2: "s2 = taken_remove m (upd_mutex m f s)"
    and ch: "change \<longleftrightarrow> prio s t = mx_priority (the_mutex m s)"
  shows "\<exists>s3. (if change then change_priority t (thread_get_mutex_priority t s2) s2 else Some s2) = Some s3 \<and>
    kernel_ok s3 \<and> ks_ipc s3 = ks_ipc s2 \<and> ks_current s3 = ks_current s \<and> ks_clk s3 = ks_clk s \<and>
    (\<forall>k. wait_head k \<longrightarrow> ks_list s3 k = ks_list s k) \<and> released t (thread_get_mutex_priority t s2) s s3 \<and>
    (\<forall>v. th_pending_object (ks_thread s3 v) = th_pending_object (ks_thread s v) \<and>
       th_suspended (ks_thread s3 v) = th_suspended (ks_thread s v) \<and>
       th_state (ks_thread s3 v) = th_state (ks_thread s v) \<and>
       th_error (ks_thread s3 v) = th_error (ks_thread s v))"
proof -
  have st: "ks_thread s2 = ks_thread s" "\<And>n. n \<noteq> m \<Longrightarrow> the_mutex n s2 = the_mutex n s"
    "taken t s2 = removeAll m (taken t s)" "ks_list s2 = ks_list s" "ks_clk s2 = ks_clk s" "ks_current s2 = ks_current s"
    and k2: "kernel_ok s2" using k by (simp_all add: s2)
  note rp = release_priority [OF s own st(1-3)]
  have lt: "live s2 t" using mutex_invD(7) [OF s own] st(1) by simp
  show ?thesis
  proof (cases change)
    case True
    from change_priority_spec [OF k2 lt rp(3)] True st show ?thesis
      by (auto simp: released_def)
  next
    case False
    with rp(2) ch st k2 show ?thesis by (auto simp: released_def)
  qed
qed

lemma hand_over_run:
  assumes k: "kernel_ok s" and l0: "ks_list s (mx_head m) = nx # ws"
    and nt: "\<And>h. t \<notin> set (ks_list s h)"
    and s3: "kernel_ok s3" "ks_current s3 = ks_current s" "\<forall>k. wait_head k \<longrightarrow> ks_list s3 k = ks_list s k"
      "released t p s s3"
      "\<forall>v. th_pending_object (ks_thread s3 v) = th_pending_object (ks_thread s v) \<and>
       th_suspended (ks_thread s3 v) = th_suspended (ks_thread s v) \<and>
       th_state (ks_thread s3 v) = th_state (ks_thread s v) \<and>
       th_error (ks_thread s3 v) = th_error (ks_thread s v)"
    and x3: "\<And>n. the_mutex n s3 = (if n = m then (the_mutex m s)\<lparr>mx_hold := 0\<rparr> else the_mutex n s)"
      "\<And>u. taken u s3 = removeAll m (taken u s)"
  shows "\<exists>s5. mutex_hand_over m nx s3 = Some s5 \<and> kernel_ok s5 \<and> released t p s s5 \<and>
    (\<forall>n. ks_list s5 (mx_head n) = (if n = m then ws else ks_list s (mx_head n))) \<and>
    the_mutex m s5 = (the_mutex m s)\<lparr>mx_owner := Some nx, mx_hold := 1, mx_priority :=
      (case ws of [] \<Rightarrow> 0xff | w # _ \<Rightarrow> prio s w)\<rparr> \<and>
    (\<forall>n. n \<noteq> m \<longrightarrow> the_mutex n s5 = the_mutex n s) \<and>
    (\<forall>u. taken u s5 = (if u = nx then m # removeAll m (taken u s) else removeAll m (taken u s))) \<and>
    (\<forall>v. v \<noteq> nx \<longrightarrow> th_pending_object (ks_thread s5 v) = th_pending_object (ks_thread s v) \<and>
      th_suspended (ks_thread s5 v) = th_suspended (ks_thread s v)) \<and>
    th_pending_object (ks_thread s5 nx) = None \<and> th_state (ks_thread s5 nx) \<in> {2, 3} \<and>
    th_error (ks_thread s5 nx) = th_error (ks_thread s nx)"
proof -
  have nl: "nx \<in> set (ks_list s (mx_head m))" using l0 by simp
  note w = waiter_facts [OF k nl]
  have ut: "nx \<noteq> t" using nt [of "mx_head m"] nl by auto
  define sd where "sd = upd_thread nx (\<lambda>th. th\<lparr>th_pending_object := None\<rparr>) (taken_insert nx m
      (upd_mutex m (\<lambda>x. x\<lparr>mx_owner := Some nx, mx_hold := 1\<rparr>) (list_remove nx s3)))"
  have l3: "live s3 nx" "th_suspended (ks_thread s3 nx)" "th_state (ks_thread s3 nx) \<noteq> 2"
    using w(1,2) s3(4,5) by (auto simp: released_def th_suspended_state)
  have kd: "kernel_ok sd"
    unfolding sd_def
    by (rule kernel_ok_upd_same) (use kernel_ok_list_remove [OF s3(1) l3(3)] in simp_all)
  have ld: "live sd nx" "th_suspended (ks_thread sd nx)" using l3 by (simp_all add: sd_def th_suspended_def)
  obtain s4 where s4: "rt_thread_resume nx sd = Some (RT_EOK, s4)" "kernel_ok s4" "resumed nx sd s4"
    using resume_spec [OF kd ld] by blast
  let ?s5 = "mutex_update_priority m s4"
  have th4: "ks_thread s4 = (ks_thread s3)(nx := set_state (if ks_current sd = Some nx then 3 else 2)
      ((ks_thread s3 nx)\<lparr>th_pending_object := None\<rparr>))"
    using s4(3) by (simp add: resumed_def sd_def fun_eq_iff)
  have l4: "ks_list s4 (mx_head n) = (if n = m then ws else ks_list s (mx_head n))" for n
    using s4(3) s3(3) w(3) [of "mx_head n"] w(4) [OF _ l0]
    by (auto simp: resumed_def sd_def removeAll_notin l0)
  have x4: "the_mutex n s4 = the_mutex n sd" "taken u s4 = taken u sd" for n u
    using the_mutex_cong [of s4 sd] s4(3) by (simp_all add: resumed_def)
  have hd: "(case ws of [] \<Rightarrow> 0xff | w # _ \<Rightarrow> prio s4 w) = (case ws of [] \<Rightarrow> 0xff | w # _ \<Rightarrow> prio s w)"
    using s3(4) nt [of "mx_head m"] l0 by (cases ws) (auto simp: released_def th4)
  have "mutex_hand_over m nx s3 = Some ?s5"
    using s4(1) by (simp add: mutex_hand_over_def sd_def)
  moreover have "kernel_ok ?s5" using s4(2) by (simp add: mutex_update_priority_def)
  moreover have t5: "ks_thread ?s5 = ks_thread s4" "ks_list ?s5 = ks_list s4" "taken u ?s5 = taken u s4"
    "the_mutex n ?s5 = (if n = m then (the_mutex m s4)\<lparr>mx_priority := (case ws of [] \<Rightarrow> 0xff | w # _ \<Rightarrow> prio s4 w)\<rparr>
      else the_mutex n s4)" for u n
    using l4 by (simp_all add: mutex_update_priority_def)
  moreover have "released t p s ?s5" using s3(4) by (simp add: released_def t5(1) th4)
  ultimately show ?thesis
    using s3(4,5) hd l4
    by (intro exI [of _ ?s5]) (simp add: t5 x4 sd_def x3 th4 th_suspended_def)
qed

lemma mutex_release_spec:
  assumes k: "kernel_ok s" and s: "mutex_inv {} s" and c: "ks_current s = Some t"
    and run: "th_state (ks_thread s t) = RT_THREAD_RUNNING" and irq: "ks_irq_nest s = 0"
    and ob: "mx_object (the_mutex m s) \<noteq> Obj_Null"
  shows "\<exists>e s'. rt_mutex_release m s = Some (e, s') \<and> kernel_ok s' \<and> mutex_inv {} s' \<and>
    (if mx_owner (the_mutex m s) \<noteq> Some t then e = - RT_ERROR \<and> the_mutex m s' = the_mutex m s
     else e = RT_EOK \<and>
       (if mx_hold (the_mutex m s) \<noteq> 1
        then mx_owner (the_mutex m s') = Some t \<and> mx_hold (the_mutex m s') = mx_hold (the_mutex m s) - 1
        else case ks_list s (mx_head m) of
            [] \<Rightarrow> mx_owner (the_mutex m s') = None
          | nx # ws \<Rightarrow> mx_owner (the_mutex m s') = Some nx \<and> mx_hold (the_mutex m s') = 1 \<and>
              ks_list s' (mx_head m) = ws \<and> th_state (ks_thread s' nx) \<in> {2, 3} \<and>
              th_error (ks_thread s' nx) = th_error (ks_thread s nx)))"
proof -
  note d = mutex_invD [OF s]
  have itc: "in_thread_context s = Some ()" using c irq by (simp add: in_thread_context_def rt_thread_self_def)
  have nt: "t \<notin> set (ks_list s h)" for h
    using running_unlinked [OF kernel_okD(1) [OF k] run] by (simp add: unlinked_def)
  consider (other) "mx_owner (the_mutex m s) \<noteq> Some t"
    | (nested) "mx_owner (the_mutex m s) = Some t" "mx_hold (the_mutex m s) \<noteq> 1"
    | (last) "mx_owner (the_mutex m s) = Some t" "mx_hold (the_mutex m s) = 1" by blast
  then show ?thesis
  proof cases
    case other
    have "kernel_ok (upd_thread t (\<lambda>th. th\<lparr>th_error := - RT_ERROR\<rparr>) s)"
      by (rule kernel_ok_upd_same [OF k]) simp
    with other ob itc c upd_error_mutex_inv [OF s] show ?thesis
      by (simp add: rt_mutex_release_def rt_thread_self_def)
  next
    case nested
    have "mx_hold (the_mutex m s) - 1 \<noteq> 0" using nested(2) by simp
    from take_nested [OF s nested(1) this]
    have "mutex_inv {} (upd_mutex m (\<lambda>x. x\<lparr>mx_hold := mx_hold (the_mutex m s) - 1\<rparr>) s)" .
    moreover have "upd_mutex m (\<lambda>x. x\<lparr>mx_hold := mx_hold x - 1\<rparr>) s =
        upd_mutex m (\<lambda>x. x\<lparr>mx_hold := mx_hold (the_mutex m s) - 1\<rparr>) s"
      by (simp add: upd_mutex_def upd_ipc_def the_mutex_def)
    ultimately show ?thesis using nested ob itc c k
      by (simp add: rt_mutex_release_def rt_thread_self_def)
  next
    case last
    let ?s1 = "upd_mutex m (\<lambda>x. x\<lparr>mx_hold := mx_hold x - 1\<rparr>) s"
    define s2 where "s2 = taken_remove m ?s1"
    define change where "change \<longleftrightarrow> prio s t = mx_priority (the_mutex m s)"
    define p where "p = thread_get_mutex_priority t s2"
    from release_drop_priority [OF k s last(1) s2_def change_def] obtain s3 where
      s3: "(if change then change_priority t p s2 else Some s2) = Some s3"
      "kernel_ok s3" "ks_ipc s3 = ks_ipc s2" "ks_current s3 = ks_current s" "ks_clk s3 = ks_clk s"
      "\<forall>k. wait_head k \<longrightarrow> ks_list s3 k = ks_list s k" "released t p s s3"
      "\<forall>v. th_pending_object (ks_thread s3 v) = th_pending_object (ks_thread s v) \<and>
       th_suspended (ks_thread s3 v) = th_suspended (ks_thread s v) \<and>
       th_state (ks_thread s3 v) = th_state (ks_thread s v) \<and>
       th_error (ks_thread s3 v) = th_error (ks_thread s v)"
      unfolding p_def by blast
    have pq: "q \<le> p \<longleftrightarrow> q \<le> th_init_priority (ks_thread s t) \<and> (\<forall>n \<in> set (taken t s) - {m}.
        q \<le> mx_priority (the_mutex n s) \<and> q \<le> mx_ceiling_priority (the_mutex n s))" for q
      unfolding p_def by (rule release_priority(1) [OF s last(1)]) (simp_all add: s2_def)
    have x3: "the_mutex n s3 = (if n = m then (the_mutex m s)\<lparr>mx_hold := 0\<rparr> else the_mutex n s)"
      "taken u s3 = removeAll m (taken u s)" for n u
      using the_mutex_cong [OF s3(3)] last(2) by (simp_all add: s2_def)
    have cond: "mx_ceiling_priority (the_mutex m s2) = 0xff" "(prio s2 t = mx_priority (the_mutex m s2)) = change"
      using d(3) [of m] by (simp_all add: s2_def change_def)
    have front: "rt_mutex_release m s = do {
         (need_schedule, s) \<leftarrow> (case ks_list s (mx_head m) of
             nx # _ \<Rightarrow> do { s \<leftarrow> mutex_hand_over m nx s3; Some (True, s) }
           | [] \<Rightarrow> Some (change, upd_mutex m (\<lambda>x. x\<lparr>mx_owner := None, mx_priority := 0xff\<rparr>) s3));
         s \<leftarrow> (if need_schedule then rt_schedule s else Some s);
         Some (RT_EOK, s) }"
    proof -
      have l3: "ks_list s3 (mx_head m) = ks_list s (mx_head m)" using s3(6) by simp
      have h: "mx_hold (the_mutex m ?s1) = 0" using last(2) by simp
      show ?thesis
        unfolding rt_mutex_release_def
        using last(1) ob itc c h s3(1) l3 cond
        by (cases change; cases "ks_list s (mx_head m)")
          (simp_all add: rt_thread_self_def Let_def s2_def [symmetric] cond p_def [symmetric])
    qed
    show ?thesis
    proof (cases "ks_list s (mx_head m)")
      case Nil
      let ?s4 = "upd_mutex m (\<lambda>x. x\<lparr>mx_owner := None, mx_priority := 0xff\<rparr>) s3"
      have x4: "the_mutex m ?s4 = (the_mutex m s)\<lparr>mx_hold := 0, mx_owner := None, mx_priority := 0xff\<rparr>"
        by (simp add: x3)
      have l4: "ks_list ?s4 (mx_head n) = ks_list s (mx_head n)" for n using s3(6) by simp
      have "mutex_inv {} ?s4"
      proof (rule release_inv [OF s last(1) nt, where p = p])
        show "released t p s ?s4" using s3(7) by (simp add: released_def)
        show "mutex_wf ?s4 m"
          using d(2,3) [of m] Nil unfolding mutex_wf_def Let_def x4 l4 by (simp add: x3)
        show "waiter_wf ?s4 v" for v
        proof -
          have "waiter_wf s v" using s by (simp add: mutex_inv_def)
          then show ?thesis
            by (rule waiter_wf_cong) (use s3(7,8) l4 in \<open>simp_all add: released_def\<close>)
        qed
      qed (use pq s3(6) in \<open>simp_all add: x3\<close>)
      moreover have k4: "kernel_ok ?s4" using s3(2) by simp
      moreover obtain s5 where s5: "(if change then rt_schedule ?s4 else Some ?s4) = Some s5" "kernel_ok s5" "sched_frame ?s4 s5"
        using schedule_kernel_ok [OF k4] k4 by (cases change) (auto simp: ok_iff)
      ultimately have "mutex_inv {} s5" using sched_frame_mutex_inv by blast
      moreover have "mx_owner (the_mutex m s5) = None" using the_mutex_cong(1) [OF sched_frameD(2) [OF s5(3)], of m] by simp
      moreover have "rt_mutex_release m s = Some (RT_EOK, s5)" unfolding front using Nil s5(1) by simp
      ultimately show ?thesis using Nil last s5(2) by simp
    next
      case (Cons nx ws)
      have nl: "nx \<in> set (ks_list s (mx_head m))" using Cons by simp
      note w = waiter_facts [OF k nl]
      have ut: "nx \<noteq> t" using nt [of "mx_head m"] nl by auto
      obtain s5 where s5: "mutex_hand_over m nx s3 = Some s5" "kernel_ok s5" "released t p s s5"
        "\<And>n. ks_list s5 (mx_head n) = (if n = m then ws else ks_list s (mx_head n))"
        "the_mutex m s5 = (the_mutex m s)\<lparr>mx_owner := Some nx, mx_hold := 1, mx_priority :=
          (case ws of [] \<Rightarrow> 0xff | w # _ \<Rightarrow> prio s w)\<rparr>"
        "\<And>n. n \<noteq> m \<Longrightarrow> the_mutex n s5 = the_mutex n s"
        "\<And>u. taken u s5 = (if u = nx then m # removeAll m (taken u s) else removeAll m (taken u s))"
        "\<And>v. v \<noteq> nx \<Longrightarrow> th_pending_object (ks_thread s5 v) = th_pending_object (ks_thread s v) \<and>
          th_suspended (ks_thread s5 v) = th_suspended (ks_thread s v)"
        "th_pending_object (ks_thread s5 nx) = None" "th_state (ks_thread s5 nx) \<in> {2, 3}"
        "th_error (ks_thread s5 nx) = th_error (ks_thread s nx)"
        using hand_over_run [OF k Cons nt s3(2,4,6,7,8) x3] by blast
      have dist: "distinct (nx # ws)" using sched_invD(1) [OF kernel_okD(1) [OF k], of "mx_head m"] Cons by simp
      have uq: "nx \<notin> set (ks_list s (mx_head n))" if "n \<noteq> m" for n using w(3) that by simp
      note hw = hand_over_wf [OF s Cons last(1) nt dist uq s5(3,4,5,6,7,8,9)]
      have "m \<notin> set (taken t s5)" using s5(7) ut by simp
      then have i5: "mutex_inv {} s5"
        by (intro release_inv [OF s last(1) nt s5(3,6) _ _ _ pq hw]) (use s5(4,7) in auto)
      obtain s6 where s6: "rt_schedule s5 = Some s6" "kernel_ok s6" "sched_frame s5 s6"
        using schedule_kernel_ok [OF s5(2)] by (auto simp: ok_iff)
      note fr = sched_frameD [OF s6(3)]
      have "rt_mutex_release m s = Some (RT_EOK, s6)" unfolding front using Cons s5(1) s6(1) by simp
      moreover have "mutex_inv {} s6" by (rule sched_frame_mutex_inv [OF s6(3) i5])
      moreover have "th_state (ks_thread s6 nx) \<in> {2, 3}" by (rule sched_frame_runnable [OF s6(3) s5(10)])
      moreover have "the_mutex m s6 = the_mutex m s5" by (rule the_mutex_cong(1) [OF fr(2)])
      ultimately show ?thesis using Cons last s6(2) s5(4,5,11) fr(5,10) by simp
    qed
  qed
qed

end
