(* ===== verification/Mutex_Properties.thy ===== *)
theory Mutex_Properties
  imports Mutex
begin

text \<open>
  What the mutexes of \<open>src/ipc.c\<close> guarantee, and where they do not: priority inheritance over runs of
  takes, releases and yields, and the defects of the timeout path and of the hand-over to a
  thread below the ceiling.
\<close>

section \<open>Runs\<close>

text \<open>One call by the running thread; between calls \<open>rt_schedule\<close> has chosen who that is.\<close>

inductive mutex_step :: "kstate \<Rightarrow> kstate \<Rightarrow> bool" where
  Take: "may_block t s \<Longrightarrow> mx_object (the_mutex m s) \<noteq> Obj_Null \<Longrightarrow> sflag \<noteq> Bad_Suspend_Flag \<Longrightarrow>
     timeout_ok timeout \<Longrightarrow> mutex_take m timeout sflag s = Some (r, s') \<Longrightarrow> mutex_step s s'"
| Release: "ks_current s = Some t \<Longrightarrow> th_state (ks_thread s t) = RT_THREAD_RUNNING \<Longrightarrow> ks_irq_nest s = 0 \<Longrightarrow>
     mx_object (the_mutex m s) \<noteq> Obj_Null \<Longrightarrow> rt_mutex_release m s = Some (e, s') \<Longrightarrow> mutex_step s s'"
| Yield: "rt_thread_yield s = Some (e, s') \<Longrightarrow> mutex_step s s'"

inductive_cases mutex_stepE: "mutex_step s s'"

lemma yield_mutex_inv:
  assumes k: "kernel_ok s" and s: "mutex_inv {} s" and r: "rt_thread_yield s = Some (e, s')"
  shows "kernel_ok s' \<and> mutex_inv {} s'"
proof -
  obtain t where t: "ks_current s = Some t" using kernel_okD(4) [OF k] by auto
  let ?s1 = "upd_thread t set_yield (upd_thread t (\<lambda>th. th\<lparr>th_remaining_tick := th_init_tick th\<rparr>) s)"
  have "kernel_ok (upd_thread t (\<lambda>th. th\<lparr>th_remaining_tick := th_init_tick th\<rparr>) s)"
    by (rule kernel_ok_upd_same [OF k]) simp
  then have k1: "kernel_ok ?s1" by (rule kernel_ok_upd_same) simp
  have "mutex_inv {} ?s1"
    by (rule mutex_inv_cong [OF s]) (simp_all add: th_suspended_state)
  moreover obtain s2 where "rt_schedule ?s1 = Some s2" "kernel_ok s2" "sched_frame ?s1 s2"
    using schedule_kernel_ok [OF k1] by (auto simp: ok_iff)
  moreover have "rt_schedule ?s1 = Some s'"
    using r t by (auto simp: rt_thread_yield_def rt_thread_self_def split: Option.bind_splits)
  ultimately show ?thesis using sched_frame_mutex_inv by fastforce
qed

lemma mutex_step_inv:
  assumes "mutex_step s s'" "kernel_ok s" "mutex_inv {} s"
  shows "kernel_ok s' \<and> mutex_inv {} s'"
  using assms(1)
proof cases
  case (Take t m sflag timeout r)
  from mutex_take_spec [OF assms(2,3) Take(1,3,4,2)] Take(5) show ?thesis by auto
next
  case (Release t m e)
  from mutex_release_spec [OF assms(2,3) Release(1-4)] Release(5) show ?thesis by auto
next
  case (Yield e)
  then show ?thesis by (rule yield_mutex_inv [OF assms(2,3)])
qed

lemma mutex_run_inv:
  assumes "mutex_step\<^sup>*\<^sup>* s s'" "kernel_ok s" "mutex_inv {} s"
  shows "kernel_ok s' \<and> mutex_inv {} s'"
  using assms by (induction rule: rtranclp_induct) (auto dest: mutex_step_inv)

text \<open>\<open>w\<close> waits for a mutex that \<open>own\<close> holds.\<close>

definition waits_for :: "kstate \<Rightarrow> tid \<Rightarrow> tid \<Rightarrow> bool" where
  "waits_for s w own \<longleftrightarrow> (\<exists>m. w \<in> set (ks_list s (mx_head m)) \<and> mx_owner (the_mutex m s) = Some own)"

lemma waits_for_prio:
  assumes "mutex_inv {} s" "waits_for s w own"
  shows "prio s own \<le> prio s w"
proof -
  obtain m where m: "w \<in> set (ks_list s (mx_head m))" "mx_owner (the_mutex m s) = Some own"
    using assms(2) by (auto simp: waits_for_def)
  have lo: "live s own" using mutex_invD(7) [OF assms(1) m(2)] by simp
  have "m \<in> set (taken own s)" using mutex_invD(6) [OF assms(1)] m(2) by simp
  with le_effective [OF assms(1) lo, of "prio s own"] m(1) mutex_invD(12) [OF assms(1) _ lo]
  show ?thesis by auto
qed

lemma waits_chain_prio: "mutex_inv {} s \<Longrightarrow> (waits_for s)\<^sup>+\<^sup>+ w own \<Longrightarrow> prio s own \<le> prio s w"
  by (rotate_tac, induction rule: tranclp_induct) (auto dest: waits_for_prio intro: order_trans)

lemma effective_priority:
  assumes s: "mutex_inv {} s" and t: "live s t"
  shows "prio s t = Min (insert (th_init_priority (ks_thread s t))
    (\<Union>m \<in> set (taken t s). prio s ` set (ks_list s (mx_head m))))" (is "_ = Min (insert ?i ?W)")
proof (rule nat_eq_by_le)
  fix q
  have "finite (insert ?i ?W)" by simp
  then have "q \<le> Min (insert ?i ?W) \<longleftrightarrow> (\<forall>x \<in> insert ?i ?W. q \<le> x)" by (subst Min_ge_iff) auto
  then show "q \<le> prio s t \<longleftrightarrow> q \<le> Min (insert ?i ?W)"
    using le_effective [OF s t, of q] mutex_invD(12) [OF s _ t] by auto
qed

section \<open>The timeout of a take\<close>

lemma timeout_leaves_owner_running:
  assumes k: "kernel_ok s" and s: "mutex_inv {} s" and h: "runs_highest s" and own: "ks_current s = Some own"
    and y: "\<not> th_yield (ks_thread s own)" and m: "mx_owner (the_mutex m s) = Some own"
    and w: "w \<in> set (ks_list s (mx_head m))"
    and tm: "\<not> tm_activated (ck_timer (ks_clk s) (Thread_Timer w))"
  shows "\<exists>s1. thread_timeout w s = Some s1 \<and> kernel_ok s1 \<and> ks_current s1 = Some own \<and> ks_ipc s1 = ks_ipc s \<and>
    ks_irq_nest s1 = ks_irq_nest s \<and> th_state (ks_thread s1 own) = RT_THREAD_RUNNING \<and>
    th_error (ks_thread s1 w) = - RT_ETIMEOUT \<and> th_state (ks_thread s1 w) \<in> {2, 3} \<and>
    ks_list s1 (mx_head m) = removeAll w (ks_list s (mx_head m)) \<and>
    (\<forall>u. live s1 u = live s u \<and> prio s1 u = prio s u \<and>
       th_init_priority (ks_thread s1 u) = th_init_priority (ks_thread s u) \<and>
       th_pending_object (ks_thread s1 u) = th_pending_object (ks_thread s u))"
proof -
  note wf = waiter_facts [OF k w]
  have wl: "live s w" "th_suspended (ks_thread s w)" using wf(1,2) by simp_all
  have ow: "own \<noteq> w" using mutex_invD(7) [OF s m] w by auto
  have run: "th_state (ks_thread s own) = RT_THREAD_RUNNING"
    and hi: "\<And>u. live s u \<Longrightarrow> th_state (ks_thread s u) = RT_THREAD_READY \<Longrightarrow> prio s own \<le> prio s u"
    using h own by (auto simp: runs_highest_def)
  let ?s2 = "rt_schedule_insert_thread w (list_remove w (upd_thread w (\<lambda>th. th\<lparr>th_error := - RT_ETIMEOUT\<rparr>) s))"
  have k2: "kernel_ok ?s2" by (rule timeout_insert_ok [OF k wl tm])
  have pw: "prio s own \<le> prio s w" using waits_for_prio [OF s] w m by (auto simp: waits_for_def)
  have le: "prio ?s2 own \<le> q" if "u \<in> set (ks_list ?s2 (Ready q))" for q u
  proof -
    note r = ready_list_fits [OF kernel_okD(1) [OF k2] that]
    show ?thesis
    proof (cases "u = w")
      case True
      with r pw ow show ?thesis by simp
    next
      case False
      with r hi [of u] ow show ?thesis by simp
    qed
  qed
  have c2: "ks_current ?s2 = Some own" "th_state (ks_thread ?s2 own) = RT_THREAD_RUNNING"
    "\<not> th_yield (ks_thread ?s2 own)" using own run ow y by simp_all
  obtain s1 where s1: "rt_schedule ?s2 = Some s1" "ks_current s1 = Some own" "sched_frame ?s2 s1"
    "th_state (ks_thread s1 own) = RT_THREAD_RUNNING"
    using schedule_keeps [OF kernel_okD(1) [OF k2] c2] le by blast
  have k1: "kernel_ok s1" using schedule_kernel_ok [OF k2] s1(1) by (simp add: ok_iff)
  note fr = sched_frameD [OF s1(3)]
  have "thread_timeout w s = Some s1" using s1(1) wl by (simp add: thread_timeout_def)
  moreover have "th_state (ks_thread s1 w) \<in> {2, 3}" by (rule sched_frame_runnable [OF s1(3)]) simp
  moreover have "ks_list s1 (mx_head m) = removeAll w (ks_list s (mx_head m))"
    using fr(5) by (simp add: rt_schedule_insert_thread_list Let_def)
  moreover have "live s1 u = live s u \<and> prio s1 u = prio s u \<and>
       th_init_priority (ks_thread s1 u) = th_init_priority (ks_thread s u) \<and>
       th_pending_object (ks_thread s1 u) = th_pending_object (ks_thread s u)" for u
    using fr(9,11,12,14) [of u] by simp
  ultimately show ?thesis using s1(2,4) k1 fr(2,4) fr(10) [of w] by simp
qed

lemma take_timeout_loses_owner:
  assumes k: "kernel_ok s" and s: "mutex_inv {} s" and h: "runs_highest s" and own: "ks_current s = Some own"
    and y: "\<not> th_yield (ks_thread s own)" and irq: "ks_irq_nest s = 0" and m: "mx_owner (the_mutex m s) = Some own"
    and hold: "mx_hold (the_mutex m s) = 1" and w: "ks_list s (mx_head m) = [w]"
    and tm: "\<not> tm_activated (ck_timer (ks_clk s) (Thread_Timer w))"
  shows "\<exists>s1 s2. thread_timeout w s = Some s1 \<and> ks_current s1 = Some own \<and>
    rt_mutex_release m s1 = Some (RT_EOK, s2) \<and> th_state (ks_thread s2 w) \<in> {2, 3} \<and>
    th_error (ks_thread s2 w) = - RT_ETIMEOUT \<and> th_pending_object (ks_thread s2 w) = Some (Mutex m) \<and>
    mutex_take_resume m w s2 = None"
proof -
  note d = mutex_invD [OF s]
  obtain s1 where s1: "thread_timeout w s = Some s1" "kernel_ok s1" "ks_current s1 = Some own"
    "ks_ipc s1 = ks_ipc s" "ks_irq_nest s1 = ks_irq_nest s" "th_state (ks_thread s1 own) = RT_THREAD_RUNNING"
    "th_error (ks_thread s1 w) = - RT_ETIMEOUT" "th_state (ks_thread s1 w) \<in> {2, 3}"
    "ks_list s1 (mx_head m) = removeAll w (ks_list s (mx_head m))"
    "\<forall>u. live s1 u = live s u \<and> prio s1 u = prio s u \<and>
       th_init_priority (ks_thread s1 u) = th_init_priority (ks_thread s u) \<and>
       th_pending_object (ks_thread s1 u) = th_pending_object (ks_thread s u)"
    using timeout_leaves_owner_running [OF k s h own y m _ tm] w by auto
  have x1: "the_mutex n s1 = the_mutex n s" for n by (rule the_mutex_cong(1) [OF s1(4)])
  have ow: "own \<noteq> w" using d(7) [OF m] w by auto
  define sa where "sa = taken_remove m (upd_mutex m (\<lambda>x. x\<lparr>mx_hold := mx_hold x - 1\<rparr>) s1)"
  define p where "p = thread_get_mutex_priority own sa"
  have lo: "live s1 own" using d(7) [OF m] s1(10) by simp
  have p32: "p < 32"
    using get_priority_le_init [of own sa] d(10) [of own] d(7) [OF m] s1(10) by (simp add: p_def sa_def)
  define change where "change \<longleftrightarrow> prio s1 own = mx_priority (the_mutex m s1)"
  obtain s3 where s3: "(if change then change_priority own p sa else Some sa) = Some s3" "kernel_ok s3"
    "ks_ipc s3 = ks_ipc sa" "ks_list s3 (mx_head m) = ks_list s1 (mx_head m)"
    "th_error (ks_thread s3 w) = th_error (ks_thread s1 w)" "th_state (ks_thread s3 w) = th_state (ks_thread s1 w)"
    "th_pending_object (ks_thread s3 w) = th_pending_object (ks_thread s1 w)"
    using change_priority_spec [of sa own p] s1(2) lo p32 ow by (cases change) (auto simp: sa_def)
  let ?s4 = "upd_mutex m (\<lambda>x. x\<lparr>mx_owner := None, mx_priority := 0xff\<rparr>) s3"
  have k4: "kernel_ok ?s4" using s3(2) by simp
  obtain s5 where s5: "(if change then rt_schedule ?s4 else Some ?s4) = Some s5" "sched_frame ?s4 s5"
    using schedule_kernel_ok [OF k4] by (cases change) (auto simp: ok_iff)
  have cond: "mx_ceiling_priority (the_mutex m sa) = 0xff" "(prio sa own = mx_priority (the_mutex m sa)) = change"
    "mx_hold (the_mutex m (upd_mutex m (\<lambda>x. x\<lparr>mx_hold := mx_hold x - 1\<rparr>) s1)) = 0"
    using d(3) [of m] hold by (simp_all add: change_def x1 sa_def)
  have "rt_mutex_release m s1 = Some (RT_EOK, s5)"
  proof -
    have "mx_object (the_mutex m s1) \<noteq> Obj_Null" using d(5) [of m] w by (simp add: x1)
    moreover have "in_thread_context s1 = Some ()"
      using s1(3,5) irq by (simp add: in_thread_context_def rt_thread_self_def)
    moreover have "ks_list s3 (mx_head m) = []" using s3(4) s1(9) w by simp
    moreover have "mx_owner (the_mutex m s1) = Some own" using m by (simp add: x1)
    ultimately show ?thesis
      unfolding rt_mutex_release_def using s1(3) cond s3(1) s5(1)
      by (cases change) (simp_all add: rt_thread_self_def Let_def sa_def [symmetric] p_def [symmetric])
  qed
  moreover have "th_state (ks_thread s5 w) \<in> {2, 3}"
    by (rule sched_frame_runnable [OF s5(2)]) (use s3(6) s1(8) in simp)
  moreover have e: "th_error (ks_thread s5 w) = - RT_ETIMEOUT"
    using sched_frameD(10) [OF s5(2), of w] s3(5) s1(7) by simp
  moreover have "th_pending_object (ks_thread s5 w) = Some (Mutex m)"
    using sched_frameD(14) [OF s5(2), of w] s3(7) s1(10) d(11) [of w m] w by simp
  moreover have "mx_owner (the_mutex m s5) = None"
    using the_mutex_cong(1) [OF sched_frameD(2) [OF s5(2)], of m] by simp
  then have "mutex_take_resume m w s5 = None"
    using e by (simp add: mutex_take_resume_def mutex_lost_waiter_def)
  ultimately show ?thesis using s1(1,3) by blast
qed

section \<open>A stale pending object\<close>

lemma stale_pending_moves:
  assumes k: "kernel_ok s" and t: "live s t" "th_suspended (ks_thread s t)"
    and st: "th_pending_object (ks_thread s t) = Some (Mutex m)" "t \<in> set (ks_list s h)" "wait_head h" "h \<noteq> mx_head m"
    and m: "mx_object (the_mutex m s) \<noteq> Obj_Null" "mx_flag (the_mutex m s) = PRIO" and p: "p < 32"
  shows "mx_owner (the_mutex m s) = None \<Longrightarrow> thread_update_priority t p sflag s = None"
    and "mx_owner (the_mutex m s) = Some own \<Longrightarrow> own \<noteq> t \<Longrightarrow> th_init_priority (ks_thread s own) = prio s own \<Longrightarrow>
      taken own s = [m] \<Longrightarrow> mx_ceiling_priority (the_mutex m s) = 0xff \<Longrightarrow> prio s own \<le> p \<Longrightarrow>
      \<forall>w \<in> set (ks_list s (mx_head m)). prio s own \<le> prio s w \<Longrightarrow>
      \<exists>s'. thread_update_priority t p sflag s = Some s' \<and> t \<in> set (ks_list s' (mx_head m)) \<and>
        t \<notin> set (ks_list s' h) \<and> th_suspended (ks_thread s' t)"
proof -
  obtain s1 where s1: "change_priority t p s = Some s1" "kernel_ok s1"
    "ks_thread s1 = (ks_thread s)(t := set_prio p (ks_thread s t))" "ks_ipc s1 = ks_ipc s"
    "\<forall>k. wait_head k \<longrightarrow> ks_list s1 k = ks_list s k"
    using change_priority_spec [OF k t(1) p] by blast
  have x1: "the_mutex n s1 = the_mutex n s" "taken v s1 = taken v s" for n v
    using the_mutex_cong [OF s1(4)] by simp_all
  have l: "live s1 t" "th_suspended (ks_thread s1 t)" "mx_flag (the_mutex m s1) = PRIO"
    using s1(3) t m(2) by (simp_all add: x1)
  have l': "th_pending_object (ks_thread s1 t) = Some (Mutex m)" "mx_object (the_mutex m s1) \<noteq> Obj_Null"
    using s1(3) st m by (simp_all add: x1)
  let ?s2 = "requeue m t s1"
  have step: "thread_update_priority t p sflag s =
      (case mx_owner (the_mutex m s) of
         None \<Rightarrow> None
       | Some own \<Rightarrow> if thread_get_mutex_priority own ?s2 \<noteq> prio ?s2 own
          then thread_update_priority own (thread_get_mutex_priority own ?s2) sflag ?s2 else Some ?s2)"
    using update_priority_waiter [OF s1(1,2) l(1,2) l' l(3), of sflag]
    by (simp add: x1 Let_def del: requeue_simps(9) cong: option.case_cong)
  then show "mx_owner (the_mutex m s) = None \<Longrightarrow> thread_update_priority t p sflag s = None" by simp
  assume own: "mx_owner (the_mutex m s) = Some own" "own \<noteq> t" "th_init_priority (ks_thread s own) = prio s own"
    "taken own s = [m]" "mx_ceiling_priority (the_mutex m s) = 0xff" "prio s own \<le> p"
    "\<forall>w \<in> set (ks_list s (mx_head m)). prio s own \<le> prio s w"
  have tw: "t \<notin> set (ks_list s (mx_head m))"
    using sched_invD(2) [OF kernel_okD(1) [OF k] st(2)] st(4) by blast
  let ?ws = "ks_list s (mx_head m)"
  have ws2: "ks_list ?s2 (mx_head m) = prio_insert (prio s1) t ?ws" using s1(5) tw by (simp add: removeAll_notin)
  have pr: "prio s1 v = (if v = t then p else prio s v)" for v using s1(3) by simp
  have "prio s own \<le> (case prio_insert (prio s1) t ?ws of [] \<Rightarrow> 0xff | w # _ \<Rightarrow> prio s1 w)"
  proof (cases "prio_insert (prio s1) t ?ws")
    case Nil
    have "t \<in> set (prio_insert (prio s1) t ?ws)" by simp
    with Nil show ?thesis by simp
  next
    case (Cons w r)
    then have "w \<in> set (prio_insert (prio s1) t ?ws)" by simp
    then show ?thesis using Cons own(6,7) by (auto simp: pr)
  qed
  moreover have "prio s own \<le> 0xff"
    using p own(6) by simp
  ultimately have "thread_get_mutex_priority own ?s2 = prio s own"
    using own ws2 s1(3)
    by (intro nat_eq_by_le) (auto simp: le_get_priority x1 simp del: requeue_simps(9))
  moreover have "prio ?s2 own = prio s own" using own(2) by (simp add: pr)
  ultimately have "thread_update_priority t p sflag s = Some ?s2" using step own(1) by simp
  moreover have "t \<in> set (ks_list ?s2 (mx_head m))" unfolding ws2 by simp
  moreover have "t \<notin> set (ks_list ?s2 h)" using st(4) by simp
  ultimately show "\<exists>s'. thread_update_priority t p sflag s = Some s' \<and> t \<in> set (ks_list s' (mx_head m)) \<and>
        t \<notin> set (ks_list s' h) \<and> th_suspended (ks_thread s' t)"
    using l(2) by (intro exI [of _ ?s2]) simp
qed

section \<open>The ceiling at a hand-over\<close>

lemma hand_over_no_ceiling:
  assumes k: "kernel_ok s" and c: "ks_current s = Some t" and run: "th_state (ks_thread s t) = RT_THREAD_RUNNING"
    and irq: "ks_irq_nest s = 0" and ob: "mx_object (the_mutex m s) \<noteq> Obj_Null"
    and m: "mx_owner (the_mutex m s) = Some t" "mx_hold (the_mutex m s) = 1" "ks_list s (mx_head m) = nx # ws"
    and ip: "th_init_priority (ks_thread s t) < 32"
    and ceil: "mx_ceiling_priority (the_mutex m s) < prio s nx"
  shows "\<exists>s'. rt_mutex_release m s = Some (RT_EOK, s') \<and> mx_owner (the_mutex m s') = Some nx \<and>
    prio s' nx = prio s nx \<and> thread_get_mutex_priority nx s' \<le> mx_ceiling_priority (the_mutex m s')"
proof -
  have nl: "nx \<in> set (ks_list s (mx_head m))" using m(3) by simp
  note w = waiter_facts [OF k nl]
  have nt: "t \<notin> set (ks_list s h)" for h
    using running_unlinked [OF kernel_okD(1) [OF k] run] by (simp add: unlinked_def)
  have ut: "nx \<noteq> t" using nt [of "mx_head m"] nl by auto
  have lt: "live s t" using sched_invD(8) [OF kernel_okD(1) [OF k] c] by simp
  have "started (ks_thread s nx)" using suspended_started w(1,2) by simp
  then have "prio s nx < 32"
    using sched_invD(9) [OF kernel_okD(1) [OF k]] by (simp add: mask_ok_def RT_THREAD_PRIORITY_MAX_def)
  then have c255: "mx_ceiling_priority (the_mutex m s) \<noteq> 0xff" using ceil by simp
  define sa where "sa = taken_remove m (upd_mutex m (\<lambda>x. x\<lparr>mx_hold := mx_hold x - 1\<rparr>) s)"
  define p where "p = thread_get_mutex_priority t sa"
  have p32: "p < 32" using get_priority_le_init [of t sa] ip by (simp add: p_def sa_def)
  obtain s3 where s3: "change_priority t p sa = Some s3" "kernel_ok s3"
    "ks_thread s3 = (ks_thread s)(t := set_prio p (ks_thread s t))" "ks_ipc s3 = ks_ipc sa"
    "ks_current s3 = ks_current s" "\<forall>k. wait_head k \<longrightarrow> ks_list s3 k = ks_list s k"
    using change_priority_spec [of sa t p] k lt p32 by (auto simp: sa_def)
  have x3: "the_mutex n s3 = (if n = m then (the_mutex m s)\<lparr>mx_hold := 0\<rparr> else the_mutex n s)"
    "taken u s3 = removeAll m (taken u s)" for n u
    using the_mutex_cong [OF s3(4)] m(2) by (simp_all add: sa_def)
  obtain s5 where s5: "mutex_hand_over m nx s3 = Some s5" "kernel_ok s5" "released t p s s5"
    "the_mutex m s5 = (the_mutex m s)\<lparr>mx_owner := Some nx, mx_hold := 1, mx_priority :=
          (case ws of [] \<Rightarrow> 0xff | w # _ \<Rightarrow> prio s w)\<rparr>"
    "\<forall>u. taken u s5 = (if u = nx then m # removeAll m (taken u s) else removeAll m (taken u s))"
  proof -
    have r3: "released t p s s3" using s3(3) by (simp add: released_def)
    have o3: "\<forall>v. th_pending_object (ks_thread s3 v) = th_pending_object (ks_thread s v) \<and>
       th_suspended (ks_thread s3 v) = th_suspended (ks_thread s v) \<and>
       th_state (ks_thread s3 v) = th_state (ks_thread s v) \<and>
       th_error (ks_thread s3 v) = th_error (ks_thread s v)" using s3(3) by simp
    from hand_over_run [OF k m(3) nt s3(2,5,6) r3 o3 x3] that show ?thesis by blast
  qed
  obtain s6 where s6: "rt_schedule s5 = Some s6" "sched_frame s5 s6"
    using schedule_kernel_ok [OF s5(2)] by (auto simp: ok_iff)
  note fr = sched_frameD [OF s6(2)]
  have "rt_mutex_release m s = Some (RT_EOK, s6)"
  proof -
    have "in_thread_context s = Some ()" using c irq by (simp add: in_thread_context_def rt_thread_self_def)
    moreover have "mx_hold (the_mutex m (upd_mutex m (\<lambda>x. x\<lparr>mx_hold := mx_hold x - 1\<rparr>) s)) = 0"
      "mx_ceiling_priority (the_mutex m sa) \<noteq> 0xff" using m(2) c255 by (simp_all add: sa_def)
    moreover have "ks_list s3 (mx_head m) = nx # ws" using s3(6) m(3) by simp
    ultimately show ?thesis
      unfolding rt_mutex_release_def using c m(1) ob s3(1) s5(1) s6(1)
      by (simp add: rt_thread_self_def Let_def sa_def [symmetric] p_def [symmetric])
  qed
  moreover have x6: "the_mutex m s6 = the_mutex m s5" "taken nx s6 = taken nx s5"
    using the_mutex_cong [OF fr(2)] by simp_all
  moreover have "prio s6 nx = prio s nx" using fr(11) [of nx] s5(3) ut by (simp add: released_def)
  moreover have "thread_get_mutex_priority nx s6 \<le> mx_ceiling_priority (the_mutex m s6)"
    using le_get_priority [of "thread_get_mutex_priority nx s6" nx s6] x6 s5(5) by auto
  ultimately show ?thesis using s5(4) by simp
qed

section \<open>Sample systems\<close>

text \<open>
  The sample system with thread 2 suspended on \<open>h\<close>, its pending object mutex 0, which thread 1 holds.
\<close>

definition sample_waiting :: "lhead \<Rightarrow> nat \<Rightarrow> kstate" where
  "sample_waiting h ceiling = upd_ipc (\<lambda>x. x\<lparr>
       ipc_mutex := (ipc_mutex x)(0 := (ipc_mutex x 0)\<lparr>mx_ceiling_priority := ceiling,
         mx_priority := if h = mx_head 0 then 5 else 0xff, mx_hold := 1, mx_owner := Some 1\<rparr>),
       ipc_taken := (ipc_taken x)(1 := [0])\<rparr>) (sample_kernel\<lparr>
     ks_thread := (ks_thread sample_kernel)(2 := (sample_thread 5 7)\<lparr>th_pending_object := Some (Mutex 0)\<rparr>),
     ks_list := (\<lambda>_. [])(Ready 5 := [3], Ready 31 := [0], h := [2])\<rparr>)"

lemma sample_waiting_ok:
  assumes h: "wait_head h"
  shows "kernel_ok (sample_waiting h c)"
proof -
  let ?s = "sample_kernel\<lparr>
     ks_thread := (ks_thread sample_kernel)(2 := (sample_thread 5 7)\<lparr>th_pending_object := Some (Mutex 0)\<rparr>),
     ks_list := (\<lambda>_. [])(Ready 5 := [3], Ready 31 := [0], h := [2])\<rparr>"
  have nr: "h \<noteq> Ready p" for p using h by auto
  have g: "bit (0x80000020 :: u32) p \<longleftrightarrow> p = 5 \<or> p = 31" for p
    using bit_or_prio [of 5 31 p] by simp
  have "queues_ok ?s"
    using h by (auto simp: queues_ok_def sample_kernel_def sample_thread_def th_state_def fits_wait th_suspended_def
        split: if_splits)
  moreover have "bitmap_ok ?s"
    unfolding bitmap_ok_def
  proof (intro conjI allI impI)
    show "bit (ks_group ?s) p = (ks_list ?s (Ready p) \<noteq> [])" for p
      using g [of p] nr [of p, symmetric] by (simp add: sample_kernel_def)
    show "ks_list ?s (Ready p) = []" if "32 \<le> p" for p
      using that nr [of p, symmetric] by simp
  qed
  moreover have "states_ok {} ?s"
    using nr by (auto simp: states_ok_def state_ok_def sample_kernel_def sample_thread_def no_thread_def
        th_state_def Let_def)
  moreover have "masks_ok ?s"
    by (auto simp: masks_ok_def mask_ok_def started_def sample_kernel_def sample_thread_def
        no_thread_def RT_THREAD_PRIORITY_MAX_def)
  ultimately have "sched_ok ?s" by (simp add: sched_inv_def)
  moreover have "thread_timer_ok ?s t" for t
    by (simp add: thread_timer_ok_def sample_kernel_def sample_clk_def sample_timer_def
        tm_activated_def tm_periodic_def RT_TIMER_FLAG_ACTIVATED_def RT_TIMER_FLAG_PERIODIC_def Let_def)
  ultimately have "kernel_ok ?s"
    using kernel_okD(2,4) [OF sample_kernel_kernel_ok] by (simp add: kernel_ok_def)
  then show ?thesis by (simp add: sample_waiting_def)
qed

lemma sample_live: "live sample_kernel t \<longleftrightarrow> t < 4"
  by (auto simp: sample_kernel_def sample_thread_def no_thread_def)


lemma sample_waiting_mutex_inv: "mutex_inv {} (sample_waiting (mx_head 0) 0xff)"
proof -
  let ?s = "sample_waiting (mx_head 0) 0xff"
  have m: "the_mutex m ?s = (if m = 0 then \<lparr>mx_object = Obj_Static, mx_flag = PRIO, mx_ceiling_priority = 0xff,
      mx_priority = 5, mx_hold = 1, mx_owner = Some 1\<rparr> else the_mutex m sample_kernel)"
    "taken t ?s = (if t = 1 then [0] else [])" for m t
    by (simp_all add: the_mutex_def taken_def sample_waiting_def sample_kernel_def sample_ipc_def)
  have m0: "the_mutex m sample_kernel = \<lparr>mx_object = Obj_Static, mx_flag = PRIO, mx_ceiling_priority = 0xff,
      mx_priority = 0xff, mx_hold = 0, mx_owner = None\<rparr>" for m
    by (simp add: the_mutex_def sample_kernel_def sample_ipc_def)
  have l: "ks_list ?s (mx_head m) = (if m = 0 then [2] else [])" for m by (simp add: sample_waiting_def)
  have th: "ks_thread ?s = (ks_thread sample_kernel)(2 := (sample_thread 5 7)\<lparr>th_pending_object := Some (Mutex 0)\<rparr>)"
    by (simp add: sample_waiting_def)
  have lv: "live ?s t \<longleftrightarrow> t < 4" for t
    using sample_live [of t] by (auto simp: th sample_thread_def)
  have fin: "finite {t. live ?s t}" unfolding lv by simp
  have i: "th_init_priority (ks_thread ?s t) = (if t = 0 then 31 else if t < 4 then 5 else 0)"
    "prio ?s t = (if t = 0 then 31 else if t < 4 then 5 else 0)"
    "th_suspended (ks_thread ?s t) \<longleftrightarrow> t = 2" "th_pending_object (ks_thread ?s t) = (if t = 2 then Some (Mutex 0) else None)" for t
    by (auto simp: th sample_kernel_def sample_thread_def no_thread_def th_suspended_def)
  have wf: "mutex_wf ?s n" for n
    unfolding mutex_wf_def Let_def m l i by (cases "n = 0") (auto simp: m0 lv)
  have ww: "waiter_wf ?s t" for t
    unfolding waiter_wf_def l i lv by auto
  have "pi_ok ?s t" for t
    unfolding pi_ok_def thread_get_mutex_priority_def i m lv by auto
  with fin wf ww show ?thesis by (simp add: mutex_inv_def)
qed

section \<open>Properties\<close>




lemma sample_waiting_current:
  "ks_current (sample_waiting h c) = Some 1" "th_state (ks_thread (sample_waiting h c) 1) = RT_THREAD_RUNNING"
  "ks_irq_nest (sample_waiting h c) = 0" "\<not> th_yield (ks_thread (sample_waiting h c) 1)"
  "ks_list (sample_waiting (mx_head 0) c) (mx_head 0) = [2]"
  "the_mutex 0 (sample_waiting (mx_head 0) c) = \<lparr>mx_object = Obj_Static, mx_flag = PRIO, mx_ceiling_priority = c,
     mx_priority = 5, mx_hold = 1, mx_owner = Some 1\<rparr>"
  "prio (sample_waiting h c) 2 = 5" "th_init_priority (ks_thread (sample_waiting h c) 1) = 5"
  "ks_clk (sample_waiting h c) = sample_clk"
  by (simp_all add: sample_waiting_def sample_kernel_def sample_thread_def th_state_def th_yield_def
      the_mutex_def sample_ipc_def)


text \<open>
  C4: No priority inversion: after any sequence of takes, releases and yields by the threads the
  scheduler chooses, the priority of every thread is the most urgent of its initial priority and
  those of the threads waiting for a mutex it holds, and a thread is at least as urgent as every
  thread that waits for it, directly or through a chain of mutexes of any length.
\<close>
theorem no_priority_inversion:
  assumes "kernel_ok s" "mutex_inv {} s" "mutex_step\<^sup>*\<^sup>* s s'"
  shows "(\<forall>w own. (waits_for s')\<^sup>+\<^sup>+ w own \<longrightarrow> prio s' own \<le> prio s' w) \<and>
    (\<forall>t. live s' t \<longrightarrow> prio s' t = Min (insert (th_init_priority (ks_thread s' t))
       (\<Union>m \<in> set (taken t s'). prio s' ` set (ks_list s' (mx_head m)))))"
  using mutex_run_inv [OF assms(3,1,2)] waits_chain_prio effective_priority by blast

theorem no_priority_inversion_witness:
  "\<exists>s'. mutex_step\<^sup>*\<^sup>* (sample_waiting (mx_head 0) 0xff) s' \<and> mx_owner (the_mutex 0 s') = Some 2 \<and>
     (\<forall>w own. (waits_for s')\<^sup>+\<^sup>+ w own \<longrightarrow> prio s' own \<le> prio s' w)"
proof -
  let ?s = "sample_waiting (mx_head 0) 0xff"
  note c = sample_waiting_current
  have ob: "mx_object (the_mutex 0 ?s) \<noteq> Obj_Null" by (simp add: c)
  have k: "kernel_ok ?s" by (rule sample_waiting_ok) simp
  from mutex_release_spec [OF k sample_waiting_mutex_inv c(1-3) ob] obtain e s' where
    s': "rt_mutex_release 0 ?s = Some (e, s')" "mx_owner (the_mutex 0 s') = Some 2" by (auto simp: c)
  have "mutex_step\<^sup>*\<^sup>* ?s s'" by (rule r_into_rtranclp) (rule mutex_step.Release [OF c(1-3) ob s'(1)])
  with no_priority_inversion [OF k sample_waiting_mutex_inv this] s'(2) show ?thesis by blast
qed

text \<open>
  A take with a timeout can dereference a null pointer: the only waiter of a mutex times out while the
  owner, of the same priority by inheritance, goes on running; the owner then releases the
  mutex, which finds no waiter and clears the owner; when the waiter is dispatched, the rest of
  its take reads the priority of mutex->owner, which is RT_NULL. The waiter's pending object
  still names the mutex.
\<close>
lemma mutex_take_timeout_null_owner:
  assumes "kernel_ok s" "mutex_inv {} s" "runs_highest s" "ks_current s = Some own"
    "\<not> th_yield (ks_thread s own)" "ks_irq_nest s = 0" "mx_owner (the_mutex m s) = Some own"
    "mx_hold (the_mutex m s) = 1" "ks_list s (mx_head m) = [w]"
    "\<not> tm_activated (ck_timer (ks_clk s) (Thread_Timer w))"
  shows "\<exists>s1 s2. thread_timeout w s = Some s1 \<and> ks_current s1 = Some own \<and>
    rt_mutex_release m s1 = Some (RT_EOK, s2) \<and> th_state (ks_thread s2 w) \<in> {2, 3} \<and>
    th_error (ks_thread s2 w) = - RT_ETIMEOUT \<and> th_pending_object (ks_thread s2 w) = Some (Mutex m) \<and>
    mutex_take_resume m w s2 = None"
  by (rule take_timeout_loses_owner [OF assms])

lemma mutex_take_timeout_null_owner_witness:
  "\<exists>s1 s2. thread_timeout 2 (sample_waiting (mx_head 0) 0xff) = Some s1 \<and>
     rt_mutex_release 0 s1 = Some (RT_EOK, s2) \<and> mutex_take_resume 0 2 s2 = None"
proof -
  let ?s = "sample_waiting (mx_head 0) 0xff"
  note c = sample_waiting_current
  have h: "runs_highest ?s"
    by (auto simp: runs_highest_def sample_waiting_def sample_kernel_def sample_thread_def no_thread_def th_state_def
        split: if_splits)
  have tm: "\<not> tm_activated (ck_timer (ks_clk ?s) (Thread_Timer 2))"
    by (simp add: c sample_clk_def sample_timer_def tm_activated_def RT_TIMER_FLAG_ACTIVATED_def)
  have o: "mx_owner (the_mutex 0 ?s) = Some 1" "mx_hold (the_mutex 0 ?s) = 1" by (simp_all add: c)
  from mutex_take_timeout_null_owner [OF sample_waiting_ok sample_waiting_mutex_inv h c(1,4,3) o c(5) tm]
  show ?thesis by auto
qed

text \<open>
  C25: A pending object left behind by a timed-out take misroutes later waits: when the priority of a thread
  suspended on another object changes, the stale pending object makes the kernel take it off
  that object's queue and put it on the mutex's, so the other object can no longer wake it; if
  the mutex is free by then, its null owner is dereferenced instead.
\<close>
theorem stale_pending_object_misroutes_waiter:
  assumes "kernel_ok s" "live s t" "th_suspended (ks_thread s t)"
    "th_pending_object (ks_thread s t) = Some (Mutex m)" "t \<in> set (ks_list s h)" "wait_head h" "h \<noteq> mx_head m"
    "mx_object (the_mutex m s) \<noteq> Obj_Null" "mx_flag (the_mutex m s) = PRIO" "p < 32"
  shows "(mx_owner (the_mutex m s) = None \<longrightarrow> thread_update_priority t p sflag s = None) \<and>
    (\<forall>own. mx_owner (the_mutex m s) = Some own \<longrightarrow> own \<noteq> t \<longrightarrow>
      th_init_priority (ks_thread s own) = prio s own \<longrightarrow> taken own s = [m] \<longrightarrow>
      mx_ceiling_priority (the_mutex m s) = 0xff \<longrightarrow> prio s own \<le> p \<longrightarrow>
      (\<forall>w \<in> set (ks_list s (mx_head m)). prio s own \<le> prio s w) \<longrightarrow>
      (\<exists>s'. thread_update_priority t p sflag s = Some s' \<and> t \<in> set (ks_list s' (mx_head m)) \<and>
        t \<notin> set (ks_list s' h) \<and> th_suspended (ks_thread s' t)))"
  using stale_pending_moves [OF assms] by blast

theorem stale_pending_object_misroutes_waiter_witness:
  "\<exists>s'. thread_update_priority 2 6 RT_UNINTERRUPTIBLE (sample_waiting (Suspend (Sem 7)) 0xff) = Some s' \<and>
     2 \<in> set (ks_list s' (mx_head 0)) \<and> 2 \<notin> set (ks_list s' (Suspend (Sem 7)))"
proof -
  let ?s = "sample_waiting (Suspend (Sem 7)) 0xff"
  have t: "live ?s 2" "th_suspended (ks_thread ?s 2)" "th_pending_object (ks_thread ?s 2) = Some (Mutex 0)"
    "2 \<in> set (ks_list ?s (Suspend (Sem 7)))" "wait_head (Suspend (Sem 7))" "Suspend (Sem 7) \<noteq> mx_head 0"
    "mx_object (the_mutex 0 ?s) \<noteq> Obj_Null" "mx_flag (the_mutex 0 ?s) = PRIO" "(6 :: nat) < 32"
    by (simp_all add: sample_waiting_def sample_kernel_def sample_thread_def th_suspended_def the_mutex_def sample_ipc_def)
  have o: "mx_owner (the_mutex 0 ?s) = Some 1" "th_init_priority (ks_thread ?s 1) = 5" "prio ?s 1 = 5"
    "taken 1 ?s = [0]" "mx_ceiling_priority (the_mutex 0 ?s) = 0xff" "ks_list ?s (mx_head 0) = []"
    by (simp_all add: sample_waiting_def sample_kernel_def sample_thread_def taken_def the_mutex_def sample_ipc_def)
  from stale_pending_object_misroutes_waiter [OF sample_waiting_ok t, of RT_UNINTERRUPTIBLE] o
  show ?thesis by auto
qed

text \<open>
  The ceiling is not applied at a hand-over: when the last release gives a mutex with a ceiling to a waiter
  below it, the new owner keeps its own priority, although the priority the kernel itself
  computes for it is at most the ceiling; a thread that takes the free mutex is raised.
\<close>
lemma hand_over_ignores_ceiling:
  assumes "kernel_ok s" "ks_current s = Some t" "th_state (ks_thread s t) = RT_THREAD_RUNNING" "ks_irq_nest s = 0"
    "mx_object (the_mutex m s) \<noteq> Obj_Null" "mx_owner (the_mutex m s) = Some t" "mx_hold (the_mutex m s) = 1"
    "ks_list s (mx_head m) = nx # ws" "th_init_priority (ks_thread s t) < 32"
    "mx_ceiling_priority (the_mutex m s) < prio s nx"
  shows "\<exists>s'. rt_mutex_release m s = Some (RT_EOK, s') \<and> mx_owner (the_mutex m s') = Some nx \<and>
    prio s' nx = prio s nx \<and> thread_get_mutex_priority nx s' \<le> mx_ceiling_priority (the_mutex m s')"
  by (rule hand_over_no_ceiling [OF assms])

lemma hand_over_ignores_ceiling_witness:
  "\<exists>s'. rt_mutex_release 0 (sample_waiting (mx_head 0) 3) = Some (RT_EOK, s') \<and>
     mx_owner (the_mutex 0 s') = Some 2 \<and> prio s' 2 = 5"
proof -
  let ?s = "sample_waiting (mx_head 0) 3"
  note c = sample_waiting_current
  have o: "mx_object (the_mutex 0 ?s) \<noteq> Obj_Null" "mx_owner (the_mutex 0 ?s) = Some 1" "mx_hold (the_mutex 0 ?s) = 1"
    "th_init_priority (ks_thread ?s 1) < 32" "mx_ceiling_priority (the_mutex 0 ?s) < prio ?s 2"
    by (simp_all add: c c(8) [simplified])
  from hand_over_ignores_ceiling [OF sample_waiting_ok c(1-3) o(1-3) c(5) o(4,5)] show ?thesis by (auto simp: c)
qed

end
