(* ===== verification/Event.thy ===== *)
theory Event
  imports Ipc_Base
begin

text \<open>
  Event sets, the \<open>RT_USING_EVENT\<close> part of \<open>src/ipc.c\<close>: a 32-bit set of flags and a queue of threads
  that each wait for all or any of some flags. The theorems state which threads a send wakes, in
  the order the queue gives them, and that no thread sleeps whose condition holds.
\<close>

section \<open>Operations\<close>

abbreviation (input) RT_EVENT_FLAG_AND :: u8 where "RT_EVENT_FLAG_AND \<equiv> 1"
abbreviation (input) RT_EVENT_FLAG_OR :: u8 where "RT_EVENT_FLAG_OR \<equiv> 2"
abbreviation (input) RT_EVENT_FLAG_CLEAR :: u8 where "RT_EVENT_FLAG_CLEAR \<equiv> 4"

abbreviation ev_head :: "nat \<Rightarrow> lhead" where "ev_head i \<equiv> Suspend (Event i)"

definition the_event :: "nat \<Rightarrow> kstate \<Rightarrow> rt_event" where
  "the_event i s = ipc_event (ks_ipc s) i"

definition upd_event :: "nat \<Rightarrow> (rt_event \<Rightarrow> rt_event) \<Rightarrow> kstate \<Rightarrow> kstate" where
  "upd_event i f = upd_ipc (\<lambda>x. x\<lparr>ipc_event := (ipc_event x)(i := f (ipc_event x i))\<rparr>)"

definition rt_event_init :: "nat \<Rightarrow> ipc_flag \<Rightarrow> kstate \<Rightarrow> (int \<times> kstate) option" where
  "rt_event_init i flag s = do {
     rt_assert (flag \<noteq> Bad_Flag);
     rt_assert (ev_object (the_event i s) = Obj_Null);
     let s = upd_event i (\<lambda>x. x\<lparr>ev_object := Obj_Static\<rparr>) s;
     let s = upd_event i (\<lambda>x. x\<lparr>ev_flag := flag\<rparr>) s;
     let s = list_set (ev_head i) [] s;
     Some (RT_EOK, upd_event i (\<lambda>x. x\<lparr>ev_set := 0\<rparr>) s)
   }"

definition rt_event_detach :: "nat \<Rightarrow> kstate \<Rightarrow> (int \<times> kstate) option" where
  "rt_event_detach i s = do {
     rt_assert (ev_object (the_event i s) \<noteq> Obj_Null);
     rt_assert (ev_object (the_event i s) = Obj_Static);
     s \<leftarrow> ipc_list_resume_all (ev_head i) s;
     Some (RT_EOK, upd_event i (\<lambda>x. x\<lparr>ev_object := Obj_Null\<rparr>) s)
   }"

definition rt_event_delete :: "nat \<Rightarrow> kstate \<Rightarrow> (int \<times> kstate) option" where
  "rt_event_delete i s = do {
     rt_assert (ev_object (the_event i s) \<noteq> Obj_Null);
     rt_assert (ev_object (the_event i s) \<noteq> Obj_Static);
     rt_assert (ks_irq_nest s = 0);
     s \<leftarrow> ipc_list_resume_all (ev_head i) s;
     Some (RT_EOK, upd_event i (\<lambda>x. x\<lparr>ev_object := Obj_Null\<rparr>) s)
   }"

text \<open>
  The walk over the waiters: the successor of a node is read before its thread is resumed, so the walk
  is over the list as it was. The boolean is \<open>need_schedule\<close>; a waiter with neither flag ends the call.
\<close>

fun event_send_loop :: "nat \<Rightarrow> tid list \<Rightarrow> bool \<Rightarrow> kstate \<Rightarrow> (int \<times> bool \<times> kstate) option" where
  "event_send_loop i [] need s = Some (RT_EOK, need, s)"
| "event_send_loop i (t # ts) need s =
     (let info = th_event_info (ks_thread s t); st = ev_set (the_event i s);
          event_set = th_event_set (ks_thread s t) in
      if info AND RT_EVENT_FLAG_AND = 0 \<and> info AND RT_EVENT_FLAG_OR = 0 then Some (- RT_EINVAL, need, s)
      else
        let (status, s) =
          (if info AND RT_EVENT_FLAG_AND \<noteq> 0
           then (if event_set AND st = event_set then (RT_EOK, s) else (- RT_ERROR, s))
           else if event_set AND st \<noteq> 0
           then (RT_EOK, upd_thread t (\<lambda>th. th\<lparr>th_event_set := event_set AND st\<rparr>) s)
           else (- RT_ERROR, s))
        in if status = RT_EOK
           then do {
             let s = (if info AND RT_EVENT_FLAG_CLEAR \<noteq> 0
                      then upd_event i (\<lambda>x. x\<lparr>ev_set := ev_set x AND NOT (th_event_set (ks_thread s t))\<rparr>) s else s);
             (_, s) \<leftarrow> rt_thread_resume t s;
             event_send_loop i ts True (upd_thread t (\<lambda>th. th\<lparr>th_error := RT_EOK\<rparr>) s)
           }
           else event_send_loop i ts need s)"

definition rt_event_send :: "nat \<Rightarrow> u32 \<Rightarrow> kstate \<Rightarrow> (int \<times> kstate) option" where
  "rt_event_send i bits s = do {
     rt_assert (ev_object (the_event i s) \<noteq> Obj_Null);
     if bits = 0 then Some (- RT_ERROR, s)
     else do {
       let s = upd_event i (\<lambda>x. x\<lparr>ev_set := ev_set x OR bits\<rparr>) s;
       (ret, need_schedule, s) \<leftarrow> event_send_loop i (ks_list s (ev_head i)) False s;
       if ret \<noteq> RT_EOK then Some (ret, s)
       else do {
         s \<leftarrow> (if need_schedule then rt_schedule s else Some s);
         Some (RT_EOK, s)
       }
     }
   }"

text \<open>\<open>_rt_event_recv\<close>; the second component is what it stores through \<open>recved\<close>.\<close>

definition event_recv ::
  "nat \<Rightarrow> u32 \<Rightarrow> u8 \<Rightarrow> int \<Rightarrow> suspend_flag \<Rightarrow> kstate \<Rightarrow> (outcome \<times> u32 option \<times> kstate) option" where
  "event_recv i bits opt timeout sflag s = do {
     rt_assert (ev_object (the_event i s) \<noteq> Obj_Null);
     scheduler_available s;
     if bits = 0 then Some (Ret (- RT_ERROR), None, s)
     else do {
       t \<leftarrow> rt_thread_self s;
       let s = upd_thread t (\<lambda>th. th\<lparr>th_error := - RT_EINTR\<rparr>) s;
       rt_assert (opt AND RT_EVENT_FLAG_AND \<noteq> 0 \<or> opt AND RT_EVENT_FLAG_OR \<noteq> 0);
       let st = ev_set (the_event i s);
       if (if opt AND RT_EVENT_FLAG_AND \<noteq> 0 then st AND bits = bits else st AND bits \<noteq> 0) then
         (let s = upd_thread t (\<lambda>th. th\<lparr>th_error := RT_EOK\<rparr>) s;
              s = upd_thread t (\<lambda>th. th\<lparr>th_event_set := st AND bits, th_event_info := opt\<rparr>) s;
              s = (if opt AND RT_EVENT_FLAG_CLEAR \<noteq> 0
                   then upd_event i (\<lambda>x. x\<lparr>ev_set := ev_set x AND NOT bits\<rparr>) s else s)
          in Some (Ret (th_error (ks_thread s t)), Some (st AND bits), s))
       else if timeout = 0 then
         Some (Ret (- RT_ETIMEOUT), None, upd_thread t (\<lambda>th. th\<lparr>th_error := - RT_ETIMEOUT\<rparr>) s)
       else do {
         let s = upd_thread t (\<lambda>th. th\<lparr>th_event_set := bits, th_event_info := opt\<rparr>) s;
         (r, s) \<leftarrow> block_on (ev_head i) t (ev_flag (the_event i s)) sflag timeout s;
         Some (r, None, s)
       }
     }
   }"

definition event_recv_resume :: "tid \<Rightarrow> kstate \<Rightarrow> int \<times> u32 option" where
  "event_recv_resume t s =
     (if th_error (ks_thread s t) \<noteq> RT_EOK then (th_error (ks_thread s t), None)
      else (th_error (ks_thread s t), Some (th_event_set (ks_thread s t))))"

definition rt_event_recv where
  "rt_event_recv i bits opt timeout = event_recv i bits opt timeout RT_UNINTERRUPTIBLE"

definition rt_event_recv_interruptible where
  "rt_event_recv_interruptible i bits opt timeout = event_recv i bits opt timeout RT_INTERRUPTIBLE"

definition rt_event_recv_killable where
  "rt_event_recv_killable i bits opt timeout = event_recv i bits opt timeout RT_KILLABLE"

text \<open>\<open>rt_event_control\<close>: \<open>True\<close> is \<open>RT_IPC_CMD_RESET\<close>.\<close>

definition rt_event_control :: "nat \<Rightarrow> bool \<Rightarrow> kstate \<Rightarrow> (int \<times> kstate) option" where
  "rt_event_control i reset s = do {
     rt_assert (ev_object (the_event i s) \<noteq> Obj_Null);
     if reset then do {
       s \<leftarrow> ipc_list_resume_all (ev_head i) s;
       let s = upd_event i (\<lambda>x. x\<lparr>ev_set := 0\<rparr>) s;
       s \<leftarrow> rt_schedule s;
       Some (RT_EOK, s)
     }
     else Some (- RT_ERROR, s)
   }"

section \<open>The abstract event set\<close>

text \<open>A condition on the flags: which, all or any of them, and whether receiving consumes them.\<close>

definition satisfied :: "u32 \<Rightarrow> u8 \<Rightarrow> u32 \<Rightarrow> bool" where
  "satisfied bits info st \<longleftrightarrow>
     (if info AND RT_EVENT_FLAG_AND \<noteq> 0 then bits AND st = bits else bits AND st \<noteq> 0)"

definition valid_info :: "u8 \<Rightarrow> bool" where
  "valid_info info \<longleftrightarrow> info AND RT_EVENT_FLAG_AND \<noteq> 0 \<or> info AND RT_EVENT_FLAG_OR \<noteq> 0"

definition consumed :: "u8 \<Rightarrow> u32 \<Rightarrow> u32 \<Rightarrow> u32" where
  "consumed info got st = (if info AND RT_EVENT_FLAG_CLEAR \<noteq> 0 then st AND NOT got else st)"

text \<open>
  Serving a queue of conditions in order: the flags left, who is served and with which flags, and who
  goes on waiting.
\<close>

fun serve :: "(tid \<times> u32 \<times> u8) list \<Rightarrow> u32 \<Rightarrow> u32 \<times> (tid \<times> u32) list \<times> (tid \<times> u32 \<times> u8) list" where
  "serve [] st = (st, [], [])"
| "serve ((t, bits, info) # ws) st =
     (if satisfied bits info st
      then let (st', served, rest) = serve ws (consumed info (bits AND st) st) in (st', (t, bits AND st) # served, rest)
      else let (st', served, rest) = serve ws st in (st', served, (t, bits, info) # rest))"

definition ev_waiters :: "nat \<Rightarrow> kstate \<Rightarrow> (tid \<times> u32 \<times> u8) list" where
  "ev_waiters i s = map (\<lambda>t. (t, th_event_set (ks_thread s t), th_event_info (ks_thread s t))) (ks_list s (ev_head i))"

text \<open>The invariant: no thread waits whose condition holds.\<close>

definition event_inv :: "nat \<Rightarrow> kstate \<Rightarrow> bool" where
  "event_inv i s \<longleftrightarrow> kernel_ok s \<and> ev_object (the_event i s) \<noteq> Obj_Null \<and> ev_flag (the_event i s) \<noteq> Bad_Flag \<and>
     (\<forall>(t, bits, info) \<in> set (ev_waiters i s). valid_info info \<and> \<not> satisfied bits info (ev_set (the_event i s)))"

lemma the_event_simps [simp]:
  "the_event i (upd_event i f s) = f (the_event i s)"
  "ks_list (upd_event i f s) = ks_list s" "ks_thread (upd_event i f s) = ks_thread s"
  "ks_current (upd_event i f s) = ks_current s" "ks_clk (upd_event i f s) = ks_clk s"
  "kernel_ok (upd_event i f s) = kernel_ok s"
  "the_event i (upd_thread t g s) = the_event i s"
  by (simp_all add: the_event_def upd_event_def)

lemma the_event_cong: "ks_ipc s' = ks_ipc s \<Longrightarrow> the_event i s' = the_event i s"
  by (simp add: the_event_def)

lemma satisfied_mono: "satisfied bits info a \<Longrightarrow> a AND b = a \<Longrightarrow> satisfied bits info b"
proof -
  assume s: "satisfied bits info a" and ab: "a AND b = a"
  have "bits AND b = bits" if "bits AND a = bits" using that ab by (metis and.assoc)
  moreover have "bits AND a = (bits AND b) AND a" using ab by (metis and.assoc and.commute)
  then have "bits AND b \<noteq> 0" if "bits AND a \<noteq> 0" using that by auto
  ultimately show ?thesis using s by (auto simp: satisfied_def split: if_splits)
qed

lemma consumed_subset: "consumed info got st AND st = consumed info got st"
  by (auto simp: consumed_def bit_eq_iff bit_simps)

lemma serve_subset: "serve ws st = (st', served, rest) \<Longrightarrow> st' AND st = st'"
proof (induction ws st arbitrary: st' served rest rule: serve.induct)
  case (2 t bits info ws st)
  show ?case
  proof (cases "satisfied bits info st")
    case True
    obtain a b c where r: "serve ws (consumed info (bits AND st) st) = (a, b, c)" by (metis prod_cases3)
    have "a AND consumed info (bits AND st) st = a" using 2(1) [OF True r] .
    then have "a AND st = a" using consumed_subset by (metis and.assoc)
    then show ?thesis using 2(3) True r by simp
  next
    case False
    obtain a b c where r: "serve ws st = (a, b, c)" by (metis prod_cases3)
    then show ?thesis using 2(2) [OF False r] 2(3) False by simp
  qed
qed simp

text \<open>Nobody whose condition holds for the flags left over goes on waiting.\<close>

lemma serve_rest_unsatisfied:
  "serve ws st = (st', served, rest) \<Longrightarrow> (t, bits, info) \<in> set rest \<Longrightarrow> \<not> satisfied bits info st'"
proof (induction ws st arbitrary: st' served rest rule: serve.induct)
  case (2 u seu infu ws st)
  show ?case
  proof (cases "satisfied seu infu st")
    case True
    obtain a b c where r: "serve ws (consumed infu (seu AND st) st) = (a, b, c)" by (metis prod_cases3)
    then show ?thesis using 2(1) [OF True r] 2(3,4) True by simp
  next
    case False
    obtain a b c where r: "serve ws st = (a, b, c)" by (metis prod_cases3)
    have "\<not> satisfied seu infu a" using False satisfied_mono serve_subset [OF r] by blast
    then show ?thesis using 2(2) [OF False r] 2(3,4) False r by auto
  qed
qed simp

lemma serve_partition:
  "serve ws st = (st', served, rest) \<Longrightarrow> fst ` set served \<union> fst ` set rest = fst ` set ws \<and> set rest \<subseteq> set ws"
proof (induction ws st arbitrary: st' served rest rule: serve.induct)
  case (2 t bits info ws st)
  show ?case
  proof (cases "satisfied bits info st")
    case True
    obtain a b c where r: "serve ws (consumed info (bits AND st) st) = (a, b, c)" by (metis prod_cases3)
    have h: "fst ` set b \<union> fst ` set c = fst ` set ws" "set c \<subseteq> set ws" using 2(1) [OF True r] by simp_all
    have e: "served = (t, bits AND st) # b" "rest = c" using 2(3) True r by simp_all
    show ?thesis unfolding e using h by (simp add: subset_insertI2)
  next
    case False
    obtain a b c where r: "serve ws st = (a, b, c)" by (metis prod_cases3)
    have h: "fst ` set b \<union> fst ` set c = fst ` set ws" "set c \<subseteq> set ws" using 2(2) [OF False r] by simp_all
    have e: "served = b" "rest = (t, bits, info) # c" using 2(3) False r by simp_all
    show ?thesis unfolding e using h by (simp add: subset_insertI2)
  qed
qed simp

section \<open>Sending\<close>

definition waiting :: "kstate \<Rightarrow> tid list \<Rightarrow> (tid \<times> u32 \<times> u8) list" where
  "waiting s = map (\<lambda>t. (t, th_event_set (ks_thread s t), th_event_info (ks_thread s t)))"

lemma waiting_simps [simp]:
  "waiting s [] = []" "waiting s (t # ts) = (t, th_event_set (ks_thread s t), th_event_info (ks_thread s t)) # waiting s ts"
  by (simp_all add: waiting_def)

lemma ev_waiters_waiting: "ev_waiters i s = waiting s (ks_list s (ev_head i))"
  by (simp add: ev_waiters_def waiting_def)

lemma waiting_cong: "(\<And>t. t \<in> set ts \<Longrightarrow> ks_thread s' t = ks_thread s t) \<Longrightarrow> waiting s' ts = waiting s ts"
  by (simp add: waiting_def)

definition loop_post :: "nat \<Rightarrow> tid list \<Rightarrow> tid list \<Rightarrow> kstate \<Rightarrow> kstate \<Rightarrow> bool" where
  "loop_post i pre ts s s' \<longleftrightarrow> (\<exists>st' served rest. serve (waiting s ts) (ev_set (the_event i s)) = (st', served, rest) \<and>
     ev_set (the_event i s') = st' \<and> ks_list s' (ev_head i) = pre @ map fst rest \<and>
     (\<forall>(t, got) \<in> set served. th_event_set (ks_thread s' t) = got \<and> th_error (ks_thread s' t) = RT_EOK \<and>
        th_state (ks_thread s' t) \<in> {2, 3}) \<and>
     (\<forall>t. t \<notin> fst ` set served \<longrightarrow> ks_thread s' t = ks_thread s t)) \<and>
     ev_object (the_event i s') = ev_object (the_event i s) \<and> ev_flag (the_event i s') = ev_flag (the_event i s)"

text \<open>Serving one waiter whose condition holds.\<close>

lemma serve_one:
  assumes k: "kernel_ok s" and t: "t \<in> set (ks_list s (ev_head i))"
  defines "got \<equiv> th_event_set (ks_thread s t) AND ev_set (the_event i s)"
  defines "s1 \<equiv> upd_thread t (\<lambda>th. th\<lparr>th_event_set := got\<rparr>) s"
  defines "s2 \<equiv> (if th_event_info (ks_thread s t) AND RT_EVENT_FLAG_CLEAR \<noteq> 0
      then upd_event i (\<lambda>x. x\<lparr>ev_set := ev_set x AND NOT got\<rparr>) s1 else s1)"
  shows "\<exists>s3. rt_thread_resume t s2 = Some (RT_EOK, s3) \<and>
    kernel_ok (upd_thread t (\<lambda>th. th\<lparr>th_error := RT_EOK\<rparr>) s3) \<and>
    ks_list s3 (ev_head i) = removeAll t (ks_list s (ev_head i)) \<and>
    the_event i s3 = (the_event i s)\<lparr>ev_set := consumed (th_event_info (ks_thread s t)) got (ev_set (the_event i s))\<rparr> \<and>
    (\<forall>u. u \<noteq> t \<longrightarrow> ks_thread s3 u = ks_thread s u) \<and>
    th_event_set (ks_thread s3 t) = got \<and> th_state (ks_thread s3 t) \<in> {2, 3}"
proof -
  note w = waiter_facts [OF k t]
  have k1: "kernel_ok s1" unfolding s1_def by (rule kernel_ok_upd_same [OF k]) simp
  then have k2: "kernel_ok s2" by (simp add: s2_def)
  have l2: "th_object (ks_thread s2 t) \<noteq> Obj_Null" "th_suspended (ks_thread s2 t)"
    using w(1,2) by (simp_all add: s2_def s1_def th_suspended_state)
  obtain s3 where s3: "rt_thread_resume t s2 = Some (RT_EOK, s3)" "kernel_ok s3" "resumed t s2 s3"
    using resume_spec [OF k2 l2] by blast
  have "kernel_ok (upd_thread t (\<lambda>th. th\<lparr>th_error := RT_EOK\<rparr>) s3)" by (rule kernel_ok_upd_same [OF s3(2)]) simp
  moreover have "the_event i s3 = the_event i s2" using s3(3) by (intro the_event_cong) (simp add: resumed_def)
  moreover have "ks_list s2 = ks_list s" "ks_thread s2 = (ks_thread s)(t := (ks_thread s t)\<lparr>th_event_set := got\<rparr>)"
    "the_event i s2 = (the_event i s)\<lparr>ev_set := consumed (th_event_info (ks_thread s t)) got (ev_set (the_event i s))\<rparr>"
    by (simp_all add: s2_def s1_def consumed_def)
  ultimately show ?thesis using s3 by (auto simp: resumed_def)
qed

lemma loop_need: "event_send_loop i ts need s = Some (e, need', s') \<Longrightarrow> need \<Longrightarrow> need'"
  by (induction ts arbitrary: need s) (auto simp: Let_def split: if_splits Option.bind_splits)

lemma event_send_loop_spec:
  assumes "kernel_ok s" "ks_list s (ev_head i) = pre @ ts" "\<forall>t \<in> set ts. valid_info (th_event_info (ks_thread s t))"
  shows "\<exists>need' s'. event_send_loop i ts need s = Some (RT_EOK, need', s') \<and> kernel_ok s' \<and> loop_post i pre ts s s' \<and>
    (\<not> need' \<longrightarrow> s' = s)"
  using assms
proof (induction ts arbitrary: pre s need)
  case Nil
  then show ?case by (simp add: loop_post_def)
next
  case (Cons t ts)
  note k = Cons.prems(1)
  let ?es = "th_event_set (ks_thread s t)" and ?info = "th_event_info (ks_thread s t)" and ?st = "ev_set (the_event i s)"
  have t: "t \<in> set (ks_list s (ev_head i))" using Cons.prems(2) by simp
  have dist: "t \<notin> set pre" "t \<notin> set ts"
    using sched_invD(1) [OF kernel_okD(1) [OF k], of "ev_head i"] Cons.prems(2) by auto
  have v: "?info AND 1 \<noteq> 0 \<or> ?info AND 2 \<noteq> 0" using Cons.prems(3) by (simp add: valid_info_def)
  show ?case
  proof (cases "satisfied ?es ?info ?st")
    case False
    from Cons.IH [OF k, of "pre @ [t]" need] Cons.prems obtain need' s' where
      s': "event_send_loop i ts need s = Some (RT_EOK, need', s')" "kernel_ok s'" "loop_post i (pre @ [t]) ts s s'"
      "\<not> need' \<longrightarrow> s' = s" by auto
    have "event_send_loop i (t # ts) need s = event_send_loop i ts need s"
      using False v by (auto simp: satisfied_def Let_def)
    moreover have "loop_post i pre (t # ts) s s'"
      using s'(3) False unfolding loop_post_def by (auto split: prod.splits)
    ultimately show ?thesis using s' by auto
  next
    case True
    let ?got = "?es AND ?st"
    let ?s1 = "upd_thread t (\<lambda>th. th\<lparr>th_event_set := ?got\<rparr>) s"
    let ?s2 = "if ?info AND RT_EVENT_FLAG_CLEAR \<noteq> 0
      then upd_event i (\<lambda>x. x\<lparr>ev_set := ev_set x AND NOT ?got\<rparr>) ?s1 else ?s1"
    obtain s3 where s3: "rt_thread_resume t ?s2 = Some (RT_EOK, s3)"
      "kernel_ok (upd_thread t (\<lambda>th. th\<lparr>th_error := RT_EOK\<rparr>) s3)"
      "ks_list s3 (ev_head i) = removeAll t (ks_list s (ev_head i))"
      "the_event i s3 = (the_event i s)\<lparr>ev_set := consumed ?info ?got ?st\<rparr>"
      "\<forall>u. u \<noteq> t \<longrightarrow> ks_thread s3 u = ks_thread s u"
      "th_event_set (ks_thread s3 t) = ?got" "th_state (ks_thread s3 t) \<in> {2, 3}"
      using serve_one [OF k t] by blast
    let ?s4 = "upd_thread t (\<lambda>th. th\<lparr>th_error := RT_EOK\<rparr>) s3"
    have same: "upd_thread t (\<lambda>th. th\<lparr>th_event_set := ?es\<rparr>) s = s" by (simp add: upd_thread_def)
    have step: "event_send_loop i (t # ts) need s = event_send_loop i ts True ?s4"
      using True v s3(1) by (simp add: satisfied_def Let_def same split: if_splits)
    have "ks_list ?s4 (ev_head i) = pre @ ts"
      using s3(3) Cons.prems(2) dist by (simp add: removeAll_notin)
    moreover have "\<forall>u \<in> set ts. valid_info (th_event_info (ks_thread ?s4 u))"
      using Cons.prems(3) s3(5) dist(2) by auto
    ultimately obtain need' s' where
      s': "event_send_loop i ts True ?s4 = Some (RT_EOK, need', s')" "kernel_ok s'" "loop_post i pre ts ?s4 s'"
      using Cons.IH [OF s3(2), of pre True] by blast
    have nd: "need'" using loop_need [OF s'(1)] by simp
    have wt: "waiting ?s4 ts = waiting s ts" by (rule waiting_cong) (use s3(5) dist(2) in auto)
    obtain st' served rest where r: "serve (waiting s ts) (consumed ?info ?got ?st) = (st', served, rest)"
      by (metis prod_cases3)
    have ts: "t \<notin> fst ` set served" using serve_partition [OF r] dist(2) by (auto simp: waiting_def)
    have "loop_post i pre (t # ts) s s'"
      using s'(3) True r ts s3(4-7) unfolding loop_post_def wt by (auto split: if_splits)
    with step s'(1,2) nd show ?thesis by auto
  qed
qed

lemma serve_disjoint:
  "serve ws st = (st', served, rest) \<Longrightarrow> distinct (map fst ws) \<Longrightarrow> fst ` set served \<inter> fst ` set rest = {}"
proof (induction ws st arbitrary: st' served rest rule: serve.induct)
  case (2 t bits info ws st)
  have nt: "t \<notin> fst ` set ws" and d: "distinct (map fst ws)" using 2(4) by simp_all
  show ?case
  proof (cases "satisfied bits info st")
    case True
    obtain a b c where r: "serve ws (consumed info (bits AND st) st) = (a, b, c)" by (metis prod_cases3)
    have e: "served = (t, bits AND st) # b" "rest = c" using 2(3) True r by simp_all
    have "t \<notin> fst ` set c" using serve_partition [OF r] nt by blast
    then show ?thesis unfolding e using 2(1) [OF True r d] by simp
  next
    case False
    obtain a b c where r: "serve ws st = (a, b, c)" by (metis prod_cases3)
    have e: "served = b" "rest = (t, bits, info) # c" using 2(3) False r by simp_all
    have "t \<notin> fst ` set b" using serve_partition [OF r] nt by blast
    then show ?thesis unfolding e using 2(2) [OF False r d] by simp
  qed
qed simp

lemma waiting_rest: "set rest \<subseteq> set (waiting s ts) \<Longrightarrow> waiting s (map fst rest) = rest"
  by (induction rest) (auto simp: waiting_def)

lemma map_fst_waiting [simp]: "map fst (waiting s ts) = ts"
  by (simp add: waiting_def comp_def)

text \<open>A reschedule changes nothing an event set and its waiters depend on.\<close>

lemma sched_frame_event:
  assumes "sched_frame s s'"
  shows "the_event i s' = the_event i s" "ks_list s' (ev_head i) = ks_list s (ev_head i)"
    "waiting s' ts = waiting s ts" "event_recv_resume t s' = event_recv_resume t s"
proof -
  note fr = sched_frameD [OF assms]
  show "the_event i s' = the_event i s" "ks_list s' (ev_head i) = ks_list s (ev_head i)"
    "waiting s' ts = waiting s ts" "event_recv_resume t s' = event_recv_resume t s"
    by (simp_all add: fr the_event_cong [OF fr(2)] waiting_def event_recv_resume_def)
qed

lemma event_send_spec:
  assumes s: "event_inv i s" and b: "bits \<noteq> 0"
  shows "\<exists>s' st' served rest. serve (ev_waiters i s) (ev_set (the_event i s) OR bits) = (st', served, rest) \<and>
    rt_event_send i bits s = Some (RT_EOK, s') \<and> event_inv i s' \<and> ev_set (the_event i s') = st' \<and>
    ev_waiters i s' = rest \<and>
    (\<forall>(t, got) \<in> set served. event_recv_resume t s' = (RT_EOK, Some got) \<and> th_state (ks_thread s' t) \<in> {2, 3})"
proof -
  let ?s1 = "upd_event i (\<lambda>x. x\<lparr>ev_set := ev_set x OR bits\<rparr>) s" and ?ts = "ks_list s (ev_head i)"
  have k: "kernel_ok s" and o: "ev_object (the_event i s) \<noteq> Obj_Null" "ev_flag (the_event i s) \<noteq> Bad_Flag"
    and v: "\<forall>(t, bits, info) \<in> set (waiting s ?ts). valid_info info"
    using s by (auto simp: event_inv_def ev_waiters_waiting)
  have "\<forall>t \<in> set ?ts. valid_info (th_event_info (ks_thread ?s1 t))" using v by (auto simp: waiting_def)
  with event_send_loop_spec [of ?s1 i "[]" ?ts False] k obtain need s2 where
    s2: "event_send_loop i ?ts False ?s1 = Some (RT_EOK, need, s2)" "kernel_ok s2" "loop_post i [] ?ts ?s1 s2" by auto
  have wt: "waiting ?s1 ?ts = waiting s ?ts" by (simp add: waiting_def)
  obtain st' served rest where r: "serve (waiting s ?ts) (ev_set (the_event i s) OR bits) = (st', served, rest)"
    and post: "ev_set (the_event i s2) = st'" "ks_list s2 (ev_head i) = map fst rest"
      "\<forall>(t, got) \<in> set served. th_event_set (ks_thread s2 t) = got \<and> th_error (ks_thread s2 t) = RT_EOK \<and>
        th_state (ks_thread s2 t) \<in> {2, 3}"
      "\<forall>t. t \<notin> fst ` set served \<longrightarrow> ks_thread s2 t = ks_thread s t"
      "ev_object (the_event i s2) = ev_object (the_event i s)" "ev_flag (the_event i s2) = ev_flag (the_event i s)"
    using s2(3) unfolding loop_post_def wt by auto
  obtain s3 where s3: "(if need then rt_schedule s2 else Some s2) = Some s3" "kernel_ok s3" "sched_frame s2 s3"
    using schedule_kernel_ok [OF s2(2)] s2(2) by (cases need) (auto simp: ok_iff)
  note fr = sched_frame_event [OF s3(3)]
  have "distinct ?ts" by (rule sched_invD(1) [OF kernel_okD(1) [OF k]])
  then have dis: "fst ` set served \<inter> fst ` set rest = {}" by (intro serve_disjoint [OF r]) simp
  have "waiting s3 (map fst rest) = waiting s (map fst rest)"
    unfolding fr(3) by (rule waiting_cong) (use post(4) dis in auto)
  also have "\<dots> = rest" using serve_partition [OF r] by (intro waiting_rest) blast
  finally have ws: "ev_waiters i s3 = rest" by (simp add: ev_waiters_waiting fr(2) post(2))
  have ev: "event_inv i s3"
    unfolding event_inv_def ws fr(1)
  proof (intro conjI ballI)
    fix w assume w: "w \<in> set rest"
    obtain t bs info where tw: "w = (t, bs, info)" by (metis prod_cases3)
    have "w \<in> set (waiting s ?ts)" using serve_partition [OF r] w by blast
    with v tw have "valid_info info" by auto
    moreover have "\<not> satisfied bs info st'" using serve_rest_unsatisfied [OF r] w tw by blast
    ultimately show "case w of (t, bits, info) \<Rightarrow> valid_info info \<and> \<not> satisfied bits info (ev_set (the_event i s2))"
      by (simp add: tw post(1))
  qed (use s3(2) post(5,6) o in simp_all)
  have "rt_event_send i bits s = Some (RT_EOK, s3)"
    using o b s2(1) s3(1) by (simp add: rt_event_send_def)
  moreover have "\<forall>(t, got) \<in> set served. event_recv_resume t s3 = (RT_EOK, Some got) \<and> th_state (ks_thread s3 t) \<in> {2, 3}"
  proof (intro ballI, clarify)
    fix t got assume "(t, got) \<in> set served"
    with post(3) have p: "th_event_set (ks_thread s2 t) = got" "th_error (ks_thread s2 t) = RT_EOK"
      "th_state (ks_thread s2 t) \<in> {2, 3}" by auto
    show "event_recv_resume t s3 = (RT_EOK, Some got) \<and> th_state (ks_thread s3 t) \<in> {2, 3}"
      using p sched_frame_runnable [OF s3(3) p(3)] unfolding fr(4) by (simp add: event_recv_resume_def)
  qed
  ultimately show ?thesis using r ws ev post(1) fr(1) by (simp add: ev_waiters_waiting)
qed

section \<open>Receiving\<close>

lemma event_recv_spec:
  assumes s: "event_inv i s" and t: "may_block t s" and b: "bits \<noteq> 0" and v: "valid_info opt"
    and f: "sflag \<noteq> Bad_Suspend_Flag" and tm: "timeout_ok timeout"
  shows "\<exists>r got s'. event_recv i bits opt timeout sflag s = Some (r, got, s') \<and> event_inv i s' \<and>
    (let st = ev_set (the_event i s) in
     if satisfied bits opt st
     then r = Ret RT_EOK \<and> got = Some (st AND bits) \<and> ev_set (the_event i s') = consumed opt bits st \<and>
       ev_waiters i s' = ev_waiters i s
     else if timeout = 0
     then r = Ret (- RT_ETIMEOUT) \<and> got = None \<and> ev_set (the_event i s') = st \<and> ev_waiters i s' = ev_waiters i s
     else r = Blocked \<and> got = None \<and> ev_set (the_event i s') = st \<and> th_suspended (ks_thread s' t) \<and>
       set (ev_waiters i s') = insert (t, bits, opt) (set (ev_waiters i s)))"
proof -
  have k: "kernel_ok s" and o: "ev_object (the_event i s) \<noteq> Obj_Null" "ev_flag (the_event i s) \<noteq> Bad_Flag"
    and u: "\<forall>(t, bits, info) \<in> set (ev_waiters i s). valid_info info \<and> \<not> satisfied bits info (ev_set (the_event i s))"
    using s by (simp_all add: event_inv_def)
  have c: "ks_current s = Some t" "th_state (ks_thread s t) = 3" using t by (simp_all add: may_block_def)
  have nt: "t \<notin> set (ks_list s (ev_head i))"
    using running_unlinked [OF kernel_okD(1) [OF k] c(2)] by (simp add: unlinked_def)
  note av = may_block_available [OF t]
  let ?st = "ev_set (the_event i s)"
  have vv: "opt AND 1 \<noteq> 0 \<or> opt AND 2 \<noteq> 0" using v by (simp add: valid_info_def)
  have sat: "(if opt AND 1 \<noteq> 0 then ?st AND bits = bits else ?st AND bits \<noteq> 0) = satisfied bits opt ?st"
    by (simp add: satisfied_def and.commute)
  have wcong: "ev_waiters i s' = ev_waiters i s" if "ks_list s' (ev_head i) = ks_list s (ev_head i)"
    "\<And>u. u \<noteq> t \<Longrightarrow> ks_thread s' u = ks_thread s u" for s'
    unfolding ev_waiters_waiting that(1) by (rule waiting_cong) (metis that(2) nt)
  consider (now) "satisfied bits opt ?st" | (poll) "\<not> satisfied bits opt ?st" "timeout = 0"
    | (wait) "\<not> satisfied bits opt ?st" "timeout \<noteq> 0" by blast
  then show ?thesis
  proof cases
    case now
    let ?s1 = "upd_thread t (\<lambda>th. th\<lparr>th_event_set := ?st AND bits, th_event_info := opt\<rparr>)
      (upd_thread t (\<lambda>th. th\<lparr>th_error := RT_EOK\<rparr>) (upd_thread t (\<lambda>th. th\<lparr>th_error := - RT_EINTR\<rparr>) s))"
    let ?s' = "if opt AND 4 \<noteq> 0 then upd_event i (\<lambda>x. x\<lparr>ev_set := ev_set x AND NOT bits\<rparr>) ?s1 else ?s1"
    have k1: "kernel_ok ?s1"
    proof -
      have "kernel_ok (upd_thread t (\<lambda>th. (th\<lparr>th_error := 0\<rparr>)\<lparr>th_event_set := ?st AND bits, th_event_info := opt\<rparr>) s)"
        by (rule kernel_ok_upd_same [OF k]) (simp add: same_sched_def)
      then show ?thesis by (simp add: upd_thread_def)
    qed
    have run: "event_recv i bits opt timeout sflag s = Some (Ret RT_EOK, Some (?st AND bits), ?s')"
      using now o b c av vv sat by (simp add: event_recv_def rt_thread_self_def Let_def split: if_splits)
    have e': "the_event i ?s' = (the_event i s)\<lparr>ev_set := consumed opt bits ?st\<rparr>"
      by (simp add: consumed_def)
    have w': "ev_waiters i ?s' = ev_waiters i s" by (rule wcong) simp_all
    have "\<not> satisfied bs info (consumed opt bits ?st)" if "(w, bs, info) \<in> set (ev_waiters i s)" for w bs info
      using u that satisfied_mono [OF _ consumed_subset] by blast
    then have "event_inv i ?s'" using u k1 o unfolding event_inv_def w' e' by auto
    with run now w' e' show ?thesis by (simp add: Let_def)
  next
    case poll
    let ?s' = "upd_thread t (\<lambda>th. th\<lparr>th_error := - RT_ETIMEOUT\<rparr>) (upd_thread t (\<lambda>th. th\<lparr>th_error := - RT_EINTR\<rparr>) s)"
    have "kernel_ok (upd_thread t (\<lambda>th. th\<lparr>th_error := - RT_ETIMEOUT\<rparr>) s)" by (rule kernel_ok_upd_same [OF k]) simp
    then have k1: "kernel_ok ?s'" by (simp add: upd_thread_def)
    have w': "ev_waiters i ?s' = ev_waiters i s" by (rule wcong) simp_all
    have "event_recv i bits opt timeout sflag s = Some (Ret (- RT_ETIMEOUT), None, ?s')"
      using poll o b c av vv sat by (simp add: event_recv_def rt_thread_self_def Let_def split: if_splits)
    moreover have "event_inv i ?s'" using u k1 o unfolding event_inv_def w' by simp
    ultimately show ?thesis using poll w' by (simp add: Let_def)
  next
    case wait
    let ?s1 = "upd_thread t (\<lambda>th. th\<lparr>th_event_set := bits, th_event_info := opt\<rparr>)
      (upd_thread t (\<lambda>th. th\<lparr>th_error := - RT_EINTR\<rparr>) s)"
    have k1: "kernel_ok ?s1"
    proof -
      have "kernel_ok (upd_thread t (\<lambda>th. (th\<lparr>th_error := - RT_EINTR\<rparr>)\<lparr>th_event_set := bits, th_event_info := opt\<rparr>) s)"
        by (rule kernel_ok_upd_same [OF k]) (simp add: same_sched_def)
      then show ?thesis by (simp add: upd_thread_def)
    qed
    have t1: "may_block t ?s1" using t by (simp add: may_block_def th_state_def)
    obtain s' where s': "block_on (ev_head i) t (ev_flag (the_event i s)) sflag timeout ?s1 = Some (Blocked, s')"
      "kernel_ok s'" "blocked_on (ev_head i) t (ev_flag (the_event i s)) timeout ?s1 s'"
      using block_on_spec [OF k1 t1 o(2) f _ tm, of "ev_head i"] by auto
    have run: "event_recv i bits opt timeout sflag s = Some (Blocked, None, s')"
      using wait o b c av vv sat s'(1) by (simp add: event_recv_def rt_thread_self_def Let_def split: if_splits)
    have e': "the_event i s' = the_event i s"
      using s'(3) the_event_cong [of s' ?s1] by (simp add: blocked_on_def')
    have th: "th_event_set (ks_thread s' u) = (if u = t then bits else th_event_set (ks_thread s u))"
      "th_event_info (ks_thread s' u) = (if u = t then opt else th_event_info (ks_thread s u))" for u
      using s'(3) by (simp_all add: blocked_on_def')
    have l': "set (ks_list s' (ev_head i)) = insert t (set (ks_list s (ev_head i)))"
      using s'(3) by (simp add: blocked_on_def')
    have w': "set (ev_waiters i s') = insert (t, bits, opt) (set (ev_waiters i s))"
      using nt by (auto simp: ev_waiters_def l' th)
    have "event_inv i s'" unfolding event_inv_def w' e' using u s'(2) o wait v by auto
    moreover have "th_suspended (ks_thread s' t)" using s'(3) by (simp add: blocked_on_def')
    ultimately show ?thesis using run wait w' e' by (simp add: Let_def)
  qed
qed

section \<open>Properties\<close>

text \<open>
  C11: Sending flags serves the waiting threads in queue order: each whose all-of or any-of condition the
  flags then satisfy becomes runnable, its receive returns RT_EOK with exactly the flags it asked
  for that were set, and if it asked so they are consumed before the next thread is looked at;
  the others wait on in the same order; and after the call, as before it, no thread sleeps whose
  condition holds: no wake-up is lost.
\<close>
theorem event_send_serves_queue_in_order:
  assumes "event_inv i s" "bits \<noteq> 0"
  shows "\<exists>s' st' served rest. serve (ev_waiters i s) (ev_set (the_event i s) OR bits) = (st', served, rest) \<and>
    rt_event_send i bits s = Some (RT_EOK, s') \<and> event_inv i s' \<and> ev_set (the_event i s') = st' \<and>
    ev_waiters i s' = rest \<and>
    (\<forall>(t, got) \<in> set served. event_recv_resume t s' = (RT_EOK, Some got) \<and> th_state (ks_thread s' t) \<in> {2, 3})"
  by (rule event_send_spec [OF assms])

text \<open>
  Receiving from an event set returns at once with the flags asked for, consumed if asked, when the
  condition holds; otherwise it returns -RT_ETIMEOUT when told not to wait, or suspends the
  caller with its condition recorded; and it keeps the invariant that no thread sleeps whose
  condition holds.
\<close>
lemma event_recv_returns_or_waits:
  assumes "event_inv i s" "may_block t s" "bits \<noteq> 0" "valid_info opt" "sflag \<noteq> Bad_Suspend_Flag" "timeout_ok timeout"
  shows "\<exists>r got s'. event_recv i bits opt timeout sflag s = Some (r, got, s') \<and> event_inv i s' \<and>
    (let st = ev_set (the_event i s) in
     if satisfied bits opt st
     then r = Ret RT_EOK \<and> got = Some (st AND bits) \<and> ev_set (the_event i s') = consumed opt bits st \<and>
       ev_waiters i s' = ev_waiters i s
     else if timeout = 0
     then r = Ret (- RT_ETIMEOUT) \<and> got = None \<and> ev_set (the_event i s') = st \<and> ev_waiters i s' = ev_waiters i s
     else r = Blocked \<and> got = None \<and> ev_set (the_event i s') = st \<and> th_suspended (ks_thread s' t) \<and>
       set (ev_waiters i s') = insert (t, bits, opt) (set (ev_waiters i s)))"
  by (rule event_recv_spec [OF assms])

lemma sample_event_inv: "event_inv 4 sample_kernel"
  using sample_kernel_kernel_ok
  by (simp add: event_inv_def ev_waiters_def the_event_def sample_kernel_def sample_ipc_def)

lemma sample_event_set: "ev_set (the_event 4 sample_kernel) = 0" "ev_waiters 4 sample_kernel = []"
  by (simp_all add: ev_waiters_def the_event_def sample_kernel_def sample_ipc_def)

lemma sample_event_wait:
  "\<exists>s. event_recv 4 6 5 (- 1) RT_UNINTERRUPTIBLE sample_kernel = Some (Blocked, None, s) \<and> event_inv 4 s \<and>
     ev_set (the_event 4 s) = 0 \<and> set (ev_waiters 4 s) = {(1, 6, 5)}"
  using event_recv_spec [OF sample_event_inv sample_may_block, of 6 5 RT_UNINTERRUPTIBLE "- 1"]
  by (auto simp: sample_event_set valid_info_def satisfied_def timeout_ok_def Let_def)

lemma event_recv_returns_or_waits_witness:
  "\<exists>s. event_recv 4 6 5 (- 1) RT_UNINTERRUPTIBLE sample_kernel = Some (Blocked, None, s) \<and>
     set (ev_waiters 4 s) = {(1, 6, 5)}"
  using event_recv_returns_or_waits [OF sample_event_inv sample_may_block, of 6 5 RT_UNINTERRUPTIBLE "- 1"]
  by (auto simp: sample_event_set valid_info_def satisfied_def timeout_ok_def Let_def)

text \<open>Thread 1 waits for all of flags 6 and is to consume them; sending 7 serves it and leaves flag 1.\<close>

theorem event_send_serves_queue_in_order_witness:
  "\<exists>s s'. event_recv 4 6 5 (- 1) RT_UNINTERRUPTIBLE sample_kernel = Some (Blocked, None, s) \<and>
     rt_event_send 4 7 s = Some (RT_EOK, s') \<and> ev_set (the_event 4 s') = 1 \<and>
     event_recv_resume 1 s' = (RT_EOK, Some 6)"
proof -
  obtain s where s: "event_recv 4 6 5 (- 1) RT_UNINTERRUPTIBLE sample_kernel = Some (Blocked, None, s)"
    "event_inv 4 s" "ev_set (the_event 4 s) = 0" "set (ev_waiters 4 s) = {(1, 6, 5)}"
    using sample_event_wait by blast
  have "distinct (map fst (ev_waiters 4 s))"
    using sched_invD(1) [OF kernel_okD(1)] s(2) by (simp add: ev_waiters_waiting event_inv_def)
  then have "ev_waiters 4 s = [(1, 6, 5)]"
    using s(4) by (cases "ev_waiters 4 s"; cases "tl (ev_waiters 4 s)") (auto simp: insert_eq_iff)
  then have e: "serve (ev_waiters 4 s) (ev_set (the_event 4 s) OR 7) = (1, [(1, 6)], [])"
    by (simp add: s(3) satisfied_def consumed_def)
  from event_send_serves_queue_in_order [OF s(2), of 7] s(1) show ?thesis unfolding e by auto
qed

end
