(* ===== verification/Channel.thy ===== *)
theory Channel
  imports Ipc_Base Fifo
begin

text \<open>
  The contract the mailbox and the message queue share: a bounded queue of messages, a queue of
  threads waiting to receive and one of threads waiting to send. The locale states what a sending and
  a receiving call that do not wait promise; such a channel is a bounded FIFO.
\<close>

type_synonym 'm channel = "'m list \<times> tid list \<times> tid list"

datatype verdict = Done | Refused | Waits

text \<open>Sending and receiving: \<open>enq\<close> puts the caller into the queue it waits in.\<close>

fun abs_send :: "nat \<Rightarrow> bool \<Rightarrow> (tid list \<Rightarrow> tid list) \<Rightarrow> 'm \<Rightarrow> 'm channel \<Rightarrow> verdict \<times> 'm channel" where
  "abs_send cap wait enq m (ms, rs, ss) =
     (if length ms < cap then (Done, ms @ [m], tl rs, ss)
      else if wait then (Waits, ms, rs, enq ss) else (Refused, ms, rs, ss))"

fun abs_recv :: "bool \<Rightarrow> (tid list \<Rightarrow> tid list) \<Rightarrow> 'm channel \<Rightarrow> verdict \<times> 'm option \<times> 'm channel" where
  "abs_recv wait enq (m # ms, rs, ss) = (Done, Some m, ms, rs, tl ss)"
| "abs_recv wait enq ([], rs, ss) =
     (if wait then (Waits, None, [], enq rs, ss) else (Refused, None, [], rs, ss))"

text \<open>
  What a call does to the threads: a completed one leaves the first of the waiting threads \<open>ws\<close> runnable, with RT_EOK
  as what its wait ended with; one that waits leaves the caller \<open>t\<close> suspended, its timer set when there is a timeout.
\<close>

definition wakes_head :: "tid list \<Rightarrow> kstate \<Rightarrow> bool" where
  "wakes_head ws s' \<longleftrightarrow> (\<forall>w \<in> set (take 1 ws). th_error (ks_thread s' w) = RT_EOK \<and> th_state (ks_thread s' w) \<in> {2, 3})"

definition left_waiting :: "tid \<Rightarrow> int \<Rightarrow> kstate \<Rightarrow> kstate \<Rightarrow> bool" where
  "left_waiting t timeout s s' \<longleftrightarrow> th_suspended (ks_thread s' t) \<and> th_error (ks_thread s' t) = - RT_EINTR \<and>
     tm_activated (ck_timer (ks_clk s') (Thread_Timer t)) = (0 < timeout) \<and>
     (0 < timeout \<longrightarrow> tm_timeout_tick (ck_timer (ks_clk s') (Thread_Timer t)) = ck_tick (ks_clk s) + word_of_int timeout)"

lemma wakes_headI: "\<forall>w ws'. ws = w # ws' \<longrightarrow> th_error (ks_thread s' w) = RT_EOK \<and> th_state (ks_thread s' w) \<in> {2, 3} \<Longrightarrow> wakes_head ws s'"
  by (cases ws) (auto simp: wakes_head_def)

text \<open>
  The outcome \<open>r\<close> of a send of \<open>m\<close> by thread \<open>t\<close>, and of a receive: from the channel \<open>a\<close> in state \<open>s\<close> to \<open>a'\<close> in \<open>s'\<close>.
\<close>

definition send_result ::
  "nat \<Rightarrow> int \<Rightarrow> (tid list \<Rightarrow> tid list) \<Rightarrow> tid \<Rightarrow> 'm \<Rightarrow> 'm channel \<Rightarrow> kstate \<Rightarrow> outcome \<Rightarrow> 'm channel \<Rightarrow> kstate \<Rightarrow> bool" where
  "send_result cap timeout enq t m a s r a' s' \<longleftrightarrow>
     (case abs_send cap (timeout \<noteq> 0) enq m a of
        (Done, b) \<Rightarrow> r = Ret RT_EOK \<and> a' = b \<and> wakes_head (fst (snd a)) s'
      | (Refused, b) \<Rightarrow> r = Ret (- RT_EFULL) \<and> a' = b
      | (Waits, b) \<Rightarrow> r = Blocked \<and> a' = b \<and> left_waiting t timeout s s')"

definition recv_result ::
  "int \<Rightarrow> (tid list \<Rightarrow> tid list) \<Rightarrow> tid \<Rightarrow> 'm channel \<Rightarrow> kstate \<Rightarrow> outcome \<Rightarrow> 'm option \<Rightarrow> 'm channel \<Rightarrow> kstate \<Rightarrow> bool" where
  "recv_result timeout enq t a s r m a' s' \<longleftrightarrow>
     (case abs_recv (timeout \<noteq> 0) enq a of
        (Done, m', b) \<Rightarrow> r = Ret RT_EOK \<and> m = m' \<and> a' = b \<and> wakes_head (snd (snd a)) s'
      | (Refused, m', b) \<Rightarrow> r = Ret (- RT_ETIMEOUT) \<and> m = m' \<and> a' = b
      | (Waits, m', b) \<Rightarrow> r = Blocked \<and> m = m' \<and> a' = b \<and> left_waiting t timeout s s')"

lemmas result_defs = send_result_def recv_result_def left_waiting_def

text \<open>The calls as partial operations: \<open>None\<close> when they do not return RT_EOK.\<close>

definition accepted :: "('m \<Rightarrow> 's \<Rightarrow> (outcome \<times> 's) option) \<Rightarrow> 'm \<Rightarrow> 's \<Rightarrow> 's option" where
  "accepted tsend m s = (case tsend m s of Some (Ret e, s') \<Rightarrow> if e = RT_EOK then Some s' else None | _ \<Rightarrow> None)"

definition delivered :: "('s \<Rightarrow> (outcome \<times> 'm option \<times> 's) option) \<Rightarrow> 's \<Rightarrow> ('m \<times> 's) option" where
  "delivered trecv s =
     (case trecv s of Some (Ret e, Some m, s') \<Rightarrow> if e = RT_EOK then Some (m, s') else None | _ \<Rightarrow> None)"

locale channel =
  fixes valid :: "'m \<Rightarrow> bool"
    and inv :: "'s \<Rightarrow> bool"
    and cap :: "'s \<Rightarrow> nat"
    and abs :: "'s \<Rightarrow> 'm channel"
    and try_send :: "'m \<Rightarrow> 's \<Rightarrow> (outcome \<times> 's) option"
    and try_recv :: "'s \<Rightarrow> (outcome \<times> 'm option \<times> 's) option"
  assumes bound: "inv s \<Longrightarrow> length (fst (abs s)) \<le> cap s"
    and send_room: "inv s \<Longrightarrow> valid m \<Longrightarrow> length (fst (abs s)) < cap s \<Longrightarrow>
      \<exists>s'. try_send m s = Some (Ret RT_EOK, s') \<and> inv s' \<and> cap s' = cap s \<and>
        abs s' = snd (abs_send (cap s) False id m (abs s))"
    and send_full: "inv s \<Longrightarrow> valid m \<Longrightarrow> length (fst (abs s)) = cap s \<Longrightarrow>
      \<exists>e. e \<noteq> RT_EOK \<and> try_send m s = Some (Ret e, s)"
    and recv_some: "inv s \<Longrightarrow> fst (abs s) \<noteq> [] \<Longrightarrow>
      \<exists>s'. try_recv s = Some (Ret RT_EOK, Some (hd (fst (abs s))), s') \<and> inv s' \<and> cap s' = cap s \<and>
        abs s' = snd (snd (abs_recv False id (abs s)))"
    and recv_empty: "inv s \<Longrightarrow> fst (abs s) = [] \<Longrightarrow> \<exists>e. e \<noteq> RT_EOK \<and> try_recv s = Some (Ret e, None, s)"

sublocale channel \<subseteq> bounded_fifo valid inv cap "\<lambda>s. fst (abs s)" "accepted try_send" "delivered try_recv"
proof
  fix s
  assume s: "inv s"
  show "length (fst (abs s)) \<le> cap s" by (rule bound [OF s])
  show "accepted try_send x s = None" if "valid x" "length (fst (abs s)) = cap s" for x
    using send_full [OF s that] by (auto simp: accepted_def)
  show "\<exists>s'. accepted try_send x s = Some s' \<and> inv s' \<and> cap s' = cap s \<and> fst (abs s') = fst (abs s) @ [x]"
    if "valid x" "length (fst (abs s)) < cap s" for x
  proof -
    obtain ms rs ss where a: "abs s = (ms, rs, ss)" by (metis prod_cases3)
    with send_room [OF s that] that show ?thesis by (auto simp: accepted_def)
  qed
  show "delivered try_recv s = None" if "fst (abs s) = []"
    using recv_empty [OF s that] by (auto simp: delivered_def)
  show "\<exists>s'. delivered try_recv s = Some (x, s') \<and> inv s' \<and> cap s' = cap s \<and> fst (abs s') = xs"
    if "fst (abs s) = x # xs" for x xs
  proof -
    have "abs s = (x # xs, snd (abs s))" using that by (metis prod.collapse)
    then obtain rs ss where a: "abs s = (x # xs, rs, ss)" by (metis prod.collapse)
    with recv_some [OF s] show ?thesis by (auto simp: delivered_def)
  qed
qed

text \<open>A waiting receiver is woken by each message sent, and a waiting sender by each one received.\<close>

context channel
begin

lemma send_wakes:
  assumes "inv s" "valid m" "length (fst (abs s)) < cap s" "fst (snd (abs s)) = w # ws"
  shows "\<exists>s'. try_send m s = Some (Ret RT_EOK, s') \<and> fst (snd (abs s')) = ws"
proof -
  obtain ms rs ss where a: "abs s = (ms, rs, ss)" by (metis prod_cases3)
  with send_room [OF assms(1-3)] assms(3,4) show ?thesis by auto
qed

lemma recv_wakes:
  assumes "inv s" "fst (abs s) \<noteq> []" "snd (snd (abs s)) = w # ws"
  shows "\<exists>s'. try_recv s = Some (Ret RT_EOK, Some (hd (fst (abs s))), s') \<and> snd (snd (abs s')) = ws"
proof -
  obtain m ms rs where a: "abs s = (m # ms, rs, w # ws)"
    using assms(2,3) by (cases "abs s"; cases "fst (abs s)") auto
  with recv_some [OF assms(1,2)] show ?thesis by auto
qed

end

end
