(* ===== verification/Mailbox.thy ===== *)
theory Mailbox
  imports Channel
begin

text \<open>
  Mailboxes, the \<open>RT_USING_MAILBOX\<close> part of \<open>src/ipc.c\<close>: a ring of one-word mails with a queue of
  receivers waiting for mail and a queue of senders waiting for room. The sending and receiving
  calls loop: a woken thread looks again and may wait again for what is left of its time.
\<close>

section \<open>Operations\<close>

definition RT_MB_ENTRY_MAX :: u16 where "RT_MB_ENTRY_MAX = 0xffff"

abbreviation mb_head :: "nat \<Rightarrow> lhead" where "mb_head i \<equiv> Suspend (Mailbox i)"
abbreviation mb_sender_head :: "nat \<Rightarrow> lhead" where "mb_sender_head i \<equiv> Suspend_Sender (Mailbox i)"

definition the_mb :: "nat \<Rightarrow> kstate \<Rightarrow> rt_mailbox" where
  "the_mb i s = ipc_mailbox (ks_ipc s) i"

definition upd_mb :: "nat \<Rightarrow> (rt_mailbox \<Rightarrow> rt_mailbox) \<Rightarrow> kstate \<Rightarrow> kstate" where
  "upd_mb i f = upd_ipc (\<lambda>x. x\<lparr>ipc_mailbox := (ipc_mailbox x)(i := f (ipc_mailbox x i))\<rparr>)"

text \<open>The pool is the memory behind \<open>msgpool\<close>; its length is the caller's promise, not checked.\<close>

definition rt_mb_init :: "nat \<Rightarrow> u32 list \<Rightarrow> u32 \<Rightarrow> ipc_flag \<Rightarrow> kstate \<Rightarrow> (int \<times> kstate) option" where
  "rt_mb_init i msgpool sz flag s = do {
     rt_assert (flag \<noteq> Bad_Flag);
     rt_assert (mb_object (the_mb i s) = Obj_Null);
     let s = upd_mb i (\<lambda>x. x\<lparr>mb_object := Obj_Static\<rparr>) s;
     let s = upd_mb i (\<lambda>x. x\<lparr>mb_flag := flag\<rparr>) s;
     let s = list_set (mb_head i) [] s;
     let s = upd_mb i (\<lambda>x. x\<lparr>mb_msg_pool := msgpool, mb_size := ucast sz, mb_entry := 0,
                             mb_in_offset := 0, mb_out_offset := 0\<rparr>) s;
     Some (RT_EOK, list_set (mb_sender_head i) [] s)
   }"

definition rt_mb_detach :: "nat \<Rightarrow> kstate \<Rightarrow> (int \<times> kstate) option" where
  "rt_mb_detach i s = do {
     rt_assert (mb_object (the_mb i s) \<noteq> Obj_Null);
     rt_assert (mb_object (the_mb i s) = Obj_Static);
     s \<leftarrow> ipc_list_resume_all (mb_head i) s;
     s \<leftarrow> ipc_list_resume_all (mb_sender_head i) s;
     Some (RT_EOK, upd_mb i (\<lambda>x. x\<lparr>mb_object := Obj_Null\<rparr>) s)
   }"

text \<open>
  \<open>rt_mb_create\<close>: \<open>i\<close> is the control block the object allocator gave, \<open>None\<close> for its failure; \<open>pool\<close>
  the memory the heap gave for the mails, \<open>None\<close> for its failure, and then the object is deleted.
\<close>

definition rt_mb_create ::
  "nat option \<Rightarrow> (nat \<Rightarrow> u32 list option) \<Rightarrow> u32 \<Rightarrow> ipc_flag \<Rightarrow> kstate \<Rightarrow> (nat option \<times> kstate) option" where
  "rt_mb_create obj alloc sz flag s = do {
     rt_assert (flag \<noteq> Bad_Flag);
     rt_assert (ks_irq_nest s = 0);
     (case obj of
        None \<Rightarrow> Some (None, s)
      | Some i \<Rightarrow>
          let s = upd_mb i (\<lambda>x. x\<lparr>mb_object := Obj_Dynamic\<rparr>) s;
              s = upd_mb i (\<lambda>x. x\<lparr>mb_flag := flag\<rparr>) s;
              s = list_set (mb_head i) [] s;
              s = upd_mb i (\<lambda>x. x\<lparr>mb_size := ucast sz\<rparr>) s
          in (case alloc (4 * unat (mb_size (the_mb i s))) of
                None \<Rightarrow> Some (None, upd_mb i (\<lambda>x. x\<lparr>mb_object := Obj_Null\<rparr>) s)
              | Some pool \<Rightarrow>
                  let s = upd_mb i (\<lambda>x. x\<lparr>mb_msg_pool := pool\<rparr>) s;
                      s = upd_mb i (\<lambda>x. x\<lparr>mb_entry := 0, mb_in_offset := 0, mb_out_offset := 0\<rparr>) s
                  in Some (Some i, list_set (mb_sender_head i) [] s)))
   }"

definition rt_mb_delete :: "nat \<Rightarrow> kstate \<Rightarrow> (int \<times> kstate) option" where
  "rt_mb_delete i s = do {
     rt_assert (mb_object (the_mb i s) \<noteq> Obj_Null);
     rt_assert (mb_object (the_mb i s) \<noteq> Obj_Static);
     rt_assert (ks_irq_nest s = 0);
     s \<leftarrow> ipc_list_resume_all (mb_head i) s;
     s \<leftarrow> ipc_list_resume_all (mb_sender_head i) s;
     let s = upd_mb i (\<lambda>x. x\<lparr>mb_msg_pool := []\<rparr>) s;
     Some (RT_EOK, upd_mb i (\<lambda>x. x\<lparr>mb_object := Obj_Null\<rparr>) s)
   }"

text \<open>The ring: a write or read outside the pool is \<open>None\<close>.\<close>

definition mb_put :: "u32 \<Rightarrow> rt_mailbox \<Rightarrow> (int \<times> rt_mailbox) option" where
  "mb_put value mb = do {
     rt_assert (unat (mb_in_offset mb) < length (mb_msg_pool mb));
     let mb = mb\<lparr>mb_msg_pool := (mb_msg_pool mb)[unat (mb_in_offset mb) := value]\<rparr>;
     let mb = mb\<lparr>mb_in_offset := mb_in_offset mb + 1\<rparr>;
     let mb = (if mb_size mb \<le> mb_in_offset mb then mb\<lparr>mb_in_offset := 0\<rparr> else mb);
     if mb_entry mb < RT_MB_ENTRY_MAX
     then Some (RT_EOK, mb\<lparr>mb_entry := mb_entry mb + 1\<rparr>)
     else Some (- RT_EFULL, mb)
   }"

definition mb_get :: "rt_mailbox \<Rightarrow> (u32 \<times> rt_mailbox) option" where
  "mb_get mb = do {
     rt_assert (unat (mb_out_offset mb) < length (mb_msg_pool mb));
     let value = mb_msg_pool mb ! unat (mb_out_offset mb);
     let mb = mb\<lparr>mb_out_offset := mb_out_offset mb + 1\<rparr>;
     let mb = (if mb_size mb \<le> mb_out_offset mb then mb\<lparr>mb_out_offset := 0\<rparr> else mb);
     let mb = (if 0 < mb_entry mb then mb\<lparr>mb_entry := mb_entry mb - 1\<rparr> else mb);
     Some (value, mb)
   }"

definition mb_put_front :: "u32 \<Rightarrow> rt_mailbox \<Rightarrow> rt_mailbox option" where
  "mb_put_front value mb = do {
     let mb = (if 0 < mb_out_offset mb then mb\<lparr>mb_out_offset := mb_out_offset mb - 1\<rparr>
               else mb\<lparr>mb_out_offset := mb_size mb - 1\<rparr>);
     rt_assert (unat (mb_out_offset mb) < length (mb_msg_pool mb));
     let mb = mb\<lparr>mb_msg_pool := (mb_msg_pool mb)[unat (mb_out_offset mb) := value]\<rparr>;
     Some (mb\<lparr>mb_entry := mb_entry mb + 1\<rparr>)
   }"

text \<open>
  The loop of \<open>_rt_mb_send_wait\<close>, from its head up to the wait or to the end. When it waits, the
  loop goes on in \<open>mb_send_resume\<close> after the thread is dispatched again: \<open>start\<close> is the tick at
  which the wait began.
\<close>

definition mb_send_loop ::
  "nat \<Rightarrow> u32 \<Rightarrow> int \<Rightarrow> suspend_flag \<Rightarrow> kstate \<Rightarrow> (outcome \<times> kstate) option" where
  "mb_send_loop i value timeout sflag s =
     (if mb_entry (the_mb i s) = mb_size (the_mb i s) then do {
        t \<leftarrow> rt_thread_self s;
        let s = upd_thread t (\<lambda>th. th\<lparr>th_error := - RT_EINTR\<rparr>) s;
        if timeout = 0 then Some (Ret (- RT_EFULL), s)
        else block_on (mb_sender_head i) t (mb_flag (the_mb i s)) sflag timeout s
      }
      else do {
        (ret, mb) \<leftarrow> mb_put value (the_mb i s);
        let s = upd_mb i (\<lambda>_. mb) s;
        if ret \<noteq> RT_EOK then Some (Ret ret, s)
        else do {
          (ret, s) \<leftarrow> ipc_wake_one (mb_head i) s;
          Some (Ret ret, s)
        }
      })"

definition mb_send_wait ::
  "nat \<Rightarrow> u32 \<Rightarrow> int \<Rightarrow> suspend_flag \<Rightarrow> kstate \<Rightarrow> (outcome \<times> kstate) option" where
  "mb_send_wait i value timeout sflag s = do {
     rt_assert (mb_object (the_mb i s) \<noteq> Obj_Null);
     (if timeout \<noteq> 0 then scheduler_available s else Some ());
     if mb_entry (the_mb i s) = mb_size (the_mb i s) \<and> timeout = 0 then Some (Ret (- RT_EFULL), s)
     else mb_send_loop i value timeout sflag s
   }"

definition mb_send_resume ::
  "nat \<Rightarrow> u32 \<Rightarrow> int \<Rightarrow> u32 \<Rightarrow> suspend_flag \<Rightarrow> kstate \<Rightarrow> (outcome \<times> kstate) option" where
  "mb_send_resume i value timeout start sflag s = do {
     t \<leftarrow> rt_thread_self s;
     if th_error (ks_thread s t) \<noteq> RT_EOK then Some (Ret (th_error (ks_thread s t)), s)
     else mb_send_loop i value (remaining_time timeout start (ck_tick (ks_clk s))) sflag s
   }"

definition rt_mb_send_wait where
  "rt_mb_send_wait i value timeout = mb_send_wait i value timeout RT_UNINTERRUPTIBLE"

definition rt_mb_send_wait_interruptible where
  "rt_mb_send_wait_interruptible i value timeout = mb_send_wait i value timeout RT_INTERRUPTIBLE"

definition rt_mb_send_wait_killable where
  "rt_mb_send_wait_killable i value timeout = mb_send_wait i value timeout RT_KILLABLE"

definition rt_mb_send where "rt_mb_send i value = rt_mb_send_wait i value 0"

definition rt_mb_send_interruptible where
  "rt_mb_send_interruptible i value = rt_mb_send_wait_interruptible i value 0"

definition rt_mb_send_killable where
  "rt_mb_send_killable i value = rt_mb_send_wait_killable i value 0"

definition rt_mb_urgent :: "nat \<Rightarrow> u32 \<Rightarrow> kstate \<Rightarrow> (int \<times> kstate) option" where
  "rt_mb_urgent i value s = do {
     rt_assert (mb_object (the_mb i s) \<noteq> Obj_Null);
     if mb_entry (the_mb i s) = mb_size (the_mb i s) then Some (- RT_EFULL, s)
     else do {
       mb \<leftarrow> mb_put_front value (the_mb i s);
       ipc_wake_one (mb_head i) (upd_mb i (\<lambda>_. mb) s)
     }
   }"

text \<open>The same for receiving; the second component is what is stored through \<open>value\<close>.\<close>

definition mb_recv_loop ::
  "nat \<Rightarrow> int \<Rightarrow> suspend_flag \<Rightarrow> kstate \<Rightarrow> (outcome \<times> u32 option \<times> kstate) option" where
  "mb_recv_loop i timeout sflag s =
     (if mb_entry (the_mb i s) = 0 then do {
        t \<leftarrow> rt_thread_self s;
        let s = upd_thread t (\<lambda>th. th\<lparr>th_error := - RT_EINTR\<rparr>) s;
        if timeout = 0
        then Some (Ret (- RT_ETIMEOUT), None, upd_thread t (\<lambda>th. th\<lparr>th_error := - RT_ETIMEOUT\<rparr>) s)
        else do {
          (r, s) \<leftarrow> block_on (mb_head i) t (mb_flag (the_mb i s)) sflag timeout s;
          Some (r, None, s)
        }
      }
      else do {
        (value, mb) \<leftarrow> mb_get (the_mb i s);
        (ret, s) \<leftarrow> ipc_wake_one (mb_sender_head i) (upd_mb i (\<lambda>_. mb) s);
        Some (Ret ret, Some value, s)
      })"

definition mb_recv ::
  "nat \<Rightarrow> int \<Rightarrow> suspend_flag \<Rightarrow> kstate \<Rightarrow> (outcome \<times> u32 option \<times> kstate) option" where
  "mb_recv i timeout sflag s = do {
     rt_assert (mb_object (the_mb i s) \<noteq> Obj_Null);
     (if timeout \<noteq> 0 then scheduler_available s else Some ());
     if mb_entry (the_mb i s) = 0 \<and> timeout = 0 then Some (Ret (- RT_ETIMEOUT), None, s)
     else mb_recv_loop i timeout sflag s
   }"

definition mb_recv_resume ::
  "nat \<Rightarrow> int \<Rightarrow> u32 \<Rightarrow> suspend_flag \<Rightarrow> kstate \<Rightarrow> (outcome \<times> u32 option \<times> kstate) option" where
  "mb_recv_resume i timeout start sflag s = do {
     t \<leftarrow> rt_thread_self s;
     if th_error (ks_thread s t) \<noteq> RT_EOK then Some (Ret (th_error (ks_thread s t)), None, s)
     else mb_recv_loop i (remaining_time timeout start (ck_tick (ks_clk s))) sflag s
   }"

definition rt_mb_recv where
  "rt_mb_recv i timeout = mb_recv i timeout RT_UNINTERRUPTIBLE"

definition rt_mb_recv_interruptibale where
  "rt_mb_recv_interruptibale i timeout = mb_recv i timeout RT_INTERRUPTIBLE"

definition rt_mb_recv_killable where
  "rt_mb_recv_killable i timeout = mb_recv i timeout RT_KILLABLE"

text \<open>\<open>rt_mb_control\<close>: \<open>True\<close> is \<open>RT_IPC_CMD_RESET\<close>.\<close>

definition rt_mb_control :: "nat \<Rightarrow> bool \<Rightarrow> kstate \<Rightarrow> (int \<times> kstate) option" where
  "rt_mb_control i reset s = do {
     rt_assert (mb_object (the_mb i s) \<noteq> Obj_Null);
     if reset then do {
       s \<leftarrow> ipc_list_resume_all (mb_head i) s;
       s \<leftarrow> ipc_list_resume_all (mb_sender_head i) s;
       let s = upd_mb i (\<lambda>x. x\<lparr>mb_entry := 0, mb_in_offset := 0, mb_out_offset := 0\<rparr>) s;
       s \<leftarrow> rt_schedule s;
       Some (RT_EOK, s)
     }
     else Some (- RT_ERROR, s)
   }"

section \<open>The ring\<close>

text \<open>The ring is well formed, and what is in it, oldest mail first.\<close>

definition mb_ok :: "rt_mailbox \<Rightarrow> bool" where
  "mb_ok mb \<longleftrightarrow> mb_object mb \<noteq> Obj_Null \<and> mb_flag mb \<noteq> Bad_Flag \<and>
     unat (mb_size mb) \<le> length (mb_msg_pool mb) \<and> mb_entry mb \<le> mb_size mb \<and>
     unat (mb_out_offset mb) < max 1 (unat (mb_size mb)) \<and>
     unat (mb_in_offset mb) = (unat (mb_out_offset mb) + unat (mb_entry mb)) mod unat (mb_size mb)"

definition mb_data :: "rt_mailbox \<Rightarrow> u32 list" where
  "mb_data mb = map (\<lambda>k. mb_msg_pool mb ! ((unat (mb_out_offset mb) + k) mod unat (mb_size mb))) [0..<unat (mb_entry mb)]"

text \<open>The new value of a ring offset after one step forward.\<close>

lemma ring_next:
  assumes "a < b"
  shows "unat (if b \<le> a + 1 then 0 else a + 1 :: u16) = (unat a + 1) mod unat b"
proof -
  have a: "unat a < unat b" using assms by (simp add: word_less_nat_alt)
  have b: "unat b < 65536" by simp
  have "Suc (unat a) < 65536" using a b by linarith
  then have "unat (a + 1) = unat a + 1" by (simp add: unat_word_ariths)
  then show ?thesis using a by (auto simp: word_le_nat_alt mod_Suc)
qed

lemma length_mb_data [simp]: "length (mb_data mb) = unat (mb_entry mb)"
  by (simp add: mb_data_def)

lemma mb_okD:
  assumes "mb_ok mb"
  shows "unat (mb_entry mb) \<le> unat (mb_size mb)" "unat (mb_size mb) < 65536"
    "mb_entry mb \<noteq> mb_size mb \<Longrightarrow> unat (mb_entry mb) < unat (mb_size mb)"
    "0 < unat (mb_size mb) \<Longrightarrow> unat (mb_in_offset mb) < unat (mb_size mb)"
    "0 < unat (mb_size mb) \<Longrightarrow> unat (mb_out_offset mb) < unat (mb_size mb)"
  using assms unat_u16 [of "mb_size mb"]
  by (auto simp: mb_ok_def word_le_nat_alt unsigned_word_eqI intro: le_neq_implies_less)

lemma mb_put_spec:
  assumes ok: "mb_ok mb" and room: "mb_entry mb \<noteq> mb_size mb"
  shows "\<exists>mb'. mb_put v mb = Some (RT_EOK, mb') \<and> mb_ok mb' \<and> mb_data mb' = mb_data mb @ [v] \<and>
    mb_size mb' = mb_size mb \<and> mb_flag mb' = mb_flag mb \<and> mb_object mb' = mb_object mb"
proof -
  let ?n = "unat (mb_size mb)" and ?o = "unat (mb_out_offset mb)" and ?e = "unat (mb_entry mb)" and ?i = "unat (mb_in_offset mb)"
  note d = mb_okD [OF ok]
  have n: "?e < ?n" "0 < ?n" "?n \<le> length (mb_msg_pool mb)" using d(3) [OF room] ok by (auto simp: mb_ok_def)
  have i: "?i < ?n" "?i = (?o + ?e) mod ?n" "?o < ?n" using d(4,5) n ok by (auto simp: mb_ok_def)
  have il: "mb_in_offset mb < mb_size mb" using i by (simp add: word_less_nat_alt)
  have "Suc ?e < 65536" using n d(2) by linarith
  then have ee: "unat (mb_entry mb + 1) = ?e + 1" by (simp add: unat_word_ariths)
  have mx: "mb_entry mb < 0xffff" using \<open>Suc ?e < 65536\<close> by (simp add: word_less_nat_alt)
  define mb' where "mb' = mb\<lparr>mb_msg_pool := (mb_msg_pool mb)[?i := v],
    mb_in_offset := (if mb_size mb \<le> mb_in_offset mb + 1 then 0 else mb_in_offset mb + 1), mb_entry := mb_entry mb + 1\<rparr>"
  have "mb_put v mb = Some (RT_EOK, mb')"
    using i(1) n mx by (simp add: mb_put_def RT_MB_ENTRY_MAX_def mb'_def Let_def)
  moreover have "mb_ok mb'"
    using ok n i ee ring_next [OF il] by (simp add: mb_ok_def mb'_def word_le_nat_alt mod_simps add.assoc)
  moreover have "mb_data mb' = mb_data mb @ [v]"
  proof -
    have "?i \<noteq> (?o + k) mod ?n" if "k < ?e" for k
      using that n i ring_slots_differ [of k ?e ?n ?o] by metis
    then have "map (\<lambda>k. (mb_msg_pool mb)[?i := v] ! ((?o + k) mod ?n)) [0..<?e] = mb_data mb"
      by (simp add: mb_data_def)
    moreover have "(mb_msg_pool mb)[?i := v] ! ((?o + ?e) mod ?n) = v"
      unfolding i(2) [symmetric] using i(1) n by simp
    ultimately show ?thesis by (simp add: mb_data_def mb'_def ee)
  qed
  ultimately show ?thesis by (intro exI [of _ mb']) (simp add: mb'_def)
qed

lemma mb_get_spec:
  assumes ok: "mb_ok mb" and l: "mb_entry mb \<noteq> 0"
  shows "\<exists>v mb'. mb_get mb = Some (v, mb') \<and> mb_ok mb' \<and> mb_data mb = v # mb_data mb' \<and>
    mb_size mb' = mb_size mb \<and> mb_flag mb' = mb_flag mb \<and> mb_object mb' = mb_object mb"
proof -
  let ?n = "unat (mb_size mb)" and ?o = "unat (mb_out_offset mb)" and ?e = "unat (mb_entry mb)"
  note d = mb_okD [OF ok]
  have e: "0 < ?e" using l by (simp add: unat_gt_0)
  have n: "?e \<le> ?n" "0 < ?n" "?n \<le> length (mb_msg_pool mb)" "?o < ?n" using d e ok by (auto simp: mb_ok_def)
  have ol: "mb_out_offset mb < mb_size mb" using n by (simp add: word_less_nat_alt)
  have ee: "unat (mb_entry mb - 1) = ?e - 1" using e by (intro unat_minus_one) auto
  define o' where "o' = (if mb_size mb \<le> mb_out_offset mb + 1 then 0 else mb_out_offset mb + 1)"
  have o': "unat o' = (?o + 1) mod ?n" unfolding o'_def by (rule ring_next [OF ol])
  have "(unat o' + (?e - 1)) mod ?n = (?o + 1 + (?e - 1)) mod ?n" unfolding o' by (rule mod_add_left_eq)
  also have "?o + 1 + (?e - 1) = ?o + ?e" using e by simp
  finally have sum: "(unat o' + (?e - 1)) mod ?n = (?o + ?e) mod ?n" .
  have lt: "unat o' < ?n" using n unfolding o' by simp
  define mb' where "mb' = mb\<lparr>mb_out_offset := o', mb_entry := mb_entry mb - 1\<rparr>"
  have "mb_get mb = Some (mb_msg_pool mb ! ?o, mb')"
    using n l by (simp add: mb_get_def mb'_def o'_def Let_def word_neq_0_conv)
  moreover have "mb_ok mb'"
    using ok n lt sum by (simp add: mb_ok_def mb'_def word_le_nat_alt ee)
  moreover have "mb_data mb = mb_msg_pool mb ! ?o # mb_data mb'"
  proof -
    have "[0..<?e] = 0 # map Suc [0..<?e - 1]" using e by (simp add: map_Suc_upt upt_conv_Cons)
    then show ?thesis using n by (simp add: mb_data_def mb'_def ee o' mod_simps comp_def)
  qed
  ultimately show ?thesis by (intro exI [of _ "mb_msg_pool mb ! ?o"] exI [of _ mb']) (simp add: mb'_def)
qed

lemma mb_put_front_spec:
  assumes ok: "mb_ok mb" and room: "mb_entry mb \<noteq> mb_size mb"
  shows "\<exists>mb'. mb_put_front v mb = Some mb' \<and> mb_ok mb' \<and> mb_data mb' = v # mb_data mb \<and>
    mb_size mb' = mb_size mb \<and> mb_flag mb' = mb_flag mb \<and> mb_object mb' = mb_object mb"
proof -
  let ?n = "unat (mb_size mb)" and ?o = "unat (mb_out_offset mb)" and ?e = "unat (mb_entry mb)"
  note d = mb_okD [OF ok]
  have n: "?e < ?n" "0 < ?n" "?n \<le> length (mb_msg_pool mb)" "?o < ?n" using d ok room by (auto simp: mb_ok_def)
  define o' where "o' = (if 0 < mb_out_offset mb then mb_out_offset mb - 1 else mb_size mb - 1)"
  have "unat (mb_size mb - 1) = ?n - 1" "0 < mb_out_offset mb \<Longrightarrow> unat (mb_out_offset mb - 1) = ?o - 1"
    using n by (simp_all add: unat_minus_one unat_gt_0 [symmetric] word_neq_0_conv [symmetric] del: unat_gt_0)
  then have o': "unat o' < ?n" "(unat o' + 1) mod ?n = ?o"
    using n by (auto simp: o'_def word_neq_0_conv not_less word_le_nat_alt word_less_nat_alt)
  have "Suc ?e < 65536" using n d(2) by linarith
  then have ee: "unat (mb_entry mb + 1) = ?e + 1" by (simp add: unat_word_ariths)
  define mb' where "mb' = mb\<lparr>mb_out_offset := o', mb_msg_pool := (mb_msg_pool mb)[unat o' := v], mb_entry := mb_entry mb + 1\<rparr>"
  have shift: "(unat o' + Suc k) mod ?n = (?o + k) mod ?n" for k
    using o'(2) mod_add_left_eq [of "unat o' + 1" ?n k] by simp
  have "unat o' < length (mb_msg_pool mb)" using o'(1) n by simp
  moreover have "(if 0 < mb_out_offset mb then mb\<lparr>mb_out_offset := mb_out_offset mb - 1\<rparr>
      else mb\<lparr>mb_out_offset := mb_size mb - 1\<rparr>) = mb\<lparr>mb_out_offset := o'\<rparr>" by (simp add: o'_def)
  ultimately have "mb_put_front v mb = Some mb'"
    unfolding mb_put_front_def mb'_def Let_def by simp
  moreover have "mb_ok mb'"
    using ok n o' ee shift by (simp add: mb_ok_def mb'_def word_le_nat_alt)
  moreover have "mb_data mb' = v # mb_data mb"
  proof -
    have e: "[0..<Suc ?e] = 0 # map Suc [0..<?e]" by (simp add: map_Suc_upt upt_conv_Cons del: upt_Suc)
    have "unat o' \<noteq> (?o + k) mod ?n" if "k < ?e" for k
      using ring_slots_differ [of 0 "Suc k" ?n "unat o'"] that n o'(1) shift [of k] by simp
    then show ?thesis using n o'(1) shift by (simp add: mb_data_def mb'_def ee e comp_def del: upt_Suc)
  qed
  ultimately show ?thesis by (intro exI [of _ mb']) (simp add: mb'_def)
qed

section \<open>Mailboxes are channels\<close>

definition mb_inv :: "nat \<Rightarrow> kstate \<Rightarrow> bool" where
  "mb_inv i s \<longleftrightarrow> kernel_ok s \<and> mb_ok (the_mb i s)"

definition mb_cap :: "nat \<Rightarrow> kstate \<Rightarrow> nat" where
  "mb_cap i s = unat (mb_size (the_mb i s))"

text \<open>Thread \<open>t\<close> put into a queue of the mailbox, by the policy of the mailbox.\<close>

abbreviation mb_enq :: "nat \<Rightarrow> tid \<Rightarrow> kstate \<Rightarrow> tid list \<Rightarrow> tid list" where
  "mb_enq i t s \<equiv> enqueued (mb_flag (the_mb i s)) (\<lambda>u. th_current_priority (ks_thread s u)) t"

definition mb_abs :: "nat \<Rightarrow> kstate \<Rightarrow> u32 channel" where
  "mb_abs i s = (mb_data (the_mb i s), ks_list s (mb_head i), ks_list s (mb_sender_head i))"

lemma the_mb_simps [simp]:
  "the_mb i (upd_mb i f s) = f (the_mb i s)"
  "ks_list (upd_mb i f s) = ks_list s" "ks_thread (upd_mb i f s) = ks_thread s"
  "ks_current (upd_mb i f s) = ks_current s" "ks_clk (upd_mb i f s) = ks_clk s"
  "kernel_ok (upd_mb i f s) = kernel_ok s"
  "the_mb i (upd_thread t g s) = the_mb i s"
  by (simp_all add: the_mb_def upd_mb_def)

lemma the_mb_cong: "ks_ipc s' = ks_ipc s \<Longrightarrow> the_mb i s' = the_mb i s"
  by (simp add: the_mb_def)

lemma mb_full: "mb_inv i s \<Longrightarrow> length (fst (mb_abs i s)) < mb_cap i s \<longleftrightarrow> mb_entry (the_mb i s) \<noteq> mb_size (the_mb i s)"
  using mb_okD(1) [of "the_mb i s"] by (auto simp: mb_inv_def mb_abs_def mb_cap_def le_less unsigned_word_eqI)

text \<open>
  One pass of the sending loop by thread \<open>t\<close>. \<open>t\<close> matters only if the call may wait.
\<close>

lemma mb_send_loop_spec:
  assumes s: "mb_inv i s" and t: "mb_entry (the_mb i s) = mb_size (the_mb i s) \<Longrightarrow> may_block t s"
    and f: "sflag \<noteq> Bad_Suspend_Flag" and k: "timeout_ok timeout"
  shows "\<exists>r s'. mb_send_loop i v timeout sflag s = Some (r, s') \<and> mb_inv i s' \<and> mb_cap i s' = mb_cap i s \<and>
    send_result (mb_cap i s) timeout (mb_enq i t s) t v (mb_abs i s) s r (mb_abs i s') s'"
proof (cases "mb_entry (the_mb i s) = mb_size (the_mb i s)")
  case False
  have k0: "kernel_ok s" "mb_ok (the_mb i s)" using s by (simp_all add: mb_inv_def)
  obtain mb where mb: "mb_put v (the_mb i s) = Some (RT_EOK, mb)" "mb_ok mb" "mb_data mb = mb_data (the_mb i s) @ [v]"
    "mb_size mb = mb_size (the_mb i s)" using mb_put_spec [OF k0(2) False, of v] by auto
  obtain s' where s': "ipc_wake_one (mb_head i) (upd_mb i (\<lambda>_. mb) s) = Some (RT_EOK, s')" "kernel_ok s'"
    "ks_ipc s' = ks_ipc (upd_mb i (\<lambda>_. mb) s)" "ks_list s' (mb_head i) = tl (ks_list s (mb_head i))"
    "ks_list s' (mb_sender_head i) = ks_list s (mb_sender_head i)"
    "\<forall>w ws. ks_list s (mb_head i) = w # ws \<longrightarrow> th_error (ks_thread s' w) = RT_EOK \<and> th_state (ks_thread s' w) \<in> {2, 3}"
    using ipc_wake_one_spec [of "upd_mb i (\<lambda>_. mb) s" "mb_head i"] k0(1) by auto
  have m: "the_mb i s' = mb" using the_mb_cong [OF s'(3)] by simp
  have "mb_send_loop i v timeout sflag s = Some (Ret RT_EOK, s')"
    using False mb(1) s'(1) by (simp add: mb_send_loop_def)
  moreover have "wakes_head (ks_list s (mb_head i)) s'" using s'(6) by (rule wakes_headI)
  ultimately show ?thesis
    using mb_full [OF s] False s'(2,4,5) mb by (simp add: mb_inv_def mb_cap_def mb_abs_def result_defs m)
next
  case True
  have k0: "kernel_ok s" "mb_ok (the_mb i s)" and fl: "mb_flag (the_mb i s) \<noteq> Bad_Flag"
    using s by (simp_all add: mb_inv_def mb_ok_def)
  note tb = t [OF True]
  have c: "ks_current s = Some t" using tb by (simp add: may_block_def)
  let ?s1 = "upd_thread t (\<lambda>th. th\<lparr>th_error := - RT_EINTR\<rparr>) s"
  have k1: "kernel_ok ?s1" by (rule upd_error_ok [OF k0(1)])
  show ?thesis
  proof (cases "timeout = 0")
    case timeout: True
    have "mb_send_loop i v timeout sflag s = Some (Ret (- RT_EFULL), ?s1)"
      using True timeout c by (simp add: mb_send_loop_def rt_thread_self_def)
    with True timeout k1 k0(2) mb_full [OF s] show ?thesis by (simp add: mb_inv_def mb_cap_def mb_abs_def result_defs)
  next
    case False
    from block_on_reset [OF k0(1) tb fl f _ k, of "mb_sender_head i"] obtain s' where
      s': "block_on (mb_sender_head i) t (mb_flag (the_mb i s)) sflag timeout ?s1 = Some (Blocked, s')" "kernel_ok s'"
      "ks_ipc s' = ks_ipc s" and w: "ks_list s' (mb_sender_head i) = enqueued (mb_flag (the_mb i s))
        (\<lambda>u. th_current_priority (ks_thread s u)) t (ks_list s (mb_sender_head i))"
      "ks_list s' (mb_head i) = ks_list s (mb_head i)" "th_suspended (ks_thread s' t)" "th_error (ks_thread s' t) = - RT_EINTR"
      "tm_activated (ck_timer (ks_clk s') (Thread_Timer t)) = (0 < timeout)"
      "0 < timeout \<longrightarrow> tm_timeout_tick (ck_timer (ks_clk s') (Thread_Timer t)) = ck_tick (ks_clk s) + word_of_int timeout"
      by auto
    note m = the_mb_cong [OF s'(3)]
    have "mb_send_loop i v timeout sflag s = Some (Blocked, s')"
      using True False c s'(1) by (simp add: mb_send_loop_def rt_thread_self_def)
    then show ?thesis
      using True False mb_full [OF s] s'(2) w k0(2) by (simp add: mb_inv_def mb_cap_def mb_abs_def result_defs m)
  qed
qed

lemma mb_recv_loop_spec:
  assumes s: "mb_inv i s" and t: "mb_entry (the_mb i s) = 0 \<Longrightarrow> may_block t s"
    and f: "sflag \<noteq> Bad_Suspend_Flag" and k: "timeout_ok timeout"
  shows "\<exists>r m s'. mb_recv_loop i timeout sflag s = Some (r, m, s') \<and> mb_inv i s' \<and> mb_cap i s' = mb_cap i s \<and>
    recv_result timeout (mb_enq i t s) t (mb_abs i s) s r m (mb_abs i s') s'"
proof (cases "mb_entry (the_mb i s) = 0")
  case False
  have k0: "kernel_ok s" "mb_ok (the_mb i s)" using s by (simp_all add: mb_inv_def)
  obtain v mb where mb: "mb_get (the_mb i s) = Some (v, mb)" "mb_ok mb" "mb_data (the_mb i s) = v # mb_data mb"
    "mb_size mb = mb_size (the_mb i s)" using mb_get_spec [OF k0(2) False] by auto
  obtain s' where s': "ipc_wake_one (mb_sender_head i) (upd_mb i (\<lambda>_. mb) s) = Some (RT_EOK, s')" "kernel_ok s'"
    "ks_ipc s' = ks_ipc (upd_mb i (\<lambda>_. mb) s)" "ks_list s' (mb_sender_head i) = tl (ks_list s (mb_sender_head i))"
    "ks_list s' (mb_head i) = ks_list s (mb_head i)"
    "\<forall>w ws. ks_list s (mb_sender_head i) = w # ws \<longrightarrow> th_error (ks_thread s' w) = RT_EOK \<and> th_state (ks_thread s' w) \<in> {2, 3}"
    using ipc_wake_one_spec [of "upd_mb i (\<lambda>_. mb) s" "mb_sender_head i"] k0(1) by auto
  have m: "the_mb i s' = mb" using the_mb_cong [OF s'(3)] by simp
  have "mb_recv_loop i timeout sflag s = Some (Ret RT_EOK, Some v, s')"
    using False mb(1) s'(1) by (simp add: mb_recv_loop_def)
  moreover have "wakes_head (ks_list s (mb_sender_head i)) s'" using s'(6) by (rule wakes_headI)
  ultimately show ?thesis
    using s'(2,4,5) mb by (simp add: mb_inv_def mb_cap_def mb_abs_def result_defs m)
next
  case True
  have k0: "kernel_ok s" "mb_ok (the_mb i s)" and fl: "mb_flag (the_mb i s) \<noteq> Bad_Flag"
    using s by (simp_all add: mb_inv_def mb_ok_def)
  have e: "mb_data (the_mb i s) = []" using True by (simp add: mb_data_def)
  note tb = t [OF True]
  have c: "ks_current s = Some t" using tb by (simp add: may_block_def)
  let ?s1 = "upd_thread t (\<lambda>th. th\<lparr>th_error := - RT_EINTR\<rparr>) s"
  have k1: "kernel_ok ?s1" by (rule upd_error_ok [OF k0(1)])
  show ?thesis
  proof (cases "timeout = 0")
    case timeout: True
    let ?s2 = "upd_thread t (\<lambda>th. th\<lparr>th_error := - RT_ETIMEOUT\<rparr>) ?s1"
    have "mb_recv_loop i timeout sflag s = Some (Ret (- RT_ETIMEOUT), None, ?s2)"
      using True timeout c by (simp add: mb_recv_loop_def rt_thread_self_def)
    moreover have "kernel_ok ?s2" by (rule upd_error_ok [OF k1])
    ultimately show ?thesis using timeout k0(2) e by (simp add: mb_inv_def mb_cap_def mb_abs_def result_defs)
  next
    case False
    from block_on_reset [OF k0(1) tb fl f _ k, of "mb_head i"] obtain s' where
      s': "block_on (mb_head i) t (mb_flag (the_mb i s)) sflag timeout ?s1 = Some (Blocked, s')" "kernel_ok s'"
      "ks_ipc s' = ks_ipc s" and w: "ks_list s' (mb_head i) = enqueued (mb_flag (the_mb i s))
        (\<lambda>u. th_current_priority (ks_thread s u)) t (ks_list s (mb_head i))"
      "ks_list s' (mb_sender_head i) = ks_list s (mb_sender_head i)" "th_suspended (ks_thread s' t)"
      "th_error (ks_thread s' t) = - RT_EINTR"
      "tm_activated (ck_timer (ks_clk s') (Thread_Timer t)) = (0 < timeout)"
      "0 < timeout \<longrightarrow> tm_timeout_tick (ck_timer (ks_clk s') (Thread_Timer t)) = ck_tick (ks_clk s) + word_of_int timeout"
      by auto
    note m = the_mb_cong [OF s'(3)]
    have "mb_recv_loop i timeout sflag s = Some (Blocked, None, s')"
      using True False c s'(1) by (simp add: mb_recv_loop_def rt_thread_self_def)
    then show ?thesis
      using False s'(2) w k0(2) e by (simp add: mb_inv_def mb_cap_def mb_abs_def result_defs m)
  qed
qed

text \<open>The whole calls: the test before the loop differs from the loop only in the error field it leaves.\<close>

lemma mb_send_wait_loop:
  assumes "mb_inv i s" "timeout \<noteq> 0 \<longrightarrow> may_block t s" "\<not> (mb_entry (the_mb i s) = mb_size (the_mb i s) \<and> timeout = 0)"
  shows "mb_send_wait i v timeout sflag s = mb_send_loop i v timeout sflag s"
  using assms may_block_available [of t s] by (auto simp: mb_send_wait_def mb_inv_def mb_ok_def)

lemma mb_recv_wait_loop:
  assumes "mb_inv i s" "timeout \<noteq> 0 \<longrightarrow> may_block t s" "\<not> (mb_entry (the_mb i s) = 0 \<and> timeout = 0)"
  shows "mb_recv i timeout sflag s = mb_recv_loop i timeout sflag s"
  using assms may_block_available [of t s] by (auto simp: mb_recv_def mb_inv_def mb_ok_def)

lemma mb_send_full:
  "mb_inv i s \<Longrightarrow> mb_entry (the_mb i s) = mb_size (the_mb i s) \<Longrightarrow> mb_send_wait i v 0 sflag s = Some (Ret (- RT_EFULL), s)"
  by (simp add: mb_send_wait_def mb_inv_def mb_ok_def)

lemma mb_recv_empty:
  "mb_inv i s \<Longrightarrow> mb_entry (the_mb i s) = 0 \<Longrightarrow> mb_recv i 0 sflag s = Some (Ret (- RT_ETIMEOUT), None, s)"
  by (simp add: mb_recv_def mb_inv_def mb_ok_def)

lemma mb_send_wait_spec:
  assumes s: "mb_inv i s" and t: "timeout \<noteq> 0 \<longrightarrow> may_block t s"
    and f: "sflag \<noteq> Bad_Suspend_Flag" and k: "timeout_ok timeout"
  shows "\<exists>r s'. mb_send_wait i v timeout sflag s = Some (r, s') \<and> mb_inv i s' \<and> mb_cap i s' = mb_cap i s \<and>
    send_result (mb_cap i s) timeout (mb_enq i t s) t v (mb_abs i s) s r (mb_abs i s') s' \<and> (r = Ret (- RT_EFULL) \<longrightarrow> s' = s)"
proof (cases "mb_entry (the_mb i s) = mb_size (the_mb i s) \<and> timeout = 0")
  case True
  with mb_send_full [OF s, of v sflag] mb_full [OF s] s show ?thesis by (simp add: mb_abs_def result_defs)
next
  case False
  have t': "may_block t s" if "mb_entry (the_mb i s) = mb_size (the_mb i s)" using t that False by simp
  from mb_send_loop_spec [OF s t' f k, of v] mb_full [OF s] False show ?thesis
    unfolding mb_send_wait_loop [OF s t False] by (auto simp: mb_abs_def result_defs split: if_splits)
qed

lemma mb_recv_spec:
  assumes s: "mb_inv i s" and t: "timeout \<noteq> 0 \<longrightarrow> may_block t s"
    and f: "sflag \<noteq> Bad_Suspend_Flag" and k: "timeout_ok timeout"
  shows "\<exists>r m s'. mb_recv i timeout sflag s = Some (r, m, s') \<and> mb_inv i s' \<and> mb_cap i s' = mb_cap i s \<and>
    recv_result timeout (mb_enq i t s) t (mb_abs i s) s r m (mb_abs i s') s' \<and> (r = Ret (- RT_ETIMEOUT) \<longrightarrow> s' = s)"
proof (cases "mb_entry (the_mb i s) = 0 \<and> timeout = 0")
  case True
  with mb_recv_empty [OF s, of sflag] s show ?thesis by (simp add: mb_abs_def mb_data_def result_defs)
next
  case False
  have t': "may_block t s" if "mb_entry (the_mb i s) = 0" using t that False by simp
  have "mb_entry (the_mb i s) = 0 \<longleftrightarrow> mb_data (the_mb i s) = []"
    using length_mb_data [of "the_mb i s"] by (metis length_0_conv unsigned_eq_0_iff)
  with mb_recv_loop_spec [OF s t' f k] False show ?thesis
    unfolding mb_recv_wait_loop [OF s t False] mb_abs_def
    by (cases "mb_data (the_mb i s)") (auto simp: result_defs split: if_splits)
qed

interpretation mbq: channel "\<lambda>_. True" "mb_inv i" "mb_cap i" "mb_abs i" "\<lambda>v. rt_mb_send i v" "rt_mb_recv i 0"
proof
  fix s
  assume s: "mb_inv i s"
  have m: "fst (mb_abs i s) = mb_data (the_mb i s)" by (simp add: mb_abs_def)
  note sp = mb_send_wait_spec [OF s _ _, of 0 undefined RT_UNINTERRUPTIBLE, unfolded result_defs, simplified timeout_ok_def, simplified]
  note rc = mb_recv_spec [OF s _ _, of 0 undefined RT_UNINTERRUPTIBLE, unfolded result_defs, simplified timeout_ok_def, simplified]
  show "length (fst (mb_abs i s)) \<le> mb_cap i s"
    using s mb_okD(1) by (simp add: mb_abs_def mb_cap_def mb_inv_def)
  show "\<exists>s'. rt_mb_send i v s = Some (Ret RT_EOK, s') \<and> mb_inv i s' \<and> mb_cap i s' = mb_cap i s \<and>
      mb_abs i s' = snd (abs_send (mb_cap i s) False id v (mb_abs i s))"
    if "length (fst (mb_abs i s)) < mb_cap i s" for v
    using sp [of v] that by (auto simp: rt_mb_send_def rt_mb_send_wait_def mb_abs_def)
  show "\<exists>e. e \<noteq> RT_EOK \<and> rt_mb_send i v s = Some (Ret e, s)"
    if "length (fst (mb_abs i s)) = mb_cap i s" for v
    using sp [of v] that by (auto simp: rt_mb_send_def rt_mb_send_wait_def mb_abs_def)
  show "\<exists>s'. rt_mb_recv i 0 s = Some (Ret RT_EOK, Some (hd (fst (mb_abs i s))), s') \<and> mb_inv i s' \<and>
      mb_cap i s' = mb_cap i s \<and> mb_abs i s' = snd (snd (abs_recv False id (mb_abs i s)))"
    if "fst (mb_abs i s) \<noteq> []"
    using rc that by (cases "mb_data (the_mb i s)") (auto simp: rt_mb_recv_def mb_abs_def)
  show "\<exists>e. e \<noteq> RT_EOK \<and> rt_mb_recv i 0 s = Some (Ret e, None, s)" if "fst (mb_abs i s) = []"
    using rc that by (auto simp: rt_mb_recv_def mb_abs_def)
qed

lemma mb_urgent_spec:
  assumes s: "mb_inv i s"
  shows "\<exists>e s'. rt_mb_urgent i v s = Some (e, s') \<and> mb_inv i s' \<and> mb_cap i s' = mb_cap i s \<and>
    (if length (fst (mb_abs i s)) < mb_cap i s
     then e = RT_EOK \<and> mb_abs i s' = (v # fst (mb_abs i s), tl (fst (snd (mb_abs i s))), snd (snd (mb_abs i s))) \<and>
       wakes_head (fst (snd (mb_abs i s))) s'
     else e = - RT_EFULL \<and> s' = s)"
proof (cases "mb_entry (the_mb i s) = mb_size (the_mb i s)")
  case True
  with s mb_full [OF s] show ?thesis by (simp add: rt_mb_urgent_def mb_inv_def mb_ok_def)
next
  case False
  have k0: "kernel_ok s" "mb_ok (the_mb i s)" and o: "mb_object (the_mb i s) \<noteq> Obj_Null"
    using s by (simp_all add: mb_inv_def mb_ok_def)
  obtain mb where mb: "mb_put_front v (the_mb i s) = Some mb" "mb_ok mb" "mb_data mb = v # mb_data (the_mb i s)"
    "mb_size mb = mb_size (the_mb i s)" using mb_put_front_spec [OF k0(2) False, of v] by auto
  obtain s' where s': "ipc_wake_one (mb_head i) (upd_mb i (\<lambda>_. mb) s) = Some (RT_EOK, s')" "kernel_ok s'"
    "ks_ipc s' = ks_ipc (upd_mb i (\<lambda>_. mb) s)" "ks_list s' (mb_head i) = tl (ks_list s (mb_head i))"
    "ks_list s' (mb_sender_head i) = ks_list s (mb_sender_head i)"
    "\<forall>w ws. ks_list s (mb_head i) = w # ws \<longrightarrow> th_error (ks_thread s' w) = RT_EOK \<and> th_state (ks_thread s' w) \<in> {2, 3}"
    using ipc_wake_one_spec [of "upd_mb i (\<lambda>_. mb) s" "mb_head i"] k0(1) by auto
  have m: "the_mb i s' = mb" using the_mb_cong [OF s'(3)] by simp
  have "rt_mb_urgent i v s = Some (RT_EOK, s')"
    using False o mb(1) s'(1) by (simp add: rt_mb_urgent_def)
  with mb_full [OF s] False s'(2,4,5) wakes_headI [OF s'(6)] mb show ?thesis by (simp add: mb_inv_def mb_cap_def mb_abs_def m)
qed

section \<open>Properties\<close>

text \<open>The loops when the waiting thread runs again, with the time it has left.\<close>

lemma mb_resume_spec:
  assumes s: "mb_inv i s" and t: "may_block t s" and f: "sflag \<noteq> Bad_Suspend_Flag" and k: "timeout_ok timeout"
    and n: "unat (ck_tick (ks_clk s) - start) < 2 ^ 31"
  defines "left \<equiv> remaining_time timeout start (ck_tick (ks_clk s))"
  shows "if th_error (ks_thread s t) \<noteq> RT_EOK
    then mb_send_resume i v timeout start sflag s = Some (Ret (th_error (ks_thread s t)), s) \<and>
      mb_recv_resume i timeout start sflag s = Some (Ret (th_error (ks_thread s t)), None, s)
    else (\<exists>r s'. mb_send_resume i v timeout start sflag s = Some (r, s') \<and> mb_inv i s' \<and> mb_cap i s' = mb_cap i s \<and>
        send_result (mb_cap i s) left (mb_enq i t s) t v (mb_abs i s) s r (mb_abs i s') s') \<and>
      (\<exists>r m s'. mb_recv_resume i timeout start sflag s = Some (r, m, s') \<and> mb_inv i s' \<and> mb_cap i s' = mb_cap i s \<and>
        recv_result left (mb_enq i t s) t (mb_abs i s) s r m (mb_abs i s') s')"
proof -
  have c: "ks_current s = Some t" using t by (simp add: may_block_def)
  have l: "timeout_ok left" unfolding left_def by (rule remaining_time_ok [OF k n])
  show ?thesis
    using mb_send_loop_spec [OF s t f l, of v] mb_recv_loop_spec [OF s t f l] c
    by (simp add: mb_send_resume_def mb_recv_resume_def rt_thread_self_def left_def)
qed

text \<open>
  C10: Sending to and receiving from a mailbox refine the abstract channel: while there is room a send
  appends its mail and makes the first waiting receiver runnable with RT_EOK; on a full mailbox it returns -RT_EFULL and
  changes nothing when told not to wait, and otherwise suspends the caller in the queue of senders with its timer set; a
  receive takes the oldest mail and wakes the first waiting sender, or returns -RT_ETIMEOUT, or suspends
  the caller in the queue of receivers. A caller that runs again after such a wait returns the error the wait ended with, or
  goes on by the same rules with the time it has left. An urgent mail goes to the front. No access leaves the pool.
\<close>
theorem mailbox_calls_refine_channel:
  assumes "mb_inv i s" "timeout \<noteq> 0 \<longrightarrow> may_block t s" "sflag \<noteq> Bad_Suspend_Flag" "timeout_ok timeout"
  shows "(\<exists>r s'. mb_send_wait i v timeout sflag s = Some (r, s') \<and> mb_inv i s' \<and> mb_cap i s' = mb_cap i s \<and>
      send_result (mb_cap i s) timeout (mb_enq i t s) t v (mb_abs i s) s r (mb_abs i s') s' \<and> (r = Ret (- RT_EFULL) \<longrightarrow> s' = s)) \<and>
    (\<exists>r m s'. mb_recv i timeout sflag s = Some (r, m, s') \<and> mb_inv i s' \<and> mb_cap i s' = mb_cap i s \<and>
      recv_result timeout (mb_enq i t s) t (mb_abs i s) s r m (mb_abs i s') s' \<and> (r = Ret (- RT_ETIMEOUT) \<longrightarrow> s' = s)) \<and>
    (may_block t s \<and> unat (ck_tick (ks_clk s) - start) < 2 ^ 31 \<longrightarrow>
      (if th_error (ks_thread s t) \<noteq> RT_EOK
       then mb_send_resume i v timeout start sflag s = Some (Ret (th_error (ks_thread s t)), s) \<and>
         mb_recv_resume i timeout start sflag s = Some (Ret (th_error (ks_thread s t)), None, s)
       else (\<exists>r s'. mb_send_resume i v timeout start sflag s = Some (r, s') \<and> mb_inv i s' \<and> mb_cap i s' = mb_cap i s \<and>
           send_result (mb_cap i s) (remaining_time timeout start (ck_tick (ks_clk s))) (mb_enq i t s) t v (mb_abs i s) s r (mb_abs i s') s') \<and>
         (\<exists>r m s'. mb_recv_resume i timeout start sflag s = Some (r, m, s') \<and> mb_inv i s' \<and> mb_cap i s' = mb_cap i s \<and>
           recv_result (remaining_time timeout start (ck_tick (ks_clk s))) (mb_enq i t s) t (mb_abs i s) s r m (mb_abs i s') s'))) \<and>
    (\<exists>e s'. rt_mb_urgent i v s = Some (e, s') \<and> mb_inv i s' \<and> mb_cap i s' = mb_cap i s \<and>
      (if length (fst (mb_abs i s)) < mb_cap i s
       then e = RT_EOK \<and> mb_abs i s' = (v # fst (mb_abs i s), tl (fst (snd (mb_abs i s))), snd (snd (mb_abs i s))) \<and>
         wakes_head (fst (snd (mb_abs i s))) s'
       else e = - RT_EFULL \<and> s' = s))"
  by (intro conjI impI mb_send_wait_spec [OF assms] mb_recv_spec [OF assms] mb_urgent_spec [OF assms(1)])
    (rule mb_resume_spec [OF assms(1) _ assms(3,4)]; simp)

text \<open>
  A mailbox delivers mail in order: over any run of rt_mb_send and non-waiting rt_mb_recv calls, with
  whatever wake-ups and reschedulings they cause, the mails in the box at first followed by those
  accepted are those delivered followed by those in the box at last: none is lost, duplicated or
  reordered.
\<close>
lemma mailbox_is_fifo:
  assumes "mb_inv i s"
    "fifo_run (accepted (rt_mb_send i)) (delivered (rt_mb_recv i 0)) ops s = (acc, del, s')"
  shows "mb_inv i s' \<and> mb_data (the_mb i s) @ acc = del @ mb_data (the_mb i s') \<and>
    length (mb_data (the_mb i s')) \<le> mb_cap i s"
  using mbq.run_fifo [OF assms(1) _ assms(2)] mbq.contents_bound [of i s'] by (auto simp: mb_abs_def)

text \<open>
  C26: A receive that waits keeps its deadline: when it is woken and finds the mailbox empty again
  (another thread took the mail), it returns -RT_ETIMEOUT if its time has passed since it began, and
  otherwise waits on with the timer set to the same tick as before, however often this happens
  and even if the tick counter wraps around.
\<close>
theorem mailbox_wait_keeps_deadline:
  assumes "mb_inv i s" "may_block t s" "th_error (ks_thread s t) = RT_EOK" "sflag \<noteq> Bad_Suspend_Flag"
    "0 < timeout" "timeout_ok timeout" "unat (ck_tick (ks_clk s) - start) < 2 ^ 31"
  shows "\<exists>r m s'. mb_recv_resume i timeout start sflag s = Some (r, m, s') \<and> mb_inv i s' \<and>
    (case mb_data (the_mb i s) of
       v # vs \<Rightarrow> r = Ret RT_EOK \<and> m = Some v \<and> mb_data (the_mb i s') = vs
     | [] \<Rightarrow> m = None \<and>
         (if timeout \<le> int (unat (ck_tick (ks_clk s) - start)) then r = Ret (- RT_ETIMEOUT)
          else r = Blocked \<and> th_suspended (ks_thread s' t) \<and>
            tm_activated (ck_timer (ks_clk s') (Thread_Timer t)) \<and>
            tm_timeout_tick (ck_timer (ks_clk s') (Thread_Timer t)) = start + word_of_int timeout))"
proof -
  let ?now = "ck_tick (ks_clk s)" let ?r = "remaining_time timeout start ?now"
  have b: "timeout < 2 ^ 31" using assms(6) by (simp add: timeout_ok_def)
  note r = remaining_time_pos [OF assms(5) b assms(7)]
  have k: "timeout_ok ?r" using assms(6) unfolding r timeout_ok_def by (simp del: of_nat_unat)
  have run: "mb_recv_resume i timeout start sflag s = mb_recv_loop i ?r sflag s"
    using assms(2,3) by (simp add: mb_recv_resume_def rt_thread_self_def may_block_def)
  have dl: "?now + word_of_int ?r = start + word_of_int timeout" if "0 < ?r"
    by (rule remaining_time_deadline(1) [OF assms(5) b assms(7) that])
  have r0: "?r = 0 \<longleftrightarrow> timeout \<le> int (unat (?now - start))" "0 < ?r \<longleftrightarrow> \<not> timeout \<le> int (unat (?now - start))"
    unfolding r by auto
  from mb_recv_loop_spec [OF assms(1) assms(2) assms(4) k] show ?thesis
    unfolding run mb_abs_def using r0 dl
    by (cases "mb_data (the_mb i s)") (auto simp: result_defs split: if_splits)
qed

text \<open>
  An urgent mail is received next: if the mailbox has room, rt_mb_urgent followed by rt_mb_recv
  returns that mail and leaves the mail in the box as it was; a full mailbox refuses it unchanged.
\<close>
lemma mailbox_urgent_round_trip:
  assumes "mb_inv i s"
  shows "\<exists>e s1. rt_mb_urgent i v s = Some (e, s1) \<and>
    (if length (mb_data (the_mb i s)) < mb_cap i s
     then e = RT_EOK \<and> (\<exists>s2. rt_mb_recv i 0 s1 = Some (Ret RT_EOK, Some v, s2) \<and> mb_inv i s2 \<and>
            mb_data (the_mb i s2) = mb_data (the_mb i s))
     else e = - RT_EFULL \<and> s1 = s)"
proof -
  obtain e s1 where s1: "rt_mb_urgent i v s = Some (e, s1)" "mb_inv i s1"
    "if length (fst (mb_abs i s)) < mb_cap i s
     then e = RT_EOK \<and> mb_abs i s1 = (v # fst (mb_abs i s), tl (fst (snd (mb_abs i s))), snd (snd (mb_abs i s))) \<and>
       wakes_head (fst (snd (mb_abs i s))) s1
     else e = - RT_EFULL \<and> s1 = s" using mb_urgent_spec [OF assms] by blast
  show ?thesis
  proof (cases "length (mb_data (the_mb i s)) < mb_cap i s")
    case True
    then have a: "e = RT_EOK" "fst (mb_abs i s1) = v # mb_data (the_mb i s)" using s1(3) by (simp_all add: mb_abs_def)
    with mbq.recv_some [OF s1(2)] obtain s2 where s2: "rt_mb_recv i 0 s1 = Some (Ret RT_EOK, Some v, s2)"
      "mb_inv i s2" "mb_abs i s2 = snd (snd (abs_recv False id (mb_abs i s1)))" by auto
    then have "mb_data (the_mb i s2) = mb_data (the_mb i s)" using a(2) by (auto simp: mb_abs_def)
    with True s1(1) a(1) s2(1,2) show ?thesis by auto
  next
    case False
    with s1(1,3) show ?thesis by (simp add: mb_abs_def)
  qed
qed

text \<open>The sample system: mailbox 3, with room for two mails and empty.\<close>

lemma sample_mb: "the_mb 3 sample_kernel = \<lparr>mb_object = Obj_Static, mb_flag = FIFO, mb_msg_pool = [0, 0], mb_size = 2,
    mb_entry = 0, mb_in_offset = 0, mb_out_offset = 0\<rparr>"
  by (simp add: the_mb_def sample_kernel_def sample_ipc_def)

lemma sample_mb_inv: "mb_inv 3 sample_kernel"
  using sample_kernel_kernel_ok by (simp add: mb_inv_def mb_ok_def sample_mb)

lemma sample_mb_abs: "mb_cap 3 sample_kernel = 2" "mb_abs 3 sample_kernel = ([], [], [])"
  by (simp_all add: mb_cap_def mb_abs_def mb_data_def sample_mb) (simp_all add: sample_kernel_def)

text \<open>Thread 1 waits for a mail; one is sent, and thread 1 can run.\<close>

theorem mailbox_calls_refine_channel_witness:
  "\<exists>s1 s2. mb_recv 3 10 RT_UNINTERRUPTIBLE sample_kernel = Some (Blocked, None, s1) \<and> th_suspended (ks_thread s1 1) \<and>
     mb_send_wait 3 5 0 RT_UNINTERRUPTIBLE s1 = Some (Ret RT_EOK, s2) \<and> mb_abs 3 s2 = ([5], [], []) \<and>
     th_error (ks_thread s2 1) = RT_EOK \<and> th_state (ks_thread s2 1) \<in> {2, 3}"
proof -
  have "timeout_ok 10" "timeout_ok 0" by (simp_all add: timeout_ok_def)
  from mailbox_calls_refine_channel [OF sample_mb_inv _ _ this(1), of 1 RT_UNINTERRUPTIBLE undefined undefined] obtain s1 where
    s1: "mb_recv 3 10 RT_UNINTERRUPTIBLE sample_kernel = Some (Blocked, None, s1)" "mb_inv 3 s1" "mb_cap 3 s1 = 2"
      "mb_abs 3 s1 = ([], [1], [])" "th_suspended (ks_thread s1 1)"
    using sample_may_block by (auto simp: sample_mb_abs recv_result_def left_waiting_def enqueued_def sample_mb)
  from mailbox_calls_refine_channel [OF s1(2) _ _ \<open>timeout_ok 0\<close>, of undefined RT_UNINTERRUPTIBLE 5 undefined] obtain s2 where
    "mb_send_wait 3 5 0 RT_UNINTERRUPTIBLE s1 = Some (Ret RT_EOK, s2)" "mb_abs 3 s2 = ([5], [], [])" "wakes_head [1] s2"
    by (auto simp: s1(3,4) send_result_def)
  with s1 show ?thesis by (auto simp: wakes_head_def)
qed

text \<open>Two mails are accepted, the third is refused; the first comes out first.\<close>

lemma mailbox_is_fifo_witness:
  "\<exists>acc del s'. fifo_run (accepted (rt_mb_send 3)) (delivered (rt_mb_recv 3 0)) [Enq 7, Deq] sample_kernel = (acc, del, s') \<and>
     acc = del @ mb_data (the_mb 3 s')"
proof -
  obtain acc del s' where r: "fifo_run (accepted (rt_mb_send 3)) (delivered (rt_mb_recv 3 0)) [Enq 7, Deq] sample_kernel =
    (acc, del, s')" by (metis prod_cases3)
  have "mb_data (the_mb 3 sample_kernel) = []" using sample_mb_abs(2) by (simp add: mb_abs_def)
  with mailbox_is_fifo [OF sample_mb_inv r] r show ?thesis by auto
qed

theorem mailbox_wait_keeps_deadline_witness:
  "\<exists>s'. mb_recv_resume 3 10 (ck_tick (ks_clk sample_kernel) - 4) RT_UNINTERRUPTIBLE sample_kernel = Some (Blocked, None, s') \<and>
     tm_timeout_tick (ck_timer (ks_clk s') (Thread_Timer 1)) = ck_tick (ks_clk sample_kernel) + 6"
proof -
  have e: "th_error (ks_thread sample_kernel 1) = RT_EOK" by (simp add: sample_kernel_def sample_thread_def)
  have "mb_data (the_mb 3 sample_kernel) = []" using sample_mb_abs(2) by (simp add: mb_abs_def)
  then show ?thesis
    using mailbox_wait_keeps_deadline [OF sample_mb_inv sample_may_block e, of RT_UNINTERRUPTIBLE 10
      "ck_tick (ks_clk sample_kernel) - 4"] by (auto simp: timeout_ok_def)
qed

lemma mailbox_urgent_round_trip_witness:
  "\<exists>s1 s2. rt_mb_urgent 3 9 sample_kernel = Some (RT_EOK, s1) \<and> rt_mb_recv 3 0 s1 = Some (Ret RT_EOK, Some 9, s2)"
proof -
  have "mb_data (the_mb 3 sample_kernel) = []" using sample_mb_abs(2) by (simp add: mb_abs_def)
  then show ?thesis using mailbox_urgent_round_trip [OF sample_mb_inv, of 9] by (auto simp: sample_mb_abs)
qed

end
