(* ===== verification/Msgqueue.thy ===== *)
theory Msgqueue
  imports Channel
begin

text \<open>
  Message queues, the \<open>RT_USING_MESSAGEQUEUE\<close> part of \<open>src/ipc.c\<close>: fixed-size message nodes, each on
  the free list, in the queue, or in the hands of a call that is copying its bytes with interrupts
  enabled. Sending and receiving are given in the two critical sections the code has.
\<close>

section \<open>Operations\<close>

definition RT_MQ_ENTRY_MAX :: u16 where "RT_MQ_ENTRY_MAX = 0xffff"

abbreviation mq_head :: "nat \<Rightarrow> lhead" where "mq_head i \<equiv> Suspend (Msgqueue i)"
abbreviation mq_sender_head :: "nat \<Rightarrow> lhead" where "mq_sender_head i \<equiv> Suspend_Sender (Msgqueue i)"

definition the_mq :: "nat \<Rightarrow> kstate \<Rightarrow> rt_messagequeue" where
  "the_mq i s = ipc_mq (ks_ipc s) i"

definition upd_mq :: "nat \<Rightarrow> (rt_messagequeue \<Rightarrow> rt_messagequeue) \<Rightarrow> kstate \<Rightarrow> kstate" where
  "upd_mq i f = upd_ipc (\<lambda>x. x\<lparr>ipc_mq := (ipc_mq x)(i := f (ipc_mq x i))\<rparr>)"

text \<open>
  Cutting the pool into nodes of \<open>align\<close> bytes and a header of 4, last node first on the free list.
  A node that does not lie in the memory behind \<open>msg_pool\<close> is \<open>None\<close>.
\<close>

fun mq_carve :: "u8 list \<Rightarrow> nat \<Rightarrow> nat list \<Rightarrow> rt_messagequeue \<Rightarrow> rt_messagequeue option" where
  "mq_carve pool align [] mq = Some mq"
| "mq_carve pool align (temp # temps) mq = do {
     rt_assert (temp * (align + 4) + (align + 4) \<le> length pool);
     mq_carve pool align temps
       (mq\<lparr>mq_next := (mq_next mq)(temp := mq_queue_free mq),
           mq_slot := (mq_slot mq)(temp := take align (drop (temp * (align + 4) + 4) pool)),
           mq_queue_free := Some temp\<rparr>)
   }"

text \<open>What \<open>rt_mq_init\<close> and \<open>rt_mq_create\<close> do to the queue once its sizes are set.\<close>

definition mq_lists_init :: "u8 list \<Rightarrow> nat \<Rightarrow> rt_messagequeue \<Rightarrow> rt_messagequeue option" where
  "mq_lists_init pool align mq = do {
     mq \<leftarrow> mq_carve pool align [0..<unat (mq_max_msgs mq)]
             (mq\<lparr>mq_queue_head := None, mq_queue_tail := None, mq_queue_free := None\<rparr>);
     Some (mq\<lparr>mq_entry := 0\<rparr>)
   }"

definition rt_mq_init ::
  "nat \<Rightarrow> u8 list \<Rightarrow> nat \<Rightarrow> nat \<Rightarrow> ipc_flag \<Rightarrow> kstate \<Rightarrow> (int \<times> kstate) option" where
  "rt_mq_init i msgpool msg_size pool_size flag s = do {
     rt_assert (flag \<noteq> Bad_Flag);
     rt_assert (mq_object (the_mq i s) = Obj_Null);
     let s = upd_mq i (\<lambda>x. x\<lparr>mq_object := Obj_Static\<rparr>) s;
     let s = upd_mq i (\<lambda>x. x\<lparr>mq_flag := flag\<rparr>) s;
     let s = list_set (mq_head i) [] s;
     let align = RT_ALIGN msg_size RT_ALIGN_SIZE;
     let s = upd_mq i (\<lambda>x. x\<lparr>mq_msg_size := word_of_nat msg_size,
                             mq_max_msgs := word_of_nat (pool_size div add32 align 4)\<rparr>) s;
     if mq_max_msgs (the_mq i s) = 0 then Some (- RT_EINVAL, s)
     else do {
       mq \<leftarrow> mq_lists_init msgpool align (the_mq i s);
       Some (RT_EOK, list_set (mq_sender_head i) [] (upd_mq i (\<lambda>_. mq) s))
     }
   }"

definition rt_mq_detach :: "nat \<Rightarrow> kstate \<Rightarrow> (int \<times> kstate) option" where
  "rt_mq_detach i s = do {
     rt_assert (mq_object (the_mq i s) \<noteq> Obj_Null);
     rt_assert (mq_object (the_mq i s) = Obj_Static);
     s \<leftarrow> ipc_list_resume_all (mq_head i) s;
     s \<leftarrow> ipc_list_resume_all (mq_sender_head i) s;
     Some (RT_EOK, upd_mq i (\<lambda>x. x\<lparr>mq_object := Obj_Null\<rparr>) s)
   }"

text \<open>
  \<open>rt_mq_create\<close>: \<open>obj\<close> is what the object allocator gave, \<open>alloc\<close> the heap, asked for the pool.
\<close>

definition rt_mq_create ::
  "nat option \<Rightarrow> (nat \<Rightarrow> u8 list option) \<Rightarrow> nat \<Rightarrow> nat \<Rightarrow> ipc_flag \<Rightarrow> kstate \<Rightarrow> (nat option \<times> kstate) option" where
  "rt_mq_create obj alloc msg_size max_msgs flag s = do {
     rt_assert (flag \<noteq> Bad_Flag);
     rt_assert (ks_irq_nest s = 0);
     (case obj of
        None \<Rightarrow> Some (None, s)
      | Some i \<Rightarrow> do {
          let s = upd_mq i (\<lambda>x. x\<lparr>mq_object := Obj_Dynamic\<rparr>) s;
          let s = upd_mq i (\<lambda>x. x\<lparr>mq_flag := flag\<rparr>) s;
          let s = list_set (mq_head i) [] s;
          let align = RT_ALIGN msg_size RT_ALIGN_SIZE;
          let s = upd_mq i (\<lambda>x. x\<lparr>mq_msg_size := word_of_nat msg_size, mq_max_msgs := word_of_nat max_msgs\<rparr>) s;
          (case alloc (add32 align 4 * unat (mq_max_msgs (the_mq i s)) mod 2 ^ 32) of
             None \<Rightarrow> Some (None, upd_mq i (\<lambda>x. x\<lparr>mq_object := Obj_Null\<rparr>) s)
           | Some pool \<Rightarrow> do {
               mq \<leftarrow> mq_lists_init pool align (the_mq i s);
               Some (Some i, list_set (mq_sender_head i) [] (upd_mq i (\<lambda>_. mq) s))
             })
        })
   }"

definition rt_mq_delete :: "nat \<Rightarrow> kstate \<Rightarrow> (int \<times> kstate) option" where
  "rt_mq_delete i s = do {
     rt_assert (mq_object (the_mq i s) \<noteq> Obj_Null);
     rt_assert (mq_object (the_mq i s) \<noteq> Obj_Static);
     rt_assert (ks_irq_nest s = 0);
     s \<leftarrow> ipc_list_resume_all (mq_head i) s;
     s \<leftarrow> ipc_list_resume_all (mq_sender_head i) s;
     let s = upd_mq i (\<lambda>x. x\<lparr>mq_slot := \<lambda>_. []\<rparr>) s;
     Some (RT_EOK, upd_mq i (\<lambda>x. x\<lparr>mq_object := Obj_Null\<rparr>) s)
   }"

text \<open>
  The pieces of the critical sections: taking a node off the free list, copying into it, linking it
  at the tail or the head of the queue; taking the node at the head, copying from it, giving it back.
\<close>

definition mq_alloc :: "nat \<Rightarrow> rt_messagequeue \<Rightarrow> rt_messagequeue" where
  "mq_alloc msg mq = mq\<lparr>mq_queue_free := mq_next mq msg\<rparr>"

definition mq_fill :: "nat \<Rightarrow> u8 list \<Rightarrow> rt_messagequeue \<Rightarrow> rt_messagequeue option" where
  "mq_fill msg buffer mq = do {
     bytes \<leftarrow> mem_write (mq_slot mq msg) 0 buffer;
     Some (mq\<lparr>mq_slot := (mq_slot mq)(msg := bytes)\<rparr>)
   }"

definition mq_count :: "rt_messagequeue \<Rightarrow> int \<times> rt_messagequeue" where
  "mq_count mq = (if mq_entry mq < RT_MQ_ENTRY_MAX then (RT_EOK, mq\<lparr>mq_entry := mq_entry mq + 1\<rparr>)
                  else (- RT_EFULL, mq))"

definition mq_link_tail :: "nat \<Rightarrow> rt_messagequeue \<Rightarrow> int \<times> rt_messagequeue" where
  "mq_link_tail msg mq =
     (let mq = (case mq_queue_tail mq of
                  None \<Rightarrow> mq
                | Some tail \<Rightarrow> mq\<lparr>mq_next := (mq_next mq)(tail := Some msg)\<rparr>);
          mq = mq\<lparr>mq_queue_tail := Some msg\<rparr>;
          mq = (if mq_queue_head mq = None then mq\<lparr>mq_queue_head := Some msg\<rparr> else mq)
      in mq_count mq)"

definition mq_link_head :: "nat \<Rightarrow> rt_messagequeue \<Rightarrow> int \<times> rt_messagequeue" where
  "mq_link_head msg mq =
     (let mq = mq\<lparr>mq_next := (mq_next mq)(msg := mq_queue_head mq)\<rparr>;
          mq = mq\<lparr>mq_queue_head := Some msg\<rparr>;
          mq = (if mq_queue_tail mq = None then mq\<lparr>mq_queue_tail := Some msg\<rparr> else mq)
      in mq_count mq)"

definition mq_unlink :: "rt_messagequeue \<Rightarrow> (nat \<times> rt_messagequeue) option" where
  "mq_unlink mq = do {
     msg \<leftarrow> mq_queue_head mq;
     let mq = mq\<lparr>mq_queue_head := mq_next mq msg\<rparr>;
     let mq = (if mq_queue_tail mq = Some msg then mq\<lparr>mq_queue_tail := None\<rparr> else mq);
     Some (msg, if 0 < mq_entry mq then mq\<lparr>mq_entry := mq_entry mq - 1\<rparr> else mq)
   }"

definition mq_release :: "nat \<Rightarrow> rt_messagequeue \<Rightarrow> rt_messagequeue" where
  "mq_release msg mq =
     (let mq = mq\<lparr>mq_next := (mq_next mq)(msg := mq_queue_free mq)\<rparr> in mq\<lparr>mq_queue_free := Some msg\<rparr>)"

text \<open>The second critical section of a send or an urgent send, after the copy.\<close>

definition mq_finish_send ::
  "nat \<Rightarrow> (rt_messagequeue \<Rightarrow> int \<times> rt_messagequeue) \<Rightarrow> kstate \<Rightarrow> (int \<times> kstate) option" where
  "mq_finish_send i link s =
     (let (ret, mq) = link (the_mq i s); s = upd_mq i (\<lambda>_. mq) s in
      if ret \<noteq> RT_EOK then Some (ret, s) else ipc_wake_one (mq_head i) s)"

definition mq_send_loop ::
  "nat \<Rightarrow> u8 list \<Rightarrow> int \<Rightarrow> suspend_flag \<Rightarrow> kstate \<Rightarrow> (outcome \<times> kstate) option" where
  "mq_send_loop i buffer timeout sflag s =
     (case mq_queue_free (the_mq i s) of
        None \<Rightarrow> do {
          t \<leftarrow> rt_thread_self s;
          let s = upd_thread t (\<lambda>th. th\<lparr>th_error := - RT_EINTR\<rparr>) s;
          if timeout = 0 then Some (Ret (- RT_EFULL), s)
          else block_on (mq_sender_head i) t (mq_flag (the_mq i s)) sflag timeout s
        }
      | Some msg \<Rightarrow> do {
          let s = upd_mq i (mq_alloc msg) s;
          let s = upd_mq i (\<lambda>x. x\<lparr>mq_next := (mq_next x)(msg := None)\<rparr>) s;
          mq \<leftarrow> mq_fill msg buffer (the_mq i s);
          (ret, s) \<leftarrow> mq_finish_send i (mq_link_tail msg) (upd_mq i (\<lambda>_. mq) s);
          Some (Ret ret, s)
        })"

definition mq_send_wait ::
  "nat \<Rightarrow> u8 list \<Rightarrow> int \<Rightarrow> suspend_flag \<Rightarrow> kstate \<Rightarrow> (outcome \<times> kstate) option" where
  "mq_send_wait i buffer timeout sflag s = do {
     rt_assert (mq_object (the_mq i s) \<noteq> Obj_Null);
     rt_assert (buffer \<noteq> []);
     (if timeout \<noteq> 0 then scheduler_available s else Some ());
     if unat (mq_msg_size (the_mq i s)) < length buffer then Some (Ret (- RT_ERROR), s)
     else if mq_queue_free (the_mq i s) = None \<and> timeout = 0 then Some (Ret (- RT_EFULL), s)
     else mq_send_loop i buffer timeout sflag s
   }"

definition mq_send_resume ::
  "nat \<Rightarrow> u8 list \<Rightarrow> int \<Rightarrow> u32 \<Rightarrow> suspend_flag \<Rightarrow> kstate \<Rightarrow> (outcome \<times> kstate) option" where
  "mq_send_resume i buffer timeout start sflag s = do {
     t \<leftarrow> rt_thread_self s;
     if th_error (ks_thread s t) \<noteq> RT_EOK then Some (Ret (th_error (ks_thread s t)), s)
     else mq_send_loop i buffer (remaining_time timeout start (ck_tick (ks_clk s))) sflag s
   }"

definition rt_mq_send_wait where
  "rt_mq_send_wait i buffer timeout = mq_send_wait i buffer timeout RT_UNINTERRUPTIBLE"

definition rt_mq_send_wait_interruptible where
  "rt_mq_send_wait_interruptible i buffer timeout = mq_send_wait i buffer timeout RT_INTERRUPTIBLE"

definition rt_mq_send_wait_killable where
  "rt_mq_send_wait_killable i buffer timeout = mq_send_wait i buffer timeout RT_KILLABLE"

definition rt_mq_send where "rt_mq_send i buffer = rt_mq_send_wait i buffer 0"

definition rt_mq_send_interrupt where "rt_mq_send_interrupt i buffer = rt_mq_send_wait_interruptible i buffer 0"

definition rt_mq_send_killable where "rt_mq_send_killable i buffer = rt_mq_send_wait_killable i buffer 0"

definition rt_mq_urgent :: "nat \<Rightarrow> u8 list \<Rightarrow> kstate \<Rightarrow> (int \<times> kstate) option" where
  "rt_mq_urgent i buffer s = do {
     rt_assert (mq_object (the_mq i s) \<noteq> Obj_Null);
     rt_assert (buffer \<noteq> []);
     if unat (mq_msg_size (the_mq i s)) < length buffer then Some (- RT_ERROR, s)
     else (case mq_queue_free (the_mq i s) of
        None \<Rightarrow> Some (- RT_EFULL, s)
      | Some msg \<Rightarrow> do {
          let s = upd_mq i (mq_alloc msg) s;
          mq \<leftarrow> mq_fill msg buffer (the_mq i s);
          mq_finish_send i (mq_link_head msg) (upd_mq i (\<lambda>_. mq) s)
        })
   }"

text \<open>\<open>sz\<close> is the size of the receiver's buffer; the bytes stored in it are the second component.\<close>

definition mq_recv_loop ::
  "nat \<Rightarrow> nat \<Rightarrow> int \<Rightarrow> suspend_flag \<Rightarrow> kstate \<Rightarrow> (outcome \<times> u8 list option \<times> kstate) option" where
  "mq_recv_loop i sz timeout sflag s =
     (if mq_entry (the_mq i s) = 0 then do {
        t \<leftarrow> rt_thread_self s;
        let s = upd_thread t (\<lambda>th. th\<lparr>th_error := - RT_EINTR\<rparr>) s;
        if timeout = 0
        then Some (Ret (- RT_ETIMEOUT), None, upd_thread t (\<lambda>th. th\<lparr>th_error := - RT_ETIMEOUT\<rparr>) s)
        else do {
          (r, s) \<leftarrow> block_on (mq_head i) t (mq_flag (the_mq i s)) sflag timeout s;
          Some (r, None, s)
        }
      }
      else do {
        (msg, mq) \<leftarrow> mq_unlink (the_mq i s);
        bytes \<leftarrow> mem_read (mq_slot mq msg) 0
          (if unat (mq_msg_size mq) < sz then unat (mq_msg_size mq) else sz);
        (ret, s) \<leftarrow> ipc_wake_one (mq_sender_head i) (upd_mq i (\<lambda>_. mq_release msg mq) s);
        Some (Ret ret, Some bytes, s)
      })"

definition mq_recv ::
  "nat \<Rightarrow> nat \<Rightarrow> int \<Rightarrow> suspend_flag \<Rightarrow> kstate \<Rightarrow> (outcome \<times> u8 list option \<times> kstate) option" where
  "mq_recv i sz timeout sflag s = do {
     rt_assert (mq_object (the_mq i s) \<noteq> Obj_Null);
     rt_assert (sz \<noteq> 0);
     (if timeout \<noteq> 0 then scheduler_available s else Some ());
     if mq_entry (the_mq i s) = 0 \<and> timeout = 0 then Some (Ret (- RT_ETIMEOUT), None, s)
     else mq_recv_loop i sz timeout sflag s
   }"

definition mq_recv_resume ::
  "nat \<Rightarrow> nat \<Rightarrow> int \<Rightarrow> u32 \<Rightarrow> suspend_flag \<Rightarrow> kstate \<Rightarrow> (outcome \<times> u8 list option \<times> kstate) option" where
  "mq_recv_resume i sz timeout start sflag s = do {
     t \<leftarrow> rt_thread_self s;
     if th_error (ks_thread s t) \<noteq> RT_EOK then Some (Ret (th_error (ks_thread s t)), None, s)
     else mq_recv_loop i sz (remaining_time timeout start (ck_tick (ks_clk s))) sflag s
   }"

definition rt_mq_recv where
  "rt_mq_recv i sz timeout = mq_recv i sz timeout RT_UNINTERRUPTIBLE"

definition rt_mq_recv_interruptible where
  "rt_mq_recv_interruptible i sz timeout = mq_recv i sz timeout RT_INTERRUPTIBLE"

definition rt_mq_recv_killable where
  "rt_mq_recv_killable i sz timeout = mq_recv i sz timeout RT_KILLABLE"

text \<open>The loop of the reset: the queue's nodes go to the free list one by one.\<close>

partial_function (option) mq_flush :: "rt_messagequeue \<Rightarrow> rt_messagequeue option" where
  "mq_flush mq =
     (case mq_queue_head mq of
        None \<Rightarrow> Some mq
      | Some msg \<Rightarrow>
          (let mq = mq\<lparr>mq_queue_head := mq_next mq msg\<rparr>;
               mq = (if mq_queue_tail mq = Some msg then mq\<lparr>mq_queue_tail := None\<rparr> else mq)
           in mq_flush (mq_release msg mq)))"

definition rt_mq_control :: "nat \<Rightarrow> bool \<Rightarrow> kstate \<Rightarrow> (int \<times> kstate) option" where
  "rt_mq_control i reset s = do {
     rt_assert (mq_object (the_mq i s) \<noteq> Obj_Null);
     if reset then do {
       s \<leftarrow> ipc_list_resume_all (mq_head i) s;
       s \<leftarrow> ipc_list_resume_all (mq_sender_head i) s;
       mq \<leftarrow> mq_flush (the_mq i s);
       let s = upd_mq i (\<lambda>_. mq\<lparr>mq_entry := 0\<rparr>) s;
       s \<leftarrow> rt_schedule s;
       Some (RT_EOK, s)
     }
     else Some (- RT_ERROR, s)
   }"

section \<open>Chains of nodes\<close>

text \<open>The nodes reached from a pointer by following \<open>n\<close> links at most, and the chains that end in NULL.\<close>

fun mq_walk :: "(nat \<Rightarrow> nat option) \<Rightarrow> nat \<Rightarrow> nat option \<Rightarrow> nat list" where
  "mq_walk nx 0 p = []"
| "mq_walk nx (Suc n) p = (case p of None \<Rightarrow> [] | Some k \<Rightarrow> k # mq_walk nx n (nx k))"

fun mq_path :: "(nat \<Rightarrow> nat option) \<Rightarrow> nat option \<Rightarrow> nat list \<Rightarrow> bool" where
  "mq_path nx p [] \<longleftrightarrow> p = None"
| "mq_path nx p (k # ks) \<longleftrightarrow> p = Some k \<and> mq_path nx (nx k) ks"

lemma mq_walk_path: "mq_path nx p ks \<Longrightarrow> length ks \<le> n \<Longrightarrow> mq_walk nx n p = ks"
proof (induction ks arbitrary: n p)
  case Nil
  then show ?case by (cases n) auto
next
  case (Cons k ks)
  then show ?case by (cases n) auto
qed

lemma mq_path_upd: "k \<notin> set ks \<Longrightarrow> mq_path (nx(k := q)) p ks = mq_path nx p ks"
  by (induction ks arbitrary: p) auto

lemma mq_path_None: "mq_path nx None ks \<longleftrightarrow> ks = []"
  by (cases ks) auto

lemma mq_path_Some: "mq_path nx (Some k) ks \<longleftrightarrow> (\<exists>ks'. ks = k # ks' \<and> mq_path nx (nx k) ks')"
  by (cases ks) auto

lemma mq_path_append:
  assumes "mq_path nx p ks" "ks \<noteq> []" "distinct ks" "k \<notin> set ks" "nx k = None"
  shows "mq_path (nx(last ks := Some k)) p (ks @ [k])"
  using assms
proof (induction ks arbitrary: p)
  case (Cons a as)
  show ?case
  proof (cases "as = []")
    case True
    with Cons.prems show ?thesis by auto
  next
    case False
    then have "last as \<noteq> a" using Cons.prems(3) last_in_set by auto
    with Cons False show ?thesis by auto
  qed
qed simp

section \<open>Well-formed queues\<close>

text \<open>
  \<open>mq_shape X mq qs fs\<close>: the queue is the chain \<open>qs\<close>, the free list the chain \<open>fs\<close>, and \<open>X\<close> are the
  nodes in the hands of calls between their two critical sections; each node is in exactly one place.
\<close>

definition mq_shape :: "nat set \<Rightarrow> rt_messagequeue \<Rightarrow> nat list \<Rightarrow> nat list \<Rightarrow> bool" where
  "mq_shape X mq qs fs \<longleftrightarrow>
     mq_path (mq_next mq) (mq_queue_head mq) qs \<and> mq_path (mq_next mq) (mq_queue_free mq) fs \<and>
     mq_queue_tail mq = (if qs = [] then None else Some (last qs)) \<and> distinct (qs @ fs) \<and>
     X \<inter> set (qs @ fs) = {} \<and> X \<union> set (qs @ fs) = {..<unat (mq_max_msgs mq)} \<and>
     unat (mq_entry mq) = length qs \<and>
     (\<forall>k < unat (mq_max_msgs mq). unat (mq_msg_size mq) \<le> length (mq_slot mq k))"

definition mq_queue :: "rt_messagequeue \<Rightarrow> nat list" where
  "mq_queue mq = mq_walk (mq_next mq) (unat (mq_entry mq)) (mq_queue_head mq)"

definition mq_free :: "rt_messagequeue \<Rightarrow> nat list" where
  "mq_free mq = mq_walk (mq_next mq) (unat (mq_max_msgs mq)) (mq_queue_free mq)"

definition mq_ok :: "nat set \<Rightarrow> rt_messagequeue \<Rightarrow> bool" where
  "mq_ok X mq \<longleftrightarrow> mq_object mq \<noteq> Obj_Null \<and> mq_flag mq \<noteq> Bad_Flag \<and> mq_shape X mq (mq_queue mq) (mq_free mq)"

text \<open>The message a node holds, and the messages in the queue.\<close>

definition mq_msg :: "rt_messagequeue \<Rightarrow> nat \<Rightarrow> u8 list" where
  "mq_msg mq k = take (unat (mq_msg_size mq)) (mq_slot mq k)"

definition mq_data :: "rt_messagequeue \<Rightarrow> u8 list list" where
  "mq_data mq = map (mq_msg mq) (mq_queue mq)"

lemma mq_shape_size:
  assumes "mq_shape X mq qs fs"
  shows "card X + length qs + length fs = unat (mq_max_msgs mq)" "finite X"
    "length qs \<le> unat (mq_max_msgs mq)" "length fs \<le> unat (mq_max_msgs mq)"
proof -
  have X: "X \<union> set (qs @ fs) = {..<unat (mq_max_msgs mq)}" "X \<inter> set (qs @ fs) = {}" "distinct (qs @ fs)"
    using assms by (simp_all add: mq_shape_def)
  show f: "finite X" by (rule finite_subset [of _ "{..<unat (mq_max_msgs mq)}"]) (use X(1) in auto)
  have "card (X \<union> set (qs @ fs)) = card X + card (set (qs @ fs))"
    by (rule card_Un_disjoint [OF f _ X(2)]) simp
  then show c: "card X + length qs + length fs = unat (mq_max_msgs mq)"
    using X(1) distinct_card [OF X(3)] by simp
  then show "length qs \<le> unat (mq_max_msgs mq)" "length fs \<le> unat (mq_max_msgs mq)" by simp_all
qed

text \<open>The shape determines the two chains.\<close>

lemma mq_shape_unique:
  assumes "mq_shape X mq qs fs"
  shows "mq_queue mq = qs" "mq_free mq = fs"
  using assms mq_shape_size [OF assms]
  by (auto simp: mq_shape_def mq_queue_def mq_free_def intro!: mq_walk_path)

lemma mq_okI:
  "mq_shape X mq qs fs \<Longrightarrow> mq_object mq \<noteq> Obj_Null \<Longrightarrow> mq_flag mq \<noteq> Bad_Flag \<Longrightarrow>
   mq_ok X mq \<and> mq_queue mq = qs \<and> mq_free mq = fs"
  using mq_shape_unique [of X mq qs fs] by (simp add: mq_ok_def)

section \<open>The pieces of the critical sections\<close>

lemma mq_alloc_shape:
  assumes "mq_shape X mq qs (k # fs)" "mq_queue_free mq = Some k"
  shows "mq_shape (insert k X) (mq_alloc k mq) qs fs" "k \<notin> X" "k < unat (mq_max_msgs mq)"
proof -
  show "mq_shape (insert k X) (mq_alloc k mq) qs fs" "k \<notin> X"
    using assms by (auto simp: mq_shape_def mq_alloc_def)
  have "k \<in> {..<unat (mq_max_msgs mq)}" using assms(1) unfolding mq_shape_def by (metis UnCI list.set_intros(1) in_set_conv_decomp set_append)
  then show "k < unat (mq_max_msgs mq)" by simp
qed

lemma mq_clear_next_shape:
  assumes "mq_shape X mq qs fs" "k \<in> X"
  shows "mq_shape X (mq\<lparr>mq_next := (mq_next mq)(k := p)\<rparr>) qs fs"
proof -
  have "k \<notin> set qs" "k \<notin> set fs" using assms unfolding mq_shape_def by auto
  then show ?thesis using assms(1) by (simp add: mq_shape_def mq_path_upd)
qed

lemma mq_fill_shape:
  assumes s: "mq_shape X mq qs fs" and k: "k \<in> X" and b: "length b \<le> unat (mq_msg_size mq)"
  shows "\<exists>mq'. mq_fill k b mq = Some mq' \<and> mq_shape X mq' qs fs \<and>
    mq_msg mq' k = b @ drop (length b) (mq_msg mq k) \<and> (\<forall>j. j \<noteq> k \<longrightarrow> mq_msg mq' j = mq_msg mq j) \<and>
    mq_next mq' = mq_next mq \<and> mq_msg_size mq' = mq_msg_size mq \<and> mq_max_msgs mq' = mq_max_msgs mq \<and>
    mq_object mq' = mq_object mq \<and> mq_flag mq' = mq_flag mq"
proof -
  have "k \<in> {..<unat (mq_max_msgs mq)}" using s k unfolding mq_shape_def by blast
  then have l: "length b \<le> length (mq_slot mq k)" "unat (mq_msg_size mq) \<le> length (mq_slot mq k)"
    using s b by (force simp: mq_shape_def)+
  let ?d = "b @ drop (length b) (mq_slot mq k)"
  let ?mq = "mq\<lparr>mq_slot := (mq_slot mq)(k := ?d)\<rparr>"
  have "mq_fill k b mq = Some ?mq" using l by (simp add: mq_fill_def mem_write_in)
  moreover have "mq_shape X ?mq qs fs" using s l by (simp add: mq_shape_def)
  moreover have "mq_msg ?mq k = b @ drop (length b) (mq_msg mq k)" using b by (simp add: mq_msg_def drop_take)
  ultimately show ?thesis by (intro exI [of _ ?mq]) (simp add: mq_msg_def)
qed

lemma mq_count_room:
  assumes s: "mq_shape X mq qs fs" and k: "k \<in> X" and e: "mq_entry mq' = mq_entry mq"
  shows "mq_count mq' = (RT_EOK, mq'\<lparr>mq_entry := mq_entry mq + 1\<rparr>)" "unat (mq_entry mq + 1) = length qs + 1"
proof -
  have "card X \<noteq> 0" using mq_shape_size(2) [OF s] k by auto
  moreover have "unat (mq_max_msgs mq) < 65536" by simp
  ultimately have l: "Suc (length qs) < 65536" using mq_shape_size(1) [OF s] by linarith
  have q: "unat (mq_entry mq) = length qs" using s by (simp add: mq_shape_def)
  have "mq_entry mq < 0xffff" using l q by (simp add: word_less_nat_alt)
  then show "mq_count mq' = (RT_EOK, mq'\<lparr>mq_entry := mq_entry mq + 1\<rparr>)"
    by (simp add: mq_count_def RT_MQ_ENTRY_MAX_def e)
  show "unat (mq_entry mq + 1) = length qs + 1" using l q by (simp add: unat_word_ariths)
qed

text \<open>The parts of a queue that linking and unlinking nodes leaves alone.\<close>

definition mq_same :: "rt_messagequeue \<Rightarrow> rt_messagequeue \<Rightarrow> bool" where
  "mq_same mq mq' \<longleftrightarrow> mq_slot mq' = mq_slot mq \<and> mq_msg_size mq' = mq_msg_size mq \<and>
     mq_max_msgs mq' = mq_max_msgs mq \<and> mq_object mq' = mq_object mq \<and> mq_flag mq' = mq_flag mq"

lemma mq_same_msg: "mq_same mq mq' \<Longrightarrow> mq_msg mq' = mq_msg mq"
  by (auto simp: mq_same_def mq_msg_def)

lemma mq_link_tail_shape:
  assumes s: "mq_shape X mq qs fs" and k: "k \<in> X" and n: "mq_next mq k = None"
  shows "\<exists>mq'. mq_link_tail k mq = (RT_EOK, mq') \<and> mq_shape (X - {k}) mq' (qs @ [k]) fs \<and> mq_same mq mq'"
proof -
  have kq: "k \<notin> set qs" "k \<notin> set fs" using s k unfolding mq_shape_def by auto
  let ?mq' = "mq\<lparr>mq_next := (if qs = [] then mq_next mq else (mq_next mq)(last qs := Some k)),
    mq_queue_tail := Some k, mq_queue_head := (if qs = [] then Some k else mq_queue_head mq), mq_entry := mq_entry mq + 1\<rparr>"
  note c = mq_count_room [OF s k]
  have h: "mq_queue_head mq = None \<longleftrightarrow> qs = []" "mq_queue_tail mq = (if qs = [] then None else Some (last qs))"
    using s by (cases qs; auto simp: mq_shape_def)+
  have run: "mq_link_tail k mq = (RT_EOK, ?mq')"
    by (cases "qs = []") (simp_all add: mq_link_tail_def Let_def h c(1))
  have "mq_path (mq_next ?mq') (mq_queue_head ?mq') (qs @ [k])"
    using s n kq mq_path_append [of "mq_next mq" "mq_queue_head mq" qs k] by (simp add: mq_shape_def)
  moreover have "mq_path (mq_next ?mq') (mq_queue_free mq) fs"
  proof (cases "qs = []")
    case True
    with s show ?thesis by (simp add: mq_shape_def)
  next
    case False
    then have "last qs \<in> set qs" by simp
    then have "last qs \<notin> set fs" using s unfolding mq_shape_def by auto
    with False s show ?thesis by (simp add: mq_shape_def mq_path_upd)
  qed
  ultimately have "mq_shape (X - {k}) ?mq' (qs @ [k]) fs"
    using s k kq c(2) unfolding mq_shape_def by simp blast
  with run show ?thesis by (intro exI [of _ ?mq']) (simp add: mq_same_def)
qed

lemma mq_link_head_shape:
  assumes s: "mq_shape X mq qs fs" and k: "k \<in> X"
  shows "\<exists>mq'. mq_link_head k mq = (RT_EOK, mq') \<and> mq_shape (X - {k}) mq' (k # qs) fs \<and> mq_same mq mq'"
proof -
  have kq: "k \<notin> set qs" "k \<notin> set fs" using s k unfolding mq_shape_def by auto
  let ?mq' = "mq\<lparr>mq_next := (mq_next mq)(k := mq_queue_head mq), mq_queue_head := Some k,
    mq_queue_tail := Some (last (k # qs)), mq_entry := mq_entry mq + 1\<rparr>"
  note c = mq_count_room [OF s k]
  have h: "mq_queue_tail mq = (if qs = [] then None else Some (last qs))" using s by (simp add: mq_shape_def)
  have run: "mq_link_head k mq = (RT_EOK, ?mq')"
    by (cases "qs = []") (simp_all add: mq_link_head_def Let_def h c(1))
  have "mq_shape (X - {k}) ?mq' (k # qs) fs"
    using s k kq c(2) unfolding mq_shape_def by (simp add: mq_path_upd) blast
  with run show ?thesis by (intro exI [of _ ?mq']) (simp add: mq_same_def)
qed

lemma mq_unlink_shape:
  assumes s: "mq_shape X mq (k # qs) fs"
  shows "\<exists>mq'. mq_unlink mq = Some (k, mq') \<and> mq_shape (insert k X) mq' qs fs \<and> mq_same mq mq'"
proof -
  let ?mq' = "mq\<lparr>mq_queue_head := mq_next mq k, mq_queue_tail := (if qs = [] then None else mq_queue_tail mq),
    mq_entry := mq_entry mq - 1\<rparr>"
  have u: "unat (mq_entry mq) = Suc (length qs)" using s by (simp add: mq_shape_def)
  then have nz: "mq_entry mq \<noteq> 0" by (metis nat.distinct(1) unsigned_0)
  then have e: "mq_entry mq \<noteq> 0" "unat (mq_entry mq - 1) = length qs" using u by (simp_all add: unat_minus_one)
  have "last qs \<noteq> k" if "qs \<noteq> []" using s that last_in_set [OF that] by (auto simp: mq_shape_def)
  then have run: "mq_unlink mq = Some (k, ?mq')"
    using s e(1) by (cases "qs = []") (simp_all add: mq_unlink_def mq_shape_def word_neq_0_conv)
  have "mq_shape (insert k X) ?mq' qs fs"
    using s e(2) unfolding mq_shape_def by (cases "qs = []") auto
  with run show ?thesis by (intro exI [of _ ?mq']) (simp add: mq_same_def)
qed

lemma mq_release_shape:
  assumes s: "mq_shape X mq qs fs" and k: "k \<in> X"
  shows "mq_shape (X - {k}) (mq_release k mq) qs (k # fs) \<and> mq_same mq (mq_release k mq)"
proof -
  have kq: "k \<notin> set qs" "k \<notin> set fs" using s k unfolding mq_shape_def by auto
  have "mq_shape (X - {k}) (mq_release k mq) qs (k # fs)"
    using s k kq unfolding mq_shape_def mq_release_def by (simp add: mq_path_upd) blast
  then show ?thesis by (simp add: mq_same_def mq_release_def)
qed

text \<open>Flushing ends and moves the whole queue to the free list, whatever calls are in progress.\<close>

definition mq_links :: "rt_messagequeue \<Rightarrow> nat list \<Rightarrow> nat list \<Rightarrow> bool" where
  "mq_links mq qs fs \<longleftrightarrow>
     mq_path (mq_next mq) (mq_queue_head mq) qs \<and> mq_path (mq_next mq) (mq_queue_free mq) fs \<and>
     mq_queue_tail mq = (if qs = [] then None else Some (last qs)) \<and> distinct (qs @ fs)"

lemma mq_flush_links:
  "mq_links mq qs fs \<Longrightarrow>
   \<exists>mq'. mq_flush mq = Some mq' \<and> mq_links mq' [] (rev qs @ fs) \<and> mq_same mq mq'"
proof (induction qs arbitrary: mq fs)
  case Nil
  then have "mq_flush mq = Some mq" by (subst mq_flush.simps) (simp add: mq_links_def)
  with Nil show ?case by (simp add: mq_same_def)
next
  case (Cons k qs)
  let ?mq1 = "if qs = [] then mq\<lparr>mq_queue_head := mq_next mq k, mq_queue_tail := None\<rparr> else mq\<lparr>mq_queue_head := mq_next mq k\<rparr>"
  have "last qs \<noteq> k" if "qs \<noteq> []" using Cons.prems that last_in_set [OF that] by (auto simp: mq_links_def)
  then have step: "mq_flush mq = mq_flush (mq_release k ?mq1)"
    using Cons.prems by (subst mq_flush.simps) (cases "qs = []"; simp add: mq_links_def Let_def)
  have "mq_links (mq_release k ?mq1) qs (k # fs)"
    using Cons.prems by (auto simp: mq_links_def mq_release_def mq_path_upd)
  from Cons.IH [OF this] step show ?case by (auto simp: mq_same_def mq_release_def)
qed

lemma mq_flush_shape:
  assumes s: "mq_shape X mq qs fs"
  shows "\<exists>mq'. mq_flush mq = Some mq' \<and> mq_shape X (mq'\<lparr>mq_entry := 0\<rparr>) [] (rev qs @ fs) \<and> mq_same mq mq'"
proof -
  have "mq_links mq qs fs" using s by (simp add: mq_shape_def mq_links_def)
  from mq_flush_links [OF this] obtain mq' where m: "mq_flush mq = Some mq'" "mq_links mq' [] (rev qs @ fs)"
    "mq_same mq mq'" by blast
  have "mq_shape X (mq'\<lparr>mq_entry := 0\<rparr>) [] (rev qs @ fs)"
    using s m(2,3) unfolding mq_shape_def mq_links_def mq_same_def by simp
  with m show ?thesis by blast
qed

text \<open>Carving the pool: every node in bounds, the last one first on the free list.\<close>

lemma mq_path_cong: "(\<And>k. k \<in> set ks \<Longrightarrow> nx k = nx' k) \<Longrightarrow> mq_path nx p ks = mq_path nx' p ks"
  by (induction ks arbitrary: p) auto

lemma mq_carve_spec:
  assumes "n * (align + 4) \<le> length pool" "m \<le> n"
    "mq_path (mq_next mq) (mq_queue_free mq) (rev [0..<m])" "\<forall>k < m. length (mq_slot mq k) = align"
  shows "\<exists>mq'. mq_carve pool align [m..<n] mq = Some mq' \<and> mq_path (mq_next mq') (mq_queue_free mq') (rev [0..<n]) \<and>
    (\<forall>k < n. length (mq_slot mq' k) = align) \<and> mq_msg_size mq' = mq_msg_size mq \<and> mq_max_msgs mq' = mq_max_msgs mq \<and>
    mq_object mq' = mq_object mq \<and> mq_flag mq' = mq_flag mq \<and> mq_queue_head mq' = mq_queue_head mq \<and>
    mq_queue_tail mq' = mq_queue_tail mq"
  using assms(2-)
proof (induction "n - m" arbitrary: m mq)
  case 0
  then have "m = n" by simp
  with 0 show ?case by simp
next
  case (Suc d)
  then have m: "m < n" by simp
  let ?mq = "mq\<lparr>mq_next := (mq_next mq)(m := mq_queue_free mq),
    mq_slot := (mq_slot mq)(m := take align (drop (m * (align + 4) + 4) pool)), mq_queue_free := Some m\<rparr>"
  have "(m + 1) * (align + 4) \<le> n * (align + 4)" using m by (intro mult_le_mono1) simp
  then have b: "m * (align + 4) + (align + 4) \<le> length pool" using assms(1) by (simp add: add.commute)
  then have step: "mq_carve pool align [m..<n] mq = mq_carve pool align [Suc m..<n] ?mq"
    using m by (simp add: upt_conv_Cons)
  have "mq_path ((mq_next mq)(m := mq_queue_free mq)) (mq_queue_free mq) (rev [0..<m])"
    using Suc.prems(2) by (simp add: mq_path_upd)
  then have p: "mq_path (mq_next ?mq) (mq_queue_free ?mq) (rev [0..<Suc m])" by simp
  have l: "\<forall>k < Suc m. length (mq_slot ?mq k) = align"
    using Suc.prems(3) b by (auto simp: less_Suc_eq)
  have "Suc m \<le> n" "d = n - Suc m" using m Suc.hyps(2) by simp_all
  from Suc.hyps(1) [OF this(2,1) p l] show ?case unfolding step by simp
qed

section \<open>Message queues are channels\<close>

definition mq_inv :: "nat set \<Rightarrow> nat \<Rightarrow> kstate \<Rightarrow> bool" where
  "mq_inv X i s \<longleftrightarrow> kernel_ok s \<and> mq_ok X (the_mq i s)"

text \<open>The room there is: a node in the hands of another call is neither free nor queued.\<close>

definition mq_cap :: "nat set \<Rightarrow> nat \<Rightarrow> kstate \<Rightarrow> nat" where
  "mq_cap X i s = unat (mq_max_msgs (the_mq i s)) - card X"

definition mq_abs :: "nat \<Rightarrow> kstate \<Rightarrow> u8 list channel" where
  "mq_abs i s = (mq_data (the_mq i s), ks_list s (mq_head i), ks_list s (mq_sender_head i))"

abbreviation mq_enq :: "nat \<Rightarrow> tid \<Rightarrow> kstate \<Rightarrow> tid list \<Rightarrow> tid list" where
  "mq_enq i t s \<equiv> enqueued (mq_flag (the_mq i s)) (\<lambda>u. th_current_priority (ks_thread s u)) t"

definition mq_length :: "nat \<Rightarrow> kstate \<Rightarrow> nat" where
  "mq_length i s = unat (mq_msg_size (the_mq i s))"

lemma the_mq_simps [simp]:
  "the_mq i (upd_mq i f s) = f (the_mq i s)"
  "ks_list (upd_mq i f s) = ks_list s" "ks_thread (upd_mq i f s) = ks_thread s"
  "ks_current (upd_mq i f s) = ks_current s" "ks_clk (upd_mq i f s) = ks_clk s"
  "kernel_ok (upd_mq i f s) = kernel_ok s"
  "the_mq i (upd_thread t g s) = the_mq i s"
  by (simp_all add: the_mq_def upd_mq_def)

lemma upd_mq_twice [simp]: "upd_mq i f (upd_mq i g s) = upd_mq i (\<lambda>x. f (g x)) s"
  by (simp add: upd_mq_def upd_ipc_def)

lemma the_mq_cong: "ks_ipc s' = ks_ipc s \<Longrightarrow> the_mq i s' = the_mq i s"
  by (simp add: the_mq_def)

lemma mq_free_empty:
  assumes "mq_inv X i s"
  shows "mq_queue_free (the_mq i s) = None \<longleftrightarrow> mq_free (the_mq i s) = []"
    "length (mq_data (the_mq i s)) \<le> mq_cap X i s"
    "length (mq_data (the_mq i s)) < mq_cap X i s \<longleftrightarrow> mq_queue_free (the_mq i s) \<noteq> None"
    "mq_entry (the_mq i s) = 0 \<longleftrightarrow> mq_data (the_mq i s) = []"
proof -
  have sh: "mq_shape X (the_mq i s) (mq_queue (the_mq i s)) (mq_free (the_mq i s))"
    using assms by (simp add: mq_inv_def mq_ok_def)
  note sz = mq_shape_size [OF sh]
  show e: "mq_queue_free (the_mq i s) = None \<longleftrightarrow> mq_free (the_mq i s) = []"
    using sh by (cases "mq_free (the_mq i s)") (auto simp: mq_shape_def)
  have c: "mq_cap X i s = length (mq_data (the_mq i s)) + length (mq_free (the_mq i s))"
    using sz(1) by (simp add: mq_data_def mq_cap_def)
  show "length (mq_data (the_mq i s)) \<le> mq_cap X i s"
    "length (mq_data (the_mq i s)) < mq_cap X i s \<longleftrightarrow> mq_queue_free (the_mq i s) \<noteq> None"
    unfolding e c by simp_all
  have "unat (mq_entry (the_mq i s)) = length (mq_data (the_mq i s))" using sh by (simp add: mq_shape_def mq_data_def)
  then show "mq_entry (the_mq i s) = 0 \<longleftrightarrow> mq_data (the_mq i s) = []"
    by (metis length_0_conv unsigned_eq_0_iff)
qed

text \<open>What a completed send has done: \<open>add\<close> puts the node into the queue.\<close>

lemma mq_finish_send_spec:
  assumes k: "kernel_ok s" and l: "link (the_mq i s) = (RT_EOK, mq')" and o: "mq_ok X mq'"
  shows "\<exists>s'. mq_finish_send i link s = Some (RT_EOK, s') \<and> mq_inv X i s' \<and> the_mq i s' = mq' \<and>
    ks_list s' (mq_head i) = tl (ks_list s (mq_head i)) \<and> ks_list s' (mq_sender_head i) = ks_list s (mq_sender_head i) \<and>
    wakes_head (ks_list s (mq_head i)) s'"
proof -
  obtain s' where s': "ipc_wake_one (mq_head i) (upd_mq i (\<lambda>_. mq') s) = Some (RT_EOK, s')" "kernel_ok s'"
    "ks_ipc s' = ks_ipc (upd_mq i (\<lambda>_. mq') s)" "ks_list s' (mq_head i) = tl (ks_list s (mq_head i))"
    "ks_list s' (mq_sender_head i) = ks_list s (mq_sender_head i)"
    "\<forall>w ws. ks_list s (mq_head i) = w # ws \<longrightarrow> th_error (ks_thread s' w) = RT_EOK \<and> th_state (ks_thread s' w) \<in> {2, 3}"
    using ipc_wake_one_spec [of "upd_mq i (\<lambda>_. mq') s" "mq_head i"] k by auto
  have "the_mq i s' = mq'" using the_mq_cong [OF s'(3)] by simp
  with s' l o wakes_headI [OF s'(6)] show ?thesis by (simp add: mq_finish_send_def mq_inv_def)
qed

text \<open>Taking a free node and filling it, as both sends do first.\<close>

lemma mq_take_and_fill:
  assumes o: "mq_ok X mq" and f: "mq_queue_free mq = Some k" and b: "length b \<le> unat (mq_msg_size mq)"
  shows "\<exists>mq2 fs. mq_fill k b ((mq_alloc k mq)\<lparr>mq_next := (mq_next mq)(k := p)\<rparr>) = Some mq2 \<and>
      mq_shape (insert k X) mq2 (mq_queue mq) fs \<and> mq_next mq2 k = p \<and>
      mq_msg mq2 k = b @ drop (length b) (mq_msg mq k) \<and> (\<forall>j \<in> set (mq_queue mq). mq_msg mq2 j = mq_msg mq j) \<and>
      mq_msg_size mq2 = mq_msg_size mq \<and> mq_max_msgs mq2 = mq_max_msgs mq \<and> mq_object mq2 = mq_object mq \<and>
      mq_flag mq2 = mq_flag mq \<and> length (mq_msg mq k) = unat (mq_msg_size mq) \<and> k \<notin> X"
proof -
  have sh: "mq_shape X mq (mq_queue mq) (mq_free mq)" using o by (simp add: mq_ok_def)
  then obtain fs where fs: "mq_free mq = k # fs" using f by (cases "mq_free mq") (auto simp: mq_shape_def)
  note a = mq_alloc_shape [OF sh [unfolded fs] f]
  let ?mq1 = "(mq_alloc k mq)\<lparr>mq_next := (mq_next mq)(k := p)\<rparr>"
  have "mq_shape (insert k X) ?mq1 (mq_queue mq) fs"
    using mq_clear_next_shape [OF a(1), of k p] by (simp add: mq_alloc_def)
  from mq_fill_shape [OF this, of k b] b obtain mq2 where m: "mq_fill k b ?mq1 = Some mq2"
    "mq_shape (insert k X) mq2 (mq_queue mq) fs" "mq_msg mq2 k = b @ drop (length b) (mq_msg ?mq1 k)"
    "\<forall>j. j \<noteq> k \<longrightarrow> mq_msg mq2 j = mq_msg ?mq1 j" "mq_next mq2 = mq_next ?mq1"
    "mq_msg_size mq2 = mq_msg_size ?mq1" "mq_max_msgs mq2 = mq_max_msgs ?mq1" "mq_object mq2 = mq_object ?mq1"
    "mq_flag mq2 = mq_flag ?mq1" by (auto simp: mq_alloc_def)
  have kq: "k \<notin> set (mq_queue mq)" using sh unfolding fs by (simp add: mq_shape_def)
  have "mq_msg ?mq1 = mq_msg mq" by (auto simp: mq_msg_def mq_alloc_def)
  moreover have "length (mq_msg mq k) = unat (mq_msg_size mq)"
    using sh a(3) by (simp add: mq_shape_def mq_msg_def)
  ultimately show ?thesis
    using m a(2) kq by (intro exI [of _ mq2] exI [of _ fs]) (auto simp: mq_alloc_def)
qed

lemma map_msg_cong: "\<forall>j \<in> set qs. mq_msg mq' j = mq_msg mq j \<Longrightarrow> map (mq_msg mq') qs = map (mq_msg mq) qs"
  by simp

lemma mq_send_loop_room:
  assumes s: "mq_inv X i s" and f: "mq_queue_free (the_mq i s) \<noteq> None" and b: "length b \<le> mq_length i s"
  shows "\<exists>m s'. mq_send_loop i b timeout sflag s = Some (Ret RT_EOK, s') \<and> mq_inv X i s' \<and>
    mq_cap X i s' = mq_cap X i s \<and> mq_length i s' = mq_length i s \<and>
    length m = mq_length i s \<and> take (length b) m = b \<and>
    mq_abs i s' = (mq_data (the_mq i s) @ [m], tl (ks_list s (mq_head i)), ks_list s (mq_sender_head i)) \<and>
    wakes_head (ks_list s (mq_head i)) s'"
proof -
  let ?mq = "the_mq i s"
  have k0: "kernel_ok s" "mq_ok X ?mq" using s by (simp_all add: mq_inv_def)
  obtain k where k: "mq_queue_free ?mq = Some k" using f by auto
  obtain mq2 fs where m2: "mq_fill k b ((mq_alloc k ?mq)\<lparr>mq_next := (mq_next ?mq)(k := None)\<rparr>) = Some mq2"
    "mq_shape (insert k X) mq2 (mq_queue ?mq) fs" "mq_next mq2 k = None"
    "mq_msg mq2 k = b @ drop (length b) (mq_msg ?mq k)" "\<forall>j \<in> set (mq_queue ?mq). mq_msg mq2 j = mq_msg ?mq j"
    "mq_msg_size mq2 = mq_msg_size ?mq" "mq_max_msgs mq2 = mq_max_msgs ?mq" "mq_object mq2 = mq_object ?mq"
    "mq_flag mq2 = mq_flag ?mq" "length (mq_msg ?mq k) = mq_length i s" "k \<notin> X"
    using mq_take_and_fill [OF k0(2) k, of b None] b by (auto simp: mq_length_def)
  obtain mq3 where m3: "mq_link_tail k mq2 = (RT_EOK, mq3)" "mq_shape X mq3 (mq_queue ?mq @ [k]) fs" "mq_same mq2 mq3"
    using mq_link_tail_shape [OF m2(2) _ m2(3)] m2(11) by auto
  have "mq_object mq3 \<noteq> Obj_Null" "mq_flag mq3 \<noteq> Bad_Flag"
    using m3(3) m2(8,9) k0(2) by (simp_all add: mq_same_def mq_ok_def)
  then have o3: "mq_ok X mq3" "mq_queue mq3 = mq_queue ?mq @ [k]" using mq_okI [OF m3(2)] by blast+
  obtain s' where s': "mq_finish_send i (mq_link_tail k) (upd_mq i (\<lambda>_. mq2) s) = Some (RT_EOK, s')"
    "mq_inv X i s'" "the_mq i s' = mq3" "ks_list s' (mq_head i) = tl (ks_list s (mq_head i))"
    "ks_list s' (mq_sender_head i) = ks_list s (mq_sender_head i)" "wakes_head (ks_list s (mq_head i)) s'"
    using mq_finish_send_spec [of "upd_mq i (\<lambda>_. mq2) s" "mq_link_tail k" i mq3 X] m3(1) o3(1) k0(1) by auto
  let ?m = "b @ drop (length b) (mq_msg ?mq k)"
  have "mq_send_loop i b timeout sflag s = Some (Ret RT_EOK, s')"
    using k m2(1) s'(1) by (simp add: mq_send_loop_def mq_alloc_def)
  moreover have "mq_data mq3 = mq_data ?mq @ [?m]"
    using o3(2) mq_same_msg [OF m3(3)] m2(4,5) by (simp add: mq_data_def)
  moreover have "length ?m = mq_length i s" using b m2(10) by simp
  ultimately show ?thesis
    using s' m2(6,7) m3(3) by (intro exI [of _ ?m] exI [of _ s']) (simp add: mq_cap_def mq_length_def mq_abs_def mq_same_def)
qed

lemma mq_urgent_room:
  assumes s: "mq_inv X i s" and f: "mq_queue_free (the_mq i s) \<noteq> None" and b: "b \<noteq> []" "length b \<le> mq_length i s"
  shows "\<exists>m s'. rt_mq_urgent i b s = Some (RT_EOK, s') \<and> mq_inv X i s' \<and>
    mq_cap X i s' = mq_cap X i s \<and> mq_length i s' = mq_length i s \<and>
    length m = mq_length i s \<and> take (length b) m = b \<and>
    mq_abs i s' = (m # mq_data (the_mq i s), tl (ks_list s (mq_head i)), ks_list s (mq_sender_head i)) \<and>
    wakes_head (ks_list s (mq_head i)) s'"
proof -
  let ?mq = "the_mq i s"
  have k0: "kernel_ok s" "mq_ok X ?mq" "mq_object ?mq \<noteq> Obj_Null" using s by (simp_all add: mq_inv_def mq_ok_def)
  obtain k where k: "mq_queue_free ?mq = Some k" using f by auto
  obtain mq2 fs where m2: "mq_fill k b (mq_alloc k ?mq) = Some mq2"
    "mq_shape (insert k X) mq2 (mq_queue ?mq) fs"
    "mq_msg mq2 k = b @ drop (length b) (mq_msg ?mq k)" "\<forall>j \<in> set (mq_queue ?mq). mq_msg mq2 j = mq_msg ?mq j"
    "mq_msg_size mq2 = mq_msg_size ?mq" "mq_max_msgs mq2 = mq_max_msgs ?mq" "mq_object mq2 = mq_object ?mq"
    "mq_flag mq2 = mq_flag ?mq" "length (mq_msg ?mq k) = mq_length i s" "k \<notin> X"
    using mq_take_and_fill [OF k0(2) k, of b "mq_next ?mq k"] b by (auto simp: mq_length_def mq_alloc_def)
  obtain mq3 where m3: "mq_link_head k mq2 = (RT_EOK, mq3)" "mq_shape X mq3 (k # mq_queue ?mq) fs" "mq_same mq2 mq3"
    using mq_link_head_shape [OF m2(2) insertI1] m2(10) by auto
  have "mq_object mq3 \<noteq> Obj_Null" "mq_flag mq3 \<noteq> Bad_Flag"
    using m3(3) m2(7,8) k0(2) by (simp_all add: mq_same_def mq_ok_def)
  then have o3: "mq_ok X mq3" "mq_queue mq3 = k # mq_queue ?mq" using mq_okI [OF m3(2)] by blast+
  obtain s' where s': "mq_finish_send i (mq_link_head k) (upd_mq i (\<lambda>_. mq2) s) = Some (RT_EOK, s')"
    "mq_inv X i s'" "the_mq i s' = mq3" "ks_list s' (mq_head i) = tl (ks_list s (mq_head i))"
    "ks_list s' (mq_sender_head i) = ks_list s (mq_sender_head i)" "wakes_head (ks_list s (mq_head i)) s'"
    using mq_finish_send_spec [of "upd_mq i (\<lambda>_. mq2) s" "mq_link_head k" i mq3 X] m3(1) o3(1) k0(1) by auto
  let ?m = "b @ drop (length b) (mq_msg ?mq k)"
  have "rt_mq_urgent i b s = Some (RT_EOK, s')"
    using k k0(3) b m2(1) s'(1) by (simp add: rt_mq_urgent_def mq_length_def)
  moreover have "mq_data mq3 = ?m # mq_data ?mq"
    using o3(2) mq_same_msg [OF m3(3)] m2(3,4) by (simp add: mq_data_def)
  moreover have "length ?m = mq_length i s" using b m2(9) by simp
  ultimately show ?thesis
    using s' m2(5,6) m3(3) by (intro exI [of _ ?m] exI [of _ s']) (simp add: mq_cap_def mq_length_def mq_abs_def mq_same_def)
qed

lemma mq_recv_loop_some:
  assumes s: "mq_inv X i s" and d: "mq_data (the_mq i s) = m # ms"
  shows "\<exists>s'. mq_recv_loop i sz timeout sflag s = Some (Ret RT_EOK, Some (take sz m), s') \<and> mq_inv X i s' \<and>
    mq_cap X i s' = mq_cap X i s \<and> mq_length i s' = mq_length i s \<and>
    mq_abs i s' = (ms, ks_list s (mq_head i), tl (ks_list s (mq_sender_head i))) \<and>
    wakes_head (ks_list s (mq_sender_head i)) s'"
proof -
  let ?mq = "the_mq i s"
  have k0: "kernel_ok s" "mq_ok X ?mq" using s by (simp_all add: mq_inv_def)
  have e: "mq_entry ?mq \<noteq> 0" using mq_free_empty(4) [OF s] d by simp
  obtain k qs where q: "mq_queue ?mq = k # qs" "m = mq_msg ?mq k" "ms = map (mq_msg ?mq) qs"
    using d by (cases "mq_queue ?mq") (auto simp: mq_data_def)
  have sh: "mq_shape X ?mq (k # qs) (mq_free ?mq)" using k0(2) q(1) by (simp add: mq_ok_def)
  obtain mq2 where m2: "mq_unlink ?mq = Some (k, mq2)" "mq_shape (insert k X) mq2 qs (mq_free ?mq)" "mq_same ?mq mq2"
    using mq_unlink_shape [OF sh] by blast
  note m3 = mq_release_shape [OF m2(2), of k, simplified]
  have kX: "k \<notin> X" using sh by (simp add: mq_shape_def)
  have l: "unat (mq_msg_size mq2) \<le> length (mq_slot mq2 k)"
  proof -
    have "k \<in> {..<unat (mq_max_msgs mq2)}" using m2(2) unfolding mq_shape_def by blast
    then show ?thesis using m2(2) by (simp add: mq_shape_def)
  qed
  have sh3: "mq_shape X (mq_release k mq2) qs (k # mq_free ?mq)" using m3 kX by simp
  have "mq_object (mq_release k mq2) \<noteq> Obj_Null" "mq_flag (mq_release k mq2) \<noteq> Bad_Flag"
    using m3 m2(3) k0(2) by (simp_all add: mq_same_def mq_ok_def)
  then have o3: "mq_ok X (mq_release k mq2)" "mq_queue (mq_release k mq2) = qs" using mq_okI [OF sh3] by blast+
  obtain s' where s': "ipc_wake_one (mq_sender_head i) (upd_mq i (\<lambda>_. mq_release k mq2) s) = Some (RT_EOK, s')" "kernel_ok s'"
    "ks_ipc s' = ks_ipc (upd_mq i (\<lambda>_. mq_release k mq2) s)" "ks_list s' (mq_sender_head i) = tl (ks_list s (mq_sender_head i))"
    "ks_list s' (mq_head i) = ks_list s (mq_head i)"
    "\<forall>w ws. ks_list s (mq_sender_head i) = w # ws \<longrightarrow> th_error (ks_thread s' w) = RT_EOK \<and> th_state (ks_thread s' w) \<in> {2, 3}"
    using ipc_wake_one_spec [of "upd_mq i (\<lambda>_. mq_release k mq2) s" "mq_sender_head i"] k0(1) by auto
  have t: "the_mq i s' = mq_release k mq2" using the_mq_cong [OF s'(3)] by simp
  have "take (if unat (mq_msg_size mq2) < sz then unat (mq_msg_size mq2) else sz) (mq_slot mq2 k) = take sz m"
    using q(2) m2(3) by (simp add: mq_msg_def mq_same_def min_def)
  moreover have "(if unat (mq_msg_size mq2) < sz then unat (mq_msg_size mq2) else sz) \<le> length (mq_slot mq2 k)"
    using l by simp
  ultimately have "mq_recv_loop i sz timeout sflag s = Some (Ret RT_EOK, Some (take sz m), s')"
    using e m2(1) s'(1) by (simp add: mq_recv_loop_def)
  moreover have "mq_msg (mq_release k mq2) = mq_msg ?mq" using mq_same_msg m2(3) m3 by metis
  ultimately show ?thesis
    using s'(1-5) wakes_headI [OF s'(6)] o3 q(3) m2(3) m3 by (simp add: mq_inv_def mq_cap_def mq_length_def mq_abs_def mq_data_def mq_same_def t)
qed

text \<open>The loops when the queue is full, or empty.\<close>

lemma mq_send_loop_full:
  assumes s: "mq_inv X i s" and e: "mq_queue_free (the_mq i s) = None" and t: "may_block t s"
    and f: "sflag \<noteq> Bad_Suspend_Flag" and k: "timeout_ok timeout" and tm: "timeout \<noteq> 0"
  shows "\<exists>s'. mq_send_loop i b timeout sflag s = Some (Blocked, s') \<and> mq_inv X i s' \<and> the_mq i s' = the_mq i s \<and>
    mq_abs i s' = (mq_data (the_mq i s), ks_list s (mq_head i), enqueued (mq_flag (the_mq i s))
      (\<lambda>u. th_current_priority (ks_thread s u)) t (ks_list s (mq_sender_head i))) \<and> left_waiting t timeout s s'"
proof -
  have k0: "kernel_ok s" and fl: "mq_flag (the_mq i s) \<noteq> Bad_Flag" using s by (simp_all add: mq_inv_def mq_ok_def)
  have c: "ks_current s = Some t" using t by (simp add: may_block_def)
  from block_on_reset [OF k0 t fl f _ k, of "mq_sender_head i"] obtain s' where
    s': "block_on (mq_sender_head i) t (mq_flag (the_mq i s)) sflag timeout
      (upd_thread t (\<lambda>th. th\<lparr>th_error := - RT_EINTR\<rparr>) s) = Some (Blocked, s')" "kernel_ok s'" "ks_ipc s' = ks_ipc s"
    and w: "ks_list s' (mq_sender_head i) = enqueued (mq_flag (the_mq i s))
        (\<lambda>u. th_current_priority (ks_thread s u)) t (ks_list s (mq_sender_head i))"
      "ks_list s' (mq_head i) = ks_list s (mq_head i)" "left_waiting t timeout s s'" by (auto simp: left_waiting_def)
  note m = the_mq_cong [OF s'(3)]
  have "mq_send_loop i b timeout sflag s = Some (Blocked, s')"
    using e tm c s'(1) by (simp add: mq_send_loop_def rt_thread_self_def)
  with s s'(2) w show ?thesis by (simp add: mq_inv_def mq_abs_def m)
qed

lemma mq_recv_loop_empty:
  assumes s: "mq_inv X i s" and e: "mq_data (the_mq i s) = []" and t: "may_block t s"
    and f: "sflag \<noteq> Bad_Suspend_Flag" and k: "timeout_ok timeout" and tm: "timeout \<noteq> 0"
  shows "\<exists>s'. mq_recv_loop i sz timeout sflag s = Some (Blocked, None, s') \<and> mq_inv X i s' \<and> the_mq i s' = the_mq i s \<and>
    mq_abs i s' = ([], enqueued (mq_flag (the_mq i s))
      (\<lambda>u. th_current_priority (ks_thread s u)) t (ks_list s (mq_head i)), ks_list s (mq_sender_head i)) \<and>
    left_waiting t timeout s s'"
proof -
  have k0: "kernel_ok s" and fl: "mq_flag (the_mq i s) \<noteq> Bad_Flag" using s by (simp_all add: mq_inv_def mq_ok_def)
  have c: "ks_current s = Some t" using t by (simp add: may_block_def)
  from block_on_reset [OF k0 t fl f _ k, of "mq_head i"] obtain s' where
    s': "block_on (mq_head i) t (mq_flag (the_mq i s)) sflag timeout
      (upd_thread t (\<lambda>th. th\<lparr>th_error := - RT_EINTR\<rparr>) s) = Some (Blocked, s')" "kernel_ok s'" "ks_ipc s' = ks_ipc s"
    and w: "ks_list s' (mq_head i) = enqueued (mq_flag (the_mq i s))
        (\<lambda>u. th_current_priority (ks_thread s u)) t (ks_list s (mq_head i))"
      "ks_list s' (mq_sender_head i) = ks_list s (mq_sender_head i)" "left_waiting t timeout s s'" by (auto simp: left_waiting_def)
  note m = the_mq_cong [OF s'(3)]
  have "mq_recv_loop i sz timeout sflag s = Some (Blocked, None, s')"
    using e mq_free_empty(4) [OF s] tm c s'(1) by (simp add: mq_recv_loop_def rt_thread_self_def)
  with s s'(2) w e show ?thesis by (simp add: mq_inv_def mq_abs_def m)
qed

text \<open>The loops, on every path.\<close>

lemma mq_send_loop_spec:
  assumes s: "mq_inv X i s" and t: "mq_queue_free (the_mq i s) = None \<Longrightarrow> may_block t s" and b: "length b \<le> mq_length i s"
    and f: "sflag \<noteq> Bad_Suspend_Flag" and k: "timeout_ok timeout"
  shows "\<exists>r s' m. mq_send_loop i b timeout sflag s = Some (r, s') \<and> mq_inv X i s' \<and> mq_cap X i s' = mq_cap X i s \<and>
    mq_length i s' = mq_length i s \<and> length m = mq_length i s \<and> take (length b) m = b \<and>
    send_result (mq_cap X i s) timeout (mq_enq i t s) t m (mq_abs i s) s r (mq_abs i s') s'"
proof (cases "mq_queue_free (the_mq i s) = None")
  case False
  from mq_send_loop_room [OF s False b, of timeout sflag] obtain m s' where
    "mq_send_loop i b timeout sflag s = Some (Ret RT_EOK, s')" "mq_inv X i s'" "mq_cap X i s' = mq_cap X i s"
    "mq_length i s' = mq_length i s" "length m = mq_length i s" "take (length b) m = b"
    "mq_abs i s' = (mq_data (the_mq i s) @ [m], tl (ks_list s (mq_head i)), ks_list s (mq_sender_head i))"
    "wakes_head (ks_list s (mq_head i)) s'" by blast
  with False mq_free_empty(3) [OF s] show ?thesis
    by (intro exI [of _ "Ret RT_EOK"] exI [of _ s'] exI [of _ m]) (simp add: mq_abs_def send_result_def)
next
  case True
  note tb = t [OF True]
  let ?pad = "b @ replicate (mq_length i s - length b) 0"
  have pad: "length ?pad = mq_length i s" "take (length b) ?pad = b" using b by simp_all
  have full: "\<not> length (mq_data (the_mq i s)) < mq_cap X i s" using mq_free_empty(3) [OF s] True by simp
  show ?thesis
  proof (cases "timeout = 0")
    case poll: True
    let ?s' = "upd_thread t (\<lambda>th. th\<lparr>th_error := - RT_EINTR\<rparr>) s"
    have "mq_send_loop i b timeout sflag s = Some (Ret (- RT_EFULL), ?s')"
      using True poll tb by (simp add: mq_send_loop_def rt_thread_self_def may_block_def)
    moreover have "mq_inv X i ?s'" using s upd_error_ok by (simp add: mq_inv_def)
    ultimately show ?thesis using pad full poll
      by (intro exI [of _ "Ret (- RT_EFULL)"] exI [of _ ?s'] exI [of _ ?pad])
        (simp add: mq_abs_def mq_cap_def mq_length_def send_result_def)
  next
    case False
    from mq_send_loop_full [OF s True tb f k False, of b] obtain s' where
      s': "mq_send_loop i b timeout sflag s = Some (Blocked, s')" "mq_inv X i s'" "the_mq i s' = the_mq i s"
      "mq_abs i s' = (mq_data (the_mq i s), ks_list s (mq_head i), mq_enq i t s (ks_list s (mq_sender_head i)))"
      "left_waiting t timeout s s'" by blast
    moreover have "mq_abs i s = (mq_data (the_mq i s), ks_list s (mq_head i), ks_list s (mq_sender_head i))" by (simp add: mq_abs_def)
    ultimately show ?thesis using False full pad
      by (intro exI [of _ Blocked] exI [of _ s'] exI [of _ ?pad]) (simp add: mq_cap_def mq_length_def send_result_def)
  qed
qed

lemma mq_recv_loop_spec:
  assumes s: "mq_inv X i s" and t: "mq_data (the_mq i s) = [] \<Longrightarrow> may_block t s"
    and f: "sflag \<noteq> Bad_Suspend_Flag" and k: "timeout_ok timeout"
  shows "\<exists>r m s'. mq_recv_loop i sz timeout sflag s = Some (r, map_option (take sz) m, s') \<and> mq_inv X i s' \<and>
    mq_cap X i s' = mq_cap X i s \<and> mq_length i s' = mq_length i s \<and>
    recv_result timeout (mq_enq i t s) t (mq_abs i s) s r m (mq_abs i s') s'"
proof (cases "mq_data (the_mq i s)")
  case (Cons m ms)
  have a: "mq_abs i s = (m # ms, ks_list s (mq_head i), ks_list s (mq_sender_head i))" using Cons by (simp add: mq_abs_def)
  from mq_recv_loop_some [OF s Cons, of sz timeout sflag] show ?thesis
    unfolding a by (force simp: recv_result_def)
next
  case Nil
  note tb = t [OF Nil]
  have a: "mq_abs i s = ([], ks_list s (mq_head i), ks_list s (mq_sender_head i))" using Nil by (simp add: mq_abs_def)
  show ?thesis
  proof (cases "timeout = 0")
    case True
    let ?s1 = "upd_thread t (\<lambda>th. th\<lparr>th_error := - RT_EINTR\<rparr>) s"
    let ?s' = "upd_thread t (\<lambda>th. th\<lparr>th_error := - RT_ETIMEOUT\<rparr>) ?s1"
    have "mq_recv_loop i sz timeout sflag s = Some (Ret (- RT_ETIMEOUT), map_option (take sz) None, ?s')"
      using True Nil tb mq_free_empty(4) [OF s] by (simp add: mq_recv_loop_def rt_thread_self_def may_block_def)
    moreover have "mq_inv X i ?s'" using s upd_error_ok by (simp add: mq_inv_def)
    moreover have "recv_result timeout (mq_enq i t s) t (mq_abs i s) s (Ret (- RT_ETIMEOUT)) None (mq_abs i ?s') ?s'"
      using True Nil by (simp add: recv_result_def mq_abs_def)
    moreover have "mq_cap X i ?s' = mq_cap X i s" "mq_length i ?s' = mq_length i s" by (simp_all add: mq_cap_def mq_length_def)
    ultimately show ?thesis by blast
  next
    case False
    from mq_recv_loop_empty [OF s Nil tb f k False, of sz] obtain s' where
      s': "mq_recv_loop i sz timeout sflag s = Some (Blocked, None, s')" "mq_inv X i s'" "the_mq i s' = the_mq i s"
      "mq_abs i s' = ([], mq_enq i t s (ks_list s (mq_head i)), ks_list s (mq_sender_head i))" "left_waiting t timeout s s'" by blast
    with False show ?thesis unfolding a
      by (intro exI [of _ Blocked] exI [of _ None] exI [of _ s']) (simp add: mq_cap_def mq_length_def recv_result_def)
  qed
qed

text \<open>The calls: the test before the loop differs from the loop only in the error field it leaves.\<close>

lemma mq_send_wait_spec:
  assumes s: "mq_inv X i s" and t: "timeout \<noteq> 0 \<longrightarrow> may_block t s" and b: "b \<noteq> []" "length b \<le> mq_length i s"
    and f: "sflag \<noteq> Bad_Suspend_Flag" and k: "timeout_ok timeout"
  shows "\<exists>r s' m. mq_send_wait i b timeout sflag s = Some (r, s') \<and> mq_inv X i s' \<and> mq_cap X i s' = mq_cap X i s \<and>
    mq_length i s' = mq_length i s \<and> length m = mq_length i s \<and> take (length b) m = b \<and>
    send_result (mq_cap X i s) timeout (mq_enq i t s) t m (mq_abs i s) s r (mq_abs i s') s' \<and> (r = Ret (- RT_EFULL) \<longrightarrow> s' = s)"
proof -
  have o: "mq_object (the_mq i s) \<noteq> Obj_Null" using s by (simp add: mq_inv_def mq_ok_def)
  note fe = mq_free_empty(3) [OF s]
  let ?pad = "b @ replicate (mq_length i s - length b) 0"
  have pad: "length ?pad = mq_length i s" "take (length b) ?pad = b" using b by simp_all
  have run: "mq_send_wait i b timeout sflag s =
      (if mq_queue_free (the_mq i s) = None \<and> timeout = 0 then Some (Ret (- RT_EFULL), s)
       else mq_send_loop i b timeout sflag s)"
    using o b t may_block_available [of t s] by (auto simp: mq_send_wait_def mq_length_def)
  show ?thesis
  proof (cases "mq_queue_free (the_mq i s) = None \<and> timeout = 0")
    case True
    with fe s pad show ?thesis unfolding run
      by (intro exI [of _ "Ret (- RT_EFULL)"] exI [of _ s] exI [of _ ?pad]) (simp add: mq_abs_def send_result_def)
  next
    case False
    have t': "may_block t s" if "mq_queue_free (the_mq i s) = None" using False that t by simp
    from mq_send_loop_spec [OF s t' b(2) f k] obtain r s' m where
      l: "mq_send_loop i b timeout sflag s = Some (r, s')" "mq_inv X i s'" "mq_cap X i s' = mq_cap X i s"
      "mq_length i s' = mq_length i s" "length m = mq_length i s" "take (length b) m = b"
      "send_result (mq_cap X i s) timeout (mq_enq i t s) t m (mq_abs i s) s r (mq_abs i s') s'" by blast
    moreover have "r \<noteq> Ret (- RT_EFULL)"
      using l(7) False fe by (auto simp: send_result_def mq_abs_def split: if_splits)
    ultimately show ?thesis using False unfolding run by auto
  qed
qed

lemma mq_recv_spec:
  assumes s: "mq_inv X i s" and t: "timeout \<noteq> 0 \<longrightarrow> may_block t s" and z: "sz \<noteq> 0"
    and f: "sflag \<noteq> Bad_Suspend_Flag" and k: "timeout_ok timeout"
  shows "\<exists>r m s'. mq_recv i sz timeout sflag s = Some (r, map_option (take sz) m, s') \<and> mq_inv X i s' \<and>
    mq_cap X i s' = mq_cap X i s \<and> mq_length i s' = mq_length i s \<and>
    recv_result timeout (mq_enq i t s) t (mq_abs i s) s r m (mq_abs i s') s' \<and> (r = Ret (- RT_ETIMEOUT) \<longrightarrow> s' = s)"
proof -
  have o: "mq_object (the_mq i s) \<noteq> Obj_Null" using s by (simp add: mq_inv_def mq_ok_def)
  note en = mq_free_empty(4) [OF s]
  have run: "mq_recv i sz timeout sflag s =
      (if mq_data (the_mq i s) = [] \<and> timeout = 0 then Some (Ret (- RT_ETIMEOUT), None, s)
       else mq_recv_loop i sz timeout sflag s)"
    using o z t may_block_available [of t s] en by (auto simp: mq_recv_def)
  show ?thesis
  proof (cases "mq_data (the_mq i s) = [] \<and> timeout = 0")
    case True
    with s show ?thesis unfolding run
      by (intro exI [of _ "Ret (- RT_ETIMEOUT)"] exI [of _ None] exI [of _ s]) (simp add: mq_abs_def recv_result_def)
  next
    case False
    have t': "may_block t s" if "mq_data (the_mq i s) = []" using False that t by simp
    from mq_recv_loop_spec [OF s t' f k] obtain r m s' where
      l: "mq_recv_loop i sz timeout sflag s = Some (r, map_option (take sz) m, s')" "mq_inv X i s'" "mq_cap X i s' = mq_cap X i s"
      "mq_length i s' = mq_length i s" "recv_result timeout (mq_enq i t s) t (mq_abs i s) s r m (mq_abs i s') s'" by blast
    moreover have "r \<noteq> Ret (- RT_ETIMEOUT)"
      using l(5) False by (cases "mq_data (the_mq i s)") (auto simp: recv_result_def mq_abs_def)
    ultimately show ?thesis using False unfolding run by auto
  qed
qed

text \<open>A caller that runs again after a wait.\<close>

lemma mq_resume_spec:
  assumes s: "mq_inv X i s" and t: "may_block t s" and b: "length b \<le> mq_length i s" and f: "sflag \<noteq> Bad_Suspend_Flag" and k: "timeout_ok timeout"
    and n: "unat (ck_tick (ks_clk s) - start) < 2 ^ 31"
  defines "left \<equiv> remaining_time timeout start (ck_tick (ks_clk s))"
  shows "if th_error (ks_thread s t) \<noteq> RT_EOK
    then mq_send_resume i b timeout start sflag s = Some (Ret (th_error (ks_thread s t)), s) \<and>
      mq_recv_resume i sz timeout start sflag s = Some (Ret (th_error (ks_thread s t)), None, s)
    else (\<exists>r s' m. mq_send_resume i b timeout start sflag s = Some (r, s') \<and> mq_inv X i s' \<and> mq_cap X i s' = mq_cap X i s \<and>
        mq_length i s' = mq_length i s \<and> length m = mq_length i s \<and> take (length b) m = b \<and>
        send_result (mq_cap X i s) left (mq_enq i t s) t m (mq_abs i s) s r (mq_abs i s') s') \<and>
      (\<exists>r m s'. mq_recv_resume i sz timeout start sflag s = Some (r, map_option (take sz) m, s') \<and> mq_inv X i s' \<and>
        mq_cap X i s' = mq_cap X i s \<and> mq_length i s' = mq_length i s \<and>
        recv_result left (mq_enq i t s) t (mq_abs i s) s r m (mq_abs i s') s')"
proof -
  have c: "ks_current s = Some t" using t by (simp add: may_block_def)
  have l: "timeout_ok left" unfolding left_def by (rule remaining_time_ok [OF k n])
  show ?thesis
    using mq_send_loop_spec [OF s t b f l] mq_recv_loop_spec [OF s t f l, of sz] c
    by (simp add: mq_send_resume_def mq_recv_resume_def rt_thread_self_def left_def)
qed

lemma mq_data_length:
  assumes "mq_inv X i s" "m \<in> set (mq_data (the_mq i s))"
  shows "length m = mq_length i s"
proof -
  have sh: "mq_shape X (the_mq i s) (mq_queue (the_mq i s)) (mq_free (the_mq i s))"
    using assms by (simp add: mq_inv_def mq_ok_def)
  obtain k where k: "k \<in> set (mq_queue (the_mq i s))" "m = mq_msg (the_mq i s) k" using assms(2) by (auto simp: mq_data_def)
  have "k \<in> {..<unat (mq_max_msgs (the_mq i s))}" using sh k(1) unfolding mq_shape_def by auto
  then show ?thesis using sh k(2) by (simp add: mq_shape_def mq_msg_def mq_length_def)
qed

text \<open>
  For messages of the full size \<open>n\<close> the queue is a channel: what is sent is what is received.
\<close>

interpretation mqq: channel "\<lambda>m. length m = n" "\<lambda>s. mq_inv X i s \<and> mq_length i s = n \<and> 0 < n" "mq_cap X i" "mq_abs i"
    "rt_mq_send i" "rt_mq_recv i n 0"
proof
  fix s
  assume "mq_inv X i s \<and> mq_length i s = n \<and> 0 < n"
  then have s: "mq_inv X i s" and n: "mq_length i s = n" "0 < n" by simp_all
  note d = mq_free_empty [OF s]
  have sp: "\<exists>r s'. rt_mq_send i m s = Some (r, s') \<and> mq_inv X i s' \<and> mq_cap X i s' = mq_cap X i s \<and> mq_length i s' = n \<and>
      (case abs_send (mq_cap X i s) False id m (mq_abs i s) of
         (Done, a) \<Rightarrow> r = Ret RT_EOK \<and> mq_abs i s' = a | (Refused, a) \<Rightarrow> r = Ret (- RT_EFULL) \<and> s' = s | _ \<Rightarrow> True)"
    if m: "length m = n" for m
  proof -
    have "m \<noteq> []" "length m \<le> mq_length i s" using m n by auto
    from mq_send_wait_spec [OF s _ this, of 0 undefined RT_UNINTERRUPTIBLE] m n show ?thesis
      unfolding rt_mq_send_def rt_mq_send_wait_def by (auto simp: timeout_ok_def mq_abs_def send_result_def)
  qed
  show "length (fst (mq_abs i s)) \<le> mq_cap X i s" using d(2) by (simp add: mq_abs_def)
  show "\<exists>s'. rt_mq_send i m s = Some (Ret RT_EOK, s') \<and> (mq_inv X i s' \<and> mq_length i s' = n \<and> 0 < n) \<and> mq_cap X i s' = mq_cap X i s \<and>
      mq_abs i s' = snd (abs_send (mq_cap X i s) False id m (mq_abs i s))"
    if "length m = n" "length (fst (mq_abs i s)) < mq_cap X i s" for m
    using sp [of m] that n(2) by (auto simp: mq_abs_def)
  show "\<exists>e. e \<noteq> RT_EOK \<and> rt_mq_send i m s = Some (Ret e, s)"
    if "length m = n" "length (fst (mq_abs i s)) = mq_cap X i s" for m
    using sp [of m] that n(2) by (auto simp: mq_abs_def)
  note rc = mq_recv_spec [OF s _ _, of 0 undefined n RT_UNINTERRUPTIBLE, unfolded recv_result_def, simplified timeout_ok_def, simplified]
  show "\<exists>s'. rt_mq_recv i n 0 s = Some (Ret RT_EOK, Some (hd (fst (mq_abs i s))), s') \<and>
      (mq_inv X i s' \<and> mq_length i s' = n \<and> 0 < n) \<and> mq_cap X i s' = mq_cap X i s \<and>
      mq_abs i s' = snd (snd (abs_recv False id (mq_abs i s)))"
    if ne: "fst (mq_abs i s) \<noteq> []"
  proof -
    obtain m ms where m: "mq_data (the_mq i s) = m # ms" using ne by (cases "mq_data (the_mq i s)") (auto simp: mq_abs_def)
    then have "length m = n" using mq_data_length [OF s, of m] n by simp
    with rc m n show ?thesis by (auto simp: rt_mq_recv_def mq_abs_def)
  qed
  show "\<exists>e. e \<noteq> RT_EOK \<and> rt_mq_recv i n 0 s = Some (Ret e, None, s)" if "fst (mq_abs i s) = []"
    using rc that n by (auto simp: rt_mq_recv_def mq_abs_def)
qed

section \<open>Interleaved calls\<close>

text \<open>
  Interrupts are enabled while a call copies the bytes of a message, so the critical sections of
  different calls interleave. A state of the queue with the nodes \<open>X\<close> in the hands of such calls, those
  of \<open>S\<close> by senders that have cleared the link; one step is one critical section, or one step of the
  code between two.
\<close>

inductive mq_step :: "nat set \<times> nat set \<times> rt_messagequeue \<Rightarrow> nat set \<times> nat set \<times> rt_messagequeue \<Rightarrow> bool" where
  take_free: "mq_queue_free mq = Some k \<Longrightarrow> mq_step (X, S, mq) (insert k X, S, mq_alloc k mq)"
| clear_next: "k \<in> X \<Longrightarrow> mq_step (X, S, mq) (X, insert k S, mq\<lparr>mq_next := (mq_next mq)(k := None)\<rparr>)"
| copy_in: "k \<in> X \<Longrightarrow> length b \<le> unat (mq_msg_size mq) \<Longrightarrow> mq_fill k b mq = Some mq' \<Longrightarrow> mq_step (X, S, mq) (X, S, mq')"
| queue_tail: "k \<in> S \<Longrightarrow> mq_link_tail k mq = (r, mq') \<Longrightarrow> mq_step (X, S, mq) (X - {k}, S - {k}, mq')"
| queue_head: "k \<in> X - S \<Longrightarrow> mq_link_head k mq = (r, mq') \<Longrightarrow> mq_step (X, S, mq) (X - {k}, S, mq')"
| take_head: "mq_entry mq \<noteq> 0 \<Longrightarrow> mq_unlink mq = Some (k, mq') \<Longrightarrow> mq_step (X, S, mq) (insert k X, S, mq')"
| give_back: "k \<in> X - S \<Longrightarrow> mq_step (X, S, mq) (X - {k}, S, mq_release k mq)"
| flush: "mq_flush mq = Some mq' \<Longrightarrow> mq_step (X, S, mq) (X, S, mq'\<lparr>mq_entry := 0\<rparr>)"

inductive_cases mq_stepE: "mq_step (X, S, mq) p"

definition mq_safe :: "nat set \<times> nat set \<times> rt_messagequeue \<Rightarrow> bool" where
  "mq_safe = (\<lambda>(X, S, mq). S \<subseteq> X \<and> (\<forall>k \<in> S. mq_next mq k = None) \<and> (\<exists>qs fs. mq_shape X mq qs fs))"

lemma mq_link_tail_next:
  "mq_shape X mq qs fs \<Longrightarrow> j \<in> X \<Longrightarrow> mq_link_tail k mq = (r, mq') \<Longrightarrow> mq_next mq' j = mq_next mq j"
proof -
  assume s: "mq_shape X mq qs fs" and j: "j \<in> X" and l: "mq_link_tail k mq = (r, mq')"
  have "mq_queue_tail mq \<noteq> Some j" using s j last_in_set [of qs] unfolding mq_shape_def by auto
  then show ?thesis
    using l by (auto simp: mq_link_tail_def mq_count_def Let_def split: option.splits if_splits)
qed

lemma mq_flush_next:
  "mq_path (mq_next mq) (mq_queue_head mq) qs \<Longrightarrow> distinct qs \<Longrightarrow> mq_flush mq = Some mq' \<Longrightarrow> j \<notin> set qs \<Longrightarrow>
   mq_next mq' j = mq_next mq j"
proof (induction qs arbitrary: mq)
  case Nil
  from Nil.prems(3) show ?case using Nil.prems(1) by (subst (asm) mq_flush.simps) simp
next
  case (Cons k qs)
  let ?mq1 = "if mq_queue_tail mq = Some k then mq\<lparr>mq_queue_head := mq_next mq k, mq_queue_tail := None\<rparr>
    else mq\<lparr>mq_queue_head := mq_next mq k\<rparr>"
  have h: "mq_queue_head mq = Some k" using Cons.prems(1) by simp
  have f: "mq_flush (mq_release k ?mq1) = Some mq'"
    using Cons.prems(3) h by (subst (asm) mq_flush.simps) (simp add: Let_def split: if_splits)
  have p: "mq_path (mq_next (mq_release k ?mq1)) (mq_queue_head (mq_release k ?mq1)) qs"
    using Cons.prems(1,2) by (simp add: mq_release_def mq_path_upd)
  have "mq_next mq' j = mq_next (mq_release k ?mq1) j"
    using Cons.IH [OF p _ f] Cons.prems(2,4) by simp
  then show ?case using Cons.prems(4) by (simp add: mq_release_def)
qed

lemma mq_step_safe:
  assumes "mq_step p p'" "mq_safe p"
  shows "mq_safe p'"
  using assms
proof (cases rule: mq_step.cases)
  case (take_free mq k X S)
  then obtain qs fs where s: "S \<subseteq> X" "\<forall>k \<in> S. mq_next mq k = None" "mq_shape X mq qs fs" using assms(2) by (auto simp: mq_safe_def)
  then obtain fs' where "fs = k # fs'" using take_free(3) by (cases fs) (auto simp: mq_shape_def)
  from mq_alloc_shape(1) [OF s(3) [unfolded this] take_free(3)] s take_free(2) show ?thesis
    by (auto simp: mq_safe_def mq_alloc_def)
next
  case (clear_next k X S mq)
  then show ?thesis using assms(2) mq_clear_next_shape [of X mq _ _ k None] by (auto simp: mq_safe_def)
next
  case (copy_in k X b mq mq' S)
  then obtain qs fs where s: "S \<subseteq> X" "\<forall>k \<in> S. mq_next mq k = None" "mq_shape X mq qs fs" using assms(2) by (auto simp: mq_safe_def)
  from mq_fill_shape [OF s(3) copy_in(3,4)] copy_in(5) s copy_in(2) show ?thesis by (auto simp: mq_safe_def)
next
  case (queue_tail k S mq r mq' X)
  then obtain qs fs where s: "S \<subseteq> X" "\<forall>k \<in> S. mq_next mq k = None" "mq_shape X mq qs fs" using assms(2) by (auto simp: mq_safe_def)
  from mq_link_tail_shape [OF s(3), of k] s queue_tail(3,4) have "mq_shape (X - {k}) mq' (qs @ [k]) fs" by auto
  moreover have "mq_next mq' j = None" if "j \<in> S" for j
    using mq_link_tail_next [OF s(3) _ queue_tail(4), of j] s(1,2) that by auto
  ultimately show ?thesis using s(1) queue_tail(2) by (auto simp: mq_safe_def)
next
  case (queue_head k X S mq r mq')
  then obtain qs fs where s: "S \<subseteq> X" "\<forall>k \<in> S. mq_next mq k = None" "mq_shape X mq qs fs" using assms(2) by (auto simp: mq_safe_def)
  from mq_link_head_shape [OF s(3), of k] queue_head(3,4) have "mq_shape (X - {k}) mq' (k # qs) fs" by auto
  moreover have "mq_next mq' j = None" if "j \<in> S" for j
  proof -
    have "mq_next mq' j = mq_next mq j"
      using queue_head(3,4) that by (auto simp: mq_link_head_def mq_count_def Let_def split: if_splits)
    then show ?thesis using s(2) that by simp
  qed
  ultimately show ?thesis using s(1) queue_head(2,3) by (auto simp: mq_safe_def)
next
  case (take_head mq k mq' X S)
  then obtain qs fs where s: "S \<subseteq> X" "\<forall>k \<in> S. mq_next mq k = None" "mq_shape X mq qs fs" using assms(2) by (auto simp: mq_safe_def)
  have "mq_queue_head mq = Some k" "mq_next mq' = mq_next mq"
    using take_head(4) by (auto simp: mq_unlink_def Let_def split: bind_splits)
  then obtain qs' where q: "qs = k # qs'" using s(3) by (cases qs) (auto simp: mq_shape_def)
  from mq_unlink_shape [OF s(3) [unfolded q]] take_head(4) s take_head(2) \<open>mq_next mq' = mq_next mq\<close> show ?thesis
    by (auto simp: mq_safe_def)
next
  case (give_back k X S mq)
  then obtain qs fs where s: "S \<subseteq> X" "\<forall>k \<in> S. mq_next mq k = None" "mq_shape X mq qs fs" using assms(2) by (auto simp: mq_safe_def)
  have "\<forall>j \<in> S. mq_next (mq_release k mq) j = None" using s(2) give_back(3) by (simp add: mq_release_def)
  with mq_release_shape [OF s(3), of k] s(1) give_back(2,3) show ?thesis by (auto simp: mq_safe_def)
next
  case (flush mq mq' X S)
  then obtain qs fs where s: "S \<subseteq> X" "\<forall>k \<in> S. mq_next mq k = None" "mq_shape X mq qs fs" using assms(2) by (auto simp: mq_safe_def)
  have "mq_next mq' j = None" if "j \<in> S" for j
  proof -
    have "j \<notin> set qs" using s(1,3) that by (auto simp: mq_shape_def)
    with mq_flush_next [OF _ _ flush(3), of qs j] s(2,3) that show ?thesis by (simp add: mq_shape_def)
  qed
  with mq_flush_shape [OF s(3)] s(1) flush(2,3) show ?thesis by (auto simp: mq_safe_def)
qed

lemma mq_steps_safe: "mq_step\<^sup>*\<^sup>* p p' \<Longrightarrow> mq_safe p \<Longrightarrow> mq_safe p'"
  by (induction rule: rtranclp_induct) (auto intro: mq_step_safe)

section \<open>Initialisation\<close>

lemma list_set_same [simp]: "ks_list s h = xs \<Longrightarrow> list_set h xs s = s"
  by (auto simp: list_set_def)

lemma mq_lists_init_spec:
  assumes n: "unat (mq_max_msgs mq) * (align + 4) \<le> length pool" and l: "unat (mq_msg_size mq) \<le> align"
  shows "\<exists>mq'. mq_lists_init pool align mq = Some mq' \<and> mq_shape {} mq' [] (rev [0..<unat (mq_max_msgs mq)]) \<and>
    mq_msg_size mq' = mq_msg_size mq \<and> mq_max_msgs mq' = mq_max_msgs mq \<and> mq_object mq' = mq_object mq \<and>
    mq_flag mq' = mq_flag mq"
proof -
  let ?mq = "mq\<lparr>mq_queue_head := None, mq_queue_tail := None, mq_queue_free := None\<rparr>" and ?n = "unat (mq_max_msgs mq)"
  from mq_carve_spec [OF n, of 0 ?mq] obtain mq' where m: "mq_carve pool align [0..<?n] ?mq = Some mq'"
    "mq_path (mq_next mq') (mq_queue_free mq') (rev [0..<?n])" "\<forall>k < ?n. length (mq_slot mq' k) = align"
    "mq_msg_size mq' = mq_msg_size mq" "mq_max_msgs mq' = mq_max_msgs mq" "mq_object mq' = mq_object mq"
    "mq_flag mq' = mq_flag mq" "mq_queue_head mq' = None" "mq_queue_tail mq' = None" by auto
  have "mq_shape {} (mq'\<lparr>mq_entry := 0\<rparr>) [] (rev [0..<?n])"
    using m(2,3,4,5,8,9) l by (auto simp: mq_shape_def)
  then show ?thesis using m by (simp add: mq_lists_init_def)
qed

lemma mq_init_run:
  assumes "flag \<noteq> Bad_Flag" "mq_object (the_mq i s) = Obj_Null" "ks_list s (mq_head i) = []" "ks_list s (mq_sender_head i) = []"
    and a: "align = RT_ALIGN msg_size RT_ALIGN_SIZE" and n: "n = word_of_nat (pool_size div add32 align 4)"
  shows "rt_mq_init i pool msg_size pool_size flag s =
    (let mq = (the_mq i s)\<lparr>mq_object := Obj_Static, mq_flag := flag, mq_msg_size := word_of_nat msg_size, mq_max_msgs := n\<rparr> in
     if n = 0 then Some (- RT_EINVAL, upd_mq i (\<lambda>_. mq) s)
     else map_option (\<lambda>mq. (RT_EOK, upd_mq i (\<lambda>_. mq) s)) (mq_lists_init pool align mq))"
proof -
  have u: "upd_mq i (\<lambda>x. (the_mq i s)\<lparr>mq_object := Obj_Static, mq_flag := flag, mq_msg_size := word_of_nat msg_size, mq_max_msgs := n'\<rparr>) s =
    upd_mq i (\<lambda>x. x\<lparr>mq_object := Obj_Static, mq_flag := flag, mq_msg_size := word_of_nat msg_size, mq_max_msgs := n'\<rparr>) s" for n'
    by (simp add: upd_mq_def the_mq_def upd_ipc_def)
  show ?thesis
    using assms(1-4) u unfolding rt_mq_init_def Let_def a [symmetric] n [symmetric]
    by (simp add: map_option_case split: option.splits)
qed

section \<open>Properties\<close>

lemma mq_urgent_spec:
  assumes s: "mq_inv X i s" and b: "b \<noteq> []" "length b \<le> mq_length i s"
  shows "\<exists>e s'. rt_mq_urgent i b s = Some (e, s') \<and> mq_inv X i s' \<and> mq_cap X i s' = mq_cap X i s \<and> mq_length i s' = mq_length i s \<and>
    (if length (fst (mq_abs i s)) < mq_cap X i s
     then e = RT_EOK \<and> wakes_head (fst (snd (mq_abs i s))) s' \<and>
       (\<exists>m. length m = mq_length i s \<and> take (length b) m = b \<and>
          mq_abs i s' = (m # fst (mq_abs i s), tl (fst (snd (mq_abs i s))), snd (snd (mq_abs i s))))
     else e = - RT_EFULL \<and> s' = s)"
proof (cases "mq_queue_free (the_mq i s)")
  case None
  with s b mq_free_empty(3) [OF s] show ?thesis
    by (simp add: rt_mq_urgent_def mq_inv_def mq_ok_def mq_length_def mq_abs_def)
next
  case (Some k)
  have f: "mq_queue_free (the_mq i s) \<noteq> None" using Some by simp
  from mq_urgent_room [OF s f b] mq_free_empty(3) [OF s] f show ?thesis
    by (fastforce simp: mq_abs_def)
qed

text \<open>
  C19: Sending to and receiving from a message queue refine the abstract channel: a message is copied into
  a free node and appended, and the first waiting receiver made runnable with RT_EOK; without a free node the send returns
  -RT_EFULL and changes nothing, or suspends the caller in the queue of senders with its timer set; a receive copies the
  oldest message, up to the size of its buffer, frees the node and wakes the first waiting sender, or
  returns -RT_ETIMEOUT, or suspends the caller. A caller that runs again after such a wait returns the error the wait ended
  with, or goes on by the same rules with the time it has left. An urgent message goes to the front. No copy leaves a node,
  also while other calls hold nodes.
\<close>
theorem message_queue_calls_refine_channel:
  assumes "mq_inv X i s" "timeout \<noteq> 0 \<longrightarrow> may_block t s" "b \<noteq> []" "length b \<le> mq_length i s" "sz \<noteq> 0"
    "sflag \<noteq> Bad_Suspend_Flag" "timeout_ok timeout"
  shows "(\<exists>r s' m. mq_send_wait i b timeout sflag s = Some (r, s') \<and> mq_inv X i s' \<and> mq_cap X i s' = mq_cap X i s \<and>
      mq_length i s' = mq_length i s \<and> length m = mq_length i s \<and> take (length b) m = b \<and>
      send_result (mq_cap X i s) timeout (mq_enq i t s) t m (mq_abs i s) s r (mq_abs i s') s' \<and> (r = Ret (- RT_EFULL) \<longrightarrow> s' = s)) \<and>
    (\<exists>r m s'. mq_recv i sz timeout sflag s = Some (r, map_option (take sz) m, s') \<and> mq_inv X i s' \<and>
      mq_cap X i s' = mq_cap X i s \<and> mq_length i s' = mq_length i s \<and>
      recv_result timeout (mq_enq i t s) t (mq_abs i s) s r m (mq_abs i s') s' \<and> (r = Ret (- RT_ETIMEOUT) \<longrightarrow> s' = s)) \<and>
    (may_block t s \<and> unat (ck_tick (ks_clk s) - start) < 2 ^ 31 \<longrightarrow>
      (if th_error (ks_thread s t) \<noteq> RT_EOK
       then mq_send_resume i b timeout start sflag s = Some (Ret (th_error (ks_thread s t)), s) \<and>
         mq_recv_resume i sz timeout start sflag s = Some (Ret (th_error (ks_thread s t)), None, s)
       else (\<exists>r s' m. mq_send_resume i b timeout start sflag s = Some (r, s') \<and> mq_inv X i s' \<and> mq_cap X i s' = mq_cap X i s \<and>
           mq_length i s' = mq_length i s \<and> length m = mq_length i s \<and> take (length b) m = b \<and>
           send_result (mq_cap X i s) (remaining_time timeout start (ck_tick (ks_clk s))) (mq_enq i t s) t m (mq_abs i s) s r (mq_abs i s') s') \<and>
         (\<exists>r m s'. mq_recv_resume i sz timeout start sflag s = Some (r, map_option (take sz) m, s') \<and> mq_inv X i s' \<and>
           mq_cap X i s' = mq_cap X i s \<and> mq_length i s' = mq_length i s \<and>
           recv_result (remaining_time timeout start (ck_tick (ks_clk s))) (mq_enq i t s) t (mq_abs i s) s r m (mq_abs i s') s'))) \<and>
    (\<exists>e s'. rt_mq_urgent i b s = Some (e, s') \<and> mq_inv X i s' \<and> mq_cap X i s' = mq_cap X i s \<and> mq_length i s' = mq_length i s \<and>
      (if length (fst (mq_abs i s)) < mq_cap X i s
       then e = RT_EOK \<and> wakes_head (fst (snd (mq_abs i s))) s' \<and>
         (\<exists>m. length m = mq_length i s \<and> take (length b) m = b \<and>
            mq_abs i s' = (m # fst (mq_abs i s), tl (fst (snd (mq_abs i s))), snd (snd (mq_abs i s))))
       else e = - RT_EFULL \<and> s' = s))"
  by (intro conjI impI mq_send_wait_spec [OF assms(1-4,6,7)] mq_recv_spec [OF assms(1,2,5-7)] mq_urgent_spec [OF assms(1,3,4)])
    (rule mq_resume_spec [OF assms(1) _ assms(4,6,7)]; simp)

text \<open>
  A message queue delivers messages in order and unchanged: over any run of rt_mq_send and
  non-waiting rt_mq_recv calls with messages of the queue's size, the messages in the queue at first
  followed by those accepted are those delivered followed by those in the queue at last.
\<close>
lemma message_queue_is_fifo:
  assumes "mq_inv X i s" "0 < mq_length i s" "\<forall>m. Enq m \<in> set ops \<longrightarrow> length m = mq_length i s"
    "fifo_run (accepted (rt_mq_send i)) (delivered (rt_mq_recv i (mq_length i s) 0)) ops s = (acc, del, s')"
  shows "mq_inv X i s' \<and> mq_data (the_mq i s) @ acc = del @ mq_data (the_mq i s')"
  using mqq.run_fifo [OF _ assms(3,4), of X] assms(1,2) by (auto simp: mq_abs_def)

text \<open>
  C7: Copying with interrupts enabled is safe: however the critical sections of sends, urgent sends,
  receives and resets on one queue interleave, each node stays in exactly one place (free, queued, or in
  the hands of one call), the entry count is the length of the queue, and a receive that saw a non-zero
  count finds a node.
\<close>
theorem message_queue_sections_interleave_safely:
  assumes "mq_ok {} mq" "mq_step\<^sup>*\<^sup>* ({}, {}, mq) (X, S, mq')"
  shows "(\<exists>qs fs. mq_shape X mq' qs fs) \<and> (mq_entry mq' \<noteq> 0 \<longrightarrow> mq_unlink mq' \<noteq> None)"
proof -
  have "mq_safe ({}, {}, mq)" using assms(1) by (auto simp: mq_safe_def mq_ok_def)
  then have "mq_safe (X, S, mq')" by (rule mq_steps_safe [OF assms(2)])
  then obtain qs fs where s: "mq_shape X mq' qs fs" by (auto simp: mq_safe_def)
  have "mq_unlink mq' \<noteq> None" if "mq_entry mq' \<noteq> 0"
  proof -
    have "unat (mq_entry mq') \<noteq> 0" using that by (simp add: unsigned_eq_0_iff)
    then obtain k ks where "qs = k # ks" using s by (cases qs) (auto simp: mq_shape_def)
    with mq_unlink_shape [of X mq' k ks fs] s show ?thesis by auto
  qed
  with s show ?thesis by blast
qed

text \<open>
  rt_mq_init cuts the pool into as many nodes as fit and gives an empty queue that satisfies the
  invariant; no node leaves the pool. When not even one fits it returns -RT_EINVAL but has registered the
  object all the same: the control block cannot be initialised again.
\<close>
lemma mq_init_carves_pool:
  assumes "kernel_ok s" "mq_object (the_mq i s) = Obj_Null" "flag \<noteq> Bad_Flag"
    "ks_list s (mq_head i) = []" "ks_list s (mq_sender_head i) = []"
    "msg_size < 0x10000" "length pool = pool_size" "pool_size < 2 ^ 32" "n = pool_size div (RT_ALIGN msg_size RT_ALIGN_SIZE + 4)" "n < 0x10000"
  shows "\<exists>e s'. rt_mq_init i pool msg_size pool_size flag s = Some (e, s') \<and>
    (if n = 0 then e = - RT_EINVAL \<and> (\<forall>pool' msg_size' pool_size'. rt_mq_init i pool' msg_size' pool_size' flag s' = None)
     else e = RT_EOK \<and> mq_inv {} i s' \<and> mq_abs i s' = ([], [], []) \<and> mq_cap {} i s' = n \<and> mq_length i s' = msg_size)"
proof -
  have "(msg_size + 7) mod 8 \<le> 7" by simp
  moreover have "RT_ALIGN msg_size RT_ALIGN_SIZE = msg_size + 7 - (msg_size + 7) mod 8"
    using assms(6) by (intro RT_ALIGN_8) simp
  ultimately have al: "msg_size \<le> RT_ALIGN msg_size RT_ALIGN_SIZE" "RT_ALIGN msg_size RT_ALIGN_SIZE < 0x10008"
    using assms(6) by linarith+
  then have add: "add32 (RT_ALIGN msg_size RT_ALIGN_SIZE) 4 = RT_ALIGN msg_size RT_ALIGN_SIZE + 4" by (simp add: add32_small)
  define w :: u16 where "w = word_of_nat (pool_size div add32 (RT_ALIGN msg_size RT_ALIGN_SIZE) 4)"
  have w: "unat w = n" using assms(9,10) by (simp add: w_def add unat_of_nat)
  have ms: "unat (word_of_nat msg_size :: u16) = msg_size" using assms(6) by (simp add: unat_of_nat)
  note run = mq_init_run [OF assms(3,2,4,5) refl w_def, of pool]
  let ?mq = "(the_mq i s)\<lparr>mq_object := Obj_Static, mq_flag := flag, mq_msg_size := word_of_nat msg_size, mq_max_msgs := w\<rparr>"
  show ?thesis
  proof (cases "n = 0")
    case True
    then have "w = 0" using w by (simp add: unsigned_eq_0_iff)
    then have "rt_mq_init i pool msg_size pool_size flag s = Some (- RT_EINVAL, upd_mq i (\<lambda>_. ?mq) s)"
      unfolding run by simp
    moreover have "rt_mq_init i pool' msg_size' pool_size' flag (upd_mq i (\<lambda>_. ?mq) s) = None" for pool' msg_size' pool_size'
      by (simp add: rt_mq_init_def rt_assert_def)
    ultimately show ?thesis using True by simp
  next
    case False
    then have w0: "w \<noteq> 0" using w by auto
    have "n * (RT_ALIGN msg_size RT_ALIGN_SIZE + 4) \<le> length pool" unfolding assms(7,9) by (rule div_times_less_eq_dividend)
    with mq_lists_init_spec [of ?mq "RT_ALIGN msg_size RT_ALIGN_SIZE" pool] w al(1) ms obtain mq' where
      m: "mq_lists_init pool (RT_ALIGN msg_size RT_ALIGN_SIZE) ?mq = Some mq'" "mq_shape {} mq' [] (rev [0..<n])"
      "mq_msg_size mq' = word_of_nat msg_size" "mq_max_msgs mq' = w" "mq_object mq' = Obj_Static" "mq_flag mq' = flag" by auto
    have "mq_ok {} mq'" "mq_queue mq' = []" using mq_okI [OF m(2)] m(5,6) assms(3) by auto
    with m w0 w ms assms(1,4,5) False show ?thesis
      unfolding run by (simp add: mq_inv_def mq_abs_def mq_data_def mq_cap_def mq_length_def)
  qed
qed

text \<open>The sample system: queue 6, with two nodes for messages of four bytes, empty.\<close>

lemma sample_mq: "the_mq 6 sample_kernel = \<lparr>mq_object = Obj_Static, mq_flag = FIFO, mq_next = (\<lambda>_. None)(1 := Some 0),
    mq_slot = (\<lambda>_. replicate 8 0), mq_msg_size = 4, mq_max_msgs = 2, mq_entry = 0,
    mq_queue_head = None, mq_queue_tail = None, mq_queue_free = Some 1\<rparr>"
  by (simp add: the_mq_def sample_kernel_def sample_ipc_def)

lemma sample_mq_ok: "mq_ok {} (the_mq 6 sample_kernel)" "mq_queue (the_mq 6 sample_kernel) = []"
proof -
  have "mq_shape {} (the_mq 6 sample_kernel) [] [1, 0]" by (auto simp: mq_shape_def sample_mq)
  from mq_okI [OF this] show "mq_ok {} (the_mq 6 sample_kernel)" "mq_queue (the_mq 6 sample_kernel) = []"
    by (simp_all add: sample_mq)
qed

lemma sample_mq_inv: "mq_inv {} 6 sample_kernel" "mq_cap {} 6 sample_kernel = 2" "mq_length 6 sample_kernel = 4"
    "mq_abs 6 sample_kernel = ([], [], [])" "mq_data (the_mq 6 sample_kernel) = []"
proof -
  have l: "ks_list sample_kernel (mq_head 6) = []" "ks_list sample_kernel (mq_sender_head 6) = []"
    by (simp_all add: sample_kernel_def)
  show "mq_inv {} 6 sample_kernel" using sample_kernel_kernel_ok sample_mq_ok by (simp add: mq_inv_def)
  show "mq_cap {} 6 sample_kernel = 2" "mq_length 6 sample_kernel = 4"
    by (simp_all add: mq_cap_def mq_length_def sample_mq)
  show "mq_data (the_mq 6 sample_kernel) = []" using sample_mq_ok by (simp add: mq_data_def)
  then show "mq_abs 6 sample_kernel = ([], [], [])" by (simp add: mq_abs_def l)
qed

text \<open>Thread 1 waits for a message; one is sent, and thread 1 can run.\<close>

theorem message_queue_calls_refine_channel_witness:
  "\<exists>s1 s2 m. mq_recv 6 4 10 RT_UNINTERRUPTIBLE sample_kernel = Some (Blocked, None, s1) \<and> th_suspended (ks_thread s1 1) \<and>
     mq_send_wait 6 [1, 2] 0 RT_UNINTERRUPTIBLE s1 = Some (Ret RT_EOK, s2) \<and> mq_abs 6 s2 = ([m], [], []) \<and> take 2 m = [1, 2] \<and>
     th_error (ks_thread s2 1) = RT_EOK \<and> th_state (ks_thread s2 1) \<in> {2, 3}"
proof -
  have t: "timeout_ok 10" "timeout_ok 0" by (simp_all add: timeout_ok_def)
  from message_queue_calls_refine_channel [OF sample_mq_inv(1) _ _ _ _ _ t(1), of 1 "[1, 2]" 4 RT_UNINTERRUPTIBLE undefined] obtain s1 where
    s1: "mq_recv 6 4 10 RT_UNINTERRUPTIBLE sample_kernel = Some (Blocked, None, s1)" "mq_inv {} 6 s1" "mq_cap {} 6 s1 = 2" "mq_length 6 s1 = 4"
      "mq_abs 6 s1 = ([], [1], [])" "th_suspended (ks_thread s1 1)"
    using sample_may_block by (auto simp: sample_mq_inv recv_result_def left_waiting_def enqueued_def sample_mq)
  from message_queue_calls_refine_channel [OF s1(2) _ _ _ _ _ t(2), of undefined "[1, 2]" 4 RT_UNINTERRUPTIBLE undefined] obtain s2 m where
    "mq_send_wait 6 [1, 2] 0 RT_UNINTERRUPTIBLE s1 = Some (Ret RT_EOK, s2)" "mq_abs 6 s2 = ([m], [], [])" "wakes_head [1] s2" "take 2 m = [1, 2]"
    by (auto simp: s1(3,4,5) send_result_def numeral_2_eq_2)
  with s1 show ?thesis by (auto simp: wakes_head_def)
qed

lemma message_queue_is_fifo_witness:
  "\<exists>acc del s'. fifo_run (accepted (rt_mq_send 6)) (delivered (rt_mq_recv 6 4 0)) [Enq [1, 2, 3, 4], Deq] sample_kernel = (acc, del, s') \<and>
     acc = del @ mq_data (the_mq 6 s')"
proof -
  obtain acc del s' where r: "fifo_run (accepted (rt_mq_send 6)) (delivered (rt_mq_recv 6 (mq_length 6 sample_kernel) 0))
    [Enq [1, 2, 3, 4], Deq] sample_kernel = (acc, del, s')" by (metis prod_cases3)
  from message_queue_is_fifo [OF sample_mq_inv(1) _ _ r] r show ?thesis by (auto simp: sample_mq_inv)
qed

theorem message_queue_sections_interleave_safely_witness:
  "\<exists>qs fs. mq_shape {1} (mq_alloc 1 (the_mq 6 sample_kernel)) qs fs"
proof -
  have "mq_step ({}, {}, the_mq 6 sample_kernel) (insert 1 {}, {}, mq_alloc 1 (the_mq 6 sample_kernel))"
    by (rule mq_step.take_free) (simp add: sample_mq)
  then show ?thesis
    using message_queue_sections_interleave_safely [OF sample_mq_ok(1), of "{1}" "{}"] by blast
qed

lemma mq_init_carves_pool_witness:
  "\<exists>s s'. rt_mq_init 6 (replicate 40 0) 5 40 FIFO s = Some (RT_EOK, s') \<and> mq_cap {} 6 s' = 3"
proof -
  let ?s = "upd_mq 6 (\<lambda>x. x\<lparr>mq_object := Obj_Null\<rparr>) sample_kernel"
  have "RT_ALIGN 5 RT_ALIGN_SIZE = 8" by (simp add: RT_ALIGN_8)
  moreover have "ks_list ?s (mq_head 6) = []" "ks_list ?s (mq_sender_head 6) = []"
    by (simp_all add: sample_kernel_def)
  moreover have "kernel_ok ?s" "mq_object (the_mq 6 ?s) = Obj_Null" using sample_kernel_kernel_ok by simp_all
  ultimately obtain e s' where "rt_mq_init 6 (replicate 40 0) 5 40 FIFO ?s = Some (e, s')" "e = RT_EOK" "mq_cap {} 6 s' = 3"
    using mq_init_carves_pool [of ?s 6 FIFO 5 "replicate 40 0" 40 3] by auto
  then show ?thesis by blast
qed

end
