(* ===== verification/Allocator.thy ===== *)
theory Allocator
  imports Prelude
begin

text \<open>
  The interface of a memory allocator: what the small-memory heap (\<open>src/mem.c\<close>) and the fixed-block
  pool (\<open>src/mempool.c\<close>) promise to their clients. The lemma about a client's run of calls is proved
  once, in the locale.
\<close>

text \<open>A block is its first data byte and its length in bytes.\<close>

type_synonym block = "nat \<times> nat"

definition apart :: "block \<Rightarrow> block \<Rightarrow> bool" where
  "apart a b \<longleftrightarrow> fst a + snd a \<le> fst b \<or> fst b + snd b \<le> fst a"

definition all_apart :: "block set \<Rightarrow> bool" where
  "all_apart B \<longleftrightarrow> (\<forall>a \<in> B. \<forall>b \<in> B. a \<noteq> b \<longrightarrow> apart a b)"

lemma all_apart_subset: "all_apart B \<Longrightarrow> A \<subseteq> B \<Longrightarrow> all_apart A"
  unfolding all_apart_def by blast

lemma all_apart_insert:
  "all_apart B \<Longrightarrow> (\<And>b. b \<in> B \<Longrightarrow> apart a b) \<Longrightarrow> all_apart (insert a B)"
  by (auto simp: all_apart_def apart_def)

text \<open>
  A client that asks for blocks and gives back blocks it holds, the \<open>k\<close>-th of those, newest first. The
  result is what it holds at the end: for each block its address and the size it asked for.
\<close>

datatype alloc_op = Alloc nat | Free nat

fun alloc_run :: "(nat \<Rightarrow> 's \<Rightarrow> (nat option \<times> 's) option) \<Rightarrow> (nat \<Rightarrow> 's \<Rightarrow> 's option) \<Rightarrow> alloc_op list \<Rightarrow>
    block list \<Rightarrow> 's \<Rightarrow> (block list \<times> 's) option" where
  "alloc_run alloc dealloc [] held s = Some (held, s)"
| "alloc_run alloc dealloc (Alloc n # ops) held s =
     (case alloc n s of
        None \<Rightarrow> None
      | Some (None, s) \<Rightarrow> alloc_run alloc dealloc ops held s
      | Some (Some p, s) \<Rightarrow> alloc_run alloc dealloc ops ((p, n) # held) s)"
| "alloc_run alloc dealloc (Free k # ops) held s =
     (if k < length held
      then (case dealloc (fst (held ! k)) s of
              None \<Rightarrow> None
            | Some s \<Rightarrow> alloc_run alloc dealloc ops (take k held @ drop (Suc k) held) s)
      else alloc_run alloc dealloc ops held s)"

locale allocator =
  fixes ok_size :: "nat \<Rightarrow> bool"
    and inv :: "'s \<Rightarrow> bool"
    and live :: "'s \<Rightarrow> block set"
    and alloc :: "nat \<Rightarrow> 's \<Rightarrow> (nat option \<times> 's) option"
    and dealloc :: "nat \<Rightarrow> 's \<Rightarrow> 's option"
  assumes live_apart: "inv s \<Longrightarrow> all_apart (live s)"
    and live_pos: "inv s \<Longrightarrow> (p, n) \<in> live s \<Longrightarrow> 0 < n"
    and alloc_ok: "inv s \<Longrightarrow> ok_size n \<Longrightarrow> \<exists>r s'. alloc n s = Some (r, s') \<and> inv s' \<and>
      (case r of None \<Rightarrow> live s' = live s
       | Some p \<Rightarrow> \<exists>m. n \<le> m \<and> (p, m) \<notin> live s \<and> live s' = insert (p, m) (live s))"
    and dealloc_ok: "inv s \<Longrightarrow> (p, n) \<in> live s \<Longrightarrow>
      \<exists>s'. dealloc p s = Some s' \<and> inv s' \<and> live s' = live s - {(p, n)}"
begin

text \<open>Each block held lies in a live block of its own, which starts where it starts.\<close>

definition holds :: "block list \<Rightarrow> 's \<Rightarrow> bool" where
  "holds held s \<longleftrightarrow> distinct (map fst held) \<and> (\<forall>(p, n) \<in> set held. \<exists>m. n \<le> m \<and> (p, m) \<in> live s)"

lemma live_unique:
  assumes "inv s" "(p, m) \<in> live s" "(p, n) \<in> live s"
  shows "m = n"
proof (rule ccontr)
  assume "m \<noteq> n"
  then have "apart (p, m) (p, n)"
    using live_apart [OF assms(1)] assms(2,3) unfolding all_apart_def by (metis prod.inject)
  then show False using live_pos [OF assms(1)] assms(2,3) by (auto simp: apart_def)
qed

lemma holds_apart:
  assumes "inv s" "holds held s" "i < length held" "j < length held" "i \<noteq> j"
  shows "apart (held ! i) (held ! j)"
proof -
  obtain p n q k where h: "held ! i = (p, n)" "held ! j = (q, k)" by (metis prod.collapse)
  have "map fst held ! i \<noteq> map fst held ! j"
    using nth_eq_iff_index_eq [of "map fst held" i j] assms(2-5) by (simp add: holds_def)
  then have pq: "p \<noteq> q" using assms(3,4) h by simp
  have "(p, n) \<in> set held" "(q, k) \<in> set held" using assms(3,4) h nth_mem by metis+
  moreover have "\<exists>m. n \<le> m \<and> (p, m) \<in> live s" if "(p, n) \<in> set held" for p n
    using assms(2) that unfolding holds_def by blast
  ultimately obtain m l where ml: "n \<le> m" "(p, m) \<in> live s" "k \<le> l" "(q, l) \<in> live s" by meson
  then have "apart (p, m) (q, l)" using live_apart [OF assms(1)] pq by (auto simp: all_apart_def)
  then show ?thesis using ml h by (auto simp: apart_def)
qed

lemma holds_alloc:
  assumes s: "inv s" and h: "holds held s" and l: "n \<le> m" "(p, m) \<notin> live s" "live s' = insert (p, m) (live s)" and s': "inv s'"
  shows "holds ((p, n) # held) s'"
proof -
  have "p \<notin> fst ` set held"
  proof
    assume "p \<in> fst ` set held"
    then obtain k where "(p, k) \<in> set held" by auto
    then obtain j where j: "(p, j) \<in> live s" using h by (auto simp: holds_def)
    then have "j = m" using live_unique [OF s', of p j m] l(3) by simp
    with j l(2) show False by simp
  qed
  then show ?thesis using h l by (auto simp: holds_def)
qed

lemma holds_dealloc:
  assumes s: "inv s" and h: "holds held s" and k: "k < length held" "held ! k = (p, n)"
    and l: "live s' = live s - {(p, m)}"
  shows "holds (take k held @ drop (Suc k) held) s'"
proof -
  have id: "held = take k held @ (p, n) # drop (Suc k) held" using k id_take_nth_drop by metis
  have "map fst held = map fst (take k held) @ p # map fst (drop (Suc k) held)"
    using id by (metis fst_conv list.simps(9) map_append)
  then have "distinct (map fst (take k held) @ p # map fst (drop (Suc k) held))"
    using h unfolding holds_def by metis
  then have d: "distinct (map fst (take k held @ drop (Suc k) held))" "p \<notin> fst ` set (take k held @ drop (Suc k) held)"
    by auto
  have "\<exists>m'. n' \<le> m' \<and> (q, m') \<in> live s'" if "(q, n') \<in> set (take k held @ drop (Suc k) held)" for q n'
  proof -
    have "q \<noteq> p" using d(2) that by force
    moreover have "(q, n') \<in> set held" using that set_take_subset [of k held] set_drop_subset [of "Suc k" held] by auto
    ultimately show ?thesis using h l by (fastforce simp: holds_def)
  qed
  with d(1) show ?thesis unfolding holds_def by auto
qed

lemma run_holds:
  "inv s \<Longrightarrow> holds held s \<Longrightarrow> \<forall>n. Alloc n \<in> set ops \<longrightarrow> ok_size n \<Longrightarrow>
   \<exists>held' s'. alloc_run alloc dealloc ops held s = Some (held', s') \<and> inv s' \<and> holds held' s'"
proof (induction ops arbitrary: held s)
  case Nil
  then show ?case by simp
next
  case (Cons op ops)
  show ?case
  proof (cases op)
    case (Alloc n)
    with Cons.prems(3) alloc_ok [OF Cons.prems(1), of n] obtain r s1 where
      r: "alloc n s = Some (r, s1)" "inv s1" "case r of None \<Rightarrow> live s1 = live s
       | Some p \<Rightarrow> \<exists>m. n \<le> m \<and> (p, m) \<notin> live s \<and> live s1 = insert (p, m) (live s)" by auto
    show ?thesis
    proof (cases r)
      case None
      then have "holds held s1" using Cons.prems(2) r(3) by (simp add: holds_def)
      from Cons.IH [OF r(2) this] Cons.prems(3) r(1) None Alloc show ?thesis by simp
    next
      case (Some p)
      then obtain m where "n \<le> m" "(p, m) \<notin> live s" "live s1 = insert (p, m) (live s)" using r(3) by auto
      then have "holds ((p, n) # held) s1" by (rule holds_alloc [OF Cons.prems(1,2) _ _ _ r(2)])
      from Cons.IH [OF r(2) this] Cons.prems(3) r(1) Some Alloc show ?thesis by simp
    qed
  next
    case (Free k)
    show ?thesis
    proof (cases "k < length held")
      case True
      obtain p n where pn: "held ! k = (p, n)" by force
      then have "(p, n) \<in> set held" using True nth_mem by metis
      then obtain m where m: "(p, m) \<in> live s" using Cons.prems(2) by (auto simp: holds_def)
      from dealloc_ok [OF Cons.prems(1) m] obtain s1 where
        s1: "dealloc p s = Some s1" "inv s1" "live s1 = live s - {(p, m)}" by blast
      have "holds (take k held @ drop (Suc k) held) s1" by (rule holds_dealloc [OF Cons.prems(1,2) True pn s1(3)])
      from Cons.IH [OF s1(2) this] Cons.prems(3) s1(1) True pn Free show ?thesis by simp
    next
      case False
      with Cons.IH [OF Cons.prems(1,2)] Cons.prems(3) Free show ?thesis by simp
    qed
  qed
qed

text \<open>Any run returns, and no two of the blocks it holds overlap.\<close>

lemma run_apart:
  assumes "inv s" "\<forall>n. Alloc n \<in> set ops \<longrightarrow> ok_size n"
  shows "\<exists>held s'. alloc_run alloc dealloc ops [] s = Some (held, s') \<and> inv s' \<and>
    (\<forall>i < length held. \<forall>j < length held. i \<noteq> j \<longrightarrow> apart (held ! i) (held ! j))"
proof -
  have "holds [] s" by (simp add: holds_def)
  from run_holds [OF assms(1) this assms(2)] show ?thesis using holds_apart by blast
qed

end

text \<open>
  An allocator whose blocks have bytes: moving a block to a larger or smaller one (allocate, copy, free) keeps
  the bytes of the block, up to the smaller size, and those of all other blocks.
\<close>

definition move_block :: "(nat \<Rightarrow> 's \<Rightarrow> (nat option \<times> 's) option) \<Rightarrow> (nat \<Rightarrow> 's \<Rightarrow> 's option) \<Rightarrow>
    (nat \<Rightarrow> nat \<Rightarrow> nat \<Rightarrow> 's \<Rightarrow> 's) \<Rightarrow> nat \<Rightarrow> nat \<Rightarrow> nat \<Rightarrow> 's \<Rightarrow> (nat option \<times> 's) option" where
  "move_block alloc dealloc copy p k n s = do {
     (r, s) \<leftarrow> alloc n s;
     (case r of
        None \<Rightarrow> Some (None, s)
      | Some q \<Rightarrow> do { s \<leftarrow> dealloc p (copy q p (if k < n then k else n) s); Some (Some q, s) })
   }"

text \<open>
  What a reallocation promises, given the live blocks and the bytes before and after: the block, if any, that replaces
  the old one, of at least the new size and with its bytes. Size 0 frees.
\<close>

definition realloc_done :: "block set \<Rightarrow> (nat \<Rightarrow> 'b) \<Rightarrow> block set \<Rightarrow> (nat \<Rightarrow> 'b) \<Rightarrow> nat \<Rightarrow> nat \<Rightarrow> nat \<Rightarrow> nat option \<Rightarrow> bool" where
  "realloc_done L D L' D' p k newsize r \<longleftrightarrow>
     (case r of
        None \<Rightarrow> D' = D \<and> L' = (if newsize = 0 then L - {(p, k)} else L)
      | Some q \<Rightarrow> newsize \<noteq> 0 \<and> (\<exists>l. newsize \<le> l \<and> L' = insert (q, l) (L - {(p, k)}) \<and> (q, l) \<notin> L - {(p, k)}) \<and>
          (\<forall>j < min k newsize. D' (q + j) = D (p + j)) \<and>
          (\<forall>(b, l) \<in> L - {(p, k)}. \<forall>j < l. D' (b + j) = D (b + j)))"

lemma realloc_in_place:
  assumes "newsize \<noteq> 0" "newsize \<le> l" "(p, l) \<notin> R" "(p, k) \<notin> R"
  shows "realloc_done (insert (p, k) R) D (insert (p, l) R) D p k newsize (Some p)"
  using assms by (auto simp: realloc_done_def)

locale data_allocator = allocator ok_size inv live alloc dealloc
  for ok_size :: "nat \<Rightarrow> bool" and inv :: "'s \<Rightarrow> bool" and live :: "'s \<Rightarrow> block set"
    and alloc :: "nat \<Rightarrow> 's \<Rightarrow> (nat option \<times> 's) option" and dealloc :: "nat \<Rightarrow> 's \<Rightarrow> 's option" +
  fixes data :: "'s \<Rightarrow> nat \<Rightarrow> 'b"
    and copy :: "nat \<Rightarrow> nat \<Rightarrow> nat \<Rightarrow> 's \<Rightarrow> 's"
  assumes alloc_data: "inv s \<Longrightarrow> ok_size n \<Longrightarrow> alloc n s = Some (r, s') \<Longrightarrow> data s' = data s"
    and dealloc_data: "inv s \<Longrightarrow> (p, n) \<in> live s \<Longrightarrow> dealloc p s = Some s' \<Longrightarrow> data s' = data s"
    and copy_inv: "inv s \<Longrightarrow> inv (copy d b n s)"
    and copy_live: "live (copy d b n s) = live s"
    and copy_data: "data (copy d b n s) a = (if d \<le> a \<and> a < d + n then data s (b + (a - d)) else data s a)"
begin

lemma move_keeps_bytes:
  assumes s: "inv s" and p: "(p, k) \<in> live s" and n: "ok_size n"
  shows "\<exists>r s'. move_block alloc dealloc copy p k n s = Some (r, s') \<and> inv s' \<and>
    (case r of
       None \<Rightarrow> live s' = live s \<and> data s' = data s
     | Some q \<Rightarrow> \<exists>l. n \<le> l \<and> (q, l) \<notin> live s \<and> live s' = insert (q, l) (live s - {(p, k)}) \<and>
         (\<forall>j < min k n. data s' (q + j) = data s (p + j)) \<and>
         (\<forall>(b, i) \<in> live s. \<forall>j < i. data s' (b + j) = data s (b + j)))"
proof -
  obtain r s1 where a: "alloc n s = Some (r, s1)" "inv s1"
    "case r of None \<Rightarrow> live s1 = live s | Some q \<Rightarrow> \<exists>l. n \<le> l \<and> (q, l) \<notin> live s \<and> live s1 = insert (q, l) (live s)"
    using alloc_ok [OF s n] by blast
  have da: "data s1 = data s" by (rule alloc_data [OF s n a(1)])
  show ?thesis
  proof (cases r)
    case None
    with a da show ?thesis by (simp add: move_block_def)
  next
    case (Some q)
    then obtain l where l: "n \<le> l" "(q, l) \<notin> live s" "live s1 = insert (q, l) (live s)" using a(3) by auto
    let ?i = "if k < n then k else n" let ?s2 = "copy q p ?i s1"
    have s2: "inv ?s2" "(p, k) \<in> live ?s2" using copy_inv [OF a(2)] p l(3) by (simp_all add: copy_live)
    obtain s' where s': "dealloc p ?s2 = Some s'" "inv s'" "live s' = live ?s2 - {(p, k)}" using dealloc_ok [OF s2] by blast
    have d': "data s' = data ?s2" by (rule dealloc_data [OF s2 s'(1)])
    have "(q, l) \<noteq> (p, k)" using p l(2) by auto
    then have live: "live s' = insert (q, l) (live s - {(p, k)})" unfolding s'(3) copy_live using l(3) by auto
    have "data s' (q + j) = data s (p + j)" if "j < min k n" for j
      using that by (auto simp: d' copy_data da)
    moreover have "data s' (b + j) = data s (b + j)" if "(b, i) \<in> live s" "j < i" for b i j
    proof -
      have "apart (b, i) (q, l)"
        using live_apart [OF a(2)] l(2,3) that(1) unfolding all_apart_def by (metis insert_iff)
      then have "b + j < q \<or> q + l \<le> b + j" using that(2) by (auto simp: apart_def)
      moreover have "?i \<le> l" using l(1) by simp
      ultimately have "\<not> (q \<le> b + j \<and> b + j < q + ?i)" by linarith
      then show ?thesis unfolding d' copy_data da by (rule if_not_P)
    qed
    moreover have "move_block alloc dealloc copy p k n s = Some (Some q, s')" using a(1) Some s'(1) by (simp add: move_block_def)
    ultimately show ?thesis using s'(2) live l(1,2) by auto
  qed
qed

lemma move_reallocates:
  assumes s: "inv s" and p: "(p, k) \<in> live s" and n: "ok_size n" and new: "newsize \<le> n" "newsize \<noteq> 0"
  shows "\<exists>r s'. move_block alloc dealloc copy p k n s = Some (r, s') \<and> inv s' \<and>
    realloc_done (live s) (data s) (live s') (data s') p k newsize r"
proof -
  obtain r s' where r: "move_block alloc dealloc copy p k n s = Some (r, s')" "inv s'"
    "case r of
       None \<Rightarrow> live s' = live s \<and> data s' = data s
     | Some q \<Rightarrow> \<exists>l. n \<le> l \<and> (q, l) \<notin> live s \<and> live s' = insert (q, l) (live s - {(p, k)}) \<and>
         (\<forall>j < min k n. data s' (q + j) = data s (p + j)) \<and>
         (\<forall>(b, i) \<in> live s. \<forall>j < i. data s' (b + j) = data s (b + j))"
    using move_keeps_bytes [OF s p n] by blast
  have "realloc_done (live s) (data s) (live s') (data s') p k newsize r"
  proof (cases r)
    case None
    with r(3) new show ?thesis by (simp add: realloc_done_def)
  next
    case (Some q)
    then obtain l where l: "n \<le> l" "(q, l) \<notin> live s" "live s' = insert (q, l) (live s - {(p, k)})"
      "\<forall>j < min k n. data s' (q + j) = data s (p + j)"
      "\<forall>(b, i) \<in> live s. \<forall>j < i. data s' (b + j) = data s (b + j)" using r(3) by auto
    have "newsize \<le> l" "\<forall>j < min k newsize. data s' (q + j) = data s (p + j)" using l(1,4) new(1) by simp_all
    then show ?thesis unfolding realloc_done_def using Some l(2,3,5) new(2) by auto
  qed
  with r(1,2) show ?thesis by blast
qed

end

end
