(* ===== verification/Small_Mem.thy ===== *)
theory Small_Mem
  imports Allocator
begin

text \<open>
  The small-memory heap (\<open>src/mem.c\<close>): a region of memory cut into blocks, each a header and data,
  allocated first fit with splitting, and joined with its free neighbours when it is given back.
  Positions are offsets from \<open>heap_ptr\<close>; headers are a map from offsets, data bytes another, and the
  theorems show that no header lies in the data of a block in use.
\<close>

section \<open>The heap\<close>

text \<open>
  \<open>pool_ptr\<close> of a header: the heap's address with the lowest bit telling whether the block is in use, or
  0 once the header has been merged away.
\<close>

datatype pool_word = Pool_Null | Pool_Freed | Pool_Used

record rt_small_mem_item =
  it_pool_ptr :: pool_word
  it_next :: nat
  it_prev :: nat

record rt_small_mem =
  sm_total :: nat
  sm_used :: nat
  sm_max :: nat
  sm_heap_end :: nat
  sm_lfree :: nat
  sm_mem_size_aligned :: nat
  sm_item :: "nat \<Rightarrow> rt_small_mem_item"
  sm_data :: "nat \<Rightarrow> u8"

text \<open>\<open>RT_ALIGN(sizeof(struct rt_small_mem_item), RT_ALIGN_SIZE)\<close> and \<open>MIN_SIZE\<close> of a 32-bit target.\<close>

abbreviation (input) SIZEOF_STRUCT_MEM :: nat where "SIZEOF_STRUCT_MEM \<equiv> 16"
abbreviation (input) MIN_SIZE :: nat where "MIN_SIZE \<equiv> 12"
abbreviation (input) MIN_SIZE_ALIGNED :: nat where "MIN_SIZE_ALIGNED \<equiv> 16"

definition MEM_ISUSED :: "rt_small_mem \<Rightarrow> nat \<Rightarrow> bool" where
  "MEM_ISUSED m mem \<longleftrightarrow> it_pool_ptr (sm_item m mem) = Pool_Used"

definition upd_item :: "nat \<Rightarrow> (rt_small_mem_item \<Rightarrow> rt_small_mem_item) \<Rightarrow> rt_small_mem \<Rightarrow> rt_small_mem" where
  "upd_item p f m = m\<lparr>sm_item := (sm_item m)(p := f (sm_item m p))\<rparr>"

section \<open>Operations\<close>

definition plug_forward :: "nat \<Rightarrow> rt_small_mem \<Rightarrow> rt_small_mem" where
  "plug_forward mem m =
     (let nmem = it_next (sm_item m mem) in
      if mem \<noteq> nmem \<and> \<not> MEM_ISUSED m nmem \<and> nmem \<noteq> sm_heap_end m
      then let m = (if sm_lfree m = nmem then m\<lparr>sm_lfree := mem\<rparr> else m);
               m = upd_item nmem (\<lambda>x. x\<lparr>it_pool_ptr := Pool_Null\<rparr>) m;
               m = upd_item mem (\<lambda>x. x\<lparr>it_next := it_next (sm_item m nmem)\<rparr>) m
           in upd_item (it_next (sm_item m nmem)) (\<lambda>x. x\<lparr>it_prev := mem\<rparr>) m
      else m)"

definition plug_backward :: "nat \<Rightarrow> rt_small_mem \<Rightarrow> rt_small_mem" where
  "plug_backward mem m =
     (let pmem = it_prev (sm_item m mem) in
      if pmem \<noteq> mem \<and> \<not> MEM_ISUSED m pmem
      then let m = (if sm_lfree m = mem then m\<lparr>sm_lfree := pmem\<rparr> else m);
               m = upd_item mem (\<lambda>x. x\<lparr>it_pool_ptr := Pool_Null\<rparr>) m;
               m = upd_item pmem (\<lambda>x. x\<lparr>it_next := it_next (sm_item m mem)\<rparr>) m
           in upd_item (it_next (sm_item m mem)) (\<lambda>x. x\<lparr>it_prev := pmem\<rparr>) m
      else m)"

definition plug_holes :: "nat \<Rightarrow> rt_small_mem \<Rightarrow> rt_small_mem option" where
  "plug_holes mem m = do {
     rt_assert (mem < sm_heap_end m);
     Some (plug_backward mem (plug_forward mem m))
   }"

text \<open>
  \<open>struct_size\<close> is \<open>sizeof(struct rt_small_mem)\<close>, which stands at the aligned start of the region;
  the result is the address of the heap and the heap, \<open>None\<close> for a region that is too small.
\<close>

definition rt_smem_init :: "nat \<Rightarrow> nat \<Rightarrow> nat \<Rightarrow> rt_small_mem \<Rightarrow> (nat \<times> rt_small_mem) option" where
  "rt_smem_init struct_size begin_addr sz m =
     (let small_mem = RT_ALIGN begin_addr RT_ALIGN_SIZE;
          start_addr = add32 small_mem struct_size;
          begin_align = RT_ALIGN start_addr RT_ALIGN_SIZE;
          end_align = RT_ALIGN_DOWN (add32 begin_addr sz) RT_ALIGN_SIZE in
      if 2 * SIZEOF_STRUCT_MEM < end_align \<and> start_addr \<le> end_align - 2 * SIZEOF_STRUCT_MEM
      then
        let mem_size = sub32 (sub32 end_align begin_align) (2 * SIZEOF_STRUCT_MEM);
            m = m\<lparr>sm_total := mem_size, sm_used := 0, sm_max := 0, sm_mem_size_aligned := mem_size\<rparr>;
            m = upd_item 0 (\<lambda>x. \<lparr>it_pool_ptr = Pool_Freed, it_next = mem_size + SIZEOF_STRUCT_MEM, it_prev = 0\<rparr>) m;
            m = m\<lparr>sm_heap_end := it_next (sm_item m 0)\<rparr>;
            m = upd_item (sm_heap_end m) (\<lambda>x. \<lparr>it_pool_ptr = Pool_Used, it_next = mem_size + SIZEOF_STRUCT_MEM,
                  it_prev = mem_size + SIZEOF_STRUCT_MEM\<rparr>) m
        in Some (begin_align, m\<lparr>sm_lfree := 0\<rparr>)
      else None)"

text \<open>The lowest free block after the block at \<open>lfree\<close> was taken.\<close>

partial_function (option) smem_lfree_loop :: "rt_small_mem \<Rightarrow> rt_small_mem option" where
  "smem_lfree_loop m =
     (if MEM_ISUSED m (sm_lfree m) \<and> sm_lfree m \<noteq> sm_heap_end m
      then smem_lfree_loop (m\<lparr>sm_lfree := it_next (sm_item m (sm_lfree m))\<rparr>)
      else Some m)"

definition smem_account :: "nat \<Rightarrow> rt_small_mem \<Rightarrow> rt_small_mem" where
  "smem_account n m =
     (let m = m\<lparr>sm_used := sm_used m + n\<rparr> in if sm_max m < sm_used m then m\<lparr>sm_max := sm_used m\<rparr> else m)"

text \<open>What \<open>rt_smem_alloc\<close> does with the free block at \<open>ptr\<close> that is large enough.\<close>

definition smem_split :: "nat \<Rightarrow> nat \<Rightarrow> rt_small_mem \<Rightarrow> rt_small_mem" where
  "smem_split sz ptr m =
     (let next = it_next (sm_item m ptr) in
      if add32 (add32 sz SIZEOF_STRUCT_MEM) MIN_SIZE_ALIGNED \<le> sub32 next (ptr + SIZEOF_STRUCT_MEM)
      then let ptr2 = ptr + SIZEOF_STRUCT_MEM + sz;
               m = upd_item ptr2 (\<lambda>x. \<lparr>it_pool_ptr = Pool_Freed, it_next = next, it_prev = ptr\<rparr>) m;
               m = upd_item ptr (\<lambda>x. x\<lparr>it_next := ptr2\<rparr>) m;
               m = (if it_next (sm_item m ptr2) \<noteq> sm_mem_size_aligned m + SIZEOF_STRUCT_MEM
                    then upd_item (it_next (sm_item m ptr2)) (\<lambda>x. x\<lparr>it_prev := ptr2\<rparr>) m else m)
           in smem_account (sz + SIZEOF_STRUCT_MEM) m
      else smem_account (sub32 next ptr) m)"

definition smem_take :: "nat \<Rightarrow> nat \<Rightarrow> rt_small_mem \<Rightarrow> (nat option \<times> rt_small_mem) option" where
  "smem_take sz ptr m = do {
     let m = smem_split sz ptr m;
     let m = upd_item ptr (\<lambda>x. x\<lparr>it_pool_ptr := Pool_Used\<rparr>) m;
     m \<leftarrow> (if ptr = sm_lfree m
          then do {
            m \<leftarrow> smem_lfree_loop m;
            rt_assert (sm_lfree m = sm_heap_end m \<or> \<not> MEM_ISUSED m (sm_lfree m));
            Some m
          }
          else Some m);
     rt_assert (ptr + SIZEOF_STRUCT_MEM + sz \<le> sm_heap_end m);
     rt_assert ((ptr + SIZEOF_STRUCT_MEM) mod RT_ALIGN_SIZE = 0);
     rt_assert (ptr mod RT_ALIGN_SIZE = 0);
     Some (Some (ptr + SIZEOF_STRUCT_MEM), m)
   }"

partial_function (option) smem_alloc_loop :: "nat \<Rightarrow> nat \<Rightarrow> rt_small_mem \<Rightarrow> (nat option \<times> rt_small_mem) option" where
  "smem_alloc_loop sz ptr m =
     (if ptr \<le> sub32 (sm_mem_size_aligned m) sz
      then if \<not> MEM_ISUSED m ptr \<and> sz \<le> sub32 (it_next (sm_item m ptr)) (ptr + SIZEOF_STRUCT_MEM)
           then smem_take sz ptr m
           else smem_alloc_loop sz (it_next (sm_item m ptr)) m
      else Some (None, m))"

text \<open>Pointers returned and taken are offsets of data; \<open>None\<close> is RT_NULL.\<close>

definition rt_smem_alloc :: "nat \<Rightarrow> rt_small_mem \<Rightarrow> (nat option \<times> rt_small_mem) option" where
  "rt_smem_alloc sz m =
     (if sz = 0 then Some (None, m)
      else let sz = RT_ALIGN sz RT_ALIGN_SIZE;
               sz = (if sz < MIN_SIZE_ALIGNED then MIN_SIZE_ALIGNED else sz)
           in if sm_mem_size_aligned m < sz then Some (None, m)
              else smem_alloc_loop sz (sm_lfree m) m)"

text \<open>A block whose header would lie before the heap is \<open>None\<close>, as are all failed assertions.\<close>

definition rt_smem_free :: "nat option \<Rightarrow> rt_small_mem \<Rightarrow> rt_small_mem option" where
  "rt_smem_free rmem m =
     (case rmem of
        None \<Rightarrow> Some m
      | Some rmem \<Rightarrow> do {
          rt_assert (rmem mod RT_ALIGN_SIZE = 0 \<and> SIZEOF_STRUCT_MEM \<le> rmem);
          let mem = rmem - SIZEOF_STRUCT_MEM;
          rt_assert (it_pool_ptr (sm_item m mem) \<noteq> Pool_Null);
          rt_assert (MEM_ISUSED m mem);
          rt_assert (rmem < sm_heap_end m);
          rt_assert (it_pool_ptr (sm_item m (it_next (sm_item m mem))) \<noteq> Pool_Null);
          let m = upd_item mem (\<lambda>x. x\<lparr>it_pool_ptr := Pool_Freed\<rparr>) m;
          let m = (if mem < sm_lfree m then m\<lparr>sm_lfree := mem\<rparr> else m);
          let m = m\<lparr>sm_used := sub32 (sm_used m) (sub32 (it_next (sm_item m mem)) mem)\<rparr>;
          plug_holes mem m
        })"

text \<open>\<open>rt_memcpy\<close> between data bytes of the heap.\<close>

definition smem_copy :: "nat \<Rightarrow> nat \<Rightarrow> nat \<Rightarrow> rt_small_mem \<Rightarrow> rt_small_mem" where
  "smem_copy dst src n m = m\<lparr>sm_data := (\<lambda>a. if dst \<le> a \<and> a < dst + n then sm_data m (src + (a - dst)) else sm_data m a)\<rparr>"

definition smem_shrink :: "nat \<Rightarrow> nat \<Rightarrow> nat \<Rightarrow> rt_small_mem \<Rightarrow> rt_small_mem option" where
  "smem_shrink ptr sz newsize m = do {
     let m = m\<lparr>sm_used := sub32 (sm_used m) (sz - newsize)\<rparr>;
     let ptr2 = ptr + SIZEOF_STRUCT_MEM + newsize;
     let m = upd_item ptr2 (\<lambda>x. \<lparr>it_pool_ptr = Pool_Freed, it_next = it_next (sm_item m ptr), it_prev = ptr\<rparr>) m;
     let m = upd_item ptr (\<lambda>x. x\<lparr>it_next := ptr2\<rparr>) m;
     let m = (if it_next (sm_item m ptr2) \<noteq> sm_mem_size_aligned m + SIZEOF_STRUCT_MEM
              then upd_item (it_next (sm_item m ptr2)) (\<lambda>x. x\<lparr>it_prev := ptr2\<rparr>) m else m);
     let m = (if ptr2 < sm_lfree m then m\<lparr>sm_lfree := ptr2\<rparr> else m);
     plug_holes ptr2 m
   }"

definition rt_smem_realloc :: "nat option \<Rightarrow> nat \<Rightarrow> rt_small_mem \<Rightarrow> (nat option \<times> rt_small_mem) option" where
  "rt_smem_realloc rmem newsize m =
     (let newsize = RT_ALIGN newsize RT_ALIGN_SIZE in
      if sm_mem_size_aligned m < newsize then Some (None, m)
      else if newsize = 0 then do { m \<leftarrow> rt_smem_free rmem m; Some (None, m) }
      else (case rmem of
        None \<Rightarrow> rt_smem_alloc newsize m
      | Some rmem \<Rightarrow> do {
          rt_assert (rmem mod RT_ALIGN_SIZE = 0 \<and> SIZEOF_STRUCT_MEM \<le> rmem);
          rt_assert (rmem < sm_heap_end m);
          let ptr = rmem - SIZEOF_STRUCT_MEM;
          let sz = sub32 (sub32 (it_next (sm_item m ptr)) ptr) SIZEOF_STRUCT_MEM;
          if sz = newsize then Some (Some rmem, m)
          else if add32 (add32 newsize SIZEOF_STRUCT_MEM) MIN_SIZE < sz
          then do { m \<leftarrow> smem_shrink ptr sz newsize m; Some (Some rmem, m) }
          else do {
            (nmem, m) \<leftarrow> rt_smem_alloc newsize m;
            (case nmem of
               None \<Rightarrow> Some (None, m)
             | Some nmem \<Rightarrow> do {
                 m \<leftarrow> rt_smem_free (Some rmem) (smem_copy nmem rmem (if sz < newsize then sz else newsize) m);
                 Some (Some nmem, m)
               })
          }
        }))"

section \<open>The heap as a list of blocks\<close>

text \<open>A block: in use or not, and its length with its header. The blocks follow each other from offset 0.\<close>

type_synonym smem_block = "bool \<times> nat"

fun extent :: "smem_block list \<Rightarrow> nat" where
  "extent [] = 0"
| "extent ((u, n) # bs) = n + extent bs"

text \<open>
  The headers from offset \<open>off\<close> on describe the blocks \<open>bs\<close>, the first of which has \<open>prev = pv\<close>.
\<close>

fun chain :: "(nat \<Rightarrow> rt_small_mem_item) \<Rightarrow> nat \<Rightarrow> nat \<Rightarrow> smem_block list \<Rightarrow> bool" where
  "chain it pv off [] = True"
| "chain it pv off ((u, n) # bs) \<longleftrightarrow>
     it off = \<lparr>it_pool_ptr = (if u then Pool_Used else Pool_Freed), it_next = off + n, it_prev = pv\<rparr> \<and>
     24 \<le> n \<and> n mod 8 = 0 \<and> chain it off (off + n) bs"

fun coalesced :: "smem_block list \<Rightarrow> bool" where
  "coalesced ((u, n) # (v, k) # bs) \<longleftrightarrow> (u \<or> v) \<and> coalesced ((v, k) # bs)"
| "coalesced bs = True"

fun first_free :: "nat \<Rightarrow> smem_block list \<Rightarrow> nat" where
  "first_free off [] = off"
| "first_free off ((u, n) # bs) = (if u then first_free (off + n) bs else off)"

fun in_use :: "smem_block list \<Rightarrow> nat" where
  "in_use [] = 0"
| "in_use ((u, n) # bs) = (if u then n else 0) + in_use bs"

text \<open>The data of the blocks in use.\<close>

fun regions :: "nat \<Rightarrow> smem_block list \<Rightarrow> block list" where
  "regions off [] = []"
| "regions off ((u, n) # bs) = (if u then [(off + 16, n - 16)] else []) @ regions (off + n) bs"

definition heap_is :: "rt_small_mem \<Rightarrow> smem_block list \<Rightarrow> bool" where
  "heap_is m bs \<longleftrightarrow> chain (sm_item m) 0 0 bs \<and> bs \<noteq> [] \<and> coalesced bs \<and> sm_heap_end m = extent bs \<and>
     sm_mem_size_aligned m + 16 = extent bs \<and> extent bs + 32 \<le> 2 ^ 32 \<and>
     it_pool_ptr (sm_item m (sm_heap_end m)) = Pool_Used \<and> sm_lfree m = first_free 0 bs \<and> sm_used m = in_use bs"

section \<open>Lemmas on lists of blocks\<close>

lemma extent_append [simp]: "extent (xs @ ys) = extent xs + extent ys"
  by (induction xs rule: extent.induct) auto

lemma in_use_append [simp]: "in_use (xs @ ys) = in_use xs + in_use ys"
  by (induction xs rule: in_use.induct) auto

lemma regions_append [simp]: "regions off (xs @ ys) = regions off xs @ regions (off + extent xs) ys"
  by (induction xs arbitrary: off rule: extent.induct) (auto simp: add.assoc)

lemma in_use_extent: "in_use bs \<le> extent bs"
  by (induction bs rule: in_use.induct) auto

definition all_used :: "smem_block list \<Rightarrow> bool" where
  "all_used xs \<longleftrightarrow> (\<forall>b \<in> set xs. fst b)"

lemma all_used_simps [simp]: "all_used []" "all_used (b # xs) = (fst b \<and> all_used xs)" "all_used (xs @ ys) = (all_used xs \<and> all_used ys)"
  by (auto simp: all_used_def)

lemma first_free_append:
  "first_free off (xs @ ys) = (if all_used xs then first_free (off + extent xs) ys else first_free off xs)"
  by (induction xs arbitrary: off rule: extent.induct) (auto simp: add.assoc)

lemma first_free_less: "\<not> all_used xs \<Longrightarrow> \<forall>(u, n) \<in> set xs. 0 < n \<Longrightarrow> first_free off xs < off + extent xs"
proof (induction xs arbitrary: off rule: extent.induct)
  case (2 u n bs)
  show ?case
  proof (cases u)
    case True
    with "2.prems" "2.IH" [of "off + n"] have "first_free (off + n) bs < off + n + extent bs" by auto
    with True show ?thesis by simp
  qed (use "2.prems" in simp)
qed simp

lemma first_free_bounds: "off \<le> first_free off xs \<and> first_free off xs \<le> off + extent xs"
proof (induction xs arbitrary: off rule: extent.induct)
  case (2 u n bs)
  from "2.IH" [of "off + n"] show ?case by auto
qed simp

lemma coalesced_append:
  "coalesced (xs @ ys) \<longleftrightarrow> coalesced xs \<and> coalesced ys \<and> (xs = [] \<or> ys = [] \<or> fst (last xs) \<or> fst (hd ys))"
proof (induction xs)
  case (Cons b xs)
  obtain u n where b: "b = (u, n)" by force
  show ?case
  proof (cases xs)
    case Nil
    then show ?thesis using b by (cases ys) auto
  next
    case (Cons c zs)
    obtain v k where "c = (v, k)" by force
    with Cons Cons.IH b show ?thesis by auto
  qed
qed simp

lemma coalesced_tl: "coalesced (b # bs) \<Longrightarrow> coalesced bs"
  by (cases "b # bs" rule: coalesced.cases) auto

lemma blocks_chain_append:
  "chain it pv off (xs @ ys) \<longleftrightarrow> chain it pv off xs \<and>
   chain it (if xs = [] then pv else off + extent (butlast xs)) (off + extent xs) ys"
  by (induction xs arbitrary: pv off rule: extent.induct) (auto simp: add.assoc)

fun heads :: "nat \<Rightarrow> smem_block list \<Rightarrow> nat set" where
  "heads off [] = {}"
| "heads off ((u, n) # bs) = insert off (heads (off + n) bs)"

lemma chain_sizes: "chain it pv off bs \<Longrightarrow> \<forall>(u, n) \<in> set bs. 24 \<le> n \<and> n mod 8 = 0"
  by (induction bs arbitrary: pv off rule: extent.induct) fastforce+

lemma heads_range: "\<forall>(u, n) \<in> set bs. 24 \<le> n \<and> n mod 8 = 0 \<Longrightarrow> heads off bs \<subseteq> {off..<off + extent bs}"
proof (induction bs arbitrary: off rule: extent.induct)
  case (2 u n bs)
  from "2.IH" [of "off + n"] "2.prems" show ?case by (auto simp: subset_iff)
qed simp

lemma blocks_chain_cong: "(\<And>p. p \<in> heads off bs \<Longrightarrow> it' p = it p) \<Longrightarrow> chain it' pv off bs = chain it pv off bs"
  by (induction bs arbitrary: pv off rule: extent.induct) auto

lemma chain_upd:
  assumes "chain it pv off bs" "p < off \<or> off + extent bs \<le> p"
  shows "chain (it(p := x)) pv off bs"
proof -
  have "p \<notin> heads off bs" using heads_range [OF chain_sizes [OF assms(1)], of off] assms(2) by auto
  then have "chain (it(p := x)) pv off bs = chain it pv off bs" by (intro blocks_chain_cong) auto
  with assms(1) show ?thesis by simp
qed

lemma chain_prev: "chain it pv off bs \<Longrightarrow> chain (it(off := (it off)\<lparr>it_prev := pv'\<rparr>)) pv' off bs"
proof (cases bs)
  case (Cons b bs')
  assume c: "chain it pv off bs"
  obtain u n where b: "b = (u, n)" by force
  have "chain it off (off + n) bs'" "0 < n" using c Cons b by auto
  then have "chain (it(off := (it off)\<lparr>it_prev := pv'\<rparr>)) off (off + n) bs'" by (intro chain_upd) auto
  then show ?thesis using c Cons b by simp
qed simp

lemma extent_aligned: "\<forall>(u, n) \<in> set bs. 24 \<le> n \<and> n mod 8 = 0 \<Longrightarrow> extent bs mod 8 = 0"
  by (induction bs rule: extent.induct) (auto simp: mod_add_eq [symmetric])

section \<open>Headers and blocks\<close>

text \<open>The headers describe the blocks; nothing is said yet of free neighbours, \<open>lfree\<close> and the counters.\<close>

definition headers :: "rt_small_mem \<Rightarrow> smem_block list \<Rightarrow> bool" where
  "headers m bs \<longleftrightarrow> chain (sm_item m) 0 0 bs \<and> sm_heap_end m = extent bs \<and> sm_mem_size_aligned m + 16 = extent bs \<and>
     extent bs + 32 \<le> 2 ^ 32 \<and> it_pool_ptr (sm_item m (extent bs)) = Pool_Used"

lemma heap_is_headers:
  "heap_is m bs \<longleftrightarrow> headers m bs \<and> bs \<noteq> [] \<and> coalesced bs \<and> sm_lfree m = first_free 0 bs \<and> sm_used m = in_use bs"
  by (auto simp: heap_is_def headers_def)

definition prev_off :: "smem_block list \<Rightarrow> nat" where
  "prev_off xs = (if xs = [] then 0 else extent (butlast xs))"

lemma headers_split:
  "headers m (xs @ ys) \<Longrightarrow> chain (sm_item m) 0 0 xs \<and> chain (sm_item m) (prev_off xs) (extent xs) ys"
  unfolding headers_def blocks_chain_append prev_off_def by (simp split: if_splits)

lemma headers_item:
  assumes "headers m (xs @ (u, n) # ys)"
  shows "sm_item m (extent xs) = \<lparr>it_pool_ptr = (if u then Pool_Used else Pool_Freed), it_next = extent xs + n, it_prev = prev_off xs\<rparr>"
    "24 \<le> n" "n mod 8 = 0" "extent xs mod 8 = 0" "extent xs + n + extent ys + 32 \<le> 2 ^ 32"
    "sm_heap_end m = extent xs + n + extent ys" "sm_mem_size_aligned m + 16 = extent xs + n + extent ys"
proof -
  note s = headers_split [OF assms]
  show "sm_item m (extent xs) = \<lparr>it_pool_ptr = (if u then Pool_Used else Pool_Freed), it_next = extent xs + n, it_prev = prev_off xs\<rparr>"
    "24 \<le> n" "n mod 8 = 0" using s by auto
  show "extent xs mod 8 = 0" using extent_aligned [OF chain_sizes [OF conjunct1 [OF s]]] .
  show "extent xs + n + extent ys + 32 \<le> 2 ^ 32" "sm_heap_end m = extent xs + n + extent ys"
    "sm_mem_size_aligned m + 16 = extent xs + n + extent ys" using assms by (auto simp: headers_def)
qed

text \<open>Whether the next header says "in use": the next block's flag, true at the end of the heap.\<close>

lemma headers_next_used:
  assumes "headers m (xs @ (u, n) # ys)"
  shows "MEM_ISUSED m (extent xs + n) \<longleftrightarrow> (case ys of [] \<Rightarrow> True | b # _ \<Rightarrow> fst b)"
proof (cases ys)
  case Nil
  with assms show ?thesis by (simp add: headers_def MEM_ISUSED_def)
next
  case (Cons b zs)
  obtain v k where b: "b = (v, k)" by force
  have "headers m ((xs @ [(u, n)]) @ (v, k) # zs)" using assms Cons b by simp
  from headers_item(1) [OF this] Cons b show ?thesis by (simp add: MEM_ISUSED_def)
qed

text \<open>Changing fields that are not headers.\<close>

lemma headers_fields [simp]:
  "headers (m\<lparr>sm_lfree := f\<rparr>) bs = headers m bs" "headers (m\<lparr>sm_used := n\<rparr>) bs = headers m bs"
  "headers (m\<lparr>sm_max := n\<rparr>) bs = headers m bs" "headers (smem_account n m) bs = headers m bs"
  by (simp_all add: headers_def smem_account_def Let_def)

lemma upd_item_simps [simp]:
  "sm_item (upd_item p f m) = (sm_item m)(p := f (sm_item m p))"
  "sm_lfree (upd_item p f m) = sm_lfree m" "sm_used (upd_item p f m) = sm_used m" "sm_max (upd_item p f m) = sm_max m"
  "sm_heap_end (upd_item p f m) = sm_heap_end m" "sm_mem_size_aligned (upd_item p f m) = sm_mem_size_aligned m"
  "sm_data (upd_item p f m) = sm_data m" "sm_total (upd_item p f m) = sm_total m"
  by (simp_all add: upd_item_def)

text \<open>Marking a block used or free.\<close>

lemma headers_mark:
  assumes h: "headers m (xs @ (u, n) # ys)"
  shows "headers (upd_item (extent xs) (\<lambda>x. x\<lparr>it_pool_ptr := (if v then Pool_Used else Pool_Freed)\<rparr>) m) (xs @ (v, n) # ys)"
proof -
  let ?m = "upd_item (extent xs) (\<lambda>x. x\<lparr>it_pool_ptr := (if v then Pool_Used else Pool_Freed)\<rparr>) m"
  note s = headers_split [OF h] note i = headers_item [OF h]
  have "chain (sm_item ?m) 0 0 xs" using s by (simp add: chain_upd)
  moreover have "chain (sm_item ?m) (extent xs) (extent xs + n) ys" using s i(2) by (simp add: chain_upd)
  ultimately show ?thesis using h i(1,2,3)
    by (simp add: headers_def blocks_chain_append prev_off_def)
qed

text \<open>Joining two neighbours.\<close>

definition smem_join :: "nat \<Rightarrow> nat \<Rightarrow> rt_small_mem \<Rightarrow> rt_small_mem" where
  "smem_join p q m =
     (let m = upd_item q (\<lambda>x. x\<lparr>it_pool_ptr := Pool_Null\<rparr>) m;
          m = upd_item p (\<lambda>x. x\<lparr>it_next := it_next (sm_item m q)\<rparr>) m
      in upd_item (it_next (sm_item m q)) (\<lambda>x. x\<lparr>it_prev := p\<rparr>) m)"

lemma smem_join_frame [simp]:
  "sm_lfree (smem_join p q m) = sm_lfree m" "sm_used (smem_join p q m) = sm_used m" "sm_max (smem_join p q m) = sm_max m"
  "sm_heap_end (smem_join p q m) = sm_heap_end m" "sm_mem_size_aligned (smem_join p q m) = sm_mem_size_aligned m"
  "sm_data (smem_join p q m) = sm_data m" "sm_total (smem_join p q m) = sm_total m"
  by (simp_all add: smem_join_def Let_def)

lemma headers_join:
  assumes h: "headers m (xs @ (u, n) # (v, k) # ys)"
  shows "headers (smem_join (extent xs) (extent xs + n) m) (xs @ (u, n + k) # ys)"
proof -
  let ?p = "extent xs" let ?q = "?p + n" let ?r = "?q + k"
  note s = headers_split [OF h] note i = headers_item [OF h]
  have h': "headers m ((xs @ [(u, n)]) @ (v, k) # ys)" using h by simp
  note j = headers_item [OF h']
  have lt: "?p < ?q" "?q < ?r" using i(2) j(2) by simp_all
  have it: "sm_item (smem_join ?p ?q m) = (sm_item m)
      (?q := (sm_item m ?q)\<lparr>it_pool_ptr := Pool_Null\<rparr>, ?p := (sm_item m ?p)\<lparr>it_next := ?r\<rparr>,
       ?r := (sm_item m ?r)\<lparr>it_prev := ?p\<rparr>)"
    using lt j(1) by (simp add: smem_join_def Let_def)
  have c: "chain (sm_item m) ?q ?r ys" using s by simp
  have "chain (sm_item (smem_join ?p ?q m)) 0 0 xs"
    unfolding it by (intro chain_upd) (use s lt in auto)
  moreover have "chain (sm_item (smem_join ?p ?q m)) ?p ?r ys"
  proof -
    have "chain ((sm_item m)(?q := (sm_item m ?q)\<lparr>it_pool_ptr := Pool_Null\<rparr>, ?p := (sm_item m ?p)\<lparr>it_next := ?r\<rparr>)) ?q ?r ys"
      by (intro chain_upd) (use c lt in auto)
    from chain_prev [OF this, of ?p] show ?thesis unfolding it using lt by simp
  qed
  moreover have "sm_item (smem_join ?p ?q m) ?p =
      \<lparr>it_pool_ptr = (if u then Pool_Used else Pool_Freed), it_next = ?r, it_prev = prev_off xs\<rparr>"
    unfolding it using lt i(1) by simp
  moreover have "it_pool_ptr (sm_item (smem_join ?p ?q m) (?r + extent ys)) = Pool_Used"
    unfolding it using lt h by (auto simp: headers_def add.assoc)
  ultimately show ?thesis using h i(2,3) j(3)
    by (simp add: headers_def blocks_chain_append prev_off_def add.assoc mod_add_eq [symmetric])
qed

text \<open>Splitting a block.\<close>

definition smem_cut :: "nat \<Rightarrow> nat \<Rightarrow> rt_small_mem \<Rightarrow> rt_small_mem" where
  "smem_cut p q m =
     (let next = it_next (sm_item m p);
          m = upd_item q (\<lambda>x. \<lparr>it_pool_ptr = Pool_Freed, it_next = next, it_prev = p\<rparr>) m;
          m = upd_item p (\<lambda>x. x\<lparr>it_next := q\<rparr>) m
      in (if it_next (sm_item m q) \<noteq> sm_mem_size_aligned m + SIZEOF_STRUCT_MEM
          then upd_item (it_next (sm_item m q)) (\<lambda>x. x\<lparr>it_prev := q\<rparr>) m else m))"

lemma smem_cut_frame [simp]:
  "sm_lfree (smem_cut p q m) = sm_lfree m" "sm_used (smem_cut p q m) = sm_used m" "sm_max (smem_cut p q m) = sm_max m"
  "sm_heap_end (smem_cut p q m) = sm_heap_end m" "sm_mem_size_aligned (smem_cut p q m) = sm_mem_size_aligned m"
  "sm_data (smem_cut p q m) = sm_data m" "sm_total (smem_cut p q m) = sm_total m"
  by (simp_all add: smem_cut_def Let_def)

lemma headers_cut:
  assumes h: "headers m (xs @ (u, n) # ys)" and a: "24 \<le> a" "a mod 8 = 0" "a + 24 \<le> n"
  shows "headers (smem_cut (extent xs) (extent xs + a) m) (xs @ (u, a) # (False, n - a) # ys)"
proof -
  let ?p = "extent xs" let ?q = "?p + a" let ?r = "?p + n" let ?m = "smem_cut ?p ?q m"
  note s = headers_split [OF h] note i = headers_item [OF h]
  have lt: "?p < ?q" "?q < ?r" using a by simp_all
  have e: "?r = sm_mem_size_aligned m + 16 \<longleftrightarrow> ys = []"
    using i(7) s by (cases ys) auto
  have it: "sm_item ?m = (if ys = [] then \<lambda>f. f else (\<lambda>f. f(?r := (sm_item m ?r)\<lparr>it_prev := ?q\<rparr>)))
      ((sm_item m)(?q := \<lparr>it_pool_ptr = Pool_Freed, it_next = ?r, it_prev = ?p\<rparr>, ?p := (sm_item m ?p)\<lparr>it_next := ?q\<rparr>))"
    using lt i(1) e by (auto simp: smem_cut_def Let_def)
  have c: "chain (sm_item m) ?p ?r ys" using s by simp
  have "chain (sm_item ?m) 0 0 xs"
    unfolding it using s lt by (cases "ys = []") (auto intro!: chain_upd)
  moreover have "chain (sm_item ?m) ?q ?r ys"
  proof (cases "ys = []")
    case False
    have "chain ((sm_item m)(?q := \<lparr>it_pool_ptr = Pool_Freed, it_next = ?r, it_prev = ?p\<rparr>, ?p := (sm_item m ?p)\<lparr>it_next := ?q\<rparr>)) ?p ?r ys"
      by (intro chain_upd) (use c lt in auto)
    from chain_prev [OF this, of ?q] show ?thesis unfolding it using lt False by simp
  qed simp
  moreover have "sm_item ?m ?p = \<lparr>it_pool_ptr = (if u then Pool_Used else Pool_Freed), it_next = ?q, it_prev = prev_off xs\<rparr>"
    "sm_item ?m ?q = \<lparr>it_pool_ptr = Pool_Freed, it_next = ?r, it_prev = ?p\<rparr>"
    unfolding it using lt i(1) by (cases "ys = []"; simp)+
  moreover have "it_pool_ptr (sm_item ?m (?r + extent ys)) = Pool_Used"
    unfolding it using lt h by (auto simp: headers_def add.assoc)
  moreover have "(n - a) mod 8 = 0" using i(3) a by (simp add: mod_eq_0_iff_dvd dvd_diff_nat)
  ultimately show ?thesis using h i(2,3) a
    by (simp add: headers_def blocks_chain_append prev_off_def add.assoc)
qed

section \<open>Allocation\<close>

lemma used_block: "headers m (xs @ (u, n) # ys) \<Longrightarrow> MEM_ISUSED m (extent xs) = u"
  using headers_item(1) [of m xs u n ys] by (simp add: MEM_ISUSED_def)

text \<open>The search for the lowest free block ends, at it or at the end of the heap.\<close>

lemma smem_lfree_loop_spec:
  "headers m (xs @ ys) \<Longrightarrow> sm_lfree m = extent xs \<Longrightarrow>
   smem_lfree_loop m = Some (m\<lparr>sm_lfree := first_free (extent xs) ys\<rparr>)"
proof (induction ys arbitrary: xs m)
  case Nil
  then have "sm_lfree m = sm_heap_end m" by (simp add: headers_def)
  then have "smem_lfree_loop m = Some m" by (subst smem_lfree_loop.simps) simp
  with Nil show ?case by simp
next
  case (Cons b ys)
  obtain u n where b: "b = (u, n)" by force
  note i = headers_item [OF Cons.prems(1) [unfolded b]]
  have us: "MEM_ISUSED m (sm_lfree m) = u" "sm_lfree m \<noteq> sm_heap_end m"
    using used_block [OF Cons.prems(1) [unfolded b]] Cons.prems(2) i(2,6) by simp_all
  show ?case
  proof (cases u)
    case True
    let ?m = "m\<lparr>sm_lfree := extent xs + n\<rparr>"
    have "smem_lfree_loop m = smem_lfree_loop ?m"
      using True us i(1) Cons.prems(2) by (subst smem_lfree_loop.simps) simp
    also have "\<dots> = Some (?m\<lparr>sm_lfree := first_free (extent xs + n) ys\<rparr>)"
      using Cons.IH [of ?m "xs @ [b]"] Cons.prems(1) b by simp
    finally show ?thesis using True b by simp
  next
    case False
    then have "smem_lfree_loop m = Some m" using us by (subst smem_lfree_loop.simps) simp
    then show ?thesis using False b Cons.prems(2) by simp
  qed
qed

lemma smem_lfree_loop_result: "smem_lfree_loop m = Some m' \<Longrightarrow> sm_lfree m' = sm_heap_end m' \<or> \<not> MEM_ISUSED m' (sm_lfree m')"
  by (erule smem_lfree_loop.raw_induct [rotated]) (auto split: if_splits)

text \<open>No free block has room for \<open>sz\<close> bytes.\<close>

definition no_fit :: "nat \<Rightarrow> smem_block list \<Rightarrow> bool" where
  "no_fit sz bs \<longleftrightarrow> (\<forall>(u, n) \<in> set bs. u \<or> n < sz + 16)"

lemma no_fit_simps [simp]:
  "no_fit sz []" "no_fit sz ((u, n) # bs) = ((u \<or> n < sz + 16) \<and> no_fit sz bs)" "no_fit sz (xs @ ys) = (no_fit sz xs \<and> no_fit sz ys)"
  by (auto simp: no_fit_def)

lemma all_used_no_fit: "all_used bs \<Longrightarrow> no_fit sz bs"
  by (auto simp: all_used_def no_fit_def)

lemma fit_cases: "no_fit sz bs \<or> (\<exists>xs n ys. bs = xs @ (False, n) # ys \<and> no_fit sz xs \<and> sz + 16 \<le> n)"
proof (induction bs)
  case (Cons b bs)
  obtain u n where b: "b = (u, n)" by force
  show ?case
  proof (cases "u \<or> n < sz + 16")
    case True
    from Cons.IH show ?thesis
    proof (elim disjE exE conjE)
      fix xs k ys assume "bs = xs @ (False, k) # ys" "no_fit sz xs" "sz + 16 \<le> k"
      with True b have "b # bs = (b # xs) @ (False, k) # ys" "no_fit sz (b # xs)" by simp_all
      with \<open>sz + 16 \<le> k\<close> show ?thesis by blast
    qed (use True b in simp)
  next
    case False
    then have "b # bs = [] @ (False, n) # bs" "no_fit sz []" "sz + 16 \<le> n" using b by auto
    then show ?thesis by blast
  qed
qed simp

lemma alloc_loop_step:
  assumes h: "headers m (xs @ (u, n) # ys)" and sz: "sz \<le> sm_mem_size_aligned m"
  shows "smem_alloc_loop sz (extent xs) m =
    (if extent xs + sz \<le> sm_mem_size_aligned m
     then if \<not> u \<and> sz + 16 \<le> n then smem_take sz (extent xs) m else smem_alloc_loop sz (extent xs + n) m
     else Some (None, m))"
proof -
  note i = headers_item [OF h]
  have "sub32 (sm_mem_size_aligned m) sz = sm_mem_size_aligned m - sz" using sz i(5,7) by (intro sub32_small) auto
  moreover have "sub32 (extent xs + n) (extent xs + 16) = n - 16"
    using i(2,5) by (subst sub32_small) auto
  ultimately show ?thesis
    using used_block [OF h] i(1,2) sz by (subst smem_alloc_loop.simps) (auto simp: le_diff_conv2)
qed

lemma alloc_loop_fit:
  "headers m (xs @ us @ (False, n) # ys) \<Longrightarrow> no_fit sz us \<Longrightarrow> sz + 16 \<le> n \<Longrightarrow> sz \<le> sm_mem_size_aligned m \<Longrightarrow>
   smem_alloc_loop sz (extent xs) m = smem_take sz (extent (xs @ us)) m"
proof (induction us arbitrary: xs)
  case Nil
  then have h: "headers m (xs @ (False, n) # ys)" by simp
  have "extent xs + sz \<le> sm_mem_size_aligned m" using headers_item(7) [OF h] Nil by simp
  with alloc_loop_step [OF h Nil.prems(4)] Nil show ?case by simp
next
  case (Cons b us)
  obtain v k where b: "b = (v, k)" by force
  have h: "headers m (xs @ (v, k) # us @ (False, n) # ys)" using Cons.prems(1) b by simp
  have "extent xs + sz \<le> sm_mem_size_aligned m" using headers_item(7) [OF h] Cons.prems by simp
  moreover have "smem_alloc_loop sz (extent (xs @ [b])) m = smem_take sz (extent ((xs @ [b]) @ us)) m"
    using Cons.prems b by (intro Cons.IH) simp_all
  ultimately show ?case using alloc_loop_step [OF h Cons.prems(4)] Cons.prems(2) b by auto
qed

lemma alloc_loop_none:
  "headers m (xs @ ys) \<Longrightarrow> no_fit sz ys \<Longrightarrow> sz \<le> sm_mem_size_aligned m \<Longrightarrow> 0 < sz \<Longrightarrow>
   smem_alloc_loop sz (extent xs) m = Some (None, m)"
proof (induction ys arbitrary: xs)
  case Nil
  then have e: "extent xs = sm_mem_size_aligned m + 16" "extent xs + 32 \<le> 2 ^ 32" by (auto simp: headers_def)
  then have "sub32 (sm_mem_size_aligned m) sz = sm_mem_size_aligned m - sz" using Nil by (intro sub32_small) auto
  then have "\<not> extent xs \<le> sub32 (sm_mem_size_aligned m) sz" using e(1) by linarith
  then show ?case by (subst smem_alloc_loop.simps) simp
next
  case (Cons b ys)
  obtain v k where b: "b = (v, k)" by force
  have "smem_alloc_loop sz (extent (xs @ [b])) m = Some (None, m)"
    using Cons.prems b by (intro Cons.IH) simp_all
  then show ?case using alloc_loop_step [of m xs v k ys sz] Cons.prems b by auto
qed

text \<open>The blocks after taking the free block of length \<open>n\<close> for \<open>sz\<close> bytes.\<close>

definition taken :: "nat \<Rightarrow> nat \<Rightarrow> smem_block list" where
  "taken sz n = (if sz + 48 \<le> n then [(True, sz + 16), (False, n - (sz + 16))] else [(True, n)])"

lemma extent_taken [simp]: "sz + 16 \<le> n \<Longrightarrow> extent (taken sz n) = n"
  by (simp add: taken_def)

lemma smem_split_cut:
  assumes h: "headers m (xs @ (False, n) # ys)" and sz: "sz + 16 \<le> n"
  shows "smem_split sz (extent xs) m =
    (if sz + 48 \<le> n then smem_account (sz + 16) (smem_cut (extent xs) (extent xs + (sz + 16)) m) else smem_account n m)"
proof -
  note i = headers_item [OF h]
  have b: "extent xs + n < 2 ^ 32" "sz + 32 < 2 ^ 32" using i(5) sz by auto
  have "sub32 (extent xs + n) (extent xs + 16) = n - 16" "sub32 (extent xs + n) (extent xs) = n"
    using i(2) b by (simp_all add: sub32_small)
  moreover have "add32 (add32 sz 16) 16 = sz + 32" using b(2) by (simp add: add32_small)
  moreover have "sz + 32 \<le> n - 16 \<longleftrightarrow> sz + 48 \<le> n" using sz by linarith
  ultimately show ?thesis
    using i(1) by (simp add: smem_split_def smem_cut_def Let_def ac_simps)
qed

lemma smem_account_frame [simp]:
  "sm_lfree (smem_account n m) = sm_lfree m" "sm_used (smem_account n m) = sm_used m + n" "sm_item (smem_account n m) = sm_item m"
  "sm_data (smem_account n m) = sm_data m" "sm_heap_end (smem_account n m) = sm_heap_end m"
  "sm_mem_size_aligned (smem_account n m) = sm_mem_size_aligned m"
  by (simp_all add: smem_account_def Let_def)

lemma smem_take_spec:
  assumes s: "heap_is m (xs @ (False, n) # ys)" and sz: "8 \<le> sz" "sz mod 8 = 0" "sz + 16 \<le> n"
  shows "\<exists>m'. smem_take sz (extent xs) m = Some (Some (extent xs + 16), m') \<and> heap_is m' (xs @ taken sz n @ ys) \<and>
    sm_data m' = sm_data m"
proof -
  have h: "headers m (xs @ (False, n) # ys)" and co: "coalesced (xs @ (False, n) # ys)"
    and lf: "sm_lfree m = first_free 0 (xs @ (False, n) # ys)" and us: "sm_used m = in_use (xs @ (False, n) # ys)"
    using s by (simp_all add: heap_is_headers)
  note i = headers_item [OF h]
  let ?a = "if sz + 48 \<le> n then sz + 16 else n" and ?rest = "if sz + 48 \<le> n then (False, n - (sz + 16)) # ys else ys"
  let ?m1 = "smem_split sz (extent xs) m"
  let ?m2 = "upd_item (extent xs) (\<lambda>x. x\<lparr>it_pool_ptr := Pool_Used\<rparr>) ?m1"
  have bs: "xs @ taken sz n @ ys = xs @ (True, ?a) # ?rest" by (simp add: taken_def)
  have m1: "headers ?m1 (xs @ (False, ?a) # ?rest)" "sm_lfree ?m1 = sm_lfree m" "sm_used ?m1 = sm_used m + ?a" "sm_data ?m1 = sm_data m"
    unfolding smem_split_cut [OF h sz(3)] using h headers_cut [OF h, of "sz + 16"] sz by (auto simp: mod_add_eq [symmetric])
  have h2: "headers ?m2 (xs @ (True, ?a) # ?rest)" using headers_mark [OF m1(1), of True] by simp
  have used: "sm_used ?m2 = in_use (xs @ (True, ?a) # ?rest)" using m1(3) us by simp
  have co2: "coalesced (xs @ (True, ?a) # ?rest)"
    using co by (cases ys) (auto simp: coalesced_append)
  have sz0: "\<forall>(u, n) \<in> set xs. 0 < n" using chain_sizes [of "sm_item m" 0 0 xs] headers_split [OF h] by fastforce
  define m3 where "m3 = ?m2\<lparr>sm_lfree := first_free 0 (xs @ (True, ?a) # ?rest)\<rparr>"
  have h3: "headers m3 (xs @ (True, ?a) # ?rest)" unfolding m3_def using h2 by simp
  note e3 = headers_item [OF h3]
  have step: "(if extent xs = sm_lfree ?m2 then do {
        m \<leftarrow> smem_lfree_loop ?m2;
        rt_assert (sm_lfree m = sm_heap_end m \<or> \<not> MEM_ISUSED m (sm_lfree m));
        Some m } else Some ?m2) = Some m3"
  proof (cases "all_used xs")
    case True
    then have l: "sm_lfree ?m2 = extent xs" using lf m1(2) by (simp add: first_free_append)
    have "smem_lfree_loop ?m2 = Some (?m2\<lparr>sm_lfree := first_free (extent xs) ((True, ?a) # ?rest)\<rparr>)"
      by (rule smem_lfree_loop_spec [OF h2 l])
    also have "\<dots> = Some m3" using True by (simp add: m3_def first_free_append)
    finally have lp: "smem_lfree_loop ?m2 = Some m3" .
    have "sm_lfree m3 = sm_heap_end m3 \<or> \<not> MEM_ISUSED m3 (sm_lfree m3)"
      using lp by (intro smem_lfree_loop_result) 
    with l lp show ?thesis by simp
  next
    case False
    then have "sm_lfree ?m2 = first_free 0 xs" using lf m1(2) by (simp add: first_free_append)
    with first_free_less [OF False sz0, of 0] False show ?thesis by (simp add: m3_def first_free_append)
  qed
  have "extent xs + 16 + sz \<le> sm_heap_end m3" using e3(6) sz by auto
  moreover have "extent xs mod 8 = 0" using i(4) .
  then have "(extent xs + 16) mod 8 = 0" by (simp add: mod_add_eq [symmetric])
  ultimately have "smem_take sz (extent xs) m = Some (Some (extent xs + 16), m3)"
    using step i(4) by (simp add: smem_take_def RT_ALIGN_SIZE_def)
  moreover have "heap_is m3 (xs @ (True, ?a) # ?rest)"
    using h3 co2 used by (simp add: heap_is_headers m3_def)
  moreover have "sm_data m3 = sm_data m" using m1(4) by (simp add: m3_def)
  ultimately show ?thesis unfolding bs by blast
qed

lemma first_free_takeWhile: "first_free off bs = off + extent (takeWhile fst bs)"
  by (induction bs arbitrary: off rule: extent.induct) auto

text \<open>The bytes a block gets for a request of \<open>sz\<close>.\<close>

definition block_size :: "nat \<Rightarrow> nat" where
  "block_size sz = max MIN_SIZE_ALIGNED (RT_ALIGN sz RT_ALIGN_SIZE)"

lemma RT_ALIGN_facts:
  assumes "sz < 2 ^ 32 - 7"
  shows "sz \<le> RT_ALIGN sz RT_ALIGN_SIZE" "RT_ALIGN sz RT_ALIGN_SIZE mod 8 = 0" "RT_ALIGN sz RT_ALIGN_SIZE < sz + 8"
proof -
  have a: "RT_ALIGN sz RT_ALIGN_SIZE = (sz + 7) - (sz + 7) mod 8" using assms by (rule RT_ALIGN_8)
  have "(sz + 7) mod 8 \<le> 7" by simp
  then show "sz \<le> RT_ALIGN sz RT_ALIGN_SIZE" "RT_ALIGN sz RT_ALIGN_SIZE < sz + 8" unfolding a by linarith+
  show "RT_ALIGN sz RT_ALIGN_SIZE mod 8 = 0" unfolding a by (simp add: minus_mod_eq_mult_div)
qed

lemma block_size_facts:
  assumes "sz < 2 ^ 32 - 7"
  shows "sz \<le> block_size sz" "16 \<le> block_size sz" "block_size sz mod 8 = 0"
  using RT_ALIGN_facts [OF assms] by (simp_all add: block_size_def max_def)

lemma smem_alloc_spec:
  assumes s: "heap_is m bs" and sz: "0 < sz" "sz < 2 ^ 32 - 7"
  shows "no_fit (block_size sz) bs \<and> rt_smem_alloc sz m = Some (None, m) \<or>
    (\<exists>xs n ys m'. bs = xs @ (False, n) # ys \<and> no_fit (block_size sz) xs \<and> block_size sz + 16 \<le> n \<and>
       rt_smem_alloc sz m = Some (Some (extent xs + 16), m') \<and> heap_is m' (xs @ taken (block_size sz) n @ ys) \<and>
       sm_data m' = sm_data m)"
proof -
  let ?a = "block_size sz"
  note b = block_size_facts [OF sz(2)]
  have h: "headers m bs" and lf: "sm_lfree m = extent (takeWhile fst bs)"
    using s by (simp_all add: heap_is_headers first_free_takeWhile)
  have run: "rt_smem_alloc sz m = (if sm_mem_size_aligned m < ?a then Some (None, m) else smem_alloc_loop ?a (sm_lfree m) m)"
    using sz(1) by (simp add: rt_smem_alloc_def block_size_def Let_def max_def)
  have au: "all_used (takeWhile fst bs)" by (auto simp: all_used_def dest: set_takeWhileD)
  consider "no_fit ?a bs" | xs n ys where "bs = xs @ (False, n) # ys" "no_fit ?a xs" "?a + 16 \<le> n"
    using fit_cases by blast
  then show ?thesis
  proof cases
    case 1
    have h': "headers m (takeWhile fst bs @ dropWhile fst bs)" using h by simp
    have "no_fit ?a (dropWhile fst bs)" using 1 by (metis no_fit_simps(3) takeWhile_dropWhile_id)
    then have "smem_alloc_loop ?a (sm_lfree m) m = Some (None, m)" if "\<not> sm_mem_size_aligned m < ?a"
      unfolding lf using alloc_loop_none [OF h'] that b(2) by simp
    with 1 run show ?thesis by auto
  next
    case (2 xs n ys)
    have tw: "takeWhile fst bs = takeWhile fst xs" unfolding 2(1) by (induction xs) auto
    have id: "bs = takeWhile fst xs @ dropWhile fst xs @ (False, n) # ys" unfolding 2(1) by (simp add: append.assoc [symmetric])
    have h': "headers m (takeWhile fst xs @ dropWhile fst xs @ (False, n) # ys)" using h id by metis
    have sm: "?a \<le> sm_mem_size_aligned m" using headers_item(7) [of m xs False n ys] h 2(1,3) by simp
    have "no_fit ?a (dropWhile fst xs)" using 2(2) by (metis no_fit_simps(3) takeWhile_dropWhile_id)
    from alloc_loop_fit [OF h' this 2(3) sm] have "smem_alloc_loop ?a (sm_lfree m) m = smem_take ?a (extent xs) m"
      unfolding lf tw by (simp add: takeWhile_dropWhile_id)
    moreover obtain m' where "smem_take ?a (extent xs) m = Some (Some (extent xs + 16), m')"
      "heap_is m' (xs @ taken ?a n @ ys)" "sm_data m' = sm_data m"
      using smem_take_spec [of m xs n ys ?a] s 2(1,3) b by auto
    ultimately show ?thesis using 2 run sm by (intro disjI2) auto
  qed
qed

section \<open>Giving back\<close>

text \<open>What joining the free block of length \<open>n\<close> with its free neighbours gives.\<close>

fun absorb :: "nat \<Rightarrow> smem_block list \<Rightarrow> nat \<times> smem_block list" where
  "absorb n ((False, k) # zs) = (n + k, zs)"
| "absorb n ys = (n, ys)"

definition plugged :: "smem_block list \<Rightarrow> nat \<Rightarrow> smem_block list \<Rightarrow> smem_block list" where
  "plugged xs n ys =
     (let (n, ys) = absorb n ys in
      if xs \<noteq> [] \<and> \<not> fst (last xs) then butlast xs @ (False, snd (last xs) + n) # ys else xs @ (False, n) # ys)"

lemma absorb_facts:
  assumes "absorb n ys = (k, zs)"
  shows "k + extent zs = n + extent ys" "in_use zs = in_use ys" "regions (off + k) zs = regions (off + n) ys"
  using assms by (cases "(n, ys)" rule: absorb.cases; auto simp: add.assoc)+

text \<open>The last free block of \<open>xs\<close>, taken apart.\<close>

lemma last_free:
  assumes "xs \<noteq> [] \<and> \<not> fst (last xs)"
  obtains ws j where "xs = ws @ [(False, j)]" "last xs = (False, j)" "butlast xs = ws"
  using assms by (metis (full_types) append_butlast_last_id prod.collapse)

lemma plugged_facts:
  "extent (plugged xs n ys) = extent xs + n + extent ys \<and> in_use (plugged xs n ys) = in_use xs + in_use ys \<and>
   regions 0 (plugged xs n ys) = regions 0 xs @ regions (extent xs + n) ys"
proof -
  obtain k zs where kz: "absorb n ys = (k, zs)" by force
  note f = absorb_facts [OF kz]
  show ?thesis
  proof (cases "xs \<noteq> [] \<and> \<not> fst (last xs)")
    case True
    then obtain ws j where w: "xs = ws @ [(False, j)]" "last xs = (False, j)" "butlast xs = ws" by (rule last_free)
    have "plugged xs n ys = ws @ (False, j + k) # zs" using True kz w(2,3) by (simp add: plugged_def)
    then show ?thesis using f(1,2) f(3) [of "extent ws + j"] w(1) by (simp add: add.assoc)
  next
    case False
    then have "plugged xs n ys = xs @ (False, k) # zs" using kz by (auto simp: plugged_def)
    then show ?thesis using f(1,2) f(3) [of "extent xs"] by simp
  qed
qed

lemmas extent_plugged = plugged_facts [THEN conjunct1]
  and in_use_plugged = plugged_facts [THEN conjunct2, THEN conjunct1]
  and regions_plugged = plugged_facts [THEN conjunct2, THEN conjunct2]

lemma plug_forward_spec:
  assumes h: "headers m (xs @ (False, n) # ys)"
  shows "plug_forward (extent xs) m = (case ys of
      (False, k) # zs \<Rightarrow> smem_join (extent xs) (extent xs + n)
        (if sm_lfree m = extent xs + n then m\<lparr>sm_lfree := extent xs\<rparr> else m)
    | _ \<Rightarrow> m)"
proof -
  note i = headers_item [OF h] note nu = headers_next_used [OF h]
  have e: "extent xs + n = sm_heap_end m \<longleftrightarrow> ys = []"
    using headers_split [OF h] i(6) by (cases ys) auto
  have "extent xs \<noteq> extent xs + n" using i(2) by simp
  then show ?thesis
    using i(1) nu e unfolding plug_forward_def smem_join_def Let_def
    by (auto split: list.splits prod.splits bool.splits simp: upd_item_def)
qed

lemma plug_backward_spec:
  assumes h: "headers m (xs @ (False, n) # ys)"
  shows "plug_backward (extent xs) m =
    (if xs \<noteq> [] \<and> \<not> fst (last xs)
     then smem_join (extent (butlast xs)) (extent xs) (if sm_lfree m = extent xs then m\<lparr>sm_lfree := extent (butlast xs)\<rparr> else m)
     else m)"
proof (cases "xs = []")
  case True
  with headers_item(1) [OF h] show ?thesis by (simp add: plug_backward_def prev_off_def)
next
  case False
  obtain u k where l: "last xs = (u, k)" by force
  then have xs: "xs = butlast xs @ [(u, k)]" using False by (metis append_butlast_last_id)
  have h': "headers m (butlast xs @ (u, k) # (False, n) # ys)" using h xs by (metis append.assoc append_Cons append_Nil)
  have "extent xs = extent (butlast xs) + k" using xs by (metis extent.simps extent_append add_0_right)
  then have "extent (butlast xs) \<noteq> extent xs" using headers_item(2) [OF h'] by simp
  then show ?thesis
    using False headers_item(1) [OF h] used_block [OF h'] l
    by (auto simp: plug_backward_def smem_join_def prev_off_def Let_def upd_item_def)
qed

lemma positive_blocks: "headers m (xs @ ys) \<Longrightarrow> \<forall>(u, n) \<in> set xs. 0 < n"
  using chain_sizes headers_split by fastforce

text \<open>After the joins no two neighbours are free, and the lowest free block is where it was.\<close>

lemma plug_holes_spec:
  assumes h: "headers m (xs @ (False, n) # ys)" and c: "coalesced xs" "coalesced ys"
    and l: "sm_lfree m = first_free 0 (xs @ (False, n) # ys)"
  shows "\<exists>m'. plug_holes (extent xs) m = Some m' \<and> headers m' (plugged xs n ys) \<and> coalesced (plugged xs n ys) \<and>
    sm_lfree m' = first_free 0 (plugged xs n ys) \<and> sm_used m' = sm_used m \<and> sm_data m' = sm_data m"
proof -
  note i = headers_item [OF h]
  have l0: "sm_lfree m \<le> extent xs"
    using first_free_bounds [of 0 xs] unfolding l by (simp add: first_free_append)
  obtain k zs where kz: "absorb n ys = (k, zs)" by force
  define m1 where "m1 = plug_forward (extent xs) m"
  have m1: "headers m1 (xs @ (False, k) # zs)" "sm_lfree m1 = sm_lfree m" "sm_used m1 = sm_used m" "sm_data m1 = sm_data m"
    "coalesced ((False, k) # zs)"
  proof -
    have "headers m1 (xs @ (False, k) # zs) \<and> sm_lfree m1 = sm_lfree m \<and> sm_used m1 = sm_used m \<and> sm_data m1 = sm_data m \<and>
      coalesced ((False, k) # zs)"
    proof (cases ys)
      case Nil
      then show ?thesis using h kz by (simp add: m1_def plug_forward_spec [OF h])
    next
      case (Cons b ys')
      obtain v j where b: "b = (v, j)" by force
      show ?thesis
      proof (cases v)
        case True
        then have "k = n" "zs = ys" using kz Cons b by simp_all
        moreover have "m1 = m" unfolding m1_def plug_forward_spec [OF h] Cons b using True by simp
        ultimately show ?thesis using h c(2) Cons b True by simp
      next
        case False
        have "sm_lfree m \<noteq> extent xs + n" using l0 i(2) by simp
        then have e: "m1 = smem_join (extent xs) (extent xs + n) m"
          using Cons b False by (simp add: m1_def plug_forward_spec [OF h])
        have "coalesced ((False, n + j) # ys')" using c(2) Cons b False by (cases ys') auto
        moreover have "headers m1 (xs @ (False, n + j) # ys')" unfolding e using headers_join h Cons b False by simp
        ultimately show ?thesis using kz Cons b False by (simp add: e)
      qed
    qed
    then show "headers m1 (xs @ (False, k) # zs)" "sm_lfree m1 = sm_lfree m" "sm_used m1 = sm_used m" "sm_data m1 = sm_data m"
      "coalesced ((False, k) # zs)" by blast+
  qed
  have run: "plug_holes (extent xs) m = Some (plug_backward (extent xs) m1)"
    using i(2,6) by (simp add: plug_holes_def m1_def)
  show ?thesis
  proof (cases "xs \<noteq> [] \<and> \<not> fst (last xs)")
    case False
    then have p: "plugged xs n ys = xs @ (False, k) # zs" using kz by (auto simp: plugged_def)
    have "first_free 0 (xs @ (False, k) # zs) = sm_lfree m" unfolding l by (simp add: first_free_append)
    moreover have "coalesced (xs @ (False, k) # zs)" using c(1) m1(5) False by (auto simp: coalesced_append)
    moreover have "plug_backward (extent xs) m1 = m1"
      unfolding plug_backward_spec [OF m1(1)] using False by (rule if_not_P)
    ultimately show ?thesis using m1 unfolding run p by simp
  next
    case True
    obtain j where j: "last xs = (False, j)" using True by (cases "last xs") auto
    let ?ws = "butlast xs"
    have xs: "xs = ?ws @ [(False, j)]" using True j by (metis append_butlast_last_id)
    have ex: "extent xs = extent ?ws + j" using xs by (metis extent.simps extent_append add_0_right)
    have p: "plugged xs n ys = ?ws @ (False, j + k) # zs" using kz True j by (simp add: plugged_def)
    have h': "headers m1 (?ws @ (False, j) # (False, k) # zs)" using m1(1) xs by (metis append.assoc append_Cons append_Nil)
    have "\<not> all_used xs" using True last_in_set unfolding all_used_def by blast
    then have "sm_lfree m1 < extent xs"
      using first_free_less [of xs 0] positive_blocks [OF h] l m1(2) by (simp add: first_free_append)
    then have e: "plug_backward (extent xs) m1 = smem_join (extent ?ws) (extent ?ws + j) m1"
      using True unfolding plug_backward_spec [OF m1(1)] by (simp add: ex)
    have "coalesced (?ws @ [(False, j)])" using c(1) xs by metis
    then have "coalesced (?ws @ (False, j + k) # zs)"
      using m1(5) by (cases zs) (auto simp: coalesced_append)
    moreover have "first_free 0 (?ws @ (False, j + k) # zs) = sm_lfree m"
    proof -
      have "sm_lfree m = first_free 0 (?ws @ [(False, j)] @ (False, n) # ys)" unfolding l by (metis append.assoc xs)
      then show ?thesis by (simp add: first_free_append)
    qed
    ultimately show ?thesis
      using headers_join [OF h'] m1 unfolding run p e by simp
  qed
qed

lemma smem_free_spec:
  assumes s: "heap_is m (xs @ (True, n) # ys)"
  shows "\<exists>m'. rt_smem_free (Some (extent xs + 16)) m = Some m' \<and> heap_is m' (plugged xs n ys) \<and> sm_data m' = sm_data m"
proof -
  have h: "headers m (xs @ (True, n) # ys)" and co: "coalesced (xs @ (True, n) # ys)"
    and lf: "sm_lfree m = first_free 0 (xs @ (True, n) # ys)" and us: "sm_used m = in_use (xs @ (True, n) # ys)"
    using s by (simp_all add: heap_is_headers)
  note i = headers_item [OF h]
  let ?p = "extent xs"
  let ?m1 = "upd_item ?p (\<lambda>x. x\<lparr>it_pool_ptr := Pool_Freed\<rparr>) m"
  let ?m2 = "if ?p < sm_lfree ?m1 then ?m1\<lparr>sm_lfree := ?p\<rparr> else ?m1"
  let ?m3 = "?m2\<lparr>sm_used := sub32 (sm_used ?m2) (sub32 (it_next (sm_item ?m2 ?p)) ?p)\<rparr>"
  have h1: "headers ?m1 (xs @ (False, n) # ys)" using headers_mark [OF h, of False] by simp
  then have h3: "headers ?m3 (xs @ (False, n) # ys)" by (cases "?p < sm_lfree ?m1") simp_all
  have l3: "sm_lfree ?m3 = first_free 0 (xs @ (False, n) # ys)"
  proof (cases "all_used xs")
    case True
    then show ?thesis using lf first_free_bounds [of "?p + n" ys] i(2) by (simp add: first_free_append)
  next
    case False
    with first_free_less [OF False positive_blocks [OF h], of 0] lf show ?thesis by (simp add: first_free_append)
  qed
  have "sub32 (?p + n) ?p = n" using i(5) by (simp add: sub32_small)
  moreover have "in_use xs + n + in_use ys < 2 ^ 32"
    using in_use_extent [of xs] in_use_extent [of ys] i(5) by linarith
  ultimately have u3: "sm_used ?m3 = in_use xs + in_use ys" using us i(1) by (simp add: sub32_small)
  have co': "coalesced xs" "coalesced ys" using co coalesced_tl by (auto simp: coalesced_append)
  obtain m' where m': "plug_holes ?p ?m3 = Some m'" "headers m' (plugged xs n ys)" "coalesced (plugged xs n ys)"
    "sm_lfree m' = first_free 0 (plugged xs n ys)" "sm_used m' = sm_used ?m3" "sm_data m' = sm_data ?m3"
    using plug_holes_spec [OF h3 co' l3] by blast
  have np: "it_pool_ptr (sm_item m (?p + n)) \<noteq> Pool_Null"
  proof (cases ys)
    case Nil
    with h show ?thesis by (simp add: headers_def)
  next
    case (Cons b zs)
    with headers_split [OF h] show ?thesis by (cases b) auto
  qed
  have "rt_smem_free (Some (?p + 16)) m = Some m'"
    using i np m'(1) by (simp add: rt_smem_free_def RT_ALIGN_SIZE_def MEM_ISUSED_def mod_add_eq [symmetric] del: upd_item_simps(1))
  moreover have "plugged xs n ys \<noteq> []"
    using extent_plugged [of xs n ys] i(2) by (cases "plugged xs n ys") auto
  moreover have "sm_data ?m3 = sm_data m" by simp
  ultimately show ?thesis
    using m' u3 in_use_plugged [of xs n ys] by (simp add: heap_is_headers)
qed

section \<open>Live blocks\<close>

fun smem_walk :: "(nat \<Rightarrow> rt_small_mem_item) \<Rightarrow> nat \<Rightarrow> nat \<Rightarrow> nat \<Rightarrow> smem_block list" where
  "smem_walk it 0 e off = []"
| "smem_walk it (Suc f) e off =
     (if e \<le> off then []
      else (it_pool_ptr (it off) = Pool_Used, it_next (it off) - off) # smem_walk it f e (it_next (it off)))"

text \<open>The blocks the headers describe, and the data of those in use.\<close>

definition smem_blocks :: "rt_small_mem \<Rightarrow> smem_block list" where
  "smem_blocks m = smem_walk (sm_item m) (sm_heap_end m) (sm_heap_end m) 0"

definition smem_live :: "rt_small_mem \<Rightarrow> block set" where
  "smem_live m = set (regions 0 (smem_blocks m))"

definition smem_inv :: "rt_small_mem \<Rightarrow> bool" where
  "smem_inv m \<longleftrightarrow> heap_is m (smem_blocks m)"

lemma smem_walk_chain: "chain it pv off bs \<Longrightarrow> length bs \<le> f \<Longrightarrow> smem_walk it f (off + extent bs) off = bs"
proof (induction bs arbitrary: pv off f rule: extent.induct)
  case 1
  then show ?case by (cases f) auto
next
  case (2 u n bs)
  then obtain g where f: "f = Suc g" by (cases f) auto
  have "smem_walk it g (off + n + extent bs) (off + n) = bs" using 2 f by auto
  with 2 f show ?case by (simp add: add.assoc)
qed

lemma headers_blocks: "headers m bs \<Longrightarrow> smem_blocks m = bs"
proof -
  assume h: "headers m bs"
  have "length bs \<le> extent bs" if "\<forall>(u, n) \<in> set bs. 24 \<le> n \<and> n mod 8 = 0" for bs :: "smem_block list"
    using that by (induction bs rule: extent.induct) auto
  with h chain_sizes have "length bs \<le> extent bs" by (auto simp: headers_def)
  with h smem_walk_chain [of "sm_item m" 0 0 bs] show ?thesis by (simp add: headers_def smem_blocks_def)
qed

lemma heap_is_inv:
  assumes "heap_is m bs"
  shows "smem_inv m" "smem_blocks m = bs" "smem_live m = set (regions 0 bs)"
  using headers_blocks [of m bs] assms by (simp_all add: smem_inv_def smem_live_def heap_is_headers)

lemma regions_range:
  "\<forall>(u, n) \<in> set bs. 24 \<le> n \<and> n mod 8 = 0 \<Longrightarrow> (p, k) \<in> set (regions off bs) \<Longrightarrow>
   off + 16 \<le> p \<and> p + k \<le> off + extent bs \<and> 8 \<le> k"
proof (induction bs arbitrary: off rule: extent.induct)
  case (2 u n bs)
  from "2.IH" [of "off + n"] "2.prems" show ?case by (auto split: if_splits)
qed simp

lemma regions_apart:
  "\<forall>(u, n) \<in> set bs. 24 \<le> n \<and> n mod 8 = 0 \<Longrightarrow> all_apart (set (regions off bs))"
proof (induction bs arbitrary: off rule: extent.induct)
  case (2 u n bs)
  have ih: "all_apart (set (regions (off + n) bs))" using "2.IH" "2.prems" by simp
  show ?case
  proof (cases u)
    case True
    have "apart (off + 16, n - 16) b" if "b \<in> set (regions (off + n) bs)" for b
      using regions_range [of bs "fst b" "snd b" "off + n"] that "2.prems" by (auto simp: apart_def)
    then have "all_apart (insert (off + 16, n - 16) (set (regions (off + n) bs)))" by (rule all_apart_insert [OF ih])
    with True show ?thesis by simp
  qed (use ih in simp)
qed (simp add: all_apart_def)

text \<open>No header lies in the data of a block in use.\<close>

lemma heads_apart:
  "\<forall>(u, n) \<in> set bs. 24 \<le> n \<and> n mod 8 = 0 \<Longrightarrow> h \<in> heads off bs \<Longrightarrow> b \<in> set (regions off bs) \<Longrightarrow> apart (h, 16) b"
proof (induction bs arbitrary: off rule: extent.induct)
  case (2 u n bs)
  have sz: "\<forall>(u, n) \<in> set bs. 24 \<le> n \<and> n mod 8 = 0" "24 \<le> n" using "2.prems"(1) by auto
  have hr: "off + n \<le> h" if "h \<in> heads (off + n) bs" using heads_range [OF sz(1), of "off + n"] that by (meson atLeastLessThan_iff subsetD)
  have br: "off + n + 16 \<le> fst b" if "b \<in> set (regions (off + n) bs)"
    using regions_range [OF sz(1), of "fst b" "snd b" "off + n"] that by simp
  consider "h \<in> heads (off + n) bs" "b \<in> set (regions (off + n) bs)" | "h = off" "off + 16 \<le> fst b"
    | "h \<in> heads (off + n) bs" "b = (off + 16, n - 16)"
    using "2.prems"(2,3) br sz(2) by (auto split: if_splits)
  then show ?case
  proof cases
    case 1
    with "2.IH" sz(1) show ?thesis by blast
  next
    case 2
    then show ?thesis by (simp add: apart_def)
  next
    case 3
    with hr sz(2) show ?thesis by (simp add: apart_def)
  qed
qed simp

lemma regions_split:
  "(p, k) \<in> set (regions off bs) \<Longrightarrow> \<exists>xs n ys. bs = xs @ (True, n) # ys \<and> p = off + extent xs + 16 \<and> k = n - 16"
proof (induction bs arbitrary: off rule: extent.induct)
  case (2 u n bs)
  consider "u" "p = off + 16" "k = n - 16" | "(p, k) \<in> set (regions (off + n) bs)" using "2.prems" by (auto split: if_splits)
  then show ?case
  proof cases
    case 1
    then have "(u, n) # bs = [] @ (True, n) # bs \<and> p = off + extent [] + 16 \<and> k = n - 16" by simp
    then show ?thesis by blast
  next
    case 2
    from "2.IH" [OF this] obtain xs j ys where x: "bs = xs @ (True, j) # ys" "p = off + n + extent xs + 16" "k = j - 16" by blast
    then have "(u, n) # bs = ((u, n) # xs) @ (True, j) # ys \<and> p = off + extent ((u, n) # xs) + 16 \<and> k = j - 16" by simp
    then show ?thesis by blast
  qed
qed simp

lemma heap_is_sizes: "heap_is m bs \<Longrightarrow> \<forall>(u, n) \<in> set bs. 24 \<le> n \<and> n mod 8 = 0"
  by (rule chain_sizes [of "sm_item m" 0 0]) (simp add: heap_is_def)

lemma regions_taken: "regions off (taken sz n) = [(off + 16, if sz + 48 \<le> n then sz else n - 16)]"
  by (simp add: taken_def)

text \<open>Allocation and release, on the live blocks.\<close>

lemma smem_alloc_live:
  assumes s: "smem_inv m" and sz: "sz < 2 ^ 32 - 7"
  shows "\<exists>r m'. rt_smem_alloc sz m = Some (r, m') \<and> smem_inv m' \<and> sm_data m' = sm_data m \<and>
    sm_heap_end m' = sm_heap_end m \<and>
    (case r of None \<Rightarrow> m' = m
     | Some p \<Rightarrow> \<exists>k. block_size sz \<le> k \<and> (p, k) \<notin> smem_live m \<and> smem_live m' = insert (p, k) (smem_live m))"
proof (cases "sz = 0")
  case True
  with s show ?thesis by (simp add: rt_smem_alloc_def)
next
  case False
  let ?bs = "smem_blocks m"
  have h: "heap_is m ?bs" using s by (simp add: smem_inv_def)
  have "0 < sz" using False by simp
  from smem_alloc_spec [OF h this sz] show ?thesis
  proof (elim disjE exE conjE)
    assume "rt_smem_alloc sz m = Some (None, m)"
    with s show ?thesis by simp
  next
    fix xs n ys m'
    assume b: "?bs = xs @ (False, n) # ys" and a: "block_size sz + 16 \<le> n"
      and r: "rt_smem_alloc sz m = Some (Some (extent xs + 16), m')"
      and h': "heap_is m' (xs @ taken (block_size sz) n @ ys)" and d: "sm_data m' = sm_data m"
    let ?k = "if block_size sz + 48 \<le> n then block_size sz else n - 16"
    have live: "smem_live m = set (regions 0 xs) \<union> set (regions (extent xs + n) ys)"
      using b by (simp add: smem_live_def)
    moreover have "smem_live m' = insert (extent xs + 16, ?k) (set (regions 0 xs) \<union> set (regions (extent xs + n) ys))"
      using heap_is_inv(3) [OF h'] a by (simp add: regions_taken)
    moreover have "(extent xs + 16, ?k) \<notin> smem_live m"
    proof -
      have sz': "\<forall>(u, n) \<in> set xs. 24 \<le> n \<and> n mod 8 = 0" "\<forall>(u, n) \<in> set ys. 24 \<le> n \<and> n mod 8 = 0" "24 \<le> n"
        using heap_is_sizes [OF h] unfolding b by auto
      have "(extent xs + 16, ?k) \<notin> set (regions 0 xs)" "(extent xs + 16, ?k) \<notin> set (regions (extent xs + n) ys)"
        by (rule notI, drule regions_range [OF sz'(1)], linarith) (rule notI, drule regions_range [OF sz'(2)], use sz'(3) in linarith)
      with live show ?thesis by simp
    qed
    moreover have "block_size sz \<le> ?k" using a by (simp add: le_diff_conv2)
    moreover have "sm_heap_end m' = sm_heap_end m" using h' h a b by (simp add: heap_is_def)
    ultimately show ?thesis using r d heap_is_inv(1) [OF h'] by auto
  qed
qed

lemma smem_free_live:
  assumes s: "smem_inv m" and p: "(p, k) \<in> smem_live m"
  shows "\<exists>m'. rt_smem_free (Some p) m = Some m' \<and> smem_inv m' \<and> smem_live m' = smem_live m - {(p, k)} \<and>
    sm_data m' = sm_data m \<and> sm_heap_end m' = sm_heap_end m"
proof -
  have h: "heap_is m (smem_blocks m)" using s by (simp add: smem_inv_def)
  obtain xs n ys where b: "smem_blocks m = xs @ (True, n) # ys" "p = extent xs + 16" "k = n - 16"
    using regions_split p unfolding smem_live_def by fastforce
  obtain m' where m': "rt_smem_free (Some p) m = Some m'" "heap_is m' (plugged xs n ys)" "sm_data m' = sm_data m"
    using smem_free_spec [of m xs n ys] h b by auto
  have sz': "\<forall>(u, n) \<in> set xs. 24 \<le> n \<and> n mod 8 = 0" "\<forall>(u, n) \<in> set ys. 24 \<le> n \<and> n mod 8 = 0" "24 \<le> n"
    using heap_is_sizes [OF h] unfolding b(1) by auto
  have "(p, k) \<notin> set (regions 0 xs)" "(p, k) \<notin> set (regions (extent xs + n) ys)"
    unfolding b(2)
    by (rule notI, drule regions_range [OF sz'(1)], linarith) (rule notI, drule regions_range [OF sz'(2)], use sz'(3) in linarith)
  then have "smem_live m' = smem_live m - {(p, k)}"
    unfolding heap_is_inv(3) [OF m'(2)] regions_plugged unfolding smem_live_def b(1) by (auto simp: b(2,3))
  moreover have "sm_heap_end m' = sm_heap_end m"
    using m'(2) h extent_plugged [of xs n ys] b(1) by (simp add: heap_is_def)
  ultimately show ?thesis using m' heap_is_inv(1) [OF m'(2)] by blast
qed

lemma smem_live_facts:
  assumes "smem_inv m"
  shows "all_apart (smem_live m)" "(p, k) \<in> smem_live m \<Longrightarrow> 16 \<le> p \<and> p + k \<le> sm_heap_end m \<and> 8 \<le> k \<and> p mod 8 = 0"
proof -
  have h: "heap_is m (smem_blocks m)" using assms by (simp add: smem_inv_def)
  note z = heap_is_sizes [OF h]
  show "all_apart (smem_live m)" unfolding smem_live_def by (rule regions_apart [OF z])
  show "16 \<le> p \<and> p + k \<le> sm_heap_end m \<and> 8 \<le> k \<and> p mod 8 = 0" if p: "(p, k) \<in> smem_live m"
  proof -
    obtain xs n ys where b: "smem_blocks m = xs @ (True, n) # ys" "p = extent xs + 16"
      using regions_split p unfolding smem_live_def by fastforce
    have "extent xs mod 8 = 0" using extent_aligned [of xs] z b(1) by auto
    then have "p mod 8 = 0" unfolding b(2) by (simp add: mod_add_eq [symmetric])
    moreover have "sm_heap_end m = extent (smem_blocks m)" using h by (simp add: heap_is_def)
    ultimately show ?thesis using regions_range [OF z, of p k 0] p by (auto simp: smem_live_def)
  qed
qed

interpretation sm: allocator "\<lambda>sz. sz < 2 ^ 32 - 7" "\<lambda>m. smem_inv m \<and> sm_heap_end m = e" smem_live rt_smem_alloc "\<lambda>p. rt_smem_free (Some p)"
proof
  fix m :: rt_small_mem
  assume "smem_inv m \<and> sm_heap_end m = e"
  then have s: "smem_inv m" and e: "sm_heap_end m = e" by simp_all
  show "all_apart (smem_live m)" by (rule smem_live_facts(1) [OF s])
  show "0 < k" if "(p, k) \<in> smem_live m" for p k using smem_live_facts(2) [OF s that] by simp
  show "\<exists>r m'. rt_smem_alloc sz m = Some (r, m') \<and> (smem_inv m' \<and> sm_heap_end m' = e) \<and>
      (case r of None \<Rightarrow> smem_live m' = smem_live m
       | Some p \<Rightarrow> \<exists>k. sz \<le> k \<and> (p, k) \<notin> smem_live m \<and> smem_live m' = insert (p, k) (smem_live m))"
    if z: "sz < 2 ^ 32 - 7" for sz
  proof -
    obtain r m' where r: "rt_smem_alloc sz m = Some (r, m')" "smem_inv m'" "sm_heap_end m' = e" "case r of None \<Rightarrow> m' = m
       | Some p \<Rightarrow> \<exists>k. block_size sz \<le> k \<and> (p, k) \<notin> smem_live m \<and> smem_live m' = insert (p, k) (smem_live m)"
      using smem_alloc_live [OF s z] e by blast
    with block_size_facts(1) [OF z] show ?thesis by (cases r) (auto intro: le_trans)
  qed
  show "\<exists>m'. rt_smem_free (Some p) m = Some m' \<and> (smem_inv m' \<and> sm_heap_end m' = e) \<and> smem_live m' = smem_live m - {(p, k)}"
    if "(p, k) \<in> smem_live m" for p k using smem_free_live [OF s that] e by blast
qed

section \<open>Giving back what was just taken\<close>

lemma plugged_split:
  assumes c: "coalesced (xs @ (False, n) # ys)" and r: "rest = [] \<and> k = n \<or> (\<exists>j. rest = [(False, j)] \<and> k + j = n)"
  shows "plugged xs k (rest @ ys) = xs @ (False, n) # ys"
proof -
  have nx: "\<not> (xs \<noteq> [] \<and> \<not> fst (last xs))" using c by (auto simp: coalesced_append)
  have y: "ys = [] \<or> fst (hd ys)" using c by (cases ys) (auto simp: coalesced_append)
  then have "absorb k (rest @ ys) = (n, ys)" using r by (cases "(k, ys)" rule: absorb.cases) auto
  with nx show ?thesis by (auto simp: plugged_def)
qed

lemma plugged_taken:
  assumes c: "coalesced (xs @ (False, n) # ys)" and a: "sz + 16 \<le> n" and t: "taken sz n = (True, k) # rest"
  shows "plugged xs k (rest @ ys) = xs @ (False, n) # ys"
  by (rule plugged_split [OF c]) (use a t in \<open>auto simp: taken_def split: if_splits\<close>)

lemma smem_alloc_free:
  assumes s: "smem_inv m" and sz: "sz < 2 ^ 32 - 7" and r: "rt_smem_alloc sz m = Some (Some p, m1)"
  shows "\<exists>m2. rt_smem_free (Some p) m1 = Some m2 \<and> smem_inv m2 \<and> smem_blocks m2 = smem_blocks m"
proof -
  have h: "heap_is m (smem_blocks m)" using s by (simp add: smem_inv_def)
  have "0 < sz" using r by (auto simp: rt_smem_alloc_def split: if_splits)
  moreover have "\<not> (no_fit (block_size sz) (smem_blocks m) \<and> rt_smem_alloc sz m = Some (None, m))" using r by simp
  ultimately obtain xs n ys m' where b': "smem_blocks m = xs @ (False, n) # ys" "block_size sz + 16 \<le> n"
    "rt_smem_alloc sz m = Some (Some (extent xs + 16), m')" "heap_is m' (xs @ taken (block_size sz) n @ ys)"
    using smem_alloc_spec [OF h _ sz] by blast
  then have b: "smem_blocks m = xs @ (False, n) # ys" "block_size sz + 16 \<le> n" "p = extent xs + 16"
    "heap_is m1 (xs @ taken (block_size sz) n @ ys)" using r by simp_all
  have "\<exists>k rest. taken (block_size sz) n = (True, k) # rest" by (simp add: taken_def)
  then obtain k rest where t: "taken (block_size sz) n = (True, k) # rest" by blast
  from smem_free_spec [of m1 xs k "rest @ ys"] b(3,4) t obtain m2 where
    m2: "rt_smem_free (Some p) m1 = Some m2" "heap_is m2 (plugged xs k (rest @ ys))" by auto
  have "plugged xs k (rest @ ys) = smem_blocks m"
    using plugged_taken [OF _ b(2) t] h b(1) by (simp add: heap_is_def)
  with m2 heap_is_inv [OF m2(2)] show ?thesis by auto
qed

section \<open>Initialisation\<close>

lemma RT_ALIGN_DOWN_le: "n < 2 ^ 32 \<Longrightarrow> RT_ALIGN_DOWN n RT_ALIGN_SIZE \<le> n \<and> RT_ALIGN_DOWN n RT_ALIGN_SIZE mod 8 = 0"
  by (simp add: RT_ALIGN_DOWN_8 minus_mod_eq_mult_div)

lemma smem_init_spec:
  assumes b: "struct_size + 31 < begin_addr" "begin_addr + sz + struct_size + 16 < 2 ^ 32" and st: "0 < struct_size"
    and r: "rt_smem_init struct_size begin_addr sz m0 = Some (a, m)"
    and big: "RT_ALIGN (RT_ALIGN begin_addr RT_ALIGN_SIZE + struct_size) RT_ALIGN_SIZE + 40 \<le>
      RT_ALIGN_DOWN (begin_addr + sz) RT_ALIGN_SIZE"
  shows "heap_is m [(False, sm_mem_size_aligned m + 16)] \<and> begin_addr \<le> a \<and> a mod 8 = 0 \<and>
    a + sm_heap_end m + 16 \<le> begin_addr + sz"
proof -
  let ?s = "RT_ALIGN begin_addr RT_ALIGN_SIZE"
  let ?b = "RT_ALIGN (?s + struct_size) RT_ALIGN_SIZE" let ?e = "RT_ALIGN_DOWN (begin_addr + sz) RT_ALIGN_SIZE"
  have s: "begin_addr \<le> ?s" "?s < begin_addr + 8" using RT_ALIGN_facts [of begin_addr] b by simp_all
  have st': "add32 ?s struct_size = ?s + struct_size" using s b by (simp add: add32_small)
  have bb: "?s + struct_size \<le> ?b" "?b mod 8 = 0" "?b < ?s + struct_size + 8"
    using RT_ALIGN_facts [of "?s + struct_size"] s b by simp_all
  have e: "?e \<le> begin_addr + sz" "?e mod 8 = 0" using RT_ALIGN_DOWN_le [of "begin_addr + sz"] b by simp_all
  have ad: "add32 begin_addr sz = begin_addr + sz" using b by (simp add: add32_small)
  let ?n = "?e - ?b - 32"
  have sub: "sub32 (sub32 ?e ?b) (2 * SIZEOF_STRUCT_MEM) = ?n" using big e b by (simp add: sub32_small)
  have n: "8 \<le> ?n" "?n + ?b + 32 = ?e" using big by simp_all
  have "8 dvd ?e - ?b" using e(2) bb(2) by (simp add: mod_eq_0_iff_dvd dvd_diff_nat)
  then have "8 dvd ?e - ?b - 16" by (rule dvd_diff_nat) simp
  moreover have "?n + 16 = ?e - ?b - 16" using big by linarith
  ultimately have n8: "(?n + 16) mod 8 = 0" by (simp only: mod_eq_0_iff_dvd)
  have "?s + struct_size \<le> ?e - 32" "32 < ?e" using big bb by linarith+
  then have a: "a = ?b" "sm_item m 0 = \<lparr>it_pool_ptr = Pool_Freed, it_next = ?n + 16, it_prev = 0\<rparr>"
    "it_pool_ptr (sm_item m (?n + 16)) = Pool_Used" "sm_heap_end m = ?n + 16" "sm_lfree m = 0" "sm_used m = 0"
    "sm_mem_size_aligned m = ?n"
    using r unfolding rt_smem_init_def st' ad Let_def sub by auto
  have "?n + 16 + 32 \<le> 2 ^ 32" using n(2) e b bb by linarith
  then have "heap_is m [(False, sm_mem_size_aligned m + 16)]"
    using a n(1) n8 by (simp add: heap_is_def)
  moreover have "a + sm_heap_end m + 16 \<le> begin_addr + sz" unfolding a using n(2) e(1) by linarith
  ultimately show ?thesis using a(1) bb s by simp
qed

section \<open>Reallocation\<close>

lemma smem_copy_simps [simp]:
  "sm_item (smem_copy d s n m) = sm_item m" "smem_blocks (smem_copy d s n m) = smem_blocks m"
  "smem_live (smem_copy d s n m) = smem_live m" "smem_inv (smem_copy d s n m) = smem_inv m"
  by (simp_all add: smem_copy_def smem_blocks_def smem_live_def smem_inv_def heap_is_def)

lemma smem_shrink_spec:
  assumes s: "heap_is m (xs @ (True, n) # ys)" and a: "8 \<le> ns" "ns mod 8 = 0" "ns + 28 < n - 16"
  shows "\<exists>m'. smem_shrink (extent xs) (n - 16) ns m = Some m' \<and>
    heap_is m' (plugged (xs @ [(True, ns + 16)]) (n - (ns + 16)) ys) \<and> sm_data m' = sm_data m"
proof -
  have h: "headers m (xs @ (True, n) # ys)" and co: "coalesced (xs @ (True, n) # ys)"
    and lf: "sm_lfree m = first_free 0 (xs @ (True, n) # ys)" and us: "sm_used m = in_use (xs @ (True, n) # ys)"
    using s by (simp_all add: heap_is_headers)
  note i = headers_item [OF h]
  let ?p = "extent xs" let ?q = "?p + (ns + 16)" let ?xs = "xs @ [(True, ns + 16)]" let ?k = "n - (ns + 16)"
  let ?m1 = "m\<lparr>sm_used := sub32 (sm_used m) (n - 16 - ns)\<rparr>"
  let ?m2 = "smem_cut ?p ?q ?m1"
  let ?m3 = "if ?q < sm_lfree ?m2 then ?m2\<lparr>sm_lfree := ?q\<rparr> else ?m2"
  have m8: "n mod 8 = 0" "(ns + 16) mod 8 = 0" using i(3) a(2) by (simp_all add: mod_add_eq [symmetric])
  have "ns + 16 + 24 \<le> n" using a(3) by linarith
  then have h2: "headers ?m2 (xs @ (True, ns + 16) # (False, ?k) # ys)"
    using headers_cut [of ?m1 xs True n ys "ns + 16"] h a(1) m8 by simp
  then have h3: "headers ?m3 (?xs @ (False, ?k) # ys)" by (cases "?q < sm_lfree ?m2") simp_all
  have e: "extent ?xs = ?q" by simp
  have l3: "sm_lfree ?m3 = first_free 0 (?xs @ (False, ?k) # ys)"
  proof (cases "all_used xs")
    case True
    then have "sm_lfree m = first_free (?p + n) ys" using lf by (simp add: first_free_append)
    moreover from this have "?q < sm_lfree m" using first_free_bounds [of "?p + n" ys] a(3) by linarith
    ultimately show ?thesis using True by (simp add: first_free_append)
  next
    case False
    with first_free_less [OF False positive_blocks [OF h], of 0] lf show ?thesis by (simp add: first_free_append)
  qed
  have co': "coalesced ?xs" "coalesced ys" using co coalesced_tl by (auto simp: coalesced_append)
  obtain m' where m': "plug_holes ?q ?m3 = Some m'" "headers m' (plugged ?xs ?k ys)" "coalesced (plugged ?xs ?k ys)"
    "sm_lfree m' = first_free 0 (plugged ?xs ?k ys)" "sm_used m' = sm_used ?m3" "sm_data m' = sm_data ?m3"
    using plug_holes_spec [OF h3 co' l3] unfolding e by blast
  have "in_use xs + n + in_use ys < 2 ^ 32"
    using in_use_extent [of xs] in_use_extent [of ys] i(5) by linarith
  then have u3: "sm_used ?m3 = in_use ?xs + in_use ys" using us a(3) by (simp add: sub32_small)
  have "smem_shrink ?p (n - 16) ns m = plug_holes ?q ?m3"
    by (simp add: smem_shrink_def smem_cut_def Let_def ac_simps)
  moreover have "plugged ?xs ?k ys \<noteq> []"
    using extent_plugged [of ?xs ?k ys] by (cases "plugged ?xs ?k ys") auto
  moreover have "sm_data ?m3 = sm_data m" by simp
  ultimately show ?thesis
    using m' u3 in_use_plugged [of ?xs ?k ys] by (intro exI [of _ m']) (simp add: heap_is_headers)
qed

definition realloc_ok :: "nat \<Rightarrow> nat \<Rightarrow> nat \<Rightarrow> rt_small_mem \<Rightarrow> nat option \<Rightarrow> rt_small_mem \<Rightarrow> bool" where
  "realloc_ok p k newsize m r m' \<longleftrightarrow>
     smem_inv m' \<and> realloc_done (smem_live m) (sm_data m) (smem_live m') (sm_data m') p k newsize r"

interpretation smd: data_allocator "\<lambda>sz. sz < 2 ^ 32 - 7" "\<lambda>m. smem_inv m \<and> sm_heap_end m = e" smem_live rt_smem_alloc
  "\<lambda>p. rt_smem_free (Some p)" sm_data smem_copy
proof
  fix m :: rt_small_mem
  assume "smem_inv m \<and> sm_heap_end m = e"
  then have s: "smem_inv m" "sm_heap_end m = e" by simp_all
  show "sm_data m' = sm_data m" if "n < 2 ^ 32 - 7" "rt_smem_alloc n m = Some (r, m')" for n r m'
    using smem_alloc_live [OF s(1) that(1)] that(2) by auto
  show "sm_data m' = sm_data m" if "(p, n) \<in> smem_live m" "rt_smem_free (Some p) m = Some m'" for p n m'
    using smem_free_live [OF s(1) that(1)] that(2) by auto
  show "smem_inv (smem_copy d b n m) \<and> sm_heap_end (smem_copy d b n m) = e" for d b n using s smem_copy_simps by (simp add: smem_copy_def)
qed (simp_all add: smem_copy_def smem_live_def smem_blocks_def)

lemma smem_realloc_shrink:
  assumes s: "smem_inv m" and b: "smem_blocks m = xs @ (True, n) # ys" and a: "8 \<le> ns" "ns mod 8 = 0" "ns + 28 < n - 16"
    and new: "newsize \<le> ns" "newsize \<noteq> 0"
  shows "\<exists>m'. smem_shrink (extent xs) (n - 16) ns m = Some m' \<and> realloc_ok (extent xs + 16) (n - 16) newsize m (Some (extent xs + 16)) m'"
proof -
  have h: "heap_is m (xs @ (True, n) # ys)" using s b by (simp add: smem_inv_def)
  obtain m' where m': "smem_shrink (extent xs) (n - 16) ns m = Some m'" "sm_data m' = sm_data m"
    "heap_is m' (plugged (xs @ [(True, ns + 16)]) (n - (ns + 16)) ys)" using smem_shrink_spec [OF h a] by blast
  have n: "ns + 16 + (n - (ns + 16)) = n" using a(3) by simp
  have live: "smem_live m = insert (extent xs + 16, n - 16) (set (regions 0 xs) \<union> set (regions (extent xs + n) ys))"
    using b by (auto simp: smem_live_def)
  have live': "smem_live m' = insert (extent xs + 16, ns) (set (regions 0 xs) \<union> set (regions (extent xs + n) ys))"
    using heap_is_inv(3) [OF m'(3)] n by (simp add: regions_plugged add.assoc)
  have out: "(extent xs + 16, l) \<notin> set (regions 0 xs) \<union> set (regions (extent xs + n) ys)" for l
  proof -
    have z: "\<forall>(u, n) \<in> set xs. 24 \<le> n \<and> n mod 8 = 0" "\<forall>(u, n) \<in> set ys. 24 \<le> n \<and> n mod 8 = 0" "24 \<le> n"
      using heap_is_sizes [OF h] by auto
    have "(extent xs + 16, l) \<notin> set (regions 0 xs)" "(extent xs + 16, l) \<notin> set (regions (extent xs + n) ys)"
      by (rule notI, drule regions_range [OF z(1)], linarith) (rule notI, drule regions_range [OF z(2)], use z(3) in linarith)
    then show ?thesis by simp
  qed
  have "realloc_ok (extent xs + 16) (n - 16) newsize m (Some (extent xs + 16)) m'"
    unfolding realloc_ok_def live live' m'(2) by (intro conjI heap_is_inv(1) [OF m'(3)] realloc_in_place new out)
  with m'(1) show ?thesis by blast
qed

lemma smem_realloc_move:
  assumes s: "smem_inv m" and p: "(p, k) \<in> smem_live m" and ns: "0 < ns" "ns < 2 ^ 32 - 7" "newsize \<le> ns" "newsize \<noteq> 0"
  shows "\<exists>r m'. (do {
      (nmem, m) \<leftarrow> rt_smem_alloc ns m;
      (case nmem of
         None \<Rightarrow> Some (None, m)
       | Some nmem \<Rightarrow> do {
           m \<leftarrow> rt_smem_free (Some p) (smem_copy nmem p (if k < ns then k else ns) m);
           Some (Some nmem, m)
         }) }) = Some (r, m') \<and> realloc_ok p k newsize m r m'"
  using smd.move_reallocates [of m "sm_heap_end m" p k ns newsize] s p ns(2-4) unfolding move_block_def realloc_ok_def by blast

lemma smem_realloc_spec:
  assumes s: "smem_inv m" and p: "(p, k) \<in> smem_live m" and sz: "newsize < 2 ^ 32 - 15"
  shows "\<exists>r m'. rt_smem_realloc (Some p) newsize m = Some (r, m') \<and> realloc_ok p k newsize m r m'"
proof -
  let ?ns = "RT_ALIGN newsize RT_ALIGN_SIZE"
  have ns: "newsize \<le> ?ns" "?ns mod 8 = 0" "?ns < newsize + 8" using RT_ALIGN_facts [of newsize] sz by simp_all
  have z0: "RT_ALIGN 0 RT_ALIGN_SIZE = 0" by (simp add: RT_ALIGN_8)
  have h: "heap_is m (smem_blocks m)" using s by (simp add: smem_inv_def)
  obtain xs n ys where b: "smem_blocks m = xs @ (True, n) # ys" "p = extent xs + 16" "k = n - 16"
    using regions_split p unfolding smem_live_def by fastforce
  have hd: "headers m (xs @ (True, n) # ys)" using h b(1) by (simp add: heap_is_headers)
  note i = headers_item [OF hd]
  have "(extent xs + 16) mod 8 = 0" using i(4) by (simp add: mod_add_eq [symmetric])
  then have pa: "p mod RT_ALIGN_SIZE = 0 \<and> 16 \<le> p" "p < sm_heap_end m" "p - 16 = extent xs"
    using i(2,6) unfolding b(2) RT_ALIGN_SIZE_def by simp_all
  have k: "sub32 (sub32 (it_next (sm_item m (p - 16))) (p - 16)) 16 = k" "k < 2 ^ 32"
    unfolding pa(3) b(3) using i(1,2,5) by (simp_all add: sub32_small)
  consider (big) "sm_mem_size_aligned m < ?ns" | (zero) "\<not> sm_mem_size_aligned m < ?ns" "?ns = 0"
    | (go) "\<not> sm_mem_size_aligned m < ?ns" "?ns \<noteq> 0" by blast
  then show ?thesis
  proof cases
    case big
    then have "newsize \<noteq> 0" using z0 by (metis not_less_zero)
    with big s show ?thesis by (simp add: rt_smem_realloc_def Let_def realloc_ok_def realloc_done_def)
  next
    case zero
    then have "newsize = 0" using ns by simp
    with zero smem_free_live [OF s p] show ?thesis by (auto simp: rt_smem_realloc_def Let_def realloc_ok_def realloc_done_def)
  next
    case go
    have n0: "newsize \<noteq> 0" using go(2) z0 by metis
    have n8: "8 \<le> ?ns" using ns(2) go(2) by (cases "?ns < 8") auto
    have sh: "add32 (add32 ?ns 16) 12 = ?ns + 28" using go(1) i(5,7) by (simp add: add32_small)
    have run: "rt_smem_realloc (Some p) newsize m =
      (if k = ?ns then Some (Some p, m)
       else if ?ns + 28 < k then do { m \<leftarrow> smem_shrink (extent xs) k ?ns m; Some (Some p, m) }
       else do {
            (nmem, m) \<leftarrow> rt_smem_alloc ?ns m;
            (case nmem of
               None \<Rightarrow> Some (None, m)
             | Some nmem \<Rightarrow> do {
                 m \<leftarrow> rt_smem_free (Some p) (smem_copy nmem p (if k < ?ns then k else ?ns) m);
                 Some (Some nmem, m)
               }) })"
      using go pa unfolding rt_smem_realloc_def Let_def option.case k(1) sh by simp
    consider (same) "k = ?ns" | (shrink) "k \<noteq> ?ns" "?ns + 28 < k" | (move) "k \<noteq> ?ns" "\<not> ?ns + 28 < k" by blast
    then show ?thesis
    proof cases
      case same
      have "realloc_ok p k newsize m (Some p) m"
        using s p ns(1) same n0 unfolding realloc_ok_def realloc_done_def by auto
      with same show ?thesis unfolding run by auto
    next
      case shrink
      have "\<exists>m'. smem_shrink (extent xs) k ?ns m = Some m' \<and> realloc_ok p k newsize m (Some p) m'"
        using smem_realloc_shrink [OF s b(1) n8 ns(2) _ ns(1) n0] shrink(2) unfolding b(2,3) by blast
      with shrink show ?thesis unfolding run by auto
    next
      case move
      have "?ns < 2 ^ 32 - 7" using ns(3) sz by linarith
      from smem_realloc_move [OF s p _ this ns(1) n0] go(2) move show ?thesis unfolding run by auto
    qed
  qed
qed

section \<open>Requests near 2^32\<close>

lemma RT_ALIGN_wraps: "2 ^ 32 - 7 \<le> sz \<Longrightarrow> sz < 2 ^ 32 \<Longrightarrow> RT_ALIGN sz RT_ALIGN_SIZE = 0"
proof -
  assume sz: "2 ^ 32 - 7 \<le> sz" "sz < 2 ^ 32"
  have "word_of_nat sz + word_of_nat 8 - 1 = (word_of_nat (sz + 7) :: u32)" by simp
  then have "RT_ALIGN sz RT_ALIGN_SIZE = unat ((word_of_nat (sz + 7) :: u32) AND - 8)"
    unfolding RT_ALIGN_def RT_ALIGN_SIZE_def by (simp add: add.commute)
  also have "\<dots> = unat (word_of_nat (sz + 7) :: u32) - unat (word_of_nat (sz + 7) :: u32) mod 8" by (rule and_not7_unat)
  also have "unat (word_of_nat (sz + 7) :: u32) = sz + 7 - 2 ^ 32"
  proof -
    have "(sz + 7) mod 2 ^ 32 = sz + 7 - 2 ^ 32" using sz by (simp add: le_mod_geq)
    then show ?thesis by (simp add: unat_of_nat del: of_nat_add)
  qed
  also have "(sz + 7 - 2 ^ 32) - (sz + 7 - 2 ^ 32) mod 8 = 0" using sz by simp
  finally show ?thesis .
qed

section \<open>Properties\<close>

text \<open>
  C8: No two blocks a client holds overlap, and none overlaps a header or leaves the region: after
  rt_smem_init any run of rt_smem_alloc (requests below 2^32 - 7 bytes) and rt_smem_free of held blocks
  returns, with every assertion of the code satisfied; every block held is at least as long as asked
  for.
\<close>
theorem heap_blocks_never_overlap:
  assumes "0 < struct_size" "struct_size + 31 < begin_addr" "begin_addr + sz + struct_size + 16 < 2 ^ 32"
    "RT_ALIGN (RT_ALIGN begin_addr RT_ALIGN_SIZE + struct_size) RT_ALIGN_SIZE + 40 \<le> RT_ALIGN_DOWN (begin_addr + sz) RT_ALIGN_SIZE"
    "rt_smem_init struct_size begin_addr sz m0 = Some (a, m)" "\<forall>n. Alloc n \<in> set ops \<longrightarrow> n < 2 ^ 32 - 7"
  shows "\<exists>held m'. alloc_run rt_smem_alloc (\<lambda>p. rt_smem_free (Some p)) ops [] m = Some (held, m') \<and>
    (\<forall>i < length held. \<forall>j < length held. i \<noteq> j \<longrightarrow> apart (held ! i) (held ! j)) \<and>
    (\<forall>(p, n) \<in> set held. begin_addr \<le> a + p \<and> a + p + n \<le> begin_addr + sz \<and> (a + p) mod 8 = 0 \<and>
       (\<forall>h \<in> heads 0 (smem_blocks m'). apart (h, 16) (p, n)))"
proof -
  have i: "heap_is m [(False, sm_mem_size_aligned m + 16)]" "begin_addr \<le> a" "a mod 8 = 0" "a + sm_heap_end m + 16 \<le> begin_addr + sz"
    using smem_init_spec [OF assms(2,3,1,5,4)] by simp_all
  have "smem_inv m \<and> sm_heap_end m = sm_heap_end m" "sm.holds [] m" using heap_is_inv(1) [OF i(1)] by (simp_all add: sm.holds_def)
  from sm.run_holds [OF this assms(6)] obtain held m' where
    r: "alloc_run rt_smem_alloc (\<lambda>p. rt_smem_free (Some p)) ops [] m = Some (held, m')"
    and m': "smem_inv m' \<and> sm_heap_end m' = sm_heap_end m" and h: "sm.holds held m'" by blast
  have "\<forall>i < length held. \<forall>j < length held. i \<noteq> j \<longrightarrow> apart (held ! i) (held ! j)" using sm.holds_apart [OF m' h] by blast
  moreover have "begin_addr \<le> a + p \<and> a + p + n \<le> begin_addr + sz \<and> (a + p) mod 8 = 0 \<and>
      (\<forall>h \<in> heads 0 (smem_blocks m'). apart (h, 16) (p, n))" if pn: "(p, n) \<in> set held" for p n
  proof -
    have "\<exists>k. n \<le> k \<and> (p, k) \<in> smem_live m'" using h pn unfolding sm.holds_def by blast
    then obtain k where k: "n \<le> k" "(p, k) \<in> smem_live m'" by blast
    have f: "16 \<le> p" "p + k \<le> sm_heap_end m" "p mod 8 = 0" using smem_live_facts(2) [OF conjunct1 [OF m'] k(2)] m' by simp_all
    have "(a + p) mod 8 = 0" using i(3) f(3) by (simp add: mod_add_eq [symmetric])
    moreover have "apart (h, 16) (p, n)" if "h \<in> heads 0 (smem_blocks m')" for h
    proof -
      have "heap_is m' (smem_blocks m')" using m' by (simp add: smem_inv_def)
      from heads_apart [OF heap_is_sizes [OF this] that, of "(p, k)"] k show ?thesis by (auto simp: smem_live_def apart_def)
    qed
    ultimately show ?thesis using f k(1) i(2,4) by simp
  qed
  ultimately show ?thesis using r by blast
qed

text \<open>
  C27: Allocation is first fit and complete: the search ends, rt_smem_alloc returns RT_NULL, changing
  nothing, only if no free block has room for the request rounded up, and otherwise takes the lowest
  that has, splitting it exactly when the rest can hold a block of the minimum size.
\<close>
theorem heap_alloc_is_first_fit:
  assumes "smem_inv m" "0 < sz" "sz < 2 ^ 32 - 7"
  shows "\<exists>r m'. rt_smem_alloc sz m = Some (r, m') \<and> smem_inv m' \<and>
    (case r of
       None \<Rightarrow> m' = m \<and> (\<forall>(used, n) \<in> set (smem_blocks m). used \<or> n < block_size sz + 16)
     | Some p \<Rightarrow> \<exists>xs n ys. smem_blocks m = xs @ (False, n) # ys \<and> p = extent xs + 16 \<and>
         (\<forall>(used, n) \<in> set xs. used \<or> n < block_size sz + 16) \<and> block_size sz + 16 \<le> n \<and>
         smem_blocks m' = xs @ (if block_size sz + 48 \<le> n
           then [(True, block_size sz + 16), (False, n - (block_size sz + 16))] else [(True, n)]) @ ys)"
proof -
  have h: "heap_is m (smem_blocks m)" using assms(1) by (simp add: smem_inv_def)
  from smem_alloc_spec [OF h assms(2,3)] show ?thesis
  proof (elim disjE exE conjE)
    assume "no_fit (block_size sz) (smem_blocks m)" "rt_smem_alloc sz m = Some (None, m)"
    then show ?thesis using assms(1) by (simp add: no_fit_def)
  next
    fix xs n ys m'
    assume a: "smem_blocks m = xs @ (False, n) # ys" "no_fit (block_size sz) xs" "block_size sz + 16 \<le> n"
      "rt_smem_alloc sz m = Some (Some (extent xs + 16), m')" "heap_is m' (xs @ taken (block_size sz) n @ ys)"
    then have "smem_inv m'" "smem_blocks m' = xs @ taken (block_size sz) n @ ys" using heap_is_inv by blast+
    with a show ?thesis unfolding no_fit_def taken_def by auto
  qed
qed

text \<open>
  C23: Freeing a block just allocated restores the heap exactly: the blocks, their sizes and their free
  neighbours are as before, so memory is neither lost nor fragmented.
\<close>
theorem heap_alloc_free_round_trip:
  assumes "smem_inv m" "sz < 2 ^ 32 - 7" "rt_smem_alloc sz m = Some (Some p, m1)"
  shows "\<exists>m2. rt_smem_free (Some p) m1 = Some m2 \<and> smem_inv m2 \<and> smem_blocks m2 = smem_blocks m"
  by (rule smem_alloc_free [OF assms])

text \<open>
  C15: Reallocating a block returns, keeps the heap well formed and either gives a block of at least the
  new size holding the old bytes up to the shorter of the two sizes, every other block untouched, or
  RT_NULL with the old block intact; a new size of 0 frees the block.
\<close>
theorem heap_realloc_preserves_bytes:
  assumes "smem_inv m" "(p, k) \<in> smem_live m" "newsize < 2 ^ 32 - 15"
  shows "\<exists>r m'. rt_smem_realloc (Some p) newsize m = Some (r, m') \<and> realloc_ok p k newsize m r m'"
  by (rule smem_realloc_spec [OF assms])

text \<open>
  Requests within 7 bytes of 2^32 wrap when they are rounded up: rt_smem_alloc treats them as a
  request of one byte and can return a block of 16 bytes, and rt_smem_realloc treats them as 0 and frees
  the block it was to enlarge.
\<close>
lemma heap_request_size_wraps:
  assumes "smem_inv m" "2 ^ 32 - 7 \<le> sz" "sz < 2 ^ 32"
  shows "rt_smem_alloc sz m = rt_smem_alloc 1 m \<and> block_size sz = 16 \<and>
    ((p, k) \<in> smem_live m \<longrightarrow> (\<exists>m'. rt_smem_realloc (Some p) sz m = Some (None, m') \<and> smem_live m' = smem_live m - {(p, k)}))"
proof (intro conjI impI)
  have z: "RT_ALIGN sz RT_ALIGN_SIZE = 0" by (rule RT_ALIGN_wraps [OF assms(2,3)])
  have o: "RT_ALIGN 1 RT_ALIGN_SIZE = 8" by (simp add: RT_ALIGN_8)
  have "sz \<noteq> 0" using assms(2) by simp
  then show "rt_smem_alloc sz m = rt_smem_alloc 1 m" unfolding rt_smem_alloc_def z o Let_def by simp
  show "block_size sz = 16" unfolding block_size_def z by simp
  assume p: "(p, k) \<in> smem_live m"
  then show "\<exists>m'. rt_smem_realloc (Some p) sz m = Some (None, m') \<and> smem_live m' = smem_live m - {(p, k)}"
    using smem_free_live [OF assms(1) p] unfolding rt_smem_realloc_def z Let_def by auto
qed

text \<open>A heap of 160 bytes in a region of 256 bytes at 0x1000, with a control block of 64 bytes.\<close>

definition empty_heap :: rt_small_mem where
  "empty_heap = \<lparr>sm_total = 0, sm_used = 0, sm_max = 0, sm_heap_end = 0, sm_lfree = 0, sm_mem_size_aligned = 0,
     sm_item = (\<lambda>_. \<lparr>it_pool_ptr = Pool_Null, it_next = 0, it_prev = 0\<rparr>), sm_data = (\<lambda>_. 0)\<rparr>"

lemma sample_heap:
  obtains m where "rt_smem_init 64 4096 256 empty_heap = Some (4160, m)" "heap_is m [(False, 176)]"
proof -
  have al: "RT_ALIGN 4096 RT_ALIGN_SIZE = 4096" "RT_ALIGN 4160 RT_ALIGN_SIZE = 4160" "RT_ALIGN_DOWN 4352 RT_ALIGN_SIZE = 4352"
    by (simp_all add: RT_ALIGN_8 RT_ALIGN_DOWN_8)
  obtain m where m: "rt_smem_init 64 4096 256 empty_heap = Some (4160, m)" "sm_mem_size_aligned m = 160"
    by (simp add: rt_smem_init_def add32_small sub32_small al)
  have "heap_is m [(False, 176)]" using smem_init_spec [of 64 4096 256 empty_heap 4160 m] m by (simp add: al)
  with m that show thesis by blast
qed

theorem heap_blocks_never_overlap_witness:
  "\<exists>m held m'. rt_smem_init 64 4096 256 empty_heap = Some (4160, m) \<and>
     alloc_run rt_smem_alloc (\<lambda>p. rt_smem_free (Some p)) [Alloc 24, Alloc 40, Free 0, Alloc 8] [] m = Some (held, m')"
proof -
  have al: "RT_ALIGN 4096 RT_ALIGN_SIZE = 4096" "RT_ALIGN 4160 RT_ALIGN_SIZE = 4160" "RT_ALIGN_DOWN 4352 RT_ALIGN_SIZE = 4352"
    by (simp_all add: RT_ALIGN_8 RT_ALIGN_DOWN_8)
  obtain m where m: "rt_smem_init 64 4096 256 empty_heap = Some (4160, m)" using sample_heap by blast
  from heap_blocks_never_overlap [OF _ _ _ _ m, where ops = "[Alloc 24, Alloc 40, Free 0, Alloc 8]"] m show ?thesis
    by (auto simp: al)
qed

lemma sample_alloc:
  assumes "heap_is m [(False, 176)]"
  shows "\<exists>m'. rt_smem_alloc 24 m = Some (Some 16, m') \<and> heap_is m' [(True, 40), (False, 136)]"
proof -
  have b: "block_size 24 = 24" by (simp add: block_size_def RT_ALIGN_8)
  from smem_alloc_spec [OF assms, of 24] show ?thesis by (auto simp: b taken_def Cons_eq_append_conv)
qed

theorem heap_alloc_is_first_fit_witness:
  "\<exists>m r m'. heap_is m [(False, 176)] \<and> rt_smem_alloc 24 m = Some (r, m') \<and> r = Some 16"
proof -
  have b: "block_size 24 = 24" by (simp add: block_size_def RT_ALIGN_8)
  obtain m where m: "heap_is m [(False, 176)]" using sample_heap by blast
  from heap_alloc_is_first_fit [OF heap_is_inv(1) [OF m], where sz = 24] m show ?thesis
    by (auto simp: heap_is_inv(2) [OF m] b Cons_eq_append_conv split: option.splits)
qed

theorem heap_alloc_free_round_trip_witness:
  "\<exists>m m1 m2. rt_smem_alloc 24 m = Some (Some 16, m1) \<and> rt_smem_free (Some 16) m1 = Some m2 \<and> smem_blocks m2 = [(False, 176)]"
proof -
  obtain m where m: "heap_is m [(False, 176)]" using sample_heap by blast
  obtain m1 where m1: "rt_smem_alloc 24 m = Some (Some 16, m1)" using sample_alloc [OF m] by blast
  from heap_alloc_free_round_trip [OF heap_is_inv(1) [OF m] _ m1] m1 show ?thesis by (auto simp: heap_is_inv(2) [OF m])
qed

theorem heap_realloc_preserves_bytes_witness:
  "\<exists>m r m'. (16, 24) \<in> smem_live m \<and> rt_smem_realloc (Some 16) 100 m = Some (r, m') \<and> realloc_ok 16 24 100 m r m'"
proof -
  obtain m where "heap_is m [(False, 176)]" using sample_heap by blast
  from sample_alloc [OF this] obtain m1 where m1: "heap_is m1 [(True, 40), (False, 136)]" by blast
  have l: "(16, 24) \<in> smem_live m1" using heap_is_inv(3) [OF m1] by simp
  from heap_realloc_preserves_bytes [OF heap_is_inv(1) [OF m1] l, where newsize = 100] l show ?thesis by auto
qed

lemma heap_request_size_wraps_witness:
  "\<exists>m m'. (16, 24) \<in> smem_live m \<and> rt_smem_realloc (Some 16) 0xffffffff m = Some (None, m') \<and> smem_live m' = {}"
proof -
  obtain m where "heap_is m [(False, 176)]" using sample_heap by blast
  from sample_alloc [OF this] obtain m1 where m1: "heap_is m1 [(True, 40), (False, 136)]" by blast
  have l: "smem_live m1 = {(16, 24)}" using heap_is_inv(3) [OF m1] by simp
  from heap_request_size_wraps [OF heap_is_inv(1) [OF m1], where sz = "0xffffffff" and p = 16 and k = 24] l show ?thesis by auto
qed

end
