(* ===== verification/Mempool.thy ===== *)
theory Mempool
  imports Ipc_Base Allocator
begin

text \<open>
  Memory pools (\<open>src/mempool.c\<close>): blocks of one size, each behind a pointer-sized header which links the
  free blocks and names the pool of a block in use, and a queue of threads waiting for a block.
\<close>

section \<open>The pool\<close>

text \<open>
  The pointer stored in the header of a block: the next free block, the control block of the pool, or
  whatever else the memory held.
\<close>

datatype mp_word = Mp_Next "nat option" | Mp_Pool nat | Mp_Other

record rt_mempool =
  mp_object :: obj_kind
  mp_start_address :: nat
  mp_size :: nat
  mp_block_size :: nat
  mp_block_list :: "nat option"
  mp_block_total_count :: nat
  mp_block_free_count :: nat

text \<open>The pools, the pointers in memory by their address, and the kernel.\<close>

record mp_state =
  mps_pool :: "nat \<Rightarrow> rt_mempool"
  mps_word :: "nat \<Rightarrow> mp_word"
  mps_kernel :: kstate

abbreviation mp_head :: "nat \<Rightarrow> lhead" where "mp_head i \<equiv> Suspend (Mempool i)"

definition upd_mp :: "nat \<Rightarrow> (rt_mempool \<Rightarrow> rt_mempool) \<Rightarrow> mp_state \<Rightarrow> mp_state" where
  "upd_mp i f s = s\<lparr>mps_pool := (mps_pool s)(i := f (mps_pool s i))\<rparr>"

definition upd_word :: "nat \<Rightarrow> mp_word \<Rightarrow> mp_state \<Rightarrow> mp_state" where
  "upd_word a w s = s\<lparr>mps_word := (mps_word s)(a := w)\<rparr>"

text \<open>\<open>sizeof(rt_uint8_t *)\<close> of a 32-bit target.\<close>

abbreviation (input) SIZEOF_PTR :: nat where "SIZEOF_PTR \<equiv> 4"

section \<open>Operations\<close>

text \<open>The loop that links the first \<open>n\<close> blocks, each to the one after it.\<close>

primrec mp_link_blocks :: "nat \<Rightarrow> nat \<Rightarrow> nat \<Rightarrow> mp_state \<Rightarrow> mp_state" where
  "mp_link_blocks block_ptr stride 0 s = s"
| "mp_link_blocks block_ptr stride (Suc offset) s =
     upd_word (add32 block_ptr (mul32 offset stride)) (Mp_Next (Some (add32 block_ptr (mul32 (offset + 1) stride))))
       (mp_link_blocks block_ptr stride offset s)"

text \<open>The free list of a new pool; the index of the last block is computed as \<open>offset - 1\<close>.\<close>

definition mp_free_list_init :: "nat \<Rightarrow> nat \<Rightarrow> mp_state \<Rightarrow> mp_state" where
  "mp_free_list_init i block_size s =
     (let block_ptr = mp_start_address (mps_pool s i);
          offset = mp_block_total_count (mps_pool s i);
          s = mp_link_blocks block_ptr (add32 block_size SIZEOF_PTR) offset s;
          s = upd_word (add32 block_ptr (mul32 (sub32 offset 1) (add32 block_size SIZEOF_PTR))) (Mp_Next None) s
      in upd_mp i (\<lambda>mp. mp\<lparr>mp_block_list := Some block_ptr\<rparr>) s)"

definition rt_mp_init :: "nat \<Rightarrow> nat \<Rightarrow> nat \<Rightarrow> nat \<Rightarrow> mp_state \<Rightarrow> (int \<times> mp_state) option" where
  "rt_mp_init i start sz block_size s = do {
     rt_assert (start \<noteq> 0);
     rt_assert (0 < sz \<and> 0 < block_size);
     rt_assert (mp_object (mps_pool s i) = Obj_Null);
     let s = upd_mp i (\<lambda>mp. mp\<lparr>mp_object := Obj_Static\<rparr>) s;
     let s = upd_mp i (\<lambda>mp. mp\<lparr>mp_start_address := start, mp_size := RT_ALIGN_DOWN sz RT_ALIGN_SIZE\<rparr>) s;
     let block_size = RT_ALIGN block_size RT_ALIGN_SIZE;
     let s = upd_mp i (\<lambda>mp. mp\<lparr>mp_block_size := block_size\<rparr>) s;
     let s = upd_mp i (\<lambda>mp. mp\<lparr>mp_block_total_count := mp_size mp div add32 (mp_block_size mp) SIZEOF_PTR\<rparr>) s;
     let s = upd_mp i (\<lambda>mp. mp\<lparr>mp_block_free_count := mp_block_total_count mp\<rparr>) s;
     let s = s\<lparr>mps_kernel := list_set (mp_head i) [] (mps_kernel s)\<rparr>;
     Some (RT_EOK, mp_free_list_init i block_size s)
   }"

definition rt_mp_detach :: "nat \<Rightarrow> mp_state \<Rightarrow> (int \<times> mp_state) option" where
  "rt_mp_detach i s = do {
     rt_assert (mp_object (mps_pool s i) \<noteq> Obj_Null);
     rt_assert (mp_object (mps_pool s i) = Obj_Static);
     k \<leftarrow> ipc_list_resume_all (mp_head i) (mps_kernel s);
     Some (RT_EOK, upd_mp i (\<lambda>mp. mp\<lparr>mp_object := Obj_Null\<rparr>) (s\<lparr>mps_kernel := k\<rparr>))
   }"

text \<open>
  \<open>rt_mp_create\<close>: \<open>obj\<close> is the control block the object allocator gave and \<open>alloc\<close> the heap's answer to
  a request for memory; \<open>None\<close> is their failure.
\<close>

definition rt_mp_create ::
  "nat option \<Rightarrow> (nat \<Rightarrow> nat option) \<Rightarrow> nat \<Rightarrow> nat \<Rightarrow> mp_state \<Rightarrow> (nat option \<times> mp_state) option" where
  "rt_mp_create obj alloc block_count block_size s = do {
     rt_assert (ks_irq_nest (mps_kernel s) = 0);
     rt_assert (0 < block_count \<and> 0 < block_size);
     (case obj of
        None \<Rightarrow> Some (None, s)
      | Some i \<Rightarrow>
          let s = upd_mp i (\<lambda>mp. mp\<lparr>mp_object := Obj_Dynamic\<rparr>) s;
              block_size = RT_ALIGN block_size RT_ALIGN_SIZE;
              s = upd_mp i (\<lambda>mp. mp\<lparr>mp_block_size := block_size,
                    mp_size := mul32 (add32 block_size SIZEOF_PTR) block_count\<rparr>) s
          in (case alloc (mul32 (add32 block_size SIZEOF_PTR) block_count) of
                None \<Rightarrow> Some (None, upd_mp i (\<lambda>mp. mp\<lparr>mp_object := Obj_Null\<rparr>) s)
              | Some start \<Rightarrow>
                  let s = upd_mp i (\<lambda>mp. mp\<lparr>mp_start_address := start\<rparr>) s;
                      s = upd_mp i (\<lambda>mp. mp\<lparr>mp_block_total_count := block_count, mp_block_free_count := block_count\<rparr>) s;
                      s = s\<lparr>mps_kernel := list_set (mp_head i) [] (mps_kernel s)\<rparr>
                  in Some (Some i, mp_free_list_init i block_size s)))
   }"

definition rt_mp_delete :: "nat \<Rightarrow> mp_state \<Rightarrow> (int \<times> mp_state) option" where
  "rt_mp_delete i s = do {
     rt_assert (ks_irq_nest (mps_kernel s) = 0);
     rt_assert (mp_object (mps_pool s i) \<noteq> Obj_Null);
     rt_assert (mp_object (mps_pool s i) \<noteq> Obj_Static);
     k \<leftarrow> ipc_list_resume_all (mp_head i) (mps_kernel s);
     Some (RT_EOK, upd_mp i (\<lambda>mp. mp\<lparr>mp_object := Obj_Null\<rparr>) (s\<lparr>mps_kernel := k\<rparr>))
   }"

text \<open>\<open>rt_set_errno\<close> (\<open>src/kservice.c\<close>) on a thread's own error field; outside threads it sets a global.\<close>

definition rt_set_errno :: "int \<Rightarrow> kstate \<Rightarrow> kstate" where
  "rt_set_errno err k =
     (if ks_irq_nest k \<noteq> 0 then k
      else case rt_thread_self k of None \<Rightarrow> k | Some t \<Rightarrow> upd_thread t (\<lambda>th. th\<lparr>th_error := err\<rparr>) k)"

text \<open>What \<open>rt_mp_alloc\<close> gives: a block or RT_NULL, or the calling thread is suspended.\<close>

datatype mp_outcome = Block "nat option" | Waiting

definition mp_wait :: "nat \<Rightarrow> int \<Rightarrow> kstate \<Rightarrow> kstate option" where
  "mp_wait i time k = do {
     rt_assert (ks_irq_nest k = 0);
     t \<leftarrow> rt_thread_self k;
     let k = upd_thread t (\<lambda>th. th\<lparr>th_error := RT_EOK\<rparr>) k;
     (_, k) \<leftarrow> rt_thread_suspend t k;
     let k = list_set (mp_head i) (t # ks_list k (mp_head i)) k;
     k \<leftarrow> arm_timeout t time k;
     rt_schedule k
   }"

text \<open>Reading the header of a free block as a pointer; the pointer to a pool or other data is no block.\<close>

definition mp_take :: "nat \<Rightarrow> mp_state \<Rightarrow> (nat \<times> mp_state) option" where
  "mp_take i s = do {
     let s = upd_mp i (\<lambda>mp. mp\<lparr>mp_block_free_count := sub32 (mp_block_free_count mp) 1\<rparr>) s;
     block_ptr \<leftarrow> mp_block_list (mps_pool s i);
     next_free \<leftarrow> (case mps_word s block_ptr of Mp_Next q \<Rightarrow> Some q | _ \<Rightarrow> None);
     let s = upd_mp i (\<lambda>mp. mp\<lparr>mp_block_list := next_free\<rparr>) s;
     let s = upd_word block_ptr (Mp_Pool i) s;
     Some (add32 block_ptr SIZEOF_PTR, s)
   }"

text \<open>
  The loop of \<open>rt_mp_alloc\<close> from its head to the wait or to the end; when the thread is dispatched again
  it goes on in \<open>mp_alloc_resume\<close>, with the tick \<open>before_sleep\<close> at which the wait began.
\<close>

definition mp_alloc_loop :: "nat \<Rightarrow> int \<Rightarrow> mp_state \<Rightarrow> (mp_outcome \<times> mp_state) option" where
  "mp_alloc_loop i time s =
     (if mp_block_free_count (mps_pool s i) = 0 then
        if time = 0 then Some (Block None, s\<lparr>mps_kernel := rt_set_errno (- RT_ETIMEOUT) (mps_kernel s)\<rparr>)
        else do {
          k \<leftarrow> mp_wait i time (mps_kernel s);
          Some (Waiting, s\<lparr>mps_kernel := k\<rparr>)
        }
      else do {
        (p, s) \<leftarrow> mp_take i s;
        Some (Block (Some p), s)
      })"

definition rt_mp_alloc :: "nat \<Rightarrow> int \<Rightarrow> mp_state \<Rightarrow> (mp_outcome \<times> mp_state) option" where
  "rt_mp_alloc i time s = mp_alloc_loop i time s"

definition mp_alloc_resume :: "nat \<Rightarrow> tid \<Rightarrow> int \<Rightarrow> u32 \<Rightarrow> mp_state \<Rightarrow> (mp_outcome \<times> mp_state) option" where
  "mp_alloc_resume i t time before_sleep s =
     (if th_error (ks_thread (mps_kernel s) t) \<noteq> RT_EOK then Some (Block None, s)
      else mp_alloc_loop i (remaining_time time before_sleep (ck_tick (ks_clk (mps_kernel s)))) s)"

text \<open>A block whose header does not name a pool would send the code to a wild control block: \<open>None\<close>.\<close>

definition rt_mp_free :: "nat option \<Rightarrow> mp_state \<Rightarrow> mp_state option" where
  "rt_mp_free block s =
     (case block of
        None \<Rightarrow> Some s
      | Some p \<Rightarrow>
          let block_ptr = sub32 p SIZEOF_PTR in
          (case mps_word s block_ptr of
             Mp_Pool i \<Rightarrow> do {
               let s = upd_mp i (\<lambda>mp. mp\<lparr>mp_block_free_count := add32 (mp_block_free_count mp) 1\<rparr>) s;
               let s = upd_word block_ptr (Mp_Next (mp_block_list (mps_pool s i))) s;
               let s = upd_mp i (\<lambda>mp. mp\<lparr>mp_block_list := Some block_ptr\<rparr>) s;
               (_, k) \<leftarrow> ipc_wake_one (mp_head i) (mps_kernel s);
               Some (s\<lparr>mps_kernel := k\<rparr>)
             }
           | _ \<Rightarrow> None))"


section \<open>The free list\<close>

fun mp_walk :: "(nat \<Rightarrow> mp_word) \<Rightarrow> nat \<Rightarrow> nat option \<Rightarrow> nat list" where
  "mp_walk w 0 p = []"
| "mp_walk w (Suc n) p = (case p of None \<Rightarrow> [] | Some a \<Rightarrow> a # mp_walk w n (case w a of Mp_Next q \<Rightarrow> q | _ \<Rightarrow> None))"

fun mp_path :: "(nat \<Rightarrow> mp_word) \<Rightarrow> nat option \<Rightarrow> nat list \<Rightarrow> bool" where
  "mp_path w p [] \<longleftrightarrow> p = None"
| "mp_path w p (a # as) \<longleftrightarrow> p = Some a \<and> (case w a of Mp_Next q \<Rightarrow> mp_path w q as | _ \<Rightarrow> False)"

lemma mp_walk_path: "mp_path w p as \<Longrightarrow> mp_walk w (length as) p = as"
  by (induction as arbitrary: p) (auto split: mp_word.splits)

lemma mp_path_cong: "(\<And>a. a \<in> set as \<Longrightarrow> w a = w' a) \<Longrightarrow> mp_path w p as = mp_path w' p as"
  by (induction as arbitrary: p) (auto split: mp_word.splits)

text \<open>
  The headers of a pool, those of them on the free list, and the blocks in use. Two headers are a block
  and a pointer apart.
\<close>

definition mp_stride :: "rt_mempool \<Rightarrow> nat" where
  "mp_stride mp = mp_block_size mp + 4"

definition mp_slots :: "rt_mempool \<Rightarrow> nat set" where
  "mp_slots mp = (\<lambda>k. mp_start_address mp + k * mp_stride mp) ` {..<mp_block_total_count mp}"

definition mp_frees :: "nat \<Rightarrow> mp_state \<Rightarrow> nat list" where
  "mp_frees i s = mp_walk (mps_word s) (mp_block_free_count (mps_pool s i)) (mp_block_list (mps_pool s i))"

definition mp_live :: "nat \<Rightarrow> mp_state \<Rightarrow> block set" where
  "mp_live i s = (\<lambda>a. (a + 4, mp_block_size (mps_pool s i))) ` (mp_slots (mps_pool s i) - set (mp_frees i s))"

definition mp_shape :: "nat \<Rightarrow> mp_state \<Rightarrow> nat list \<Rightarrow> bool" where
  "mp_shape i s as \<longleftrightarrow> (let mp = mps_pool s i in
     mp_object mp \<noteq> Obj_Null \<and> 0 < mp_block_size mp \<and> 0 < mp_start_address mp \<and>
     mp_start_address mp + mp_block_total_count mp * mp_stride mp < 2 ^ 32 \<and>
     mp_path (mps_word s) (mp_block_list mp) as \<and> distinct as \<and> set as \<subseteq> mp_slots mp \<and>
     length as = mp_block_free_count mp \<and> (\<forall>a \<in> mp_slots mp - set as. mps_word s a = Mp_Pool i))"

definition mp_inv :: "nat \<Rightarrow> mp_state \<Rightarrow> bool" where
  "mp_inv i s \<longleftrightarrow> kernel_ok (mps_kernel s) \<and> mp_shape i s (mp_frees i s)"

text \<open>What no operation on a pool in use changes.\<close>

definition mp_same :: "nat \<Rightarrow> mp_state \<Rightarrow> mp_state \<Rightarrow> bool" where
  "mp_same i s s' \<longleftrightarrow>
     mp_start_address (mps_pool s' i) = mp_start_address (mps_pool s i) \<and>
     mp_block_size (mps_pool s' i) = mp_block_size (mps_pool s i) \<and>
     mp_block_total_count (mps_pool s' i) = mp_block_total_count (mps_pool s i)"

lemma mp_same_slots: "mp_same i s s' \<Longrightarrow> mp_slots (mps_pool s' i) = mp_slots (mps_pool s i)"
  by (simp add: mp_same_def mp_slots_def mp_stride_def)

lemma mp_shape_frees: "mp_shape i s as \<Longrightarrow> mp_frees i s = as"
  by (auto simp: mp_shape_def mp_frees_def Let_def mp_walk_path dest: sym)

lemma mp_shape_bounds:
  assumes "mp_shape i s as"
  shows "finite (mp_slots (mps_pool s i))" "length as \<le> mp_block_total_count (mps_pool s i)"
    "mp_block_total_count (mps_pool s i) < 2 ^ 32"
    "a \<in> mp_slots (mps_pool s i) \<Longrightarrow> 0 < a \<and> mp_start_address (mps_pool s i) \<le> a \<and>
       a + mp_stride (mps_pool s i) \<le> mp_start_address (mps_pool s i) + mp_block_total_count (mps_pool s i) * mp_stride (mps_pool s i)"
proof -
  let ?mp = "mps_pool s i"
  have a: "set as \<subseteq> mp_slots ?mp" "distinct as" "0 < mp_start_address ?mp"
    "mp_start_address ?mp + mp_block_total_count ?mp * mp_stride ?mp < 2 ^ 32"
    using assms by (simp_all add: mp_shape_def Let_def)
  show f: "finite (mp_slots ?mp)" by (simp add: mp_slots_def)
  have "card (set as) \<le> card (mp_slots ?mp)" by (rule card_mono [OF f a(1)])
  also have "\<dots> \<le> mp_block_total_count ?mp" unfolding mp_slots_def using card_image_le [of "{..<mp_block_total_count ?mp}"] by simp
  finally show "length as \<le> mp_block_total_count ?mp" using a(2) by (simp add: distinct_card)
  have "1 \<le> mp_stride ?mp" by (simp add: mp_stride_def)
  then have "mp_block_total_count ?mp * 1 \<le> mp_block_total_count ?mp * mp_stride ?mp" by (intro mult_le_mono) simp_all
  with a(4) show "mp_block_total_count ?mp < 2 ^ 32" by linarith
  show "0 < a \<and> mp_start_address ?mp \<le> a \<and> a + mp_stride ?mp \<le> mp_start_address ?mp + mp_block_total_count ?mp * mp_stride ?mp"
    if m: "a \<in> mp_slots ?mp"
  proof -
    obtain k where k: "k < mp_block_total_count ?mp" "a = mp_start_address ?mp + k * mp_stride ?mp"
      using m by (auto simp: mp_slots_def)
    have "Suc k * mp_stride ?mp \<le> mp_block_total_count ?mp * mp_stride ?mp" using k(1) by (intro mult_le_mono) simp_all
    with k(2) a(3) show ?thesis by simp
  qed
qed

text \<open>Two different headers are a stride apart.\<close>

lemma mp_slots_apart:
  assumes "a \<in> mp_slots mp" "b \<in> mp_slots mp" "a < b"
  shows "a + mp_stride mp \<le> b"
proof -
  obtain k l where k: "a = mp_start_address mp + k * mp_stride mp" "b = mp_start_address mp + l * mp_stride mp"
    using assms(1,2) by (auto simp: mp_slots_def)
  have "k < l" using assms(3) k by simp
  then have "Suc k * mp_stride mp \<le> l * mp_stride mp" by (intro mult_le_mono) simp_all
  with k show ?thesis by simp
qed

lemma upd_mp_simps [simp]:
  "mps_pool (upd_mp i f s) = (mps_pool s)(i := f (mps_pool s i))" "mps_word (upd_mp i f s) = mps_word s"
  "mps_kernel (upd_mp i f s) = mps_kernel s"
  "mps_pool (upd_word a w s) = mps_pool s" "mps_word (upd_word a w s) = (mps_word s)(a := w)"
  "mps_kernel (upd_word a w s) = mps_kernel s"
  by (simp_all add: upd_mp_def upd_word_def)

text \<open>The kernel is not part of the pool.\<close>

lemma mp_kernel_simps [simp]:
  "mp_shape i (s\<lparr>mps_kernel := k\<rparr>) as = mp_shape i s as" "mp_frees i (s\<lparr>mps_kernel := k\<rparr>) = mp_frees i s"
  "mp_same i s' (s\<lparr>mps_kernel := k\<rparr>) = mp_same i s' s" "mp_live i (s\<lparr>mps_kernel := k\<rparr>) = mp_live i s"
  by (simp_all add: mp_shape_def mp_frees_def mp_same_def mp_live_def)

section \<open>Taking and giving back a block\<close>

lemma mp_take_spec:
  assumes "mp_shape i s (a # as)"
  shows "\<exists>s'. mp_take i s = Some (a + 4, s') \<and> mp_shape i s' as \<and> mp_same i s s' \<and> mps_kernel s' = mps_kernel s"
proof -
  let ?mp = "mps_pool s i"
  have sh: "mp_block_list ?mp = Some a" "distinct (a # as)" "a \<in> mp_slots ?mp" "mp_block_free_count ?mp = Suc (length as)"
    using assms by (auto simp: mp_shape_def Let_def)
  obtain q where q: "mps_word s a = Mp_Next q" "mp_path (mps_word s) q as"
    using assms by (auto simp: mp_shape_def Let_def split: mp_word.splits)
  note b = mp_shape_bounds [OF assms]
  have n: "a + 4 < 2 ^ 32" using b(4) [OF sh(3)] assms by (simp add: mp_shape_def Let_def mp_stride_def)
  have c: "sub32 (mp_block_free_count ?mp) 1 = length as" using b(2,3) sh(4) by (subst sub32_small) auto
  let ?s = "upd_word a (Mp_Pool i) (upd_mp i (\<lambda>mp. mp\<lparr>mp_block_list := q\<rparr>)
              (upd_mp i (\<lambda>mp. mp\<lparr>mp_block_free_count := sub32 (mp_block_free_count mp) 1\<rparr>) s))"
  have "mp_path ((mps_word s)(a := Mp_Pool i)) q as = mp_path (mps_word s) q as"
    using sh(2) by (intro mp_path_cong) auto
  then have "mp_shape i ?s as"
    using assms q c unfolding mp_shape_def Let_def by (auto simp: mp_slots_def mp_stride_def)
  moreover have "mp_take i s = Some (a + 4, ?s)" using sh(1) q(1) n by (simp add: mp_take_def add32_small)
  ultimately show ?thesis by (intro exI [of _ ?s]) (simp add: mp_same_def)
qed

lemma mp_give_spec:
  assumes sh: "mp_shape i s as" and a: "a \<in> mp_slots (mps_pool s i)" "a \<notin> set as"
    and s': "s' = upd_mp i (\<lambda>mp. mp\<lparr>mp_block_list := Some a\<rparr>) (upd_word a (Mp_Next (mp_block_list (mps_pool s i)))
              (upd_mp i (\<lambda>mp. mp\<lparr>mp_block_free_count := add32 (mp_block_free_count mp) 1\<rparr>) s))"
  shows "mp_shape i s' (a # as)" "mp_same i s s'" "mps_kernel s' = mps_kernel s"
proof -
  let ?mp = "mps_pool s i"
  note b = mp_shape_bounds [OF sh]
  have l: "length as = mp_block_free_count ?mp" using sh by (simp add: mp_shape_def Let_def)
  have "card (insert a (set as)) \<le> card (mp_slots ?mp)"
    by (rule card_mono [OF b(1)]) (use sh a in \<open>auto simp: mp_shape_def Let_def\<close>)
  also have "\<dots> \<le> mp_block_total_count ?mp" unfolding mp_slots_def using card_image_le [of "{..<mp_block_total_count ?mp}"] by simp
  finally have "Suc (length as) \<le> mp_block_total_count ?mp"
    using a(2) sh by (simp add: mp_shape_def Let_def distinct_card)
  then have c: "add32 (mp_block_free_count ?mp) 1 = Suc (length as)" using b(3) l by (subst add32_small) auto
  have "mp_path ((mps_word s)(a := Mp_Next (mp_block_list ?mp))) (mp_block_list ?mp) as = mp_path (mps_word s) (mp_block_list ?mp) as"
    using a(2) by (intro mp_path_cong) auto
  then show "mp_shape i s' (a # as)"
    using sh a c unfolding mp_shape_def Let_def s' by (auto simp: mp_slots_def mp_stride_def)
  show "mp_same i s s'" "mps_kernel s' = mps_kernel s" by (simp_all add: s' mp_same_def)
qed


section \<open>The calls\<close>

lemma mp_inv_shape: "kernel_ok (mps_kernel s) \<Longrightarrow> mp_shape i s as \<Longrightarrow> mp_inv i s \<and> mp_frees i s = as"
  by (simp add: mp_inv_def mp_shape_frees)

lemma mp_count_frees: "mp_inv i s \<Longrightarrow> mp_block_free_count (mps_pool s i) = length (mp_frees i s)"
  by (simp add: mp_inv_def mp_shape_def Let_def)

text \<open>A new waiter goes before all others.\<close>

lemma mp_wait_spec:
  assumes k: "kernel_ok k" and t: "may_block t k" and to: "timeout_ok time"
  shows "\<exists>k'. mp_wait i time k = Some k' \<and> kernel_ok k' \<and>
    blocked_in (mp_head i) t (t # ks_list k (mp_head i)) time (upd_thread t (\<lambda>th. th\<lparr>th_error := RT_EOK\<rparr>) k) k'"
proof -
  let ?k1 = "upd_thread t (\<lambda>th. th\<lparr>th_error := RT_EOK\<rparr>) k"
  have c: "ks_current k = Some t" "th_state (ks_thread k t) = 3" "ks_irq_nest k = 0" using t by (simp_all add: may_block_def)
  have k1: "kernel_ok ?k1" "ks_current ?k1 = Some t" "th_state (ks_thread ?k1 t) = 3" using upd_error_ok [OF k] c by simp_all
  obtain k2 where k2: "rt_thread_suspend_with_flag t RT_UNINTERRUPTIBLE ?k1 = Some (RT_EOK, k2)" "kernel_ok k2" "suspended t ?k1 k2"
    using suspend_spec [OF k1, of RT_UNINTERRUPTIBLE] by auto
  have o: "th_object (ks_thread ?k1 t) \<noteq> Obj_Null" using sched_invD(8) [OF kernel_okD(1) [OF k1(1)] k1(2)] by simp
  have t2: "th_object (ks_thread k2 t) \<noteq> Obj_Null" "th_suspended (ks_thread k2 t)" "unlinked t k2" "ks_list k2 = ks_list k"
    using k2(3) o by (auto simp: suspended_def th_suspended_state th_state_set_state)
  have "kernel_ok (list_set (mp_head i) ([] @ t # ks_list k (mp_head i)) k2)"
    by (rule link_wait_ok [OF k2(2) t2(3) _ t2(1,2)]) (simp_all add: t2(4))
  from block_end_spec [OF k1(1,2) _ to k2(3) this] obtain k3 k4 where
    "arm_timeout t time (list_set (mp_head i) (t # ks_list k (mp_head i)) k2) = Some k3" "rt_schedule k3 = Some k4"
    "kernel_ok k4" "blocked_in (mp_head i) t (t # ks_list k (mp_head i)) time ?k1 k4" by auto
  moreover have "mp_wait i time k = Some k4"
    using c k2(1) t2(4) calculation(1,2) by (simp add: mp_wait_def rt_thread_self_def rt_thread_suspend_def)
  ultimately show ?thesis by blast
qed

lemma mp_alloc_some:
  assumes s: "mp_inv i s" and f: "mp_frees i s = a # as"
  shows "\<exists>s'. mp_alloc_loop i time s = Some (Block (Some (a + 4)), s') \<and> mp_inv i s' \<and> mp_frees i s' = as \<and>
    mp_same i s s' \<and> mps_kernel s' = mps_kernel s"
proof -
  have "mp_shape i s (a # as)" using s f by (simp add: mp_inv_def)
  from mp_take_spec [OF this] obtain s' where
    s': "mp_take i s = Some (a + 4, s')" "mp_shape i s' as" "mp_same i s s'" "mps_kernel s' = mps_kernel s" by blast
  moreover have "mp_inv i s' \<and> mp_frees i s' = as"
    by (rule mp_inv_shape [OF _ s'(2)]) (use s s'(4) in \<open>simp add: mp_inv_def\<close>)
  ultimately show ?thesis using mp_count_frees [OF s] f by (simp add: mp_alloc_loop_def)
qed

lemma set_errno_ok: "kernel_ok k \<Longrightarrow> kernel_ok (rt_set_errno e k)"
  by (simp add: rt_set_errno_def upd_error_ok split: option.split)

lemma set_errno_list [simp]: "ks_list (rt_set_errno e k) = ks_list k"
  by (simp add: rt_set_errno_def split: option.split)

lemma mp_alloc_none:
  assumes s: "mp_inv i s" and f: "mp_frees i s = []"
  shows "mp_alloc_loop i 0 s = Some (Block None, s\<lparr>mps_kernel := rt_set_errno (- RT_ETIMEOUT) (mps_kernel s)\<rparr>)"
    "mp_inv i (s\<lparr>mps_kernel := rt_set_errno (- RT_ETIMEOUT) (mps_kernel s)\<rparr>)"
  using mp_count_frees [OF s] f s by (simp_all add: mp_alloc_loop_def mp_inv_def set_errno_ok)

lemma mp_alloc_wait:
  assumes s: "mp_inv i s" and f: "mp_frees i s = []" and t: "may_block t (mps_kernel s)" and k: "timeout_ok time" "time \<noteq> 0"
  shows "\<exists>k'. mp_alloc_loop i time s = Some (Waiting, s\<lparr>mps_kernel := k'\<rparr>) \<and> mp_inv i (s\<lparr>mps_kernel := k'\<rparr>) \<and>
    blocked_in (mp_head i) t (t # ks_list (mps_kernel s) (mp_head i)) time
      (upd_thread t (\<lambda>th. th\<lparr>th_error := RT_EOK\<rparr>) (mps_kernel s)) k'"
proof -
  have "kernel_ok (mps_kernel s)" using s by (simp add: mp_inv_def)
  from mp_wait_spec [OF this t k(1)] obtain k' where k': "mp_wait i time (mps_kernel s) = Some k'" "kernel_ok k'"
    "blocked_in (mp_head i) t (t # ks_list (mps_kernel s) (mp_head i)) time
      (upd_thread t (\<lambda>th. th\<lparr>th_error := RT_EOK\<rparr>) (mps_kernel s)) k'" by blast
  with mp_count_frees [OF s] f s k(2) show ?thesis by (intro exI [of _ k']) (simp add: mp_alloc_loop_def mp_inv_def)
qed

lemma mp_free_spec:
  assumes s: "mp_inv i s" and a: "a \<in> mp_slots (mps_pool s i)" "a \<notin> set (mp_frees i s)"
  shows "\<exists>s'. rt_mp_free (Some (a + 4)) s = Some s' \<and> mp_inv i s' \<and> mp_frees i s' = a # mp_frees i s \<and> mp_same i s s' \<and>
    ks_list (mps_kernel s') (mp_head i) = tl (ks_list (mps_kernel s) (mp_head i)) \<and>
    (\<forall>w ws. ks_list (mps_kernel s) (mp_head i) = w # ws \<longrightarrow>
       th_error (ks_thread (mps_kernel s') w) = RT_EOK \<and> th_state (ks_thread (mps_kernel s') w) \<in> {2, 3})"
proof -
  let ?as = "mp_frees i s" and ?mp = "mps_pool s i"
  have sh: "mp_shape i s ?as" and k: "kernel_ok (mps_kernel s)" using s by (simp_all add: mp_inv_def)
  let ?s1 = "upd_mp i (\<lambda>mp. mp\<lparr>mp_block_list := Some a\<rparr>) (upd_word a (Mp_Next (mp_block_list ?mp))
              (upd_mp i (\<lambda>mp. mp\<lparr>mp_block_free_count := add32 (mp_block_free_count mp) 1\<rparr>) s))"
  note g = mp_give_spec [OF sh a refl]
  obtain k' where k': "ipc_wake_one (mp_head i) (mps_kernel s) = Some (RT_EOK, k')" "kernel_ok k'"
    "ks_list k' (mp_head i) = tl (ks_list (mps_kernel s) (mp_head i))"
    "\<forall>w ws. ks_list (mps_kernel s) (mp_head i) = w # ws \<longrightarrow> th_error (ks_thread k' w) = RT_EOK \<and> th_state (ks_thread k' w) \<in> {2, 3}"
    using ipc_wake_one_spec [OF k, of "mp_head i"] by auto
  have w: "mps_word s a = Mp_Pool i" using sh a by (simp add: mp_shape_def Let_def)
  have "a + 4 < 2 ^ 32" using mp_shape_bounds(4) [OF sh a(1)] sh by (simp add: mp_shape_def Let_def mp_stride_def)
  then have "sub32 (a + 4) 4 = a" by (simp add: sub32_small)
  then have "rt_mp_free (Some (a + 4)) s = Some (?s1\<lparr>mps_kernel := k'\<rparr>)"
    using w k'(1) by (simp add: rt_mp_free_def Let_def)
  moreover have "mp_inv i (?s1\<lparr>mps_kernel := k'\<rparr>)" "mp_frees i (?s1\<lparr>mps_kernel := k'\<rparr>) = a # ?as"
    using mp_inv_shape [of "?s1\<lparr>mps_kernel := k'\<rparr>" i] k'(2) g(1) by simp_all
  moreover have "mp_same i s (?s1\<lparr>mps_kernel := k'\<rparr>)" using g(2) by simp
  ultimately show ?thesis using k'(3,4) by (intro exI [of _ "?s1\<lparr>mps_kernel := k'\<rparr>"]) simp
qed

section \<open>The pool as an allocator\<close>

definition mp_try_alloc :: "nat \<Rightarrow> nat \<Rightarrow> mp_state \<Rightarrow> (nat option \<times> mp_state) option" where
  "mp_try_alloc i n s = (case rt_mp_alloc i 0 s of Some (Block p, s') \<Rightarrow> Some (p, s') | _ \<Rightarrow> None)"

text \<open>An initialised pool of blocks of \<open>bs\<close> bytes in the region from \<open>lo\<close> to \<open>hi\<close>.\<close>

definition mp_pool :: "nat \<Rightarrow> nat \<Rightarrow> nat \<Rightarrow> nat \<Rightarrow> mp_state \<Rightarrow> bool" where
  "mp_pool i bs lo hi s \<longleftrightarrow> mp_inv i s \<and> (let mp = mps_pool s i in
     mp_block_size mp = bs \<and> mp_start_address mp = lo \<and> lo + mp_block_total_count mp * mp_stride mp \<le> hi)"

lemma mp_pool_same: "mp_pool i bs lo hi s \<Longrightarrow> mp_inv i s' \<Longrightarrow> mp_same i s s' \<Longrightarrow> mp_pool i bs lo hi s'"
  unfolding mp_pool_def mp_same_def mp_stride_def Let_def by (elim conjE) simp

lemma mp_live_bounds:
  assumes "mp_pool i bs lo hi s" "(p, n) \<in> mp_live i s"
  shows "n = bs" "lo + 4 \<le> p" "p + n \<le> hi" "0 < n"
proof -
  obtain a where a: "a \<in> mp_slots (mps_pool s i)" "p = a + 4" "n = mp_block_size (mps_pool s i)"
    using assms(2) by (auto simp: mp_live_def)
  have sh: "mp_shape i s (mp_frees i s)" using assms(1) by (simp add: mp_pool_def mp_inv_def)
  have m: "mp_block_size (mps_pool s i) = bs" "mp_start_address (mps_pool s i) = lo" "mp_stride (mps_pool s i) = bs + 4"
    "lo + mp_block_total_count (mps_pool s i) * mp_stride (mps_pool s i) \<le> hi" "0 < bs"
    using assms(1) sh by (auto simp: mp_pool_def mp_stride_def mp_shape_def Let_def)
  from mp_shape_bounds(4) [OF sh a(1)] have "lo \<le> a" "a + (bs + 4) \<le> hi" using m(2-4) by simp_all
  with a(2,3) m(1,5) show "n = bs" "lo + 4 \<le> p" "p + n \<le> hi" "0 < n" by simp_all
qed

lemma mp_live_apart: "all_apart (mp_live i s)"
  unfolding all_apart_def
proof (intro ballI impI)
  fix x y
  assume "x \<in> mp_live i s" "y \<in> mp_live i s" "x \<noteq> y"
  then obtain a b where ab: "a \<in> mp_slots (mps_pool s i)" "b \<in> mp_slots (mps_pool s i)" "a \<noteq> b"
    "x = (a + 4, mp_block_size (mps_pool s i))" "y = (b + 4, mp_block_size (mps_pool s i))"
    by (auto simp: mp_live_def)
  from ab(3) consider "a < b" | "b < a" by linarith
  then show "apart x y"
    using mp_slots_apart [OF ab(1,2)] mp_slots_apart [OF ab(2,1)] ab(4,5) by cases (auto simp: apart_def mp_stride_def)
qed

interpretation mp: allocator "\<lambda>n. n \<le> bs" "mp_pool i bs lo hi" "mp_live i" "mp_try_alloc i" "\<lambda>p. rt_mp_free (Some p)"
proof
  fix s :: mp_state
  assume s: "mp_pool i bs lo hi s"
  then have inv: "mp_inv i s" and bs: "mp_block_size (mps_pool s i) = bs" by (simp_all add: mp_pool_def Let_def)
  show "all_apart (mp_live i s)" by (rule mp_live_apart)
  show "0 < n" if "(p, n) \<in> mp_live i s" for p n by (rule mp_live_bounds(4) [OF s that])
  show "\<exists>r s'. mp_try_alloc i n s = Some (r, s') \<and> mp_pool i bs lo hi s' \<and>
      (case r of None \<Rightarrow> mp_live i s' = mp_live i s
       | Some p \<Rightarrow> \<exists>m. n \<le> m \<and> (p, m) \<notin> mp_live i s \<and> mp_live i s' = insert (p, m) (mp_live i s))"
    if n: "n \<le> bs" for n
  proof (cases "mp_frees i s")
    case Nil
    note e = mp_alloc_none [OF inv Nil]
    have "mp_pool i bs lo hi (s\<lparr>mps_kernel := rt_set_errno (- RT_ETIMEOUT) (mps_kernel s)\<rparr>)"
      by (rule mp_pool_same [OF s e(2)]) (simp add: mp_same_def)
    with e(1) show ?thesis by (simp add: mp_try_alloc_def rt_mp_alloc_def)
  next
    case (Cons a as)
    obtain s' where s': "mp_alloc_loop i 0 s = Some (Block (Some (a + 4)), s')" "mp_inv i s'" "mp_frees i s' = as" "mp_same i s s'"
      using mp_alloc_some [OF inv Cons] by blast
    have sl: "mp_slots (mps_pool s' i) = mp_slots (mps_pool s i)" "mp_block_size (mps_pool s' i) = bs"
      using mp_same_slots [OF s'(4)] s'(4) bs by (simp_all add: mp_same_def)
    have a: "a \<in> mp_slots (mps_pool s i)" "a \<notin> set as" using inv Cons by (auto simp: mp_inv_def mp_shape_def Let_def)
    have "mp_live i s' = insert (a + 4, bs) (mp_live i s)" using a Cons s'(3) sl bs by (auto simp: mp_live_def)
    moreover have "(a + 4, bs) \<notin> mp_live i s" using Cons by (auto simp: mp_live_def)
    ultimately show ?thesis
      using s' mp_pool_same [OF s s'(2,4)] n by (auto simp: mp_try_alloc_def rt_mp_alloc_def)
  qed
  show "\<exists>s'. rt_mp_free (Some p) s = Some s' \<and> mp_pool i bs lo hi s' \<and> mp_live i s' = mp_live i s - {(p, n)}"
    if pn: "(p, n) \<in> mp_live i s" for p n
  proof -
    obtain a where a: "a \<in> mp_slots (mps_pool s i)" "a \<notin> set (mp_frees i s)" "p = a + 4" "n = bs"
      using pn bs by (auto simp: mp_live_def)
    obtain s' where s': "rt_mp_free (Some (a + 4)) s = Some s'" "mp_inv i s'" "mp_frees i s' = a # mp_frees i s" "mp_same i s s'"
      using mp_free_spec [OF inv a(1,2)] by blast
    have "mp_slots (mps_pool s' i) = mp_slots (mps_pool s i)" "mp_block_size (mps_pool s' i) = bs"
      using mp_same_slots [OF s'(4)] s'(4) bs by (simp_all add: mp_same_def)
    then have "mp_live i s' = mp_live i s - {(p, n)}" using s'(3) a bs by (auto simp: mp_live_def)
    with s' mp_pool_same [OF s s'(2,4)] a(3) show ?thesis by auto
  qed
qed


section \<open>Initialisation\<close>

lemma mp_link_blocks_frame [simp]:
  "mps_pool (mp_link_blocks start stride n s) = mps_pool s" "mps_kernel (mp_link_blocks start stride n s) = mps_kernel s"
  by (induction n) simp_all

text \<open>Every header the loop comes to is a link afterwards, wherever its address wraps to.\<close>

lemma mp_link_blocks_writes:
  "k < n \<Longrightarrow> \<exists>q. mps_word (mp_link_blocks start stride n s) (add32 start (mul32 k stride)) = Mp_Next q"
  by (induction n) (auto simp: less_Suc_eq)

lemma mp_link_blocks_links:
  assumes "start + n * stride < 2 ^ 32" "0 < stride" "k < n"
  shows "mps_word (mp_link_blocks start stride n s) (start + k * stride) = Mp_Next (Some (start + (k + 1) * stride))"
  using assms
proof (induction n)
  case (Suc n)
  have b: "start + n * stride < 2 ^ 32" "start + (n + 1) * stride < 2 ^ 32" using Suc.prems(1) by simp_all
  then have "n * stride < 2 ^ 32" "(n + 1) * stride < 2 ^ 32" by linarith+
  with b have a: "add32 start (mul32 n stride) = start + n * stride" "add32 start (mul32 (n + 1) stride) = start + (n + 1) * stride"
    by (simp_all add: mul32_small add32_small del: mult_Suc)
  show ?case
  proof (cases "k = n")
    case True
    with a show ?thesis by simp
  next
    case False
    with Suc.prems(2,3) Suc.IH [OF b(1)] a show ?thesis by simp
  qed
qed simp

lemma mp_path_links:
  assumes "\<And>j. j < n \<Longrightarrow> w (f j) = Mp_Next (if Suc j = n then None else Some (f (Suc j)))" "k < n"
  shows "mp_path w (Some (f k)) (map f [k..<n])"
  using assms(2)
proof (induction "n - k" arbitrary: k)
  case (Suc m)
  note u = upt_conv_Cons [OF Suc.prems]
  show ?case
  proof (cases "Suc k = n")
    case True
    with assms(1) [OF Suc.prems] u show ?thesis by simp
  next
    case False
    then have "mp_path w (Some (f (Suc k))) (map f [Suc k..<n])" using Suc by simp
    with False assms(1) [OF Suc.prems] u show ?thesis by simp
  qed
qed simp

text \<open>A new pool: all its blocks are free.\<close>

lemma mp_free_list_init_spec:
  assumes p: "mp_start_address (mps_pool s i) = start" "mp_block_total_count (mps_pool s i) = n" "mp_block_free_count (mps_pool s i) = n"
      "mp_block_size (mps_pool s i) = bs" "mp_object (mps_pool s i) \<noteq> Obj_Null"
    and b: "0 < start" "0 < n" "0 < bs" "start + n * (bs + 4) < 2 ^ 32" and k: "kernel_ok (mps_kernel s)"
  shows "mp_inv i (mp_free_list_init i bs s)" "mp_frees i (mp_free_list_init i bs s) = map (\<lambda>k. start + k * (bs + 4)) [0..<n]"
    "mp_same i s (mp_free_list_init i bs s)"
proof -
  let ?st = "bs + 4" and ?f = "\<lambda>k. start + k * (bs + 4)"
  have n1: "(n - 1) * ?st + ?st = n * ?st" using b(2) by (cases n) simp_all
  have "bs + 4 \<le> n * ?st" using b(2) mult_le_mono1 [of 1 n ?st] by simp
  moreover have "n \<le> n * ?st" using mult_le_mono2 [of 1 ?st n] by simp
  moreover have "n * ?st < 2 ^ 32" by (rule le_less_trans [OF le_add2 b(4)])
  ultimately have small: "bs + 4 < 2 ^ 32" "n < 2 ^ 32" using le_less_trans [of "bs + 4" "n * ?st"] le_less_trans [of n "n * ?st"] by blast+
  have sn: "add32 bs 4 = ?st" "sub32 n 1 = n - 1" using small b(2) by (simp_all add: add32_small sub32_small)
  have last: "add32 start (mul32 (n - 1) ?st) = ?f (n - 1)"
  proof -
    have "start + (n - 1) * ?st < 2 ^ 32" using n1 b(4) by linarith
    then show ?thesis by (subst mul32_small; simp add: add32_small)
  qed
  define s1 where "s1 = mp_link_blocks start ?st n s"
  have s': "mp_free_list_init i bs s = upd_mp i (\<lambda>mp. mp\<lparr>mp_block_list := Some start\<rparr>) (upd_word (?f (n - 1)) (Mp_Next None) s1)"
    using p last sn by (simp add: mp_free_list_init_def Let_def s1_def)
  let ?w = "mps_word (mp_free_list_init i bs s)"
  have w: "?w (?f j) = Mp_Next (if Suc j = n then None else Some (?f (Suc j)))" if j: "j < n" for j
  proof -
    have "mps_word s1 (?f j) = Mp_Next (Some (?f (j + 1)))" unfolding s1_def by (rule mp_link_blocks_links [OF b(4) _ j]) simp
    moreover have "?f j = ?f (n - 1) \<longleftrightarrow> Suc j = n" using j by auto
    ultimately show ?thesis unfolding s' by simp
  qed
  have "mp_path ?w (Some start) (map ?f [0..<n])" using mp_path_links [of n ?w ?f 0, OF w b(2)] by simp
  moreover have "distinct (map ?f [0..<n])" by (simp add: distinct_map inj_on_def)
  moreover have "set (map ?f [0..<n]) = mp_slots (mps_pool s i)" using p by (auto simp: mp_slots_def mp_stride_def)
  ultimately have sh: "mp_shape i (mp_free_list_init i bs s) (map ?f [0..<n])"
    using p b unfolding mp_shape_def Let_def by (simp add: s' s1_def mp_slots_def mp_stride_def)
  moreover have "mps_kernel (mp_free_list_init i bs s) = mps_kernel s" by (simp add: s' s1_def)
  ultimately show "mp_inv i (mp_free_list_init i bs s)" "mp_frees i (mp_free_list_init i bs s) = map ?f [0..<n]"
    using mp_inv_shape [OF _ sh] k by simp_all
  show "mp_same i s (mp_free_list_init i bs s)" by (simp add: s' s1_def mp_same_def)
qed

lemma mp_init_spec:
  assumes k: "kernel_ok (mps_kernel s)" "ks_list (mps_kernel s) (mp_head i) = []" "mp_object (mps_pool s i) = Obj_Null"
    and b: "0 < start" "start + sz < 2 ^ 32" "0 < block_size" "block_size < 2 ^ 32 - 7"
    and bs: "bs = RT_ALIGN block_size RT_ALIGN_SIZE" and n: "n = RT_ALIGN_DOWN sz RT_ALIGN_SIZE div (bs + 4)" "0 < n"
  shows "\<exists>s'. rt_mp_init i start sz block_size s = Some (RT_EOK, s') \<and> mp_pool i bs start (start + sz) s' \<and>
    mp_frees i s' = map (\<lambda>k. start + k * (bs + 4)) [0..<n] \<and> mp_block_total_count (mps_pool s' i) = n \<and> block_size \<le> bs"
proof -
  have sz: "sz < 2 ^ 32" "RT_ALIGN_DOWN sz RT_ALIGN_SIZE \<le> sz" using b(2) RT_ALIGN_DOWN_8 [of sz] by simp_all
  have "n * (bs + 4) \<le> RT_ALIGN_DOWN sz RT_ALIGN_SIZE" unfolding n(1) by (rule div_times_less_eq_dividend)
  then have fit: "n * (bs + 4) \<le> sz" using sz(2) by linarith
  have "bs + 4 \<le> n * (bs + 4)" using n(2) by (cases n) simp_all
  then have st: "add32 bs 4 = bs + 4" using add32_small [OF le_less_trans [OF le_trans [OF _ fit] sz(1)]] by blast
  have al: "block_size \<le> bs" "0 < bs"
  proof -
    have "block_size \<le> (block_size + 7) - (block_size + 7) mod 8" by (simp add: mod_less_eq_dividend [THEN le_trans] algebra_simps)
    then show "block_size \<le> bs" unfolding bs RT_ALIGN_8 [OF b(4)] .
    with b(3) show "0 < bs" by linarith
  qed
  let ?s = "upd_mp i (\<lambda>mp. mp\<lparr>mp_object := Obj_Static, mp_start_address := start, mp_size := RT_ALIGN_DOWN sz RT_ALIGN_SIZE,
      mp_block_size := bs, mp_block_total_count := n, mp_block_free_count := n\<rparr>) s"
  have ls: "list_set (mp_head i) [] (mps_kernel s) = mps_kernel s" using k(2) by (simp add: list_set_def fun_upd_idem)
  have "0 < sz" using fit n(2) by (cases "sz = 0") auto
  then have run: "rt_mp_init i start sz block_size s = Some (RT_EOK, mp_free_list_init i bs ?s)"
    using b k(3) ls st n(1) unfolding rt_mp_init_def Let_def bs [symmetric] by (simp add: upd_mp_def)
  have "start + n * (bs + 4) < 2 ^ 32" using fit b(2) by linarith
  have "mp_inv i (mp_free_list_init i bs ?s)" "mp_frees i (mp_free_list_init i bs ?s) = map (\<lambda>k. start + k * (bs + 4)) [0..<n]"
    "mp_same i ?s (mp_free_list_init i bs ?s)"
    using mp_free_list_init_spec [of ?s i start n bs] b(1) n(2) al(2) k(1) \<open>start + n * (bs + 4) < 2 ^ 32\<close> by simp_all
  with run fit al(1) show ?thesis by (simp add: mp_pool_def mp_same_def mp_stride_def Let_def)
qed


text \<open>Whatever the sizes, the header of every block counted is written, wherever it lies.\<close>

lemma mp_free_list_init_writes:
  assumes "k < mp_block_total_count (mps_pool s i)"
  shows "\<exists>q. mps_word (mp_free_list_init i bs s) (add32 (mp_start_address (mps_pool s i)) (mul32 k (add32 bs 4))) = Mp_Next q"
  using mp_link_blocks_writes [OF assms, of "mp_start_address (mps_pool s i)" "add32 bs 4" s]
  by (auto simp: mp_free_list_init_def Let_def)

section \<open>Properties\<close>

text \<open>
  C18: Blocks of a pool never overlap: after rt_mp_init, which makes as many blocks as fit, any run of
  rt_mp_alloc calls that do not wait and rt_mp_free calls on blocks held returns; each block held is as
  long as asked for, lies in the pool's memory behind its header, and overlaps no other block held.
\<close>
theorem mempool_blocks_never_overlap:
  assumes "kernel_ok (mps_kernel s)" "ks_list (mps_kernel s) (mp_head i) = []" "mp_object (mps_pool s i) = Obj_Null"
    "0 < start" "start + sz < 2 ^ 32" "0 < block_size" "block_size < 2 ^ 32 - 7"
    "0 < RT_ALIGN_DOWN sz RT_ALIGN_SIZE div (RT_ALIGN block_size RT_ALIGN_SIZE + 4)"
    "\<forall>n. Alloc n \<in> set ops \<longrightarrow> n \<le> block_size"
  shows "\<exists>s0 held s'. rt_mp_init i start sz block_size s = Some (RT_EOK, s0) \<and>
    length (mp_frees i s0) = RT_ALIGN_DOWN sz RT_ALIGN_SIZE div (RT_ALIGN block_size RT_ALIGN_SIZE + 4) \<and>
    alloc_run (mp_try_alloc i) (\<lambda>p. rt_mp_free (Some p)) ops [] s0 = Some (held, s') \<and>
    (\<forall>j < length held. \<forall>k < length held. j \<noteq> k \<longrightarrow> apart (held ! j) (held ! k)) \<and>
    (\<forall>(p, n) \<in> set held. start + 4 \<le> p \<and> p + n \<le> start + sz)"
proof -
  let ?bs = "RT_ALIGN block_size RT_ALIGN_SIZE"
  obtain s0 where s0: "rt_mp_init i start sz block_size s = Some (RT_EOK, s0)" "mp_pool i ?bs start (start + sz) s0"
    "length (mp_frees i s0) = RT_ALIGN_DOWN sz RT_ALIGN_SIZE div (?bs + 4)" "block_size \<le> ?bs"
    using mp_init_spec [OF assms(1-7) refl refl assms(8)] by auto
  have ops: "\<forall>n. Alloc n \<in> set ops \<longrightarrow> n \<le> ?bs" using assms(9) s0(4) by (meson le_trans)
  have "mp.holds i [] s0" by (simp add: mp.holds_def)
  from mp.run_holds [OF s0(2) this ops] obtain held s' where
    r: "alloc_run (mp_try_alloc i) (\<lambda>p. rt_mp_free (Some p)) ops [] s0 = Some (held, s')" and
    s': "mp_pool i ?bs start (start + sz) s'" "mp.holds i held s'" by blast
  have "start + 4 \<le> p \<and> p + n \<le> start + sz" if pn: "(p, n) \<in> set held" for p n
  proof -
    obtain m where "n \<le> m" "(p, m) \<in> mp_live i s'" using s'(2) pn unfolding mp.holds_def by blast
    with mp_live_bounds [OF s'(1)] show ?thesis by fastforce
  qed
  with s0 r mp.holds_apart [OF s'] show ?thesis by blast
qed

text \<open>
  Allocating refines a stack of free blocks with a stack of waiting threads: the block freed last is
  taken first; without a block the call returns RT_NULL with error -RT_ETIMEOUT when told not to wait,
  and otherwise suspends the caller in front of the threads that wait already, its timer armed exactly
  when the time is positive.
\<close>
lemma mempool_alloc_refines_stack:
  assumes "mp_inv i s" "may_block t (mps_kernel s)" "timeout_ok time"
  shows "\<exists>r s'. rt_mp_alloc i time s = Some (r, s') \<and> mp_inv i s' \<and>
    (case mp_frees i s of
       a # as \<Rightarrow> r = Block (Some (a + 4)) \<and> mp_frees i s' = as \<and> mps_kernel s' = mps_kernel s
     | [] \<Rightarrow> mp_frees i s' = [] \<and>
         (if time = 0
          then r = Block None \<and> th_error (ks_thread (mps_kernel s') t) = - RT_ETIMEOUT \<and>
            ks_list (mps_kernel s') (mp_head i) = ks_list (mps_kernel s) (mp_head i)
          else r = Waiting \<and> ks_list (mps_kernel s') (mp_head i) = t # ks_list (mps_kernel s) (mp_head i) \<and>
            th_suspended (ks_thread (mps_kernel s') t) \<and>
            tm_activated (ck_timer (ks_clk (mps_kernel s')) (Thread_Timer t)) = (0 < time)))"
proof (cases "mp_frees i s")
  case Nil
  show ?thesis
  proof (cases "time = 0")
    case True
    have "th_error (ks_thread (rt_set_errno (- RT_ETIMEOUT) (mps_kernel s)) t) = - RT_ETIMEOUT"
      using assms(2) by (simp add: rt_set_errno_def may_block_def rt_thread_self_def)
    with mp_alloc_none [OF assms(1) Nil] Nil True show ?thesis by (simp add: rt_mp_alloc_def)
  next
    case False
    from mp_alloc_wait [OF assms(1) Nil assms(2,3) this] Nil False show ?thesis
      by (auto simp: rt_mp_alloc_def blocked_in_def)
  qed
next
  case (Cons a as)
  from mp_alloc_some [OF assms(1) Cons, of time] Cons show ?thesis by (auto simp: rt_mp_alloc_def)
qed

text \<open>
  Freeing a block in use puts it on top of the free ones and wakes the thread that began to wait
  last, although others may have waited longer; the woken thread is runnable and, if no one takes the
  block before, its call returns exactly that block.
\<close>
lemma mempool_free_serves_last_waiter:
  assumes "mp_inv i s" "(a + 4, n) \<in> mp_live i s"
  shows "\<exists>s'. rt_mp_free (Some (a + 4)) s = Some s' \<and> mp_inv i s' \<and> mp_frees i s' = a # mp_frees i s \<and>
    (case ks_list (mps_kernel s) (mp_head i) of
       [] \<Rightarrow> ks_list (mps_kernel s') (mp_head i) = []
     | w # ws \<Rightarrow> ks_list (mps_kernel s') (mp_head i) = ws \<and> th_state (ks_thread (mps_kernel s') w) \<in> {2, 3} \<and>
         (\<exists>s''. mp_alloc_resume i w time start s' = Some (Block (Some (a + 4)), s'') \<and> mp_frees i s'' = mp_frees i s))"
proof -
  have "a \<in> mp_slots (mps_pool s i)" "a \<notin> set (mp_frees i s)" using assms(2) by (auto simp: mp_live_def)
  from mp_free_spec [OF assms(1) this] obtain s' where
    s': "rt_mp_free (Some (a + 4)) s = Some s'" "mp_inv i s'" "mp_frees i s' = a # mp_frees i s"
    "ks_list (mps_kernel s') (mp_head i) = tl (ks_list (mps_kernel s) (mp_head i))"
    "\<forall>w ws. ks_list (mps_kernel s) (mp_head i) = w # ws \<longrightarrow>
       th_error (ks_thread (mps_kernel s') w) = RT_EOK \<and> th_state (ks_thread (mps_kernel s') w) \<in> {2, 3}" by blast
  have "\<exists>s''. mp_alloc_resume i w time start s' = Some (Block (Some (a + 4)), s'') \<and> mp_frees i s'' = mp_frees i s"
    if "th_error (ks_thread (mps_kernel s') w) = RT_EOK" for w
    using mp_alloc_some [OF s'(2,3)] that unfolding mp_alloc_resume_def by (metis (full_types))
  with s' show ?thesis by (auto split: list.split)
qed

text \<open>
  rt_mp_create multiplies the number of blocks by their length in 32 bits and does not notice an
  overflow: it asks the heap for the remainder only, and when it gets that much it links blocks behind
  the end of what it was given, and reports success.
\<close>
lemma mempool_create_overflow_writes_outside:
  assumes "ks_irq_nest (mps_kernel s) = 0" "0 < block_size" "block_size < 2 ^ 32 - 16" "0 < count"
    "2 ^ 32 \<le> (RT_ALIGN block_size RT_ALIGN_SIZE + 4) * count"
    "asked = (RT_ALIGN block_size RT_ALIGN_SIZE + 4) * count mod 2 ^ 32" "alloc asked = Some start"
    "start + asked + RT_ALIGN block_size RT_ALIGN_SIZE + 4 < 2 ^ 32"
  shows "\<exists>s' a q. rt_mp_create (Some i) alloc count block_size s = Some (Some i, s') \<and>
    start + asked \<le> a \<and> mps_word s' a = Mp_Next q"
proof -
  let ?bs = "RT_ALIGN block_size RT_ALIGN_SIZE"
  have st: "add32 ?bs 4 = ?bs + 4" using assms(8) by (simp add: add32_small)
  obtain s1 where s1: "rt_mp_create (Some i) alloc count block_size s = Some (Some i, mp_free_list_init i ?bs s1)"
    "mp_start_address (mps_pool s1 i) = start" "mp_block_total_count (mps_pool s1 i) = count"
    using assms(1,2,4,6,7) st by (simp add: rt_mp_create_def Let_def mul32_def)
  define k where "k = asked div (?bs + 4) + 1"
  have k: "asked \<le> k * (?bs + 4)" "k * (?bs + 4) \<le> asked + (?bs + 4)"
    using dividend_less_div_times [of "?bs + 4" asked] div_times_less_eq_dividend [of asked "?bs + 4"]
    unfolding k_def add_mult_distrib by (simp_all del: add_mult_distrib2 mult_Suc_right)
  have "k * (?bs + 4) < (?bs + 4) * count" using k(2) assms(5,8) by linarith
  then have "k < count" by (simp add: mult.commute)
  from mp_free_list_init_writes [of k s1 i ?bs] this s1(2,3) st obtain q where
    q: "mps_word (mp_free_list_init i ?bs s1) (add32 start (mul32 k (?bs + 4))) = Mp_Next q" by auto
  have "k * (?bs + 4) < 2 ^ 32" "start + k * (?bs + 4) < 2 ^ 32" using k(2) assms(8) by linarith+
  then have "add32 start (mul32 k (?bs + 4)) = start + k * (?bs + 4)" by (simp add: mul32_small add32_small)
  with q s1(1) k(1) show ?thesis by (intro exI conjI) (auto intro: exI)
qed

text \<open>A pool of three blocks of 16 bytes at 0x2000, in the sample system.\<close>

definition no_pools :: mp_state where
  "no_pools = \<lparr>mps_pool = (\<lambda>_. \<lparr>mp_object = Obj_Null, mp_start_address = 0, mp_size = 0, mp_block_size = 0,
       mp_block_list = None, mp_block_total_count = 0, mp_block_free_count = 0\<rparr>),
     mps_word = (\<lambda>_. Mp_Other), mps_kernel = sample_kernel\<rparr>"

lemma sample_sizes: "RT_ALIGN 10 RT_ALIGN_SIZE = 16" "RT_ALIGN_DOWN 64 RT_ALIGN_SIZE = 64"
  by (simp_all add: align_simps)

lemma no_pools_ok:
  "kernel_ok (mps_kernel no_pools)" "ks_list (mps_kernel no_pools) (mp_head 0) = []" "mp_object (mps_pool no_pools 0) = Obj_Null"
  "may_block 1 (mps_kernel no_pools)"
  using sample_kernel_kernel_ok sample_may_block by (simp_all add: no_pools_def sample_kernel_def)

lemma sample_pool:
  obtains s where "rt_mp_init 0 0x2000 64 10 no_pools = Some (RT_EOK, s)" "mp_inv 0 s" "mp_frees 0 s = [0x2000, 0x2014, 0x2028]"
    "mps_kernel s = sample_kernel"
proof -
  have "\<exists>s'. rt_mp_init 0 0x2000 64 10 no_pools = Some (RT_EOK, s') \<and> mp_pool 0 16 0x2000 (0x2000 + 64) s' \<and>
    mp_frees 0 s' = map (\<lambda>k. 0x2000 + k * (16 + 4)) [0..<3] \<and> mp_block_total_count (mps_pool s' 0) = 3 \<and> 10 \<le> (16::nat)"
    by (rule mp_init_spec [OF no_pools_ok(1-3)]) (simp_all add: sample_sizes)
  then obtain s where s: "rt_mp_init 0 0x2000 64 10 no_pools = Some (RT_EOK, s)" "mp_inv 0 s" "mp_frees 0 s = [0x2000, 0x2014, 0x2028]"
    by (auto simp: mp_pool_def upt_conv_Cons)
  moreover have "mps_kernel s = sample_kernel"
    using s(1) by (auto simp: rt_mp_init_def mp_free_list_init_def Let_def no_pools_def sample_kernel_def list_set_def fun_upd_idem)
  ultimately show thesis by (rule that)
qed

theorem mempool_blocks_never_overlap_witness:
  "\<exists>s0 held s'. rt_mp_init 0 0x2000 64 10 no_pools = Some (RT_EOK, s0) \<and> length (mp_frees 0 s0) = 3 \<and>
     alloc_run (mp_try_alloc 0) (\<lambda>p. rt_mp_free (Some p)) [Alloc 10, Alloc 4, Free 1, Alloc 8, Alloc 9] [] s0 = Some (held, s')"
proof -
  have "\<exists>s0 held s'. rt_mp_init 0 0x2000 64 10 no_pools = Some (RT_EOK, s0) \<and>
    length (mp_frees 0 s0) = RT_ALIGN_DOWN 64 RT_ALIGN_SIZE div (RT_ALIGN 10 RT_ALIGN_SIZE + 4) \<and>
    alloc_run (mp_try_alloc 0) (\<lambda>p. rt_mp_free (Some p)) [Alloc 10, Alloc 4, Free 1, Alloc 8, Alloc 9] [] s0 = Some (held, s') \<and>
    (\<forall>j < length held. \<forall>k < length held. j \<noteq> k \<longrightarrow> apart (held ! j) (held ! k)) \<and>
    (\<forall>(p, n) \<in> set held. 0x2000 + 4 \<le> p \<and> p + n \<le> 0x2000 + 64)"
    by (rule mempool_blocks_never_overlap [OF no_pools_ok(1-3)]) (auto simp: sample_sizes)
  then show ?thesis unfolding sample_sizes by auto
qed

lemma mempool_alloc_refines_stack_witness:
  "\<exists>s s'. mp_inv 0 s \<and> rt_mp_alloc 0 0 s = Some (Block (Some 0x2004), s') \<and> mp_frees 0 s' = [0x2014, 0x2028]"
proof -
  obtain s where s: "mp_inv 0 s" "mp_frees 0 s = [0x2000, 0x2014, 0x2028]" "mps_kernel s = sample_kernel" by (rule sample_pool)
  from mempool_alloc_refines_stack [OF s(1), of 1 0] s sample_may_block show ?thesis by (auto simp: timeout_ok_def)
qed

lemma mempool_free_serves_last_waiter_witness:
  "\<exists>s s' s''. rt_mp_alloc 0 0 s = Some (Block (Some 0x2004), s') \<and> rt_mp_free (Some 0x2004) s' = Some s'' \<and>
     mp_frees 0 s'' = [0x2000, 0x2014, 0x2028]"
proof -
  obtain s where s: "mp_inv 0 s" "mp_frees 0 s = [0x2000, 0x2014, 0x2028]" by (rule sample_pool)
  obtain s' where s': "mp_alloc_loop 0 0 s = Some (Block (Some (0x2000 + 4)), s')" "mp_inv 0 s'" "mp_frees 0 s' = [0x2014, 0x2028]"
    "mp_same 0 s s'" using mp_alloc_some [OF s] by blast
  have "0x2000 \<in> mp_slots (mps_pool s 0)" using s by (auto simp: mp_inv_def mp_shape_def Let_def)
  then have "(0x2000 + 4, mp_block_size (mps_pool s' 0)) \<in> mp_live 0 s'"
    using mp_same_slots [OF s'(4)] s'(3) by (auto simp: mp_live_def)
  from mempool_free_serves_last_waiter [OF s'(2) this] obtain s'' where
    "rt_mp_free (Some (0x2000 + 4)) s' = Some s''" "mp_frees 0 s'' = 0x2000 # mp_frees 0 s'" by blast
  with s' show ?thesis by (intro exI [of _ s] exI [of _ s'] exI [of _ s'']) (simp add: rt_mp_alloc_def)
qed

lemma mempool_create_overflow_writes_outside_witness:
  "\<exists>s' a q. rt_mp_create (Some 0) (\<lambda>n. if n = 4 then Some 0x2000 else None) 0x0ccccccd 10 no_pools = Some (Some 0, s') \<and>
     0x2004 \<le> a \<and> mps_word s' a = Mp_Next q"
  using mempool_create_overflow_writes_outside [of no_pools 10 "0x0ccccccd" 4 "\<lambda>n. if n = 4 then Some 0x2000 else None" "0x2000" 0]
  by (simp add: sample_sizes no_pools_def sample_kernel_def)

end
