(* ===== verification/Kernel_Frame.thy ===== *)
theory Kernel_Frame
  imports Clock Semaphore Event Mailbox
begin

text \<open>
  What the kernel's calls leave alone. \<open>obj_frame X T s s'\<close> says that between \<open>s\<close> and \<open>s'\<close> no IPC object
  outside \<open>X\<close> changed, no queue of such an object gained a thread, no thread outside \<open>T\<close> stopped being
  runnable, the running timer of such a thread was left alone unless the thread was made runnable, and the clock stayed well formed and at its tick. The lemmas give it for every operation that a call is made
  of; they hold whenever the operation returns, whatever the state.
\<close>

section \<open>The clock\<close>

text \<open>A well-formed clock between two interrupts; the timers of threads are one-shot.\<close>

definition sys_clk :: "clk \<Rightarrow> bool" where
  "sys_clk c \<longleftrightarrow> timers_ok (ck_tick c) c \<and> ck_fired c = [] \<and> user_timers_ok c \<and>
     (\<forall>t. \<not> tm_periodic (ck_timer c (Thread_Timer t))) \<and>
     (\<forall>p. tm_activated (ck_timer c p) \<longrightarrow> 0 < due (ck_tick c) c p \<and>
        (tm_periodic (ck_timer c p) \<longrightarrow> 0 < tm_init_tick (ck_timer c p) \<and> unat (tm_init_tick (ck_timer c p)) + 1 < HALF))"

lemma sys_clk_tick_inv:
  assumes "kernel_ok s" "sys_clk (ks_clk s)"
  shows "tick_inv s"
  using assms unfolding tick_inv_def check_inv_def sys_clk_def by auto

lemma tick_inv_sys_clk:
  assumes "tick_inv s" "\<forall>t. \<not> tm_periodic (ck_timer (ks_clk s) (Thread_Timer t))"
  shows "sys_clk (ks_clk s)"
  using assms unfolding tick_inv_def check_inv_def sys_clk_def by auto

lemma sys_clk_stop:
  assumes "sys_clk c"
  shows "sys_clk (upd_timer p clear_activated (timer_remove p c)) \<and>
    ck_tick (upd_timer p clear_activated (timer_remove p c)) = ck_tick c"
proof -
  let ?c = "upd_timer p clear_activated (timer_remove p c)"
  have "due b ?c q = due b c q" for b q by (simp add: due_def)
  with timers_ok_remove [of "ck_tick c" c p] assms show ?thesis
    unfolding sys_clk_def user_timers_ok_def by auto
qed

lemma sys_clk_start:
  assumes c: "sys_clk c" and o: "tm_object (ck_timer c (Thread_Timer t)) \<noteq> Obj_Null"
    and k: "0 < unat tick" "unat tick < HALF"
    and c1: "c1 = upd_timer (Thread_Timer t) (\<lambda>tm. tm\<lparr>tm_init_tick := tick\<rparr>) c" and c2: "rt_timer_start (Thread_Timer t) c1 = Some (e, c2)"
  shows "sys_clk c2 \<and> ck_tick c2 = ck_tick c"
proof -
  let ?p = "Thread_Timer t"
  have d1: "due b c1 q = due b c q" for b q by (simp add: due_def c1)
  have t1: "timers_ok (ck_tick c1) c1"
  proof -
    have "due (ck_tick c) c1 = due (ck_tick c) c" using d1 by blast
    with c show ?thesis unfolding sys_clk_def timers_ok_def c1 by (auto simp: tm_activated_def)
  qed
  have i1: "tm_init_tick (ck_timer c1 ?p) = tick" "tm_object (ck_timer c1 ?p) \<noteq> Obj_Null" "ck_tick c1 = ck_tick c"
    "ck_fired c1 = []" using o c by (simp_all add: c1 sys_clk_def)
  have "unat (ck_tick c1 + tm_init_tick (ck_timer c1 ?p) - ck_tick c1) < HALF" using k i1 by simp
  from rt_timer_start_spec [OF t1 i1(2) this] c2 have s2: "timers_ok (ck_tick c1) c2" "ck_tick c2 = ck_tick c1" "ck_fired c2 = []"
    "ck_timer c2 = (ck_timer c1)(?p := set_activated (clear_activated (ck_timer c1 ?p)\<lparr>tm_timeout_tick := ck_tick c1 + tick\<rparr>))"
    using i1 by auto
  have np: "\<not> tm_periodic (ck_timer c2 q)" if "q = Thread_Timer u" for u q
    using c that by (auto simp: s2(4) c1 sys_clk_def)
  have same: "ck_timer c2 q = ck_timer c q" if "q \<noteq> ?p" for q using that by (simp add: s2(4) c1)
  have "0 < due (ck_tick c2) c2 q \<and> (tm_periodic (ck_timer c2 q) \<longrightarrow>
      0 < tm_init_tick (ck_timer c2 q) \<and> unat (tm_init_tick (ck_timer c2 q)) + 1 < HALF)" if "tm_activated (ck_timer c2 q)" for q
  proof (cases "q = ?p")
    case True
    with np [OF True] k s2(2,4) show ?thesis by (simp add: due_def)
  next
    case False
    with that same c i1(3) s2(2) show ?thesis by (auto simp: sys_clk_def due_def)
  qed
  moreover have "user_timers_ok c2" using c same by (simp add: sys_clk_def user_timers_ok_def)
  ultimately show ?thesis using s2 np i1 by (auto simp: sys_clk_def)
qed

section \<open>The frame\<close>

fun head_obj :: "lhead \<Rightarrow> ipc_obj option" where
  "head_obj (Suspend ob) = Some ob"
| "head_obj (Suspend_Sender ob) = Some ob"
| "head_obj _ = None"

definition same_wait :: "rt_thread \<Rightarrow> rt_thread \<Rightarrow> bool" where
  "same_wait th th' \<longleftrightarrow> th_event_set th' = th_event_set th \<and> th_event_info th' = th_event_info th"

definition queue_frame :: "ipc_obj set \<Rightarrow> tid set \<Rightarrow> kstate \<Rightarrow> kstate \<Rightarrow> bool" where
  "queue_frame X T s s' \<longleftrightarrow>
     (\<forall>i. Sem i \<notin> X \<longrightarrow> the_sem i s' = the_sem i s) \<and>
     (\<forall>i. Event i \<notin> X \<longrightarrow> the_event i s' = the_event i s) \<and>
     (\<forall>i. Mailbox i \<notin> X \<longrightarrow> the_mb i s' = the_mb i s) \<and>
     (\<forall>h ob. head_obj h = Some ob \<longrightarrow> ob \<notin> X \<longrightarrow>
        (\<forall>t \<in> set (ks_list s' h). t \<in> set (ks_list s h) \<and> same_wait (ks_thread s t) (ks_thread s' t))) \<and>
     ks_lock_nest s' = ks_lock_nest s \<and> ks_irq_nest s' = ks_irq_nest s \<and>
     (\<forall>u. u \<notin> T \<longrightarrow> runnable u s \<longrightarrow> runnable u s')"

text \<open>The running timer of a thread is left alone, unless the thread has become runnable.\<close>

definition timers_kept :: "tid set \<Rightarrow> kstate \<Rightarrow> kstate \<Rightarrow> bool" where
  "timers_kept T s s' \<longleftrightarrow> (\<forall>u. u \<notin> T \<longrightarrow> tm_activated (ck_timer (ks_clk s) (Thread_Timer u)) \<longrightarrow>
     ck_timer (ks_clk s') (Thread_Timer u) = ck_timer (ks_clk s) (Thread_Timer u) \<or> runnable u s')"

lemma timers_kept_same [simp]: "ks_clk s' = ks_clk s \<Longrightarrow> timers_kept T s s'"
  by (simp add: timers_kept_def)

definition obj_frame :: "ipc_obj set \<Rightarrow> tid set \<Rightarrow> kstate \<Rightarrow> kstate \<Rightarrow> bool" where
  "obj_frame X T s s' \<longleftrightarrow> queue_frame X T s s' \<and> timers_kept T s s' \<and>
     (sys_clk (ks_clk s) \<longrightarrow> sys_clk (ks_clk s') \<and> ck_tick (ks_clk s') = ck_tick (ks_clk s))"

named_theorems framed

lemma frame_refl [framed]: "obj_frame X T s s"
  by (simp add: obj_frame_def queue_frame_def same_wait_def)

lemma queue_frame_trans:
  assumes "queue_frame X T s s1" "queue_frame X T s1 s2"
  shows "queue_frame X T s s2"
proof -
  have tr: "same_wait (ks_thread s t) (ks_thread s2 t)"
    if "same_wait (ks_thread s t) (ks_thread s1 t)" "same_wait (ks_thread s1 t) (ks_thread s2 t)" for t
    using that by (simp add: same_wait_def)
  from assms show ?thesis
    unfolding queue_frame_def by (elim conjE, intro conjI allI impI ballI) (simp | blast | blast intro: tr)+
qed

lemma timers_kept_trans:
  assumes "timers_kept T s s1" "timers_kept T s1 s2" "queue_frame X T s1 s2"
  shows "timers_kept T s s2"
  using assms unfolding timers_kept_def queue_frame_def by metis

lemma frame_trans: "obj_frame X T s s1 \<Longrightarrow> obj_frame X T s1 s2 \<Longrightarrow> obj_frame X T s s2"
  using queue_frame_trans timers_kept_trans unfolding obj_frame_def by metis

lemma frame_mono: "obj_frame X T s s' \<Longrightarrow> T \<subseteq> T' \<Longrightarrow> obj_frame X T' s s'"
  unfolding obj_frame_def queue_frame_def timers_kept_def by blast

text \<open>A thread that ends runnable needs no exception.\<close>

lemma frame_discharge:
  assumes "obj_frame X (insert t T) s s'" "runnable t s'"
  shows "obj_frame X T s s'"
  using assms unfolding obj_frame_def queue_frame_def timers_kept_def by auto

text \<open>Each step at the end of a run.\<close>

lemma frame_upd_thread [framed]:
  assumes "obj_frame X T s s1" "\<And>th. same_wait th (f th)" "\<And>th. th_object (f th) = th_object th"
    "\<And>th. th_state (f th) = th_state th \<or> th_state (f th) \<in> {2, 3} \<or> t \<in> T"
  shows "obj_frame X T s (upd_thread t f s1)"
proof (rule frame_trans [OF assms(1)])
  have r: "runnable u (upd_thread t f s1)" if "u \<notin> T" "runnable u s1" for u
    using that assms(3,4) [of "ks_thread s1 t"] by (auto simp: runnable_def)
  have w: "same_wait (ks_thread s1 u) (ks_thread (upd_thread t f s1) u)" for u
    using assms(2) by (simp add: same_wait_def)
  show "obj_frame X T s1 (upd_thread t f s1)"
    using r w unfolding obj_frame_def queue_frame_def by (simp add: the_sem_def the_event_def the_mb_def)
qed

lemma frame_lists [framed]:
  assumes "obj_frame X T s s1"
  shows "obj_frame X T s (list_remove t s1)"
    "head_obj h = None \<or> the (head_obj h) \<in> X \<Longrightarrow> obj_frame X T s (list_set h ts s1)"
proof -
  have r: "runnable u (list_remove t s1) = runnable u s1" "runnable u (list_set h ts s1) = runnable u s1" for u
    by (simp_all add: runnable_def)
  have "obj_frame X T s1 (list_remove t s1)"
    unfolding obj_frame_def queue_frame_def r by (auto simp: the_sem_def the_event_def the_mb_def same_wait_def)
  then show "obj_frame X T s (list_remove t s1)" by (rule frame_trans [OF assms])
  assume h: "head_obj h = None \<or> the (head_obj h) \<in> X"
  have "obj_frame X T s1 (list_set h ts s1)"
    unfolding obj_frame_def queue_frame_def r using h by (auto simp: the_sem_def the_event_def the_mb_def same_wait_def)
  then show "obj_frame X T s (list_set h ts s1)" by (rule frame_trans [OF assms])
qed

lemma frame_sched_fields [framed]:
  assumes "obj_frame X T s s1"
  shows "obj_frame X T s (s1\<lparr>ks_group := g\<rparr>)" "obj_frame X T s (s1\<lparr>ks_current := c\<rparr>)"
    "obj_frame X T s (s1\<lparr>ks_current_priority := p, ks_current := c\<rparr>)"
  unfolding atomize_conj
  by (intro conjI; rule frame_trans [OF assms])
    (auto simp: obj_frame_def queue_frame_def runnable_def the_sem_def the_event_def the_mb_def same_wait_def)

lemma frame_objects [framed]:
  assumes "obj_frame X T s s1"
  shows "Sem i \<in> X \<Longrightarrow> obj_frame X T s (upd_sem i f s1)" "Event i \<in> X \<Longrightarrow> obj_frame X T s (upd_event i f' s1)"
    "Mailbox i \<in> X \<Longrightarrow> obj_frame X T s (upd_mb i f'' s1)"
proof -
  have r: "runnable u (upd_sem i f s1) = runnable u s1" "runnable u (upd_event i f' s1) = runnable u s1"
    "runnable u (upd_mb i f'' s1) = runnable u s1" for u
    by (simp_all add: runnable_def upd_sem_def upd_event_def upd_mb_def)
  have "Sem i \<in> X \<Longrightarrow> obj_frame X T s1 (upd_sem i f s1)" "Event i \<in> X \<Longrightarrow> obj_frame X T s1 (upd_event i f' s1)"
    "Mailbox i \<in> X \<Longrightarrow> obj_frame X T s1 (upd_mb i f'' s1)"
    unfolding obj_frame_def queue_frame_def r
    by (auto simp: the_sem_def the_event_def the_mb_def upd_sem_def upd_event_def upd_mb_def same_wait_def)
  then show "Sem i \<in> X \<Longrightarrow> obj_frame X T s (upd_sem i f s1)" "Event i \<in> X \<Longrightarrow> obj_frame X T s (upd_event i f' s1)"
    "Mailbox i \<in> X \<Longrightarrow> obj_frame X T s (upd_mb i f'' s1)" using frame_trans [OF assms] by blast+
qed


lemma frame_clk:
  assumes "obj_frame X T s s1" "sys_clk (ks_clk s1) \<Longrightarrow> sys_clk c \<and> ck_tick c = ck_tick (ks_clk s1)"
    and t: "t \<in> T" "\<And>p. p \<noteq> Thread_Timer t \<Longrightarrow> ck_timer c p = ck_timer (ks_clk s1) p"
  shows "obj_frame X T s (upd_clk c s1)"
proof (rule frame_trans [OF assms(1)])
  have "runnable u (upd_clk c s1) = runnable u s1" for u by (simp add: runnable_def)
  moreover have "timers_kept T s1 (upd_clk c s1)" unfolding timers_kept_def
  proof (intro allI impI disjI1)
    fix u assume "u \<notin> T"
    then have "Thread_Timer u \<noteq> Thread_Timer t" using t(1) by auto
    from t(2) [OF this] show "ck_timer (ks_clk (upd_clk c s1)) (Thread_Timer u) = ck_timer (ks_clk s1) (Thread_Timer u)" by simp
  qed
  ultimately show "obj_frame X T s1 (upd_clk c s1)"
    using assms(2) unfolding obj_frame_def queue_frame_def by (auto simp: the_sem_def the_event_def the_mb_def same_wait_def)
qed

section \<open>Scheduling\<close>

text \<open>Updates of a thread's status byte and of fields nothing here reads.\<close>

lemma same_wait_simps [simp]:
  "same_wait th th" "same_wait th (set_state st th)" "same_wait th (set_yield th)" "same_wait th (clear_yield th)"
  "same_wait th (th\<lparr>th_error := e\<rparr>)" "same_wait th (th\<lparr>th_remaining_tick := r\<rparr>)"
  by (simp_all add: same_wait_def set_state_def set_yield_def clear_yield_def)

lemma frame_insert [framed]: "obj_frame X T s s1 \<Longrightarrow> obj_frame X T s (rt_schedule_insert_thread t s1)"
  unfolding rt_schedule_insert_thread_def Let_def by (auto intro!: framed)

lemma frame_remove [framed]: "obj_frame X T s s1 \<Longrightarrow> obj_frame X T s (rt_schedule_remove_thread t s1)"
  unfolding rt_schedule_remove_thread_def Let_def by (auto intro!: framed)

lemma frame_schedule:
  assumes "obj_frame X T s s1" "rt_schedule s1 = Some s'"
  shows "obj_frame X T s s'"
  using assms unfolding rt_schedule_def Let_def
  by (auto simp: bind_eq_Some_conv split: if_splits prod.splits intro!: framed)

section \<open>Threads and their timers\<close>

lemma frame_timer_stop:
  assumes "obj_frame X T s s1" "timer_call (rt_timer_stop (Thread_Timer t)) s1 = Some (e, s')" "t \<in> T"
  shows "obj_frame X T s s'"
  using assms unfolding timer_call_Some rt_timer_stop_def
  by (auto simp: bind_eq_Some_conv split: if_splits intro!: frame_clk [where t = t] sys_clk_stop)

lemma frame_start_timer:
  assumes "obj_frame X T s s1" "start_thread_timer t tick s1 = Some s'" "0 < unat tick" "t \<in> T"
  shows "obj_frame X T s s'"
proof -
  obtain e c2 where c: "tm_object (ck_timer (ks_clk s1) (Thread_Timer t)) \<noteq> Obj_Null" "tick < RT_TICK_MAX div 2"
    "rt_timer_start (Thread_Timer t) (upd_timer (Thread_Timer t) (\<lambda>tm. tm\<lparr>tm_init_tick := tick\<rparr>) (ks_clk s1)) = Some (e, c2)"
    "s' = upd_clk c2 s1"
    using assms(2) by (auto simp: start_thread_timer_def rt_timer_control_def bind_eq_Some_conv Let_def)
  have "unat tick < HALF" using c(2) by (simp add: word_less_nat_alt)
  then have "sys_clk (ks_clk s1) \<Longrightarrow> sys_clk c2 \<and> ck_tick c2 = ck_tick (ks_clk s1)" using sys_clk_start [OF _ c(1) assms(3) _ refl c(3)] by blast
  moreover have "ck_timer c2 p = ck_timer (ks_clk s1) p" if "p \<noteq> Thread_Timer t" for p
    using c(1,3) that by (auto simp: rt_timer_start_def bind_eq_Some_conv Let_def)
  ultimately show ?thesis unfolding c(4) by (rule frame_clk [OF assms(1) _ assms(4)])
qed

lemma frame_suspend:
  assumes f: "obj_frame X T s s1" and r: "rt_thread_suspend_with_flag t sflag s1 = Some (e, s')" and t: "t \<in> T"
  shows "obj_frame X T s s'"
proof -
  have st: "obj_frame X T s s3" if "obj_frame X T s s2" "rt_thread_set_suspend_state t sflag s2 = Some s3" for s2 s3
    using that t unfolding rt_thread_set_suspend_state_def
    by (auto simp: bind_eq_Some_conv Let_def intro!: framed split: suspend_flag.splits)
  consider "s' = s1" | s2 e' where "rt_thread_set_suspend_state t sflag (rt_schedule_remove_thread t s1) = Some s2"
      "timer_call (rt_timer_stop (Thread_Timer t)) s2 = Some (e', s')"
    using r unfolding rt_thread_suspend_with_flag_def Let_def by (auto simp: bind_eq_Some_conv split: if_splits)
  then show ?thesis
  proof cases
    case 2
    show ?thesis by (rule frame_timer_stop [OF st [OF frame_remove [OF f] 2(1)] 2(2) t])
  qed (use f in simp)
qed

lemma frame_resume:
  assumes f: "obj_frame X T s s1" and r: "rt_thread_resume t s1 = Some (e, s')"
  shows "obj_frame X T s s'"
proof -
  consider "s' = s1" | s2 e' where "timer_call (rt_timer_stop (Thread_Timer t)) (list_remove t s1) = Some (e', s2)"
      "s' = rt_schedule_insert_thread t s2"
    using r unfolding rt_thread_resume_def Let_def by (auto simp: bind_eq_Some_conv split: if_splits)
  then show ?thesis
  proof cases
    case 2
    have f': "obj_frame X (insert t T) s (list_remove t s1)" by (rule frame_mono [OF frame_lists(1) [OF f]]) auto
    have "obj_frame X (insert t T) s s'" unfolding 2(2) by (rule frame_insert [OF frame_timer_stop [OF f' 2(1)]]) simp
    moreover have "runnable t s'"
    proof -
      have "th_object (ks_thread s1 t) \<noteq> Obj_Null" using r by (auto simp: rt_thread_resume_def bind_eq_Some_conv)
      moreover have "ks_thread s2 = ks_thread s1" using 2(1) by (auto simp: timer_call_Some)
      ultimately show ?thesis unfolding 2(2) by (simp add: runnable_def rt_schedule_insert_thread_def Let_def)
    qed
    ultimately show ?thesis by (rule frame_discharge)
  qed (use f in simp)
qed

lemma frame_thread_timeout:
  assumes "obj_frame X T s s1" "thread_timeout t s1 = Some s'"
  shows "obj_frame X T s s'"
  using assms unfolding thread_timeout_def Let_def
  by (auto simp: bind_assert_eq_Some intro!: framed elim!: frame_schedule [rotated])

section \<open>Blocking and waking\<close>

lemma frame_list_suspend:
  assumes f: "obj_frame X T s s1" and r: "ipc_list_suspend h t flag sflag s1 = Some (e, s')" and t: "t \<in> T" and h: "the (head_obj h) \<in> X"
  shows "obj_frame X T s s'"
proof -
  obtain e2 s2 where s2: "(if \<not> th_suspended (ks_thread s1 t) then rt_thread_suspend_with_flag t sflag s1 else Some (RT_EOK, s1)) = Some (e2, s2)"
    "s' = s2 \<or> (\<exists>ws. s' = list_set h ws s2)"
    using r unfolding ipc_list_suspend_def by (auto simp: bind_eq_Some_conv split: if_splits ipc_flag.splits)
  have "obj_frame X T s s2" using s2(1) frame_suspend [OF f _ t] f by (auto split: if_splits)
  with s2(2) h show ?thesis by (auto intro: framed)
qed

lemma frame_arm_timeout:
  assumes "obj_frame X T s s1" "arm_timeout t timeout s1 = Some s'" "timeout_ok timeout" "t \<in> T"
  shows "obj_frame X T s s'"
proof (cases "0 < timeout")
  case True
  have "unat (word_of_int timeout :: u32) = nat timeout"
    using True assms(3) by (simp add: timeout_ok_def unsigned_of_int take_bit_int_eq_self)
  with True assms show ?thesis by (auto simp: arm_timeout_def intro: frame_start_timer)
next
  case False
  with assms show ?thesis by (simp add: arm_timeout_def)
qed

lemma frame_block_on:
  assumes f: "obj_frame X T s s1" and r: "block_on h t flag sflag timeout s1 = Some (r, s')" and t: "t \<in> T"
    and h: "the (head_obj h) \<in> X" and k: "timeout_ok timeout"
  shows "obj_frame X T s s'"
proof -
  obtain e s2 where s2: "ipc_list_suspend h t flag sflag s1 = Some (e, s2)"
    "s' = s2 \<or> (\<exists>s3. arm_timeout t timeout s2 = Some s3 \<and> rt_schedule s3 = Some s')"
    using r unfolding block_on_def by (auto simp: bind_eq_Some_conv split: if_splits)
  have f2: "obj_frame X T s s2" by (rule frame_list_suspend [OF f s2(1) t h])
  from s2(2) show ?thesis
  proof (elim disjE exE conjE)
    fix s3 assume s3: "arm_timeout t timeout s2 = Some s3" "rt_schedule s3 = Some s'"
    show ?thesis by (rule frame_schedule [OF frame_arm_timeout [OF f2 s3(1) k t] s3(2)])
  qed (use f2 in simp)
qed

lemma frame_list_resume:
  assumes f: "obj_frame X T s s1" and r: "ipc_list_resume h s1 = Some (e, s')"
  shows "obj_frame X T s s'"
proof -
  obtain t e2 where "rt_thread_resume t (upd_thread t (\<lambda>th. th\<lparr>th_error := RT_EOK\<rparr>) s1) = Some (e2, s')"
    using r unfolding ipc_list_resume_def by (auto simp: bind_eq_Some_conv split: list.splits)
  moreover have "obj_frame X T s (upd_thread t (\<lambda>th. th\<lparr>th_error := RT_EOK\<rparr>) s1)" by (rule frame_upd_thread [OF f]) simp_all
  ultimately show ?thesis by (rule frame_resume [rotated])
qed

lemma frame_wake_one:
  assumes f: "obj_frame X T s s1" and r: "ipc_wake_one h s1 = Some (e, s')"
  shows "obj_frame X T s s'"
proof -
  consider "s' = s1" | e2 s2 where "ipc_list_resume h s1 = Some (e2, s2)" "rt_schedule s2 = Some s'"
    using r unfolding ipc_wake_one_def by (auto simp: bind_eq_Some_conv split: if_splits)
  then show ?thesis by cases (use f in \<open>auto intro: frame_schedule [OF frame_list_resume]\<close>)
qed


text \<open>
  A thread that waits on no other object may change the condition it waits for.
\<close>

lemma frame_upd_unlinked:
  assumes f: "obj_frame X T s s1" and n: "\<And>h ob. head_obj h = Some ob \<Longrightarrow> ob \<notin> X \<Longrightarrow> t \<notin> set (ks_list s h)"
    and g: "\<And>th. th_object (g th) = th_object th" "\<And>th. th_state (g th) = th_state th"
  shows "obj_frame X T s (upd_thread t g s1)"
proof -
  have "t \<notin> set (ks_list s1 h)" if "head_obj h = Some ob" "ob \<notin> X" for h ob
    using f n [OF that] that unfolding obj_frame_def queue_frame_def by blast
  moreover have "runnable u (upd_thread t g s1) = runnable u s1" for u using g by (simp add: runnable_def)
  ultimately have "obj_frame X T s1 (upd_thread t g s1)"
    unfolding obj_frame_def queue_frame_def
    by (auto simp: the_sem_def the_event_def the_mb_def same_wait_def split: if_splits)
  then show ?thesis by (rule frame_trans [OF f])
qed

lemma frame_event_loop:
  assumes "obj_frame X T s s1" "event_send_loop i ts need s1 = Some (e, need', s')" "Event i \<in> X"
    and "\<And>t h ob. t \<in> set ts \<Longrightarrow> head_obj h = Some ob \<Longrightarrow> ob \<notin> X \<Longrightarrow> t \<notin> set (ks_list s h)"
  shows "obj_frame X T s s'"
  using assms
proof (induction ts arbitrary: need s1)
  case Nil
  then show ?case by simp
next
  case (Cons t ts)
  have n: "\<And>h ob. head_obj h = Some ob \<Longrightarrow> ob \<notin> X \<Longrightarrow> t \<notin> set (ks_list s h)" using Cons.prems(4) by simp
  have ih: "obj_frame X T s s'" if "obj_frame X T s s3" "event_send_loop i ts need3 s3 = Some (e, need', s')" for s3 need3
    by (rule Cons.IH [OF that Cons.prems(3)]) (use Cons.prems(4) in auto)
  let ?set = "\<lambda>th. th\<lparr>th_event_set := th_event_set (ks_thread s1 t) AND ev_set (the_event i s1)\<rparr>"
  have u: "obj_frame X T s (upd_thread t ?set s1)" by (rule frame_upd_unlinked [OF Cons.prems(1) n]) simp_all
  consider "s' = s1" | "event_send_loop i ts need s1 = Some (e, need', s')"
    | s2 e3 s3 where "s2 = s1 \<or> s2 = upd_thread t ?set s1"
        "rt_thread_resume t s2 = Some (e3, s3) \<or> (\<exists>f. rt_thread_resume t (upd_event i f s2) = Some (e3, s3))"
        "event_send_loop i ts True (upd_thread t (\<lambda>th. th\<lparr>th_error := RT_EOK\<rparr>) s3) = Some (e, need', s')"
    using Cons.prems(2) by (auto simp: Let_def bind_eq_Some_conv split: if_splits)
  then show ?case
  proof cases
    case 3
    have s2: "obj_frame X T s s2" using 3(1) Cons.prems(1) u by auto
    have "obj_frame X T s (upd_event i f s2)" for f by (rule frame_objects(2) [OF s2 Cons.prems(3)])
    then have s3: "obj_frame X T s s3" using 3(2) frame_resume [OF s2] frame_resume by blast
    have "obj_frame X T s (upd_thread t (\<lambda>th. th\<lparr>th_error := RT_EOK\<rparr>) s3)" by (rule frame_upd_thread [OF s3]) simp_all
    from ih [OF this 3(3)] show ?thesis .
  qed (use Cons.prems(1) ih in auto)
qed

section \<open>Ticks\<close>

text \<open>Between the rounds of \<open>rt_timer_check\<close> the clock is in pieces, so only the queues are framed.\<close>

lemma frame_queue: "obj_frame X T s s' \<Longrightarrow> queue_frame X T s s'"
  by (simp add: obj_frame_def)

lemma queue_frame_clk: "queue_frame X T s (upd_clk c s)"
proof -
  have "runnable u (upd_clk c s) = runnable u s" for u by (simp add: runnable_def)
  then show ?thesis by (simp add: queue_frame_def the_sem_def the_event_def the_mb_def)
qed

text \<open>Application timers whose functions do nothing to the kernel; what they do can be a step of its own.\<close>

definition inert :: callbacks where
  "inert = (\<lambda>n p s. Some s)"

lemma inert_quiet: "quiet_callbacks inert"
  by (simp add: quiet_callbacks_def inert_def)

text \<open>A timeout ends with the most urgent thread running.\<close>

lemma thread_timeout_runs:
  assumes k: "kernel_ok s" and r: "thread_timeout t s = Some s'" and off: "\<not> tm_activated (ck_timer (ks_clk s) (Thread_Timer t))"
    and l: "ks_lock_nest s = 0"
  shows "runs_highest s'"
proof -
  have t: "th_object (ks_thread s t) \<noteq> Obj_Null" "th_suspended (ks_thread s t)"
    using r by (auto simp: thread_timeout_def bind_eq_Some_conv)
  let ?s2 = "rt_schedule_insert_thread t (list_remove t (upd_thread t (\<lambda>th. th\<lparr>th_error := - RT_ETIMEOUT\<rparr>) s))"
  have "rt_schedule ?s2 = Some s'" using r t by (simp add: thread_timeout_def)
  moreover have "runnable t ?s2" using t(1) by (simp add: runnable_def rt_schedule_insert_thread_def Let_def)
  moreover have "ks_lock_nest ?s2 = 0" using l by (simp add: rt_schedule_insert_thread_def Let_def)
  ultimately show ?thesis using schedule_runs [OF timeout_insert_ok [OF k t off]] by blast
qed

lemma run_timeout_runs:
  assumes i: "check_inv b e s" and t: "t \<in> set (ck_list (ks_clk s))" and h: "runs_highest s" and l: "ks_lock_nest s = 0"
    and r: "run_timeout inert t (upd_clk (take_expired t (ks_clk s)) s) = Some s1"
  shows "runs_highest s1"
proof -
  let ?u = "upd_clk (take_expired t (ks_clk s)) s"
  have act: "tm_activated (ck_timer (ks_clk s) t)" using i t by (simp add: check_inv_def timers_ok_def)
  have h': "runs_highest ?u" using h by (simp add: runs_highest_def)
  show ?thesis
  proof (cases t)
    case (Thread_Timer v)
    have tv: "thread_timer_ok s v" using i by (simp add: check_inv_def kernel_ok_def)
    then have v: "th_object (ks_thread s v) \<noteq> Obj_Null" "th_suspended (ks_thread s v)"
      using act Thread_Timer by (simp_all add: thread_timer_ok_def Let_def)
    from suspended_started [OF v] tv v Thread_Timer have tm: "tm_timeout_func (ck_timer (ks_clk s) t) = Thread_timeout_fn"
      "tm_parameter (ck_timer (ks_clk s) t) = v" "\<not> tm_periodic (ck_timer (ks_clk s) t)" by (simp_all add: thread_timer_ok_def Let_def)
    then have "thread_timeout v ?u = Some s1" "\<not> tm_activated (ck_timer (ks_clk ?u) (Thread_Timer v))"
      using r Thread_Timer by (simp_all add: run_timeout_def Let_def)
    with thread_timeout_runs [OF take_expired_ok [OF i t]] l show ?thesis by simp
  next
    case (User_Timer n)
    then obtain k where "tm_timeout_func (ck_timer (ks_clk s) t) = User_fn k"
      using i by (auto simp: check_inv_def user_timers_ok_def)
    with r h' show ?thesis by (auto simp: run_timeout_def Let_def inert_def clear_activated_def split: if_splits)
  qed
qed

lemma round_frame:
  assumes "timer_round b e inert s s'"
  shows "queue_frame X T s s'"
proof -
  obtain t s1 c where r: "run_timeout inert t (upd_clk (take_expired t (ks_clk s)) s) = Some s1" "s' = upd_clk c s1"
    using assms by (auto simp: timer_round_def)
  have "queue_frame X T (upd_clk (take_expired t (ks_clk s)) s) s1"
    using r(1) unfolding run_timeout_def Let_def inert_def
    by (auto split: timeout_func.splits intro: frame_queue [OF frame_thread_timeout [OF frame_refl]] frame_queue [OF frame_refl])
  then show ?thesis unfolding r(2) by (blast intro: queue_frame_trans queue_frame_clk)
qed

lemma slice_frame:
  assumes "after_slice s s'"
  shows "queue_frame X T s s'"
proof -
  let ?c = "upd_clk ((ks_clk s)\<lparr>ck_tick := ck_tick (ks_clk s) + 1\<rparr>) s"
  obtain t s1 s2 where d: "s1 = upd_thread t (\<lambda>th. th\<lparr>th_remaining_tick := th_remaining_tick th - 1\<rparr>) ?c"
    "s2 = upd_thread t set_yield (upd_thread t (\<lambda>th. th\<lparr>th_remaining_tick := th_init_tick th\<rparr>) s1)"
    "s' = s1 \<or> rt_schedule s2 = Some s'" using assms unfolding after_slice_def Let_def by auto
  have f1: "obj_frame X T ?c s1" unfolding d(1) by (rule frame_upd_thread [OF frame_refl]) simp_all
  have "obj_frame X T ?c s2" unfolding d(2) by (intro frame_upd_thread f1) simp_all
  then have "obj_frame X T ?c s'" using d(3) f1 frame_schedule by blast
  then show ?thesis by (blast intro: queue_frame_trans queue_frame_clk frame_queue)
qed

end
