(* ===== verification/Kernel_Steps.thy ===== *)
theory Kernel_Steps
  imports Kernel_Frame
begin

text \<open>
  The kernel as a transition system: tick interrupts and the calls of the running thread, on all
  semaphores, event sets and mailboxes at once. One invariant holds in every reachable state, and in
  such a state no call or interrupt gets stuck: no assertion of the code fails, no loop runs on.
\<close>

section \<open>Steps\<close>

text \<open>
  What can happen next. A call that waits ends with its thread suspended; the loops of the mailbox calls
  go on with the \<open>Resume\<close> steps when the thread is dispatched again, with the tick their wait began.
\<close>

datatype kaction =
    Tick
  | Yield
  | Sleep u32
  | Sem_Take nat int suspend_flag
  | Sem_Release nat
  | Event_Send nat u32
  | Event_Recv nat u32 u8 int suspend_flag
  | Mb_Send nat u32 int suspend_flag
  | Mb_Send_Resume nat u32 int u32 suspend_flag
  | Mb_Urgent nat u32
  | Mb_Recv nat int suspend_flag
  | Mb_Recv_Resume nat int u32 suspend_flag

fun kexec :: "kaction \<Rightarrow> kstate \<Rightarrow> kstate option" where
  "kexec Tick s = rt_tick_increase inert s"
| "kexec Yield s = map_option snd (rt_thread_yield s)"
| "kexec (Sleep tick) s = map_option snd (rt_thread_sleep tick s)"
| "kexec (Sem_Take i timeout sflag) s = map_option snd (sem_take i timeout sflag s)"
| "kexec (Sem_Release i) s = map_option snd (rt_sem_release i s)"
| "kexec (Event_Send i bits) s = map_option snd (rt_event_send i bits s)"
| "kexec (Event_Recv i bits opt timeout sflag) s = map_option (\<lambda>r. snd (snd r)) (event_recv i bits opt timeout sflag s)"
| "kexec (Mb_Send i v timeout sflag) s = map_option snd (mb_send_wait i v timeout sflag s)"
| "kexec (Mb_Send_Resume i v timeout start sflag) s = map_option snd (mb_send_resume i v timeout start sflag s)"
| "kexec (Mb_Urgent i v) s = map_option snd (rt_mb_urgent i v s)"
| "kexec (Mb_Recv i timeout sflag) s = map_option (\<lambda>r. snd (snd r)) (mb_recv i timeout sflag s)"
| "kexec (Mb_Recv_Resume i timeout start sflag) s = map_option (\<lambda>r. snd (snd r)) (mb_recv_resume i timeout start sflag s)"

text \<open>
  The object of a call must be initialised, the arguments valid, timeouts below half the range of the
  tick counter, and the idle thread must not wait.
\<close>

definition may_wait :: "tid \<Rightarrow> int \<Rightarrow> suspend_flag \<Rightarrow> kstate \<Rightarrow> bool" where
  "may_wait idle timeout sflag s \<longleftrightarrow> timeout_ok timeout \<and> sflag \<noteq> Bad_Suspend_Flag \<and> (timeout = 0 \<or> ks_current s \<noteq> Some idle)"

fun allowed :: "tid \<Rightarrow> kaction \<Rightarrow> kstate \<Rightarrow> bool" where
  "allowed idle Tick s \<longleftrightarrow> True"
| "allowed idle Yield s \<longleftrightarrow> True"
| "allowed idle (Sleep tick) s \<longleftrightarrow> 0 < tick \<and> unat tick < HALF \<and> ks_current s \<noteq> Some idle"
| "allowed idle (Sem_Take i timeout sflag) s \<longleftrightarrow> sem_object (the_sem i s) \<noteq> Obj_Null \<and> may_wait idle timeout sflag s"
| "allowed idle (Sem_Release i) s \<longleftrightarrow> sem_object (the_sem i s) \<noteq> Obj_Null"
| "allowed idle (Event_Send i bits) s \<longleftrightarrow> ev_object (the_event i s) \<noteq> Obj_Null"
| "allowed idle (Event_Recv i bits opt timeout sflag) s \<longleftrightarrow>
     ev_object (the_event i s) \<noteq> Obj_Null \<and> bits \<noteq> 0 \<and> valid_info opt \<and> may_wait idle timeout sflag s"
| "allowed idle (Mb_Send i v timeout sflag) s \<longleftrightarrow> mb_object (the_mb i s) \<noteq> Obj_Null \<and> may_wait idle timeout sflag s"
| "allowed idle (Mb_Send_Resume i v timeout start sflag) s \<longleftrightarrow>
     mb_object (the_mb i s) \<noteq> Obj_Null \<and> may_wait idle timeout sflag s \<and> unat (ck_tick (ks_clk s) - start) < 2 ^ 31"
| "allowed idle (Mb_Urgent i v) s \<longleftrightarrow> mb_object (the_mb i s) \<noteq> Obj_Null"
| "allowed idle (Mb_Recv i timeout sflag) s \<longleftrightarrow> mb_object (the_mb i s) \<noteq> Obj_Null \<and> may_wait idle timeout sflag s"
| "allowed idle (Mb_Recv_Resume i timeout start sflag) s \<longleftrightarrow>
     mb_object (the_mb i s) \<noteq> Obj_Null \<and> may_wait idle timeout sflag s \<and> unat (ck_tick (ks_clk s) - start) < 2 ^ 31"

text \<open>What can be reached, and with how many ticks.\<close>

inductive kreach :: "tid \<Rightarrow> kstate \<Rightarrow> nat \<Rightarrow> kstate \<Rightarrow> bool" for idle s0 where
  start: "kreach idle s0 0 s0"
| step: "kreach idle s0 n s \<Longrightarrow> allowed idle a s \<Longrightarrow> kexec a s = Some s' \<Longrightarrow>
    kreach idle s0 (if a = Tick then Suc n else n) s'"

section \<open>The invariant\<close>

text \<open>
  Threads, queues, clock and timers agree; the running thread is the most urgent one ready; the idle
  thread can run; no thread waits for a semaphore that has tokens, or for event flags that are set; the
  rings of the mailboxes are well formed.
\<close>

definition objects_ok :: "kstate \<Rightarrow> bool" where
  "objects_ok s \<longleftrightarrow> (\<forall>i. sem_object (the_sem i s) \<noteq> Obj_Null \<longrightarrow> sem_inv i s) \<and>
     (\<forall>i. ev_object (the_event i s) \<noteq> Obj_Null \<longrightarrow> event_inv i s) \<and>
     (\<forall>i. mb_object (the_mb i s) \<noteq> Obj_Null \<longrightarrow> mb_inv i s)"

definition sys_inv :: "tid \<Rightarrow> kstate \<Rightarrow> bool" where
  "sys_inv idle s \<longleftrightarrow> kernel_ok s \<and> sys_clk (ks_clk s) \<and> runs_highest s \<and> runnable idle s \<and>
     ks_lock_nest s = 0 \<and> ks_irq_nest s = 0 \<and> objects_ok s"

lemma sys_invD:
  assumes "sys_inv idle s"
  shows "kernel_ok s" "sys_clk (ks_clk s)" "runs_highest s" "runnable idle s" "ks_lock_nest s = 0" "ks_irq_nest s = 0"
    "sem_object (the_sem i s) \<noteq> Obj_Null \<Longrightarrow> sem_inv i s" "ev_object (the_event i s) \<noteq> Obj_Null \<Longrightarrow> event_inv i s"
    "mb_object (the_mb i s) \<noteq> Obj_Null \<Longrightarrow> mb_inv i s"
  using assms unfolding sys_inv_def objects_ok_def by blast+

lemma sys_current:
  assumes "sys_inv idle s"
  obtains t where "ks_current s = Some t" "may_block t s"
proof -
  obtain t where "ks_current s = Some t" "th_state (ks_thread s t) = 3"
    using sys_invD(3) [OF assms] by (auto simp: runs_highest_def)
  with that sys_invD(5,6) [OF assms] show thesis by (simp add: may_block_def)
qed

text \<open>Objects outside the frame keep their invariant.\<close>

lemma frame_objects_ok:
  assumes s: "objects_ok s" and f: "queue_frame X T s s'" and k: "kernel_ok s'"
    and own: "\<And>i. Sem i \<in> X \<Longrightarrow> sem_inv i s'" "\<And>i. Event i \<in> X \<Longrightarrow> event_inv i s'" "\<And>i. Mailbox i \<in> X \<Longrightarrow> mb_inv i s'"
  shows "objects_ok s'"
  unfolding objects_ok_def
proof (intro conjI allI impI)
  have q: "\<forall>t \<in> set (ks_list s' h). t \<in> set (ks_list s h) \<and> same_wait (ks_thread s t) (ks_thread s' t)"
    if "head_obj h = Some ob" "ob \<notin> X" for h ob using f that unfolding queue_frame_def by blast
  fix i
  show "sem_inv i s'" if o: "sem_object (the_sem i s') \<noteq> Obj_Null"
  proof (cases "Sem i \<in> X")
    case False
    then have e: "the_sem i s' = the_sem i s" using f by (simp add: queue_frame_def)
    then have "sem_inv i s" using s o by (simp add: objects_ok_def)
    moreover have "ks_list s (sem_head i) = [] \<Longrightarrow> ks_list s' (sem_head i) = []"
      using q [of "sem_head i" "Sem i"] False by (cases "ks_list s' (sem_head i)") auto
    ultimately show ?thesis using e k unfolding sem_inv_def by auto
  qed (use own in simp)
  show "event_inv i s'" if o: "ev_object (the_event i s') \<noteq> Obj_Null"
  proof (cases "Event i \<in> X")
    case False
    then have e: "the_event i s' = the_event i s" using f by (simp add: queue_frame_def)
    then have "event_inv i s" using s o by (simp add: objects_ok_def)
    moreover have "set (ev_waiters i s') \<subseteq> set (ev_waiters i s)"
      using q [of "ev_head i" "Event i"] False by (fastforce simp: ev_waiters_def same_wait_def)
    ultimately show ?thesis using e k unfolding event_inv_def by auto
  qed (use own in simp)
  show "mb_inv i s'" if o: "mb_object (the_mb i s') \<noteq> Obj_Null"
  proof (cases "Mailbox i \<in> X")
    case False
    then have e: "the_mb i s' = the_mb i s" using f by (simp add: queue_frame_def)
    then have "mb_inv i s" using s o by (simp add: objects_ok_def)
    then show ?thesis using e k unfolding mb_inv_def by simp
  qed (use own in simp)
qed

lemma sys_inv_queues:
  assumes s: "sys_inv idle s" and f: "queue_frame X T s s'" "idle \<notin> T" "sys_clk (ks_clk s')" and k: "kernel_ok s'" and h: "runs_highest s'"
    and own: "\<And>i. Sem i \<in> X \<Longrightarrow> sem_inv i s'" "\<And>i. Event i \<in> X \<Longrightarrow> event_inv i s'" "\<And>i. Mailbox i \<in> X \<Longrightarrow> mb_inv i s'"
  shows "sys_inv idle s'"
proof -
  have "objects_ok s'"
    using frame_objects_ok [OF _ f(1) k own] s by (simp add: sys_inv_def)
  moreover have "runnable idle s'" "ks_lock_nest s' = 0" "ks_irq_nest s' = 0"
    using f s unfolding queue_frame_def sys_inv_def by auto
  ultimately show ?thesis using k h f(3) by (simp add: sys_inv_def)
qed

text \<open>A call keeps the invariant and the tick, and stops the timer of a waiting thread only to let it run.\<close>

definition sys_step :: "tid \<Rightarrow> kstate \<Rightarrow> kstate \<Rightarrow> bool" where
  "sys_step idle s s' \<longleftrightarrow> sys_inv idle s' \<and> ck_tick (ks_clk s') = ck_tick (ks_clk s) \<and> timers_kept {} s s'"

lemma sys_inv_frame:
  assumes s: "sys_inv idle s" and f: "obj_frame X T s s'" "idle \<notin> T" "\<forall>u \<in> T. ks_current s = Some u" and k: "kernel_ok s'" and h: "runs_highest s'"
    and own: "\<And>i. Sem i \<in> X \<Longrightarrow> sem_inv i s'" "\<And>i. Event i \<in> X \<Longrightarrow> event_inv i s'" "\<And>i. Mailbox i \<in> X \<Longrightarrow> mb_inv i s'"
  shows "sys_step idle s s'"
proof -
  have "\<not> tm_activated (ck_timer (ks_clk s) (Thread_Timer u))" if "u \<in> T" for u
  proof
    assume "tm_activated (ck_timer (ks_clk s) (Thread_Timer u))"
    then have "th_suspended (ks_thread s u)" using kernel_okD(3) [OF sys_invD(1) [OF s], of u] by (simp add: thread_timer_ok_def Let_def)
    moreover have "th_state (ks_thread s u) = 3" using sys_invD(3) [OF s] f(3) that by (auto simp: runs_highest_def)
    ultimately show False by (simp add: th_suspended_state)
  qed
  then have "timers_kept {} s s'" using f(1) unfolding obj_frame_def timers_kept_def by blast
  moreover have "sys_clk (ks_clk s')" "ck_tick (ks_clk s') = ck_tick (ks_clk s)" using f(1) sys_invD(2) [OF s] by (simp_all add: obj_frame_def)
  ultimately show ?thesis using sys_inv_queues [OF s frame_queue [OF f(1)] f(2) _ k h own] by (simp add: sys_step_def)
qed

lemma sys_step_refl [simp]: "sys_inv idle s \<Longrightarrow> sys_step idle s s"
  by (simp add: sys_step_def)

text \<open>The end of the wait of \<open>t\<close> in a step: it can run again, and when a tick did it, its time is up.\<close>

definition wait_ends :: "kaction \<Rightarrow> tid \<Rightarrow> kstate \<Rightarrow> kstate \<Rightarrow> bool" where
  "wait_ends a t s s' \<longleftrightarrow> th_state (ks_thread s' t) \<in> {2, 3} \<and>
     (a = Tick \<longrightarrow> th_error (ks_thread s' t) = - RT_ETIMEOUT \<and> due (ck_tick (ks_clk s)) (ks_clk s) (Thread_Timer t) = 1)"

definition waits_watched :: "kaction \<Rightarrow> kstate \<Rightarrow> kstate \<Rightarrow> bool" where
  "waits_watched a s s' \<longleftrightarrow> (\<forall>t. tm_activated (ck_timer (ks_clk s) (Thread_Timer t)) \<longrightarrow>
     ck_timer (ks_clk s') (Thread_Timer t) = ck_timer (ks_clk s) (Thread_Timer t) \<or> wait_ends a t s s')"

lemma timers_kept_watched: "timers_kept {} s s' \<Longrightarrow> a \<noteq> Tick \<Longrightarrow> waits_watched a s s'"
  unfolding timers_kept_def waits_watched_def wait_ends_def runnable_def by blast

text \<open>Changes that the scheduler does not look at.\<close>

lemma runs_highest_same:
  assumes "runs_highest s" "ks_current s' = ks_current s"
    "\<And>u. th_object (ks_thread s' u) = th_object (ks_thread s u) \<and> th_state (ks_thread s' u) = th_state (ks_thread s u) \<and>
       th_current_priority (ks_thread s' u) = th_current_priority (ks_thread s u)"
  shows "runs_highest s'"
  using assms unfolding runs_highest_def by auto

lemma runs_highest_simps [simp]:
  "runs_highest (upd_sem i f s) = runs_highest s" "runs_highest (upd_event i f' s) = runs_highest s"
  "runs_highest (upd_mb i f'' s) = runs_highest s" "runs_highest (upd_thread t (\<lambda>th. th\<lparr>th_error := e\<rparr>) s) = runs_highest s"
  by (auto simp: runs_highest_def upd_sem_def upd_event_def upd_mb_def split: if_splits)

section \<open>Interrupts, yielding and sleeping\<close>

lemma tick_sys:
  assumes s: "sys_inv idle s"
  shows "\<exists>s'. rt_tick_increase inert s = Some s' \<and> sys_inv idle s' \<and> ck_tick (ks_clk s') = ck_tick (ks_clk s) + 1 \<and>
    waits_watched Tick s s'"
proof -
  have ti: "tick_inv s" using sys_clk_tick_inv sys_invD(1,2) [OF s] by blast
  obtain s4 where s4: "rt_tick_increase inert s = rt_timer_check inert s4" "check_inv (ck_tick (ks_clk s)) 1 s4"
    "ks_clk s4 = (ks_clk s)\<lparr>ck_tick := ck_tick (ks_clk s) + 1\<rparr>" "after_slice s s4"
    using rt_tick_increase_split [OF ti] by blast
  obtain s' where s': "rt_timer_check inert s4 = Some s'" "check_post (ck_tick (ks_clk s)) 1 s4 s'"
    "(timer_round (ck_tick (ks_clk s)) 1 inert)\<^sup>*\<^sup>* s4 s'"
    using rt_timer_check_ok [OF s4(2) inert_quiet] by blast
  have ti': "tick_inv s'" and w: "waits_watched Tick s s'"
    using rt_tick_increase_ok [OF ti inert_quiet] s4(1) s'(1) by (auto simp: waits_watched_def wait_ends_def woken_def split: if_splits)
  let ?ok = "\<lambda>u. queue_frame {} {} s u \<and> runs_highest u"
  have "?ok s4"
  proof
    show f: "queue_frame {} {} s s4" by (rule slice_frame [OF s4(4)])
    let ?c = "upd_clk ((ks_clk s)\<lparr>ck_tick := ck_tick (ks_clk s) + 1\<rparr>) s"
    obtain t s1 s2 where d: "s1 = upd_thread t (\<lambda>th. th\<lparr>th_remaining_tick := th_remaining_tick th - 1\<rparr>) ?c"
      "s2 = upd_thread t set_yield (upd_thread t (\<lambda>th. th\<lparr>th_remaining_tick := th_init_tick th\<rparr>) s1)"
      "s4 = s1 \<or> kernel_ok s2 \<and> rt_schedule s2 = Some s4" using s4(4) unfolding after_slice_def Let_def by auto
    have "runs_highest s1" by (rule runs_highest_same [OF sys_invD(3) [OF s]]) (simp_all add: d(1))
    moreover have "runs_highest s4" if "kernel_ok s2" "rt_schedule s2 = Some s4"
      by (rule schedule_runs [OF that(1) _ _ that(2), of idle])
        (use sys_invD(4,5) [OF s] in \<open>auto simp: d(1,2) runnable_def\<close>)
    ultimately show "runs_highest s4" using d(3) by blast
  qed
  with s'(3) have "?ok s'"
  proof (induction rule: rtranclp_induct)
    case (step u v)
    have f: "queue_frame {} {} s v" using step.IH [OF step.prems] round_frame [OF step.hyps(2)] queue_frame_trans by blast
    obtain t ts s1 c where r: "ck_list (ks_clk u) = t # ts" "run_timeout inert t (upd_clk (take_expired t (ks_clk u)) u) = Some s1"
      "v = upd_clk c s1" "check_inv (ck_tick (ks_clk s)) 1 u" using step.hyps(2) by (auto simp: timer_round_def)
    have "runs_highest s1"
      by (rule run_timeout_runs [OF r(4) _ _ _ r(2)])
        (use r(1) step.IH [OF step.prems] sys_invD(5) [OF s] in \<open>auto simp: queue_frame_def\<close>)
    then have "runs_highest v" unfolding r(3) by (simp add: runs_highest_def)
    with f show ?case by blast
  qed
  moreover have "sys_clk (ks_clk s')"
  proof (rule tick_inv_sys_clk [OF ti'], rule allI)
    fix t
    have "tm_periodic (ck_timer (ks_clk s') p) = tm_periodic (ck_timer (ks_clk s4) p)" for p
      using s'(2) by (cases "p \<in> expired (ck_tick (ks_clk s)) 1 (ks_clk s4)") (auto simp: check_post_def)
    with s4(3) sys_invD(2) [OF s] show "\<not> tm_periodic (ck_timer (ks_clk s') (Thread_Timer t))" by (simp add: sys_clk_def)
  qed
  ultimately have "queue_frame {} {} s s'" "sys_clk (ks_clk s')" "runs_highest s'" by simp_all
  moreover have "kernel_ok s'" using ti' by (simp add: tick_inv_def check_inv_def)
  moreover have "ck_tick (ks_clk s') = ck_tick (ks_clk s) + 1" using s'(2) s4(3) by (simp add: check_post_def)
  ultimately show ?thesis using sys_inv_queues [OF s] s4(1) s'(1) w by auto
qed


lemma yield_sys:
  assumes s: "sys_inv idle s"
  shows "\<exists>e s'. rt_thread_yield s = Some (e, s') \<and> sys_step idle s s'"
proof -
  obtain e s' where s': "rt_thread_yield s = Some (e, s')" "kernel_ok s'" "runs_highest s'"
    using yield_spec [OF sys_invD(1) [OF s]] sys_invD(4,5) [OF s] by (auto simp: ok_iff)
  obtain t where t: "rt_schedule (upd_thread t set_yield (upd_thread t (\<lambda>th. th\<lparr>th_remaining_tick := th_init_tick th\<rparr>) s)) = Some s'"
    using s'(1) by (auto simp: rt_thread_yield_def bind_eq_Some_conv Let_def)
  have "obj_frame {} {} s (upd_thread t set_yield (upd_thread t (\<lambda>th. th\<lparr>th_remaining_tick := th_init_tick th\<rparr>) s))"
    by (intro frame_upd_thread frame_refl) simp_all
  from frame_schedule [OF this t] have "sys_step idle s s'" by (rule sys_inv_frame [OF s _ _ _ s'(2,3)]) simp_all
  with s'(1) show ?thesis by blast
qed

text \<open>Somebody besides the caller can run: the idle thread, which does not wait.\<close>

lemma others_run:
  assumes "sys_inv idle s" "ks_current s = Some t" "may_wait idle timeout sflag s" "timeout \<noteq> 0"
  shows "\<exists>u. u \<noteq> t \<and> runnable u s" "idle \<noteq> t"
  using assms sys_invD(4) [OF assms(1)] by (auto simp: may_wait_def)

lemma sleep_sys:
  assumes s: "sys_inv idle s" and a: "allowed idle (Sleep tick) s"
  shows "\<exists>r s'. rt_thread_sleep tick s = Some (r, s') \<and> sys_step idle s s'"
proof -
  obtain t where t: "ks_current s = Some t" "may_block t s" by (rule sys_current [OF s])
  have k: "0 < tick" "unat tick < HALF" "idle \<noteq> t" using a t(1) by auto
  obtain r s' where s': "rt_thread_sleep tick s = Some (r, s')" "kernel_ok s'" "runs_highest s'"
    using sleep_spec [OF sys_invD(1) [OF s] t(2) k(1,2)] sys_invD(4) [OF s] k(3) by (auto simp: ok_iff)
  let ?s1 = "upd_thread t (\<lambda>th. th\<lparr>th_error := RT_EOK\<rparr>) s"
  have f1: "obj_frame {} {t} s ?s1" by (intro frame_upd_thread frame_refl) simp_all
  obtain e s2 where s2: "rt_thread_suspend_with_flag t RT_INTERRUPTIBLE ?s1 = Some (e, s2)"
    "s' = s2 \<or> (\<exists>s3. start_thread_timer t tick s2 = Some s3 \<and>
       rt_schedule (upd_thread t (\<lambda>th. th\<lparr>th_error := - RT_EINTR\<rparr>) s3) = Some s')"
    using s'(1) t(1) k(1) by (auto simp: rt_thread_sleep_def rt_thread_self_def bind_eq_Some_conv Let_def split: if_splits)
  have f2: "obj_frame {} {t} s s2" by (rule frame_suspend [OF f1 s2(1)]) simp
  have "obj_frame {} {t} s s'"
    using s2(2)
  proof (elim disjE exE conjE)
    fix s3 assume s3: "start_thread_timer t tick s2 = Some s3" "rt_schedule (upd_thread t (\<lambda>th. th\<lparr>th_error := - RT_EINTR\<rparr>) s3) = Some s'"
    have "obj_frame {} {t} s s3" by (rule frame_start_timer [OF f2 s3(1)]) (use k in \<open>simp_all add: word_less_nat_alt\<close>)
    then have "obj_frame {} {t} s (upd_thread t (\<lambda>th. th\<lparr>th_error := - RT_EINTR\<rparr>) s3)" by (rule frame_upd_thread) simp_all
    from frame_schedule [OF this s3(2)] show ?thesis .
  qed (use f2 in simp)
  then have "sys_step idle s s'" by (rule sys_inv_frame [OF s _ _ _ s'(2,3)]) (use k(3) t(1) in simp_all)
  with s'(1) show ?thesis by blast
qed

section \<open>Waiting and waking\<close>

text \<open>The caller of a call that waits, its error field reset: what the call leaves.\<close>

lemma block_sys:
  assumes s: "sys_inv idle s" and t: "ks_current s = Some t" and w: "may_wait idle timeout sflag s" "timeout \<noteq> 0"
    and h: "wait_head h" "the (head_obj h) = ob" and fl: "flag \<noteq> Bad_Flag"
    and r: "block_on h t flag sflag timeout (upd_thread t (\<lambda>th. th\<lparr>th_error := - RT_EINTR\<rparr>) s) = Some (r, s')"
  shows "obj_frame {ob} {t} s s'" "runs_highest s'"
proof -
  have to: "timeout_ok timeout" "sflag \<noteq> Bad_Suspend_Flag" using w(1) by (simp_all add: may_wait_def)
  have f1: "obj_frame {ob} {t} s (upd_thread t (\<lambda>th. th\<lparr>th_error := - RT_EINTR\<rparr>) s)"
    by (intro frame_upd_thread frame_refl) simp_all
  show "obj_frame {ob} {t} s s'" by (rule frame_block_on [OF f1 r _ _ to(1)]) (use h in simp_all)
  have "may_block t s" using sys_current [OF s] t by auto
  from block_on_reset [OF sys_invD(1) [OF s] this fl to(2) h(1) to(1)] r
  show "runs_highest s'" using others_run(1) [OF s t w] sys_invD(5) [OF s] by auto
qed

lemma wake_sys:
  assumes k: "kernel_ok s" and h: "wait_head h" and l: "ks_lock_nest s = 0" and e: "runs_highest s"
    and r: "ipc_wake_one h s = Some (e, s')"
  shows "obj_frame X T s s'" "runs_highest s'"
  using frame_wake_one [OF frame_refl r] ipc_wake_one_spec [OF k h] l e r by auto

section \<open>Semaphores\<close>

lemma sem_take_sys:
  assumes s: "sys_inv idle s" and a: "allowed idle (Sem_Take i timeout sflag) s"
  shows "\<exists>r s'. sem_take i timeout sflag s = Some (r, s') \<and> sys_step idle s s'"
proof -
  have o: "sem_object (the_sem i s) \<noteq> Obj_Null" and w: "may_wait idle timeout sflag s" using a by simp_all
  obtain t where t: "ks_current s = Some t" "may_block t s" by (rule sys_current [OF s])
  note si = sys_invD(7) [OF s o]
  obtain r s' where r: "sem_take i timeout sflag s = Some (r, s')" "sem_inv i s'"
    using sem_take_spec [OF si t(2)] w unfolding may_wait_def by blast
  have k: "kernel_ok s'" "sem_flag (the_sem i s) \<noteq> Bad_Flag" using r(2) si by (simp_all add: sem_inv_def)
  consider (take) "s' = upd_sem i (\<lambda>x. x\<lparr>sem_value := sem_value x - 1\<rparr>) s" | (none) "s' = s"
    | (wait) "timeout \<noteq> 0" "block_on (sem_head i) t (sem_flag (the_sem i s)) sflag timeout
        (upd_thread t (\<lambda>th. th\<lparr>th_error := - RT_EINTR\<rparr>) s) = Some (r, s')"
    using r(1) t(1) by (auto simp: sem_take_def rt_thread_self_def bind_eq_Some_conv split: if_splits)
  then have "\<exists>T. idle \<notin> T \<and> (\<forall>u \<in> T. ks_current s = Some u) \<and> obj_frame {Sem i} T s s' \<and> runs_highest s'"
  proof cases
    case wait
    from block_sys [OF s t(1) w wait(1) _ _ k(2) wait(2)] others_run(2) [OF s t(1) w wait(1)] show ?thesis
      by (intro exI [of _ "{t}"]) (simp add: t(1))
  qed (use sys_invD(3) [OF s] in \<open>auto intro!: exI [of _ "{}"] framed\<close>)
  then have "sys_step idle s s'" using sys_inv_frame [OF s _ _ _ k(1)] r(2) by auto
  with r(1) show ?thesis by blast
qed

lemma sem_release_sys:
  assumes s: "sys_inv idle s" and o: "sem_object (the_sem i s) \<noteq> Obj_Null"
  shows "\<exists>e s'. rt_sem_release i s = Some (e, s') \<and> sys_step idle s s'"
proof -
  obtain e s' where r: "rt_sem_release i s = Some (e, s')" "sem_inv i s'"
    using sem_release_spec [OF sys_invD(7) [OF s o]] by blast
  have k: "kernel_ok s'" using r(2) by (simp add: sem_inv_def)
  consider (wake) "ipc_wake_one (sem_head i) s = Some (RT_EOK, s')" | (count) f where "s' = upd_sem i f s" | (full) "s' = s"
    using r(1) by (auto simp: rt_sem_release_def ipc_wake_one_def bind_eq_Some_conv split: if_splits)
  then have "obj_frame {Sem i} {} s s' \<and> runs_highest s'"
  proof cases
    case wake
    from wake_sys [OF sys_invD(1) [OF s] _ sys_invD(5,3) [OF s] wake] show ?thesis by simp
  qed (use sys_invD(3) [OF s] in \<open>auto intro!: framed\<close>)
  then have "sys_step idle s s'" using sys_inv_frame [OF s _ _ _ k] r(2) by auto
  with r(1) show ?thesis by blast
qed


section \<open>Event sets\<close>

lemma event_send_sys:
  assumes s: "sys_inv idle s" and o: "ev_object (the_event i s) \<noteq> Obj_Null"
  shows "\<exists>e s'. rt_event_send i bits s = Some (e, s') \<and> sys_step idle s s'"
proof (cases "bits = 0")
  case True
  with s o show ?thesis by (simp add: rt_event_send_def)
next
  case False
  note ei = sys_invD(8) [OF s o]
  obtain e s' where r: "rt_event_send i bits s = Some (e, s')" "event_inv i s'"
    using event_send_spec [OF ei False] by blast
  have k: "kernel_ok s" "kernel_ok s'" using r(2) s by (simp_all add: event_inv_def sys_inv_def)
  let ?s1 = "upd_event i (\<lambda>x. x\<lparr>ev_set := ev_set x OR bits\<rparr>) s" and ?ts = "ks_list s (ev_head i)"
  have v: "\<forall>t \<in> set ?ts. valid_info (th_event_info (ks_thread ?s1 t))"
    using ei by (auto simp: event_inv_def ev_waiters_def)
  from event_send_loop_spec [of ?s1 i "[]" ?ts False] k(1) v obtain need s2 where
    s2: "event_send_loop i ?ts False ?s1 = Some (RT_EOK, need, s2)" "kernel_ok s2" "\<not> need \<longrightarrow> s2 = ?s1" by auto
  have f2: "obj_frame {Event i} {} s s2"
  proof (rule frame_event_loop [OF _ s2(1)])
    show "obj_frame {Event i} {} s ?s1" by (intro framed) simp_all
    show "t \<notin> set (ks_list s h)" if "t \<in> set ?ts" "head_obj h = Some ob" "ob \<notin> {Event i}" for t h ob
    proof -
      have "h \<noteq> ev_head i" using that(2,3) by auto
      from waiter_facts(3) [OF k(1) that(1) _ this] show ?thesis by simp
    qed
  qed simp
  have "(if need then rt_schedule s2 else Some s2) = Some s'"
    using r(1) o False s2(1) by (auto simp: rt_event_send_def bind_eq_Some_conv)
  then have "obj_frame {Event i} {} s s' \<and> runs_highest s'"
  proof (cases need)
    case True
    have "runnable idle s2" "ks_lock_nest s2 = 0"
      using f2 sys_invD(4,5) [OF s] unfolding obj_frame_def queue_frame_def by auto
    with True \<open>_ = Some s'\<close> f2 show ?thesis
      using schedule_runs [OF s2(2)] frame_schedule [OF f2] by auto
  next
    case False
    with \<open>_ = Some s'\<close> s2(3) have e: "s' = ?s1" "s' = s2" by simp_all
    have "runs_highest s'" unfolding e(1) using sys_invD(3) [OF s] by simp
    with f2 e(2) show ?thesis by simp
  qed
  then have "sys_step idle s s'" using sys_inv_frame [OF s _ _ _ k(2)] r(2) by auto
  with r(1) show ?thesis by blast
qed

lemma event_recv_sys:
  assumes s: "sys_inv idle s" and a: "allowed idle (Event_Recv i bits opt timeout sflag) s"
  shows "\<exists>r got s'. event_recv i bits opt timeout sflag s = Some (r, got, s') \<and> sys_step idle s s'"
proof -
  have o: "ev_object (the_event i s) \<noteq> Obj_Null" and w: "may_wait idle timeout sflag s" "bits \<noteq> 0" "valid_info opt" using a by simp_all
  obtain t where t: "ks_current s = Some t" "may_block t s" by (rule sys_current [OF s])
  note ei = sys_invD(8) [OF s o]
  obtain r got s' where r: "event_recv i bits opt timeout sflag s = Some (r, got, s')" "event_inv i s'"
    using event_recv_spec [OF ei t(2) w(2,3)] w(1) unfolding may_wait_def by blast
  have k: "kernel_ok s" "kernel_ok s'" "ev_flag (the_event i s) \<noteq> Bad_Flag" using r(2) ei by (simp_all add: event_inv_def)
  have un: "t \<notin> set (ks_list s h)" for h
    using running_unlinked [OF kernel_okD(1) [OF k(1)], of t] t(2) by (simp add: may_block_def unlinked_def)
  let ?err = "upd_thread t (\<lambda>th. th\<lparr>th_error := - RT_EINTR\<rparr>) s"
  let ?cond = "\<lambda>b. upd_thread t (\<lambda>th. th\<lparr>th_event_set := b, th_event_info := opt\<rparr>)"
  have cf: "obj_frame {Event i} T s (?cond b s1)" if "obj_frame {Event i} T s s1" for b s1 T
    by (rule frame_upd_unlinked [OF that un]) (simp_all add: th_state_def)
  have ef: "obj_frame {Event i} T s ?err" for T by (intro frame_upd_thread frame_refl) simp_all
  have cr: "runs_highest (?cond b s1) = runs_highest s1" for b s1
    by (auto simp: runs_highest_def th_state_def split: if_splits)
  consider (got) f where "s' = ?cond (ev_set (the_event i s) AND bits) (upd_thread t (\<lambda>th. th\<lparr>th_error := RT_EOK\<rparr>) ?err) \<or>
        s' = upd_event i f (?cond (ev_set (the_event i s) AND bits) (upd_thread t (\<lambda>th. th\<lparr>th_error := RT_EOK\<rparr>) ?err))"
    | (poll) "s' = upd_thread t (\<lambda>th. th\<lparr>th_error := - RT_ETIMEOUT\<rparr>) ?err"
    | (wait) "timeout \<noteq> 0" "block_on (ev_head i) t (ev_flag (the_event i (?cond bits ?err))) sflag timeout (?cond bits ?err) = Some (r, s')"
    using r(1) t(1) w(2) by (auto simp: event_recv_def rt_thread_self_def bind_eq_Some_conv Let_def split: if_splits)
  then have "\<exists>T. idle \<notin> T \<and> (\<forall>u \<in> T. ks_current s = Some u) \<and> obj_frame {Event i} T s s' \<and> runs_highest s'"
  proof cases
    case got
    have "obj_frame {Event i} {} s (?cond b (upd_thread t (\<lambda>th. th\<lparr>th_error := RT_EOK\<rparr>) ?err))" for b
      by (intro cf frame_upd_thread ef) simp_all
    with got sys_invD(3) [OF s] show ?thesis by (intro exI [of _ "{}"]) (auto simp: cr intro: framed)
  next
    case poll
    have "obj_frame {Event i} {} s s'" unfolding poll by (intro frame_upd_thread ef) simp_all
    with poll sys_invD(3) [OF s] show ?thesis by (intro exI [of _ "{}"]) simp
  next
    case wait
    have to: "timeout_ok timeout" "sflag \<noteq> Bad_Suspend_Flag" using w(1) by (simp_all add: may_wait_def)
    note ot = others_run [OF s t(1) w(1) wait(1)]
    have f: "obj_frame {Event i} {t} s s'" by (rule frame_block_on [OF cf [OF ef] wait(2) _ _ to(1)]) simp_all
    have "kernel_ok (?cond bits ?err)"
      by (rule kernel_ok_upd_same [OF upd_error_ok [OF k(1)]]) (simp_all add: th_state_def same_sched_def)
    moreover have "may_block t (?cond bits ?err)" using t(2) by (simp add: may_block_def th_state_def)
    ultimately obtain s2 where "block_on (ev_head i) t (ev_flag (the_event i (?cond bits ?err))) sflag timeout (?cond bits ?err) = Some (Blocked, s2)"
      "ks_lock_nest (?cond bits ?err) = 0 \<longrightarrow> (\<exists>u. u \<noteq> t \<and> runnable u (?cond bits ?err)) \<longrightarrow> runs_highest s2"
      using block_on_spec [of "?cond bits ?err" t "ev_flag (the_event i (?cond bits ?err))" sflag "ev_head i" timeout] to k(3) by auto
    moreover have "\<exists>u. u \<noteq> t \<and> runnable u (?cond bits ?err)" using ot(1) by (auto simp: runnable_def)
    ultimately have "runs_highest s'" using wait(2) sys_invD(5) [OF s] by simp
    with f ot(2) show ?thesis by (intro exI [of _ "{t}"]) (simp add: t(1))
  qed
  then have "sys_step idle s s'" using sys_inv_frame [OF s _ _ _ k(2)] r(2) by auto
  with r(1) show ?thesis by blast
qed

section \<open>Mailboxes\<close>

lemma mb_wake_sys:
  assumes s: "sys_inv idle s" and h: "wait_head h" and r: "ipc_wake_one h (upd_mb i f s) = Some (e, s')"
  shows "obj_frame {Mailbox i} {} s s'" "runs_highest s'"
proof -
  have f1: "obj_frame {Mailbox i} {} s (upd_mb i f s)" by (intro framed) simp_all
  show "obj_frame {Mailbox i} {} s s'" by (rule frame_wake_one [OF f1 r])
  have k: "kernel_ok (upd_mb i f s)" "ks_lock_nest (upd_mb i f s) = 0"
    using sys_invD(1,5) [OF s] by (simp_all add: upd_mb_def)
  have "runs_highest (upd_mb i f s)" using sys_invD(3) [OF s] by simp
  from wake_sys(2) [OF k(1) h k(2) this r] show "runs_highest s'" .
qed

lemma mb_send_loop_sys:
  assumes s: "sys_inv idle s" and o: "mb_object (the_mb i s) \<noteq> Obj_Null" and w: "may_wait idle timeout sflag s"
  shows "\<exists>r s'. mb_send_loop i v timeout sflag s = Some (r, s') \<and> sys_step idle s s'"
proof -
  obtain t where t: "ks_current s = Some t" "may_block t s" by (rule sys_current [OF s])
  note mi = sys_invD(9) [OF s o]
  obtain r s' where r: "mb_send_loop i v timeout sflag s = Some (r, s')" "mb_inv i s'"
    using mb_send_loop_spec [OF mi t(2)] w unfolding may_wait_def by blast
  have k: "kernel_ok s'" "mb_flag (the_mb i s) \<noteq> Bad_Flag" using r(2) mi by (simp_all add: mb_inv_def mb_ok_def)
  let ?err = "upd_thread t (\<lambda>th. th\<lparr>th_error := - RT_EINTR\<rparr>) s"
  consider (poll) "s' = ?err" | (wait) "timeout \<noteq> 0" "block_on (mb_sender_head i) t (mb_flag (the_mb i ?err)) sflag timeout ?err = Some (r, s')"
    | (full) f where "s' = upd_mb i f s" | (sent) f e where "ipc_wake_one (mb_head i) (upd_mb i f s) = Some (e, s')"
    using r(1) t(1) by (fastforce simp: mb_send_loop_def rt_thread_self_def bind_eq_Some_conv Let_def split: if_splits)
  then have "\<exists>T. idle \<notin> T \<and> (\<forall>u \<in> T. ks_current s = Some u) \<and> obj_frame {Mailbox i} T s s' \<and> runs_highest s'"
  proof cases
    case poll
    have "obj_frame {Mailbox i} {} s s'" unfolding poll by (intro frame_upd_thread frame_refl) simp_all
    with poll sys_invD(3) [OF s] show ?thesis by (intro exI [of _ "{}"]) simp
  next
    case wait
    have "mb_flag (the_mb i ?err) \<noteq> Bad_Flag" using k(2) by (simp add: the_mb_def)
    from block_sys [OF s t(1) w wait(1) _ _ this wait(2)] others_run(2) [OF s t(1) w wait(1)] show ?thesis
      by (intro exI [of _ "{t}"]) (simp add: t(1))
  next
    case full
    with sys_invD(3) [OF s] show ?thesis by (auto intro!: exI [of _ "{}"] framed)
  next
    case sent
    from mb_wake_sys [OF s _ sent] show ?thesis by (intro exI [of _ "{}"]) simp
  qed
  then have "sys_step idle s s'" using sys_inv_frame [OF s _ _ _ k(1)] r(2) by auto
  with r(1) show ?thesis by blast
qed

lemma mb_recv_loop_sys:
  assumes s: "sys_inv idle s" and o: "mb_object (the_mb i s) \<noteq> Obj_Null" and w: "may_wait idle timeout sflag s"
  shows "\<exists>r m s'. mb_recv_loop i timeout sflag s = Some (r, m, s') \<and> sys_step idle s s'"
proof -
  obtain t where t: "ks_current s = Some t" "may_block t s" by (rule sys_current [OF s])
  note mi = sys_invD(9) [OF s o]
  obtain r m s' where r: "mb_recv_loop i timeout sflag s = Some (r, m, s')" "mb_inv i s'"
    using mb_recv_loop_spec [OF mi t(2)] w unfolding may_wait_def by blast
  have k: "kernel_ok s'" "mb_flag (the_mb i s) \<noteq> Bad_Flag" using r(2) mi by (simp_all add: mb_inv_def mb_ok_def)
  let ?err = "upd_thread t (\<lambda>th. th\<lparr>th_error := - RT_EINTR\<rparr>) s"
  consider (poll) "s' = upd_thread t (\<lambda>th. th\<lparr>th_error := - RT_ETIMEOUT\<rparr>) ?err"
    | (wait) "timeout \<noteq> 0" "block_on (mb_head i) t (mb_flag (the_mb i ?err)) sflag timeout ?err = Some (r, s')"
    | (got) f e where "ipc_wake_one (mb_sender_head i) (upd_mb i f s) = Some (e, s')"
    using r(1) t(1) by (fastforce simp: mb_recv_loop_def rt_thread_self_def bind_eq_Some_conv Let_def split: if_splits)
  then have "\<exists>T. idle \<notin> T \<and> (\<forall>u \<in> T. ks_current s = Some u) \<and> obj_frame {Mailbox i} T s s' \<and> runs_highest s'"
  proof cases
    case poll
    have "obj_frame {Mailbox i} {} s s'" unfolding poll by (intro frame_upd_thread frame_refl) simp_all
    with poll sys_invD(3) [OF s] show ?thesis by (intro exI [of _ "{}"]) simp
  next
    case wait
    have "mb_flag (the_mb i ?err) \<noteq> Bad_Flag" using k(2) by (simp add: the_mb_def)
    from block_sys [OF s t(1) w wait(1) _ _ this wait(2)] others_run(2) [OF s t(1) w wait(1)] show ?thesis
      by (intro exI [of _ "{t}"]) (simp add: t(1))
  next
    case got
    from mb_wake_sys [OF s _ got] show ?thesis by (intro exI [of _ "{}"]) simp
  qed
  then have "sys_step idle s s'" using sys_inv_frame [OF s _ _ _ k(1)] r(2) by auto
  with r(1) show ?thesis by blast
qed

lemma mb_urgent_sys:
  assumes s: "sys_inv idle s" and o: "mb_object (the_mb i s) \<noteq> Obj_Null"
  shows "\<exists>e s'. rt_mb_urgent i v s = Some (e, s') \<and> sys_step idle s s'"
proof -
  obtain e s' where r: "rt_mb_urgent i v s = Some (e, s')" "mb_inv i s'"
    using mb_urgent_spec [OF sys_invD(9) [OF s o]] by blast
  have k: "kernel_ok s'" using r(2) by (simp add: mb_inv_def)
  consider "s' = s" | f where "ipc_wake_one (mb_head i) (upd_mb i f s) = Some (e, s')"
    using r(1) by (auto simp: rt_mb_urgent_def bind_eq_Some_conv split: if_splits)
  then have "obj_frame {Mailbox i} {} s s' \<and> runs_highest s'"
  proof cases
    case 1
    then show ?thesis using sys_invD(3) [OF s] by (simp add: frame_refl)
  next
    case 2
    from mb_wake_sys [OF s _ 2] show ?thesis by simp
  qed
  then have "sys_step idle s s'" using sys_inv_frame [OF s _ _ _ k] r(2) by auto
  with r(1) show ?thesis by blast
qed

text \<open>What is left of a timeout is a timeout.\<close>

lemma may_wait_remaining:
  assumes "may_wait idle timeout sflag s" "unat (now - start) < 2 ^ 31"
  shows "may_wait idle (remaining_time timeout start now) sflag s"
proof (cases "0 < timeout")
  case True
  have "timeout < 2 ^ 31" using assms(1) by (simp add: may_wait_def timeout_ok_def)
  note r = remaining_time_pos [OF True this assms(2)]
  have "0 \<le> remaining_time timeout start now" "remaining_time timeout start now \<le> timeout"
    unfolding r using True by (simp_all del: of_nat_unat)
  with True assms(1) show ?thesis by (auto simp: may_wait_def timeout_ok_def)
next
  case False
  with assms(1) show ?thesis by (simp add: remaining_time_def)
qed

lemma mb_send_sys:
  assumes s: "sys_inv idle s" and o: "mb_object (the_mb i s) \<noteq> Obj_Null" and w: "may_wait idle timeout sflag s"
  shows "\<exists>r s'. mb_send_wait i v timeout sflag s = Some (r, s') \<and> sys_step idle s s'"
proof (cases "mb_entry (the_mb i s) = mb_size (the_mb i s) \<and> timeout = 0")
  case True
  with mb_send_full [OF sys_invD(9) [OF s o]] s show ?thesis by simp
next
  case False
  obtain t where t: "timeout \<noteq> 0 \<longrightarrow> may_block t s" using sys_current [OF s] by blast
  from mb_send_loop_sys [OF s o w] show ?thesis unfolding mb_send_wait_loop [OF sys_invD(9) [OF s o] t False] .
qed

lemma mb_recv_sys:
  assumes s: "sys_inv idle s" and o: "mb_object (the_mb i s) \<noteq> Obj_Null" and w: "may_wait idle timeout sflag s"
  shows "\<exists>r m s'. mb_recv i timeout sflag s = Some (r, m, s') \<and> sys_step idle s s'"
proof (cases "mb_entry (the_mb i s) = 0 \<and> timeout = 0")
  case True
  with mb_recv_empty [OF sys_invD(9) [OF s o]] s show ?thesis by simp
next
  case False
  obtain t where t: "timeout \<noteq> 0 \<longrightarrow> may_block t s" using sys_current [OF s] by blast
  from mb_recv_loop_sys [OF s o w] show ?thesis unfolding mb_recv_wait_loop [OF sys_invD(9) [OF s o] t False] .
qed

lemma mb_resume_sys:
  assumes s: "sys_inv idle s" and o: "mb_object (the_mb i s) \<noteq> Obj_Null" and w: "may_wait idle timeout sflag s"
    and n: "unat (ck_tick (ks_clk s) - start) < 2 ^ 31"
  shows "\<exists>r s'. mb_send_resume i v timeout start sflag s = Some (r, s') \<and> sys_step idle s s'"
    "\<exists>r m s'. mb_recv_resume i timeout start sflag s = Some (r, m, s') \<and> sys_step idle s s'"
proof -
  obtain t where t: "ks_current s = Some t" by (rule sys_current [OF s])
  note w' = may_wait_remaining [OF w n]
  show "\<exists>r s'. mb_send_resume i v timeout start sflag s = Some (r, s') \<and> sys_step idle s s'"
    using mb_send_loop_sys [OF s o w'] s t by (simp add: mb_send_resume_def rt_thread_self_def)
  show "\<exists>r m s'. mb_recv_resume i timeout start sflag s = Some (r, m, s') \<and> sys_step idle s s'"
    using mb_recv_loop_sys [OF s o w'] s t by (simp add: mb_recv_resume_def rt_thread_self_def)
qed

section \<open>All steps\<close>

text \<open>Progress and preservation, step by step.\<close>

lemma kexec_sys:
  assumes "sys_inv idle s" "allowed idle a s"
  shows "\<exists>s'. kexec a s = Some s' \<and> sys_inv idle s' \<and>
    ck_tick (ks_clk s') = ck_tick (ks_clk s) + (if a = Tick then 1 else 0) \<and> waits_watched a s s'"
proof (cases a)
  case Tick
  then show ?thesis using tick_sys [OF assms(1)] by simp
next
  case Yield
  then show ?thesis using yield_sys [OF assms(1)] by (auto simp: sys_step_def timers_kept_watched)
next
  case (Sleep tick)
  then show ?thesis using sleep_sys [OF assms(1) assms(2) [unfolded Sleep]] by (auto simp: sys_step_def timers_kept_watched)
next
  case (Sem_Take i timeout sflag)
  then show ?thesis using sem_take_sys [OF assms(1)] assms(2) by (fastforce simp: sys_step_def timers_kept_watched)
next
  case (Sem_Release i)
  then show ?thesis using sem_release_sys [OF assms(1)] assms(2) by (fastforce simp: sys_step_def timers_kept_watched)
next
  case (Event_Send i bits)
  then show ?thesis using event_send_sys [OF assms(1)] assms(2) by (fastforce simp: sys_step_def timers_kept_watched)
next
  case (Event_Recv i bits opt timeout sflag)
  then show ?thesis using event_recv_sys [OF assms(1)] assms(2) by (fastforce simp: sys_step_def timers_kept_watched)
next
  case (Mb_Send i v timeout sflag)
  then show ?thesis using mb_send_sys [OF assms(1)] assms(2) by (fastforce simp: sys_step_def timers_kept_watched)
next
  case (Mb_Send_Resume i v timeout start sflag)
  then show ?thesis using mb_resume_sys(1) [OF assms(1)] assms(2) by (fastforce simp: sys_step_def timers_kept_watched)
next
  case (Mb_Urgent i v)
  then show ?thesis using mb_urgent_sys [OF assms(1)] assms(2) by (fastforce simp: sys_step_def timers_kept_watched)
next
  case (Mb_Recv i timeout sflag)
  then show ?thesis using mb_recv_sys [OF assms(1)] assms(2) by (fastforce simp: sys_step_def timers_kept_watched)
next
  case (Mb_Recv_Resume i timeout start sflag)
  then show ?thesis using mb_resume_sys(2) [OF assms(1)] assms(2) by (fastforce simp: sys_step_def timers_kept_watched)
qed

lemma kreach_sys:
  assumes "kreach idle s0 n s" "sys_inv idle s0"
  shows "sys_inv idle s \<and> ck_tick (ks_clk s) = ck_tick (ks_clk s0) + word_of_nat n"
  using assms
proof (induction rule: kreach.induct)
  case (step n s a s')
  with kexec_sys [of idle s a] show ?case by (auto simp: add.assoc add.commute)
qed simp

section \<open>A sample\<close>

lemma sample_sys_inv: "sys_inv 0 sample_kernel"
proof -
  have "tick_inv sample_kernel"
    using sample_check_inv by (auto simp: tick_inv_def sample_kernel_def sample_clk_def sample_timer_def
        tm_activated_def RT_TIMER_FLAG_ACTIVATED_def split: tmid.splits)
  then have "sys_clk (ks_clk sample_kernel)"
    by (rule tick_inv_sys_clk)
      (simp add: sample_kernel_def sample_clk_def sample_timer_def tm_periodic_def RT_TIMER_FLAG_PERIODIC_def)
  moreover have "objects_ok sample_kernel"
    using sample_kernel_kernel_ok by (simp add: objects_ok_def sem_inv_def event_inv_def mb_inv_def mb_ok_def
        ev_waiters_def the_sem_def the_event_def the_mb_def sample_kernel_def sample_ipc_def)
  moreover have "runs_highest sample_kernel" "runnable 0 sample_kernel"
    by (auto simp: runs_highest_def runnable_def sample_kernel_def sample_thread_def no_thread_def th_state_def)
  ultimately show ?thesis using sample_kernel_kernel_ok
    by (simp add: sys_inv_def) (simp add: sample_kernel_def)
qed

text \<open>The running thread waits for semaphore 7 for 10 ticks, then the tick interrupt comes.\<close>

definition sample_wait :: kaction where
  "sample_wait = Sem_Take 7 10 RT_UNINTERRUPTIBLE"

lemma sample_allowed: "allowed 0 sample_wait sample_kernel"
  by (simp add: sample_wait_def may_wait_def timeout_ok_def the_sem_def sample_kernel_def sample_ipc_def)

lemma sample_reach:
  assumes "kexec sample_wait sample_kernel = Some s"
  shows "kreach 0 sample_kernel 0 s"
  using kreach.step [OF kreach.start sample_allowed assms] by (simp add: sample_wait_def)

text \<open>A deadline lies ahead of the tick counter, however often the counter wraps.\<close>

lemma deadline_ahead:
  assumes "sys_clk c" "sys_clk c'" "ck_tick c' = ck_tick c + word_of_nat n" "n < HALF"
    and "tm_activated (ck_timer c p)" "tm_activated (ck_timer c' p)" "tm_timeout_tick (ck_timer c' p) = tm_timeout_tick (ck_timer c p)"
  shows "n < due (ck_tick c) c p"
proof (rule ccontr)
  let ?d = "tm_timeout_tick (ck_timer c p) - ck_tick c"
  assume "\<not> ?thesis"
  then have le: "unat ?d \<le> n" by (simp add: due_def)
  have e: "tm_timeout_tick (ck_timer c p) - ck_tick c' = ?d - word_of_nat n" using assms(3) by simp
  have "0 < due (ck_tick c') c' p" "due (ck_tick c') c' p < HALF"
    using assms(2,6) by (simp_all add: sys_clk_def timers_ok_def)
  then have d: "0 < unat (?d - word_of_nat n)" "unat (?d - word_of_nat n) < HALF"
    unfolding due_def assms(7) e by simp_all
  have n: "unat (word_of_nat n :: u32) = n" using assms(4) by (simp add: unsigned_of_nat take_bit_nat_eq_self)
  show False
  proof (cases "unat ?d = n")
    case True
    have "word_of_nat (unat ?d) = ?d" by simp
    with d(1) show ?thesis unfolding True by simp
  next
    case False
    with le have "unat (?d - word_of_nat n) = unat ?d + 2 ^ 32 - n"
      by (subst unat_sub_if') (simp add: n)
    with d(2) assms(4) le show ?thesis by simp
  qed
qed

text \<open>Ticks can always come.\<close>

lemma kreach_ticks:
  assumes "sys_inv idle s"
  shows "\<exists>s'. kreach idle s n s'"
proof (induction n)
  case 0
  show ?case by (blast intro: kreach.start)
next
  case (Suc n)
  then obtain s1 where s1: "kreach idle s n s1" by blast
  then obtain s2 where "kexec Tick s1 = Some s2" using tick_sys kreach_sys [OF _ assms] by force
  from kreach.step [OF s1 _ this] show ?case by auto
qed

section \<open>Timed waits\<close>

text \<open>A timer that is as it was has its deadline ahead, as far as the ticks since then leave.\<close>

lemma timer_still_runs:
  assumes "sys_inv idle s" "kreach idle s n s'" "n < HALF" "tm_activated (ck_timer (ks_clk s) (Thread_Timer t))"
    and "ck_timer (ks_clk s') (Thread_Timer t) = ck_timer (ks_clk s) (Thread_Timer t)"
  shows "n < due (ck_tick (ks_clk s)) (ks_clk s) (Thread_Timer t)" "th_suspended (ks_thread s' t)"
    "due (ck_tick (ks_clk s')) (ks_clk s') (Thread_Timer t) = due (ck_tick (ks_clk s)) (ks_clk s) (Thread_Timer t) - n"
proof -
  have i': "sys_inv idle s'" "ck_tick (ks_clk s') = ck_tick (ks_clk s) + word_of_nat n" using kreach_sys [OF assms(2,1)] by simp_all
  show n: "n < due (ck_tick (ks_clk s)) (ks_clk s) (Thread_Timer t)"
    by (rule deadline_ahead [OF sys_invD(2) [OF assms(1)] sys_invD(2) [OF i'(1)] i'(2) assms(3,4)]) (simp_all add: assms(4,5))
  show "th_suspended (ks_thread s' t)"
    using kernel_okD(3) [OF sys_invD(1) [OF i'(1)], of t] assms(4,5) by (simp add: thread_timer_ok_def Let_def)
  show "due (ck_tick (ks_clk s')) (ks_clk s') (Thread_Timer t) = due (ck_tick (ks_clk s)) (ks_clk s) (Thread_Timer t) - n"
    by (rule due_advance [OF i'(2) assms(5)]) (use n in simp)
qed

text \<open>In a run of \<open>n\<close> ticks the wait of \<open>t\<close> ends in the step \<open>a\<close> from \<open>s1\<close> to \<open>s2\<close>, \<open>m\<close> ticks on.\<close>

definition wait_end_at :: "tid \<Rightarrow> tid \<Rightarrow> kstate \<Rightarrow> nat \<Rightarrow> kstate \<Rightarrow> nat \<Rightarrow> kaction \<Rightarrow> kstate \<Rightarrow> kstate \<Rightarrow> bool" where
  "wait_end_at idle t s n s' m a s1 s2 \<longleftrightarrow> kreach idle s m s1 \<and> m < due (ck_tick (ks_clk s)) (ks_clk s) (Thread_Timer t) \<and>
     th_suspended (ks_thread s1 t) \<and> allowed idle a s1 \<and> kexec a s1 = Some s2 \<and> th_state (ks_thread s2 t) \<in> {2, 3} \<and>
     (a = Tick \<longrightarrow> th_error (ks_thread s2 t) = - RT_ETIMEOUT \<and> Suc m = due (ck_tick (ks_clk s)) (ks_clk s) (Thread_Timer t)) \<and>
     (if a = Tick then Suc m else m) \<le> n \<and> kreach idle s2 (n - (if a = Tick then Suc m else m)) s'"

lemma timed_wait_run:
  assumes "kreach idle s n s'" "sys_inv idle s" "n < HALF" "tm_activated (ck_timer (ks_clk s) (Thread_Timer t))"
  shows "(\<exists>m a s1 s2. wait_end_at idle t s n s' m a s1 s2) \<or> ck_timer (ks_clk s') (Thread_Timer t) = ck_timer (ks_clk s) (Thread_Timer t)"
  using assms
proof (induction rule: kreach.induct)
  case (step n s1 a s2)
  let ?n = "if a = Tick then Suc n else n" and ?d = "due (ck_tick (ks_clk s)) (ks_clk s) (Thread_Timer t)"
  have n: "n < HALF" using step.prems(2) by (auto split: if_splits)
  consider (ended) m b u v where "wait_end_at idle t s n s1 m b u v"
    | (running) "ck_timer (ks_clk s1) (Thread_Timer t) = ck_timer (ks_clk s) (Thread_Timer t)"
    using step.IH [OF step.prems(1) n step.prems(3)] by blast
  then show ?case
  proof cases
    case ended
    let ?m = "if b = Tick then Suc m else m"
    have "kreach idle v (n - ?m) s1" "?m \<le> n" using ended by (simp_all add: wait_end_at_def)
    moreover from this have "(if a = Tick then Suc (n - ?m) else n - ?m) = ?n - ?m" by auto
    ultimately have "kreach idle v (?n - ?m) s2" "?m \<le> ?n" using kreach.step [OF _ step.hyps(2,3)] by (metis, metis le_SucI)
    with ended have "wait_end_at idle t s ?n s2 m b u v" by (simp add: wait_end_at_def)
    then show ?thesis by blast
  next
    case running
    note r = timer_still_runs [OF step.prems(1) step.hyps(1) n step.prems(3) running]
    have i: "sys_inv idle s1" using kreach_sys [OF step.hyps(1) step.prems(1)] by simp
    have act: "tm_activated (ck_timer (ks_clk s1) (Thread_Timer t))" using running step.prems(3) by simp
    have "waits_watched a s1 s2" using kexec_sys [OF i step.hyps(2)] step.hyps(3) by auto
    with act consider "ck_timer (ks_clk s2) (Thread_Timer t) = ck_timer (ks_clk s1) (Thread_Timer t)" | "wait_ends a t s1 s2"
      unfolding waits_watched_def by blast
    then show ?thesis
    proof cases
      case 1
      with running show ?thesis by simp
    next
      case 2
      have "a = Tick \<longrightarrow> Suc n = ?d" using 2 r(1,3) by (auto simp: wait_ends_def)
      moreover have "kreach idle s2 0 s2" by (rule kreach.start)
      ultimately have "wait_end_at idle t s ?n s2 n a s1 s2"
        using 2 r step.hyps by (simp add: wait_end_at_def wait_ends_def)
      then show ?thesis by blast
    qed
  qed
qed simp

section \<open>Properties\<close>

text \<open>
  C1: In every state that the kernel can reach by tick interrupts, yields, sleeps and calls on
  semaphores, event sets and mailboxes in any order, every further interrupt or admissible call
  returns: no assertion fails, no pointer is missing, no loop runs on; and the state it leaves is
  well formed again.
\<close>
theorem kernel_never_gets_stuck:
  assumes "sys_inv idle s0" "kreach idle s0 n s" "allowed idle a s"
  shows "\<exists>s'. kexec a s = Some s' \<and> sys_inv idle s' \<and> kreach idle s0 (if a = Tick then Suc n else n) s'"
proof -
  obtain s' where "kexec a s = Some s'" "sys_inv idle s'"
    using kexec_sys assms(3) kreach_sys [OF assms(2,1)] by blast
  with kreach.step [OF assms(2,3)] show ?thesis by blast
qed

theorem kernel_never_gets_stuck_witness:
  "\<exists>s1 s2. kexec sample_wait sample_kernel = Some s1 \<and> kexec Tick s1 = Some s2 \<and> sys_inv 0 s2"
  using kernel_never_gets_stuck [OF sample_sys_inv kreach.start sample_allowed]
    kernel_never_gets_stuck [OF sample_sys_inv sample_reach, of _ Tick] by auto

text \<open>
  C2: In every reachable state the running thread is the most urgent thread that can run, threads on
  wait queues are suspended and wait on one queue only, no thread waits on a semaphore that has
  tokens or for event flags that are set, and an active thread timer belongs to a suspended thread
  and has a deadline ahead.
\<close>
theorem reachable_states_keep_the_waiting_rules:
  assumes "sys_inv idle s0" "kreach idle s0 n s"
  shows "(\<exists>c. ks_current s = Some c \<and> th_state (ks_thread s c) = RT_THREAD_RUNNING \<and>
      (\<forall>t. th_object (ks_thread s t) \<noteq> Obj_Null \<longrightarrow> th_state (ks_thread s t) = RT_THREAD_READY \<longrightarrow>
         th_current_priority (ks_thread s c) \<le> th_current_priority (ks_thread s t))) \<and>
    (\<forall>h t. wait_head h \<longrightarrow> t \<in> set (ks_list s h) \<longrightarrow> th_suspended (ks_thread s t) \<and> (\<forall>k. t \<in> set (ks_list s k) \<longrightarrow> k = h)) \<and>
    (\<forall>i. sem_object (the_sem i s) \<noteq> Obj_Null \<longrightarrow> ks_list s (sem_head i) \<noteq> [] \<longrightarrow> sem_value (the_sem i s) = 0) \<and>
    (\<forall>i. ev_object (the_event i s) \<noteq> Obj_Null \<longrightarrow> (\<forall>(t, bits, info) \<in> set (ev_waiters i s). \<not> satisfied bits info (ev_set (the_event i s)))) \<and>
    (\<forall>t. tm_activated (ck_timer (ks_clk s) (Thread_Timer t)) \<longrightarrow>
       th_suspended (ks_thread s t) \<and> 0 < due (ck_tick (ks_clk s)) (ks_clk s) (Thread_Timer t))"
proof -
  note i = sys_invD [OF conjunct1 [OF kreach_sys [OF assms(2,1)]]]
  have "th_suspended (ks_thread s t)" "\<forall>k. t \<in> set (ks_list s k) \<longrightarrow> k = h" if "wait_head h" "t \<in> set (ks_list s h)" for h t
    using waiter_facts(2,3) [OF i(1) that(2,1)] by blast+
  moreover have "ks_list s (sem_head j) \<noteq> [] \<longrightarrow> sem_value (the_sem j s) = 0" if "sem_object (the_sem j s) \<noteq> Obj_Null" for j
    using i(7) [OF that] by (auto simp: sem_inv_def)
  moreover have "\<forall>(t, bits, info) \<in> set (ev_waiters j s). \<not> satisfied bits info (ev_set (the_event j s))"
    if "ev_object (the_event j s) \<noteq> Obj_Null" for j
    using i(8) [OF that] by (auto simp: event_inv_def)
  moreover have "th_suspended (ks_thread s t) \<and> 0 < due (ck_tick (ks_clk s)) (ks_clk s) (Thread_Timer t)"
    if "tm_activated (ck_timer (ks_clk s) (Thread_Timer t))" for t
    using kernel_okD(3) [OF i(1), of t] i(2) that by (simp add: thread_timer_ok_def sys_clk_def Let_def)
  ultimately show ?thesis using i(3) unfolding runs_highest_def by blast
qed

theorem reachable_states_keep_the_waiting_rules_witness:
  "\<exists>s c. kexec sample_wait sample_kernel = Some s \<and> ks_current s = Some c \<and> th_state (ks_thread s c) = RT_THREAD_RUNNING"
proof -
  obtain s where s: "kexec sample_wait sample_kernel = Some s" using kexec_sys [OF sample_sys_inv sample_allowed] by blast
  from reachable_states_keep_the_waiting_rules [OF sample_sys_inv sample_reach [OF s]] s show ?thesis by blast
qed

text \<open>
  C6: Every timed wait ends in time: if the timer of a thread runs in a reachable state, then in every run from there that has as many ticks
  as its deadline is away, whatever else happens in it, there is a step, no later than that tick, at which the thread, suspended until
  then, can run again; either a call has ended its wait before, or the tick interrupt does it with -RT_ETIMEOUT, and then exactly at
  its deadline.
\<close>
theorem timed_waits_end:
  assumes "sys_inv idle s" "kreach idle s n s'" "n < HALF"
    and "tm_activated (ck_timer (ks_clk s) (Thread_Timer t))" "due (ck_tick (ks_clk s)) (ks_clk s) (Thread_Timer t) \<le> n"
  shows "\<exists>m a s1 s2. kreach idle s m s1 \<and> m < due (ck_tick (ks_clk s)) (ks_clk s) (Thread_Timer t) \<and> th_suspended (ks_thread s1 t) \<and>
    allowed idle a s1 \<and> kexec a s1 = Some s2 \<and> th_state (ks_thread s2 t) \<in> {2, 3} \<and>
    (a = Tick \<longrightarrow> th_error (ks_thread s2 t) = - RT_ETIMEOUT \<and> Suc m = due (ck_tick (ks_clk s)) (ks_clk s) (Thread_Timer t)) \<and>
    kreach idle s2 (n - (if a = Tick then Suc m else m)) s'"
proof -
  from timed_wait_run [OF assms(2,1,3,4)] consider "\<exists>m a s1 s2. wait_end_at idle t s n s' m a s1 s2"
    | "ck_timer (ks_clk s') (Thread_Timer t) = ck_timer (ks_clk s) (Thread_Timer t)" by blast
  then show ?thesis
  proof cases
    case 1
    then show ?thesis unfolding wait_end_at_def by blast
  next
    case 2
    with timer_still_runs [OF assms(1-4)] assms(5) show ?thesis by simp
  qed
qed

theorem timed_waits_end_witness:
  "\<exists>s m a s1 s2. kexec sample_wait sample_kernel = Some s \<and> tm_activated (ck_timer (ks_clk s) (Thread_Timer 1)) \<and>
     kreach 0 s m s1 \<and> th_suspended (ks_thread s1 1) \<and> kexec a s1 = Some s2 \<and> th_state (ks_thread s2 1) \<in> {2, 3}"
proof -
  have a: "sem_abs 7 sample_kernel = (0, [])"
    by (simp add: sem_abs_def the_sem_def sample_kernel_def sample_ipc_def)
  obtain s where s: "kexec sample_wait sample_kernel = Some s" "tm_activated (ck_timer (ks_clk s) (Thread_Timer 1))"
    using sem_take_spec [OF sample_sem_inv sample_may_block _ sample_timeout, of RT_UNINTERRUPTIBLE]
    unfolding a by (auto simp: sample_wait_def enqueued_def)
  have i: "sys_inv 0 s" using kreach_sys [OF sample_reach [OF s(1)] sample_sys_inv] by simp
  obtain s' where s': "kreach 0 s (HALF - 1) s'" using kreach_ticks [OF i] by blast
  have "due (ck_tick (ks_clk s)) (ks_clk s) (Thread_Timer 1) < HALF"
    using sys_invD(2) [OF i] s(2) by (simp add: sys_clk_def timers_ok_def)
  then have "due (ck_tick (ks_clk s)) (ks_clk s) (Thread_Timer 1) \<le> HALF - 1" by simp
  from timed_waits_end [OF i s' _ s(2) this] s show ?thesis by auto
qed

end
