(* ===== verification/Kservice_Memory.thy ===== *)
theory Kservice_Memory
  imports Prelude
begin

text \<open>
  The memory functions of the kernel library (\<open>src/kservice.c\<close>), as built without
  \<open>RT_KSERVICE_USING_TINY_SIZE\<close>: the word-wise loops of \<open>rt_memcpy\<close> and \<open>rt_memset\<close> with their tests of
  size and alignment, \<open>rt_memmove\<close> and \<open>rt_memcmp\<close>. Memory is a partial map from addresses to bytes; a
  load or store outside of it is a fault (\<open>None\<close>), so a result shows that no byte outside of the buffers
  was touched. Addresses are natural numbers: an object never wraps round the address space.
\<close>

section \<open>Memory\<close>

type_synonym memory = "nat \<rightharpoonup> u8"

definition load :: "nat \<Rightarrow> memory \<Rightarrow> u8 option" where
  "load a m = m a"

definition store :: "nat \<Rightarrow> u8 \<Rightarrow> memory \<Rightarrow> memory option" where
  "store a v m = (if m a = None then None else Some (m(a \<mapsto> v)))"

text \<open>A \<open>long\<close> of the little-endian 32-bit target.\<close>

definition bytes_word :: "u8 \<Rightarrow> u8 \<Rightarrow> u8 \<Rightarrow> u8 \<Rightarrow> u32" where
  "bytes_word b0 b1 b2 b3 = ucast b0 OR push_bit 8 (ucast b1) OR push_bit 16 (ucast b2) OR push_bit 24 (ucast b3)"

definition load32 :: "nat \<Rightarrow> memory \<Rightarrow> u32 option" where
  "load32 a m = do {
     b0 \<leftarrow> load a m; b1 \<leftarrow> load (a + 1) m; b2 \<leftarrow> load (a + 2) m; b3 \<leftarrow> load (a + 3) m;
     Some (bytes_word b0 b1 b2 b3)
   }"

definition store32 :: "nat \<Rightarrow> u32 \<Rightarrow> memory \<Rightarrow> memory option" where
  "store32 a w m = do {
     m \<leftarrow> store a (ucast w) m;
     m \<leftarrow> store (a + 1) (ucast (drop_bit 8 w)) m;
     m \<leftarrow> store (a + 2) (ucast (drop_bit 16 w)) m;
     store (a + 3) (ucast (drop_bit 24 w)) m
   }"

text \<open>\<open>sizeof (long)\<close> and four times that.\<close>

abbreviation (input) LITTLEBLOCKSIZE :: nat where "LITTLEBLOCKSIZE \<equiv> 4"
abbreviation (input) BIGBLOCKSIZE :: nat where "BIGBLOCKSIZE \<equiv> 16"

definition UNALIGNED :: "nat \<Rightarrow> bool" where
  "UNALIGNED a \<longleftrightarrow> a mod LITTLEBLOCKSIZE \<noteq> 0"

section \<open>Operations\<close>

definition copy_word :: "nat \<Rightarrow> nat \<Rightarrow> memory \<Rightarrow> memory option" where
  "copy_word dst src m = do { w \<leftarrow> load32 src m; store32 dst w m }"

text \<open>The loops take and return the pointers and the length that is left.\<close>

fun memcpy_big :: "nat \<Rightarrow> nat \<Rightarrow> nat \<Rightarrow> memory \<Rightarrow> (nat \<times> nat \<times> nat \<times> memory) option" where
  "memcpy_big dst src len m =
     (if BIGBLOCKSIZE \<le> len
      then do {
        m \<leftarrow> copy_word dst src m;
        m \<leftarrow> copy_word (dst + 4) (src + 4) m;
        m \<leftarrow> copy_word (dst + 8) (src + 8) m;
        m \<leftarrow> copy_word (dst + 12) (src + 12) m;
        memcpy_big (dst + 16) (src + 16) (len - BIGBLOCKSIZE) m
      }
      else Some (dst, src, len, m))"

fun memcpy_little :: "nat \<Rightarrow> nat \<Rightarrow> nat \<Rightarrow> memory \<Rightarrow> (nat \<times> nat \<times> nat \<times> memory) option" where
  "memcpy_little dst src len m =
     (if LITTLEBLOCKSIZE \<le> len
      then do {
        m \<leftarrow> copy_word dst src m;
        memcpy_little (dst + 4) (src + 4) (len - LITTLEBLOCKSIZE) m
      }
      else Some (dst, src, len, m))"

primrec copy_up :: "nat \<Rightarrow> nat \<Rightarrow> nat \<Rightarrow> memory \<Rightarrow> memory option" where
  "copy_up 0 dst src m = Some m"
| "copy_up (Suc n) dst src m = do { c \<leftarrow> load src m; m \<leftarrow> store dst c m; copy_up n (dst + 1) (src + 1) m }"

primrec copy_down :: "nat \<Rightarrow> nat \<Rightarrow> nat \<Rightarrow> memory \<Rightarrow> memory option" where
  "copy_down 0 dst src m = Some m"
| "copy_down (Suc n) dst src m = do { c \<leftarrow> load (src - 1) m; m \<leftarrow> store (dst - 1) c m; copy_down n (dst - 1) (src - 1) m }"

definition rt_memcpy :: "nat \<Rightarrow> nat \<Rightarrow> nat \<Rightarrow> memory \<Rightarrow> (nat \<times> memory) option" where
  "rt_memcpy dst src count m = do {
     (d, s, len, m) \<leftarrow>
       (if \<not> count < BIGBLOCKSIZE \<and> \<not> (UNALIGNED src \<or> UNALIGNED dst)
        then do {
          (d, s, len, m) \<leftarrow> memcpy_big dst src count m;
          memcpy_little d s len m
        }
        else Some (dst, src, count, m));
     m \<leftarrow> copy_up len d s m;
     Some (dst, m)
   }"

definition rt_memmove :: "nat \<Rightarrow> nat \<Rightarrow> nat \<Rightarrow> memory \<Rightarrow> (nat \<times> memory) option" where
  "rt_memmove dest src n m = do {
     m \<leftarrow> (if src < dest \<and> dest < src + n then copy_down n (dest + n) (src + n) m else copy_up n dest src m);
     Some (dest, m)
   }"

fun memset_big :: "nat \<Rightarrow> u32 \<Rightarrow> nat \<Rightarrow> memory \<Rightarrow> (nat \<times> nat \<times> memory) option" where
  "memset_big a buffer count m =
     (if LITTLEBLOCKSIZE * 4 \<le> count
      then do {
        m \<leftarrow> store32 a buffer m;
        m \<leftarrow> store32 (a + 4) buffer m;
        m \<leftarrow> store32 (a + 8) buffer m;
        m \<leftarrow> store32 (a + 12) buffer m;
        memset_big (a + 16) buffer (count - 4 * LITTLEBLOCKSIZE) m
      }
      else Some (a, count, m))"

fun memset_little :: "nat \<Rightarrow> u32 \<Rightarrow> nat \<Rightarrow> memory \<Rightarrow> (nat \<times> nat \<times> memory) option" where
  "memset_little a buffer count m =
     (if LITTLEBLOCKSIZE \<le> count
      then do {
        m \<leftarrow> store32 a buffer m;
        memset_little (a + 4) buffer (count - LITTLEBLOCKSIZE) m
      }
      else Some (a, count, m))"

primrec memset_bytes :: "nat \<Rightarrow> nat \<Rightarrow> u8 \<Rightarrow> memory \<Rightarrow> memory option" where
  "memset_bytes 0 a d m = Some m"
| "memset_bytes (Suc n) a d m = do { m \<leftarrow> store a d m; memset_bytes n (a + 1) d m }"

definition rt_memset :: "nat \<Rightarrow> int \<Rightarrow> nat \<Rightarrow> memory \<Rightarrow> (nat \<times> memory) option" where
  "rt_memset s c count m = do {
     let d = (word_of_int c :: u8);
     (a, len, m) \<leftarrow>
       (if \<not> count < LITTLEBLOCKSIZE \<and> \<not> UNALIGNED s
        then do {
          let buffer = bytes_word d d d d;
          (a, len, m) \<leftarrow> memset_big s buffer count m;
          memset_little a buffer len m
        }
        else Some (s, count, m));
     m \<leftarrow> memset_bytes len a d m;
     Some (s, m)
   }"

primrec rt_memcmp :: "nat \<Rightarrow> nat \<Rightarrow> nat \<Rightarrow> memory \<Rightarrow> int option" where
  "rt_memcmp 0 cs ct m = Some 0"
| "rt_memcmp (Suc count) cs ct m = do {
     x \<leftarrow> load cs m;
     y \<leftarrow> load ct m;
     let res = int (unat x) - int (unat y);
     if res \<noteq> 0 then Some res else rt_memcmp count (cs + 1) (ct + 1) m
   }"

declare memcpy_big.simps [simp del] memcpy_little.simps [simp del] memset_big.simps [simp del] memset_little.simps [simp del]

section \<open>Regions\<close>

definition mapped :: "memory \<Rightarrow> nat \<Rightarrow> nat \<Rightarrow> bool" where
  "mapped m a n \<longleftrightarrow> (\<forall>i<n. m (a + i) \<noteq> None)"

definition region :: "memory \<Rightarrow> nat \<Rightarrow> nat \<Rightarrow> u8 list" where
  "region m a n = map (\<lambda>i. the (m (a + i))) [0..<n]"

text \<open>Memory after the bytes \<open>f i\<close> were written to \<open>dst + i\<close> for \<open>i\<close> between \<open>j\<close> and \<open>k\<close>.\<close>

definition written :: "(nat \<Rightarrow> u8 option) \<Rightarrow> nat \<Rightarrow> nat \<Rightarrow> nat \<Rightarrow> memory \<Rightarrow> memory" where
  "written f dst j k m = (\<lambda>a. if dst + j \<le> a \<and> a < dst + k then f (a - dst) else m a)"

lemma written_empty [simp]: "written f dst k k m = m"
  by (auto simp: written_def fun_eq_iff)

lemma written_outside: "a < dst + j \<or> dst + k \<le> a \<Longrightarrow> written f dst j k m a = m a"
  by (auto simp: written_def)

lemma written_step:
  assumes "j \<le> k" "f k = Some v"
  shows "(written f dst j k m)(dst + k \<mapsto> v) = written f dst j (Suc k) m"
  using assms by (auto simp: written_def fun_eq_iff le_less_Suc_eq)

lemma written_step_down:
  assumes "j \<le> k" "0 < j" "f (j - 1) = Some v"
  shows "(written f dst j k m)(dst + j - 1 \<mapsto> v) = written f dst (j - 1) k m"
proof
  fix a
  consider "a = dst + (j - 1)" | "a < dst + (j - 1)" | "dst + j \<le> a" using assms(2) by linarith
  then show "((written f dst j k m)(dst + j - 1 \<mapsto> v)) a = written f dst (j - 1) k m a"
    by cases (use assms in \<open>auto simp: written_def\<close>)
qed

lemma mapped_written:
  assumes "mapped m a n" "\<And>i. i < k \<Longrightarrow> f i \<noteq> None"
  shows "mapped (written f dst j k m) a n"
  using assms by (auto simp: mapped_def written_def)

section \<open>Words\<close>

lemma bytes_word_split [simp]:
  "(ucast (bytes_word b0 b1 b2 b3) :: u8) = b0" "(ucast (drop_bit 8 (bytes_word b0 b1 b2 b3)) :: u8) = b1"
  "(ucast (drop_bit 16 (bytes_word b0 b1 b2 b3)) :: u8) = b2" "(ucast (drop_bit 24 (bytes_word b0 b1 b2 b3)) :: u8) = b3"
  by (auto simp: bytes_word_def bit_eq_iff bit_simps dest: bit_imp_le_length)

text \<open>Four single-byte steps in one.\<close>

lemma store32_written:
  assumes "mapped m (dst + k) 4" "j \<le> k"
    and "f k = Some b0" "f (k + 1) = Some b1" "f (k + 2) = Some b2" "f (k + 3) = Some b3"
  shows "store32 (dst + k) (bytes_word b0 b1 b2 b3) (written f dst j k m) = Some (written f dst j (k + 4) m)"
proof -
  have st: "store (dst + n) v (written f dst j n m) = Some (written f dst j n' m)"
    if "j \<le> n" "m (dst + n) \<noteq> None" "f n = Some v" "n' = Suc n" for n n' v
    using that written_step [of j n f v dst m] by (simp add: store_def written_outside)
  have mm: "m (dst + k + i) \<noteq> None" if "i < 4" for i using assms(1) that by (simp add: mapped_def)
  have "store (dst + k) b0 (written f dst j k m) = Some (written f dst j (k + 1) m)"
    "store (dst + k + 1) b1 (written f dst j (k + 1) m) = Some (written f dst j (k + 2) m)"
    "store (dst + k + 2) b2 (written f dst j (k + 2) m) = Some (written f dst j (k + 3) m)"
    "store (dst + k + 3) b3 (written f dst j (k + 3) m) = Some (written f dst j (k + 4) m)"
    using st [of k b0 "k + 1"] st [of "k + 1" b1 "k + 2"] st [of "k + 2" b2 "k + 3"] st [of "k + 3" b3 "k + 4"]
      mm [of 0] mm [of 1] mm [of 2] mm [of 3] assms(2-6) by (simp_all add: add.assoc)
  then show ?thesis by (simp add: store32_def)
qed

text \<open>A word copied from a region that holds what the region held at first.\<close>

lemma copy_word_written:
  assumes f: "\<And>i. i < n \<Longrightarrow> f i = m (src + i)" and m: "mapped m src n" "mapped m dst n" and k: "j \<le> k" "k + 4 \<le> n"
    and s: "\<And>i. k \<le> i \<Longrightarrow> i < n \<Longrightarrow> written f dst j k m (src + i) = m (src + i)"
  shows "copy_word (dst + k) (src + k) (written f dst j k m) = Some (written f dst j (k + 4) m)"
proof -
  have g: "\<exists>b. m (src + k + i) = Some b \<and> f (k + i) = Some b \<and> load (src + k + i) (written f dst j k m) = Some b" if "i < 4" for i
    using that m(1) f [of "k + i"] s [of "k + i"] k by (auto simp: mapped_def load_def add.assoc)
  obtain b0 b1 b2 b3 where b: "f k = Some b0" "f (k + 1) = Some b1" "f (k + 2) = Some b2" "f (k + 3) = Some b3"
    "load32 (src + k) (written f dst j k m) = Some (bytes_word b0 b1 b2 b3)"
    using g [of 0] g [of 1] g [of 2] g [of 3] by (auto simp: load32_def)
  have "mapped m (dst + k) 4" using m(2) k by (simp add: mapped_def add.assoc)
  from store32_written [of m dst k j f, OF this k(1) b(1-4)] b(5) show ?thesis by (simp add: copy_word_def)
qed

section \<open>Copying upwards\<close>

text \<open>Where copying from the first byte on reads no byte that it has written.\<close>

definition copies :: "memory \<Rightarrow> nat \<Rightarrow> nat \<Rightarrow> nat \<Rightarrow> bool" where
  "copies m dst src n \<longleftrightarrow> mapped m src n \<and> mapped m dst n \<and> (dst \<le> src \<or> src + n \<le> dst)"

abbreviation (input) copied :: "memory \<Rightarrow> nat \<Rightarrow> nat \<Rightarrow> nat \<Rightarrow> memory" where
  "copied m dst src k \<equiv> written (\<lambda>i. m (src + i)) dst 0 k m"

lemma copies_unread:
  assumes "copies m dst src n" "k \<le> i" "i < n"
  shows "copied m dst src k (src + i) = m (src + i)"
  using assms by (auto simp: copies_def written_def)

lemma copies_word:
  assumes "copies m dst src n" "k + 4 \<le> n"
  shows "copy_word (dst + k) (src + k) (copied m dst src k) = Some (copied m dst src (k + 4))"
  by (rule copy_word_written [where n = n]) (use assms copies_unread [OF assms(1)] in \<open>auto simp: copies_def\<close>)

lemma copies_byte:
  assumes "copies m dst src n" "k < n"
  obtains v where "load (src + k) (copied m dst src k) = Some v" "store (dst + k) v (copied m dst src k) = Some (copied m dst src (Suc k))"
proof -
  obtain v where "m (src + k) = Some v" "m (dst + k) \<noteq> None" using assms by (auto simp: copies_def mapped_def)
  with that copies_unread [OF assms(1) _ assms(2), of k] written_step [of 0 k "\<lambda>i. m (src + i)" v dst m] show thesis
    by (auto simp: load_def store_def written_outside)
qed

lemma memcpy_big_spec:
  assumes c: "copies m dst src n" and k: "k \<le> n"
  shows "\<exists>k'. k' \<le> n \<and> memcpy_big (dst + k) (src + k) (n - k) (copied m dst src k) =
    Some (dst + k', src + k', n - k', copied m dst src k')"
  using k
proof (induction "n - k" arbitrary: k rule: less_induct)
  case less
  show ?case
  proof (cases "BIGBLOCKSIZE \<le> n - k")
    case True
    then have "n - (k + 16) < n - k" "k + 16 \<le> n" by simp_all
    from less.hyps [OF this] obtain k' where k': "k' \<le> n"
      "memcpy_big (dst + (k + 16)) (src + (k + 16)) (n - (k + 16)) (copied m dst src (k + 16)) = Some (dst + k', src + k', n - k', copied m dst src k')"
      by blast
    have "memcpy_big (dst + k) (src + k) (n - k) (copied m dst src k) =
      memcpy_big (dst + (k + 16)) (src + (k + 16)) (n - (k + 16)) (copied m dst src (k + 16))"
      using True copies_word [OF c, of k] copies_word [OF c, of "k + 4"] copies_word [OF c, of "k + 8"] copies_word [OF c, of "k + 12"]
      by (subst memcpy_big.simps) (simp add: add.assoc)
    with k' show ?thesis by auto
  next
    case False
    with less.prems show ?thesis by (subst memcpy_big.simps) auto
  qed
qed

lemma memcpy_little_spec:
  assumes c: "copies m dst src n" and k: "k \<le> n"
  shows "\<exists>k'. k' \<le> n \<and> memcpy_little (dst + k) (src + k) (n - k) (copied m dst src k) =
    Some (dst + k', src + k', n - k', copied m dst src k')"
  using k
proof (induction "n - k" arbitrary: k rule: less_induct)
  case less
  show ?case
  proof (cases "LITTLEBLOCKSIZE \<le> n - k")
    case True
    then have "n - (k + 4) < n - k" "k + 4 \<le> n" by simp_all
    from less.hyps [OF this] obtain k' where k': "k' \<le> n"
      "memcpy_little (dst + (k + 4)) (src + (k + 4)) (n - (k + 4)) (copied m dst src (k + 4)) = Some (dst + k', src + k', n - k', copied m dst src k')"
      by blast
    have "memcpy_little (dst + k) (src + k) (n - k) (copied m dst src k) =
      memcpy_little (dst + (k + 4)) (src + (k + 4)) (n - (k + 4)) (copied m dst src (k + 4))"
      using True copies_word [OF c, of k] by (subst memcpy_little.simps) (simp add: add.assoc)
    with k' show ?thesis by auto
  next
    case False
    with less.prems show ?thesis by (subst memcpy_little.simps) auto
  qed
qed

lemma copy_up_spec:
  assumes c: "copies m dst src n" and k: "k + j = n"
  shows "copy_up j (dst + k) (src + k) (copied m dst src k) = Some (copied m dst src n)"
  using k
proof (induction j arbitrary: k)
  case (Suc j)
  then have "k < n" by simp
  from copies_byte [OF c this] obtain v where
    "load (src + k) (copied m dst src k) = Some v" "store (dst + k) v (copied m dst src k) = Some (copied m dst src (Suc k))" .
  with Suc.IH [of "Suc k"] Suc.prems show ?case by simp
qed simp

lemma rt_memcpy_spec:
  assumes c: "copies m dst src n"
  shows "rt_memcpy dst src n m = Some (dst, copied m dst src n)"
proof -
  obtain k1 where k1: "k1 \<le> n" "memcpy_big dst src n m = Some (dst + k1, src + k1, n - k1, copied m dst src k1)"
    using memcpy_big_spec [OF c, of 0] by auto
  obtain k2 where k2: "k2 \<le> n" "memcpy_little (dst + k1) (src + k1) (n - k1) (copied m dst src k1) = Some (dst + k2, src + k2, n - k2, copied m dst src k2)"
    using memcpy_little_spec [OF c k1(1)] by blast
  show ?thesis using k1 k2 copy_up_spec [OF c, of k2 "n - k2"] copy_up_spec [OF c, of 0 n] by (simp add: rt_memcpy_def)
qed

section \<open>Moving\<close>

lemma copy_down_spec:
  assumes m: "mapped m src n" "mapped m dst n" and o: "src < dst" and j: "j \<le> n"
  shows "copy_down j (dst + j) (src + j) (written (\<lambda>i. m (src + i)) dst j n m) = Some (copied m dst src n)"
  using j
proof (induction j)
  case (Suc j)
  obtain v where v: "m (src + j) = Some v" "m (dst + j) \<noteq> None" using m Suc.prems by (auto simp: mapped_def Suc_le_eq)
  let ?w = "\<lambda>j. written (\<lambda>i. m (src + i)) dst j n m"
  have "?w (Suc j) (src + j) = Some v" "?w (Suc j) (dst + j) \<noteq> None"
    using v o by (simp_all add: written_def)
  moreover have "(?w (Suc j))(dst + j \<mapsto> v) = ?w j" using written_step_down [of "Suc j" n "\<lambda>i. m (src + i)" v dst m] v Suc.prems by simp
  ultimately show ?case using Suc by (simp add: load_def store_def)
qed simp

lemma rt_memmove_spec:
  assumes m: "mapped m src n" "mapped m dst n"
  shows "rt_memmove dst src n m = Some (dst, copied m dst src n)"
proof (cases "src < dst \<and> dst < src + n")
  case True
  with copy_down_spec [OF m _ order_refl] show ?thesis by (simp add: rt_memmove_def)
next
  case False
  then have "copies m dst src n" using m by (auto simp: copies_def)
  from copy_up_spec [OF this, of 0 n] False show ?thesis by (auto simp: rt_memmove_def)
qed

section \<open>Filling\<close>

abbreviation (input) filled :: "memory \<Rightarrow> nat \<Rightarrow> u8 \<Rightarrow> nat \<Rightarrow> memory" where
  "filled m a d k \<equiv> written (\<lambda>i. Some d) a 0 k m"

lemma fill_word:
  assumes "mapped m a n" "k + 4 \<le> n"
  shows "store32 (a + k) (bytes_word d d d d) (filled m a d k) = Some (filled m a d (k + 4))"
proof -
  have "mapped m (a + k) 4" using assms by (simp add: mapped_def add.assoc)
  then show ?thesis by (rule store32_written) simp_all
qed

lemma memset_big_spec:
  assumes c: "mapped m a n" and k: "k \<le> n"
  shows "\<exists>k'. k' \<le> n \<and> memset_big (a + k) (bytes_word d d d d) (n - k) (filled m a d k) = Some (a + k', n - k', filled m a d k')"
  using k
proof (induction "n - k" arbitrary: k rule: less_induct)
  case less
  show ?case
  proof (cases "BIGBLOCKSIZE \<le> n - k")
    case True
    then have "n - (k + 16) < n - k" "k + 16 \<le> n" by simp_all
    from less.hyps [OF this] obtain k' where k': "k' \<le> n"
      "memset_big (a + (k + 16)) (bytes_word d d d d) (n - (k + 16)) (filled m a d (k + 16)) = Some (a + k', n - k', filled m a d k')"
      by blast
    have "memset_big (a + k) (bytes_word d d d d) (n - k) (filled m a d k) =
      memset_big (a + (k + 16)) (bytes_word d d d d) (n - (k + 16)) (filled m a d (k + 16))"
      using True fill_word [OF c, of k] fill_word [OF c, of "k + 4"] fill_word [OF c, of "k + 8"] fill_word [OF c, of "k + 12"]
      by (subst memset_big.simps) (simp add: add.assoc)
    with k' show ?thesis by auto
  next
    case False
    with less.prems show ?thesis by (subst memset_big.simps) auto
  qed
qed

lemma memset_little_spec:
  assumes c: "mapped m a n" and k: "k \<le> n"
  shows "\<exists>k'. k' \<le> n \<and> memset_little (a + k) (bytes_word d d d d) (n - k) (filled m a d k) = Some (a + k', n - k', filled m a d k')"
  using k
proof (induction "n - k" arbitrary: k rule: less_induct)
  case less
  show ?case
  proof (cases "LITTLEBLOCKSIZE \<le> n - k")
    case True
    then have "n - (k + 4) < n - k" "k + 4 \<le> n" by simp_all
    from less.hyps [OF this] obtain k' where k': "k' \<le> n"
      "memset_little (a + (k + 4)) (bytes_word d d d d) (n - (k + 4)) (filled m a d (k + 4)) = Some (a + k', n - k', filled m a d k')"
      by blast
    have "memset_little (a + k) (bytes_word d d d d) (n - k) (filled m a d k) =
      memset_little (a + (k + 4)) (bytes_word d d d d) (n - (k + 4)) (filled m a d (k + 4))"
      using True fill_word [OF c, of k] by (subst memset_little.simps) (simp add: add.assoc)
    with k' show ?thesis by auto
  next
    case False
    with less.prems show ?thesis by (subst memset_little.simps) auto
  qed
qed

lemma memset_bytes_spec:
  assumes c: "mapped m a n" and k: "k + j = n"
  shows "memset_bytes j (a + k) d (filled m a d k) = Some (filled m a d n)"
  using k
proof (induction j arbitrary: k)
  case (Suc j)
  then have "m (a + k) \<noteq> None" using c by (auto simp: mapped_def)
  then have "store (a + k) d (filled m a d k) = Some (filled m a d (Suc k))"
    using written_step [of 0 k "\<lambda>i. Some d" d a m] by (simp add: store_def written_outside)
  with Suc.IH [of "Suc k"] Suc.prems show ?case by simp
qed simp

lemma rt_memset_spec:
  assumes c: "mapped m a n"
  shows "rt_memset a v n m = Some (a, filled m a (word_of_int v) n)"
proof -
  let ?d = "word_of_int v :: u8"
  obtain k1 where k1: "k1 \<le> n" "memset_big a (bytes_word ?d ?d ?d ?d) n m = Some (a + k1, n - k1, filled m a ?d k1)"
    using memset_big_spec [OF c, of 0 ?d] by auto
  obtain k2 where k2: "k2 \<le> n" "memset_little (a + k1) (bytes_word ?d ?d ?d ?d) (n - k1) (filled m a ?d k1) = Some (a + k2, n - k2, filled m a ?d k2)"
    using memset_little_spec [OF c k1(1)] by blast
  show ?thesis using k1 k2 memset_bytes_spec [OF c, of k2 "n - k2" ?d] memset_bytes_spec [OF c, of 0 n ?d] by (simp add: rt_memset_def Let_def)
qed

section \<open>Comparing\<close>

text \<open>The lexicographic order of byte lists, by the first place where they differ.\<close>

fun first_difference :: "u8 list \<Rightarrow> u8 list \<Rightarrow> int" where
  "first_difference (x # xs) (y # ys) = (if x = y then first_difference xs ys else int (unat x) - int (unat y))"
| "first_difference _ _ = 0"

lemma region_Suc: "region m a (Suc n) = the (m a) # region m (Suc a) n"
  unfolding region_def by (subst upt_conv_Cons) (simp_all add: map_Suc_upt [symmetric] o_def del: upt_Suc)

lemma rt_memcmp_spec:
  "mapped m cs n \<Longrightarrow> mapped m ct n \<Longrightarrow> rt_memcmp n cs ct m = Some (first_difference (region m cs n) (region m ct n))"
proof (induction n arbitrary: cs ct)
  case 0
  show ?case by (simp add: region_def)
next
  case (Suc n)
  have "mapped m (Suc cs) n" "mapped m (Suc ct) n" "m cs \<noteq> None" "m ct \<noteq> None"
    using Suc.prems by (force simp: mapped_def)+
  then show ?case using Suc.IH by (auto simp: load_def region_Suc Let_def dest: unsigned_word_eqI)
qed

lemma first_difference_zero: "length xs = length ys \<Longrightarrow> first_difference xs ys = 0 \<longleftrightarrow> xs = ys"
  by (induction xs ys rule: list_induct2) (auto dest: unsigned_word_eqI)

section \<open>Properties\<close>

text \<open>
  C28: rt_memcpy copies exactly count bytes, for every length and alignment: its loops over four words,
  single words and bytes are the byte-by-byte copy, and no byte outside of the destination changes.
  The regions may overlap where the destination lies below the source.
\<close>
theorem memcpy_is_byte_copy:
  assumes "mapped m src n" "mapped m dst n" "dst \<le> src \<or> src + n \<le> dst"
  shows "rt_memcpy dst src n m = Some (dst, (\<lambda>a. if dst \<le> a \<and> a < dst + n then m (src + (a - dst)) else m a))"
  using rt_memcpy_spec [of m dst src n] assms by (simp add: copies_def written_def)

text \<open>Eighteen bytes from 100 to 200: a round of four words and two single bytes.\<close>

definition sample_memory :: memory where
  "sample_memory = (\<lambda>a. if 100 \<le> a \<and> a < 300 then Some (word_of_nat a) else None)"

lemma sample_mapped: "100 \<le> a \<Longrightarrow> a + n \<le> 300 \<Longrightarrow> mapped sample_memory a n"
  by (simp add: mapped_def sample_memory_def)

theorem memcpy_is_byte_copy_witness:
  "\<exists>m'. rt_memcpy 200 100 18 sample_memory = Some (200, m') \<and> m' 217 = Some 117 \<and> m' 218 = Some 218"
  using memcpy_is_byte_copy [OF sample_mapped [of 100 18] sample_mapped [of 200 18]] by (simp add: sample_memory_def)

text \<open>
  rt_memmove copies the bytes the source had, however the regions overlap, rt_memset fills with the
  low byte of its argument, and rt_memcmp orders by the first differing byte, 0 exactly for equal contents.
\<close>
lemma memory_functions_agree_with_byte_lists:
  assumes "mapped m src n" "mapped m dst n"
  shows "(\<exists>m'. rt_memmove dst src n m = Some (dst, m') \<and> region m' dst n = region m src n \<and>
      (\<forall>a. a < dst \<or> dst + n \<le> a \<longrightarrow> m' a = m a)) \<and>
    (\<exists>m'. rt_memset dst v n m = Some (dst, m') \<and> region m' dst n = replicate n (word_of_int v) \<and>
      (\<forall>a. a < dst \<or> dst + n \<le> a \<longrightarrow> m' a = m a)) \<and>
    (\<exists>r. rt_memcmp n dst src m = Some r \<and> r = first_difference (region m dst n) (region m src n) \<and>
      (r = 0 \<longleftrightarrow> region m dst n = region m src n))"
proof (intro conjI)
  show "\<exists>m'. rt_memmove dst src n m = Some (dst, m') \<and> region m' dst n = region m src n \<and> (\<forall>a. a < dst \<or> dst + n \<le> a \<longrightarrow> m' a = m a)"
    unfolding rt_memmove_spec [OF assms] by (auto simp: region_def written_def)
  show "\<exists>m'. rt_memset dst v n m = Some (dst, m') \<and> region m' dst n = replicate n (word_of_int v) \<and> (\<forall>a. a < dst \<or> dst + n \<le> a \<longrightarrow> m' a = m a)"
    unfolding rt_memset_spec [OF assms(2)] by (auto simp: region_def written_def intro!: nth_equalityI)
  show "\<exists>r. rt_memcmp n dst src m = Some r \<and> r = first_difference (region m dst n) (region m src n) \<and> (r = 0 \<longleftrightarrow> region m dst n = region m src n)"
    using first_difference_zero [of "region m dst n" "region m src n"] unfolding rt_memcmp_spec [OF assms(2,1)] by (simp add: region_def)
qed

lemma memory_functions_agree_with_byte_lists_witness:
  "\<exists>m'. rt_memmove 101 100 3 sample_memory = Some (101, m') \<and> region m' 101 3 = [100, 101, 102]"
proof -
  have "region sample_memory 100 3 = [100, 101, 102]" by (simp add: region_def sample_memory_def upt_conv_Cons)
  with memory_functions_agree_with_byte_lists [OF sample_mapped [of 100 3] sample_mapped [of 101 3], of 0] show ?thesis by auto
qed

end
