(* ===== verification/Kservice_String.thy ===== *)
theory Kservice_String
  imports Kservice_Memory
begin

text \<open>
  The string functions of the kernel library (\<open>src/kservice.c\<close>), on the byte memory of
  \<open>Kservice_Memory\<close>. A pointer is an address, a null pointer \<open>None\<close>; the outer \<open>None\<close> of a result is a
  load or store outside of memory, or a loop that finds no end. Plain \<open>char\<close> is unsigned, as on the
  ARM target.
\<close>

section \<open>Operations\<close>

partial_function (option) strlen_loop :: "nat \<Rightarrow> memory \<Rightarrow> nat option" where
  "strlen_loop sc m = do { c \<leftarrow> load sc m; if c \<noteq> 0 then strlen_loop (sc + 1) m else Some sc }"

definition rt_strlen :: "nat \<Rightarrow> memory \<Rightarrow> nat option" where
  "rt_strlen s m = do { sc \<leftarrow> strlen_loop s m; Some (sc - s) }"

partial_function (option) strnlen_loop :: "nat \<Rightarrow> nat \<Rightarrow> nat \<Rightarrow> memory \<Rightarrow> nat option" where
  "strnlen_loop s maxlen sc m = do {
     c \<leftarrow> load sc m;
     if c \<noteq> 0 \<and> sc - s < maxlen then strnlen_loop s maxlen (sc + 1) m else Some sc
   }"

definition rt_strnlen :: "nat \<Rightarrow> nat \<Rightarrow> memory \<Rightarrow> nat option" where
  "rt_strnlen s maxlen m = do { sc \<leftarrow> strnlen_loop s maxlen s m; Some (sc - s) }"

partial_function (option) strcpy_loop :: "nat \<Rightarrow> nat \<Rightarrow> memory \<Rightarrow> (nat \<times> memory) option" where
  "strcpy_loop dst src m = do {
     c \<leftarrow> load src m;
     if c \<noteq> 0 then do { m \<leftarrow> store dst c m; strcpy_loop (dst + 1) (src + 1) m } else Some (dst, m)
   }"

definition rt_strcpy :: "nat \<Rightarrow> nat \<Rightarrow> memory \<Rightarrow> (nat \<times> memory) option" where
  "rt_strcpy dst src m = do {
     (d, m) \<leftarrow> strcpy_loop dst src m;
     m \<leftarrow> store d 0 m;
     Some (dst, m)
   }"

fun strncpy_pad :: "nat \<Rightarrow> nat \<Rightarrow> memory \<Rightarrow> memory option" where
  "strncpy_pad n d m =
     (let n' = n - 1 in
      if n' \<noteq> 0 then do { m \<leftarrow> store d 0 m; strncpy_pad n' (d + 1) m } else Some m)"

fun strncpy_loop :: "nat \<Rightarrow> nat \<Rightarrow> nat \<Rightarrow> memory \<Rightarrow> memory option" where
  "strncpy_loop n d s m = do {
     c \<leftarrow> load s m;
     m \<leftarrow> store d c m;
     if c = 0 then strncpy_pad n (d + 1) m
     else let n' = n - 1 in if n' \<noteq> 0 then strncpy_loop n' (d + 1) (s + 1) m else Some m
   }"

definition rt_strncpy :: "nat \<Rightarrow> nat \<Rightarrow> nat \<Rightarrow> memory \<Rightarrow> (nat \<times> memory) option" where
  "rt_strncpy dst src n m = do {
     m \<leftarrow> (if n \<noteq> 0 then strncpy_loop n dst src m else Some m);
     Some (dst, m)
   }"

partial_function (option) rt_strcmp :: "nat \<Rightarrow> nat \<Rightarrow> memory \<Rightarrow> int option" where
  "rt_strcmp cs ct m = do {
     x \<leftarrow> load cs m;
     y \<leftarrow> load ct m;
     if x \<noteq> 0 \<and> x = y then rt_strcmp (cs + 1) (ct + 1) m else Some (int (unat x) - int (unat y))
   }"

text \<open>The difference is kept in a \<open>signed char\<close>.\<close>

definition signed_char :: "int \<Rightarrow> int" where
  "signed_char i = sint (word_of_int i :: u8)"

primrec strncmp_loop :: "nat \<Rightarrow> nat \<Rightarrow> nat \<Rightarrow> int \<Rightarrow> memory \<Rightarrow> int option" where
  "strncmp_loop 0 cs ct res m = Some res"
| "strncmp_loop (Suc count) cs ct res m = do {
     x \<leftarrow> load cs m;
     y \<leftarrow> load ct m;
     let res = signed_char (int (unat x) - int (unat y));
     if res \<noteq> 0 \<or> x = 0 then Some res else strncmp_loop count (cs + 1) (ct + 1) res m
   }"

definition rt_strncmp :: "nat \<Rightarrow> nat \<Rightarrow> nat \<Rightarrow> memory \<Rightarrow> int option" where
  "rt_strncmp cs ct count m = strncmp_loop count cs ct 0 m"

definition to_lower :: "int \<Rightarrow> int" where
  "to_lower c = (if 65 \<le> c \<and> c \<le> 90 then c + 32 else c)"

partial_function (option) rt_strcasecmp :: "nat \<Rightarrow> nat \<Rightarrow> memory \<Rightarrow> int option" where
  "rt_strcasecmp a b m = do {
     x \<leftarrow> load a m;
     y \<leftarrow> load b m;
     let ca = to_lower (int (unat x));
     let cb = to_lower (int (unat y));
     if ca = cb \<and> ca \<noteq> 0 then rt_strcasecmp (a + 1) (b + 1) m else Some (ca - cb)
   }"

partial_function (option) strchr_loop :: "nat \<Rightarrow> u8 \<Rightarrow> memory \<Rightarrow> (nat \<times> u8) option" where
  "strchr_loop s c m = do { x \<leftarrow> load s m; if x \<noteq> c \<and> x \<noteq> 0 then strchr_loop (s + 1) c m else Some (s, x) }"

definition rt_strchr :: "nat \<Rightarrow> int \<Rightarrow> memory \<Rightarrow> nat option option" where
  "rt_strchr s c m = do { (s, x) \<leftarrow> strchr_loop s (word_of_int c) m; Some (if x = 0 then None else Some s) }"

fun strrchr_loop :: "nat \<Rightarrow> nat \<Rightarrow> u8 \<Rightarrow> memory \<Rightarrow> (nat \<times> u8) option" where
  "strrchr_loop s p c m = do {
     x \<leftarrow> load p m;
     if x \<noteq> c \<and> p \<noteq> s then (if s < p then strrchr_loop s (p - 1) c m else None) else Some (p, x)
   }"

definition rt_strrchr :: "nat \<Rightarrow> int \<Rightarrow> memory \<Rightarrow> nat option option" where
  "rt_strrchr s c m = do {
     n \<leftarrow> rt_strlen s m;
     (p, x) \<leftarrow> strrchr_loop s (s + n) (word_of_int c) m;
     Some (if int (unat x) \<noteq> c then None else Some p)
   }"

partial_function (option) rt_strchrnul :: "nat \<Rightarrow> int \<Rightarrow> memory \<Rightarrow> nat option" where
  "rt_strchrnul s c m = do { x \<leftarrow> load s m; if x \<noteq> 0 \<and> int (unat x) \<noteq> c then rt_strchrnul (s + 1) c m else Some s }"

partial_function (option) strspn_loop :: "nat \<Rightarrow> nat \<Rightarrow> memory \<Rightarrow> nat option" where
  "strspn_loop p accept m = do {
     x \<leftarrow> load p m;
     if x \<noteq> 0
     then do {
       r \<leftarrow> rt_strchr accept (int (unat x)) m;
       if r = None then Some p else strspn_loop (p + 1) accept m
     }
     else Some p
   }"

definition rt_strspn :: "nat \<Rightarrow> nat \<Rightarrow> memory \<Rightarrow> nat option" where
  "rt_strspn s accept m = do { p \<leftarrow> strspn_loop s accept m; Some (p - s) }"

partial_function (option) strcspn_loop :: "nat \<Rightarrow> nat \<Rightarrow> nat \<Rightarrow> memory \<Rightarrow> nat option" where
  "strcspn_loop s reject ret m = do {
     x \<leftarrow> load s m;
     if x \<noteq> 0
     then do {
       r \<leftarrow> rt_strchr reject (int (unat x)) m;
       if r \<noteq> None then Some ret else strcspn_loop (s + 1) reject (ret + 1) m
     }
     else Some ret
   }"

definition rt_strcspn :: "nat \<Rightarrow> nat \<Rightarrow> memory \<Rightarrow> nat option" where
  "rt_strcspn s reject m = strcspn_loop s reject 0 m"

fun strstr_loop :: "nat \<Rightarrow> nat \<Rightarrow> nat \<Rightarrow> nat \<Rightarrow> memory \<Rightarrow> nat option option" where
  "strstr_loop l1 l2 s1 s2 m =
     (if l2 \<le> l1 \<and> 0 < l2
      then do {
        r \<leftarrow> rt_memcmp l2 s1 s2 m;
        if r = 0 then Some (Some s1) else strstr_loop (l1 - 1) l2 (s1 + 1) s2 m
      }
      else Some None)"

definition rt_strstr :: "nat \<Rightarrow> nat \<Rightarrow> memory \<Rightarrow> nat option option" where
  "rt_strstr s1 s2 m = do {
     l2 \<leftarrow> rt_strlen s2 m;
     if l2 = 0 then Some (Some s1)
     else do {
       l1 \<leftarrow> rt_strlen s1 m;
       strstr_loop l1 l2 s1 s2 m
     }
   }"

text \<open>The result is the token, what \<open>*context\<close> then holds, and the memory; \<open>*context\<close> may hold rubbish (\<open>None\<close>) at first.\<close>

definition rt_strtok_r :: "nat option \<Rightarrow> nat \<Rightarrow> nat option \<Rightarrow> memory \<Rightarrow> (nat option \<times> nat option \<times> memory) option" where
  "rt_strtok_r s delim cxt m = do {
     s \<leftarrow> (if s = None then cxt else s);
     n \<leftarrow> rt_strspn s delim m;
     let s = s + n;
     x \<leftarrow> load s m;
     if x \<noteq> 0
     then do {
       let ret = s;
       n \<leftarrow> rt_strcspn s delim m;
       let s = s + n;
       x \<leftarrow> load s m;
       (s, m) \<leftarrow> (if x \<noteq> 0 then do { m \<leftarrow> store s 0 m; Some (s + 1, m) } else Some (s, m));
       Some (Some ret, Some s, m)
     }
     else Some (None, cxt, m)
   }"

text \<open>\<open>rt_malloc\<close> is the parameter \<open>malloc\<close>.\<close>

definition rt_strdup :: "(nat \<Rightarrow> memory \<Rightarrow> nat option \<times> memory) \<Rightarrow> nat \<Rightarrow> memory \<Rightarrow> (nat option \<times> memory) option" where
  "rt_strdup malloc s m = do {
     n \<leftarrow> rt_strlen s m;
     let len = n + 1;
     (case malloc len m of
        (None, m) \<Rightarrow> Some (None, m)
      | (Some tmp, m) \<Rightarrow> do { (_, m) \<leftarrow> rt_memcpy tmp s len m; Some (Some tmp, m) })
   }"

declare strncpy_pad.simps [simp del] strncpy_loop.simps [simp del] strrchr_loop.simps [simp del] strstr_loop.simps [simp del]

section \<open>Strings in memory\<close>

primrec str_at :: "memory \<Rightarrow> nat \<Rightarrow> u8 list \<Rightarrow> bool" where
  "str_at m a [] \<longleftrightarrow> m a = Some 0"
| "str_at m a (c # cs) \<longleftrightarrow> c \<noteq> 0 \<and> m a = Some c \<and> str_at m (Suc a) cs"

lemma str_at_nth:
  "str_at m a cs \<Longrightarrow> i < length cs \<Longrightarrow> m (a + i) = Some (cs ! i)"
  "str_at m a cs \<Longrightarrow> m (a + length cs) = Some 0"
  "str_at m a cs \<Longrightarrow> 0 \<notin> set cs"
  "str_at m a cs \<Longrightarrow> i \<le> length cs \<Longrightarrow> str_at m (a + i) (drop i cs)"
proof (induction cs arbitrary: a i)
  case (Cons c cs)
  {
    case 1
    with Cons.IH(1) [of "Suc a" "i - 1"] show ?case by (cases i) auto
  next
    case 2
    with Cons.IH(2) [of "Suc a"] show ?case by simp
  next
    case 3
    with Cons.IH(3) [of "Suc a"] show ?case by simp
  next
    case 4
    with Cons.IH(4) [of "Suc a" "i - 1"] show ?case by (cases i) auto
  }
qed simp_all

lemma str_at_mapped:
  assumes "str_at m a cs" "n \<le> length cs + 1"
  shows "mapped m a n" "region m a n = take n (cs @ [0])"
proof -
  have g: "m (a + i) = Some ((cs @ [0]) ! i)" if "i < n" for i
  proof (cases "i < length cs")
    case False
    then have "i = length cs" using that assms(2) by simp
    with str_at_nth(2) [OF assms(1)] show ?thesis by simp
  qed (use str_at_nth(1) [OF assms(1)] in \<open>simp add: nth_append\<close>)
  then show "mapped m a n" by (simp add: mapped_def)
  from g show "region m a n = take n (cs @ [0])" using assms(2)
    by (auto simp: region_def simp del: take_append intro!: nth_equalityI)
qed

lemma str_atI:
  assumes "\<And>i. i < length cs \<Longrightarrow> m (a + i) = Some (cs ! i)" "m (a + length cs) = Some 0" "0 \<notin> set cs"
  shows "str_at m a cs"
  using assms
proof (induction cs arbitrary: a)
  case (Cons c cs)
  have "str_at m (Suc a) cs" using Cons.prems(1) [of "Suc i" for i] Cons.prems(2,3) by (intro Cons.IH) auto
  with Cons.prems(1) [of 0] Cons.prems(3) show ?case by auto
qed simp

lemma str_at_unique: "str_at m a cs \<Longrightarrow> str_at m a ds \<Longrightarrow> cs = ds"
proof (induction cs arbitrary: a ds)
  case Nil
  then show ?case by (cases ds) auto
next
  case (Cons c cs)
  then show ?case by (cases ds) auto
qed

section \<open>Lengths and copies\<close>

lemma strlen_loop_spec: "str_at m a cs \<Longrightarrow> strlen_loop a m = Some (a + length cs)"
proof (induction cs arbitrary: a)
  case (Cons c cs)
  then show ?case by (subst strlen_loop.simps) (simp add: load_def)
qed (subst strlen_loop.simps, simp add: load_def)

lemma rt_strlen_spec: "str_at m a cs \<Longrightarrow> rt_strlen a m = Some (length cs)"
  by (simp add: rt_strlen_def strlen_loop_spec)

lemma strnlen_loop_spec:
  assumes "str_at m (s + k) cs" "k \<le> maxlen"
  shows "strnlen_loop s maxlen (s + k) m = Some (s + min (k + length cs) maxlen)"
  using assms
proof (induction cs arbitrary: k)
  case Nil
  then show ?case by (subst strnlen_loop.simps) (simp add: load_def)
next
  case (Cons c cs)
  then show ?case
    using Cons.IH [of "Suc k"] by (subst strnlen_loop.simps) (cases "k = maxlen", auto simp: load_def)
qed

lemma rt_strnlen_spec: "str_at m s cs \<Longrightarrow> rt_strnlen s maxlen m = Some (min (length cs) maxlen)"
  using strnlen_loop_spec [of m s 0 cs maxlen] by (simp add: rt_strnlen_def)

text \<open>Without a terminator within the bound, the byte behind the bound is read.\<close>

lemma strnlen_loop_overread:
  assumes "\<And>i. i < maxlen \<Longrightarrow> \<exists>c. m (s + i) = Some c \<and> c \<noteq> 0" "m (s + maxlen) = None" "k + j = maxlen"
  shows "strnlen_loop s maxlen (s + k) m = None"
  using assms(3)
proof (induction j arbitrary: k)
  case 0
  with assms(2) show ?case by (subst strnlen_loop.simps) (simp add: load_def)
next
  case (Suc j)
  then obtain c where "m (s + k) = Some c" "c \<noteq> 0" using assms(1) [of k] by auto
  with Suc.IH [of "Suc k"] Suc.prems show ?case by (subst strnlen_loop.simps) (simp add: load_def)
qed

lemma strcpy_loop_spec:
  assumes s: "str_at m src cs" and c: "copies m dst src (length cs + 1)" and k: "k + j = length cs"
  shows "strcpy_loop (dst + k) (src + k) (copied m dst src k) = Some (dst + length cs, copied m dst src (length cs))"
  using k
proof (induction j arbitrary: k)
  case 0
  then have "load (src + k) (copied m dst src k) = Some 0"
    using copies_unread [OF c, of k k] str_at_nth(2) [OF s] by (simp add: load_def)
  with 0 show ?case by (subst strcpy_loop.simps) simp
next
  case (Suc j)
  then have l: "k < length cs" by simp
  then have "cs ! k \<noteq> 0" using str_at_nth(3) [OF s] by (metis nth_mem)
  moreover have "load (src + k) (copied m dst src k) = Some (cs ! k)"
    using copies_unread [OF c, of k k] str_at_nth(1) [OF s l] l by (simp add: load_def)
  moreover obtain v where "load (src + k) (copied m dst src k) = Some v" "store (dst + k) v (copied m dst src k) = Some (copied m dst src (Suc k))"
    using copies_byte [OF c, of k] l by auto
  ultimately show ?case using Suc.IH [of "Suc k"] Suc.prems by (subst strcpy_loop.simps) simp
qed

lemma rt_strcpy_spec:
  assumes s: "str_at m src cs" and c: "copies m dst src (length cs + 1)"
  shows "rt_strcpy dst src m = Some (dst, copied m dst src (length cs + 1))"
proof -
  obtain v where v: "load (src + length cs) (copied m dst src (length cs)) = Some v"
    "store (dst + length cs) v (copied m dst src (length cs)) = Some (copied m dst src (Suc (length cs)))"
    using copies_byte [OF c, of "length cs"] by auto
  moreover have "v = 0" using v(1) copies_unread [OF c, of "length cs" "length cs"] str_at_nth(2) [OF s] by (simp add: load_def)
  ultimately show ?thesis using strcpy_loop_spec [OF s c, of 0 "length cs"] by (simp add: rt_strcpy_def)
qed

text \<open>\<open>rt_strncpy\<close> cuts the string at \<open>n\<close> bytes and fills up with zeros.\<close>

abbreviation (input) name_byte :: "u8 list \<Rightarrow> nat \<Rightarrow> u8 option" where
  "name_byte cs i \<equiv> Some (if i < length cs then cs ! i else 0)"

lemma strncpy_step:
  assumes "mapped m dst n" "k < n"
  shows "store (dst + k) (if k < length cs then cs ! k else 0) (written (name_byte cs) dst 0 k m) = Some (written (name_byte cs) dst 0 (Suc k) m)"
  using assms written_step [of 0 k "name_byte cs" "if k < length cs then cs ! k else 0" dst m]
  by (auto simp: store_def written_outside mapped_def)

lemma strncpy_pad_spec:
  assumes m: "mapped m dst n" and k: "length cs \<le> k" "k + j = n" "0 < j"
  shows "strncpy_pad j (dst + k + 1) (written (name_byte cs) dst 0 (Suc k) m) = Some (written (name_byte cs) dst 0 n m)"
  using k
proof (induction j arbitrary: k)
  case (Suc j)
  show ?case
  proof (cases j)
    case 0
    with Suc.prems show ?thesis by (subst strncpy_pad.simps) simp
  next
    case (Suc j')
    from strncpy_step [OF m, of "Suc k" cs] Suc.IH [of "Suc k"] Suc.prems Suc show ?thesis
      by (subst strncpy_pad.simps) simp
  qed
qed simp

lemma strncpy_loop_spec:
  assumes s: "str_at m src cs" and m: "mapped m dst n" and d: "src + length cs < dst \<or> dst + n \<le> src"
    and k: "k \<le> length cs" "k + j = n" "0 < j"
  shows "strncpy_loop j (dst + k) (src + k) (written (name_byte cs) dst 0 k m) = Some (written (name_byte cs) dst 0 n m)"
  using k
proof (induction j arbitrary: k)
  case (Suc j)
  let ?c = "if k < length cs then cs ! k else 0"
  have "m (src + k) = Some ?c" using str_at_nth(1,2) [OF s] Suc.prems by (cases "k < length cs") auto
  then have l: "load (src + k) (written (name_byte cs) dst 0 k m) = Some ?c"
    using d Suc.prems by (auto simp: load_def written_def)
  have st: "store (dst + k) ?c (written (name_byte cs) dst 0 k m) = Some (written (name_byte cs) dst 0 (Suc k) m)"
    using strncpy_step [OF m, of k cs] Suc.prems by simp
  show ?case
  proof (cases "k < length cs")
    case True
    then have "?c \<noteq> 0" using str_at_nth(3) [OF s] by (metis nth_mem)
    with l st Suc.IH [of "Suc k"] Suc.prems True show ?thesis by (subst strncpy_loop.simps) (auto simp: Let_def)
  next
    case False
    with l st strncpy_pad_spec [OF m, of cs k "Suc j"] Suc.prems show ?thesis by (subst strncpy_loop.simps) simp
  qed
qed simp

lemma rt_strncpy_spec:
  assumes "str_at m src cs" "mapped m dst n" "src + length cs < dst \<or> dst + n \<le> src"
  shows "rt_strncpy dst src n m = Some (dst, written (name_byte cs) dst 0 n m)"
  using strncpy_loop_spec [OF assms, of 0 n] by (cases n) (simp_all add: rt_strncpy_def)

section \<open>Comparisons\<close>

lemma rt_strcmp_spec:
  "str_at m a xs \<Longrightarrow> str_at m b ys \<Longrightarrow> rt_strcmp a b m = Some (first_difference (xs @ [0]) (ys @ [0]))"
proof (induction xs arbitrary: a b ys)
  case Nil
  then show ?case by (subst rt_strcmp.simps) (cases ys, auto simp: load_def)
next
  case (Cons x xs)
  then show ?case by (subst rt_strcmp.simps) (cases ys, auto simp: load_def)
qed

lemma signed_char_zero: "signed_char (int (unat (x :: u8)) - int (unat (y :: u8))) = 0 \<longleftrightarrow> x = y"
proof -
  have "word_of_int (int (unat x) - int (unat y)) = x - y" by simp
  then show ?thesis by (simp add: signed_char_def signed_eq_0_iff)
qed

lemma strncmp_loop_spec:
  "str_at m a xs \<Longrightarrow> str_at m b ys \<Longrightarrow>
   strncmp_loop n a b 0 m = Some (signed_char (first_difference (take n (xs @ [0])) (take n (ys @ [0]))))"
proof (induction n arbitrary: a b xs ys)
  case 0
  show ?case by (simp add: signed_char_def)
next
  case (Suc n)
  obtain x xs' y ys' where xy: "xs @ [0] = x # xs'" "ys @ [0] = y # ys'" "m a = Some x" "m b = Some y"
    "x \<noteq> 0 \<longrightarrow> (\<exists>us. xs = x # us \<and> str_at m (Suc a) us \<and> xs' = us @ [0])"
    "y \<noteq> 0 \<longrightarrow> (\<exists>us. ys = y # us \<and> str_at m (Suc b) us \<and> ys' = us @ [0])" "x = 0 \<longrightarrow> xs' = []" "y = 0 \<longrightarrow> ys' = []"
    using Suc.prems by (cases xs; cases ys) auto
  show ?case
  proof (cases "x = y \<and> x \<noteq> 0")
    case True
    with Suc.IH xy show ?thesis by (auto simp: load_def signed_char_def)
  next
    case False
    then show ?thesis
      unfolding xy(1,2) using xy(3,4,7,8) signed_char_zero [of x y] by (auto simp: load_def Let_def)
  qed
qed

section \<open>Searching\<close>

lemma strchr_loop_spec:
  "str_at m s cs \<Longrightarrow> strchr_loop s c m =
    Some (s + length (takeWhile (\<lambda>x. x \<noteq> c) cs), if c \<in> set cs then c else 0)"
proof (induction cs arbitrary: s)
  case Nil
  then show ?case by (subst strchr_loop.simps) (simp add: load_def)
next
  case (Cons x cs)
  then show ?case by (subst strchr_loop.simps) (auto simp: load_def)
qed

lemma rt_strchr_spec:
  assumes "str_at m s cs"
  shows "rt_strchr s c m = Some (if word_of_int c \<in> set cs then Some (s + length (takeWhile (\<lambda>x. x \<noteq> word_of_int c) cs)) else None)"
  using strchr_loop_spec [OF assms, of "word_of_int c"] str_at_nth(3) [OF assms] by (auto simp: rt_strchr_def)

lemma rt_strchr_byte:
  assumes "str_at m s cs"
  shows "rt_strchr s (int (unat x)) m = Some r \<Longrightarrow> r = None \<longleftrightarrow> x \<notin> set cs" "\<exists>r. rt_strchr s (int (unat x)) m = Some r"
  using rt_strchr_spec [OF assms, of "int (unat x)"] by (auto split: if_splits)

lemma strspn_loop_spec:
  assumes a: "str_at m accept as"
  shows "str_at m p cs \<Longrightarrow> strspn_loop p accept m = Some (p + length (takeWhile (\<lambda>x. x \<in> set as) cs))"
proof (induction cs arbitrary: p)
  case Nil
  then show ?case by (subst strspn_loop.simps) (simp add: load_def)
next
  case (Cons x cs)
  obtain r where "rt_strchr accept (int (unat x)) m = Some r" "r = None \<longleftrightarrow> x \<notin> set as"
    using rt_strchr_byte [OF a, of x] by blast
  with Cons show ?case by (subst strspn_loop.simps) (simp add: load_def)
qed

lemma rt_strspn_spec:
  "str_at m accept as \<Longrightarrow> str_at m s cs \<Longrightarrow> rt_strspn s accept m = Some (length (takeWhile (\<lambda>x. x \<in> set as) cs))"
  by (simp add: rt_strspn_def strspn_loop_spec)

lemma strcspn_loop_spec:
  assumes a: "str_at m reject rs"
  shows "str_at m s cs \<Longrightarrow> strcspn_loop s reject n m = Some (n + length (takeWhile (\<lambda>x. x \<notin> set rs) cs))"
proof (induction cs arbitrary: s n)
  case Nil
  then show ?case by (subst strcspn_loop.simps) (simp add: load_def)
next
  case (Cons x cs)
  obtain r where "rt_strchr reject (int (unat x)) m = Some r" "r = None \<longleftrightarrow> x \<notin> set rs"
    using rt_strchr_byte [OF a, of x] by blast
  with Cons show ?case by (subst strcspn_loop.simps) (simp add: load_def)
qed

lemma rt_strcspn_spec:
  "str_at m reject rs \<Longrightarrow> str_at m s cs \<Longrightarrow> rt_strcspn s reject m = Some (length (takeWhile (\<lambda>x. x \<notin> set rs) cs))"
  by (simp add: rt_strcspn_def strcspn_loop_spec)

text \<open>The first place where a list occurs in another.\<close>

fun find_sub :: "u8 list \<Rightarrow> u8 list \<Rightarrow> nat option" where
  "find_sub ys [] = (if ys = [] then Some 0 else None)"
| "find_sub ys (x # xs) = (if take (length ys) (x # xs) = ys then Some 0 else map_option Suc (find_sub ys xs))"

lemma find_sub_first:
  "case find_sub ys xs of
     None \<Rightarrow> \<forall>i. take (length ys) (drop i xs) \<noteq> ys
   | Some i \<Rightarrow> take (length ys) (drop i xs) = ys \<and> (\<forall>j<i. take (length ys) (drop j xs) \<noteq> ys)"
proof (induction ys xs rule: find_sub.induct)
  case (2 ys x xs)
  show ?case
  proof (cases "take (length ys) (x # xs) = ys")
    case False
    have "take (length ys) (drop j (x # xs)) \<noteq> ys" if "\<And>i. j = Suc i \<Longrightarrow> take (length ys) (drop i xs) \<noteq> ys" for j
      using that False by (cases j) auto
    with 2 [OF False] False show ?thesis by (fastforce split: option.splits)
  qed simp
qed simp

lemma find_sub_long: "length xs < length ys \<Longrightarrow> find_sub ys xs = None"
proof (induction ys xs rule: find_sub.induct)
  case (2 ys x xs)
  then have "length (take (length ys) (x # xs)) \<noteq> length ys" by simp
  then have "take (length ys) (x # xs) \<noteq> ys" by metis
  with 2 show ?case by simp
qed auto

lemma strstr_loop_spec:
  assumes b: "str_at m b ys" and n: "ys \<noteq> []"
  shows "str_at m a xs \<Longrightarrow> strstr_loop (length xs) (length ys) a b m = Some (map_option (\<lambda>i. a + i) (find_sub ys xs))"
proof (induction xs arbitrary: a)
  case Nil
  with n show ?case by (subst strstr_loop.simps) simp
next
  case (Cons x xs)
  show ?case
  proof (cases "length ys \<le> length (x # xs)")
    case True
    have "rt_memcmp (length ys) a b m = Some (first_difference (take (length ys) ((x # xs) @ [0])) (take (length ys) (ys @ [0])))"
      using rt_memcmp_spec [of m a "length ys" b] str_at_mapped [OF Cons.prems, of "length ys"] str_at_mapped [OF b, of "length ys"] True by simp
    moreover have "take (length ys) ((x # xs) @ [0]) = take (length ys) (x # xs)" unfolding take_append using True by simp
    moreover have "first_difference (take (length ys) (x # xs)) ys = 0 \<longleftrightarrow> take (length ys) (x # xs) = ys"
      by (rule first_difference_zero) (use True in simp)
    ultimately show ?thesis using Cons.IH [of "Suc a"] Cons.prems n True
      by (subst strstr_loop.simps) (auto simp: option.map_comp o_def)
  next
    case False
    with n find_sub_long [of "x # xs" ys] show ?thesis by (subst strstr_loop.simps) simp
  qed
qed

lemma rt_strstr_spec:
  assumes "str_at m a xs" "str_at m b ys"
  shows "rt_strstr a b m = Some (map_option (\<lambda>i. a + i) (find_sub ys xs))"
proof (cases "ys = []")
  case True
  then have "find_sub ys xs = Some 0" by (cases xs) simp_all
  with True rt_strlen_spec [OF assms(2)] show ?thesis by (simp add: rt_strstr_def)
next
  case False
  with strstr_loop_spec [OF assms(2) False assms(1)] rt_strlen_spec [OF assms(1)] rt_strlen_spec [OF assms(2)]
  show ?thesis by (simp add: rt_strstr_def)
qed

lemma strrchr_loop_spec:
  assumes "str_at m s cs" "k \<le> length cs"
  shows "\<exists>j \<le> k. strrchr_loop s (s + k) c m = Some (s + j, (cs @ [0]) ! j) \<and> (\<forall>i. j < i \<longrightarrow> i \<le> k \<longrightarrow> (cs @ [0]) ! i \<noteq> c) \<and>
    ((cs @ [0]) ! j = c \<or> j = 0)"
  using assms(2)
proof (induction k)
  case 0
  have "m s = Some ((cs @ [0]) ! 0)" using assms(1) by (cases cs) auto
  then show ?case by (subst strrchr_loop.simps) (auto simp: load_def)
next
  case (Suc k)
  have l: "load (s + Suc k) m = Some ((cs @ [0]) ! Suc k)"
    using str_at_nth(1) [OF assms(1), of "Suc k"] str_at_nth(2) [OF assms(1)] Suc.prems
    by (cases "Suc k < length cs") (auto simp: load_def nth_append not_less le_Suc_eq)
  obtain j where j: "j \<le> k" "strrchr_loop s (s + k) c m = Some (s + j, (cs @ [0]) ! j)"
    "\<forall>i. j < i \<longrightarrow> i \<le> k \<longrightarrow> (cs @ [0]) ! i \<noteq> c" "(cs @ [0]) ! j = c \<or> j = 0" using Suc by auto
  show ?case
  proof (cases "(cs @ [0]) ! Suc k = c")
    case True
    with l show ?thesis by (subst strrchr_loop.simps) (auto intro!: exI [of _ "Suc k"])
  next
    case False
    have "strrchr_loop s (s + Suc k) c m = Some (s + j, (cs @ [0]) ! j)"
      using l j(2) False by (subst strrchr_loop.simps) simp
    with j False show ?thesis by (intro exI [of _ j]) (auto simp: le_Suc_eq)
  qed
qed

lemma rt_strrchr_spec:
  assumes s: "str_at m s cs" and c: "c \<noteq> 0"
  shows "rt_strrchr s c m = Some (if int (unat (word_of_int c :: u8)) = c \<and> word_of_int c \<in> set cs
    then Some (s + (length cs - 1 - length (takeWhile (\<lambda>x. x \<noteq> word_of_int c) (rev cs)))) else None)"
proof -
  let ?b = "word_of_int c :: u8" and ?j = "length cs - 1 - length (takeWhile (\<lambda>x. x \<noteq> word_of_int c) (rev cs))"
  obtain j where j: "j \<le> length cs" "strrchr_loop s (s + length cs) ?b m = Some (s + j, (cs @ [0]) ! j)"
    "\<forall>i. j < i \<longrightarrow> i \<le> length cs \<longrightarrow> (cs @ [0]) ! i \<noteq> ?b" "(cs @ [0]) ! j = ?b \<or> j = 0"
    using strrchr_loop_spec [OF s order_refl, of ?b] by blast
  have r: "rt_strrchr s c m = Some (if int (unat ((cs @ [0]) ! j)) \<noteq> c then None else Some (s + j))"
    using j(2) rt_strlen_spec [OF s] by (simp add: rt_strrchr_def)
  have e: "int (unat ((cs @ [0]) ! j)) = c \<longleftrightarrow> int (unat ?b) = c \<and> (cs @ [0]) ! j = ?b" by auto
  show ?thesis
  proof (cases "int (unat ?b) = c")
    case True
    then have z: "?b \<noteq> 0" using c by auto
    show ?thesis
    proof (cases "(cs @ [0]) ! j = ?b")
      case True
      then have jl: "j < length cs" "cs ! j = ?b" using j(1) z by (auto simp: nth_append split: if_splits)
      have "cs = take j cs @ ?b # drop (Suc j) cs" using jl id_take_nth_drop by metis
      moreover have "?b \<notin> set (drop (Suc j) cs)"
      proof
        assume "?b \<in> set (drop (Suc j) cs)"
        then obtain i where i: "i < length cs - Suc j" "cs ! (Suc j + i) = ?b" by (auto simp: in_set_conv_nth)
        then have "Suc j + i < length cs" by simp
        with i(2) j(3) [rule_format, of "Suc j + i"] show False by (simp add: nth_append)
      qed
      moreover have "takeWhile (\<lambda>x. x \<noteq> b) (rev (us @ b # vs)) = rev vs" if "b \<notin> set vs" for b :: u8 and us vs
      proof -
        have "takeWhile (\<lambda>x. x \<noteq> b) (rev vs @ b # rev us) = rev vs @ takeWhile (\<lambda>x. x \<noteq> b) (b # rev us)"
          by (rule takeWhile_append2) (use that in auto)
        then show ?thesis by simp
      qed
      ultimately have "takeWhile (\<lambda>x. x \<noteq> ?b) (rev cs) = rev (drop (Suc j) cs)" by metis
      then have "length (takeWhile (\<lambda>x. x \<noteq> ?b) (rev cs)) = length cs - Suc j" by simp
      with jl True \<open>int (unat ?b) = c\<close> r show ?thesis by (auto dest: nth_mem)
    next
      case False
      then have "j = 0" using j(4) by simp
      have "?b \<notin> set cs"
      proof
        assume "?b \<in> set cs"
        then obtain i where i: "i < length cs" "cs ! i = ?b" by (auto simp: in_set_conv_nth)
        with False \<open>j = 0\<close> have "0 < i" by (cases i) (auto simp: nth_append)
        with j(3) [rule_format, of i] i \<open>j = 0\<close> show False by (simp add: nth_append)
      qed
      with False e r show ?thesis by simp
    qed
  next
    case False
    with e r show ?thesis by simp
  qed
qed

lemma rt_strchrnul_spec:
  "str_at m s cs \<Longrightarrow> rt_strchrnul s c m = Some (s + length (takeWhile (\<lambda>x. int (unat x) \<noteq> c) cs))"
proof (induction cs arbitrary: s)
  case Nil
  then show ?case by (subst rt_strchrnul.simps) (simp add: load_def)
next
  case (Cons x cs)
  then show ?case by (subst rt_strchrnul.simps) (simp add: load_def)
qed

definition lower :: "u8 \<Rightarrow> u8" where
  "lower x = (if 65 \<le> x \<and> x \<le> 90 then x + 32 else x)"

lemma to_lower_lower: "to_lower (int (unat x)) = int (unat (lower x))" "lower x = 0 \<longleftrightarrow> x = 0"
proof -
  have "int (unat (lower x)) = to_lower (int (unat x))"
  proof (cases "65 \<le> x \<and> x \<le> 90")
    case True
    then have "65 \<le> unat x" "unat x \<le> 90" by (simp_all add: word_le_nat_alt)
    moreover from this have "unat (x + 32) = unat x + 32" by (subst unat_add_lem [THEN iffD1]) simp_all
    ultimately show ?thesis using True by (simp add: lower_def to_lower_def del: of_nat_unat)
  next
    case False
    then show ?thesis by (auto simp: lower_def to_lower_def word_le_nat_alt simp del: of_nat_unat)
  qed
  then show "to_lower (int (unat x)) = int (unat (lower x))" by simp
  have "(x + 32 :: u8) \<noteq> 0" if "65 \<le> x" "x \<le> 90"
  proof
    assume "x + 32 = 0"
    then have "x = - 32" by (simp add: eq_neg_iff_add_eq_0)
    with that show False by simp
  qed
  then show "lower x = 0 \<longleftrightarrow> x = 0" by (auto simp: lower_def)
qed

lemma strcasecmp_step:
  assumes "m a = Some x" "m b = Some y"
  shows "rt_strcasecmp a b m = (if lower x = lower y \<and> x \<noteq> 0 then rt_strcasecmp (Suc a) (Suc b) m
    else Some (int (unat (lower x)) - int (unat (lower y))))"
proof -
  have c: "(int (unat (lower x)) = int (unat (lower y)) \<and> int (unat (lower x)) \<noteq> 0) = (lower x = lower y \<and> x \<noteq> 0)"
    using to_lower_lower(2) [of x] by (auto simp: uint_0_iff dest: unsigned_word_eqI)
  show ?thesis
    by (subst rt_strcasecmp.simps) (simp only: load_def to_lower_lower(1) Let_def assms bind.bind_lunit c Suc_eq_plus1)
qed

lemma rt_strcasecmp_spec:
  "str_at m a xs \<Longrightarrow> str_at m b ys \<Longrightarrow> rt_strcasecmp a b m = Some (first_difference (map lower xs @ [0]) (map lower ys @ [0]))"
proof (induction xs arbitrary: a b ys)
  case Nil
  have "lower 0 = 0" by (simp add: lower_def)
  with Nil show ?case by (cases ys) (auto simp: strcasecmp_step simp del: of_nat_unat)
next
  case (Cons x xs)
  have "lower 0 = 0" by (simp add: lower_def)
  with Cons to_lower_lower(2) [of x] show ?case by (cases ys) (auto simp: strcasecmp_step simp del: of_nat_unat)
qed

section \<open>Tokens\<close>

text \<open>The maximal runs of bytes that are no delimiters.\<close>

function tokens :: "u8 set \<Rightarrow> u8 list \<Rightarrow> u8 list list" where
  "tokens D cs =
     (let rest = dropWhile (\<lambda>x. x \<in> D) cs in
      if rest = [] then [] else takeWhile (\<lambda>x. x \<notin> D) rest # tokens D (tl (dropWhile (\<lambda>x. x \<notin> D) rest)))"
  by pat_completeness auto
termination
proof (relation "measure (\<lambda>(D, cs). length cs)")
  fix D :: "u8 set" and cs :: "u8 list" and rest
  assume r: "rest = dropWhile (\<lambda>x. x \<in> D) cs" "rest \<noteq> []"
  have "0 < length rest" using r(2) by simp
  moreover have "length rest \<le> length cs" unfolding r(1) by (rule length_dropWhile_le)
  moreover have "length (dropWhile (\<lambda>x. x \<notin> D) rest) \<le> length rest" by (rule length_dropWhile_le)
  ultimately have "length (tl (dropWhile (\<lambda>x. x \<notin> D) rest)) < length cs" unfolding length_tl by linarith
  then show "((D, tl (dropWhile (\<lambda>x. x \<notin> D) rest)), (D, cs)) \<in> measure (\<lambda>(D, cs). length cs)" by simp
qed simp

declare tokens.simps [simp del]

text \<open>A caller that collects all tokens: \<open>rt_strtok_r\<close> with the string, then with a null pointer.\<close>

fun strtok_run :: "nat \<Rightarrow> nat option \<Rightarrow> nat \<Rightarrow> nat option \<Rightarrow> memory \<Rightarrow> (nat list \<times> memory) option" where
  "strtok_run 0 s delim cxt m = None"
| "strtok_run (Suc n) s delim cxt m = do {
     (tok, cxt, m) \<leftarrow> rt_strtok_r s delim cxt m;
     (case tok of
        None \<Rightarrow> Some ([], m)
      | Some p \<Rightarrow> do { (ps, m) \<leftarrow> strtok_run n None delim cxt m; Some (p # ps, m) })
   }"

lemma str_at_frame:
  assumes "str_at m a cs" "\<And>i. i \<le> length cs \<Longrightarrow> m' (a + i) = m (a + i)"
  shows "str_at m' a cs"
  using str_at_nth(1,2,3) [OF assms(1)] assms(2) by (intro str_atI) auto

lemma str_at_cut:
  assumes "str_at m a (xs @ ys)"
  shows "str_at (m(a + length xs \<mapsto> 0)) a xs"
  using str_at_nth(1) [OF assms] str_at_nth(3) [OF assms] by (intro str_atI) (auto simp: nth_append)

lemma str_at_load: "str_at m a cs \<Longrightarrow> load a m = Some (case cs of [] \<Rightarrow> 0 | x # _ \<Rightarrow> x)"
  by (cases cs) (simp_all add: load_def)

lemma strtok_step:
  assumes s: "str_at m a cs" and d: "str_at m delim ds" and c: "(case s of None \<Rightarrow> cxt | Some p \<Rightarrow> Some p) = Some a"
  defines "n \<equiv> length (takeWhile (\<lambda>x. x \<in> set ds) cs)" and "rest \<equiv> dropWhile (\<lambda>x. x \<in> set ds) cs"
  defines "tok \<equiv> takeWhile (\<lambda>x. x \<notin> set ds) rest" and "after \<equiv> dropWhile (\<lambda>x. x \<notin> set ds) rest"
  shows "rest = [] \<Longrightarrow> rt_strtok_r s delim cxt m = Some (None, cxt, m)"
    "rest \<noteq> [] \<Longrightarrow> after = [] \<Longrightarrow> rt_strtok_r s delim cxt m = Some (Some (a + n), Some (a + n + length tok), m)"
    "after \<noteq> [] \<Longrightarrow> rt_strtok_r s delim cxt m =
      Some (Some (a + n), Some (a + n + length tok + 1), m(a + n + length tok \<mapsto> 0))"
proof -
  have cs: "cs = takeWhile (\<lambda>x. x \<in> set ds) cs @ rest" "rest = tok @ after" by (simp_all add: rest_def tok_def after_def)
  then have nl: "n \<le> length cs" "drop n cs = rest" unfolding n_def by (metis length_append le_add1, metis append_eq_conv_conj)
  have r: "str_at m (a + n) rest" using str_at_nth(4) [OF s nl(1)] nl(2) by simp
  have t: "str_at m (a + n + length tok) after" using str_at_nth(4) [OF r, of "length tok"] cs(2) by simp
  have sp: "rt_strspn a delim m = Some n" "rt_strcspn (a + n) delim m = Some (length tok)"
    using rt_strspn_spec [OF d s] rt_strcspn_spec [OF d r] by (simp_all add: n_def tok_def)
  have p: "(if s = None then cxt else s) = Some a" using c by (auto split: option.splits)
  have l: "load (a + n) m = Some (case rest of [] \<Rightarrow> 0 | x # _ \<Rightarrow> x)" "load (a + n + length tok) m = Some (case after of [] \<Rightarrow> 0 | x # _ \<Rightarrow> x)"
    using str_at_load [OF r] str_at_load [OF t] by simp_all
  have z: "rest \<noteq> [] \<Longrightarrow> hd rest \<noteq> 0" "after \<noteq> [] \<Longrightarrow> hd after \<noteq> 0" using str_at_nth(3) [OF r] str_at_nth(3) [OF t] by (metis hd_in_set)+
  have h: "(case xs of [] \<Rightarrow> 0 | x # _ \<Rightarrow> x) = hd xs" if "xs \<noteq> []" for xs :: "u8 list" using that by (cases xs) simp_all
  show "rest = [] \<Longrightarrow> rt_strtok_r s delim cxt m = Some (None, cxt, m)"
    unfolding rt_strtok_r_def p using sp l by (simp add: Let_def)
  show "rest \<noteq> [] \<Longrightarrow> after = [] \<Longrightarrow> rt_strtok_r s delim cxt m = Some (Some (a + n), Some (a + n + length tok), m)"
    unfolding rt_strtok_r_def p using sp l z h by (simp add: Let_def)
  show "rt_strtok_r s delim cxt m = Some (Some (a + n), Some (a + n + length tok + 1), m(a + n + length tok \<mapsto> 0))"
    if a: "after \<noteq> []"
  proof -
    have "rest \<noteq> []" using cs(2) a by simp
    with l z h a have "load (a + n) m = Some (hd rest)" "hd rest \<noteq> 0" "load (a + n + length tok) m = Some (hd after)" "hd after \<noteq> 0"
      by simp_all
    then show ?thesis unfolding rt_strtok_r_def p using sp by (simp add: Let_def store_def) (simp add: load_def)
  qed
qed

text \<open>All calls together.\<close>

lemma strtok_run_tokens:
  assumes "str_at m a cs" "str_at m delim ds" "a + length cs < delim \<or> delim + length ds < a" "length cs < n"
    and "(case s of None \<Rightarrow> cxt | Some p \<Rightarrow> Some p) = Some a"
  shows "\<exists>ps m'. strtok_run n s delim cxt m = Some (ps, m') \<and> list_all2 (str_at m') ps (tokens (set ds) cs) \<and>
    (\<forall>b. b < a \<or> a + length cs \<le> b \<longrightarrow> m' b = m b)"
  using assms
proof (induction n arbitrary: s a cs cxt m)
  case (Suc n)
  define k where "k = length (takeWhile (\<lambda>x. x \<in> set ds) cs)"
  define rest where "rest = dropWhile (\<lambda>x. x \<in> set ds) cs"
  define tok where "tok = takeWhile (\<lambda>x. x \<notin> set ds) rest"
  define after where "after = dropWhile (\<lambda>x. x \<notin> set ds) rest"
  let ?e = "a + k + length tok"
  note st = strtok_step [OF Suc.prems(1,2,5), folded k_def rest_def, folded tok_def after_def]
  have rt: "rest = tok @ after" by (simp add: tok_def after_def)
  have le: "length cs = k + length tok + length after"
  proof -
    have "length cs = k + length rest"
      using length_append [of "takeWhile (\<lambda>x. x \<in> set ds) cs" rest] unfolding k_def rest_def takeWhile_dropWhile_id .
    then show ?thesis unfolding rt by simp
  qed
  have "drop k cs = rest" unfolding k_def rest_def by (metis dropWhile_eq_drop)
  then have r: "str_at m (a + k) rest" using str_at_nth(4) [OF Suc.prems(1), of k] le by simp
  have t: "str_at m ?e after" using str_at_nth(4) [OF r, of "length tok"] by (simp add: rt)
  show ?case
  proof (cases "rest = []")
    case True
    then have "tokens (set ds) cs = []" by (subst tokens.simps) (simp add: Let_def rest_def [symmetric])
    with st(1) [OF True] show ?thesis by (intro exI [of _ "[]"]) simp
  next
    case False
    then have tk: "tokens (set ds) cs = tok # tokens (set ds) (tl after)"
      by (subst tokens.simps) (simp add: Let_def rest_def [symmetric] tok_def after_def)
    have "hd rest \<notin> set ds" using hd_dropWhile [of "\<lambda>x. x \<in> set ds" cs] False unfolding rest_def by metis
    then have "0 < length tok" using False unfolding tok_def by (cases rest) auto
    obtain a2 m2 where n: "rt_strtok_r s delim cxt m = Some (Some (a + k), Some a2, m2)" "str_at m2 a2 (tl after)"
      "\<forall>b. b < a \<or> a + length cs \<le> b \<longrightarrow> m2 b = m b" "str_at m2 (a + k) tok" "?e < a2 \<or> ?e = a2 \<and> after = []"
      "a2 + length (tl after) \<le> a + length cs"
    proof (cases "after = []")
      case True
      with that [of ?e m] st(2) [OF False True] t r rt le show thesis by simp
    next
      case False
      then obtain x xs where x: "after = x # xs" by (cases after) auto
      have "str_at (m(?e \<mapsto> 0)) (?e + 1) xs" by (rule str_at_frame [of m]) (use t in \<open>simp_all add: x\<close>)
      moreover have "str_at (m(?e \<mapsto> 0)) (a + k) tok" by (rule str_at_cut [of m _ _ after]) (use r in \<open>simp add: rt\<close>)
      ultimately show thesis using that [of "?e + 1" "m(?e \<mapsto> 0)"] st(3) [OF False] le x by simp
    qed
    have d2: "str_at m2 delim ds"
    proof (rule str_at_frame [OF Suc.prems(2)])
      fix i assume "i \<le> length ds"
      then have "delim + i < a \<or> a + length cs \<le> delim + i" using Suc.prems(3) by linarith
      then show "m2 (delim + i) = m (delim + i)" using n(3) by blast
    qed
    have o: "a2 + length (tl after) < delim \<or> delim + length ds < a2" "length (tl after) < n"
      using Suc.prems(3,4) n(5,6) le \<open>0 < length tok\<close> by linarith+
    have "(case None of None \<Rightarrow> Some a2 | Some p \<Rightarrow> Some p) = Some a2" by simp
    from Suc.IH [OF n(2) d2 o this] obtain ps m' where m': "strtok_run n None delim (Some a2) m2 = Some (ps, m')"
      "list_all2 (str_at m') ps (tokens (set ds) (tl after))" "\<forall>b. b < a2 \<or> a2 + length (tl after) \<le> b \<longrightarrow> m' b = m2 b" by blast
    have "str_at m' (a + k) tok"
    proof (rule str_at_frame [OF n(4)])
      fix i assume "i \<le> length tok"
      then have "a + k + i < a2 \<or> a2 + length (tl after) \<le> a + k + i"
        using n(5) by auto
      then show "m' (a + k + i) = m2 (a + k + i)" using m'(3) by blast
    qed
    moreover have "m' b = m b" if "b < a \<or> a + length cs \<le> b" for b
    proof -
      have "b < a2 \<or> a2 + length (tl after) \<le> b" using that n(5,6) by linarith
      then have "m' b = m2 b" using m'(3) by blast
      also have "\<dots> = m b" using n(3) that by blast
      finally show ?thesis .
    qed
    ultimately show ?thesis using n(1) m'(1,2) tk by simp
  qed
qed simp

section \<open>Properties\<close>

text \<open>The text a,bc at address 0, the delimiters at 10, \<open>bc\<close> at 20, and the byte 233 at 30.\<close>

definition sample_text :: memory where
  "sample_text = (\<lambda>_. None)(0 \<mapsto> 97, 1 \<mapsto> 44, 2 \<mapsto> 98, 3 \<mapsto> 99, 4 \<mapsto> 0, 10 \<mapsto> 44, 11 \<mapsto> 0,
     20 \<mapsto> 98, 21 \<mapsto> 99, 22 \<mapsto> 0, 30 \<mapsto> 233, 31 \<mapsto> 0)"

lemma sample_strings:
  "str_at sample_text 0 [97, 44, 98, 99]" "str_at sample_text 10 [44]" "str_at sample_text 20 [98, 99]" "str_at sample_text 30 [233]"
  by (simp_all add: sample_text_def)

text \<open>
  rt_strstr returns the first place where the second string occurs in the first, a null pointer if
  it does not occur, and the first string itself for an empty second one; rt_strchr finds the first
  byte, rt_strspn and rt_strcspn measure the longest prefix inside and outside of a set of bytes.
\<close>
lemma string_search_finds_first_occurrence:
  assumes "str_at m a xs" "str_at m b ys"
  shows "(\<exists>r. rt_strstr a b m = Some r \<and> (case r of
       None \<Rightarrow> \<forall>i. take (length ys) (drop i xs) \<noteq> ys
     | Some p \<Rightarrow> \<exists>i. p = a + i \<and> take (length ys) (drop i xs) = ys \<and> (\<forall>j<i. take (length ys) (drop j xs) \<noteq> ys))) \<and>
    rt_strchr a c m = Some (if word_of_int c \<in> set xs then Some (a + length (takeWhile (\<lambda>x. x \<noteq> word_of_int c) xs)) else None) \<and>
    rt_strspn a b m = Some (length (takeWhile (\<lambda>x. x \<in> set ys) xs)) \<and>
    rt_strcspn a b m = Some (length (takeWhile (\<lambda>x. x \<notin> set ys) xs))"
  using rt_strstr_spec [OF assms] find_sub_first [of ys xs] rt_strchr_spec [OF assms(1)] rt_strspn_spec [OF assms(2,1)]
    rt_strcspn_spec [OF assms(2,1)] by (auto split: option.splits)

lemma string_search_finds_first_occurrence_witness:
  "rt_strstr 0 20 sample_text = Some (Some 2) \<and> rt_strcspn 0 10 sample_text = Some 1"
proof -
  have len: "length [98, 99 :: u8] = 2" by simp
  note w = string_search_finds_first_occurrence [OF sample_strings(1,3), of 0] string_search_finds_first_occurrence [OF sample_strings(1,2), of 0]
  obtain r where r: "rt_strstr 0 20 sample_text = Some r" "case r of
       None \<Rightarrow> \<forall>i. take 2 (drop i [97, 44, 98, 99 :: u8]) \<noteq> [98, 99]
     | Some p \<Rightarrow> \<exists>i. p = 0 + i \<and> take 2 (drop i [97, 44, 98, 99 :: u8]) = [98, 99] \<and> (\<forall>j<i. take 2 (drop j [97, 44, 98, 99 :: u8]) \<noteq> [98, 99])"
    using conjunct1 [OF w(1)] unfolding len by blast
  have e: "take 2 (drop i [97, 44, 98, 99 :: u8]) = [98, 99] \<longleftrightarrow> i = 2" for i
    by (auto simp: drop_Cons' take_Cons' split: if_splits)
  have "r = Some 2" using r(2) unfolding e by (auto split: option.splits)
  with r(1) w(2) show ?thesis by simp
qed

text \<open>
  C29: Repeated rt_strtok_r calls return exactly the maximal runs of bytes that are no delimiters, in
  order, each a terminated string when all calls are done, and write nothing outside of the string.
\<close>
theorem strtok_yields_the_tokens:
  assumes "str_at m a cs" "str_at m delim ds" "a + length cs < delim \<or> delim + length ds < a" "length cs < n"
  shows "\<exists>ps m'. strtok_run n (Some a) delim cxt m = Some (ps, m') \<and> list_all2 (str_at m') ps (tokens (set ds) cs) \<and>
    (\<forall>b. b < a \<or> a + length cs \<le> b \<longrightarrow> m' b = m b)"
  using strtok_run_tokens [OF assms, where s = "Some a" and cxt = cxt] by simp

theorem strtok_yields_the_tokens_witness:
  "\<exists>p q m'. strtok_run 5 (Some 0) 10 None sample_text = Some ([p, q], m') \<and> str_at m' p [97] \<and> str_at m' q [98, 99]"
proof -
  have "tokens {44} [97, 44, 98, 99] = [[97], [98, 99]]" by (simp add: tokens.simps)
  then have t: "tokens (set [44]) [97, 44, 98, 99] = [[97], [98, 99]]" by simp
  show ?thesis using strtok_yields_the_tokens [OF sample_strings(1,2), of 5 None] unfolding t by (auto simp: list_all2_Cons2)
qed

text \<open>
  rt_strcmp returns the first difference of the strings with their terminators; rt_strncmp returns
  0 exactly when the first n bytes of the strings agree, but keeps the difference in a signed char, so
  its sign is wrong for bytes 128 or more apart: the string of the byte 233 compares below the letter a.
\<close>
lemma strncmp_exact_equality_wrong_order:
  assumes "str_at m a xs" "str_at m b ys"
  shows "rt_strcmp a b m = Some (first_difference (xs @ [0]) (ys @ [0])) \<and>
    (\<exists>r. rt_strncmp a b n m = Some r \<and> r = signed_char (first_difference (take n (xs @ [0])) (take n (ys @ [0]))) \<and>
       (r = 0 \<longleftrightarrow> take n xs = take n ys)) \<and>
    (\<exists>r. rt_strncmp 30 0 1 sample_text = Some r \<and> r < 0)"
proof (intro conjI)
  show "rt_strcmp a b m = Some (first_difference (xs @ [0]) (ys @ [0]))" by (rule rt_strcmp_spec [OF assms])
  show "\<exists>r. rt_strncmp 30 0 1 sample_text = Some r \<and> r < 0"
    by (simp add: rt_strncmp_def load_def sample_text_def signed_char_def)
  have "signed_char (first_difference us vs) = 0 \<longleftrightarrow> first_difference us vs = 0" for us vs
  proof (induction us vs rule: first_difference.induct)
    case (1 x xs y ys)
    then show ?case using signed_char_zero [of x y] by (auto simp: signed_char_def dest: unsigned_word_eqI)
  qed (simp_all add: signed_char_def)
  moreover have "first_difference (take n (us @ [0])) (take n (vs @ [0])) = 0 \<longleftrightarrow> take n us = take n vs"
    if "0 \<notin> set us" "0 \<notin> set vs" for us vs :: "u8 list"
    using that
  proof (induction us arbitrary: vs n)
    case Nil
    then show ?case by (cases vs; cases n) (auto dest: unsigned_word_eqI simp: uint_0_iff)
  next
    case (Cons u us)
    then show ?case by (cases vs; cases n) (auto dest: unsigned_word_eqI simp: uint_0_iff)
  qed
  ultimately show "\<exists>r. rt_strncmp a b n m = Some r \<and> r = signed_char (first_difference (take n (xs @ [0])) (take n (ys @ [0]))) \<and>
       (r = 0 \<longleftrightarrow> take n xs = take n ys)"
    using strncmp_loop_spec [OF assms] str_at_nth(3) [OF assms(1)] str_at_nth(3) [OF assms(2)] by (simp add: rt_strncmp_def)
qed

lemma strncmp_exact_equality_wrong_order_witness:
  "rt_strcmp 20 20 sample_text = Some 0 \<and> rt_strncmp 20 20 2 sample_text = Some 0"
proof -
  note w = strncmp_exact_equality_wrong_order [OF sample_strings(3,3), of 2]
  have "rt_strcmp 20 20 sample_text = Some 0" using conjunct1 [OF w] by simp
  moreover have "rt_strncmp 20 20 2 sample_text = Some 0" using conjunct1 [OF conjunct2 [OF w]] by auto
  ultimately show ?thesis ..
qed

end
