(* ===== verification/Object_Container.thy ===== *)
theory Object_Container
  imports Kservice_String
begin

text \<open>
  The registry of kernel objects (\<open>src/object.c\<close>): one list per class of objects, in the order of the
  enumeration \<open>rt_object_info_type\<close> of the target (no \<open>RT_USING_MODULE\<close>, no \<open>RT_USING_SMART\<close>). An object is
  its address; its name is its first field, \<open>RT_NAME_MAX\<close> bytes of memory. A list head that the table
  does not initialise is \<open>None\<close>, and walking along it a fault.
\<close>

section \<open>State\<close>

abbreviation (input) RT_NAME_MAX :: nat where "RT_NAME_MAX \<equiv> 8"

text \<open>\<open>enum rt_object_class_type\<close>.\<close>

abbreviation (input) RT_Object_Class_Null :: u8 where "RT_Object_Class_Null \<equiv> 0"
abbreviation (input) RT_Object_Class_Thread :: u8 where "RT_Object_Class_Thread \<equiv> 1"
abbreviation (input) RT_Object_Class_Semaphore :: u8 where "RT_Object_Class_Semaphore \<equiv> 2"
abbreviation (input) RT_Object_Class_Mutex :: u8 where "RT_Object_Class_Mutex \<equiv> 3"
abbreviation (input) RT_Object_Class_Event :: u8 where "RT_Object_Class_Event \<equiv> 4"
abbreviation (input) RT_Object_Class_MailBox :: u8 where "RT_Object_Class_MailBox \<equiv> 5"
abbreviation (input) RT_Object_Class_MessageQueue :: u8 where "RT_Object_Class_MessageQueue \<equiv> 6"
abbreviation (input) RT_Object_Class_MemHeap :: u8 where "RT_Object_Class_MemHeap \<equiv> 7"
abbreviation (input) RT_Object_Class_MemPool :: u8 where "RT_Object_Class_MemPool \<equiv> 8"
abbreviation (input) RT_Object_Class_Device :: u8 where "RT_Object_Class_Device \<equiv> 9"
abbreviation (input) RT_Object_Class_Timer :: u8 where "RT_Object_Class_Timer \<equiv> 10"
abbreviation (input) RT_Object_Class_Memory :: u8 where "RT_Object_Class_Memory \<equiv> 12"
abbreviation (input) RT_Object_Class_Custom :: u8 where "RT_Object_Class_Custom \<equiv> 14"
abbreviation (input) RT_Object_Class_Static :: u8 where "RT_Object_Class_Static \<equiv> 0x80"

record rt_object =
  ob_type :: u8
  ob_flag :: u8
  ob_destroy :: "nat option"
  ob_data :: nat

record rt_object_information =
  oi_type :: u8
  oi_list :: "nat list option"
  oi_size :: nat

record objects =
  os_object :: "nat \<Rightarrow> rt_object"
  os_container :: "rt_object_information list"
  os_mem :: memory
  os_irq_nest :: nat

text \<open>
  \<open>_object_container\<close>: eleven initialised entries (\<open>sizes\<close> gives the sizes of the structures) and the entry
  of \<open>RT_Object_Info_Custom\<close>, which has no initialiser.
\<close>

definition object_container :: "(u8 \<Rightarrow> nat) \<Rightarrow> rt_object_information list" where
  "object_container sizes =
     map (\<lambda>c. \<lparr>oi_type = c, oi_list = Some [], oi_size = sizes c\<rparr>)
       [RT_Object_Class_Thread, RT_Object_Class_Semaphore, RT_Object_Class_Mutex, RT_Object_Class_Event,
        RT_Object_Class_MailBox, RT_Object_Class_MessageQueue, RT_Object_Class_MemHeap, RT_Object_Class_MemPool,
        RT_Object_Class_Device, RT_Object_Class_Timer, RT_Object_Class_Memory] @
     [\<lparr>oi_type = 0, oi_list = None, oi_size = 0\<rparr>]"

definition upd_object :: "nat \<Rightarrow> (rt_object \<Rightarrow> rt_object) \<Rightarrow> objects \<Rightarrow> objects" where
  "upd_object p f s = s\<lparr>os_object := (os_object s)(p := f (os_object s p))\<rparr>"

section \<open>Operations\<close>

fun info_loop :: "u8 \<Rightarrow> nat \<Rightarrow> rt_object_information list \<Rightarrow> nat option" where
  "info_loop type index [] = None"
| "info_loop type index (e # es) = (if oi_type e = type then Some index else info_loop type (index + 1) es)"

text \<open>The index of the entry.\<close>

definition rt_object_get_information :: "u8 \<Rightarrow> objects \<Rightarrow> nat option" where
  "rt_object_get_information type s = info_loop type 0 (os_container s)"

abbreviation (input) object_list :: "nat \<Rightarrow> objects \<Rightarrow> nat list option" where
  "object_list i s \<equiv> oi_list (os_container s ! i)"

definition rt_object_get_length :: "u8 \<Rightarrow> objects \<Rightarrow> int option" where
  "rt_object_get_length type s =
     (case rt_object_get_information type s of
        None \<Rightarrow> Some 0
      | Some i \<Rightarrow> do { l \<leftarrow> object_list i s; Some (foldl (\<lambda>count node. count + 1) 0 l) })"

fun pointers_loop :: "nat list \<Rightarrow> int \<Rightarrow> nat list \<Rightarrow> nat list" where
  "pointers_loop [] maxlen ps = ps"
| "pointers_loop (ob # l) maxlen ps =
     (let ps = ps @ [ob] in if maxlen \<le> int (length ps) then ps else pointers_loop l maxlen ps)"

text \<open>The array \<open>pointers\<close> up to the index that is returned.\<close>

definition rt_object_get_pointers :: "u8 \<Rightarrow> int \<Rightarrow> objects \<Rightarrow> nat list option" where
  "rt_object_get_pointers type maxlen s =
     (if maxlen \<le> 0 then Some []
      else case rt_object_get_information type s of
        None \<Rightarrow> Some []
      | Some i \<Rightarrow> do { l \<leftarrow> object_list i s; Some (pointers_loop l maxlen []) })"

text \<open>\<open>rt_list_insert_after\<close> the head of a list, and \<open>rt_list_remove\<close> from the list that holds the object.\<close>

definition insert_object :: "nat \<Rightarrow> nat \<Rightarrow> objects \<Rightarrow> objects option" where
  "insert_object i p s = do {
     l \<leftarrow> object_list i s;
     Some (s\<lparr>os_container := (os_container s)[i := (os_container s ! i)\<lparr>oi_list := Some (p # l)\<rparr>]\<rparr>)
   }"

definition remove_object :: "nat \<Rightarrow> objects \<Rightarrow> objects" where
  "remove_object p s = s\<lparr>os_container := map (\<lambda>e. e\<lparr>oi_list := map_option (removeAll p) (oi_list e)\<rparr>) (os_container s)\<rparr>"

definition set_name :: "nat \<Rightarrow> nat \<Rightarrow> objects \<Rightarrow> objects option" where
  "set_name p name s = do {
     (_, m) \<leftarrow> rt_strncpy p name RT_NAME_MAX (os_mem s);
     Some (s\<lparr>os_mem := m\<rparr>)
   }"

definition rt_object_init :: "nat \<Rightarrow> u8 \<Rightarrow> nat \<Rightarrow> objects \<Rightarrow> objects option" where
  "rt_object_init p type name s =
     (case rt_object_get_information type s of
        None \<Rightarrow> None
      | Some i \<Rightarrow> do {
          l \<leftarrow> object_list i s;
          rt_assert (p \<notin> set l);
          let s = upd_object p (\<lambda>x. x\<lparr>ob_type := type OR RT_Object_Class_Static\<rparr>) s;
          s \<leftarrow> set_name p name s;
          insert_object i p s
        })"

definition rt_object_detach :: "nat \<Rightarrow> objects \<Rightarrow> objects option" where
  "rt_object_detach p s =
     (let s = upd_object p (\<lambda>x. x\<lparr>ob_type := 0\<rparr>) s in Some (remove_object p s))"

text \<open>\<open>RT_KERNEL_MALLOC\<close> is the parameter \<open>malloc\<close>; a returned \<open>None\<close> inside is a null pointer.\<close>

definition rt_object_allocate :: "(nat \<Rightarrow> memory \<Rightarrow> nat option \<times> memory) \<Rightarrow> u8 \<Rightarrow> nat \<Rightarrow> objects \<Rightarrow> (nat option \<times> objects) option" where
  "rt_object_allocate malloc type name s = do {
     rt_assert (os_irq_nest s = 0);
     (case rt_object_get_information type s of
        None \<Rightarrow> None
      | Some i \<Rightarrow>
          (case malloc (oi_size (os_container s ! i)) (os_mem s) of
             (None, m) \<Rightarrow> Some (None, s\<lparr>os_mem := m\<rparr>)
           | (Some p, m) \<Rightarrow> do {
               (_, m) \<leftarrow> rt_memset p 0 (oi_size (os_container s ! i)) m;
               let s = upd_object p (\<lambda>x. \<lparr>ob_type = type, ob_flag = 0, ob_destroy = None, ob_data = 0\<rparr>) (s\<lparr>os_mem := m\<rparr>);
               s \<leftarrow> set_name p name s;
               s \<leftarrow> insert_object i p s;
               Some (Some p, s)
             }))
   }"

definition rt_object_delete :: "(nat \<Rightarrow> memory \<Rightarrow> memory) \<Rightarrow> nat \<Rightarrow> objects \<Rightarrow> objects option" where
  "rt_object_delete dealloc p s = do {
     rt_assert (ob_type (os_object s p) AND RT_Object_Class_Static = 0);
     let s = upd_object p (\<lambda>x. x\<lparr>ob_type := RT_Object_Class_Null\<rparr>) s;
     let s = remove_object p s;
     Some (s\<lparr>os_mem := dealloc p (os_mem s)\<rparr>)
   }"

definition rt_object_is_systemobject :: "nat \<Rightarrow> objects \<Rightarrow> bool" where
  "rt_object_is_systemobject p s \<longleftrightarrow> ob_type (os_object s p) AND RT_Object_Class_Static \<noteq> 0"

definition rt_object_get_type :: "nat \<Rightarrow> objects \<Rightarrow> u8" where
  "rt_object_get_type p s = ob_type (os_object s p) AND NOT RT_Object_Class_Static"

fun find_loop :: "nat \<Rightarrow> nat list \<Rightarrow> memory \<Rightarrow> nat option option" where
  "find_loop name [] m = Some None"
| "find_loop name (p # l) m = do {
     r \<leftarrow> rt_strncmp p name RT_NAME_MAX m;
     if r = 0 then Some (Some p) else find_loop name l m
   }"

definition rt_object_find :: "nat option \<Rightarrow> u8 \<Rightarrow> objects \<Rightarrow> nat option option" where
  "rt_object_find name type s =
     (case (name, rt_object_get_information type s) of
        (Some n, Some i) \<Rightarrow> do {
          rt_assert (os_irq_nest s = 0);
          l \<leftarrow> object_list i s;
          find_loop n l (os_mem s)
        }
      | _ \<Rightarrow> Some None)"

definition rt_custom_object_create ::
  "(nat \<Rightarrow> memory \<Rightarrow> nat option \<times> memory) \<Rightarrow> nat \<Rightarrow> nat \<Rightarrow> nat option \<Rightarrow> objects \<Rightarrow> (nat option \<times> objects) option" where
  "rt_custom_object_create malloc name data data_destroy s = do {
     (cobj, s) \<leftarrow> rt_object_allocate malloc RT_Object_Class_Custom name s;
     (case cobj of
        None \<Rightarrow> Some (None, s)
      | Some p \<Rightarrow> Some (Some p, upd_object p (\<lambda>x. x\<lparr>ob_destroy := data_destroy, ob_data := data\<rparr>) s))
   }"

text \<open>\<open>call f d\<close> is the value of the destroy function \<open>f\<close> for the data \<open>d\<close>.\<close>

definition rt_custom_object_destroy ::
  "(nat \<Rightarrow> nat \<Rightarrow> int) \<Rightarrow> (nat \<Rightarrow> memory \<Rightarrow> memory) \<Rightarrow> nat option \<Rightarrow> objects \<Rightarrow> (int \<times> objects) option" where
  "rt_custom_object_destroy call dealloc ob s =
     (case ob of
        None \<Rightarrow> Some (- 1, s)
      | Some p \<Rightarrow>
          (if ob_type (os_object s p) = RT_Object_Class_Custom
           then do {
             let ret = (case ob_destroy (os_object s p) of None \<Rightarrow> - 1 | Some f \<Rightarrow> call f (ob_data (os_object s p)));
             s \<leftarrow> rt_object_delete dealloc p s;
             Some (ret, s)
           }
           else Some (- 1, s)))"

section \<open>Names\<close>

text \<open>What a name field says: its bytes up to a zero, at most all of them.\<close>

definition object_name :: "nat \<Rightarrow> memory \<Rightarrow> u8 list" where
  "object_name p m = takeWhile (\<lambda>c. c \<noteq> 0) (region m p RT_NAME_MAX)"

text \<open>\<open>rt_strncmp\<close> of a field that may lack a terminator and a string.\<close>

lemma strncmp_field:
  "mapped m p n \<Longrightarrow> str_at m name cs \<Longrightarrow>
   \<exists>r. strncmp_loop n p name 0 m = Some r \<and> (r = 0 \<longleftrightarrow> takeWhile (\<lambda>c. c \<noteq> 0) (region m p n) = take n cs)"
proof (induction n arbitrary: p name cs)
  case 0
  show ?case by (simp add: region_def)
next
  case (Suc n)
  have m: "mapped m (Suc p) n" "m p \<noteq> None" using Suc.prems(1) by (force simp: mapped_def)+
  then obtain x where x: "m p = Some x" by auto
  obtain y where y: "m name = Some y" "y = (case cs of [] \<Rightarrow> 0 | c # _ \<Rightarrow> c)" using Suc.prems(2) by (cases cs) auto
  show ?case
  proof (cases "x = y \<and> x \<noteq> 0")
    case True
    then obtain ds where ds: "cs = x # ds" "str_at m (Suc name) ds" using y Suc.prems(2) by (cases cs) auto
    from Suc.IH [OF m(1) ds(2)] True x y(1) ds(1) show ?thesis
      by (auto simp: load_def region_Suc signed_char_def Let_def)
  next
    case False
    have "takeWhile (\<lambda>c. c \<noteq> 0) (region m p (Suc n)) = take (Suc n) cs \<longleftrightarrow> x = y"
      using False x y(2) str_at_nth(3) [OF Suc.prems(2)] by (cases cs) (auto simp: region_Suc)
    with False x y(1) signed_char_zero [of x y] show ?thesis by (auto simp: load_def Let_def simp del: takeWhile.simps)
  qed
qed

lemma find_loop_spec:
  assumes "str_at m name cs" "\<forall>p \<in> set l. mapped m p RT_NAME_MAX"
  shows "find_loop name l m = Some (List.find (\<lambda>p. object_name p m = take RT_NAME_MAX cs) l)"
  using assms(2)
proof (induction l)
  case (Cons p l)
  obtain r where "rt_strncmp p name RT_NAME_MAX m = Some r" "r = 0 \<longleftrightarrow> object_name p m = take RT_NAME_MAX cs"
    using strncmp_field [of m p RT_NAME_MAX name cs] assms(1) Cons.prems unfolding rt_strncmp_def object_name_def by auto
  with Cons show ?case by simp
qed simp

text \<open>The field after \<open>rt_strncpy\<close>.\<close>

lemma set_name_spec:
  assumes "str_at (os_mem s) name cs" "mapped (os_mem s) p RT_NAME_MAX" "name + length cs < p \<or> p + RT_NAME_MAX \<le> name"
  shows "\<exists>m. set_name p name s = Some (s\<lparr>os_mem := m\<rparr>) \<and> object_name p m = take RT_NAME_MAX cs \<and>
    (\<forall>a. a < p \<or> p + RT_NAME_MAX \<le> a \<longrightarrow> m a = os_mem s a) \<and> (\<forall>a. m a = None \<longleftrightarrow> os_mem s a = None)"
proof -
  let ?m = "written (name_byte cs) p 0 RT_NAME_MAX (os_mem s)"
  have "region ?m p RT_NAME_MAX = take RT_NAME_MAX (cs @ replicate RT_NAME_MAX 0)"
    by (auto simp: region_def written_def nth_append intro!: nth_equalityI)
  then have "object_name p ?m = takeWhile (\<lambda>c. c \<noteq> 0) (take RT_NAME_MAX (cs @ replicate RT_NAME_MAX 0))" by (simp add: object_name_def)
  also have "\<dots> = take RT_NAME_MAX cs"
  proof -
    have "\<forall>c \<in> set (take RT_NAME_MAX cs). c \<noteq> 0" using str_at_nth(3) [OF assms(1)] by (auto dest: in_set_takeD)
    moreover have "takeWhile (\<lambda>c. c \<noteq> 0) (take (RT_NAME_MAX - length cs) (replicate RT_NAME_MAX (0 :: u8))) = []" by simp
    ultimately show ?thesis unfolding take_append by (simp add: takeWhile_append2)
  qed
  finally have "object_name p ?m = take RT_NAME_MAX cs" .
  moreover have "set_name p name s = Some (s\<lparr>os_mem := ?m\<rparr>)" using rt_strncpy_spec [OF assms] by (simp add: set_name_def)
  moreover have "?m a = None \<longleftrightarrow> os_mem s a = None" for a
    using assms(2) by (force simp: written_def mapped_def le_iff_add)
  ultimately show ?thesis by (intro exI [of _ ?m]) (auto simp: written_outside)
qed

section \<open>The registry as lists by class\<close>

definition object_classes :: "u8 list" where
  "object_classes = [1, 2, 3, 4, 5, 6, 7, 8, 9, 10, 12]"

text \<open>The table keeps its types, and only the last entry has no list.\<close>

definition table_ok :: "objects \<Rightarrow> bool" where
  "table_ok s \<longleftrightarrow> map oi_type (os_container s) = object_classes @ [0] \<and>
     (\<forall>i < 11. object_list i s \<noteq> None) \<and> object_list 11 s = None"

definition class_list :: "u8 \<Rightarrow> objects \<Rightarrow> nat list" where
  "class_list c s = (case rt_object_get_information c s of None \<Rightarrow> [] | Some i \<Rightarrow> (case object_list i s of None \<Rightarrow> [] | Some l \<Rightarrow> l))"

definition listed :: "nat \<Rightarrow> objects \<Rightarrow> bool" where
  "listed p s \<longleftrightarrow> (\<exists>c \<in> set object_classes. p \<in> set (class_list c s))"

definition objects_apart :: "nat \<Rightarrow> nat \<Rightarrow> bool" where
  "objects_apart p q \<longleftrightarrow> p + RT_NAME_MAX \<le> q \<or> q + RT_NAME_MAX \<le> p"

text \<open>
  The invariant: an object stands once in the list of its type and in no other, and the objects do not
  overlap.
\<close>

definition registry_ok :: "objects \<Rightarrow> bool" where
  "registry_ok s \<longleftrightarrow> table_ok s \<and>
     (\<forall>c \<in> set object_classes. distinct (class_list c s) \<and>
        (\<forall>p \<in> set (class_list c s). rt_object_get_type p s = c \<and> mapped (os_mem s) p RT_NAME_MAX)) \<and>
     (\<forall>p q. listed p s \<longrightarrow> listed q s \<longrightarrow> p \<noteq> q \<longrightarrow> objects_apart p q)"

lemma info_loop_Some:
  "info_loop c k es = Some i \<Longrightarrow> k \<le> i \<and> i - k < length es \<and> oi_type (es ! (i - k)) = c"
proof (induction es arbitrary: k)
  case (Cons e es)
  show ?case
  proof (cases "oi_type e = c")
    case False
    with Cons.prems Cons.IH [of "k + 1"] have "Suc k \<le> i \<and> i - Suc k < length es \<and> oi_type (es ! (i - Suc k)) = c" by simp
    moreover from this have "i - k = Suc (i - Suc k)" by linarith
    ultimately show ?thesis by simp
  qed (use Cons.prems in auto)
qed simp

lemma info_loop_None: "info_loop c k es = None \<longleftrightarrow> c \<notin> set (map oi_type es)"
  by (induction es arbitrary: k) auto

lemma info_loop_map: "map oi_type es = map oi_type es' \<Longrightarrow> info_loop c k es = info_loop c k es'"
proof (induction es arbitrary: es' k)
  case (Cons e es)
  obtain e' es'' where e: "es' = e' # es''" "oi_type e' = oi_type e" "map oi_type es = map oi_type es''"
    using Cons.prems by (cases es') auto
  from Cons.IH [OF e(3), of "k + 1"] e(1,2) show ?case by simp
qed simp

lemma get_information_cong:
  "map oi_type (os_container s) = map oi_type (os_container s') \<Longrightarrow> rt_object_get_information c s = rt_object_get_information c s'"
  unfolding rt_object_get_information_def by (rule info_loop_map)

lemma table_length: "table_ok s \<Longrightarrow> length (os_container s) = 12"
proof -
  assume "table_ok s"
  then have "length (map oi_type (os_container s)) = length (object_classes @ [0])" by (simp add: table_ok_def)
  then show ?thesis by (simp add: object_classes_def)
qed

lemma table_types: "table_ok s \<Longrightarrow> i < 12 \<Longrightarrow> oi_type (os_container s ! i) = (object_classes @ [0]) ! i"
  using table_length [of s] unfolding table_ok_def by (metis nth_map)

lemma class_list_cong: "os_container s' = os_container s \<Longrightarrow> class_list d s' = class_list d s"
  unfolding class_list_def rt_object_get_information_def by (erule ssubst) (rule refl)

text \<open>Every class has an entry of its own.\<close>

lemma class_entry:
  assumes "table_ok s" "c \<in> set object_classes"
  obtains i where "i < 11" "rt_object_get_information c s = Some i" "object_list i s = Some (class_list c s)"
    "\<And>d. rt_object_get_information d s = Some i \<Longrightarrow> d = c"
proof -
  have "c \<in> set (map oi_type (os_container s))" using assms by (simp add: table_ok_def)
  then obtain i where i: "rt_object_get_information c s = Some i"
    unfolding rt_object_get_information_def using info_loop_None [of c 0 "os_container s"] by (cases "info_loop c 0 (os_container s)") auto
  have l: "i < 12" "oi_type (os_container s ! i) = c"
    using i table_length [OF assms(1)] info_loop_Some [of c 0 "os_container s" i] by (simp_all add: rt_object_get_information_def)
  have "i \<noteq> 11"
  proof
    assume "i = 11"
    with table_types [OF assms(1), of 11] l have "c = 0" by (simp add: object_classes_def)
    with assms(2) show False by (simp add: object_classes_def)
  qed
  with l have i11: "i < 11" by simp
  moreover have "d = c" if "rt_object_get_information d s = Some i" for d
    using that l(2) info_loop_Some [of d 0 "os_container s" i] by (simp add: rt_object_get_information_def)
  moreover have "object_list i s = Some (class_list c s)"
    using assms(1) i i11 by (auto simp: table_ok_def class_list_def)
  ultimately show thesis using that i by blast
qed

lemma insert_object_spec:
  assumes t: "table_ok s" and c: "c \<in> set object_classes" and i: "rt_object_get_information c s = Some i"
  shows "\<exists>s'. insert_object i p s = Some s' \<and> table_ok s' \<and> os_object s' = os_object s \<and> os_mem s' = os_mem s \<and>
    os_irq_nest s' = os_irq_nest s \<and> (\<forall>d \<in> set object_classes. class_list d s' = (if d = c then p # class_list c s else class_list d s))"
proof -
  obtain j where j: "j < 11" "rt_object_get_information c s = Some j" "object_list j s = Some (class_list c s)"
    "\<And>d. rt_object_get_information d s = Some j \<Longrightarrow> d = c" using class_entry [OF t c] by blast
  have "j = i" using i j(2) by simp
  note e = j(1,3,4) [unfolded this]
  let ?s = "s\<lparr>os_container := (os_container s)[i := (os_container s ! i)\<lparr>oi_list := Some (p # class_list c s)\<rparr>]\<rparr>"
  have ty: "map oi_type (os_container ?s) = map oi_type (os_container s)"
    by (simp add: map_update list_update_same_conv table_length [OF t] e(1) less_trans [OF e(1)])
  note g = get_information_cong [OF ty]
  have l: "length (os_container s) = 12" by (rule table_length [OF t])
  have "table_ok ?s" using t e(1) l ty by (auto simp: table_ok_def nth_list_update)
  moreover have "class_list d ?s = (if d = c then p # class_list c s else class_list d s)" if d: "d \<in> set object_classes" for d
  proof (cases "d = c")
    case True
    show ?thesis unfolding True class_list_def [of c ?s] g using i e(1) l by simp
  next
    case False
    obtain k where "rt_object_get_information d s = Some k" using class_entry [OF t d] by blast
    moreover from this have "k \<noteq> i" using e(3) False by auto
    ultimately show ?thesis unfolding class_list_def [of d ?s] class_list_def [of d s] g using False by simp
  qed
  ultimately show ?thesis using e(2) by (intro exI [of _ ?s]) (simp add: insert_object_def)
qed

lemma remove_object_spec:
  assumes t: "table_ok s"
  shows "table_ok (remove_object p s)" "d \<in> set object_classes \<Longrightarrow> class_list d (remove_object p s) = removeAll p (class_list d s)"
proof -
  let ?s = "remove_object p s"
  have ty: "map oi_type (os_container ?s) = map oi_type (os_container s)" by (simp add: remove_object_def o_def)
  note g = get_information_cong [OF ty]
  have l: "object_list i ?s = map_option (removeAll p) (object_list i s)" if "i < 12" for i
    using that table_length [OF t] by (simp add: remove_object_def)
  show "table_ok ?s" using t ty l by (simp add: table_ok_def)
  show "class_list d ?s = removeAll p (class_list d s)" if d: "d \<in> set object_classes"
  proof -
    obtain i where i: "i < 11" "rt_object_get_information d s = Some i" "object_list i s = Some (class_list d s)" using class_entry [OF t d] by blast
    with l [of i] show ?thesis by (simp add: class_list_def [of d ?s] g)
  qed
qed

section \<open>Registering and removing\<close>

text \<open>Where an object may be put: memory of its own for its name, which no listed object uses.\<close>

definition fresh_object :: "nat \<Rightarrow> nat \<Rightarrow> u8 list \<Rightarrow> objects \<Rightarrow> bool" where
  "fresh_object p name cs s \<longleftrightarrow> mapped (os_mem s) p RT_NAME_MAX \<and> (\<forall>q. listed q s \<longrightarrow> objects_apart p q) \<and>
     str_at (os_mem s) name cs \<and> (name + length cs < p \<or> p + RT_NAME_MAX \<le> name)"

lemma fresh_not_listed: "fresh_object p name cs s \<Longrightarrow> \<not> listed p s"
  by (auto simp: fresh_object_def objects_apart_def)

lemma mapped_same: "(\<And>a. m' a = None \<longleftrightarrow> m a = None) \<Longrightarrow> mapped m' p n = mapped m p n"
  by (simp add: mapped_def)

lemma object_name_same:
  assumes "\<And>a. a < p \<or> p + RT_NAME_MAX \<le> a \<Longrightarrow> m' a = m a" "objects_apart p q"
  shows "object_name q m' = object_name q m"
proof -
  have "region m' q RT_NAME_MAX = region m q RT_NAME_MAX"
    unfolding region_def by (rule map_cong [OF refl]) (use assms in \<open>auto simp: objects_apart_def\<close>)
  then show ?thesis by (simp add: object_name_def)
qed

text \<open>What both kinds of creation end with.\<close>

lemma register_spec:
  assumes s: "registry_ok s" and c: "c \<in> set object_classes" and i: "rt_object_get_information c s = Some i"
    and f: "fresh_object p name cs s"
    and x: "x AND NOT RT_Object_Class_Static = c" "s1 = upd_object p (\<lambda>y. x' y) s" "ob_type (x' (os_object s p)) = x"
  shows "\<exists>s'. Option.bind (set_name p name s1) (insert_object i p) = Some s' \<and> registry_ok s' \<and>
    (\<forall>d \<in> set object_classes. class_list d s' = (if d = c then p # class_list c s else class_list d s)) \<and>
    object_name p (os_mem s') = take RT_NAME_MAX cs \<and> (\<forall>q. objects_apart p q \<longrightarrow> object_name q (os_mem s') = object_name q (os_mem s)) \<and>
    os_object s' = os_object s1 \<and> os_irq_nest s' = os_irq_nest s \<and>
    (\<forall>a. a < p \<or> p + RT_NAME_MAX \<le> a \<longrightarrow> os_mem s' a = os_mem s a)"
proof -
  have t: "table_ok s" using s by (simp add: registry_ok_def)
  have m1: "os_mem s1 = os_mem s" "os_container s1 = os_container s" "os_irq_nest s1 = os_irq_nest s" by (simp_all add: x(2) upd_object_def)
  obtain m where m: "set_name p name s1 = Some (s1\<lparr>os_mem := m\<rparr>)" "object_name p m = take RT_NAME_MAX cs"
    "\<forall>a. a < p \<or> p + RT_NAME_MAX \<le> a \<longrightarrow> m a = os_mem s a" "\<forall>a. m a = None \<longleftrightarrow> os_mem s a = None"
    using set_name_spec [of s1 name cs p] f m1(1) by (auto simp: fresh_object_def)
  let ?s2 = "s1\<lparr>os_mem := m\<rparr>"
  have g: "rt_object_get_information d ?s2 = rt_object_get_information d s" "class_list d ?s2 = class_list d s" for d
    using class_list_cong [of ?s2 s d] m1(2) by (simp_all add: rt_object_get_information_def)
  have t2: "table_ok ?s2" using t m1(2) by (simp add: table_ok_def)
  obtain s' where s': "insert_object i p ?s2 = Some s'" "table_ok s'" "os_object s' = os_object s1" "os_mem s' = m" "os_irq_nest s' = os_irq_nest s"
    "\<forall>d \<in> set object_classes. class_list d s' = (if d = c then p # class_list c s else class_list d s)"
    using insert_object_spec [OF t2 c, of i p] i g m1(3) by auto
  have nl: "\<not> listed p s" by (rule fresh_not_listed [OF f])
  have ty: "rt_object_get_type q s' = (if q = p then c else rt_object_get_type q s)" for q
    using x s'(3) by (simp add: rt_object_get_type_def upd_object_def)
  have li: "listed q s' \<longleftrightarrow> q = p \<or> listed q s" for q
    unfolding listed_def using s'(6) c by (auto split: if_splits)
  have mp: "mapped (os_mem s') q RT_NAME_MAX = mapped (os_mem s) q RT_NAME_MAX" for q
    unfolding s'(4) by (rule mapped_same) (use m(4) in simp)
  have lists: "distinct (class_list d s') \<and> (\<forall>q \<in> set (class_list d s'). rt_object_get_type q s' = d \<and> mapped (os_mem s') q RT_NAME_MAX)"
    if d: "d \<in> set object_classes" for d
  proof -
    have "p \<notin> set (class_list d s)" using nl d by (auto simp: listed_def)
    moreover have "distinct (class_list d s) \<and> (\<forall>q \<in> set (class_list d s). rt_object_get_type q s = d \<and> mapped (os_mem s) q RT_NAME_MAX)"
      using s d by (simp add: registry_ok_def)
    ultimately show ?thesis using s'(6) d f unfolding ty mp by (auto simp: fresh_object_def)
  qed
  have ap: "objects_apart q r" if "listed q s'" "listed r s'" "q \<noteq> r" for q r
  proof -
    have "objects_apart q r" if "listed q s" "listed r s" using s that \<open>q \<noteq> r\<close> by (simp add: registry_ok_def)
    moreover have "objects_apart p u" "objects_apart u p" if "listed u s" for u
      using f that by (auto simp: fresh_object_def objects_apart_def)
    ultimately show ?thesis using that li [of q] li [of r] by auto
  qed
  have "registry_ok s'" using s'(2) lists ap by (simp add: registry_ok_def)
  moreover have "object_name q (os_mem s') = object_name q (os_mem s)" if "objects_apart p q" for q
    unfolding s'(4) by (rule object_name_same [OF _ that]) (use m(3) in blast)
  ultimately show ?thesis using m s' by (intro exI [of _ s']) simp
qed

lemma class_type_bits:
  assumes "c \<in> set object_classes"
  shows "(c OR RT_Object_Class_Static) AND NOT RT_Object_Class_Static = c" "c AND NOT RT_Object_Class_Static = c"
    "(c OR RT_Object_Class_Static) AND RT_Object_Class_Static \<noteq> 0" "c AND RT_Object_Class_Static = 0"
  using assms by (auto simp: object_classes_def)

lemma object_init_spec:
  assumes s: "registry_ok s" and c: "c \<in> set object_classes" and f: "fresh_object p name cs s"
  shows "\<exists>s'. rt_object_init p c name s = Some s' \<and> registry_ok s' \<and>
    (\<forall>d \<in> set object_classes. class_list d s' = (if d = c then p # class_list c s else class_list d s)) \<and>
    object_name p (os_mem s') = take RT_NAME_MAX cs \<and> (\<forall>q. objects_apart p q \<longrightarrow> object_name q (os_mem s') = object_name q (os_mem s)) \<and>
    rt_object_is_systemobject p s' \<and> os_irq_nest s' = os_irq_nest s \<and>
    (\<forall>a. a < p \<or> p + RT_NAME_MAX \<le> a \<longrightarrow> os_mem s' a = os_mem s a)"
proof -
  have t: "table_ok s" using s by (simp add: registry_ok_def)
  obtain i where i: "rt_object_get_information c s = Some i" "object_list i s = Some (class_list c s)" using class_entry [OF t c] by blast
  let ?s1 = "upd_object p (\<lambda>x. x\<lparr>ob_type := c OR RT_Object_Class_Static\<rparr>) s"
  obtain s' where s': "Option.bind (set_name p name ?s1) (insert_object i p) = Some s'" "registry_ok s'"
    "\<forall>d \<in> set object_classes. class_list d s' = (if d = c then p # class_list c s else class_list d s)"
    "object_name p (os_mem s') = take RT_NAME_MAX cs" "\<forall>q. objects_apart p q \<longrightarrow> object_name q (os_mem s') = object_name q (os_mem s)"
    "os_object s' = os_object ?s1" "os_irq_nest s' = os_irq_nest s" "\<forall>a. a < p \<or> p + RT_NAME_MAX \<le> a \<longrightarrow> os_mem s' a = os_mem s a"
    using register_spec [OF s c i(1) f class_type_bits(1) [OF c] refl, of "\<lambda>x. x\<lparr>ob_type := c OR RT_Object_Class_Static\<rparr>"] by auto
  have "p \<notin> set (class_list c s)" using fresh_not_listed [OF f] c by (auto simp: listed_def)
  then have "rt_object_init p c name s = Some s'" using i s'(1) by (simp add: rt_object_init_def Let_def)
  moreover have "rt_object_is_systemobject p s'"
    using s'(6) class_type_bits(3) [OF c] by (simp add: rt_object_is_systemobject_def upd_object_def)
  ultimately show ?thesis using s' by blast
qed

lemma remove_spec:
  assumes s: "registry_ok s" and s1: "os_container s1 = os_container s" "os_mem s1 = os_mem s" "\<forall>q. q \<noteq> p \<longrightarrow> os_object s1 q = os_object s q"
  shows "registry_ok (remove_object p s1)" "d \<in> set object_classes \<Longrightarrow> class_list d (remove_object p s1) = removeAll p (class_list d s)"
    "\<not> listed p (remove_object p s1)"
proof -
  let ?s = "remove_object p s1"
  have t: "table_ok s1" using s s1(1) by (simp add: registry_ok_def table_ok_def)
  have l1: "class_list d s1 = class_list d s" for d by (rule class_list_cong [OF s1(1)])
  have cl: "class_list d ?s = removeAll p (class_list d s)" if "d \<in> set object_classes" for d
    using remove_object_spec(2) [OF t that] l1 by simp
  then show "d \<in> set object_classes \<Longrightarrow> class_list d ?s = removeAll p (class_list d s)" .
  have li: "listed q ?s \<longleftrightarrow> q \<noteq> p \<and> listed q s" for q unfolding listed_def using cl by auto
  then show "\<not> listed p ?s" by simp
  have "os_mem ?s = os_mem s" "\<And>q. q \<noteq> p \<Longrightarrow> rt_object_get_type q ?s = rt_object_get_type q s"
    using s1 by (simp_all add: remove_object_def rt_object_get_type_def)
  with s cl li remove_object_spec(1) [OF t, of p] show "registry_ok ?s"
    unfolding registry_ok_def by (auto simp: distinct_removeAll)
qed

lemma rt_object_find_spec:
  assumes s: "registry_ok s" and c: "c \<in> set object_classes" and i: "os_irq_nest s = 0" and n: "str_at (os_mem s) name cs"
  shows "rt_object_find (Some name) c s = Some (List.find (\<lambda>p. object_name p (os_mem s) = take RT_NAME_MAX cs) (class_list c s))"
proof -
  have t: "table_ok s" using s by (simp add: registry_ok_def)
  obtain j where "rt_object_get_information c s = Some j" "object_list j s = Some (class_list c s)" using class_entry [OF t c] by blast
  moreover have "\<forall>p \<in> set (class_list c s). mapped (os_mem s) p RT_NAME_MAX" using s c by (simp add: registry_ok_def)
  ultimately show ?thesis using find_loop_spec [OF n] i by (simp add: rt_object_find_def)
qed

lemma object_detach_spec:
  assumes "registry_ok s"
  shows "\<exists>s'. rt_object_detach p s = Some s' \<and> registry_ok s' \<and> \<not> listed p s' \<and> os_mem s' = os_mem s \<and> os_irq_nest s' = os_irq_nest s \<and>
    (\<forall>d \<in> set object_classes. class_list d s' = removeAll p (class_list d s))"
proof -
  let ?s1 = "upd_object p (\<lambda>x. x\<lparr>ob_type := 0\<rparr>) s"
  have s1: "os_container ?s1 = os_container s" "os_mem ?s1 = os_mem s" "\<forall>q. q \<noteq> p \<longrightarrow> os_object ?s1 q = os_object s q"
    by (simp_all add: upd_object_def)
  note r = remove_spec [OF assms s1]
  have "os_mem (remove_object p ?s1) = os_mem s" "os_irq_nest (remove_object p ?s1) = os_irq_nest s"
    by (simp_all add: remove_object_def upd_object_def)
  with r show ?thesis by (simp add: rt_object_detach_def)
qed

text \<open>A block from the allocator: readable and writable, apart from the objects and from the name.\<close>

definition new_block :: "nat \<Rightarrow> nat \<Rightarrow> memory \<Rightarrow> nat \<Rightarrow> u8 list \<Rightarrow> objects \<Rightarrow> bool" where
  "new_block p n m name cs s \<longleftrightarrow> RT_NAME_MAX \<le> n \<and> mapped m p n \<and> (\<forall>a. a < p \<or> p + n \<le> a \<longrightarrow> m a = os_mem s a) \<and>
     (\<forall>q. listed q s \<longrightarrow> p + n \<le> q \<or> q + RT_NAME_MAX \<le> p) \<and> (name + length cs < p \<or> p + n \<le> name)"

lemma object_allocate_spec:
  assumes s: "registry_ok s" and c: "c \<in> set object_classes" and irq: "os_irq_nest s = 0" and n: "str_at (os_mem s) name cs"
    and i: "rt_object_get_information c s = Some i" and b: "malloc (oi_size (os_container s ! i)) (os_mem s) = (Some p, m)"
    and f: "new_block p (oi_size (os_container s ! i)) m name cs s"
  shows "\<exists>s'. rt_object_allocate malloc c name s = Some (Some p, s') \<and> registry_ok s' \<and>
    (\<forall>d \<in> set object_classes. class_list d s' = (if d = c then p # class_list c s else class_list d s)) \<and>
    object_name p (os_mem s') = take RT_NAME_MAX cs \<and> \<not> rt_object_is_systemobject p s' \<and> os_irq_nest s' = 0"
proof -
  let ?n = "oi_size (os_container s ! i)"
  let ?m = "written (\<lambda>i. Some (word_of_int 0)) p 0 ?n m"
  have ms: "rt_memset p 0 ?n m = Some (p, ?m)" using f by (intro rt_memset_spec) (simp add: new_block_def)
  let ?s0 = "s\<lparr>os_mem := ?m\<rparr>"
  have same: "?m a = os_mem s a" if "a < p \<or> p + ?n \<le> a" for a using f that by (auto simp: new_block_def written_def)
  have cl: "class_list d ?s0 = class_list d s" for d by (rule class_list_cong) simp
  have li: "listed q ?s0 = listed q s" for q using cl by (simp add: listed_def)
  have ap: "q + k \<le> RT_NAME_MAX + q \<Longrightarrow> ?m (q + k) = os_mem s (q + k)" if "listed q s" "k < RT_NAME_MAX" for q k
    using f that by (intro same) (auto simp: new_block_def)
  have mp: "mapped ?m q RT_NAME_MAX = mapped (os_mem s) q RT_NAME_MAX" if "listed q s" for q
    using ap [OF that] by (simp add: mapped_def)
  have t0: "table_ok ?s0" using s by (simp add: registry_ok_def table_ok_def)
  have r0: "registry_ok ?s0"
  proof -
    have "distinct (class_list d ?s0) \<and> (\<forall>q \<in> set (class_list d ?s0). rt_object_get_type q ?s0 = d \<and> mapped (os_mem ?s0) q RT_NAME_MAX)"
      if d: "d \<in> set object_classes" for d
    proof -
      have "listed q s" if "q \<in> set (class_list d s)" for q using that d by (auto simp: listed_def)
      with s d mp show ?thesis unfolding cl by (auto simp: registry_ok_def rt_object_get_type_def)
    qed
    with s t0 li show ?thesis by (simp add: registry_ok_def)
  qed
  have "str_at ?m name cs" by (rule str_at_frame [OF n]) (use f same in \<open>auto simp: new_block_def\<close>)
  moreover have "mapped ?m p RT_NAME_MAX" using f by (auto simp: mapped_def written_def new_block_def)
  ultimately have f0: "fresh_object p name cs ?s0"
    using f li by (auto simp: fresh_object_def new_block_def objects_apart_def)
  have i0: "rt_object_get_information c ?s0 = Some i" using i by (simp add: rt_object_get_information_def)
  let ?s1 = "upd_object p (\<lambda>x. \<lparr>ob_type = c, ob_flag = 0, ob_destroy = None, ob_data = 0\<rparr>) ?s0"
  obtain s' where s': "Option.bind (set_name p name ?s1) (insert_object i p) = Some s'" "registry_ok s'"
    "\<forall>d \<in> set object_classes. class_list d s' = (if d = c then p # class_list c ?s0 else class_list d ?s0)"
    "object_name p (os_mem s') = take RT_NAME_MAX cs" "os_object s' = os_object ?s1" "os_irq_nest s' = os_irq_nest ?s0"
    using register_spec [OF r0 c i0 f0 class_type_bits(2) [OF c] refl,
        of "\<lambda>x. \<lparr>ob_type = c, ob_flag = 0, ob_destroy = None, ob_data = 0\<rparr>"] by auto
  have "rt_object_allocate malloc c name s = Some (Some p, s')"
    using irq i b ms s'(1) by (auto simp: rt_object_allocate_def Let_def bind_eq_Some_conv)
  moreover have "\<not> rt_object_is_systemobject p s'"
    using s'(5) class_type_bits(4) [OF c] by (simp add: rt_object_is_systemobject_def upd_object_def)
  ultimately show ?thesis using s' irq unfolding cl by (intro exI [of _ s']) simp
qed

lemma object_delete_spec:
  assumes s: "registry_ok s" and d: "\<not> rt_object_is_systemobject p s" and f: "\<And>q a. listed q s \<Longrightarrow> q \<noteq> p \<Longrightarrow> q \<le> a \<Longrightarrow> a < q + RT_NAME_MAX \<Longrightarrow> dealloc p (os_mem s) a = os_mem s a"
  shows "\<exists>s'. rt_object_delete dealloc p s = Some s' \<and> registry_ok s' \<and> \<not> listed p s' \<and>
    (\<forall>d \<in> set object_classes. class_list d s' = removeAll p (class_list d s))"
proof -
  let ?s1 = "upd_object p (\<lambda>x. x\<lparr>ob_type := 0\<rparr>) s"
  have s1: "os_container ?s1 = os_container s" "os_mem ?s1 = os_mem s" "\<forall>q. q \<noteq> p \<longrightarrow> os_object ?s1 q = os_object s q"
    by (simp_all add: upd_object_def)
  note r = remove_spec [OF s s1]
  let ?s2 = "remove_object p ?s1" and ?s3 = "remove_object p ?s1\<lparr>os_mem := dealloc p (os_mem s)\<rparr>"
  have m2: "os_mem ?s2 = os_mem s" by (simp add: remove_object_def upd_object_def)
  have cl: "class_list d ?s3 = class_list d ?s2" for d by (rule class_list_cong) simp
  have li: "listed q ?s3 = listed q ?s2" for q using cl by (simp add: listed_def)
  have ty: "rt_object_get_type q ?s3 = rt_object_get_type q ?s2" for q by (simp add: rt_object_get_type_def)
  have mp: "mapped (dealloc p (os_mem s)) q RT_NAME_MAX" if "d \<in> set object_classes" "q \<in> set (class_list d ?s2)" for d q
  proof -
    have "listed q s" "q \<noteq> p" using that r(2) [OF that(1)] by (auto simp: listed_def)
    moreover have "mapped (os_mem s) q RT_NAME_MAX" using r(1) that m2 by (auto simp: registry_ok_def)
    ultimately show ?thesis using f by (simp add: mapped_def)
  qed
  have "registry_ok ?s3"
    using r(1) mp unfolding registry_ok_def cl li ty by (simp add: table_ok_def)
  with r(2,3) d cl li show ?thesis
    by (simp add: rt_object_delete_def rt_object_is_systemobject_def Let_def m2)
qed

lemma foldl_count: "foldl (\<lambda>c x. c + 1) k l = k + int (length l)"
  by (induction l arbitrary: k) simp_all

lemma object_get_length_spec:
  assumes "table_ok s" "c \<in> set object_classes"
  shows "rt_object_get_length c s = Some (int (length (class_list c s)))"
proof -
  obtain i where "rt_object_get_information c s = Some i" "object_list i s = Some (class_list c s)" using class_entry [OF assms] by blast
  then show ?thesis by (simp add: rt_object_get_length_def foldl_count)
qed

lemma pointers_loop_take: "0 < n \<Longrightarrow> int (length ps) < n \<Longrightarrow> pointers_loop l n ps = ps @ take (nat n - length ps) l"
proof (induction l arbitrary: ps)
  case (Cons x l)
  show ?case
  proof (cases "n \<le> int (length (ps @ [x]))")
    case True
    with Cons.prems have "nat n - length ps = 1" by simp
    with True show ?thesis by simp
  next
    case False
    with Cons.prems have "nat n - length ps = Suc (nat n - length (ps @ [x]))" by simp
    with False Cons.prems Cons.IH [of "ps @ [x]"] show ?thesis by simp
  qed
qed simp

lemma object_get_pointers_spec:
  assumes "table_ok s" "c \<in> set object_classes"
  shows "rt_object_get_pointers c n s = Some (take (nat n) (class_list c s))"
proof -
  obtain i where "rt_object_get_information c s = Some i" "object_list i s = Some (class_list c s)" using class_entry [OF assms] by blast
  then show ?thesis using pointers_loop_take [of n "[]"] by (simp add: rt_object_get_pointers_def)
qed

text \<open>The two classes without a list.\<close>

lemma get_information_rest:
  assumes "table_ok s"
  shows "rt_object_get_information 0 s = Some 11" "rt_object_get_information RT_Object_Class_Custom s = None"
proof -
  have t: "map oi_type (os_container s) = object_classes @ [0]" using assms by (simp add: table_ok_def)
  show "rt_object_get_information RT_Object_Class_Custom s = None"
    unfolding rt_object_get_information_def info_loop_None t by (simp add: object_classes_def)
  obtain i where i: "info_loop 0 0 (os_container s) = Some i"
    using info_loop_None [of 0 0 "os_container s"] t by (cases "info_loop 0 0 (os_container s)") auto
  with info_loop_Some [OF i] table_types [OF assms, of i] table_length [OF assms] have "i < 12" "(object_classes @ [0]) ! i = 0" by simp_all
  then have "i = 11" by (auto simp: object_classes_def nth_Cons' split: if_splits)
  with i show "rt_object_get_information 0 s = Some 11" by (simp add: rt_object_get_information_def)
qed

section \<open>Properties\<close>

text \<open>A registry without objects; a name of ten letters is at address 20, memory for objects from 100 on.\<close>

definition sample_registry :: objects where
  "sample_registry = \<lparr>os_object = (\<lambda>_. \<lparr>ob_type = 0, ob_flag = 0, ob_destroy = None, ob_data = 0\<rparr>),
     os_container = object_container (\<lambda>_. 32),
     os_mem = (\<lambda>a. if 20 \<le> a \<and> a < 30 then Some 97 else if a = 30 \<or> 100 \<le> a then Some 0 else None), os_irq_nest = 0\<rparr>"

lemma sample_name: "str_at (os_mem sample_registry) 20 (replicate 10 97)"
  by (rule str_atI) (simp_all add: sample_registry_def)

lemma sample_table: "table_ok sample_registry"
proof -
  have "i < 11 \<Longrightarrow> i \<in> {0, 1, 2, 3, 4, 5, 6, 7, 8, 9, 10}" for i :: nat by (simp add: less_Suc_eq numeral_eq_Suc)
  then show ?thesis by (fastforce simp: table_ok_def sample_registry_def object_container_def object_classes_def)
qed

lemma sample_lists: "class_list c sample_registry = []"
proof -
  have "l = []" if "object_list i sample_registry = Some l" "i < 12" for i l
  proof -
    have "e \<in> set (object_container (\<lambda>_. 32)) \<Longrightarrow> oi_list e = Some l \<Longrightarrow> l = []" for e by (auto simp: object_container_def)
    moreover have "length (object_container (\<lambda>_. 32)) = 12" by (simp add: object_container_def)
    moreover from this have "object_container (\<lambda>_. 32) ! i \<in> set (object_container (\<lambda>_. 32))" using that(2) by simp
    ultimately show ?thesis using that(1) unfolding sample_registry_def by (metis objects.select_convs(2))
  qed
  moreover have "i < 12" if "rt_object_get_information c sample_registry = Some i" for i
    using info_loop_Some [of c 0 "os_container sample_registry" i] that table_length [OF sample_table] by (simp add: rt_object_get_information_def)
  ultimately show ?thesis unfolding class_list_def by (fastforce split: option.splits)
qed

lemma sample_registry_ok: "registry_ok sample_registry"
  using sample_table sample_lists by (simp add: registry_ok_def listed_def)

lemma sample_fresh: "fresh_object 100 20 (replicate 10 97) sample_registry"
  using sample_name sample_lists by (simp add: fresh_object_def listed_def mapped_def) (simp add: sample_registry_def)

text \<open>
  What a search returns, before and after an object is initialised at \<open>p\<close>: the searched name must not lie
  in the name field of \<open>p\<close>, which the initialisation writes.
\<close>

lemma find_frame:
  assumes ok: "registry_ok s" "registry_ok s'" and d: "d \<in> set object_classes" and irq: "os_irq_nest s = 0" "os_irq_nest s' = 0"
    and mem: "\<forall>a. a < p \<or> p + RT_NAME_MAX \<le> a \<longrightarrow> os_mem s' a = os_mem s a"
    and lists: "class_list d s' = class_list d s" and names: "\<forall>q \<in> set (class_list d s). object_name q (os_mem s') = object_name q (os_mem s)"
    and n: "str_at (os_mem s) name ds" "name + length ds < p \<or> p + RT_NAME_MAX \<le> name"
  shows "str_at (os_mem s') name ds" "rt_object_find (Some name) d s' = rt_object_find (Some name) d s"
proof -
  show n': "str_at (os_mem s') name ds"
  proof (rule str_at_frame [OF n(1)])
    fix i assume "i \<le> length ds"
    then have "name + i < p \<or> p + RT_NAME_MAX \<le> name + i" using n(2) by linarith
    then show "os_mem s' (name + i) = os_mem s (name + i)" using mem by blast
  qed
  have "List.find (\<lambda>q. object_name q (os_mem s') = take RT_NAME_MAX ds) (class_list d s) =
      List.find (\<lambda>q. object_name q (os_mem s) = take RT_NAME_MAX ds) (class_list d s)"
    by (rule find_cong [OF refl]) (simp add: names)
  then show "rt_object_find (Some name) d s' = rt_object_find (Some name) d s"
    using rt_object_find_spec [OF ok(2) d irq(2) n'] rt_object_find_spec [OF ok(1) d irq(1) n(1)] lists by simp
qed

text \<open>
  C30: An object that is initialised stands in the list of its class only, in front, and every other list is
  as before; a search in its class for a name that agrees with its own in the first RT_NAME_MAX bytes returns
  it, and every other search, in every class and for every name, returns what it returned before. rt_object_get_type is
  its class. After rt_object_detach all lists and all searches are as they were before the initialisation.
\<close>
theorem object_registry_round_trip:
  assumes "registry_ok s" "c \<in> set object_classes" "fresh_object p name cs s" "os_irq_nest s = 0"
  shows "\<exists>s1 s2. rt_object_init p c name s = Some s1 \<and> registry_ok s1 \<and>
    (\<forall>d \<in> set object_classes. class_list d s1 = (if d = c then p # class_list c s else class_list d s)) \<and>
    (\<forall>d \<in> set object_classes. \<forall>name' ds. str_at (os_mem s) name' ds \<longrightarrow> name' + length ds < p \<or> p + RT_NAME_MAX \<le> name' \<longrightarrow>
      rt_object_find (Some name') d s1 =
        (if d = c \<and> take RT_NAME_MAX ds = take RT_NAME_MAX cs then Some (Some p) else rt_object_find (Some name') d s)) \<and>
    rt_object_get_type p s1 = c \<and> rt_object_is_systemobject p s1 \<and>
    rt_object_get_length c s1 = Some (int (length (class_list c s)) + 1) \<and>
    rt_object_detach p s1 = Some s2 \<and> registry_ok s2 \<and> (\<forall>d \<in> set object_classes. class_list d s2 = class_list d s) \<and>
    (\<forall>d \<in> set object_classes. \<forall>name' ds. str_at (os_mem s) name' ds \<longrightarrow> name' + length ds < p \<or> p + RT_NAME_MAX \<le> name' \<longrightarrow>
      rt_object_find (Some name') d s2 = rt_object_find (Some name') d s)"
proof -
  obtain s1 where s1: "rt_object_init p c name s = Some s1" "registry_ok s1"
    "\<forall>d \<in> set object_classes. class_list d s1 = (if d = c then p # class_list c s else class_list d s)"
    "object_name p (os_mem s1) = take RT_NAME_MAX cs" "\<forall>q. objects_apart p q \<longrightarrow> object_name q (os_mem s1) = object_name q (os_mem s)"
    "rt_object_is_systemobject p s1" "os_irq_nest s1 = os_irq_nest s" "\<forall>a. a < p \<or> p + RT_NAME_MAX \<le> a \<longrightarrow> os_mem s1 a = os_mem s a"
    using object_init_spec [OF assms(1-3)] by blast
  obtain s2 where s2: "rt_object_detach p s1 = Some s2" "registry_ok s2" "os_mem s2 = os_mem s1" "os_irq_nest s2 = os_irq_nest s1"
    "\<forall>d \<in> set object_classes. class_list d s2 = removeAll p (class_list d s1)"
    using object_detach_spec [OF s1(2)] by blast
  have nl: "p \<notin> set (class_list d s)" if "d \<in> set object_classes" for d
    using fresh_not_listed [OF assms(3)] that by (auto simp: listed_def)
  have l2: "class_list d s2 = class_list d s" if "d \<in> set object_classes" for d
    using s1(3) s2(5) nl [OF that] that by (cases "d = c") (simp_all add: removeAll_id)
  have nm: "\<forall>q \<in> set (class_list d s). object_name q (os_mem s1) = object_name q (os_mem s)" if "d \<in> set object_classes" for d
    using s1(5) assms(3) that by (auto simp: fresh_object_def listed_def)
  have f2: "str_at (os_mem s2) name' ds \<and> rt_object_find (Some name') d s2 = rt_object_find (Some name') d s"
    if "d \<in> set object_classes" "str_at (os_mem s) name' ds" "name' + length ds < p \<or> p + RT_NAME_MAX \<le> name'" for d name' ds
    using find_frame [OF assms(1) s2(2) that(1) assms(4) _ _ l2 [OF that(1)] _ that(2,3)] nm [OF that(1)] s1(7,8) s2(3,4) assms(4) by simp
  have f1: "rt_object_find (Some name') d s1 =
      (if d = c \<and> take RT_NAME_MAX ds = take RT_NAME_MAX cs then Some (Some p) else rt_object_find (Some name') d s)"
    if d: "d \<in> set object_classes" "str_at (os_mem s) name' ds" "name' + length ds < p \<or> p + RT_NAME_MAX \<le> name'" for d name' ds
  proof -
    have n: "str_at (os_mem s1) name' ds" using f2 [OF d] s2(3) by simp
    note e = rt_object_find_spec [OF s1(2) d(1) _ n] rt_object_find_spec [OF s2(2) d(1), of name' ds]
    show ?thesis
    proof (cases "d = c")
      case True
      with e s1(3,4,7) s2(3,4) n assms(4) d(1) l2 [OF d(1)] f2 [OF d] show ?thesis by auto
    next
      case False
      with e s1(3,7) s2(3,4) n assms(4) d(1) l2 [OF d(1)] f2 [OF d] show ?thesis by simp
    qed
  qed
  have t1: "table_ok s1" using s1(2) by (simp add: registry_ok_def)
  have "rt_object_get_type p s1 = c" using s1(2,3) assms(2) by (auto simp: registry_ok_def)
  moreover have "rt_object_get_length c s1 = Some (int (length (class_list c s)) + 1)"
    using object_get_length_spec [OF t1 assms(2)] s1(3) assms(2) by simp
  ultimately show ?thesis using s1(1-3,6) s2(1,2) l2 f1 f2 by (intro exI [of _ s1] exI [of _ s2]) simp
qed

theorem object_registry_round_trip_witness:
  "\<exists>s1 s2. rt_object_init 100 2 20 sample_registry = Some s1 \<and> rt_object_find (Some 22) 2 s1 = Some (Some 100) \<and>
    rt_object_find (Some 26) 2 s1 = Some None \<and> rt_object_find (Some 22) 3 s1 = Some None \<and>
    rt_object_detach 100 s1 = Some s2 \<and> rt_object_find (Some 22) 2 s2 = Some None"
proof -
  have n: "str_at (os_mem sample_registry) (20 + i) (replicate (10 - i) 97)" if "i \<le> 10" for i
    using str_at_nth(4) [OF sample_name, of i] that by simp
  have i: "os_irq_nest sample_registry = 0" and c: "2 \<in> set object_classes" "3 \<in> set object_classes"
    by (simp_all add: sample_registry_def object_classes_def)
  have e: "rt_object_find (Some 22) d sample_registry = Some None" "rt_object_find (Some 26) d sample_registry = Some None"
    if "d \<in> set object_classes" for d
    using rt_object_find_spec [OF sample_registry_ok that i n [of 2]] rt_object_find_spec [OF sample_registry_ok that i n [of 6]]
    by (simp_all add: sample_lists)
  from object_registry_round_trip [OF sample_registry_ok c(1) sample_fresh i] obtain s1 s2 where
    s: "rt_object_init 100 2 20 sample_registry = Some s1" "rt_object_detach 100 s1 = Some s2"
    and f1: "\<forall>d \<in> set object_classes. \<forall>name' ds. str_at (os_mem sample_registry) name' ds \<longrightarrow>
      name' + length ds < 100 \<or> 100 + RT_NAME_MAX \<le> name' \<longrightarrow> rt_object_find (Some name') d s1 =
        (if d = 2 \<and> take RT_NAME_MAX ds = take RT_NAME_MAX (replicate 10 97) then Some (Some 100) else rt_object_find (Some name') d sample_registry)"
    and f2: "\<forall>d \<in> set object_classes. \<forall>name' ds. str_at (os_mem sample_registry) name' ds \<longrightarrow>
      name' + length ds < 100 \<or> 100 + RT_NAME_MAX \<le> name' \<longrightarrow> rt_object_find (Some name') d s2 = rt_object_find (Some name') d sample_registry"
    by blast
  have "replicate 4 (97 :: u8) \<noteq> replicate 8 97" by (simp add: replicate_eq_replicate)
  then show ?thesis
    using s f1 [rule_format, OF c(1) n [of 2]] f1 [rule_format, OF c(1) n [of 6]] f1 [rule_format, OF c(2) n [of 2]] f2 [rule_format, OF c(1) n [of 2]]
      e [OF c(1)] e [OF c(2)]
    by (intro exI [of _ s1] exI [of _ s2]) (simp add: take_replicate)
qed

text \<open>
  Without RT_USING_SMART the table has no entry for custom objects, although its enumeration has a
  slot for one: rt_custom_object_create always fails its assertion, and the zeroed slot answers to class
  Null, so searching or counting that class follows a null list pointer.
\<close>
lemma custom_objects_have_no_list:
  assumes "table_ok s"
  shows "rt_custom_object_create malloc name data destroy s = None \<and> rt_object_init p RT_Object_Class_Custom name s = None \<and>
    rt_object_find (Some name) RT_Object_Class_Null s = None \<and> rt_object_get_length RT_Object_Class_Null s = None"
  using get_information_rest [OF assms] assms
  by (simp add: rt_custom_object_create_def rt_object_allocate_def rt_object_init_def rt_object_find_def
      rt_object_get_length_def rt_assert_def table_ok_def)

lemma custom_objects_have_no_list_witness:
  "rt_object_find (Some 20) 0 sample_registry = None \<and> rt_object_init 100 14 20 sample_registry = None"
  using custom_objects_have_no_list [OF sample_table] by blast

end
