(* ===== verification/Heap.thy ===== *)
theory Heap
  imports Small_Mem
begin

text \<open>
  The system heap (\<open>rt_malloc\<close>, \<open>rt_realloc\<close>, \<open>rt_calloc\<close>, \<open>rt_free\<close>, \<open>rt_malloc_align\<close> and
  \<open>rt_free_align\<close> of \<open>src/kservice.c\<close>) over the small-memory heap: addresses instead of offsets. The
  mutex that guards it makes each call of the heap one step, so it does not show; no hooks are set.
\<close>

section \<open>State and operations\<close>

text \<open>\<open>system_heap\<close> and its \<open>heap_ptr\<close>.\<close>

record system_heap =
  sh_ptr :: nat
  sh_smem :: rt_small_mem

definition rt_system_heap_init :: "nat \<Rightarrow> nat \<Rightarrow> nat \<Rightarrow> rt_small_mem \<Rightarrow> system_heap option" where
  "rt_system_heap_init struct_size begin_addr end_addr m = do {
     let begin_align = RT_ALIGN begin_addr RT_ALIGN_SIZE;
     let end_align = RT_ALIGN_DOWN end_addr RT_ALIGN_SIZE;
     rt_assert (begin_align < end_align);
     (a, m) \<leftarrow> rt_smem_init struct_size begin_addr (sub32 end_align begin_align) m;
     Some \<lparr>sh_ptr = a, sh_smem = m\<rparr>
   }"

definition rt_malloc :: "nat \<Rightarrow> system_heap \<Rightarrow> (nat option \<times> system_heap) option" where
  "rt_malloc sz h = do {
     (p, m) \<leftarrow> rt_smem_alloc sz (sh_smem h);
     Some (map_option (\<lambda>p. sh_ptr h + p) p, h\<lparr>sh_smem := m\<rparr>)
   }"

definition rt_realloc :: "nat option \<Rightarrow> nat \<Rightarrow> system_heap \<Rightarrow> (nat option \<times> system_heap) option" where
  "rt_realloc ptr newsize h = do {
     (p, m) \<leftarrow> rt_smem_realloc (map_option (\<lambda>a. a - sh_ptr h) ptr) newsize (sh_smem h);
     Some (map_option (\<lambda>p. sh_ptr h + p) p, h\<lparr>sh_smem := m\<rparr>)
   }"

text \<open>\<open>rt_memset\<close> and stores to the heap's data.\<close>

definition heap_fill :: "nat \<Rightarrow> u8 \<Rightarrow> nat \<Rightarrow> system_heap \<Rightarrow> system_heap" where
  "heap_fill a v n h = h\<lparr>sh_smem := (sh_smem h)\<lparr>sm_data := (\<lambda>p. if a - sh_ptr h \<le> p \<and> p < a - sh_ptr h + n then v else sm_data (sh_smem h) p)\<rparr>\<rparr>"

definition heap_store :: "nat \<Rightarrow> u8 \<Rightarrow> system_heap \<Rightarrow> system_heap" where
  "heap_store a v h = h\<lparr>sh_smem := (sh_smem h)\<lparr>sm_data := (sm_data (sh_smem h))(a - sh_ptr h := v)\<rparr>\<rparr>"

definition heap_load :: "nat \<Rightarrow> system_heap \<Rightarrow> u8" where
  "heap_load a h = sm_data (sh_smem h) (a - sh_ptr h)"

definition heap_store32 :: "nat \<Rightarrow> u32 \<Rightarrow> system_heap \<Rightarrow> system_heap" where
  "heap_store32 a w h =
     heap_store (a + 3) (ucast (drop_bit 24 w)) (heap_store (a + 2) (ucast (drop_bit 16 w))
       (heap_store (a + 1) (ucast (drop_bit 8 w)) (heap_store a (ucast w) h)))"

definition heap_load32 :: "nat \<Rightarrow> system_heap \<Rightarrow> u32" where
  "heap_load32 a h = ucast (heap_load a h) OR push_bit 8 (ucast (heap_load (a + 1) h)) OR
     push_bit 16 (ucast (heap_load (a + 2) h)) OR push_bit 24 (ucast (heap_load (a + 3) h))"

definition rt_calloc :: "nat \<Rightarrow> nat \<Rightarrow> system_heap \<Rightarrow> (nat option \<times> system_heap) option" where
  "rt_calloc count sz h = do {
     (p, h) \<leftarrow> rt_malloc (mul32 count sz) h;
     (case p of
        None \<Rightarrow> Some (None, h)
      | Some a \<Rightarrow> Some (Some a, heap_fill a 0 (mul32 count sz) h))
   }"

definition rt_free :: "nat option \<Rightarrow> system_heap \<Rightarrow> system_heap option" where
  "rt_free ptr h =
     (case ptr of
        None \<Rightarrow> Some h
      | Some a \<Rightarrow> do { m \<leftarrow> rt_smem_free (Some (a - sh_ptr h)) (sh_smem h); Some (h\<lparr>sh_smem := m\<rparr>) })"

definition rt_memory_info :: "system_heap \<Rightarrow> nat \<times> nat \<times> nat" where
  "rt_memory_info h = (sm_total (sh_smem h), sm_used (sh_smem h), sm_max (sh_smem h))"

text \<open>\<open>(x + (align - 1)) & ~(align - 1)\<close>.\<close>

definition align_up :: "u32 \<Rightarrow> u32 \<Rightarrow> u32" where
  "align_up x align = (x + (align - 1)) AND NOT (align - 1)"

definition rt_malloc_align :: "u32 \<Rightarrow> u32 \<Rightarrow> system_heap \<Rightarrow> (nat option \<times> system_heap) option" where
  "rt_malloc_align sz align h = do {
     let align = align_up align 4;
     let align_size = align_up sz 4 + align;
     (ptr, h) \<leftarrow> rt_malloc (unat align_size) h;
     (case ptr of
        None \<Rightarrow> Some (None, h)
      | Some a \<Rightarrow> do {
          let ptr = (word_of_nat a :: u32);
          let align_ptr = (if ptr AND (align - 1) = 0 then ptr + align else align_up ptr align);
          let h = heap_store32 (unat (align_ptr - 4)) ptr h;
          Some (Some (unat align_ptr), h)
        })
   }"

definition rt_free_align :: "nat option \<Rightarrow> system_heap \<Rightarrow> system_heap option" where
  "rt_free_align ptr h =
     (case ptr of
        None \<Rightarrow> Some h
      | Some a \<Rightarrow> rt_free (Some (unat (heap_load32 (unat (word_of_nat a - 4 :: u32)) h))) h)"

section \<open>Alignment\<close>

lemma and_not_exp:
  assumes "k < 32"
  shows "unat ((w :: u32) AND NOT (2 ^ k - 1)) = unat w - unat w mod 2 ^ k"
proof -
  have "w AND NOT (mask k) = push_bit k (drop_bit k w)" by (rule bit_eqI) (auto simp: bit_simps)
  also have "\<dots> = w - take_bit k w" using bits_ident [of k w] by (simp add: eq_diff_eq)
  finally have e: "w AND NOT (2 ^ k - 1) = w - take_bit k w" by (simp add: mask_eq_exp_minus_1)
  have t: "unat (take_bit k w) = unat w mod 2 ^ k" unfolding unsigned_take_bit_eq by (rule take_bit_eq_mod)
  then have "take_bit k w \<le> w" by (simp add: word_le_nat_alt)
  then show ?thesis unfolding e by (simp add: unat_sub t)
qed

lemma and_exp_zero:
  assumes "k < 32"
  shows "(w :: u32) AND (2 ^ k - 1) = 0 \<longleftrightarrow> unat w mod 2 ^ k = 0"
proof -
  have "w AND (2 ^ k - 1) = take_bit k w" by (simp add: take_bit_eq_mask mask_eq_exp_minus_1)
  moreover have "unat (take_bit k w) = unat w mod 2 ^ k" unfolding unsigned_take_bit_eq by (rule take_bit_eq_mod)
  ultimately show ?thesis by (metis unat_eq_zero)
qed

lemma align_up_exp:
  assumes "k < 32" "unat x + 2 ^ k \<le> 2 ^ 32"
  shows "unat (align_up x (2 ^ k)) = (unat x + (2 ^ k - 1)) - (unat x + (2 ^ k - 1)) mod 2 ^ k"
proof -
  have "(2 :: nat) ^ k < 2 ^ 32" using assms(1) by (intro power_strict_increasing) simp_all
  moreover have "unat (word_of_nat (2 ^ k) :: u32) = 2 ^ k mod 2 ^ 32" by (simp only: unat_of_nat) simp
  ultimately have p: "unat (2 ^ k :: u32) = 2 ^ k" by simp
  have "unat (2 ^ k - 1 :: u32) = 2 ^ k - 1" using assms(1) by (subst unat_sub) (simp_all add: word_le_nat_alt p)
  moreover from this have "unat (x + (2 ^ k - 1)) = unat x + (2 ^ k - 1)"
    using assms(2) by (subst unat_add_lem [THEN iffD1]) simp_all
  ultimately show ?thesis unfolding align_up_def and_not_exp [OF assms(1)] by simp
qed

lemma round_up_facts:
  fixes x :: nat
  assumes "0 < d"
  defines "y \<equiv> (x + (d - 1)) - (x + (d - 1)) mod d"
  shows "x \<le> y" "y < x + d" "y mod d = 0"
proof -
  have "(x + (d - 1)) mod d < d" using assms(1) by simp
  then show "x \<le> y" "y < x + d" using assms(1) unfolding y_def by linarith+
  show "y mod d = 0" unfolding y_def by (simp add: minus_mod_eq_mult_div)
qed

section \<open>Bytes of the heap\<close>

lemma heap_store_simps [simp]:
  "sh_ptr (heap_store a v h) = sh_ptr h" "smem_live (sh_smem (heap_store a v h)) = smem_live (sh_smem h)"
  "smem_inv (sh_smem (heap_store a v h)) = smem_inv (sh_smem h)" "sm_item (sh_smem (heap_store a v h)) = sm_item (sh_smem h)"
  "smem_blocks (sh_smem (heap_store a v h)) = smem_blocks (sh_smem h)"
  "sm_heap_end (sh_smem (heap_store a v h)) = sm_heap_end (sh_smem h)"
  by (simp_all add: heap_store_def smem_live_def smem_inv_def smem_blocks_def heap_is_def)

lemma heap_store32_simps [simp]:
  "sh_ptr (heap_store32 a v h) = sh_ptr h" "smem_live (sh_smem (heap_store32 a v h)) = smem_live (sh_smem h)"
  "smem_inv (sh_smem (heap_store32 a v h)) = smem_inv (sh_smem h)"
  "smem_blocks (sh_smem (heap_store32 a v h)) = smem_blocks (sh_smem h)"
  "sm_heap_end (sh_smem (heap_store32 a v h)) = sm_heap_end (sh_smem h)"
  by (simp_all add: heap_store32_def)

lemma word_bytes: "(w :: u32) = ucast (ucast w :: u8) OR push_bit 8 (ucast (ucast (drop_bit 8 w) :: u8)) OR
    push_bit 16 (ucast (ucast (drop_bit 16 w) :: u8)) OR push_bit 24 (ucast (ucast (drop_bit 24 w) :: u8))"
proof (rule bit_eqI)
  fix n assume "possible_bit TYPE(32 word) n"
  then have n: "n < 32" by (simp add: possible_bit_word)
  then consider "n < 8" | "8 \<le> n" "n < 16" | "16 \<le> n" "n < 24" | "24 \<le> n" by linarith
  then show "bit w n = bit (ucast (ucast w :: u8) OR push_bit 8 (ucast (ucast (drop_bit 8 w) :: u8)) OR
    push_bit 16 (ucast (ucast (drop_bit 16 w) :: u8)) OR push_bit 24 (ucast (ucast (drop_bit 24 w) :: u8)) :: u32) n"
    by cases (use n in \<open>auto simp: bit_simps\<close>)
qed

text \<open>A stored word is read back, also when the client has written its own bytes.\<close>

lemma heap_load_store32:
  assumes "sh_ptr h \<le> a" "sh_ptr h' = sh_ptr h"
    and "\<And>i. i < 4 \<Longrightarrow> sm_data (sh_smem h') (a - sh_ptr h + i) = sm_data (sh_smem (heap_store32 a w h)) (a - sh_ptr h + i)"
  shows "heap_load32 a h' = w"
proof -
  obtain b where a: "a = sh_ptr h + b" using assms(1) le_Suc_ex by blast
  have l: "heap_load (a + i) h' = sm_data (sh_smem (heap_store32 a w h)) (b + i)" if "i < 4" for i
    using assms(3) [OF that] by (simp add: heap_load_def assms(2) a)
  have s: "sm_data (sh_smem (heap_store32 a w h)) b = ucast w" "sm_data (sh_smem (heap_store32 a w h)) (b + 1) = ucast (drop_bit 8 w)"
    "sm_data (sh_smem (heap_store32 a w h)) (b + 2) = ucast (drop_bit 16 w)" "sm_data (sh_smem (heap_store32 a w h)) (b + 3) = ucast (drop_bit 24 w)"
    by (simp_all add: heap_store32_def heap_store_def a add.assoc)
  have "heap_load a h' = ucast w" "heap_load (a + 1) h' = ucast (drop_bit 8 w)"
    "heap_load (a + 2) h' = ucast (drop_bit 16 w)" "heap_load (a + 3) h' = ucast (drop_bit 24 w)"
    using l [of 0] l [of 1] l [of 2] l [of 3] unfolding s [symmetric] by simp_all
  then show ?thesis unfolding heap_load32_def using word_bytes [of w] by simp
qed

section \<open>The aligned block\<close>

definition heap_ok :: "system_heap \<Rightarrow> bool" where
  "heap_ok h \<longleftrightarrow> smem_inv (sh_smem h) \<and> sh_ptr h + sm_heap_end (sh_smem h) < 2 ^ 32 \<and> sh_ptr h mod 8 = 0"

lemma rt_malloc_spec:
  assumes h: "heap_ok h" and sz: "sz < 2 ^ 32 - 7"
  shows "\<exists>r h'. rt_malloc sz h = Some (r, h') \<and> heap_ok h' \<and> sh_ptr h' = sh_ptr h \<and> sm_data (sh_smem h') = sm_data (sh_smem h) \<and>
    (case r of None \<Rightarrow> h' = h
     | Some a \<Rightarrow> \<exists>p k. a = sh_ptr h + p \<and> sz \<le> k \<and> (p, k) \<notin> smem_live (sh_smem h) \<and>
         smem_live (sh_smem h') = insert (p, k) (smem_live (sh_smem h)) \<and> 16 \<le> p \<and> p + k \<le> sm_heap_end (sh_smem h) \<and> p mod 8 = 0)"
proof -
  have i: "smem_inv (sh_smem h)" using h by (simp add: heap_ok_def)
  obtain r m where r: "rt_smem_alloc sz (sh_smem h) = Some (r, m)" "smem_inv m" "sm_data m = sm_data (sh_smem h)"
    "sm_heap_end m = sm_heap_end (sh_smem h)" "case r of None \<Rightarrow> m = sh_smem h
     | Some p \<Rightarrow> \<exists>k. block_size sz \<le> k \<and> (p, k) \<notin> smem_live (sh_smem h) \<and> smem_live m = insert (p, k) (smem_live (sh_smem h))"
    using smem_alloc_live [OF i sz] by blast
  let ?h' = "h\<lparr>sh_smem := m\<rparr>"
  have ok: "heap_ok ?h'" using h r(2,4) by (simp add: heap_ok_def)
  show ?thesis
  proof (cases r)
    case None
    with r ok show ?thesis by (simp add: rt_malloc_def)
  next
    case (Some p)
    then obtain k where k: "block_size sz \<le> k" "(p, k) \<notin> smem_live (sh_smem h)" "smem_live m = insert (p, k) (smem_live (sh_smem h))"
      using r(5) by auto
    have "(p, k) \<in> smem_live m" using k(3) by simp
    from smem_live_facts(2) [OF r(2) this] r(4) have "16 \<le> p" "p + k \<le> sm_heap_end (sh_smem h)" "p mod 8 = 0" by simp_all
    with Some r(1,3) ok k block_size_facts(1) [OF sz] show ?thesis
      by (auto simp: rt_malloc_def intro!: exI [of _ k])
  qed
qed

lemma rt_free_spec:
  assumes h: "heap_ok h" and p: "(p, k) \<in> smem_live (sh_smem h)"
  shows "\<exists>h'. rt_free (Some (sh_ptr h + p)) h = Some h' \<and> heap_ok h' \<and> sh_ptr h' = sh_ptr h \<and> smem_live (sh_smem h') = smem_live (sh_smem h) - {(p, k)}"
proof -
  have i: "smem_inv (sh_smem h)" using h by (simp add: heap_ok_def)
  from smem_free_live [OF i p] h show ?thesis by (auto simp: rt_free_def heap_ok_def)
qed

text \<open>Where the aligned pointer lies in the block at address \<open>x\<close>.\<close>

lemma align_pointer:
  assumes k: "2 \<le> k" "k < 32" and x: "unat x mod 4 = 0" "unat x + 2 ^ k + 4 \<le> 2 ^ 32"
  defines "y \<equiv> (if x AND (2 ^ k - 1) = 0 then x + 2 ^ k else align_up x (2 ^ k))"
  shows "unat y mod 2 ^ k = 0" "unat x + 4 \<le> unat y" "unat y \<le> unat x + 2 ^ k"
proof -
  have d4: "4 dvd (2 :: nat) ^ k" using k(1) le_imp_power_dvd [of 2 k 2] by simp
  have p2: "unat (2 ^ k :: u32) = 2 ^ k"
  proof -
    have "(2 :: nat) ^ k < 2 ^ 32" using k(2) by (intro power_strict_increasing) simp_all
    moreover have "unat (word_of_nat (2 ^ k) :: u32) = 2 ^ k mod 2 ^ 32" by (simp only: unat_of_nat) simp
    ultimately show ?thesis by simp
  qed
  have "unat y mod 2 ^ k = 0 \<and> unat x + 4 \<le> unat y \<and> unat y \<le> unat x + 2 ^ k"
  proof (cases "unat x mod 2 ^ k = 0")
    case True
    then have "y = x + 2 ^ k" using and_exp_zero [OF k(2), of x] by (simp add: y_def)
    moreover have "unat (x + 2 ^ k) = unat x + 2 ^ k" using x(2) by (subst unat_add_lem [THEN iffD1]) (simp_all add: p2)
    moreover have "(4 :: nat) \<le> 2 ^ k" using d4 by (simp add: dvd_imp_le)
    ultimately show ?thesis using True by simp
  next
    case False
    then have y: "y = align_up x (2 ^ k)" using and_exp_zero [OF k(2), of x] by (simp add: y_def)
    have "(0 :: nat) < 2 ^ k" by simp
    note r = round_up_facts [OF this, of "unat x"]
    have u: "unat y = (unat x + (2 ^ k - 1)) - (unat x + (2 ^ k - 1)) mod 2 ^ k"
      unfolding y by (rule align_up_exp [OF k(2)]) (use x(2) in linarith)
    have m: "unat x \<le> unat y" "unat y < unat x + 2 ^ k" "unat y mod 2 ^ k = 0" unfolding u by (fact r)+
    have "unat x \<noteq> unat y" using False m(3) by auto
    moreover have "4 dvd unat y" using m(3) d4 by (metis dvd_trans mod_0_imp_dvd)
    moreover have "4 dvd unat x" using x(1) by presburger
    ultimately have "unat x + 4 \<le> unat y" using m(1) by presburger
    with m show ?thesis by simp
  qed
  then show "unat y mod 2 ^ k = 0" "unat x + 4 \<le> unat y" "unat y \<le> unat x + 2 ^ k" by simp_all
qed

text \<open>The alignment that is used: at least that of a pointer.\<close>

lemma align_up_4:
  assumes "unat x + 4 \<le> 2 ^ 32"
  shows "unat x \<le> unat (align_up x 4)" "unat (align_up x 4) < unat x + 4"
proof -
  have "unat (align_up x (2 ^ 2)) = (unat x + (2 ^ 2 - 1)) - (unat x + (2 ^ 2 - 1)) mod 2 ^ 2"
    by (rule align_up_exp) (use assms in simp_all)
  then have "unat (align_up x 4) = (unat x + (4 - 1)) - (unat x + (4 - 1)) mod 4" by simp
  with round_up_facts [of 4 "unat x"] show "unat x \<le> unat (align_up x 4)" "unat (align_up x 4) < unat x + 4" by simp_all
qed

lemma align_up_exp4:
  assumes "k < 31"
  obtains j where "align_up (2 ^ k) 4 = 2 ^ j" "2 \<le> j" "j < 32" "k \<le> j" "(2 :: nat) ^ j \<le> 2 ^ k + 3"
proof (cases "k < 2")
  case True
  then have "k = 0 \<or> k = 1" by auto
  then have "align_up (2 ^ k) 4 = 2 ^ 2" by (auto simp: align_up_def)
  with that [of 2] True show thesis by simp
next
  case False
  have l: "(2 :: nat) ^ k \<le> 2 ^ 30" using assms by (intro power_increasing) simp_all
  have "unat (word_of_nat (2 ^ k) :: u32) = 2 ^ k mod 2 ^ 32" by (simp only: unat_of_nat) simp
  with l have p: "unat (2 ^ k :: u32) = 2 ^ k" by simp
  have "(4 :: nat) dvd 2 ^ k" using False le_imp_power_dvd [of 2 k 2] by simp
  moreover have "unat (align_up (2 ^ k) (2 ^ 2)) = (unat (2 ^ k :: u32) + (2 ^ 2 - 1)) - (unat (2 ^ k :: u32) + (2 ^ 2 - 1)) mod 2 ^ 2"
    by (rule align_up_exp) (use l p in simp_all)
  ultimately have "unat (align_up (2 ^ k) 4) = unat (2 ^ k :: u32)" unfolding p by (simp add: mod_add_eq [symmetric] dvd_imp_mod_0)
  then have "align_up (2 ^ k) 4 = 2 ^ k" by (simp add: word_unat_eq_iff)
  with that [of k] assms False show thesis by simp
qed

lemma malloc_align_spec:
  assumes h: "heap_ok h" and k: "k < 31" and sz: "unat sz + 2 ^ k + 16 < 2 ^ 32"
  shows "\<exists>r h1. rt_malloc_align sz (2 ^ k) h = Some (r, h1) \<and> heap_ok h1 \<and> sh_ptr h1 = sh_ptr h \<and>
    (case r of None \<Rightarrow> h1 = h
     | Some a \<Rightarrow> a mod 2 ^ k = 0 \<and> (\<exists>p n. (p, n) \<notin> smem_live (sh_smem h) \<and> smem_live (sh_smem h1) = insert (p, n) (smem_live (sh_smem h)) \<and>
         sh_ptr h + p + 4 \<le> a \<and> a + unat sz \<le> sh_ptr h + p + n \<and> a < 2 ^ 32 \<and>
         (\<exists>h0. h1 = heap_store32 (a - 4) (word_of_nat (sh_ptr h + p)) h0 \<and> sh_ptr h0 = sh_ptr h)))"
proof -
  obtain j where j: "align_up (2 ^ k) 4 = 2 ^ j" "2 \<le> j" "j < 32" "k \<le> j" "(2 :: nat) ^ j \<le> 2 ^ k + 3"
    by (rule align_up_exp4 [OF k])
  have p2: "unat (2 ^ j :: u32) = 2 ^ j"
  proof -
    have "(2 :: nat) ^ j < 2 ^ 32" using j(3) by (intro power_strict_increasing) simp_all
    moreover have "unat (word_of_nat (2 ^ j) :: u32) = 2 ^ j mod 2 ^ 32" by (simp only: unat_of_nat) simp
    ultimately show ?thesis by simp
  qed
  let ?n = "align_up sz 4 + 2 ^ j"
  have u: "unat sz \<le> unat (align_up sz 4)" "unat (align_up sz 4) < unat sz + 4" using align_up_4 [of sz] sz by simp_all
  have n: "unat ?n = unat (align_up sz 4) + 2 ^ j"
    using u(2) j(5) sz by (subst unat_add_lem [THEN iffD1]) (simp_all add: p2)
  have n32: "unat ?n < 2 ^ 32 - 7" using n u(2) j(5) sz by simp
  obtain r h0 where r: "rt_malloc (unat ?n) h = Some (r, h0)" "heap_ok h0" "sh_ptr h0 = sh_ptr h"
    "case r of None \<Rightarrow> h0 = h
     | Some a \<Rightarrow> \<exists>p k. a = sh_ptr h + p \<and> unat ?n \<le> k \<and> (p, k) \<notin> smem_live (sh_smem h) \<and>
         smem_live (sh_smem h0) = insert (p, k) (smem_live (sh_smem h)) \<and> 16 \<le> p \<and> p + k \<le> sm_heap_end (sh_smem h) \<and> p mod 8 = 0"
    using rt_malloc_spec [OF h n32] by blast
  show ?thesis
  proof (cases r)
    case None
    with r h show ?thesis by (simp add: rt_malloc_align_def j(1) Let_def)
  next
    case (Some x)
    then obtain p l where p: "x = sh_ptr h + p" "unat ?n \<le> l" "(p, l) \<notin> smem_live (sh_smem h)"
      "smem_live (sh_smem h0) = insert (p, l) (smem_live (sh_smem h))" "p + l \<le> sm_heap_end (sh_smem h)" "p mod 8 = 0"
      using r(4) by auto
    have b: "sh_ptr h + sm_heap_end (sh_smem h) < 2 ^ 32" "sh_ptr h mod 8 = 0" using h by (simp_all add: heap_ok_def)
    let ?x = "word_of_nat x :: u32"
    have "x < 2 ^ 32" using p(1,5) b(1) by linarith
    then have x: "unat ?x = x" by (simp add: unsigned_of_nat take_bit_nat_eq_self)
    have x8: "x mod 8 = 0" using p(1,6) b(2) by (simp add: mod_add_eq [symmetric])
    then have x4: "unat ?x mod 4 = 0" unfolding x by presburger
    have x32: "x + 2 ^ j + unat (align_up sz 4) < 2 ^ 32" using p(1,2,5) b(1) n by linarith
    have x32': "unat ?x + 2 ^ j + 4 \<le> 2 ^ 32"
    proof -
      have "8 dvd x" "(4 :: nat) dvd 2 ^ j" using x8 j(2) le_imp_power_dvd [of 2 j 2] by (auto simp: mod_0_imp_dvd)
      then have "4 dvd x + 2 ^ j" by (metis dvd_add dvd_trans dvd_triv_left mult_numeral_left_semiring_numeral num_double numeral_times_numeral semiring_norm(13))
      moreover have "n + 4 \<le> 2 ^ 32" if "4 dvd n" "n < 2 ^ 32" for n :: nat using that by (auto elim!: dvdE)
      ultimately show ?thesis using x32 unfolding x by simp
    qed
    let ?y = "if ?x AND (2 ^ j - 1) = 0 then ?x + 2 ^ j else align_up ?x (2 ^ j)"
    note y = align_pointer [OF j(2,3) x4 x32', unfolded x]
    have y4: "unat (?y - 4) = unat ?y - 4"
      using y(2) by (subst unat_sub) (simp_all add: word_le_nat_alt)
    let ?h1 = "heap_store32 (unat ?y - 4) ?x h0"
    have run: "rt_malloc_align sz (2 ^ k) h = Some (Some (unat ?y), ?h1)"
      using r(1) Some by (simp add: rt_malloc_align_def j(1) Let_def y4)
    have d: "(2 :: nat) ^ k dvd 2 ^ j" using j(4) by (rule le_imp_power_dvd)
    have "unat ?y mod 2 ^ k = 0" by (rule dvd_imp_mod_0, rule dvd_trans [OF d], rule mod_0_imp_dvd, rule y(1))
    moreover have "heap_ok ?h1" using r(2) by (simp add: heap_ok_def)
    moreover have "unat ?y + unat sz \<le> sh_ptr h + p + l" using y(3) u(1) n p(1,2) by linarith
    moreover have "unat ?y < 2 ^ 32" using unat_u32 [of ?y] by simp
    moreover have "sh_ptr h + p + 4 \<le> unat ?y" using y(2) p(1) by linarith
    moreover have "?h1 = heap_store32 (unat ?y - 4) (word_of_nat (sh_ptr h + p)) h0" unfolding p(1) ..
    moreover have "smem_live (sh_smem ?h1) = insert (p, l) (smem_live (sh_smem h))" using p(4) by simp
    moreover have "sh_ptr ?h1 = sh_ptr h" using r(3) by simp
    ultimately have "rt_malloc_align sz (2 ^ k) h = Some (Some (unat ?y), ?h1) \<and> heap_ok ?h1 \<and> sh_ptr ?h1 = sh_ptr h \<and>
      (case Some (unat ?y) of None \<Rightarrow> ?h1 = h
       | Some a \<Rightarrow> a mod 2 ^ k = 0 \<and> (\<exists>p n. (p, n) \<notin> smem_live (sh_smem h) \<and> smem_live (sh_smem ?h1) = insert (p, n) (smem_live (sh_smem h)) \<and>
         sh_ptr h + p + 4 \<le> a \<and> a + unat sz \<le> sh_ptr h + p + n \<and> a < 2 ^ 32 \<and>
         (\<exists>h0. ?h1 = heap_store32 (a - 4) (word_of_nat (sh_ptr h + p)) h0 \<and> sh_ptr h0 = sh_ptr h)))"
      using run p(3) r(3) unfolding option.case by blast
    then show ?thesis by blast
  qed
qed

section \<open>Properties\<close>

text \<open>Heaps that differ only in what a client wrote to its own bytes.\<close>

definition client_wrote :: "nat \<Rightarrow> nat \<Rightarrow> system_heap \<Rightarrow> system_heap \<Rightarrow> bool" where
  "client_wrote a n h h' \<longleftrightarrow> sh_ptr h' = sh_ptr h \<and> (\<exists>d. sh_smem h' = (sh_smem h)\<lparr>sm_data := d\<rparr> \<and>
     (\<forall>p. p < a - sh_ptr h \<or> a - sh_ptr h + n \<le> p \<longrightarrow> d p = sm_data (sh_smem h) p))"

lemma client_wrote_keeps:
  assumes "client_wrote a n h h'"
  shows "smem_live (sh_smem h') = smem_live (sh_smem h)" "heap_ok h' = heap_ok h" "sh_ptr h' = sh_ptr h"
  using assms by (auto simp: client_wrote_def smem_live_def smem_blocks_def heap_ok_def smem_inv_def heap_is_def)

text \<open>
  rt_malloc_align returns RT_NULL and changes nothing, or an address aligned to the power of two
  asked for, with all its bytes inside a block of its own and room for the hidden pointer in front; and
  rt_free_align, whatever the client wrote to its bytes, gives exactly that block back.
\<close>
lemma malloc_align_round_trip:
  assumes "heap_ok h" "k < 31" "unat sz + 2 ^ k + 16 < 2 ^ 32"
  shows "\<exists>r h1. rt_malloc_align sz (2 ^ k) h = Some (r, h1) \<and>
    (case r of None \<Rightarrow> h1 = h
     | Some a \<Rightarrow> a mod 2 ^ k = 0 \<and> (\<exists>p n. (p, n) \<notin> smem_live (sh_smem h) \<and> smem_live (sh_smem h1) = insert (p, n) (smem_live (sh_smem h)) \<and>
         sh_ptr h + p + 4 \<le> a \<and> a + unat sz \<le> sh_ptr h + p + n) \<and>
         (\<forall>h2. client_wrote a (unat sz) h1 h2 \<longrightarrow>
            (\<exists>h3. rt_free_align (Some a) h2 = Some h3 \<and> heap_ok h3 \<and> smem_live (sh_smem h3) = smem_live (sh_smem h))))"
proof -
  obtain r h1 where r: "rt_malloc_align sz (2 ^ k) h = Some (r, h1)" "heap_ok h1" "sh_ptr h1 = sh_ptr h"
    "case r of None \<Rightarrow> h1 = h
     | Some a \<Rightarrow> a mod 2 ^ k = 0 \<and> (\<exists>p n. (p, n) \<notin> smem_live (sh_smem h) \<and> smem_live (sh_smem h1) = insert (p, n) (smem_live (sh_smem h)) \<and>
         sh_ptr h + p + 4 \<le> a \<and> a + unat sz \<le> sh_ptr h + p + n \<and> a < 2 ^ 32 \<and>
         (\<exists>h0. h1 = heap_store32 (a - 4) (word_of_nat (sh_ptr h + p)) h0 \<and> sh_ptr h0 = sh_ptr h))"
    using malloc_align_spec [OF assms] by blast
  show ?thesis
  proof (cases r)
    case None
    with r show ?thesis by simp
  next
    case (Some a)
    then obtain p n h0 where p: "a mod 2 ^ k = 0" "(p, n) \<notin> smem_live (sh_smem h)" "smem_live (sh_smem h1) = insert (p, n) (smem_live (sh_smem h))"
      "sh_ptr h + p + 4 \<le> a" "a + unat sz \<le> sh_ptr h + p + n" "a < 2 ^ 32"
      "h1 = heap_store32 (a - 4) (word_of_nat (sh_ptr h + p)) h0" "sh_ptr h0 = sh_ptr h"
      using r(4) by auto
    have "\<exists>h3. rt_free_align (Some a) h2 = Some h3 \<and> heap_ok h3 \<and> smem_live (sh_smem h3) = smem_live (sh_smem h)"
      if w: "client_wrote a (unat sz) h1 h2" for h2
    proof -
      note c = client_wrote_keeps [OF w]
      have "unat (word_of_nat a :: u32) = a" using p(6) by (simp add: unsigned_of_nat take_bit_nat_eq_self)
      then have a4: "unat (word_of_nat a - 4 :: u32) = a - 4"
        using p(4) by (subst unat_sub) (simp_all add: word_le_nat_alt)
      have "heap_load32 (a - 4) h2 = word_of_nat (sh_ptr h + p)"
      proof (rule heap_load_store32 [of h0])
        fix i :: nat assume "i < 4"
        then have "a - 4 - sh_ptr h + i < a - sh_ptr h" using p(4) by linarith
        then show "sm_data (sh_smem h2) (a - 4 - sh_ptr h0 + i) =
          sm_data (sh_smem (heap_store32 (a - 4) (word_of_nat (sh_ptr h + p)) h0)) (a - 4 - sh_ptr h0 + i)"
          using w r(3) p(7,8) by (auto simp: client_wrote_def)
      qed (use p(4,8) c(3) r(3) in auto)
      moreover have "sh_ptr h + p < 2 ^ 32" using p(4,6) by linarith
      then have "unat (word_of_nat (sh_ptr h + p) :: u32) = sh_ptr h + p" by (simp add: unsigned_of_nat take_bit_nat_eq_self del: of_nat_add)
      ultimately have "rt_free_align (Some a) h2 = rt_free (Some (sh_ptr h2 + p)) h2"
        using a4 c(3) r(3) by (simp add: rt_free_align_def)
      moreover have "(p, n) \<in> smem_live (sh_smem h2)" using c(1) p(3) by simp
      ultimately show ?thesis using rt_free_spec [of h2 p n] c(1,2) r(2) p(2,3) by auto
    qed
    with Some r(1) p show ?thesis by auto
  qed
qed

text \<open>The heap of the sample region, as the system heap.\<close>

lemma sample_system_heap:
  obtains h where "heap_ok h" "smem_live (sh_smem h) = {}"
proof -
  obtain m where m: "heap_is m [(False, 176)]" using sample_heap by blast
  have "heap_ok \<lparr>sh_ptr = 4160, sh_smem = m\<rparr>" using heap_is_inv(1) [OF m] m by (simp add: heap_ok_def heap_is_def)
  moreover have "smem_live m = {}" using heap_is_inv(3) [OF m] by simp
  ultimately show thesis using that by fastforce
qed

lemma malloc_align_round_trip_witness:
  "\<exists>h r h1. heap_ok h \<and> rt_malloc_align 20 (2 ^ 5) h = Some (r, h1)"
proof -
  obtain h where h: "heap_ok h" "smem_live (sh_smem h) = {}" by (rule sample_system_heap)
  from malloc_align_round_trip [OF h(1), of 5 20] h show ?thesis by auto
qed

text \<open>
  rt_calloc does not check its product: for a product of 2^32 or more it returns a block for the
  remainder only, zeroed as far as that; otherwise the block holds count objects of zero bytes.
\<close>
lemma calloc_zeroes_but_wraps:
  assumes "heap_ok h" "mul32 count sz < 2 ^ 32 - 7"
  shows "(\<exists>r h'. rt_calloc count sz h = Some (r, h') \<and>
      (case r of None \<Rightarrow> h' = h
       | Some a \<Rightarrow> \<exists>p k. a = sh_ptr h + p \<and> mul32 count sz \<le> k \<and> smem_live (sh_smem h') = insert (p, k) (smem_live (sh_smem h)) \<and>
           (\<forall>i < mul32 count sz. heap_load (a + i) h' = 0))) \<and>
    (count * sz < 2 ^ 32 \<longrightarrow> mul32 count sz = count * sz) \<and>
    rt_calloc 0x10001 0x10000 h = rt_calloc 1 0x10000 h"
proof (intro conjI)
  show "count * sz < 2 ^ 32 \<longrightarrow> mul32 count sz = count * sz" by (simp add: mul32_small)
  have "mul32 0x10001 0x10000 = mul32 1 0x10000" by (simp add: mul32_def)
  then show "rt_calloc 0x10001 0x10000 h = rt_calloc 1 0x10000 h" by (simp only: rt_calloc_def)
  obtain r h0 where r: "rt_malloc (mul32 count sz) h = Some (r, h0)" "sh_ptr h0 = sh_ptr h"
    "case r of None \<Rightarrow> h0 = h
     | Some a \<Rightarrow> \<exists>p k. a = sh_ptr h + p \<and> mul32 count sz \<le> k \<and> (p, k) \<notin> smem_live (sh_smem h) \<and>
         smem_live (sh_smem h0) = insert (p, k) (smem_live (sh_smem h)) \<and> 16 \<le> p \<and> p + k \<le> sm_heap_end (sh_smem h) \<and> p mod 8 = 0"
    using rt_malloc_spec [OF assms] by blast
  have f: "smem_live (sh_smem (heap_fill a v n h0)) = smem_live (sh_smem h0)" for a v n
    by (simp add: heap_fill_def smem_live_def smem_blocks_def)
  show "\<exists>r h'. rt_calloc count sz h = Some (r, h') \<and>
      (case r of None \<Rightarrow> h' = h
       | Some a \<Rightarrow> \<exists>p k. a = sh_ptr h + p \<and> mul32 count sz \<le> k \<and> smem_live (sh_smem h') = insert (p, k) (smem_live (sh_smem h)) \<and>
           (\<forall>i < mul32 count sz. heap_load (a + i) h' = 0))"
  proof (cases r)
    case None
    with r show ?thesis by (simp add: rt_calloc_def)
  next
    case (Some a)
    then obtain p k where p: "a = sh_ptr h + p" "mul32 count sz \<le> k" "smem_live (sh_smem h0) = insert (p, k) (smem_live (sh_smem h))"
      using r(3) by auto
    let ?h' = "heap_fill a 0 (mul32 count sz) h0"
    have "rt_calloc count sz h = Some (Some a, ?h')" using r(1) Some by (simp add: rt_calloc_def)
    moreover have "\<forall>i < mul32 count sz. heap_load (a + i) ?h' = 0"
      using r(2) p(1) by (auto simp: heap_load_def heap_fill_def)
    moreover have "smem_live (sh_smem ?h') = insert (p, k) (smem_live (sh_smem h))" unfolding f by (rule p(3))
    ultimately show ?thesis using p(1,2) by (intro exI [of _ "Some a"] exI [of _ ?h']) (simp, blast)
  qed
qed

lemma calloc_zeroes_but_wraps_witness:
  "\<exists>h r h'. heap_ok h \<and> rt_calloc 3 8 h = Some (r, h')"
proof -
  obtain h where h: "heap_ok h" by (rule sample_system_heap)
  from calloc_zeroes_but_wraps [OF h, of 3 8] h show ?thesis by (auto simp: mul32_small)
qed

end
