(* ===== verification/Kservice_Format.thy ===== *)
theory Kservice_Format
  imports Kservice_String
begin

unbundle bit_operations_syntax

text \<open>
  Formatted output of the kernel library: \<open>rt_vsnprintf\<close> of \<open>src/kservice.c\<close> and the functions it is
  made of, built with \<open>RT_PRINTF_PRECISION\<close> and \<open>RT_PRINTF_SPECIAL\<close> and without \<open>RT_KPRINTF_USING_LONGLONG\<close>.
  The variable arguments are a list of 32-bit words; taking one more than there are, an \<open>int\<close> that
  overflows and an access outside of memory are \<open>None\<close>. The text a format stands for is defined on
  lists, and the code writes that text, cut to the size of the buffer.
\<close>

section \<open>Operations\<close>

definition ISDIGIT :: "u8 \<Rightarrow> bool" where
  "ISDIGIT c \<longleftrightarrow> 48 \<le> c \<and> c < 58"

text \<open>The result is a signed \<open>int\<close>: its overflow is undefined.\<close>

partial_function (option) skip_atoi_loop :: "nat \<Rightarrow> nat \<Rightarrow> memory \<Rightarrow> (nat \<times> nat) option" where
  "skip_atoi_loop s i m = do {
     c \<leftarrow> load s m;
     if ISDIGIT c
     then if i * 10 + unat c < 2 ^ 31 then skip_atoi_loop (s + 1) (i * 10 + unat c - 48) m else None
     else Some (i, s)
   }"

definition skip_atoi :: "nat \<Rightarrow> memory \<Rightarrow> (nat \<times> nat) option" where
  "skip_atoi s m = skip_atoi_loop s 0 m"

definition ZEROPAD :: u8 where "ZEROPAD = 1"
definition SIGN :: u8 where "SIGN = 2"
definition PLUS :: u8 where "PLUS = 4"
definition SPACE :: u8 where "SPACE = 8"
definition LEFT :: u8 where "LEFT = 16"
definition SPECIAL :: u8 where "SPECIAL = 32"
definition LARGE :: u8 where "LARGE = 64"

definition flag :: "u8 \<Rightarrow> u8 \<Rightarrow> bool" where
  "flag t f \<longleftrightarrow> t AND f \<noteq> 0"

text \<open>
  The position in the buffer and the memory; \<open>if (str < end) *str = c; ++ str;\<close>. A pointer has 32 bits, so
  \<open>++ str\<close> wraps: text that goes on behind the last address goes on at address 0, which is below \<open>end\<close>.
\<close>

type_synonym sink = "nat \<times> memory"

definition emit :: "nat \<Rightarrow> u8 \<Rightarrow> sink \<Rightarrow> sink option" where
  "emit en c k = (case k of (str, m) \<Rightarrow> do {
     m \<leftarrow> (if str < en then store str c m else Some m);
     Some ((str + 1) mod 2 ^ 32, m)
   })"

primrec emit_list :: "nat \<Rightarrow> u8 list \<Rightarrow> sink \<Rightarrow> sink option" where
  "emit_list en [] k = Some k"
| "emit_list en (c # cs) k = do { k \<leftarrow> emit en c k; emit_list en cs k }"

text \<open>Differences and decrements of an \<open>int\<close>, whose overflow is undefined.\<close>

definition int_val :: "int \<Rightarrow> int option" where
  "int_val i = (if - (2 ^ 31) \<le> i \<and> i < 2 ^ 31 then Some i else None)"

text \<open>\<open>while (size-- > 0)\<close>, which leaves \<open>size\<close> one below the bound it stopped at.\<close>

function pad_loop :: "nat \<Rightarrow> u8 \<Rightarrow> int \<Rightarrow> sink \<Rightarrow> (int \<times> sink) option" where
  "pad_loop en c sz k =
     (if 0 < sz then do { k \<leftarrow> emit en c k; pad_loop en c (sz - 1) k }
      else do { sz \<leftarrow> int_val (sz - 1); Some (sz, k) })"
  by pat_completeness auto

termination by (relation "measure (\<lambda>(_, _, sz, _). nat sz)") auto

text \<open>\<open>while (i < precision--)\<close>\<close>

function zeros_loop :: "nat \<Rightarrow> int \<Rightarrow> int \<Rightarrow> sink \<Rightarrow> sink option" where
  "zeros_loop en i precision k =
     (if i < precision then do { k \<leftarrow> emit en 48 k; zeros_loop en i (precision - 1) k } else Some k)"
  by pat_completeness auto

termination by (relation "measure (\<lambda>(_, i, precision, _). nat (precision - i))") auto

text \<open>\<open>while (i-- > 0 && (precision_bak != 0))\<close>\<close>

primrec digits_out :: "nat \<Rightarrow> u8 list \<Rightarrow> int \<Rightarrow> nat \<Rightarrow> sink \<Rightarrow> sink option" where
  "digits_out en tmp precision_bak 0 k = Some k"
| "digits_out en tmp precision_bak (Suc i) k =
     (if precision_bak \<noteq> 0 then do { k \<leftarrow> emit en (tmp ! i) k; digits_out en tmp precision_bak i k } else Some k)"

definition small_digits :: "u8 list" where
  "small_digits = [48, 49, 50, 51, 52, 53, 54, 55, 56, 57, 97, 98, 99, 100, 101, 102]"

definition large_digits :: "u8 list" where
  "large_digits = [48, 49, 50, 51, 52, 53, 54, 55, 56, 57, 65, 66, 67, 68, 69, 70]"

text \<open>\<open>divide\<close> in the loop that fills \<open>tmp[32]\<close>; writing behind its end is a fault.\<close>

function tmp_loop :: "u8 list \<Rightarrow> u32 \<Rightarrow> u32 \<Rightarrow> u8 list \<Rightarrow> u8 list option" where
  "tmp_loop digits base num tmp =
     (if num = 0 then Some tmp
      else if length tmp < 32
      then tmp_loop digits base (num div base) (tmp @ [digits ! unat (num mod base)])
      else None)"
  by pat_completeness auto

termination by (relation "measure (\<lambda>(_, _, _, tmp). 32 - length tmp)") auto

declare pad_loop.simps [simp del] zeros_loop.simps [simp del] tmp_loop.simps [simp del]

definition number_sign :: "u8 \<Rightarrow> u8 \<Rightarrow> u32 \<Rightarrow> u8 \<times> u32" where
  "number_sign qualifier type num =
     (if flag type SIGN
      then let (sign, num) =
             (if qualifier = 104
              then (if sint (ucast num :: u16) < 0 then (45, ucast (ucast (- num) :: u16)) else (0, num))
              else if qualifier = 76 \<or> qualifier = 108
              then (if sint num < 0 then (45, - num) else (0, num))
              else (if sint num < 0 then (45, - num) else (0, num)))
           in if sign \<noteq> 45 then (if flag type PLUS then (43, num) else if flag type SPACE then (32, num) else (sign, num))
              else (sign, num)
      else (0, num))"

definition print_prefix :: "nat \<Rightarrow> u32 \<Rightarrow> u8 \<Rightarrow> sink \<Rightarrow> sink option" where
  "print_prefix en base type k =
     (if flag type SPECIAL
      then if base = 2 then emit_list en [48, 98] k
           else if base = 8 then emit en 48 k
           else if base = 16 then emit_list en [48, if flag type LARGE then 88 else 120] k
           else Some k
      else Some k)"

definition print_number :: "nat \<Rightarrow> u32 \<Rightarrow> u32 \<Rightarrow> u8 \<Rightarrow> int \<Rightarrow> int \<Rightarrow> u8 \<Rightarrow> sink \<Rightarrow> sink option" where
  "print_number en num base qualifier s precision type k = do {
     let precision_bak = precision;
     let digits = (if flag type LARGE then large_digits else small_digits);
     let type = (if flag type LEFT then type AND NOT ZEROPAD else type);
     let c = (if flag type ZEROPAD then 48 else 32);
     let (sign, num) = number_sign qualifier type num;
     let sz = (if flag type SPECIAL then if base = 2 \<or> base = 16 then s - 2 else if base = 8 then s - 1 else s else s);
     tmp \<leftarrow> (if num = 0 then Some [48] else tmp_loop digits base num []);
     let i = length tmp;
     let precision = (if precision < int i then int i else precision);
     sz \<leftarrow> int_val (sz - precision);
     (sz, k) \<leftarrow>
       (if \<not> flag type (ZEROPAD OR LEFT)
        then pad_loop en 32 (if sign \<noteq> 0 \<and> 0 < sz then sz - 1 else sz) k
        else Some (sz, k));
     (sz, k) \<leftarrow> (if sign \<noteq> 0 then do { k \<leftarrow> emit en sign k; sz \<leftarrow> int_val (sz - 1); Some (sz, k) } else Some (sz, k));
     k \<leftarrow> print_prefix en base type k;
     (sz, k) \<leftarrow> (if \<not> flag type LEFT then pad_loop en c sz k else Some (sz, k));
     k \<leftarrow> zeros_loop en (int i) precision k;
     k \<leftarrow> digits_out en tmp precision_bak i k;
     (sz, k) \<leftarrow> pad_loop en 32 sz k;
     Some k
   }"

section \<open>rt_vsnprintf\<close>

partial_function (option) skip_flags :: "nat \<Rightarrow> u8 \<Rightarrow> memory \<Rightarrow> (nat \<times> u8) option" where
  "skip_flags fmt flags m = do {
     let fmt = fmt + 1;
     c \<leftarrow> load fmt m;
     if c = 45 then skip_flags fmt (flags OR LEFT) m
     else if c = 43 then skip_flags fmt (flags OR PLUS) m
     else if c = 32 then skip_flags fmt (flags OR SPACE) m
     else if c = 35 then skip_flags fmt (flags OR SPECIAL) m
     else if c = 48 then skip_flags fmt (flags OR ZEROPAD) m
     else Some (fmt, flags)
   }"

text \<open>\<open>va_arg\<close>\<close>

definition va_arg :: "u32 list \<Rightarrow> (u32 \<times> u32 list) option" where
  "va_arg args = (case args of [] \<Rightarrow> None | a # args \<Rightarrow> Some (a, args))"

definition get_width :: "nat \<Rightarrow> u8 \<Rightarrow> u32 list \<Rightarrow> memory \<Rightarrow> (int \<times> u8 \<times> nat \<times> u32 list) option" where
  "get_width fmt flags args m = do {
     c \<leftarrow> load fmt m;
     if ISDIGIT c
     then do { (i, fmt) \<leftarrow> skip_atoi fmt m; Some (int i, flags, fmt, args) }
     else if c = 42
     then do {
       (a, args) \<leftarrow> va_arg args;
       let field_width = sint a;
       if field_width < 0
       then do { rt_assert (field_width \<noteq> - (2 ^ 31)); Some (- field_width, flags OR LEFT, fmt + 1, args) }
       else Some (field_width, flags, fmt + 1, args)
     }
     else Some (-1, flags, fmt, args)
   }"

definition get_precision :: "nat \<Rightarrow> u32 list \<Rightarrow> memory \<Rightarrow> (int \<times> nat \<times> u32 list) option" where
  "get_precision fmt args m = do {
     c \<leftarrow> load fmt m;
     if c = 46
     then do {
       let fmt = fmt + 1;
       c \<leftarrow> load fmt m;
       (precision, fmt, args) \<leftarrow>
         (if ISDIGIT c then do { (i, fmt) \<leftarrow> skip_atoi fmt m; Some (int i, fmt, args) }
          else if c = 42 then do { (a, args) \<leftarrow> va_arg args; Some (sint a, fmt + 1, args) }
          else Some (-1, fmt, args));
       Some (if precision < 0 then 0 else precision, fmt, args)
     }
     else Some (-1, fmt, args)
   }"

definition get_qualifier :: "nat \<Rightarrow> memory \<Rightarrow> (u8 \<times> nat) option" where
  "get_qualifier fmt m = do {
     c \<leftarrow> load fmt m;
     Some (if c = 104 \<or> c = 108 then (c, fmt + 1) else (0, fmt))
   }"

text \<open>\<open>while (--field_width > 0)\<close>\<close>

function char_pad :: "nat \<Rightarrow> int \<Rightarrow> sink \<Rightarrow> (int \<times> sink) option" where
  "char_pad en field_width k =
     (let field_width = field_width - 1 in
      if 0 < field_width then do { k \<leftarrow> emit en 32 k; char_pad en field_width k } else Some (field_width, k))"
  by pat_completeness auto

termination by (relation "measure (\<lambda>(_, field_width, _). nat field_width)") auto

text \<open>\<open>while (len < field_width--)\<close>\<close>

function str_pad :: "nat \<Rightarrow> int \<Rightarrow> int \<Rightarrow> sink \<Rightarrow> (int \<times> sink) option" where
  "str_pad en len field_width k =
     (if len < field_width
      then do { k \<leftarrow> emit en 32 k; str_pad en len (field_width - 1) k } else Some (field_width - 1, k))"
  by pat_completeness auto

termination by (relation "measure (\<lambda>(_, len, field_width, _). nat (field_width - len))") auto

declare char_pad.simps [simp del] str_pad.simps [simp del]

text \<open>The string of a \<open>%s\<close>: the argument, or the literal \<open>"(NULL)"\<close> in place of a null pointer.\<close>

definition NULL_text :: "u8 list" where
  "NULL_text = [40, 78, 85, 76, 76, 41]"

definition str_char :: "u32 \<Rightarrow> nat \<Rightarrow> memory \<Rightarrow> u8 option" where
  "str_char s i m =
     (if s = 0 then if i \<le> length NULL_text then Some ((NULL_text @ [0]) ! i) else None
      else load (unat s + i) m)"

partial_function (option) str_len_loop :: "u32 \<Rightarrow> int \<Rightarrow> nat \<Rightarrow> memory \<Rightarrow> nat option" where
  "str_len_loop s field_width len m =
     (if int len \<noteq> field_width
      then do { c \<leftarrow> str_char s len m; if c \<noteq> 0 then str_len_loop s field_width (len + 1) m else Some len }
      else Some len)"

text \<open>The character is only read when it is written; \<open>j\<close> characters are left from \<open>s[i]\<close>.\<close>

primrec str_copy :: "nat \<Rightarrow> u32 \<Rightarrow> nat \<Rightarrow> nat \<Rightarrow> sink \<Rightarrow> sink option" where
  "str_copy en s i 0 k = Some k"
| "str_copy en s i (Suc j) k = do {
     k \<leftarrow> (if fst k < en then do { c \<leftarrow> str_char s i (snd k); emit en c k } else Some ((fst k + 1) mod 2 ^ 32, snd k));
     str_copy en s (i + 1) j k
   }"

definition print_char :: "nat \<Rightarrow> u32 \<Rightarrow> int \<Rightarrow> u8 \<Rightarrow> sink \<Rightarrow> sink option" where
  "print_char en a field_width flags k = do {
     (field_width, k) \<leftarrow> (if \<not> flag flags LEFT then char_pad en field_width k else Some (field_width, k));
     k \<leftarrow> emit en (ucast a) k;
     (field_width, k) \<leftarrow> char_pad en field_width k;
     Some k
   }"

definition print_str :: "nat \<Rightarrow> u32 \<Rightarrow> int \<Rightarrow> int \<Rightarrow> u8 \<Rightarrow> sink \<Rightarrow> sink option" where
  "print_str en s field_width precision flags k = do {
     len \<leftarrow> str_len_loop s field_width 0 (snd k);
     let len = (if 0 < precision \<and> precision < int len then nat precision else len);
     (field_width, k) \<leftarrow> (if \<not> flag flags LEFT then str_pad en (int len) field_width k else Some (field_width, k));
     k \<leftarrow> str_copy en s 0 len k;
     (field_width, k) \<leftarrow> str_pad en (int len) field_width k;
     Some k
   }"

definition print_pointer :: "nat \<Rightarrow> u32 \<Rightarrow> u8 \<Rightarrow> int \<Rightarrow> int \<Rightarrow> u8 \<Rightarrow> sink \<Rightarrow> sink option" where
  "print_pointer en a qualifier field_width precision flags k =
     (let (field_width, flags) =
        (if field_width = -1 then (8 + 2, (flags OR SPECIAL) OR ZEROPAD) else (field_width, flags))
      in print_number en a 16 qualifier field_width precision flags k)"

text \<open>The argument of an integer conversion, by its qualifier.\<close>

definition number_arg :: "u8 \<Rightarrow> u8 \<Rightarrow> u32 \<Rightarrow> u32" where
  "number_arg qualifier flags a =
     (if qualifier = 108 then a
      else if qualifier = 104
      then let num = ucast (ucast a :: u16) in if flag flags SIGN then scast (ucast num :: u16) else num
      else a)"

text \<open>The \<open>switch\<close> on the conversion character at \<open>fmt\<close>; the loop then goes on behind the returned \<open>fmt\<close>.\<close>

definition convert :: "nat \<Rightarrow> nat \<Rightarrow> u8 \<Rightarrow> int \<Rightarrow> int \<Rightarrow> u8 \<Rightarrow> u32 list \<Rightarrow> sink \<Rightarrow> (nat \<times> u32 list \<times> sink) option" where
  "convert en fmt flags field_width precision qualifier args k = do {
     c \<leftarrow> load fmt (snd k);
     if c = 99
     then do { (a, args) \<leftarrow> va_arg args; k \<leftarrow> print_char en a field_width flags k; Some (fmt, args, k) }
     else if c = 115
     then do { (a, args) \<leftarrow> va_arg args; k \<leftarrow> print_str en a field_width precision flags k; Some (fmt, args, k) }
     else if c = 112
     then do {
       (a, args) \<leftarrow> va_arg args;
       k \<leftarrow> print_pointer en a qualifier field_width precision flags k;
       Some (fmt, args, k)
     }
     else if c = 37 then do { k \<leftarrow> emit en 37 k; Some (fmt, args, k) }
     else if c \<in> {98, 111, 88, 120, 100, 105, 117}
     then do {
       let base = (if c = 98 then 2 else if c = 111 then 8 else if c = 88 \<or> c = 120 then 16 else 10);
       let flags = (if c = 88 then flags OR LARGE else if c = 100 \<or> c = 105 then flags OR SIGN else flags);
       (a, args) \<leftarrow> va_arg args;
       k \<leftarrow> print_number en (number_arg qualifier flags a) base qualifier field_width precision flags k;
       Some (fmt, args, k)
     }
     else do {
       k \<leftarrow> emit en 37 k;
       (fmt, k) \<leftarrow> (if c \<noteq> 0 then do { k \<leftarrow> emit en c k; Some (fmt, k) } else Some (fmt - 1, k));
       Some (fmt, args, k)
     }
   }"

partial_function (option) format_loop :: "nat \<Rightarrow> nat \<Rightarrow> u32 list \<Rightarrow> sink \<Rightarrow> sink option" where
  "format_loop en fmt args k = do {
     c \<leftarrow> load fmt (snd k);
     if c = 0 then Some k
     else if c \<noteq> 37 then do { k \<leftarrow> emit en c k; format_loop en (fmt + 1) args k }
     else do {
       (fmt, flags) \<leftarrow> skip_flags fmt 0 (snd k);
       (field_width, flags, fmt, args) \<leftarrow> get_width fmt flags args (snd k);
       (precision, fmt, args) \<leftarrow> get_precision fmt args (snd k);
       (qualifier, fmt) \<leftarrow> get_qualifier fmt (snd k);
       (fmt, args, k) \<leftarrow> convert en fmt flags field_width precision qualifier args k;
       format_loop en (fmt + 1) args k
     }
   }"

text \<open>The result \<open>str - buf\<close> is the difference of two 32-bit pointers as an \<open>int\<close>.\<close>

definition rt_vsnprintf :: "nat \<Rightarrow> nat \<Rightarrow> nat \<Rightarrow> u32 list \<Rightarrow> memory \<Rightarrow> (int \<times> memory) option" where
  "rt_vsnprintf buf sz fmt args m = do {
     let en = (buf + sz) mod 2 ^ 32;
     let (en, sz) = (if en < buf then (2 ^ 32 - 1, 2 ^ 32 - 1 - buf) else (en, sz));
     (str, m) \<leftarrow> format_loop en fmt args (buf, m);
     m \<leftarrow> (if 0 < sz then if str < en then store str 0 m else store (en - 1) 0 m else Some m);
     Some (sint ((of_nat str :: u32) - of_nat buf), m)
   }"

definition rt_snprintf :: "nat \<Rightarrow> nat \<Rightarrow> nat \<Rightarrow> u32 list \<Rightarrow> memory \<Rightarrow> (int \<times> memory) option" where
  "rt_snprintf buf sz fmt args m = do { (n, m) \<leftarrow> rt_vsnprintf buf sz fmt args m; Some (n, m) }"

definition rt_vsprintf :: "nat \<Rightarrow> nat \<Rightarrow> u32 list \<Rightarrow> memory \<Rightarrow> (int \<times> memory) option" where
  "rt_vsprintf buf fmt args m = rt_vsnprintf buf (2 ^ 32 - 1) fmt args m"

definition rt_sprintf :: "nat \<Rightarrow> nat \<Rightarrow> u32 list \<Rightarrow> memory \<Rightarrow> (int \<times> memory) option" where
  "rt_sprintf buf fmt args m = do { (n, m) \<leftarrow> rt_vsprintf buf fmt args m; Some (n, m) }"


section \<open>The text of a format\<close>

text \<open>What the conversions stand for, on lists: digits, a number, and the padding of a field.\<close>

fun digits_of :: "u8 list \<Rightarrow> nat \<Rightarrow> nat \<Rightarrow> u8 list" where
  "digits_of digits base n =
     (if n < base \<or> base < 2 then [digits ! n] else digits_of digits base (n div base) @ [digits ! (n mod base)])"

declare digits_of.simps [simp del]

definition signed_value :: "u8 \<Rightarrow> u32 \<Rightarrow> int" where
  "signed_value qualifier num = (if qualifier = 104 then sint (ucast num :: u16) else sint num)"

definition sign_text :: "u8 \<Rightarrow> u8 \<Rightarrow> u32 \<Rightarrow> u8 list" where
  "sign_text qualifier flags num =
     (if \<not> flag flags SIGN then []
      else if signed_value qualifier num < 0 then [45]
      else if flag flags PLUS then [43] else if flag flags SPACE then [32] else [])"

definition magnitude :: "u8 \<Rightarrow> u8 \<Rightarrow> u32 \<Rightarrow> nat" where
  "magnitude qualifier flags num =
     (if flag flags SIGN \<and> signed_value qualifier num < 0 then nat (- signed_value qualifier num) else unat num)"

definition prefix_text :: "nat \<Rightarrow> u8 \<Rightarrow> u8 list" where
  "prefix_text base flags =
     (if \<not> flag flags SPECIAL then []
      else if base = 2 then [48, 98] else if base = 8 then [48]
      else if base = 16 then [48, if flag flags LARGE then 88 else 120] else [])"

text \<open>The precision 0 drops all digits.\<close>

definition number_text :: "nat \<Rightarrow> u8 \<Rightarrow> int \<Rightarrow> int \<Rightarrow> u8 \<Rightarrow> u32 \<Rightarrow> u8 list" where
  "number_text base qualifier w p flags num =
     (let ds = digits_of (if flag flags LARGE then large_digits else small_digits) base (magnitude qualifier flags num);
          sign = sign_text qualifier flags num;
          pre = prefix_text base flags;
          zeros = replicate (nat (p - int (length ds))) 48;
          gap = nat (w - int (length sign) - int (length pre) - int (length zeros) - int (length ds));
          body = zeros @ (if p = 0 then [] else ds)
      in if flag flags LEFT then sign @ pre @ body @ replicate gap 32
         else if flag flags ZEROPAD then sign @ pre @ replicate gap 48 @ body
         else replicate gap 32 @ sign @ pre @ body)"

text \<open>Fields of characters and strings; a field width also cuts the string.\<close>

definition field_text :: "int \<Rightarrow> u8 \<Rightarrow> u8 list \<Rightarrow> u8 list" where
  "field_text w flags cs =
     (let gap = nat (w - int (length cs)) in
      if flag flags LEFT then cs @ replicate gap 32 else replicate gap 32 @ cs)"

definition cut_string :: "int \<Rightarrow> int \<Rightarrow> u8 list \<Rightarrow> u8 list" where
  "cut_string w p cs = (let ds = (if 0 \<le> w then take (nat w) cs else cs) in if 0 < p then take (nat p) ds else ds)"

text \<open>A format as a list of directives.\<close>

datatype count = Absent | Given nat | Star

datatype directive = Literal u8 | Conversion u8 count count u8 u8

definition flag_bit :: "u8 \<Rightarrow> u8 option" where
  "flag_bit c =
     (if c = 45 then Some LEFT else if c = 43 then Some PLUS else if c = 32 then Some SPACE
      else if c = 35 then Some SPECIAL else if c = 48 then Some ZEROPAD else None)"

fun parse_flags :: "u8 \<Rightarrow> u8 list \<Rightarrow> u8 \<times> u8 list" where
  "parse_flags flags [] = (flags, [])"
| "parse_flags flags (c # cs) =
     (case flag_bit c of Some b \<Rightarrow> parse_flags (flags OR b) cs | None \<Rightarrow> (flags, c # cs))"

definition decimal :: "u8 list \<Rightarrow> nat" where
  "decimal ds = foldl (\<lambda>i c. i * 10 + (unat c - 48)) 0 ds"

fun parse_count :: "u8 list \<Rightarrow> count \<times> u8 list" where
  "parse_count [] = (Absent, [])"
| "parse_count (c # cs) =
     (if ISDIGIT c then (Given (decimal (takeWhile ISDIGIT (c # cs))), dropWhile ISDIGIT (c # cs))
      else if c = 42 then (Star, cs) else (Absent, c # cs))"

text \<open>A precision of which only the point is given counts as 0.\<close>

definition parse_precision :: "u8 list \<Rightarrow> count \<times> u8 list" where
  "parse_precision cs =
     (case cs of
        c # ds \<Rightarrow> if c = 46 then (case parse_count ds of (Absent, es) \<Rightarrow> (Given 0, es) | r \<Rightarrow> r) else (Absent, cs)
      | [] \<Rightarrow> (Absent, []))"

definition parse_qualifier :: "u8 list \<Rightarrow> u8 \<times> u8 list" where
  "parse_qualifier cs = (case cs of c # ds \<Rightarrow> if c = 104 \<or> c = 108 then (c, ds) else (0, cs) | [] \<Rightarrow> (0, []))"

lemma parse_shorter:
  "length (snd (parse_flags flags cs)) \<le> length cs" "length (snd (parse_count cs)) \<le> length cs"
  "length (snd (parse_precision cs)) \<le> length cs" "length (snd (parse_qualifier cs)) \<le> length cs"
proof -
  show c: "length (snd (parse_count cs)) \<le> length cs" for cs
    using length_dropWhile_le [of ISDIGIT cs] by (cases cs) auto
  show "length (snd (parse_flags flags cs)) \<le> length cs"
    by (induction flags cs rule: parse_flags.induct) (auto split: option.splits intro: le_SucI)
  show "length (snd (parse_precision cs)) \<le> length cs"
    using c [of "tl cs"] by (auto simp: parse_precision_def split: list.splits prod.splits count.splits)
  show "length (snd (parse_qualifier cs)) \<le> length cs"
    by (auto simp: parse_qualifier_def split: list.splits)
qed

definition parse_spec :: "u8 list \<Rightarrow> u8 \<times> count \<times> count \<times> u8 \<times> u8 list" where
  "parse_spec cs =
     (let (flags, cs) = parse_flags 0 cs;
          (w, cs) = parse_count cs;
          (p, cs) = parse_precision cs;
          (q, cs) = parse_qualifier cs
      in (flags, w, p, q, cs))"

lemma parse_spec_shorter: "parse_spec cs = (flags, w, p, q, ds) \<Longrightarrow> length ds \<le> length cs"
  unfolding parse_spec_def Let_def
  using parse_shorter(1) [of 0 cs] parse_shorter(2) [of "snd (parse_flags 0 cs)"]
    parse_shorter(3) [of "snd (parse_count (snd (parse_flags 0 cs)))"]
    parse_shorter(4) [of "snd (parse_precision (snd (parse_count (snd (parse_flags 0 cs)))))"]
  by (auto split: prod.splits)

function directives :: "u8 list \<Rightarrow> directive list" where
  "directives [] = []"
| "directives (c # cs) =
     (if c \<noteq> 37 then Literal c # directives cs
      else (case parse_spec cs of
              (flags, w, p, q, []) \<Rightarrow> [Conversion flags w p q 0]
            | (flags, w, p, q, k # ds) \<Rightarrow> Conversion flags w p q k # directives ds))"
  by pat_completeness auto

termination
  by (relation "measure length") (auto dest!: parse_spec_shorter [OF sym])

text \<open>A count that is given must fit an \<open>int\<close> while it is read; an argument for a count is signed.\<close>

definition the_count :: "count \<Rightarrow> u32 list \<Rightarrow> (int \<times> u32 list) option" where
  "the_count n args =
     (case n of
        Absent \<Rightarrow> Some (-1, args)
      | Given i \<Rightarrow> if i + 48 < 2 ^ 31 then Some (int i, args) else None
      | Star \<Rightarrow> do { (a, args) \<leftarrow> va_arg args; Some (sint a, args) })"

text \<open>\<open>S\<close> gives the strings that the pointers among the arguments stand for.\<close>

definition string_arg :: "(u32 \<Rightarrow> u8 list option) \<Rightarrow> u32 \<Rightarrow> u8 list option" where
  "string_arg S a = (if a = 0 then Some NULL_text else S a)"

definition conversion_text ::
  "(u32 \<Rightarrow> u8 list option) \<Rightarrow> u8 \<Rightarrow> int \<Rightarrow> int \<Rightarrow> u8 \<Rightarrow> u8 \<Rightarrow> u32 list \<Rightarrow> (u8 list \<times> u32 list) option" where
  "conversion_text S flags w p q k args =
     (if k = 99 then do { (a, args) \<leftarrow> va_arg args; Some (field_text w flags [ucast a], args) }
      else if k = 115
      then do { (a, args) \<leftarrow> va_arg args; cs \<leftarrow> string_arg S a; Some (field_text w flags (cut_string w p cs), args) }
      else if k = 112
      then do {
        (a, args) \<leftarrow> va_arg args;
        Some (if w = -1 then number_text 16 q 10 p (flags OR SPECIAL OR ZEROPAD) a
              else number_text 16 q w p flags a, args)
      }
      else if k = 37 then Some ([37], args)
      else if k = 100 \<or> k = 105
      then do { (a, args) \<leftarrow> va_arg args; Some (number_text 10 q w p (flags OR SIGN) (number_arg q (flags OR SIGN) a), args) }
      else if k = 98 \<or> k = 111 \<or> k = 88 \<or> k = 120 \<or> k = 117
      then do {
        (a, args) \<leftarrow> va_arg args;
        let base = (if k = 98 then 2 else if k = 111 then 8 else if k = 117 then 10 else 16);
        let flags = (if k = 88 then flags OR LARGE else flags);
        Some (number_text base q w p flags (number_arg q flags a), args)
      }
      else if k = 0 then Some ([37], args)
      else Some ([37, k], args))"

fun directive_text :: "(u32 \<Rightarrow> u8 list option) \<Rightarrow> directive \<Rightarrow> u32 list \<Rightarrow> (u8 list \<times> u32 list) option" where
  "directive_text S (Literal c) args = Some ([c], args)"
| "directive_text S (Conversion flags w p q k) args = do {
     (w', args) \<leftarrow> the_count w args;
     rt_assert (w' \<noteq> - (2 ^ 31));
     let (w', flags) = (if w = Star \<and> w' < 0 then (- w', flags OR LEFT) else (w', flags));
     (p', args) \<leftarrow> the_count p args;
     conversion_text S flags w' (if p \<noteq> Absent \<and> p' < 0 then 0 else p') q k args
   }"

fun directives_text :: "(u32 \<Rightarrow> u8 list option) \<Rightarrow> directive list \<Rightarrow> u32 list \<Rightarrow> u8 list option" where
  "directives_text S [] args = Some []"
| "directives_text S (d # ds) args = do {
     (t, args) \<leftarrow> directive_text S d args;
     ts \<leftarrow> directives_text S ds args;
     Some (t @ ts)
   }"

definition format_text :: "(u32 \<Rightarrow> u8 list option) \<Rightarrow> u8 list \<Rightarrow> u32 list \<Rightarrow> u8 list option" where
  "format_text S cs args = directives_text S (directives cs) args"


section \<open>The sink\<close>

text \<open>The sink after the text \<open>T\<close> went to the buffer from \<open>buf\<close> to \<open>en\<close>, of a memory that was \<open>m\<close>.\<close>

definition sunk :: "memory \<Rightarrow> nat \<Rightarrow> nat \<Rightarrow> u8 list \<Rightarrow> sink" where
  "sunk m buf en T = (buf + length T, written (\<lambda>i. Some (T ! i)) buf 0 (min (length T) (en - buf)) m)"

definition buffer :: "memory \<Rightarrow> nat \<Rightarrow> nat \<Rightarrow> bool" where
  "buffer m buf en \<longleftrightarrow> buf \<le> en \<and> mapped m buf (en - buf)"

lemma emit_sunk:
  assumes "buffer m buf en" "buf + length T + 1 < 2 ^ 32"
  shows "emit en c (sunk m buf en T) = Some (sunk m buf en (T @ [c]))"
proof -
  have w: "(buf + length T + 1) mod 2 ^ 32 = buf + length (T @ [c])" using assms(2) by simp
  show ?thesis
  proof (cases "buf + length T < en")
    case True
    then have "m (buf + length T) \<noteq> None" using assms by (auto simp: buffer_def mapped_def)
    then have "store (buf + length T) c (written (\<lambda>i. Some (T ! i)) buf 0 (length T) m) =
        Some (written (\<lambda>i. Some ((T @ [c]) ! i)) buf 0 (Suc (length T)) m)"
      by (auto simp: store_def written_def fun_eq_iff nth_append)
    moreover have "min (length T) (en - buf) = length T" "min (length (T @ [c])) (en - buf) = Suc (length T)" using True by simp_all
    ultimately show ?thesis unfolding emit_def sunk_def prod.case w using True by simp
  next
    case False
    then have "written (\<lambda>i. Some (T ! i)) buf 0 (en - buf) m = written (\<lambda>i. Some ((T @ [c]) ! i)) buf 0 (en - buf) m"
      by (auto simp: written_def fun_eq_iff nth_append)
    moreover have "min (length T) (en - buf) = en - buf" "min (length (T @ [c])) (en - buf) = en - buf"
      using False assms by (simp_all add: buffer_def)
    ultimately show ?thesis unfolding emit_def sunk_def prod.case w using False by simp
  qed
qed

lemma sunk_nil: "(buf, m) = sunk m buf en []"
  by (simp add: sunk_def)

lemma load_sunk: "a < buf \<or> en \<le> a \<Longrightarrow> load a (snd (sunk m buf en T)) = load a m"
  by (auto simp: sunk_def load_def written_def)

lemma emit_list_sunk:
  "buffer m buf en \<Longrightarrow> buf + length (T @ cs) < 2 ^ 32 \<Longrightarrow> emit_list en cs (sunk m buf en T) = Some (sunk m buf en (T @ cs))"
  by (induction cs arbitrary: T) (simp_all add: emit_sunk)

lemma emit_list_short [simp]: "emit_list en [] = Some" "emit_list en [c] = emit en c"
  "emit_list en (c # cs) = (\<lambda>k. Option.bind (emit en c k) (emit_list en cs))"
  by (intro ext; simp)+

text \<open>The loops send a text, wherever the position is.\<close>

lemma emit_list_append: "emit_list en (a @ b) = (\<lambda>k. Option.bind (emit_list en a k) (emit_list en b))"
  by (induction a) (simp_all add: Option.bind_assoc)

lemma pad_loop_text:
  assumes "- (2 ^ 31) < n"
  shows "pad_loop en c n k = do { k \<leftarrow> emit_list en (replicate (nat n) c) k; Some (min n 0 - 1, k) }"
  using assms
proof (induction "nat n" arbitrary: n k)
  case (Suc x)
  then have "pad_loop en c (n - 1) = (\<lambda>l. do { k \<leftarrow> emit_list en (replicate (nat (n - 1)) c) l; Some (min (n - 1) 0 - 1, k) })"
    by (intro ext) simp
  moreover have "0 < n" "nat n = Suc (nat (n - 1))" using Suc.hyps(2) by simp_all
  ultimately show ?case using Suc.hyps(2) by (subst pad_loop.simps) (simp add: Option.bind_assoc)
qed (subst pad_loop.simps, simp add: int_val_def)

lemma zeros_loop_text: "zeros_loop en i p k = emit_list en (replicate (nat (p - i)) 48) k"
proof (induction "nat (p - i)" arbitrary: p k)
  case (Suc x)
  then have "zeros_loop en i (p - 1) = emit_list en (replicate (nat (p - 1 - i)) 48)" by (intro ext) simp
  moreover have "i < p" "nat (p - i) = Suc (nat (p - 1 - i))" using Suc.hyps(2) by simp_all
  ultimately show ?case by (subst zeros_loop.simps) simp
qed (subst zeros_loop.simps, simp)

lemma digits_out_text:
  "i \<le> length tmp \<Longrightarrow> digits_out en tmp p i k = emit_list en (if p = 0 then [] else rev (take i tmp)) k"
  by (induction i arbitrary: k) (auto simp: take_Suc_conv_app_nth)

lemma char_pad_text:
  "char_pad en w k = do { k \<leftarrow> emit_list en (replicate (nat (w - 1)) 32) k; Some (min w 1 - 1, k) }"
proof (induction "nat (w - 1)" arbitrary: w k)
  case (Suc x)
  then have "char_pad en (w - 1) = (\<lambda>l. do { k \<leftarrow> emit_list en (replicate (nat (w - 1 - 1)) 32) l; Some (min (w - 1) 1 - 1, k) })"
    by (intro ext) simp
  moreover have "1 < w" "nat (w - 1) = Suc (nat (w - 1 - 1))" using Suc.hyps(2) by simp_all
  ultimately show ?case by (subst char_pad.simps) (simp add: Let_def Option.bind_assoc)
qed (subst char_pad.simps, simp add: Let_def)

lemma str_pad_text:
  "str_pad en n w k = do { k \<leftarrow> emit_list en (replicate (nat (w - n)) 32) k; Some (min w n - 1, k) }"
proof (induction "nat (w - n)" arbitrary: w k)
  case (Suc x)
  then have "str_pad en n (w - 1) = (\<lambda>l. do { k \<leftarrow> emit_list en (replicate (nat (w - 1 - n)) 32) l; Some (min (w - 1) n - 1, k) })"
    by (intro ext) simp
  moreover have "n < w" "nat (w - n) = Suc (nat (w - 1 - n))" using Suc.hyps(2) by simp_all
  ultimately show ?case by (subst str_pad.simps) (simp add: Option.bind_assoc)
qed (subst str_pad.simps, simp)

section \<open>Numbers\<close>

lemma digits_of_nonempty: "digits_of digits base n \<noteq> []"
  by (subst digits_of.simps) simp

lemma length_digits_of: "2 \<le> base \<Longrightarrow> n < base ^ k \<Longrightarrow> 0 < k \<Longrightarrow> length (digits_of digits base n) \<le> k"
proof (induction digits base n arbitrary: k rule: digits_of.induct)
  case (1 digits base n)
  show ?case
  proof (cases "n < base \<or> base < 2")
    case True
    with 1 show ?thesis by (subst digits_of.simps) simp
  next
    case False
    then have "k \<noteq> 1" using 1 by auto
    then obtain j where j: "k = Suc j" "0 < j" using 1 by (cases k) auto
    have "n div base < base ^ j" using 1(3) j by (simp add: less_mult_imp_div_less mult.commute)
    then show ?thesis using 1(1) [OF False, of j] 1(2) False j by (subst digits_of.simps) simp
  qed
qed

lemma tmp_loop_digits:
  assumes b: "2 \<le> unat base"
  shows "num \<noteq> 0 \<Longrightarrow> length tmp + length (digits_of digits (unat base) (unat num)) \<le> 32 \<Longrightarrow>
    tmp_loop digits base num tmp = Some (tmp @ rev (digits_of digits (unat base) (unat num)))"
proof (induction "unat num" arbitrary: num tmp rule: less_induct)
  case less
  let ?d = "digits ! unat (num mod base)"
  have d: "unat (num div base) = unat num div unat base" "unat (num mod base) = unat num mod unat base"
    by (simp_all add: unat_div unat_mod)
  have l: "length tmp < 32" using less.prems(2) digits_of_nonempty [of digits "unat base" "unat num"] by (cases "digits_of digits (unat base) (unat num)") auto
  show ?case
  proof (cases "unat num < unat base")
    case True
    then have "unat (num div base) = 0" by (simp add: d)
    then have "num div base = 0" by (metis unat_eq_zero)
    moreover have "digits_of digits (unat base) (unat num) = [?d]" using True by (subst digits_of.simps) (simp add: d)
    ultimately show ?thesis using less.prems(1) l by (subst tmp_loop.simps, subst tmp_loop.simps) simp
  next
    case False
    have g: "digits_of digits (unat base) (unat num) = digits_of digits (unat base) (unat (num div base)) @ [?d]"
      using False b by (subst digits_of.simps) (simp add: d)
    have "0 < unat (num div base)" using False b by (simp add: d div_greater_zero_iff)
    then have "num div base \<noteq> 0" by (metis unat_0 less_numeral_extra(3))
    moreover have "unat (num div base) < unat num" using less.prems(1) b by (simp add: d unat_gt_0)
    ultimately have "tmp_loop digits base (num div base) (tmp @ [?d]) =
        Some ((tmp @ [?d]) @ rev (digits_of digits (unat base) (unat (num div base))))"
      using less.prems(2) g by (intro less.hyps) auto
    then show ?thesis using less.prems(1) l g by (subst tmp_loop.simps) simp
  qed
qed


lemma flag_or [simp]: "flag (a OR b) f \<longleftrightarrow> flag a f \<or> flag b f"
  by (auto simp: flag_def bit_eq_iff bit_simps)

lemma flag_or_right: "flag t (a OR b) \<longleftrightarrow> flag t a \<or> flag t b"
  by (auto simp: flag_def bit_eq_iff bit_simps)

lemma flag_not_zeropad [simp]:
  "\<not> flag (t AND NOT ZEROPAD) ZEROPAD" "f \<in> {SIGN, PLUS, SPACE, LEFT, SPECIAL, LARGE} \<Longrightarrow> flag (t AND NOT ZEROPAD) f = flag t f"
proof -
  show "\<not> flag (t AND NOT ZEROPAD) ZEROPAD" by (auto simp: flag_def bit_eq_iff bit_simps)
  show "flag (t AND NOT ZEROPAD) f = flag t f" if "f \<in> {SIGN, PLUS, SPACE, LEFT, SPECIAL, LARGE}"
  proof -
    have "NOT ZEROPAD AND f = f" using that
      by (auto simp: SIGN_def PLUS_def SPACE_def LEFT_def SPECIAL_def LARGE_def ZEROPAD_def)
    then show ?thesis by (simp add: flag_def and.assoc)
  qed
qed

lemma unat_lt_2p_u32: "unat (x :: u32) < 2 ^ 32"
  using unsigned_less [of x] by simp

lemma magnitude_small: "magnitude q flags num < 2 ^ 32"
proof -
  have "- (2 ^ 31) \<le> sint num" using sint_ge [of num] by simp
  moreover have "- (2 ^ 15) \<le> sint (ucast num :: u16)" using sint_ge [of "ucast num :: u16"] by simp
  moreover have "unat num < 2 ^ 32" using unat_lt_2p_u32 [of num] by simp
  ultimately show ?thesis by (auto simp: magnitude_def signed_value_def)
qed

lemma neg_word:
  assumes "sint (x :: u32) < 0"
  shows "- x = word_of_nat (nat (- sint x))"
proof -
  have i: "int (nat (- sint x)) = - sint x" using assms by simp
  have "(word_of_nat (nat (- sint x)) :: u32) = word_of_int (int (nat (- sint x)))" by (rule of_int_of_nat_eq [symmetric])
  also have "\<dots> = - word_of_int (sint x)" unfolding i by (rule of_int_minus)
  finally show ?thesis by simp
qed

lemma sint_half: "sint (scast (h :: u16) :: u32) = sint h"
  by (rule sint_up_scast) (simp add: is_up_def source_size_def target_size_def word_size)

lemma half_sign: "(num :: u32) = scast (ucast num :: u16) \<Longrightarrow> sint (ucast num :: u16) = sint num"
  by (metis sint_half)

lemma neg_half:
  assumes "(num :: u32) = scast (ucast num :: u16)" "sint (ucast num :: u16) < 0"
  shows "(ucast (ucast (- num) :: u16) :: u32) = word_of_nat (nat (- sint (ucast num :: u16)))"
proof -
  define n where "n = nat (- sint num)"
  have v: "sint (ucast num :: u16) = sint num" by (rule half_sign [OF assms(1)])
  have "- (2 ^ 15) \<le> sint (ucast num :: u16)" using sint_ge [of "ucast num :: u16"] by simp
  then have n: "n \<le> 2 ^ 15" unfolding n_def v by simp
  have "- num = word_of_nat n" unfolding n_def using neg_word assms(2) v by simp
  moreover have "unat (ucast (word_of_nat n :: u32) :: u16) = n" using n by (simp add: unsigned_ucast_eq unat_of_nat take_bit_nat_eq_self)
  ultimately have "unat (ucast (- num) :: u16) = n" by simp
  then have "unat (ucast (ucast (- num) :: u16) :: u32) = n" using n by (simp add: unsigned_ucast_eq unsigned_take_bit_eq take_bit_nat_eq_self)
  then have "word_of_nat (unat (ucast (ucast (- num) :: u16) :: u32)) = (word_of_nat n :: u32)" by (simp only:)
  then show ?thesis unfolding v n_def [symmetric] by (simp only: of_nat_unat ucast_id)
qed

lemma number_sign_text:
  assumes "flag flags SIGN \<and> q = 104 \<Longrightarrow> num = scast (ucast num :: u16)"
  shows "number_sign q flags num = (case sign_text q flags num of [] \<Rightarrow> 0 | c # _ \<Rightarrow> c, word_of_nat (magnitude q flags num))"
  using assms neg_word [of num] neg_half [of num]
  by (auto simp: number_sign_def sign_text_def magnitude_def signed_value_def Let_def)


lemma sign_text_cases: "sign_text q flags num = [] \<or> (\<exists>c. sign_text q flags num = [c] \<and> c \<noteq> 0)"
  by (simp add: sign_text_def)

lemma print_number_text:
  assumes w: "- 1 \<le> w" "w \<le> 2 ^ 31 - 1" and p: "p + 8 < 2 ^ 31" and base: "base \<in> {2, 8, 10, 16}"
    and h: "flag flags SIGN \<and> q = 104 \<Longrightarrow> num = scast (ucast num :: u16)"
  shows "print_number en num base q w p flags k = emit_list en (number_text (unat base) q w p flags num) k"
proof -
  define digits where "digits = (if flag flags LARGE then large_digits else small_digits)"
  define mag where "mag = magnitude q flags num"
  define ds where "ds = digits_of digits (unat base) mag"
  define n where "n = (word_of_nat mag :: u32)"
  define sign where "sign = sign_text q flags num"
  define sg where "sg = (case sign of [] \<Rightarrow> 0 | c # _ \<Rightarrow> c)"
  have un: "unat n = mag" unfolding n_def mag_def using magnitude_small [of q flags num] by (simp add: unat_of_nat)
  have base2: "2 \<le> unat base" using base by auto
  have "(2 :: nat) ^ 32 \<le> unat base ^ 32" using base2 by (rule power_mono) simp
  then have len: "length ds \<le> 32" "0 < length ds"
    using length_digits_of [OF base2, of mag 32 digits] unat_lt_2p_u32 [of n] digits_of_nonempty [of digits "unat base" mag]
    unfolding ds_def un by auto
  have tmp: "(if n = 0 then Some [48] else tmp_loop digits base n []) = Some (rev ds)"
  proof (cases "n = 0")
    case True
    then have "mag = 0" using un by simp
    then have "ds = [48]" unfolding ds_def digits_def using base2
      by (subst digits_of.simps) (simp add: large_digits_def small_digits_def)
    with True show ?thesis by simp
  next
    case False
    then show ?thesis using tmp_loop_digits [OF base2 False, of "[]" digits] len unfolding ds_def un by simp
  qed
  define t where "t = (if flag flags LEFT then flags AND NOT ZEROPAD else flags)"
  have t: "flag t LEFT = flag flags LEFT" "flag t SPECIAL = flag flags SPECIAL" "flag t LARGE = flag flags LARGE"
    "flag t ZEROPAD = (flag flags ZEROPAD \<and> \<not> flag flags LEFT)" "flag t SIGN = flag flags SIGN"
    "flag t PLUS = flag flags PLUS" "flag t SPACE = flag flags SPACE"
    unfolding t_def by auto
  have ns: "number_sign q t num = (sg, n)"
  proof -
    have "number_sign q t num = number_sign q flags num" by (simp add: number_sign_def t)
    then show ?thesis using number_sign_text [OF h] by (simp add: sg_def sign_def n_def mag_def)
  qed
  define pre where "pre = prefix_text (unat base) flags"
  have size: "(if flag t SPECIAL then if base = 2 \<or> base = 16 then w - 2 else if base = 8 then w - 1 else w else w) = w - int (length pre)"
    using base by (auto simp: pre_def prefix_text_def t)
  have prefix: "print_prefix en base t l = emit_list en pre l" for l
    using base by (auto simp: print_prefix_def pre_def prefix_text_def t)
  have pre: "length pre \<le> 2" by (simp add: pre_def prefix_text_def)
  define r where "r = rev ds"
  have r: "length r = length ds" "rev r = ds" unfolding r_def by simp_all
  have e: "print_number en num base q w p flags k = emit_list en
     (let P = max p (int (length ds)); sz = w - int (length pre) - P - int (length sign);
          Z = replicate (nat (P - int (length ds))) 48; D = (if p = 0 then [] else ds) in
      if flag flags LEFT then sign @ pre @ Z @ D @ replicate (nat sz) 32
      else if flag flags ZEROPAD then sign @ pre @ replicate (nat sz) 48 @ Z @ D
      else replicate (nat sz) 32 @ sign @ pre @ Z @ D) k"
  proof -
    have P: "(if p < int (length ds) then int (length ds) else p) = max p (int (length ds))" by simp
    have sg: "sign = [] \<and> sg = 0 \<or> sign = [sg] \<and> sg \<noteq> 0"
      using sign_text_cases [of q flags num] unfolding sg_def sign_def by auto
    define P' where "P' = max p (int (length ds))"
    define sz where "sz = w - int (length pre) - P'"
    have sz: "- (2 ^ 31) + 4 \<le> sz" "sz < 2 ^ 31" using w p pre len(1) by (simp_all add: sz_def P'_def)
    then have iv: "int_val sz = Some sz" by (simp add: int_val_def)
    show ?thesis
      unfolding print_number_def Let_def digits_def [symmetric] t_def [symmetric] ns prod.case tmp size r_def [symmetric]
        bind.bind_lunit r P P'_def [symmetric] sz_def [symmetric] iv(1)
      using sg sz
      by (cases "flag flags LEFT"; cases "flag flags ZEROPAD"; cases "0 < sz"; elim disjE conjE)
        (simp_all add: t flag_or_right prefix r zeros_loop_text digits_out_text pad_loop_text emit_list_append
          int_val_def min_def Option.bind_assoc)
  qed
  have z: "nat (max p (int (length ds)) - int (length ds)) = nat (p - int (length ds))" by simp
  have g: "w - int (length pre) - max p (int (length ds)) - int (length sign) =
      w - int (length sign) - int (length pre) - int (length (replicate (nat (p - int (length ds))) (48 :: u8))) - int (length ds)"
    by (cases "p < int (length ds)") simp_all
  show ?thesis
    unfolding e number_text_def Let_def g z digits_def [symmetric] mag_def [symmetric] ds_def [symmetric] sign_def [symmetric] pre_def [symmetric]
    by (simp only: append_assoc)
qed

section \<open>Strings and characters\<close>

lemma print_char_text: "print_char en a w flags k = emit_list en (field_text w flags [ucast a]) k"
  by (simp add: print_char_def field_text_def Let_def min_def char_pad_text emit_list_append Option.bind_assoc)

text \<open>A string that the code reads in the sink's memory.\<close>

definition str_in :: "memory \<Rightarrow> u32 \<Rightarrow> u8 list \<Rightarrow> bool" where
  "str_in m s cs \<longleftrightarrow> (if s = 0 then cs = NULL_text else str_at m (unat s) cs)"

lemma str_in_char:
  assumes "str_in m s cs" "i \<le> length cs"
  shows "str_char s i m = Some ((cs @ [0]) ! i)" "i < length cs \<Longrightarrow> cs ! i \<noteq> 0"
proof -
  show "str_char s i m = Some ((cs @ [0]) ! i)"
    using assms str_at_nth(1,2) [of m "unat s" cs] by (cases "i = length cs") (auto simp: str_in_def str_char_def load_def nth_append)
  have "0 \<notin> set cs" using assms str_at_nth(3) by (auto simp: str_in_def NULL_text_def split: if_splits)
  then show "cs ! i \<noteq> 0" if "i < length cs" using that by (metis nth_mem)
qed

lemma str_len_loop_spec:
  assumes s: "str_in m s cs"
  shows "j + n = length cs \<Longrightarrow> (0 \<le> w \<longrightarrow> int n \<le> w) \<Longrightarrow>
    str_len_loop s w n m = Some (if 0 \<le> w \<and> w < int (length cs) then nat w else length cs)"
proof (induction j arbitrary: n)
  case 0
  then show ?case using str_in_char(1) [OF s, of n] by (subst str_len_loop.simps) auto
next
  case (Suc j)
  then show ?case using str_in_char [OF s, of n] Suc.IH [of "Suc n"] by (subst str_len_loop.simps) (auto simp: nth_append)
qed

lemma str_copy_sunk:
  assumes b: "buffer m buf en" and s: "\<And>T. str_in (snd (sunk m buf en T)) s cs"
  shows "i + j \<le> length cs \<Longrightarrow> buf + length T + j < 2 ^ 32 \<Longrightarrow> str_copy en s i j (sunk m buf en T) = Some (sunk m buf en (T @ take j (drop i cs)))"
proof (induction j arbitrary: i T)
  case (Suc j)
  let ?k = "sunk m buf en T"
  have e: "emit en (cs ! i) ?k = Some (sunk m buf en (T @ [cs ! i]))" using Suc.prems by (intro emit_sunk [OF b]) simp
  have "(if fst ?k < en then do { c \<leftarrow> str_char s i (snd ?k); emit en c ?k } else Some ((fst ?k + 1) mod 2 ^ 32, snd ?k)) =
      Some (sunk m buf en (T @ [cs ! i]))"
  proof (cases "fst ?k < en")
    case True
    then show ?thesis using str_in_char(1) [OF s, of i T] Suc.prems e by (simp add: nth_append)
  next
    case False
    then have "emit en (cs ! i) ?k = Some ((fst ?k + 1) mod 2 ^ 32, snd ?k)" by (cases ?k) (simp add: emit_def)
    with e False show ?thesis by simp
  qed
  moreover have "take (Suc j) (drop i cs) = cs ! i # take j (drop (Suc i) cs)"
    using Suc.prems by (simp add: Cons_nth_drop_Suc [symmetric])
  ultimately show ?case using Suc.IH [of "Suc i" "T @ [cs ! i]"] Suc.prems by simp
qed simp

lemma print_str_sunk:
  assumes b: "buffer m buf en" and s: "\<And>T. str_in (snd (sunk m buf en T)) s cs"
    and r: "buf + length (T @ field_text w flags (cut_string w p cs)) < 2 ^ 32"
  shows "print_str en s w p flags (sunk m buf en T) = Some (sunk m buf en (T @ field_text w flags (cut_string w p cs)))"
proof -
  define n where "n = (if 0 \<le> w \<and> w < int (length cs) then nat w else length cs)"
  define l where "l = (if 0 < p \<and> p < int n then nat p else n)"
  have l: "str_len_loop s w 0 (snd (sunk m buf en T)) = Some n"
    using str_len_loop_spec [OF s, of "length cs" 0 w T] by (simp add: n_def)
  have "l \<le> length cs" by (auto simp: l_def n_def)
  moreover have "take l cs = cut_string w p cs"
  proof -
    have "l = (if 0 < p then min (nat p) n else n)" by (auto simp: l_def)
    moreover have "take n cs = (if 0 \<le> w then take (nat w) cs else cs)" by (auto simp: n_def)
    ultimately show ?thesis by (auto simp: cut_string_def Let_def simp flip: take_take)
  qed
  ultimately have c: "length (cut_string w p cs) = l" and
    d: "buf + length X + l < 2 ^ 32 \<Longrightarrow> str_copy en s 0 l (sunk m buf en X) = Some (sunk m buf en (X @ cut_string w p cs))" for X
    using str_copy_sunk [OF b s, of 0 l X] by (auto simp flip: \<open>take l cs = cut_string w p cs\<close>)
  have r': "buf + (length T + (l + nat (w - int l))) < 2 ^ 32" using r c by (simp add: field_text_def Let_def split: if_splits)
  show ?thesis
    unfolding print_str_def l bind.bind_lunit Let_def l_def [symmetric] field_text_def c
    using r' by (simp add: b c d min_def str_pad_text emit_list_sunk)
qed


section \<open>Parsing\<close>

lemma str_at_hd:
  assumes "str_at m a cs"
  shows "load a m = Some (case cs of [] \<Rightarrow> 0 | c # _ \<Rightarrow> c)"
  using assms by (cases cs) (auto simp: load_def)

lemma skip_flags_spec:
  "str_at m (Suc a) cs \<Longrightarrow> \<exists>b. skip_flags a flags m = Some (b, fst (parse_flags flags cs)) \<and>
     str_at m b (snd (parse_flags flags cs)) \<and> b + length (snd (parse_flags flags cs)) = a + 1 + length cs"
proof (induction flags cs arbitrary: a rule: parse_flags.induct)
  case (1 flags)
  then show ?case by (subst skip_flags.simps) (simp add: load_def)
next
  case (2 flags c cs)
  show ?case
  proof (cases "flag_bit c")
    case None
    with 2 show ?thesis by (subst skip_flags.simps) (auto simp: flag_bit_def load_def split: if_splits)
  next
    case (Some b)
    with 2 have "skip_flags a flags m = skip_flags (Suc a) (flags OR b) m"
      by (subst skip_flags.simps) (auto simp: flag_bit_def load_def split: if_splits)
    with 2(1) [OF Some, of "Suc a"] 2(2) Some show ?thesis by auto
  qed
qed

lemma ISDIGIT_unat: "ISDIGIT c \<Longrightarrow> 48 \<le> unat c"
  by (simp add: ISDIGIT_def word_le_nat_alt)

lemma decimal_grows: "i \<le> foldl (\<lambda>i c. i * 10 + (unat (c :: u8) - 48)) i ds"
proof (induction ds arbitrary: i)
  case (Cons c ds)
  from Cons [of "i * 10 + (unat c - 48)"] show ?case by simp
qed simp

lemma skip_atoi_loop_spec:
  "str_at m a cs \<Longrightarrow> foldl (\<lambda>i c. i * 10 + (unat c - 48)) i (takeWhile ISDIGIT cs) + 48 < 2 ^ 31 \<Longrightarrow>
   \<exists>b. skip_atoi_loop a i m = Some (foldl (\<lambda>i c. i * 10 + (unat c - 48)) i (takeWhile ISDIGIT cs), b) \<and>
     str_at m b (dropWhile ISDIGIT cs) \<and> b + length (dropWhile ISDIGIT cs) = a + length cs"
proof (induction cs arbitrary: a i)
  case Nil
  then show ?case by (subst skip_atoi_loop.simps) (simp add: load_def ISDIGIT_def)
next
  case (Cons c cs)
  show ?case
  proof (cases "ISDIGIT c")
    case False
    with Cons.prems show ?thesis by (subst skip_atoi_loop.simps) (auto simp: load_def)
  next
    case True
    let ?i = "i * 10 + (unat c - 48)"
    have "?i + 48 < 2 ^ 31" using decimal_grows [of ?i "takeWhile ISDIGIT cs"] Cons.prems(2) True by simp
    then have "i * 10 + unat c < 2 ^ 31" "i * 10 + unat c - 48 = ?i" using ISDIGIT_unat [OF True] by simp_all
    then have "skip_atoi_loop a i m = skip_atoi_loop (Suc a) ?i m"
      using Cons.prems(1) True by (subst skip_atoi_loop.simps) (simp add: load_def)
    with Cons.IH [of "Suc a" ?i] Cons.prems True show ?thesis by simp
  qed
qed

text \<open>A count read at \<open>a\<close>: its value, the arguments left, and the rest of the format.\<close>

lemma skip_atoi_spec:
  assumes "str_at m a (c # cs)" "ISDIGIT c" "parse_count (c # cs) = (Given n, ds)" "n + 48 < 2 ^ 31"
  shows "\<exists>b. skip_atoi a m = Some (n, b) \<and> str_at m b ds \<and> b + length ds = a + length (c # cs)"
  using skip_atoi_loop_spec [of m a "c # cs" 0] assms by (auto simp: skip_atoi_def decimal_def)

lemma get_width_spec:
  assumes "str_at m a cs" "parse_count cs = (w, ds)" "the_count w args = Some (n, args')" "n \<noteq> - (2 ^ 31)"
  shows "\<exists>b. get_width a flags args m =
      Some (if w = Star \<and> n < 0 then - n else n, if w = Star \<and> n < 0 then flags OR LEFT else flags, b, args') \<and>
    str_at m b ds \<and> b + length ds = a + length cs"
proof (cases cs)
  case Nil
  with assms show ?thesis by (auto simp: get_width_def load_def the_count_def ISDIGIT_def)
next
  case (Cons c es)
  show ?thesis
  proof (cases "ISDIGIT c")
    case True
    then obtain i where i: "w = Given i" "n = int i" "args' = args" "i + 48 < 2 ^ 31"
      using assms(2,3) Cons by (auto simp: the_count_def split: if_splits)
    have p: "parse_count (c # es) = (Given i, ds)" using assms(2) Cons i(1) by simp
    from skip_atoi_spec [OF _ True p i(4), of m a] assms(1) Cons obtain b where
      "skip_atoi a m = Some (i, b)" "str_at m b ds" "b + length ds = a + length cs" by auto
    with True i assms(1) Cons show ?thesis by (auto simp: get_width_def load_def)
  next
    case False
    have d: "\<not> ISDIGIT 42" by (simp add: ISDIGIT_def)
    from False assms Cons d show ?thesis
      by (auto simp: get_width_def load_def the_count_def va_arg_def split: if_splits list.splits)
  qed
qed

lemma get_precision_spec:
  assumes "str_at m a cs" "parse_precision cs = (p, ds)" "the_count p args = Some (n, args')"
  shows "\<exists>b. get_precision a args m = Some (if p \<noteq> Absent \<and> n < 0 then 0 else n, b, args') \<and>
    str_at m b ds \<and> b + length ds = a + length cs"
proof (cases "\<exists>es. cs = 46 # es")
  case False
  with assms show ?thesis
    by (cases cs) (auto simp: get_precision_def parse_precision_def load_def the_count_def)
next
  case True
  then obtain es where es: "cs = 46 # es" by blast
  with assms(1) have a: "load a m = Some 46" "str_at m (Suc a) es" by (auto simp: load_def)
  have h: "load (Suc a) m = Some (case es of [] \<Rightarrow> 0 | c # _ \<Rightarrow> c)" by (rule str_at_hd [OF a(2)])
  show ?thesis
  proof (cases "\<exists>c fs. es = c # fs \<and> ISDIGIT c")
    case True
    then obtain c fs where c: "es = c # fs" "ISDIGIT c" by blast
    then obtain i where i: "p = Given i" "n = int i" "args' = args" "i + 48 < 2 ^ 31" "parse_count (c # fs) = (Given i, ds)"
      using assms(2,3) es by (auto simp: the_count_def parse_precision_def split: if_splits)
    from skip_atoi_spec [OF _ c(2) i(5,4), of m "Suc a"] a(2) c(1) obtain b where
      "skip_atoi (Suc a) m = Some (i, b)" "str_at m b ds" "b + length ds = Suc a + length es" by auto
    with c i a h es show ?thesis by (auto simp: get_precision_def)
  next
    case False
    have d: "\<not> ISDIGIT 42" "\<not> ISDIGIT 0" by (simp_all add: ISDIGIT_def)
    from False assms(2,3) es a h d show ?thesis
      by (cases es) (auto simp: get_precision_def the_count_def parse_precision_def va_arg_def split: if_splits list.splits)
  qed
qed

lemma get_qualifier_spec:
  assumes "str_at m a cs" "parse_qualifier cs = (q, ds)"
  shows "\<exists>b. get_qualifier a m = Some (q, b) \<and> str_at m b ds \<and> b + length ds = a + length cs"
  using assms by (cases cs) (auto simp: get_qualifier_def parse_qualifier_def load_def split: if_splits)


section \<open>The format loop\<close>

text \<open>What the loop reads lies outside of the buffer: a format, and the strings among the arguments.\<close>

definition reads :: "memory \<Rightarrow> nat \<Rightarrow> nat \<Rightarrow> nat \<Rightarrow> u8 list \<Rightarrow> bool" where
  "reads m buf en a cs \<longleftrightarrow> str_at m a cs \<and> (a + length cs < buf \<or> en \<le> a)"

lemma reads_sunk: "reads m buf en a cs \<Longrightarrow> str_at (snd (sunk m buf en T)) a cs"
proof -
  assume r: "reads m buf en a cs"
  then have "str_at m a cs" by (simp add: reads_def)
  then show ?thesis
    using r str_at_nth(1-3) [of m a cs] by (intro str_atI) (auto simp: reads_def sunk_def written_def)
qed

lemma reads_suffix:
  assumes "reads m buf en a cs" "str_at (snd (sunk m buf en T)) b ds" "b + length ds = a + length cs" "length ds \<le> length cs"
  shows "reads m buf en b ds"
proof -
  have "ds = drop (b - a) cs"
  proof (rule str_at_unique [OF assms(2)])
    show "str_at (snd (sunk m buf en T)) b (drop (b - a) cs)"
      using str_at_nth(4) [OF reads_sunk [OF assms(1)], of "b - a"] assms(3,4) by simp
  qed
  moreover have "str_at m b (drop (b - a) cs)"
    using str_at_nth(4) [of m a cs "b - a"] assms(1,3,4) by (simp add: reads_def)
  ultimately show ?thesis using assms by (auto simp: reads_def)
qed

definition strings_ok :: "(u32 \<Rightarrow> u8 list option) \<Rightarrow> memory \<Rightarrow> nat \<Rightarrow> nat \<Rightarrow> bool" where
  "strings_ok S m buf en \<longleftrightarrow> (\<forall>a cs. S a = Some cs \<longrightarrow> reads m buf en (unat a) cs)"

lemma string_arg_in:
  assumes "strings_ok S m buf en" "string_arg S a = Some cs"
  shows "str_in (snd (sunk m buf en T)) a cs"
  using assms reads_sunk by (auto simp: strings_ok_def string_arg_def str_in_def split: if_splits)

lemma number_arg_half:
  assumes "flag flags SIGN \<and> q = 104"
  shows "number_arg q flags a = scast (ucast (number_arg q flags a) :: u16)"
proof -
  have "(ucast (scast (h :: u16) :: u32) :: u16) = h" for h
    by (rule bit_word_eqI) (simp add: bit_simps)
  with assms show ?thesis by (simp add: number_arg_def)
qed

lemma format_flag_bits [simp]:
  "\<not> flag 0 f" "\<not> flag SPECIAL SIGN" "\<not> flag ZEROPAD SIGN" "\<not> flag LEFT SIGN" "\<not> flag PLUS SIGN" "\<not> flag SPACE SIGN" "\<not> flag LARGE SIGN"
  by (simp_all add: flag_def SPECIAL_def SIGN_def ZEROPAD_def LEFT_def PLUS_def SPACE_def LARGE_def)

lemma number_text_longer: "p \<le> int (length (number_text base q w p flags num))"
  by (auto simp: number_text_def Let_def)

lemma print_pointer_text:
  assumes "- 1 \<le> w" "w \<le> 2 ^ 31 - 1" "p + 8 < 2 ^ 31" "\<not> flag flags SIGN"
  shows "print_pointer en a q w p flags k = emit_list en
    (if w = -1 then number_text 16 q 10 p (flags OR SPECIAL OR ZEROPAD) a else number_text 16 q w p flags a) k"
  using print_number_text [of 10 p 16 "flags OR SPECIAL OR ZEROPAD" q a en k]
    print_number_text [of w p 16 flags q a en k] assms
  by (simp add: print_pointer_def or.assoc)

lemma parse_flags_no_sign: "\<not> flag flags SIGN \<Longrightarrow> \<not> flag (fst (parse_flags flags cs)) SIGN"
  by (induction flags cs rule: parse_flags.induct) (auto simp: flag_bit_def split: option.splits if_splits)

lemma convert_sunk:
  assumes b: "buffer m buf en" and S: "strings_ok S m buf en" and fl: "\<not> flag flags SIGN"
    and r: "load fmt (snd (sunk m buf en T)) = Some c"
    and t: "conversion_text S flags w p q c args = Some (t, args')"
    and w: "- 1 \<le> w" "w \<le> 2 ^ 31 - 1" and room: "buf + length (T @ t) < 2 ^ 32" "length t + 8 < 2 ^ 31"
  shows "convert en fmt flags w p q args (sunk m buf en T) =
    Some (if c = 0 then fmt - 1 else fmt, args', sunk m buf en (T @ t))"
proof -
  have p: "p + 8 < 2 ^ 31" if "p \<le> int (length t)" using that room(2) by simp
  have num: "print_number en (number_arg q f a) base q w p f (sunk m buf en T) = Some (sunk m buf en (T @ t))"
    if "t = number_text (unat base) q w p f (number_arg q f a)" "base \<in> {2, 8, 10, 16}" for f a base
    using print_number_text [where flags = f and q = q and num = "number_arg q f a" and k = "sunk m buf en T" and en = en, OF w p that(2) number_arg_half]
      number_text_longer [of p "unat base" q w f "number_arg q f a"] emit_list_sunk [OF b room(1)] that(1) by simp
  consider "c = 99" | "c = 115" | "c = 112" | "c = 37" | "c = 100 \<or> c = 105" | "c = 98 \<or> c = 111 \<or> c = 88 \<or> c = 120 \<or> c = 117" | "c = 0"
    | "c \<notin> {99, 115, 112, 37, 100, 105, 98, 111, 88, 120, 117, 0}" by auto
  then show ?thesis
  proof cases
    case 1
    with t obtain a where "va_arg args = Some (a, args')" "t = field_text w flags [ucast a]"
      by (auto simp: conversion_text_def bind_eq_Some_conv)
    with 1 r emit_list_sunk [OF b room(1)] show ?thesis by (simp add: convert_def print_char_text)
  next
    case 2
    with t obtain a cs where a: "va_arg args = Some (a, args')" "string_arg S a = Some cs" "t = field_text w flags (cut_string w p cs)"
      by (auto simp: conversion_text_def bind_eq_Some_conv)
    from print_str_sunk [OF b string_arg_in [OF S a(2)], of T w flags p] room(1) 2 r a show ?thesis by (simp add: convert_def)
  next
    case 3
    with t obtain a where a: "va_arg args = Some (a, args')"
      "t = (if w = -1 then number_text 16 q 10 p (flags OR SPECIAL OR ZEROPAD) a else number_text 16 q w p flags a)"
      by (auto simp: conversion_text_def bind_eq_Some_conv)
    then have "p \<le> int (length t)" using number_text_longer by simp
    from print_pointer_text [OF w p [OF this] fl, of en a q "sunk m buf en T"] emit_list_sunk [OF b room(1)] 3 r a
    show ?thesis by (simp add: convert_def)
  next
    case 4
    with t r emit_list_sunk [OF b room(1)] show ?thesis by (auto simp: conversion_text_def convert_def)
  next
    case 5
    with t obtain a where "va_arg args = Some (a, args')" "t = number_text 10 q w p (flags OR SIGN) (number_arg q (flags OR SIGN) a)"
      by (auto simp: conversion_text_def bind_eq_Some_conv)
    with 5 r num [of 10] show ?thesis by (auto simp: convert_def Let_def)
  next
    case 6
    define base where "base = (if c = 98 then 2 else if c = 111 then 8 else if c = 88 \<or> c = 120 then 16 else 10 :: u32)"
    define f where "f = (if c = 88 then flags OR LARGE else flags)"
    from t 6 obtain a where a: "va_arg args = Some (a, args')" "t = number_text (unat base) q w p f (number_arg q f a)"
      by (auto simp: conversion_text_def bind_eq_Some_conv Let_def base_def f_def)
    have "convert en fmt flags w p q args (sunk m buf en T) =
        do { k \<leftarrow> print_number en (number_arg q f a) base q w p f (sunk m buf en T); Some (fmt, args', k) }"
      using 6 r a(1) by (auto simp: convert_def base_def f_def Let_def)
    moreover have "base \<in> {2, 8, 10, 16}" by (auto simp: base_def)
    ultimately show ?thesis using num a(2) 6 by auto
  next
    case 7
    with t r emit_list_sunk [OF b room(1)] show ?thesis by (auto simp: conversion_text_def convert_def)
  next
    case 8
    with t have t': "t = [37, c]" "args' = args" by (auto simp: conversion_text_def)
    have "emit en 37 (sunk m buf en T) \<bind> emit en c = Some (sunk m buf en (T @ t))"
      using emit_list_sunk [OF b room(1)] t' by simp
    with 8 r t' show ?thesis by (simp add: convert_def flip: Option.bind_assoc)
  qed
qed

lemma conversion_textE:
  assumes "directive_text S (Conversion flags w p q k) args = Some (t, a3)"
  obtains n a1 pn a2 where "the_count w args = Some (n, a1)" "n \<noteq> - (2 ^ 31)" "- (2 ^ 31) \<le> n \<and> n < 2 ^ 31 \<and> (w \<noteq> Star \<longrightarrow> - 1 \<le> n)" "the_count p a1 = Some (pn, a2)"
    "conversion_text S (if w = Star \<and> n < 0 then flags OR LEFT else flags) (if w = Star \<and> n < 0 then - n else n)
       (if p \<noteq> Absent \<and> pn < 0 then 0 else pn) q k a2 = Some (t, a3)"
proof -
  from assms obtain n a1 where n: "the_count w args = Some (n, a1)" by (cases "the_count w args") auto
  have "- (2 ^ 31) \<le> n \<and> n < 2 ^ 31 \<and> (w \<noteq> Star \<longrightarrow> - 1 \<le> n)"
    using n sint_ge [where 'a = 32] sint_less [where 'a = 32] by (auto simp: the_count_def bind_eq_Some_conv split: count.splits if_splits)
  moreover from assms n have "n \<noteq> - (2 ^ 31)" by auto
  moreover from assms n obtain pn a2 where "the_count p a1 = Some (pn, a2)"
    by (cases "the_count p a1") (auto simp: Let_def split: prod.splits)
  ultimately show thesis using that [OF n] assms n by (cases "w = Star \<and> n < 0") auto
qed

lemma format_loop_spec:
  assumes b: "buffer m buf en" and S: "strings_ok S m buf en"
  shows "reads m buf en fmt cs \<Longrightarrow> directives_text S (directives cs) args = Some t \<Longrightarrow>
    buf + length (T @ t) < 2 ^ 32 \<Longrightarrow> length t + 8 < 2 ^ 31 \<Longrightarrow>
    format_loop en fmt args (sunk m buf en T) = Some (sunk m buf en (T @ t))"
proof (induction cs arbitrary: fmt args T t rule: directives.induct)
  case 1
  then have "load fmt (snd (sunk m buf en T)) = Some 0" using str_at_hd [OF reads_sunk [OF 1(1)]] by simp
  with 1 show ?case by (subst format_loop.simps) simp
next
  case (2 c cs)
  have r: "str_at (snd (sunk m buf en T)) fmt (c # cs)" by (rule reads_sunk [OF "2.prems"(1)])
  then have c: "load fmt (snd (sunk m buf en T)) = Some c" "c \<noteq> 0" by (auto simp: load_def)
  show ?case
  proof (cases "c = 37")
    case False
    then obtain t' where t': "directives_text S (directives cs) args = Some t'" "t = c # t'"
      using "2.prems"(2) by (auto simp: bind_eq_Some_conv)
    have "reads m buf en (Suc fmt) cs" using "2.prems"(1) by (auto simp: reads_def)
    moreover have e: "emit en c (sunk m buf en T) = Some (sunk m buf en (T @ [c]))"
      using "2.prems"(3) t'(2) by (intro emit_sunk [OF b]) simp
    ultimately show ?thesis using "2.IH"(1) [OF False _ t'(1), of "Suc fmt" "T @ [c]"] "2.prems"(3,4) False c t'(2)
      by (subst format_loop.simps) (simp add: e)
  next
    case True
    obtain flags es where p1: "parse_flags 0 cs = (flags, es)" by fastforce
    obtain w fs where p2: "parse_count es = (w, fs)" by fastforce
    obtain p gs where p3: "parse_precision fs = (p, gs)" by fastforce
    obtain q hs where p4: "parse_qualifier gs = (q, hs)" by fastforce
    have ps: "parse_spec cs = (flags, w, p, q, hs)" by (simp add: parse_spec_def p1 p2 p3 p4)
    define mem where "mem = snd (sunk m buf en T)"
    define k where "k = (case hs of [] \<Rightarrow> 0 | k # _ \<Rightarrow> k)"
    define rest where "rest = (case hs of [] \<Rightarrow> [] | _ # ds \<Rightarrow> directives ds)"
    have d: "directives (c # cs) = Conversion flags w p q k # rest"
      using True by (simp add: ps k_def rest_def split: list.splits)
    from "2.prems"(2) obtain t1 a3 t2 where dt: "directive_text S (Conversion flags w p q k) args = Some (t1, a3)"
      and t2: "directives_text S rest a3 = Some t2" "t = t1 @ t2"
      unfolding d by (auto simp: bind_eq_Some_conv simp del: directive_text.simps)
    from dt obtain n a1 pn a2 where n: "the_count w args = Some (n, a1)" "n \<noteq> - (2 ^ 31)"
      and nr: "- (2 ^ 31) \<le> n \<and> n < 2 ^ 31 \<and> (w \<noteq> Star \<longrightarrow> - 1 \<le> n)" and pn: "the_count p a1 = Some (pn, a2)"
      and ct: "conversion_text S (if w = Star \<and> n < 0 then flags OR LEFT else flags) (if w = Star \<and> n < 0 then - n else n)
         (if p \<noteq> Absent \<and> pn < 0 then 0 else pn) q k a2 = Some (t1, a3)"
      by (rule conversion_textE)
    from r have "str_at mem (Suc fmt) cs" unfolding mem_def by simp
    from skip_flags_spec [OF this, of 0] p1 obtain b1 where
      b1: "skip_flags fmt 0 mem = Some (b1, flags)" "str_at mem b1 es" "b1 + length es = fmt + 1 + length cs" by auto
    from get_width_spec [OF b1(2) p2 n] obtain b2 where
      b2: "get_width b1 flags args mem = Some (if w = Star \<and> n < 0 then - n else n, if w = Star \<and> n < 0 then flags OR LEFT else flags, b2, a1)"
        "str_at mem b2 fs" "b2 + length fs = b1 + length es" by blast
    from get_precision_spec [OF b2(2) p3 pn] obtain b3 where
      b3: "get_precision b2 a1 mem = Some (if p \<noteq> Absent \<and> pn < 0 then 0 else pn, b3, a2)" "str_at mem b3 gs" "b3 + length gs = b2 + length fs"
      by blast
    from get_qualifier_spec [OF b3(2) p4] obtain b4 where
      b4: "get_qualifier b3 mem = Some (q, b4)" "str_at mem b4 hs" "b4 + length hs = b3 + length gs" by blast
    have "\<not> flag flags SIGN" using parse_flags_no_sign [of 0 cs] p1 by simp
    then have fl: "\<not> flag (if w = Star \<and> n < 0 then flags OR LEFT else flags) SIGN" by simp
    have lk: "load b4 (snd (sunk m buf en T)) = Some k" using str_at_hd [OF b4(2)] unfolding mem_def k_def .
    have wr: "- 1 \<le> (if w = Star \<and> n < 0 then - n else n)" "(if w = Star \<and> n < 0 then - n else n) \<le> 2 ^ 31 - 1"
      using nr n(2) by (auto split: if_splits)
    have room: "buf + length (T @ t1) < 2 ^ 32" "length t1 + 8 < 2 ^ 31" using "2.prems"(3,4) t2(2) by simp_all
    have step: "format_loop en fmt args (sunk m buf en T) = format_loop en ((if k = 0 then b4 - 1 else b4) + 1) a3 (sunk m buf en (T @ t1))"
      using convert_sunk [OF b S fl lk ct wr room] b1(1) b2(1) b3(1) b4(1) c(1) True unfolding mem_def
      by (subst format_loop.simps) simp
    have len: "length hs \<le> length cs" using parse_spec_shorter [OF ps] .
    have rd: "reads m buf en b4 hs"
      using reads_suffix [OF "2.prems"(1), of T b4 hs] b4(2,3) b3(3) b2(3) b1(3) len unfolding mem_def by simp
    show ?thesis
    proof (cases hs)
      case Nil
      then have z: "k = 0" "rest = []" by (simp_all add: k_def rest_def)
      have "b4 \<noteq> 0" using Nil b4(3) b3(3) b2(3) b1(3) by simp
      moreover have "load b4 (snd (sunk m buf en (T @ t1))) = Some 0" using str_at_hd [OF reads_sunk [OF rd]] Nil by simp
      ultimately show ?thesis unfolding step using z t2 by (subst format_loop.simps) simp
    next
      case (Cons k' ds)
      then have z: "k = k'" "k' \<noteq> 0" "rest = directives ds" using b4(2) by (simp_all add: k_def rest_def)
      have "reads m buf en (Suc b4) ds" using rd Cons by (auto simp: reads_def)
      moreover have "\<not> c \<noteq> 37" using True by simp
      ultimately show ?thesis
        using "2.IH"(2) [OF _ ps [symmetric] refl refl refl Cons, of "Suc b4" a3 t2 "T @ t1"] z t2 "2.prems"(3,4) unfolding step by simp
    qed
  qed
qed


lemma rt_vsnprintf_spec:
  assumes t: "format_text S fs args = Some t"
    and f: "reads m buf (buf + sz) fmt fs" and S: "strings_ok S m buf (buf + sz)"
    and b: "mapped m buf sz" "buf + sz < 2 ^ 32" and room: "buf + length t < 2 ^ 32" "length t + 8 < 2 ^ 31"
  shows "rt_vsnprintf buf sz fmt args m = Some (int (length t),
    (\<lambda>a. if buf \<le> a \<and> a < buf + min (length t + 1) sz then Some ((take (sz - 1) t @ [0]) ! (a - buf)) else m a))"
proof -
  have buf: "buffer m buf (buf + sz)" using b(1) by (simp add: buffer_def)
  have e: "(buf + sz) mod 2 ^ 32 = buf + sz" using b(2) by simp
  have l: "format_loop (buf + sz) fmt args (buf, m) = Some (sunk m buf (buf + sz) t)"
    using format_loop_spec [OF buf S f, of args t "[]"] t room unfolding format_text_def sunk_nil [of buf m "buf + sz"] by simp
  define m1 where "m1 = written (\<lambda>i. Some (t ! i)) buf 0 (min (length t) sz) m"
  have s: "sunk m buf (buf + sz) t = (buf + length t, m1)" by (simp add: sunk_def m1_def)
  define m2 where "m2 = (\<lambda>a. if buf \<le> a \<and> a < buf + min (length t + 1) sz then Some ((take (sz - 1) t @ [0]) ! (a - buf)) else m a)"
  have mp: "m1 (buf + i) \<noteq> None" if "i < sz" for i
    using b(1) that by (auto simp: m1_def written_def mapped_def)
  have z: "(if 0 < sz then if buf + length t < buf + sz then store (buf + length t) 0 m1 else store (buf + sz - 1) 0 m1 else Some m1) = Some m2"
  proof (cases "sz = 0")
    case True
    then show ?thesis by (auto simp: m1_def m2_def fun_eq_iff)
  next
    case False
    show ?thesis
    proof (cases "length t < sz")
      case True
      then have "store (buf + length t) 0 m1 = Some (m1(buf + length t \<mapsto> 0))" using mp [of "length t"] by (simp add: store_def)
      moreover have "m1(buf + length t \<mapsto> 0) = m2"
        using True by (auto simp: m1_def m2_def written_def fun_eq_iff nth_append)
      ultimately show ?thesis using True False by simp
    next
      case l: False
      have "store (buf + (sz - 1)) 0 m1 = Some (m1(buf + (sz - 1) \<mapsto> 0))" using mp [of "sz - 1"] False by (simp add: store_def)
      moreover have "m1(buf + (sz - 1) \<mapsto> 0) = m2"
        using l False by (auto simp: m1_def m2_def written_def fun_eq_iff nth_append)
      ultimately show ?thesis using l False by simp
    qed
  qed
  have d: "sint (word_of_nat (buf + length t) - word_of_nat buf :: u32) = int (length t)"
    using room(2) by (simp add: signed_of_nat signed_take_bit_int_eq_self)
  show ?thesis
    unfolding rt_vsnprintf_def e Let_def m2_def [symmetric] using z by (simp add: l s d del: of_nat_add)
qed

section \<open>Properties\<close>


lemmas parse_simps = parse_spec_def parse_precision_def parse_qualifier_def flag_bit_def ISDIGIT_def decimal_def

lemmas number_simps = number_text_def sign_text_def prefix_text_def magnitude_def signed_value_def number_arg_def




text \<open>Reading a number back: the digits of \<open>n\<close>, and what follows them.\<close>

lemma ISDIGIT_small: "i < 10 \<Longrightarrow> ISDIGIT (small_digits ! i) \<and> unat (small_digits ! i) = 48 + i"
proof -
  assume "i < 10"
  then have "i = 0 \<or> i = 1 \<or> i = 2 \<or> i = 3 \<or> i = 4 \<or> i = 5 \<or> i = 6 \<or> i = 7 \<or> i = 8 \<or> i = 9" by arith
  then show ?thesis by (elim disjE) (simp_all add: small_digits_def ISDIGIT_def)
qed

lemma decimal_digits:
  "(\<forall>c \<in> set (digits_of small_digits 10 n). ISDIGIT c) \<and> decimal (digits_of small_digits 10 n) = n"
proof (induction n rule: less_induct)
  case (less n)
  show ?case
  proof (cases "n < 10")
    case True
    then have "digits_of small_digits 10 n = [small_digits ! n]" by (subst digits_of.simps) simp
    with ISDIGIT_small [OF True] show ?thesis by (simp add: decimal_def)
  next
    case False
    then have d: "digits_of small_digits 10 n = digits_of small_digits 10 (n div 10) @ [small_digits ! (n mod 10)]"
      by (subst digits_of.simps) simp
    have "n div 10 < n" using False by simp
    from less [OF this] ISDIGIT_small [of "n mod 10"] show ?thesis unfolding d by (simp add: decimal_def)
  qed
qed

lemma u_text: "format_text S [37, 117] [a] = Some (digits_of small_digits 10 (unat a))"
proof -
  have d: "directives [37, 117] = [Conversion 0 Absent Absent 0 117]" by (simp add: parse_simps)
  show ?thesis unfolding format_text_def d
    by (simp add: the_count_def conversion_text_def va_arg_def number_simps Let_def)
qed

text \<open>
  The bound on the text is needed: the pointer that counts what is not written wraps, and is below \<open>end\<close> again
  at address 0. A text of three letters for a buffer of one byte at the end of the address space is
  continued there, and so is its terminator.
\<close>

lemma vsnprintf_wraps_to_low_memory:
  assumes "str_at m fmt [a, b, c]" "37 \<notin> {a, b, c}" "2 \<le> fmt" "fmt + 3 < 2 ^ 32 - 2"
    and "m 0 \<noteq> None" "m 1 \<noteq> None" "m (2 ^ 32 - 2) \<noteq> None"
  shows "rt_vsnprintf (2 ^ 32 - 2) 1 fmt args m = Some (3, m(2 ^ 32 - 2 \<mapsto> a, 0 \<mapsto> c, 1 \<mapsto> 0))"
proof -
  have m: "m fmt = Some a" "m (fmt + 1) = Some b" "m (fmt + 2) = Some c" "m (fmt + 3) = Some 0" "a \<noteq> 0" "b \<noteq> 0" "c \<noteq> 0"
    using assms(1) by (simp_all add: numeral_eq_Suc)
  obtain x y z where v: "m 0 = Some x" "m 1 = Some y" "m (2 ^ 32 - 2) = Some z" using assms(5-7) by blast
  have "format_loop (2 ^ 32 - 1) fmt args (2 ^ 32 - 2, m) = format_loop (2 ^ 32 - 1) (fmt + 1) args (2 ^ 32 - 1, m(2 ^ 32 - 2 \<mapsto> a))"
    using m v assms(2-4) by (subst format_loop.simps) (simp add: load_def emit_def store_def)
  also have "\<dots> = format_loop (2 ^ 32 - 1) (fmt + 2) args (0, m(2 ^ 32 - 2 \<mapsto> a))"
    using m v assms(2-4) by (subst format_loop.simps) (simp add: load_def emit_def)
  also have "\<dots> = format_loop (2 ^ 32 - 1) (fmt + 2 + 1) args (1, m(2 ^ 32 - 2 \<mapsto> a, 0 \<mapsto> c))"
    using m v assms(2-4) by (subst format_loop.simps) (simp add: load_def emit_def store_def)
  also have "\<dots> = Some (1, m(2 ^ 32 - 2 \<mapsto> a, 0 \<mapsto> c))"
    using m v assms(2-4) by (subst format_loop.simps) (simp add: load_def numeral_3_eq_3)
  finally have l: "format_loop (2 ^ 32 - 1) fmt args (2 ^ 32 - 2, m) = Some (1, m(2 ^ 32 - 2 \<mapsto> a, 0 \<mapsto> c))" .
  show ?thesis using v l by (simp add: rt_vsnprintf_def store_def)
qed

text \<open>
  A number printed with \<open>"%u"\<close> into a buffer of at least 11 bytes is read back by \<open>skip_atoi\<close>, the decimal reader
  of the format parser, to the same number, up to the numbers that reader can hold.
\<close>

lemma printed_number_reads_back:
  assumes "str_at m fmt [37, 117]" "fmt + 2 < buf \<or> buf + sz \<le> fmt" "mapped m buf sz" "buf + sz < 2 ^ 32" "11 \<le> sz"
    and "unat a + 48 < 2 ^ 31"
  shows "\<exists>n m'. rt_vsnprintf buf sz fmt [a] m = Some (int n, m') \<and> skip_atoi buf m' = Some (unat a, buf + n)"
proof -
  define ds where "ds = digits_of small_digits 10 (unat a)"
  have l: "length ds \<le> 10" unfolding ds_def using assms(6) by (intro length_digits_of) simp_all
  have dg: "\<forall>c \<in> set ds. ISDIGIT c" "decimal ds = unat a" unfolding ds_def by (simp_all add: decimal_digits)
  define m' where "m' = (\<lambda>b. if buf \<le> b \<and> b < buf + min (length ds + 1) sz then Some ((take (sz - 1) ds @ [0]) ! (b - buf)) else m b)"
  have e: "rt_vsnprintf buf sz fmt [a] m = Some (int (length ds), m')"
    unfolding m'_def ds_def using assms l [unfolded ds_def] by (intro rt_vsnprintf_spec [OF u_text [where S = "\<lambda>_. None"]]) (auto simp: reads_def strings_ok_def)
  have "0 \<notin> set ds" using dg(1) by (auto simp: ISDIGIT_def)
  moreover have "take (sz - 1) ds = ds" "min (length ds + 1) sz = length ds + 1" using l assms(5) by simp_all
  ultimately have s: "str_at m' buf ds" by (intro str_atI) (simp_all add: m'_def nth_append)
  have tw: "takeWhile ISDIGIT ds = ds" "dropWhile ISDIGIT ds = []" using dg(1) by (simp_all add: takeWhile_eq_all_conv dropWhile_eq_Nil_conv)
  from skip_atoi_loop_spec [OF s, of 0] have "skip_atoi buf m' = Some (unat a, buf + length ds)"
    using dg(2) assms(6) by (auto simp: tw skip_atoi_def decimal_def)
  with e show ?thesis by blast
qed

definition u_memory :: memory where
  "u_memory = (\<lambda>a. if a < 3 then Some ([37, 117, 0] ! a) else if 100 \<le> a \<and> a < 120 then Some 0xff else None)"

lemma printed_number_reads_back_witness:
  "\<exists>n m'. rt_vsnprintf 100 12 0 [1234567] u_memory = Some (int n, m') \<and> skip_atoi 100 m' = Some (1234567, 100 + n)"
proof -
  have "str_at u_memory 0 [37, 117]" "mapped u_memory 100 12" by (simp_all add: u_memory_def mapped_def)
  with printed_number_reads_back [of u_memory 0 100 12 1234567] show ?thesis by simp
qed

text \<open>
  With the precision 0, \<open>"%.0u"\<close> (or \<open>"%.u"\<close>), no digit of any number is printed, where the C standard drops
  the digit of zero only: the result is the empty string, for every argument.
\<close>

lemma precision_zero_prints_no_number:
  assumes "str_at m fmt [37, 46, 48, 117]" "fmt + 4 < buf \<or> buf + sz \<le> fmt" "mapped m buf sz" "buf + sz < 2 ^ 32" "0 < sz"
  shows "rt_vsnprintf buf sz fmt [a] m = Some (0, m(buf \<mapsto> 0))"
proof -
  have d: "directives [37, 46, 48, 117] = [Conversion 0 Absent (Given 0) 0 117]" by (simp add: parse_simps)
  have "format_text (\<lambda>_. None) [37, 46, 48, 117] [a] = Some []"
    unfolding format_text_def d
    by (simp add: the_count_def conversion_text_def va_arg_def number_simps Let_def)
  moreover have "reads m buf (buf + sz) fmt [37, 46, 48, 117]" using assms(1,2) by (auto simp: reads_def)
  moreover have "strings_ok (\<lambda>_. None) m buf (buf + sz)" by (simp add: strings_ok_def)
  ultimately have e: "rt_vsnprintf buf sz fmt [a] m =
      Some (int (length ([] :: u8 list)), \<lambda>b. if buf \<le> b \<and> b < buf + min (length ([] :: u8 list) + 1) sz then Some ((take (sz - 1) [] @ [0]) ! (b - buf)) else m b)"
    using assms(3-5) by (intro rt_vsnprintf_spec) simp_all
  show ?thesis unfolding e using assms(5) by (auto simp: fun_eq_iff)
qed

definition u0_memory :: memory where
  "u0_memory = (\<lambda>a. if a < 5 then Some ([37, 46, 48, 117, 0] ! a) else if 100 \<le> a \<and> a < 120 then Some 0xff else None)"

lemma precision_zero_prints_no_number_witness: "rt_vsnprintf 100 12 0 [7] u0_memory = Some (0, u0_memory(100 \<mapsto> 0))"
proof -
  have "str_at u0_memory 0 [37, 46, 48, 117]" "mapped u0_memory 100 12" by (simp_all add: u0_memory_def mapped_def)
  with precision_zero_prints_no_number [of u0_memory 0 100 12 7] show ?thesis by simp
qed

text \<open>A field width also cuts a string that is longer; the C standard never cuts to the width.\<close>

lemma field_width_cuts_strings:
  assumes "a \<noteq> 0" "S a = Some cs" "3 \<le> length cs"
  shows "format_text S [37, 51, 115] [a] = Some (take 3 cs)"
proof -
  have d: "directives [37, 51, 115] = [Conversion 0 (Given 3) Absent 0 115]" by (simp add: parse_simps)
  show ?thesis unfolding format_text_def d using assms
    by (simp add: the_count_def conversion_text_def va_arg_def string_arg_def field_text_def cut_string_def Let_def)
qed

text \<open>A field is never narrower than its width, unless the precision 0 dropped the digits.\<close>

lemma field_text_width: "w \<le> int (length (field_text w flags cs))"
  by (auto simp: field_text_def Let_def)

lemma number_text_width: "p \<noteq> 0 \<Longrightarrow> w \<le> int (length (number_text base q w p flags num))"
  by (auto simp: number_text_def Let_def)

end
