(* ===== verification/Rt_Slist.thy ===== *)
theory Rt_Slist
  imports Prelude
begin

text \<open>
  The intrusive singly linked lists of \<open>include/rtservice.h\<close>: a node holds the pointer to the next
  one, a head is a node, and the list ends with a null pointer. The operations are translated on the
  map of \<open>next\<close> pointers; a walk that does not end is \<open>None\<close>. \<open>slist\<close> relates the pointers to a list of
  nodes, and each operation is shown to refine the operation on that list.
\<close>

type_synonym 'n slinks = "'n \<Rightarrow> 'n option"

section \<open>The operations\<close>

definition rt_slist_init :: "'n \<Rightarrow> 'n slinks \<Rightarrow> 'n slinks" where
  "rt_slist_init l h = h(l := None)"

partial_function (option) rt_slist_tail :: "'n \<Rightarrow> 'n slinks \<Rightarrow> 'n option" where
  "rt_slist_tail l h = (case h l of None \<Rightarrow> Some l | Some n \<Rightarrow> rt_slist_tail n h)"

definition rt_slist_append :: "'n \<Rightarrow> 'n \<Rightarrow> 'n slinks \<Rightarrow> 'n slinks option" where
  "rt_slist_append l n h = do {
     node \<leftarrow> rt_slist_tail l h;
     let h = h(node := Some n);
     Some (h(n := None))
   }"

definition rt_slist_insert :: "'n \<Rightarrow> 'n \<Rightarrow> 'n slinks \<Rightarrow> 'n slinks" where
  "rt_slist_insert l n h = (let h = h(n := h l) in h(l := Some n))"

partial_function (option) slist_len_loop :: "'n option \<Rightarrow> 'n slinks \<Rightarrow> u32 \<Rightarrow> u32 option" where
  "slist_len_loop list h len = (case list of None \<Rightarrow> Some len | Some n \<Rightarrow> slist_len_loop (h n) h (len + 1))"

definition rt_slist_len :: "'n \<Rightarrow> 'n slinks \<Rightarrow> u32 option" where
  "rt_slist_len l h = slist_len_loop (h l) h 0"

text \<open>\<open>while (node->next && node->next != n) node = node->next;\<close>\<close>

partial_function (option) slist_before :: "'n \<Rightarrow> 'n \<Rightarrow> 'n slinks \<Rightarrow> 'n option" where
  "slist_before node n h =
     (case h node of None \<Rightarrow> Some node | Some x \<Rightarrow> if x \<noteq> n then slist_before x n h else Some node)"

definition rt_slist_remove :: "'n \<Rightarrow> 'n \<Rightarrow> 'n slinks \<Rightarrow> 'n slinks option" where
  "rt_slist_remove l n h = do {
     node \<leftarrow> slist_before l n h;
     Some (case h node of None \<Rightarrow> h | Some x \<Rightarrow> h(node := h x))
   }"

definition rt_slist_first :: "'n \<Rightarrow> 'n slinks \<Rightarrow> 'n option" where
  "rt_slist_first l h = h l"

definition rt_slist_next :: "'n \<Rightarrow> 'n slinks \<Rightarrow> 'n option" where
  "rt_slist_next n h = h n"

definition rt_slist_isempty :: "'n \<Rightarrow> 'n slinks \<Rightarrow> bool" where
  "rt_slist_isempty l h \<longleftrightarrow> h l = None"

section \<open>Lists of nodes\<close>

fun slist :: "'n slinks \<Rightarrow> 'n \<Rightarrow> 'n list \<Rightarrow> bool" where
  "slist h l [] \<longleftrightarrow> h l = None"
| "slist h l (x # xs) \<longleftrightarrow> h l = Some x \<and> slist h x xs"

lemma slist_unique: "slist h l xs \<Longrightarrow> slist h l ys \<Longrightarrow> xs = ys"
proof (induction xs arbitrary: l ys)
  case Nil
  then show ?case by (cases ys) auto
next
  case (Cons x xs)
  then show ?case by (cases ys) auto
qed

lemma slist_suffix: "slist h l xs \<Longrightarrow> x \<in> set xs \<Longrightarrow> \<exists>ys zs. xs = ys @ x # zs \<and> slist h x zs"
proof (induction xs arbitrary: l)
  case (Cons y ys)
  show ?case
  proof (cases "x = y")
    case True
    with Cons.prems show ?thesis by (intro exI [of _ "[]"] exI [of _ ys]) auto
  next
    case False
    with Cons.prems Cons.IH [of y] obtain us vs where "ys = us @ x # vs" "slist h x vs" by auto
    then show ?thesis by (intro exI [of _ "y # us"] exI [of _ vs]) simp
  qed
qed simp

text \<open>A chain that ends cannot come back to a node.\<close>

lemma slist_distinct: "slist h l xs \<Longrightarrow> distinct (l # xs)"
proof (induction xs arbitrary: l)
  case (Cons x xs)
  have "l \<notin> set (x # xs)"
  proof
    assume "l \<in> set (x # xs)"
    from slist_suffix [OF Cons.prems this] obtain ys zs where z: "x # xs = ys @ l # zs" "slist h l zs" by blast
    from slist_unique [OF Cons.prems z(2)] have "length (x # xs) = length zs" by simp
    with z(1) show False by (metis append_Cons_eq_iff impossible_Cons length_append linorder_not_le not_add_less2 le_add2 length_Cons less_Suc_eq_le)
  qed
  moreover have "distinct (x # xs)" using Cons.IH [of x] Cons.prems by simp
  ultimately show ?case by simp
qed simp

lemma slist_frame: "p \<notin> set (l # xs) \<Longrightarrow> slist (h(p := v)) l xs = slist h l xs"
  by (induction xs arbitrary: l) auto

lemma slist_last: "slist h l xs \<Longrightarrow> h (last (l # xs)) = None"
  by (induction xs arbitrary: l) auto

lemma slist_snoc:
  assumes "slist h l xs" "n \<notin> set (l # xs)"
  shows "slist (h(last (l # xs) := Some n, n := None)) l (xs @ [n])"
  using assms
proof (induction xs arbitrary: l)
  case (Cons x xs)
  have "l \<noteq> last (x # xs)" using slist_distinct [OF Cons.prems(1)] by (metis distinct.simps(2) last_in_set list.distinct(1))
  with Cons show ?case by auto
qed simp

lemma slist_push: "slist h l xs \<Longrightarrow> n \<notin> set (l # xs) \<Longrightarrow> slist (h(n := h l, l := Some n)) l (n # xs)"
  using slist_distinct [of h l xs] by (cases xs) (auto simp: slist_frame)

text \<open>The node before \<open>n\<close>, and the list without \<open>n\<close>.\<close>

lemma slist_before_spec:
  assumes "slist h l (xs @ n # ys)"
  shows "slist_before l n h = Some (last (l # xs))"
  using assms
proof (induction xs arbitrary: l)
  case Nil
  then show ?case by (subst slist_before.simps) simp
next
  case (Cons x xs)
  have "x \<noteq> n" using slist_distinct [OF Cons.prems] by auto
  with Cons show ?case by (subst slist_before.simps) auto
qed

lemma slist_before_absent:
  assumes "slist h l xs" "n \<notin> set xs"
  shows "slist_before l n h = Some (last (l # xs))"
  using assms by (induction xs arbitrary: l) (subst slist_before.simps, auto)+

lemma slist_cut:
  assumes "slist h l (xs @ n # ys)"
  shows "slist (h(last (l # xs) := h n)) l (xs @ ys)" "h (last (l # xs)) = Some n"
proof -
  show "h (last (l # xs)) = Some n" using assms by (induction xs arbitrary: l) auto
  have d: "distinct (l # xs @ n # ys)" by (rule slist_distinct [OF assms])
  show "slist (h(last (l # xs) := h n)) l (xs @ ys)"
    using assms d
  proof (induction xs arbitrary: l)
    case Nil
    show ?case
    proof (cases ys)
      case (Cons y zs)
      with Nil slist_frame [of l y zs h "h n"] show ?thesis by (auto simp: fun_upd_def)
    qed (use Nil in auto)
  next
    case (Cons x xs)
    have "l \<noteq> last (x # xs)" using Cons.prems(2) last_in_set [of "x # xs"] by auto
    with Cons show ?case by auto
  qed
qed

section \<open>Refinement\<close>

lemma rt_slist_tail_spec: "slist h l xs \<Longrightarrow> rt_slist_tail l h = Some (last (l # xs))"
proof (induction xs arbitrary: l)
  case Nil
  then show ?case by (subst rt_slist_tail.simps) simp
next
  case (Cons x xs)
  then show ?case by (subst rt_slist_tail.simps) simp
qed

lemma slist_len_loop_spec: "slist h l xs \<Longrightarrow> slist_len_loop (h l) h k = Some (k + word_of_nat (length xs))"
proof (induction xs arbitrary: l k)
  case Nil
  then show ?case by (subst slist_len_loop.simps) simp
next
  case (Cons x xs)
  from Cons.prems Cons.IH [of x "k + 1"] show ?case by (subst slist_len_loop.simps) (simp add: algebra_simps)
qed

text \<open>
  Each operation of \<open>rt_slist\<close> refines the operation on lists: append, insert at the front, removal of a node
  (which does nothing when the node is not on the list), length, first and emptiness.
\<close>

lemma slist_operations_refine:
  assumes l: "slist h l xs"
  shows "n \<notin> set (l # xs) \<Longrightarrow> \<exists>h'. rt_slist_append l n h = Some h' \<and> slist h' l (xs @ [n])"
    "n \<notin> set (l # xs) \<Longrightarrow> slist (rt_slist_insert l n h) l (n # xs)"
    "\<exists>h'. rt_slist_remove l n h = Some h' \<and> slist h' l (remove1 n xs)"
    "rt_slist_len l h = Some (word_of_nat (length xs))"
    "rt_slist_first l h = (case xs of [] \<Rightarrow> None | x # _ \<Rightarrow> Some x)"
    "rt_slist_isempty l h \<longleftrightarrow> xs = []"
proof -
  show "\<exists>h'. rt_slist_append l n h = Some h' \<and> slist h' l (xs @ [n])" if "n \<notin> set (l # xs)"
    using slist_snoc [OF l that] by (simp add: rt_slist_append_def rt_slist_tail_spec [OF l])
  show "slist (rt_slist_insert l n h) l (n # xs)" if "n \<notin> set (l # xs)"
    using slist_push [OF l that] by (simp add: rt_slist_insert_def)
  show "\<exists>h'. rt_slist_remove l n h = Some h' \<and> slist h' l (remove1 n xs)"
  proof (cases "n \<in> set xs")
    case False
    then show ?thesis using slist_before_absent [OF l False] slist_last [OF l] l
      by (simp add: rt_slist_remove_def remove1_idem)
  next
    case True
    then obtain us vs where u: "xs = us @ n # vs" "n \<notin> set us" by (meson split_list_first)
    then have "remove1 n xs = us @ vs" by (simp add: remove1_append)
    with slist_cut [of h l us n vs] slist_before_spec [of h l us n vs] l u show ?thesis
      by (simp add: rt_slist_remove_def)
  qed
  show "rt_slist_len l h = Some (word_of_nat (length xs))"
    using slist_len_loop_spec [OF l, of 0] by (simp add: rt_slist_len_def)
  show "rt_slist_first l h = (case xs of [] \<Rightarrow> None | x # _ \<Rightarrow> Some x)"
    using l by (cases xs) (simp_all add: rt_slist_first_def)
  show "rt_slist_isempty l h \<longleftrightarrow> xs = []" using l by (cases xs) (simp_all add: rt_slist_isempty_def)
qed

end
