(* ===== verification/Ring_Block.thy ===== *)
theory Ring_Block
  imports Rt_Slist Allocator
begin

text \<open>
  The ring block buffer of the device framework (components/drivers/ipc/ringblk_buf.c): blocks of any
  size in a ring of bytes, for zero-copy transfer. A block descriptor is a number, and stands on the list of
  the blocks in use, in the order of their allocation, or on the list of free descriptors.
\<close>

section \<open>State\<close>

datatype rt_rbb_status = RT_RBB_BLK_UNUSED | RT_RBB_BLK_INITED | RT_RBB_BLK_PUT | RT_RBB_BLK_GET

record rt_rbb_blk =
  bk_status :: rt_rbb_status
  bk_size :: nat
  bk_buf :: nat

text \<open>The nodes of the two lists: their heads \<open>blk_list\<close> and \<open>free_list\<close>, and the nodes of the blocks.\<close>

datatype rbb_node = Blk_List | Free_List | Blk nat

record rt_rbb =
  rbb_buf :: nat
  rbb_buf_size :: nat
  rbb_blk_max_num :: nat
  rbb_blk_set :: "nat \<Rightarrow> rt_rbb_blk"
  rbb_tail :: rbb_node
  rbb_next :: "rbb_node slinks"

text \<open>\<open>rt_slist_entry\<close>: the block of a node; a list head is part of no block.\<close>

definition rbb_entry :: "rbb_node \<Rightarrow> nat option" where
  "rbb_entry n = (case n of Blk b \<Rightarrow> Some b | _ \<Rightarrow> None)"

definition upd_blk :: "nat \<Rightarrow> (rt_rbb_blk \<Rightarrow> rt_rbb_blk) \<Rightarrow> rt_rbb \<Rightarrow> rt_rbb" where
  "upd_blk b f r = r\<lparr>rbb_blk_set := (rbb_blk_set r)(b := f (rbb_blk_set r b))\<rparr>"

section \<open>Operations\<close>

function rbb_init_loop :: "nat \<Rightarrow> nat \<Rightarrow> rt_rbb \<Rightarrow> rt_rbb" where
  "rbb_init_loop i n r =
     (if i < n
      then let r = upd_blk i (\<lambda>b. b\<lparr>bk_status := RT_RBB_BLK_UNUSED\<rparr>) r;
               r = r\<lparr>rbb_next := rt_slist_init (Blk i) (rbb_next r)\<rparr>;
               r = r\<lparr>rbb_next := rt_slist_insert Free_List (Blk i) (rbb_next r)\<rparr>
           in rbb_init_loop (i + 1) n r
      else r)"
  by pat_completeness auto

termination by (relation "measure (\<lambda>(i, n, _). n - i)") auto

declare rbb_init_loop.simps [simp del]

definition rt_rbb_init :: "nat \<Rightarrow> nat \<Rightarrow> nat \<Rightarrow> nat \<Rightarrow> rt_rbb \<Rightarrow> rt_rbb option" where
  "rt_rbb_init buf buf_size block_set blk_max_num r = do {
     rt_assert (buf \<noteq> 0);
     rt_assert (block_set \<noteq> 0);
     let r = r\<lparr>rbb_buf := buf, rbb_buf_size := buf_size, rbb_blk_max_num := blk_max_num, rbb_tail := Blk_List\<rparr>;
     let r = r\<lparr>rbb_next := rt_slist_init Blk_List (rbb_next r)\<rparr>;
     let r = r\<lparr>rbb_next := rt_slist_init Free_List (rbb_next r)\<rparr>;
     Some (rbb_init_loop 0 blk_max_num r)
   }"

definition find_empty_blk_in_set :: "rt_rbb \<Rightarrow> (nat option \<times> rt_rbb) option" where
  "find_empty_blk_in_set r =
     (case rt_slist_first Free_List (rbb_next r) of
        None \<Rightarrow> Some (None, r)
      | Some n \<Rightarrow> do {
          b \<leftarrow> rbb_entry n;
          h \<leftarrow> rt_slist_remove Free_List n (rbb_next r);
          rt_assert (bk_status (rbb_blk_set r b) = RT_RBB_BLK_UNUSED);
          Some (Some b, r\<lparr>rbb_next := h\<rparr>)
        })"

definition list_append :: "rbb_node \<Rightarrow> rt_rbb \<Rightarrow> rt_rbb" where
  "list_append n r =
     (let r = r\<lparr>rbb_next := (rbb_next r)(rbb_tail r := Some n)\<rparr>;
          r = r\<lparr>rbb_next := (rbb_next r)(n := None)\<rparr>
      in r\<lparr>rbb_tail := n\<rparr>)"

definition rbb_list_remove :: "rbb_node \<Rightarrow> rt_rbb \<Rightarrow> rt_rbb option" where
  "rbb_list_remove n r = do {
     node \<leftarrow> slist_before Blk_List n (rbb_next r);
     Some (case rbb_next r node of
             None \<Rightarrow> r
           | Some x \<Rightarrow>
               (let r = r\<lparr>rbb_next := (rbb_next r)(node := rbb_next r x)\<rparr>;
                    r = r\<lparr>rbb_next := (rbb_next r)(n := None)\<rparr>
                in if rbb_tail r = n then r\<lparr>rbb_tail := node\<rparr> else r))
   }"

text \<open>Taking the descriptor \<open>b\<close> into use for \<open>blk_size\<close> bytes at \<open>buf\<close>.\<close>

definition blk_use :: "nat \<Rightarrow> nat \<Rightarrow> nat \<Rightarrow> rt_rbb \<Rightarrow> rt_rbb" where
  "blk_use b buf blk_size r =
     upd_blk b (\<lambda>x. x\<lparr>bk_status := RT_RBB_BLK_INITED, bk_buf := buf, bk_size := blk_size\<rparr>) (list_append (Blk b) r)"

definition rt_rbb_blk_alloc :: "nat \<Rightarrow> rt_rbb \<Rightarrow> (nat option \<times> rt_rbb) option" where
  "rt_rbb_blk_alloc blk_size r = do {
     rt_assert (blk_size < 2 ^ 24);
     (new_rbb, r) \<leftarrow> find_empty_blk_in_set r;
     (case new_rbb of
        None \<Rightarrow> Some (None, r)
      | Some b \<Rightarrow>
          (case rt_slist_first Blk_List (rbb_next r) of
             None \<Rightarrow> Some (Some b, blk_use b (rbb_buf r) blk_size r)
           | Some n \<Rightarrow> do {
               h \<leftarrow> rbb_entry n;
               t \<leftarrow> rbb_entry (rbb_tail r);
               let head = rbb_blk_set r h;
               let tail = rbb_blk_set r t;
               let tail_end = add32 (bk_buf tail) (bk_size tail);
               if bk_buf head \<le> bk_buf tail
               then do {
                 let empty1 = sub32 (add32 (rbb_buf r) (rbb_buf_size r)) tail_end;
                 let empty2 = sub32 (bk_buf head) (rbb_buf r);
                 if blk_size \<le> empty1 then Some (Some b, blk_use b tail_end blk_size r)
                 else if blk_size \<le> empty2 then Some (Some b, blk_use b (rbb_buf r) blk_size r)
                 else Some (None, r)
               }
               else do {
                 let empty1 = sub32 (bk_buf head) tail_end;
                 if blk_size \<le> empty1 then Some (Some b, blk_use b tail_end blk_size r)
                 else Some (None, r)
               }
             }))
   }"

definition rt_rbb_blk_put :: "nat \<Rightarrow> rt_rbb \<Rightarrow> rt_rbb option" where
  "rt_rbb_blk_put b r = do {
     rt_assert (bk_status (rbb_blk_set r b) = RT_RBB_BLK_INITED);
     Some (upd_blk b (\<lambda>x. x\<lparr>bk_status := RT_RBB_BLK_PUT\<rparr>) r)
   }"

partial_function (option) rbb_get_loop :: "rbb_node option \<Rightarrow> rt_rbb \<Rightarrow> (nat option \<times> rt_rbb) option" where
  "rbb_get_loop node r =
     (case node of
        None \<Rightarrow> Some (None, r)
      | Some n \<Rightarrow> do {
          b \<leftarrow> rbb_entry n;
          if bk_status (rbb_blk_set r b) = RT_RBB_BLK_PUT
          then Some (Some b, upd_blk b (\<lambda>x. x\<lparr>bk_status := RT_RBB_BLK_GET\<rparr>) r)
          else rbb_get_loop (rt_slist_next n (rbb_next r)) r
        })"

definition rt_rbb_blk_get :: "rt_rbb \<Rightarrow> (nat option \<times> rt_rbb) option" where
  "rt_rbb_blk_get r =
     (if rt_slist_isempty Blk_List (rbb_next r) then Some (None, r)
      else rbb_get_loop (rt_slist_first Blk_List (rbb_next r)) r)"

definition rt_rbb_blk_size :: "nat \<Rightarrow> rt_rbb \<Rightarrow> nat" where
  "rt_rbb_blk_size b r = bk_size (rbb_blk_set r b)"

definition rt_rbb_blk_buf :: "nat \<Rightarrow> rt_rbb \<Rightarrow> nat" where
  "rt_rbb_blk_buf b r = bk_buf (rbb_blk_set r b)"

definition rt_rbb_blk_free :: "nat \<Rightarrow> rt_rbb \<Rightarrow> rt_rbb option" where
  "rt_rbb_blk_free b r = do {
     rt_assert (bk_status (rbb_blk_set r b) \<noteq> RT_RBB_BLK_UNUSED);
     r \<leftarrow> rbb_list_remove (Blk b) r;
     let r = upd_blk b (\<lambda>x. x\<lparr>bk_status := RT_RBB_BLK_UNUSED\<rparr>) r;
     Some (r\<lparr>rbb_next := rt_slist_insert Free_List (Blk b) (rbb_next r)\<rparr>)
   }"

section \<open>Queues of blocks\<close>

text \<open>\<open>blocks\<close> of a queue holds rubbish (\<open>None\<close>) until a block is found.\<close>

record rt_rbb_blk_queue =
  bq_blocks :: "nat option"
  bq_blk_num :: nat

text \<open>
  The loop of \<open>rt_rbb_blk_queue_get\<close> goes on with \<open>node = tmp, tmp = rt_slist_next(node)\<close>, also when \<open>tmp\<close> is null:
  reading the link of the null pointer is a fault.
\<close>

partial_function (option) queue_get_loop ::
  "nat \<Rightarrow> rbb_node option \<Rightarrow> rbb_node option \<Rightarrow> nat option \<Rightarrow> nat \<Rightarrow> rt_rbb_blk_queue \<Rightarrow> rt_rbb \<Rightarrow>
   (nat \<times> rt_rbb_blk_queue \<times> rt_rbb) option" where
  "queue_get_loop queue_data_len node tmp last_block data_total_size q r =
     (case node of
        None \<Rightarrow> Some (data_total_size, q, r)
      | Some n \<Rightarrow> do {
          b \<leftarrow> rbb_entry n;
          let blk = rbb_blk_set r b;
          if last_block = None \<and> bk_status blk \<noteq> RT_RBB_BLK_PUT
          then do {
            n' \<leftarrow> tmp;
            queue_get_loop queue_data_len tmp (rt_slist_next n' (rbb_next r)) None data_total_size q r
          }
          else if last_block \<noteq> None \<and>
              (bk_status blk \<noteq> RT_RBB_BLK_PUT \<or> bk_buf blk < bk_buf (rbb_blk_set r (the last_block)) \<or>
               queue_data_len < add32 data_total_size (bk_size blk))
          then Some (data_total_size, q, r)
          else do {
            let q = (if last_block = None then q\<lparr>bq_blocks := Some b, bq_blk_num := 0\<rparr> else q);
            let data_total_size = add32 data_total_size (bk_size blk);
            let r = upd_blk b (\<lambda>x. x\<lparr>bk_status := RT_RBB_BLK_GET\<rparr>) r;
            let q = q\<lparr>bq_blk_num := bq_blk_num q + 1\<rparr>;
            n' \<leftarrow> tmp;
            queue_get_loop queue_data_len tmp (rt_slist_next n' (rbb_next r)) (Some b) data_total_size q r
          }
        })"

definition rt_rbb_blk_queue_get :: "nat \<Rightarrow> rt_rbb_blk_queue \<Rightarrow> rt_rbb \<Rightarrow> (nat \<times> rt_rbb_blk_queue \<times> rt_rbb) option" where
  "rt_rbb_blk_queue_get queue_data_len q r =
     (case rt_slist_first Blk_List (rbb_next r) of
        None \<Rightarrow> Some (0, q, r)
      | Some n \<Rightarrow> queue_get_loop queue_data_len (Some n) (rt_slist_next n (rbb_next r)) None 0 q r)"

primrec queue_len_loop :: "nat \<Rightarrow> rbb_node option \<Rightarrow> nat \<Rightarrow> rt_rbb \<Rightarrow> nat option" where
  "queue_len_loop 0 blk data_total_size r = Some data_total_size"
| "queue_len_loop (Suc k) blk data_total_size r = do {
     n \<leftarrow> blk;
     b \<leftarrow> rbb_entry n;
     queue_len_loop k (rt_slist_next n (rbb_next r)) (add32 data_total_size (bk_size (rbb_blk_set r b))) r
   }"

definition rt_rbb_blk_queue_len :: "rt_rbb_blk_queue \<Rightarrow> rt_rbb \<Rightarrow> nat option" where
  "rt_rbb_blk_queue_len q r = queue_len_loop (bq_blk_num q) (map_option Blk (bq_blocks q)) 0 r"

definition rt_rbb_blk_queue_buf :: "rt_rbb_blk_queue \<Rightarrow> rt_rbb \<Rightarrow> nat option" where
  "rt_rbb_blk_queue_buf q r = map_option (\<lambda>b. bk_buf (rbb_blk_set r b)) (bq_blocks q)"

primrec queue_free_loop :: "nat \<Rightarrow> rbb_node option \<Rightarrow> rt_rbb \<Rightarrow> rt_rbb option" where
  "queue_free_loop 0 blk r = Some r"
| "queue_free_loop (Suc k) blk r = do {
     n \<leftarrow> blk;
     b \<leftarrow> rbb_entry n;
     let next_blk = rt_slist_next n (rbb_next r);
     r \<leftarrow> rt_rbb_blk_free b r;
     queue_free_loop k next_blk r
   }"

definition rt_rbb_blk_queue_free :: "rt_rbb_blk_queue \<Rightarrow> rt_rbb \<Rightarrow> rt_rbb option" where
  "rt_rbb_blk_queue_free q r = queue_free_loop (bq_blk_num q) (map_option Blk (bq_blocks q)) r"

partial_function (option) next_len_loop :: "rbb_node option \<Rightarrow> nat option \<Rightarrow> nat \<Rightarrow> rt_rbb \<Rightarrow> nat option" where
  "next_len_loop node last_block data_len r =
     (case node of
        None \<Rightarrow> Some data_len
      | Some n \<Rightarrow> do {
          b \<leftarrow> rbb_entry n;
          let blk = rbb_blk_set r b;
          if last_block = None \<and> bk_status blk \<noteq> RT_RBB_BLK_PUT
          then next_len_loop (rt_slist_next n (rbb_next r)) None data_len r
          else if last_block \<noteq> None \<and>
              (bk_status blk \<noteq> RT_RBB_BLK_PUT \<or> bk_buf blk < bk_buf (rbb_blk_set r (the last_block)))
          then Some data_len
          else next_len_loop (rt_slist_next n (rbb_next r)) (Some b) (add32 data_len (bk_size blk)) r
        })"

definition rt_rbb_next_blk_queue_len :: "rt_rbb \<Rightarrow> nat option" where
  "rt_rbb_next_blk_queue_len r =
     (if rt_slist_isempty Blk_List (rbb_next r) then Some 0
      else next_len_loop (rt_slist_first Blk_List (rbb_next r)) None 0 r)"

definition rt_rbb_get_buf_size :: "rt_rbb \<Rightarrow> nat" where
  "rt_rbb_get_buf_size r = rbb_buf_size r"

section \<open>Creation\<close>

text \<open>The heap is a parameter: \<open>malloc\<close> returns an address or null. The sizes are those of the 32-bit target.\<close>

definition rt_rbb_create ::
  "(nat \<Rightarrow> 'h \<Rightarrow> nat option \<times> 'h) \<Rightarrow> (nat \<Rightarrow> 'h \<Rightarrow> 'h) \<Rightarrow> nat \<Rightarrow> nat \<Rightarrow> rt_rbb \<Rightarrow> 'h \<Rightarrow>
   ((nat \<times> nat \<times> nat \<times> rt_rbb) option \<times> 'h) option" where
  "rt_rbb_create malloc free buf_size blk_max_num r h =
     (case malloc 28 h of
        (None, h) \<Rightarrow> Some (None, h)
      | (Some rbb, h) \<Rightarrow>
          (case malloc buf_size h of
             (None, h) \<Rightarrow> Some (None, free rbb h)
           | (Some buf, h) \<Rightarrow>
               (case malloc (mul32 12 blk_max_num) h of
                  (None, h) \<Rightarrow> Some (None, free rbb (free buf h))
                | (Some blk_set, h) \<Rightarrow> do {
                    r \<leftarrow> rt_rbb_init buf buf_size blk_set blk_max_num r;
                    Some (Some (rbb, buf, blk_set, r), h)
                  })))"

definition rt_rbb_destroy :: "(nat \<Rightarrow> 'h \<Rightarrow> 'h) \<Rightarrow> nat \<Rightarrow> nat \<Rightarrow> nat \<Rightarrow> 'h \<Rightarrow> 'h" where
  "rt_rbb_destroy free rbb buf blk_set h = free rbb (free blk_set (free buf h))"


section \<open>Invariant\<close>

text \<open>Blocks in ascending order between two addresses, without overlap and none of them empty.\<close>

abbreviation (input) blk_end :: "(nat \<Rightarrow> rt_rbb_blk) \<Rightarrow> nat \<Rightarrow> nat" where
  "blk_end S b \<equiv> bk_buf (S b) + bk_size (S b)"

primrec asc :: "(nat \<Rightarrow> rt_rbb_blk) \<Rightarrow> nat \<Rightarrow> nat list \<Rightarrow> nat \<Rightarrow> bool" where
  "asc S lo [] hi \<longleftrightarrow> lo \<le> hi"
| "asc S lo (b # bs) hi \<longleftrightarrow> lo \<le> bk_buf (S b) \<and> 0 < bk_size (S b) \<and> asc S (blk_end S b) bs hi"

lemma asc_append: "asc S lo (xs @ ys) hi \<longleftrightarrow> asc S lo xs (if xs = [] then lo else blk_end S (last xs)) \<and>
    asc S (if xs = [] then lo else blk_end S (last xs)) ys hi"
  by (induction xs arbitrary: lo) auto

lemma asc_le: "asc S lo xs hi \<Longrightarrow> lo \<le> hi"
  by (induction xs arbitrary: lo) fastforce+

lemma asc_mono: "asc S lo xs hi \<Longrightarrow> lo' \<le> lo \<Longrightarrow> hi \<le> hi' \<Longrightarrow> asc S lo' xs hi'"
  by (induction xs arbitrary: lo lo') auto

lemma asc_tight: "asc S lo xs hi \<Longrightarrow> xs \<noteq> [] \<Longrightarrow> asc S lo xs (blk_end S (last xs)) \<and> blk_end S (last xs) \<le> hi"
  by (induction xs arbitrary: lo) auto

lemma asc_snoc:
  assumes "asc S lo xs hi'" "xs \<noteq> [] \<longrightarrow> blk_end S (last xs) \<le> bk_buf (S b)" "lo \<le> bk_buf (S b)" "0 < bk_size (S b)" "blk_end S b \<le> hi"
  shows "asc S lo (xs @ [b]) hi"
  using assms asc_tight [OF assms(1)] by (auto simp: asc_append)

lemma asc_cong: "(\<And>b. b \<in> set xs \<Longrightarrow> bk_buf (S' b) = bk_buf (S b) \<and> bk_size (S' b) = bk_size (S b)) \<Longrightarrow> asc S' lo xs hi = asc S lo xs hi"
  by (induction xs arbitrary: lo) auto

lemma asc_remove1: "asc S lo xs hi \<Longrightarrow> asc S lo (remove1 b xs) hi"
proof (induction xs arbitrary: lo)
  case (Cons x xs)
  then show ?case by (auto intro: asc_mono)
qed simp

lemma asc_bounds: "asc S lo xs hi \<Longrightarrow> b \<in> set xs \<Longrightarrow> lo \<le> bk_buf (S b) \<and> 0 < bk_size (S b) \<and> blk_end S b \<le> hi"
proof (induction xs arbitrary: lo)
  case (Cons x xs)
  from Cons.IH [of "blk_end S x"] Cons.prems asc_le [of S "blk_end S x" xs hi] show ?case by fastforce
qed simp

lemma asc_apart:
  assumes "asc S lo xs hi" "distinct xs" "a \<in> set xs" "b \<in> set xs" "a \<noteq> b"
  shows "blk_end S a \<le> bk_buf (S b) \<or> blk_end S b \<le> bk_buf (S a)"
  using assms
proof (induction xs arbitrary: lo)
  case (Cons x xs)
  then have "asc S (blk_end S x) xs hi" by simp
  with Cons show ?case using asc_bounds [of S "blk_end S x" xs hi a] asc_bounds [of S "blk_end S x" xs hi b] by auto
qed simp

text \<open>
  The blocks in use, oldest first: an upper run \<open>us\<close>, then, when the ring has wrapped round, a lower run \<open>vs\<close>
  below it.
\<close>

definition runs :: "rt_rbb \<Rightarrow> nat list \<Rightarrow> nat list \<Rightarrow> bool" where
  "runs r us vs \<longleftrightarrow> (us = [] \<longrightarrow> vs = []) \<and> asc (rbb_blk_set r) (rbb_buf r) us (rbb_buf r + rbb_buf_size r) \<and>
     asc (rbb_blk_set r) (rbb_buf r) vs (if us = [] then rbb_buf r + rbb_buf_size r else bk_buf (rbb_blk_set r (hd us)))"

definition rbb_lists :: "rt_rbb \<Rightarrow> nat list \<Rightarrow> nat list \<Rightarrow> bool" where
  "rbb_lists r bs fs \<longleftrightarrow>
     slist (rbb_next r) Blk_List (map Blk bs) \<and> slist (rbb_next r) Free_List (map Blk fs) \<and>
     set bs \<inter> set fs = {} \<and> rbb_tail r = last (Blk_List # map Blk bs) \<and> set fs \<subseteq> {..<rbb_blk_max_num r} \<and>
     set bs \<subseteq> {..<rbb_blk_max_num r} \<and> (\<forall>b \<in> set fs. bk_status (rbb_blk_set r b) = RT_RBB_BLK_UNUSED) \<and>
     (\<forall>b < rbb_blk_max_num r. bk_status (rbb_blk_set r b) \<noteq> RT_RBB_BLK_UNUSED \<longleftrightarrow> b \<in> set bs)"

definition rbb_inv :: "nat \<Rightarrow> nat \<Rightarrow> rt_rbb \<Rightarrow> bool" where
  "rbb_inv lo n r \<longleftrightarrow> rbb_buf r = lo \<and> rbb_buf_size r = n \<and> lo + n < 2 ^ 32 \<and>
     (\<exists>us vs fs. rbb_lists r (us @ vs) fs \<and> runs r us vs)"

definition rbb_live :: "rt_rbb \<Rightarrow> block set" where
  "rbb_live r = (\<lambda>b. (bk_buf (rbb_blk_set r b), bk_size (rbb_blk_set r b))) `
     {b. b < rbb_blk_max_num r \<and> bk_status (rbb_blk_set r b) \<noteq> RT_RBB_BLK_UNUSED}"

lemma rbb_lists_distinct:
  assumes "rbb_lists r bs fs"
  shows "distinct bs" "distinct fs"
  using slist_distinct [of "rbb_next r" Blk_List "map Blk bs"] slist_distinct [of "rbb_next r" Free_List "map Blk fs"] assms
  by (auto simp: rbb_lists_def distinct_map)

lemma rbb_live_blocks:
  assumes "rbb_lists r bs fs"
  shows "rbb_live r = (\<lambda>b. (bk_buf (rbb_blk_set r b), bk_size (rbb_blk_set r b))) ` set bs"
proof -
  have "{b. b < rbb_blk_max_num r \<and> bk_status (rbb_blk_set r b) \<noteq> RT_RBB_BLK_UNUSED} = set bs"
    using assms by (auto simp: rbb_lists_def)
  then show ?thesis by (simp add: rbb_live_def)
qed

lemma runs_member:
  assumes "runs r us vs" "b \<in> set (us @ vs)"
  shows "rbb_buf r \<le> bk_buf (rbb_blk_set r b)" "0 < bk_size (rbb_blk_set r b)"
    "blk_end (rbb_blk_set r) b \<le> rbb_buf r + rbb_buf_size r"
proof -
  have "us \<noteq> [] \<Longrightarrow> bk_buf (rbb_blk_set r (hd us)) \<le> rbb_buf r + rbb_buf_size r"
    using asc_bounds [of "rbb_blk_set r" "rbb_buf r" us _ "hd us"] assms(1) by (fastforce simp: runs_def)
  with assms asc_bounds [of "rbb_blk_set r" "rbb_buf r" us _ b] asc_bounds [of "rbb_blk_set r" "rbb_buf r" vs _ b]
  show "rbb_buf r \<le> bk_buf (rbb_blk_set r b)" "0 < bk_size (rbb_blk_set r b)"
    "blk_end (rbb_blk_set r) b \<le> rbb_buf r + rbb_buf_size r"
    by (fastforce simp: runs_def split: if_splits)+
qed

lemma runs_apart:
  assumes "runs r us vs" "distinct (us @ vs)" "a \<in> set (us @ vs)" "b \<in> set (us @ vs)" "a \<noteq> b"
  shows "blk_end (rbb_blk_set r) a \<le> bk_buf (rbb_blk_set r b) \<or> blk_end (rbb_blk_set r) b \<le> bk_buf (rbb_blk_set r a)"
proof -
  let ?S = "rbb_blk_set r"
  have u: "asc ?S (rbb_buf r) us (rbb_buf r + rbb_buf_size r)"
    and v: "asc ?S (rbb_buf r) vs (if us = [] then rbb_buf r + rbb_buf_size r else bk_buf (?S (hd us)))"
    using assms(1) by (simp_all add: runs_def)
  have cross: "blk_end ?S y \<le> bk_buf (?S x)" if x: "x \<in> set us" and y: "y \<in> set vs" for x y
  proof -
    have "blk_end ?S y \<le> bk_buf (?S (hd us))" using asc_bounds [OF v y] x by (auto split: if_splits)
    moreover have "bk_buf (?S (hd us)) \<le> bk_buf (?S x)"
    proof (cases us)
      case (Cons z zs)
      then show ?thesis using u x asc_bounds [of ?S "blk_end ?S z" zs "rbb_buf r + rbb_buf_size r" x] by auto
    qed (use x in simp)
    ultimately show ?thesis by simp
  qed
  show ?thesis
    using assms(2-5) asc_apart [OF u, of a b] asc_apart [OF v, of a b] cross [of a b] cross [of b a] by auto
qed


section \<open>Operations on the lists\<close>

lemma map_Blk_mem [simp]: "Blk b \<in> set (map Blk bs) \<longleftrightarrow> b \<in> set bs" "Blk_List \<notin> set (map Blk bs)" "Free_List \<notin> set (map Blk bs)"
  by auto

lemma find_empty_spec:
  assumes l: "rbb_lists r bs fs"
  shows "find_empty_blk_in_set r = (case fs of [] \<Rightarrow> Some (None, r)
     | b # fs' \<Rightarrow> Some (Some b, r\<lparr>rbb_next := (rbb_next r)(Free_List := rbb_next r (Blk b))\<rparr>))"
    and "fs = b # fs' \<Longrightarrow> rbb_lists (r\<lparr>rbb_next := (rbb_next r)(Free_List := rbb_next r (Blk b))\<rparr>) bs fs' \<and>
      b \<notin> set bs \<and> b \<notin> set fs' \<and> b < rbb_blk_max_num r"
proof -
  have f: "slist (rbb_next r) Free_List (map Blk fs)" using l by (simp add: rbb_lists_def)
  show "find_empty_blk_in_set r = (case fs of [] \<Rightarrow> Some (None, r)
     | b # fs' \<Rightarrow> Some (Some b, r\<lparr>rbb_next := (rbb_next r)(Free_List := rbb_next r (Blk b))\<rparr>))"
  proof (cases fs)
    case (Cons b fs')
    have "slist_before Free_List (Blk b) (rbb_next r) = Some Free_List"
      using slist_before_spec [of "rbb_next r" Free_List "[]" "Blk b" "map Blk fs'"] f Cons by simp
    moreover have "bk_status (rbb_blk_set r b) = RT_RBB_BLK_UNUSED" using l Cons by (simp add: rbb_lists_def)
    ultimately show ?thesis using f Cons
      by (simp add: find_empty_blk_in_set_def rt_slist_first_def rt_slist_remove_def rbb_entry_def)
  qed (use f in \<open>simp add: find_empty_blk_in_set_def rt_slist_first_def\<close>)
  assume fs: "fs = b # fs'"
  have "slist ((rbb_next r)(Free_List := rbb_next r (Blk b))) Free_List (map Blk fs')"
    using slist_cut(1) [of "rbb_next r" Free_List "[]" "Blk b" "map Blk fs'"] f fs by simp
  moreover have "slist ((rbb_next r)(Free_List := rbb_next r (Blk b))) Blk_List (map Blk bs)"
    using l by (subst slist_frame) (auto simp: rbb_lists_def)
  ultimately show "rbb_lists (r\<lparr>rbb_next := (rbb_next r)(Free_List := rbb_next r (Blk b))\<rparr>) bs fs' \<and>
      b \<notin> set bs \<and> b \<notin> set fs' \<and> b < rbb_blk_max_num r"
    using l fs rbb_lists_distinct(2) [OF l] unfolding rbb_lists_def by auto
qed

text \<open>Taking a descriptor into use puts it at the end of the blocks in use.\<close>

lemma blk_use_lists:
  assumes l: "rbb_lists r bs fs" and b: "b \<notin> set bs" "b \<notin> set fs" "b < rbb_blk_max_num r"
  shows "rbb_lists (blk_use b p n r) (bs @ [b]) fs"
proof -
  let ?h = "(rbb_next r)(rbb_tail r := Some (Blk b), Blk b := None)"
  have t: "rbb_tail r = last (Blk_List # map Blk bs)" and s: "slist (rbb_next r) Blk_List (map Blk bs)"
    and f: "slist (rbb_next r) Free_List (map Blk fs)" using l by (simp_all add: rbb_lists_def)
  have "Blk b \<notin> set (Blk_List # map Blk bs)" using b(1) by auto
  from slist_snoc [OF s this] have h: "slist ?h Blk_List (map Blk (bs @ [b]))" unfolding t by simp
  have "rbb_tail r \<in> set (Blk_List # map Blk bs)" unfolding t by (rule last_in_set) simp
  then have "rbb_tail r \<notin> set (Free_List # map Blk fs)" using l by (auto simp: rbb_lists_def)
  then have "slist ?h Free_List (map Blk fs)"
    using f b(2) slist_frame [of "Blk b" Free_List "map Blk fs" "(rbb_next r)(rbb_tail r := Some (Blk b))" None]
      slist_frame [of "rbb_tail r" Free_List "map Blk fs" "rbb_next r" "Some (Blk b)"] by auto
  with h show ?thesis using l b unfolding rbb_lists_def blk_use_def upd_blk_def list_append_def by (auto simp: Let_def)
qed

lemma blk_use_simps [simp]:
  "rbb_buf (blk_use b p n r) = rbb_buf r" "rbb_buf_size (blk_use b p n r) = rbb_buf_size r"
  "bk_buf (rbb_blk_set (blk_use b p n r) c) = (if c = b then p else bk_buf (rbb_blk_set r c))"
  "bk_size (rbb_blk_set (blk_use b p n r) c) = (if c = b then n else bk_size (rbb_blk_set r c))"
  "rbb_blk_max_num (blk_use b p n r) = rbb_blk_max_num r"
  by (simp_all add: blk_use_def upd_blk_def list_append_def Let_def)

lemma runs_cong:
  assumes "rbb_buf r' = rbb_buf r" "rbb_buf_size r' = rbb_buf_size r"
    and "\<And>b. b \<in> set (us @ vs) \<Longrightarrow> bk_buf (rbb_blk_set r' b) = bk_buf (rbb_blk_set r b) \<and> bk_size (rbb_blk_set r' b) = bk_size (rbb_blk_set r b)"
  shows "runs r' us vs = runs r us vs"
proof -
  have "us \<noteq> [] \<Longrightarrow> bk_buf (rbb_blk_set r' (hd us)) = bk_buf (rbb_blk_set r (hd us))" using assms(3) [of "hd us"] by simp
  moreover have "asc (rbb_blk_set r') lo us hi = asc (rbb_blk_set r) lo us hi" "asc (rbb_blk_set r') lo vs hi = asc (rbb_blk_set r) lo vs hi" for lo hi
    using assms(3) by (auto intro!: asc_cong)
  ultimately show ?thesis using assms(1,2) by (auto simp: runs_def)
qed

lemma use_done:
  assumes l: "rbb_lists r bs fs" and b: "b \<notin> set bs" "b \<notin> set fs" "b < rbb_blk_max_num r"
    and r: "runs (blk_use b p n r) us vs" "us @ vs = bs @ [b]" and k: "rbb_buf r = lo" "rbb_buf_size r = k" "lo + k < 2 ^ 32"
  shows "rbb_inv lo k (blk_use b p n r) \<and> (p, n) \<notin> rbb_live r \<and> rbb_live (blk_use b p n r) = insert (p, n) (rbb_live r)"
proof -
  let ?r = "blk_use b p n r"
  have l': "rbb_lists ?r (us @ vs) fs" using blk_use_lists [OF l b, of p n] r(2) by simp
  have "rbb_live ?r = (\<lambda>c. (bk_buf (rbb_blk_set ?r c), bk_size (rbb_blk_set ?r c))) ` set (bs @ [b])"
    using rbb_live_blocks [OF l'] r(2) by simp
  also have "\<dots> = insert (p, n) (rbb_live r)" using b(1) rbb_live_blocks [OF l] by (auto simp: image_iff)
  finally have live: "rbb_live ?r = insert (p, n) (rbb_live r)" .
  have "(p, n) \<notin> rbb_live r"
  proof
    assume "(p, n) \<in> rbb_live r"
    then obtain c where c: "c \<in> set bs" "bk_buf (rbb_blk_set r c) = p" "bk_size (rbb_blk_set r c) = n"
      using rbb_live_blocks [OF l] by auto
    then have "c \<noteq> b" using b(1) by auto
    moreover have "b \<in> set (us @ vs)" "c \<in> set (us @ vs)" using c(1) unfolding r(2) by auto
    ultimately show False
      using runs_apart [OF r(1) rbb_lists_distinct(1) [OF l'], of b c] runs_member(2) [OF r(1), of b] c by simp
  qed
  with live l' r(1) k show ?thesis unfolding rbb_inv_def by auto
qed

lemma runs_head_tail:
  assumes "runs r us vs" "us \<noteq> []"
  shows "vs = [] \<Longrightarrow> bk_buf (rbb_blk_set r (hd us)) \<le> bk_buf (rbb_blk_set r (last us))"
    "vs \<noteq> [] \<Longrightarrow> blk_end (rbb_blk_set r) (last vs) \<le> bk_buf (rbb_blk_set r (hd us)) \<and>
       bk_buf (rbb_blk_set r (last vs)) < bk_buf (rbb_blk_set r (hd us))"
proof -
  let ?S = "rbb_blk_set r"
  have u: "asc ?S (rbb_buf r) us (rbb_buf r + rbb_buf_size r)" and v: "asc ?S (rbb_buf r) vs (bk_buf (?S (hd us)))"
    using assms by (simp_all add: runs_def)
  show "bk_buf (?S (hd us)) \<le> bk_buf (?S (last us))"
  proof (cases us)
    case (Cons x xs)
    then show ?thesis using u asc_bounds [of ?S "blk_end ?S x" xs "rbb_buf r + rbb_buf_size r" "last xs"] by (cases "xs = []") auto
  qed (use assms in simp)
  show "blk_end ?S (last vs) \<le> bk_buf (?S (hd us)) \<and> bk_buf (?S (last vs)) < bk_buf (?S (hd us))" if "vs \<noteq> []"
    using asc_bounds [OF v, of "last vs"] that by auto
qed

text \<open>An allocation, in terms of the oldest and the newest block in use.\<close>

lemma alloc_eq:
  assumes l: "rbb_lists r bs (b # fs)" and n: "n < 2 ^ 24"
    and r1: "r1 = r\<lparr>rbb_next := (rbb_next r)(Free_List := rbb_next r (Blk b))\<rparr>"
    and S: "S = rbb_blk_set r" and k: "rbb_buf r + rbb_buf_size r < 2 ^ 32"
    and e: "bs \<noteq> [] \<Longrightarrow> rbb_buf r \<le> bk_buf (S (hd bs)) \<and> bk_buf (S (hd bs)) < 2 ^ 32 \<and>
      blk_end S (last bs) \<le> rbb_buf r + rbb_buf_size r"
  shows "rt_rbb_blk_alloc n r =
    (if bs = [] then Some (Some b, blk_use b (rbb_buf r) n r1)
     else if bk_buf (S (hd bs)) \<le> bk_buf (S (last bs))
     then if n \<le> rbb_buf r + rbb_buf_size r - blk_end S (last bs) then Some (Some b, blk_use b (blk_end S (last bs)) n r1)
          else if n \<le> bk_buf (S (hd bs)) - rbb_buf r then Some (Some b, blk_use b (rbb_buf r) n r1)
          else Some (None, r1)
     else if n \<le> sub32 (bk_buf (S (hd bs))) (blk_end S (last bs)) then Some (Some b, blk_use b (blk_end S (last bs)) n r1)
     else Some (None, r1))"
proof -
  have fe: "find_empty_blk_in_set r = Some (Some b, r1)" using find_empty_spec(1) [OF l] by (simp add: r1)
  have l1: "rbb_lists r1 bs fs" using find_empty_spec(2) [OF l refl] by (simp add: r1)
  then have sl: "slist (rbb_next r1) Blk_List (map Blk bs)" and tl: "rbb_tail r1 = last (Blk_List # map Blk bs)"
    by (simp_all add: rbb_lists_def)
  have f: "rbb_buf r1 = rbb_buf r" "rbb_buf_size r1 = rbb_buf_size r" "rbb_blk_set r1 = S" by (simp_all add: r1 S)
  show ?thesis
  proof (cases "bs = []")
    case True
    then show ?thesis using sl fe n f by (simp add: rt_rbb_blk_alloc_def rt_slist_first_def)
  next
    case False
    then have hd: "rt_slist_first Blk_List (rbb_next r1) = Some (Blk (hd bs))" using sl by (cases bs) (simp_all add: rt_slist_first_def)
    have tt: "rbb_tail r1 = Blk (last bs)" using tl False by (simp add: last_map)
    have te: "blk_end S (last bs) \<le> rbb_buf r + rbb_buf_size r" using e False by simp
    have tadd: "add32 (bk_buf (S (last bs))) (bk_size (S (last bs))) = blk_end S (last bs)" using te k by (intro add32_small) simp
    show ?thesis using fe n hd tt tadd f te k e [OF False] False
      by (simp add: rt_rbb_blk_alloc_def rbb_entry_def Let_def add32_small sub32_small)
  qed
qed

text \<open>Where the next block of \<open>n\<close> bytes goes.\<close>

lemma alloc_spec:
  assumes v: "rbb_inv lo k r" and n: "0 < n" "n < 2 ^ 24" "n \<le> k"
  shows "\<exists>x r'. rt_rbb_blk_alloc n r = Some (x, r') \<and> rbb_inv lo k r' \<and>
    (case x of None \<Rightarrow> rbb_live r' = rbb_live r
     | Some b \<Rightarrow> (bk_buf (rbb_blk_set r' b), n) \<notin> rbb_live r \<and> rbb_live r' = insert (bk_buf (rbb_blk_set r' b), n) (rbb_live r))"
proof -
  obtain us vs fs where l: "rbb_lists r (us @ vs) fs" and ru: "runs r us vs" and k: "rbb_buf r = lo" "rbb_buf_size r = k" "lo + k < 2 ^ 32"
    using v by (auto simp: rbb_inv_def)
  show ?thesis
  proof (cases fs)
    case Nil
    with find_empty_spec(1) [OF l] n v show ?thesis by (simp add: rt_rbb_blk_alloc_def)
  next
    case (Cons b fs')
    define r1 where "r1 = r\<lparr>rbb_next := (rbb_next r)(Free_List := rbb_next r (Blk b))\<rparr>"
    have l1: "rbb_lists r1 (us @ vs) fs'" and b: "b \<notin> set (us @ vs)" "b \<notin> set fs'" "b < rbb_blk_max_num r1"
      using find_empty_spec(2) [OF l Cons] by (simp_all add: r1_def)
    have k1: "rbb_buf r1 = lo" "rbb_buf_size r1 = k" "lo + k < 2 ^ 32" and live1: "rbb_live r1 = rbb_live r"
      using k by (simp_all add: r1_def rbb_live_def)
    have ru1: "runs r1 us vs" using ru by (auto simp: r1_def runs_def)
    let ?S = "rbb_blk_set r1"
    have none: ?thesis if "rt_rbb_blk_alloc n r = Some (None, r1)"
      using that l1 ru1 k1 live1 unfolding rbb_inv_def by auto
    have some: ?thesis if "rt_rbb_blk_alloc n r = Some (Some b, blk_use b p n r1)"
      "runs (blk_use b p n r1) us' vs'" "us' @ vs' = (us @ vs) @ [b]" for p us' vs'
      using that(1) use_done [OF l1 b that(2,3) k1] live1 by simp
    have frame: "asc (rbb_blk_set (blk_use b p n r1)) x us y = asc ?S x us y" "asc (rbb_blk_set (blk_use b p n r1)) x vs y = asc ?S x vs y"
      "us \<noteq> [] \<Longrightarrow> bk_buf (rbb_blk_set (blk_use b p n r1) (hd us)) = bk_buf (?S (hd us))" for p x y
      using b(1) by (auto intro!: asc_cong)
    show ?thesis
    proof (cases "us = []")
      case True
      then have e: "us @ vs = []" using ru1 by (simp add: runs_def)
      then have "rt_rbb_blk_alloc n r = Some (Some b, blk_use b lo n r1)"
        using alloc_eq [OF l [unfolded Cons] n(2) r1_def refl] k by simp
      moreover have "runs (blk_use b lo n r1) [b] []" using n k1 by (simp add: runs_def)
      ultimately show ?thesis using e by (intro some [of lo "[b]" "[]"]) auto
    next
      case False
      then obtain u us1 where u: "us = u # us1" by (cases us) auto
      have hb: "hd us \<noteq> b" using u b(1) by auto
      have ua: "asc ?S lo us (lo + k)" and va: "asc ?S lo vs (bk_buf (?S (hd us)))"
        using ru1 False k1 by (simp_all add: runs_def)
      have hu: "lo \<le> bk_buf (?S (hd us))" "bk_buf (?S (hd us)) < 2 ^ 32"
        using asc_bounds [OF ua, of "hd us"] False k1 by auto
      define tail where "tail = last (us @ vs)"
      have te: "blk_end ?S tail \<le> lo + k" using runs_member(3) [OF ru1 last_in_set [of "us @ vs"]] False k1 by (simp add: tail_def)
      have alloc: "rt_rbb_blk_alloc n r =
         (if bk_buf (?S (hd us)) \<le> bk_buf (?S tail)
          then if n \<le> lo + k - blk_end ?S tail then Some (Some b, blk_use b (blk_end ?S tail) n r1)
               else if n \<le> bk_buf (?S (hd us)) - lo then Some (Some b, blk_use b lo n r1)
               else Some (None, r1)
          else if n \<le> sub32 (bk_buf (?S (hd us))) (blk_end ?S tail) then Some (Some b, blk_use b (blk_end ?S tail) n r1)
          else Some (None, r1))"
        using alloc_eq [OF l [unfolded Cons] n(2) r1_def refl] k te hu False by (simp add: tail_def r1_def)
      show ?thesis
      proof (cases "vs = []")
        case True
        have le: "bk_buf (?S (hd us)) \<le> bk_buf (?S tail)" using runs_head_tail(1) [OF ru1 False True] True by (simp add: tail_def)
        show ?thesis
        proof (cases "n \<le> lo + k - blk_end ?S tail")
          case fits: True
          have "asc (rbb_blk_set (blk_use b (blk_end ?S tail) n r1)) lo (us @ [b]) (lo + k)"
          proof (rule asc_snoc)
            show "asc (rbb_blk_set (blk_use b (blk_end ?S tail) n r1)) lo us (lo + k)" using ua by (simp add: frame)
          qed (use fits n te asc_bounds [OF ua, of "last us"] b False True in \<open>auto simp: tail_def\<close>)
          then have "runs (blk_use b (blk_end ?S tail) n r1) (us @ [b]) []"
            using k1 hu(1) False frame(3) by (simp add: runs_def del: blk_use_simps(3,4))
          with le fits show ?thesis using True by (intro some [of "blk_end ?S tail" "us @ [b]" "[]"]) (auto simp: alloc)
        next
          case nofit: False
          show ?thesis
          proof (cases "n \<le> bk_buf (?S (hd us)) - lo")
            case fits: True
            have "runs (blk_use b lo n r1) us [b]" using ua k1 False fits n hu hb by (simp add: runs_def frame)
            with le nofit fits show ?thesis using True by (intro some [of lo us "[b]"]) (auto simp: alloc)
          qed (use le nofit none alloc in simp)
        qed
      next
        case vs: False
        have gt: "bk_buf (?S tail) < bk_buf (?S (hd us))" "blk_end ?S tail \<le> bk_buf (?S (hd us))"
          using runs_head_tail(2) [OF ru1 False vs] vs by (simp_all add: tail_def)
        have sb: "sub32 (bk_buf (?S (hd us))) (blk_end ?S tail) = bk_buf (?S (hd us)) - blk_end ?S tail"
          using gt hu by (intro sub32_small) simp_all
        show ?thesis
        proof (cases "n \<le> bk_buf (?S (hd us)) - blk_end ?S tail")
          case fits: True
          have "asc (rbb_blk_set (blk_use b (blk_end ?S tail) n r1)) lo (vs @ [b]) (bk_buf (?S (hd us)))"
          proof (rule asc_snoc)
            show "asc (rbb_blk_set (blk_use b (blk_end ?S tail) n r1)) lo vs (bk_buf (?S (hd us)))" using va by (simp add: frame)
          qed (use fits n gt asc_bounds [OF va, of "last vs"] b vs in \<open>auto simp: tail_def\<close>)
          then have "runs (blk_use b (blk_end ?S tail) n r1) us (vs @ [b])"
            using ua k1 False hb by (simp add: runs_def frame)
          with gt fits sb show ?thesis by (intro some [of "blk_end ?S tail" us "vs @ [b]"]) (auto simp: alloc)
        qed (use gt none alloc sb in simp)
      qed
    qed
  qed
qed


lemma runs_remove:
  assumes r: "runs r us vs"
  shows "\<exists>us' vs'. us' @ vs' = remove1 b (us @ vs) \<and> runs r us' vs'"
proof (cases "b \<in> set us")
  case False
  then have "us @ remove1 b vs = remove1 b (us @ vs)" by (simp add: remove1_append)
  moreover have "runs r us (remove1 b vs)" using r unfolding runs_def by (auto intro: asc_remove1)
  ultimately show ?thesis by blast
next
  case True
  let ?S = "rbb_blk_set r"
  have u: "asc ?S (rbb_buf r) us (rbb_buf r + rbb_buf_size r)" and v: "asc ?S (rbb_buf r) vs (bk_buf (?S (hd us)))"
    using r True by (cases us; simp add: runs_def)+
  have e: "remove1 b (us @ vs) = remove1 b us @ vs" using True by (simp add: remove1_append)
  show ?thesis
  proof (cases "remove1 b us = []")
    case True
    have "bk_buf (?S (hd us)) \<le> rbb_buf r + rbb_buf_size r" using asc_bounds [OF u, of "hd us"] \<open>b \<in> set us\<close> by (cases us) auto
    then have "asc ?S (rbb_buf r) vs (rbb_buf r + rbb_buf_size r)" using v by (auto intro: asc_mono)
    then have "runs r vs []" using asc_le by (cases vs) (fastforce simp: runs_def)+
    with e True show ?thesis by (intro exI [of _ vs] exI [of _ "[]"]) simp
  next
    case False
    have "bk_buf (?S (hd us)) \<le> bk_buf (?S (hd (remove1 b us)))"
    proof (cases us)
      case (Cons x xs)
      then show ?thesis using u False asc_bounds [of ?S "blk_end ?S x" xs "rbb_buf r + rbb_buf_size r" "hd xs"] by (cases "x = b") auto
    qed (use False in simp)
    then have "runs r (remove1 b us) vs" using u v False asc_remove1 [OF u] by (auto simp: runs_def intro: asc_mono)
    with e show ?thesis by (intro exI [of _ "remove1 b us"] exI [of _ vs]) simp
  qed
qed

lemma free_lists:
  assumes l: "rbb_lists r bs fs" and b: "b \<in> set bs"
  shows "\<exists>r'. rt_rbb_blk_free b r = Some r' \<and> rbb_lists r' (remove1 b bs) (b # fs) \<and>
    rbb_buf r' = rbb_buf r \<and> rbb_buf_size r' = rbb_buf_size r \<and> rbb_blk_max_num r' = rbb_blk_max_num r \<and>
    (\<forall>c. bk_buf (rbb_blk_set r' c) = bk_buf (rbb_blk_set r c) \<and> bk_size (rbb_blk_set r' c) = bk_size (rbb_blk_set r c)) \<and>
    (\<forall>c. c \<noteq> b \<longrightarrow> bk_status (rbb_blk_set r' c) = bk_status (rbb_blk_set r c))"
proof -
  have d: "distinct bs" "distinct fs" using rbb_lists_distinct [OF l] by simp_all
  obtain xs ys where x: "bs = xs @ b # ys" using b by (meson split_list)
  then have rm: "remove1 b bs = xs @ ys" using d(1) by (simp add: remove1_append)
  define p where "p = last (Blk_List # map Blk xs)"
  define h where "h = rbb_next r"
  have s: "slist h Blk_List (map Blk xs @ Blk b # map Blk ys)" and f: "slist h Free_List (map Blk fs)"
    and bf: "b \<notin> set fs" and tl: "rbb_tail r = last (Blk_List # map Blk bs)" using l b x by (auto simp: rbb_lists_def h_def)
  have cut: "slist (h(p := h (Blk b))) Blk_List (map Blk (xs @ ys))" "h p = Some (Blk b)"
    using slist_cut [OF s] by (simp_all add: p_def)
  have "p \<in> set (Blk_List # map Blk xs)" unfolding p_def by (rule last_in_set) simp
  then have p: "p \<noteq> Free_List" "p \<noteq> Blk b" "p \<notin> set (Free_List # map Blk fs)"
    using d x l by (auto simp: rbb_lists_def)
  define h2 where "h2 = h(p := h (Blk b), Blk b := None)"
  have "slist h2 Blk_List (map Blk (xs @ ys))"
    unfolding h2_def using cut(1) d x by (subst slist_frame) auto
  moreover have f2: "slist h2 Free_List (map Blk fs)"
    unfolding h2_def using f p(3) bf slist_frame [of "Blk b" Free_List "map Blk fs" "h(p := h (Blk b))" None]
      slist_frame [of p Free_List "map Blk fs" h "h (Blk b)"] by auto
  ultimately have "slist (rt_slist_insert Free_List (Blk b) h2) Blk_List (map Blk (xs @ ys))"
    unfolding rt_slist_insert_def Let_def using d x by (subst slist_frame, force, subst slist_frame) auto
  moreover have "slist (rt_slist_insert Free_List (Blk b) h2) Free_List (map Blk (b # fs))"
    using slist_push [OF f2, of "Blk b"] bf by (auto simp: rt_slist_insert_def)
  moreover have "rbb_list_remove (Blk b) r = Some (r\<lparr>rbb_next := h2, rbb_tail := if rbb_tail r = Blk b then p else rbb_tail r\<rparr>)"
  proof -
    have sb: "slist_before Blk_List (Blk b) h = Some p" using slist_before_spec [OF s] by (simp only: p_def)
    show ?thesis using cut(2) by (simp add: rbb_list_remove_def h_def [symmetric] sb h2_def Let_def)
  qed
  moreover have "(if rbb_tail r = Blk b then p else rbb_tail r) = last (Blk_List # map Blk (xs @ ys))"
    using tl d(1) unfolding x p_def by (cases "ys = []") (auto simp: last_map)
  moreover have "bk_status (rbb_blk_set r b) \<noteq> RT_RBB_BLK_UNUSED" "b < rbb_blk_max_num r" using l b by (auto simp: rbb_lists_def)
  ultimately show ?thesis
    using l d bf unfolding rt_rbb_blk_free_def rbb_lists_def rm
    by (auto simp: upd_blk_def Let_def x)
qed

lemma free_spec:
  assumes v: "rbb_inv lo k r" and b: "b < rbb_blk_max_num r" "bk_status (rbb_blk_set r b) \<noteq> RT_RBB_BLK_UNUSED"
  shows "\<exists>r'. rt_rbb_blk_free b r = Some r' \<and> rbb_inv lo k r' \<and>
    rbb_live r' = rbb_live r - {(bk_buf (rbb_blk_set r b), bk_size (rbb_blk_set r b))}"
proof -
  obtain us vs fs where l: "rbb_lists r (us @ vs) fs" and ru: "runs r us vs" and k: "rbb_buf r = lo" "rbb_buf_size r = k" "lo + k < 2 ^ 32"
    using v by (auto simp: rbb_inv_def)
  have m: "b \<in> set (us @ vs)" using l b by (simp add: rbb_lists_def)
  obtain r' where r': "rt_rbb_blk_free b r = Some r'" "rbb_lists r' (remove1 b (us @ vs)) (b # fs)"
    "rbb_buf r' = rbb_buf r" "rbb_buf_size r' = rbb_buf_size r" "rbb_blk_max_num r' = rbb_blk_max_num r"
    "\<And>c. bk_buf (rbb_blk_set r' c) = bk_buf (rbb_blk_set r c)" "\<And>c. bk_size (rbb_blk_set r' c) = bk_size (rbb_blk_set r c)"
    using free_lists [OF l m] by blast
  obtain us' vs' where n: "us' @ vs' = remove1 b (us @ vs)" "runs r us' vs'" using runs_remove [OF ru] by blast
  have "runs r' us' vs'" using n(2) r'(3,4,6,7) by (subst runs_cong [of r' r]) auto
  then have inv: "rbb_inv lo k r'" using r'(2) k n(1) unfolding rbb_inv_def r'(3,4) by metis
  have d: "distinct (us @ vs)" by (rule rbb_lists_distinct(1) [OF l])
  have "rbb_live r' = (\<lambda>c. (bk_buf (rbb_blk_set r c), bk_size (rbb_blk_set r c))) ` (set (us @ vs) - {b})"
    unfolding rbb_live_blocks [OF r'(2)] using r'(6,7) set_remove1_eq [OF d, of b] by simp
  also have "\<dots> = rbb_live r - {(bk_buf (rbb_blk_set r b), bk_size (rbb_blk_set r b))}"
  proof -
    have "bk_buf (rbb_blk_set r c) \<noteq> bk_buf (rbb_blk_set r b)" if "c \<in> set (us @ vs)" "c \<noteq> b" for c
      using runs_apart [OF ru d that(1) m that(2)] runs_member(2) [OF ru m] runs_member(2) [OF ru that(1)] by linarith
    with m show ?thesis unfolding rbb_live_blocks [OF l] by (auto simp: image_iff)
  qed
  finally show ?thesis using r'(1) inv by blast
qed

section \<open>The allocator\<close>

text \<open>The calls as a client sees them that knows a block by its address.\<close>

definition rbb_alloc :: "nat \<Rightarrow> rt_rbb \<Rightarrow> (nat option \<times> rt_rbb) option" where
  "rbb_alloc n r = map_option (\<lambda>(x, r). (map_option (\<lambda>b. rt_rbb_blk_buf b r) x, r)) (rt_rbb_blk_alloc n r)"

definition rbb_dealloc :: "nat \<Rightarrow> rt_rbb \<Rightarrow> rt_rbb option" where
  "rbb_dealloc p r =
     (case filter (\<lambda>b. bk_status (rbb_blk_set r b) \<noteq> RT_RBB_BLK_UNUSED \<and> rt_rbb_blk_buf b r = p) [0..<rbb_blk_max_num r] of
        [] \<Rightarrow> None
      | b # _ \<Rightarrow> rt_rbb_blk_free b r)"

lemma rbb_live_apart:
  assumes "rbb_inv lo k r"
  shows "all_apart (rbb_live r)" "(p, n) \<in> rbb_live r \<Longrightarrow> 0 < n \<and> lo \<le> p \<and> p + n \<le> lo + k"
proof -
  obtain us vs fs where l: "rbb_lists r (us @ vs) fs" and ru: "runs r us vs" and k: "rbb_buf r = lo" "rbb_buf_size r = k"
    using assms by (auto simp: rbb_inv_def)
  show "all_apart (rbb_live r)"
    unfolding all_apart_def rbb_live_blocks [OF l]
  proof (intro ballI impI)
    fix x y
    assume "x \<in> (\<lambda>b. (bk_buf (rbb_blk_set r b), bk_size (rbb_blk_set r b))) ` set (us @ vs)"
      "y \<in> (\<lambda>b. (bk_buf (rbb_blk_set r b), bk_size (rbb_blk_set r b))) ` set (us @ vs)" "x \<noteq> y"
    then obtain a b where "a \<in> set (us @ vs)" "b \<in> set (us @ vs)" "a \<noteq> b" "x = (bk_buf (rbb_blk_set r a), bk_size (rbb_blk_set r a))"
      "y = (bk_buf (rbb_blk_set r b), bk_size (rbb_blk_set r b))" by blast
    with runs_apart [OF ru rbb_lists_distinct(1) [OF l], of a b] show "apart x y" by (simp add: apart_def)
  qed
  show "0 < n \<and> lo \<le> p \<and> p + n \<le> lo + k" if "(p, n) \<in> rbb_live r"
    using that runs_member [OF ru] k unfolding rbb_live_blocks [OF l] by auto
qed

interpretation rbb: allocator "\<lambda>n. 0 < n \<and> n < 2 ^ 24 \<and> n \<le> k" "rbb_inv lo k" rbb_live rbb_alloc rbb_dealloc
proof
  fix r assume v: "rbb_inv lo k r"
  show "all_apart (rbb_live r)" by (rule rbb_live_apart(1) [OF v])
  show "0 < n" if "(p, n) \<in> rbb_live r" for p n using rbb_live_apart(2) [OF v that] by simp
  show "\<exists>x r'. rbb_alloc n r = Some (x, r') \<and> rbb_inv lo k r' \<and>
      (case x of None \<Rightarrow> rbb_live r' = rbb_live r
       | Some p \<Rightarrow> \<exists>m. n \<le> m \<and> (p, m) \<notin> rbb_live r \<and> rbb_live r' = insert (p, m) (rbb_live r))"
    if n: "0 < n \<and> n < 2 ^ 24 \<and> n \<le> k" for n
  proof -
    obtain x r' where x: "rt_rbb_blk_alloc n r = Some (x, r')" "rbb_inv lo k r'" and y: "case x of None \<Rightarrow> rbb_live r' = rbb_live r
      | Some b \<Rightarrow> (bk_buf (rbb_blk_set r' b), n) \<notin> rbb_live r \<and> rbb_live r' = insert (bk_buf (rbb_blk_set r' b), n) (rbb_live r)"
      using alloc_spec [OF v, of n] n by blast
    from x have "rbb_alloc n r = Some (map_option (\<lambda>b. rt_rbb_blk_buf b r') x, r')" by (simp add: rbb_alloc_def)
    with x(2) y show ?thesis by (cases x) (auto simp: rt_rbb_blk_buf_def)
  qed
  show "\<exists>r'. rbb_dealloc p r = Some r' \<and> rbb_inv lo k r' \<and> rbb_live r' = rbb_live r - {(p, n)}" if m: "(p, n) \<in> rbb_live r" for p n
  proof -
    let ?P = "\<lambda>b. bk_status (rbb_blk_set r b) \<noteq> RT_RBB_BLK_UNUSED \<and> rt_rbb_blk_buf b r = p"
    have "filter ?P [0..<rbb_blk_max_num r] \<noteq> []" using m by (auto simp: rbb_live_def filter_empty_conv rt_rbb_blk_buf_def)
    then obtain b bs where f: "filter ?P [0..<rbb_blk_max_num r] = b # bs" by (cases "filter ?P [0..<rbb_blk_max_num r]") auto
    then have "b \<in> set (filter ?P [0..<rbb_blk_max_num r])" by simp
    then have b: "b < rbb_blk_max_num r" "bk_status (rbb_blk_set r b) \<noteq> RT_RBB_BLK_UNUSED" "bk_buf (rbb_blk_set r b) = p"
      by (auto simp: rt_rbb_blk_buf_def)
    then have "(p, bk_size (rbb_blk_set r b)) \<in> rbb_live r" by (auto simp: rbb_live_def image_iff)
    moreover have "apart (p, bk_size (rbb_blk_set r b)) (p, n) \<Longrightarrow> False"
      using rbb_live_apart(2) [OF v calculation] rbb_live_apart(2) [OF v m] by (simp add: apart_def)
    ultimately have "bk_size (rbb_blk_set r b) = n" using rbb_live_apart(1) [OF v] m unfolding all_apart_def by blast
    with free_spec [OF v b(1,2)] b(3) f show ?thesis by (simp add: rbb_dealloc_def)
  qed
qed


section \<open>Initialisation\<close>

lemma rbb_init_loop_spec:
  assumes "j + i = n" "rbb_blk_max_num r = n" "rbb_tail r = Blk_List" "rbb_next r Blk_List = None"
    and "slist (rbb_next r) Free_List (map Blk (rev [0..<i]))" "\<forall>b < i. bk_status (rbb_blk_set r b) = RT_RBB_BLK_UNUSED"
  shows "rbb_lists (rbb_init_loop i n r) [] (rev [0..<n]) \<and> rbb_buf (rbb_init_loop i n r) = rbb_buf r \<and>
    rbb_buf_size (rbb_init_loop i n r) = rbb_buf_size r \<and> rbb_blk_max_num (rbb_init_loop i n r) = n"
  using assms
proof (induction j arbitrary: i r)
  case 0
  then show ?case by (subst rbb_init_loop.simps)+ (auto simp: rbb_lists_def)
next
  case (Suc j)
  define h where "h = (rbb_next r)(Blk i := None)"
  define r' where "r' = (upd_blk i (\<lambda>b. b\<lparr>bk_status := RT_RBB_BLK_UNUSED\<rparr>) r)\<lparr>rbb_next := rt_slist_insert Free_List (Blk i) h\<rparr>"
  have e: "rbb_init_loop i n r = rbb_init_loop (i + 1) n r'"
    using Suc.prems(1) by (subst rbb_init_loop.simps) (simp add: r'_def h_def rt_slist_init_def upd_blk_def Let_def)
  have f: "slist h Free_List (map Blk (rev [0..<i]))" unfolding h_def using Suc.prems(5) by (subst slist_frame) auto
  have "Blk i \<notin> set (Free_List # map Blk (rev [0..<i]))" by auto
  from slist_push [OF f this] have "slist (rbb_next r') Free_List (map Blk (rev [0..<Suc i]))"
    by (simp add: r'_def rt_slist_insert_def upd_blk_def)
  moreover have "rbb_next r' Blk_List = None" using Suc.prems(4) by (simp add: r'_def h_def rt_slist_insert_def Let_def)
  moreover have "rbb_blk_max_num r' = n" "rbb_tail r' = Blk_List" "rbb_buf r' = rbb_buf r" "rbb_buf_size r' = rbb_buf_size r"
    "\<forall>b < Suc i. bk_status (rbb_blk_set r' b) = RT_RBB_BLK_UNUSED"
    using Suc.prems by (auto simp: r'_def upd_blk_def less_Suc_eq)
  ultimately show ?case using Suc.IH [of "Suc i" r'] Suc.prems(1) unfolding e by simp
qed

lemma rbb_init_inv:
  assumes "buf + k < 2 ^ 32" "buf \<noteq> 0" "block_set \<noteq> 0"
  shows "\<exists>r'. rt_rbb_init buf k block_set n r = Some r' \<and> rbb_inv buf k r' \<and> rbb_live r' = {}"
proof -
  define r0 where "r0 = r\<lparr>rbb_buf := buf, rbb_buf_size := k, rbb_blk_max_num := n, rbb_tail := Blk_List,
    rbb_next := rt_slist_init Free_List (rt_slist_init Blk_List (rbb_next r))\<rparr>"
  let ?r = "rbb_init_loop 0 n r0"
  have i: "rt_rbb_init buf k block_set n r = Some ?r" using assms(2,3) by (simp add: rt_rbb_init_def r0_def)
  have "rbb_lists ?r [] (rev [0..<n]) \<and> rbb_buf ?r = buf \<and> rbb_buf_size ?r = k"
    using rbb_init_loop_spec [of n 0 n] by (simp add: rt_slist_init_def r0_def)
  then have l: "rbb_lists ?r ([] @ []) (rev [0..<n])" "rbb_buf ?r = buf" "rbb_buf_size ?r = k" by simp_all
  moreover have "runs ?r [] []" using l by (simp add: runs_def)
  ultimately have "rbb_inv buf k ?r" using assms(1) unfolding rbb_inv_def by blast
  moreover have "rbb_live ?r = {}" using rbb_live_blocks [OF l(1)] by simp
  ultimately show ?thesis using i by blast
qed

section \<open>Order\<close>

text \<open>The next block to read: of those put, the one allocated first.\<close>

lemma get_loop_spec:
  "slist (rbb_next r) n (map Blk bs) \<Longrightarrow> rbb_get_loop (rbb_next r n) r =
     Some (case filter (\<lambda>b. bk_status (rbb_blk_set r b) = RT_RBB_BLK_PUT) bs of
       [] \<Rightarrow> (None, r)
     | b # _ \<Rightarrow> (Some b, upd_blk b (\<lambda>x. x\<lparr>bk_status := RT_RBB_BLK_GET\<rparr>) r))"
proof (induction bs arbitrary: n)
  case Nil
  then show ?case by (subst rbb_get_loop.simps) simp
next
  case (Cons b bs)
  from Cons.IH [of "Blk b"] Cons.prems show ?case
    by (subst rbb_get_loop.simps) (simp add: rbb_entry_def rt_slist_next_def)
qed

lemma blk_get_spec:
  assumes "rbb_lists r bs fs"
  shows "rt_rbb_blk_get r = Some (case filter (\<lambda>b. bk_status (rbb_blk_set r b) = RT_RBB_BLK_PUT) bs of
       [] \<Rightarrow> (None, r)
     | b # _ \<Rightarrow> (Some b, upd_blk b (\<lambda>x. x\<lparr>bk_status := RT_RBB_BLK_GET\<rparr>) r))"
proof -
  have s: "slist (rbb_next r) Blk_List (map Blk bs)" using assms by (simp add: rbb_lists_def)
  show ?thesis
  proof (cases bs)
    case Nil
    with s show ?thesis by (simp add: rt_rbb_blk_get_def rt_slist_isempty_def)
  next
    case (Cons b bs')
    with s have "\<not> rt_slist_isempty Blk_List (rbb_next r)" by (simp add: rt_slist_isempty_def)
    with get_loop_spec [OF s] show ?thesis by (simp add: rt_rbb_blk_get_def rt_slist_first_def)
  qed
qed

text \<open>
  The queue of blocks that \<open>rt_rbb_blk_queue_get\<close> means to collect: from the first block put, as long as blocks
  are put, at rising addresses, and within the length.
\<close>

fun queue_run :: "(nat \<Rightarrow> rt_rbb_blk) \<Rightarrow> nat \<Rightarrow> nat \<Rightarrow> nat \<Rightarrow> nat list \<Rightarrow> nat list" where
  "queue_run S len l t [] = []"
| "queue_run S len l t (b # bs) =
     (if bk_status (S b) = RT_RBB_BLK_PUT \<and> bk_buf (S l) \<le> bk_buf (S b) \<and> t + bk_size (S b) \<le> len
      then b # queue_run S len b (t + bk_size (S b)) bs else [])"

definition mark_get :: "nat list \<Rightarrow> rt_rbb \<Rightarrow> rt_rbb" where
  "mark_get bs r = fold (\<lambda>b. upd_blk b (\<lambda>x. x\<lparr>bk_status := RT_RBB_BLK_GET\<rparr>)) bs r"

definition sizes :: "(nat \<Rightarrow> rt_rbb_blk) \<Rightarrow> nat list \<Rightarrow> nat" where
  "sizes S bs = sum_list (map (\<lambda>b. bk_size (S b)) bs)"

lemma upd_blk_other [simp]:
  "c \<noteq> b \<Longrightarrow> rbb_blk_set (upd_blk b f r) c = rbb_blk_set r c" "rbb_next (upd_blk b f r) = rbb_next r"
  "bk_buf (rbb_blk_set (upd_blk b (\<lambda>x. x\<lparr>bk_status := st\<rparr>) r) c) = bk_buf (rbb_blk_set r c)"
  "bk_size (rbb_blk_set (upd_blk b (\<lambda>x. x\<lparr>bk_status := st\<rparr>) r) c) = bk_size (rbb_blk_set r c)"
  by (simp_all add: upd_blk_def)

lemma queue_run_cong:
  "(\<And>b. b \<in> set bs \<Longrightarrow> S' b = S b) \<Longrightarrow> bk_buf (S' l) = bk_buf (S l) \<Longrightarrow> queue_run S' len l t bs = queue_run S len l t bs"
  by (induction bs arbitrary: l t) auto

lemma sizes_cong: "(\<And>b. b \<in> set bs \<Longrightarrow> bk_size (S' b) = bk_size (S b)) \<Longrightarrow> sizes S' bs = sizes S bs"
  unfolding sizes_def by (intro arg_cong [where f = sum_list]) simp

lemma queue_get_loop_spec:
  assumes "slist (rbb_next r) (Blk l) (map Blk bs)" "distinct (l # bs)" "t + sizes (rbb_blk_set r) bs < 2 ^ 32" "bs \<noteq> []"
  shows "queue_get_loop len (rbb_next r (Blk l)) (rbb_next r (Blk (hd bs))) (Some l) t q r =
    (let run = queue_run (rbb_blk_set r) len l t bs in
     if run = bs then None
     else Some (t + sizes (rbb_blk_set r) run, q\<lparr>bq_blk_num := bq_blk_num q + length run\<rparr>, mark_get run r))"
  using assms
proof (induction bs arbitrary: l t q r)
  case (Cons b bs)
  let ?S = "rbb_blk_set r"
  let ?r = "upd_blk b (\<lambda>x. x\<lparr>bk_status := RT_RBB_BLK_GET\<rparr>) r"
  have s: "slist (rbb_next r) (Blk b) (map Blk bs)" "rbb_next r (Blk l) = Some (Blk b)" using Cons.prems(1) by simp_all
  have a: "add32 t (bk_size (?S b)) = t + bk_size (?S b)" using Cons.prems(3) by (intro add32_small) (simp add: sizes_def)
  show ?case
  proof (cases "bk_status (?S b) = RT_RBB_BLK_PUT \<and> bk_buf (?S l) \<le> bk_buf (?S b) \<and> t + bk_size (?S b) \<le> len")
    case False
    then show ?thesis using s a
      by (subst queue_get_loop.simps) (auto simp: rbb_entry_def sizes_def mark_get_def Let_def not_le)
  next
    case True
    have step: "queue_get_loop len (rbb_next r (Blk l)) (rbb_next r (Blk b)) (Some l) t q r =
        (case rbb_next r (Blk b) of None \<Rightarrow> None
         | Some n' \<Rightarrow> queue_get_loop len (rbb_next r (Blk b)) (rt_slist_next n' (rbb_next r)) (Some b) (t + bk_size (?S b))
             (q\<lparr>bq_blk_num := bq_blk_num q + 1\<rparr>) ?r)"
      using True s a by (subst queue_get_loop.simps) (auto simp: rbb_entry_def Let_def not_le split: option.split)
    show ?thesis
    proof (cases bs)
      case Nil
      then have "rbb_next r (Blk b) = None" using s(1) by simp
      with step True Nil show ?thesis by (simp add: Let_def)
    next
      case (Cons c cs)
      have d: "distinct (b # bs)" "b \<notin> set bs" using Cons.prems(2) by simp_all
      have sz: "sizes (rbb_blk_set ?r) bs = sizes ?S bs" by (rule sizes_cong) simp
      have run: "queue_run (rbb_blk_set ?r) len b (t + bk_size (?S b)) bs = queue_run ?S len b (t + bk_size (?S b)) bs"
        by (rule queue_run_cong) (use d(2) upd_blk_other(1) in metis, simp)
      have "slist (rbb_next ?r) (Blk b) (map Blk bs)" using s(1) by simp
      moreover have "t + bk_size (?S b) + sizes (rbb_blk_set ?r) bs < 2 ^ 32" unfolding sz using Cons.prems(3) by (simp add: sizes_def)
      ultimately have ih: "queue_get_loop len (rbb_next ?r (Blk b)) (rbb_next ?r (Blk (hd bs))) (Some b) (t + bk_size (?S b)) (q\<lparr>bq_blk_num := bq_blk_num q + 1\<rparr>) ?r =
          (let run = queue_run (rbb_blk_set ?r) len b (t + bk_size (?S b)) bs in
           if run = bs then None
           else Some (t + bk_size (?S b) + sizes (rbb_blk_set ?r) run,
             q\<lparr>bq_blk_num := bq_blk_num q + 1\<rparr>\<lparr>bq_blk_num := bq_blk_num (q\<lparr>bq_blk_num := bq_blk_num q + 1\<rparr>) + length run\<rparr>, mark_get run ?r))"
        using Cons.IH [of ?r b "t + bk_size (?S b)" "q\<lparr>bq_blk_num := bq_blk_num q + 1\<rparr>"] d(1) \<open>bs = c # cs\<close> by blast
      have "sizes (rbb_blk_set ?r) xs = sizes ?S xs" for xs by (rule sizes_cong) simp
      with ih step s \<open>bs = c # cs\<close> True run show ?thesis
        by (simp add: Let_def rt_slist_next_def sizes_def mark_get_def)
    qed
  qed
qed simp


text \<open>The blocks before the first one put are passed over.\<close>

lemma queue_skip_spec:
  assumes "slist (rbb_next r) n (map Blk bs)" "distinct bs" "sizes (rbb_blk_set r) bs < 2 ^ 32" "bs \<noteq> []"
  shows "queue_get_loop len (rbb_next r n) (rbb_next r (Blk (hd bs))) None 0 q r =
    (case dropWhile (\<lambda>b. bk_status (rbb_blk_set r b) \<noteq> RT_RBB_BLK_PUT) bs of
       [] \<Rightarrow> None
     | p # ps \<Rightarrow>
         (let run = queue_run (rbb_blk_set r) len p (bk_size (rbb_blk_set r p)) ps in
          if run = ps then None
          else Some (sizes (rbb_blk_set r) (p # run), q\<lparr>bq_blocks := Some p, bq_blk_num := Suc (length run)\<rparr>, mark_get (p # run) r)))"
  using assms
proof (induction bs arbitrary: n)
  case (Cons b bs)
  let ?S = "rbb_blk_set r"
  have s: "rbb_next r n = Some (Blk b)" "slist (rbb_next r) (Blk b) (map Blk bs)" using Cons.prems(1) by simp_all
  have nx: "rbb_next r (Blk b) = (case bs of [] \<Rightarrow> None | c # _ \<Rightarrow> Some (Blk c))" using s(2) by (cases bs) auto
  show ?case
  proof (cases "bk_status (?S b) = RT_RBB_BLK_PUT")
    case False
    then have "queue_get_loop len (rbb_next r n) (rbb_next r (Blk b)) None 0 q r =
        (case rbb_next r (Blk b) of None \<Rightarrow> None
         | Some n' \<Rightarrow> queue_get_loop len (rbb_next r (Blk b)) (rt_slist_next n' (rbb_next r)) None 0 q r)"
      using s by (subst queue_get_loop.simps) (auto simp: rbb_entry_def Let_def split: option.split)
    moreover have "sizes ?S bs < 2 ^ 32" using Cons.prems(3) by (simp add: sizes_def)
    ultimately show ?thesis
      using Cons.IH [OF s(2)] Cons.prems(2) False nx by (cases bs) (auto simp: rt_slist_next_def)
  next
    case True
    let ?r = "upd_blk b (\<lambda>x. x\<lparr>bk_status := RT_RBB_BLK_GET\<rparr>) r"
    have a: "add32 0 (bk_size (?S b)) = bk_size (?S b)" using Cons.prems(3) by (simp add: sizes_def add32_small)
    have step: "queue_get_loop len (rbb_next r n) (rbb_next r (Blk b)) None 0 q r =
        (case rbb_next r (Blk b) of None \<Rightarrow> None
         | Some n' \<Rightarrow> queue_get_loop len (rbb_next r (Blk b)) (rt_slist_next n' (rbb_next r)) (Some b) (bk_size (?S b))
             (q\<lparr>bq_blocks := Some b, bq_blk_num := 1\<rparr>) ?r)"
      using True s a by (subst queue_get_loop.simps) (auto simp: rbb_entry_def Let_def split: option.split)
    show ?thesis
    proof (cases bs)
      case Nil
      with step nx True show ?thesis by (simp add: Let_def)
    next
      case cons: (Cons c cs)
      have sz: "sizes (rbb_blk_set ?r) xs = sizes ?S xs" for xs by (rule sizes_cong) simp
      have run: "queue_run (rbb_blk_set ?r) len b (bk_size (?S b)) bs = queue_run ?S len b (bk_size (?S b)) bs"
        by (rule queue_run_cong) (use Cons.prems(2) upd_blk_other(1) in \<open>metis distinct.simps(2)\<close>, simp)
      have "bk_size (?S b) + sizes (rbb_blk_set ?r) bs < 2 ^ 32" using Cons.prems(3) unfolding sz by (simp add: sizes_def)
      from queue_get_loop_spec [of ?r b bs "bk_size (?S b)" len "q\<lparr>bq_blocks := Some b, bq_blk_num := 1\<rparr>", OF _ Cons.prems(2) this] s(2) cons
      have ih: "queue_get_loop len (rbb_next ?r (Blk b)) (rbb_next ?r (Blk (hd bs))) (Some b) (bk_size (?S b)) (q\<lparr>bq_blocks := Some b, bq_blk_num := 1\<rparr>) ?r =
          (let run = queue_run (rbb_blk_set ?r) len b (bk_size (?S b)) bs in
           if run = bs then None
           else Some (bk_size (?S b) + sizes (rbb_blk_set ?r) run,
             q\<lparr>bq_blocks := Some b, bq_blk_num := 1\<rparr>\<lparr>bq_blk_num := bq_blk_num (q\<lparr>bq_blocks := Some b, bq_blk_num := 1\<rparr>) + length run\<rparr>, mark_get run ?r))"
        by simp
      show ?thesis using ih step nx cons True unfolding run sz
        by (simp add: Let_def rt_slist_next_def sizes_def mark_get_def)
    qed
  qed
qed simp

lemma queue_get_spec:
  assumes l: "rbb_lists r bs fs" and z: "sizes (rbb_blk_set r) bs < 2 ^ 32"
  shows "rt_rbb_blk_queue_get len q r =
    (if bs = [] then Some (0, q, r)
     else case dropWhile (\<lambda>b. bk_status (rbb_blk_set r b) \<noteq> RT_RBB_BLK_PUT) bs of
       [] \<Rightarrow> None
     | p # ps \<Rightarrow>
         (let run = queue_run (rbb_blk_set r) len p (bk_size (rbb_blk_set r p)) ps in
          if run = ps then None
          else Some (sizes (rbb_blk_set r) (p # run), q\<lparr>bq_blocks := Some p, bq_blk_num := Suc (length run)\<rparr>, mark_get (p # run) r)))"
proof -
  have s: "slist (rbb_next r) Blk_List (map Blk bs)" using l by (simp add: rbb_lists_def)
  show ?thesis
  proof (cases bs)
    case Nil
    with s show ?thesis by (simp add: rt_rbb_blk_queue_get_def rt_slist_first_def)
  next
    case (Cons b bs')
    then have f: "rbb_next r Blk_List = Some (Blk b)" using s by simp
    have "rt_rbb_blk_queue_get len q r = queue_get_loop len (rbb_next r Blk_List) (rbb_next r (Blk (hd bs))) None 0 q r"
      using f Cons by (simp add: rt_rbb_blk_queue_get_def rt_slist_first_def rt_slist_next_def)
    also have "\<dots> = (case dropWhile (\<lambda>b. bk_status (rbb_blk_set r b) \<noteq> RT_RBB_BLK_PUT) bs of
       [] \<Rightarrow> None
     | p # ps \<Rightarrow>
         (let run = queue_run (rbb_blk_set r) len p (bk_size (rbb_blk_set r p)) ps in
          if run = ps then None
          else Some (sizes (rbb_blk_set r) (p # run), q\<lparr>bq_blocks := Some p, bq_blk_num := Suc (length run)\<rparr>, mark_get (p # run) r)))"
      using Cons by (intro queue_skip_spec [OF s rbb_lists_distinct(1) [OF l] z]) simp
    finally show ?thesis using Cons by simp
  qed
qed


section \<open>Defects\<close>

text \<open>
  An allocation that fails for want of space has already taken a descriptor off the list of free ones, and
  does not put it back: no list holds it any more.
\<close>

lemma failed_alloc_leaks:
  assumes l: "rbb_lists r bs (b # fs)" and a: "rt_rbb_blk_alloc n r = Some (None, r')"
  shows "rbb_lists r' bs fs \<and> b \<notin> set bs \<and> b \<notin> set fs"
proof -
  define r1 where "r1 = r\<lparr>rbb_next := (rbb_next r)(Free_List := rbb_next r (Blk b))\<rparr>"
  have "r' = r1" using a find_empty_spec(1) [OF l]
    by (auto simp: rt_rbb_blk_alloc_def r1_def [symmetric] bind_eq_Some_conv Let_def split: option.splits if_splits)
  with find_empty_spec(2) [OF l refl] show ?thesis by (simp add: r1_def)
qed

text \<open>An empty block at the end of a full ring that has wrapped round makes it look as if it had not.\<close>

lemma zero_block_overlaps:
  assumes l: "rbb_lists r (us @ vs) (b # c # fs)" and ru: "runs r us vs" and vs: "vs \<noteq> []"
    and k: "rbb_buf r + rbb_buf_size r < 2 ^ 32" and full: "blk_end (rbb_blk_set r) (last vs) = bk_buf (rbb_blk_set r (hd us))"
    and n: "n < 2 ^ 24" "n \<le> rbb_buf r + rbb_buf_size r - bk_buf (rbb_blk_set r (hd us))"
  shows "\<exists>r1 r2. rt_rbb_blk_alloc 0 r = Some (Some b, r1) \<and> rt_rbb_blk_alloc n r1 = Some (Some c, r2) \<and>
    bk_buf (rbb_blk_set r2 c) = bk_buf (rbb_blk_set r2 (hd us)) \<and> bk_size (rbb_blk_set r2 c) = n"
proof -
  let ?S = "rbb_blk_set r" and ?p = "bk_buf (rbb_blk_set r (hd us))"
  define r0 where "r0 = r\<lparr>rbb_next := (rbb_next r)(Free_List := rbb_next r (Blk b))\<rparr>"
  have us: "us \<noteq> []" using ru vs by (auto simp: runs_def)
  have e: "rbb_buf r \<le> ?p" "?p < 2 ^ 32" "?p \<le> rbb_buf r + rbb_buf_size r" "bk_buf (?S (last vs)) < ?p"
    using runs_member [OF ru, of "hd us"] runs_head_tail(2) [OF ru us vs] us k by simp_all
  have "sub32 ?p ?p = 0" using e by (simp add: sub32_small)
  then have a0: "rt_rbb_blk_alloc 0 r = Some (Some b, blk_use b ?p 0 r0)"
    using alloc_eq [OF l _ r0_def refl k, of 0] e full us vs by simp
  define r1 where "r1 = blk_use b ?p 0 r0"
  have f: "rbb_lists r0 (us @ vs) (c # fs)" "b \<notin> set (us @ vs)" "b \<notin> set (c # fs)" "b < rbb_blk_max_num r0"
    using find_empty_spec(2) [OF l refl] by (simp_all add: r0_def)
  have l1: "rbb_lists r1 ((us @ vs) @ [b]) (c # fs)" unfolding r1_def by (rule blk_use_lists [OF f])
  have hb: "hd us \<noteq> b" "hd us \<noteq> c" using f us l by (auto simp: rbb_lists_def)
  have r1: "rbb_buf r1 = rbb_buf r" "rbb_buf_size r1 = rbb_buf_size r" "bk_buf (rbb_blk_set r1 (hd us)) = ?p"
    "bk_buf (rbb_blk_set r1 b) = ?p" "bk_size (rbb_blk_set r1 b) = 0"
    using hb by (simp_all add: r1_def r0_def)
  define r2 where "r2 = blk_use c ?p n (r1\<lparr>rbb_next := (rbb_next r1)(Free_List := rbb_next r1 (Blk c))\<rparr>)"
  have "rt_rbb_blk_alloc n r1 = Some (Some c, r2)"
    using alloc_eq [OF l1 n(1) refl refl] e k us r1 n by (simp add: r2_def)
  moreover have "bk_buf (rbb_blk_set r2 c) = bk_buf (rbb_blk_set r2 (hd us))" "bk_size (rbb_blk_set r2 c) = n"
    using hb r1 by (simp_all add: r2_def)
  ultimately show ?thesis using a0 unfolding r1_def by blast
qed

section \<open>Properties\<close>

text \<open>
  C32: From its initialisation, whatever blocks a client allocates and frees in whatever order, as long as it asks for at
  least one byte and for no more than the ring holds, every call returns, the blocks it holds never overlap, and they lie
  within the ring.
\<close>

theorem ring_blocks_never_overlap:
  assumes "buf + k < 2 ^ 32" "buf \<noteq> 0" "block_set \<noteq> 0" "\<forall>n. Alloc n \<in> set ops \<longrightarrow> 0 < n \<and> n < 2 ^ 24 \<and> n \<le> k"
  shows "\<exists>r1 held r. rt_rbb_init buf k block_set num r0 = Some r1 \<and> alloc_run rbb_alloc rbb_dealloc ops [] r1 = Some (held, r) \<and>
    (\<forall>i < length held. \<forall>j < length held. i \<noteq> j \<longrightarrow> apart (held ! i) (held ! j)) \<and>
    (\<forall>(p, n) \<in> set held. buf \<le> p \<and> p + n \<le> buf + k)"
proof -
  obtain r1 where v: "rt_rbb_init buf k block_set num r0 = Some r1" "rbb_inv buf k r1" "rbb_live r1 = {}"
    using rbb_init_inv [OF assms(1-3)] by blast
  have h: "rbb.holds [] r1" by (simp add: rbb.holds_def)
  from rbb.run_holds [OF v(2) h assms(4)] obtain held r where
    r: "alloc_run rbb_alloc rbb_dealloc ops [] r1 = Some (held, r)" "rbb_inv buf k r" "rbb.holds held r" by blast
  have "buf \<le> p \<and> p + n \<le> buf + k" if m: "(p, n) \<in> set held" for p n
  proof -
    from m r(3) obtain q where "n \<le> q" "(p, q) \<in> rbb_live r" by (auto simp: rbb.holds_def)
    with rbb_live_apart(2) [OF r(2), of p q] show ?thesis by simp
  qed
  with v(1) r rbb.holds_apart [OF r(2,3)] show ?thesis by blast
qed

text \<open>A ring of 8 bytes at 100 with three descriptors, of which none is in use.\<close>

definition sample_ring :: rt_rbb where
  "sample_ring = \<lparr>rbb_buf = 100, rbb_buf_size = 8, rbb_blk_max_num = 2,
     rbb_blk_set = (\<lambda>_. \<lparr>bk_status = RT_RBB_BLK_UNUSED, bk_size = 0, bk_buf = 0\<rparr>), rbb_tail = Blk_List,
     rbb_next = (\<lambda>n. if n = Free_List then Some (Blk 1) else if n = Blk 1 then Some (Blk 0) else None)\<rparr>"

theorem ring_blocks_never_overlap_witness:
  "\<exists>r1 held r. rt_rbb_init 100 10 200 3 sample_ring = Some r1 \<and>
    alloc_run rbb_alloc rbb_dealloc [Alloc 6, Alloc 4, Free 1, Alloc 6] [] r1 = Some (held, r) \<and>
    (\<forall>i < length held. \<forall>j < length held. i \<noteq> j \<longrightarrow> apart (held ! i) (held ! j))"
  using ring_blocks_never_overlap [of 100 10 200 "[Alloc 6, Alloc 4, Free 1, Alloc 6]" 3 sample_ring] by fastforce

text \<open>
  Three defects of the allocation. It does not compare the size with that of the ring when no block is in use: the
  block reaches behind the ring. When it fails for want of space it loses the descriptor it had taken. And an empty block allocated in a full
  ring that has wrapped round makes the next block start where the oldest one does.
\<close>

lemma ring_block_allocation_defects:
  assumes "rbb_lists r bs (b # fs)" "rbb_buf r + rbb_buf_size r < 2 ^ 32" "n < 2 ^ 24"
  shows "(bs = [] \<longrightarrow> (\<exists>r'. rt_rbb_blk_alloc n r = Some (Some b, r') \<and> rt_rbb_blk_buf b r' = rbb_buf r \<and> rt_rbb_blk_size b r' = n)) \<and>
    (\<forall>r'. rt_rbb_blk_alloc n r = Some (None, r') \<longrightarrow> rbb_lists r' bs fs \<and> b \<notin> set bs \<and> b \<notin> set fs) \<and>
    (\<forall>us vs c fs'. bs = us @ vs \<and> fs = c # fs' \<and> runs r us vs \<and> vs \<noteq> [] \<and>
       blk_end (rbb_blk_set r) (last vs) = bk_buf (rbb_blk_set r (hd us)) \<and>
       n \<le> rbb_buf r + rbb_buf_size r - bk_buf (rbb_blk_set r (hd us)) \<longrightarrow>
       (\<exists>r1 r2. rt_rbb_blk_alloc 0 r = Some (Some b, r1) \<and> rt_rbb_blk_alloc n r1 = Some (Some c, r2) \<and>
          rt_rbb_blk_buf c r2 = rt_rbb_blk_buf (hd us) r2 \<and> rt_rbb_blk_size c r2 = n))"
proof (intro conjI impI allI; (elim conjE)?)
  show "\<exists>r'. rt_rbb_blk_alloc n r = Some (Some b, r') \<and> rt_rbb_blk_buf b r' = rbb_buf r \<and> rt_rbb_blk_size b r' = n" if "bs = []"
    using alloc_eq [OF assms(1,3) refl refl assms(2)] that by (simp add: rt_rbb_blk_buf_def rt_rbb_blk_size_def)
next
  fix r' assume "rt_rbb_blk_alloc n r = Some (None, r')"
  from failed_alloc_leaks [OF assms(1) this] show "rbb_lists r' bs fs" "b \<notin> set bs" "b \<notin> set fs" by simp_all
next
  fix us vs c fs'
  assume "bs = us @ vs" "fs = c # fs'" "runs r us vs" "vs \<noteq> []" "blk_end (rbb_blk_set r) (last vs) = bk_buf (rbb_blk_set r (hd us))"
    "n \<le> rbb_buf r + rbb_buf_size r - bk_buf (rbb_blk_set r (hd us))"
  with zero_block_overlaps [of r us vs b c fs' n] assms show "\<exists>r1 r2. rt_rbb_blk_alloc 0 r = Some (Some b, r1) \<and>
      rt_rbb_blk_alloc n r1 = Some (Some c, r2) \<and> rt_rbb_blk_buf c r2 = rt_rbb_blk_buf (hd us) r2 \<and> rt_rbb_blk_size c r2 = n"
    by (simp add: rt_rbb_blk_buf_def rt_rbb_blk_size_def)
qed

lemma ring_block_allocation_defects_witness:
  "\<exists>r. rt_rbb_blk_alloc 20 sample_ring = Some (Some 1, r) \<and> rt_rbb_blk_buf 1 r = 100 \<and> rt_rbb_blk_size 1 r = 20"
proof -
  have "rbb_lists sample_ring [] [1, 0]" by (auto simp: rbb_lists_def sample_ring_def)
  from ring_block_allocation_defects [OF this, of 20] show ?thesis by (simp add: sample_ring_def)
qed

text \<open>
  \<open>rt_rbb_blk_queue_get\<close> collects the first run of blocks put: from the oldest of them on, as long as blocks are put, at
  rising addresses and within the length, where the first block is taken whatever its size. But whenever nothing
  stops the walk before the end of the list, it reads the link of a null pointer.
\<close>

lemma queue_get_collects_a_run_or_faults:
  assumes "rbb_lists r bs fs" "sizes (rbb_blk_set r) bs < 2 ^ 32"
  shows "rt_rbb_blk_queue_get len q r =
    (if bs = [] then Some (0, q, r)
     else case dropWhile (\<lambda>b. bk_status (rbb_blk_set r b) \<noteq> RT_RBB_BLK_PUT) bs of
       [] \<Rightarrow> None
     | p # ps \<Rightarrow>
         (let run = queue_run (rbb_blk_set r) len p (bk_size (rbb_blk_set r p)) ps in
          if run = ps then None
          else Some (sizes (rbb_blk_set r) (p # run), q\<lparr>bq_blocks := Some p, bq_blk_num := Suc (length run)\<rparr>, mark_get (p # run) r)))"
  by (rule queue_get_spec [OF assms])

text \<open>One block in use, and put: getting it as a queue faults.\<close>

definition put_ring :: rt_rbb where
  "put_ring = \<lparr>rbb_buf = 100, rbb_buf_size = 8, rbb_blk_max_num = 1,
     rbb_blk_set = (\<lambda>_. \<lparr>bk_status = RT_RBB_BLK_PUT, bk_size = 4, bk_buf = 100\<rparr>), rbb_tail = Blk 0,
     rbb_next = (\<lambda>n. if n = Blk_List then Some (Blk 0) else None)\<rparr>"

lemma queue_get_collects_a_run_or_faults_witness:
  "rt_rbb_blk_queue_get 100 \<lparr>bq_blocks = None, bq_blk_num = 0\<rparr> put_ring = None"
proof -
  have "rbb_lists put_ring [0] []" "sizes (rbb_blk_set put_ring) [0] < 2 ^ 32"
    by (simp_all add: rbb_lists_def put_ring_def sizes_def)
  from queue_get_collects_a_run_or_faults [OF this, of 100 "\<lparr>bq_blocks = None, bq_blk_num = 0\<rparr>"]
  show ?thesis by (simp add: put_ring_def)
qed

end
