(* ===== verification/Driver_Wait.thy ===== *)
theory Driver_Wait
  imports Ipc_Base
begin

text \<open>
  How the device framework (components/drivers/ipc) makes a thread wait: it calls the kernel's
  operations itself, in place of the routines of \<open>src/ipc.c\<close>. The sequence has the same effect, which is
  proved here once for completions and data queues.
\<close>

section \<open>Operations\<close>

text \<open>\<open>rt_thread_suspend_with_flag\<close> and \<open>rt_list_insert_before\<close>: the result of the first is not looked at.\<close>

definition suspend_fifo :: "lhead \<Rightarrow> tid \<Rightarrow> kstate \<Rightarrow> kstate option" where
  "suspend_fifo h t s = do {
     (_, s) \<leftarrow> rt_thread_suspend_with_flag t RT_UNINTERRUPTIBLE s;
     Some (list_set h (ks_list s h @ [t]) s)
   }"

text \<open>Arming the thread timer when the timeout is positive, and \<open>rt_schedule\<close>.\<close>

definition wait_end :: "tid \<Rightarrow> int \<Rightarrow> kstate \<Rightarrow> kstate option" where
  "wait_end t timeout s = do { s \<leftarrow> arm_timeout t timeout s; rt_schedule s }"

text \<open>\<open>rt_thread_resume\<close> of the first waiter, whose error field stays what it is, and \<open>rt_schedule\<close>.\<close>

definition wake_first :: "lhead \<Rightarrow> kstate \<Rightarrow> kstate option" where
  "wake_first h s =
     (case ks_list s h of
        [] \<Rightarrow> None
      | t # _ \<Rightarrow> do { (_, s) \<leftarrow> rt_thread_resume t s; rt_schedule s })"

section \<open>Effects\<close>

lemma driver_wait_spec:
  assumes s: "kernel_ok s" and t: "may_block t s" and h: "wait_head h" and k: "timeout_ok timeout"
  shows "\<exists>s1 s'. suspend_fifo h t s = Some s1 \<and> ks_irq_nest s1 = 0 \<and> wait_end t timeout s1 = Some s' \<and> kernel_ok s' \<and>
    blocked_in h t (ks_list s h @ [t]) timeout s s'"
proof -
  have c: "ks_current s = Some t" "th_state (ks_thread s t) = RT_THREAD_RUNNING" "ks_irq_nest s = 0"
    using t by (simp_all add: may_block_def)
  obtain s1 where s1: "rt_thread_suspend_with_flag t RT_UNINTERRUPTIBLE s = Some (RT_EOK, s1)" "kernel_ok s1" "suspended t s s1"
    using suspend_spec [OF s c(1,2), of RT_UNINTERRUPTIBLE] by auto
  have o: "th_object (ks_thread s t) \<noteq> Obj_Null" using sched_invD(8) [OF kernel_okD(1) [OF s] c(1)] by simp
  have l1: "ks_list s1 = ks_list s" "unlinked t s1" "ks_irq_nest s1 = 0" using s1(3) c(3) by (simp_all add: suspended_def)
  have t1: "th_object (ks_thread s1 t) \<noteq> Obj_Null" "th_suspended (ks_thread s1 t)"
    using s1(3) o by (auto simp: suspended_def th_suspended_state th_state_set_state)
  have "kernel_ok (list_set h (ks_list s h @ t # []) s1)"
    by (rule link_wait_ok [OF s1(2) l1(2) h t1]) (simp add: l1)
  from block_end_spec [OF s c(1) h k s1(3) this] obtain s2 s3 where
    "arm_timeout t timeout (list_set h (ks_list s h @ [t]) s1) = Some s2" "rt_schedule s2 = Some s3" "kernel_ok s3"
    "blocked_in h t (ks_list s h @ [t]) timeout s s3" by blast
  then show ?thesis using s1(1) l1 by (simp add: suspend_fifo_def wait_end_def)
qed

lemma wake_first_spec:
  assumes s: "kernel_ok s" and l: "ks_list s h = w # ws" and h: "wait_head h"
  shows "\<exists>s'. wake_first h s = Some s' \<and> kernel_ok s' \<and> ks_list s' h = ws \<and>
    (\<forall>k. wait_head k \<longrightarrow> k \<noteq> h \<longrightarrow> ks_list s' k = ks_list s k) \<and> ks_ipc s' = ks_ipc s \<and>
    ks_lock_nest s' = ks_lock_nest s \<and> ks_irq_nest s' = ks_irq_nest s \<and>
    (\<forall>u. th_error (ks_thread s' u) = th_error (ks_thread s u)) \<and> th_state (ks_thread s' w) \<in> {2, 3} \<and>
    (ks_lock_nest s = 0 \<longrightarrow> runs_highest s')"
proof -
  have id: "upd_thread w (\<lambda>th. th\<lparr>th_error := th_error (ks_thread s w)\<rparr>) s = s" by (simp add: upd_thread_def)
  obtain s1 where s1: "rt_thread_resume w s = Some (RT_EOK, s1)" "kernel_ok s1" "woke_first h (th_error (ks_thread s w)) s s1"
    using wake_waiter [OF s l h, of "th_error (ks_thread s w)"] unfolding id by blast
  have w: "ks_list s1 h = ws" "\<forall>k. wait_head k \<longrightarrow> k \<noteq> h \<longrightarrow> ks_list s1 k = ks_list s k" "ks_ipc s1 = ks_ipc s"
    "ks_lock_nest s1 = ks_lock_nest s" "ks_irq_nest s1 = ks_irq_nest s" "\<forall>u. u \<noteq> w \<longrightarrow> ks_thread s1 u = ks_thread s u"
    "th_error (ks_thread s1 w) = th_error (ks_thread s w)"
    "th_state (ks_thread s1 w) \<in> {2, 3}" "th_object (ks_thread s1 w) = th_object (ks_thread s w)"
    using s1(3) l unfolding woke_first_def by auto
  have er: "th_error (ks_thread s1 u) = th_error (ks_thread s u)" for u using w(6,7) by (cases "u = w") auto
  obtain s2 where s2: "rt_schedule s1 = Some s2" "kernel_ok s2" "sched_frame s1 s2"
    using schedule_kernel_ok [OF s1(2)] by (auto simp: ok_iff)
  have li: "ks_list s2 k = ks_list s1 k" if "wait_head k" for k
    by (rule sched_frame_list [OF s2(3) wait_head_not_ready [OF that]])
  have "runs_highest s2" if "ks_lock_nest s = 0"
  proof (rule schedule_runs [OF s1(2) _ _ s2(1)])
    show "runnable w s1" using w(8,9) waiter_facts(1) [OF s _ h, of w] l by (auto simp: runnable_def)
    show "ks_lock_nest s1 = 0" using that w(4) by simp
  qed
  moreover have "wake_first h s = Some s2" using l s1(1) s2(1) by (simp add: wake_first_def)
  ultimately show ?thesis
    using s2(2) w(1-5) er li h sched_frameD [OF s2(3)] sched_frame_runnable [OF s2(3) w(8)] by auto
qed

end
