(* ===== verification/Completion.thy ===== *)
theory Completion
  imports Driver_Wait
begin

text \<open>
  Completions of the device framework (components/drivers/ipc/completion.c): a flag by which one thread
  waits for one event. The theorems show that an event before or during the wait is not missed, and
  that one that falls between the timeout of a wait and the return of the waiter is.
\<close>

section \<open>Operations\<close>

abbreviation (input) RT_COMPLETED :: u32 where "RT_COMPLETED \<equiv> 1"
abbreviation (input) RT_UNCOMPLETED :: u32 where "RT_UNCOMPLETED \<equiv> 0"

abbreviation cp_head :: "nat \<Rightarrow> lhead" where "cp_head i \<equiv> Suspend (Completion i)"

text \<open>\<open>suspended_list\<close> is the list \<open>cp_head i\<close> of the kernel state.\<close>

record rt_completion =
  cp_flag :: u32

definition rt_completion_init :: "nat \<Rightarrow> rt_completion \<Rightarrow> kstate \<Rightarrow> rt_completion \<times> kstate" where
  "rt_completion_init i c s = (c\<lparr>cp_flag := RT_UNCOMPLETED\<rparr>, list_set (cp_head i) [] s)"

definition rt_completion_wait ::
  "nat \<Rightarrow> int \<Rightarrow> rt_completion \<Rightarrow> kstate \<Rightarrow> (outcome \<times> rt_completion \<times> kstate) option" where
  "rt_completion_wait i timeout c s = do {
     (if timeout \<noteq> 0 then scheduler_available s else Some ());
     if cp_flag c \<noteq> RT_COMPLETED
     then do {
       rt_assert (ks_list s (cp_head i) = []);
       if timeout = 0 then Some (Ret (- RT_ETIMEOUT), c, s)
       else do {
         t \<leftarrow> rt_thread_self s;
         let s = upd_thread t (\<lambda>th. th\<lparr>th_error := RT_EOK\<rparr>) s;
         s \<leftarrow> suspend_fifo (cp_head i) t s;
         rt_assert (ks_irq_nest s = 0);
         s \<leftarrow> wait_end t timeout s;
         Some (Blocked, c, s)
       }
     }
     else Some (Ret RT_EOK, c\<lparr>cp_flag := RT_UNCOMPLETED\<rparr>, s)
   }"

text \<open>The rest of the call when the waiter runs again.\<close>

definition completion_wait_resume :: "tid \<Rightarrow> rt_completion \<Rightarrow> kstate \<Rightarrow> int \<times> rt_completion" where
  "completion_wait_resume t c s = (th_error (ks_thread s t), c\<lparr>cp_flag := RT_UNCOMPLETED\<rparr>)"

definition rt_completion_done :: "nat \<Rightarrow> rt_completion \<Rightarrow> kstate \<Rightarrow> (rt_completion \<times> kstate) option" where
  "rt_completion_done i c s =
     (if cp_flag c = RT_COMPLETED then Some (c, s)
      else do {
        let c = c\<lparr>cp_flag := RT_COMPLETED\<rparr>;
        if ks_list s (cp_head i) \<noteq> [] then do { s \<leftarrow> wake_first (cp_head i) s; Some (c, s) }
        else Some (c, s)
      })"

section \<open>Properties\<close>

text \<open>At most one waiter, none when the event has happened, and the waiter's error field still clear.\<close>

definition cp_inv :: "nat \<Rightarrow> rt_completion \<Rightarrow> kstate \<Rightarrow> bool" where
  "cp_inv i c s \<longleftrightarrow> kernel_ok s \<and> cp_flag c \<in> {0, 1} \<and>
     (ks_list s (cp_head i) = [] \<or>
      cp_flag c = RT_UNCOMPLETED \<and> (\<exists>w. ks_list s (cp_head i) = [w] \<and> th_error (ks_thread s w) = RT_EOK))"

lemma completion_wait_spec:
  assumes "cp_inv i c s" "timeout_ok timeout" and t: "may_block t s \<and> ks_list s (cp_head i) = []"
  shows "\<exists>r c' s'. rt_completion_wait i timeout c s = Some (r, c', s') \<and> cp_inv i c' s' \<and>
        (if cp_flag c = RT_COMPLETED then r = Ret RT_EOK \<and> cp_flag c' = RT_UNCOMPLETED \<and> s' = s
         else if timeout = 0 then r = Ret (- RT_ETIMEOUT) \<and> c' = c \<and> s' = s
         else r = Blocked \<and> c' = c \<and> ks_list s' (cp_head i) = [t] \<and> th_suspended (ks_thread s' t) \<and>
           tm_activated (ck_timer (ks_clk s') (Thread_Timer t)) = (0 < timeout))"
proof (cases "cp_flag c = RT_COMPLETED \<or> timeout = 0")
  case True
  then show ?thesis using assms(1) t may_block_available [of t s] by (auto simp: rt_completion_wait_def cp_inv_def)
next
  case False
  have k: "kernel_ok s" using assms(1) by (simp add: cp_inv_def)
  let ?s = "upd_thread t (\<lambda>th. th\<lparr>th_error := RT_EOK\<rparr>) s"
  obtain s1 s' where w: "suspend_fifo (cp_head i) t ?s = Some s1" "ks_irq_nest s1 = 0" "wait_end t timeout s1 = Some s'"
    "kernel_ok s'" "blocked_in (cp_head i) t (ks_list ?s (cp_head i) @ [t]) timeout ?s s'"
    using driver_wait_spec [OF upd_error_ok [OF k], of t t RT_EOK "cp_head i" timeout] t assms(2) by auto
  have "rt_thread_self s = Some t" using t by (simp add: may_block_def rt_thread_self_def)
  then have "rt_completion_wait i timeout c s = Some (Blocked, c, s')"
    using False t w may_block_available [of t s] by (simp add: rt_completion_wait_def)
  moreover have "cp_inv i c s'" using w(4,5) assms(1) t False by (auto simp: cp_inv_def blocked_in_def)
  ultimately show ?thesis using w(5) t False by (auto simp: blocked_in_def)
qed

lemma completion_done_spec:
  assumes "cp_inv i c s"
  shows "\<exists>c' s'. rt_completion_done i c s = Some (c', s') \<and> cp_inv i c' s' \<and> cp_flag c' = RT_COMPLETED \<and>
      ks_list s' (cp_head i) = [] \<and>
      (\<forall>w. ks_list s (cp_head i) = [w] \<longrightarrow> th_state (ks_thread s' w) \<in> {2, 3} \<and>
         completion_wait_resume w c' s' = (RT_EOK, c'\<lparr>cp_flag := RT_UNCOMPLETED\<rparr>))"
proof (cases "ks_list s (cp_head i)")
  case Nil
  with assms show ?thesis by (auto simp: rt_completion_done_def cp_inv_def)
next
  case (Cons w ws)
  have k: "kernel_ok s" using assms by (simp add: cp_inv_def)
  have c: "ws = []" "cp_flag c = 0" "th_error (ks_thread s w) = RT_EOK" using assms Cons by (auto simp: cp_inv_def)
  obtain s' where s': "wake_first (cp_head i) s = Some s'" "kernel_ok s'" "ks_list s' (cp_head i) = []"
    "th_error (ks_thread s' w) = RT_EOK" "th_state (ks_thread s' w) \<in> {2, 3}"
    using wake_first_spec [OF k Cons] c by auto
  then show ?thesis using Cons c by (simp add: rt_completion_done_def cp_inv_def completion_wait_resume_def)
qed

text \<open>
  C33: A completion is a one-place event. Waiting after \<open>rt_completion_done\<close> returns RT_EOK at once and takes the event;
  before it, it returns -RT_ETIMEOUT at once or makes the caller the one waiter, with its timer armed when the
  timeout is positive. \<open>rt_completion_done\<close> makes the waiter runnable, and its call then returns RT_EOK and clears
  the flag; without a waiter the event is kept, however often it is signalled.
\<close>

theorem completion_is_a_one_place_event:
  assumes "cp_inv i c s" "timeout_ok timeout"
  shows "(may_block t s \<and> ks_list s (cp_head i) = [] \<longrightarrow>
      (\<exists>r c' s'. rt_completion_wait i timeout c s = Some (r, c', s') \<and> cp_inv i c' s' \<and>
        (if cp_flag c = RT_COMPLETED then r = Ret RT_EOK \<and> cp_flag c' = RT_UNCOMPLETED \<and> s' = s
         else if timeout = 0 then r = Ret (- RT_ETIMEOUT) \<and> c' = c \<and> s' = s
         else r = Blocked \<and> c' = c \<and> ks_list s' (cp_head i) = [t] \<and> th_suspended (ks_thread s' t) \<and>
           tm_activated (ck_timer (ks_clk s') (Thread_Timer t)) = (0 < timeout)))) \<and>
    (\<exists>c' s'. rt_completion_done i c s = Some (c', s') \<and> cp_inv i c' s' \<and> cp_flag c' = RT_COMPLETED \<and>
      ks_list s' (cp_head i) = [] \<and>
      (\<forall>w. ks_list s (cp_head i) = [w] \<longrightarrow> th_state (ks_thread s' w) \<in> {2, 3} \<and>
         completion_wait_resume w c' s' = (RT_EOK, c'\<lparr>cp_flag := RT_UNCOMPLETED\<rparr>)))"
  using completion_wait_spec [OF assms] completion_done_spec [OF assms(1)] by blast

text \<open>The sample system, with completion 4 not signalled.\<close>

lemma sample_cp_inv: "cp_inv 4 \<lparr>cp_flag = 0\<rparr> sample_kernel" "ks_list sample_kernel (cp_head 4) = []"
  using sample_kernel_kernel_ok by (simp_all add: cp_inv_def sample_kernel_def)

theorem completion_is_a_one_place_event_witness:
  "\<exists>s'. rt_completion_wait 4 10 \<lparr>cp_flag = 0\<rparr> sample_kernel = Some (Blocked, \<lparr>cp_flag = 0\<rparr>, s') \<and> ks_list s' (cp_head 4) = [1]"
  using completion_is_a_one_place_event [OF sample_cp_inv(1), of 10 1] sample_cp_inv(2) sample_may_block
  by (auto simp: timeout_ok_def)

text \<open>
  An event signalled after the wait has timed out, but before the waiter has run again, is lost: the waiter
  returns -RT_ETIMEOUT and clears the flag, and nothing tells that the event happened.
\<close>

lemma completion_lost_after_timeout:
  assumes "cp_inv i c s" "ks_list s (cp_head i) = [w]" "\<not> tm_activated (ck_timer (ks_clk s) (Thread_Timer w))"
  shows "\<exists>s1 c2. thread_timeout w s = Some s1 \<and> rt_completion_done i c s1 = Some (c2, s1) \<and> cp_flag c2 = RT_COMPLETED \<and>
    completion_wait_resume w c2 s1 = (- RT_ETIMEOUT, c) \<and> cp_flag c = RT_UNCOMPLETED \<and> ks_list s1 (cp_head i) = []"
proof -
  have k: "kernel_ok s" and c: "cp_flag c = 0" using assms(1,2) by (auto simp: cp_inv_def)
  have "w \<in> set (ks_list s (cp_head i))" using assms(2) by simp
  note wf = waiter_facts(1,2) [OF k this]
  obtain s1 where s1: "thread_timeout w s = Some s1" "th_error (ks_thread s1 w) = - RT_ETIMEOUT"
    "ks_list s1 (cp_head i) = []"
    using thread_timeout_spec [OF k wf assms(3)] assms(2) by (auto simp: ok_iff)
  then show ?thesis using c by (simp add: rt_completion_done_def completion_wait_resume_def)
qed

lemma completion_lost_after_timeout_witness:
  "\<exists>s s1 c2. cp_inv 4 \<lparr>cp_flag = 0\<rparr> s \<and> ks_list s (cp_head 4) = [1] \<and> thread_timeout 1 s = Some s1 \<and>
    rt_completion_done 4 \<lparr>cp_flag = 0\<rparr> s1 = Some (c2, s1) \<and> completion_wait_resume 1 c2 s1 = (- RT_ETIMEOUT, \<lparr>cp_flag = 0\<rparr>)"
proof -
  obtain s where "cp_inv 4 \<lparr>cp_flag = 0\<rparr> s" "ks_list s (cp_head 4) = [1]"
    "\<not> tm_activated (ck_timer (ks_clk s) (Thread_Timer 1))"
    using completion_wait_spec [OF sample_cp_inv(1), of "- 1" 1] sample_cp_inv(2) sample_may_block
    by (auto simp: timeout_ok_def)
  with completion_lost_after_timeout [OF this] show ?thesis by blast
qed

end
