(* ===== verification/Data_Queue.thy ===== *)
theory Data_Queue
  imports Driver_Wait Fifo
begin

text \<open>
  Data queues of the device framework (components/drivers/ipc/dataqueue.c): a ring of buffer
  descriptors between a driver and its user, each of whom may wait for the other. The ring is a bounded
  first-in-first-out store whose capacity the 15-bit indices limit.
\<close>

section \<open>Operations\<close>

abbreviation (input) DATAQUEUE_MAGIC :: u32 where "DATAQUEUE_MAGIC \<equiv> 0xbead0e0e"

datatype dq_event = RT_DATAQUEUE_EVENT_POP | RT_DATAQUEUE_EVENT_PUSH | RT_DATAQUEUE_EVENT_LWM

record rt_data_item =
  di_ptr :: u32
  di_size :: u32

text \<open>
  \<open>dq_queue\<close> is the array from the heap (empty when the allocation failed), \<open>dq_evt_notify\<close> the address of
  the callback. The two suspended lists are lists of the kernel state.
\<close>

record rt_data_queue =
  dq_magic :: u32
  dq_size :: u16
  dq_lwm :: u16
  dq_get_index :: "15 word"
  dq_is_empty :: bool
  dq_put_index :: "15 word"
  dq_is_full :: bool
  dq_queue :: "rt_data_item list"
  dq_evt_notify :: "nat option"

abbreviation push_head :: "nat \<Rightarrow> lhead" where "push_head i \<equiv> Suspend_Sender (Data_Queue i)"
abbreviation pop_head :: "nat \<Rightarrow> lhead" where "pop_head i \<equiv> Suspend (Data_Queue i)"

definition rt_data_queue_init ::
  "(nat \<Rightarrow> rt_data_item list option) \<Rightarrow> nat \<Rightarrow> u16 \<Rightarrow> u16 \<Rightarrow> nat option \<Rightarrow> rt_data_queue \<Rightarrow> kstate \<Rightarrow>
   (int \<times> rt_data_queue \<times> kstate) option" where
  "rt_data_queue_init malloc i sz lwm evt_notify q s = do {
     rt_assert (0 < sz);
     let q = q\<lparr>dq_evt_notify := evt_notify, dq_magic := DATAQUEUE_MAGIC, dq_size := sz, dq_lwm := lwm,
               dq_get_index := 0, dq_put_index := 0, dq_is_empty := True, dq_is_full := False\<rparr>;
     let s = list_set (push_head i) [] s;
     let s = list_set (pop_head i) [] s;
     (case malloc (8 * unat sz) of
        None \<Rightarrow> Some (- RT_ENOMEM, q\<lparr>dq_queue := []\<rparr>, s)
      | Some items \<Rightarrow> Some (RT_EOK, q\<lparr>dq_queue := items\<rparr>, s))
   }"

definition rt_data_queue_len :: "rt_data_queue \<Rightarrow> u16 option" where
  "rt_data_queue_len q = do {
     rt_assert (dq_magic q = DATAQUEUE_MAGIC);
     if dq_is_empty q then Some 0
     else if dq_get_index q < dq_put_index q
     then Some (ucast (dq_put_index q) - ucast (dq_get_index q))
     else Some (dq_size q + ucast (dq_put_index q) - ucast (dq_get_index q))
   }"

text \<open>Writing and reading a slot; an index outside the array is \<open>None\<close>.\<close>

definition dq_put :: "rt_data_item \<Rightarrow> rt_data_queue \<Rightarrow> rt_data_queue option" where
  "dq_put x q = do {
     rt_assert (unat (dq_put_index q) < length (dq_queue q));
     let q = q\<lparr>dq_queue := (dq_queue q)[unat (dq_put_index q) := x]\<rparr>;
     let q = q\<lparr>dq_put_index := dq_put_index q + 1\<rparr>;
     let q = (if ucast (dq_put_index q) = dq_size q then q\<lparr>dq_put_index := 0\<rparr> else q);
     let q = q\<lparr>dq_is_empty := False\<rparr>;
     Some (if dq_put_index q = dq_get_index q then q\<lparr>dq_is_full := True\<rparr> else q)
   }"

definition dq_take :: "rt_data_queue \<Rightarrow> (rt_data_item \<times> rt_data_queue) option" where
  "dq_take q = do {
     rt_assert (unat (dq_get_index q) < length (dq_queue q));
     let x = dq_queue q ! unat (dq_get_index q);
     let q = q\<lparr>dq_get_index := dq_get_index q + 1\<rparr>;
     let q = (if ucast (dq_get_index q) = dq_size q then q\<lparr>dq_get_index := 0\<rparr> else q);
     let q = q\<lparr>dq_is_full := False\<rparr>;
     Some (x, if dq_put_index q = dq_get_index q then q\<lparr>dq_is_empty := True\<rparr> else q)
   }"

text \<open>What a call leaves to do as its last act: the callback, if one is set, with its event.\<close>

definition dq_notify :: "dq_event \<Rightarrow> rt_data_queue \<Rightarrow> (nat \<times> dq_event) option" where
  "dq_notify e q = map_option (\<lambda>f. (f, e)) (dq_evt_notify q)"

text \<open>One wait of the loops of push and pop.\<close>

definition dq_wait :: "lhead \<Rightarrow> int \<Rightarrow> kstate \<Rightarrow> kstate option" where
  "dq_wait h timeout s = do {
     t \<leftarrow> rt_thread_self s;
     let s = upd_thread t (\<lambda>th. th\<lparr>th_error := RT_EOK\<rparr>) s;
     s \<leftarrow> suspend_fifo h t s;
     wait_end t timeout s
   }"

text \<open>
  Push and pop are modelled from the head of their loop up to a wait (\<open>Blocked\<close>) or the return, and from the
  end of a wait. The result has the callback to run.
\<close>

definition dq_push_loop ::
  "nat \<Rightarrow> rt_data_item \<Rightarrow> int \<Rightarrow> rt_data_queue \<Rightarrow> kstate \<Rightarrow>
   (outcome \<times> (nat \<times> dq_event) option \<times> rt_data_queue \<times> kstate) option" where
  "dq_push_loop i x timeout q s =
     (if dq_is_full q
      then if timeout = 0 then Some (Ret (- RT_ETIMEOUT), None, q, s)
        else do { s \<leftarrow> dq_wait (push_head i) timeout s; Some (Blocked, None, q, s) }
      else do {
        q \<leftarrow> dq_put x q;
        if ks_list s (pop_head i) \<noteq> []
        then do { s \<leftarrow> wake_first (pop_head i) s; Some (Ret RT_EOK, None, q, s) }
        else Some (Ret RT_EOK, dq_notify RT_DATAQUEUE_EVENT_PUSH q, q, s)
      })"

definition rt_data_queue_push where
  "rt_data_queue_push i data_ptr data_size timeout q s = do {
     rt_assert (dq_magic q = DATAQUEUE_MAGIC);
     (if timeout \<noteq> 0 then scheduler_available s else Some ());
     dq_push_loop i \<lparr>di_ptr = data_ptr, di_size = data_size\<rparr> timeout q s
   }"

definition dq_push_resume where
  "dq_push_resume i x timeout q s = do {
     t \<leftarrow> rt_thread_self s;
     if th_error (ks_thread s t) \<noteq> RT_EOK then Some (Ret (th_error (ks_thread s t)), None, q, s)
     else dq_push_loop i x timeout q s
   }"

definition dq_pop_loop ::
  "nat \<Rightarrow> int \<Rightarrow> rt_data_queue \<Rightarrow> kstate \<Rightarrow>
   (outcome \<times> rt_data_item option \<times> (nat \<times> dq_event) option \<times> rt_data_queue \<times> kstate) option" where
  "dq_pop_loop i timeout q s =
     (if dq_is_empty q
      then if timeout = 0 then Some (Ret (- RT_ETIMEOUT), None, None, q, s)
        else do { s \<leftarrow> dq_wait (pop_head i) timeout s; Some (Blocked, None, None, q, s) }
      else do {
        (x, q) \<leftarrow> dq_take q;
        len \<leftarrow> rt_data_queue_len q;
        if len \<le> dq_lwm q
        then do {
          s \<leftarrow> (if ks_list s (push_head i) \<noteq> [] then wake_first (push_head i) s else Some s);
          Some (Ret RT_EOK, Some x, dq_notify RT_DATAQUEUE_EVENT_LWM q, q, s)
        }
        else Some (Ret RT_EOK, Some x, dq_notify RT_DATAQUEUE_EVENT_POP q, q, s)
      })"

definition rt_data_queue_pop where
  "rt_data_queue_pop i timeout q s = do {
     rt_assert (dq_magic q = DATAQUEUE_MAGIC);
     (if timeout \<noteq> 0 then scheduler_available s else Some ());
     dq_pop_loop i timeout q s
   }"

definition dq_pop_resume where
  "dq_pop_resume i timeout q s = do {
     t \<leftarrow> rt_thread_self s;
     if th_error (ks_thread s t) \<noteq> RT_EOK then Some (Ret (th_error (ks_thread s t)), None, None, q, s)
     else dq_pop_loop i timeout q s
   }"

definition rt_data_queue_peek :: "rt_data_queue \<Rightarrow> (int \<times> rt_data_item option) option" where
  "rt_data_queue_peek q = do {
     rt_assert (dq_magic q = DATAQUEUE_MAGIC);
     if dq_is_empty q then Some (- RT_EEMPTY, None)
     else do {
       rt_assert (unat (dq_get_index q) < length (dq_queue q));
       Some (RT_EOK, Some (dq_queue q ! unat (dq_get_index q)))
     }
   }"

definition rt_data_queue_reset :: "nat \<Rightarrow> rt_data_queue \<Rightarrow> kstate \<Rightarrow> (rt_data_queue \<times> kstate) option" where
  "rt_data_queue_reset i q s = do {
     rt_assert (dq_magic q = DATAQUEUE_MAGIC);
     let q = q\<lparr>dq_get_index := 0, dq_put_index := 0, dq_is_empty := True, dq_is_full := False\<rparr>;
     let s = rt_enter_critical s;
     s \<leftarrow> ipc_list_resume_all (pop_head i) s;
     s \<leftarrow> ipc_list_resume_all (push_head i) s;
     s \<leftarrow> rt_exit_critical s;
     s \<leftarrow> rt_schedule s;
     Some (q, s)
   }"

text \<open>\<open>rt_free\<close> of the array: no slot can be accessed any more.\<close>

definition rt_data_queue_deinit :: "nat \<Rightarrow> rt_data_queue \<Rightarrow> kstate \<Rightarrow> (int \<times> rt_data_queue \<times> kstate) option" where
  "rt_data_queue_deinit i q s = do {
     rt_assert (dq_magic q = DATAQUEUE_MAGIC);
     (q, s) \<leftarrow> rt_data_queue_reset i q s;
     let q = q\<lparr>dq_magic := 0\<rparr>;
     Some (RT_EOK, q\<lparr>dq_queue := []\<rparr>, s)
   }"

section \<open>The ring\<close>

text \<open>The capacity, the number of items, and the items, oldest first.\<close>

definition dq_cap :: "rt_data_queue \<Rightarrow> nat" where
  "dq_cap q = min (unat (dq_size q)) (2 ^ 15)"

definition dq_count :: "rt_data_queue \<Rightarrow> nat" where
  "dq_count q = (if dq_is_full q then dq_cap q
     else (unat (dq_put_index q) + dq_cap q - unat (dq_get_index q)) mod dq_cap q)"

definition dq_items :: "rt_data_queue \<Rightarrow> rt_data_item list" where
  "dq_items q = ring_list (dq_queue q) (unat (dq_get_index q)) (dq_cap q) (dq_count q)"

definition dq_wf :: "rt_data_queue \<Rightarrow> bool" where
  "dq_wf q \<longleftrightarrow> dq_magic q = DATAQUEUE_MAGIC \<and> 0 < dq_size q \<and> unat (dq_size q) \<le> length (dq_queue q) \<and>
     unat (dq_get_index q) < dq_cap q \<and>
     unat (dq_put_index q) = (unat (dq_get_index q) + dq_count q) mod dq_cap q \<and>
     dq_is_empty q = (dq_count q = 0) \<and> dq_is_full q = (dq_count q = dq_cap q)"

lemma length_dq_items [simp]: "length (dq_items q) = dq_count q"
  by (simp add: dq_items_def ring_list_def)

lemma unat_u15: "unat (w :: 15 word) < 32768"
  using unsigned_less [of w] by simp

lemma unat_ucast_u15: "unat (ucast (i :: 15 word) :: u16) = unat i"
proof -
  have "unat i < 2 ^ 16" using unat_u15 [of i] by simp
  from take_bit_nat_eq_self [OF this] show ?thesis by (simp add: unsigned_ucast_eq)
qed

lemma unat_u16_distance:
  assumes "unat (b :: u16) \<le> unat s + unat a" "unat s + unat a - unat b < 65536"
  shows "unat (s + a - b) = unat s + unat a - unat b"
proof -
  have "s + a - b = word_of_nat (unat s + unat a - unat b)" using assms(1) by (simp add: of_nat_diff)
  then show ?thesis using assms(2) by (simp add: unat_of_nat)
qed

lemma dq_count_le: "0 < dq_cap q \<Longrightarrow> dq_count q \<le> dq_cap q"
  unfolding dq_count_def using mod_less_divisor [of "dq_cap q"] by (auto intro: less_imp_le)

lemma dq_wfD:
  assumes "dq_wf q"
  shows "dq_magic q = DATAQUEUE_MAGIC" "unat (dq_get_index q) < dq_cap q"
    "unat (dq_put_index q) = (unat (dq_get_index q) + dq_count q) mod dq_cap q" "dq_cap q \<le> length (dq_queue q)"
    "dq_is_empty q = (dq_count q = 0)" "dq_is_full q = (dq_count q = dq_cap q)" "dq_count q \<le> dq_cap q"
    "dq_cap q \<le> unat (dq_size q)"
proof -
  have "0 < dq_cap q" using assms unfolding dq_wf_def by linarith
  then show "dq_count q \<le> dq_cap q" by (rule dq_count_le)
  show "dq_cap q \<le> unat (dq_size q)" by (simp add: dq_cap_def)
  then show "dq_cap q \<le> length (dq_queue q)" using assms unfolding dq_wf_def by linarith
qed (use assms in \<open>simp_all add: dq_wf_def\<close>)

text \<open>One step of an index, at the width of the bit field.\<close>

lemma dq_next:
  assumes a: "unat a < min (unat sz) (2 ^ 15)"
  shows "unat (if ucast (a + 1) = (sz :: u16) then 0 else (a + 1 :: 15 word)) = (unat a + 1) mod min (unat sz) (2 ^ 15)"
proof (cases "unat a + 1 = 2 ^ 15")
  case True
  then have "unat (a + 1) = 0" by (simp add: unat_word_ariths)
  then have "a + 1 = 0" by (rule unsigned_word_eqI [where w = 0, simplified])
  moreover have "min (unat sz) (2 ^ 15) = 2 ^ 15" using a True by simp
  ultimately show ?thesis using True by simp
next
  case False
  with unat_u15 [of a] have "unat a + 1 < 2 ^ 15" by simp
  then have u: "unat (a + 1) = unat a + 1" by (simp add: unat_word_ariths)
  have "ucast (a + 1) = sz \<longleftrightarrow> unat (ucast (a + 1) :: u16) = unat sz" by (simp add: word_unat_eq_iff)
  also have "unat (ucast (a + 1) :: u16) = unat (a + 1)" by (rule unat_ucast_u15)
  finally have e: "ucast (a + 1) = sz \<longleftrightarrow> unat a + 1 = unat sz" using u by simp
  show ?thesis
  proof (cases "unat a + 1 = unat sz")
    case True
    then show ?thesis using e \<open>unat a + 1 < 2 ^ 15\<close> by simp
  next
    case False
    then have "unat a + 1 < min (unat sz) (2 ^ 15)" using a \<open>unat a + 1 < 2 ^ 15\<close> by simp
    then show ?thesis using e False u by simp
  qed
qed

lemma dq_put_spec:
  assumes q: "dq_wf q" and room: "\<not> dq_is_full q"
  shows "\<exists>q'. dq_put x q = Some q' \<and> dq_wf q' \<and> dq_items q' = dq_items q @ [x] \<and> dq_size q' = dq_size q \<and>
    dq_lwm q' = dq_lwm q \<and> dq_evt_notify q' = dq_evt_notify q"
proof -
  let ?m = "dq_cap q" and ?g = "unat (dq_get_index q)" and ?p = "unat (dq_put_index q)" and ?c = "dq_count q"
  define p' where "p' = (if ucast (dq_put_index q + 1) = dq_size q then 0 else dq_put_index q + 1)"
  define full where "full = (p' = dq_get_index q)"
  define q' where "q' = q\<lparr>dq_queue := (dq_queue q)[?p := x], dq_put_index := p', dq_is_empty := False, dq_is_full := full\<rparr>"
  note w = dq_wfD(2-4,6) [OF q]
  have c: "?c < ?m" using w(4) dq_wfD(7) [OF q] room by linarith
  have p: "?p < ?m" using w by simp
  have p': "unat p' = (?p + 1) mod ?m" unfolding p'_def dq_cap_def by (rule dq_next) (use p in \<open>simp add: dq_cap_def\<close>)
  then have p'': "unat p' = (?g + Suc ?c) mod ?m" by (simp add: w(2) mod_simps)
  have cap: "dq_cap q' = ?m" by (simp add: q'_def dq_cap_def)
  have f: "dq_is_full q' = full" "dq_put_index q' = p'" "dq_get_index q' = dq_get_index q" by (simp_all add: q'_def)
  have fl: "full \<longleftrightarrow> Suc ?c = ?m"
  proof
    assume "full"
    then have "(?g + Suc ?c) mod ?m = ?g" using p'' by (simp add: full_def)
    then show "Suc ?c = ?m"
      using ring_slots_differ [of 0 "Suc ?c" ?m ?g] c w(1) by (cases "Suc ?c < ?m") auto
  next
    assume "Suc ?c = ?m"
    then have "unat p' = ?g" using p'' w(1) by simp
    then show "full" by (simp add: full_def unsigned_word_eqI)
  qed
  have cnt: "dq_count q' = Suc ?c"
  proof (cases "full")
    case True
    with fl cap f show ?thesis by (simp add: dq_count_def [of q'])
  next
    case False
    with fl c have "Suc ?c < ?m" by simp
    from ring_distance [OF w(1) this] False show ?thesis unfolding dq_count_def [of q'] cap f p'' by simp
  qed
  have "dq_put x q = Some q'"
    using p w(3) by (simp add: dq_put_def q'_def p'_def full_def Let_def room)
  moreover have "dq_wf q'" using q w p'' fl cnt cap by (simp add: dq_wf_def) (simp add: q'_def)
  moreover have "dq_items q' = dq_items q @ [x]"
    using ring_list_snoc [OF c w(3), of ?g x] unfolding dq_items_def cnt cap w(2) [symmetric] by (simp add: q'_def)
  ultimately show ?thesis by (intro exI [of _ q']) (simp add: q'_def)
qed

lemma dq_take_spec:
  assumes q: "dq_wf q" and e: "\<not> dq_is_empty q"
  shows "\<exists>x q'. dq_take q = Some (x, q') \<and> dq_wf q' \<and> dq_items q = x # dq_items q' \<and> dq_size q' = dq_size q \<and>
    dq_lwm q' = dq_lwm q \<and> dq_evt_notify q' = dq_evt_notify q"
proof -
  let ?m = "dq_cap q" and ?g = "unat (dq_get_index q)" and ?p = "unat (dq_put_index q)" and ?c = "dq_count q"
  define g' where "g' = (if ucast (dq_get_index q + 1) = dq_size q then 0 else dq_get_index q + 1)"
  define empty where "empty = (dq_put_index q = g')"
  define q' where "q' = q\<lparr>dq_get_index := g', dq_is_full := False, dq_is_empty := empty\<rparr>"
  note w = dq_wfD(2-5,7) [OF q]
  obtain c where c: "?c = Suc c" using w e by (cases ?c) auto
  have g': "unat g' = (?g + 1) mod ?m" unfolding g'_def dq_cap_def by (rule dq_next) (use w(1) in \<open>simp add: dq_cap_def\<close>)
  have gm: "unat g' < ?m" using g' w(1) by simp
  have cap: "dq_cap q' = ?m" by (simp add: q'_def dq_cap_def)
  have f: "dq_is_full q' = False" "dq_put_index q' = dq_put_index q" "dq_get_index q' = g'" by (simp_all add: q'_def)
  have p: "?p = (unat g' + c) mod ?m" using w(2) by (simp add: g' c mod_simps)
  have cnt: "dq_count q' = c"
    using ring_distance [OF gm, of c] c w(5) unfolding dq_count_def [of q'] cap f p by simp
  have em: "empty \<longleftrightarrow> c = 0"
  proof
    assume "empty"
    then have "(unat g' + c) mod ?m = unat g'" using p by (simp add: empty_def)
    then show "c = 0" using ring_slots_differ [of 0 c ?m "unat g'"] c w(5) gm by (cases c) auto
  next
    assume "c = 0"
    then have "?p = unat g'" using p gm by simp
    then show "empty" by (simp add: empty_def unsigned_word_eqI)
  qed
  have "dq_take q = Some (dq_queue q ! ?g, q')"
    using w e by (simp add: dq_take_def q'_def g'_def empty_def Let_def)
  moreover have "dq_wf q'" using q gm p em cnt cap c w(5) by (simp add: dq_wf_def) (simp add: q'_def)
  moreover have "dq_items q = dq_queue q ! ?g # dq_items q'"
    unfolding dq_items_def cnt cap c ring_list_Suc [OF w(1)] by (simp add: q'_def g')
  ultimately show ?thesis by (intro exI [of _ "dq_queue q ! ?g"] exI [of _ q']) (simp add: q'_def)
qed

text \<open>The length reported: exact up to 2^15 slots, too large by the excess once the queue is that large.\<close>

lemma dq_len_spec:
  assumes q: "dq_wf q"
  shows "\<exists>n. rt_data_queue_len q = Some n \<and>
    unat n = (if dq_is_empty q then 0 else if dq_get_index q < dq_put_index q then dq_count q
      else dq_count q + (unat (dq_size q) - dq_cap q))"
proof -
  let ?m = "dq_cap q" and ?g = "unat (dq_get_index q)" and ?p = "unat (dq_put_index q)" and ?c = "dq_count q"
  note w = dq_wfD(1-3,5,7,8) [OF q]
  have u: "unat (ucast (i :: 15 word) :: u16) = unat i" for i by (rule unat_ucast_u15)
  have s: "unat (dq_size q) < 65536" by simp
  show ?thesis
  proof (cases "dq_get_index q < dq_put_index q")
    case True
    then have l: "?g < ?p" by (simp add: word_less_nat_alt)
    have "?c < ?m" using l w mod_less_divisor [of ?m] by (cases "?c = ?m") auto
    with ring_distance [OF w(2) this] l w have "?c = ?p - ?g" by (auto simp: mod_if split: if_splits)
    moreover have "unat (ucast (dq_put_index q) - ucast (dq_get_index q) :: u16) = ?p - ?g"
      using l by (simp add: unat_sub word_le_nat_alt u)
    ultimately show ?thesis using True w l by (simp add: rt_data_queue_len_def)
  next
    case False
    then have l: "?p \<le> ?g" by (simp add: word_less_nat_alt)
    show ?thesis
    proof (cases "?c = 0")
      case True
      with w show ?thesis by (simp add: rt_data_queue_len_def)
    next
      case c: False
      have "?m \<le> ?g + ?c" using l w c by (cases "?g + ?c < ?m") auto
      then have "?p = ?g + ?c - ?m" using w by (simp add: mod_if)
      then have e: "?c + (unat (dq_size q) - ?m) = unat (dq_size q) + ?p - ?g" using \<open>?m \<le> ?g + ?c\<close> w(6) by simp
      have "unat (dq_size q) + ?p - ?g < 65536" using l s by linarith
      then have "unat (dq_size q + ucast (dq_put_index q) - ucast (dq_get_index q)) = unat (dq_size q) + ?p - ?g"
        using unat_u16_distance [of "ucast (dq_get_index q)" "dq_size q" "ucast (dq_put_index q)"] l w(2,6) by (simp add: u)
      with e c w False show ?thesis by (simp add: rt_data_queue_len_def)
    qed
  qed
qed

text \<open>A queue of up to 2^15 slots reports its length exactly.\<close>

lemma dq_len_exact:
  assumes "dq_wf q" "dq_size q \<le> 0x8000"
  shows "\<exists>n. rt_data_queue_len q = Some n \<and> unat n = length (dq_items q)"
proof -
  have "unat (dq_size q) = dq_cap q" using assms(2) by (simp add: dq_cap_def word_le_nat_alt)
  with dq_len_spec [OF assms(1)] dq_wfD(5) [OF assms(1)] show ?thesis by auto
qed

lemma dq_empty_iff: "dq_wf q \<Longrightarrow> dq_is_empty q \<longleftrightarrow> dq_items q = []"
  by (metis dq_wfD(5) length_0_conv length_dq_items)

interpretation dq: bounded_fifo "\<lambda>_. True" dq_wf dq_cap dq_items
  "\<lambda>x q. if dq_is_full q then None else dq_put x q" "\<lambda>q. if dq_is_empty q then None else dq_take q"
proof
  fix q x
  assume q: "dq_wf q"
  note d = dq_wfD [OF q]
  have cap: "dq_size q' = dq_size q \<Longrightarrow> dq_cap q' = dq_cap q" for q' by (simp add: dq_cap_def)
  show "length (dq_items q) \<le> dq_cap q" using d(7) by simp
  show "length (dq_items q) = dq_cap q \<Longrightarrow> (if dq_is_full q then None else dq_put x q) = None" using d(6) by simp
  show "\<exists>q'. (if dq_is_full q then None else dq_put x q) = Some q' \<and> dq_wf q' \<and>
      dq_cap q' = dq_cap q \<and> dq_items q' = dq_items q @ [x]" if l: "length (dq_items q) < dq_cap q"
  proof -
    have e: "\<not> dq_is_full q" using l d(6) by simp
    obtain q' where "dq_put x q = Some q'" "dq_wf q'" "dq_items q' = dq_items q @ [x]" "dq_size q' = dq_size q"
      using dq_put_spec [OF q e, of x] by blast
    then show ?thesis using e cap [of q'] by simp
  qed
  show "(if dq_is_empty q then None else dq_take q) = None" if "dq_items q = []"
    using that dq_empty_iff [OF q] by simp
  show "\<exists>q'. (if dq_is_empty q then None else dq_take q) = Some (x, q') \<and> dq_wf q' \<and>
      dq_cap q' = dq_cap q \<and> dq_items q' = xs" if l: "dq_items q = x # xs" for xs
  proof -
    have e: "\<not> dq_is_empty q" using l dq_empty_iff [OF q] by simp
    obtain y q' where "dq_take q = Some (y, q')" "dq_wf q'" "dq_items q = y # dq_items q'" "dq_size q' = dq_size q"
      using dq_take_spec [OF q e] by blast
    then show ?thesis using l e cap [of q'] by simp
  qed
qed

section \<open>The calls\<close>

definition dq_inv :: "rt_data_queue \<Rightarrow> kstate \<Rightarrow> bool" where
  "dq_inv q s \<longleftrightarrow> kernel_ok s \<and> dq_wf q"

text \<open>The thread \<open>t\<close> waits on \<open>h\<close>, last in line, with its timer running when the timeout is positive.\<close>

definition waits_last :: "lhead \<Rightarrow> tid \<Rightarrow> int \<Rightarrow> kstate \<Rightarrow> kstate \<Rightarrow> bool" where
  "waits_last h t timeout s s' \<longleftrightarrow> ks_list s' h = ks_list s h @ [t] \<and>
     (\<forall>k. wait_head k \<longrightarrow> k \<noteq> h \<longrightarrow> ks_list s' k = ks_list s k) \<and>
     th_suspended (ks_thread s' t) \<and> th_error (ks_thread s' t) = RT_EOK \<and>
     tm_activated (ck_timer (ks_clk s') (Thread_Timer t)) = (0 < timeout) \<and>
     (0 < timeout \<longrightarrow> tm_timeout_tick (ck_timer (ks_clk s') (Thread_Timer t)) = ck_tick (ks_clk s) + word_of_int timeout)"

lemma dq_wait_spec:
  assumes s: "kernel_ok s" "may_block t s" and h: "wait_head h" and k: "timeout_ok timeout"
  shows "\<exists>s'. dq_wait h timeout s = Some s' \<and> kernel_ok s' \<and> waits_last h t timeout s s'"
proof -
  let ?s = "upd_thread t (\<lambda>th. th\<lparr>th_error := RT_EOK\<rparr>) s"
  obtain s1 s' where w: "suspend_fifo h t ?s = Some s1" "wait_end t timeout s1 = Some s'"
    "kernel_ok s'" "blocked_in h t (ks_list ?s h @ [t]) timeout ?s s'"
    using driver_wait_spec [OF upd_error_ok [OF s(1)], of t t RT_EOK h timeout] s(2) h k by auto
  have "rt_thread_self s = Some t" using s(2) by (simp add: may_block_def rt_thread_self_def)
  then have "dq_wait h timeout s = Some s'" using w by (simp add: dq_wait_def)
  then show ?thesis using w(3,4) by (auto simp: waits_last_def blocked_in_def)
qed

text \<open>Waking the head of \<open>h\<close>, if there is one.\<close>

definition wakes_head :: "lhead \<Rightarrow> kstate \<Rightarrow> kstate \<Rightarrow> bool" where
  "wakes_head h s s' \<longleftrightarrow> ks_list s' h = tl (ks_list s h) \<and>
     (\<forall>k. wait_head k \<longrightarrow> k \<noteq> h \<longrightarrow> ks_list s' k = ks_list s k) \<and>
     (\<forall>u. th_error (ks_thread s' u) = th_error (ks_thread s u)) \<and>
     (\<forall>w \<in> set (take 1 (ks_list s h)). th_state (ks_thread s' w) \<in> {2, 3})"

lemma wakes_head_spec:
  assumes "kernel_ok s" "wait_head h"
  shows "\<exists>s'. (if ks_list s h \<noteq> [] then wake_first h s else Some s) = Some s' \<and> kernel_ok s' \<and> wakes_head h s s'"
proof (cases "ks_list s h")
  case Nil
  with assms show ?thesis by (simp add: wakes_head_def)
next
  case (Cons w ws)
  with wake_first_spec [OF assms(1) Cons assms(2)] show ?thesis by (auto simp: wakes_head_def)
qed

lemma dq_push_loop_spec:
  assumes s: "dq_inv q s" and t: "dq_is_full q \<Longrightarrow> timeout \<noteq> 0 \<Longrightarrow> may_block t s" and k: "timeout_ok timeout"
  shows "\<exists>r e q' s'. dq_push_loop i x timeout q s = Some (r, e, q', s') \<and> dq_inv q' s' \<and>
    (if length (dq_items q) < dq_cap q
     then r = Ret RT_EOK \<and> dq_items q' = dq_items q @ [x] \<and> wakes_head (pop_head i) s s' \<and>
       e = (if ks_list s (pop_head i) = [] then dq_notify RT_DATAQUEUE_EVENT_PUSH q else None)
     else q' = q \<and> e = None \<and>
       (if timeout = 0 then r = Ret (- RT_ETIMEOUT) \<and> s' = s
        else r = Blocked \<and> waits_last (push_head i) t timeout s s'))"
proof -
  have q: "dq_wf q" "kernel_ok s" using s by (simp_all add: dq_inv_def)
  note d = dq_wfD(6,7) [OF q(1)]
  show ?thesis
  proof (cases "dq_is_full q")
    case True
    show ?thesis
    proof (cases "timeout = 0")
      case True
      with \<open>dq_is_full q\<close> d s show ?thesis by (simp add: dq_push_loop_def)
    next
      case False
      with True d q dq_wait_spec [OF q(2) t, of "push_head i" timeout] k show ?thesis
        by (auto simp: dq_push_loop_def dq_inv_def)
    qed
  next
    case False
    obtain q' where q': "dq_put x q = Some q'" "dq_wf q'" "dq_items q' = dq_items q @ [x]" "dq_evt_notify q' = dq_evt_notify q"
      using dq_put_spec [OF q(1) False] by blast
    obtain s' where s': "(if ks_list s (pop_head i) \<noteq> [] then wake_first (pop_head i) s else Some s) = Some s'"
      "kernel_ok s'" "wakes_head (pop_head i) s s'" using wakes_head_spec [OF q(2), of "pop_head i"] by auto
    show ?thesis
      by (rule exI [of _ "Ret RT_EOK"], rule exI [of _ "if ks_list s (pop_head i) = [] then dq_notify RT_DATAQUEUE_EVENT_PUSH q else None"],
        rule exI [of _ q'], rule exI [of _ s'])
        (use False d q' s' in \<open>auto simp: dq_push_loop_def dq_inv_def dq_notify_def split: if_splits\<close>)
  qed
qed

lemma dq_pop_loop_spec:
  assumes s: "dq_inv q s" and t: "dq_is_empty q \<Longrightarrow> timeout \<noteq> 0 \<Longrightarrow> may_block t s" and k: "timeout_ok timeout"
    and sz: "dq_size q \<le> 0x8000"
  shows "\<exists>r m e q' s'. dq_pop_loop i timeout q s = Some (r, m, e, q', s') \<and> dq_inv q' s' \<and>
    (case dq_items q of
       x # xs \<Rightarrow> r = Ret RT_EOK \<and> m = Some x \<and> dq_items q' = xs \<and>
         (if length xs \<le> unat (dq_lwm q) then wakes_head (push_head i) s s' \<and> e = dq_notify RT_DATAQUEUE_EVENT_LWM q
          else s' = s \<and> e = dq_notify RT_DATAQUEUE_EVENT_POP q)
     | [] \<Rightarrow> q' = q \<and> m = None \<and> e = None \<and>
         (if timeout = 0 then r = Ret (- RT_ETIMEOUT) \<and> s' = s
          else r = Blocked \<and> waits_last (pop_head i) t timeout s s'))"
proof -
  have q: "dq_wf q" "kernel_ok s" using s by (simp_all add: dq_inv_def)
  note em = dq_empty_iff [OF q(1)]
  show ?thesis
  proof (cases "dq_is_empty q")
    case True
    show ?thesis
    proof (cases "timeout = 0")
      case True
      with \<open>dq_is_empty q\<close> em s show ?thesis by (simp add: dq_pop_loop_def)
    next
      case False
      with True em q dq_wait_spec [OF q(2) t, of "pop_head i" timeout] k show ?thesis
        by (auto simp: dq_pop_loop_def dq_inv_def)
    qed
  next
    case False
    obtain x q' where q': "dq_take q = Some (x, q')" "dq_wf q'" "dq_items q = x # dq_items q'" "dq_size q' = dq_size q"
      "dq_lwm q' = dq_lwm q" "dq_evt_notify q' = dq_evt_notify q" using dq_take_spec [OF q(1) False] by blast
    obtain n where n: "rt_data_queue_len q' = Some n" "unat n = length (dq_items q')"
      using dq_len_exact [OF q'(2)] sz q'(4) by auto
    have le: "n \<le> dq_lwm q' \<longleftrightarrow> length (dq_items q') \<le> unat (dq_lwm q)" using n(2) q'(5) by (simp add: word_le_nat_alt)
    have nt: "dq_notify e q' = dq_notify e q" for e using q'(6) by (simp add: dq_notify_def)
    obtain s' where s': "(if ks_list s (push_head i) \<noteq> [] then wake_first (push_head i) s else Some s) = Some s'"
      "kernel_ok s'" "wakes_head (push_head i) s s'" using wakes_head_spec [OF q(2), of "push_head i"] by auto
    show ?thesis
    proof (cases "n \<le> dq_lwm q'")
      case True
      then have "dq_pop_loop i timeout q s = Some (Ret RT_EOK, Some x, dq_notify RT_DATAQUEUE_EVENT_LWM q, q', s')"
        using False q'(1) n(1) s'(1) nt by (simp add: dq_pop_loop_def)
      then show ?thesis using True le q'(2,3) s'(2,3) by (simp add: dq_inv_def)
    next
      case n': False
      then have "dq_pop_loop i timeout q s = Some (Ret RT_EOK, Some x, dq_notify RT_DATAQUEUE_EVENT_POP q, q', s)"
        using False q'(1) n(1) nt by (simp add: dq_pop_loop_def)
      then show ?thesis using n' le q'(2,3) q(2) by (simp add: dq_inv_def)
    qed
  qed
qed

section \<open>Reset\<close>

lemma kernel_ok_lock [simp]: "kernel_ok (s\<lparr>ks_lock_nest := n\<rparr>) = kernel_ok s"
  by (simp add: kernel_ok_def sched_inv_def queues_ok_def bitmap_ok_def states_ok_def state_ok_def masks_ok_def
      thread_timer_ok_def)

text \<open>What a step that at most hands the processor over keeps of the waiters.\<close>

definition hands_over :: "kstate \<Rightarrow> kstate \<Rightarrow> bool" where
  "hands_over s s' \<longleftrightarrow> (\<forall>h. wait_head h \<longrightarrow> ks_list s' h = ks_list s h) \<and>
     (\<forall>t. th_error (ks_thread s' t) = th_error (ks_thread s t)) \<and>
     (\<forall>t. th_state (ks_thread s t) \<in> {2, 3} \<longrightarrow> th_state (ks_thread s' t) \<in> {2, 3})"

lemma hands_over_trans: "hands_over s s1 \<Longrightarrow> hands_over s1 s2 \<Longrightarrow> hands_over s s2"
  unfolding hands_over_def by metis

lemma schedule_hands_over:
  assumes "kernel_ok s"
  shows "\<exists>s'. rt_schedule s = Some s' \<and> kernel_ok s' \<and> hands_over s s'"
proof -
  obtain s' where s': "rt_schedule s = Some s'" "kernel_ok s'" "sched_frame s s'"
    using schedule_kernel_ok [OF assms] by (auto simp: ok_iff)
  have "hands_over s s'"
    unfolding hands_over_def
    using sched_frame_list [OF s'(3)] sched_frame_runnable [OF s'(3)] sched_frameD(10) [OF s'(3)] wait_head_not_ready by blast
  with s' show ?thesis by blast
qed

lemma exit_critical_hands_over:
  assumes "kernel_ok s"
  shows "\<exists>s'. rt_exit_critical s = Some s' \<and> kernel_ok s' \<and> hands_over s s'"
proof (cases "ks_lock_nest s - 1 \<le>s 0")
  case True
  obtain s' where s': "rt_schedule (s\<lparr>ks_lock_nest := 0\<rparr>) = Some s'" "kernel_ok s'" "hands_over (s\<lparr>ks_lock_nest := 0\<rparr>) s'"
    using schedule_hands_over [of "s\<lparr>ks_lock_nest := 0\<rparr>"] assms by auto
  then show ?thesis using True kernel_okD(4) [OF assms] by (simp add: rt_exit_critical_def hands_over_def)
next
  case False
  then show ?thesis using assms by (simp add: rt_exit_critical_def hands_over_def)
qed

lemma data_queue_reset_spec:
  assumes "dq_inv q s"
  shows "\<exists>q' s'. rt_data_queue_reset i q s = Some (q', s') \<and> dq_inv q' s' \<and> dq_items q' = [] \<and>
    ks_list s' (pop_head i) = [] \<and> ks_list s' (push_head i) = [] \<and>
    (\<forall>t \<in> set (ks_list s (pop_head i)) \<union> set (ks_list s (push_head i)).
       th_error (ks_thread s' t) = - RT_ERROR \<and> th_state (ks_thread s' t) \<in> {2, 3})"
proof -
  have q: "dq_wf q" and k: "kernel_ok (rt_enter_critical s)" using assms by (simp_all add: dq_inv_def rt_enter_critical_def)
  define q' where "q' = q\<lparr>dq_get_index := 0, dq_put_index := 0, dq_is_empty := True, dq_is_full := False\<rparr>"
  have e: "ks_list (rt_enter_critical s) = ks_list s" by (simp add: rt_enter_critical_def)
  obtain s1 where s1: "ipc_list_resume_all (pop_head i) (rt_enter_critical s) = Some s1" "kernel_ok s1"
    "ks_list s1 (pop_head i) = []" "\<forall>k. wait_head k \<longrightarrow> k \<noteq> pop_head i \<longrightarrow> ks_list s1 k = ks_list s k"
    "\<forall>t \<in> set (ks_list s (pop_head i)). th_error (ks_thread s1 t) = - RT_ERROR \<and> th_state (ks_thread s1 t) \<in> {2, 3}"
    using ipc_list_resume_all_spec [OF k, of "pop_head i"] unfolding e by auto
  have l1: "ks_list s1 (push_head i) = ks_list s (push_head i)" using s1(4) by simp
  obtain s2 where s2: "ipc_list_resume_all (push_head i) s1 = Some s2" "kernel_ok s2"
    "ks_list s2 (push_head i) = []" "\<forall>k. wait_head k \<longrightarrow> k \<noteq> push_head i \<longrightarrow> ks_list s2 k = ks_list s1 k"
    "\<forall>t \<in> set (ks_list s (push_head i)). th_error (ks_thread s2 t) = - RT_ERROR \<and> th_state (ks_thread s2 t) \<in> {2, 3}"
    "\<forall>t. t \<notin> set (ks_list s (push_head i)) \<longrightarrow> ks_thread s2 t = ks_thread s1 t"
    using ipc_list_resume_all_spec [OF s1(2), of "push_head i"] unfolding l1 by auto
  obtain s3 where s3: "rt_exit_critical s2 = Some s3" "kernel_ok s3" "hands_over s2 s3"
    using exit_critical_hands_over [OF s2(2)] by blast
  obtain s4 where s4: "rt_schedule s3 = Some s4" "kernel_ok s4" "hands_over s3 s4"
    using schedule_hands_over [OF s3(2)] by blast
  note h = hands_over_trans [OF s3(3) s4(3)]
  have w: "th_error (ks_thread s2 t) = - RT_ERROR \<and> th_state (ks_thread s2 t) \<in> {2, 3}"
    if "t \<in> set (ks_list s (pop_head i)) \<union> set (ks_list s (push_head i))" for t
    using that s1(5) s2(5,6) by (cases "t \<in> set (ks_list s (push_head i))") auto
  have c: "dq_cap q' = dq_cap q" "dq_count q' = 0" by (simp_all add: q'_def dq_cap_def dq_count_def)
  have "0 < dq_cap q" using dq_wfD(2) [OF q] by linarith
  then have "dq_wf q'" using q unfolding dq_wf_def c by (simp add: q'_def)
  moreover have "dq_items q' = []" by (simp add: dq_items_def c)
  moreover have "rt_data_queue_reset i q s = Some (q', s4)"
    using s1(1) s2(1) s3(1) s4(1) dq_wfD(1) [OF q] by (simp add: rt_data_queue_reset_def q'_def)
  moreover have "ks_list s4 (pop_head i) = []" "ks_list s4 (push_head i) = []"
    using h s1(3) s2(3,4) by (simp_all add: hands_over_def)
  moreover have "th_error (ks_thread s4 t) = - RT_ERROR \<and> th_state (ks_thread s4 t) \<in> {2, 3}"
    if "t \<in> set (ks_list s (pop_head i)) \<union> set (ks_list s (push_head i))" for t
    using h w [OF that] unfolding hands_over_def by metis
  ultimately show ?thesis using s4(2) unfolding dq_inv_def by blast
qed

section \<open>Properties\<close>

text \<open>
  C34: A data queue of up to 2^15 slots is a bounded first-in-first-out channel. A push with room appends the item and wakes the
  first waiting reader, or leaves the push callback to be run when none waits; a pop takes the oldest item,
  and when at most \<open>lwm\<close> items are left wakes the first waiting writer and leaves the low-water
  callback. Without room (an item) the call returns -RT_ETIMEOUT at once or makes the caller the last in line.
\<close>

theorem data_queue_is_a_bounded_channel:
  assumes "dq_inv q s" "may_block t s" "timeout_ok timeout" "dq_size q \<le> 0x8000"
  shows "(\<exists>r e q' s'. rt_data_queue_push i p n timeout q s = Some (r, e, q', s') \<and> dq_inv q' s' \<and>
      (if length (dq_items q) < unat (dq_size q)
       then r = Ret RT_EOK \<and> dq_items q' = dq_items q @ [\<lparr>di_ptr = p, di_size = n\<rparr>] \<and> wakes_head (pop_head i) s s' \<and>
         e = (if ks_list s (pop_head i) = [] then dq_notify RT_DATAQUEUE_EVENT_PUSH q else None)
       else q' = q \<and> e = None \<and>
         (if timeout = 0 then r = Ret (- RT_ETIMEOUT) \<and> s' = s
          else r = Blocked \<and> waits_last (push_head i) t timeout s s'))) \<and>
    (\<exists>r m e q' s'. rt_data_queue_pop i timeout q s = Some (r, m, e, q', s') \<and> dq_inv q' s' \<and>
      (case dq_items q of
         x # xs \<Rightarrow> r = Ret RT_EOK \<and> m = Some x \<and> dq_items q' = xs \<and>
           (if length xs \<le> unat (dq_lwm q) then wakes_head (push_head i) s s' \<and> e = dq_notify RT_DATAQUEUE_EVENT_LWM q
            else s' = s \<and> e = dq_notify RT_DATAQUEUE_EVENT_POP q)
       | [] \<Rightarrow> q' = q \<and> m = None \<and> e = None \<and>
           (if timeout = 0 then r = Ret (- RT_ETIMEOUT) \<and> s' = s
            else r = Blocked \<and> waits_last (pop_head i) t timeout s s')))"
proof -
  have m: "dq_magic q = DATAQUEUE_MAGIC" using assms(1) dq_wfD(1) by (auto simp: dq_inv_def)
  have c: "unat (dq_size q) = dq_cap q" using assms(4) by (simp add: dq_cap_def word_le_nat_alt)
  have g: "(if timeout \<noteq> 0 then scheduler_available s else Some ()) = Some ()"
    using may_block_available [OF assms(2)] by simp
  show ?thesis
    unfolding rt_data_queue_push_def rt_data_queue_pop_def m g c
    using dq_push_loop_spec [OF assms(1) _ assms(3), of t i "\<lparr>di_ptr = p, di_size = n\<rparr>"]
      dq_pop_loop_spec [OF assms(1) _ assms(3,4), of t i] assms(2) by simp
qed

text \<open>A queue of three slots, made by \<open>rt_data_queue_init\<close> in the sample system.\<close>

definition sample_dq :: rt_data_queue where
  "sample_dq = \<lparr>dq_magic = DATAQUEUE_MAGIC, dq_size = 3, dq_lwm = 1, dq_get_index = 0, dq_is_empty = True, dq_put_index = 0,
     dq_is_full = False, dq_queue = replicate 3 \<lparr>di_ptr = 0, di_size = 0\<rparr>, dq_evt_notify = None\<rparr>"

lemma sample_dq_inv: "dq_inv sample_dq sample_kernel" "dq_items sample_dq = []" "dq_size sample_dq = 3"
  using sample_kernel_kernel_ok
  by (simp_all add: dq_inv_def dq_wf_def dq_items_def dq_count_def dq_cap_def sample_dq_def)

theorem data_queue_is_a_bounded_channel_witness:
  "\<exists>r e q' s'. rt_data_queue_push 4 64 8 0 sample_dq sample_kernel = Some (r, e, q', s') \<and> r = Ret 0 \<and>
     dq_items q' = [\<lparr>di_ptr = 64, di_size = 8\<rparr>]"
  using conjunct1 [OF data_queue_is_a_bounded_channel [OF sample_dq_inv(1) sample_may_block, of 0 4 64 8]] sample_dq_inv(2,3)
  by (auto simp: timeout_ok_def)

text \<open>
  The indices are 15 bits wide. A queue made with more than 2^15 slots is full with 2^15 items, and its length
  is reported too large by the excess whenever the put index is not ahead of the get index, so that
  the low-water mark is missed.
\<close>

lemma data_queue_index_width:
  assumes "dq_wf q" "0x8000 < dq_size q"
  shows "dq_is_full q = (length (dq_items q) = 2 ^ 15) \<and> length (dq_items q) \<le> 2 ^ 15 \<and>
    (\<not> dq_is_empty q \<longrightarrow> dq_put_index q \<le> dq_get_index q \<longrightarrow>
      (\<exists>n. rt_data_queue_len q = Some n \<and> unat n = length (dq_items q) + (unat (dq_size q) - 2 ^ 15)))"
proof -
  have "dq_cap q = 2 ^ 15" using assms(2) by (simp add: dq_cap_def word_less_nat_alt)
  then show ?thesis using dq_wfD(6,7) [OF assms(1)] dq_len_spec [OF assms(1)] by auto
qed

text \<open>A queue of 32770 slots, filled.\<close>

definition large_dq :: rt_data_queue where
  "large_dq = sample_dq\<lparr>dq_size := 32770, dq_is_empty := False, dq_is_full := True,
     dq_queue := replicate 32770 \<lparr>di_ptr = 0, di_size = 0\<rparr>\<rparr>"

lemma data_queue_index_width_witness:
  "dq_is_full large_dq \<and> length (dq_items large_dq) = 32768 \<and> (\<exists>n. rt_data_queue_len large_dq = Some n \<and> unat n = 32770)"
proof -
  have "dq_wf large_dq" by (simp add: large_dq_def sample_dq_def dq_wf_def dq_count_def dq_cap_def)
  moreover have "0x8000 < dq_size large_dq" by (simp add: large_dq_def)
  ultimately show ?thesis using data_queue_index_width [of large_dq]
    by (simp add: large_dq_def sample_dq_def dq_count_def dq_cap_def)
qed

end
