(* ===== verification/Wait_Queue.thy ===== *)
theory Wait_Queue
  imports Driver_Wait
begin

text \<open>
  Wait queues of the device framework (components/drivers/ipc/waitqueue.c). A waiting thread is on no list of the
  kernel; a node on the waiter's stack is on the queue instead, with a function that decides whether a key wakes it.
  Shown are what a wake-up does, and that one that finds a waiter whose time has run out is lost.
\<close>

section \<open>Operations\<close>

abbreviation (input) RT_WQ_FLAG_CLEAN :: u32 where "RT_WQ_FLAG_CLEAN \<equiv> 0"
abbreviation (input) RT_WQ_FLAG_WAKEUP :: u32 where "RT_WQ_FLAG_WAKEUP \<equiv> 1"

text \<open>Nodes with their addresses; \<open>'k\<close> is what a key points to. The function of a node, which gets the node and the key, is a function of the key.\<close>

record 'k rt_wqueue_node =
  wn_addr :: nat
  wn_polling_thread :: tid
  wn_wakeup :: "'k \<Rightarrow> int"

record 'k rt_wqueue =
  wq_flag :: u32
  wq_waiting_list :: "'k rt_wqueue_node list"

definition rt_wqueue_init :: "'k rt_wqueue" where
  "rt_wqueue_init = \<lparr>wq_flag = RT_WQ_FLAG_CLEAN, wq_waiting_list = []\<rparr>"

definition rt_wqueue_add :: "'k rt_wqueue_node \<Rightarrow> 'k rt_wqueue \<Rightarrow> 'k rt_wqueue" where
  "rt_wqueue_add node q = q\<lparr>wq_waiting_list := wq_waiting_list q @ [node]\<rparr>"

definition rt_wqueue_remove :: "nat \<Rightarrow> 'k rt_wqueue \<Rightarrow> 'k rt_wqueue" where
  "rt_wqueue_remove a q = q\<lparr>wq_waiting_list := filter (\<lambda>n. wn_addr n \<noteq> a) (wq_waiting_list q)\<rparr>"

definition wqueue_default_wake :: "'k \<Rightarrow> int" where
  "wqueue_default_wake key = 0"

fun wq_wake_loop :: "'k \<Rightarrow> 'k rt_wqueue_node list \<Rightarrow> 'k rt_wqueue_node option" where
  "wq_wake_loop key [] = None"
| "wq_wake_loop key (n # ns) = (if wn_wakeup n key = 0 then Some n else wq_wake_loop key ns)"

definition rt_wqueue_wakeup :: "'k \<Rightarrow> 'k rt_wqueue \<Rightarrow> kstate \<Rightarrow> ('k rt_wqueue \<times> kstate) option" where
  "rt_wqueue_wakeup key q s = do {
     let q = q\<lparr>wq_flag := RT_WQ_FLAG_WAKEUP\<rparr>;
     (case wq_wake_loop key (wq_waiting_list q) of
        None \<Rightarrow> Some (q, s)
      | Some entry \<Rightarrow> do {
          (_, s) \<leftarrow> rt_thread_resume (wn_polling_thread entry) s;
          let q = rt_wqueue_remove (wn_addr entry) q;
          s \<leftarrow> rt_schedule s;
          Some (q, s)
        })
   }"

text \<open>\<open>_rt_wqueue_wait\<close> with its node at \<open>a\<close>, up to \<open>rt_schedule\<close>.\<close>

definition wqueue_wait :: "nat \<Rightarrow> int \<Rightarrow> int \<Rightarrow> suspend_flag \<Rightarrow> 'k rt_wqueue \<Rightarrow> kstate \<Rightarrow> (outcome \<times> 'k rt_wqueue \<times> kstate) option" where
  "wqueue_wait a condition msec suspend_flag q s = do {
     t \<leftarrow> rt_thread_self s;
     scheduler_available s;
     let tick = sint (rt_tick_from_millisecond msec);
     if condition \<noteq> 0 \<or> tick = 0 then Some (Ret 0, q, s)
     else do {
       let s = upd_thread t (\<lambda>th. th\<lparr>th_error := RT_EOK\<rparr>) s;
       if wq_flag q = RT_WQ_FLAG_WAKEUP
       then Some (Ret (th_error (ks_thread s t)), rt_wqueue_remove a (q\<lparr>wq_flag := RT_WQ_FLAG_CLEAN\<rparr>), s)
       else do {
         (ret, s) \<leftarrow> rt_thread_suspend_with_flag t suspend_flag s;
         if ret \<noteq> RT_EOK then Some (Ret (- RT_EINTR), q, s)
         else do {
           let q = rt_wqueue_add \<lparr>wn_addr = a, wn_polling_thread = t, wn_wakeup = wqueue_default_wake\<rparr> q;
           s \<leftarrow> (if tick \<noteq> - 1 then start_thread_timer t (word_of_int tick) s else Some s);
           s \<leftarrow> rt_schedule s;
           Some (Blocked, q, s)
         }
       }
     }
   }"

definition wqueue_wait_resume :: "nat \<Rightarrow> tid \<Rightarrow> 'k rt_wqueue \<Rightarrow> kstate \<Rightarrow> int \<times> 'k rt_wqueue" where
  "wqueue_wait_resume a t q s = (th_error (ks_thread s t), rt_wqueue_remove a (q\<lparr>wq_flag := RT_WQ_FLAG_CLEAN\<rparr>))"

definition rt_wqueue_wait :: "nat \<Rightarrow> int \<Rightarrow> int \<Rightarrow> 'k rt_wqueue \<Rightarrow> kstate \<Rightarrow> (outcome \<times> 'k rt_wqueue \<times> kstate) option" where
  "rt_wqueue_wait a condition msec q s = wqueue_wait a condition msec RT_UNINTERRUPTIBLE q s"

definition rt_wqueue_wait_killable :: "nat \<Rightarrow> int \<Rightarrow> int \<Rightarrow> 'k rt_wqueue \<Rightarrow> kstate \<Rightarrow> (outcome \<times> 'k rt_wqueue \<times> kstate) option" where
  "rt_wqueue_wait_killable a condition msec q s = wqueue_wait a condition msec RT_KILLABLE q s"

definition rt_wqueue_wait_interruptible :: "nat \<Rightarrow> int \<Rightarrow> int \<Rightarrow> 'k rt_wqueue \<Rightarrow> kstate \<Rightarrow> (outcome \<times> 'k rt_wqueue \<times> kstate) option" where
  "rt_wqueue_wait_interruptible a condition msec q s = wqueue_wait a condition msec RT_INTERRUPTIBLE q s"

section \<open>Threads suspended on no list\<close>

definition parked :: "tid \<Rightarrow> kstate \<Rightarrow> bool" where
  "parked t s \<longleftrightarrow> kernel_ok s \<and> th_object (ks_thread s t) \<noteq> Obj_Null \<and> th_suspended (ks_thread s t) \<and>
     (\<forall>h. (\<forall>p. h \<noteq> Ready p) \<longrightarrow> t \<notin> set (ks_list s h))"

lemma park_spec:
  assumes s: "kernel_ok s" and t: "may_block t s" and f: "flag \<noteq> Bad_Suspend_Flag" and k: "timeout_ok timeout"
  shows "\<exists>s1 s2 s3. rt_thread_suspend_with_flag t flag s = Some (RT_EOK, s1) \<and> arm_timeout t timeout s1 = Some s2 \<and>
    rt_schedule s2 = Some s3 \<and> parked t s3 \<and> ks_ipc s3 = ks_ipc s \<and>
    tm_activated (ck_timer (ks_clk s3) (Thread_Timer t)) = (0 < timeout) \<and>
    (\<forall>u. th_error (ks_thread s3 u) = th_error (ks_thread s u) \<and> (u \<noteq> t \<longrightarrow> th_suspended (ks_thread s3 u) = th_suspended (ks_thread s u))) \<and>
    (\<forall>u. u \<noteq> t \<longrightarrow> parked u s \<longrightarrow> parked u s3)"
proof -
  have c: "ks_current s = Some t" "th_state (ks_thread s t) = 3" using t by (simp_all add: may_block_def)
  have o: "th_object (ks_thread s t) \<noteq> Obj_Null" using sched_invD(8) [OF kernel_okD(1) [OF s] c(1)] by simp
  obtain s1 where s1: "rt_thread_suspend_with_flag t flag s = Some (RT_EOK, s1)" "kernel_ok s1" "suspended t s s1"
    using suspend_spec [OF s c f] by blast
  have t1: "th_object (ks_thread s1 t) \<noteq> Obj_Null" "th_suspended (ks_thread s1 t)" "unlinked t s1" "ks_ipc s1 = ks_ipc s"
    "\<not> tm_activated (ck_timer (ks_clk s1) (Thread_Timer t))"
    using s1(3) o by (auto simp: suspended_def th_suspended_state th_state_set_state)
  obtain c2 where c2: "arm_timeout t timeout s1 = Some (upd_clk c2 s1)" "kernel_ok (upd_clk c2 s1)"
    "tm_activated (ck_timer c2 (Thread_Timer t)) = (0 < timeout)"
    using arm_timeout_spec [OF s1(2) t1(1,2) k t1(5)] by blast
  obtain s3 where s3: "rt_schedule (upd_clk c2 s1) = Some s3" "kernel_ok s3" "sched_frame (upd_clk c2 s1) s3"
    using schedule_kernel_ok [OF c2(2)] by (auto simp: ok_iff)
  note fr = sched_frameD [OF s3(3)]
  have li: "ks_list s3 h = ks_list s h" if "\<forall>p. h \<noteq> Ready p" for h
    using sched_frame_list [OF s3(3) that] s1(3) by (simp add: suspended_def)
  have "t \<notin> set (ks_list s3 h)" if "\<forall>p. h \<noteq> Ready p" for h
    using sched_frame_list [OF s3(3) that] t1(3) by (simp add: unlinked_def)
  then have "parked t s3" using s3(2) t1 fr(8,9) by (simp add: parked_def)
  moreover have "th_error (ks_thread s3 u) = th_error (ks_thread s u)"
    "u \<noteq> t \<Longrightarrow> th_suspended (ks_thread s3 u) = th_suspended (ks_thread s u)" for u
    using fr(8,10) [of u] s1(3) by (auto simp: suspended_def)
  moreover have "parked u s3" if "u \<noteq> t" "parked u s" for u
    using that s3(2) fr(8,9) [of u] s1(3) li by (auto simp: parked_def suspended_def)
  ultimately show ?thesis using s1(1) c2(1,3) s3(1) fr(1,2) t1(4) by auto
qed

lemma unpark_spec:
  assumes "parked t s"
  shows "\<exists>s1 s2. rt_thread_resume t s = Some (RT_EOK, s1) \<and> rt_schedule s1 = Some s2 \<and> kernel_ok s2 \<and> ks_ipc s2 = ks_ipc s \<and>
    th_state (ks_thread s2 t) \<in> {2, 3} \<and> (\<forall>u. th_error (ks_thread s2 u) = th_error (ks_thread s u)) \<and>
    (\<forall>h. wait_head h \<longrightarrow> ks_list s2 h = ks_list s h) \<and> (\<forall>u. u \<noteq> t \<longrightarrow> parked u s \<longrightarrow> parked u s2)"
proof -
  have k: "kernel_ok s" "th_object (ks_thread s t) \<noteq> Obj_Null" "th_suspended (ks_thread s t)"
    "\<And>h. (\<forall>p. h \<noteq> Ready p) \<Longrightarrow> t \<notin> set (ks_list s h)" using assms by (auto simp: parked_def)
  obtain s1 where s1: "rt_thread_resume t s = Some (RT_EOK, s1)" "kernel_ok s1" "resumed t s s1" using resume_spec [OF k(1-3)] by blast
  obtain s2 where s2: "rt_schedule s1 = Some s2" "kernel_ok s2" "sched_frame s1 s2" using schedule_kernel_ok [OF s1(2)] by (auto simp: ok_iff)
  note fr = sched_frameD [OF s2(3)]
  have li: "ks_list s2 h = removeAll t (ks_list s h)" if "\<forall>p. h \<noteq> Ready p" for h
    using sched_frame_list [OF s2(3) that] s1(3) that by (simp add: resumed_def)
  have "th_state (ks_thread s2 t) \<in> {2, 3}" by (rule sched_frame_runnable [OF s2(3)]) (use s1(3) in \<open>simp add: resumed_def\<close>)
  moreover have "th_error (ks_thread s2 u) = th_error (ks_thread s u)" for u using fr(10) [of u] s1(3) by (simp add: resumed_def)
  moreover have "ks_list s2 h = ks_list s h" if "wait_head h" for h
    using li [of h] k(4) [of h] wait_head_not_ready [OF that] by (simp add: removeAll_notin)
  moreover have "parked u s2" if "u \<noteq> t" "parked u s" for u
    using that s1(3) s2(2) fr(8,9) [of u] li by (auto simp: parked_def resumed_def)
  moreover have "ks_ipc s2 = ks_ipc s" using fr(2) s1(3) by (simp add: resumed_def)
  ultimately show ?thesis using s1(1) s2(1,2) by blast
qed

section \<open>Waiting and waking\<close>

text \<open>
  The queue as long as no listed waiter has timed out: each is suspended and its wait has no error yet. A waiter that
  has timed out is listed until its thread runs again; \<open>wait_queue_loses_wakeup_after_timeout\<close> below shows what
  a wake-up does in between.
\<close>

definition wq_inv :: "'k rt_wqueue \<Rightarrow> kstate \<Rightarrow> bool" where
  "wq_inv q s \<longleftrightarrow> kernel_ok s \<and> distinct (map wn_addr (wq_waiting_list q)) \<and> distinct (map wn_polling_thread (wq_waiting_list q)) \<and>
     (\<forall>n \<in> set (wq_waiting_list q). parked (wn_polling_thread n) s \<and> th_error (ks_thread s (wn_polling_thread n)) = RT_EOK)"

lemma tick_of_ms: "msec < 2 ^ 31 \<Longrightarrow> sint (rt_tick_from_millisecond msec) = (if msec < 0 then - 1 else msec)"
proof -
  assume m: "msec < 2 ^ 31"
  have "(1000 * (msec mod 1000) + 999) div 1000 = msec mod 1000" by simp
  then have "rt_tick_from_millisecond msec = word_of_int msec" if "0 \<le> msec"
    using that unfolding rt_tick_from_millisecond_def RT_TICK_PER_SECOND_def of_int_add [symmetric] by simp
  then show ?thesis using m by (cases "0 \<le> msec") (simp_all add: rt_tick_from_millisecond_def signed_of_int signed_take_bit_int_eq_self)
qed

lemma wq_wake_loop_split:
  "wq_wake_loop key ns = Some n \<Longrightarrow> \<exists>xs ys. ns = xs @ n # ys \<and> wn_wakeup n key = 0 \<and> (\<forall>x \<in> set xs. wn_wakeup x key \<noteq> 0)"
proof (induction ns)
  case (Cons x ns)
  show ?case
  proof (cases "wn_wakeup x key = 0")
    case True
    then have "x # ns = [] @ n # ns \<and> wn_wakeup n key = 0" using Cons.prems by simp
    then show ?thesis by (metis empty_iff list.set(1))
  next
    case False
    then obtain xs ys where "ns = xs @ n # ys" "wn_wakeup n key = 0" "\<forall>x \<in> set xs. wn_wakeup x key \<noteq> 0" using Cons by auto
    with False have "x # ns = (x # xs) @ n # ys \<and> wn_wakeup n key = 0 \<and> (\<forall>x \<in> set (x # xs). wn_wakeup x key \<noteq> 0)" by simp
    then show ?thesis by blast
  qed
qed simp

lemma wq_wake_loop_None: "wq_wake_loop key ns = None \<longleftrightarrow> (\<forall>n \<in> set ns. wn_wakeup n key \<noteq> 0)"
  by (induction ns) auto

lemma filter_gone:
  assumes "distinct (map wn_addr (xs @ n # ys))"
  shows "filter (\<lambda>x. wn_addr x \<noteq> wn_addr n) (xs @ ys) = xs @ ys"
proof -
  have "wn_addr n \<notin> wn_addr ` (set xs \<union> set ys)" using assms by auto
  then have "\<forall>x \<in> set (xs @ ys). wn_addr x \<noteq> wn_addr n" by (metis imageI set_append)
  then show ?thesis by (simp only: filter_id_conv)
qed

lemma filter_addr:
  assumes "distinct (map wn_addr (xs @ n # ys))"
  shows "filter (\<lambda>x. wn_addr x \<noteq> wn_addr n) (xs @ n # ys) = xs @ ys"
  using filter_gone [OF assms] by simp

lemma wqueue_wait_spec:
  assumes q: "wq_inv q s" "a \<notin> wn_addr ` set (wq_waiting_list q)" and t: "may_block t s" "sf \<noteq> Bad_Suspend_Flag" and m: "msec < 0x7fffffff"
  shows "\<exists>r q' s'. wqueue_wait a condition msec sf q s = Some (r, q', s') \<and> wq_inv q' s' \<and>
    (if condition \<noteq> 0 \<or> msec = 0 then r = Ret 0 \<and> q' = q \<and> s' = s
     else if wq_flag q = RT_WQ_FLAG_WAKEUP then r = Ret RT_EOK \<and> q' = q\<lparr>wq_flag := RT_WQ_FLAG_CLEAN\<rparr>
     else r = Blocked \<and> parked t s' \<and> tm_activated (ck_timer (ks_clk s') (Thread_Timer t)) = (0 < msec) \<and>
       q' = rt_wqueue_add \<lparr>wn_addr = a, wn_polling_thread = t, wn_wakeup = wqueue_default_wake\<rparr> q)"
proof -
  have tk: "sint (rt_tick_from_millisecond msec) = (if msec < 0 then - 1 else msec)" using m by (intro tick_of_ms) simp
  have self: "rt_thread_self s = Some t" "scheduler_available s = Some ()"
    using t may_block_available by (auto simp: may_block_def rt_thread_self_def)
  have k: "kernel_ok s" using q(1) by (simp add: wq_inv_def)
  let ?s = "upd_thread t (\<lambda>th. th\<lparr>th_error := RT_EOK\<rparr>) s"
  have ks: "kernel_ok ?s" by (rule upd_error_ok [OF k])
  have pk: "parked u s \<longleftrightarrow> parked u ?s" for u
    using k ks by (simp add: parked_def th_suspended_state)
  have nt: "n \<in> set (wq_waiting_list q) \<Longrightarrow> wn_polling_thread n \<noteq> t" for n
    using q(1) t(1) by (auto simp: wq_inv_def parked_def may_block_def th_suspended_state)
  have i: "wq_inv q ?s" using q(1) ks pk by (auto simp: wq_inv_def)
  consider (now) "condition \<noteq> 0 \<or> msec = 0" | (flag) "\<not> (condition \<noteq> 0 \<or> msec = 0)" "wq_flag q = 1"
    | (block) "\<not> (condition \<noteq> 0 \<or> msec = 0)" "wq_flag q \<noteq> 1" by blast
  then show ?thesis
  proof cases
    case now
    then show ?thesis using self q(1) tk by (auto simp: wqueue_wait_def Let_def)
  next
    case flag
    have "filter (\<lambda>n. wn_addr n \<noteq> a) (wq_waiting_list q) = wq_waiting_list q" using q(2) by (auto simp: filter_id_conv)
    then have "wqueue_wait a condition msec sf q s = Some (Ret RT_EOK, q\<lparr>wq_flag := RT_WQ_FLAG_CLEAN\<rparr>, ?s)"
      using flag self tk by (simp add: wqueue_wait_def rt_wqueue_remove_def)
    moreover have "wq_inv (q\<lparr>wq_flag := RT_WQ_FLAG_CLEAN\<rparr>) ?s" using i by (simp add: wq_inv_def)
    ultimately show ?thesis using flag by simp
  next
    case block
    have "timeout_ok msec" using m by (simp add: timeout_ok_def)
    moreover have "may_block t ?s" using t(1) by simp
    ultimately obtain s1 s2 s3 where p: "rt_thread_suspend_with_flag t sf ?s = Some (RT_EOK, s1)" "arm_timeout t msec s1 = Some s2"
      "rt_schedule s2 = Some s3" "parked t s3" "tm_activated (ck_timer (ks_clk s3) (Thread_Timer t)) = (0 < msec)"
      "\<forall>u. th_error (ks_thread s3 u) = th_error (ks_thread ?s u) \<and> (u \<noteq> t \<longrightarrow> th_suspended (ks_thread s3 u) = th_suspended (ks_thread ?s u))"
      "\<forall>u. u \<noteq> t \<longrightarrow> parked u ?s \<longrightarrow> parked u s3"
      using park_spec [OF ks _ t(2)] by blast
    let ?q = "rt_wqueue_add \<lparr>wn_addr = a, wn_polling_thread = t, wn_wakeup = wqueue_default_wake\<rparr> q"
    have "wqueue_wait a condition msec sf q s = Some (Blocked, ?q, s3)"
      using block self tk p(1-3) by (auto simp: wqueue_wait_def arm_timeout_def)
    moreover have "wq_inv ?q s3"
      using i q(2) nt p(4,6,7) by (auto simp: wq_inv_def rt_wqueue_add_def parked_def)
    ultimately show ?thesis using block p(4,5) by simp
  qed
qed

lemma wqueue_wakeup_spec:
  assumes q: "wq_inv q s"
  shows "\<exists>q' s'. rt_wqueue_wakeup key q s = Some (q', s') \<and> wq_inv q' s' \<and> wq_flag q' = RT_WQ_FLAG_WAKEUP \<and>
    (if \<forall>n \<in> set (wq_waiting_list q). wn_wakeup n key \<noteq> 0 then wq_waiting_list q' = wq_waiting_list q \<and> s' = s
     else \<exists>xs n ys. wq_waiting_list q = xs @ n # ys \<and> (\<forall>x \<in> set xs. wn_wakeup x key \<noteq> 0) \<and> wn_wakeup n key = 0 \<and>
       wq_waiting_list q' = xs @ ys \<and> th_state (ks_thread s' (wn_polling_thread n)) \<in> {2, 3} \<and>
       wqueue_wait_resume (wn_addr n) (wn_polling_thread n) q' s' = (RT_EOK, q'\<lparr>wq_flag := RT_WQ_FLAG_CLEAN\<rparr>))"
proof (cases "wq_wake_loop key (wq_waiting_list q)")
  case None
  then have "rt_wqueue_wakeup key q s = Some (q\<lparr>wq_flag := 1\<rparr>, s)" by (simp add: rt_wqueue_wakeup_def)
  moreover have "wq_inv (q\<lparr>wq_flag := 1\<rparr>) s" using q by (simp add: wq_inv_def)
  ultimately show ?thesis using None by (simp add: wq_wake_loop_None)
next
  case (Some n)
  obtain xs ys where x: "wq_waiting_list q = xs @ n # ys" "wn_wakeup n key = 0" "\<forall>x \<in> set xs. wn_wakeup x key \<noteq> 0"
    using wq_wake_loop_split [OF Some] by blast
  let ?t = "wn_polling_thread n"
  have d: "distinct (map wn_addr (xs @ n # ys))" using q x(1) by (simp add: wq_inv_def)
  have p: "parked ?t s" "th_error (ks_thread s ?t) = RT_EOK" using q x(1) by (simp_all add: wq_inv_def)
  obtain s1 s2 where s2: "rt_thread_resume ?t s = Some (RT_EOK, s1)" "rt_schedule s1 = Some s2" "kernel_ok s2"
    "th_state (ks_thread s2 ?t) \<in> {2, 3}" "\<forall>u. th_error (ks_thread s2 u) = th_error (ks_thread s u)"
    "\<forall>u. u \<noteq> ?t \<longrightarrow> parked u s \<longrightarrow> parked u s2" using unpark_spec [OF p(1)] by blast
  let ?q = "q\<lparr>wq_flag := 1, wq_waiting_list := xs @ ys\<rparr>"
  have "rt_wqueue_wakeup key q s = Some (?q, s2)"
    using Some s2(1,2) filter_addr [OF d] by (simp add: rt_wqueue_wakeup_def rt_wqueue_remove_def x(1) [symmetric])
  moreover have "?t \<notin> wn_polling_thread ` (set xs \<union> set ys)" using q x(1) by (auto simp: wq_inv_def)
  then have ot: "\<forall>m \<in> set xs \<union> set ys. wn_polling_thread m \<noteq> ?t" by (metis imageI)
  moreover have "wq_inv ?q s2"
    using q s2(3,5,6) ot unfolding wq_inv_def x(1) by simp
  moreover have "wqueue_wait_resume (wn_addr n) ?t ?q s2 = (RT_EOK, ?q\<lparr>wq_flag := RT_WQ_FLAG_CLEAN\<rparr>)"
    using s2(5) p(2) filter_gone [OF d] by (simp add: wqueue_wait_resume_def rt_wqueue_remove_def)
  moreover have "\<not> (\<forall>n \<in> set (wq_waiting_list q). wn_wakeup n key \<noteq> 0)" using x(1,2) by auto
  ultimately show ?thesis using x s2(4) by (intro exI [of _ ?q] exI [of _ s2]) auto
qed

text \<open>A thread that times out leaves the threads waiting beside it as they are.\<close>

lemma timeout_leaves_parked:
  assumes w: "parked w s" "\<not> tm_activated (ck_timer (ks_clk s) (Thread_Timer w))" and u: "parked u s" "u \<noteq> w"
  shows "\<exists>s'. thread_timeout w s = Some s' \<and> kernel_ok s' \<and> th_error (ks_thread s' w) = - RT_ETIMEOUT \<and>
    th_state (ks_thread s' w) \<in> {2, 3} \<and> th_object (ks_thread s' w) \<noteq> Obj_Null \<and> parked u s'"
proof -
  have k: "kernel_ok s" "th_object (ks_thread s w) \<noteq> Obj_Null" "th_suspended (ks_thread s w)" using w(1) by (simp_all add: parked_def)
  let ?s1 = "list_remove w (upd_thread w (\<lambda>th. th\<lparr>th_error := - RT_ETIMEOUT\<rparr>) s)"
  let ?s2 = "rt_schedule_insert_thread w ?s1"
  note k2 = timeout_insert_ok [OF k w(2)]
  obtain s' where s': "rt_schedule ?s2 = Some s'" "kernel_ok s'" "sched_frame ?s2 s'" using schedule_kernel_ok [OF k2] by (auto simp: ok_iff)
  note fr = sched_frameD [OF s'(3)]
  have "thread_timeout w s = Some s'" using k s'(1) by (simp add: thread_timeout_def)
  moreover have "th_state (ks_thread s' w) \<in> {2, 3}" by (rule sched_frame_runnable [OF s'(3)]) simp
  moreover have "u \<notin> set (ks_list s' h)" if "\<forall>p. h \<noteq> Ready p" for h
    using sched_frame_list [OF s'(3) that] that u(1) by (simp add: rt_schedule_insert_thread_list Let_def parked_def)
  then have "parked u s'" using u s'(2) fr(8,9) [of u] by (simp add: parked_def)
  ultimately show ?thesis using s'(2) fr(9,10) [of w] k(2) by auto
qed

lemma resume_runnable:
  "th_object (ks_thread s w) \<noteq> Obj_Null \<Longrightarrow> th_state (ks_thread s w) \<in> {2, 3} \<Longrightarrow> rt_thread_resume w s = Some (- RT_ERROR, s)"
  by (auto simp: rt_thread_resume_def th_suspended_state)

lemma schedule_parked:
  assumes "kernel_ok s"
  shows "\<exists>s'. rt_schedule s = Some s' \<and> (\<forall>u. parked u s \<longrightarrow> parked u s') \<and> (\<forall>u. th_error (ks_thread s' u) = th_error (ks_thread s u))"
proof -
  obtain s' where s': "rt_schedule s = Some s'" "kernel_ok s'" "sched_frame s s'" using schedule_kernel_ok [OF assms] by (auto simp: ok_iff)
  have "parked u s'" if "parked u s" for u
    using that s'(2) sched_frameD(8,9) [OF s'(3), of u] sched_frame_list [OF s'(3)] by (simp add: parked_def)
  then show ?thesis using s'(1) sched_frameD(10) [OF s'(3)] by blast
qed

section \<open>Properties\<close>

text \<open>
  C40: As long as no waiter in the list has timed out, a wait queue wakes the first waiter whose function accepts the key, and no
  other. The waiter's call then returns RT_EOK and clears the flag. A wake-up that finds no such waiter is kept in the flag, and the next wait
  returns at once; otherwise a wait suspends the caller, on no kernel list, behind the waiters before it, its timer armed when the
  time is positive.
\<close>
theorem wait_queue_wakes_the_first_match:
  assumes "wq_inv q s"
  shows "(\<exists>q' s'. rt_wqueue_wakeup key q s = Some (q', s') \<and> wq_inv q' s' \<and> wq_flag q' = RT_WQ_FLAG_WAKEUP \<and>
      (if \<forall>n \<in> set (wq_waiting_list q). wn_wakeup n key \<noteq> 0 then wq_waiting_list q' = wq_waiting_list q \<and> s' = s
       else \<exists>xs n ys. wq_waiting_list q = xs @ n # ys \<and> (\<forall>x \<in> set xs. wn_wakeup x key \<noteq> 0) \<and> wn_wakeup n key = 0 \<and>
         wq_waiting_list q' = xs @ ys \<and> th_state (ks_thread s' (wn_polling_thread n)) \<in> {2, 3} \<and>
         wqueue_wait_resume (wn_addr n) (wn_polling_thread n) q' s' = (RT_EOK, q'\<lparr>wq_flag := RT_WQ_FLAG_CLEAN\<rparr>))) \<and>
    (may_block t s \<and> a \<notin> wn_addr ` set (wq_waiting_list q) \<and> msec < 0x7fffffff \<longrightarrow>
      (\<exists>r q' s'. rt_wqueue_wait a condition msec q s = Some (r, q', s') \<and> wq_inv q' s' \<and>
        (if condition \<noteq> 0 \<or> msec = 0 then r = Ret 0 \<and> q' = q \<and> s' = s
         else if wq_flag q = RT_WQ_FLAG_WAKEUP then r = Ret RT_EOK \<and> q' = q\<lparr>wq_flag := RT_WQ_FLAG_CLEAN\<rparr>
         else r = Blocked \<and> parked t s' \<and> tm_activated (ck_timer (ks_clk s') (Thread_Timer t)) = (0 < msec) \<and>
           q' = rt_wqueue_add \<lparr>wn_addr = a, wn_polling_thread = t, wn_wakeup = wqueue_default_wake\<rparr> q)))"
  using wqueue_wakeup_spec [OF assms, of key] wqueue_wait_spec [OF assms, of a t RT_UNINTERRUPTIBLE msec condition]
  unfolding rt_wqueue_wait_def by auto

text \<open>
  A wake-up is lost when it finds a waiter that has timed out and has not run since: its node takes the wake-up, which no
  thread receives, the second waiter stays suspended, and the first then returns -RT_ETIMEOUT and clears the flag.
\<close>
lemma wait_queue_loses_wakeup_after_timeout:
  assumes "wq_inv q s" "wq_waiting_list q = n # n' # ns" "wn_wakeup n key = 0"
    "\<not> tm_activated (ck_timer (ks_clk s) (Thread_Timer (wn_polling_thread n)))"
  shows "\<exists>s1 q2 s2 q3. thread_timeout (wn_polling_thread n) s = Some s1 \<and> rt_wqueue_wakeup key q s1 = Some (q2, s2) \<and>
    wqueue_wait_resume (wn_addr n) (wn_polling_thread n) q2 s2 = (- RT_ETIMEOUT, q3) \<and>
    wq_flag q3 = RT_WQ_FLAG_CLEAN \<and> wq_waiting_list q3 = n' # ns \<and> parked (wn_polling_thread n') s2"
proof -
  let ?w = "wn_polling_thread n" let ?u = "wn_polling_thread n'"
  have p: "parked ?w s" "parked ?u s" "?u \<noteq> ?w" "distinct (map wn_addr ([] @ n # n' # ns))"
    using assms(1,2) by (auto simp: wq_inv_def)
  obtain s1 where s1: "thread_timeout ?w s = Some s1" "kernel_ok s1" "th_error (ks_thread s1 ?w) = - RT_ETIMEOUT"
    "th_state (ks_thread s1 ?w) \<in> {2, 3}" "th_object (ks_thread s1 ?w) \<noteq> Obj_Null" "parked ?u s1"
    using timeout_leaves_parked [OF p(1) assms(4) p(2,3)] by blast
  obtain s2 where s2: "rt_schedule s1 = Some s2" "parked ?u s2" "th_error (ks_thread s2 ?w) = - RT_ETIMEOUT"
    using schedule_parked [OF s1(2)] s1(3,6) by auto
  have f: "filter (\<lambda>x. wn_addr x \<noteq> wn_addr n) (n' # ns) = n' # ns" using filter_addr [OF p(4)] by simp
  have "rt_wqueue_wakeup key q s1 = Some (q\<lparr>wq_flag := 1, wq_waiting_list := n' # ns\<rparr>, s2)"
    using assms(2,3) resume_runnable [OF s1(5,4)] s2(1) f by (simp add: rt_wqueue_wakeup_def rt_wqueue_remove_def)
  then show ?thesis using s1(1) s2(2,3) f by (simp add: wqueue_wait_resume_def rt_wqueue_remove_def)
qed

lemma sample_wq_inv: "wq_inv rt_wqueue_init sample_kernel"
  using sample_kernel_kernel_ok by (simp add: wq_inv_def rt_wqueue_init_def)

theorem wait_queue_wakes_the_first_match_witness:
  "\<exists>q' s'. rt_wqueue_wait 100 0 20 (rt_wqueue_init :: unit rt_wqueue) sample_kernel = Some (Blocked, q', s') \<and> parked 1 s' \<and>
    map wn_polling_thread (wq_waiting_list q') = [1]"
  using wait_queue_wakes_the_first_match [OF sample_wq_inv, of "()" 1 100 20 0] sample_may_block
  by (auto simp: rt_wqueue_init_def rt_wqueue_add_def)

text \<open>Threads 1 and 2 are suspended, the idle thread runs.\<close>

definition two_waiting :: kstate where
  "two_waiting = sample_kernel\<lparr>
     ks_thread := (ks_thread sample_kernel)(0 := sample_thread 31 3, 1 := sample_thread 5 4, 2 := sample_thread 5 4),
     ks_list := (\<lambda>_. [])(Ready 5 := [3]), ks_group := 0x20, ks_current := Some 0\<rparr>"

lemma two_waiting_ok: "kernel_ok two_waiting"
proof -
  have "queues_ok two_waiting"
    by (auto simp: queues_ok_def two_waiting_def sample_kernel_def sample_thread_def th_state_def split: if_splits)
  moreover have "bitmap_ok two_waiting" unfolding bitmap_ok_def
  proof (intro conjI allI impI)
    show "bit (ks_group two_waiting) p = (ks_list two_waiting (Ready p) \<noteq> [])" for p
      using bit_prio [of 5 p] by (simp add: two_waiting_def)
  qed (simp add: two_waiting_def)
  moreover have "states_ok {} two_waiting"
    by (auto simp: states_ok_def state_ok_def two_waiting_def sample_kernel_def sample_thread_def no_thread_def th_state_def Let_def)
  moreover have "masks_ok two_waiting"
    by (auto simp: masks_ok_def mask_ok_def started_def two_waiting_def sample_kernel_def sample_thread_def no_thread_def
        RT_THREAD_PRIORITY_MAX_def)
  moreover have "thread_timer_ok two_waiting t" for t
    by (auto simp: thread_timer_ok_def two_waiting_def sample_kernel_def sample_clk_def sample_timer_def sample_thread_def
        tm_activated_def RT_TIMER_FLAG_ACTIVATED_def tm_periodic_def RT_TIMER_FLAG_PERIODIC_def Let_def)
  moreover have "timers_linked (ks_clk two_waiting)" using sample_kernel_kernel_ok by (simp add: kernel_ok_def two_waiting_def)
  ultimately show ?thesis by (simp add: kernel_ok_def sched_inv_def two_waiting_def)
qed

definition two_waiters :: "unit rt_wqueue" where
  "two_waiters = \<lparr>wq_flag = 0, wq_waiting_list = [\<lparr>wn_addr = 100, wn_polling_thread = 1, wn_wakeup = wqueue_default_wake\<rparr>,
     \<lparr>wn_addr = 200, wn_polling_thread = 2, wn_wakeup = wqueue_default_wake\<rparr>]\<rparr>"

lemma two_waiters_inv: "wq_inv two_waiters two_waiting"
  using two_waiting_ok by (simp add: wq_inv_def two_waiters_def parked_def two_waiting_def sample_kernel_def sample_thread_def
      th_suspended_def)

lemma wait_queue_loses_wakeup_after_timeout_witness:
  "\<exists>s1 q2 s2 q3. thread_timeout 1 two_waiting = Some s1 \<and> rt_wqueue_wakeup () two_waiters s1 = Some (q2, s2) \<and>
    wqueue_wait_resume 100 1 q2 s2 = (- RT_ETIMEOUT, q3) \<and> wq_flag q3 = 0 \<and> map wn_polling_thread (wq_waiting_list q3) = [2] \<and>
    parked 2 s2"
proof -
  let ?n = "\<lambda>a t. \<lparr>wn_addr = a, wn_polling_thread = t, wn_wakeup = wqueue_default_wake\<rparr> :: unit rt_wqueue_node"
  have "wq_waiting_list two_waiters = ?n 100 1 # ?n 200 2 # []" by (simp add: two_waiters_def)
  from wait_queue_loses_wakeup_after_timeout [OF two_waiters_inv this, of "()"] show ?thesis
    by (auto simp: wqueue_default_wake_def two_waiting_def sample_kernel_def sample_clk_def sample_timer_def tm_activated_def
        RT_TIMER_FLAG_ACTIVATED_def)
qed

end
