(* ===== verification/Memheap.thy ===== *)
theory Memheap
  imports Semaphore Small_Mem Rt_List
begin

text \<open>
  Memory heaps (\<open>src/memheap.c\<close>): an allocator whose blocks are on a circular list in the order of their addresses
  and, when free, on a second circular list through a header in the control block. The calls work
  under a semaphore. The data structure is related to a list of blocks and a list of free blocks.
\<close>

section \<open>State\<close>

abbreviation (input) RT_MEMHEAP_MAGIC :: u32 where "RT_MEMHEAP_MAGIC \<equiv> 0x1ea01ea0"
abbreviation (input) RT_MEMHEAP_MASK :: u32 where "RT_MEMHEAP_MASK \<equiv> 0xFFFFFFFE"
abbreviation (input) RT_MEMHEAP_USED :: u32 where "RT_MEMHEAP_USED \<equiv> 1"
abbreviation (input) RT_MEMHEAP_FREED :: u32 where "RT_MEMHEAP_FREED \<equiv> 0"
abbreviation (input) RT_MEMHEAP_MINIALLOC :: nat where "RT_MEMHEAP_MINIALLOC \<equiv> 16"
abbreviation (input) RT_MEMHEAP_SIZE :: nat where "RT_MEMHEAP_SIZE \<equiv> 24"

record rt_memheap_item =
  mi_magic :: u32
  mi_pool_ptr :: nat
  mi_next :: nat
  mi_prev :: nat
  mi_next_free :: nat
  mi_prev_free :: nat

text \<open>
  Addresses are naturals, 0 is RT_NULL. \<open>mh_self\<close> is the address of the control block, \<open>mh_item\<close> the headers in
  memory by address, the free list header among them, \<open>mh_data\<close> the bytes of the blocks, \<open>mh_lock\<close> the
  number of the semaphore.
\<close>

record rt_memheap =
  mh_self :: nat
  mh_object :: obj_kind
  mh_start_addr :: nat
  mh_pool_size :: nat
  mh_available_size :: nat
  mh_max_used_size :: nat
  mh_block_list :: nat
  mh_free_list :: nat
  mh_lock :: nat
  mh_locked :: bool
  mh_item :: "nat \<Rightarrow> rt_memheap_item"
  mh_data :: "nat \<Rightarrow> u8"

definition upd_mi :: "nat \<Rightarrow> (rt_memheap_item \<Rightarrow> rt_memheap_item) \<Rightarrow> rt_memheap \<Rightarrow> rt_memheap" where
  "upd_mi p f m = m\<lparr>mh_item := (mh_item m)(p := f (mh_item m p))\<rparr>"

definition RT_MEMHEAP_IS_USED :: "rt_memheap \<Rightarrow> nat \<Rightarrow> bool" where
  "RT_MEMHEAP_IS_USED m p \<longleftrightarrow> mi_magic (mh_item m p) AND RT_MEMHEAP_USED \<noteq> 0"

definition MEMITEM_SIZE :: "rt_memheap \<Rightarrow> nat \<Rightarrow> nat" where
  "MEMITEM_SIZE m p = sub32 (sub32 (mi_next (mh_item m p)) p) RT_MEMHEAP_SIZE"

section \<open>Operations\<close>

definition rt_memheap_init ::
  "nat \<Rightarrow> nat \<Rightarrow> nat \<Rightarrow> nat \<Rightarrow> nat \<Rightarrow> rt_memheap \<Rightarrow> kstate \<Rightarrow> (int \<times> rt_memheap \<times> kstate) option" where
  "rt_memheap_init self free_header lock start_addr sz m s = do {
     let m = m\<lparr>mh_self := self, mh_object := Obj_Static, mh_start_addr := start_addr,
               mh_pool_size := RT_ALIGN_DOWN sz RT_ALIGN_SIZE\<rparr>;
     let m = m\<lparr>mh_available_size := sub32 (mh_pool_size m) (2 * RT_MEMHEAP_SIZE)\<rparr>;
     let m = m\<lparr>mh_max_used_size := sub32 (mh_pool_size m) (mh_available_size m)\<rparr>;
     let item = free_header;
     let m = upd_mi item (\<lambda>_. \<lparr>mi_magic = RT_MEMHEAP_MAGIC OR RT_MEMHEAP_FREED, mi_pool_ptr = self, mi_next = 0, mi_prev = 0,
               mi_next_free = item, mi_prev_free = item\<rparr>) m;
     let m = m\<lparr>mh_free_list := item\<rparr>;
     let item = start_addr;
     let m = upd_mi item (\<lambda>_. \<lparr>mi_magic = RT_MEMHEAP_MAGIC OR RT_MEMHEAP_FREED, mi_pool_ptr = self, mi_next = 0, mi_prev = 0,
               mi_next_free = item, mi_prev_free = item\<rparr>) m;
     let m = upd_mi item (\<lambda>x. x\<lparr>mi_next := add32 (add32 item (mh_available_size m)) RT_MEMHEAP_SIZE\<rparr>) m;
     let m = upd_mi item (\<lambda>x. x\<lparr>mi_prev := mi_next x\<rparr>) m;
     let m = m\<lparr>mh_block_list := item\<rparr>;
     let m = upd_mi item (\<lambda>x. x\<lparr>mi_next_free := mi_next_free (mh_item m (mh_free_list m))\<rparr>) m;
     let m = upd_mi item (\<lambda>x. x\<lparr>mi_prev_free := mh_free_list m\<rparr>) m;
     let m = upd_mi (mi_next_free (mh_item m (mh_free_list m))) (\<lambda>x. x\<lparr>mi_prev_free := item\<rparr>) m;
     let m = upd_mi (mh_free_list m) (\<lambda>x. x\<lparr>mi_next_free := item\<rparr>) m;
     let item = mi_next (mh_item m item);
     let m = upd_mi item (\<lambda>_. \<lparr>mi_magic = RT_MEMHEAP_MAGIC OR RT_MEMHEAP_USED, mi_pool_ptr = self, mi_next = start_addr,
               mi_prev = start_addr, mi_next_free = 0, mi_prev_free = 0\<rparr>) m;
     (_, s) \<leftarrow> rt_sem_init lock 1 PRIO s;
     Some (RT_EOK, m\<lparr>mh_lock := lock, mh_locked := False\<rparr>, s)
   }"

definition rt_memheap_detach :: "rt_memheap \<Rightarrow> kstate \<Rightarrow> (int \<times> rt_memheap \<times> kstate) option" where
  "rt_memheap_detach m s = do {
     rt_assert (mh_object m \<noteq> Obj_Null);
     rt_assert (mh_object m = Obj_Static);
     (_, s) \<leftarrow> rt_sem_detach (mh_lock m) s;
     Some (RT_EOK, m\<lparr>mh_object := Obj_Null\<rparr>, s)
   }"

text \<open>The lock. A call that has to wait for it ends in \<open>Blocked\<close>; what is left of it is its section under the lock.\<close>

definition mh_take :: "rt_memheap \<Rightarrow> kstate \<Rightarrow> (outcome \<times> kstate) option" where
  "mh_take m s = (if \<not> mh_locked m then rt_sem_take (mh_lock m) (- 1) s else Some (Ret RT_EOK, s))"

definition mh_release :: "rt_memheap \<Rightarrow> kstate \<Rightarrow> kstate option" where
  "mh_release m s =
     (if \<not> mh_locked m then do { (_, s) \<leftarrow> rt_sem_release (mh_lock m) s; Some s } else Some s)"

text \<open>Steps on the two lists that several operations share. Only free-list pointers are ever RT_NULL.\<close>

definition mh_unlink :: "nat \<Rightarrow> rt_memheap \<Rightarrow> rt_memheap option" where
  "mh_unlink p m = do {
     rt_assert (mi_next_free (mh_item m p) \<noteq> 0 \<and> mi_prev_free (mh_item m p) \<noteq> 0);
     let m = upd_mi (mi_next_free (mh_item m p)) (\<lambda>x. x\<lparr>mi_prev_free := mi_prev_free (mh_item m p)\<rparr>) m;
     Some (upd_mi (mi_prev_free (mh_item m p)) (\<lambda>x. x\<lparr>mi_next_free := mi_next_free (mh_item m p)\<rparr>) m)
   }"

definition mh_push :: "nat \<Rightarrow> rt_memheap \<Rightarrow> rt_memheap" where
  "mh_push p m =
     (let m = upd_mi p (\<lambda>x. x\<lparr>mi_next_free := mi_next_free (mh_item m (mh_free_list m))\<rparr>) m;
          m = upd_mi p (\<lambda>x. x\<lparr>mi_prev_free := mh_free_list m\<rparr>) m;
          m = upd_mi (mi_next_free (mh_item m (mh_free_list m))) (\<lambda>x. x\<lparr>mi_prev_free := p\<rparr>) m
      in upd_mi (mh_free_list m) (\<lambda>x. x\<lparr>mi_next_free := p\<rparr>) m)"

text \<open>A new free block at \<open>q\<close>, behind the block at \<open>p\<close>.\<close>

definition mh_new_block :: "nat \<Rightarrow> nat \<Rightarrow> rt_memheap \<Rightarrow> rt_memheap" where
  "mh_new_block q p m =
     (let m = upd_mi q (\<lambda>x. x\<lparr>mi_magic := RT_MEMHEAP_MAGIC OR RT_MEMHEAP_FREED\<rparr>) m;
          m = upd_mi q (\<lambda>x. x\<lparr>mi_pool_ptr := mh_self m\<rparr>) m;
          m = upd_mi q (\<lambda>x. x\<lparr>mi_prev := p\<rparr>) m;
          m = upd_mi q (\<lambda>x. x\<lparr>mi_next := mi_next (mh_item m p)\<rparr>) m;
          m = upd_mi (mi_next (mh_item m p)) (\<lambda>x. x\<lparr>mi_prev := q\<rparr>) m
      in upd_mi p (\<lambda>x. x\<lparr>mi_next := q\<rparr>) m)"

definition mh_account :: "rt_memheap \<Rightarrow> rt_memheap" where
  "mh_account m =
     (if mh_max_used_size m < sub32 (mh_pool_size m) (mh_available_size m)
      then m\<lparr>mh_max_used_size := sub32 (mh_pool_size m) (mh_available_size m)\<rparr> else m)"

definition mh_clear_links :: "nat \<Rightarrow> rt_memheap \<Rightarrow> rt_memheap" where
  "mh_clear_links p m = upd_mi p (\<lambda>x. x\<lparr>mi_next_free := 0, mi_prev_free := 0\<rparr>) m"

text \<open>Aligning a size, as \<open>rt_memheap_alloc\<close> and \<open>rt_memheap_realloc\<close> begin.\<close>

definition mh_size :: "nat \<Rightarrow> nat" where
  "mh_size sz = (let sz = RT_ALIGN sz RT_ALIGN_SIZE in if sz < RT_MEMHEAP_MINIALLOC then RT_MEMHEAP_MINIALLOC else sz)"

partial_function (option) mh_search :: "nat \<Rightarrow> nat \<Rightarrow> nat \<Rightarrow> rt_memheap \<Rightarrow> (nat \<times> nat) option" where
  "mh_search sz header_ptr free_size m =
     (if header_ptr \<noteq> mh_free_list m \<and> free_size < sz
      then let free_size = MEMITEM_SIZE m header_ptr in
           (if free_size < sz then mh_search sz (mi_next_free (mh_item m header_ptr)) free_size m
            else mh_search sz header_ptr free_size m)
      else Some (header_ptr, free_size))"

definition mh_split :: "nat \<Rightarrow> nat \<Rightarrow> rt_memheap \<Rightarrow> rt_memheap option" where
  "mh_split sz header_ptr m = do {
     let new_ptr = add32 (add32 header_ptr sz) RT_MEMHEAP_SIZE;
     let m = mh_new_block new_ptr header_ptr m;
     m \<leftarrow> mh_unlink header_ptr m;
     let m = mh_clear_links header_ptr m;
     let m = mh_push new_ptr m;
     Some (mh_account (m\<lparr>mh_available_size := sub32 (sub32 (mh_available_size m) sz) RT_MEMHEAP_SIZE\<rparr>))
   }"

definition mh_take_whole :: "nat \<Rightarrow> nat \<Rightarrow> rt_memheap \<Rightarrow> rt_memheap option" where
  "mh_take_whole free_size header_ptr m = do {
     let m = mh_account (m\<lparr>mh_available_size := sub32 (mh_available_size m) free_size\<rparr>);
     m \<leftarrow> mh_unlink header_ptr m;
     Some (mh_clear_links header_ptr m)
   }"

text \<open>The section of \<open>rt_memheap_alloc\<close> under the lock.\<close>

definition memheap_alloc_section :: "nat \<Rightarrow> rt_memheap \<Rightarrow> (nat option \<times> rt_memheap) option" where
  "memheap_alloc_section sz m = do {
     (header_ptr, free_size) \<leftarrow> mh_search sz (mi_next_free (mh_item m (mh_free_list m))) 0 m;
     if sz \<le> free_size
     then do {
       m \<leftarrow> (if add32 (add32 sz RT_MEMHEAP_SIZE) RT_MEMHEAP_MINIALLOC \<le> free_size
            then mh_split sz header_ptr m else mh_take_whole free_size header_ptr m);
       let m = upd_mi header_ptr (\<lambda>x. x\<lparr>mi_magic := RT_MEMHEAP_MAGIC OR RT_MEMHEAP_USED\<rparr>) m;
       Some (Some (header_ptr + RT_MEMHEAP_SIZE), m)
     }
     else Some (None, m)
   }"

text \<open>A call between taking and releasing the lock; \<open>Blocked\<close> or an error when the lock is not got.\<close>

definition mh_with_lock ::
  "(rt_memheap \<Rightarrow> ('a \<times> rt_memheap) option) \<Rightarrow> 'a \<Rightarrow> rt_memheap \<Rightarrow> kstate \<Rightarrow> (outcome \<times> 'a \<times> rt_memheap \<times> kstate) option" where
  "mh_with_lock section fail m s = do {
     (r, s) \<leftarrow> mh_take m s;
     if r \<noteq> Ret RT_EOK then Some (r, fail, m, s)
     else do {
       (a, m) \<leftarrow> section m;
       s \<leftarrow> mh_release m s;
       Some (Ret RT_EOK, a, m, s)
     }
   }"

definition rt_memheap_alloc ::
  "nat \<Rightarrow> rt_memheap \<Rightarrow> kstate \<Rightarrow> (outcome \<times> nat option \<times> rt_memheap \<times> kstate) option" where
  "rt_memheap_alloc sz m s = do {
     rt_assert (mh_object m \<noteq> Obj_Null);
     if mh_size sz < mh_available_size m
     then mh_with_lock (memheap_alloc_section (mh_size sz)) None m s
     else Some (Ret RT_EOK, None, m, s)
   }"

text \<open>The two merges of \<open>rt_memheap_free\<close>: the block to keep, and whether the block freed is still to be linked.\<close>

definition mh_merge_prev :: "nat \<Rightarrow> rt_memheap \<Rightarrow> nat \<times> bool \<times> rt_memheap" where
  "mh_merge_prev header_ptr m =
     (if \<not> RT_MEMHEAP_IS_USED m (mi_prev (mh_item m header_ptr))
      then let m = m\<lparr>mh_available_size := add32 (mh_available_size m) RT_MEMHEAP_SIZE\<rparr>;
               m = upd_mi (mi_prev (mh_item m header_ptr)) (\<lambda>x. x\<lparr>mi_next := mi_next (mh_item m header_ptr)\<rparr>) m;
               m = upd_mi (mi_next (mh_item m header_ptr)) (\<lambda>x. x\<lparr>mi_prev := mi_prev (mh_item m header_ptr)\<rparr>) m
           in (mi_prev (mh_item m header_ptr), False, m)
      else (header_ptr, True, m))"

definition mh_join_next :: "nat \<Rightarrow> nat \<Rightarrow> rt_memheap \<Rightarrow> rt_memheap" where
  "mh_join_next header_ptr new_ptr m =
     (let m = upd_mi (mi_next (mh_item m new_ptr)) (\<lambda>x. x\<lparr>mi_prev := header_ptr\<rparr>) m
      in upd_mi header_ptr (\<lambda>x. x\<lparr>mi_next := mi_next (mh_item m new_ptr)\<rparr>) m)"

definition mh_merge_next :: "nat \<Rightarrow> rt_memheap \<Rightarrow> rt_memheap option" where
  "mh_merge_next header_ptr m =
     (if \<not> RT_MEMHEAP_IS_USED m (mi_next (mh_item m header_ptr))
      then let m = m\<lparr>mh_available_size := add32 (mh_available_size m) RT_MEMHEAP_SIZE\<rparr>;
               new_ptr = mi_next (mh_item m header_ptr)
           in mh_unlink new_ptr (mh_join_next header_ptr new_ptr m)
      else Some m)"

definition mh_insert_free :: "nat \<Rightarrow> rt_memheap \<Rightarrow> rt_memheap" where
  "mh_insert_free header_ptr m =
     (let n = mi_next_free (mh_item m (mh_free_list m));
          m = upd_mi header_ptr (\<lambda>x. x\<lparr>mi_next_free := n\<rparr>) m;
          m = upd_mi header_ptr (\<lambda>x. x\<lparr>mi_prev_free := mi_prev_free (mh_item m n)\<rparr>) m;
          m = upd_mi (mi_prev_free (mh_item m n)) (\<lambda>x. x\<lparr>mi_next_free := header_ptr\<rparr>) m
      in upd_mi n (\<lambda>x. x\<lparr>mi_prev_free := header_ptr\<rparr>) m)"

definition memheap_free_section :: "nat \<Rightarrow> rt_memheap \<Rightarrow> (unit \<times> rt_memheap) option" where
  "memheap_free_section header_ptr m = do {
     let m = upd_mi header_ptr (\<lambda>x. x\<lparr>mi_magic := RT_MEMHEAP_MAGIC OR RT_MEMHEAP_FREED\<rparr>) m;
     let m = m\<lparr>mh_available_size := add32 (mh_available_size m) (MEMITEM_SIZE m header_ptr)\<rparr>;
     let (header_ptr, insert_header, m) = mh_merge_prev header_ptr m;
     m \<leftarrow> mh_merge_next header_ptr m;
     Some ((), if insert_header then mh_insert_free header_ptr m else m)
   }"

text \<open>The heap that the block belongs to is the one modelled.\<close>

definition rt_memheap_free ::
  "nat option \<Rightarrow> rt_memheap \<Rightarrow> kstate \<Rightarrow> (outcome \<times> unit \<times> rt_memheap \<times> kstate) option" where
  "rt_memheap_free ptr m s =
     (case ptr of
        None \<Rightarrow> Some (Ret RT_EOK, (), m, s)
      | Some p \<Rightarrow> do {
          let header_ptr = p - RT_MEMHEAP_SIZE;
          rt_assert (mi_magic (mh_item m header_ptr) = RT_MEMHEAP_MAGIC OR RT_MEMHEAP_USED);
          rt_assert (mi_magic (mh_item m (mi_next (mh_item m header_ptr))) AND RT_MEMHEAP_MASK = RT_MEMHEAP_MAGIC);
          rt_assert (mi_pool_ptr (mh_item m header_ptr) = mh_self m);
          rt_assert (mh_object m \<noteq> Obj_Null);
          mh_with_lock (memheap_free_section header_ptr) () m s
        })"

text \<open>
  The sections of \<open>rt_memheap_realloc\<close>: growing into the next block, with the result whether that was possible,
  and splitting off the end of the block.
\<close>

definition mh_remove_next_ptr :: "nat \<Rightarrow> rt_memheap \<Rightarrow> rt_memheap option" where
  "mh_remove_next_ptr next_ptr m = do {
     m \<leftarrow> mh_unlink next_ptr m;
     let m = upd_mi (mi_next (mh_item m next_ptr)) (\<lambda>x. x\<lparr>mi_prev := mi_prev (mh_item m next_ptr)\<rparr>) m;
     Some (upd_mi (mi_prev (mh_item m next_ptr)) (\<lambda>x. x\<lparr>mi_next := mi_next (mh_item m next_ptr)\<rparr>) m)
   }"

definition memheap_grow_section :: "nat \<Rightarrow> nat \<Rightarrow> nat \<Rightarrow> rt_memheap \<Rightarrow> (bool \<times> rt_memheap) option" where
  "memheap_grow_section header_ptr oldsize newsize m = do {
     let next_ptr = mi_next (mh_item m header_ptr);
     rt_assert (header_ptr < next_ptr);
     if \<not> RT_MEMHEAP_IS_USED m next_ptr \<and> add32 newsize RT_MEMHEAP_MINIALLOC < add32 (MEMITEM_SIZE m next_ptr) oldsize
     then do {
       let m = mh_account (m\<lparr>mh_available_size := sub32 (mh_available_size m) (newsize - oldsize)\<rparr>);
       m \<leftarrow> mh_remove_next_ptr next_ptr m;
       let next_ptr = add32 (header_ptr + RT_MEMHEAP_SIZE) newsize;
       Some (True, mh_push next_ptr (mh_new_block next_ptr header_ptr m))
     }
     else Some (False, m)
   }"

definition memheap_shrink_section :: "nat \<Rightarrow> nat \<Rightarrow> rt_memheap \<Rightarrow> (unit \<times> rt_memheap) option" where
  "memheap_shrink_section header_ptr newsize m = do {
     let new_ptr = add32 (add32 header_ptr newsize) RT_MEMHEAP_SIZE;
     let m = mh_new_block new_ptr header_ptr m;
     m \<leftarrow> (if \<not> RT_MEMHEAP_IS_USED m (mi_next (mh_item m new_ptr))
          then do {
            let free_ptr = mi_next (mh_item m new_ptr);
            let m = m\<lparr>mh_available_size := sub32 (mh_available_size m) (MEMITEM_SIZE m free_ptr)\<rparr>;
            mh_unlink free_ptr (mh_join_next new_ptr free_ptr m)
          }
          else Some m);
     let m = mh_push new_ptr m;
     Some ((), m\<lparr>mh_available_size := add32 (mh_available_size m) (MEMITEM_SIZE m new_ptr)\<rparr>)
   }"

text \<open>\<open>rt_memcpy\<close> between the data of blocks.\<close>

definition mh_copy :: "nat \<Rightarrow> nat \<Rightarrow> nat \<Rightarrow> rt_memheap \<Rightarrow> rt_memheap" where
  "mh_copy dst src n m = m\<lparr>mh_data := (\<lambda>a. if dst \<le> a \<and> a < dst + n then mh_data m (src + (a - dst)) else mh_data m a)\<rparr>"

definition rt_memheap_realloc ::
  "nat option \<Rightarrow> nat \<Rightarrow> rt_memheap \<Rightarrow> kstate \<Rightarrow> (outcome \<times> nat option \<times> rt_memheap \<times> kstate) option" where
  "rt_memheap_realloc ptr newsize m s = do {
     rt_assert (mh_object m \<noteq> Obj_Null);
     if newsize = 0 then do { (r, _, m, s) \<leftarrow> rt_memheap_free ptr m s; Some (r, None, m, s) }
     else let newsize = mh_size newsize in
       (case ptr of
          None \<Rightarrow> rt_memheap_alloc newsize m s
        | Some p \<Rightarrow> do {
            let header_ptr = p - RT_MEMHEAP_SIZE;
            let oldsize = MEMITEM_SIZE m header_ptr;
            if oldsize < newsize
            then do {
              (r, grown, m, s) \<leftarrow> mh_with_lock (memheap_grow_section header_ptr oldsize newsize) False m s;
              if r \<noteq> Ret RT_EOK then Some (r, None, m, s)
              else if grown then Some (Ret RT_EOK, ptr, m, s)
              else do {
                (r, new_ptr, m, s) \<leftarrow> rt_memheap_alloc newsize m s;
                (case new_ptr of
                   None \<Rightarrow> Some (r, None, m, s)
                 | Some q \<Rightarrow> do {
                     (r, _, m, s) \<leftarrow> rt_memheap_free ptr (mh_copy q p (if oldsize < newsize then oldsize else newsize) m) s;
                     Some (r, new_ptr, m, s)
                   })
              }
            }
            else if oldsize \<le> add32 (add32 newsize RT_MEMHEAP_SIZE) RT_MEMHEAP_MINIALLOC then Some (Ret RT_EOK, ptr, m, s)
            else do {
              (r, _, m, s) \<leftarrow> mh_with_lock (memheap_shrink_section header_ptr newsize) () m s;
              Some (r, if r = Ret RT_EOK then ptr else None, m, s)
            }
          })
   }"

text \<open>Total, used and maximally used bytes.\<close>

definition rt_memheap_info :: "rt_memheap \<Rightarrow> kstate \<Rightarrow> (outcome \<times> (nat \<times> nat \<times> nat) option \<times> rt_memheap \<times> kstate) option" where
  "rt_memheap_info m s =
     mh_with_lock (\<lambda>m. Some (Some (mh_pool_size m, sub32 (mh_pool_size m) (mh_available_size m), mh_max_used_size m), m)) None m s"

end
