(* ===== verification/Memheap_Blocks.thy ===== *)
theory Memheap_Blocks
  imports Memheap
begin

text \<open>
  The two lists of a memory heap, as views of its headers: \<open>hdrs\<close> holds what the list of all blocks is made of,
  \<open>links\<close> the free list. Each step of the operations changes one view in a way that is stated on
  lists of blocks, and leaves the other alone.
\<close>

section \<open>The views\<close>

type_synonym hdr = "u32 \<times> nat \<times> nat \<times> nat"

definition hdrs :: "rt_memheap \<Rightarrow> nat \<Rightarrow> hdr" where
  "hdrs m p = (mi_magic (mh_item m p), mi_pool_ptr (mh_item m p), mi_next (mh_item m p), mi_prev (mh_item m p))"

definition links :: "rt_memheap \<Rightarrow> nat list_heap" where
  "links m = \<lparr>ln_next = (\<lambda>p. mi_next_free (mh_item m p)), ln_prev = (\<lambda>p. mi_prev_free (mh_item m p))\<rparr>"

fun with_next :: "nat \<Rightarrow> hdr \<Rightarrow> hdr" where "with_next n (a, b, c, d) = (a, b, n, d)"
fun with_prev :: "nat \<Rightarrow> hdr \<Rightarrow> hdr" where "with_prev n (a, b, c, d) = (a, b, c, n)"
fun prev_of :: "hdr \<Rightarrow> nat" where "prev_of (a, b, c, d) = d"

abbreviation mh_magic :: "bool \<Rightarrow> u32" where
  "mh_magic u \<equiv> (if u then RT_MEMHEAP_MAGIC OR RT_MEMHEAP_USED else RT_MEMHEAP_MAGIC OR RT_MEMHEAP_FREED)"

text \<open>From \<open>off\<close> on the headers describe \<open>bs\<close>; the header behind them points back to the last block, or to \<open>pv\<close>.\<close>

fun seg :: "nat \<Rightarrow> (nat \<Rightarrow> hdr) \<Rightarrow> nat \<Rightarrow> nat \<Rightarrow> smem_block list \<Rightarrow> bool" where
  "seg self H pv off [] \<longleftrightarrow> prev_of (H off) = pv"
| "seg self H pv off ((u, n) # bs) \<longleftrightarrow>
     H off = (mh_magic u, self, off + n, pv) \<and> 40 \<le> n \<and> n mod 8 = 0 \<and> seg self H off (off + n) bs"

fun last_off :: "nat \<Rightarrow> nat \<Rightarrow> smem_block list \<Rightarrow> nat" where
  "last_off pv off [] = pv"
| "last_off pv off ((u, n) # bs) = last_off off (off + n) bs"

lemma last_off_append [simp]: "last_off pv off (xs @ ys) = last_off (last_off pv off xs) (off + extent xs) ys"
  by (induction xs arbitrary: pv off rule: extent.induct) (auto simp: add.assoc)

lemma seg_prev_of: "seg self H pv off bs \<Longrightarrow> prev_of (H off) = pv"
  by (cases bs rule: extent.cases) auto

lemma seg_append:
  "seg self H pv off (xs @ ys) \<longleftrightarrow> seg self H pv off xs \<and> seg self H (last_off pv off xs) (off + extent xs) ys"
  by (induction xs arbitrary: pv off rule: extent.induct) (auto simp: add.assoc dest: seg_prev_of)

lemma seg_sizes: "seg self H pv off bs \<Longrightarrow> \<forall>(u, n) \<in> set bs. 40 \<le> n \<and> n mod 8 = 0"
  by (induction bs arbitrary: pv off rule: extent.induct) fastforce+

lemma seg_cong:
  "(\<And>p. p \<in> heads off bs \<Longrightarrow> H' p = H p) \<Longrightarrow> prev_of (H' (off + extent bs)) = prev_of (H (off + extent bs)) \<Longrightarrow>
   seg self H' pv off bs = seg self H pv off bs"
  by (induction bs arbitrary: pv off rule: extent.induct) (auto simp: add.assoc)

lemma mh_heads_range: "\<forall>(u, n) \<in> set bs. 40 \<le> n \<and> n mod 8 = 0 \<Longrightarrow> heads off bs \<subseteq> {off..<off + extent bs}"
proof (induction bs arbitrary: off rule: extent.induct)
  case (2 u n bs)
  from "2.IH" [of "off + n"] "2.prems" show ?case by (auto simp: subset_iff)
qed simp

lemma seg_heads: "seg self H pv off bs \<Longrightarrow> p \<in> heads off bs \<Longrightarrow> off \<le> p \<and> p < off + extent bs"
  using mh_heads_range [OF seg_sizes, of self H pv off bs off] by auto

text \<open>Changes outside a segment, at its end other than of \<open>prev\<close>, and of the \<open>prev\<close> of its first header.\<close>

lemma seg_upd:
  assumes "seg self H pv off bs" "p < off \<or> off + extent bs < p \<or> p = off + extent bs \<and> prev_of x = prev_of (H p)"
  shows "seg self (H(p := x)) pv off bs"
proof -
  have "q \<noteq> p" if "q \<in> heads off bs" for q using seg_heads [OF assms(1) that] assms(2) by auto
  then have "seg self (H(p := x)) pv off bs = seg self H pv off bs" using assms(2) by (intro seg_cong) auto
  with assms(1) show ?thesis by simp
qed

lemma seg_first_prev:
  assumes "seg self H pv off bs"
  shows "seg self (H(off := with_prev pv' (H off))) pv' off bs"
proof (cases bs rule: extent.cases)
  case 1
  then show ?thesis by (cases "H off") simp
next
  case (2 u n cs)
  then have "seg self (H(off := with_prev pv' (H off))) off (off + n) cs" using assms by (intro seg_upd) auto
  then show ?thesis using assms 2 by simp
qed

section \<open>The free list\<close>

lemma ring_push:
  assumes r: "ring h l xs" and n: "n \<notin> set (l # xs)"
    and nx: "ln_next h' = (ln_next h)(l := n, n := ln_next h l)"
    and pv: "ln_prev h' = (ln_prev h)(ln_next h l := n, n := l)"
  shows "ring h' l (n # xs)"
proof -
  have c: "Rt_List.chain h l ([] @ xs) l" "distinct (l # xs)" using r by (simp_all add: ring_def)
  have "ln_next h l = (if xs = [] then l else hd xs)" using chain_hd [OF c(1)] by simp
  from insert_between_chain [OF c(1) _ _ _ refl this, of n h'] nx pv n c(2) show ?thesis by (auto simp: ring_def)
qed

lemma ring_neighbours:
  assumes "ring h l xs" "n \<in> set xs"
  shows "ln_next h n \<in> set (l # xs)" "ln_prev h n \<in> set (l # xs)" "ln_next h n \<noteq> n" "ln_prev h n \<noteq> n"
proof -
  obtain ys zs where xs: "xs = ys @ n # zs" using assms(2) by (meson split_list)
  have c: "Rt_List.chain h l ys n" "Rt_List.chain h n zs l" "distinct (l # ys @ n # zs)"
    using assms(1) xs by (simp_all add: ring_def Rt_List.chain_append)
  have "ln_next h n = (if zs = [] then l else hd zs)" "ln_prev h n = (if ys = [] then l else last ys)"
    using chain_hd [OF c(2)] chain_last [OF c(1)] by simp_all
  then show "ln_next h n \<in> set (l # xs)" "ln_prev h n \<in> set (l # xs)" "ln_next h n \<noteq> n" "ln_prev h n \<noteq> n"
    using c(3) xs by (auto simp: last_in_set hd_in_set)
qed

lemma ring_remove:
  assumes r: "ring h l (xs @ n # ys)"
    and nx: "ln_next h' = (ln_next h)(ln_prev h n := ln_next h n)"
    and pv: "ln_prev h' = (ln_prev h)(ln_next h n := ln_prev h n)"
  shows "ring h' l (xs @ ys)"
proof -
  define k where "k = \<lparr>ln_next = (ln_next h')(n := n), ln_prev = (ln_prev h')(n := n)\<rparr>"
  have c: "Rt_List.chain h l (xs @ n # ys) l" "distinct (l # xs @ n # ys)" using r by (simp_all add: ring_def)
  have "ln_next h n = (if ys = [] then l else hd ys)" "ln_prev h n = (if xs = [] then l else last xs)"
    using c(1) by (auto simp: Rt_List.chain_append dest: chain_hd chain_last)
  from remove_between_chain [OF c(1) _ _ this(2,1), of k] c(2) nx pv have "Rt_List.chain k l (xs @ ys) l"
    by (simp add: k_def)
  then have "Rt_List.chain h' l (xs @ ys) l"
    by (rule chain_cong) (use c(2) in \<open>auto simp: k_def\<close>)
  then show ?thesis using c(2) by (simp add: ring_def)
qed

lemma ring_first: "ring h l xs \<Longrightarrow> ln_next h l = hd (xs @ [l])"
  by (cases xs) (auto simp: ring_def)

section \<open>The steps on the views\<close>

lemma upd_mi_simps [simp]:
  "mh_item (upd_mi p f m) = (mh_item m)(p := f (mh_item m p))"
  "mh_self (upd_mi p f m) = mh_self m" "mh_object (upd_mi p f m) = mh_object m" "mh_start_addr (upd_mi p f m) = mh_start_addr m"
  "mh_pool_size (upd_mi p f m) = mh_pool_size m" "mh_available_size (upd_mi p f m) = mh_available_size m"
  "mh_max_used_size (upd_mi p f m) = mh_max_used_size m" "mh_block_list (upd_mi p f m) = mh_block_list m"
  "mh_free_list (upd_mi p f m) = mh_free_list m" "mh_lock (upd_mi p f m) = mh_lock m" "mh_locked (upd_mi p f m) = mh_locked m"
  "mh_data (upd_mi p f m) = mh_data m"
  by (simp_all add: upd_mi_def)

text \<open>What the steps on items leave alone, and what a step on counters leaves.\<close>

definition same_rest :: "rt_memheap \<Rightarrow> rt_memheap \<Rightarrow> bool" where
  "same_rest m m' \<longleftrightarrow> mh_self m' = mh_self m \<and> mh_object m' = mh_object m \<and> mh_start_addr m' = mh_start_addr m \<and>
     mh_pool_size m' = mh_pool_size m \<and> mh_block_list m' = mh_block_list m \<and> mh_free_list m' = mh_free_list m \<and>
     mh_lock m' = mh_lock m \<and> mh_locked m' = mh_locked m \<and> mh_data m' = mh_data m"

lemma same_rest_refl [simp]: "same_rest m m"
  by (simp add: same_rest_def)

lemma same_rest_trans [trans]: "same_rest m m1 \<Longrightarrow> same_rest m1 m2 \<Longrightarrow> same_rest m m2"
  by (simp add: same_rest_def)

lemma same_rest_steps [simp]:
  "same_rest m (upd_mi p f m)" "same_rest m (m\<lparr>mh_available_size := n\<rparr>)" "same_rest m (mh_account m)"
  "same_rest m (mh_push p m)" "same_rest m (mh_insert_free p m)" "same_rest m (mh_new_block q p m)"
  "same_rest m (mh_join_next p q m)" "same_rest m (mh_clear_links p m)"
  by (simp_all add: same_rest_def mh_account_def mh_push_def mh_insert_free_def mh_new_block_def mh_join_next_def
      mh_clear_links_def Let_def)

lemma available_steps [simp]:
  "mh_available_size (mh_account m) = mh_available_size m" "mh_available_size (mh_push p m) = mh_available_size m"
  "mh_available_size (mh_insert_free p m) = mh_available_size m" "mh_available_size (mh_new_block q p m) = mh_available_size m"
  "mh_available_size (mh_join_next p q m) = mh_available_size m" "mh_available_size (mh_clear_links p m) = mh_available_size m"
  by (simp_all add: mh_account_def mh_push_def mh_insert_free_def mh_new_block_def mh_join_next_def mh_clear_links_def Let_def)

lemma views_counters [simp]:
  "hdrs (m\<lparr>mh_available_size := n\<rparr>) = hdrs m" "links (m\<lparr>mh_available_size := n\<rparr>) = links m"
  "hdrs (mh_account m) = hdrs m" "links (mh_account m) = links m"
  by (simp_all add: fun_eq_iff hdrs_def links_def mh_account_def)

lemma hdrs_links [simp]:
  "hdrs (upd_mi p (\<lambda>x. x\<lparr>mi_next_free := n\<rparr>) m) = hdrs m" "hdrs (upd_mi p (\<lambda>x. x\<lparr>mi_prev_free := n\<rparr>) m) = hdrs m"
  "hdrs (upd_mi p (\<lambda>x. x\<lparr>mi_next_free := n, mi_prev_free := k\<rparr>) m) = hdrs m"
  by (simp_all add: fun_eq_iff hdrs_def)

lemma hdrs_free_steps [simp]:
  "hdrs (mh_push p m) = hdrs m" "hdrs (mh_insert_free p m) = hdrs m" "hdrs (mh_clear_links p m) = hdrs m"
  by (simp_all add: mh_push_def mh_insert_free_def mh_clear_links_def Let_def)

lemma links_block_steps [simp]:
  "links (mh_new_block q p m) = links m" "links (mh_join_next p q m) = links m"
  "links (upd_mi p (\<lambda>x. x\<lparr>mi_magic := w\<rparr>) m) = links m"
  "links (upd_mi p (\<lambda>x. x\<lparr>mi_next := q\<rparr>) m) = links m" "links (upd_mi p (\<lambda>x. x\<lparr>mi_prev := q\<rparr>) m) = links m"
  by (simp_all add: fun_eq_iff links_def mh_new_block_def mh_join_next_def Let_def)

lemma hdrs_upd [simp]:
  "hdrs (upd_mi p (\<lambda>x. x\<lparr>mi_next := n\<rparr>) m) = (hdrs m)(p := with_next n (hdrs m p))"
  "hdrs (upd_mi p (\<lambda>x. x\<lparr>mi_prev := n\<rparr>) m) = (hdrs m)(p := with_prev n (hdrs m p))"
  by (simp_all add: fun_eq_iff hdrs_def)

lemma hdrs_new_block:
  assumes "p \<noteq> q" "mi_next (mh_item m p) = r" "r \<noteq> p" "r \<noteq> q"
  shows "hdrs (mh_new_block q p m) = (hdrs m)(q := (mh_magic False, mh_self m, r, p), r := with_prev q (hdrs m r), p := with_next q (hdrs m p))"
  using assms by (auto simp: fun_eq_iff hdrs_def mh_new_block_def Let_def)

lemma hdrs_join_next:
  assumes "mi_next (mh_item m q) = r" "r \<noteq> p" "r \<noteq> q"
  shows "hdrs (mh_join_next p q m) = (hdrs m)(r := with_prev p (hdrs m r), p := with_next r (hdrs m p))"
  using assms by (auto simp: fun_eq_iff hdrs_def mh_join_next_def Let_def)

lemma push_ring:
  assumes r: "ring (links m) (mh_free_list m) xs" and p: "p \<notin> set (mh_free_list m # xs)"
  shows "ring (links (mh_push p m)) (mh_free_list m) (p # xs)"
proof (rule ring_push [OF r p])
  have "ln_next (links m) (mh_free_list m) \<noteq> p" using ring_first [OF r] p by (cases xs) auto
  then have q: "mi_next_free (mh_item m (mh_free_list m)) \<noteq> p" by (simp add: links_def)
  show "ln_next (links (mh_push p m)) = (ln_next (links m))(mh_free_list m := p, p := ln_next (links m) (mh_free_list m))"
    "ln_prev (links (mh_push p m)) = (ln_prev (links m))(ln_next (links m) (mh_free_list m) := p, p := mh_free_list m)"
    using p q by (auto simp: fun_eq_iff links_def mh_push_def Let_def)
qed

lemma insert_free_ring:
  assumes r: "ring (links m) (mh_free_list m) xs" and p: "p \<notin> set (mh_free_list m # xs)"
  shows "ring (links (mh_insert_free p m)) (mh_free_list m) (p # xs)"
proof (rule ring_push [OF r p])
  have "ln_next (links m) (mh_free_list m) \<noteq> p" using ring_first [OF r] p by (cases xs) auto
  then have q: "mi_next_free (mh_item m (mh_free_list m)) \<noteq> p" by (simp add: links_def)
  have "ln_prev (links m) (ln_next (links m) (mh_free_list m)) = mh_free_list m"
    using r by (cases xs) (auto simp: ring_def)
  then have b: "mi_prev_free (mh_item m (mi_next_free (mh_item m (mh_free_list m)))) = mh_free_list m" by (simp add: links_def)
  show "ln_next (links (mh_insert_free p m)) = (ln_next (links m))(mh_free_list m := p, p := ln_next (links m) (mh_free_list m))"
    "ln_prev (links (mh_insert_free p m)) = (ln_prev (links m))(ln_next (links m) (mh_free_list m) := p, p := mh_free_list m)"
    using p q b by (auto simp: fun_eq_iff links_def mh_insert_free_def Let_def)
qed

lemma clear_links_ring:
  assumes "ring (links m) l xs" "p \<notin> set (l # xs)"
  shows "ring (links (mh_clear_links p m)) l xs"
  by (rule ring_cong [OF assms(1)]) (use assms(2) in \<open>auto simp: links_def mh_clear_links_def\<close>)

lemma unlink_ring:
  assumes r: "ring (links m) l (xs @ p # ys)" and z: "0 \<notin> set (l # xs @ p # ys)"
  shows "\<exists>m'. mh_unlink p m = Some m' \<and> ring (links m') l (xs @ ys) \<and> hdrs m' = hdrs m \<and> same_rest m m' \<and>
    mh_available_size m' = mh_available_size m"
proof -
  let ?q = "mi_next_free (mh_item m p)" and ?o = "mi_prev_free (mh_item m p)"
  have n: "?q \<in> set (l # xs @ p # ys)" "?o \<in> set (l # xs @ p # ys)" "?q \<noteq> p" "?o \<noteq> p"
    using ring_neighbours [OF r, of p] by (simp_all add: links_def)
  have nz: "?q \<noteq> 0 \<and> ?o \<noteq> 0" using n(1,2) z by metis
  define m' where "m' = upd_mi ?o (\<lambda>x. x\<lparr>mi_next_free := ?q\<rparr>) (upd_mi ?q (\<lambda>x. x\<lparr>mi_prev_free := ?o\<rparr>) m)"
  have "mh_unlink p m = Some m'" using nz n by (simp add: mh_unlink_def m'_def Let_def)
  moreover have "ring (links m') l (xs @ ys)"
    by (rule ring_remove [OF r]) (use n in \<open>auto simp: links_def m'_def fun_eq_iff\<close>)
  moreover have "hdrs m' = hdrs m" by (simp add: hdrs_def m'_def fun_eq_iff)
  moreover have "same_rest m m'" by (simp add: same_rest_def m'_def)
  ultimately show ?thesis by (simp add: m'_def)
qed

end
