(* ===== verification/Memheap_Spec.thy ===== *)
theory Memheap_Spec
  imports Memheap_Blocks
begin

text \<open>
  The operations of memory heaps, on lists of blocks: the first large enough free block is taken and cut, a freed
  block joins its free neighbours, a block grows into the next one or is cut, and the counter of
  available bytes stays exact.
\<close>

section \<open>The invariant\<close>

text \<open>The list of all blocks of the heap at \<open>a\<close>, closed by the header that counts as used.\<close>

definition wf_blocks :: "nat \<Rightarrow> (nat \<Rightarrow> hdr) \<Rightarrow> nat \<Rightarrow> smem_block list \<Rightarrow> bool" where
  "wf_blocks self H a bs \<longleftrightarrow> seg self H (a + extent bs) a bs \<and>
     H (a + extent bs) = (mh_magic True, self, a, prev_of (H (a + extent bs))) \<and> 0 < a \<and> a + extent bs + 24 \<le> 2 ^ 32"

fun free_heads :: "nat \<Rightarrow> smem_block list \<Rightarrow> nat set" where
  "free_heads off [] = {}"
| "free_heads off ((u, n) # bs) = (if u then {} else {off}) \<union> free_heads (off + n) bs"

fun avail :: "smem_block list \<Rightarrow> nat" where
  "avail [] = 0"
| "avail ((u, n) # bs) = (if u then 0 else n - 24) + avail bs"

text \<open>The data of the blocks in use.\<close>

fun mh_regions :: "nat \<Rightarrow> smem_block list \<Rightarrow> block list" where
  "mh_regions off [] = []"
| "mh_regions off ((u, n) # bs) = (if u then [(off + 24, n - 24)] else []) @ mh_regions (off + n) bs"

definition wf_free :: "rt_memheap \<Rightarrow> nat \<Rightarrow> nat \<Rightarrow> nat set \<Rightarrow> bool" where
  "wf_free m lo hi P \<longleftrightarrow> (\<exists>fl. ring (links m) (mh_free_list m) fl \<and> set fl = P) \<and>
     mh_free_list m \<noteq> 0 \<and> (mh_free_list m < lo \<or> hi < mh_free_list m)"

definition mh_is :: "rt_memheap \<Rightarrow> smem_block list \<Rightarrow> bool" where
  "mh_is m bs \<longleftrightarrow> mh_object m \<noteq> Obj_Null \<and>
     wf_blocks (mh_self m) (hdrs m) (mh_start_addr m) bs \<and> bs \<noteq> [] \<and> coalesced bs \<and>
     mh_start_addr m mod 8 = 0 \<and> mh_pool_size m = extent bs + 24 \<and> mh_available_size m = avail bs \<and>
     wf_free m (mh_start_addr m) (mh_start_addr m + extent bs) (free_heads (mh_start_addr m) bs)"

section \<open>Lists of blocks\<close>

lemma avail_append [simp]: "avail (xs @ ys) = avail xs + avail ys"
  by (induction xs rule: avail.induct) auto

lemma free_heads_append [simp]: "free_heads off (xs @ ys) = free_heads off xs \<union> free_heads (off + extent xs) ys"
  by (induction xs arbitrary: off rule: avail.induct) (auto simp: add.assoc)

lemma mh_regions_append [simp]: "mh_regions off (xs @ ys) = mh_regions off xs @ mh_regions (off + extent xs) ys"
  by (induction xs arbitrary: off rule: avail.induct) (auto simp: add.assoc)

lemma avail_extent: "avail bs \<le> extent bs"
  by (induction bs rule: avail.induct) auto

lemma free_heads_heads: "free_heads off bs \<subseteq> heads off bs"
  by (induction bs arbitrary: off rule: avail.induct) auto

lemma free_heads_range:
  assumes "seg self H pv off bs" "p \<in> free_heads off bs"
  shows "off \<le> p \<and> p < off + extent bs"
  using seg_heads [OF assms(1)] free_heads_heads assms(2) by blast

lemma free_heads_block: "p \<in> free_heads off bs \<longleftrightarrow> (\<exists>xs n ys. bs = xs @ (False, n) # ys \<and> p = off + extent xs)"
proof (induction bs arbitrary: off rule: avail.induct)
  case (2 u n bs)
  have "(\<exists>xs k ys. (u, n) # bs = xs @ (False, k) # ys \<and> p = off + extent xs) \<longleftrightarrow>
    (\<not> u \<and> p = off) \<or> (\<exists>xs k ys. bs = xs @ (False, k) # ys \<and> p = off + n + extent xs)" (is "?l = (?a \<or> ?b)")
  proof
    assume ?l
    then obtain xs k ys where x: "(u, n) # bs = xs @ (False, k) # ys" "p = off + extent xs" by blast
    show "?a \<or> ?b"
    proof (cases xs)
      case (Cons c zs)
      then have "bs = zs @ (False, k) # ys" "p = off + n + extent zs" using x by auto
      then show ?thesis by blast
    qed (use x in simp)
  next
    assume "?a \<or> ?b"
    then show ?l
    proof
      assume ?a
      then have "(u, n) # bs = [] @ (False, n) # bs \<and> p = off + extent []" by simp
      then show ?l by blast
    next
      assume ?b
      then obtain xs k ys where "bs = xs @ (False, k) # ys" "p = off + n + extent xs" by blast
      then have "(u, n) # bs = ((u, n) # xs) @ (False, k) # ys \<and> p = off + extent ((u, n) # xs)" by simp
      then show ?l by blast
    qed
  qed
  with "2.IH" [of "off + n"] show ?case by auto
qed simp

section \<open>Blocks and headers\<close>

lemma wf_blocks_item:
  assumes "wf_blocks self H a (xs @ (u, n) # ys)"
  shows "H (a + extent xs) = (mh_magic u, self, a + extent xs + n, last_off (a + extent xs + n + extent ys) a xs)"
    "40 \<le> n" "n mod 8 = 0" "a + extent xs + n + extent ys + 24 \<le> 2 ^ 32" "0 < a"
    "extent xs mod 8 = 0" "\<forall>(u, n) \<in> set ys. 40 \<le> n \<and> n mod 8 = 0"
proof -
  have s: "seg self H (a + extent xs + n + extent ys) a xs"
    "seg self H (last_off (a + extent xs + n + extent ys) a xs) (a + extent xs) ((u, n) # ys)"
    using assms by (simp_all add: wf_blocks_def seg_append add.assoc)
  then show "H (a + extent xs) = (mh_magic u, self, a + extent xs + n, last_off (a + extent xs + n + extent ys) a xs)"
    "40 \<le> n" "n mod 8 = 0" by simp_all
  show "a + extent xs + n + extent ys + 24 \<le> 2 ^ 32" "0 < a" using assms by (simp_all add: wf_blocks_def add.assoc)
  show "\<forall>(u, n) \<in> set ys. 40 \<le> n \<and> n mod 8 = 0" using seg_sizes [OF s(2)] by simp
  have "\<forall>(u, n) \<in> set xs. 24 \<le> n \<and> n mod 8 = 0" using seg_sizes [OF s(1)] by fastforce
  then show "extent xs mod 8 = 0" by (rule extent_aligned)
qed

lemma magic_used: "RT_MEMHEAP_IS_USED m p \<longleftrightarrow> fst (hdrs m p) AND 1 \<noteq> 0"
  by (simp add: RT_MEMHEAP_IS_USED_def hdrs_def)

lemma magic_bits: "(mh_magic u AND 1 \<noteq> 0) = u" "mh_magic u AND 0xFFFFFFFE = (0x1ea01ea0 :: u32)"
  by (cases u; simp)+

text \<open>The headers of a block and of its neighbours; those of the ends of the list are the closing header.\<close>

lemma block_facts:
  assumes w: "wf_blocks (mh_self m) (hdrs m) a (xs @ (u, n) # ys)"
  defines "p \<equiv> a + extent xs"
  shows "mi_next (mh_item m p) = p + n" "mi_pool_ptr (mh_item m p) = mh_self m" "mi_magic (mh_item m p) = mh_magic u"
    "RT_MEMHEAP_IS_USED m p = u" "MEMITEM_SIZE m p = n - 24"
    "RT_MEMHEAP_IS_USED m (p + n) \<longleftrightarrow> (case ys of [] \<Rightarrow> True | b # _ \<Rightarrow> fst b)"
    "mi_magic (mh_item m (p + n)) AND RT_MEMHEAP_MASK = RT_MEMHEAP_MAGIC"
    "mi_prev (mh_item m p) = last_off (p + n + extent ys) a xs"
proof -
  note i = wf_blocks_item [OF w]
  have h: "hdrs m p = (mh_magic u, mh_self m, p + n, last_off (p + n + extent ys) a xs)" using i(1) by (simp add: p_def)
  then show nx: "mi_next (mh_item m p) = p + n" "mi_pool_ptr (mh_item m p) = mh_self m" "mi_magic (mh_item m p) = mh_magic u"
    "mi_prev (mh_item m p) = last_off (p + n + extent ys) a xs" by (simp_all add: hdrs_def)
  show "RT_MEMHEAP_IS_USED m p = u" using h magic_bits(1) [of u] by (simp add: magic_used)
  have "p + n < 2 ^ 32" using i(4) by (simp add: p_def)
  then have "sub32 (p + n) p = n" "sub32 n 24 = n - 24" using i(2) by (simp_all add: sub32_small)
  then show "MEMITEM_SIZE m p = n - 24" by (simp add: MEMITEM_SIZE_def nx)
  have e: "\<exists>z. hdrs m (p + n) = (mh_magic (case ys of [] \<Rightarrow> True | b # _ \<Rightarrow> fst b), z)"
  proof (cases ys rule: extent.cases)
    case 1
    then have "hdrs m (p + n) = (mh_magic True, mh_self m, a, prev_of (hdrs m (p + n)))"
      using w by (simp add: wf_blocks_def p_def add.assoc)
    then show ?thesis unfolding 1 by simp blast
  next
    case (2 v k zs)
    with w have "wf_blocks (mh_self m) (hdrs m) a ((xs @ [(u, n)]) @ (v, k) # zs)" by simp
    from wf_blocks_item(1) [OF this] 2 show ?thesis by (simp add: p_def add.assoc)
  qed
  then obtain z where z: "hdrs m (p + n) = (mh_magic (case ys of [] \<Rightarrow> True | b # _ \<Rightarrow> fst b), z)" by blast
  show "RT_MEMHEAP_IS_USED m (p + n) \<longleftrightarrow> (case ys of [] \<Rightarrow> True | b # _ \<Rightarrow> fst b)"
    unfolding magic_used z fst_conv by (rule magic_bits(1))
  have "mi_magic (mh_item m (p + n)) = mh_magic (case ys of [] \<Rightarrow> True | b # _ \<Rightarrow> fst b)" using z by (simp add: hdrs_def)
  then show "mi_magic (mh_item m (p + n)) AND RT_MEMHEAP_MASK = RT_MEMHEAP_MAGIC" by (simp only: magic_bits(2))
qed

lemma prev_used:
  assumes w: "wf_blocks (mh_self m) (hdrs m) a (xs @ (u, n) # ys)"
  shows "RT_MEMHEAP_IS_USED m (mi_prev (mh_item m (a + extent xs))) \<longleftrightarrow> xs = [] \<or> fst (last xs)"
    "xs \<noteq> [] \<Longrightarrow> mi_prev (mh_item m (a + extent xs)) = a + extent (butlast xs)"
proof -
  note b = block_facts(8) [OF w]
  show p: "mi_prev (mh_item m (a + extent xs)) = a + extent (butlast xs)" if ne: "xs \<noteq> []"
  proof -
    obtain zs v k where xs: "xs = zs @ [(v, k)]" using ne by (metis append_butlast_last_id prod.collapse)
    then show ?thesis using b by simp
  qed
  show "RT_MEMHEAP_IS_USED m (mi_prev (mh_item m (a + extent xs))) \<longleftrightarrow> xs = [] \<or> fst (last xs)"
  proof (cases "xs = []")
    case True
    have "hdrs m (a + extent (xs @ (u, n) # ys)) = (mh_magic True, mh_self m, a, prev_of (hdrs m (a + extent (xs @ (u, n) # ys))))"
      using w by (simp only: wf_blocks_def)
    then have "RT_MEMHEAP_IS_USED m (a + extent (xs @ (u, n) # ys))"
      using magic_bits(1) [of True] unfolding magic_used by (metis fst_conv)
    then show ?thesis using b True by (simp add: add.assoc)
  next
    case False
    obtain zs v k where xs: "xs = zs @ [(v, k)]" using False by (metis append_butlast_last_id prod.collapse)
    with w have "wf_blocks (mh_self m) (hdrs m) a (zs @ (v, k) # (u, n) # ys)" by simp
    from block_facts(4) [OF this] p [OF False] xs show ?thesis by simp
  qed
qed

lemma prev_of_simps [simp]: "prev_of (with_next n x) = prev_of x" "prev_of (with_prev n x) = n"
  by (cases x; simp)+

lemma closing_prev: "x = (c, s, a, prev_of x) \<Longrightarrow> with_prev q x = (c, s, a, q)"
  by (metis with_prev.simps)

text \<open>Marking, cutting and joining blocks.\<close>

lemma wf_blocks_mark:
  assumes w: "wf_blocks self H a (xs @ (u, n) # ys)"
  shows "wf_blocks self (H(a + extent xs := (mh_magic v, snd (H (a + extent xs))))) a (xs @ (v, n) # ys)"
proof -
  let ?p = "a + extent xs" let ?H = "H(?p := (mh_magic v, snd (H ?p)))"
  note i = wf_blocks_item [OF w]
  have s: "seg self H (a + extent (xs @ (u, n) # ys)) a xs" "seg self H ?p (?p + n) ys"
    using w by (simp_all add: wf_blocks_def seg_append)
  have "seg self ?H (a + extent (xs @ (u, n) # ys)) a xs" by (rule seg_upd [OF s(1)]) (simp add: i(1))
  moreover have "seg self ?H ?p (?p + n) ys" by (rule seg_upd [OF s(2)]) (use i(2) in simp)
  ultimately show ?thesis using w i(1-3) by (simp add: wf_blocks_def seg_append)
qed

lemma wf_blocks_cut:
  assumes w: "wf_blocks self H a (xs @ (u, n) # ys)" and k: "40 \<le> k" "k mod 8 = 0" "k + 40 \<le> n"
  defines "p \<equiv> a + extent xs"
  shows "wf_blocks self (H(p + k := (mh_magic False, self, p + n, p), p + n := with_prev (p + k) (H (p + n)), p := with_next (p + k) (H p)))
    a (xs @ (u, k) # (False, n - k) # ys)"
proof -
  let ?T = "a + extent (xs @ (u, n) # ys)"
  let ?H = "H(p + k := (mh_magic False, self, p + n, p), p + n := with_prev (p + k) (H (p + n)), p := with_next (p + k) (H p))"
  note i = wf_blocks_item [OF w]
  have s: "seg self H ?T a xs" "seg self H p (p + n) ys" "H p = (mh_magic u, self, p + n, last_off ?T a xs)"
    "H ?T = (mh_magic True, self, a, prev_of (H ?T))"
    using w by (simp_all add: wf_blocks_def seg_append p_def)
  have "seg self ?H ?T a xs"
    by (rule seg_upd, rule seg_upd, rule seg_upd [OF s(1)]) (use k in \<open>simp_all add: p_def\<close>)
  moreover have "seg self ?H (p + k) (p + n) ys"
  proof -
    have "seg self (H(p + k := (mh_magic False, self, p + n, p))) p (p + n) ys" by (rule seg_upd [OF s(2)]) (use k in simp)
    from seg_first_prev [OF this, of "p + k"] k
    have "seg self (H(p + k := (mh_magic False, self, p + n, p), p + n := with_prev (p + k) (H (p + n)))) (p + k) (p + n) ys" by simp
    then show ?thesis by (rule seg_upd) (use k in simp)
  qed
  moreover have "?H p = (mh_magic u, self, p + k, last_off ?T a xs)" "?H (p + k) = (mh_magic False, self, p + n, p)"
    using s(3) k by simp_all
  moreover have "?H ?T = (mh_magic True, self, a, prev_of (?H ?T))"
  proof (cases "ys = []")
    case True
    then have e: "?T = p + n" by (simp add: p_def)
    show ?thesis using closing_prev [OF s(4)] k unfolding e by simp
  next
    case False
    then have "p + n < ?T" using i(7) by (cases ys) (auto simp: p_def)
    then show ?thesis using s(4) k by simp
  qed
  moreover have "(n - k) mod 8 = 0" using i(3) k by (simp add: mod_eq_0_iff_dvd dvd_diff_nat)
  moreover have "a + extent (xs @ (u, k) # (False, n - k) # ys) = ?T" using k by simp
  ultimately show ?thesis using w k i(2)
    unfolding wf_blocks_def seg_append by (simp add: p_def [symmetric] add.assoc)
qed

lemma wf_blocks_join:
  assumes w: "wf_blocks self H a (xs @ (u, n) # (v, k) # ys)"
  defines "p \<equiv> a + extent xs"
  shows "wf_blocks self (H(p + n + k := with_prev p (H (p + n + k)), p := with_next (p + n + k) (H p))) a (xs @ (u, n + k) # ys)"
proof -
  let ?T = "a + extent (xs @ (u, n) # (v, k) # ys)" let ?r = "p + n + k"
  let ?H = "H(?r := with_prev p (H ?r), p := with_next ?r (H p))"
  have w': "wf_blocks self H a ((xs @ [(u, n)]) @ (v, k) # ys)" using w by simp
  note i = wf_blocks_item [OF w] note j = wf_blocks_item [OF w']
  have s: "seg self H ?T a xs" "seg self H (p + n) ?r ys" "H p = (mh_magic u, self, p + n, last_off ?T a xs)"
    "H ?T = (mh_magic True, self, a, prev_of (H ?T))"
    using w by (simp_all add: wf_blocks_def seg_append p_def)
  have "seg self ?H ?T a xs"
    by (rule seg_upd, rule seg_upd [OF s(1)]) (use i(2) j(2) in \<open>simp_all add: p_def\<close>)
  moreover have "seg self ?H p ?r ys"
    by (rule seg_upd [OF seg_first_prev [OF s(2)]]) (use i(2) j(2) in simp)
  moreover have "?H p = (mh_magic u, self, ?r, last_off ?T a xs)" using s(3) by simp
  moreover have "?H ?T = (mh_magic True, self, a, prev_of (?H ?T))"
  proof (cases "ys = []")
    case True
    then have e: "?T = ?r" by (simp add: p_def)
    show ?thesis using closing_prev [OF s(4)] i(2) unfolding e by simp
  next
    case False
    then have "?r < ?T" using j(7) by (cases ys) (auto simp: p_def)
    then show ?thesis using s(4) i(2) by simp
  qed
  moreover have "(n + k) mod 8 = 0" using i(3) j(3) by (simp add: mod_add_eq [symmetric])
  ultimately show ?thesis using w i(2)
    unfolding wf_blocks_def seg_append by (simp add: p_def [symmetric] add.assoc)
qed

text \<open>The free blocks before and behind a block.\<close>

lemma free_heads_around:
  assumes w: "wf_blocks self H a (xs @ (u, n) # ys)"
  shows "q \<in> free_heads a xs \<Longrightarrow> a \<le> q \<and> q < a + extent xs"
    "q \<in> free_heads (a + extent xs + n) ys \<Longrightarrow> a + extent xs + n \<le> q \<and> q < a + extent xs + n + extent ys"
proof -
  have s: "seg self H (a + extent (xs @ (u, n) # ys)) a xs" "seg self H (a + extent xs) (a + extent xs + n) ys"
    using w by (simp_all add: wf_blocks_def seg_append)
  show "q \<in> free_heads a xs \<Longrightarrow> a \<le> q \<and> q < a + extent xs" by (rule free_heads_range [OF s(1)])
  show "q \<in> free_heads (a + extent xs + n) ys \<Longrightarrow> a + extent xs + n \<le> q \<and> q < a + extent xs + n + extent ys"
    by (rule free_heads_range [OF s(2)])
qed

section \<open>The free list\<close>

lemma wf_free_cong:
  "links m' = links m \<Longrightarrow> mh_free_list m' = mh_free_list m \<Longrightarrow> wf_free m' lo hi P = wf_free m lo hi P"
  by (simp add: wf_free_def)

lemma wf_free_counters [simp]:
  "wf_free (mh_account m) lo hi P = wf_free m lo hi P" "wf_free (m\<lparr>mh_available_size := n\<rparr>) lo hi P = wf_free m lo hi P"
  using same_rest_steps(3) [of m] by (simp_all add: wf_free_def same_rest_def)

lemma wf_free_unlink:
  assumes w: "wf_free m lo hi P" and p: "p \<in> P" "0 \<notin> P"
  shows "\<exists>m'. mh_unlink p m = Some m' \<and> wf_free m' lo hi (P - {p}) \<and> hdrs m' = hdrs m \<and> same_rest m m' \<and>
    mh_available_size m' = mh_available_size m"
proof -
  obtain fl where fl: "ring (links m) (mh_free_list m) fl" "set fl = P" "mh_free_list m \<noteq> 0"
    "mh_free_list m < lo \<or> hi < mh_free_list m" using w by (auto simp: wf_free_def)
  obtain xs ys where xy: "fl = xs @ p # ys" using p(1) fl(2) by (metis split_list)
  have d: "distinct (xs @ p # ys)" using fl(1) xy by (simp add: ring_def)
  have "0 \<notin> set (mh_free_list m # xs @ p # ys)" using fl(2,3) p(2) xy by auto
  with unlink_ring [of m "mh_free_list m" xs p ys] fl(1) xy obtain m' where
    m': "mh_unlink p m = Some m'" "ring (links m') (mh_free_list m) (xs @ ys)" "hdrs m' = hdrs m" "same_rest m m'"
    "mh_available_size m' = mh_available_size m" by blast
  have "mh_free_list m' = mh_free_list m" using m'(4) by (simp add: same_rest_def)
  moreover have "set (xs @ ys) = P - {p}" using d fl(2) xy by auto
  ultimately show ?thesis using m' fl(3,4) unfolding wf_free_def by metis
qed

lemma wf_free_push:
  assumes w: "wf_free m lo hi P" and p: "p \<notin> P" "lo \<le> p" "p \<le> hi"
  shows "wf_free (mh_push p m) lo hi (insert p P)" "wf_free (mh_insert_free p m) lo hi (insert p P)"
    "wf_free (mh_clear_links p m) lo hi P"
proof -
  obtain fl where fl: "ring (links m) (mh_free_list m) fl" "set fl = P" "mh_free_list m \<noteq> 0"
    "mh_free_list m < lo \<or> hi < mh_free_list m" using w by (auto simp: wf_free_def)
  have n: "p \<notin> set (mh_free_list m # fl)" using fl p by auto
  have f: "mh_free_list (mh_push p m) = mh_free_list m" "mh_free_list (mh_insert_free p m) = mh_free_list m"
    "mh_free_list (mh_clear_links p m) = mh_free_list m"
    by (simp_all add: mh_push_def mh_insert_free_def mh_clear_links_def Let_def)
  have s: "set (p # fl) = insert p P" using fl(2) by simp
  show "wf_free (mh_push p m) lo hi (insert p P)" "wf_free (mh_insert_free p m) lo hi (insert p P)"
    "wf_free (mh_clear_links p m) lo hi P"
    unfolding wf_free_def f using push_ring [OF fl(1) n] insert_free_ring [OF fl(1) n] clear_links_ring [OF fl(1) n] fl s by blast+
qed

section \<open>Allocation\<close>

lemma mh_search_spec:
  "Rt_List.chain (links m) p vs (mh_free_list m) \<Longrightarrow> mh_free_list m \<notin> set vs \<Longrightarrow> fs < sz \<Longrightarrow>
   \<exists>r fs'. mh_search sz (hd (vs @ [mh_free_list m])) fs m = Some (r, fs') \<and>
     (case find (\<lambda>q. sz \<le> MEMITEM_SIZE m q) vs of None \<Rightarrow> fs' < sz | Some q \<Rightarrow> r = q \<and> fs' = MEMITEM_SIZE m q)"
proof (induction vs arbitrary: p fs)
  case Nil
  then show ?case by (subst mh_search.simps) simp
next
  case (Cons q vs)
  have c: "Rt_List.chain (links m) q vs (mh_free_list m)" and q: "q \<noteq> mh_free_list m" using Cons.prems by auto
  have nx: "mi_next_free (mh_item m q) = hd (vs @ [mh_free_list m])"
    using chain_hd [OF c] by (cases vs) (simp_all add: links_def)
  show ?case
  proof (cases "sz \<le> MEMITEM_SIZE m q")
    case True
    have "mh_search sz q (MEMITEM_SIZE m q) m = Some (q, MEMITEM_SIZE m q)"
      using True by (subst mh_search.simps) simp
    then have "mh_search sz q fs m = Some (q, MEMITEM_SIZE m q)"
      using True q Cons.prems(3) by (subst mh_search.simps) (simp add: Let_def)
    then show ?thesis using True by simp
  next
    case False
    have "mh_free_list m \<notin> set vs" "MEMITEM_SIZE m q < sz" using Cons.prems(2) False by simp_all
    from Cons.IH [OF c this] obtain r fs' where
      r: "mh_search sz (hd (vs @ [mh_free_list m])) (MEMITEM_SIZE m q) m = Some (r, fs')"
      "case find (\<lambda>q. sz \<le> MEMITEM_SIZE m q) vs of None \<Rightarrow> fs' < sz | Some q \<Rightarrow> r = q \<and> fs' = MEMITEM_SIZE m q" by blast
    moreover have "mh_search sz q fs m = mh_search sz (hd (vs @ [mh_free_list m])) (MEMITEM_SIZE m q) m"
      using False q nx Cons.prems(3) by (subst mh_search.simps) (simp add: Let_def)
    ultimately show ?thesis using False by simp
  qed
qed

text \<open>No free block has room for \<open>sz\<close> bytes; the blocks that taking \<open>sz\<close> bytes from one of length \<open>n\<close> leaves.\<close>

definition mh_no_fit :: "nat \<Rightarrow> smem_block list \<Rightarrow> bool" where
  "mh_no_fit sz bs \<longleftrightarrow> (\<forall>(u, n) \<in> set bs. u \<or> n < sz + 24)"

definition mh_taken :: "nat \<Rightarrow> nat \<Rightarrow> smem_block list" where
  "mh_taken sz n = (if sz + 64 \<le> n then [(True, sz + 24), (False, n - (sz + 24))] else [(True, n)])"

lemma search_free_blocks:
  assumes s: "mh_is m bs" and sz: "0 < sz"
  shows "\<exists>r fs. mh_search sz (mi_next_free (mh_item m (mh_free_list m))) 0 m = Some (r, fs) \<and>
    (fs < sz \<and> mh_no_fit sz bs \<or>
     (\<exists>xs n ys. bs = xs @ (False, n) # ys \<and> r = mh_start_addr m + extent xs \<and> fs = n - 24 \<and> sz + 24 \<le> n))"
proof -
  let ?a = "mh_start_addr m"
  have w: "wf_blocks (mh_self m) (hdrs m) ?a bs" and "wf_free m ?a (?a + extent bs) (free_heads ?a bs)"
    using s by (simp_all add: mh_is_def)
  then obtain fl where fl: "ring (links m) (mh_free_list m) fl" "set fl = free_heads ?a bs" by (auto simp: wf_free_def)
  have nx: "mi_next_free (mh_item m (mh_free_list m)) = hd (fl @ [mh_free_list m])"
    using ring_first [OF fl(1)] by (simp add: links_def)
  have c: "Rt_List.chain (links m) (mh_free_list m) fl (mh_free_list m)" "mh_free_list m \<notin> set fl"
    using fl(1) by (simp_all add: ring_def)
  obtain r fs where r: "mh_search sz (mi_next_free (mh_item m (mh_free_list m))) 0 m = Some (r, fs)"
    "case find (\<lambda>q. sz \<le> MEMITEM_SIZE m q) fl of None \<Rightarrow> fs < sz | Some q \<Rightarrow> r = q \<and> fs = MEMITEM_SIZE m q"
    using mh_search_spec [OF c sz] unfolding nx by blast
  have sized: "MEMITEM_SIZE m (?a + extent xs) = n - 24 \<and> 40 \<le> n" if "bs = xs @ (False, n) # ys" for xs n ys
    using w block_facts(5) [of m ?a xs False n ys] wf_blocks_item(2) unfolding that by blast
  show ?thesis
  proof (cases "find (\<lambda>q. sz \<le> MEMITEM_SIZE m q) fl")
    case None
    have "mh_no_fit sz bs"
      unfolding mh_no_fit_def
    proof (rule ballI, rule ccontr)
      fix b assume "b \<in> set bs" "\<not> (case b of (u, n) \<Rightarrow> u \<or> n < sz + 24)"
      moreover obtain u n where "b = (u, n)" by force
      ultimately have "(False, n) \<in> set bs" "\<not> n < sz + 24" by (cases u; simp)+
      then obtain xs ys where b: "bs = xs @ (False, n) # ys" by (meson split_list)
      then have "?a + extent xs \<in> set fl" unfolding fl(2) free_heads_block by blast
      then have "\<not> sz \<le> MEMITEM_SIZE m (?a + extent xs)" using None by (auto simp: find_None_iff)
      with sized [OF b] \<open>\<not> n < sz + 24\<close> show False by linarith
    qed
    with r None show ?thesis by auto
  next
    case (Some q)
    then have q: "q \<in> set fl" "sz \<le> MEMITEM_SIZE m q" by (auto simp: find_Some_iff)
    then obtain xs n ys where b: "bs = xs @ (False, n) # ys" "q = ?a + extent xs" unfolding fl(2) free_heads_block by blast
    have "fs = n - 24" "r = q" "sz + 24 \<le> n" using r(2) Some sized [OF b(1)] b(2) q(2) by auto
    with r(1) b show ?thesis by blast
  qed
qed

lemma hdrs_magic: "hdrs (upd_mi p (\<lambda>x. x\<lparr>mi_magic := w\<rparr>) m) = (hdrs m)(p := (w, snd (hdrs m p)))"
  by (simp add: fun_eq_iff hdrs_def)

text \<open>Parts of the invariant, and putting them together again.\<close>

lemma mh_isD:
  assumes "mh_is m bs"
  shows "mh_object m \<noteq> Obj_Null" "wf_blocks (mh_self m) (hdrs m) (mh_start_addr m) bs" "bs \<noteq> []" "coalesced bs"
    "mh_start_addr m mod 8 = 0" "mh_pool_size m = extent bs + 24" "mh_available_size m = avail bs"
    "wf_free m (mh_start_addr m) (mh_start_addr m + extent bs) (free_heads (mh_start_addr m) bs)"
  using assms by (simp_all add: mh_is_def)

lemma mh_is_step:
  assumes "mh_is m bs" "same_rest m m'" "wf_blocks (mh_self m) (hdrs m') (mh_start_addr m) bs'" "extent bs' = extent bs"
    "bs' \<noteq> []" "coalesced bs'" "mh_available_size m' = avail bs'"
    "wf_free m' (mh_start_addr m) (mh_start_addr m + extent bs) (free_heads (mh_start_addr m) bs')"
  shows "mh_is m' bs'"
  using assms unfolding mh_is_def same_rest_def by simp

lemma mh_bounds:
  assumes "mh_is m (xs @ (u, n) # ys)"
  shows "mh_start_addr m + extent xs + n + extent ys + 24 \<le> 2 ^ 32" "40 \<le> n" "0 < mh_start_addr m"
    "extent xs + n + extent ys = extent (xs @ (u, n) # ys)"
  using wf_blocks_item(2,4,5) [OF mh_isD(2) [OF assms]] by simp_all

lemma zero_not_free: "mh_is m bs \<Longrightarrow> 0 \<notin> free_heads (mh_start_addr m) bs"
proof -
  assume s: "mh_is m bs"
  note w = mh_isD(2) [OF s]
  then have "seg (mh_self m) (hdrs m) (mh_start_addr m + extent bs) (mh_start_addr m) bs" "0 < mh_start_addr m"
    by (simp_all add: wf_blocks_def)
  with free_heads_range [OF this(1), of 0] show ?thesis by auto
qed

lemma mh_split_spec:
  assumes s: "mh_is m (xs @ (False, n) # ys)" and sz: "16 \<le> sz" "sz mod 8 = 0" "sz + 64 \<le> n"
  defines "p \<equiv> mh_start_addr m + extent xs"
  shows "\<exists>m'. mh_split sz p m = Some m' \<and> same_rest m m' \<and> mh_available_size m' = avail (xs @ (True, sz + 24) # (False, n - (sz + 24)) # ys) \<and>
    wf_blocks (mh_self m) (hdrs m') (mh_start_addr m) (xs @ (False, sz + 24) # (False, n - (sz + 24)) # ys) \<and>
    wf_free m' (mh_start_addr m) (mh_start_addr m + extent (xs @ (False, n) # ys))
      (free_heads (mh_start_addr m) (xs @ (True, sz + 24) # (False, n - (sz + 24)) # ys))"
proof -
  let ?a = "mh_start_addr m" let ?q = "p + sz + 24" let ?bs = "xs @ (False, n) # ys"
  let ?P = "free_heads ?a ?bs" let ?hi = "?a + extent ?bs"
  note d = mh_isD [OF s] note b = mh_bounds [OF s] note f = free_heads_around [OF d(2)]
  define m1 where "m1 = mh_new_block ?q p m"
  have nx: "mi_next (mh_item m p) = p + n" unfolding p_def by (rule block_facts(1) [OF d(2)])
  have h1: "hdrs m1 = (hdrs m)(?q := (mh_magic False, mh_self m, p + n, p), p + n := with_prev ?q (hdrs m (p + n)), p := with_next ?q (hdrs m p))"
    unfolding m1_def by (rule hdrs_new_block [OF _ nx]) (use sz in auto)
  have w1: "wf_blocks (mh_self m) (hdrs m1) ?a (xs @ (False, sz + 24) # (False, n - (sz + 24)) # ys)"
    using wf_blocks_cut [OF d(2), of "sz + 24"] sz unfolding h1 by (simp add: p_def add.assoc mod_add_eq [symmetric])
  have r1: "same_rest m m1" "mh_available_size m1 = avail ?bs" using d(7) by (simp_all add: m1_def)
  have "wf_free m1 ?a ?hi ?P" using d(8) r1(1) by (subst wf_free_cong [of m1 m]) (simp_all add: m1_def same_rest_def)
  from wf_free_unlink [OF this, of p] zero_not_free [OF s] obtain m2 where
    m2: "mh_unlink p m1 = Some m2" "wf_free m2 ?a ?hi (?P - {p})" "hdrs m2 = hdrs m1" "same_rest m1 m2"
    "mh_available_size m2 = mh_available_size m1" by (auto simp: p_def)
  have P: "?P - {p} = free_heads ?a xs \<union> free_heads (p + n) ys" "?q \<notin> ?P - {p}"
    using f sz by (fastforce simp: p_def)+
  have hi: "?a \<le> p" "?q \<le> ?hi" "p \<le> ?hi" using sz by (simp_all add: p_def)
  have "wf_free (mh_clear_links p m2) ?a ?hi (?P - {p})" by (rule wf_free_push(3) [OF m2(2)]) (use hi in auto)
  then have f4: "wf_free (mh_push ?q (mh_clear_links p m2)) ?a ?hi (insert ?q (?P - {p}))"
    by (rule wf_free_push(1)) (use P(2) hi in auto)
  define m4 where "m4 = mh_push ?q (mh_clear_links p m2)"
  define m5 where "m5 = mh_account (m4\<lparr>mh_available_size := sub32 (sub32 (mh_available_size m4) sz) 24\<rparr>)"
  have av: "mh_available_size m4 = avail ?bs" using r1(2) m2(5) by (simp add: m4_def)
  have "avail ?bs < 2 ^ 32" "sz + 24 \<le> avail ?bs" using avail_extent [of ?bs] b sz by simp_all
  then have "sub32 (sub32 (avail ?bs) sz) 24 = avail ?bs - sz - 24" by (simp add: sub32_small)
  also have "\<dots> = avail (xs @ (True, sz + 24) # (False, n - (sz + 24)) # ys)" using sz by simp
  finally have a5: "mh_available_size m5 = avail (xs @ (True, sz + 24) # (False, n - (sz + 24)) # ys)" by (simp add: m5_def av)
  have "add32 (add32 p sz) 24 = ?q" using b(1) sz(3) by (simp add: p_def add32_small)
  then have "mh_split sz p m = Some m5"
    using m2(1) by (simp add: mh_split_def m1_def m4_def m5_def Let_def)
  moreover have "same_rest m m5"
    using r1(1) m2(4) same_rest_steps(4) [of "mh_clear_links p m2" ?q] same_rest_steps(8) [of m2 p]
    unfolding m5_def m4_def same_rest_def by (simp add: mh_account_def)
  moreover have "wf_blocks (mh_self m) (hdrs m5) ?a (xs @ (False, sz + 24) # (False, n - (sz + 24)) # ys)"
    using w1 m2(3) by (simp add: m5_def m4_def)
  moreover have "wf_free m5 ?a ?hi (free_heads ?a (xs @ (True, sz + 24) # (False, n - (sz + 24)) # ys))"
  proof -
    have "insert ?q (?P - {p}) = free_heads ?a (xs @ (True, sz + 24) # (False, n - (sz + 24)) # ys)"
      unfolding P(1) using sz by (simp add: p_def add.assoc)
    then show ?thesis using f4 by (simp add: m5_def m4_def)
  qed
  ultimately show ?thesis using a5 by (intro exI [of _ m5]) simp
qed

lemma mh_take_whole_spec:
  assumes s: "mh_is m (xs @ (False, n) # ys)"
  defines "p \<equiv> mh_start_addr m + extent xs"
  shows "\<exists>m'. mh_take_whole (n - 24) p m = Some m' \<and> same_rest m m' \<and> mh_available_size m' = avail (xs @ (True, n) # ys) \<and>
    hdrs m' = hdrs m \<and> wf_free m' (mh_start_addr m) (mh_start_addr m + extent (xs @ (False, n) # ys))
      (free_heads (mh_start_addr m) (xs @ (True, n) # ys))"
proof -
  let ?a = "mh_start_addr m" let ?bs = "xs @ (False, n) # ys"
  let ?P = "free_heads ?a ?bs" let ?hi = "?a + extent ?bs"
  note d = mh_isD [OF s] note b = mh_bounds [OF s] note f = free_heads_around [OF d(2)]
  define m1 where "m1 = mh_account (m\<lparr>mh_available_size := sub32 (mh_available_size m) (n - 24)\<rparr>)"
  have "avail ?bs < 2 ^ 32" "n - 24 \<le> avail ?bs" using avail_extent [of ?bs] b by simp_all
  then have "sub32 (avail ?bs) (n - 24) = avail (xs @ (True, n) # ys)" by (simp add: sub32_small)
  then have a1: "mh_available_size m1 = avail (xs @ (True, n) # ys)" using d(7) by (simp add: m1_def)
  have "wf_free m1 ?a ?hi ?P" using d(8) by (simp add: m1_def)
  from wf_free_unlink [OF this, of p] zero_not_free [OF s] obtain m2 where
    m2: "mh_unlink p m1 = Some m2" "wf_free m2 ?a ?hi (?P - {p})" "hdrs m2 = hdrs m1" "same_rest m1 m2"
    "mh_available_size m2 = mh_available_size m1" by (auto simp: p_def)
  have P: "?P - {p} = free_heads ?a (xs @ (True, n) # ys)" using f b(2) by (fastforce simp: p_def)
  have "wf_free (mh_clear_links p m2) ?a ?hi (?P - {p})" by (rule wf_free_push(3) [OF m2(2)]) (simp_all add: p_def)
  moreover have "same_rest m (mh_clear_links p m2)"
    using m2(4) same_rest_steps(8) [of m2 p] unfolding m1_def same_rest_def by (simp add: mh_account_def)
  moreover have "mh_take_whole (n - 24) p m = Some (mh_clear_links p m2)"
    using m2(1) by (simp add: mh_take_whole_def m1_def Let_def)
  ultimately show ?thesis using a1 m2(3,5) unfolding P by (intro exI [of _ "mh_clear_links p m2"]) (simp add: m1_def)
qed

lemma coalesced_use: "coalesced (xs @ (False, n) # ys) \<Longrightarrow> coalesced (xs @ (True, k) # ys)"
  by (cases ys) (auto simp: coalesced_append)

lemma coalesced_taken: "coalesced (xs @ (False, n) # ys) \<Longrightarrow> coalesced (xs @ mh_taken sz n @ ys)"
  by (cases ys) (auto simp: coalesced_append mh_taken_def)

lemma extent_mh_taken [simp]: "sz + 24 \<le> n \<Longrightarrow> extent (mh_taken sz n) = n"
  by (simp add: mh_taken_def)

text \<open>What the section of an allocation does.\<close>

definition alloc_done :: "nat \<Rightarrow> smem_block list \<Rightarrow> rt_memheap \<Rightarrow> nat option \<Rightarrow> rt_memheap \<Rightarrow> bool" where
  "alloc_done sz bs m r m' \<longleftrightarrow>
     (r = None \<and> m' = m \<and> mh_no_fit sz bs \<or>
      (\<exists>xs n ys. bs = xs @ (False, n) # ys \<and> sz + 24 \<le> n \<and> r = Some (mh_start_addr m + extent xs + 24) \<and>
         mh_is m' (xs @ mh_taken sz n @ ys) \<and> same_rest m m'))"

lemma memheap_alloc_section_spec:
  assumes s: "mh_is m bs" and sz: "16 \<le> sz" "sz mod 8 = 0"
  shows "\<exists>r m'. memheap_alloc_section sz m = Some (r, m') \<and> alloc_done sz bs m r m'"
proof -
  have "0 < sz" using sz(1) by simp
  from search_free_blocks [OF s this] obtain h fs where h: "mh_search sz (mi_next_free (mh_item m (mh_free_list m))) 0 m = Some (h, fs)"
    "fs < sz \<and> mh_no_fit sz bs \<or>
     (\<exists>xs n ys. bs = xs @ (False, n) # ys \<and> h = mh_start_addr m + extent xs \<and> fs = n - 24 \<and> sz + 24 \<le> n)"
    by (elim exE conjE)
  from h(2) show ?thesis
  proof (elim disjE exE conjE)
    assume "fs < sz" "mh_no_fit sz bs"
    with h(1) show ?thesis by (simp add: memheap_alloc_section_def alloc_done_def)
  next
    fix xs n ys
    assume x: "bs = xs @ (False, n) # ys" "h = mh_start_addr m + extent xs" "fs = n - 24" "sz + 24 \<le> n"
    let ?p = "mh_start_addr m + extent xs"
    note s' = s [unfolded x(1)] note d = mh_isD [OF s'] note b = mh_bounds [OF s']
    have "sz + 40 < 2 ^ 32" using x(4) b(1,3) by simp
    then have "add32 (add32 sz 24) 16 = sz + 40" by (simp add: add32_small)
    then have big: "add32 (add32 sz 24) 16 \<le> fs \<longleftrightarrow> sz + 64 \<le> n" using x(3,4) by linarith
    define k rest where "k = (if sz + 64 \<le> n then sz + 24 else n)" and
      "rest = (if sz + 64 \<le> n then (False, n - (sz + 24)) # ys else ys)"
    have tk: "xs @ mh_taken sz n @ ys = xs @ (True, k) # rest" by (simp add: mh_taken_def k_def rest_def)
    obtain m5 where m5: "(if add32 (add32 sz 24) 16 \<le> fs then mh_split sz h m else mh_take_whole fs h m) = Some m5"
      "same_rest m m5" "mh_available_size m5 = avail (xs @ (True, k) # rest)"
      "wf_blocks (mh_self m) (hdrs m5) (mh_start_addr m) (xs @ (False, k) # rest)"
      "wf_free m5 (mh_start_addr m) (mh_start_addr m + extent bs) (free_heads (mh_start_addr m) (xs @ (True, k) # rest))"
    proof (cases "sz + 64 \<le> n")
      case True
      with mh_split_spec [OF s' sz] big that x(1,2) show ?thesis by (simp add: k_def rest_def) blast
    next
      case False
      with mh_take_whole_spec [OF s'] d(2) big that x(1-3) show ?thesis by (simp add: k_def rest_def) metis
    qed
    define m6 where "m6 = upd_mi h (\<lambda>x. x\<lparr>mi_magic := RT_MEMHEAP_MAGIC OR RT_MEMHEAP_USED\<rparr>) m5"
    have run: "memheap_alloc_section sz m = Some (Some (?p + 24), m6)"
    proof -
      have "sz \<le> fs" using x(3,4) by linarith
      then have "memheap_alloc_section sz m = Some (Some (h + 24), m6)"
        unfolding memheap_alloc_section_def h(1) by (simp add: m5(1) m6_def del: if_split)
      then show ?thesis using x(2) by simp
    qed
    have "mh_is m6 (xs @ (True, k) # rest)"
    proof (rule mh_is_step [OF s])
      show "same_rest m m6" by (rule same_rest_trans [OF m5(2)]) (simp add: m6_def)
      show "wf_blocks (mh_self m) (hdrs m6) (mh_start_addr m) (xs @ (True, k) # rest)"
        using wf_blocks_mark [OF m5(4), of True] x(2) by (simp add: m6_def hdrs_magic)
      show "extent (xs @ (True, k) # rest) = extent bs" using x(1,4) by (simp add: k_def rest_def)
      show "coalesced (xs @ (True, k) # rest)" using coalesced_taken [OF d(4), of sz] unfolding tk .
      show "mh_available_size m6 = avail (xs @ (True, k) # rest)" using m5(3) by (simp add: m6_def)
      show "wf_free m6 (mh_start_addr m) (mh_start_addr m + extent bs) (free_heads (mh_start_addr m) (xs @ (True, k) # rest))"
        using m5(5) by (subst wf_free_cong [of m6 m5]) (simp_all add: m6_def)
    qed simp
    then have "alloc_done sz bs m (Some (?p + 24)) m6"
      unfolding alloc_done_def using x(1,4) tk same_rest_trans [OF m5(2), of m6] by (intro disjI2 exI [of _ xs] exI [of _ n] exI [of _ ys]) (simp add: m6_def)
    with run show ?thesis by blast
  qed
qed

section \<open>Giving back\<close>

text \<open>The neighbours of a block that is given back are not to be merged already.\<close>

lemma absorb_add: "absorb (j + n) ys = (j + fst (absorb n ys), snd (absorb n ys))"
  by (cases "(n, ys)" rule: absorb.cases) auto

lemma plugged_left: "plugged (ws @ [(False, j)]) n ys = ws @ (False, fst (absorb (j + n) ys)) # snd (absorb (j + n) ys)"
  by (simp add: plugged_def absorb_add split: prod.split)

lemma plugged_right: "xs = [] \<or> fst (last xs) \<Longrightarrow> plugged xs n ys = xs @ (False, fst (absorb n ys)) # snd (absorb n ys)"
  by (auto simp: plugged_def split: prod.split)

lemma coalesced_absorb: "coalesced ys \<Longrightarrow> coalesced ((False, fst (absorb n ys)) # snd (absorb n ys))"
proof (cases "(n, ys)" rule: absorb.cases)
  case (1 m k zs)
  assume "coalesced ys"
  with 1 show ?thesis by (cases zs) auto
qed auto

lemma coalesced_plugged:
  assumes "coalesced (xs @ (True, n) # ys)"
  shows "coalesced (plugged xs n ys)"
proof -
  have c: "coalesced xs" "coalesced ys" using assms coalesced_tl by (auto simp: coalesced_append)
  show ?thesis
  proof (cases "xs = [] \<or> fst (last xs)")
    case True
    then show ?thesis using c coalesced_absorb [of ys n] unfolding plugged_right [OF True] by (simp add: coalesced_append)
  next
    case False
    then obtain ws j where w: "xs = ws @ [(False, j)]" by (metis append_butlast_last_id prod.collapse)
    show ?thesis
      unfolding w plugged_left using c coalesced_absorb [of ys "j + n"] w by (auto simp: coalesced_append)
  qed
qed

lemma merge_prev_spec:
  assumes w: "wf_blocks (mh_self m) (hdrs m) a (ws @ (False, j) # (False, n) # ys)"
  shows "\<exists>m'. mh_merge_prev (a + extent ws + j) m = (a + extent ws, False, m') \<and> same_rest m m' \<and> links m' = links m \<and>
    mh_available_size m' = add32 (mh_available_size m) 24 \<and> wf_blocks (mh_self m) (hdrs m') a (ws @ (False, j + n) # ys)"
proof -
  let ?p = "a + extent ws" let ?q = "?p + j" let ?r = "?q + n"
  have w': "wf_blocks (mh_self m) (hdrs m) a ((ws @ [(False, j)]) @ (False, n) # ys)" using w by simp
  note b = prev_used [OF w'] block_facts(1) [OF w'] note i = wf_blocks_item(2) [OF w] wf_blocks_item(2) [OF w']
  have f: "\<not> RT_MEMHEAP_IS_USED m ?p" "mi_prev (mh_item m ?q) = ?p" "mi_next (mh_item m ?q) = ?r"
    using b by (simp_all add: add.assoc)
  define m' where "m' = upd_mi ?r (\<lambda>x. x\<lparr>mi_prev := ?p\<rparr>) (upd_mi ?p (\<lambda>x. x\<lparr>mi_next := ?r\<rparr>)
    (m\<lparr>mh_available_size := add32 (mh_available_size m) 24\<rparr>))"
  have ne: "?p \<noteq> ?q" "?r \<noteq> ?q" "?r \<noteq> ?p" using i by simp_all
  have h: "hdrs m' = (hdrs m)(?r := with_prev ?p (hdrs m ?r), ?p := with_next ?r (hdrs m ?p))"
    using ne by (auto simp: m'_def fun_eq_iff)
  have "mh_merge_prev ?q m = (?p, False, m')"
    using f ne by (simp add: mh_merge_prev_def m'_def Let_def)
  moreover have "same_rest m m'" "links m' = links m" by (simp_all add: m'_def same_rest_def)
  ultimately show ?thesis using wf_blocks_join [OF w] unfolding h [symmetric] by (intro exI [of _ m']) (simp add: m'_def)
qed

lemma join_next_spec:
  assumes w: "wf_blocks (mh_self m) (hdrs m) a (xs @ (u, n) # (False, k) # zs)"
    and f: "wf_free m lo hi P" "a + extent xs + n \<in> P" "0 \<notin> P"
  shows "\<exists>m'. mh_unlink (a + extent xs + n) (mh_join_next (a + extent xs) (a + extent xs + n) m) = Some m' \<and> same_rest m m' \<and>
    wf_blocks (mh_self m) (hdrs m') a (xs @ (u, n + k) # zs) \<and> wf_free m' lo hi (P - {a + extent xs + n}) \<and>
    mh_available_size m' = mh_available_size m"
proof -
  let ?p = "a + extent xs" let ?q = "?p + n"
  have w': "wf_blocks (mh_self m) (hdrs m) a ((xs @ [(u, n)]) @ (False, k) # zs)" using w by simp
  note i = wf_blocks_item(2) [OF w] wf_blocks_item(2) [OF w']
  have r: "mi_next (mh_item m ?q) = ?q + k" using block_facts(1) [OF w'] by (simp add: add.assoc)
  define m1 where "m1 = mh_join_next ?p ?q m"
  have h: "hdrs m1 = (hdrs m)(?q + k := with_prev ?p (hdrs m (?q + k)), ?p := with_next (?q + k) (hdrs m ?p))"
    unfolding m1_def by (rule hdrs_join_next [OF r]) (use i in simp_all)
  have "wf_free m1 lo hi P" using f(1) by (subst wf_free_cong [of m1 m]) (simp_all add: m1_def mh_join_next_def)
  then obtain m2 where m2: "mh_unlink ?q m1 = Some m2" "wf_free m2 lo hi (P - {?q})" "hdrs m2 = hdrs m1" "same_rest m1 m2"
    "mh_available_size m2 = mh_available_size m1" using wf_free_unlink f(2,3) by meson
  have "same_rest m m2" using m2(4) by (simp add: m1_def same_rest_def mh_join_next_def Let_def)
  moreover have "wf_blocks (mh_self m) (hdrs m2) a (xs @ (u, n + k) # zs)" using wf_blocks_join [OF w] m2(3) h by simp
  ultimately show ?thesis using m2(1,2,5) unfolding m1_def by simp
qed

lemma merge_next_spec:
  assumes w: "wf_blocks (mh_self m) (hdrs m) a (xs @ (False, n) # ys)" and f: "wf_free m lo hi P" "free_heads (a + extent xs + n) ys \<subseteq> P" "0 \<notin> P"
  shows "\<exists>m'. mh_merge_next (a + extent xs) m = Some m' \<and> same_rest m m' \<and>
    (case ys of
       (False, k) # zs \<Rightarrow> wf_blocks (mh_self m) (hdrs m') a (xs @ (False, n + k) # zs) \<and> wf_free m' lo hi (P - {a + extent xs + n}) \<and>
         mh_available_size m' = add32 (mh_available_size m) 24
     | _ \<Rightarrow> m' = m)"
proof -
  let ?p = "a + extent xs" let ?q = "?p + n"
  note b = block_facts [OF w]
  show ?thesis
  proof (cases "\<exists>k zs. ys = (False, k) # zs")
    case False
    then have "RT_MEMHEAP_IS_USED m ?q" using b(6) by (cases ys rule: extent.cases) auto
    then have "mh_merge_next ?p m = Some m" using b(1) by (simp add: mh_merge_next_def)
    then show ?thesis using False by (cases ys rule: extent.cases) (auto split: bool.split)
  next
    case True
    then obtain k zs where ys: "ys = (False, k) # zs" by blast
    have w': "wf_blocks (mh_self m) (hdrs m) a ((xs @ [(False, n)]) @ (False, k) # zs)" using w ys by simp
    let ?m = "m\<lparr>mh_available_size := add32 (mh_available_size m) 24\<rparr>"
    have "wf_blocks (mh_self ?m) (hdrs ?m) a (xs @ (False, n) # (False, k) # zs)" "wf_free ?m lo hi P" "?q \<in> P"
      using w f(1,2) ys by auto
    from join_next_spec [OF this f(3)] obtain m2 where m2: "mh_unlink ?q (mh_join_next ?p ?q ?m) = Some m2" "same_rest ?m m2"
      "wf_blocks (mh_self ?m) (hdrs m2) a (xs @ (False, n + k) # zs)" "wf_free m2 lo hi (P - {?q})"
      "mh_available_size m2 = mh_available_size ?m" by blast
    have "\<not> RT_MEMHEAP_IS_USED m ?q" using b(6) ys by simp
    then have "mh_merge_next ?p m = Some m2" using b(1) m2(1) by (simp add: mh_merge_next_def Let_def)
    moreover have "same_rest m m2" using m2(2) by (simp add: same_rest_def)
    ultimately show ?thesis using m2(3-5) unfolding ys by simp
  qed
qed

lemma merge_next_absorb:
  assumes w: "wf_blocks (mh_self m) (hdrs m) a (xs @ (False, n) # ys)" and f: "wf_free m lo hi P" "0 \<notin> P"
    and P: "P = Q \<union> free_heads (a + extent xs + n) ys" "Q \<inter> {a + extent xs + n..} = {}"
    and av: "mh_available_size m = v + (n - 24) + avail ys" "v + n + avail ys + 24 < 2 ^ 32"
  shows "\<exists>m' k zs. absorb n ys = (k, zs) \<and> mh_merge_next (a + extent xs) m = Some m' \<and> same_rest m m' \<and>
    wf_blocks (mh_self m) (hdrs m') a (xs @ (False, k) # zs) \<and> wf_free m' lo hi (Q \<union> free_heads (a + extent xs + k) zs) \<and>
    mh_available_size m' = v + (k - 24) + avail zs"
proof -
  obtain m' where m': "mh_merge_next (a + extent xs) m = Some m'" "same_rest m m'"
    "case ys of (False, k) # zs \<Rightarrow> wf_blocks (mh_self m) (hdrs m') a (xs @ (False, n + k) # zs) \<and> wf_free m' lo hi (P - {a + extent xs + n}) \<and>
         mh_available_size m' = add32 (mh_available_size m) 24
     | _ \<Rightarrow> m' = m" using merge_next_spec [OF w f(1) _ f(2)] P(1) by blast
  show ?thesis
  proof (cases "\<exists>k zs. ys = (False, k) # zs")
    case False
    then have "m' = m" "absorb n ys = (n, ys)" using m'(3) by (cases ys rule: extent.cases; auto split: bool.splits)+
    then show ?thesis using m'(1,2) w f(1) P(1) av(1) by simp
  next
    case True
    then obtain k zs where ys: "ys = (False, k) # zs" by blast
    have w': "wf_blocks (mh_self m) (hdrs m) a ((xs @ [(False, n)]) @ (False, k) # zs)" using w ys by simp
    note i = wf_blocks_item(2) [OF w] wf_blocks_item(2) [OF w']
    have "q \<noteq> a + extent xs + n" if "q \<in> free_heads (a + extent xs + n + k) zs" for q
      using free_heads_around(2) [OF w', of q] that i(2) by (auto simp: add.assoc)
    then have "P - {a + extent xs + n} = Q \<union> free_heads (a + extent xs + (n + k)) zs"
      unfolding P(1) ys using P(2) by (auto simp: add.assoc)
    moreover have "add32 (mh_available_size m) 24 = v + (n + k - 24) + avail zs"
      using av i unfolding ys by (simp add: add32_small)
    ultimately show ?thesis using m' unfolding ys by simp
  qed
qed

lemma memheap_free_section_spec:
  assumes s: "mh_is m (xs @ (True, n) # ys)"
  shows "\<exists>m'. memheap_free_section (mh_start_addr m + extent xs) m = Some ((), m') \<and> mh_is m' (plugged xs n ys) \<and> same_rest m m'"
proof -
  let ?a = "mh_start_addr m" let ?p = "?a + extent xs" let ?bs = "xs @ (True, n) # ys" let ?hi = "?a + extent ?bs"
  note d = mh_isD [OF s] note b = mh_bounds [OF s] note f = free_heads_around [OF d(2)]
  define m0 where "m0 = upd_mi ?p (\<lambda>x. x\<lparr>mi_magic := RT_MEMHEAP_MAGIC OR RT_MEMHEAP_FREED\<rparr>) m"
  define m1 where "m1 = m0\<lparr>mh_available_size := add32 (mh_available_size m0) (MEMITEM_SIZE m0 ?p)\<rparr>"
  have w0: "wf_blocks (mh_self m0) (hdrs m0) ?a (xs @ (False, n) # ys)"
    using wf_blocks_mark [OF d(2), of False] by (simp add: m0_def hdrs_magic)
  have av: "avail xs + n + avail ys + 24 < 2 ^ 32" using avail_extent [of xs] avail_extent [of ys] b(1,3) by linarith
  have "add32 (avail xs + avail ys) (n - 24) = avail xs + (n - 24) + avail ys" using av by (simp add: add32_small)
  then have a1: "mh_available_size m1 = avail xs + (n - 24) + avail ys"
    using block_facts(5) [OF w0] d(7) by (simp add: m1_def) (simp add: m0_def)
  have r1: "same_rest m m1" by (simp add: m1_def m0_def same_rest_def)
  have w1: "wf_blocks (mh_self m1) (hdrs m1) ?a (xs @ (False, n) # ys)" using w0 by (simp add: m1_def)
  have f1: "wf_free m1 ?a ?hi (free_heads ?a ?bs)" using d(8) by (subst wf_free_cong [of m1 m]) (simp_all add: m1_def m0_def)
  have P: "free_heads ?a ?bs = free_heads ?a xs \<union> free_heads (?p + n) ys" by simp
  obtain ws n' ins m2 where m2: "mh_merge_prev ?p m1 = (?a + extent ws, ins, m2)" "same_rest m1 m2" "links m2 = links m1"
    "mh_available_size m2 = avail ws + (n' - 24) + avail ys" "wf_blocks (mh_self m2) (hdrs m2) ?a (ws @ (False, n') # ys)"
    "free_heads ?a xs = free_heads ?a ws \<union> (if ins then {} else {?a + extent ws})" "?a + extent ws + n' = ?p + n"
    "plugged xs n ys = ws @ (False, fst (absorb n' ys)) # snd (absorb n' ys)"
  proof (cases "xs = [] \<or> fst (last xs)")
    case True
    have "mh_merge_prev ?p m1 = (?p, True, m1)" using prev_used(1) [OF w1] True by (simp add: mh_merge_prev_def)
    with that [of xs True m1 n] a1 w1 plugged_right [OF True] show ?thesis by simp
  next
    case False
    then obtain ws j where ws: "xs = ws @ [(False, j)]" by (metis append_butlast_last_id prod.collapse)
    have w1': "wf_blocks (mh_self m1) (hdrs m1) ?a (ws @ (False, j) # (False, n) # ys)" using w1 ws by simp
    obtain m2 where m2: "mh_merge_prev (?a + extent ws + j) m1 = (?a + extent ws, False, m2)" "same_rest m1 m2" "links m2 = links m1"
      "mh_available_size m2 = add32 (mh_available_size m1) 24" "wf_blocks (mh_self m1) (hdrs m2) ?a (ws @ (False, j + n) # ys)"
      using merge_prev_spec [OF w1'] by blast
    have "40 \<le> j" by (rule wf_blocks_item(2) [OF w1'])
    then have "mh_available_size m2 = avail ws + (j + n - 24) + avail ys"
      using m2(4) a1 av b(2) unfolding ws by (simp add: add32_small)
    moreover have "mh_self m2 = mh_self m1" using m2(2) by (simp add: same_rest_def)
    ultimately show ?thesis
      using that [of ws False m2 "j + n"] m2(1,2,3,5) plugged_left [of ws j n ys] unfolding ws by (simp add: add.assoc)
  qed
  let ?h = "?a + extent ws"
  have s2: "mh_self m2 = mh_self m" "mh_free_list m2 = mh_free_list m1" using m2(2) r1 by (simp_all add: same_rest_def)
  have f2: "wf_free m2 ?a ?hi (free_heads ?a ?bs)" using f1 wf_free_cong [OF m2(3) s2(2)] by simp
  have z: "0 \<notin> free_heads ?a ?bs" by (rule zero_not_free [OF s])
  have P2: "free_heads ?a ?bs = free_heads ?a xs \<union> free_heads (?h + n') ys" unfolding P m2(7) ..
  have Q: "free_heads ?a xs \<inter> {?h + n'..} = {}" using f(1) unfolding m2(7) by fastforce
  have "extent ws + n' = extent xs + n" using m2(7) by simp
  then have av2: "avail ws + n' + avail ys + 24 < 2 ^ 32" using avail_extent [of ws] avail_extent [of ys] b(1,3) by linarith
  obtain m3 k zs where m3: "absorb n' ys = (k, zs)" "mh_merge_next ?h m2 = Some m3" "same_rest m2 m3"
    "wf_blocks (mh_self m2) (hdrs m3) ?a (ws @ (False, k) # zs)" "wf_free m3 ?a ?hi (free_heads ?a xs \<union> free_heads (?h + k) zs)"
    "mh_available_size m3 = avail ws + (k - 24) + avail zs"
    using merge_next_absorb [OF m2(5) f2 z P2 Q m2(4) av2] by blast
  define m4 where "m4 = (if ins then mh_insert_free ?h m3 else m3)"
  have pl: "plugged xs n ys = ws @ (False, k) # zs" using m2(8) m3(1) by simp
  have "mh_is m4 (plugged xs n ys)"
  proof (rule mh_is_step [OF s])
    show "same_rest m m4"
      using same_rest_trans [OF same_rest_trans [OF r1 m2(2)] m3(3)] same_rest_trans [OF _ same_rest_steps(5)] by (auto simp: m4_def)
    show "wf_blocks (mh_self m) (hdrs m4) ?a (plugged xs n ys)" using m3(4) s2(1) unfolding pl by (simp add: m4_def)
    show "extent (plugged xs n ys) = extent ?bs" by (simp add: extent_plugged)
    show "plugged xs n ys \<noteq> []" unfolding pl by simp
    show "coalesced (plugged xs n ys)" by (rule coalesced_plugged [OF d(4)])
    show "mh_available_size m4 = avail (plugged xs n ys)" using m3(6) unfolding pl by (simp add: m4_def)
    show "wf_free m4 ?a ?hi (free_heads ?a (plugged xs n ys))"
    proof (cases ins)
      case True
      have xs: "free_heads ?a xs = free_heads ?a ws" using m2(6) True by simp
      have "?h \<notin> free_heads ?a xs \<union> free_heads (?h + k) zs"
        using free_heads_around [OF m3(4)] wf_blocks_item(2) [OF m3(4)] unfolding xs by fastforce
      then have "wf_free (mh_insert_free ?h m3) ?a ?hi (insert ?h (free_heads ?a xs \<union> free_heads (?h + k) zs))"
        by (rule wf_free_push(2) [OF m3(5)]) (use \<open>extent ws + n' = extent xs + n\<close> in simp_all)
      then show ?thesis using True unfolding pl xs by (simp add: m4_def)
    next
      case False
      have "free_heads ?a xs \<union> free_heads (?h + k) zs = free_heads ?a (plugged xs n ys)"
        unfolding pl m2(6) using False by auto
      then show ?thesis using m3(5) False by (simp add: m4_def)
    qed
  qed
  moreover have "memheap_free_section ?p m = Some ((), m4)"
    using m2(1) m3(2) by (simp add: memheap_free_section_def m4_def m1_def m0_def Let_def)
  ultimately show ?thesis using same_rest_trans [OF same_rest_trans [OF r1 m2(2)] m3(3)] by (intro exI [of _ m4]) (auto simp: m4_def same_rest_def mh_insert_free_def Let_def)
qed

end
