(* ===== verification/Memheap_Calls.thy ===== *)
theory Memheap_Calls
  imports Memheap_Spec
begin

text \<open>
  Resizing blocks of a memory heap, and the calls as a whole: under the semaphore, from initialisation on. The heap
  is an allocator in the sense of theory Allocator.
\<close>

section \<open>Resizing in place\<close>

text \<open>A new block cut off the end of a block, linked as free or not yet.\<close>

lemma new_block_spec:
  assumes w: "wf_blocks (mh_self m) (hdrs m) a (xs @ (u, n) # ys)" and k: "40 \<le> k" "k mod 8 = 0" "k + 40 \<le> n"
  defines "m' \<equiv> mh_new_block (a + extent xs + k) (a + extent xs) m"
  shows "wf_blocks (mh_self m) (hdrs m') a (xs @ (u, k) # (False, n - k) # ys)" "same_rest m m'" "links m' = links m"
    "mh_available_size m' = mh_available_size m" "\<And>lo hi P. wf_free m' lo hi P = wf_free m lo hi P"
proof -
  have nx: "mi_next (mh_item m (a + extent xs)) = a + extent xs + n" by (rule block_facts(1) [OF w])
  have "hdrs m' = (hdrs m)(a + extent xs + k := (mh_magic False, mh_self m, a + extent xs + n, a + extent xs),
      a + extent xs + n := with_prev (a + extent xs + k) (hdrs m (a + extent xs + n)),
      a + extent xs := with_next (a + extent xs + k) (hdrs m (a + extent xs)))"
    unfolding m'_def by (rule hdrs_new_block [OF _ nx]) (use k in auto)
  then show "wf_blocks (mh_self m) (hdrs m') a (xs @ (u, k) # (False, n - k) # ys)" using wf_blocks_cut [OF w k] by simp
  show l: "same_rest m m'" "links m' = links m" "mh_available_size m' = mh_available_size m" by (simp_all add: m'_def)
  then show "wf_free m' lo hi P = wf_free m lo hi P" for lo hi P by (intro wf_free_cong) (simp_all add: same_rest_def)
qed

lemma remove_next_spec:
  assumes w: "wf_blocks (mh_self m) (hdrs m) a (xs @ (u, n) # (False, k) # zs)"
    and f: "wf_free m lo hi P" "a + extent xs + n \<in> P" "0 \<notin> P"
  shows "\<exists>m'. mh_remove_next_ptr (a + extent xs + n) m = Some m' \<and> same_rest m m' \<and>
    wf_blocks (mh_self m) (hdrs m') a (xs @ (u, n + k) # zs) \<and> wf_free m' lo hi (P - {a + extent xs + n}) \<and>
    mh_available_size m' = mh_available_size m"
proof -
  let ?p = "a + extent xs" let ?q = "?p + n" let ?r = "?q + k"
  have w': "wf_blocks (mh_self m) (hdrs m) a ((xs @ [(u, n)]) @ (False, k) # zs)" using w by simp
  note i = wf_blocks_item(2) [OF w] wf_blocks_item(2) [OF w']
  obtain m1 where m1: "mh_unlink ?q m = Some m1" "wf_free m1 lo hi (P - {?q})" "hdrs m1 = hdrs m" "same_rest m m1"
    "mh_available_size m1 = mh_available_size m" using wf_free_unlink [OF f] by blast
  have "hdrs m ?q = (mh_magic False, mh_self m, ?r, ?p)" using wf_blocks_item(1) [OF w'] by (simp add: add.assoc)
  then have "hdrs m1 ?q = (mh_magic False, mh_self m, ?r, ?p)" using m1(3) by simp
  then have nb: "mi_next (mh_item m1 ?q) = ?r" "mi_prev (mh_item m1 ?q) = ?p" by (simp_all add: hdrs_def)
  define m2 where "m2 = upd_mi ?p (\<lambda>x. x\<lparr>mi_next := ?r\<rparr>) (upd_mi ?r (\<lambda>x. x\<lparr>mi_prev := ?p\<rparr>) m1)"
  have ne: "?r \<noteq> ?q" "?p \<noteq> ?q" "?p \<noteq> ?r" using i by simp_all
  have "mh_remove_next_ptr ?q m = Some m2" using m1(1) nb ne by (simp add: mh_remove_next_ptr_def m2_def)
  moreover have "hdrs m2 = (hdrs m)(?r := with_prev ?p (hdrs m ?r), ?p := with_next ?r (hdrs m ?p))"
    using ne m1(3) by (simp add: m2_def)
  then have "wf_blocks (mh_self m) (hdrs m2) a (xs @ (u, n + k) # zs)" using wf_blocks_join [OF w] by simp
  moreover have "same_rest m m2" using m1(4) by (simp add: m2_def same_rest_def)
  moreover have "wf_free m2 lo hi (P - {?q})" using m1(2) by (subst wf_free_cong [of m2 m1]) (simp_all add: m2_def)
  ultimately show ?thesis using m1(5) by (intro exI [of _ m2]) (simp add: m2_def)
qed

lemma coalesced_resize:
  "coalesced (xs @ (True, n) # (False, k) # zs) \<Longrightarrow> coalesced (xs @ (True, n') # (False, k') # zs)"
  by (cases zs) (auto simp: coalesced_append)

lemma memheap_grow_spec:
  assumes s: "mh_is m (xs @ (True, n) # ys)" and sz: "n - 24 < newsize" "newsize mod 8 = 0" "newsize < 2 ^ 32 - 16"
  defines "p \<equiv> mh_start_addr m + extent xs"
  shows "\<exists>g m'. memheap_grow_section p (n - 24) newsize m = Some (g, m') \<and> same_rest m m' \<and>
    (if g then \<exists>k zs. ys = (False, k) # zs \<and> newsize + 64 < n + k \<and>
       mh_is m' (xs @ (True, newsize + 24) # (False, n + k - (newsize + 24)) # zs)
     else m' = m)"
proof -
  let ?a = "mh_start_addr m" let ?bs = "xs @ (True, n) # ys" let ?hi = "?a + extent ?bs"
  note d = mh_isD [OF s] note b = mh_bounds [OF s] note bf = block_facts [OF d(2)]
  show ?thesis
  proof (cases "\<exists>k zs. ys = (False, k) # zs \<and> newsize + 64 < n + k")
    case False
    have "RT_MEMHEAP_IS_USED m (p + n) \<or> \<not> add32 newsize 16 < add32 (MEMITEM_SIZE m (p + n)) (n - 24)"
    proof (cases "\<exists>k zs. ys = (False, k) # zs")
      case False
      then show ?thesis using bf(6) by (cases ys rule: extent.cases) (auto simp: p_def)
    next
      case True
      then obtain k zs where ys: "ys = (False, k) # zs" by blast
      have w': "wf_blocks (mh_self m) (hdrs m) ?a ((xs @ [(True, n)]) @ (False, k) # zs)" using d(2) ys by simp
      have k: "MEMITEM_SIZE m (p + n) = k - 24" "40 \<le> k"
        using block_facts(5) [OF w'] wf_blocks_item(2) [OF w'] by (simp_all add: p_def add.assoc)
      have "k - 24 + (n - 24) < 2 ^ 32" using b ys by simp
      then have "add32 (k - 24) (n - 24) = k - 24 + (n - 24)" "add32 newsize 16 = newsize + 16" using sz(3) by (simp_all add: add32_small)
      moreover have "\<not> newsize + 64 < n + k" using ys \<open>\<not> (\<exists>k zs. ys = (False, k) # zs \<and> newsize + 64 < n + k)\<close> by blast
      then have "\<not> newsize + 16 < k - 24 + (n - 24)" using k(2) b(2) by linarith
      ultimately show ?thesis using k(1) by simp
    qed
    then have "memheap_grow_section p (n - 24) newsize m = Some (False, m)"
      using bf(1) b(2) by (auto simp: memheap_grow_section_def p_def)
    then show ?thesis by (intro exI [of _ False] exI [of _ m]) simp
  next
    case True
    then obtain k zs where ys: "ys = (False, k) # zs" and big: "newsize + 64 < n + k" by blast
    have w: "wf_blocks (mh_self m) (hdrs m) ?a (xs @ (True, n) # (False, k) # zs)" using d(2) ys by simp
    have w': "wf_blocks (mh_self m) (hdrs m) ?a ((xs @ [(True, n)]) @ (False, k) # zs)" using w by simp
    note i = wf_blocks_item(2,3) [OF w] wf_blocks_item(2,3) [OF w']
    have lim: "?a + extent xs + n + k + extent zs + 24 \<le> 2 ^ 32" using b(1) ys by simp
    let ?P = "free_heads ?a ?bs"
    define m1 where "m1 = mh_account (m\<lparr>mh_available_size := sub32 (mh_available_size m) (newsize - (n - 24))\<rparr>)"
    have m1: "same_rest m m1" "hdrs m1 = hdrs m" "wf_free m1 ?a ?hi ?P" "mh_self m1 = mh_self m"
    proof -
      show r: "same_rest m m1" unfolding m1_def by (rule same_rest_trans [OF same_rest_steps(2,3)])
      then show "mh_self m1 = mh_self m" by (simp add: same_rest_def)
    qed (use d(8) in \<open>simp_all add: m1_def\<close>)
    have "p + n \<in> ?P" using ys by (simp add: p_def)
    then obtain m2 where m2: "mh_remove_next_ptr (p + n) m1 = Some m2" "same_rest m1 m2"
      "wf_blocks (mh_self m) (hdrs m2) ?a (xs @ (True, n + k) # zs)" "wf_free m2 ?a ?hi (?P - {p + n})"
      "mh_available_size m2 = mh_available_size m1"
      using remove_next_spec [of m1 ?a xs True n k zs ?a ?hi ?P] w m1 zero_not_free [OF s] by (auto simp: p_def)
    have self2: "mh_self m2 = mh_self m" using m1(4) m2(2) by (simp add: same_rest_def)
    define q where "q = p + (newsize + 24)"
    define m3 where "m3 = mh_new_block q p m2"
    have c: "40 \<le> newsize + 24" "(newsize + 24) mod 8 = 0" "newsize + 24 + 40 \<le> n + k"
      using sz(1,2) big b(2) by (simp_all add: mod_add_eq [symmetric])
    note nb = new_block_spec [OF m2(3) [folded self2] c, folded p_def, folded q_def, folded m3_def]
    have P: "?P - {p + n} = free_heads ?a xs \<union> free_heads (p + n + k) zs" "q \<notin> ?P - {p + n}" "?a \<le> q" "q \<le> ?hi"
      using free_heads_around [OF w'] free_heads_around(1) [OF w] i(1,3) c ys unfolding q_def p_def by (fastforce simp: add.assoc)+
    have f4: "wf_free (mh_push q m3) ?a ?hi (insert q (?P - {p + n}))"
      by (rule wf_free_push(1)) (use nb(5) m2(4) P(2-4) in auto)
    have "avail ?bs < 2 ^ 32" "k - 24 \<le> avail ?bs" using avail_extent [of ?bs] b ys by simp_all
    then have "sub32 (avail ?bs) (newsize - (n - 24)) = avail ?bs - (newsize - (n - 24))" using big sz(1) by (intro sub32_small) auto
    then have av: "mh_available_size (mh_push q m3) = avail (xs @ (True, newsize + 24) # (False, n + k - (newsize + 24)) # zs)"
      using nb(4) m2(5) d(7) ys big sz(1) i by (simp add: m1_def) arith
    have "mh_is (mh_push q m3) (xs @ (True, newsize + 24) # (False, n + k - (newsize + 24)) # zs)"
    proof (rule mh_is_step [OF s])
      show "same_rest m (mh_push q m3)"
        by (rule same_rest_trans [OF same_rest_trans [OF same_rest_trans [OF m1(1) m2(2)] nb(2)] same_rest_steps(4)])
      show "wf_blocks (mh_self m) (hdrs (mh_push q m3)) ?a (xs @ (True, newsize + 24) # (False, n + k - (newsize + 24)) # zs)"
        using nb(1) self2 by simp
      show "extent (xs @ (True, newsize + 24) # (False, n + k - (newsize + 24)) # zs) = extent ?bs" using big ys by simp
      show "coalesced (xs @ (True, newsize + 24) # (False, n + k - (newsize + 24)) # zs)"
        using d(4) unfolding ys by (rule coalesced_resize)
      have "insert q (?P - {p + n}) = free_heads ?a (xs @ (True, newsize + 24) # (False, n + k - (newsize + 24)) # zs)"
        unfolding P(1) using c(3) by (simp add: q_def p_def add.assoc)
      with f4 show "wf_free (mh_push q m3) ?a ?hi (free_heads ?a (xs @ (True, newsize + 24) # (False, n + k - (newsize + 24)) # zs))" by simp
    qed (use av in simp_all)
    moreover have "memheap_grow_section p (n - 24) newsize m = Some (True, mh_push q m3)"
    proof -
      have "\<not> RT_MEMHEAP_IS_USED m (p + n)" using bf(6) ys by (simp add: p_def)
      moreover have "MEMITEM_SIZE m (p + n) = k - 24" using block_facts(5) [OF w'] by (simp add: p_def add.assoc)
      moreover have "add32 (k - 24) (n - 24) = k - 24 + (n - 24)" "add32 newsize 16 = newsize + 16"
        using lim sz(3) by (simp_all add: add32_small)
      moreover have "add32 (p + 24) newsize = q" using lim big by (simp add: p_def q_def add32_small)
      ultimately show ?thesis
        using bf(1) b(2) big i m2(1) by (simp add: memheap_grow_section_def m1_def m3_def p_def [symmetric])
    qed
    moreover have "same_rest m (mh_push q m3)"
      by (rule same_rest_trans [OF same_rest_trans [OF same_rest_trans [OF m1(1) m2(2)] nb(2)] same_rest_steps(4)])
    ultimately show ?thesis using ys big by (intro exI [of _ True] exI [of _ "mh_push q m3"]) simp
  qed
qed

lemma memheap_shrink_spec:
  assumes s: "mh_is m (xs @ (True, n) # ys)" and sz: "16 \<le> newsize" "newsize mod 8 = 0" "newsize + 64 \<le> n"
  defines "p \<equiv> mh_start_addr m + extent xs"
  shows "\<exists>m'. memheap_shrink_section p newsize m = Some ((), m') \<and> same_rest m m' \<and>
    mh_is m' (xs @ (True, newsize + 24) # (False, fst (absorb (n - (newsize + 24)) ys)) # snd (absorb (n - (newsize + 24)) ys))"
proof -
  let ?a = "mh_start_addr m" let ?bs = "xs @ (True, n) # ys" let ?hi = "?a + extent ?bs" let ?P = "free_heads ?a ?bs"
  note d = mh_isD [OF s] note b = mh_bounds [OF s]
  define k where "k = n - (newsize + 24)"
  define q where "q = p + (newsize + 24)"
  define m1 where "m1 = mh_new_block q p m"
  have c: "40 \<le> newsize + 24" "(newsize + 24) mod 8 = 0" "newsize + 24 + 40 \<le> n" using sz by (simp_all add: mod_add_eq [symmetric])
  note nb = new_block_spec [OF d(2) c, folded p_def, folded q_def, folded m1_def, folded k_def]
  have self1: "mh_self m1 = mh_self m" using nb(2) by (simp add: same_rest_def)
  have qa: "q = ?a + extent (xs @ [(True, newsize + 24)])" by (simp add: q_def p_def)
  have w1: "wf_blocks (mh_self m1) (hdrs m1) ?a ((xs @ [(True, newsize + 24)]) @ (False, k) # ys)" using nb(1) self1 by simp
  have qk: "q + k = p + n" using c by (simp add: q_def k_def)
  have P: "?P = free_heads ?a xs \<union> free_heads (q + k) ys" unfolding qk by (simp add: p_def add.assoc)
  obtain m2 k' zs where m2: "absorb k ys = (k', zs)" "same_rest m1 m2"
    "(if \<not> RT_MEMHEAP_IS_USED m1 (mi_next (mh_item m1 q))
      then do {
        let free_ptr = mi_next (mh_item m1 q);
        let m = m1\<lparr>mh_available_size := sub32 (mh_available_size m1) (MEMITEM_SIZE m1 free_ptr)\<rparr>;
        mh_unlink free_ptr (mh_join_next q free_ptr m)
      } else Some m1) = Some m2"
    "wf_blocks (mh_self m1) (hdrs m2) ?a ((xs @ [(True, newsize + 24)]) @ (False, k') # zs)"
    "wf_free m2 ?a ?hi (free_heads ?a xs \<union> free_heads (q + k') zs)" "mh_available_size m2 = avail xs + avail zs"
  proof (cases "\<exists>j zs. ys = (False, j) # zs")
    case False
    then have "RT_MEMHEAP_IS_USED m1 (mi_next (mh_item m1 q))" "absorb k ys = (k, ys)"
      using block_facts(1,6) [OF w1] unfolding qa by (cases ys rule: extent.cases; auto split: bool.splits)+
    with that [of k ys m1] show ?thesis using w1 nb(4,5) d(7,8) P by simp
  next
    case True
    then obtain j zs where ys: "ys = (False, j) # zs" by blast
    let ?m = "m1\<lparr>mh_available_size := sub32 (mh_available_size m1) (j - 24)\<rparr>"
    have w2: "wf_blocks (mh_self m1) (hdrs m1) ?a (((xs @ [(True, newsize + 24)]) @ [(False, k)]) @ (False, j) # zs)" using w1 ys by simp
    have fr: "mi_next (mh_item m1 q) = q + k" "MEMITEM_SIZE m1 (q + k) = j - 24" "\<not> RT_MEMHEAP_IS_USED m1 (q + k)"
      using block_facts(1) [OF w1] block_facts(4,5) [OF w2] unfolding qa by (simp_all add: add.assoc)
    have "wf_blocks (mh_self ?m) (hdrs ?m) ?a ((xs @ [(True, newsize + 24)]) @ (False, k) # (False, j) # zs)" using w1 ys by simp
    moreover have "wf_free ?m ?a ?hi ?P" using nb(5) d(8) by simp
    moreover have "?a + extent (xs @ [(True, newsize + 24)]) + k \<in> ?P" using qa P ys by simp
    ultimately obtain m2 where m2: "mh_unlink (q + k) (mh_join_next q (q + k) ?m) = Some m2" "same_rest ?m m2"
      "wf_blocks (mh_self ?m) (hdrs m2) ?a ((xs @ [(True, newsize + 24)]) @ (False, k + j) # zs)"
      "wf_free m2 ?a ?hi (?P - {q + k})" "mh_available_size m2 = mh_available_size ?m"
      using join_next_spec [of ?m ?a "xs @ [(True, newsize + 24)]" False k j zs ?a ?hi ?P] zero_not_free [OF s] unfolding qa by blast
    have "z \<noteq> q + k" if "z \<in> free_heads ?a xs \<union> free_heads (q + k + j) zs" for z
      using free_heads_around [OF w2, of z] free_heads_around(1) [OF d(2), of z] that wf_blocks_item(2) [OF w2] c
      unfolding qa by (auto simp: add.assoc)
    moreover have e: "free_heads (q + k) ys = insert (q + k) (free_heads (q + (k + j)) zs)" using ys by (simp add: add.assoc)
    ultimately have P': "?P - {q + k} = free_heads ?a xs \<union> free_heads (q + (k + j)) zs"
      unfolding P e by (simp only: add.assoc) blast
    have "avail ?bs < 2 ^ 32" using avail_extent [of ?bs] b by simp
    then have "sub32 (avail ?bs) (j - 24) = avail xs + avail zs" unfolding ys by (simp add: sub32_small)
    then have "mh_available_size m2 = avail xs + avail zs" using m2(5) nb(4) d(7) by simp
    moreover have "same_rest m1 m2" using m2(2) by (simp add: same_rest_def)
    ultimately show ?thesis using that [of "k + j" zs m2] m2(1,3,4) fr ys P' by (simp add: Let_def)
  qed
  have self2: "mh_self m2 = mh_self m1" using m2(2) by (simp add: same_rest_def)
  have w3: "wf_blocks (mh_self m2) (hdrs m2) ?a ((xs @ [(True, newsize + 24)]) @ (False, k') # zs)" using m2(4) self2 by simp
  have ext: "k' + extent zs = k + extent ys" using absorb_facts(1) [OF m2(1)] .
  have nq: "q \<notin> free_heads ?a xs \<union> free_heads (q + k') zs"
    using free_heads_around(2) [OF w3, of q] free_heads_around(1) [OF d(2), of q] wf_blocks_item(2) [OF w3] c
    unfolding qa [symmetric] by (auto simp: q_def p_def)
  have f4: "wf_free (mh_push q m2) ?a ?hi (insert q (free_heads ?a xs \<union> free_heads (q + k') zs))"
    by (rule wf_free_push(1) [OF m2(5) nq]) (use c in \<open>simp_all add: q_def p_def\<close>)
  let ?m4 = "mh_push q m2"
  have hd4: "MEMITEM_SIZE ?m4 q = k' - 24"
  proof -
    have "wf_blocks (mh_self ?m4) (hdrs ?m4) ?a ((xs @ [(True, newsize + 24)]) @ (False, k') # zs)"
      using w3 same_rest_steps(4) [of m2 q] by (simp add: same_rest_def)
    from block_facts(5) [OF this] show ?thesis unfolding qa .
  qed
  define m5 where "m5 = ?m4\<lparr>mh_available_size := add32 (mh_available_size ?m4) (MEMITEM_SIZE ?m4 q)\<rparr>"
  let ?bs' = "xs @ (True, newsize + 24) # (False, k') # zs"
  have ex: "extent ?bs' = extent ?bs" using ext c by (simp add: k_def)
  have r5: "same_rest m m5" using nb(2) m2(2) same_rest_steps(4) [of m2 q] by (simp add: m5_def same_rest_def)
  have "mh_is m5 ?bs'"
  proof (rule mh_is_step [OF s r5 _ ex])
    show "wf_blocks (mh_self m) (hdrs m5) ?a ?bs'" using w3 self1 self2 by (simp add: m5_def)
    show "coalesced ?bs'"
      using coalesced_absorb [of ys k] d(4) m2(1) coalesced_tl by (auto simp: coalesced_append)
    have "avail ?bs' < 2 ^ 32" using avail_extent [of ?bs'] b unfolding ex by simp
    then show "mh_available_size m5 = avail ?bs'" using m2(6) hd4 by (simp add: m5_def add32_small)
    have "insert q (free_heads ?a xs \<union> free_heads (q + k') zs) = free_heads ?a ?bs'" by (simp add: q_def p_def add.assoc)
    with f4 show "wf_free m5 ?a ?hi (free_heads ?a ?bs')" by (simp add: m5_def)
  qed simp
  moreover have "memheap_shrink_section p newsize m = Some ((), m5)"
  proof -
    have e: "add32 (add32 p newsize) 24 = q" using b(1,2) c by (simp add: p_def q_def add32_small)
    show ?thesis
      by (simp only: memheap_shrink_section_def Let_def e m1_def [symmetric] m2(3) [unfolded Let_def] Option.bind.simps m5_def)
  qed
  ultimately show ?thesis using r5 m2(1) by (simp add: k_def [symmetric])
qed

section \<open>Live blocks\<close>

fun mh_walk :: "rt_memheap \<Rightarrow> nat \<Rightarrow> nat \<Rightarrow> nat \<Rightarrow> smem_block list" where
  "mh_walk m 0 e off = []"
| "mh_walk m (Suc f) e off =
     (if e \<le> off then []
      else (RT_MEMHEAP_IS_USED m off, mi_next (mh_item m off) - off) # mh_walk m f e (mi_next (mh_item m off)))"

text \<open>The blocks that the headers describe, and the data of those in use.\<close>

definition mh_blocks :: "rt_memheap \<Rightarrow> smem_block list" where
  "mh_blocks m = mh_walk m (mh_pool_size m) (mh_start_addr m + mh_pool_size m - 24) (mh_start_addr m)"

definition mh_live :: "rt_memheap \<Rightarrow> block set" where
  "mh_live m = set (mh_regions (mh_start_addr m) (mh_blocks m))"

definition mh_inv :: "rt_memheap \<Rightarrow> bool" where
  "mh_inv m \<longleftrightarrow> mh_is m (mh_blocks m)"

lemma mh_walk_seg:
  "seg self (hdrs m) pv off bs \<Longrightarrow> length bs \<le> f \<Longrightarrow> mh_walk m f (off + extent bs) off = bs"
proof (induction bs arbitrary: pv off f rule: extent.induct)
  case 1
  then show ?case by (cases f) auto
next
  case (2 u n bs)
  then obtain g where f: "f = Suc g" by (cases f) auto
  have h: "hdrs m off = (mh_magic u, self, off + n, pv)" "0 < n" using "2.prems"(1) by auto
  have "RT_MEMHEAP_IS_USED m off = u" unfolding magic_used h fst_conv by (rule magic_bits(1))
  moreover have "mi_next (mh_item m off) = off + n" using h by (simp add: hdrs_def)
  moreover have "mh_walk m g (off + n + extent bs) (off + n) = bs" using 2 f by auto
  ultimately show ?case using f h(2) by (simp add: add.assoc)
qed

lemma mh_is_blocks:
  assumes "mh_is m bs"
  shows "mh_blocks m = bs" "mh_inv m" "mh_live m = set (mh_regions (mh_start_addr m) bs)"
proof -
  have s: "seg (mh_self m) (hdrs m) (mh_start_addr m + extent bs) (mh_start_addr m) bs"
    using mh_isD(2) [OF assms] by (simp add: wf_blocks_def)
  have "length bs \<le> extent bs" if "\<forall>(u, n) \<in> set bs. 40 \<le> n \<and> n mod 8 = 0" for bs :: "smem_block list"
    using that by (induction bs rule: extent.induct) auto
  then have "length bs \<le> mh_pool_size m" using seg_sizes [OF s] mh_isD(6) [OF assms] by fastforce
  from mh_walk_seg [OF s this] show b: "mh_blocks m = bs" using mh_isD(6) [OF assms] by (simp add: mh_blocks_def)
  show "mh_inv m" "mh_live m = set (mh_regions (mh_start_addr m) bs)" using assms by (simp_all add: mh_inv_def mh_live_def b)
qed

abbreviation mh_sizes :: "smem_block list \<Rightarrow> bool" where
  "mh_sizes bs \<equiv> \<forall>(u, n) \<in> set bs. 40 \<le> n \<and> n mod 8 = 0"

lemma mh_is_sizes: "mh_is m bs \<Longrightarrow> mh_sizes bs"
  by (drule mh_isD(2), unfold wf_blocks_def, elim conjE) (rule seg_sizes)

lemma mh_regions_range:
  "mh_sizes bs \<Longrightarrow> (p, k) \<in> set (mh_regions off bs) \<Longrightarrow> off + 24 \<le> p \<and> p + k \<le> off + extent bs \<and> 16 \<le> k"
proof (induction bs arbitrary: off rule: extent.induct)
  case (2 u n bs)
  from "2.IH" [of "off + n"] "2.prems" show ?case by (auto split: if_splits)
qed simp

lemma mh_regions_apart: "mh_sizes bs \<Longrightarrow> all_apart (set (mh_regions off bs))"
proof (induction bs arbitrary: off rule: extent.induct)
  case (2 u n bs)
  have ih: "all_apart (set (mh_regions (off + n) bs))" using "2.IH" "2.prems" by simp
  show ?case
  proof (cases u)
    case True
    have "apart (off + 24, n - 24) b" if "b \<in> set (mh_regions (off + n) bs)" for b
      using mh_regions_range [of bs "fst b" "snd b" "off + n"] that "2.prems" by (auto simp: apart_def)
    then have "all_apart (insert (off + 24, n - 24) (set (mh_regions (off + n) bs)))" by (rule all_apart_insert [OF ih])
    with True show ?thesis by simp
  qed (use ih in simp)
qed (simp add: all_apart_def)

lemma mh_regions_split:
  "(p, k) \<in> set (mh_regions off bs) \<Longrightarrow> \<exists>xs n ys. bs = xs @ (True, n) # ys \<and> p = off + extent xs + 24 \<and> k = n - 24"
proof (induction bs arbitrary: off rule: extent.induct)
  case (2 u n bs)
  consider "u" "p = off + 24" "k = n - 24" | "(p, k) \<in> set (mh_regions (off + n) bs)" using "2.prems" by (auto split: if_splits)
  then show ?case
  proof cases
    case 1
    then have "(u, n) # bs = [] @ (True, n) # bs \<and> p = off + extent [] + 24 \<and> k = n - 24" by simp
    then show ?thesis by blast
  next
    case 2
    from "2.IH" [OF this] obtain xs j ys where x: "bs = xs @ (True, j) # ys" "p = off + n + extent xs + 24" "k = j - 24" by blast
    then have "(u, n) # bs = ((u, n) # xs) @ (True, j) # ys \<and> p = off + extent ((u, n) # xs) + 24 \<and> k = j - 24" by simp
    then show ?thesis by blast
  qed
qed simp

text \<open>The live blocks other than the one between \<open>xs\<close> and \<open>ys\<close>.\<close>

definition others :: "rt_memheap \<Rightarrow> smem_block list \<Rightarrow> nat \<Rightarrow> smem_block list \<Rightarrow> block set" where
  "others m xs n ys = set (mh_regions (mh_start_addr m) xs) \<union> set (mh_regions (mh_start_addr m + extent xs + n) ys)"

lemma others_out:
  assumes "mh_is m (xs @ (u, n) # ys)"
  shows "(mh_start_addr m + extent xs + 24, l) \<notin> others m xs n ys"
proof -
  have z: "mh_sizes xs" "mh_sizes ys" "40 \<le> n" using mh_is_sizes [OF assms] by auto
  have "(mh_start_addr m + extent xs + 24, l) \<notin> set (mh_regions (mh_start_addr m) xs)"
    by (rule notI, drule mh_regions_range [OF z(1)], linarith)
  moreover have "(mh_start_addr m + extent xs + 24, l) \<notin> set (mh_regions (mh_start_addr m + extent xs + n) ys)"
    by (rule notI, drule mh_regions_range [OF z(2)], use z(3) in linarith)
  ultimately show ?thesis by (simp add: others_def)
qed

lemma live_others:
  assumes "mh_is m (xs @ (u, n) # ys)"
  shows "mh_live m = (if u then insert (mh_start_addr m + extent xs + 24, n - 24) (others m xs n ys) else others m xs n ys)"
  using mh_is_blocks(3) [OF assms] by (auto simp: others_def)

text \<open>What the changed lists of blocks have live.\<close>

lemma mh_regions_absorb: "mh_regions (off + fst (absorb n ys)) (snd (absorb n ys)) = mh_regions (off + n) ys"
  by (cases "(n, ys)" rule: absorb.cases) (auto simp: add.assoc)

lemma mh_regions_plugged: "set (mh_regions a (plugged xs n ys)) = set (mh_regions a xs) \<union> set (mh_regions (a + extent xs + n) ys)"
proof (cases "xs = [] \<or> fst (last xs)")
  case True
  then show ?thesis using mh_regions_absorb [of "a + extent xs" n ys] by (simp add: plugged_right)
next
  case False
  then obtain ws j where w: "xs = ws @ [(False, j)]" by (metis append_butlast_last_id prod.collapse)
  then show ?thesis using mh_regions_absorb [of "a + extent ws" "j + n" ys] by (simp add: plugged_left add.assoc)
qed

section \<open>The calls under the lock\<close>

definition mh_lock_free :: "rt_memheap \<Rightarrow> kstate \<Rightarrow> bool" where
  "mh_lock_free m s \<longleftrightarrow> mh_locked m \<or> sem_object (the_sem (mh_lock m) s) \<noteq> Obj_Null \<and>
     sem_value (the_sem (mh_lock m) s) = 1 \<and> ks_list s (sem_head (mh_lock m)) = []"

lemma sem_take_release:
  assumes "sem_value (the_sem i s) = 1"
  shows "upd_sem i (\<lambda>x. x\<lparr>sem_value := sem_value x + 1\<rparr>) (upd_sem i (\<lambda>x. x\<lparr>sem_value := sem_value x - 1\<rparr>) s) = s"
proof -
  have "ipc_sem (ks_ipc s) i\<lparr>sem_value := 1\<rparr> = ipc_sem (ks_ipc s) i"
    using assms unfolding the_sem_def by (intro rt_semaphore.equality) simp_all
  then show ?thesis using assms by (simp add: upd_sem_def upd_ipc_def the_sem_def fun_upd_idem_iff)
qed

lemma mh_with_lock_spec:
  assumes "mh_lock_free m s" "section m = Some (a, m')" "same_rest m m'"
  shows "mh_with_lock section fail m s = Some (Ret RT_EOK, a, m', s)"
proof (cases "mh_locked m")
  case True
  then show ?thesis using assms by (simp add: mh_with_lock_def mh_take_def mh_release_def same_rest_def)
next
  case False
  let ?s = "upd_sem (mh_lock m) (\<lambda>x. x\<lparr>sem_value := sem_value x - 1\<rparr>) s"
  have f: "sem_object (the_sem (mh_lock m) s) \<noteq> Obj_Null" "sem_value (the_sem (mh_lock m) s) = 1" "ks_list s (sem_head (mh_lock m)) = []"
    using assms(1) False by (simp_all add: mh_lock_free_def)
  have "mh_take m s = Some (Ret RT_EOK, ?s)" using f False by (simp add: mh_take_def rt_sem_take_def sem_take_def)
  moreover have "mh_release m' ?s = Some s"
    using f False assms(3) sem_take_release [OF f(2)] by (simp add: mh_release_def rt_sem_release_def same_rest_def RT_SEM_VALUE_MAX_def)
  ultimately show ?thesis using assms(2) by (simp add: mh_with_lock_def)
qed

lemma mh_size_facts:
  assumes "sz < 2 ^ 32 - 7"
  shows "sz \<le> mh_size sz" "16 \<le> mh_size sz" "mh_size sz mod 8 = 0" "mh_size sz \<le> sz + 16"
  using RT_ALIGN_facts [OF assms] unfolding mh_size_def Let_def by (simp_all split: if_split)

lemma mh_alloc_live:
  assumes s: "mh_inv m" "mh_lock_free m s" and sz: "sz < 2 ^ 32 - 7"
  shows "\<exists>r m'. rt_memheap_alloc sz m s = Some (Ret RT_EOK, r, m', s) \<and> mh_inv m' \<and> same_rest m m' \<and>
    (case r of None \<Rightarrow> m' = m
     | Some p \<Rightarrow> \<exists>k. mh_size sz \<le> k \<and> (p, k) \<notin> mh_live m \<and> mh_live m' = insert (p, k) (mh_live m))"
proof -
  have h: "mh_is m (mh_blocks m)" using s(1) by (simp add: mh_inv_def)
  note z = mh_size_facts [OF sz]
  show ?thesis
  proof (cases "mh_size sz < mh_available_size m")
    case False
    then show ?thesis using s(1) mh_isD(1) [OF h] by (simp add: rt_memheap_alloc_def)
  next
    case True
    obtain r m' where r: "memheap_alloc_section (mh_size sz) m = Some (r, m')" "alloc_done (mh_size sz) (mh_blocks m) m r m'"
      using memheap_alloc_section_spec [OF h z(2,3)] by blast
    from r(2) have sr: "same_rest m m'" by (auto simp: alloc_done_def)
    have run: "rt_memheap_alloc sz m s = Some (Ret RT_EOK, r, m', s)"
      using True mh_isD(1) [OF h] mh_with_lock_spec [of m s "memheap_alloc_section (mh_size sz)", OF s(2) r(1) sr] by (simp add: rt_memheap_alloc_def)
    from r(2) show ?thesis
      unfolding alloc_done_def
    proof (elim disjE exE conjE)
      assume "r = None" "m' = m"
      with run s(1) show ?thesis by simp
    next
      fix xs n ys
      assume b: "mh_blocks m = xs @ (False, n) # ys" and n: "mh_size sz + 24 \<le> n"
        and p: "r = Some (mh_start_addr m + extent xs + 24)" and h': "mh_is m' (xs @ mh_taken (mh_size sz) n @ ys)"
      let ?k = "if mh_size sz + 64 \<le> n then mh_size sz else n - 24"
      have a: "mh_start_addr m' = mh_start_addr m" using sr by (simp add: same_rest_def)
      have live: "mh_live m = others m xs n ys" using live_others [OF h [unfolded b]] by simp
      moreover have "mh_live m' = insert (mh_start_addr m + extent xs + 24, ?k) (others m xs n ys)"
        using mh_is_blocks(3) [OF h'] n a by (auto simp: mh_taken_def others_def)
      moreover have "mh_size sz \<le> ?k" using n by (simp add: le_diff_conv2)
      ultimately show ?thesis using run p sr mh_is_blocks(2) [OF h'] others_out [OF h [unfolded b]] by auto
    qed
  qed
qed

lemma mh_free_at:
  assumes h: "mh_is m (xs @ (True, n) # ys)" and s: "mh_lock_free m s"
  shows "\<exists>m'. rt_memheap_free (Some (mh_start_addr m + extent xs + 24)) m s = Some (Ret RT_EOK, (), m', s) \<and>
    mh_is m' (plugged xs n ys) \<and> same_rest m m'"
proof -
  note d = mh_isD [OF h] note bf = block_facts [OF d(2)]
  obtain m' where m': "memheap_free_section (mh_start_addr m + extent xs) m = Some ((), m')" "mh_is m' (plugged xs n ys)" "same_rest m m'"
    using memheap_free_section_spec [OF h] by blast
  have "rt_memheap_free (Some (mh_start_addr m + extent xs + 24)) m s = Some (Ret RT_EOK, (), m', s)"
    using bf(1-3,7) d(1) mh_with_lock_spec [of m s "memheap_free_section (mh_start_addr m + extent xs)", OF s m'(1,3)]
    by (simp add: rt_memheap_free_def)
  with m'(2,3) show ?thesis by blast
qed

lemma mh_free_live:
  assumes s: "mh_inv m" "mh_lock_free m s" and p: "(p, k) \<in> mh_live m"
  shows "\<exists>m'. rt_memheap_free (Some p) m s = Some (Ret RT_EOK, (), m', s) \<and> mh_inv m' \<and> same_rest m m' \<and>
    mh_live m' = mh_live m - {(p, k)}"
proof -
  obtain xs n ys where b: "mh_blocks m = xs @ (True, n) # ys" "p = mh_start_addr m + extent xs + 24" "k = n - 24"
    using mh_regions_split p unfolding mh_live_def by fastforce
  have h: "mh_is m (xs @ (True, n) # ys)" using s(1) b(1) by (simp add: mh_inv_def)
  obtain m' where m': "rt_memheap_free (Some p) m s = Some (Ret RT_EOK, (), m', s)" "mh_is m' (plugged xs n ys)" "same_rest m m'"
    using mh_free_at [OF h s(2)] unfolding b(2) by blast
  have "mh_start_addr m' = mh_start_addr m" using m'(3) by (simp add: same_rest_def)
  then have "mh_live m' = others m xs n ys" using mh_is_blocks(3) [OF m'(2)] by (simp add: mh_regions_plugged others_def)
  then have "mh_live m' = mh_live m - {(p, k)}" using live_others [OF h] others_out [OF h] b(2,3) by simp
  with m'(1,3) mh_is_blocks(2) [OF m'(2)] show ?thesis by blast
qed

end
