(* ===== verification/Memheap_Client.thy ===== *)
theory Memheap_Client
  imports Memheap_Calls Allocator
begin

text \<open>
  What a memory heap promises its clients: it is an allocator in the sense of theory Allocator, whatever the order of the
  calls, and reallocation keeps the bytes. Requests so near to 2^32 that they wrap are stated apart.
\<close>

section \<open>The heap as an allocator\<close>

text \<open>The calls as a client that never finds the lock taken sees them.\<close>

definition mh_try_alloc :: "nat \<Rightarrow> rt_memheap \<times> kstate \<Rightarrow> (nat option \<times> (rt_memheap \<times> kstate)) option" where
  "mh_try_alloc sz x =
     do { (c, r, m, s) \<leftarrow> rt_memheap_alloc sz (fst x) (snd x); if c = Ret RT_EOK then Some (r, (m, s)) else None }"

definition mh_try_free :: "nat \<Rightarrow> rt_memheap \<times> kstate \<Rightarrow> (rt_memheap \<times> kstate) option" where
  "mh_try_free p x =
     do { (c, _, m, s) \<leftarrow> rt_memheap_free (Some p) (fst x) (snd x); if c = Ret RT_EOK then Some (m, s) else None }"

definition mh_try_copy :: "nat \<Rightarrow> nat \<Rightarrow> nat \<Rightarrow> rt_memheap \<times> kstate \<Rightarrow> rt_memheap \<times> kstate" where
  "mh_try_copy d b n x = (mh_copy d b n (fst x), snd x)"

text \<open>A heap of the given place and size whose lock is free.\<close>

definition mh_ready :: "nat \<Rightarrow> nat \<Rightarrow> kstate \<Rightarrow> rt_memheap \<times> kstate \<Rightarrow> bool" where
  "mh_ready a e s x \<longleftrightarrow> mh_inv (fst x) \<and> mh_lock_free (fst x) s \<and> mh_start_addr (fst x) = a \<and> mh_pool_size (fst x) = e \<and> snd x = s"

lemma mh_ready_same: "mh_ready a e s (m, s) \<Longrightarrow> mh_inv m' \<Longrightarrow> same_rest m m' \<Longrightarrow> mh_ready a e s (m', s)"
  by (simp add: mh_ready_def mh_lock_free_def same_rest_def)

lemma mh_try_alloc_spec:
  assumes x: "mh_ready a e s (m, s)" and sz: "sz < 2 ^ 32 - 7"
  shows "\<exists>r m'. mh_try_alloc sz (m, s) = Some (r, (m', s)) \<and> mh_ready a e s (m', s) \<and> mh_data m' = mh_data m \<and>
    (case r of None \<Rightarrow> mh_live m' = mh_live m
     | Some p \<Rightarrow> \<exists>k. sz \<le> k \<and> (p, k) \<notin> mh_live m \<and> mh_live m' = insert (p, k) (mh_live m))"
proof -
  have i: "mh_inv m" "mh_lock_free m s" using x by (simp_all add: mh_ready_def)
  obtain r m' where r: "rt_memheap_alloc sz m s = Some (Ret RT_EOK, r, m', s)" "mh_inv m'" "same_rest m m'"
    "case r of None \<Rightarrow> m' = m | Some p \<Rightarrow> \<exists>k. mh_size sz \<le> k \<and> (p, k) \<notin> mh_live m \<and> mh_live m' = insert (p, k) (mh_live m)"
    using mh_alloc_live [OF i sz] by blast
  have "mh_try_alloc sz (m, s) = Some (r, (m', s))" "mh_data m' = mh_data m"
    using r(1,3) by (simp_all add: mh_try_alloc_def same_rest_def)
  moreover have "case r of None \<Rightarrow> mh_live m' = mh_live m
     | Some p \<Rightarrow> \<exists>k. sz \<le> k \<and> (p, k) \<notin> mh_live m \<and> mh_live m' = insert (p, k) (mh_live m)"
    using r(4) mh_size_facts(1) [OF sz] by (cases r) (auto intro: le_trans)
  ultimately show ?thesis using mh_ready_same [OF x r(2,3)] by blast
qed

lemma mh_try_free_spec:
  assumes x: "mh_ready a e s (m, s)" and p: "(p, k) \<in> mh_live m"
  shows "\<exists>m'. mh_try_free p (m, s) = Some (m', s) \<and> mh_ready a e s (m', s) \<and> mh_data m' = mh_data m \<and>
    mh_live m' = mh_live m - {(p, k)}"
proof -
  have i: "mh_inv m" "mh_lock_free m s" using x by (simp_all add: mh_ready_def)
  obtain m' where m': "rt_memheap_free (Some p) m s = Some (Ret RT_EOK, (), m', s)" "mh_inv m'" "same_rest m m'"
    "mh_live m' = mh_live m - {(p, k)}" using mh_free_live [OF i p] by blast
  then have "mh_try_free p (m, s) = Some (m', s)" "mh_data m' = mh_data m" by (simp_all add: mh_try_free_def same_rest_def)
  with mh_ready_same [OF x m'(2,3)] m'(4) show ?thesis by blast
qed

lemma mh_live_facts:
  assumes "mh_inv m"
  shows "all_apart (mh_live m)" "(p, k) \<in> mh_live m \<Longrightarrow> mh_start_addr m + 24 \<le> p \<and> p + k + 24 \<le> mh_start_addr m + mh_pool_size m \<and> 16 \<le> k"
proof -
  have h: "mh_is m (mh_blocks m)" using assms by (simp add: mh_inv_def)
  show "all_apart (mh_live m)" unfolding mh_live_def by (rule mh_regions_apart [OF mh_is_sizes [OF h]])
  show "mh_start_addr m + 24 \<le> p \<and> p + k + 24 \<le> mh_start_addr m + mh_pool_size m \<and> 16 \<le> k" if "(p, k) \<in> mh_live m"
    using mh_regions_range [OF mh_is_sizes [OF h]] that mh_isD(6) [OF h] unfolding mh_live_def by fastforce
qed

lemma mh_walk_copy: "mh_walk (mh_copy d b n m) f e off = mh_walk m f e off"
  by (induction m f e off rule: mh_walk.induct) (simp_all add: mh_copy_def RT_MEMHEAP_IS_USED_def)

lemma mh_copy_simps [simp]:
  "mh_blocks (mh_copy d b n m) = mh_blocks m" "mh_live (mh_copy d b n m) = mh_live m" "mh_inv (mh_copy d b n m) = mh_inv m"
  "mh_lock_free (mh_copy d b n m) s = mh_lock_free m s" "mh_object (mh_copy d b n m) = mh_object m"
  "mh_start_addr (mh_copy d b n m) = mh_start_addr m" "mh_pool_size (mh_copy d b n m) = mh_pool_size m"
proof -
  have c: "mh_self (mh_copy d b n m) = mh_self m" "mh_object (mh_copy d b n m) = mh_object m" "mh_start_addr (mh_copy d b n m) = mh_start_addr m"
    "mh_pool_size (mh_copy d b n m) = mh_pool_size m" "mh_available_size (mh_copy d b n m) = mh_available_size m"
    "mh_free_list (mh_copy d b n m) = mh_free_list m" "mh_item (mh_copy d b n m) = mh_item m"
    "mh_lock (mh_copy d b n m) = mh_lock m" "mh_locked (mh_copy d b n m) = mh_locked m"
    by (simp_all add: mh_copy_def)
  then have h: "hdrs (mh_copy d b n m) = hdrs m" "links (mh_copy d b n m) = links m" by (simp_all add: hdrs_def links_def fun_eq_iff)
  show b: "mh_blocks (mh_copy d b n m) = mh_blocks m" by (simp add: mh_blocks_def mh_walk_copy c)
  show "mh_live (mh_copy d b n m) = mh_live m" by (simp add: mh_live_def b c)
  show "mh_inv (mh_copy d b n m) = mh_inv m" by (simp add: mh_inv_def mh_is_def b c h wf_free_def)
qed (simp_all add: mh_copy_def mh_lock_free_def)

interpretation mh: data_allocator "\<lambda>sz. sz < 2 ^ 32 - 7" "mh_ready a e s" "\<lambda>x. mh_live (fst x)" mh_try_alloc mh_try_free
  "\<lambda>x. mh_data (fst x)" mh_try_copy
proof
  fix x assume x: "mh_ready a e s x"
  obtain m where m: "x = (m, s)" using x by (cases x) (simp add: mh_ready_def)
  have i: "mh_inv m" using x m by (simp add: mh_ready_def)
  show "all_apart (mh_live (fst x))" using mh_live_facts(1) [OF i] m by simp
  show "0 < k" if "(p, k) \<in> mh_live (fst x)" for p k using mh_live_facts(2) [OF i] that m by fastforce
  show "\<exists>r x'. mh_try_alloc n x = Some (r, x') \<and> mh_ready a e s x' \<and>
      (case r of None \<Rightarrow> mh_live (fst x') = mh_live (fst x)
       | Some p \<Rightarrow> \<exists>k. n \<le> k \<and> (p, k) \<notin> mh_live (fst x) \<and> mh_live (fst x') = insert (p, k) (mh_live (fst x)))"
    if n: "n < 2 ^ 32 - 7" for n
  proof -
    obtain r m' where "mh_try_alloc n (m, s) = Some (r, (m', s))" "mh_ready a e s (m', s)"
      "case r of None \<Rightarrow> mh_live m' = mh_live m
       | Some p \<Rightarrow> \<exists>k. n \<le> k \<and> (p, k) \<notin> mh_live m \<and> mh_live m' = insert (p, k) (mh_live m)"
      using mh_try_alloc_spec [OF x [unfolded m] n] by blast
    then show ?thesis unfolding m fst_conv by (intro exI [of _ r] exI [of _ "(m', s)"]) (cases r; simp)
  qed
  show "\<exists>x'. mh_try_free p x = Some x' \<and> mh_ready a e s x' \<and> mh_live (fst x') = mh_live (fst x) - {(p, k)}"
    if "(p, k) \<in> mh_live (fst x)" for p k
    using mh_try_free_spec [OF x [unfolded m], of p k] that m by fastforce
  show "mh_data (fst x') = mh_data (fst x)" if "n < 2 ^ 32 - 7" "mh_try_alloc n x = Some (r, x')" for n r x'
  proof -
    have "\<exists>r m'. mh_try_alloc n (m, s) = Some (r, (m', s)) \<and> mh_data m' = mh_data m"
      using mh_try_alloc_spec [OF x [unfolded m] that(1)] by blast
    with that(2) show ?thesis by (auto simp: m)
  qed
  show "mh_data (fst x') = mh_data (fst x)" if "(p, k) \<in> mh_live (fst x)" "mh_try_free p x = Some x'" for p k x'
  proof -
    have "\<exists>m'. mh_try_free p (m, s) = Some (m', s) \<and> mh_data m' = mh_data m"
      using mh_try_free_spec [OF x [unfolded m], of p k] that(1) m by auto
    with that(2) show ?thesis by (auto simp: m)
  qed
  show "mh_ready a e s (mh_try_copy d b n x)" for d b n using x by (simp add: mh_ready_def mh_try_copy_def)
qed (simp_all add: mh_try_copy_def, simp add: mh_copy_def)

section \<open>Reallocation\<close>

lemma mh_size_below:
  assumes "sz < 2 ^ 32 - 23"
  shows "mh_size sz < 2 ^ 32 - 16"
proof -
  have "RT_ALIGN sz RT_ALIGN_SIZE < sz + 8" "RT_ALIGN sz RT_ALIGN_SIZE mod 8 = 0" using RT_ALIGN_facts [of sz] assms by simp_all
  then have "RT_ALIGN sz RT_ALIGN_SIZE < 2 ^ 32 - 16" using assms by presburger
  then show ?thesis by (simp add: mh_size_def Let_def)
qed

lemma mh_grow_live:
  assumes s: "mh_inv m" "mh_lock_free m s" and b: "mh_blocks m = xs @ (True, n) # ys"
    and ns: "n - 24 < ns" "ns mod 8 = 0" "ns < 2 ^ 32 - 16" "newsize \<noteq> 0" "newsize \<le> ns"
  shows "\<exists>g m'. mh_with_lock (memheap_grow_section (mh_start_addr m + extent xs) (n - 24) ns) False m s = Some (Ret RT_EOK, g, m', s) \<and>
    (if g then mh_inv m' \<and> same_rest m m' \<and> realloc_done (mh_live m) (mh_data m) (mh_live m') (mh_data m')
         (mh_start_addr m + extent xs + 24) (n - 24) newsize (Some (mh_start_addr m + extent xs + 24))
     else m' = m)"
proof -
  have h: "mh_is m (xs @ (True, n) # ys)" using s(1) b by (simp add: mh_inv_def)
  obtain g m' where g: "memheap_grow_section (mh_start_addr m + extent xs) (n - 24) ns m = Some (g, m')" "same_rest m m'"
    "if g then \<exists>k zs. ys = (False, k) # zs \<and> ns + 64 < n + k \<and> mh_is m' (xs @ (True, ns + 24) # (False, n + k - (ns + 24)) # zs) else m' = m"
    using memheap_grow_spec [OF h ns(1-3)] by blast
  note run = mh_with_lock_spec [of m s "memheap_grow_section (mh_start_addr m + extent xs) (n - 24) ns", OF s(2) g(1,2)]
  show ?thesis
  proof (cases g)
    case False
    with g(3) run show ?thesis by (intro exI [of _ False]) simp
  next
    case True
    then obtain k zs where k: "ys = (False, k) # zs" "ns + 64 < n + k" "mh_is m' (xs @ (True, ns + 24) # (False, n + k - (ns + 24)) # zs)"
      using g(3) by auto
    have a: "mh_start_addr m' = mh_start_addr m" "mh_data m' = mh_data m" using g(2) by (simp_all add: same_rest_def)
    have "mh_live m' = insert (mh_start_addr m + extent xs + 24, ns) (others m xs n ys)"
      using mh_is_blocks(3) [OF k(3)] k(1,2) a(1) by (simp add: others_def add.assoc)
    moreover have "mh_live m = insert (mh_start_addr m + extent xs + 24, n - 24) (others m xs n ys)" using live_others [OF h] by simp
    ultimately have "realloc_done (mh_live m) (mh_data m) (mh_live m') (mh_data m')
         (mh_start_addr m + extent xs + 24) (n - 24) newsize (Some (mh_start_addr m + extent xs + 24))"
      using realloc_in_place [OF ns(4,5) others_out [OF h] others_out [OF h]] a(2) by simp
    with True run g(2) mh_is_blocks(2) [OF k(3)] show ?thesis by auto
  qed
qed

lemma mh_shrink_live:
  assumes s: "mh_inv m" "mh_lock_free m s" and b: "mh_blocks m = xs @ (True, n) # ys"
    and ns: "16 \<le> ns" "ns mod 8 = 0" "ns + 64 \<le> n" "newsize \<noteq> 0" "newsize \<le> ns"
  shows "\<exists>m'. mh_with_lock (memheap_shrink_section (mh_start_addr m + extent xs) ns) () m s = Some (Ret RT_EOK, (), m', s) \<and>
    mh_inv m' \<and> same_rest m m' \<and> realloc_done (mh_live m) (mh_data m) (mh_live m') (mh_data m')
         (mh_start_addr m + extent xs + 24) (n - 24) newsize (Some (mh_start_addr m + extent xs + 24))"
proof -
  have h: "mh_is m (xs @ (True, n) # ys)" using s(1) b by (simp add: mh_inv_def)
  let ?k = "n - (ns + 24)"
  obtain m' where m': "memheap_shrink_section (mh_start_addr m + extent xs) ns m = Some ((), m')" "same_rest m m'"
    "mh_is m' (xs @ (True, ns + 24) # (False, fst (absorb ?k ys)) # snd (absorb ?k ys))"
    using memheap_shrink_spec [OF h ns(1-3)] by blast
  have a: "mh_start_addr m' = mh_start_addr m" "mh_data m' = mh_data m" using m'(2) by (simp_all add: same_rest_def)
  have "mh_start_addr m + extent xs + (ns + 24) + ?k = mh_start_addr m + extent xs + n" using ns(3) by simp
  then have "mh_live m' = insert (mh_start_addr m + extent xs + 24, ns) (others m xs n ys)"
    using mh_is_blocks(3) [OF m'(3)] mh_regions_absorb [of "mh_start_addr m + extent xs + (ns + 24)" ?k ys] a(1)
    by (simp add: others_def add.assoc)
  moreover have "mh_live m = insert (mh_start_addr m + extent xs + 24, n - 24) (others m xs n ys)" using live_others [OF h] by simp
  ultimately have "realloc_done (mh_live m) (mh_data m) (mh_live m') (mh_data m')
       (mh_start_addr m + extent xs + 24) (n - 24) newsize (Some (mh_start_addr m + extent xs + 24))"
    using realloc_in_place [OF ns(4,5) others_out [OF h] others_out [OF h]] a(2) by simp
  with mh_with_lock_spec [of m s "memheap_shrink_section (mh_start_addr m + extent xs) ns", OF s(2) m'(1,2)] m'(2) mh_is_blocks(2) [OF m'(3)]
  show ?thesis by auto
qed

lemma mh_move_spec:
  assumes x: "mh_ready a e s (m, s)" and p: "(p, k) \<in> mh_live m" and ns: "ns < 2 ^ 32 - 7" "newsize \<le> ns" "newsize \<noteq> 0"
  shows "\<exists>r m'. (do {
        (r, new_ptr, m, s) \<leftarrow> rt_memheap_alloc ns m s;
        (case new_ptr of
           None \<Rightarrow> Some (r, None, m, s)
         | Some q \<Rightarrow> do {
             (r, _, m, s) \<leftarrow> rt_memheap_free (Some p) (mh_copy q p (if k < ns then k else ns) m) s;
             Some (r, new_ptr, m, s)
           }) }) = Some (Ret RT_EOK, r, m', s) \<and> mh_ready a e s (m', s) \<and>
    realloc_done (mh_live m) (mh_data m) (mh_live m') (mh_data m') p k newsize r"
proof -
  obtain r m' where mv: "move_block mh_try_alloc mh_try_free mh_try_copy p k ns (m, s) = Some (r, (m', s))" "mh_ready a e s (m', s)"
    "realloc_done (mh_live m) (mh_data m) (mh_live m') (mh_data m') p k newsize r"
    using mh.move_reallocates [OF x _ ns, of p k] p by (fastforce simp: mh_ready_def)
  obtain q m1 where al: "rt_memheap_alloc ns m s = Some (Ret RT_EOK, q, m1, s)" "mh_inv m1" "same_rest m m1"
    "case q of None \<Rightarrow> m1 = m | Some q \<Rightarrow> \<exists>l. mh_size ns \<le> l \<and> (q, l) \<notin> mh_live m \<and> mh_live m1 = insert (q, l) (mh_live m)"
    using mh_alloc_live [of m s ns] x ns(1) by (auto simp: mh_ready_def)
  show ?thesis
  proof (cases q)
    case None
    with al(1) mv show ?thesis by (auto simp: move_block_def mh_try_alloc_def)
  next
    case (Some q')
    let ?m2 = "mh_copy q' p (if k < ns then k else ns) m1"
    have "mh_ready a e s (m1, s)" by (rule mh_ready_same [OF x al(2,3)])
    then have "mh_inv ?m2" "mh_lock_free ?m2 s" by (simp_all add: mh_ready_def)
    moreover have "(p, k) \<in> mh_live ?m2" using al(4) p Some by auto
    ultimately have "mh_inv ?m2" "mh_lock_free ?m2 s" "(p, k) \<in> mh_live ?m2" by simp_all
    from mh_free_live [OF this] obtain m3 where "rt_memheap_free (Some p) ?m2 s = Some (Ret RT_EOK, (), m3, s)" by blast
    with al(1) mv Some show ?thesis by (auto simp: move_block_def mh_try_alloc_def mh_try_free_def mh_try_copy_def)
  qed
qed

lemma mh_block_of:
  assumes "mh_inv m" "(p, k) \<in> mh_live m"
  obtains xs n ys where "mh_blocks m = xs @ (True, n) # ys" "p = mh_start_addr m + extent xs + 24" "k = n - 24"
    "mh_is m (xs @ (True, n) # ys)" "MEMITEM_SIZE m (p - 24) = k" "p - 24 = mh_start_addr m + extent xs" "40 \<le> n"
    "mh_start_addr m + extent xs + n + 24 \<le> 2 ^ 32"
proof -
  obtain xs n ys where b: "mh_blocks m = xs @ (True, n) # ys" "p = mh_start_addr m + extent xs + 24" "k = n - 24"
    using mh_regions_split assms(2) unfolding mh_live_def by fastforce
  have h: "mh_is m (xs @ (True, n) # ys)" using assms(1) b(1) by (simp add: mh_inv_def)
  show thesis by (rule that [OF b h]) (use block_facts(5) [OF mh_isD(2) [OF h]] mh_bounds [OF h] b in simp_all)
qed

lemma mh_realloc_spec:
  assumes x: "mh_ready a e s (m, s)" and p: "(p, k) \<in> mh_live m" and sz: "newsize < 2 ^ 32 - 23"
  shows "\<exists>r m'. rt_memheap_realloc (Some p) newsize m s = Some (Ret RT_EOK, r, m', s) \<and> mh_ready a e s (m', s) \<and>
    realloc_done (mh_live m) (mh_data m) (mh_live m') (mh_data m') p k newsize r"
proof -
  have s: "mh_inv m" "mh_lock_free m s" using x by (simp_all add: mh_ready_def)
  obtain xs n ys where b: "mh_blocks m = xs @ (True, n) # ys" "p = mh_start_addr m + extent xs + 24" "k = n - 24"
    "mh_is m (xs @ (True, n) # ys)" "MEMITEM_SIZE m (p - 24) = k" "p - 24 = mh_start_addr m + extent xs" "40 \<le> n"
    "mh_start_addr m + extent xs + n + 24 \<le> 2 ^ 32" by (rule mh_block_of [OF s(1) p])
  have o: "mh_object m \<noteq> Obj_Null" by (rule mh_isD(1) [OF b(4)])
  show ?thesis
  proof (cases "newsize = 0")
    case True
    obtain m' where m': "rt_memheap_free (Some p) m s = Some (Ret RT_EOK, (), m', s)" "mh_inv m'" "same_rest m m'"
      "mh_live m' = mh_live m - {(p, k)}" using mh_free_live [OF s p] by blast
    have "realloc_done (mh_live m) (mh_data m) (mh_live m') (mh_data m') p k newsize None"
      using True m'(3,4) by (simp add: realloc_done_def same_rest_def)
    with True o m'(1) mh_ready_same [OF x m'(2,3)] show ?thesis by (simp add: rt_memheap_realloc_def)
  next
    case False
    define ns where "ns = mh_size newsize"
    have "newsize < 2 ^ 32 - 7" using sz by simp
    note z = mh_size_facts [OF this] mh_size_below [OF sz]
    have ns: "newsize \<le> ns" "16 \<le> ns" "ns mod 8 = 0" "ns < 2 ^ 32 - 16" using z by (simp_all add: ns_def)
    have run: "rt_memheap_realloc (Some p) newsize m s =
      (if k < ns
       then do {
         (r, grown, m, s) \<leftarrow> mh_with_lock (memheap_grow_section (p - 24) k ns) False m s;
         if r \<noteq> Ret RT_EOK then Some (r, None, m, s)
         else if grown then Some (Ret RT_EOK, Some p, m, s)
         else do {
           (r, new_ptr, m, s) \<leftarrow> rt_memheap_alloc ns m s;
           (case new_ptr of
              None \<Rightarrow> Some (r, None, m, s)
            | Some q \<Rightarrow> do {
                (r, _, m, s) \<leftarrow> rt_memheap_free (Some p) (mh_copy q p (if k < ns then k else ns) m) s;
                Some (r, new_ptr, m, s)
              })
         }
       }
       else if k \<le> add32 (add32 ns 24) 16 then Some (Ret RT_EOK, Some p, m, s)
       else do {
         (r, _, m, s) \<leftarrow> mh_with_lock (memheap_shrink_section (p - 24) ns) () m s;
         Some (r, if r = Ret RT_EOK then Some p else None, m, s)
       })"
      using o False by (simp only: rt_memheap_realloc_def Let_def ns_def [symmetric] b(5) option.case) simp
    consider (grow) "k < ns" | (same) "\<not> k < ns" "k \<le> add32 (add32 ns 24) 16" | (shrink) "\<not> k < ns" "\<not> k \<le> add32 (add32 ns 24) 16" by blast
    then show ?thesis
    proof cases
      case grow
      obtain g m' where g: "mh_with_lock (memheap_grow_section (p - 24) k ns) False m s = Some (Ret RT_EOK, g, m', s)"
        "if g then mh_inv m' \<and> same_rest m m' \<and> realloc_done (mh_live m) (mh_data m) (mh_live m') (mh_data m') p k newsize (Some p)
         else m' = m"
        using mh_grow_live [OF s b(1) grow [unfolded b(3)] ns(3,4) False ns(1), folded b(2,3) b(6)] by blast
      show ?thesis
      proof (cases g)
        case True
        then have m': "mh_inv m'" "same_rest m m'" "realloc_done (mh_live m) (mh_data m) (mh_live m') (mh_data m') p k newsize (Some p)"
          using g(2) by simp_all
        have "rt_memheap_realloc (Some p) newsize m s = Some (Ret RT_EOK, Some p, m', s)" using run grow g(1) True by simp
        with m'(3) mh_ready_same [OF x m'(1,2)] show ?thesis by blast
      next
        case False
        have "ns < 2 ^ 32 - 7" using ns(4) by simp
        from mh_move_spec [OF x p this ns(1) \<open>newsize \<noteq> 0\<close>] show ?thesis using run grow g False by simp
      qed
    next
      case same
      have "realloc_done (mh_live m) (mh_data m) (mh_live m) (mh_data m) p k newsize (Some p)"
        using p False ns(1) same(1) by (auto simp: realloc_done_def intro!: exI [of _ k])
      with x run same show ?thesis by simp
    next
      case shrink
      have "add32 (add32 ns 24) 16 = ns + 40" using shrink(1) b(3,7,8) mh_bounds(3) [OF b(4)] by (simp add: add32_small)
      then have "ns + 64 \<le> n" using shrink(2) b(3) by simp
      from mh_shrink_live [OF s b(1) ns(2,3) this False ns(1), folded b(2,3) b(6)] obtain m' where
        m': "mh_with_lock (memheap_shrink_section (p - 24) ns) () m s = Some (Ret RT_EOK, (), m', s)" "mh_inv m'" "same_rest m m'"
        "realloc_done (mh_live m) (mh_data m) (mh_live m') (mh_data m') p k newsize (Some p)" by blast
      have "rt_memheap_realloc (Some p) newsize m s = Some (Ret RT_EOK, Some p, m', s)" using run shrink m'(1) by simp
      with m'(4) mh_ready_same [OF x m'(2,3)] show ?thesis by blast
    qed
  qed
qed

section \<open>Initialisation\<close>

lemma sem_init_free:
  assumes "sem_object (the_sem i s) = Obj_Null"
  shows "\<exists>s'. rt_sem_init i 1 PRIO s = Some (RT_EOK, s') \<and> sem_object (the_sem i s') \<noteq> Obj_Null \<and>
    sem_value (the_sem i s') = 1 \<and> ks_list s' (sem_head i) = []"
proof -
  have "the_sem i (list_set (sem_head i) [] s) = the_sem i s" for s by (rule the_sem_cong) (simp add: list_set_def)
  then show ?thesis using assms by (simp add: rt_sem_init_def)
qed

lemma mh_init_spec:
  assumes a: "0 < a" "a mod 8 = 0" "sz < 2 ^ 32" "64 \<le> RT_ALIGN_DOWN sz RT_ALIGN_SIZE" "a + RT_ALIGN_DOWN sz RT_ALIGN_SIZE \<le> 2 ^ 32"
    and fh: "fh \<noteq> 0" "fh < a \<or> a + RT_ALIGN_DOWN sz RT_ALIGN_SIZE \<le> fh" and l: "sem_object (the_sem lock s) = Obj_Null"
  shows "\<exists>m' s'. rt_memheap_init self fh lock a sz m s = Some (RT_EOK, m', s') \<and>
    mh_is m' [(False, RT_ALIGN_DOWN sz RT_ALIGN_SIZE - 24)] \<and>
    mh_ready a (RT_ALIGN_DOWN sz RT_ALIGN_SIZE) s' (m', s')"
proof -
  define pool where "pool = RT_ALIGN_DOWN sz RT_ALIGN_SIZE"
  have p: "64 \<le> pool" "a + pool \<le> 2 ^ 32" "pool mod 8 = 0" "fh < a \<or> a + pool \<le> fh" "pool < 2 ^ 32"
    using a fh RT_ALIGN_DOWN_le [OF a(3)] by (simp_all add: pool_def)
  let ?t = "a + (pool - 24)"
  have sub: "sub32 pool 48 = pool - 48" "add32 (add32 a (pool - 48)) 24 = ?t"
    using p a(1) by (simp_all add: sub32_small add32_small)
  have ne: "fh \<noteq> a" "?t \<noteq> a" "?t \<noteq> fh" "fh \<noteq> ?t" "a \<noteq> fh" "a \<noteq> ?t" using p by auto
  obtain s' where s': "rt_sem_init lock 1 PRIO s = Some (RT_EOK, s')" "sem_object (the_sem lock s') \<noteq> Obj_Null"
    "sem_value (the_sem lock s') = 1" "ks_list s' (sem_head lock) = []" using sem_init_free [OF l] by blast
  define m' where "m' = fst (snd (the (rt_memheap_init self fh lock a sz m s)))"
  note init = rt_memheap_init_def Let_def pool_def [symmetric] sub s'(1) [simplified]
  have run: "rt_memheap_init self fh lock a sz m s = Some (RT_EOK, m', s')" by (simp add: m'_def init)
  have f: "mh_self m' = self" "mh_object m' = Obj_Static" "mh_start_addr m' = a" "mh_pool_size m' = pool" "mh_available_size m' = pool - 48"
    "mh_free_list m' = fh" "mh_lock m' = lock" "\<not> mh_locked m'"
    by (simp_all add: m'_def init)
  have h: "hdrs m' a = (mh_magic False, self, ?t, ?t)" "hdrs m' ?t = (mh_magic True, self, a, a)"
    using ne by (simp_all add: m'_def init hdrs_def)
  have k: "ln_next (links m') fh = a" "ln_prev (links m') fh = a" "ln_next (links m') a = fh" "ln_prev (links m') a = fh"
    using ne by (simp_all add: m'_def init links_def)
  have "ring (links m') fh [a]" using k ne by (simp add: ring_def)
  then have "\<exists>fl. ring (links m') fh fl \<and> set fl = {a}" by (intro exI [of _ "[a]"]) simp
  then have "mh_is m' [(False, pool - 24)]"
    unfolding mh_is_def wf_blocks_def wf_free_def f using h p a(1,2) fh(1) by (auto simp: mod_eq_0_iff_dvd dvd_diff_nat)
  then have "mh_is m' [(False, pool - 24)]" "mh_ready a pool s' (m', s')"
    using mh_is_blocks(2) s'(2-4) f by (auto simp: mh_ready_def mh_lock_free_def)
  with run show ?thesis unfolding pool_def by blast
qed

section \<open>Giving back what was just taken\<close>

lemma mh_alloc_free:
  assumes x: "mh_ready a e s (m, s)" and sz: "sz < 2 ^ 32 - 7" and al: "rt_memheap_alloc sz m s = Some (Ret RT_EOK, Some p, m1, s)"
  shows "\<exists>m2. rt_memheap_free (Some p) m1 s = Some (Ret RT_EOK, (), m2, s) \<and> mh_ready a e s (m2, s) \<and> mh_blocks m2 = mh_blocks m"
proof -
  have s: "mh_inv m" "mh_lock_free m s" using x by (simp_all add: mh_ready_def)
  have h: "mh_is m (mh_blocks m)" using s(1) by (simp add: mh_inv_def)
  note z = mh_size_facts [OF sz]
  obtain r m' where r: "memheap_alloc_section (mh_size sz) m = Some (r, m')" "alloc_done (mh_size sz) (mh_blocks m) m r m'"
    using memheap_alloc_section_spec [OF h z(2,3)] by blast
  from r(2) have sr: "same_rest m m'" by (auto simp: alloc_done_def)
  have "mh_size sz < mh_available_size m" using al by (auto simp: rt_memheap_alloc_def split: if_splits)
  then have "rt_memheap_alloc sz m s = Some (Ret RT_EOK, r, m', s)"
    using mh_isD(1) [OF h] mh_with_lock_spec [of m s "memheap_alloc_section (mh_size sz)", OF s(2) r(1) sr] by (simp add: rt_memheap_alloc_def)
  with al have e: "r = Some p" "m' = m1" by simp_all
  then obtain xs n ys where b: "mh_blocks m = xs @ (False, n) # ys" "mh_size sz + 24 \<le> n" "p = mh_start_addr m + extent xs + 24"
    "mh_is m1 (xs @ mh_taken (mh_size sz) n @ ys)" using r(2) by (auto simp: alloc_done_def)
  have "\<exists>k rest. mh_taken (mh_size sz) n = (True, k) # rest" by (simp add: mh_taken_def)
  then obtain k rest where t: "mh_taken (mh_size sz) n = (True, k) # rest" by blast
  have h1: "mh_is m1 (xs @ (True, k) # rest @ ys)" using b(4) t by simp
  have x1: "mh_ready a e s (m1, s)" using mh_ready_same [OF x mh_is_blocks(2) [OF h1]] sr e(2) by simp
  have s1: "mh_lock_free m1 s" "mh_start_addr m1 = mh_start_addr m" using x x1 by (simp_all add: mh_ready_def)
  from mh_free_at [OF h1 s1(1)] obtain m2 where m2: "rt_memheap_free (Some p) m1 s = Some (Ret RT_EOK, (), m2, s)"
    "mh_is m2 (plugged xs k (rest @ ys))" "same_rest m1 m2" unfolding b(3) s1(2) by blast
  have "plugged xs k (rest @ ys) = xs @ (False, n) # ys"
    by (rule plugged_split) (use h b t in \<open>auto simp: mh_is_def mh_taken_def split: if_splits\<close>)
  then show ?thesis using m2 mh_ready_same [OF x1 mh_is_blocks(2) [OF m2(2)] m2(3)] mh_is_blocks(1) [OF m2(2)] b(1) by auto
qed

section \<open>Requests near 2^32\<close>

lemma mh_size_wraps: "2 ^ 32 - 7 \<le> sz \<Longrightarrow> sz < 2 ^ 32 \<Longrightarrow> mh_size sz = mh_size 1"
  using RT_ALIGN_wraps [of sz] by (simp add: mh_size_def RT_ALIGN_8)

lemma mh_size_top:
  assumes "2 ^ 32 - 23 \<le> sz" "sz < 2 ^ 32 - 7"
  shows "mh_size sz = 2 ^ 32 - 16 \<or> mh_size sz = 2 ^ 32 - 8"
proof -
  have "sz \<le> RT_ALIGN sz RT_ALIGN_SIZE" "RT_ALIGN sz RT_ALIGN_SIZE < sz + 8" "RT_ALIGN sz RT_ALIGN_SIZE mod 8 = 0"
    using RT_ALIGN_facts [of sz] assms by simp_all
  moreover obtain q where q: "RT_ALIGN sz RT_ALIGN_SIZE = 8 * q" using calculation(3) by (auto simp: mod_eq_0_iff_dvd dvd_def)
  ultimately have "2 ^ 32 - 23 \<le> 8 * q" "8 * q < 2 ^ 32" using assms by linarith+
  then have "q = 536870910 \<or> q = 536870911" by simp arith
  then have "RT_ALIGN sz RT_ALIGN_SIZE = 2 ^ 32 - 16 \<or> RT_ALIGN sz RT_ALIGN_SIZE = 2 ^ 32 - 8" unfolding q by auto
  then show ?thesis by (auto simp: mh_size_def Let_def)
qed

lemma memheap_grow_wraps:
  assumes s: "mh_is m (xs @ (True, n) # (False, k) # zs)" and ns: "ns = 2 ^ 32 - 16 \<or> ns = 2 ^ 32 - 8"
  defines "p \<equiv> mh_start_addr m + extent xs"
  shows "\<exists>m'. memheap_grow_section p (n - 24) ns m = Some (True, m') \<and> same_rest m m' \<and> mi_next (mh_item m' p) = p + 24 + ns - 2 ^ 32"
proof -
  let ?a = "mh_start_addr m" let ?bs = "xs @ (True, n) # (False, k) # zs" let ?hi = "?a + extent ?bs" let ?P = "free_heads ?a ?bs"
  note d = mh_isD [OF s] note b = mh_bounds [OF s] note bf = block_facts [OF d(2)]
  have w': "wf_blocks (mh_self m) (hdrs m) ?a ((xs @ [(True, n)]) @ (False, k) # zs)" using d(2) by simp
  note i = wf_blocks_item(2) [OF w']
  have lim: "p + n + k + extent zs + 24 \<le> 2 ^ 32" using b(1) by (simp add: p_def)
  have "extent xs mod 8 = 0" by (rule wf_blocks_item(6) [OF d(2)])
  then have p8: "8 \<le> p" using d(5) b(3) by (cases "?a < 8") (auto simp: p_def)
  define m1 where "m1 = mh_account (m\<lparr>mh_available_size := sub32 (mh_available_size m) (ns - (n - 24))\<rparr>)"
  have r1: "same_rest m m1" unfolding m1_def by (rule same_rest_trans [OF same_rest_steps(2,3)])
  have m1: "hdrs m1 = hdrs m" "wf_free m1 ?a ?hi ?P" "mh_self m1 = mh_self m" using d(8) r1 by (simp_all add: m1_def same_rest_def)
  have "p + n \<in> ?P" by (simp add: p_def)
  then obtain m2 where m2: "mh_remove_next_ptr (p + n) m1 = Some m2" "same_rest m1 m2"
    "wf_blocks (mh_self m) (hdrs m2) ?a (xs @ (True, n + k) # zs)"
    using remove_next_spec [of m1 ?a xs True n k zs ?a ?hi ?P] d(2) m1 zero_not_free [OF s] by (auto simp: p_def)
  have self2: "mh_self m2 = mh_self m" using m1(3) m2(2) by (simp add: same_rest_def)
  define q where "q = p + 24 + ns - 2 ^ 32"
  have q: "q = p + 8 \<or> q = p + 16" "add32 (p + 24) ns = q" using ns p8 lim b(2) by (auto simp: q_def add32_def le_mod_geq)
  have nx: "mi_next (mh_item m2 p) = p + n + k" using block_facts(1) [OF m2(3) [folded self2]] by (simp add: p_def)
  define m3 where "m3 = mh_push q (mh_new_block q p m2)"
  have "hdrs m3 p = with_next q (hdrs m2 p)"
    using q(1) b(2) i unfolding m3_def by (subst hdrs_free_steps, subst hdrs_new_block [OF _ nx]) auto
  then have "mi_next (mh_item m3 p) = q" by (simp add: hdrs_def)
  moreover have "same_rest m m3"
    unfolding m3_def by (rule same_rest_trans [OF same_rest_trans [OF same_rest_trans [OF r1 m2(2)] same_rest_steps(6)] same_rest_steps(4)])
  moreover have "memheap_grow_section p (n - 24) ns m = Some (True, m3)"
  proof -
    have "\<not> RT_MEMHEAP_IS_USED m (p + n)" using bf(6) by (simp add: p_def)
    moreover have "MEMITEM_SIZE m (p + n) = k - 24" using block_facts(5) [OF w'] by (simp add: p_def add.assoc)
    moreover have "add32 ns 16 < add32 (k - 24) (n - 24)" using ns lim b(2) i by (auto simp: add32_def)
    ultimately show ?thesis using bf(1) b(2) m2(1) q(2) by (simp add: memheap_grow_section_def m1_def m3_def p_def [symmetric])
  qed
  ultimately show ?thesis unfolding q_def by blast
qed

section \<open>Properties\<close>

lemma mh_regions_heads:
  "mh_sizes bs \<Longrightarrow> (p, k) \<in> set (mh_regions off bs) \<Longrightarrow> h \<in> heads off bs \<Longrightarrow> h + 24 \<le> p \<or> p + k \<le> h"
proof (induction bs arbitrary: off rule: extent.induct)
  case (2 u n bs)
  have z: "mh_sizes bs" "40 \<le> n" using "2.prems"(1) by auto
  have "off + n \<le> h" if "h \<in> heads (off + n) bs" using mh_heads_range [OF z(1), of "off + n"] that by auto
  moreover have "off + n + 24 \<le> p" if "(p, k) \<in> set (mh_regions (off + n) bs)" using mh_regions_range [OF z(1) that] by simp
  ultimately show ?case using "2.IH" [OF z(1), of "off + n"] "2.prems"(2,3) z(2) by (fastforce split: if_splits)
qed simp

text \<open>
  C9: No two blocks a client of a memory heap holds overlap, and none overlaps a header or leaves the region: after
  rt_memheap_init any run of rt_memheap_alloc (requests below 2^32 - 7 bytes) and rt_memheap_free of held blocks
  returns, with every assertion of the code satisfied and the lock free again; every block held is at
  least as long as asked for.
\<close>
theorem memheap_blocks_never_overlap:
  assumes "0 < a" "a mod 8 = 0" "sz < 2 ^ 32" "64 \<le> RT_ALIGN_DOWN sz RT_ALIGN_SIZE" "a + RT_ALIGN_DOWN sz RT_ALIGN_SIZE \<le> 2 ^ 32"
    "fh \<noteq> 0" "fh < a \<or> a + RT_ALIGN_DOWN sz RT_ALIGN_SIZE \<le> fh" "sem_object (the_sem lock s0) = Obj_Null"
    "rt_memheap_init self fh lock a sz m0 s0 = Some (RT_EOK, m, s)" "\<forall>n. Alloc n \<in> set ops \<longrightarrow> n < 2 ^ 32 - 7"
  shows "\<exists>held m'. alloc_run mh_try_alloc mh_try_free ops [] (m, s) = Some (held, (m', s)) \<and> mh_lock_free m' s \<and>
    (\<forall>i < length held. \<forall>j < length held. i \<noteq> j \<longrightarrow> apart (held ! i) (held ! j)) \<and>
    (\<forall>(p, n) \<in> set held. a + 24 \<le> p \<and> p + n + 24 \<le> a + sz \<and> (\<forall>h \<in> heads a (mh_blocks m'). apart (h, 24) (p, n)))"
proof -
  let ?e = "RT_ALIGN_DOWN sz RT_ALIGN_SIZE"
  have x: "mh_ready a ?e s (m, s)" using mh_init_spec [OF assms(1-8), of self m0] assms(9) by auto
  have "mh.holds [] (m, s)" by (simp add: mh.holds_def)
  from mh.run_holds [OF x this assms(10)] obtain held x' where
    r: "alloc_run mh_try_alloc mh_try_free ops [] (m, s) = Some (held, x')" and x': "mh_ready a ?e s x'" and h: "mh.holds held x'" by blast
  obtain m' where m': "x' = (m', s)" using x' by (cases x') (simp add: mh_ready_def)
  have i: "mh_inv m'" "mh_lock_free m' s" "mh_start_addr m' = a" "mh_pool_size m' = ?e" using x' m' by (simp_all add: mh_ready_def)
  have "\<forall>i < length held. \<forall>j < length held. i \<noteq> j \<longrightarrow> apart (held ! i) (held ! j)" using mh.holds_apart [OF x' h] by blast
  moreover have "a + 24 \<le> p \<and> p + n + 24 \<le> a + sz \<and> (\<forall>h \<in> heads a (mh_blocks m'). apart (h, 24) (p, n))"
    if pn: "(p, n) \<in> set held" for p n
  proof -
    have "\<exists>k. n \<le> k \<and> (p, k) \<in> mh_live m'" using h pn m' unfolding mh.holds_def by auto
    then obtain k where k: "n \<le> k" "(p, k) \<in> mh_live m'" by blast
    have "?e \<le> sz" using RT_ALIGN_DOWN_le [OF assms(3)] by simp
    then have f: "a + 24 \<le> p" "p + n + 24 \<le> a + sz" using mh_live_facts(2) [OF i(1) k(2)] i(3,4) k(1) by simp_all
    have "mh_sizes (mh_blocks m')" using i(1) by (intro mh_is_sizes [of m']) (simp add: mh_inv_def)
    then have "apart (h, 24) (p, n)" if "h \<in> heads a (mh_blocks m')" for h
      using mh_regions_heads [of "mh_blocks m'" p k a h] k that i(3) by (auto simp: mh_live_def apart_def)
    with f show ?thesis by blast
  qed
  ultimately show ?thesis using r m' i(2) by blast
qed

text \<open>
  C16: Reallocating a block of a memory heap returns, keeps the heap well formed and gives a block of at least the new
  size that holds the old bytes up to the shorter of the two sizes, every other block untouched, or
  RT_NULL with the old block intact; a new size of 0 frees the block. It holds whether the block grows in place,
  stays, is cut or moves, for new sizes below 2^32 - 23.
\<close>
theorem memheap_realloc_preserves_bytes:
  assumes "mh_inv m" "mh_lock_free m s" "(p, k) \<in> mh_live m" "newsize < 2 ^ 32 - 23"
  shows "\<exists>r m'. rt_memheap_realloc (Some p) newsize m s = Some (Ret RT_EOK, r, m', s) \<and> mh_inv m' \<and> mh_lock_free m' s \<and>
    realloc_done (mh_live m) (mh_data m) (mh_live m') (mh_data m') p k newsize r"
proof -
  have "mh_ready (mh_start_addr m) (mh_pool_size m) s (m, s)" using assms(1,2) by (simp add: mh_ready_def)
  from mh_realloc_spec [OF this assms(3,4)] show ?thesis unfolding mh_ready_def fst_conv by blast
qed

text \<open>
  C35: Sizes near 2^32 wrap. Growing a block to 2^32 - 23 up to 2^32 - 8 bytes reports success whenever the next block
  is free, and the header of the rest is then placed inside the header of the block itself. A size of
  2^32 - 7 or more is treated as 1: rt_memheap_alloc returns a block of 16 bytes, and
  rt_memheap_realloc cuts the block it was to enlarge.
\<close>
theorem memheap_request_size_wraps:
  assumes "mh_inv m" "mh_lock_free m s" "mh_blocks m = xs @ (True, n) # (False, k) # ys" "2 ^ 32 - 23 \<le> sz" "sz < 2 ^ 32"
  defines "p \<equiv> mh_start_addr m + extent xs + 24"
  shows "if sz < 2 ^ 32 - 7
    then \<exists>m'. rt_memheap_realloc (Some p) sz m s = Some (Ret RT_EOK, Some p, m', s) \<and> p - 24 < mi_next (mh_item m' (p - 24)) \<and>
      mi_next (mh_item m' (p - 24)) < p
    else rt_memheap_alloc sz m s = rt_memheap_alloc 1 m s \<and> rt_memheap_realloc (Some p) sz m s = rt_memheap_realloc (Some p) 1 m s"
proof (cases "sz < 2 ^ 32 - 7")
  case True
  define ns where "ns = mh_size sz"
  have ns: "ns = 2 ^ 32 - 16 \<or> ns = 2 ^ 32 - 8" unfolding ns_def by (rule mh_size_top [OF assms(4) True])
  have h: "mh_is m (xs @ (True, n) # (False, k) # ys)" using assms(1,3) by (simp add: mh_inv_def)
  note b = mh_bounds [OF h] note o = mh_isD(1) [OF h]
  have q: "p - 24 = mh_start_addr m + extent xs" "MEMITEM_SIZE m (p - 24) = n - 24"
    using block_facts(5) [OF mh_isD(2) [OF h]] by (simp_all add: p_def)
  obtain m' where m': "memheap_grow_section (p - 24) (n - 24) ns m = Some (True, m')" "same_rest m m'"
    "mi_next (mh_item m' (p - 24)) = p - 24 + 24 + ns - 2 ^ 32" using memheap_grow_wraps [OF h ns] unfolding q(1) by blast
  have "n - 24 < ns" "sz \<noteq> 0" using b(1,2) ns assms(4) by auto
  then have "rt_memheap_realloc (Some p) sz m s = Some (Ret RT_EOK, Some p, m', s)"
    using o mh_with_lock_spec [of m s "memheap_grow_section (p - 24) (n - 24) ns", OF assms(2) m'(1,2)]
    by (simp only: rt_memheap_realloc_def Let_def ns_def [symmetric] q(2) option.case) simp
  moreover have "p - 24 < mi_next (mh_item m' (p - 24)) \<and> mi_next (mh_item m' (p - 24)) < p"
    unfolding m'(3) using ns b(3) by (auto simp: p_def)
  ultimately show ?thesis using True by simp
next
  case False
  then have z: "mh_size sz = mh_size 1" and "sz \<noteq> 0" using mh_size_wraps [of sz] assms(5) by simp_all
  then have "sz = 0 \<longleftrightarrow> (1::nat) = 0" by simp
  then have "rt_memheap_alloc sz m s = rt_memheap_alloc 1 m s" "rt_memheap_realloc (Some p) sz m s = rt_memheap_realloc (Some p) 1 m s"
    unfolding rt_memheap_alloc_def rt_memheap_realloc_def Let_def z by (simp_all only:)
  with False show ?thesis by simp
qed

text \<open>Freeing a block just allocated restores the blocks of the heap, their sizes and their free neighbours.\<close>

lemma memheap_alloc_free_round_trip:
  assumes "mh_inv m" "mh_lock_free m s" "sz < 2 ^ 32 - 7" "rt_memheap_alloc sz m s = Some (Ret RT_EOK, Some p, m1, s)"
  shows "\<exists>m2. rt_memheap_free (Some p) m1 s = Some (Ret RT_EOK, (), m2, s) \<and> mh_inv m2 \<and> mh_blocks m2 = mh_blocks m"
proof -
  have "mh_ready (mh_start_addr m) (mh_pool_size m) s (m, s)" using assms(1,2) by (simp add: mh_ready_def)
  from mh_alloc_free [OF this assms(3,4)] show ?thesis by (auto simp: mh_ready_def)
qed

text \<open>A request for all the available bytes fails, though a block of that size is free.\<close>

lemma memheap_cannot_give_all:
  assumes "mh_is m [(False, n)]"
  shows "rt_memheap_alloc (n - 24) m s = Some (Ret RT_EOK, None, m, s)"
proof -
  have n: "40 \<le> n" "n mod 8 = 0" using mh_is_sizes [OF assms] by simp_all
  have "n + mh_start_addr m \<le> 2 ^ 32" "0 < mh_start_addr m" using mh_bounds [of m "[]" False n "[]"] assms by simp_all
  then have "n - 24 \<le> RT_ALIGN (n - 24) RT_ALIGN_SIZE" using RT_ALIGN_facts(1) [of "n - 24"] n by simp
  then have "\<not> mh_size (n - 24) < mh_available_size m" using mh_isD(7) [OF assms] n by (simp add: mh_size_def Let_def)
  then show ?thesis using mh_isD(1) [OF assms] by (simp add: rt_memheap_alloc_def)
qed

text \<open>A heap in 256 bytes at 0x1000, its control block at 64 and its free list header at 104.\<close>

definition empty_memheap :: rt_memheap where
  "empty_memheap = \<lparr>mh_self = 0, mh_object = Obj_Null, mh_start_addr = 0, mh_pool_size = 0, mh_available_size = 0, mh_max_used_size = 0,
     mh_block_list = 0, mh_free_list = 0, mh_lock = 0, mh_locked = False,
     mh_item = (\<lambda>_. \<lparr>mi_magic = 0, mi_pool_ptr = 0, mi_next = 0, mi_prev = 0, mi_next_free = 0, mi_prev_free = 0\<rparr>), mh_data = (\<lambda>_. 0)\<rparr>"

definition free_sem_kernel :: kstate where
  "free_sem_kernel = upd_sem 9 (\<lambda>x. x\<lparr>sem_object := Obj_Null\<rparr>) sample_kernel"

lemma sample_memheap:
  obtains m s where "rt_memheap_init 64 104 9 4096 256 empty_memheap free_sem_kernel = Some (RT_EOK, m, s)" "mh_is m [(False, 232)]"
    "mh_ready 4096 256 s (m, s)"
  using mh_init_spec [of 4096 256 104 9 free_sem_kernel 64 empty_memheap] by (auto simp: RT_ALIGN_DOWN_8 free_sem_kernel_def)

lemma sample_memheap_block:
  obtains m s where "mh_ready 4096 256 s (m, s)" "mh_blocks m = [(True, 48), (False, 184)]" "mh_start_addr m = 4096" "mh_live m = {(4120, 24)}"
proof -
  obtain m s where m: "mh_is m [(False, 232)]" "mh_ready 4096 256 s (m, s)" using sample_memheap by blast
  have z: "mh_size 24 = 24" by (simp add: mh_size_def RT_ALIGN_8)
  obtain r m' where r: "memheap_alloc_section 24 m = Some (r, m')" "alloc_done 24 [(False, 232)] m r m'"
    using memheap_alloc_section_spec [OF m(1), of 24] by auto
  then have m': "mh_is m' [(True, 48), (False, 184)]" "same_rest m m'" by (auto simp: alloc_done_def mh_no_fit_def mh_taken_def Cons_eq_append_conv)
  have x: "mh_ready 4096 256 s (m', s)" by (rule mh_ready_same [OF m(2) mh_is_blocks(2) [OF m'(1)] m'(2)])
  moreover have "mh_start_addr m' = 4096" using x by (simp add: mh_ready_def)
  ultimately show thesis using that mh_is_blocks(1,3) [OF m'(1)] by auto
qed

theorem memheap_blocks_never_overlap_witness:
  "\<exists>m s held m'. rt_memheap_init 64 104 9 4096 256 empty_memheap free_sem_kernel = Some (RT_EOK, m, s) \<and>
     alloc_run mh_try_alloc mh_try_free [Alloc 24, Alloc 40, Free 0, Alloc 8] [] (m, s) = Some (held, (m', s))"
proof -
  obtain m s where m: "rt_memheap_init 64 104 9 4096 256 empty_memheap free_sem_kernel = Some (RT_EOK, m, s)" using sample_memheap by blast
  have f: "sem_object (the_sem 9 free_sem_kernel) = Obj_Null" by (simp add: free_sem_kernel_def)
  from memheap_blocks_never_overlap [OF _ _ _ _ _ _ _ f m, where ops = "[Alloc 24, Alloc 40, Free 0, Alloc 8]"] m show ?thesis
    by (auto simp: RT_ALIGN_DOWN_8)
qed

theorem memheap_realloc_preserves_bytes_witness:
  "\<exists>m s r m'. (4120, 24) \<in> mh_live m \<and> rt_memheap_realloc (Some 4120) 100 m s = Some (Ret RT_EOK, r, m', s) \<and>
     realloc_done (mh_live m) (mh_data m) (mh_live m') (mh_data m') 4120 24 100 r"
proof -
  obtain m s where m: "mh_ready 4096 256 s (m, s)" "mh_live m = {(4120, 24)}" using sample_memheap_block by blast
  then have "mh_inv m" "mh_lock_free m s" "(4120, 24) \<in> mh_live m" by (simp_all add: mh_ready_def)
  from memheap_realloc_preserves_bytes [OF this, where newsize = 100] this(3) show ?thesis by fastforce
qed

theorem memheap_request_size_wraps_witness:
  "\<exists>m s m'. rt_memheap_realloc (Some 4120) 0xfffffff0 m s = Some (Ret RT_EOK, Some 4120, m', s) \<and> mi_next (mh_item m' 4096) < 4120"
proof -
  obtain m s where m: "mh_ready 4096 256 s (m, s)" "mh_blocks m = [] @ (True, 48) # (False, 184) # []" "mh_start_addr m = 4096"
    by (rule sample_memheap_block) simp
  then have i: "mh_inv m" "mh_lock_free m s" by (simp_all add: mh_ready_def)
  from memheap_request_size_wraps [OF i m(2), where sz = "0xfffffff0"] m(3) show ?thesis by auto
qed

end
