(* ===== verification/Ctime.thy ===== *)
theory Ctime
  imports Prelude "HOL-Library.Signed_Division"
begin

text \<open>
  Calendar time of the C library layer (\<open>components/libc/compilers/common/ctime.c\<close>): conversion between seconds
  since 1970 and broken-down time, its text form, and the table of POSIX timer numbers. \<open>int\<close> has
  32 bits and \<open>time_t\<close> 64; signed overflow and reads outside an array are \<open>None\<close>.
\<close>

section \<open>Data\<close>

record tm =
  tm_sec :: int
  tm_min :: int
  tm_hour :: int
  tm_mday :: int
  tm_mon :: int
  tm_year :: int
  tm_wday :: int
  tm_yday :: int
  tm_isdst :: int

definition zero_tm :: tm where
  "zero_tm = \<lparr>tm_sec = 0, tm_min = 0, tm_hour = 0, tm_mday = 0, tm_mon = 0, tm_year = 0, tm_wday = 0, tm_yday = 0, tm_isdst = 0\<rparr>"

text \<open>A result of \<open>int\<close> arithmetic, and a conversion to \<open>int\<close>.\<close>

definition c_int :: "int \<Rightarrow> int option" where
  "c_int x = (if - (2 ^ 31) \<le> x \<and> x < 2 ^ 31 then Some x else None)"

definition to_int :: "int \<Rightarrow> int" where
  "to_int x = (x + 2 ^ 31) mod 2 ^ 32 - 2 ^ 31"

abbreviation (input) SPD :: int where "SPD \<equiv> 24 * 60 * 60"

definition spm_table :: "int list" where
  "spm_table = [0, 31, 31 + 28, 31 + 28 + 31, 31 + 28 + 31 + 30, 31 + 28 + 31 + 30 + 31, 31 + 28 + 31 + 30 + 31 + 30,
     31 + 28 + 31 + 30 + 31 + 30 + 31, 31 + 28 + 31 + 30 + 31 + 30 + 31 + 31, 31 + 28 + 31 + 30 + 31 + 30 + 31 + 31 + 30,
     31 + 28 + 31 + 30 + 31 + 30 + 31 + 31 + 30 + 31, 31 + 28 + 31 + 30 + 31 + 30 + 31 + 31 + 30 + 31 + 30,
     31 + 28 + 31 + 30 + 31 + 30 + 31 + 31 + 30 + 31 + 30 + 31]"

definition spm :: "int \<Rightarrow> int option" where
  "spm i = (if 0 \<le> i \<and> i < 13 then Some (spm_table ! nat i) else None)"

definition isleap :: "int \<Rightarrow> bool" where
  "isleap year \<longleftrightarrow> year smod 4 = 0 \<and> (year smod 100 \<noteq> 0 \<or> year smod 400 = 0)"

section \<open>From seconds to a date\<close>

text \<open>The year in which the day falls, and the day in it.\<close>

function gm_year :: "int \<Rightarrow> int \<Rightarrow> int \<times> int" where
  "gm_year i work =
     (let k = (if isleap i then 366 else 365) in if work \<ge> k then gm_year (i + 1) (work - k) else (i, work))"
  by pat_completeness auto
termination by (relation "measure (\<lambda>(i, work). nat work)") (auto split: if_splits)

declare gm_year.simps [simp del]

fun gm_month :: "nat \<Rightarrow> int \<Rightarrow> nat" where
  "gm_month 0 work = 0"
| "gm_month (Suc i) work = (if spm_table ! Suc i > work then gm_month i work else Suc i)"

text \<open>The date of a day since 1970.\<close>

definition gm_civil :: "int \<Rightarrow> tm \<Rightarrow> tm option" where
  "gm_civil work r = do {
     let (i, work) = gm_year 1970 work;
     let r = r\<lparr>tm_year := i - 1900\<rparr>;
     let r = r\<lparr>tm_yday := work\<rparr>;
     let r = r\<lparr>tm_mday := 1\<rparr>;
     let (work, r) = (if isleap i \<and> work > 58 then (work - 1, if work = 59 then r\<lparr>tm_mday := 2\<rparr> else r) else (work, r));
     let i = gm_month 11 work;
     let r = r\<lparr>tm_mon := int i\<rparr>;
     s \<leftarrow> spm (int i);
     Some (r\<lparr>tm_mday := tm_mday r + (work - s)\<rparr>)
   }"

text \<open>\<open>timep\<close> is read before it is checked; \<open>r = RT_NULL\<close> is the flag. The result RT_NULL is the inner \<open>None\<close>.\<close>

definition gmtime_r :: "int option \<Rightarrow> bool \<Rightarrow> tm option option" where
  "gmtime_r timep r_null =
     (case timep of
        None \<Rightarrow> None
      | Some t \<Rightarrow>
          if r_null then Some None
          else do {
            let work = t smod SPD;
            let r = zero_tm;
            let r = r\<lparr>tm_sec := work smod 60\<rparr>;
            let work = work sdiv 60;
            let r = r\<lparr>tm_min := work smod 60\<rparr>;
            let r = r\<lparr>tm_hour := work sdiv 60\<rparr>;
            let work = to_int (t sdiv SPD);
            w \<leftarrow> c_int (4 + work);
            let r = r\<lparr>tm_wday := w smod 7\<rparr>;
            r \<leftarrow> gm_civil work r;
            Some (Some (r\<lparr>tm_isdst := 0\<rparr>))
          })"

definition localtime_r :: "int \<Rightarrow> int option \<Rightarrow> bool \<Rightarrow> tm option option" where
  "localtime_r tz t r_null =
     (case t of None \<Rightarrow> None | Some t \<Rightarrow> gmtime_r (Some (t + tz * 3600)) r_null)"

section \<open>From a date to seconds\<close>

text \<open>The loop that brings the day of the month into range, and its body.\<close>

definition carry_step :: "tm \<Rightarrow> tm option" where
  "carry_step t = do {
     y \<leftarrow> (if tm_mon t = 1 then c_int (tm_year t + 1900) else Some 0);
     let t = (if tm_mon t = 1 \<and> isleap y then t\<lparr>tm_mday := tm_mday t - 1\<rparr> else t);
     s \<leftarrow> spm (tm_mon t);
     let t = t\<lparr>tm_mday := tm_mday t - s\<rparr>;
     let t = t\<lparr>tm_mon := tm_mon t + 1\<rparr>;
     if tm_mon t > 11 then do { y \<leftarrow> c_int (tm_year t + 1); Some (t\<lparr>tm_mon := 0, tm_year := y\<rparr>) } else Some t
   }"

lemma spm_pos: "spm i = Some s \<Longrightarrow> 0 < i \<Longrightarrow> 31 \<le> s"
proof -
  assume s: "spm i = Some s" "0 < i"
  then have "i \<in> {1, 2, 3, 4, 5, 6, 7, 8, 9, 10, 11, 12}" by (simp add: spm_def split: if_splits) presburger
  then show ?thesis using s(1) by (auto simp: spm_def spm_table_def)
qed

lemma carry_step_less:
  assumes "spm (1 + tm_mon t) = Some b" "tm_mday t > b" "carry_step t = Some t'"
  shows "(t', t) \<in> measures [\<lambda>t. nat (tm_mday t), \<lambda>t. nat (12 - tm_mon t)]"
proof -
  have m: "- 1 \<le> tm_mon t" "tm_mon t < 12" using assms(1) by (auto simp: spm_def split: if_splits)
  have "0 \<le> b" using assms(1) spm_pos [OF assms(1)] m(1) by (cases "tm_mon t = - 1") (auto simp: spm_def spm_table_def)
  note m = m this
  obtain s where s: "spm (tm_mon t) = Some s" using assms(3) by (auto simp: carry_step_def Let_def bind_eq_Some_conv split: if_splits)
  then have "0 \<le> tm_mon t" by (simp add: spm_def split: if_splits)
  then consider "tm_mon t = 0" "s = 0" | "0 < tm_mon t" "31 \<le> s" using s spm_pos [OF s] by (cases "tm_mon t = 0") (auto simp: spm_def spm_table_def)
  then show ?thesis
  proof cases
    case 1
    with assms(3) show ?thesis by (auto simp: carry_step_def s[unfolded 1] spm_def spm_table_def)
  next
    case 2
    with assms(2,3) s m show ?thesis by (auto simp: carry_step_def bind_eq_Some_conv Let_def split: if_splits)
  qed
qed

function tm_carry :: "tm \<Rightarrow> tm option" where
  "tm_carry t =
     (case spm (1 + tm_mon t) of
        None \<Rightarrow> None
      | Some bound \<Rightarrow>
          if tm_mday t > bound then (case carry_step t of None \<Rightarrow> None | Some t' \<Rightarrow> tm_carry t') else Some t)"
  by pat_completeness auto
termination
  by (relation "measures [\<lambda>t. nat (tm_mday t), \<lambda>t. nat (12 - tm_mon t)]") (rule wf_measures, rule carry_step_less)

declare tm_carry.simps [simp del]

text \<open>The carries from seconds up to months.\<close>

definition tm_normal :: "tm \<Rightarrow> tm option" where
  "tm_normal t = do {
     t \<leftarrow> (if tm_sec t > 60
          then do { m \<leftarrow> c_int (tm_min t + tm_sec t sdiv 60); Some (t\<lparr>tm_min := m, tm_sec := tm_sec t smod 60\<rparr>) }
          else Some t);
     t \<leftarrow> (if tm_min t \<ge> 60
          then do { h \<leftarrow> c_int (tm_hour t + tm_min t sdiv 60); Some (t\<lparr>tm_hour := h, tm_min := tm_min t smod 60\<rparr>) }
          else Some t);
     t \<leftarrow> (if tm_hour t \<ge> 24
          then do { d \<leftarrow> c_int (tm_mday t + tm_hour t sdiv 24); Some (t\<lparr>tm_mday := d, tm_hour := tm_hour t smod 24\<rparr>) }
          else Some t);
     t \<leftarrow> (if tm_mon t \<ge> 12
          then do { y \<leftarrow> c_int (tm_year t + tm_mon t sdiv 12); Some (t\<lparr>tm_year := y, tm_mon := tm_mon t smod 12\<rparr>) }
          else Some t);
     tm_carry t
   }"

text \<open>Days from 1970 to the beginning of the year \<open>years\<close> after it.\<close>

definition gm_days :: "int \<Rightarrow> int" where
  "gm_days years =
     (let day = years * 365 + (years + 1) sdiv 4
      in if years \<ge> 131
         then let years = years - 131;
                  years = years sdiv 100;
                  day = day - ((years div 4) * 3 + 1);
                  years = years mod 4;
                  years = (if years = 3 then years - 1 else years)
              in day - years
         else day)"

text \<open>The result, and the structure as it is left; \<open>t = RT_NULL\<close> is \<open>None\<close>.\<close>

definition timegm :: "tm option \<Rightarrow> (int \<times> tm option) option" where
  "timegm t =
     (case t of
        None \<Rightarrow> Some (- 1, None)
      | Some t \<Rightarrow> do {
          let years = tm_year t - 70;
          t \<leftarrow> tm_normal t;
          if tm_year t < 70 then Some (- 1, Some t)
          else do {
            let day = gm_days years;
            y \<leftarrow> c_int (tm_year t + 1900);
            s \<leftarrow> spm (tm_mon t);
            yday \<leftarrow> c_int (s + tm_mday t - 1 + (if isleap y \<and> tm_mon t > 1 then 1 else 0));
            let t = t\<lparr>tm_yday := yday\<rparr>;
            let day = day + yday;
            let t = t\<lparr>tm_wday := (day + 4) smod 7\<rparr>;
            let day = day * 24;
            Some (((day + tm_hour t) * 60 + tm_min t) * 60 + tm_sec t, Some t)
          }
        })"

definition mktime :: "int \<Rightarrow> tm option \<Rightarrow> (int \<times> tm option) option" where
  "mktime tz t = do { (timestamp, t) \<leftarrow> timegm t; Some (timestamp - 3600 * tz, t) }"

section \<open>The time zone\<close>

text \<open>\<open>_current_timezone\<close>, of type \<open>int8_t\<close>.\<close>

definition tz_set :: "int \<Rightarrow> int \<Rightarrow> int" where
  "tz_set tz current = tz"

definition tz_get :: "int \<Rightarrow> int" where
  "tz_get current = current"

section \<open>Text form\<close>

definition text_bytes :: "string \<Rightarrow> u8 list" where
  "text_bytes s = map of_char s"

abbreviation (input) day_names :: string where "day_names \<equiv> ''Sun Mon Tue Wed Thu Fri Sat ''"
abbreviation (input) month_names :: string where "month_names \<equiv> ''Jan Feb Mar Apr May Jun Jul Aug Sep Oct Nov Dec ''"

definition num2str :: "int \<Rightarrow> u8 list" where
  "num2str i = [word_of_int (i sdiv 10 + 48), word_of_int (i smod 10 + 48)]"

text \<open>Four bytes of a string as the code copies them, as one \<open>int\<close>.\<close>

definition four_bytes :: "string \<Rightarrow> int \<Rightarrow> u8 list option" where
  "four_bytes s i = (if 0 \<le> i \<and> nat i + 4 \<le> length s then Some (take 4 (drop (nat i) (text_bytes s))) else None)"

definition asctime_day :: "int \<Rightarrow> u8 list" where
  "asctime_day d = (let s = num2str d in if hd s = 48 then [32, s ! 1] else s)"

text \<open>The 26 bytes written to \<open>buf\<close>; the result RT_NULL is the inner \<open>None\<close>.\<close>

definition asctime_r :: "tm option \<Rightarrow> bool \<Rightarrow> u8 list option option" where
  "asctime_r t buf_null =
     (case t of
        None \<Rightarrow> Some None
      | Some t \<Rightarrow>
          if buf_null then Some None
          else if int (length day_names) \<le> tm_wday t * 4 \<or> int (length month_names) \<le> tm_mon t * 4
          then do {
            w \<leftarrow> four_bytes day_names 0;
            m \<leftarrow> four_bytes month_names 0;
            Some (Some (w @ m @ asctime_day (tm_mday t) @ [32] @ num2str (tm_hour t) @ [58] @ num2str (tm_min t) @ [58] @
              num2str (tm_sec t) @ [32] @ num2str (2000 sdiv 100) @ num2str (2000 smod 100) @ [10, 0]))
          }
          else do {
            w \<leftarrow> four_bytes day_names (tm_wday t * 4);
            m \<leftarrow> four_bytes month_names (tm_mon t * 4);
            y \<leftarrow> c_int (tm_year t + 1900);
            Some (Some (w @ m @ asctime_day (tm_mday t) @ [32] @ num2str (tm_hour t) @ [58] @ num2str (tm_min t) @ [58] @
              num2str (tm_sec t) @ [32] @ num2str (y sdiv 100) @ num2str (y smod 100) @ [10, 0]))
          })"

definition ctime_r :: "int \<Rightarrow> int option \<Rightarrow> bool \<Rightarrow> u8 list option option" where
  "ctime_r tz tim_p result_null = do { r \<leftarrow> localtime_r tz tim_p False; asctime_r r result_null }"

section \<open>POSIX timer numbers\<close>

abbreviation (input) TIMER_ID_MAX :: nat where "TIMER_ID_MAX \<equiv> 50"

record 'a timer_ids =
  g_timerid :: "'a option list"
  timerid_idx :: nat

definition timer_id_init :: "'a timer_ids" where
  "timer_id_init = \<lparr>g_timerid = replicate TIMER_ID_MAX None, timerid_idx = 0\<rparr>"

fun free_id :: "nat \<Rightarrow> nat \<Rightarrow> 'a timer_ids \<Rightarrow> nat option" where
  "free_id i 0 s = None"
| "free_id i (Suc n) s = (if g_timerid s ! i = None then Some i else free_id (i + 1) n s)"

definition timer_id_alloc :: "'a timer_ids \<Rightarrow> int \<times> 'a timer_ids" where
  "timer_id_alloc s =
     (case free_id 0 (timerid_idx s) s of
        Some i \<Rightarrow> (int i, s)
      | None \<Rightarrow>
          if timerid_idx s < TIMER_ID_MAX
          then let s = s\<lparr>timerid_idx := timerid_idx s + 1\<rparr> in (int (timerid_idx s), s)
          else (- 1, s))"

definition timer_id_get :: "nat \<Rightarrow> 'a timer_ids \<Rightarrow> 'a option" where
  "timer_id_get timerid s = (if timerid \<ge> TIMER_ID_MAX then None else g_timerid s ! timerid)"

definition timer_id_put :: "nat \<Rightarrow> 'a timer_ids \<Rightarrow> (int \<times> 'a timer_ids) option" where
  "timer_id_put i s =
     (if i < length (g_timerid s)
      then Some (if g_timerid s ! i = None then (- 1, s) else (0, s\<lparr>g_timerid := (g_timerid s)[i := None]\<rparr>))
      else None)"

text \<open>How \<open>timer_create\<close> enters a timer into the table and \<open>timer_delete\<close> takes it out: the number or -1.\<close>

definition timer_enter :: "'a \<Rightarrow> 'a timer_ids \<Rightarrow> (int \<times> 'a timer_ids) option" where
  "timer_enter timer s =
     (let (i, s) = timer_id_alloc s
      in if i < 0 then Some (- 1, s)
         else if nat i < length (g_timerid s) then Some (i, s\<lparr>g_timerid := (g_timerid s)[nat i := Some timer]\<rparr>)
         else None)"

definition timer_remove :: "nat \<Rightarrow> 'a timer_ids \<Rightarrow> (int \<times> 'a timer_ids) option" where
  "timer_remove i s =
     (if i \<ge> TIMER_ID_MAX then Some (- 1, s)
      else if g_timerid s ! i = None then Some (- 1, s)
      else do { (_, s) \<leftarrow> timer_id_put i s; Some (0, s) })"

end
