(* ===== verification/Calendar.thy ===== *)
theory Calendar
  imports Ctime
begin

text \<open>
  The conversions of ctime.c against the Gregorian calendar given by the lengths of its years and months:
  gmtime_r names the day, timegm counts the seconds, and the two undo each other. What timegm does to
  dates out of range is stated apart, as are the limits of the timer table.
\<close>

section \<open>The calendar\<close>

definition leap_year :: "int \<Rightarrow> bool" where
  "leap_year y \<longleftrightarrow> 4 dvd y \<and> \<not> 100 dvd y \<or> 400 dvd y"

definition year_len :: "int \<Rightarrow> int" where
  "year_len y = (if leap_year y then 366 else 365)"

text \<open>Months are numbered from 0.\<close>

definition month_len :: "int \<Rightarrow> int \<Rightarrow> int" where
  "month_len y m = (if m = 1 then if leap_year y then 29 else 28 else if m \<in> {3, 5, 8, 10} then 30 else 31)"

definition valid_date :: "int \<Rightarrow> int \<Rightarrow> int \<Rightarrow> bool" where
  "valid_date y m d \<longleftrightarrow> 0 \<le> m \<and> m < 12 \<and> 1 \<le> d \<and> d \<le> month_len y m"

text \<open>Days from the beginning of the year, and from the beginning of 1970.\<close>

definition year_day :: "int \<Rightarrow> int \<Rightarrow> int \<Rightarrow> int" where
  "year_day y m d = (\<Sum>k \<leftarrow> [0..m - 1]. month_len y k) + (d - 1)"

definition civil_day :: "int \<Rightarrow> int \<Rightarrow> int \<Rightarrow> int" where
  "civil_day y m d = (\<Sum>k = 1970..<y. year_len k) + year_day y m d"

section \<open>Leap years\<close>

lemma smod_nonneg [simp]: "0 \<le> a \<Longrightarrow> 0 < b \<Longrightarrow> a smod b = a mod b" for a b :: int
  by (cases "a = 0") (simp_all add: signed_modulo_int_def)

lemma sdiv_nonneg [simp]: "0 \<le> a \<Longrightarrow> 0 < b \<Longrightarrow> a sdiv b = a div b" for a b :: int
  by (cases "a = 0") (simp_all add: signed_divide_int_def)

lemma isleap_leap_year: "0 \<le> y \<Longrightarrow> isleap y = leap_year y"
  by (simp add: isleap_def leap_year_def mod_eq_0_iff_dvd) (auto elim: dvd_trans [rotated])

definition leaps :: "int \<Rightarrow> int" where
  "leaps y = y div 4 - y div 100 + y div 400"

lemma div_step: "0 < k \<Longrightarrow> (y + 1) div k = y div k + (if k dvd y + 1 then 1 else 0)" for y k :: int
proof -
  assume k: "0 < k"
  define q r where "q = y div k" and "r = y mod k"
  have y: "y = k * q + r" "0 \<le> r" "r < k" using k by (simp_all add: q_def r_def)
  show ?thesis
  proof (cases "r = k - 1")
    case True
    then have e: "y + 1 = k * (q + 1)" using y(1) by (simp add: algebra_simps)
    then have "(y + 1) div k = q + 1" "k dvd y + 1" using k by simp_all
    then show ?thesis by (simp add: q_def)
  next
    case False
    then have "(y + 1) div k = q" "(y + 1) mod k = r + 1"
      using y k by (auto intro!: int_div_pos_eq int_mod_pos_eq [of _ _ q])
    then show ?thesis using y(2) by (auto simp: q_def dvd_eq_mod_eq_0)
  qed
qed

lemma leaps_step: "leaps (y + 1) = leaps y + (if leap_year (y + 1) then 1 else 0)"
proof -
  have "400 dvd y + 1 \<Longrightarrow> 100 dvd y + 1" "100 dvd y + 1 \<Longrightarrow> 4 dvd y + 1" by (auto elim: dvd_trans [rotated])
  then show ?thesis unfolding leaps_def leap_year_def div_step [of 4 y, simplified] div_step [of 100 y, simplified] div_step [of 400 y, simplified]
    by auto
qed

lemma days_to_year_Suc: "a \<le> y \<Longrightarrow> (\<Sum>k = a..<y + 1. year_len k) = (\<Sum>k = a..<y. year_len k) + year_len y" for a y :: int
proof -
  assume "a \<le> y"
  then have "{a..<y + 1} = insert y {a..<y}" by auto
  then show ?thesis by simp
qed

lemma days_to_year: "1970 \<le> y \<Longrightarrow> (\<Sum>k = 1970..<y. year_len k) = 365 * (y - 1970) + leaps (y - 1) - 477"
proof (induction y rule: int_ge_induct)
  case base
  show ?case by (simp add: leaps_def)
next
  case (step y)
  then have "(\<Sum>k = 1970..<y + 1. year_len k) = 365 * (y - 1970) + leaps (y - 1) - 477 + year_len y"
    using days_to_year_Suc [of 1970 y] by simp
  then show ?case using leaps_step [of "y - 1"] by (simp add: year_len_def)
qed

section \<open>Years\<close>

lemma gm_days_spec:
  assumes "0 \<le> n"
  shows "gm_days n = (\<Sum>k = 1970..<1970 + n. year_len k)"
proof -
  have four: "(1969 + n) div 4 = (n + 1) div 4 + 492" by presburger
  show ?thesis
  proof (cases "131 \<le> n")
    case False
    have "(1969 + n) div 100 - (1969 + n) div 400 = 15"
    proof (cases "n < 31")
      case True
      then have "(1969 + n) div 100 = 19" "(1969 + n) div 400 = 4" using assms by (auto intro!: int_div_pos_eq [where r = "1969 + n - _"])
      then show ?thesis by simp
    next
      case b: False
      then have "(1969 + n) div 100 = 20" "(1969 + n) div 400 = 5" using False by auto
      then show ?thesis by simp
    qed
    then show ?thesis using False assms four by (simp add: gm_days_def days_to_year leaps_def)
  next
    case True
    define c where "c = (n - 131) div 100"
    have c: "0 \<le> c" using True by (simp add: c_def)
    have h: "(1969 + n) div 100 = c + 21" using div_mult_self1 [of 100 "n - 131" 21] by (simp add: c_def algebra_simps)
    moreover have "(1969 + n) div 400 = (1969 + n) div 100 div 4" by (simp add: zdiv_zmult2_eq [symmetric])
    ultimately have "(1969 + n) div 400 = (c + 21) div 4" by simp
    moreover have "c + 21 - (c + 21) div 4 - 15 = c div 4 * 3 + 1 + (if c mod 4 = 3 then 2 else c mod 4)"
    proof -
      define q b where "q = c div 4" and "b = c mod 4"
      have "c = 4 * q + b" "b = 0 \<or> b = 1 \<or> b = 2 \<or> b = 3" unfolding q_def b_def by (simp, presburger)
      then show ?thesis by (auto simp flip: q_def b_def)
    qed
    moreover have "gm_days n = n * 365 + (n + 1) div 4 - (c div 4 * 3 + 1) - (if c mod 4 = 3 then 2 else c mod 4)"
      using True c by (simp add: gm_days_def Let_def c_def)
    moreover have "(\<Sum>k = 1970..<1970 + n. year_len k) = 365 * n + ((1969 + n) div 4 - (1969 + n) div 100 + (1969 + n) div 400) - 477"
      using days_to_year [of "1970 + n"] assms by (simp add: leaps_def add.commute)
    ultimately show ?thesis using four h by linarith
  qed
qed

lemma gm_year_spec:
  "0 \<le> a \<Longrightarrow> 0 \<le> w \<Longrightarrow> gm_year a w = (y, d) \<Longrightarrow> a \<le> y \<and> 0 \<le> d \<and> d < year_len y \<and> w = (\<Sum>k = a..<y. year_len k) + d"
proof (induction a w rule: gm_year.induct)
  case (1 a w)
  have k: "(if isleap a then 366 else 365) = year_len a" using isleap_leap_year "1.prems"(1) by (simp add: year_len_def)
  show ?case
  proof (cases "year_len a \<le> w")
    case True
    then have "gm_year (a + 1) (w - year_len a) = (y, d)" using "1.prems"(3) k by (subst (asm) gm_year.simps) simp
    then have ih: "a + 1 \<le> y \<and> 0 \<le> d \<and> d < year_len y \<and> w - year_len a = (\<Sum>k = a + 1..<y. year_len k) + d"
      using "1.IH" [OF refl] True "1.prems"(1) k by simp
    then have "{a..<y} = insert a {a + 1..<y}" by auto
    then show ?thesis using ih by simp
  next
    case False
    then have "y = a" "d = w" using "1.prems"(3) k by (subst (asm) gm_year.simps, simp)+
    then show ?thesis using False "1.prems"(2) by simp
  qed
qed

section \<open>Months\<close>

lemma month_cases: "0 \<le> m \<Longrightarrow> m < 12 \<Longrightarrow> m \<in> {0, 1, 2, 3, 4, 5, 6, 7, 8, 9, 10, 11}" for m :: int
  by simp presburger

lemma days_to_month:
  assumes "0 \<le> m" "m < 12"
  shows "(\<Sum>k \<leftarrow> [0..m - 1]. month_len y k) = spm_table ! nat m + (if leap_year y \<and> 1 < m then 1 else 0)"
  using month_cases [OF assms] by (auto simp: month_len_def spm_table_def upto_rec1)

lemma gm_month_spec: "0 \<le> w \<Longrightarrow> gm_month n w \<le> n \<and> spm_table ! gm_month n w \<le> w \<and> (gm_month n w < n \<longrightarrow> w < spm_table ! Suc (gm_month n w))"
  by (induction n) (auto simp: spm_table_def less_Suc_eq)

section \<open>From seconds to a date\<close>

lemma c_int_ok: "- (2 ^ 31) \<le> x \<Longrightarrow> x < 2 ^ 31 \<Longrightarrow> c_int x = Some x"
  by (simp add: c_int_def)

lemma to_int_id: "0 \<le> x \<Longrightarrow> x < 2 ^ 31 \<Longrightarrow> to_int x = x"
  by (simp add: to_int_def)

lemma spm_nat: "n < 13 \<Longrightarrow> spm (int n) = Some (spm_table ! n)"
  by (simp add: spm_def)

text \<open>Month and day of the month from the day of the year, as gmtime_r finds them.\<close>

definition gm_date :: "bool \<Rightarrow> int \<Rightarrow> int \<times> int" where
  "gm_date leap d =
     (let w = (if leap \<and> d > 58 then d - 1 else d); i = gm_month 11 w
      in (int i, (if leap \<and> d = 59 then 2 else 1) + (w - spm_table ! i)))"

lemma month_end:
  assumes "m < 11"
  shows "spm_table ! Suc m - spm_table ! m = (if m = 1 then 28 else if m \<in> {3, 5, 8, 10} then 30 else 31)"
proof -
  have "m \<in> {0, 1, 2, 3, 4, 5, 6, 7, 8, 9, 10}" using assms by simp presburger
  then show ?thesis by (auto simp: spm_table_def)
qed

lemma spm_mono: "i < 12 \<Longrightarrow> 0 \<le> spm_table ! i \<and> spm_table ! i \<le> 334 \<and> (2 \<le> i \<longrightarrow> 59 \<le> spm_table ! i) \<and> (i \<le> 1 \<longrightarrow> spm_table ! i \<le> 31)"
proof -
  assume "i < 12"
  then have "i \<in> {0, 1, 2, 3, 4, 5, 6, 7, 8, 9, 10, 11}" by simp presburger
  then show ?thesis by (auto simp: spm_table_def)
qed

lemma gm_date_spec:
  assumes d: "0 \<le> d" "d < year_len y" and g: "gm_date (leap_year y) d = (m, md)"
  shows "valid_date y m md" "year_day y m md = d"
proof -
  define w where "w = (if leap_year y \<and> d > 58 then d - 1 else d)"
  define i where "i = gm_month 11 w"
  have mi: "m = int i" "md = (if leap_year y \<and> d = 59 then 2 else 1) + (w - spm_table ! i)"
    using g by (auto simp: gm_date_def Let_def w_def i_def)
  have w: "0 \<le> w" "w < 365" using d by (auto simp: w_def year_len_def split: if_splits)
  have i: "i \<le> 11" "spm_table ! i \<le> w" "i < 11 \<Longrightarrow> w < spm_table ! Suc i" using gm_month_spec [OF w(1), of 11] by (auto simp: i_def)
  have len: "w - spm_table ! i < (if i = 1 then 28 else if i \<in> {3, 5, 8, 10} then 30 else 31)"
  proof (cases "i < 11")
    case True
    then show ?thesis using i(3) month_end [OF True] by linarith
  next
    case False
    then have "i = 11" using i(1) by simp
    then show ?thesis using w(2) by (simp add: spm_table_def)
  qed
  have s: "i \<le> 1 \<longleftrightarrow> w < 59"
  proof -
    consider "i = 0" | "i = 1" | "2 \<le> i" by linarith
    then show ?thesis using i spm_mono [of i] by cases (auto simp: spm_table_def)
  qed
  have "i = 0 \<Longrightarrow> w < 31" using len by (simp add: spm_table_def)
  then show "valid_date y m md"
    using len i(1,2) s unfolding valid_date_def mi month_len_def w_def by (auto split: if_splits)
  have "year_day y m md = spm_table ! i + (if leap_year y \<and> 1 < i then 1 else 0) + (md - 1)"
    unfolding year_day_def mi(1) using days_to_month [of "int i" y] i(1) by simp
  then show "year_day y m md = d" using s unfolding mi(2) w_def by (auto split: if_splits)
qed

lemma gm_civil_spec:
  assumes "0 \<le> D"
  shows "\<exists>y m d. valid_date y m d \<and> 1970 \<le> y \<and> 365 * (y - 1970) \<le> D \<and> civil_day y m d = D \<and>
    gm_civil D r = Some (r\<lparr>tm_year := y - 1900, tm_yday := year_day y m d, tm_mday := d, tm_mon := m\<rparr>)"
proof -
  obtain y d where g: "gm_year 1970 D = (y, d)" by force
  have y: "1970 \<le> y" "0 \<le> d" "d < year_len y" "D = (\<Sum>k = 1970..<y. year_len k) + d" using gm_year_spec [OF _ assms g] by simp_all
  obtain m md where md: "gm_date (leap_year y) d = (m, md)" by force
  note v = gm_date_spec [OF y(2,3) md]
  have "(\<Sum>k = 1970..<y. 365) \<le> (\<Sum>k = 1970..<y. year_len k)" by (rule sum_mono) (simp add: year_len_def)
  then have "365 * (y - 1970) \<le> D" using y(1,2,4) by simp
  moreover have "civil_day y m md = D" using v(2) y(4) by (simp add: civil_day_def)
  moreover have "gm_civil D r = Some (r\<lparr>tm_year := y - 1900, tm_yday := year_day y m md, tm_mday := md, tm_mon := m\<rparr>)"
  proof -
    have leap: "isleap y = leap_year y" by (rule isleap_leap_year) (use y(1) in simp)
    define w where "w = (if leap_year y \<and> d > 58 then d - 1 else d)"
    have mm: "m = int (gm_month 11 w)" "md = (if leap_year y \<and> d = 59 then 2 else 1) + (w - spm_table ! gm_month 11 w)"
      using md by (auto simp: gm_date_def Let_def w_def)
    have s: "spm (int (gm_month 11 w)) = Some (spm_table ! gm_month 11 w)"
      by (rule spm_nat) (use gm_month_spec [of w 11] y(2) in \<open>auto simp: w_def\<close>)
    show ?thesis
    proof (cases "leap_year y \<and> d > 58")
      case True
      with g s mm v(2) show ?thesis by (cases "d = 59") (simp_all add: gm_civil_def leap w_def Let_def)
    next
      case False
      then have "w = d" "\<not> (leap_year y \<and> d = 59)" by (auto simp: w_def)
      with False g s mm v(2) show ?thesis by (auto simp: gm_civil_def leap Let_def)
    qed
  qed
  ultimately show ?thesis using v(1) y(1) by blast
qed

lemma day_clock:
  "t mod 86400 mod 60 = t mod 60" "t mod 86400 div 60 mod 60 = t div 60 mod 60" "t mod 86400 div 60 div 60 = t div 3600 mod 24" for t :: int
proof -
  show "t mod 86400 mod 60 = t mod 60" by (rule mod_mod_cancel) simp
  have "t mod (60 * 1440) = 60 * (t div 60 mod 1440) + t mod 60" by (rule zmod_zmult2_eq) simp
  then have h: "t mod 86400 div 60 = t div 60 mod 1440" by simp
  show "t mod 86400 div 60 mod 60 = t div 60 mod 60" unfolding h by (rule mod_mod_cancel) simp
  have "t div 60 mod (60 * 24) = 60 * (t div 60 div 60 mod 24) + t div 60 mod 60" by (rule zmod_zmult2_eq) simp
  then show "t mod 86400 div 60 div 60 = t div 3600 mod 24" unfolding h by (simp add: zdiv_zmult2_eq [symmetric])
qed

lemma clock_of_day: "t div 3600 mod 24 * 3600 + t div 60 mod 60 * 60 + t mod 60 = t mod 86400" for t :: int
proof -
  have a: "t mod 86400 = 60 * (t div 60 mod 1440) + t mod 60" using zmod_zmult2_eq [of 1440 t 60] by simp
  have b: "t div 60 mod 1440 = 60 * (t div 60 div 60 mod 24) + t div 60 mod 60" using zmod_zmult2_eq [of 24 "t div 60" 60] by simp
  have c: "t div 60 div 60 = t div 3600" using zdiv_zmult2_eq [of 60 t 60] by simp
  show ?thesis unfolding a b c by simp
qed

lemma gmtime_spec:
  assumes t: "0 \<le> t" "t < SPD * (2 ^ 31 - 4)"
  shows "\<exists>y m d. valid_date y m d \<and> 1970 \<le> y \<and> y < 2 ^ 30 \<and> civil_day y m d = t div SPD \<and>
    gmtime_r (Some t) False = Some (Some \<lparr>tm_sec = t mod 60, tm_min = t div 60 mod 60, tm_hour = t div 3600 mod 24, tm_mday = d, tm_mon = m,
      tm_year = y - 1900, tm_wday = (4 + t div SPD) mod 7, tm_yday = year_day y m d, tm_isdst = 0\<rparr>)"
proof -
  define D where "D = t div 86400"
  have D: "0 \<le> D" "D < 2 ^ 31 - 4" using t by (simp_all add: D_def div_less_iff_less_mult)
  let ?r = "zero_tm\<lparr>tm_sec := t mod 60, tm_min := t div 60 mod 60, tm_hour := t div 3600 mod 24, tm_wday := (4 + D) mod 7\<rparr>"
  from gm_civil_spec [OF D(1), of ?r] obtain y m d where y: "valid_date y m d" "1970 \<le> y" "365 * (y - 1970) \<le> D" "civil_day y m d = D"
    "gm_civil D ?r = Some (?r\<lparr>tm_year := y - 1900, tm_yday := year_day y m d, tm_mday := d, tm_mon := m\<rparr>)" by blast
  have e: "t smod 86400 smod 60 = t mod 60" "t smod 86400 sdiv 60 smod 60 = t div 60 mod 60"
    "t smod 86400 sdiv 60 sdiv 60 = t div 3600 mod 24" "t sdiv 86400 = D"
  proof -
    have a: "t smod 86400 = t mod 86400" "t sdiv 86400 = t div 86400" using t(1) by simp_all
    have n: "0 \<le> t mod 86400 div 60" by (rule pos_imp_zdiv_nonneg_iff [THEN iffD2]) simp_all
    have b: "t mod 86400 smod 60 = t mod 86400 mod 60" "t mod 86400 sdiv 60 = t mod 86400 div 60"
      by (rule smod_nonneg, simp, simp) (rule sdiv_nonneg, simp, simp)
    have c: "t mod 86400 div 60 smod 60 = t mod 86400 div 60 mod 60" "t mod 86400 div 60 sdiv 60 = t mod 86400 div 60 div 60"
      using smod_nonneg [OF n, of 60] sdiv_nonneg [OF n, of 60] by (simp_all only: zero_less_numeral)
    show "t smod 86400 smod 60 = t mod 60" "t smod 86400 sdiv 60 smod 60 = t div 60 mod 60"
      "t smod 86400 sdiv 60 sdiv 60 = t div 3600 mod 24" "t sdiv 86400 = D"
      unfolding a b c day_clock D_def by (rule refl)+
  qed
  have w: "to_int D = D" "c_int (4 + D) = Some (4 + D)" "(4 + D) smod 7 = (4 + D) mod 7" using D by (simp_all add: to_int_id c_int_ok)
  have "gmtime_r (Some t) False = Some (Some (?r\<lparr>tm_year := y - 1900, tm_yday := year_day y m d, tm_mday := d, tm_mon := m, tm_isdst := 0\<rparr>))"
    using y(5) unfolding gmtime_r_def option.case if_False Let_def by (simp add: e w)
  then have "gmtime_r (Some t) False = Some (Some \<lparr>tm_sec = t mod 60, tm_min = t div 60 mod 60, tm_hour = t div 3600 mod 24, tm_mday = d, tm_mon = m,
      tm_year = y - 1900, tm_wday = (4 + t div SPD) mod 7, tm_yday = year_day y m d, tm_isdst = 0\<rparr>)" by (simp add: zero_tm_def D_def)
  moreover have "y < 2 ^ 30" using y(2,3) D(2) by simp
  ultimately show ?thesis using y(1,2,4) by (simp add: D_def)
qed

section \<open>From a date to seconds\<close>

definition month_start :: "int \<Rightarrow> int \<Rightarrow> int" where
  "month_start y m = (\<Sum>k \<leftarrow> [0..m - 1]. month_len y k)"

lemma month_start_Suc: "0 \<le> m \<Longrightarrow> month_start y (m + 1) = month_start y m + month_len y m"
  using upto_rec2 [of 0 m] by (simp add: month_start_def)

lemma month_len_range: "28 \<le> month_len y m" "month_len y m \<le> 31"
  by (auto simp: month_len_def)

lemma month_start_mono: "m \<le> m' \<Longrightarrow> 0 \<le> m \<Longrightarrow> month_start y m \<le> month_start y m'"
proof (induction m' rule: int_ge_induct)
  case (step k)
  then show ?case using month_start_Suc [of k y] month_len_range(1) [of y k] by simp
qed simp

lemma month_start_end: "month_start y 12 = year_len y"
  using month_start_Suc [of 11 y] days_to_month [of 11 y] by (simp add: month_start_def year_len_def month_len_def spm_table_def)

lemma year_day_range:
  assumes "valid_date y m d"
  shows "month_start y m \<le> year_day y m d" "year_day y m d < month_start y (m + 1)" "0 \<le> year_day y m d" "year_day y m d < year_len y"
proof -
  have v: "0 \<le> m" "m < 12" "1 \<le> d" "d \<le> month_len y m" using assms by (simp_all add: valid_date_def)
  show a: "month_start y m \<le> year_day y m d" and b: "year_day y m d < month_start y (m + 1)"
    using v month_start_Suc [OF v(1), of y] by (simp_all add: year_day_def month_start_def)
  have "month_start y 0 = 0" by (simp add: month_start_def)
  then show "0 \<le> year_day y m d" "year_day y m d < year_len y"
    using a b v month_start_mono [of 0 m y] month_start_mono [of "m + 1" 12 y] month_start_end by simp_all
qed

lemma year_day_inj:
  assumes "valid_date y m d" "valid_date y m' d'" "year_day y m d = year_day y m' d'"
  shows "m = m' \<and> d = d'"
proof -
  have v: "0 \<le> m" "0 \<le> m'" using assms by (simp_all add: valid_date_def)
  have "\<not> m < m'" "\<not> m' < m"
    using year_day_range(1,2) [OF assms(1)] year_day_range(1,2) [OF assms(2)] assms(3)
      month_start_mono [of "m + 1" m' y] month_start_mono [of "m' + 1" m y] v by auto
  then have "m = m'" by simp
  then show ?thesis using assms(3) by (simp add: year_day_def)
qed

lemma year_start_mono: "1970 \<le> y \<Longrightarrow> y \<le> y' \<Longrightarrow> (\<Sum>k = 1970..<y. year_len k) \<le> (\<Sum>k = 1970..<y'. year_len k)"
  by (rule sum_mono2) (auto simp: year_len_def)

text \<open>No two dates are the same day.\<close>

lemma civil_day_inj:
  assumes "valid_date y m d" "valid_date y' m' d'" "1970 \<le> y" "1970 \<le> y'" "civil_day y m d = civil_day y' m' d'"
  shows "y = y' \<and> m = m' \<and> d = d'"
proof -
  have less: "civil_day a b c < civil_day a' b' c'" if "valid_date a b c" "valid_date a' b' c'" "1970 \<le> a" "a < a'" for a b c a' b' c'
    using year_day_range(4) [OF that(1)] year_day_range(3) [OF that(2)] year_start_mono [of "a + 1" a'] days_to_year_Suc [OF that(3)] that(3,4)
    by (simp add: civil_day_def)
  have "\<not> y < y'" "\<not> y' < y" using less [OF assms(1,2,3)] less [OF assms(2,1,4)] assms(5) by auto
  then have "y = y'" by simp
  then show ?thesis using year_day_inj assms(1,2,5) by (simp add: civil_day_def)
qed

lemma year_day_table:
  assumes "0 \<le> m" "m < 12" "0 \<le> y"
  shows "year_day y m d = spm_table ! nat m + d - 1 + (if isleap y \<and> m > 1 then 1 else 0)"
  using days_to_month [OF assms(1,2)] isleap_leap_year [OF assms(3)] by (simp add: year_day_def)

lemma spm_int: "0 \<le> m \<Longrightarrow> m < 13 \<Longrightarrow> spm m = Some (spm_table ! nat m)"
  by (simp add: spm_def)

lemma carry_stays:
  assumes "0 \<le> tm_mon t" "tm_mon t < 12" "tm_mday t \<le> 31"
  shows "tm_carry t = Some t"
proof -
  have s: "spm (1 + tm_mon t) = Some (spm_table ! nat (1 + tm_mon t))" by (rule spm_int) (use assms in simp_all)
  then have "31 \<le> spm_table ! nat (1 + tm_mon t)" by (rule spm_pos) (use assms in simp)
  with s assms(3) show ?thesis by (subst tm_carry.simps) simp
qed

text \<open>The clock part of a broken-down time, leap seconds included.\<close>

definition clock_ok :: "tm \<Rightarrow> bool" where
  "clock_ok t \<longleftrightarrow> 0 \<le> tm_hour t \<and> tm_hour t < 24 \<and> 0 \<le> tm_min t \<and> tm_min t < 60 \<and> 0 \<le> tm_sec t \<and> tm_sec t \<le> 60"

abbreviation clock_secs :: "tm \<Rightarrow> int" where
  "clock_secs t \<equiv> tm_hour t * 3600 + tm_min t * 60 + tm_sec t"

text \<open>What timegm makes of a structure whose normal form is known.\<close>

lemma timegm_of_normal:
  assumes n: "tm_normal t = Some t'" and y: "70 \<le> tm_year t" "70 \<le> tm_year t'" "tm_year t' < 2 ^ 31 - 1900"
    and m: "0 \<le> tm_mon t'" "tm_mon t' < 12" "0 \<le> tm_mday t'" "tm_mday t' \<le> 366"
  defines "yday \<equiv> year_day (tm_year t' + 1900) (tm_mon t') (tm_mday t')"
  defines "day \<equiv> (\<Sum>k = 1970..<tm_year t + 1900. year_len k) + yday"
  shows "timegm (Some t) = Some (day * SPD + clock_secs t', Some (t'\<lparr>tm_yday := yday, tm_wday := (day + 4) smod 7\<rparr>))"
proof -
  have yd: "yday = spm_table ! nat (tm_mon t') + tm_mday t' - 1 + (if isleap (tm_year t' + 1900) \<and> tm_mon t' > 1 then 1 else 0)"
    unfolding yday_def by (rule year_day_table) (use m y in simp_all)
  have "nat (tm_mon t') < 12" using m by simp
  then have sb: "0 \<le> spm_table ! nat (tm_mon t')" "spm_table ! nat (tm_mon t') \<le> 334"
    using spm_mono by blast+
  have c: "c_int (tm_year t' + 1900) = Some (tm_year t' + 1900)" "spm (tm_mon t') = Some (spm_table ! nat (tm_mon t'))"
    "c_int yday = Some yday"
    using y m sb by (simp_all add: c_int_ok spm_int yd)
  have d: "gm_days (tm_year t - 70) = (\<Sum>k = 1970..<tm_year t + 1900. year_len k)" using gm_days_spec [of "tm_year t - 70"] y(1) by (simp add: add.commute)
  have ny: "(tm_year t' < 70) = False" using y(2) by simp
  show ?thesis
    by (simp only: timegm_def option.case Let_def n Option.bind.simps ny if_False c d yd [symmetric] day_def) simp
qed

lemma timegm_spec:
  assumes v: "valid_date (tm_year t + 1900) (tm_mon t) (tm_mday t)" and y: "70 \<le> tm_year t" "tm_year t < 2 ^ 31 - 1900" and c: "clock_ok t"
  shows "timegm (Some t) = Some (civil_day (tm_year t + 1900) (tm_mon t) (tm_mday t) * SPD + clock_secs t,
    Some (t\<lparr>tm_yday := year_day (tm_year t + 1900) (tm_mon t) (tm_mday t),
      tm_wday := (civil_day (tm_year t + 1900) (tm_mon t) (tm_mday t) + 4) smod 7\<rparr>))"
proof -
  have m: "0 \<le> tm_mon t" "tm_mon t < 12" "1 \<le> tm_mday t" "tm_mday t \<le> 31"
    using v month_len_range(2) [of "tm_year t + 1900" "tm_mon t"] by (simp_all add: valid_date_def)
  have "tm_normal t = Some t" using c m carry_stays [of t] by (simp add: tm_normal_def clock_ok_def)
  from timegm_of_normal [OF this y(1) y] m show ?thesis by (simp add: civil_day_def)
qed

section \<open>Properties of the conversions\<close>

text \<open>
  C36: Broken-down time names the instant exactly: for every time from 1970 on, gmtime_r gives the one date of the
  Gregorian calendar that is as many days after the beginning of 1970 as have passed, with the clock time
  and the day of the week, and its table-driven search ends.
\<close>
theorem gmtime_names_the_civil_date:
  assumes "0 \<le> t" "t < SPD * (2 ^ 31 - 4)"
  shows "\<exists>r. gmtime_r (Some t) False = Some (Some r) \<and>
    (\<forall>y m d. 1970 \<le> y \<and> valid_date y m d \<and> civil_day y m d = t div SPD \<longleftrightarrow> y = tm_year r + 1900 \<and> m = tm_mon r \<and> d = tm_mday r) \<and>
    tm_yday r = year_day (tm_year r + 1900) (tm_mon r) (tm_mday r) \<and> clock_secs r = t mod SPD \<and> tm_sec r < 60 \<and> clock_ok r \<and>
    tm_wday r = (t div SPD + 4) mod 7"
proof -
  obtain y m d where g: "valid_date y m d" "1970 \<le> y" "y < 2 ^ 30" "civil_day y m d = t div SPD"
    "gmtime_r (Some t) False = Some (Some \<lparr>tm_sec = t mod 60, tm_min = t div 60 mod 60, tm_hour = t div 3600 mod 24, tm_mday = d, tm_mon = m,
      tm_year = y - 1900, tm_wday = (4 + t div SPD) mod 7, tm_yday = year_day y m d, tm_isdst = 0\<rparr>)"
    using gmtime_spec [OF assms] by blast
  have "1970 \<le> y' \<and> valid_date y' m' d' \<and> civil_day y' m' d' = t div SPD \<longleftrightarrow> y' = y \<and> m' = m \<and> d' = d" for y' m' d'
    using civil_day_inj [OF g(1) _ g(2), of y' m' d'] g(1,2,4) by auto
  moreover obtain h n s where e: "t div 3600 mod 24 = h" "t div 60 mod 60 = n" "t mod 60 = s" by blast
  moreover have "h * 3600 + n * 60 + s = t mod 86400" using clock_of_day [of t] unfolding e .
  moreover have "0 \<le> h" "h < 24" "0 \<le> n" "n < 60" "0 \<le> s" "s < 60" unfolding e [symmetric] by simp_all
  ultimately show ?thesis using g(5) unfolding e by (intro exI conjI) (assumption, simp_all add: clock_ok_def add.commute)
qed

text \<open>
  C37: The conversions undo each other in any time zone: mktime of what localtime_r gives returns the time and leaves
  the structure as it is; gmtime_r and timegm are the case of zone 0.
\<close>
theorem calendar_time_round_trip:
  assumes "0 \<le> t + tz * 3600" "t + tz * 3600 < SPD * (2 ^ 31 - 4)"
  shows "\<exists>r. localtime_r tz (Some t) False = Some (Some r) \<and> mktime tz (Some r) = Some (t, Some r)"
proof -
  let ?t = "t + tz * 3600"
  obtain y m d where g: "valid_date y m d" "1970 \<le> y" "y < 2 ^ 30" "civil_day y m d = ?t div SPD"
    "gmtime_r (Some ?t) False = Some (Some \<lparr>tm_sec = ?t mod 60, tm_min = ?t div 60 mod 60, tm_hour = ?t div 3600 mod 24, tm_mday = d, tm_mon = m,
      tm_year = y - 1900, tm_wday = (4 + ?t div SPD) mod 7, tm_yday = year_day y m d, tm_isdst = 0\<rparr>)" (is "_ = Some (Some ?r)")
    using gmtime_spec [OF assms] by blast
  have "?t div 3600 mod 24 * 3600 + ?t div 60 mod 60 * 60 + ?t mod 60 = ?t mod 86400" by (rule clock_of_day)
  then have cs: "clock_secs ?r = ?t mod 86400" by (simp only: tm.simps)
  have "0 \<le> ?t div SPD + 4" using assms(1) by (simp add: pos_imp_zdiv_nonneg_iff add_nonneg_nonneg)
  then have w: "(?t div SPD + 4) smod 7 = (4 + ?t div SPD) mod 7" by (simp add: add.commute)
  have "clock_ok ?r" by (simp add: clock_ok_def)
  then have "timegm (Some ?r) = Some (civil_day y m d * SPD + clock_secs ?r, Some (?r\<lparr>tm_yday := year_day y m d, tm_wday := (civil_day y m d + 4) smod 7\<rparr>))"
    using timegm_spec [of ?r] g(1-3) by simp
  also have "\<dots> = Some (?t, Some ?r)" unfolding cs g(4) w by simp
  finally have "mktime tz (Some ?r) = Some (t, Some ?r)" by (simp add: mktime_def)
  then show ?thesis using g(5) by (simp add: localtime_r_def)
qed

text \<open>
  C38: timegm does not carry days and months as it means to. A day of January from 32 to 59 counts as that day of
  February, 31 days too late. A month number of 12 or more, on a day that the month it stands for has, moves the month
  but not the year the days are counted from: the result is too early by the length of all the years that the month number
  moves on, as many as \<open>tm_mon / 12\<close>.
\<close>
theorem timegm_carry_defects:
  assumes "clock_ok t" "70 \<le> tm_year t" "tm_year t < 2 ^ 31 - 1901"
  defines "y \<equiv> tm_year t + 1900" and "n \<equiv> tm_mon t div 12" and "m \<equiv> tm_mon t mod 12"
  shows "(tm_mon t = 0 \<and> 32 \<le> tm_mday t \<and> tm_mday t \<le> 59 \<longrightarrow>
      (\<exists>t'. timegm (Some t) = Some ((civil_day y 0 (tm_mday t) + 31) * SPD + clock_secs t, Some t'))) \<and>
    (12 \<le> tm_mon t \<and> y + n < 2 ^ 31 \<and> valid_date (y + n) m (tm_mday t) \<longrightarrow>
      (\<exists>t'. timegm (Some t) = Some ((civil_day (y + n) m (tm_mday t) - (\<Sum>k = y..<y + n. year_len k)) * SPD + clock_secs t, Some t')))"
proof (intro conjI impI)
  assume a: "tm_mon t = 0 \<and> 32 \<le> tm_mday t \<and> tm_mday t \<le> 59"
  have s: "spm 0 = Some 0" "spm 1 = Some 31" "spm 2 = Some 59" by (simp_all add: spm_def spm_table_def)
  let ?t = "t\<lparr>tm_mon := 1\<rparr>"
  have "carry_step t = Some ?t" using a s(1) by (simp add: carry_step_def)
  moreover have "tm_carry ?t = Some ?t" using a s by (subst tm_carry.simps) simp
  ultimately have "tm_carry t = Some ?t" using a s by (subst tm_carry.simps) simp
  then have "tm_normal t = Some ?t" using assms(1) a by (simp add: tm_normal_def clock_ok_def)
  from timegm_of_normal [OF this assms(2)] a assms(2,3) have
    "\<exists>t'. timegm (Some t) = Some (((\<Sum>k = 1970..<y. year_len k) + year_day y 1 (tm_mday t)) * SPD + clock_secs t, Some t')"
    by (simp add: y_def)
  moreover have "(\<Sum>k = 1970..<y. year_len k) + year_day y 1 (tm_mday t) = civil_day y 0 (tm_mday t) + 31"
    by (simp add: civil_day_def year_day_def month_len_def)
  ultimately show "\<exists>t'. timegm (Some t) = Some ((civil_day y 0 (tm_mday t) + 31) * SPD + clock_secs t, Some t')" by simp
next
  assume a: "12 \<le> tm_mon t \<and> y + n < 2 ^ 31 \<and> valid_date (y + n) m (tm_mday t)"
  have n: "1 \<le> n" unfolding n_def using conjunct1 [OF a] by presburger
  have m: "0 \<le> m" "m < 12" "1 \<le> tm_mday t" "tm_mday t \<le> 31"
    using a month_len_range(2) [of "y + n" m] by (simp_all add: valid_date_def m_def)
  let ?t = "t\<lparr>tm_year := tm_year t + n, tm_mon := m\<rparr>"
  have "tm_mon t sdiv 12 = n" "tm_mon t smod 12 = m" using a by (simp_all add: n_def m_def)
  moreover have "tm_carry ?t = Some ?t" using m by (intro carry_stays) simp_all
  ultimately have "tm_normal t = Some ?t" using assms(1,2) a n by (simp add: tm_normal_def clock_ok_def c_int_ok y_def)
  from timegm_of_normal [OF this assms(2)] a m n assms(2) have
    "\<exists>t'. timegm (Some t) = Some (((\<Sum>k = 1970..<y. year_len k) + year_day (y + n) m (tm_mday t)) * SPD + clock_secs t, Some t')"
    by (simp add: y_def ac_simps)
  moreover have "{1970..<y + n} = {1970..<y} \<union> {y..<y + n}" using assms(2) n by (auto simp: y_def)
  then have "(\<Sum>k = 1970..<y. year_len k) + (\<Sum>k = y..<y + n. year_len k) = (\<Sum>k = 1970..<y + n. year_len k)"
    by (simp add: sum.union_disjoint [symmetric])
  then have "(\<Sum>k = 1970..<y. year_len k) + year_day (y + n) m (tm_mday t) =
      civil_day (y + n) m (tm_mday t) - (\<Sum>k = y..<y + n. year_len k)"
    by (simp add: civil_day_def)
  ultimately show "\<exists>t'. timegm (Some t) =
      Some ((civil_day (y + n) m (tm_mday t) - (\<Sum>k = y..<y + n. year_len k)) * SPD + clock_secs t, Some t')"
    by simp
qed

text \<open>Times before 1970 have no date: a day before the epoch is the 0th of January 1970.\<close>

lemma gmtime_before_1970:
  "gmtime_r (Some (- 86400)) False = Some (Some \<lparr>tm_sec = 0, tm_min = 0, tm_hour = 0, tm_mday = 0, tm_mon = 0, tm_year = 70, tm_wday = 3,
     tm_yday = - 1, tm_isdst = 0\<rparr>)"
proof -
  have "gm_month 11 (- 1) = 0" by (simp add: spm_table_def eval_nat_numeral)
  moreover have "gm_year 1970 (- 1) = (1970, - 1)" by (subst gm_year.simps) simp
  ultimately show ?thesis
    by (simp add: gmtime_r_def gm_civil_def Let_def zero_tm_def signed_divide_int_def signed_modulo_int_def to_int_def c_int_def
        spm_def spm_table_def)
qed

section \<open>Timer numbers\<close>

text \<open>Entering timers, none of which is deleted.\<close>

fun timer_enters :: "nat \<Rightarrow> 'a \<Rightarrow> 'a timer_ids \<Rightarrow> 'a timer_ids option" where
  "timer_enters 0 t s = Some s"
| "timer_enters (Suc n) t s = do { s \<leftarrow> timer_enters n t s; (_, s) \<leftarrow> timer_enter t s; Some s }"

definition ids_full :: "nat \<Rightarrow> 'a timer_ids \<Rightarrow> bool" where
  "ids_full n s \<longleftrightarrow> length (g_timerid s) = 50 \<and> timerid_idx s = n - 1 \<and> (\<forall>i < 50. g_timerid s ! i \<noteq> None \<longleftrightarrow> i < n)"

lemma free_id_None: "free_id i n s = None \<longleftrightarrow> (\<forall>j \<in> {i..<i + n}. g_timerid s ! j \<noteq> None)"
proof (induction n arbitrary: i)
  case (Suc n)
  have "{i..<i + Suc n} = insert i {i + 1..<i + 1 + n}" by auto
  then show ?case using Suc.IH [of "i + 1"] by simp
qed simp

lemma ids_full_enter:
  assumes "ids_full n s" "2 \<le> n" "n \<le> 50"
  shows "if n < 50 then \<exists>s'. timer_enter t s = Some (int n, s') \<and> ids_full (Suc n) s' else timer_enter t s = None"
proof -
  have f: "free_id 0 (timerid_idx s) s = None" using assms by (auto simp: free_id_None ids_full_def)
  have "timerid_idx s < 50" using assms by (simp add: ids_full_def)
  then have a: "timer_id_alloc s = (int n, s\<lparr>timerid_idx := n\<rparr>)" using f assms(1,2) by (simp add: timer_id_alloc_def ids_full_def)
  show ?thesis using assms unfolding timer_enter_def a by (auto simp: ids_full_def nth_list_update)
qed

lemma first_two_ids: "\<exists>s. timer_enters 2 t timer_id_init = Some s \<and> ids_full 2 s"
proof -
  let ?g = "(replicate 50 None)[Suc 0 := Some t, 0 := Some t]"
  have "timer_enters 2 t timer_id_init = Some \<lparr>g_timerid = ?g, timerid_idx = 1\<rparr>"
    by (simp add: numeral_2_eq_2 timer_enter_def timer_id_alloc_def timer_id_init_def nth_list_update)
  moreover have "ids_full 2 \<lparr>g_timerid = ?g, timerid_idx = 1\<rparr>" by (auto simp: ids_full_def nth_list_update)
  ultimately show ?thesis by blast
qed

text \<open>
  C39: The limit on POSIX timers is checked one too late: fifty timers get numbers of their own, and the
  fifty-first, instead of being refused, is entered behind the end of the table.
\<close>
theorem timer_table_overflows:
  "(\<forall>n. 2 \<le> n \<and> n \<le> 50 \<longrightarrow> (\<exists>s. timer_enters n t timer_id_init = Some s \<and> (\<forall>i < 50. timer_id_get i s \<noteq> None \<longleftrightarrow> i < n))) \<and>
   timer_enters 51 t timer_id_init = None"
proof -
  have full: "\<exists>s. timer_enters n t timer_id_init = Some s \<and> ids_full n s" if "2 \<le> n" "n \<le> 50" for n
    using that
  proof (induction n rule: dec_induct)
    case base
    show ?case by (rule first_two_ids)
  next
    case (step n)
    then obtain s where "timer_enters n t timer_id_init = Some s" "ids_full n s" by auto
    with ids_full_enter [of n s t] step show ?case by auto
  qed
  obtain s where "timer_enters 50 t timer_id_init = Some s" "ids_full 50 s" using full [of 50] by auto
  with ids_full_enter [of 50 s t] have "timer_enters (Suc 50) t timer_id_init = None" by (simp only: timer_enters.simps Option.bind.simps)
  moreover have "(51 :: nat) = Suc 50" by simp
  ultimately have "timer_enters 51 t timer_id_init = None" by (simp only:)
  moreover have "\<exists>s. timer_enters n t timer_id_init = Some s \<and> (\<forall>i < 50. timer_id_get i s \<noteq> None \<longleftrightarrow> i < n)" if "2 \<le> n \<and> n \<le> 50" for n
    using full [of n] that by (auto simp: ids_full_def timer_id_get_def)
  ultimately show ?thesis by blast
qed

section \<open>Witnesses\<close>

text \<open>Noon of 29 February 2024, in zone 8 and in zone 0.\<close>

theorem gmtime_names_the_civil_date_witness:
  "\<exists>r. gmtime_r (Some 1709208000) False = Some (Some r) \<and> clock_secs r = 43200 \<and> tm_wday r = 4"
  using gmtime_names_the_civil_date [of 1709208000] by auto

theorem calendar_time_round_trip_witness:
  "\<exists>r. localtime_r 8 (Some 1709208000) False = Some (Some r) \<and> mktime 8 (Some r) = Some (1709208000, Some r)"
  by (rule calendar_time_round_trip) simp_all

text \<open>The 40th of January 1970, and the first day of the 31st month from January 1970 on, July 1972.\<close>

theorem timegm_carry_defects_witness:
  "(\<exists>t'. timegm (Some (zero_tm\<lparr>tm_year := 70, tm_mday := 40\<rparr>)) = Some (70 * 86400, Some t')) \<and>
   (\<exists>t'. timegm (Some (zero_tm\<lparr>tm_year := 70, tm_mon := 30, tm_mday := 1\<rparr>)) = Some ((civil_day 1972 6 1 - 730) * 86400, Some t'))"
proof
  have "civil_day 1970 0 40 = 39" by (simp add: civil_day_def year_day_def)
  then show "\<exists>t'. timegm (Some (zero_tm\<lparr>tm_year := 70, tm_mday := 40\<rparr>)) = Some (70 * 86400, Some t')"
    using timegm_carry_defects [of "zero_tm\<lparr>tm_year := 70, tm_mday := 40\<rparr>"] by (simp add: zero_tm_def clock_ok_def)
  have "{1970..<1972} = {1970, 1971 :: int}" by auto
  then have "(\<Sum>k = 1970..<1972. year_len k) = 730" by (simp add: year_len_def leap_year_def)
  then show "\<exists>t'. timegm (Some (zero_tm\<lparr>tm_year := 70, tm_mon := 30, tm_mday := 1\<rparr>)) = Some ((civil_day 1972 6 1 - 730) * 86400, Some t')"
    using timegm_carry_defects [of "zero_tm\<lparr>tm_year := 70, tm_mon := 30, tm_mday := 1\<rparr>"]
    by (simp add: zero_tm_def clock_ok_def valid_date_def month_len_def)
qed

theorem timer_table_overflows_witness:
  "timer_enters 51 () timer_id_init = None"
  using timer_table_overflows [of "()"] by blast

end
