(* ===== verification/Spec2Isabelle.thy ===== *)
theory Spec2Isabelle
  imports Rt_List Ring_Buffer Clock Semaphore Mutex_Properties Event Mailbox Msgqueue Small_Mem Mempool
    Kernel_Steps Object_Container Heap Kservice_Format Ring_Block Completion Data_Queue Wait_Queue Memheap_Client Calendar
begin

text \<open>
  A verification development for the RT-Thread kernel as built for the RK2108 board
  (\<open>bsp/rockchip/rk2108\<close>). File names below are relative to the directory \<open>src/\<close> of the kernel
  (\<open>src/ipc.c\<close>, \<open>src/thread.c\<close>, ...) unless they start with another directory of the repository.

  \<^bold>\<open>The program.\<close> RT-Thread is a real-time kernel: threads of 32 fixed priorities run on one core, the
  highest ready priority first and first come first served within a priority. A tick interrupt counts
  time, ends time slices and runs the callbacks of expired timers; the timer built into each thread
  ends a timed wait. Threads wait on IPC objects, each with a queue of waiters in arrival or priority
  order. Three allocators serve memory: a first-fit heap, heaps with a lock
  and a free list of their own, and pools of equal blocks. All objects are
  registered by class in a container, and a small library gives the kernel its memory and string functions.

  \<^bold>\<open>How the parts interact.\<close> Every IPC call that cannot complete takes the calling thread off the ready
  table (\<open>rt_thread_suspend_with_flag\<close>), queues it on the object, arms its timer and calls
  \<open>rt_schedule\<close>. What ends the wait, a call on the object or the timer's callback \<open>_thread_timeout\<close>, puts it
  back (\<open>rt_thread_resume\<close>) and leaves the reason in the thread's error field, which the call returns
  when the thread runs again. So one state holds the threads, the queues, the clock and the objects:
  record \<open>kstate\<close> of Kernel_State, with the ready table and all suspend lists in one field \<open>ks_list\<close>, as one
  node \<open>tlist\<close> of the thread is on at most one of them.

  \<^bold>\<open>Conventions.\<close> An operation is a function in the option monad on the state; \<open>None\<close> stands for
  everything after which the C code does not return or is undefined: a failed \<open>RT_ASSERT\<close>, a null or
  wild pointer, an access outside a buffer, an endless loop. A theorem that an operation returns
  \<open>Some\<close>, or that the predicate \<open>ok\<close> holds, is total correctness. Machine integers are words where they can
  wrap (ticks, sizes, counters, flags) and naturals elsewhere. A context switch is the change of
  \<open>ks_current\<close>; a call that may block is therefore in two functions, up to its \<open>rt_schedule\<close> (ending in \<open>Blocked\<close>) and
  from its return on (\<open>..._resume\<close>). Interrupts are disabled in the sections the model executes in one step;
  the message queue, which copies messages with interrupts enabled, is modelled section by section.

  \<^bold>\<open>Theories, in the order they build on each other.\<close>
  \<^item> Prelude: machine types, option monad, \<open>ok\<close>, alignment macros of \<open>include/rtdef.h\<close>.
  \<^item> Fifo, Min_Queue, Channel, Allocator: the interfaces (locales) that several components implement: a
    bounded first-in-first-out store, a store that gives its least element first, a channel with waiting
    readers and writers, an allocator of disjoint blocks. What a client may conclude is proved in each locale once;
    the component that provides the interface interprets it on its own operations.
  \<^item> Rt_List: \<open>include/rtservice.h\<close> at the level of \<open>next\<close> and \<open>prev\<close> pointers, and that each operation refines
    the operation on Isabelle lists that the rest of the development uses.
  \<^item> Ffs: \<open>__rt_ffs\<close> of \<open>src/kservice.c\<close> in both versions. Timer: \<open>src/timer.c\<close>. Kernel_State: the shared state.
    Scheduler: \<open>src/scheduler_up.c\<close>. Thread: \<open>src/thread.c\<close>. Clock: \<open>src/clock.c\<close> and \<open>rt_timer_check\<close>.
  \<^item> Ipc_Base, Semaphore, Mutex, Mutex_Properties, Event, Mailbox, Msgqueue: \<open>src/ipc.c\<close>.
  \<^item> Kernel_Frame, Kernel_Steps: the whole kernel as a transition system over ticks and the calls of the running
    thread on semaphores, event sets and mailboxes.
  \<^item> Small_Mem: \<open>src/mem.c\<close>. Memheap: \<open>src/memheap.c\<close>, with its lists of pointers as lists of blocks in Memheap_Blocks, what
    its operations do to those in Memheap_Spec and Memheap_Calls, and what clients may rely on in Memheap_Client.
    Mempool: \<open>src/mempool.c\<close>. Heap: \<open>rt_malloc\<close> and its family in \<open>src/kservice.c\<close>.
  \<^item> Kservice_Memory, Kservice_String, Kservice_Format: the memory and string functions and the formatted
    output (\<open>rt_vsnprintf\<close>, with its output pointer wrapping at 32 bits) of \<open>src/kservice.c\<close>.
    Object_Container: \<open>src/object.c\<close>.
  \<^item> Ring_Buffer: \<open>components/drivers/ipc/ringbuffer.c\<close>. Rt_Slist: the singly linked lists of
    \<open>include/rtservice.h\<close>. Ring_Block: \<open>components/drivers/ipc/ringblk_buf.c\<close>.
  \<^item> Driver_Wait: how the device framework blocks and wakes threads. Completion,
    Data_Queue, Wait_Queue: \<open>completion.c\<close>, \<open>dataqueue.c\<close> and \<open>waitqueue.c\<close> of \<open>components/drivers/ipc\<close>.
  \<^item> Ctime: the calendar conversions, the time zone and the table of POSIX timers of
    \<open>components/libc/compilers/common/ctime.c\<close>. Calendar: the Gregorian calendar by the lengths of its years and months,
    and the conversions against it.

  \<^bold>\<open>What is shown.\<close> For the scheduler: the ready table and its bitmap stay exact (\<open>sched_inv\<close>), and the running thread
  has the highest ready priority after every scheduling point. For the timers: the list stays in order of
  deadlines across wrap-around of the 32-bit tick, an interrupt fires exactly the timers that are due,
  and a timed wait ends at its tick and not before; in every run of the kernel it ends no later. For the IPC objects: each refines its abstract object (a
  counting semaphore, a bounded channel whose calls also say whom they wake and what a blocked caller does when it runs again, a set
  of flags that serves its queue in order), takes and
  releases of mutexes keep priority inheritance, and message queue sections of different threads interleave
  safely. For the kernel as a whole: \<open>kernel_ok\<close> and the rules of waiting (no thread waits on an object
  that could serve it) hold in every reachable state, and in such a state no call and no tick gets
  stuck. For the allocators: blocks in use never overlap, stay within the heap and keep their bytes; freeing
  restores the heap. For the library: the word-wise loops agree with byte-wise definitions, searches find the
  first occurrence, tokens are the maximal runs without delimiters. For the registry: objects found are
  those registered and not yet detached. For the calendar: \<open>gmtime_r\<close> names the one date of an instant, and
  \<open>timegm\<close> and \<open>mktime\<close> undo \<open>gmtime_r\<close> and \<open>localtime_r\<close>.
  The error theorems exhibit inputs on which the code does not do what it promises: an
  overflow, a null owner, an endless loop, a missing list.

  \<^bold>\<open>Bounds and loops.\<close> Loops over data that the C code walks by pointers are \<open>partial_function\<close>s in the option
  monad, so that a walk that does not end is \<open>None\<close>, and the theorems show that they do end on well-formed
  data. The inheritance chain of mutexes and the walk over heap headers are of this kind. The one bound
  given as fuel, the number of calls in a run of \<open>rt_strtok_r\<close>, is the length of the string plus one, and each
  call that returns a token consumes a character. Delays of timers are below \<open>HALF\<close>, half the range of the tick, as the code asserts.

  \<^bold>\<open>Configuration.\<close> 32-bit little-endian target, one core, 32 priorities, alignment 8, names of 8 bytes, 1000 ticks per second, \<open>RT_DEBUG\<close> on,
  one skip-list level, the small-memory algorithm as the heap; no signals, no soft timers, no loadable modules, no
  \<open>RT_USING_SMART\<close>; plain \<open>char\<close> unsigned; hooks unset. The callbacks of application timers and, for the
  \<open>_create\<close> functions, the object allocator are parameters, with what is relied on as hypotheses.

  \<^bold>\<open>Not modelled.\<close> Stacks, context switches and interrupt entry (assembly of the ports); printouts and
  the console; start-up, whose order is decided by the linker; the multiprocessor scheduler, signals, the slab allocator
  and lightweight processes, which the configuration leaves out; drivers, file
  systems, network stack, shell and board code, which are hardware access, vendored, or clients of the kernel.
\<close>

end
